(* ===== verification/Prelude.thy ===== *)
theory Prelude
  imports Main "HOL-Library.Word" "HOL-Library.Monad_Syntax"
begin

text \<open>
  Shared types, automation and generic lemmas.

  Conventions of the whole development.
  \<^item> A byte is an 8 bit word. A C string is the list of its bytes up to, and without, the
    terminating NUL; \<open>no_nul\<close> is the invariant that the list holds no NUL itself, and reading
    one byte past the end gives the terminator (\<open>first_byte\<close>).
  \<^item> \<open>'a outcome\<close> is what a call of a C function that can stop the process gives: \<open>None\<close> (written
    \<open>crash\<close>) when an assert fails or the behaviour is undefined, \<open>Some r\<close> when it returns \<open>r\<close>.
    A function that can return NULL has an \<open>option\<close> as its result inside that.
  \<^item> Asserts that a pointer argument is not NULL, and asserts on a size that every caller passes as
    a \<open>sizeof\<close>, hold by the types of the model and are left out; asserts that depend on data are
    branches that give \<open>crash\<close>.
  \<^item> The default allocator aborts the process when memory is exhausted (\<open>oom\<close> in
    avahi-common/malloc.c), so the out-of-memory returns of the code are not modelled.
\<close>

unbundle bit_operations_syntax

type_synonym byte = "8 word"
type_synonym u16 = "16 word"
type_synonym u32 = "32 word"
type_synonym cstr = "byte list"
type_synonym 'a outcome = "'a option"

abbreviation (input) crash :: "'a outcome" where
  "crash \<equiv> None"

definition assert_that :: "bool \<Rightarrow> unit outcome" where
  "assert_that b = (if b then Some () else crash)"

named_theorems avahi_defs \<open>operations unfolded by the component proofs\<close>

lemma assert_that_Some [simp]: "assert_that b = Some u \<longleftrightarrow> b"
  by (simp add: assert_that_def)

lemma assert_that_simps [simp]: "assert_that True = Some ()" "assert_that False = None"
  by (simp_all add: assert_that_def)

text \<open>A string literal of the source, as bytes.\<close>

definition str :: "string \<Rightarrow> cstr" where
  "str s = map of_char s"

lemma str_simps [simp]: "str [] = []" "str (c # s) = of_char c # str s"
  by (simp_all add: str_def)

lemma length_str [simp]: "length (str s) = length s"
  by (simp add: str_def)

definition first_byte :: "cstr \<Rightarrow> byte" where
  "first_byte s = (case s of [] \<Rightarrow> 0 | c # _ \<Rightarrow> c)"

lemma first_byte_simps [simp]: "first_byte [] = 0" "first_byte (c # s) = c"
  by (simp_all add: first_byte_def)

definition no_nul :: "byte list \<Rightarrow> bool" where
  "no_nul s \<longleftrightarrow> 0 \<notin> set s"

lemma no_nul_simps [simp]:
  "no_nul []" "no_nul (c # s) \<longleftrightarrow> c \<noteq> 0 \<and> no_nul s" "no_nul (s @ t) \<longleftrightarrow> no_nul s \<and> no_nul t"
  by (auto simp: no_nul_def)

text \<open>The C string that starts at the beginning of a byte buffer.\<close>

definition c_string :: "byte list \<Rightarrow> cstr" where
  "c_string b = takeWhile (\<lambda>c. c \<noteq> 0) b"

lemma c_string_id [simp]: "no_nul s \<Longrightarrow> c_string s = s"
  by (auto simp: c_string_def no_nul_def takeWhile_eq_all_conv)

lemma no_nul_c_string [simp]: "no_nul (c_string b)"
  by (auto simp: c_string_def no_nul_def dest: set_takeWhileD)

text \<open>The ctype functions of the C locale.\<close>

definition isdigit_c :: "byte \<Rightarrow> bool" where
  "isdigit_c c \<longleftrightarrow> 48 \<le> c \<and> c \<le> 57"

definition tolower_c :: "byte \<Rightarrow> byte" where
  "tolower_c c = (if 65 \<le> c \<and> c \<le> 90 then c + 32 else c)"

definition toupper_c :: "byte \<Rightarrow> byte" where
  "toupper_c c = (if 97 \<le> c \<and> c \<le> 122 then c - 32 else c)"

definition digit_value :: "byte \<Rightarrow> nat" where
  "digit_value c = unat (c - 48)"

text \<open>\<open>strcasecmp (a, b) == 0\<close>, and \<open>strcmp\<close> as a number of the right sign.\<close>

definition strcaseeq :: "cstr \<Rightarrow> cstr \<Rightarrow> bool" where
  "strcaseeq a b \<longleftrightarrow> map tolower_c a = map tolower_c b"

fun strcmp :: "cstr \<Rightarrow> cstr \<Rightarrow> int" where
  "strcmp [] [] = 0"
| "strcmp [] (y # ys) = - uint y"
| "strcmp (x # xs) [] = uint x"
| "strcmp (x # xs) (y # ys) = (if x = y then strcmp xs ys else uint x - uint y)"

subsection \<open>Bits and words\<close>

lemma byte_lt [simp]: "unat (b :: byte) < 256"
  using unsigned_less [of b, where 'a = nat] by simp

lemma u16_lt [simp]: "unat (b :: u16) < 65536"
  using unsigned_less [of b, where 'a = nat] by simp

lemma u32_lt [simp]: "unat (b :: u32) < 4294967296"
  using unsigned_less [of b, where 'a = nat] by simp

lemma take_bit_byte [simp]: "8 \<le> n \<Longrightarrow> take_bit n (unat (b :: byte)) = unat b"
  using power_increasing [of 8 n "2 :: nat"] byte_lt [of b]
  by (auto simp: take_bit_nat_eq_self_iff simp del: byte_lt)

text \<open>A fact about one byte, by evaluation on all of them.\<close>

lemma byte_all: "list_all (\<lambda>n. P (word_of_nat n :: byte)) [0..<256] \<Longrightarrow> P c"
  by (rule word_nat_cases [of c]) (auto simp: list_all_iff)

lemma nat_div_eq_iff:
  assumes k: "0 < (k :: nat)"
  shows "n div k = q \<longleftrightarrow> q * k \<le> n \<and> n < Suc q * k"
proof -
  have "n div k = q \<longleftrightarrow> q \<le> n div k \<and> n div k < Suc q" by auto
  with k show ?thesis
    by (simp only: less_eq_div_iff_mult_less_eq div_less_iff_less_mult)
qed

text \<open>Masking with a block of ones, and joining two blocks, as arithmetic.\<close>

lemma nat_and_block: "(n :: nat) AND push_bit k (mask j) = n div 2 ^ k mod 2 ^ j * 2 ^ k"
proof -
  have "n AND push_bit k (mask j) = push_bit k (take_bit j (drop_bit k n))"
    by (rule bit_eqI) (auto simp: bit_simps)
  then show ?thesis by (simp add: push_bit_eq_mult take_bit_eq_mod drop_bit_eq_div)
qed

lemma nat_push_or:
  assumes m: "m < 2 ^ k"
  shows "push_bit k n OR m = n * 2 ^ k + (m :: nat)"
proof -
  have "drop_bit k (push_bit k n OR m) = n"
    using m by (simp add: drop_bit_or) (simp add: drop_bit_eq_div push_bit_eq_mult)
  moreover have "take_bit k (push_bit k n OR m) = m"
    using m by (simp add: take_bit_or take_bit_push_bit take_bit_nat_eq_self)
  ultimately show ?thesis
    using bits_ident [of k "push_bit k n OR m"] by (simp add: push_bit_eq_mult)
qed

text \<open>The byte of a number; kept folded, so that sums inside stay sums.\<close>

definition byte_of :: "nat \<Rightarrow> byte" where
  "byte_of n = word_of_nat n"

lemma unat_byte_of [simp]: "n < 256 \<Longrightarrow> unat (byte_of n) = n"
  by (simp add: byte_of_def unat_of_nat)

lemma byte_of_unat [simp]: "byte_of (unat b) = b"
  by (simp add: byte_of_def)

lemma byte_of_inj [simp]: "m < 256 \<Longrightarrow> n < 256 \<Longrightarrow> byte_of m = byte_of n \<longleftrightarrow> m = n"
  by (metis unat_byte_of)

lemma byte_le_byte_of [simp]:
  "n < 256 \<Longrightarrow> b \<le> byte_of n \<longleftrightarrow> unat b \<le> n" "n < 256 \<Longrightarrow> byte_of n \<le> b \<longleftrightarrow> n \<le> unat b"
  "n < 256 \<Longrightarrow> b < byte_of n \<longleftrightarrow> unat b < n" "n < 256 \<Longrightarrow> byte_of n < b \<longleftrightarrow> n < unat b"
  by (simp_all add: word_le_nat_alt word_less_nat_alt)

definition u16_of :: "nat \<Rightarrow> u16" where
  "u16_of n = word_of_nat n"

definition u32_of :: "nat \<Rightarrow> u32" where
  "u32_of n = word_of_nat n"

lemma unat_u16_of [simp]: "n < 65536 \<Longrightarrow> unat (u16_of n) = n"
  by (simp add: u16_of_def unat_of_nat)

lemma unat_u32_of [simp]: "n < 4294967296 \<Longrightarrow> unat (u32_of n) = n"
  by (simp add: u32_of_def unat_of_nat)

lemma u16_of_unat [simp]: "u16_of (unat w) = w"
  by (simp add: u16_of_def)

lemma u32_of_unat [simp]: "u32_of (unat w) = w"
  by (simp add: u32_of_def)

end
