(* ===== verification/Utf8.thy ===== *)
theory Utf8
  imports Prelude
begin

text \<open>
  UTF-8 validation (avahi-common/utf8.c). \<open>utf8_char\<close> is the body of the loop of
  \<open>avahi_utf8_valid\<close> for one lead byte \<open>c\<close> and the bytes \<open>p\<close> behind it: the bytes left after the
  character, or \<open>None\<close> where the code jumps to \<open>error\<close>. The lemmas show that exactly the
  concatenations of encoded code points are accepted.
\<close>

definition unicode_valid :: "u32 \<Rightarrow> bool" where
  "unicode_valid ch \<longleftrightarrow>
     ch < 0x110000 \<and> ch AND 0xFFFFF800 \<noteq> 0xD800 \<and> (ch < 0xFDD0 \<or> ch > 0xFDEF) \<and>
     ch AND 0xFFFE \<noteq> 0xFFFE"

definition continuation_char :: "u32 \<Rightarrow> cstr \<Rightarrow> u32 option" where
  "continuation_char val p =
     (if first_byte p AND 0xc0 \<noteq> 0x80 then None
      else Some (push_bit 6 val OR (ucast (first_byte p) AND 0x3f)))"

definition utf8_char :: "byte \<Rightarrow> cstr \<Rightarrow> cstr option" where
  "utf8_char c p =
     (if c < 128 then Some p
      else if c AND 0xe0 = 0xc0 then
        (if c AND 0x1e = 0 then None
         else if first_byte p AND 0xc0 \<noteq> 0x80 then None
         else Some (tl p))
      else do {
        (mn, val, p) \<leftarrow>
          (if c AND 0xf0 = 0xe0 then Some (push_bit 11 1, ucast c AND 0x0f, p)
           else if c AND 0xf8 = 0xf0 then do {
             val \<leftarrow> continuation_char (ucast c AND 0x07) p;
             Some (push_bit 16 1, val, tl p)
           }
           else None);
        val \<leftarrow> continuation_char val p;
        val \<leftarrow> continuation_char val (tl p);
        if val < mn then None
        else if \<not> unicode_valid val then None
        else Some (tl (tl p))
      })"

lemma utf8_char_shorter: "utf8_char c p = Some r \<Longrightarrow> length r \<le> length p"
  by (auto simp: utf8_char_def Option.bind_eq_Some_conv split: if_splits)

function avahi_utf8_valid :: "cstr \<Rightarrow> bool" where
  "avahi_utf8_valid [] = True"
| "avahi_utf8_valid (c # p) =
     (case utf8_char c p of None \<Rightarrow> False | Some r \<Rightarrow> avahi_utf8_valid r)"
  by pat_completeness auto
termination
  by (relation "measure length") (auto dest: utf8_char_shorter)

subsection \<open>The specification: code points and their encodings\<close>

definition code_point_ok :: "nat \<Rightarrow> bool" where
  "code_point_ok n \<longleftrightarrow>
     n < 0x110000 \<and> \<not> (0xD800 \<le> n \<and> n < 0xE000) \<and> \<not> (0xFDD0 \<le> n \<and> n \<le> 0xFDEF) \<and>
     n mod 0x10000 < 0xFFFE"

definition utf8_encode :: "nat \<Rightarrow> byte list" where
  "utf8_encode n =
     (if n < 0x80 then [byte_of n]
      else if n < 0x800 then [byte_of (0xC0 + n div 64), byte_of (0x80 + n mod 64)]
      else if n < 0x10000 then
        [byte_of (0xE0 + n div 4096), byte_of (0x80 + n div 64 mod 64),
         byte_of (0x80 + n mod 64)]
      else
        [byte_of (0xF0 + n div 262144), byte_of (0x80 + n div 4096 mod 64),
         byte_of (0x80 + n div 64 mod 64), byte_of (0x80 + n mod 64)])"

subsection \<open>The bit tests as arithmetic\<close>

lemma lead_byte:
  fixes c :: byte
  shows "c AND 0xe0 = 0xc0 \<longleftrightarrow> 192 \<le> c \<and> c < 224"
    and "c AND 0xf0 = 0xe0 \<longleftrightarrow> 224 \<le> c \<and> c < 240"
    and "c AND 0xf8 = 0xf0 \<longleftrightarrow> 240 \<le> c \<and> c < 248"
    and "c AND 0xc0 = 0x80 \<longleftrightarrow> 128 \<le> c \<and> c < 192"
    and "192 \<le> c \<Longrightarrow> c < 224 \<Longrightarrow> c AND 0x1e = 0 \<longleftrightarrow> c < 194"
proof -
  have b: "unat c < 256" by simp
  have u: "unat (c AND 0xe0) = unat c div 32 mod 8 * 32" "unat (c AND 0xf0) = unat c div 16 mod 16 * 16"
    "unat (c AND 0xf8) = unat c div 8 mod 32 * 8" "unat (c AND 0xc0) = unat c div 64 mod 4 * 64"
    "unat (c AND 0x1e) = unat c div 2 mod 16 * 2"
    using nat_and_block [of "unat c" 5 3] nat_and_block [of "unat c" 4 4] nat_and_block [of "unat c" 3 5]
      nat_and_block [of "unat c" 6 2] nat_and_block [of "unat c" 1 4]
    by (simp_all add: unsigned_and_eq mask_eq_exp_minus_1)
  have m: "unat c div 32 mod 8 = unat c div 32" "unat c div 16 mod 16 = unat c div 16"
    "unat c div 8 mod 32 = unat c div 8" "unat c div 64 mod 4 = unat c div 64"
    using b by (simp_all add: div_less_iff_less_mult del: byte_lt)
  note d = nat_div_eq_iff [of 32 "unat c" 6] nat_div_eq_iff [of 16 "unat c" 14]
    nat_div_eq_iff [of 8 "unat c" 30] nat_div_eq_iff [of 64 "unat c" 2]
  note w = word_unat_eq_iff word_le_nat_alt word_less_nat_alt
  show "c AND 0xe0 = 0xc0 \<longleftrightarrow> 192 \<le> c \<and> c < 224" "c AND 0xf0 = 0xe0 \<longleftrightarrow> 224 \<le> c \<and> c < 240"
    "c AND 0xf8 = 0xf0 \<longleftrightarrow> 240 \<le> c \<and> c < 248" "c AND 0xc0 = 0x80 \<longleftrightarrow> 128 \<le> c \<and> c < 192"
    using d unfolding w u m by auto
  assume "192 \<le> c" "c < 224"
  then have "unat c div 2 - 96 < 16" "96 \<le> unat c div 2" "unat c < 194 \<longleftrightarrow> unat c div 2 < 97"
    unfolding w by auto
  moreover from this have "unat c div 2 mod 16 = unat c div 2 - 96"
    using mod_mult_self3 [of 6 16 "unat c div 2 - 96"] by simp
  ultimately show "c AND 0x1e = 0 \<longleftrightarrow> c < 194"
    unfolding w u by auto
qed

lemma unat_ucast_and:
  "unat (ucast (b :: byte) AND (0x3f :: u32)) = unat b mod 64"
  "unat (ucast b AND (0x0f :: u32)) = unat b mod 16"
  "unat (ucast b AND (0x07 :: u32)) = unat b mod 8"
  using nat_and_block [of "unat b" 0 6] nat_and_block [of "unat b" 0 4]
    nat_and_block [of "unat b" 0 3]
  by (simp_all add: unsigned_and_eq unsigned_ucast_eq mask_eq_exp_minus_1)

lemma unat_continuation:
  "unat v < 2 ^ 26 \<Longrightarrow>
   unat (push_bit 6 (v :: u32) OR (ucast (b :: byte) AND 0x3f)) = unat v * 64 + unat b mod 64"
  using nat_push_or [of "unat b mod 64" 6 "unat v"] nat_and_block [of "unat b" 0 6]
  by (simp add: unsigned_or_eq unsigned_and_eq unsigned_ucast_eq mask_eq_exp_minus_1
      push_bit_eq_mult unat_word_ariths)

lemma unicode_valid_iff: "unicode_valid ch \<longleftrightarrow> code_point_ok (unat ch)"
proof -
  have s: "unat (ch AND 0xFFFFF800) = unat ch div 2048 * 2048"
    using nat_and_block [of "unat ch" 11 21] u32_lt [of ch]
    by (simp add: unsigned_and_eq mask_eq_exp_minus_1)
  have n: "unat (ch AND 0xFFFE) = unat ch div 2 mod 32768 * 2"
    using nat_and_block [of "unat ch" 1 15] by (simp add: unsigned_and_eq mask_eq_exp_minus_1)
  have a: "unat ch div 2048 * 2048 = 0xD800 \<longleftrightarrow> 0xD800 \<le> unat ch \<and> unat ch < 0xE000"
    using nat_div_eq_iff [of 2048 "unat ch" 27] by auto
  have b: "unat ch div 2 mod 32768 * 2 = 0xFFFE \<longleftrightarrow> \<not> unat ch mod 0x10000 < 0xFFFE"
    using mod_mult2_eq [of "unat ch" 2 32768] mod_less_divisor [of 2 "unat ch"]
      mod_less_divisor [of 32768 "unat ch div 2"] by auto
  show ?thesis
    unfolding unicode_valid_def code_point_ok_def
    by (simp add: word_unat_eq_iff word_less_nat_alt s n a b not_le)
qed

subsection \<open>Exactly the encodings are accepted\<close>

text \<open>A continuation byte and its six bits.\<close>

lemma continuation_byte_iff:
  fixes b :: byte
  shows "128 \<le> b \<and> b < 192 \<longleftrightarrow> (\<exists>y<64. b = byte_of (128 + y))"
proof
  assume "128 \<le> b \<and> b < 192"
  then have "unat b - 128 < 64" "128 \<le> unat b" by (auto simp: word_le_nat_alt word_less_nat_alt)
  then show "\<exists>y<64. b = byte_of (128 + y)"
    by (intro exI [of _ "unat b - 128"]) simp
qed (auto simp: word_le_nat_alt word_less_nat_alt)

lemma continuation_byte_inj: "y < 64 \<Longrightarrow> z < 64 \<Longrightarrow> byte_of (128 + y) = byte_of (128 + z) \<longleftrightarrow> y = z"
  by simp

lemma continuation_char_Some:
  assumes v: "unat v < 2 ^ 26"
  shows "continuation_char v p = Some w \<longleftrightarrow>
     (\<exists>y q. y < 64 \<and> p = byte_of (128 + y) # q \<and> unat w = unat v * 64 + y)"
proof -
  have m: "y < 64 \<Longrightarrow> (128 + y) mod 64 = y" for y :: nat
    using mod_add_left_eq [of 128 64 y] by simp
  have *: "y < 64 \<Longrightarrow> push_bit 6 v OR (ucast (byte_of (128 + y)) AND 0x3f) = w \<longleftrightarrow>
      unat w = unat v * 64 + y" for y
    using unat_continuation [OF v, of "byte_of (128 + y)"] m [of y]
    by (auto simp only: word_unat_eq_iff unat_byte_of)
  show ?thesis
  proof (cases p)
    case Nil
    then show ?thesis by (simp add: continuation_char_def)
  next
    case (Cons b q)
    then show ?thesis
      using continuation_byte_iff [of b] * unfolding continuation_char_def lead_byte
      by (auto simp only: first_byte_simps list.inject continuation_byte_inj split: if_splits)
  qed
qed

lemma utf8_tail_Some:
  assumes v: "unat v < 2 ^ 20"
  shows "do { val \<leftarrow> continuation_char v p; val \<leftarrow> continuation_char val (tl p);
           if val < mn then None else if \<not> unicode_valid val then None else Some (tl (tl p)) } = Some r \<longleftrightarrow>
    (\<exists>y z. y < 64 \<and> z < 64 \<and> p = byte_of (128 + y) # byte_of (128 + z) # r \<and>
       unat mn \<le> unat v * 4096 + y * 64 + z \<and> code_point_ok (unat v * 4096 + y * 64 + z))"
    (is "?l \<longleftrightarrow> ?r")
proof
  assume ?l
  then obtain v1 v2 where 1: "continuation_char v p = Some v1" and 2: "continuation_char v1 (tl p) = Some v2"
    and 3: "mn \<le> v2" "code_point_ok (unat v2)" "r = tl (tl p)"
    by (auto simp: Option.bind_eq_Some_conv unicode_valid_iff split: if_splits)
  from 1 v obtain y q where y: "y < 64" "p = byte_of (128 + y) # q" "unat v1 = unat v * 64 + y"
    by (auto simp: continuation_char_Some)
  with v have "unat v1 < 2 ^ 26" by simp
  with 2 y obtain z where "z < 64" "q = byte_of (128 + z) # tl q" "unat v2 = unat v1 * 64 + z"
    by (auto simp: continuation_char_Some)
  with y 3 show ?r
    by (intro exI [of _ y] exI [of _ z]) (auto simp: word_le_nat_alt algebra_simps)
next
  assume ?r
  then obtain y z where r: "y < 64" "z < 64" "p = byte_of (128 + y) # byte_of (128 + z) # r"
    "unat mn \<le> unat v * 4096 + y * 64 + z" "code_point_ok (unat v * 4096 + y * 64 + z)" by blast
  define v1 :: u32 where "v1 = u32_of (unat v * 64 + y)"
  define v2 :: u32 where "v2 = u32_of (unat v * 4096 + y * 64 + z)"
  have v1: "unat v1 = unat v * 64 + y" and v2: "unat v2 = unat v * 4096 + y * 64 + z"
    using v r(1,2) by (auto simp: v1_def v2_def)
  have 1: "continuation_char v p = Some v1"
    using v r(1,3) v1 by (subst continuation_char_Some) (auto)
  have 2: "continuation_char v1 (tl p) = Some v2"
    using v v1 v2 r(1,2,3) by (subst continuation_char_Some) (auto)
  show ?l using 1 2 v2 r(3-5) by (simp add: unicode_valid_iff word_less_nat_alt)
qed

lemma utf8_char_two:
  assumes c: "192 \<le> c" "c < 224"
  shows "utf8_char c p = Some r \<longleftrightarrow> 194 \<le> c \<and> (\<exists>y<64. p = byte_of (128 + y) # r)"
proof -
  have "\<not> c < 128" "c AND 0xe0 = 0xc0"
    using c by (auto simp: lead_byte word_le_nat_alt word_less_nat_alt)
  moreover have "c AND 0x1e = 0 \<longleftrightarrow> \<not> 194 \<le> c"
    using c by (simp add: lead_byte not_le)
  ultimately show ?thesis
    using continuation_byte_iff [of "first_byte p"]
    by (cases p) (auto simp: utf8_char_def lead_byte)
qed

lemma utf8_char_three:
  assumes c: "224 \<le> c" "c < 240"
  shows "utf8_char c p = Some r \<longleftrightarrow>
    (\<exists>y z. y < 64 \<and> z < 64 \<and> p = byte_of (128 + y) # byte_of (128 + z) # r \<and>
       2048 \<le> unat c mod 16 * 4096 + y * 64 + z \<and> code_point_ok (unat c mod 16 * 4096 + y * 64 + z))"
proof -
  have "\<not> c < 128" "\<not> c AND 0xe0 = 0xc0" "c AND 0xf0 = 0xe0"
    using c by (auto simp: lead_byte word_le_nat_alt word_less_nat_alt)
  then show ?thesis
    using utf8_tail_Some [of "ucast c AND 0x0f" p "push_bit 11 1" r]
    unfolding utf8_char_def unat_ucast_and by simp
qed

lemma utf8_char_four:
  assumes c: "240 \<le> c" "c < 248"
  shows "utf8_char c p = Some r \<longleftrightarrow>
    (\<exists>x y z. x < 64 \<and> y < 64 \<and> z < 64 \<and>
       p = byte_of (128 + x) # byte_of (128 + y) # byte_of (128 + z) # r \<and>
       65536 \<le> unat c mod 8 * 262144 + x * 4096 + y * 64 + z \<and>
       code_point_ok (unat c mod 8 * 262144 + x * 4096 + y * 64 + z))"
proof -
  have "\<not> c < 128" "\<not> c AND 0xe0 = 0xc0" "\<not> c AND 0xf0 = 0xe0" "c AND 0xf8 = 0xf0"
    using c by (auto simp: lead_byte word_le_nat_alt word_less_nat_alt)
  moreover define v where "v = ucast c AND (0x07 :: u32)"
  moreover from v_def have v: "unat v = unat c mod 8" by (simp only: unat_ucast_and)
  ultimately have eq: "utf8_char c p = do { v1 \<leftarrow> continuation_char v p;
      val \<leftarrow> continuation_char v1 (tl p); val \<leftarrow> continuation_char val (tl (tl p));
      if val < push_bit 16 1 then None else if \<not> unicode_valid val then None else Some (tl (tl (tl p))) }"
    by (simp add: utf8_char_def)
  have v26: "unat v < 2 ^ 26" using v by simp
  show ?thesis (is "_ \<longleftrightarrow> ?r")
  proof
    assume "utf8_char c p = Some r"
    then obtain v1 where 1: "continuation_char v p = Some v1"
      and 2: "do { val \<leftarrow> continuation_char v1 (tl p); val \<leftarrow> continuation_char val (tl (tl p));
        if val < push_bit 16 1 then None else if \<not> unicode_valid val then None else Some (tl (tl (tl p))) } = Some r"
      unfolding eq Option.bind_eq_Some_conv by blast
    from 1 v26 obtain x q where x: "x < 64" "p = byte_of (128 + x) # q" "unat v1 = unat c mod 8 * 64 + x"
      by (auto simp: continuation_char_Some v)
    then have "unat v1 < 2 ^ 20" by simp
    from 2 [unfolded utf8_tail_Some [OF this]] obtain y z where "y < 64" "z < 64"
      "tl p = byte_of (128 + y) # byte_of (128 + z) # r"
      "65536 \<le> unat v1 * 4096 + y * 64 + z" "code_point_ok (unat v1 * 4096 + y * 64 + z)"
      by auto
    with x show ?r
      by (intro exI [of _ x] exI [of _ y] exI [of _ z]) (simp add: algebra_simps)
  next
    assume ?r
    then obtain x y z where r: "x < 64" "y < 64" "z < 64"
      "p = byte_of (128 + x) # byte_of (128 + y) # byte_of (128 + z) # r"
      "65536 \<le> unat c mod 8 * 262144 + x * 4096 + y * 64 + z"
      "code_point_ok (unat c mod 8 * 262144 + x * 4096 + y * 64 + z)" by blast
    define v1 :: u32 where "v1 = u32_of (unat c mod 8 * 64 + x)"
    have v1: "unat v1 = unat c mod 8 * 64 + x"
      using r(1) by (auto simp: v1_def)
    have 1: "continuation_char v p = Some v1"
      using v26 r(1,4) v v1 by (subst continuation_char_Some) (auto)
    have pb: "unat (push_bit 16 1 :: u32) = 65536" by simp
    from v1 r(1) have "unat v1 < 2 ^ 20" by simp
    note 2 = utf8_tail_Some [OF this, of "tl p" "push_bit 16 1" r]
    show "utf8_char c p = Some r"
      unfolding eq 1 bind.bind_lunit 2 using r(1-3) v1 pb r(5,6) unfolding r(4)
      by (intro exI [of _ y] exI [of _ z]) (simp add: algebra_simps)
  qed
qed

lemma utf8_encode_two:
  "2 \<le> x \<Longrightarrow> x < 32 \<Longrightarrow> y < 64 \<Longrightarrow>
   utf8_encode (x * 64 + y) = [byte_of (192 + x), byte_of (128 + y)]"
  by (simp add: utf8_encode_def)

lemma utf8_encode_three:
  assumes "x < 16" "y < 64" "z < 64" "2048 \<le> x * 4096 + y * 64 + z"
  shows "utf8_encode (x * 4096 + y * 64 + z) =
    [byte_of (224 + x), byte_of (128 + y), byte_of (128 + z)]"
proof -
  have "(x * 4096 + y * 64 + z) div 4096 = x"
    using assms by (subst nat_div_eq_iff) auto
  moreover have "(x * 4096 + y * 64 + z) div 64 mod 64 = y"
  proof -
    have "(x * 4096 + y * 64 + z) div 64 = x * 64 + y" using assms by (subst nat_div_eq_iff) auto
    with assms show ?thesis by simp
  qed
  moreover have "(x * 4096 + y * 64 + z) mod 64 = z"
    using assms mod_mult_self3 [of "x * 64 + y" 64 z] by (simp add: algebra_simps)
  ultimately show ?thesis
    using assms by (simp add: utf8_encode_def)
qed

lemma utf8_encode_four:
  assumes "x < 8" "x' < 64" "y < 64" "z < 64" "65536 \<le> x * 262144 + x' * 4096 + y * 64 + z"
  shows "utf8_encode (x * 262144 + x' * 4096 + y * 64 + z) =
    [byte_of (240 + x), byte_of (128 + x'), byte_of (128 + y), byte_of (128 + z)]"
proof -
  let ?n = "x * 262144 + x' * 4096 + y * 64 + z"
  have "?n div 262144 = x" using assms by (subst nat_div_eq_iff) auto
  moreover have "?n div 4096 = x * 64 + x'" using assms by (subst nat_div_eq_iff) auto
  moreover have "?n div 64 mod 64 = y"
  proof -
    have "?n div 64 = (x * 64 + x') * 64 + y" using assms by (subst nat_div_eq_iff) auto
    with assms show ?thesis by (simp only: mod_mult_self3 mod_less)
  qed
  moreover have "?n mod 64 = z"
    using assms mod_mult_self3 [of "x * 4096 + x' * 64 + y" 64 z] by (simp add: algebra_simps)
  ultimately show ?thesis
    using assms by (simp add: utf8_encode_def)
qed

text \<open>The digits of a code point.\<close>

lemma code_point_digits:
  "(n :: nat) = n div 64 * 64 + n mod 64"
  "n = n div 4096 * 4096 + n div 64 mod 64 * 64 + n mod 64"
  "n = n div 262144 * 262144 + n div 4096 mod 64 * 4096 + n div 64 mod 64 * 64 + n mod 64"
proof -
  have 0: "n div 4096 = n div 64 div 64" "n div 262144 = n div 64 div 64 div 64"
    using div_mult2_eq [of n 64 64] div_mult2_eq [of n 4096 64] by simp_all
  show 1: "n = n div 64 * 64 + n mod 64" by simp
  have 2: "n div 64 = n div 64 div 64 * 64 + n div 64 mod 64" by simp
  have 3: "n div 64 div 64 = n div 64 div 64 div 64 * 64 + n div 64 div 64 mod 64" by simp
  show "n = n div 4096 * 4096 + n div 64 mod 64 * 64 + n mod 64"
    unfolding 0 using 1 2 by linarith
  show "n = n div 262144 * 262144 + n div 4096 mod 64 * 4096 + n div 64 mod 64 * 64 + n mod 64"
    unfolding 0 using 1 2 3 by linarith
qed

lemma utf8_char_encode: "code_point_ok n \<Longrightarrow> \<exists>c p. utf8_encode n = c # p \<and> utf8_char c (p @ r) = Some r"
proof -
  assume ok: "code_point_ok n"
  consider "n < 0x80" | "0x80 \<le> n" "n < 0x800" | "0x800 \<le> n" "n < 0x10000" | "0x10000 \<le> n" "n < 0x110000"
    using ok by (force simp: code_point_ok_def)
  then show ?thesis
  proof cases
    case 1
    then show ?thesis by (simp add: utf8_encode_def utf8_char_def word_less_nat_alt)
  next
    case 2
    then show ?thesis
      by (subst code_point_digits(1) [of n], subst utf8_encode_two)
        (auto simp: utf8_char_two word_le_nat_alt word_less_nat_alt div_less_iff_less_mult
          less_eq_div_iff_mult_less_eq intro!: exI [of _ "n mod 64"])
  next
    case 3
    define x y z where "x = n div 4096" and "y = n div 64 mod 64" and "z = n mod 64"
    then have n: "n = x * 4096 + y * 64 + z" and yz: "y < 64" "z < 64"
      using code_point_digits(2) [of n] by simp_all
    have x: "x < 16" using 3 by (simp add: x_def div_less_iff_less_mult)
    have "(224 + x) mod 16 = x" using x mod_mult_self3 [of 14 16 x] by simp
    with 3 ok x yz show ?thesis unfolding n
      by (subst utf8_encode_three) (auto simp: utf8_char_three word_le_nat_alt word_less_nat_alt)
  next
    case 4
    define x x' y z where "x = n div 262144" and "x' = n div 4096 mod 64" and "y = n div 64 mod 64"
      and "z = n mod 64"
    then have n: "n = x * 262144 + x' * 4096 + y * 64 + z" and yz: "x' < 64" "y < 64" "z < 64"
      using code_point_digits(3) [of n] by simp_all
    have x: "x < 8" using 4 by (simp add: x_def div_less_iff_less_mult)
    have "(240 + x) mod 8 = x" using x mod_mult_self3 [of 30 8 x] by simp
    with 4 ok x yz show ?thesis unfolding n
      by (subst utf8_encode_four)
        (auto simp: utf8_char_four word_le_nat_alt word_less_nat_alt)
  qed
qed

lemma utf8_char_decode:
  assumes "utf8_char c p = Some r"
  shows "\<exists>n. code_point_ok n \<and> c # p = utf8_encode n @ r"
proof -
  consider "c < 128" | "192 \<le> c" "c < 224" | "224 \<le> c" "c < 240" | "240 \<le> c" "c < 248"
    | "\<not> c < 128" "\<not> (192 \<le> c \<and> c < 224)" "\<not> (224 \<le> c \<and> c < 240)" "\<not> (240 \<le> c \<and> c < 248)"
    by blast
  then show ?thesis
  proof cases
    case 1
    with assms show ?thesis
      by (intro exI [of _ "unat c"])
        (auto simp: utf8_char_def utf8_encode_def code_point_ok_def word_less_nat_alt)
  next
    case 2
    then obtain x where x: "x < 32" "c = byte_of (192 + x)"
      by (intro that [of "unat c - 192"]) (auto simp: word_le_nat_alt word_less_nat_alt)
    from assms 2 obtain y where y: "194 \<le> c" "y < 64" "p = byte_of (128 + y) # r"
      by (auto simp: utf8_char_two)
    with x have "2 \<le> x" by (simp add: word_le_nat_alt)
    with x y show ?thesis
      by (intro exI [of _ "x * 64 + y"]) (simp add: utf8_encode_two code_point_ok_def)
  next
    case 3
    then obtain x where x: "x < 16" "c = byte_of (224 + x)"
      by (intro that [of "unat c - 224"]) (auto simp: word_le_nat_alt word_less_nat_alt)
    then have m: "unat c mod 16 = x" using mod_mult_self3 [of 14 16 x] by simp
    from assms 3 obtain y z where "y < 64" "z < 64" "p = byte_of (128 + y) # byte_of (128 + z) # r"
      "2048 \<le> x * 4096 + y * 64 + z" "code_point_ok (x * 4096 + y * 64 + z)"
      by (auto simp: utf8_char_three m)
    with x show ?thesis
      by (intro exI [of _ "x * 4096 + y * 64 + z"]) (simp add: utf8_encode_three)
  next
    case 4
    then obtain x where x: "x < 8" "c = byte_of (240 + x)"
      by (intro that [of "unat c - 240"]) (auto simp: word_le_nat_alt word_less_nat_alt)
    then have m: "unat c mod 8 = x" using mod_mult_self3 [of 30 8 x] by simp
    from assms 4 obtain x' y z where "x' < 64" "y < 64" "z < 64"
      "p = byte_of (128 + x') # byte_of (128 + y) # byte_of (128 + z) # r"
      "65536 \<le> x * 262144 + x' * 4096 + y * 64 + z" "code_point_ok (x * 262144 + x' * 4096 + y * 64 + z)"
      by (auto simp: utf8_char_four m)
    with x show ?thesis
      by (intro exI [of _ "x * 262144 + x' * 4096 + y * 64 + z"]) (simp add: utf8_encode_four)
  next
    case 5
    with assms show ?thesis by (auto simp: utf8_char_def lead_byte)
  qed
qed

lemma avahi_utf8_valid_encode:
  assumes "code_point_ok n"
  shows "avahi_utf8_valid (utf8_encode n @ s) = avahi_utf8_valid s"
  using utf8_char_encode [OF assms, of s] by auto

lemma avahi_utf8_valid_iff:
  "avahi_utf8_valid s \<longleftrightarrow> (\<exists>ns. list_all code_point_ok ns \<and> s = concat (map utf8_encode ns))"
proof
  assume "avahi_utf8_valid s"
  then show "\<exists>ns. list_all code_point_ok ns \<and> s = concat (map utf8_encode ns)"
  proof (induction s rule: avahi_utf8_valid.induct)
    case 1
    show ?case by (rule exI [of _ "[]"]) simp
  next
    case (2 c p)
    then obtain r where r: "utf8_char c p = Some r" "avahi_utf8_valid r"
      by (auto split: option.splits)
    with "2.IH" obtain ns where "list_all code_point_ok ns" "r = concat (map utf8_encode ns)"
      by blast
    moreover from utf8_char_decode [OF r(1)] obtain n where "code_point_ok n" "c # p = utf8_encode n @ r"
      by blast
    ultimately show ?case by (intro exI [of _ "n # ns"]) simp
  qed
next
  assume "\<exists>ns. list_all code_point_ok ns \<and> s = concat (map utf8_encode ns)"
  then obtain ns where "list_all code_point_ok ns" "s = concat (map utf8_encode ns)" by blast
  then show "avahi_utf8_valid s"
    by (induction ns arbitrary: s) (auto simp: avahi_utf8_valid_encode)
qed

lemma avahi_utf8_valid_append:
  assumes "avahi_utf8_valid s" "avahi_utf8_valid t"
  shows "avahi_utf8_valid (s @ t)"
proof -
  from assms obtain ns ms where "list_all code_point_ok (ns @ ms)"
    "s = concat (map utf8_encode ns)" "t = concat (map utf8_encode ms)"
    by (auto simp: avahi_utf8_valid_iff)
  then show ?thesis
    unfolding avahi_utf8_valid_iff by (intro exI [of _ "ns @ ms"]) simp
qed

lemma avahi_utf8_valid_ascii: "(\<And>c. c \<in> set s \<Longrightarrow> c < 128) \<Longrightarrow> avahi_utf8_valid s"
  by (induction s) (auto simp: utf8_char_def)

subsection \<open>Property\<close>

text \<open>
  C13: \<open>avahi_utf8_valid\<close> accepts exactly the concatenations of shortest UTF-8 encodings of
  the admitted code points: those up to 0x10FFFF without the surrogates, the block from 0xFDD0 to
  0xFDEF and the code points ending in FFFE or FFFF. Overlong forms, lone continuation bytes and
  truncated sequences are all rejected.
\<close>

theorem utf8_accepts_exactly_encodings:
  "avahi_utf8_valid s \<longleftrightarrow> (\<exists>ns. list_all code_point_ok ns \<and> s = concat (map utf8_encode ns))"
  by (rule avahi_utf8_valid_iff)

end
