(* ===== verification/Domain.thy ===== *)
theory Domain
  imports Utf8
begin

text \<open>
  Domain names as escaped strings (avahi-common/domain.c): reading and writing one label,
  normalisation, comparison, hashing, the validity checks, and joining and splitting of service
  names. A label buffer of the code is \<open>AVAHI_LABEL_MAX\<close> bytes, a name buffer
  \<open>AVAHI_DOMAIN_NAME_MAX\<close>. A call \<open>avahi_unescape_label (&s, buf, sz)\<close> is modelled by the pair
  of the label and the advanced \<open>s\<close>, or \<open>None\<close> for NULL. The same-pointer shortcut of
  \<open>avahi_domain_equal\<close> is left out: values have no addresses.
\<close>

abbreviation (input) dot :: byte where "dot \<equiv> 46"
abbreviation (input) backslash :: byte where "backslash \<equiv> 92"
abbreviation (input) underscore :: byte where "underscore \<equiv> 95"

definition AVAHI_LABEL_MAX :: nat where "AVAHI_LABEL_MAX = 64"
definition AVAHI_DOMAIN_NAME_MAX :: nat where "AVAHI_DOMAIN_NAME_MAX = 1014"

subsection \<open>One label\<close>

text \<open>
  The loop of \<open>avahi_unescape_label\<close>; \<open>d\<close> holds the bytes written so far, so \<open>i\<close> of the code is
  \<open>length d\<close>.
\<close>

fun unescape_loop :: "nat \<Rightarrow> cstr \<Rightarrow> cstr \<Rightarrow> (cstr \<times> cstr) option" where
  "unescape_loop sz d [] = (if sz \<le> length d then None else Some (d, []))"
| "unescape_loop sz d (c # s) =
     (if sz \<le> length d then None
      else if c = dot then Some (d, s)
      else if c = backslash then
        (case s of
           [] \<Rightarrow> None
         | c1 # s1 \<Rightarrow>
             if c1 = backslash \<or> c1 = dot then unescape_loop sz (d @ [c1]) s1
             else if isdigit_c c1 then
               (case s1 of
                  c2 # c3 # s3 \<Rightarrow>
                    if \<not> isdigit_c c2 \<or> \<not> isdigit_c c3 then None
                    else (let n = digit_value c1 * 100 + digit_value c2 * 10 + digit_value c3 in
                          if n > 255 \<or> n = 0 then None
                          else unescape_loop sz (d @ [byte_of n]) s3)
                | _ \<Rightarrow> None)
             else None)
      else unescape_loop sz (d @ [c]) s)"

definition avahi_unescape_label :: "nat \<Rightarrow> cstr \<Rightarrow> (cstr \<times> cstr) option" where
  "avahi_unescape_label sz s =
     (case unescape_loop sz [] s of
        None \<Rightarrow> None
      | Some (d, s') \<Rightarrow> if avahi_utf8_valid d then Some (d, s') else None)"

text \<open>
  \<open>avahi_escape_label\<close> writes behind \<open>*ret_name\<close>: the result is what it wrote, the new
  \<open>*ret_size\<close>, and whether it returned a pointer. Where it returns NULL the bytes already written
  stay, and no NUL follows them.
\<close>

definition proper_char :: "byte \<Rightarrow> bool" where
  "proper_char c \<longleftrightarrow> c = underscore \<or> c = 45 \<or> (48 \<le> c \<and> c \<le> 57) \<or> (97 \<le> c \<and> c \<le> 122) \<or> (65 \<le> c \<and> c \<le> 90)"

definition escape_decimal :: "byte \<Rightarrow> cstr" where
  "escape_decimal c =
     [backslash, 48 + byte_of (unat c div 100), 48 + byte_of (unat c div 10 mod 10), 48 + byte_of (unat c mod 10)]"

fun escape_loop :: "byte list \<Rightarrow> nat \<Rightarrow> cstr \<times> nat \<times> bool" where
  "escape_loop [] sz = ([], sz, True)"
| "escape_loop (c # src) sz =
     (if c = dot \<or> c = backslash then
        (if sz < 3 then ([], sz, False)
         else let (w, sz', ok) = escape_loop src (sz - 2) in (backslash # c # w, sz', ok))
      else if proper_char c then
        (if sz < 2 then ([], sz, False)
         else let (w, sz', ok) = escape_loop src (sz - 1) in (c # w, sz', ok))
      else
        (if sz < 5 then ([], sz, False)
         else let (w, sz', ok) = escape_loop src (sz - 4) in (escape_decimal c @ w, sz', ok)))"

definition avahi_escape_label :: "byte list \<Rightarrow> nat \<Rightarrow> (cstr \<times> nat \<times> bool) outcome" where
  "avahi_escape_label src sz = do { assert_that (sz > 0); Some (escape_loop src sz) }"

text \<open>Reading a label always makes progress; the loops over a name end for that reason.\<close>

lemma unescape_loop_shorter:
  "unescape_loop sz d s = Some (l, r) \<Longrightarrow> length r \<le> length s \<and> (s \<noteq> [] \<longrightarrow> length r < length s)"
proof (induction sz d s rule: unescape_loop.induct)
  case (2 sz d c s)
  then show ?case
    by (auto simp: Let_def split: if_splits list.splits) fastforce+
qed (auto split: if_splits)

lemma unescape_label_shorter:
  "avahi_unescape_label sz s = Some (l, r) \<Longrightarrow> length r \<le> length s"
  "avahi_unescape_label sz s = Some (l, r) \<Longrightarrow> s \<noteq> [] \<Longrightarrow> length r < length s"
  by (auto simp: avahi_unescape_label_def split: option.splits if_splits
      dest: unescape_loop_shorter)

subsection \<open>Normalisation\<close>

text \<open>
  The loop of \<open>avahi_normalize_name\<close>: \<open>out\<close> is what was written to \<open>ret_s\<close>, \<open>sz\<close> what is left of
  the buffer, \<open>nul\<close> whether a NUL stands behind \<open>out\<close>. The code ignores the result of
  \<open>avahi_escape_label\<close>; when the loop ends without a NUL behind the output, the callers read past
  what was written, which is a crash here. \<open>Some None\<close> is the return of NULL.
\<close>

function normalize_loop :: "cstr \<Rightarrow> bool \<Rightarrow> cstr \<Rightarrow> nat \<Rightarrow> bool \<Rightarrow> cstr option outcome" where
  "normalize_loop s emp out sz nul =
     (if s = [] then (if nul then Some (Some out) else crash)
      else case avahi_unescape_label AVAHI_LABEL_MAX s of
        None \<Rightarrow> Some None
      | Some (label, s') \<Rightarrow>
          if label = [] then
            (if s' = [] \<and> emp then (if nul then Some (Some out) else crash) else Some None)
          else if \<not> emp \<and> sz < 1 then Some None
          else
            (let (out, sz) = (if \<not> emp then (out @ [dot], sz - 1) else (out, sz)) in
             do {
               (w, sz, ok) \<leftarrow> avahi_escape_label label sz;
               normalize_loop s' False (out @ w) sz ok
             }))"
  by pat_completeness auto
termination
  by (relation "measure (\<lambda>(s, _). length s)") (auto dest: unescape_label_shorter)

declare normalize_loop.simps [simp del]

definition avahi_normalize_name :: "cstr \<Rightarrow> nat \<Rightarrow> cstr option outcome" where
  "avahi_normalize_name s sz = do { assert_that (0 < sz); normalize_loop s True [] sz True }"

definition avahi_normalize_name_strdup :: "cstr \<Rightarrow> cstr option outcome" where
  "avahi_normalize_name_strdup s = avahi_normalize_name s AVAHI_DOMAIN_NAME_MAX"

subsection \<open>Comparison and hashing\<close>

function avahi_domain_equal :: "cstr \<Rightarrow> cstr \<Rightarrow> bool outcome" where
  "avahi_domain_equal a b =
     (case avahi_unescape_label AVAHI_LABEL_MAX a of
        None \<Rightarrow> crash
      | Some (ca, a') \<Rightarrow>
          (case avahi_unescape_label AVAHI_LABEL_MAX b of
             None \<Rightarrow> crash
           | Some (cb, b') \<Rightarrow>
               if \<not> strcaseeq ca cb then Some False
               else if a' = [] \<and> b' = [] then Some True
               else avahi_domain_equal a' b'))"
  by pat_completeness auto
termination
proof (relation "measure (\<lambda>(a, b). length a + length b)", goal_cases)
  case (2 a b x ca a' y cb b')
  then show ?case
    using unescape_label_shorter [of AVAHI_LABEL_MAX a ca a'] unescape_label_shorter [of AVAHI_LABEL_MAX b cb b']
    by (cases a; cases b) fastforce+
qed simp

declare avahi_domain_equal.simps [simp del]

text \<open>\<open>tolower (*p)\<close> on a signed \<open>char\<close>, widened to \<open>unsigned\<close>.\<close>

definition hash_label :: "u32 \<Rightarrow> cstr \<Rightarrow> u32" where
  "hash_label = foldl (\<lambda>hash c. 31 * hash + scast (tolower_c c))"

function domain_hash_loop :: "u32 \<Rightarrow> cstr \<Rightarrow> u32 outcome" where
  "domain_hash_loop hash s =
     (if s = [] then Some hash
      else case avahi_unescape_label AVAHI_LABEL_MAX s of
        None \<Rightarrow> crash
      | Some (c, s') \<Rightarrow> domain_hash_loop (hash_label hash c) s')"
  by pat_completeness auto
termination
  by (relation "measure (\<lambda>(_, s). length s)") (auto dest: unescape_label_shorter)

declare domain_hash_loop.simps [simp del]

definition avahi_domain_hash :: "cstr \<Rightarrow> u32 outcome" where
  "avahi_domain_hash s = domain_hash_loop 0 s"

subsection \<open>Validity checks\<close>

function service_type_loop :: "cstr \<Rightarrow> bool" where
  "service_type_loop t =
     (case avahi_unescape_label AVAHI_LABEL_MAX t of
        None \<Rightarrow> False
      | Some (label, t') \<Rightarrow>
          if length label \<le> 2 \<or> first_byte label \<noteq> underscore then False
          else if t' = [] then True
          else service_type_loop t')"
  by pat_completeness auto
termination
proof (relation "measure length", goal_cases)
  case (2 t x label t')
  then show ?case using unescape_label_shorter [of AVAHI_LABEL_MAX t label t'] by (cases t) auto
qed simp

declare service_type_loop.simps [simp del]

definition avahi_is_valid_service_type_generic :: "cstr \<Rightarrow> bool" where
  "avahi_is_valid_service_type_generic t =
     (if length t \<ge> AVAHI_DOMAIN_NAME_MAX \<or> t = [] then False else service_type_loop t)"

text \<open>The checks below read a fixed number of labels, one after the other, as the code does.\<close>

definition is_service_label :: "cstr \<Rightarrow> bool" where
  "is_service_label label \<longleftrightarrow> \<not> (length label \<le> 2 \<or> first_byte label \<noteq> underscore)"

definition is_tcp_udp :: "cstr \<Rightarrow> bool" where
  "is_tcp_udp label \<longleftrightarrow> strcaseeq label (str ''_tcp'') \<or> strcaseeq label (str ''_udp'')"

definition avahi_is_valid_service_type_strict :: "cstr \<Rightarrow> bool" where
  "avahi_is_valid_service_type_strict t =
     (if length t \<ge> AVAHI_DOMAIN_NAME_MAX \<or> t = [] then False
      else case avahi_unescape_label AVAHI_LABEL_MAX t of
        None \<Rightarrow> False
      | Some (label, t) \<Rightarrow>
          if \<not> is_service_label label then False
          else if t = [] then False
          else (case avahi_unescape_label AVAHI_LABEL_MAX t of
            None \<Rightarrow> False
          | Some (label, t) \<Rightarrow> if \<not> is_tcp_udp label then False else t = []))"

definition avahi_get_type_from_subtype :: "cstr \<Rightarrow> cstr option" where
  "avahi_get_type_from_subtype t =
     (if length t \<ge> AVAHI_DOMAIN_NAME_MAX \<or> t = [] then None
      else do {
        (label, t) \<leftarrow> avahi_unescape_label AVAHI_LABEL_MAX t;
        if \<not> is_service_label label \<or> t = [] then None
        else do {
          (label, t) \<leftarrow> avahi_unescape_label AVAHI_LABEL_MAX t;
          if \<not> strcaseeq label (str ''_sub'') \<or> t = [] then None
          else do {
            let ret = t;
            (label, t) \<leftarrow> avahi_unescape_label AVAHI_LABEL_MAX t;
            if \<not> is_service_label label \<or> t = [] then None
            else do {
              (label, t) \<leftarrow> avahi_unescape_label AVAHI_LABEL_MAX t;
              if \<not> is_tcp_udp label \<or> t \<noteq> [] then None else Some ret
            }
          }
        }
      })"

definition avahi_is_valid_service_subtype :: "cstr \<Rightarrow> bool" where
  "avahi_is_valid_service_subtype t \<longleftrightarrow> avahi_get_type_from_subtype t \<noteq> None"

function domain_name_loop :: "bool \<Rightarrow> cstr \<Rightarrow> bool" where
  "domain_name_loop is_first t =
     (case avahi_unescape_label AVAHI_LABEL_MAX t of
        None \<Rightarrow> False
      | Some (label, t') \<Rightarrow>
          if is_first \<and> label = [] \<and> t' = [] then True
          else if label = [] then False
          else if t' = [] then True
          else domain_name_loop False t')"
  by pat_completeness auto
termination
proof (relation "measure (\<lambda>(_, t). length t)", goal_cases)
  case (2 f t x label t')
  then show ?case using unescape_label_shorter [of AVAHI_LABEL_MAX t label t'] by (cases t) auto
qed simp

declare domain_name_loop.simps [simp del]

definition avahi_is_valid_domain_name :: "cstr \<Rightarrow> bool" where
  "avahi_is_valid_domain_name t =
     (if length t \<ge> AVAHI_DOMAIN_NAME_MAX then False else domain_name_loop True t)"

definition avahi_is_valid_service_name :: "cstr \<Rightarrow> bool" where
  "avahi_is_valid_service_name t = (if length t \<ge> AVAHI_LABEL_MAX \<or> t = [] then False else True)"

definition avahi_is_valid_host_name :: "cstr \<Rightarrow> bool" where
  "avahi_is_valid_host_name t =
     (if length t \<ge> AVAHI_DOMAIN_NAME_MAX \<or> t = [] then False
      else case avahi_unescape_label AVAHI_LABEL_MAX t of
        None \<Rightarrow> False
      | Some (label, t) \<Rightarrow> if length label < 1 then False else t = [])"

text \<open>
  \<open>address_parse\<close> stands for \<open>avahi_address_parse (s, AVAHI_PROTO_UNSPEC, &a)\<close>, which asks
  \<open>inet_pton\<close> of the C library; only whether it succeeds matters. (\<open>!k\<close> of the code is never true.)
\<close>

definition avahi_is_valid_fqdn :: "(cstr \<Rightarrow> bool) \<Rightarrow> cstr \<Rightarrow> bool outcome" where
  "avahi_is_valid_fqdn address_parse t =
     (if length t \<ge> AVAHI_DOMAIN_NAME_MAX \<or> \<not> avahi_is_valid_domain_name t then Some False
      else case avahi_unescape_label AVAHI_LABEL_MAX t of
        None \<Rightarrow> Some False
      | Some (label, k) \<Rightarrow>
          if label = [] then Some False
          else (case avahi_unescape_label AVAHI_LABEL_MAX k of
            None \<Rightarrow> Some False
          | Some (label, k) \<Rightarrow>
              if label = [] then Some False
              else do {
                r \<leftarrow> avahi_normalize_name t AVAHI_DOMAIN_NAME_MAX;
                case r of
                  None \<Rightarrow> Some False
                | Some normalized \<Rightarrow> if address_parse normalized then Some False else Some True
              }))"

subsection \<open>Service names: joining and splitting\<close>

definition AVAHI_ERR_INVALID_SERVICE_NAME :: int where "AVAHI_ERR_INVALID_SERVICE_NAME = -10"
definition AVAHI_ERR_INVALID_SERVICE_TYPE :: int where "AVAHI_ERR_INVALID_SERVICE_TYPE = -11"
definition AVAHI_ERR_INVALID_DOMAIN_NAME :: int where "AVAHI_ERR_INVALID_DOMAIN_NAME = -4"
definition AVAHI_ERR_NO_MEMORY :: int where "AVAHI_ERR_NO_MEMORY = -24"

text \<open>\<open>snprintf (p, size, ...)\<close> keeps what fits in front of the NUL.\<close>

definition avahi_service_name_join :: "nat \<Rightarrow> cstr option \<Rightarrow> cstr \<Rightarrow> cstr \<Rightarrow> (int + cstr) outcome" where
  "avahi_service_name_join sz name type domain =
     (if (case name of None \<Rightarrow> False | Some nm \<Rightarrow> \<not> avahi_is_valid_service_name nm) then
        Some (Inl AVAHI_ERR_INVALID_SERVICE_NAME)
      else if \<not> avahi_is_valid_service_type_generic type then Some (Inl AVAHI_ERR_INVALID_SERVICE_TYPE)
      else if \<not> avahi_is_valid_domain_name domain then Some (Inl AVAHI_ERR_INVALID_DOMAIN_NAME)
      else do {
        prefix \<leftarrow> (case name of
            None \<Rightarrow> Some []
          | Some nm \<Rightarrow> do {
              (w, _, ok) \<leftarrow> avahi_escape_label nm (AVAHI_LABEL_MAX * 4);
              assert_that ok;
              Some (w @ [dot])
            });
        normalized_type \<leftarrow> avahi_normalize_name type AVAHI_DOMAIN_NAME_MAX;
        (case normalized_type of
           None \<Rightarrow> Some (Inl AVAHI_ERR_INVALID_SERVICE_TYPE)
         | Some nt \<Rightarrow> do {
             normalized_domain \<leftarrow> avahi_normalize_name domain AVAHI_DOMAIN_NAME_MAX;
             (case normalized_domain of
                None \<Rightarrow> Some (Inl AVAHI_ERR_INVALID_DOMAIN_NAME)
              | Some nd \<Rightarrow> Some (Inr (take (sz - 1) (prefix @ nt @ [dot] @ nd))))
           })
      })"

datatype split_state = SPLIT_NAME | SPLIT_TYPE | SPLIT_DOMAIN

text \<open>
  Appending one label to the type or the domain buffer: written bytes, bytes left, and the
  \<open>type_empty\<close> or \<open>domain_empty\<close> flag. \<open>None\<close> inside is the return of \<open>AVAHI_ERR_NO_MEMORY\<close>.
\<close>

definition split_append :: "cstr \<times> nat \<times> bool \<Rightarrow> cstr \<Rightarrow> (cstr \<times> nat \<times> bool) option outcome" where
  "split_append acc buf =
     (let (out, sz, emp) = acc in
      if \<not> emp \<and> sz = 0 then Some None
      else let (out, sz) = (if \<not> emp then (out @ [dot], sz - 1) else (out, sz)) in
        do {
          (w, sz, ok) \<leftarrow> avahi_escape_label buf sz;
          Some (if ok then Some (out @ w, sz, False) else None)
        })"

function split_loop ::
  "split_state \<Rightarrow> cstr \<Rightarrow> cstr \<Rightarrow> nat \<Rightarrow> cstr \<times> nat \<times> bool \<Rightarrow> cstr \<times> nat \<times> bool \<Rightarrow> (int + cstr \<times> cstr \<times> cstr) outcome"
where
  "split_loop state p name name_size ty dmn =
     (if p = [] then Some (Inr (name, fst ty, fst dmn))
      else case avahi_unescape_label 64 p of
        None \<Rightarrow> Some (Inl (-1))
      | Some (buf, p') \<Rightarrow>
          if state = SPLIT_NAME then split_loop SPLIT_TYPE p' (take (name_size - 1) buf) name_size ty dmn
          else if state = SPLIT_TYPE \<and> first_byte buf = underscore then do {
            r \<leftarrow> split_append ty buf;
            (case r of None \<Rightarrow> Some (Inl AVAHI_ERR_NO_MEMORY)
             | Some ty \<Rightarrow> split_loop SPLIT_TYPE p' name name_size ty dmn)
          }
          else do {
            r \<leftarrow> split_append dmn buf;
            (case r of None \<Rightarrow> Some (Inl AVAHI_ERR_NO_MEMORY)
             | Some dmn \<Rightarrow> split_loop SPLIT_DOMAIN p' name name_size ty dmn)
          })"
  by pat_completeness auto
termination
  by (relation "measure (\<lambda>(_, p, _). length p)") (auto dest: unescape_label_shorter)

declare split_loop.simps [simp del]

text \<open>\<open>name_size = None\<close> stands for a NULL \<open>name\<close>.\<close>

definition avahi_service_name_split ::
  "cstr \<Rightarrow> nat option \<Rightarrow> nat \<Rightarrow> nat \<Rightarrow> (int + cstr \<times> cstr \<times> cstr) outcome" where
  "avahi_service_name_split p name_size type_size domain_size = do {
     assert_that (type_size > 0);
     assert_that (domain_size > 0);
     (case name_size of
        Some n \<Rightarrow> do {
          assert_that (n > 0);
          split_loop SPLIT_NAME p [] n ([], type_size, True) ([], domain_size, True)
        }
      | None \<Rightarrow> split_loop SPLIT_TYPE p [] 0 ([], type_size, True) ([], domain_size, True))
   }"

subsection \<open>Escaping and unescaping are inverse\<close>

definition escape_char :: "byte \<Rightarrow> cstr" where
  "escape_char c =
     (if c = dot \<or> c = backslash then [backslash, c] else if proper_char c then [c] else escape_decimal c)"

definition escaped :: "byte list \<Rightarrow> cstr" where
  "escaped l = concat (map escape_char l)"

lemma escaped_simps [simp]: "escaped [] = []" "escaped (c # l) = escape_char c @ escaped l"
  by (simp_all add: escaped_def)

lemma length_escape_char: "1 \<le> length (escape_char c)" "length (escape_char c) \<le> 4"
  by (auto simp: escape_char_def escape_decimal_def)

lemma length_escaped: "length l \<le> length (escaped l)" "length (escaped l) \<le> 4 * length l"
proof -
  have "length l \<le> length (escaped l) \<and> length (escaped l) \<le> 4 * length l"
  proof (induction l)
    case (Cons c l)
    then show ?case using length_escape_char [of c] by simp
  qed simp
  then show "length l \<le> length (escaped l)" "length (escaped l) \<le> 4 * length l" by auto
qed

lemma escaped_eq_Nil [simp]: "escaped l = [] \<longleftrightarrow> l = []"
  using length_escaped(1) [of l] by (cases l) auto

text \<open>The buffer has room for the escaped label and a NUL, or the call fails.\<close>

lemma escape_loop_Cons:
  "escape_loop (c # l) sz =
     (if length (escape_char c) < sz
      then let (w, sz', ok) = escape_loop l (sz - length (escape_char c)) in (escape_char c @ w, sz', ok)
      else ([], sz, False))"
proof -
  have n: "sz < 3 \<longleftrightarrow> \<not> 2 < sz" "sz < 2 \<longleftrightarrow> \<not> 1 < sz" "sz < 5 \<longleftrightarrow> \<not> 4 < sz" by auto
  consider "c = dot \<or> c = backslash" | "\<not> (c = dot \<or> c = backslash)" "proper_char c"
    | "\<not> (c = dot \<or> c = backslash)" "\<not> proper_char c" by blast
  then show ?thesis
  proof cases
    case 1
    then have "length (escape_char c) = 2" "escape_char c = [backslash, c]" by (auto simp: escape_char_def)
    with 1 n show ?thesis by (simp add: numeral_2_eq_2)
  next
    case 2
    then have "length (escape_char c) = 1" "escape_char c = [c]" by (auto simp: escape_char_def)
    with 2 n show ?thesis by simp
  next
    case 3
    then have "length (escape_char c) = 4" "escape_char c = escape_decimal c"
      by (auto simp: escape_char_def escape_decimal_def)
    with 3 n show ?thesis by simp
  qed
qed

declare escape_loop.simps(2) [simp del]

lemma escape_loop_fits:
  "length (escaped l) < sz \<Longrightarrow> escape_loop l sz = (escaped l, sz - length (escaped l), True)"
proof (induction l arbitrary: sz)
  case (Cons c l)
  then show ?case by (simp add: escape_loop_Cons)
qed simp

lemma escape_loop_fails:
  "sz \<le> length (escaped l) \<Longrightarrow> 0 < sz \<Longrightarrow> \<not> snd (snd (escape_loop l sz))"
proof (induction l arbitrary: sz)
  case (Cons c l)
  from Cons.prems Cons.IH [of "sz - length (escape_char c)"] show ?case
    by (auto simp: escape_loop_Cons case_prod_unfold Let_def)
qed simp

lemma escape_label_fits:
  "length (escaped l) < sz \<Longrightarrow>
   avahi_escape_label l sz = Some (escaped l, sz - length (escaped l), True)"
  by (simp add: avahi_escape_label_def escape_loop_fits)

lemma escape_digit:
  assumes "k < 10"
  shows "isdigit_c (48 + byte_of k)" "digit_value (48 + byte_of k) = k"
    "48 + byte_of k \<noteq> dot" "48 + byte_of k \<noteq> backslash" "48 + byte_of k \<noteq> 0"
proof -
  have u: "unat (48 + byte_of k) = 48 + k"
    using assms by (simp add: unat_word_ariths)
  show "isdigit_c (48 + byte_of k)" "48 + byte_of k \<noteq> dot" "48 + byte_of k \<noteq> backslash" "48 + byte_of k \<noteq> 0"
    using assms by (auto simp: isdigit_c_def word_le_nat_alt word_unat_eq_iff u)
  show "digit_value (48 + byte_of k) = k"
    using assms by (simp add: digit_value_def)
qed

lemma escape_digits:
  "n div 100 * 100 + n div 10 mod 10 * 10 + n mod 10 = (n :: nat)"
proof -
  have "n div 100 = n div 10 div 10" using div_mult2_eq [of n 10 10] by simp
  then show ?thesis
    using div_mult_mod_eq [of n 10] div_mult_mod_eq [of "n div 10" 10] by linarith
qed

lemma unescape_loop_escape_char:
  assumes "length d < sz" "c \<noteq> 0"
  shows "unescape_loop sz d (escape_char c @ t) = unescape_loop sz (d @ [c]) t"
proof (cases "c = dot \<or> c = backslash \<or> proper_char c")
  case True
  with assms show ?thesis by (auto simp: escape_char_def proper_char_def)
next
  case False
  have "unat c div 100 < 10" using byte_lt [of c] by (simp add: div_less_iff_less_mult del: byte_lt)
  moreover have "unat c div 10 mod 10 < 10" "unat c mod 10 < 10" by simp_all
  moreover have "unat c \<noteq> 0" using assms by (simp add: unat_eq_0)
  moreover have "unat c div 100 * 100 + unat c div 10 mod 10 * 10 + unat c mod 10 = unat c"
    by (rule escape_digits)
  ultimately show ?thesis
    using False assms byte_lt [of c]
    by (simp add: escape_char_def escape_decimal_def escape_digit del: byte_lt)
qed

lemma unescape_loop_escaped:
  "length d + length l < sz \<Longrightarrow> no_nul l \<Longrightarrow>
   unescape_loop sz d (escaped l @ t) = unescape_loop sz (d @ l) t"
proof (induction l arbitrary: d)
  case (Cons c l)
  then show ?case by (simp add: unescape_loop_escape_char)
qed simp

text \<open>A label as it can stand in a name.\<close>

definition label_ok :: "cstr \<Rightarrow> bool" where
  "label_ok l \<longleftrightarrow> no_nul l \<and> avahi_utf8_valid l \<and> length l < AVAHI_LABEL_MAX"

lemma unescape_escaped:
  assumes "no_nul l" "avahi_utf8_valid l" "length l < sz"
  shows "avahi_unescape_label sz (escaped l) = Some (l, [])"
    "avahi_unescape_label sz (escaped l @ dot # t) = Some (l, t)"
  using assms unescape_loop_escaped [of "[]" l sz "[]"] unescape_loop_escaped [of "[]" l sz "dot # t"]
  by (simp_all add: avahi_unescape_label_def)

lemma byte_of_nonzero: "n < 256 \<Longrightarrow> n \<noteq> 0 \<Longrightarrow> byte_of n \<noteq> 0"
  using byte_of_inj [of n 0] by (auto simp: byte_of_def)

lemma unescape_loop_backslash:
  assumes "unescape_loop sz d (backslash # s) = Some x"
  obtains c s' where "unescape_loop sz (d @ [c]) s' = Some x" "c \<noteq> 0" "length s' < length s" "no_nul s \<longrightarrow> no_nul s'"
    "s = c # s'" "c = backslash \<or> c = dot"
  | c1 c2 c3 s' n where "unescape_loop sz (d @ [byte_of n]) s' = Some x" "byte_of n \<noteq> 0" "s = c1 # c2 # c3 # s'"
    "n = digit_value c1 * 100 + digit_value c2 * 10 + digit_value c3" "0 < n" "n < 256"
    "\<not> (c1 = backslash \<or> c1 = dot)" "isdigit_c c1" "isdigit_c c2" "isdigit_c c3" "length d < sz"
proof (cases s)
  case (Cons c1 s1)
  show ?thesis
  proof (cases "c1 = backslash \<or> c1 = dot")
    case True
    with assms Cons that(1) [of c1 s1] show ?thesis by (auto split: if_splits)
  next
    case False
    with assms Cons obtain c2 c3 s3 where s: "s1 = c2 # c3 # s3"
      by (auto split: if_splits list.splits)
    with False assms Cons that(2) [of "digit_value c1 * 100 + digit_value c2 * 10 + digit_value c3" s3 c1 c2 c3]
    show ?thesis by (auto simp: Let_def byte_of_nonzero split: if_splits)
  qed
qed (use assms in \<open>auto split: if_splits\<close>)

lemma unescape_loop_result:
  "unescape_loop sz d s = Some (l, r) \<Longrightarrow>
     length l < sz \<and> length l + length r + (if r = [] then 0 else 1) \<le> length d + length s \<and>
     (no_nul d \<longrightarrow> no_nul s \<longrightarrow> no_nul l \<and> no_nul r)"
proof (induction "length s" arbitrary: d s rule: less_induct)
  case less
  show ?case
  proof (cases s)
    case Nil
    with less.prems show ?thesis by (auto split: if_splits)
  next
    case (Cons c s1)
    consider "c = dot" | "c = backslash" | "c \<noteq> dot" "c \<noteq> backslash" by blast
    then show ?thesis
    proof cases
      case 1
      with less.prems Cons show ?thesis by (auto split: if_splits)
    next
      case 2
      from less.prems [unfolded Cons 2] show ?thesis
      proof (cases rule: unescape_loop_backslash)
        case (1 c' s')
        with less.hyps [OF _ 1(1)] Cons show ?thesis by (auto simp: 2)
      next
        case (2 c1 c2 c3 s' n)
        with less.hyps [OF _ 2(1)] Cons show ?thesis by auto
      qed
    next
      case 3
      with less.prems Cons have "unescape_loop sz (d @ [c]) s1 = Some (l, r)" by (auto split: if_splits)
      from less.hyps [OF _ this] Cons show ?thesis by auto
    qed
  qed
qed

lemma unescape_label_result:
  assumes "avahi_unescape_label AVAHI_LABEL_MAX s = Some (l, r)" "no_nul s"
  shows "label_ok l" "no_nul r" "length l + length r + (if r = [] then 0 else 1) \<le> length s"
  using assms unescape_loop_result [of AVAHI_LABEL_MAX "[]" s l r]
  by (auto simp: avahi_unescape_label_def label_ok_def split: option.splits if_splits)


subsection \<open>A name as its list of labels\<close>

function labels_of :: "cstr \<Rightarrow> cstr list option" where
  "labels_of s =
     (if s = [] then Some []
      else case avahi_unescape_label AVAHI_LABEL_MAX s of
        None \<Rightarrow> None
      | Some (l, s') \<Rightarrow> map_option ((#) l) (labels_of s'))"
  by pat_completeness auto
termination
  by (relation "measure length") (auto dest: unescape_label_shorter)

declare labels_of.simps [simp del]

lemma labels_of_Nil [simp]: "labels_of [] = Some []"
  by (simp add: labels_of.simps)

lemma unescape_label_Nil [simp]: "avahi_unescape_label AVAHI_LABEL_MAX [] = Some ([], [])"
  by (simp add: avahi_unescape_label_def AVAHI_LABEL_MAX_def)

text \<open>The canonical spelling of a list of labels, without and with a dot in front.\<close>

definition dotted :: "cstr list \<Rightarrow> cstr" where
  "dotted ls = concat (map (\<lambda>l. dot # escaped l) ls)"

fun join_labels :: "cstr list \<Rightarrow> cstr" where
  "join_labels [] = []"
| "join_labels (l # ls) = escaped l @ dotted ls"

lemma dotted_simps [simp]: "dotted [] = []" "dotted (l # ls) = dot # join_labels (l # ls)"
  by (simp_all add: dotted_def)

text \<open>What \<open>avahi_normalize_name\<close> computes: \<open>None\<close> for an invalid name.\<close>

definition labels_valid :: "cstr list \<Rightarrow> bool" where
  "labels_valid ls \<longleftrightarrow> ls = [[]] \<or> [] \<notin> set ls"

definition normal_form :: "cstr \<Rightarrow> cstr option" where
  "normal_form s =
     (case labels_of s of None \<Rightarrow> None
      | Some ls \<Rightarrow> if labels_valid ls then Some (join_labels ls) else None)"

lemma labels_of_ok: "no_nul s \<Longrightarrow> labels_of s = Some ls \<Longrightarrow> list_all label_ok ls"
proof (induction s arbitrary: ls rule: labels_of.induct)
  case (1 s)
  show ?case
  proof (cases "s = []")
    case True
    with 1 show ?thesis by simp
  next
    case False
    with "1.prems" obtain l s' ls' where u: "avahi_unescape_label AVAHI_LABEL_MAX s = Some (l, s')"
      and l: "labels_of s' = Some ls'" "ls = l # ls'"
      by (auto simp: labels_of.simps [of s] split: option.splits)
    from unescape_label_result [OF u "1.prems"(1)] "1.IH" [OF False u _ _ l(1)] l(2)
    show ?thesis by simp
  qed
qed

lemma labels_of_join:
  "list_all label_ok ls \<Longrightarrow> [] \<notin> set ls \<Longrightarrow> labels_of (join_labels ls) = Some ls"
proof (induction ls)
  case (Cons l ls)
  have l: "no_nul l" "avahi_utf8_valid l" "length l < AVAHI_LABEL_MAX" "l \<noteq> []"
    using Cons.prems by (auto simp: label_ok_def)
  show ?case
  proof (cases ls)
    case Nil
    with l show ?thesis by (simp add: labels_of.simps unescape_escaped)
  next
    case (Cons l' ls')
    with Cons.IH Cons.prems have "labels_of (join_labels ls) = Some ls" by simp
    moreover have "join_labels (l # ls) = escaped l @ dot # join_labels ls"
      using Cons by simp
    ultimately show ?thesis
      using l by (simp add: labels_of.simps [of "escaped l @ dot # join_labels ls"] unescape_escaped)
  qed
qed simp

lemma join_labels_length:
  assumes "no_nul s" "labels_of s = Some ls"
  shows "length (join_labels ls) \<le> 4 * length s"
  using assms
proof (induction s arbitrary: ls rule: labels_of.induct)
  case (1 s)
  show ?case
  proof (cases "s = []")
    case True
    with 1 show ?thesis by simp
  next
    case False
    with "1.prems" obtain l s' ls' where u: "avahi_unescape_label AVAHI_LABEL_MAX s = Some (l, s')"
      and l: "labels_of s' = Some ls'" "ls = l # ls'"
      by (auto simp: labels_of.simps [of s] split: option.splits)
    have ih: "length (join_labels ls') \<le> 4 * length s'"
      using "1.IH" [OF False u _ _ l(1)] unescape_label_result [OF u "1.prems"(1)] by simp
    have "s' = [] \<Longrightarrow> ls' = []" using l(1) by simp
    with ih l(2) unescape_label_result(3) [OF u "1.prems"(1)] length_escaped(2) [of l]
    show ?thesis by (cases ls') (auto split: if_splits)
  qed
qed


subsection \<open>What normalisation computes\<close>

lemma normalize_loop_step:
  assumes "s \<noteq> []" "avahi_unescape_label AVAHI_LABEL_MAX s = Some (l, s')" "l \<noteq> []"
    and "length (escaped l) + (if emp then 0 else 1) < sz"
  shows "normalize_loop s emp out sz nul =
    normalize_loop s' False ((if emp then out else out @ [dot]) @ escaped l)
      ((if emp then sz else sz - 1) - length (escaped l)) True"
  using assms by (cases emp) (simp_all add: normalize_loop.simps [of s] escape_label_fits)

text \<open>
  The invariant of the loop: what is left of the buffer has four bytes for every byte of the name
  still to be read, and one for the dot in front of it, and a NUL stands behind the output wherever
  the loop can return it.
\<close>

lemma normalize_loop_total:
  assumes "no_nul s" and "s = [] \<or> emp \<Longrightarrow> nul"
    and "s \<noteq> [] \<Longrightarrow> 4 * length s + (if emp then 0 else 1) < sz"
  shows "normalize_loop s emp out sz nul =
     Some (case labels_of s of None \<Rightarrow> None
      | Some ls \<Rightarrow> if emp \<and> ls = [[]] then Some out else if [] \<in> set ls then None
          else Some (out @ (if emp then join_labels ls else dotted ls)))"
  using assms
proof (induction "length s" arbitrary: s emp out sz nul rule: less_induct)
  case less
  show ?case
  proof (cases "s = []")
    case True
    with less.prems show ?thesis by (simp add: normalize_loop.simps [of "[]"])
  next
    case False
    show ?thesis
    proof (cases "avahi_unescape_label AVAHI_LABEL_MAX s")
      case None
      with False show ?thesis by (simp add: normalize_loop.simps [of s] labels_of.simps [of s])
    next
      case (Some a)
      then obtain l s' where u: "avahi_unescape_label AVAHI_LABEL_MAX s = Some (l, s')" by (cases a) auto
      note ur = unescape_label_result [OF u less.prems(1)]
      have ls: "labels_of s = map_option ((#) l) (labels_of s')"
        using False u by (simp add: labels_of.simps [of s])
      show ?thesis
      proof (cases "l = []")
        case True
        then show ?thesis
          using False u ls less.prems(2)
          by (cases "labels_of s'") (auto simp: normalize_loop.simps [of s] labels_of.simps [of s']
              split: option.splits if_splits)
      next
        case l: False
        define out' sz' where "out' = (if emp then out else out @ [dot])" and "sz' = (if emp then sz else sz - 1)"
        have sz: "length (escaped l) < sz'" "1 \<le> sz"
          using less.prems(3) False ur(3) length_escaped(2) [of l] by (auto simp: sz'_def split: if_splits)
        have step: "normalize_loop s emp out sz nul =
            normalize_loop s' False (out' @ escaped l) (sz' - length (escaped l)) True"
          using sz normalize_loop_step [OF False u l, of emp sz out nul]
          by (simp add: out'_def sz'_def split: if_splits)
        have "normalize_loop s' False (out' @ escaped l) (sz' - length (escaped l)) True =
            Some (case labels_of s' of None \<Rightarrow> None
              | Some ls \<Rightarrow> if [] \<in> set ls then None else Some ((out' @ escaped l) @ dotted ls))"
          using less.prems(3) False ur(3) length_escaped(2) [of l]
          by (subst less.hyps [OF unescape_label_shorter(2) [OF u False]])
            (use ur(2) in \<open>auto simp: sz'_def split: if_splits option.split\<close>)
        then show ?thesis
          unfolding step ls using l by (auto simp: out'_def split: option.splits)
      qed
    qed
  qed
qed

lemma normalize_name_total:
  assumes "no_nul s" "4 * length s < sz"
  shows "avahi_normalize_name s sz = Some (normal_form s)"
  using assms normalize_loop_total [of s True True sz "[]"]
  by (auto simp: avahi_normalize_name_def normal_form_def labels_valid_def split: option.splits)


text \<open>For a valid name it is enough that the canonical spelling fits.\<close>

lemma normalize_loop_fits:
  assumes "labels_of s = Some ls" "[] \<notin> set ls" "s = [] \<Longrightarrow> nul"
    and "length (if emp then join_labels ls else dotted ls) < sz"
  shows "normalize_loop s emp out sz nul = Some (Some (out @ (if emp then join_labels ls else dotted ls)))"
  using assms
proof (induction "length s" arbitrary: s ls emp out sz nul rule: less_induct)
  case less
  show ?case
  proof (cases "s = []")
    case True
    with less.prems show ?thesis by (simp add: normalize_loop.simps [of "[]"])
  next
    case False
    with less.prems obtain l s' ls' where u: "avahi_unescape_label AVAHI_LABEL_MAX s = Some (l, s')"
      and l: "labels_of s' = Some ls'" "ls = l # ls'" "l \<noteq> []" "[] \<notin> set ls'"
      by (auto simp: labels_of.simps [of s] split: option.splits)
    define out' sz' where "out' = (if emp then out else out @ [dot])" and "sz' = (if emp then sz else sz - 1)"
    have sz: "length (escaped l) < sz'" "1 \<le> sz" "length (dotted ls') < sz' - length (escaped l)"
      using less.prems(4) l(2) by (auto simp: sz'_def split: if_splits)
    have "normalize_loop s emp out sz nul =
        normalize_loop s' False (out' @ escaped l) (sz' - length (escaped l)) True"
      using sz normalize_loop_step [OF False u l(3), of emp sz out nul]
      by (simp add: out'_def sz'_def split: if_splits)
    also have "\<dots> = Some (Some ((out' @ escaped l) @ dotted ls'))"
      using sz l by (subst less.hyps [OF unescape_label_shorter(2) [OF u False] l(1)]) auto
    finally show ?thesis using l by (simp add: out'_def)
  qed
qed

lemma normalize_name_fits:
  assumes "labels_of s = Some ls" "[] \<notin> set ls" "length (join_labels ls) < sz"
  shows "avahi_normalize_name s sz = Some (Some (join_labels ls))"
  using assms normalize_loop_fits [of s ls True True sz "[]"]
  by (simp add: avahi_normalize_name_def)

lemma normal_form_Some:
  assumes "no_nul s" "normal_form s = Some t"
  obtains ls where "t = join_labels ls" "[] \<notin> set ls" "list_all label_ok ls" "labels_of t = Some ls"
    "length t \<le> 4 * length s"
proof -
  from assms obtain ls where ls: "labels_of s = Some ls" "labels_valid ls" "t = join_labels ls"
    by (auto simp: normal_form_def split: option.splits if_splits)
  show ?thesis
  proof (cases "ls = [[]]")
    case True
    with ls that [of "[]"] show ?thesis by simp
  next
    case False
    with ls labels_of_ok [OF assms(1) ls(1)] labels_of_join [of ls] join_labels_length [OF assms(1) ls(1)]
    show ?thesis by (intro that [of ls]) (auto simp: labels_valid_def)
  qed
qed

lemma normal_form_idem: "no_nul s \<Longrightarrow> normal_form s = Some t \<Longrightarrow> normal_form t = Some t"
  by (erule (1) normal_form_Some) (auto simp: normal_form_def labels_valid_def)

subsection \<open>Validity is having a normal form\<close>

lemma domain_name_loop_iff:
  "domain_name_loop fr t \<longleftrightarrow>
     (case labels_of t of None \<Rightarrow> False
      | Some ls \<Rightarrow> if ls = [] then fr else (fr \<and> ls = [[]]) \<or> [] \<notin> set ls)"
proof (induction "length t" arbitrary: t fr rule: less_induct)
  case less
  show ?case
  proof (cases "t = []")
    case True
    then show ?thesis by (simp add: domain_name_loop.simps [of _ "[]"])
  next
    case False
    show ?thesis
    proof (cases "avahi_unescape_label AVAHI_LABEL_MAX t")
      case None
      with False show ?thesis by (simp add: domain_name_loop.simps [of _ t] labels_of.simps [of t])
    next
      case (Some a)
      then obtain l t' where u: "avahi_unescape_label AVAHI_LABEL_MAX t = Some (l, t')" by (cases a) auto
      have "t' \<noteq> [] \<Longrightarrow> labels_of t' \<noteq> Some []"
        by (auto simp: labels_of.simps [of t'] split: option.splits)
      with u False less.hyps [OF unescape_label_shorter(2) [OF u False], of False] show ?thesis
        by (auto simp: domain_name_loop.simps [of _ t] labels_of.simps [of t] split: option.splits if_splits)
    qed
  qed
qed

lemma is_valid_domain_name_iff:
  "avahi_is_valid_domain_name t \<longleftrightarrow> length t < AVAHI_DOMAIN_NAME_MAX \<and> normal_form t \<noteq> None"
  by (auto simp: avahi_is_valid_domain_name_def domain_name_loop_iff normal_form_def labels_valid_def
      split: option.splits if_splits)

subsection \<open>Comparison and hash agree\<close>

text \<open>Labels compare without case; empty labels at the end do not count.\<close>

fun canon :: "cstr list \<Rightarrow> cstr list" where
  "canon [] = []"
| "canon (l # ls) = (if canon ls = [] \<and> l = [] then [] else map tolower_c l # canon ls)"

lemma strcaseeq_simps [simp]: "strcaseeq [] l \<longleftrightarrow> l = []" "strcaseeq l [] \<longleftrightarrow> l = []"
  by (auto simp: strcaseeq_def)

lemma domain_equal_canon:
  "labels_of a = Some la \<Longrightarrow> labels_of b = Some lb \<Longrightarrow>
   avahi_domain_equal a b = Some (canon la = canon lb)"
proof (induction "length a + length b" arbitrary: a b la lb rule: less_induct)
  case less
  obtain x a' la' where a: "avahi_unescape_label AVAHI_LABEL_MAX a = Some (x, a')" "labels_of a' = Some la'"
    and ca: "canon la = canon (x # la')" and sa: "a \<noteq> [] \<longrightarrow> length a' < length a" "a = [] \<longrightarrow> a' = []"
    using less.prems(1) unescape_label_shorter(2) [of AVAHI_LABEL_MAX a]
    by (cases "a = []") (auto simp: labels_of.simps [of a] split: option.splits)
  obtain y b' lb' where b: "avahi_unescape_label AVAHI_LABEL_MAX b = Some (y, b')" "labels_of b' = Some lb'"
    and cb: "canon lb = canon (y # lb')" and sb: "b \<noteq> [] \<longrightarrow> length b' < length b" "b = [] \<longrightarrow> b' = []"
    using less.prems(2) unescape_label_shorter(2) [of AVAHI_LABEL_MAX b]
    by (cases "b = []") (auto simp: labels_of.simps [of b] split: option.splits)
  have ih: "\<not> (a' = [] \<and> b' = []) \<Longrightarrow> avahi_domain_equal a' b' = Some (canon la' = canon lb')"
    using sa sb by (intro less.hyps a(2) b(2)) (cases "a = []"; cases "b = []"; auto)
  show ?case
    using ih a b by (auto simp: avahi_domain_equal.simps [of a b] ca cb strcaseeq_def)
qed

lemma hash_label_tolower: "hash_label h l = hash_label h (map tolower_c l)"
proof -
  have "tolower_c (tolower_c c) = tolower_c c" for c
    by (auto simp: tolower_c_def word_le_nat_alt unat_word_ariths)
  then show ?thesis
    by (induction l arbitrary: h) (simp_all add: hash_label_def)
qed

lemma domain_hash_canon:
  "labels_of s = Some ls \<Longrightarrow> domain_hash_loop h s = Some (foldl hash_label h (canon ls))"
proof (induction "length s" arbitrary: s ls h rule: less_induct)
  case less
  show ?case
  proof (cases "s = []")
    case True
    with less.prems show ?thesis by (simp add: domain_hash_loop.simps)
  next
    case False
    with less.prems obtain l s' ls' where u: "avahi_unescape_label AVAHI_LABEL_MAX s = Some (l, s')"
      and l: "labels_of s' = Some ls'" "ls = l # ls'"
      by (auto simp: labels_of.simps [of s] split: option.splits)
    from less.hyps [OF unescape_label_shorter(2) [OF u False] l(1)] u False l(2) hash_label_tolower [of h l]
    show ?thesis by (auto simp: domain_hash_loop.simps [of h s] hash_label_def)
  qed
qed

subsection \<open>Splitting undoes joining\<close>

lemma labels_of_escaped:
  assumes "label_ok l" "l \<noteq> []"
  shows "labels_of (escaped l) = Some [l]"
    "labels_of (escaped l @ dot # t) = map_option ((#) l) (labels_of t)"
  using assms unescape_escaped [of l AVAHI_LABEL_MAX]
  by (simp_all add: label_ok_def labels_of.simps [of "escaped l"] labels_of.simps [of "escaped l @ dot # t"])

lemma labels_of_join_append:
  "list_all label_ok ls \<Longrightarrow> [] \<notin> set ls \<Longrightarrow> ls \<noteq> [] \<Longrightarrow>
   labels_of (join_labels ls @ dot # t) = map_option ((@) ls) (labels_of t)"
proof (induction ls)
  case (Cons l ls)
  then show ?case
  proof (cases ls)
    case Nil
    with Cons.prems show ?thesis
      by (simp add: labels_of_escaped option.map_comp comp_def)
  next
    case (Cons l' ls')
    then have j: "join_labels (l # ls) @ dot # t = escaped l @ dot # (join_labels ls @ dot # t)"
      by simp
    show ?thesis
      unfolding j using Cons.IH Cons.prems Cons
      by (auto simp: labels_of_escaped(2) option.map_comp comp_def simp del: join_labels.simps)
  qed
qed simp

lemma service_type_loop_iff:
  "service_type_loop t \<longleftrightarrow>
     (case labels_of t of None \<Rightarrow> False | Some ls \<Rightarrow> ls \<noteq> [] \<and> list_all is_service_label ls)"
proof (induction "length t" arbitrary: t rule: less_induct)
  case less
  show ?case
  proof (cases "t = []")
    case True
    then show ?thesis by (simp add: service_type_loop.simps [of "[]"])
  next
    case False
    show ?thesis
    proof (cases "avahi_unescape_label AVAHI_LABEL_MAX t")
      case None
      with False show ?thesis by (simp add: service_type_loop.simps [of t] labels_of.simps [of t])
    next
      case (Some a)
      then obtain l t' where u: "avahi_unescape_label AVAHI_LABEL_MAX t = Some (l, t')" by (cases a) auto
      have "t' \<noteq> [] \<Longrightarrow> labels_of t' \<noteq> Some []"
        by (auto simp: labels_of.simps [of t'] split: option.splits)
      with u False less.hyps [OF unescape_label_shorter(2) [OF u False]] show ?thesis
        by (auto simp: service_type_loop.simps [of t] labels_of.simps [of t] is_service_label_def
            split: option.splits if_splits)
    qed
  qed
qed

text \<open>The loop of \<open>avahi_service_name_split\<close> over labels that are already read.\<close>

fun split_labels ::
  "split_state \<Rightarrow> cstr list \<Rightarrow> cstr \<Rightarrow> nat \<Rightarrow> cstr \<times> nat \<times> bool \<Rightarrow> cstr \<times> nat \<times> bool \<Rightarrow> (int + cstr \<times> cstr \<times> cstr) outcome"
where
  "split_labels state [] name name_size ty dmn = Some (Inr (name, fst ty, fst dmn))"
| "split_labels state (buf # ls) name name_size ty dmn =
     (if state = SPLIT_NAME then split_labels SPLIT_TYPE ls (take (name_size - 1) buf) name_size ty dmn
      else if state = SPLIT_TYPE \<and> first_byte buf = underscore then do {
        r \<leftarrow> split_append ty buf;
        (case r of None \<Rightarrow> Some (Inl AVAHI_ERR_NO_MEMORY)
         | Some ty \<Rightarrow> split_labels SPLIT_TYPE ls name name_size ty dmn)
      }
      else do {
        r \<leftarrow> split_append dmn buf;
        (case r of None \<Rightarrow> Some (Inl AVAHI_ERR_NO_MEMORY)
         | Some dmn \<Rightarrow> split_labels SPLIT_DOMAIN ls name name_size ty dmn)
      })"

lemma split_loop_labels:
  "labels_of p = Some ls \<Longrightarrow> split_loop state p name n ty dmn = split_labels state ls name n ty dmn"
proof (induction "length p" arbitrary: p ls state name n ty dmn rule: less_induct)
  case less
  show ?case
  proof (cases "p = []")
    case True
    with less.prems show ?thesis by (simp add: split_loop.simps)
  next
    case False
    with less.prems obtain l p' ls' where u: "avahi_unescape_label AVAHI_LABEL_MAX p = Some (l, p')"
      and l: "labels_of p' = Some ls'" "ls = l # ls'"
      by (auto simp: labels_of.simps [of p] split: option.splits)
    have IH: "split_loop st p' = split_labels st ls'" for st
      by (intro ext less.hyps unescape_label_shorter(2) [OF u False] l(1))
    from u have u64: "avahi_unescape_label 64 p = Some (l, p')" by (simp add: AVAHI_LABEL_MAX_def)
    show ?thesis
      unfolding split_loop.simps [of state p] l(2) split_labels.simps
      by (simp add: u64 False IH)
  qed
qed

lemma split_append_fits:
  "length (escaped l) + (if emp then 0 else 1) < sz \<Longrightarrow>
   split_append (out, sz, emp) l =
     Some (Some ((if emp then out else out @ [dot]) @ escaped l, (if emp then sz else sz - 1) - length (escaped l), False))"
  by (cases emp) (auto simp: split_append_def escape_label_fits)

lemma split_labels_domain:
  "length (if emp then join_labels ls else dotted ls) < sz \<Longrightarrow>
   split_labels SPLIT_DOMAIN ls name n ty (out, sz, emp) =
     Some (Inr (name, fst ty, out @ (if emp then join_labels ls else dotted ls)))"
proof (induction ls arbitrary: out sz emp)
  case (Cons l ls)
  have "length (escaped l) + (if emp then 0 else 1) < sz" using Cons.prems by (auto split: if_splits)
  with Cons show ?case by (auto simp: split_append_fits split: if_splits)
qed simp

lemma split_labels_domain_start:
  assumes "length (join_labels ls) < sz" "\<And>l ls'. ls = l # ls' \<Longrightarrow> first_byte l \<noteq> underscore"
  shows "split_labels SPLIT_TYPE ls name n ty ([], sz, True) = Some (Inr (name, fst ty, join_labels ls))"
proof (cases ls)
  case (Cons l ls')
  with assms split_labels_domain [of True ls sz name n ty "[]"] show ?thesis by auto
qed simp

lemma split_labels_type:
  assumes "list_all is_service_label ts" "length (if emp then join_labels ts else dotted ts) < sz"
    and "length (join_labels ds) < dsz" "\<And>l ls'. ds = l # ls' \<Longrightarrow> first_byte l \<noteq> underscore"
  shows "split_labels SPLIT_TYPE (ts @ ds) name n (out, sz, emp) ([], dsz, True) =
     Some (Inr (name, out @ (if emp then join_labels ts else dotted ts), join_labels ds))"
  using assms
proof (induction ts arbitrary: out sz emp)
  case Nil
  then show ?case by (simp add: split_labels_domain_start)
next
  case (Cons l ts)
  have "length (escaped l) + (if emp then 0 else 1) < sz" "first_byte l = underscore"
    using Cons.prems by (auto simp: is_service_label_def split: if_splits)
  with Cons show ?case by (auto simp: split_append_fits split: if_splits)
qed

lemma service_label_nonempty: "list_all is_service_label ls \<Longrightarrow> [] \<notin> set ls"
  by (auto simp: list_all_iff is_service_label_def)

lemma split_joined:
  assumes "label_ok nm" "nm \<noteq> []" "list_all label_ok ts" "ts \<noteq> []" "list_all is_service_label ts"
    and "list_all label_ok ds" "[] \<notin> set ds" "\<And>l ls'. ds = l # ls' \<Longrightarrow> first_byte l \<noteq> underscore"
    and "length (join_labels ts) < tsz" "length (join_labels ds) < dsz"
  shows "avahi_service_name_split (escaped nm @ dot # join_labels ts @ dot # join_labels ds)
      (Some AVAHI_LABEL_MAX) tsz dsz = Some (Inr (nm, join_labels ts, join_labels ds))"
proof -
  have p: "labels_of (escaped nm @ dot # join_labels ts @ dot # join_labels ds) = Some (nm # ts @ ds)"
    using assms service_label_nonempty [of ts]
    by (simp add: labels_of_escaped labels_of_join_append labels_of_join)
  have "take (AVAHI_LABEL_MAX - 1) nm = nm" using assms(1) by (simp add: label_ok_def AVAHI_LABEL_MAX_def)
  moreover have "0 < AVAHI_LABEL_MAX" "0 < tsz" "0 < dsz" using assms by (auto simp: AVAHI_LABEL_MAX_def)
  ultimately show ?thesis
    using split_labels_type [of ts True tsz ds dsz nm AVAHI_LABEL_MAX "[]"] assms
    by (simp add: avahi_service_name_split_def split_loop_labels [OF p])
qed

lemma service_name_join_Some:
  assumes "no_nul type" "no_nul domain" "4 * length type < AVAHI_DOMAIN_NAME_MAX"
    "4 * length domain < AVAHI_DOMAIN_NAME_MAX" "avahi_is_valid_service_name nm"
    "avahi_is_valid_service_type_generic type" "avahi_is_valid_domain_name domain"
    "4 * length nm + 4 * length type + 4 * length domain + 2 < sz"
  obtains ts ds where "labels_of type = Some ts" "ts \<noteq> []" "list_all is_service_label ts" "list_all label_ok ts"
    "normal_form type = Some (join_labels ts)" "normal_form domain = Some (join_labels ds)"
    "list_all label_ok ds" "[] \<notin> set ds" "labels_of (join_labels ds) = Some ds"
    "labels_of domain = Some ds \<or> labels_of domain = Some [[]] \<and> ds = []"
    "length (join_labels ts) < AVAHI_DOMAIN_NAME_MAX" "length (join_labels ds) < AVAHI_DOMAIN_NAME_MAX"
    "avahi_service_name_join sz (Some nm) type domain =
       Some (Inr (escaped nm @ dot # join_labels ts @ dot # join_labels ds))"
proof -
  from assms(6) obtain ts where ts: "labels_of type = Some ts" "ts \<noteq> []" "list_all is_service_label ts"
    by (auto simp: avahi_is_valid_service_type_generic_def service_type_loop_iff split: if_splits option.splits)
  then have nt: "normal_form type = Some (join_labels ts)"
    using service_label_nonempty [of ts] by (simp add: normal_form_def labels_valid_def)
  from assms(7) obtain ds where ds: "normal_form domain = Some (join_labels ds)" "list_all label_ok ds"
    "[] \<notin> set ds" "labels_of (join_labels ds) = Some ds" "length (join_labels ds) \<le> 4 * length domain"
    by (auto simp: is_valid_domain_name_iff elim: normal_form_Some [OF assms(2)])
  have d: "labels_of domain = Some ds \<or> labels_of domain = Some [[]] \<and> ds = []"
  proof -
    from ds(1) obtain ls where ls: "labels_of domain = Some ls" "labels_valid ls" "join_labels ls = join_labels ds"
      by (auto simp: normal_form_def split: option.splits if_splits)
    show ?thesis
    proof (cases "ls = [[]]")
      case True
      with ls ds(4) show ?thesis by simp
    next
      case False
      with ls(2) have "[] \<notin> set ls" by (simp add: labels_valid_def)
      from labels_of_join [OF labels_of_ok [OF assms(2) ls(1)] this] ls ds(4) show ?thesis by simp
    qed
  qed
  have lt: "length (join_labels ts) \<le> 4 * length type" by (rule join_labels_length [OF assms(1) ts(1)])
  have "length nm < 64" using assms(5) by (simp add: avahi_is_valid_service_name_def AVAHI_LABEL_MAX_def split: if_splits)
  then have e: "length (escaped nm) < AVAHI_LABEL_MAX * 4"
    using length_escaped(2) [of nm] by (simp add: AVAHI_LABEL_MAX_def)
  have "avahi_service_name_join sz (Some nm) type domain =
      Some (Inr (take (sz - 1) (escaped nm @ dot # join_labels ts @ dot # join_labels ds)))"
    using assms nt ds(1) e
    by (simp add: avahi_service_name_join_def escape_label_fits normalize_name_total del: take_append)
  moreover have "length (escaped nm @ dot # join_labels ts @ dot # join_labels ds) \<le> sz - 1"
    using lt ds(5) length_escaped(2) [of nm] assms(8) by simp
  ultimately show ?thesis
    using that [OF ts(1,2,3) labels_of_ok [OF assms(1) ts(1)] nt ds(1,2,3,4) d] lt ds(5) assms(3,4)
    by simp
qed

lemma unescape_loop_prefix:
  "unescape_loop sz d s = Some (l, r) \<Longrightarrow> \<exists>l'. l = d @ l'"
proof (induction "length s" arbitrary: d s rule: less_induct)
  case less
  show ?case
  proof (cases s)
    case Nil
    with less.prems show ?thesis by (auto split: if_splits)
  next
    case (Cons c s1)
    consider "c = dot" | "c = backslash" | "c \<noteq> dot" "c \<noteq> backslash" by blast
    then show ?thesis
    proof cases
      case 1
      with less.prems Cons show ?thesis by (auto split: if_splits)
    next
      case 2
      from less.prems [unfolded Cons 2] show ?thesis
      proof (cases rule: unescape_loop_backslash)
        case (1 c' s')
        with less.hyps [OF _ 1(1)] Cons show ?thesis by (auto simp: 2)
      next
        case (2 c1 c2 c3 s' n)
        with less.hyps [OF _ 2(1)] Cons show ?thesis by auto
      qed
    next
      case 3
      with less.prems Cons have "unescape_loop sz (d @ [c]) s1 = Some (l, r)" by (auto split: if_splits)
      from less.hyps [OF _ this] Cons show ?thesis by auto
    qed
  qed
qed

text \<open>The first byte of the first label is the first byte of the name, unless that is escaped.\<close>

lemma first_label_byte:
  assumes "labels_of s = Some (l # ls)" "l \<noteq> []" "first_byte s \<noteq> backslash"
  shows "first_byte l = first_byte s"
proof (cases s)
  case (Cons c t)
  with assms(1) obtain r where "avahi_unescape_label AVAHI_LABEL_MAX s = Some (l, r)"
    by (auto simp: labels_of.simps [of "c # t"] split: option.splits if_splits)
  then have u: "unescape_loop AVAHI_LABEL_MAX [] s = Some (l, r)"
    by (auto simp: avahi_unescape_label_def split: option.splits if_splits)
  with assms(2) Cons have "c \<noteq> dot" by (auto split: if_splits)
  with u Cons assms(3) have "unescape_loop AVAHI_LABEL_MAX [c] t = Some (l, r)" by (auto split: if_splits)
  from unescape_loop_prefix [OF this] Cons show ?thesis by auto
qed (use assms in simp)

subsection \<open>Properties\<close>

text \<open>
  C9: a label of valid UTF-8 without NUL that fits a label buffer is read back unchanged from its
  escaped form, at the end of a name and in front of further labels.
\<close>

theorem escape_unescape_roundtrip:
  assumes "no_nul l" "avahi_utf8_valid l" "length l < sz" "length (escaped l) < esz"
  shows "\<exists>w rest. avahi_escape_label l esz = Some (w, rest, True) \<and>
    avahi_unescape_label sz w = Some (l, []) \<and> avahi_unescape_label sz (w @ dot # t) = Some (l, t)"
  using assms by (simp add: escape_label_fits unescape_escaped)

theorem escape_unescape_roundtrip_witness:
  "\<exists>w rest. avahi_escape_label [97, 46, 98, 195, 169] 64 = Some (w, rest, True) \<and>
    avahi_unescape_label 64 w = Some ([97, 46, 98, 195, 169], []) \<and>
    avahi_unescape_label 64 (w @ dot # str ''x'') = Some ([97, 46, 98, 195, 169], str ''x'')"
  by (rule escape_unescape_roundtrip) (code_simp, code_simp, code_simp, code_simp)

text \<open>
  C12: on a buffer with four bytes for every byte of the name, \<open>avahi_normalize_name\<close> returns, and
  what it returns is the canonical spelling of the name's labels, or NULL when the name holds an
  invalid label or an empty one (the root apart). No assert fails.
\<close>

theorem normalize_name_correct:
  assumes "no_nul s" "4 * length s < sz"
  shows "avahi_normalize_name s sz =
    Some (case labels_of s of
        None \<Rightarrow> None
      | Some ls \<Rightarrow> if ls = [[]] then Some [] else if [] \<in> set ls then None else Some (join_labels ls))"
  unfolding normalize_name_total [OF assms] by (simp add: normal_form_def labels_valid_def split: option.split)

theorem normalize_name_correct_witness:
  "avahi_normalize_name (str ''a b.C.'') 100 = Some (Some (str ''a'' @ escape_decimal 32 @ str ''b.C''))"
proof -
  have "no_nul (str ''a b.C.'')" "4 * length (str ''a b.C.'') < 100" by simp_all
  from normalize_name_correct [OF this] show ?thesis
    by (rule trans) code_simp
qed

text \<open>
  Normalising is idempotent: a name that \<open>avahi_normalize_name\<close> returned is returned unchanged
  by every later call whose buffer holds it.
\<close>

theorem normalize_name_idempotent:
  assumes "no_nul s" "4 * length s < sz" "avahi_normalize_name s sz = Some (Some t)" "length t < sz'"
  shows "avahi_normalize_name t sz' = Some (Some t)"
proof -
  from assms have "normal_form s = Some t" by (simp add: normalize_name_total)
  with assms(1) obtain ls where "t = join_labels ls" "[] \<notin> set ls" "labels_of t = Some ls"
    by (rule normal_form_Some)
  with assms(4) normalize_name_fits [of t ls sz'] show ?thesis by simp
qed

theorem normalize_name_idempotent_witness:
  "avahi_normalize_name (str ''a'' @ escape_decimal 32 @ str ''b.C'') 10 =
     Some (Some (str ''a'' @ escape_decimal 32 @ str ''b.C''))"
  by (rule normalize_name_idempotent [of "str ''a b.C.''" 100]) (simp, simp, code_simp, code_simp)

text \<open>Three labels of 63 spaces, one of \<open>n\<close> spaces, and a tail.\<close>

definition spaces_name :: "nat \<Rightarrow> cstr \<Rightarrow> cstr" where
  "spaces_name n t = concat (replicate 3 (replicate 63 32 @ [dot])) @ replicate n 32 @ t"

text \<open>
  C39: the size checks of \<open>avahi_normalize_name\<close> do not protect it. Four labels of 63 spaces and two
  one-letter labels form a valid domain name of 259 bytes, but its canonical spelling does not fit
  1014 bytes: the dot of the last label takes the last byte of the buffer, and the assert
  \<open>*ret_size > 0\<close> of \<open>avahi_escape_label\<close> stops the process. \<open>avahi_is_valid_fqdn\<close>, which
  normalises, stops on the same name.
\<close>

theorem normalize_name_aborts_on_valid_name:
  "avahi_is_valid_domain_name (spaces_name 63 (str ''.a.b'')) \<and>
   avahi_normalize_name_strdup (spaces_name 63 (str ''.a.b'')) = crash \<and>
   avahi_is_valid_fqdn (\<lambda>_. False) (spaces_name 63 (str ''.a.b'')) = crash"
proof -
  let ?s = "spaces_name 63 (str ''.a.b'')"
  have v: "avahi_is_valid_domain_name ?s" by code_simp
  have n: "avahi_normalize_name_strdup ?s = crash" by code_simp
  obtain k where u: "avahi_unescape_label AVAHI_LABEL_MAX ?s = Some (replicate 63 32, k)"
    "(case avahi_unescape_label AVAHI_LABEL_MAX k of None \<Rightarrow> False | Some (l, _) \<Rightarrow> l \<noteq> [])"
  proof -
    have "(case avahi_unescape_label AVAHI_LABEL_MAX ?s of None \<Rightarrow> False | Some (l, k) \<Rightarrow>
      l = replicate 63 32 \<and> (case avahi_unescape_label AVAHI_LABEL_MAX k of None \<Rightarrow> False | Some (l, _) \<Rightarrow> l \<noteq> []))"
      by code_simp
    with that show thesis by (auto split: option.splits)
  qed
  have "length ?s < AVAHI_DOMAIN_NAME_MAX" by code_simp
  with u v n have "avahi_is_valid_fqdn (\<lambda>_. False) ?s = crash"
    by (auto simp: avahi_is_valid_fqdn_def avahi_normalize_name_strdup_def split: option.splits)
  with v n show ?thesis by blast
qed

text \<open>
  \<open>avahi_normalize_name\<close> ignores that \<open>avahi_escape_label\<close> failed. When a label does not fit
  and the next one does, it returns the spelling of another name: here the label \<open>b\<close> followed by a
  space comes back as \<open>b\<close>.
\<close>

theorem normalize_name_truncates_label:
  "labels_of (spaces_name 62 (str ''a.b .c'')) =
     Some (replicate 3 (replicate 63 32) @ [replicate 62 32 @ str ''a'', str ''b '', str ''c'']) \<and>
   map_option (map_option labels_of) (avahi_normalize_name_strdup (spaces_name 62 (str ''a.b .c''))) =
     Some (Some (Some (replicate 3 (replicate 63 32) @ [replicate 62 32 @ str ''a'', str ''b'', str ''c''])))"
  by (intro conjI) (code_simp, code_simp)

text \<open>
  C38: \<open>avahi_is_valid_domain_name\<close> accepts exactly the names of less than 1014 bytes whose labels
  are all readable and, the root apart, not empty.
\<close>

theorem is_valid_domain_name_exact:
  "avahi_is_valid_domain_name t \<longleftrightarrow>
     length t < 1014 \<and> (case labels_of t of None \<Rightarrow> False | Some ls \<Rightarrow> ls = [[]] \<or> list_all (\<lambda>l. l \<noteq> []) ls)"
  by (auto simp: is_valid_domain_name_iff AVAHI_DOMAIN_NAME_MAX_def normal_form_def labels_valid_def list_all_iff
      split: option.splits)

text \<open>
  C35: on readable names \<open>avahi_domain_equal\<close> returns, it decides equality of the lower-case labels
  up to empty labels at the end, and names it calls equal have the same \<open>avahi_domain_hash\<close>.
\<close>

theorem domain_equal_hash:
  assumes "labels_of a = Some la" "labels_of b = Some lb"
  shows "avahi_domain_equal a b = Some (canon la = canon lb) \<and>
    (avahi_domain_equal a b = Some True \<longrightarrow>
       (\<exists>h. avahi_domain_hash a = Some h \<and> avahi_domain_hash b = Some h))"
  using assms by (simp add: domain_equal_canon avahi_domain_hash_def domain_hash_canon)

theorem domain_equal_hash_witness:
  "avahi_domain_equal (str ''Foo.LOCAL'') (str ''foo.local.'') = Some True \<and>
   (\<exists>h. avahi_domain_hash (str ''Foo.LOCAL'') = Some h \<and> avahi_domain_hash (str ''foo.local.'') = Some h)"
proof -
  have l: "labels_of (str ''Foo.LOCAL'') = Some [str ''Foo'', str ''LOCAL'']"
    "labels_of (str ''foo.local.'') = Some [str ''foo'', str ''local'']" by code_simp+
  have "canon [str ''Foo'', str ''LOCAL''] = canon [str ''foo'', str ''local'']" by code_simp
  with domain_equal_hash [OF l] show ?thesis by simp
qed

text \<open>
  C29: \<open>avahi_service_name_split\<close> undoes \<open>avahi_service_name_join\<close>: it gives back the instance name
  and the canonical spellings of type and domain, provided the domain does not start with an
  underscore label (which the code takes for a part of the type).
\<close>

theorem service_name_split_join:
  assumes "label_ok nm" "no_nul type" "no_nul domain"
    and "4 * length type < AVAHI_DOMAIN_NAME_MAX" "4 * length domain < AVAHI_DOMAIN_NAME_MAX"
    and "avahi_is_valid_service_name nm" "avahi_is_valid_service_type_generic type"
    and "avahi_is_valid_domain_name domain" "first_byte domain \<noteq> underscore" "first_byte domain \<noteq> backslash"
    and "4 * length nm + 4 * length type + 4 * length domain + 2 < sz"
  shows "\<exists>p t d. avahi_service_name_join sz (Some nm) type domain = Some (Inr p) \<and>
    normal_form type = Some t \<and> normal_form domain = Some d \<and>
    avahi_service_name_split p (Some AVAHI_LABEL_MAX) AVAHI_DOMAIN_NAME_MAX AVAHI_DOMAIN_NAME_MAX =
      Some (Inr (nm, t, d))"
proof -
  obtain ts ds where ts: "ts \<noteq> []" "list_all is_service_label ts" "list_all label_ok ts"
    "normal_form type = Some (join_labels ts)" "length (join_labels ts) < AVAHI_DOMAIN_NAME_MAX"
    and ds: "normal_form domain = Some (join_labels ds)" "list_all label_ok ds" "[] \<notin> set ds"
    "labels_of domain = Some ds \<or> labels_of domain = Some [[]] \<and> ds = []"
    "length (join_labels ds) < AVAHI_DOMAIN_NAME_MAX"
    and j: "avahi_service_name_join sz (Some nm) type domain =
       Some (Inr (escaped nm @ dot # join_labels ts @ dot # join_labels ds))"
    by (rule service_name_join_Some [OF assms(2-8,11)])
  have nm: "nm \<noteq> []" using assms(6) by (auto simp: avahi_is_valid_service_name_def)
  have "first_byte l \<noteq> underscore" if "ds = l # ls'" for l ls'
    using first_label_byte [of domain l ls'] ds(3,4) assms(9,10) that by auto
  from split_joined [OF assms(1) nm ts(3,1,2) ds(2,3) this ts(5) ds(5)]
  show ?thesis by (intro exI conjI) (rule j, rule ts(4), rule ds(1))
qed

theorem service_name_split_join_witness:
  "\<exists>p t d. avahi_service_name_join AVAHI_DOMAIN_NAME_MAX (Some (str ''My Host''))
      (str ''_http._tcp'') (str ''local'') = Some (Inr p) \<and>
    normal_form (str ''_http._tcp'') = Some t \<and> normal_form (str ''local'') = Some d \<and>
    avahi_service_name_split p (Some AVAHI_LABEL_MAX) AVAHI_DOMAIN_NAME_MAX AVAHI_DOMAIN_NAME_MAX =
      Some (Inr (str ''My Host'', t, d))"
  by (rule service_name_split_join) code_simp+

end
