(* ===== verification/Cstring.thy ===== *)
theory Cstring
  imports Prelude
begin

text \<open>
  The string functions of the C library that the sources call: printing and reading decimal
  numbers (\<open>%u\<close>, \<open>%i\<close>, \<open>atoi\<close>, \<open>strtoll\<close>), \<open>strndup\<close>, \<open>strrchr\<close> and \<open>strstr\<close>, on the
  byte lists of the prelude, with the facts the components use.
\<close>

subsection \<open>Decimal numbers\<close>

definition digit_byte :: "nat \<Rightarrow> byte" where
  "digit_byte d = byte_of (48 + d)"

fun decimal :: "nat \<Rightarrow> cstr" where
  "decimal n = (if n < 10 then [digit_byte n] else decimal (n div 10) @ [digit_byte (n mod 10)])"

declare decimal.simps [simp del]

definition digits_value :: "nat \<Rightarrow> cstr \<Rightarrow> nat" where
  "digits_value b s = foldl (\<lambda>v c. v * b + digit_value c) 0 s"

lemma digit_byte_simps [simp]:
  "d < 10 \<Longrightarrow> isdigit_c (digit_byte d)" "d < 10 \<Longrightarrow> digit_value (digit_byte d) = d"
proof -
  assume "d < 10"
  then have "d \<in> {0, 1, 2, 3, 4, 5, 6, 7, 8, 9}" by auto
  then show "isdigit_c (digit_byte d)" "digit_value (digit_byte d) = d"
    by (auto simp: digit_byte_def isdigit_c_def digit_value_def byte_of_def)
qed

lemma isdigit_bounds: "isdigit_c c \<Longrightarrow> c \<noteq> 0 \<and> c < 128 \<and> digit_value c < 10"
  by (auto simp: isdigit_c_def digit_value_def word_le_nat_alt word_less_nat_alt unat_sub_if')

lemma digits_value_simps [simp]:
  "digits_value b [] = 0" "digits_value b (s @ [c]) = digits_value b s * b + digit_value c"
  by (simp_all add: digits_value_def)

lemma decimal_digits: "list_all isdigit_c (decimal n)"
  by (induction n rule: decimal.induct) (subst decimal.simps, simp)

lemma decimal_digit: "c \<in> set (decimal n) \<Longrightarrow> isdigit_c c"
  using decimal_digits [of n] by (auto simp: list_all_iff)

lemma decimal_value [simp]: "digits_value 10 (decimal n) = n"
  by (induction n rule: decimal.induct) (subst decimal.simps, simp add: digits_value_def)

lemma decimal_nonempty [simp]: "decimal n \<noteq> []"
  by (subst decimal.simps) simp

lemma decimal_first: "0 < n \<Longrightarrow> first_byte (decimal n) \<noteq> 48"
proof (induction n rule: decimal.induct)
  case (1 n)
  show ?case
  proof (cases "n < 10")
    case True
    with 1 have "n \<in> {1, 2, 3, 4, 5, 6, 7, 8, 9}" by auto
    then show ?thesis by (subst decimal.simps) (auto simp: digit_byte_def byte_of_def)
  next
    case False
    with 1 have "first_byte (decimal (n div 10)) \<noteq> 48" by simp
    with False show ?thesis
      by (subst decimal.simps) (cases "decimal (n div 10)", auto)
  qed
qed

lemma decimal_no_nul [simp]: "no_nul (decimal n)"
  using isdigit_bounds decimal_digit by (force simp: no_nul_def)

lemma decimal_length: "0 < k \<Longrightarrow> n < 10 ^ k \<Longrightarrow> length (decimal n) \<le> k"
proof (induction k arbitrary: n)
  case (Suc k)
  show ?case
  proof (cases "n < 10")
    case False
    with Suc.prems have "0 < k" by (cases k) auto
    moreover have "n div 10 < 10 ^ k" using Suc.prems by (simp add: div_less_iff_less_mult)
    ultimately show ?thesis using Suc.IH [of "n div 10"] False by (subst decimal.simps) simp
  qed (subst decimal.simps, simp)
qed simp

subsection \<open>atoi and strtoll\<close>

text \<open>
  \<open>atoi\<close> on a string of digits. A number that is no \<open>int\<close> has an undefined result, a crash here.
\<close>

definition INT_MAX :: nat where "INT_MAX = 2147483647"

definition atoi_digits :: "cstr \<Rightarrow> nat outcome" where
  "atoi_digits s = do { assert_that (digits_value 10 s \<le> INT_MAX); Some (digits_value 10 s) }"

text \<open>
  \<open>strtoll (s, &end, 0)\<close>: white space, a sign, the prefix that selects the base, the longest run of
  digits, clamped to 64 bits. Without a digit \<open>end\<close> is \<open>s\<close>.
\<close>

definition isspace_c :: "byte \<Rightarrow> bool" where
  "isspace_c c \<longleftrightarrow> c = 32 \<or> (9 \<le> c \<and> c \<le> 13)"

definition digit_in_base :: "byte \<Rightarrow> nat" where
  "digit_in_base c =
     (if isdigit_c c then digit_value c
      else if 97 \<le> c \<and> c \<le> 122 then unat c - 87
      else if 65 \<le> c \<and> c \<le> 90 then unat c - 55
      else 99)"

definition hex_prefix :: "cstr \<Rightarrow> bool" where
  "hex_prefix s =
     (case s of a # b # c # _ \<Rightarrow> a = 48 \<and> tolower_c b = 120 \<and> digit_in_base c < 16 | _ \<Rightarrow> False)"

definition strtoll :: "cstr \<Rightarrow> int \<times> cstr" where
  "strtoll s =
     (let s1 = dropWhile isspace_c s;
          neg = (first_byte s1 = 45);
          s2 = (if first_byte s1 = 45 \<or> first_byte s1 = 43 then tl s1 else s1);
          base = (if hex_prefix s2 then 16 else if first_byte s2 = 48 then 8 else 10);
          s3 = (if hex_prefix s2 then drop 2 s2 else s2);
          ds = takeWhile (\<lambda>c. digit_in_base c < base) s3;
          v = int (foldl (\<lambda>v c. v * base + digit_in_base c) 0 ds);
          r = (if neg then max (- (2 ^ 63)) (- v) else min (2 ^ 63 - 1) v)
      in if ds = [] then (0, s) else (r, drop (length ds) s3))"

lemma digit_in_base_digit: "isdigit_c c \<Longrightarrow> digit_in_base c = digit_value c"
  by (simp add: digit_in_base_def)

lemma strtoll_decimal:
  assumes "0 < n" "n < 2 ^ 63"
  shows "strtoll (decimal n) = (int n, [])"
proof -
  obtain c s where d: "decimal n = c # s" by (cases "decimal n") auto
  have c: "isdigit_c c" "c \<noteq> 48" using decimal_digit [of c n] decimal_first [OF assms(1)] d by auto
  then have g: "\<not> isspace_c c" "c \<noteq> 45" "c \<noteq> 43"
    by (auto simp: isspace_c_def isdigit_c_def word_le_nat_alt)
  have t: "takeWhile (\<lambda>c. digit_in_base c < 10) (c # s) = c # s"
    using decimal_digit [of _ n] d isdigit_bounds
    by (auto simp: takeWhile_eq_all_conv digit_in_base_digit)
  have f: "foldl (\<lambda>v c. v * 10 + digit_in_base c) v l = foldl (\<lambda>v c. v * 10 + digit_value c) v l"
    if "set l \<subseteq> set (decimal n)" for v l
    using that decimal_digit [of _ n]
    by (induction l arbitrary: v) (auto simp: digit_in_base_digit)
  have v: "foldl (\<lambda>v c. v * 10 + digit_in_base c) 0 (c # s) = n"
    using f [of "c # s" 0] decimal_value [of n] d by (simp add: digits_value_def)
  have h: "\<not> hex_prefix (c # s)" using c(2) by (simp add: hex_prefix_def split: list.split)
  have w: "dropWhile isspace_c (c # s) = c # s" using g(1) by simp
  have l: "int n \<le> 2 ^ 63 - 1" using assms(2) by simp
  show ?thesis
    unfolding d strtoll_def w Let_def using h g(2,3) c(2) l
    by (simp only: first_byte_simps if_False t v simp_thms) (simp add: min_absorb1)
qed

subsection \<open>Searching and copying\<close>

text \<open>\<open>strndup (s, n)\<close> of a buffer, and the position of the first byte that satisfies a test.\<close>

definition strndup :: "byte list \<Rightarrow> nat \<Rightarrow> cstr" where
  "strndup s n = c_string (take n s)"

lemma strndup_no_nul [simp]: "no_nul s \<Longrightarrow> strndup s n = take n s"
  unfolding strndup_def by (rule c_string_id) (auto simp: no_nul_def dest: in_set_takeD)

text \<open>\<open>memcmp\<close> of two buffers of the same length, as a number of the right sign.\<close>

fun memcmp :: "byte list \<Rightarrow> byte list \<Rightarrow> int" where
  "memcmp (x # xs) (y # ys) = (if x = y then memcmp xs ys else uint x - uint y)"
| "memcmp _ _ = 0"

lemma memcmp_zero: "length xs = length ys \<Longrightarrow> memcmp xs ys = 0 \<longleftrightarrow> xs = ys"
  by (induction xs ys rule: memcmp.induct) (auto simp: word_uint_eq_iff)

lemma memcmp_antisym: "memcmp ys xs = - memcmp xs ys"
  by (induction xs ys rule: memcmp.induct) auto

definition memchr :: "byte list \<Rightarrow> byte \<Rightarrow> nat option" where
  "memchr s c = (let n = length (takeWhile (\<lambda>x. x \<noteq> c) s) in if n < length s then Some n else None)"

text \<open>The position of the last occurrence of a byte, and of the last occurrence of a string.\<close>

definition strrchr :: "cstr \<Rightarrow> byte \<Rightarrow> nat option" where
  "strrchr s c = (if c \<in> set s then Some (length s - 1 - length (takeWhile (\<lambda>x. x \<noteq> c) (rev s))) else None)"

fun strstr :: "cstr \<Rightarrow> cstr \<Rightarrow> nat option" where
  "strstr s pat =
     (if take (length pat) s = pat then Some 0
      else case s of [] \<Rightarrow> None | _ # s' \<Rightarrow> map_option Suc (strstr s' pat))"

declare strstr.simps [simp del]

lemma memchr_None: "memchr s c = None \<longleftrightarrow> c \<notin> set s"
proof -
  have "length (takeWhile (\<lambda>x. x \<noteq> c) s) < length s \<longleftrightarrow> c \<in> set s"
    by (metis (mono_tags, lifting) length_takeWhile_le nat_less_le takeWhile_eq_all_conv takeWhile_eq_take take_all_iff order.refl)
  then show ?thesis by (simp add: memchr_def Let_def)
qed

lemma memchr_append: "c \<notin> set s \<Longrightarrow> memchr (s @ c # t) c = Some (length s)"
proof -
  assume "c \<notin> set s"
  then have "takeWhile (\<lambda>x. x \<noteq> c) (s @ c # t) = s" by (subst takeWhile_append2) auto
  then show ?thesis by (simp add: memchr_def)
qed

lemma strstr_Some: "strstr s pat = Some n \<Longrightarrow> take (length pat) (drop n s) = pat \<and> n \<le> length s"
proof (induction s arbitrary: n)
  case (Cons c s)
  from Cons.prems Cons.IH show ?case
    by (auto simp: strstr.simps [of "c # s"] split: if_splits)
qed (subst (asm) strstr.simps, simp split: if_splits)

end
