(* ===== verification/Timeval.thy ===== *)
theory Timeval
  imports Prelude "HOL-Library.Signed_Division"
begin

text \<open>
  Points in time (avahi-common/timeval.c). A \<open>struct timeval\<close> is a record of two integers: both
  fields and \<open>AvahiUsec\<close> have 64 bits, and the values of the program (seconds since 1970,
  offsets of some minutes) are far from their bounds, so no operation here wraps. C's division
  rounds towards zero: \<open>sdiv\<close> and \<open>smod\<close>. The clock, \<open>time\<close> and \<open>rand\<close> are arguments.
\<close>

record timeval =
  tv_sec :: int
  tv_usec :: int

subsection \<open>The operations\<close>

definition avahi_timeval_compare :: "timeval \<Rightarrow> timeval \<Rightarrow> int" where
  "avahi_timeval_compare a b =
     (if tv_sec a < tv_sec b then - 1
      else if tv_sec a > tv_sec b then 1
      else if tv_usec a < tv_usec b then - 1
      else if tv_usec a > tv_usec b then 1
      else 0)"

function avahi_timeval_diff :: "timeval \<Rightarrow> timeval \<Rightarrow> int" where
  "avahi_timeval_diff a b =
     (if avahi_timeval_compare a b < 0 then - avahi_timeval_diff b a
      else (tv_sec a - tv_sec b) * 1000000 + tv_usec a - tv_usec b)"
  by pat_completeness auto
termination
  by (relation "measure (\<lambda>(a, b). if avahi_timeval_compare a b < 0 then 1 else 0)")
    (auto simp: avahi_timeval_compare_def split: if_splits)

declare avahi_timeval_diff.simps [simp del]

definition avahi_timeval_add :: "timeval \<Rightarrow> int \<Rightarrow> timeval" where
  "avahi_timeval_add a usec =
     (let u = usec + tv_usec a in
      if u < 0 then
        a\<lparr>tv_usec := 1000000 + (u smod 1000000), tv_sec := tv_sec a + (- 1 + u sdiv 1000000)\<rparr>
      else
        a\<lparr>tv_usec := u smod 1000000, tv_sec := tv_sec a + u sdiv 1000000\<rparr>)"

text \<open>The argument \<open>now\<close> is what \<open>gettimeofday\<close> stores.\<close>

definition avahi_age :: "timeval \<Rightarrow> timeval \<Rightarrow> int" where
  "avahi_age now a = avahi_timeval_diff now a"

text \<open>
  The static variables of \<open>avahi_elapse_time\<close>, and the value of the jitter: the code computes
  \<open>jitter * 1000.0 * r / (RAND_MAX + 1.0)\<close> in doubles and truncates. With \<open>RAND_MAX = 2^31 - 1\<close>
  the product is exact as long as \<open>jitter * 1000 < 2^22\<close>; the library passes at most 500.
\<close>

record jitter_state =
  last_rand :: nat
  timestamp :: int

definition RAND_MAX :: nat where "RAND_MAX = 2147483647"

definition jitter_usec :: "nat \<Rightarrow> nat \<Rightarrow> int" where
  "jitter_usec jitter r = int (jitter * 1000 * r div (RAND_MAX + 1))"

text \<open>
  \<open>tv\<close> is what \<open>gettimeofday\<close> stores, \<open>now\<close> the result of \<open>time\<close>, \<open>rnd\<close> that of \<open>rand\<close> if it is
  called.
\<close>

definition avahi_elapse_time ::
  "timeval \<Rightarrow> int \<Rightarrow> nat \<Rightarrow> nat \<Rightarrow> nat \<Rightarrow> jitter_state \<Rightarrow> timeval \<times> jitter_state" where
  "avahi_elapse_time tv now rnd msec jitter st =
     (let tv = (if msec \<noteq> 0 then avahi_timeval_add tv (int msec * 1000) else tv) in
      if jitter \<noteq> 0 then
        let st = (if now \<ge> timestamp st + 10 then st\<lparr>timestamp := now, last_rand := rnd\<rparr> else st) in
        (avahi_timeval_add tv (jitter_usec jitter (last_rand st)), st)
      else (tv, st))"

text \<open>What \<open>gettimeofday\<close>, \<open>time\<close> and \<open>rand\<close> give during one operation of a component.\<close>

record env =
  env_now :: timeval
  env_time :: int
  env_rand :: nat

definition elapse :: "env \<Rightarrow> nat \<Rightarrow> nat \<Rightarrow> jitter_state \<Rightarrow> timeval \<times> jitter_state" where
  "elapse v msec jitter st = avahi_elapse_time (env_now v) (env_time v) (env_rand v) msec jitter st"

subsection \<open>Times as numbers\<close>

definition tv_value :: "timeval \<Rightarrow> int" where
  "tv_value t = tv_sec t * 1000000 + tv_usec t"

definition tv_normal :: "timeval \<Rightarrow> bool" where
  "tv_normal t \<longleftrightarrow> 0 \<le> tv_usec t \<and> tv_usec t < 1000000"

lemma sdiv_smod_nonneg: "0 \<le> (u::int) \<Longrightarrow> u sdiv 1000000 = u div 1000000"
  "0 \<le> (u::int) \<Longrightarrow> u smod 1000000 = u mod 1000000"
  by (simp_all add: signed_divide_int_def signed_modulo_int_def sgn_if minus_div_mult_eq_mod)

lemma sdiv_smod_neg:
  "(u::int) < 0 \<Longrightarrow> u sdiv 1000000 = - ((- u) div 1000000)"
  "(u::int) < 0 \<Longrightarrow> u smod 1000000 = - ((- u) mod 1000000)"
  by (simp_all add: signed_divide_int_def signed_modulo_int_def sgn_if
      minus_div_mult_eq_mod [symmetric])

lemma tv_value_add: "tv_value (avahi_timeval_add a u) = tv_value a + u"
  by (simp add: tv_value_def avahi_timeval_add_def Let_def sdiv_smod_nonneg sdiv_smod_neg
      minus_div_mult_eq_mod [symmetric] algebra_simps)

lemma tv_normal_add:
  "tv_normal (avahi_timeval_add a u) \<longleftrightarrow> 0 \<le> tv_usec a + u \<or> \<not> 1000000 dvd tv_usec a + u"
proof (cases "0 \<le> tv_usec a + u")
  case True
  then show ?thesis by (simp add: tv_normal_def avahi_timeval_add_def sdiv_smod_nonneg Let_def add.commute)
next
  case False
  have "0 \<le> (- (tv_usec a + u)) mod 1000000" "(- (tv_usec a + u)) mod 1000000 < 1000000" by simp_all
  moreover have "1000000 dvd tv_usec a + u \<longleftrightarrow> (- (tv_usec a + u)) mod 1000000 = 0"
    by (metis dvd_eq_mod_eq_0 dvd_minus_iff)
  ultimately show ?thesis using False
    by (auto simp: tv_normal_def avahi_timeval_add_def sdiv_smod_neg Let_def add.commute)
qed

lemma timeval_compare_lex:
  "avahi_timeval_compare a b < 0 \<longleftrightarrow> tv_sec a < tv_sec b \<or> tv_sec a = tv_sec b \<and> tv_usec a < tv_usec b"
  "avahi_timeval_compare a b = 0 \<longleftrightarrow> a = b"
  "avahi_timeval_compare a b > 0 \<longleftrightarrow> tv_sec b < tv_sec a \<or> tv_sec a = tv_sec b \<and> tv_usec b < tv_usec a"
  by (auto simp: avahi_timeval_compare_def intro: timeval.equality)

lemma timeval_compare_antisym: "avahi_timeval_compare b a = - avahi_timeval_compare a b"
  by (simp add: avahi_timeval_compare_def)

lemma timeval_compare_value:
  assumes "tv_normal a" "tv_normal b"
  shows "avahi_timeval_compare a b = sgn (tv_value a - tv_value b)"
  using assms by (auto simp: avahi_timeval_compare_def tv_normal_def tv_value_def sgn_if)

lemma timeval_diff_value: "avahi_timeval_diff a b = tv_value a - tv_value b"
proof (cases "avahi_timeval_compare a b < 0")
  case True
  then have "\<not> avahi_timeval_compare b a < 0" by (simp add: timeval_compare_antisym [of b a])
  with True show ?thesis
    by (simp add: avahi_timeval_diff.simps [of a b] avahi_timeval_diff.simps [of b a] tv_value_def)
qed (simp add: avahi_timeval_diff.simps [of a b] tv_value_def)

text \<open>Adding a time that is not negative keeps a time normal and moves it forward.\<close>

lemma tv_normal_add_nonneg: "tv_normal a \<Longrightarrow> 0 \<le> u \<Longrightarrow> tv_normal (avahi_timeval_add a u)"
  by (simp add: tv_normal_add tv_normal_def [of a])

lemma timeval_add_zero: "tv_normal a \<Longrightarrow> avahi_timeval_add a 0 = a"
  by (simp add: avahi_timeval_add_def tv_normal_def sdiv_smod_nonneg)

lemma jitter_usec_bounds:
  assumes "r \<le> RAND_MAX"
  shows "0 \<le> jitter_usec jitter r" "jitter_usec jitter r \<le> int jitter * 1000"
    "0 < jitter \<Longrightarrow> jitter_usec jitter r < int jitter * 1000"
proof -
  show "0 \<le> jitter_usec jitter r" by (simp add: jitter_usec_def)
  have s: "jitter * 1000 * r div (RAND_MAX + 1) < jitter * 1000" if "0 < jitter"
  proof -
    have "jitter * 1000 * r < jitter * 1000 * (RAND_MAX + 1)"
      using assms that by (intro mult_strict_left_mono) auto
    then show ?thesis by (simp only: div_less_iff_less_mult zero_less_Suc Suc_eq_plus1 [symmetric])
  qed
  then show "jitter_usec jitter r < int jitter * 1000" if "0 < jitter"
    using that unfolding jitter_usec_def by (metis of_nat_less_iff of_nat_mult of_nat_numeral)
  then show "jitter_usec jitter r \<le> int jitter * 1000"
    by (cases "jitter = 0") (auto simp: jitter_usec_def)
qed

subsection \<open>Properties\<close>

text \<open>
  \<open>avahi_timeval_add\<close> adds exactly \<open>u\<close> microseconds, and from a normal time it returns a normal
  one unless the microseconds come out as a negative multiple of a million.
\<close>

theorem timeval_add_exact:
  "tv_value (avahi_timeval_add a u) = tv_value a + u \<and>
   (tv_normal (avahi_timeval_add a u) \<longleftrightarrow> \<not> (tv_usec a + u < 0 \<and> 1000000 dvd tv_usec a + u))"
  by (auto simp: tv_value_add tv_normal_add)

text \<open>
  In the exceptional case the result has 1000000 microseconds, and \<open>avahi_timeval_compare\<close>
  calls it earlier than the same point in time in normal form.
\<close>

theorem timeval_add_denormal:
  "avahi_timeval_add \<lparr>tv_sec = 5, tv_usec = 0\<rparr> (- 1000000) = \<lparr>tv_sec = 3, tv_usec = 1000000\<rparr> \<and>
   avahi_timeval_compare (avahi_timeval_add \<lparr>tv_sec = 5, tv_usec = 0\<rparr> (- 1000000)) \<lparr>tv_sec = 4, tv_usec = 0\<rparr> = - 1 \<and>
   avahi_timeval_diff (avahi_timeval_add \<lparr>tv_sec = 5, tv_usec = 0\<rparr> (- 1000000)) \<lparr>tv_sec = 4, tv_usec = 0\<rparr> = 0"
  by (simp add: timeval_diff_value) (simp add: avahi_timeval_add_def avahi_timeval_compare_def sdiv_smod_neg tv_value_def)

text \<open>
  On normal times \<open>avahi_timeval_compare\<close> is the sign of the difference of the points in time,
  and \<open>avahi_timeval_diff\<close>, which ends after at most one swap, is that difference.
\<close>

theorem timeval_compare_diff:
  assumes "tv_normal a" "tv_normal b"
  shows "avahi_timeval_compare a b = sgn (avahi_timeval_diff a b) \<and>
    avahi_timeval_diff a b = tv_value a - tv_value b"
  using assms by (simp add: timeval_diff_value timeval_compare_value)

theorem timeval_compare_diff_witness:
  "avahi_timeval_compare \<lparr>tv_sec = 7, tv_usec = 999999\<rparr> \<lparr>tv_sec = 8, tv_usec = 1\<rparr> =
     sgn (avahi_timeval_diff \<lparr>tv_sec = 7, tv_usec = 999999\<rparr> \<lparr>tv_sec = 8, tv_usec = 1\<rparr>) \<and>
   avahi_timeval_diff \<lparr>tv_sec = 7, tv_usec = 999999\<rparr> \<lparr>tv_sec = 8, tv_usec = 1\<rparr> = - 2"
  using timeval_compare_diff [of "\<lparr>tv_sec = 7, tv_usec = 999999\<rparr>" "\<lparr>tv_sec = 8, tv_usec = 1\<rparr>"]
  by (simp add: tv_normal_def tv_value_def)

lemma elapse_time_eq:
  "avahi_elapse_time tv now rnd msec jitter st =
    (let st' = (if 0 < jitter \<and> timestamp st + 10 \<le> now then st\<lparr>last_rand := rnd, timestamp := now\<rparr> else st);
         tv1 = (if 0 < msec then avahi_timeval_add tv (int msec * 1000) else tv)
     in (if 0 < jitter then avahi_timeval_add tv1 (jitter_usec jitter (last_rand st')) else tv1, st'))"
  by (simp add: avahi_elapse_time_def Let_def)

lemma elapse_time_value:
  "tv_value (fst (avahi_elapse_time tv now rnd msec jitter st)) =
    tv_value tv + int msec * 1000 +
      jitter_usec jitter (last_rand (snd (avahi_elapse_time tv now rnd msec jitter st)))"
  by (simp add: elapse_time_eq Let_def tv_value_add jitter_usec_def)

text \<open>
  C40: \<open>avahi_elapse_time\<close> draws a new random number exactly when a jitter is asked for and the last
  draw is ten seconds old; otherwise it keeps the stored one. The time it gives is normal, and it lies
  \<open>msec\<close> milliseconds and the share \<open>r / 2^31\<close> of \<open>jitter\<close> milliseconds from now, for the random number
  \<open>r\<close> that is then stored, which is less than \<open>jitter\<close>. A later call before the ten seconds are over
  gives the same distance, whatever its own random number would be.
\<close>

theorem elapse_time_range:
  assumes "tv_normal tv" "last_rand st \<le> RAND_MAX" "rnd \<le> RAND_MAX"
    and "avahi_elapse_time tv now rnd msec jitter st = (tv', st')"
  shows "tv_normal tv' \<and> last_rand st' \<le> RAND_MAX \<and>
    st' = (if 0 < jitter \<and> timestamp st + 10 \<le> now then \<lparr>last_rand = rnd, timestamp = now\<rparr> else st) \<and>
    tv_value tv' = tv_value tv + int msec * 1000 + int (jitter * 1000 * last_rand st' div 2 ^ 31) \<and>
    tv_value tv + int msec * 1000 \<le> tv_value tv' \<and>
    tv_value tv' \<le> tv_value tv + int msec * 1000 + int jitter * 1000 \<and>
    (0 < jitter \<longrightarrow> tv_value tv' < tv_value tv + int msec * 1000 + int jitter * 1000) \<and>
    (now < timestamp st + 10 \<longrightarrow> st' = st) \<and>
    (\<forall>tv2 now2 rnd2. now2 < timestamp st' + 10 \<longrightarrow>
       snd (avahi_elapse_time tv2 now2 rnd2 msec jitter st') = st' \<and>
       tv_value (fst (avahi_elapse_time tv2 now2 rnd2 msec jitter st')) - tv_value tv2 =
         tv_value tv' - tv_value tv)"
proof -
  have st: "st' = (if 0 < jitter \<and> timestamp st + 10 \<le> now then \<lparr>last_rand = rnd, timestamp = now\<rparr> else st)"
    using assms(4) by (cases st) (auto simp: elapse_time_eq Let_def)
  then have r: "last_rand st' \<le> RAND_MAX" using assms(2,3) by simp
  have v: "tv_value tv' = tv_value tv + int msec * 1000 + jitter_usec jitter (last_rand st')"
    using elapse_time_value [of tv now rnd msec jitter st] assms(4) by simp
  have "tv_normal tv'" using assms(1,4) jitter_usec_bounds(1) [OF r, of jitter]
    by (auto simp: elapse_time_eq Let_def tv_normal_add_nonneg split: if_splits)
  moreover have "jitter_usec jitter (last_rand st') = int (jitter * 1000 * last_rand st' div 2 ^ 31)"
    by (simp add: jitter_usec_def RAND_MAX_def)
  moreover have "snd (avahi_elapse_time tv2 now2 rnd2 msec jitter st') = st'" if "now2 < timestamp st' + 10" for tv2 now2 rnd2
    using that by (simp add: elapse_time_eq Let_def)
  ultimately show ?thesis
    using r st v jitter_usec_bounds [OF r, of jitter] elapse_time_value [of _ _ _ msec jitter st'] by auto
qed

theorem elapse_time_range_witness:
  "let (tv', st') = avahi_elapse_time \<lparr>tv_sec = 100, tv_usec = 999000\<rparr> 100 1073741824 20 500 \<lparr>last_rand = 3, timestamp = 0\<rparr>
   in tv_normal tv' \<and> tv' = \<lparr>tv_sec = 101, tv_usec = 269000\<rparr> \<and> last_rand st' \<le> RAND_MAX \<and>
     tv_value (fst (avahi_elapse_time \<lparr>tv_sec = 108, tv_usec = 0\<rparr> 108 7 20 500 st')) = 108270000"
proof -
  have e: "avahi_elapse_time \<lparr>tv_sec = 100, tv_usec = 999000\<rparr> 100 1073741824 20 500 \<lparr>last_rand = 3, timestamp = 0\<rparr> =
    (\<lparr>tv_sec = 101, tv_usec = 269000\<rparr>, \<lparr>last_rand = 1073741824, timestamp = 100\<rparr>)"
    by (simp add: avahi_elapse_time_def avahi_timeval_add_def sdiv_smod_nonneg jitter_usec_def RAND_MAX_def)
  let ?st = "\<lparr>last_rand = 1073741824, timestamp = 100\<rparr>"
  from elapse_time_range [OF _ _ _ e]
  have "\<forall>tv2 now2 rnd2. now2 < timestamp ?st + 10 \<longrightarrow>
      tv_value (fst (avahi_elapse_time tv2 now2 rnd2 20 500 ?st)) - tv_value tv2 =
        tv_value \<lparr>tv_sec = 101, tv_usec = 269000\<rparr> - tv_value \<lparr>tv_sec = 100, tv_usec = 999000\<rparr>"
    by (simp add: tv_normal_def RAND_MAX_def)
  from this [rule_format, of 108 "\<lparr>tv_sec = 108, tv_usec = 0\<rparr>" 7]
  have "tv_value (fst (avahi_elapse_time \<lparr>tv_sec = 108, tv_usec = 0\<rparr> 108 7 20 500 ?st)) = 108270000"
    by (simp add: tv_value_def)
  moreover from elapse_time_range [OF _ _ _ e] have "tv_normal \<lparr>tv_sec = 101, tv_usec = 269000\<rparr>"
    by (simp add: tv_normal_def RAND_MAX_def)
  ultimately show ?thesis by (simp add: e RAND_MAX_def)
qed

end
