(* ===== verification/Strlst.thy ===== *)
theory Strlst
  imports Cstring
begin

text \<open>
  String lists, the payload of TXT records (avahi-common/strlst.c). An \<open>AvahiStringList\<close> is the list
  of its entries from the head on; an entry is the list of its \<open>size\<close> bytes, which may hold NUL,
  and \<open>text[size]\<close> is always NUL. A function that returns a pointer into the list returns the
  suffix that starts there. Variable arguments are a list of strings. Memory management
  (\<open>avahi_string_list_free\<close>) has no counterpart.
\<close>

type_synonym string_list = "byte list list"

subsection \<open>Building lists\<close>

definition avahi_string_list_add_arbitrary :: "string_list \<Rightarrow> byte list \<Rightarrow> string_list" where
  "avahi_string_list_add_arbitrary l t = t # l"

definition avahi_string_list_add :: "string_list \<Rightarrow> cstr \<Rightarrow> string_list" where
  "avahi_string_list_add l t = avahi_string_list_add_arbitrary l t"

fun avahi_string_list_add_many_va :: "string_list \<Rightarrow> cstr list \<Rightarrow> string_list" where
  "avahi_string_list_add_many_va r [] = r"
| "avahi_string_list_add_many_va r (txt # va) = avahi_string_list_add_many_va (avahi_string_list_add r txt) va"

definition avahi_string_list_add_many :: "string_list \<Rightarrow> cstr list \<Rightarrow> string_list" where
  "avahi_string_list_add_many r va = avahi_string_list_add_many_va r va"

definition avahi_string_list_new :: "cstr option \<Rightarrow> cstr list \<Rightarrow> string_list" where
  "avahi_string_list_new txt va =
     (case txt of None \<Rightarrow> []
      | Some txt \<Rightarrow> avahi_string_list_add_many_va (avahi_string_list_add [] txt) va)"

definition avahi_string_list_new_va :: "cstr list \<Rightarrow> string_list" where
  "avahi_string_list_new_va va = avahi_string_list_add_many_va [] va"

text \<open>
  The array holds pointers, \<open>None\<close> for NULL; a negative length stands for an array that ends with
  NULL. Reading behind the array and adding a NULL string are crashes.
\<close>

fun new_from_array_loop :: "string_list \<Rightarrow> cstr option list \<Rightarrow> int \<Rightarrow> string_list outcome" where
  "new_from_array_loop r array len =
     (if len = 0 then Some r
      else case array of
        [] \<Rightarrow> crash
      | None # _ \<Rightarrow> if len > 0 then crash else Some r
      | Some t # array \<Rightarrow>
          new_from_array_loop (avahi_string_list_add r t) array (if len > 0 then len - 1 else len))"

declare new_from_array_loop.simps [simp del]

definition avahi_string_list_new_from_array :: "cstr option list \<Rightarrow> int \<Rightarrow> string_list outcome" where
  "avahi_string_list_new_from_array array len = new_from_array_loop [] array len"

fun reverse_loop :: "string_list \<Rightarrow> string_list \<Rightarrow> string_list" where
  "reverse_loop [] r = r"
| "reverse_loop (x # l) r = reverse_loop l (x # r)"

definition avahi_string_list_reverse :: "string_list \<Rightarrow> string_list" where
  "avahi_string_list_reverse l = reverse_loop l []"

fun copy_loop :: "string_list \<Rightarrow> string_list \<Rightarrow> string_list" where
  "copy_loop [] r = r"
| "copy_loop (x # l) r = copy_loop l (avahi_string_list_add_arbitrary r x)"

definition avahi_string_list_copy :: "string_list \<Rightarrow> string_list" where
  "avahi_string_list_copy l = avahi_string_list_reverse (copy_loop l [])"

fun avahi_string_list_equal :: "string_list \<Rightarrow> string_list \<Rightarrow> bool" where
  "avahi_string_list_equal [] [] = True"
| "avahi_string_list_equal [] (y # b) = False"
| "avahi_string_list_equal (x # a) [] = False"
| "avahi_string_list_equal (x # a) (y # b) =
     (if length x \<noteq> length y then False
      else if length x \<noteq> 0 \<and> x \<noteq> y then False
      else avahi_string_list_equal a b)"

definition avahi_string_list_length :: "string_list \<Rightarrow> nat" where
  "avahi_string_list_length l = foldl (\<lambda>n _. n + 1) 0 l"

text \<open>
  \<open>avahi_string_list_add_vprintf\<close>: \<open>out\<close> is the formatted text. \<open>vsnprintf\<close> returns its length and
  stores what fits the buffer; the loop enlarges the buffer until all of it does.
\<close>

definition vsnprintf :: "nat \<Rightarrow> cstr \<Rightarrow> cstr \<times> nat" where
  "vsnprintf len out = (take (len - 1) out, length out)"

function vprintf_loop :: "nat \<Rightarrow> cstr \<Rightarrow> cstr" where
  "vprintf_loop len out =
     (let (text, n) = vsnprintf len out in if n < len then text else vprintf_loop (n + 1) out)"
  by pat_completeness auto
termination
  by (relation "measure (\<lambda>(len, out). if length out < len then 0 else 1)") (auto simp: vsnprintf_def)

declare vprintf_loop.simps [simp del]

definition avahi_string_list_add_vprintf :: "string_list \<Rightarrow> cstr \<Rightarrow> string_list" where
  "avahi_string_list_add_vprintf l out = vprintf_loop 80 out # l"

subsection \<open>Text and wire format\<close>

text \<open>
  The text between the quotes is copied up to a NUL: \<open>e = strchr (e, 0)\<close> steps back to it.
\<close>

fun to_string_loop :: "bool \<Rightarrow> string_list \<Rightarrow> cstr" where
  "to_string_loop is_first [] = []"
| "to_string_loop is_first (x # l) =
     (if is_first then [] else [32]) @ 34 # strndup x (length x) @ 34 # to_string_loop False l"

definition avahi_string_list_to_string :: "string_list \<Rightarrow> cstr" where
  "avahi_string_list_to_string l = to_string_loop True (avahi_string_list_reverse l)"

fun parse_loop :: "byte list \<Rightarrow> string_list \<Rightarrow> string_list option" where
  "parse_loop [] r = Some r"
| "parse_loop (c # data) r =
     (let k = unat c in
      if k > length data then None
      else let r = (if k > 0 then avahi_string_list_add_arbitrary r (take k data) else r) in
        parse_loop (drop k data) r)"

text \<open>\<open>None\<close> is the return of -1, \<open>Some l\<close> that of 0 with \<open>*ret = l\<close>.\<close>

definition avahi_string_list_parse :: "byte list \<Rightarrow> string_list option" where
  "avahi_string_list_parse data = parse_loop data []"

text \<open>The bytes that the loop of \<open>avahi_string_list_serialize\<close> writes to a buffer of \<open>sz\<close> bytes.\<close>

fun serialize_loop :: "string_list \<Rightarrow> nat \<Rightarrow> byte list" where
  "serialize_loop [] sz = []"
| "serialize_loop (t # l) sz =
     (if sz \<le> 1 then []
      else let k = length t in
        if k = 0 then serialize_loop l sz
        else let k = (if k > 255 then 255 else k); k = (if k > sz - 1 then sz - 1 else k) in
          byte_of k # take k t @ serialize_loop l (sz - (1 + k)))"

fun serialized_size_loop :: "string_list \<Rightarrow> nat" where
  "serialized_size_loop [] = 0"
| "serialized_size_loop (t # l) =
     (let k = length t in
      if k = 0 then serialized_size_loop l
      else let k = (if k > 255 then 255 else k) in 1 + k + serialized_size_loop l)"

text \<open>
  The bytes written (none for a NULL \<open>data\<close>, the argument \<open>None\<close>) and the value returned.
\<close>

definition avahi_string_list_serialize :: "string_list \<Rightarrow> nat option \<Rightarrow> byte list \<times> nat" where
  "avahi_string_list_serialize l data =
     (case data of
        Some sz \<Rightarrow>
          (let out = serialize_loop (avahi_string_list_reverse l) sz in
           if out = [] \<and> sz > 0 then ([0], 1) else (out, length out))
      | None \<Rightarrow>
          (let used = serialized_size_loop l in ([], if used = 0 then 1 else used)))"

subsection \<open>Key and value pairs\<close>

abbreviation (input) equal_sign :: byte where "equal_sign \<equiv> 61"

text \<open>Does an entry hold the key, alone or in front of an equal sign?\<close>

definition key_matches :: "cstr \<Rightarrow> byte list \<Rightarrow> bool" where
  "key_matches key text \<longleftrightarrow>
     strcaseeq (c_string text) key \<or>
     strcaseeq (take (length key) (c_string text)) key \<and>
       first_byte (drop (length key) (c_string text)) = equal_sign"

fun avahi_string_list_find :: "string_list \<Rightarrow> cstr \<Rightarrow> string_list option" where
  "avahi_string_list_find [] key = None"
| "avahi_string_list_find (t # l) key =
     (if key_matches key t then Some (t # l) else avahi_string_list_find l key)"

definition avahi_string_list_add_pair :: "string_list \<Rightarrow> cstr \<Rightarrow> cstr option \<Rightarrow> string_list" where
  "avahi_string_list_add_pair l key value =
     (case value of
        Some v \<Rightarrow> avahi_string_list_add_vprintf l (key @ equal_sign # v)
      | None \<Rightarrow> avahi_string_list_add l key)"

definition avahi_string_list_add_pair_arbitrary ::
  "string_list \<Rightarrow> cstr \<Rightarrow> byte list option \<Rightarrow> string_list" where
  "avahi_string_list_add_pair_arbitrary l key value =
     (case value of
        None \<Rightarrow> avahi_string_list_add l key
      | Some v \<Rightarrow> (key @ equal_sign # v) # l)"

text \<open>
  \<open>avahi_string_list_get_pair\<close>: the key, and the value (\<open>None\<close> for NULL) with its size. The copy
  of the value is one byte longer and ends with NUL.
\<close>

definition avahi_string_list_get_pair :: "byte list \<Rightarrow> cstr \<times> byte list option \<times> nat" where
  "avahi_string_list_get_pair text =
     (case memchr text equal_sign of
        None \<Rightarrow> (c_string text, None, 0)
      | Some e \<Rightarrow> (strndup text e, Some (drop (e + 1) text), length text - (e + 1)))"

definition AVAHI_SERVICE_COOKIE :: cstr where
  "AVAHI_SERVICE_COOKIE = str ''org.freedesktop.Avahi.cookie''"

definition AVAHI_SERVICE_COOKIE_INVALID :: u32 where
  "AVAHI_SERVICE_COOKIE_INVALID = 0"

definition avahi_string_list_get_service_cookie :: "string_list \<Rightarrow> u32" where
  "avahi_string_list_get_service_cookie l =
     (case avahi_string_list_find l AVAHI_SERVICE_COOKIE of
        None \<Rightarrow> AVAHI_SERVICE_COOKIE_INVALID
      | Some f \<Rightarrow>
          (case avahi_string_list_get_pair (hd f) of
             (_, None, _) \<Rightarrow> AVAHI_SERVICE_COOKIE_INVALID
           | (_, Some value, _) \<Rightarrow>
               (let (v, rest) = strtoll (c_string value) in
                if c_string value \<noteq> [] \<and> rest \<noteq> [] then AVAHI_SERVICE_COOKIE_INVALID
                else word_of_int v)))"

subsection \<open>What the loops compute\<close>

lemma reverse_eq [simp]: "avahi_string_list_reverse l = rev l"
proof -
  have "reverse_loop l r = rev l @ r" for r by (induction l arbitrary: r) simp_all
  then show ?thesis by (simp add: avahi_string_list_reverse_def)
qed

lemma copy_eq: "avahi_string_list_copy l = l"
proof -
  have "copy_loop l r = rev l @ r" for r
    by (induction l arbitrary: r) (simp_all add: avahi_string_list_add_arbitrary_def)
  then show ?thesis by (simp add: avahi_string_list_copy_def)
qed

lemma equal_iff: "avahi_string_list_equal a b \<longleftrightarrow> a = b"
  by (induction a b rule: avahi_string_list_equal.induct) auto

lemma length_eq: "avahi_string_list_length l = length l"
proof -
  have "foldl (\<lambda>n _. n + 1) m l = m + length l" for m :: nat by (induction l arbitrary: m) simp_all
  then show ?thesis by (simp add: avahi_string_list_length_def)
qed

lemma add_many_va_eq: "avahi_string_list_add_many_va r va = rev va @ r"
  by (induction r va rule: avahi_string_list_add_many_va.induct)
    (simp_all add: avahi_string_list_add_def avahi_string_list_add_arbitrary_def)

lemma new_eq: "avahi_string_list_new (Some t) va = rev (t # va)"
  by (simp add: avahi_string_list_new_def add_many_va_eq avahi_string_list_add_def avahi_string_list_add_arbitrary_def)

lemma new_from_array_loop_eq:
  "new_from_array_loop r (map Some ts @ rest) (int (length ts)) = Some (rev ts @ r)"
  "new_from_array_loop r (map Some ts @ None # rest) (- 1) = Some (rev ts @ r)"
  by (induction ts arbitrary: r)
    (subst new_from_array_loop.simps, simp add: avahi_string_list_add_def avahi_string_list_add_arbitrary_def)+

lemma new_from_array_eq:
  "avahi_string_list_new_from_array (map Some ts) (int (length ts)) = Some (avahi_string_list_new_va ts)"
  "avahi_string_list_new_from_array (map Some ts @ [None]) (- 1) = Some (avahi_string_list_new_va ts)"
  using new_from_array_loop_eq(1) [of "[]" ts "[]"] new_from_array_loop_eq(2) [of "[]" ts "[]"]
  by (simp_all add: avahi_string_list_new_from_array_def avahi_string_list_new_va_def add_many_va_eq)

lemma vprintf_loop_eq: "0 < len \<Longrightarrow> vprintf_loop len out = out"
  by (cases "length out < len")
    (simp_all add: vprintf_loop.simps [of len out] vprintf_loop.simps [of "Suc (length out)" out] vsnprintf_def)

lemma add_vprintf_eq [simp]: "avahi_string_list_add_vprintf l out = out # l"
  by (simp add: avahi_string_list_add_vprintf_def vprintf_loop_eq)

subsection \<open>The wire format\<close>

definition entry :: "byte list \<Rightarrow> byte list" where
  "entry t = byte_of (length t) # t"

lemma entry_not_Nil [simp]: "entry t \<noteq> []"
  by (simp add: entry_def)

lemma parse_loop_entry:
  "length t < 256 \<Longrightarrow> parse_loop (entry t @ data) r = parse_loop data (if t = [] then r else t # r)"
  by (simp add: entry_def avahi_string_list_add_arbitrary_def)

lemma parse_loop_concat:
  "list_all (\<lambda>t. length t < 256) ts \<Longrightarrow>
   parse_loop (concat (map entry ts)) r = Some (rev (filter (\<lambda>t. t \<noteq> []) ts) @ r)"
  by (induction ts arbitrary: r) (simp_all add: parse_loop_entry del: parse_loop.simps(2))

lemma parse_loop_Some:
  "parse_loop data r = Some l \<Longrightarrow>
   \<exists>ts. list_all (\<lambda>t. length t < 256) ts \<and> data = concat (map entry ts) \<and>
     l = rev (filter (\<lambda>t. t \<noteq> []) ts) @ r"
proof (induction data r rule: parse_loop.induct)
  case (1 r)
  then show ?case by (intro exI [of _ "[]"]) simp
next
  case (2 c data r)
  then have k: "unat c \<le> length data" by (auto simp: Let_def split: if_splits)
  let ?t = "take (unat c) data"
  from 2(2) k have "parse_loop (drop (unat c) data) (if ?t = [] then r else ?t # r) = Some l"
    by (auto simp: Let_def avahi_string_list_add_arbitrary_def split: if_splits)
  with 2(1) [OF refl _ refl] k obtain ts where ts: "list_all (\<lambda>t. length t < 256) ts"
    "drop (unat c) data = concat (map entry ts)"
    "l = rev (filter (\<lambda>t. t \<noteq> []) ts) @ (if ?t = [] then r else ?t # r)"
    by (fastforce simp: avahi_string_list_add_arbitrary_def split: if_splits)
  have "c # data = entry ?t @ concat (map entry ts)"
    using k by (simp add: entry_def min_absorb2 flip: ts(2))
  with ts(1,3) k show ?case
    by (intro exI [of _ "?t # ts"]) (simp add: min_absorb2)
qed

lemma parse_iff:
  "avahi_string_list_parse data = Some l \<longleftrightarrow>
   (\<exists>ts. list_all (\<lambda>t. length t < 256) ts \<and> data = concat (map entry ts) \<and> l = rev (filter (\<lambda>t. t \<noteq> []) ts))"
  unfolding avahi_string_list_parse_def
  by (auto dest: parse_loop_Some simp: parse_loop_concat)

lemma serialized_size_append:
  "serialized_size_loop (k @ l) = serialized_size_loop k + serialized_size_loop l"
  by (induction k) (simp_all add: Let_def)

lemma serialized_size_rev: "serialized_size_loop (rev l) = serialized_size_loop l"
  by (induction l) (simp_all add: serialized_size_append Let_def)

text \<open>What is written is a sequence of entries, no longer than the buffer or the computed size.\<close>

lemma serialize_loop_entries:
  "\<exists>ts. serialize_loop l sz = concat (map entry ts) \<and> list_all (\<lambda>t. t \<noteq> [] \<and> length t < 256) ts"
proof (induction l sz rule: serialize_loop.induct)
  case (1 sz)
  then show ?case by (intro exI [of _ "[]"]) simp
next
  case (2 t l sz)
  consider "sz \<le> 1" | "1 < sz" "t = []" | "1 < sz" "t \<noteq> []" by linarith
  then show ?case
  proof cases
    case 1
    then show ?thesis by (intro exI [of _ "[]"]) simp
  next
    case 2
    with "2.IH"(1) show ?thesis by simp
  next
    case 3
    define k where "k = (let k = (if length t > 255 then 255 else length t) in if k > sz - 1 then sz - 1 else k)"
    have k: "0 < k" "k \<le> length t" "k < 256" using 3 by (auto simp: k_def Let_def)
    have "serialize_loop (t # l) sz = byte_of k # take k t @ serialize_loop l (sz - (1 + k))"
      using 3 by (simp add: k_def Let_def)
    then have e: "serialize_loop (t # l) sz = entry (take k t) @ serialize_loop l (sz - (1 + k))"
      using k by (simp add: entry_def min_absorb2)
    from "2.IH"(2) [of "length t" "if length t > 255 then 255 else length t" k] 3
    obtain ts where "serialize_loop l (sz - (1 + k)) = concat (map entry ts)"
      "list_all (\<lambda>t. t \<noteq> [] \<and> length t < 256) ts"
      by (auto simp: k_def Let_def)
    with e k 3 show ?thesis by (intro exI [of _ "take k t # ts"]) (simp add: min_absorb2)
  qed
qed

lemma serialize_loop_length:
  "length (serialize_loop l sz) \<le> sz \<and> length (serialize_loop l sz) \<le> serialized_size_loop l"
proof (induction l arbitrary: sz)
  case (Cons t l)
  define k where "k = (let k = (if length t > 255 then 255 else length t) in if k > sz - 1 then sz - 1 else k)"
  have "serialize_loop (t # l) sz =
      (if sz \<le> 1 then [] else if t = [] then serialize_loop l sz
       else byte_of k # take k t @ serialize_loop l (sz - (1 + k)))"
    by (simp add: k_def Let_def)
  moreover have "k \<le> sz - 1" "k \<le> (if length t > 255 then 255 else length t)"
    by (auto simp: k_def Let_def)
  ultimately show ?case using Cons.IH [of sz] Cons.IH [of "sz - (1 + k)"]
    by (auto simp: Let_def split: if_splits)
qed simp

lemma serialize_loop_fits:
  "list_all (\<lambda>t. t \<noteq> [] \<and> length t < 256) l \<Longrightarrow> serialized_size_loop l \<le> sz \<Longrightarrow>
   serialize_loop l sz = concat (map entry l) \<and> length (concat (map entry l)) = serialized_size_loop l"
  by (induction l arbitrary: sz) (auto simp: Let_def entry_def)

lemma serialize_loop_empty: "1 < sz \<Longrightarrow> serialize_loop l sz = [] \<longleftrightarrow> serialized_size_loop l = 0"
  by (induction l arbitrary: sz) (auto simp: Let_def)

lemma serialize_parse:
  assumes "list_all (\<lambda>t. t \<noteq> [] \<and> length t < 256) l" "snd (avahi_string_list_serialize l None) \<le> sz"
  shows "\<exists>out. avahi_string_list_serialize l (Some sz) = (out, snd (avahi_string_list_serialize l None)) \<and>
    avahi_string_list_parse out = Some l"
proof (cases "l = []")
  case True
  then show ?thesis using assms(2)
    by (simp add: avahi_string_list_serialize_def avahi_string_list_parse_def)
next
  case False
  with assms(1) have n: "serialized_size_loop l \<noteq> 0" by (cases l) (auto simp: Let_def)
  with assms(2) have s: "serialized_size_loop (rev l) \<le> sz"
    by (simp add: avahi_string_list_serialize_def serialized_size_rev)
  have a: "list_all (\<lambda>t. t \<noteq> [] \<and> length t < 256) (rev l)" using assms(1) by simp
  note f = serialize_loop_fits [OF a s]
  have "list_all (\<lambda>t. length t < 256) (rev l)" "filter (\<lambda>t. t \<noteq> []) (rev l) = rev l"
    using a by (auto simp: list_all_iff)
  then have "avahi_string_list_parse (concat (map entry (rev l))) = Some l"
    by (simp add: avahi_string_list_parse_def parse_loop_concat)
  moreover have "concat (map entry (rev l)) \<noteq> []" using False by (cases "rev l") (auto simp: entry_def)
  ultimately show ?thesis using f n
    by (simp add: avahi_string_list_serialize_def Let_def serialized_size_rev)
qed

lemma serialize_readable:
  "let (out, used) = avahi_string_list_serialize l (Some sz) in
     used = length out \<and> used \<le> sz \<and> used \<le> snd (avahi_string_list_serialize l None) \<and>
     (\<exists>l'. avahi_string_list_parse out = Some l' \<and> list_all (\<lambda>t. t \<noteq> [] \<and> length t < 256) l')"
proof -
  obtain ts where ts: "serialize_loop (rev l) sz = concat (map entry ts)"
    "list_all (\<lambda>t. t \<noteq> [] \<and> length t < 256) ts" using serialize_loop_entries by blast
  then have "list_all (\<lambda>t. length t < 256) ts" "filter (\<lambda>t. t \<noteq> []) ts = ts"
    by (auto simp: list_all_iff)
  then have p: "avahi_string_list_parse (serialize_loop (rev l) sz) = Some (rev ts)"
    by (simp add: avahi_string_list_parse_def ts(1) parse_loop_concat)
  have "avahi_string_list_parse [0] = Some []" by (simp add: avahi_string_list_parse_def)
  with p ts(2) serialize_loop_length [of "rev l" sz] show ?thesis
    by (auto simp: avahi_string_list_serialize_def Let_def serialized_size_rev)
qed

subsection \<open>Pairs\<close>

lemma key_matches_pair:
  assumes "no_nul key"
  shows "key_matches key (key @ equal_sign # v)" "key_matches key key"
proof -
  have "c_string (key @ equal_sign # v) = key @ equal_sign # c_string v"
    using assms unfolding c_string_def no_nul_def by (subst takeWhile_append2) auto
  then show "key_matches key (key @ equal_sign # v)" by (simp add: key_matches_def strcaseeq_def)
  show "key_matches key key" using assms by (simp add: key_matches_def strcaseeq_def)
qed

lemma get_pair_pair:
  assumes "no_nul key" "equal_sign \<notin> set key"
  shows "avahi_string_list_get_pair (key @ equal_sign # v) = (key, Some v, length v)"
    "avahi_string_list_get_pair key = (key, None, 0)"
  using assms memchr_None [of key equal_sign]
  by (simp_all add: avahi_string_list_get_pair_def memchr_append strndup_def)

lemma cookie_no_nul: "no_nul AVAHI_SERVICE_COOKIE \<and> equal_sign \<notin> set AVAHI_SERVICE_COOKIE"
  by (simp add: AVAHI_SERVICE_COOKIE_def)

lemma get_service_cookie_pair:
  assumes "0 < n" "n < 4294967296"
  shows "avahi_string_list_get_service_cookie (avahi_string_list_add_pair l AVAHI_SERVICE_COOKIE (Some (decimal n))) = u32_of n"
  using assms cookie_no_nul
  by (simp add: avahi_string_list_get_service_cookie_def avahi_string_list_add_pair_def
      key_matches_pair get_pair_pair strtoll_decimal u32_of_def)

subsection \<open>Properties\<close>

text \<open>
  C25: a list of entries of 1 to 255 bytes survives \<open>avahi_string_list_serialize\<close> and
  \<open>avahi_string_list_parse\<close>, in order, in every buffer at least as large as the size that
  \<open>avahi_string_list_serialize\<close> announces for a NULL buffer; that size is then used exactly.
\<close>

theorem serialize_parse_roundtrip:
  assumes "list_all (\<lambda>t. t \<noteq> [] \<and> length t < 256) l" "snd (avahi_string_list_serialize l None) \<le> sz"
  shows "\<exists>out. avahi_string_list_serialize l (Some sz) = (out, snd (avahi_string_list_serialize l None)) \<and>
    avahi_string_list_parse out = Some l"
  using assms by (rule serialize_parse)

theorem serialize_parse_roundtrip_witness:
  "\<exists>out. avahi_string_list_serialize [str ''b=2'', [0, 255], str ''a''] (Some 9) =
      (out, snd (avahi_string_list_serialize [str ''b=2'', [0, 255], str ''a''] None)) \<and>
    avahi_string_list_parse out = Some [str ''b=2'', [0, 255], str ''a'']"
  by (rule serialize_parse_roundtrip) (simp_all add: avahi_string_list_serialize_def)

text \<open>
  Whatever the entries and the buffer size, \<open>avahi_string_list_serialize\<close> stays within the buffer
  and within the announced size, and what it writes is readable: truncation never leaves a length
  byte without its bytes.
\<close>

theorem serialize_always_readable:
  "let (out, used) = avahi_string_list_serialize l (Some sz) in
     used = length out \<and> used \<le> sz \<and> used \<le> snd (avahi_string_list_serialize l None) \<and>
     (\<exists>l'. avahi_string_list_parse out = Some l' \<and> list_all (\<lambda>t. t \<noteq> [] \<and> length t < 256) l')"
  by (rule serialize_readable)

text \<open>
  \<open>avahi_string_list_parse\<close> accepts exactly the concatenations of length-prefixed entries, drops
  the empty ones and returns the others, the last one first.
\<close>

theorem string_list_parse_exact:
  "avahi_string_list_parse data = Some l \<longleftrightarrow>
   (\<exists>ts. list_all (\<lambda>t. length t < 256) ts \<and> data = concat (map (\<lambda>t. byte_of (length t) # t) ts) \<and>
      l = rev (filter (\<lambda>t. t \<noteq> []) ts))"
  using parse_iff [unfolded entry_def] .

text \<open>
  A pair that was added is found again: \<open>avahi_string_list_find\<close> returns its entry and
  \<open>avahi_string_list_get_pair\<close> the key and the value, of any length, and the cookie that was
  added as a decimal number is the service cookie of the list.
\<close>

theorem string_list_pair_lookup:
  assumes "no_nul key" "equal_sign \<notin> set key" "0 < n" "n < 4294967296"
  shows "avahi_string_list_find (avahi_string_list_add_pair l key (Some v)) key =
      Some (avahi_string_list_add_pair l key (Some v)) \<and>
    avahi_string_list_get_pair (hd (avahi_string_list_add_pair l key (Some v))) = (key, Some v, length v) \<and>
    avahi_string_list_add_pair_arbitrary l key (Some v) = avahi_string_list_add_pair l key (Some v) \<and>
    avahi_string_list_get_service_cookie (avahi_string_list_add_pair l AVAHI_SERVICE_COOKIE (Some (decimal n))) = u32_of n"
  using assms
  by (simp only: get_service_cookie_pair)
    (simp add: avahi_string_list_add_pair_def avahi_string_list_add_pair_arbitrary_def key_matches_pair get_pair_pair)

theorem string_list_pair_lookup_witness:
  "avahi_string_list_find (avahi_string_list_add_pair [str ''x''] (str ''path'') (Some (str ''/=a''))) (str ''path'') =
      Some (avahi_string_list_add_pair [str ''x''] (str ''path'') (Some (str ''/=a''))) \<and>
    avahi_string_list_get_pair (hd (avahi_string_list_add_pair [str ''x''] (str ''path'') (Some (str ''/=a'')))) =
      (str ''path'', Some (str ''/=a''), 3)"
  using string_list_pair_lookup [of "str ''path''" 1 "[str ''x'']" "str ''/=a''"] by simp

end
