(* ===== verification/Alternative.thy ===== *)
theory Alternative
  imports Domain Cstring
begin

text \<open>
  New names after a conflict (avahi-common/alternative.c): a host name gets or counts up a suffix
  \<open>-2\<close>, a service name a suffix \<open> #2\<close>, and is shortened so that it stays a label. Positions in the
  name stand for the pointers into it.
\<close>

subsection \<open>Dropping a cut character\<close>

function drop_incomplete_utf8 :: "cstr \<Rightarrow> cstr outcome" where
  "drop_incomplete_utf8 c =
     (if c = [] then Some []
      else if avahi_utf8_valid c then Some c
      else do {
        assert_that (last c AND 128 \<noteq> 0);
        drop_incomplete_utf8 (butlast c)
      })"
  by pat_completeness auto
termination
  by (relation "measure length") (auto simp: assert_that_def split: if_splits)

declare drop_incomplete_utf8.simps [simp del]

subsection \<open>Host names\<close>

text \<open>The text \<open>e\<close> behind the separator, unless it is no number or starts with a zero.\<close>

definition number_suffix :: "cstr \<Rightarrow> cstr option" where
  "number_suffix e =
     (if \<not> list_all isdigit_c e then None
      else if first_byte e = 48 \<or> e = [] then None
      else Some e)"

definition host_suffix :: "cstr \<Rightarrow> cstr option" where
  "host_suffix s =
     (case strrchr s 45 of None \<Rightarrow> None | Some n \<Rightarrow> number_suffix (drop (n + 1) s))"

text \<open>\<open>n = atoi (e) + 1\<close>, undefined when an \<open>int\<close> overflows, and its decimal spelling.\<close>

definition next_number :: "cstr \<Rightarrow> cstr outcome" where
  "next_number e = do { n \<leftarrow> atoi_digits e; assert_that (n < INT_MAX); Some (decimal (n + 1)) }"

definition avahi_alternative_host_name :: "cstr \<Rightarrow> cstr option outcome" where
  "avahi_alternative_host_name s =
     (if \<not> avahi_is_valid_host_name s then Some None
      else do {
        r \<leftarrow> (case host_suffix s of
            Some e \<Rightarrow> do {
              m \<leftarrow> next_number e;
              let l = length s - length e - 1;
              let l = (if l \<ge> AVAHI_LABEL_MAX - 1 - length m - 1 then AVAHI_LABEL_MAX - 1 - length m - 1 else l);
              c \<leftarrow> drop_incomplete_utf8 (strndup s l);
              Some (c @ str ''-'' @ m)
            }
          | None \<Rightarrow> do {
              c \<leftarrow> drop_incomplete_utf8 (strndup s (AVAHI_LABEL_MAX - 1 - 2));
              Some (c @ str ''-2'')
            });
        assert_that (avahi_is_valid_host_name r);
        Some (Some r)
      })"

subsection \<open>Service names\<close>

text \<open>The search for the last \<open> #\<close>: what stands behind it.\<close>

function last_hash :: "cstr \<Rightarrow> cstr" where
  "last_hash e = (case strstr e (str '' #'') of None \<Rightarrow> e | Some n \<Rightarrow> last_hash (drop (n + 2) e))"
  by pat_completeness auto
termination
proof (relation "measure length")
  fix e n
  assume "strstr e (str '' #'') = Some n"
  with strstr_Some [of e "str '' #''" n] have "drop n e \<noteq> []" by auto
  then show "(drop (n + 2) e, e) \<in> measure length" by simp
qed simp

declare last_hash.simps [simp del]

definition service_suffix :: "cstr \<Rightarrow> cstr option" where
  "service_suffix s =
     (case strstr s (str '' #'') of
        None \<Rightarrow> None
      | Some n \<Rightarrow> number_suffix (last_hash (drop (n + 2) s)))"

definition avahi_alternative_service_name :: "cstr \<Rightarrow> cstr option outcome" where
  "avahi_alternative_service_name s =
     (if \<not> avahi_is_valid_service_name s then Some None
      else do {
        r \<leftarrow> (case service_suffix s of
            Some e \<Rightarrow> do {
              m \<leftarrow> next_number e;
              let l = length s - length e - 2;
              let l = (if l \<ge> AVAHI_LABEL_MAX - 1 - length m - 2 then AVAHI_LABEL_MAX - 1 - length m - 2 else l);
              c \<leftarrow> drop_incomplete_utf8 (strndup s l);
              Some (c @ str '' #'' @ m)
            }
          | None \<Rightarrow> do {
              c \<leftarrow> drop_incomplete_utf8 (strndup s (AVAHI_LABEL_MAX - 1 - 3));
              Some (c @ str '' #2'')
            });
        assert_that (avahi_is_valid_service_name r);
        Some (Some r)
      })"

subsection \<open>A prefix of valid UTF-8 loses at most its cut character\<close>

lemma byte_high: "128 \<le> (c :: byte) \<Longrightarrow> c AND 128 \<noteq> 0"
proof -
  assume c: "128 \<le> c"
  have "unat (c AND 128) = unat c div 128 mod 2 * 128"
    using nat_and_block [of "unat c" 7 1] by (simp add: unsigned_and_eq mask_eq_exp_minus_1)
  moreover have "unat c div 128 = 1"
    using c by (simp add: nat_div_eq_iff word_le_nat_alt)
  ultimately show "c AND 128 \<noteq> 0" by auto
qed

lemma utf8_encode_high:
  assumes "1 < length (utf8_encode n)" "c \<in> set (utf8_encode n)" "code_point_ok n"
  shows "c AND 128 \<noteq> 0"
proof (rule byte_high)
  have d: "n div 262144 < 16" "n < 0x10000 \<Longrightarrow> n div 4096 < 16" "n < 0x800 \<Longrightarrow> n div 64 < 32"
    using assms(3) by (simp_all add: code_point_ok_def div_less_iff_less_mult)
  have "128 = byte_of 128" by (simp add: byte_of_def)
  moreover have "byte_of 128 \<le> byte_of (128 + x mod 64)" for x by simp
  ultimately show "128 \<le> c"
    using assms(1,2) d by (auto simp: utf8_encode_def split: if_splits)
qed

lemma drop_incomplete_cut:
  assumes "avahi_utf8_valid v" "code_point_ok n" "k < length (utf8_encode n)"
  shows "\<exists>c t. drop_incomplete_utf8 (v @ take k (utf8_encode n)) = Some c \<and> avahi_utf8_valid c \<and>
    v @ take k (utf8_encode n) = c @ t"
  using assms(3)
proof (induction k)
  case 0
  with assms show ?case by (simp add: drop_incomplete_utf8.simps)
next
  case (Suc k)
  let ?c = "v @ take (Suc k) (utf8_encode n)"
  from Suc.prems have e: "take (Suc k) (utf8_encode n) = take k (utf8_encode n) @ [utf8_encode n ! k]"
    by (simp add: take_Suc_conv_app_nth)
  have h: "utf8_encode n ! k AND 128 \<noteq> 0"
    using Suc.prems assms(2) by (intro utf8_encode_high [of n]) auto
  from Suc.IH Suc.prems obtain c t where ih:
    "drop_incomplete_utf8 (v @ take k (utf8_encode n)) = Some c" "avahi_utf8_valid c"
    "v @ take k (utf8_encode n) = c @ t" by auto
  have s: "drop_incomplete_utf8 ?c =
      (if avahi_utf8_valid ?c then Some ?c else drop_incomplete_utf8 (v @ take k (utf8_encode n)))"
    using h by (subst drop_incomplete_utf8.simps) (auto simp: e butlast_append)
  show ?case
  proof (cases "avahi_utf8_valid ?c")
    case False
    then have "drop_incomplete_utf8 ?c = Some c" "?c = c @ t @ [utf8_encode n ! k]"
      using s ih(1,3) e by simp_all
    with ih(2) show ?thesis by blast
  qed (use s in simp)
qed

lemma valid_prefix:
  assumes "list_all code_point_ok ns"
  shows "\<exists>v n m. take k (concat (map utf8_encode ns)) = v @ take m (utf8_encode n) \<and>
    avahi_utf8_valid v \<and> code_point_ok n \<and> m < length (utf8_encode n)"
  using assms
proof (induction ns arbitrary: k)
  case Nil
  have "code_point_ok 65" "0 < length (utf8_encode 65)" by (simp_all add: code_point_ok_def utf8_encode_def)
  then show ?case by (intro exI [of _ "[]"] exI [of _ 65] exI [of _ 0]) simp
next
  case (Cons n ns)
  show ?case
  proof (cases "k < length (utf8_encode n)")
    case True
    with Cons.prems show ?thesis by (intro exI [of _ "[]"] exI [of _ n] exI [of _ k]) simp
  next
    case False
    from Cons obtain v n' m where
      "take (k - length (utf8_encode n)) (concat (map utf8_encode ns)) = v @ take m (utf8_encode n')"
      "avahi_utf8_valid v" "code_point_ok n'" "m < length (utf8_encode n')" by auto blast
    with False Cons.prems show ?thesis
      by (intro exI [of _ "utf8_encode n @ v"] exI [of _ n'] exI [of _ m]) (simp add: avahi_utf8_valid_encode)
  qed
qed

lemma drop_incomplete_prefix:
  assumes "avahi_utf8_valid s"
  obtains c t where "drop_incomplete_utf8 (take k s) = Some c" "avahi_utf8_valid c" "take k s = c @ t"
proof -
  from assms obtain ns where "list_all code_point_ok ns" "s = concat (map utf8_encode ns)"
    by (auto simp: avahi_utf8_valid_iff)
  with valid_prefix [of ns k] drop_incomplete_cut that show thesis by metis
qed

subsection \<open>The suffix counts up\<close>

lemma next_number_Some:
  "digits_value 10 e < INT_MAX \<Longrightarrow> next_number e = Some (decimal (digits_value 10 e + 1))"
  by (simp add: next_number_def atoi_digits_def)

lemma decimal_int_length: "n < INT_MAX \<Longrightarrow> length (decimal (n + 1)) \<le> 10"
  by (rule decimal_length) (simp_all add: INT_MAX_def)

lemma number_suffix_decimal: "0 < n \<Longrightarrow> number_suffix (decimal n) = Some (decimal n)"
  using decimal_first [of n] by (simp add: number_suffix_def decimal_digits)

lemma digit_not_sep: "list_all isdigit_c m \<Longrightarrow> 45 \<notin> set m \<and> 32 \<notin> set m \<and> dot \<notin> set m \<and> backslash \<notin> set m"
  by (auto simp: list_all_iff isdigit_c_def)

lemma strrchr_last: "x \<notin> set m \<Longrightarrow> strrchr (c @ x # m) x = Some (length c)"
proof -
  assume "x \<notin> set m"
  then have "takeWhile (\<lambda>y. y \<noteq> x) (rev m @ x # rev c) = rev m" by (subst takeWhile_append2) auto
  then show ?thesis by (simp add: strrchr_def)
qed

lemma host_suffix_append:
  assumes "0 < n" shows "host_suffix (c @ str ''-'' @ decimal n) = Some (decimal n)"
  using assms digit_not_sep [OF decimal_digits [of n]]
  by (simp add: host_suffix_def strrchr_last number_suffix_decimal)

lemma strstr_separator:
  assumes "32 \<notin> set m"
  shows "strstr m (str '' #'') = None"
    "\<exists>n. strstr (c @ str '' #'' @ m) (str '' #'') = Some n \<and> (n = length c \<or> n + 2 \<le> length c)"
proof -
  show "strstr m (str '' #'') = None"
    using assms by (induction m) (auto simp: strstr.simps [where pat = "[32, 35]"] strstr.simps [of "[]"] split: if_splits)
  show "\<exists>n. strstr (c @ str '' #'' @ m) (str '' #'') = Some n \<and> (n = length c \<or> n + 2 \<le> length c)"
  proof (induction c)
    case Nil
    then show ?case by (simp add: strstr.simps [where pat = "[32, 35]"])
  next
    case (Cons x c)
    then obtain n where n: "strstr (c @ [32, 35] @ m) [32, 35] = Some n" "n = length c \<or> n + 2 \<le> length c" by auto
    show ?case
    proof (cases "take 2 ((x # c) @ [32, 35] @ m) = [32, 35]")
      case True
      then have "c \<noteq> []" by (cases c) auto
      moreover have "strstr ((x # c) @ [32, 35] @ m) [32, 35] = Some 0"
        using True by (subst strstr.simps) (simp add: numeral_2_eq_2)
      ultimately show ?thesis by (cases c) auto
    next
      case False
      with n show ?thesis
        by (auto simp: strstr.simps [of "x # _" "[32, 35]"] numeral_2_eq_2)
    qed
  qed
qed

lemma last_hash_append:
  assumes "32 \<notin> set m"
  shows "last_hash (c @ str '' #'' @ m) = m"
proof (induction "length c" arbitrary: c rule: less_induct)
  case less
  from strstr_separator(2) [OF assms, of c]
  obtain n where n: "strstr (c @ str '' #'' @ m) (str '' #'') = Some n" "n = length c \<or> n + 2 \<le> length c" by auto
  have m: "last_hash m = m" using strstr_separator(1) [OF assms] by (simp add: last_hash.simps)
  have e: "last_hash (c @ str '' #'' @ m) = last_hash (drop (n + 2) (c @ str '' #'' @ m))"
    using n(1) by (simp add: last_hash.simps [of "c @ _"])
  show ?case
  proof (cases "n = length c")
    case True
    with e m show ?thesis by simp
  next
    case False
    with n(2) have "drop (n + 2) (c @ str '' #'' @ m) = drop (n + 2) c @ str '' #'' @ m" by simp
    with e less [of "drop (n + 2) c"] False n(2) show ?thesis by simp
  qed
qed

lemma service_suffix_append:
  assumes "0 < n"
  shows "service_suffix (c @ str '' #'' @ decimal n) = Some (decimal n)"
proof -
  have m: "32 \<notin> set (decimal n)" using digit_not_sep [OF decimal_digits [of n]] by simp
  from strstr_separator(2) [OF this, of c] obtain k where
    k: "strstr (c @ str '' #'' @ decimal n) (str '' #'') = Some k" by auto
  have "last_hash (c @ str '' #'' @ decimal n) = last_hash (drop (k + 2) (c @ str '' #'' @ decimal n))"
    using k by (simp add: last_hash.simps [of "c @ _"])
  with k last_hash_append [OF m, of c] show ?thesis
    by (simp add: service_suffix_def number_suffix_decimal [OF assms])
qed

subsection \<open>The new name is valid\<close>

text \<open>A host name without dots and backslashes is its own label.\<close>

lemma unescape_loop_plain:
  "dot \<notin> set s \<Longrightarrow> backslash \<notin> set s \<Longrightarrow>
   unescape_loop sz d s = (if length d + length s < sz then Some (d @ s, []) else None)"
  by (induction s arbitrary: d) auto

lemma host_name_plain:
  assumes "dot \<notin> set s" "backslash \<notin> set s"
  shows "avahi_is_valid_host_name s \<longleftrightarrow> s \<noteq> [] \<and> length s < 64 \<and> avahi_utf8_valid s"
  using assms
  by (auto simp: avahi_is_valid_host_name_def avahi_unescape_label_def unescape_loop_plain
      AVAHI_LABEL_MAX_def AVAHI_DOMAIN_NAME_MAX_def split: option.splits)

lemma utf8_valid_digits: "list_all isdigit_c m \<Longrightarrow> avahi_utf8_valid m"
  using isdigit_bounds by (intro avahi_utf8_valid_ascii) (auto simp: list_all_iff)

definition suffix_number :: "cstr option \<Rightarrow> nat" where
  "suffix_number e = (case e of None \<Rightarrow> 1 | Some e \<Rightarrow> digits_value 10 e)"

lemma alternative_host_name_result:
  assumes s: "avahi_is_valid_host_name s" "no_nul s" "dot \<notin> set s" "backslash \<notin> set s"
    and n: "suffix_number (host_suffix s) < INT_MAX"
  shows "\<exists>c t. avahi_alternative_host_name s = Some (Some (c @ str ''-'' @ decimal (suffix_number (host_suffix s) + 1))) \<and>
    s = c @ t \<and> avahi_is_valid_host_name (c @ str ''-'' @ decimal (suffix_number (host_suffix s) + 1))"
proof -
  let ?m = "decimal (suffix_number (host_suffix s) + 1)"
  have u: "avahi_utf8_valid s" using s host_name_plain by blast
  have m: "length ?m \<le> 10" using decimal_int_length [OF n] .
  define l where "l = (case host_suffix s of None \<Rightarrow> 61 | Some e \<Rightarrow>
    (if length s - length e - 1 \<ge> 63 - length ?m - 1 then 63 - length ?m - 1 else length s - length e - 1))"
  from drop_incomplete_prefix [OF u] obtain c t where c: "drop_incomplete_utf8 (take l s) = Some c"
    "avahi_utf8_valid c" "take l s = c @ t" by metis
  have two: "decimal (Suc (Suc 0)) = [50]" by (simp add: decimal.simps digit_byte_def byte_of_def)
  have "length c \<le> l" using c(3) by (metis length_append length_take le_add1 min.bounded_iff)
  moreover have "l \<le> 62 - length ?m"
    using m two by (auto simp: l_def suffix_number_def numeral_2_eq_2 split: option.split)
  ultimately have "length (c @ str ''-'' @ ?m) < 64" using m by simp
  moreover have "set c \<subseteq> set s" using c(3) by (metis le_sup_iff set_append set_take_subset)
  moreover have "avahi_utf8_valid (str ''-'' @ ?m)"
    by (intro avahi_utf8_valid_append avahi_utf8_valid_ascii utf8_valid_digits decimal_digits) auto
  ultimately have v: "avahi_is_valid_host_name (c @ str ''-'' @ ?m)"
    using s(3,4) c(2) digit_not_sep [OF decimal_digits [of "suffix_number (host_suffix s) + 1"]]
    by (subst host_name_plain) (auto intro: avahi_utf8_valid_append)
  have "avahi_alternative_host_name s = Some (Some (c @ str ''-'' @ ?m))"
  proof (cases "host_suffix s")
    case None
    with c(1) s v show ?thesis
      by (simp add: avahi_alternative_host_name_def l_def AVAHI_LABEL_MAX_def suffix_number_def two)
  next
    case (Some e)
    with c(1) s v n show ?thesis
      by (simp add: avahi_alternative_host_name_def l_def AVAHI_LABEL_MAX_def suffix_number_def next_number_Some Let_def cong: if_cong)
  qed
  moreover have "s = c @ t @ drop l s" using c(3) by (metis append.assoc append_take_drop_id)
  ultimately show ?thesis using v by blast
qed

lemma alternative_service_name_result:
  assumes s: "avahi_is_valid_service_name s" "no_nul s" "avahi_utf8_valid s"
    and n: "suffix_number (service_suffix s) < INT_MAX"
  shows "\<exists>c t. avahi_alternative_service_name s = Some (Some (c @ str '' #'' @ decimal (suffix_number (service_suffix s) + 1))) \<and>
    s = c @ t \<and> avahi_is_valid_service_name (c @ str '' #'' @ decimal (suffix_number (service_suffix s) + 1)) \<and>
    avahi_utf8_valid (c @ str '' #'' @ decimal (suffix_number (service_suffix s) + 1))"
proof -
  let ?m = "decimal (suffix_number (service_suffix s) + 1)"
  have m: "length ?m \<le> 10" using decimal_int_length [OF n] .
  define l where "l = (case service_suffix s of None \<Rightarrow> 60 | Some e \<Rightarrow>
    (if length s - length e - 2 \<ge> 63 - length ?m - 2 then 63 - length ?m - 2 else length s - length e - 2))"
  from drop_incomplete_prefix [OF s(3)] obtain c t where c: "drop_incomplete_utf8 (take l s) = Some c"
    "avahi_utf8_valid c" "take l s = c @ t" by metis
  have two: "decimal (Suc (Suc 0)) = [50]" by (simp add: decimal.simps digit_byte_def byte_of_def)
  have "length c \<le> l" using c(3) by (metis length_append length_take le_add1 min.bounded_iff)
  moreover have "l \<le> 61 - length ?m"
    using m two by (auto simp: l_def suffix_number_def numeral_2_eq_2 split: option.split)
  ultimately have v: "avahi_is_valid_service_name (c @ str '' #'' @ ?m)"
    using m by (simp add: avahi_is_valid_service_name_def AVAHI_LABEL_MAX_def)
  have u: "avahi_utf8_valid (c @ str '' #'' @ ?m)"
    by (intro avahi_utf8_valid_append c(2) avahi_utf8_valid_ascii [of "str '' #''"] utf8_valid_digits decimal_digits) auto
  have "avahi_alternative_service_name s = Some (Some (c @ str '' #'' @ ?m))"
  proof (cases "service_suffix s")
    case None
    with c(1) s v show ?thesis
      by (simp add: avahi_alternative_service_name_def l_def AVAHI_LABEL_MAX_def suffix_number_def two)
  next
    case (Some e)
    with c(1) s v n show ?thesis
      by (simp add: avahi_alternative_service_name_def l_def AVAHI_LABEL_MAX_def suffix_number_def next_number_Some Let_def cong: if_cong)
  qed
  moreover have "s = c @ t @ drop l s" using c(3) by (metis append.assoc append_take_drop_id)
  ultimately show ?thesis using v u by blast
qed

subsection \<open>Properties\<close>

text \<open>
  For a valid host name in plain spelling whose number is below the limit of \<open>int\<close>,
  \<open>avahi_alternative_host_name\<close> returns a valid host name: a prefix of the old one and the next
  number, so that the names of repeated conflicts all differ.
\<close>

theorem alternative_host_name_valid:
  assumes "avahi_is_valid_host_name s" "no_nul s" "dot \<notin> set s" "backslash \<notin> set s"
    and "suffix_number (host_suffix s) < INT_MAX"
  shows "\<exists>r c t. avahi_alternative_host_name s = Some (Some r) \<and> avahi_is_valid_host_name r \<and>
    s = c @ t \<and> r = c @ str ''-'' @ decimal (suffix_number (host_suffix s) + 1) \<and>
    suffix_number (host_suffix r) = suffix_number (host_suffix s) + 1"
proof -
  from alternative_host_name_result [OF assms] obtain c t where
    "avahi_alternative_host_name s = Some (Some (c @ str ''-'' @ decimal (suffix_number (host_suffix s) + 1)))"
    "s = c @ t" "avahi_is_valid_host_name (c @ str ''-'' @ decimal (suffix_number (host_suffix s) + 1))" by blast
  moreover have "suffix_number (host_suffix (c @ str ''-'' @ decimal (suffix_number (host_suffix s) + 1))) =
      suffix_number (host_suffix s) + 1"
    by (subst host_suffix_append) (simp_all add: suffix_number_def del: digits_value_simps)
  ultimately show ?thesis by blast
qed

theorem alternative_host_name_valid_witness:
  "\<exists>r c t. avahi_alternative_host_name (str ''printer-9'') = Some (Some r) \<and> avahi_is_valid_host_name r \<and>
    str ''printer-9'' = c @ t \<and> r = c @ str ''-'' @ decimal (suffix_number (host_suffix (str ''printer-9'')) + 1) \<and>
    suffix_number (host_suffix r) = suffix_number (host_suffix (str ''printer-9'')) + 1"
proof (rule alternative_host_name_valid)
  have "host_suffix (str ''printer-9'') = Some (str ''9'')" by code_simp
  then show "suffix_number (host_suffix (str ''printer-9'')) < INT_MAX"
    by (simp add: suffix_number_def digits_value_def digit_value_def INT_MAX_def)
  show "avahi_is_valid_host_name (str ''printer-9'')" by code_simp
qed simp_all

text \<open>
  For a service name of 1 to 63 bytes of valid UTF-8, \<open>avahi_alternative_service_name\<close> returns a
  name of the same kind: a prefix of the old one, cut between characters, and the next number.
\<close>

theorem alternative_service_name_valid:
  assumes "avahi_is_valid_service_name s" "no_nul s" "avahi_utf8_valid s"
    and "suffix_number (service_suffix s) < INT_MAX"
  shows "\<exists>r c t. avahi_alternative_service_name s = Some (Some r) \<and> avahi_is_valid_service_name r \<and>
    avahi_utf8_valid r \<and> s = c @ t \<and> r = c @ str '' #'' @ decimal (suffix_number (service_suffix s) + 1) \<and>
    suffix_number (service_suffix r) = suffix_number (service_suffix s) + 1"
proof -
  from alternative_service_name_result [OF assms] obtain c t where
    "avahi_alternative_service_name s = Some (Some (c @ str '' #'' @ decimal (suffix_number (service_suffix s) + 1)))"
    "s = c @ t" "avahi_is_valid_service_name (c @ str '' #'' @ decimal (suffix_number (service_suffix s) + 1))"
    "avahi_utf8_valid (c @ str '' #'' @ decimal (suffix_number (service_suffix s) + 1))" by blast
  moreover have "suffix_number (service_suffix (c @ str '' #'' @ decimal (suffix_number (service_suffix s) + 1))) =
      suffix_number (service_suffix s) + 1"
    by (subst service_suffix_append) (simp_all add: suffix_number_def del: digits_value_simps)
  ultimately show ?thesis by blast
qed

theorem alternative_service_name_valid_witness:
  "\<exists>r c t. avahi_alternative_service_name (str ''Scan #1 #12'') = Some (Some r) \<and> avahi_is_valid_service_name r \<and>
    avahi_utf8_valid r \<and> str ''Scan #1 #12'' = c @ t \<and>
    r = c @ str '' #'' @ decimal (suffix_number (service_suffix (str ''Scan #1 #12'')) + 1) \<and>
    suffix_number (service_suffix r) = suffix_number (service_suffix (str ''Scan #1 #12'')) + 1"
proof (rule alternative_service_name_valid)
  have "service_suffix (str ''Scan #1 #12'') = Some (str ''12'')" by code_simp
  then show "suffix_number (service_suffix (str ''Scan #1 #12'')) < INT_MAX"
    by (simp add: suffix_number_def digits_value_def digit_value_def INT_MAX_def)
  show "avahi_utf8_valid (str ''Scan #1 #12'')" by code_simp
qed (simp_all add: avahi_is_valid_service_name_def AVAHI_LABEL_MAX_def)

text \<open>
  Outside these conditions the functions stop the process on names that the validity checks
  accept. A host name with an escape is cut inside it, and the final assert fails; a service name
  that is not UTF-8 fails the assert on the bit 128; a number that is no \<open>int\<close> is undefined for
  \<open>atoi\<close>.
\<close>

theorem alternative_name_aborts:
  "avahi_is_valid_host_name (replicate 60 97 @ [backslash, dot]) \<and>
   avahi_alternative_host_name (replicate 60 97 @ [backslash, dot]) = crash \<and>
   avahi_is_valid_service_name [255, 97] \<and> avahi_alternative_service_name [255, 97] = crash \<and>
   avahi_is_valid_host_name (str ''a-2147483647'') \<and> avahi_alternative_host_name (str ''a-2147483647'') = crash"
proof -
  have v: "avahi_is_valid_host_name (str ''a-2147483647'')" by code_simp
  have "host_suffix (str ''a-2147483647'') = Some (str ''2147483647'')" by code_simp
  moreover have "next_number (str ''2147483647'') = crash"
    by (simp add: next_number_def atoi_digits_def digits_value_def digit_value_def INT_MAX_def)
  ultimately have o: "avahi_alternative_host_name (str ''a-2147483647'') = crash"
    using v by (simp add: avahi_alternative_host_name_def)
  have "avahi_is_valid_host_name (replicate 60 97 @ [backslash, dot])" by code_simp
  moreover have "avahi_alternative_host_name (replicate 60 97 @ [backslash, dot]) = crash" by code_simp
  moreover have "avahi_is_valid_service_name [255, 97]" by code_simp
  moreover have "avahi_alternative_service_name [255, 97] = crash" by code_simp
  ultimately show ?thesis using v o by blast
qed

end
