(* ===== verification/Address.thy ===== *)
theory Address
  imports Domain Cstring
begin

text \<open>
  Addresses (avahi-common/address.c, avahi-core/addr-util.c) and the formatting helpers of
  avahi-core/util.c. The union in \<open>AvahiAddress\<close> is its 16 bytes; an IPv4 address is the first four,
  in network order. \<open>inet_pton\<close> and \<open>inet_ntop\<close> of the system are arguments.
\<close>

subsection \<open>Protocols\<close>

type_synonym protocol = int

definition AVAHI_PROTO_INET :: protocol where "AVAHI_PROTO_INET = 0"
definition AVAHI_PROTO_INET6 :: protocol where "AVAHI_PROTO_INET6 = 1"
definition AVAHI_PROTO_UNSPEC :: protocol where "AVAHI_PROTO_UNSPEC = - 1"

definition AF_UNSPEC :: int where "AF_UNSPEC = 0"
definition AF_INET :: int where "AF_INET = 2"
definition AF_INET6 :: int where "AF_INET6 = 10"

lemmas proto_defs = AVAHI_PROTO_INET_def AVAHI_PROTO_INET6_def AVAHI_PROTO_UNSPEC_def
  AF_UNSPEC_def AF_INET_def AF_INET6_def

definition avahi_proto_to_af :: "protocol \<Rightarrow> int outcome" where
  "avahi_proto_to_af proto =
     (if proto = AVAHI_PROTO_INET then Some AF_INET
      else if proto = AVAHI_PROTO_INET6 then Some AF_INET6
      else do { assert_that (proto = AVAHI_PROTO_UNSPEC); Some AF_UNSPEC })"

definition avahi_af_to_proto :: "int \<Rightarrow> protocol outcome" where
  "avahi_af_to_proto af =
     (if af = AF_INET then Some AVAHI_PROTO_INET
      else if af = AF_INET6 then Some AVAHI_PROTO_INET6
      else do { assert_that (af = AF_UNSPEC); Some AVAHI_PROTO_UNSPEC })"

definition avahi_proto_to_string :: "protocol \<Rightarrow> cstr outcome" where
  "avahi_proto_to_string proto =
     (if proto = AVAHI_PROTO_INET then Some (str ''IPv4'')
      else if proto = AVAHI_PROTO_INET6 then Some (str ''IPv6'')
      else do { assert_that (proto = AVAHI_PROTO_UNSPEC); Some (str ''UNSPEC'') })"

subsection \<open>Addresses\<close>

record address =
  proto :: protocol
  addr_bytes :: "byte list"

definition address_ok :: "address \<Rightarrow> bool" where
  "address_ok a \<longleftrightarrow> length (addr_bytes a) = 16"

definition address_get_size :: "address \<Rightarrow> nat" where
  "address_get_size a =
     (if proto a = AVAHI_PROTO_INET then 4 else if proto a = AVAHI_PROTO_INET6 then 16 else 0)"

definition avahi_address_cmp :: "address \<Rightarrow> address \<Rightarrow> int" where
  "avahi_address_cmp a b =
     (if proto a \<noteq> proto b then - 1
      else memcmp (take (address_get_size a) (addr_bytes a)) (take (address_get_size a) (addr_bytes b)))"

definition avahi_address_snprint ::
  "(int \<Rightarrow> byte list \<Rightarrow> nat \<Rightarrow> cstr option) \<Rightarrow> nat \<Rightarrow> address \<Rightarrow> cstr option outcome" where
  "avahi_address_snprint inet_ntop len a = do {
     assert_that (len \<noteq> 0);
     af \<leftarrow> avahi_proto_to_af (proto a);
     Some (inet_ntop af (addr_bytes a) len)
   }"

text \<open>
  \<open>inet_pton\<close> gives the bytes it stores, or \<open>None\<close> when it returns zero or less. Bytes behind them
  keep their value.
\<close>

definition avahi_address_parse ::
  "(int \<Rightarrow> cstr \<Rightarrow> byte list option) \<Rightarrow> cstr \<Rightarrow> protocol \<Rightarrow> address \<Rightarrow> address option outcome" where
  "avahi_address_parse inet_pton s pr ret =
     (let store = (\<lambda>b p. ret\<lparr>addr_bytes := b @ drop (length b) (addr_bytes ret), proto := p\<rparr>) in
      if pr = AVAHI_PROTO_UNSPEC then
        (case inet_pton AF_INET s of
           None \<Rightarrow>
             (case inet_pton AF_INET6 s of
                None \<Rightarrow> Some None
              | Some b \<Rightarrow> Some (Some (store b AVAHI_PROTO_INET6)))
         | Some b \<Rightarrow> Some (Some (store b AVAHI_PROTO_INET)))
      else do {
        af \<leftarrow> avahi_proto_to_af pr;
        (case inet_pton af s of
           None \<Rightarrow> Some None
         | Some b \<Rightarrow> Some (Some (store b pr)))
      })"

text \<open>The octets of an IPv4 address, \<open>ntohl\<close> of its four bytes, and a hexadecimal digit.\<close>

definition ntohl :: "byte list \<Rightarrow> u32" where
  "ntohl b = u32_of (foldl (\<lambda>n c. n * 256 + unat c) 0 (take 4 b))"

definition hex_digit :: "nat \<Rightarrow> byte" where
  "hex_digit d = (if d < 10 then byte_of (48 + d) else byte_of (87 + d))"

definition nibbles_reversed :: "byte list \<Rightarrow> cstr" where
  "nibbles_reversed bs =
     concat (map (\<lambda>c. [hex_digit (unat (c AND 0xF)), dot, hex_digit (unat (drop_bit 4 c)), dot]) (rev bs))"

text \<open>\<open>snprintf\<close> stores what fits, and a NUL.\<close>

definition avahi_reverse_lookup_name :: "address \<Rightarrow> nat \<Rightarrow> cstr outcome" where
  "avahi_reverse_lookup_name a len = do {
     assert_that (len > 0);
     if proto a = AVAHI_PROTO_INET then
       (let n = ntohl (addr_bytes a) in
        Some (take (len - 1)
          (decimal (unat (n AND 0xFF)) @ dot # decimal (unat (drop_bit 8 n AND 0xFF)) @ dot #
           decimal (unat (drop_bit 16 n AND 0xFF)) @ dot # decimal (unat (drop_bit 24 n)) @
           str ''.in-addr.arpa'')))
     else do {
       assert_that (proto a = AVAHI_PROTO_INET6);
       Some (take (len - 1) (nibbles_reversed (take 16 (addr_bytes a)) @ str ''ip6.arpa''))
     }
   }"

subsection \<open>addr-util.c\<close>

record sockaddr =
  sa_family :: int
  sa_port :: "byte \<times> byte"
  sa_addr :: "byte list"

definition avahi_address_from_sockaddr :: "sockaddr \<Rightarrow> address \<Rightarrow> address outcome" where
  "avahi_address_from_sockaddr sa ret = do {
     assert_that (sa_family sa = AF_INET \<or> sa_family sa = AF_INET6);
     p \<leftarrow> avahi_af_to_proto (sa_family sa);
     let n = (if sa_family sa = AF_INET then 4 else 16);
     Some (ret\<lparr>proto := p, addr_bytes := take n (sa_addr sa) @ drop n (addr_bytes ret)\<rparr>)
   }"

definition avahi_port_from_sockaddr :: "sockaddr \<Rightarrow> u16 outcome" where
  "avahi_port_from_sockaddr sa = do {
     assert_that (sa_family sa = AF_INET \<or> sa_family sa = AF_INET6);
     Some (u16_of (unat (fst (sa_port sa)) * 256 + unat (snd (sa_port sa))))
   }"

definition avahi_address_is_ipv4_in_ipv6 :: "address \<Rightarrow> bool" where
  "avahi_address_is_ipv4_in_ipv6 a =
     (if proto a \<noteq> AVAHI_PROTO_INET6 then False
      else take 12 (addr_bytes a) = [0, 0, 0, 0, 0, 0, 0, 0, 0xFF, 0xFF, 0xFF, 0xFF])"

definition avahi_address_is_link_local :: "address \<Rightarrow> bool" where
  "avahi_address_is_link_local a =
     (if proto a = AVAHI_PROTO_INET then ntohl (addr_bytes a) AND 0xFFFF0000 = 0xA9FE0000
      else if proto a = AVAHI_PROTO_INET6 then
        (push_bit 8 (ucast (addr_bytes a ! 0)) OR ucast (addr_bytes a ! 1)) AND 0xFFC0 = (0xFE80 :: u32)
      else False)"

subsection \<open>util.c\<close>

fun mac_loop :: "byte list \<Rightarrow> nat \<Rightarrow> cstr" where
  "mac_loop [] l = []"
| "mac_loop (c # mac) l =
     (if l < 3 then []
      else hex_digit (unat (drop_bit 4 c)) # hex_digit (unat (c AND 0xF)) # 58 # mac_loop mac (l - 3))"

text \<open>The last colon is overwritten with NUL.\<close>

definition avahi_format_mac_address :: "nat \<Rightarrow> byte list \<Rightarrow> cstr outcome" where
  "avahi_format_mac_address l mac = do { assert_that (l > 0); Some (butlast (mac_loop mac l)) }"

definition avahi_strup :: "cstr \<Rightarrow> cstr" where
  "avahi_strup s = map toupper_c s"

definition avahi_strdown :: "cstr \<Rightarrow> cstr" where
  "avahi_strdown s = map tolower_c s"

subsection \<open>Octets and nibbles\<close>

lemma unat_nibbles:
  fixes c :: byte
  shows "unat (c AND 0xF) = unat c mod 16" "unat (drop_bit 4 c) = unat c div 16"
  using nat_and_block [of "unat c" 0 4]
  by (simp_all add: unsigned_and_eq mask_eq_exp_minus_1 unsigned_drop_bit_eq drop_bit_eq_div unat_div_distrib)

lemma unat_octets:
  fixes n :: u32
  shows "unat (n AND 0xFF) = unat n mod 256" "unat (drop_bit 8 n AND 0xFF) = unat n div 256 mod 256"
    "unat (drop_bit 16 n AND 0xFF) = unat n div 65536 mod 256" "unat (drop_bit 24 n) = unat n div 16777216"
  using nat_and_block [of "unat n" 0 8] nat_and_block [of "unat n div 256" 0 8]
    nat_and_block [of "unat n div 65536" 0 8]
  by (simp_all add: unsigned_and_eq mask_eq_exp_minus_1 unsigned_drop_bit_eq drop_bit_eq_div unat_div_distrib)

lemma unat_ntohl:
  "unat (ntohl (a # b # c # d # t)) = unat a * 16777216 + unat b * 65536 + unat c * 256 + unat d"
proof -
  have "unat a * 16777216 + unat b * 65536 + unat c * 256 + unat d < 4294967296"
    using byte_lt [of a] byte_lt [of b] byte_lt [of c] byte_lt [of d] by linarith
  then show ?thesis by (simp add: ntohl_def algebra_simps)
qed

lemma byte_digit: "(m * 256 + unat (d :: byte)) div 256 = m" "(m * 256 + unat (d :: byte)) mod 256 = unat d"
  using byte_lt [of d] by (simp_all add: nat_div_eq_iff del: byte_lt)

lemma ntohl_octets:
  fixes a b c d :: byte
  defines "n \<equiv> unat a * 16777216 + unat b * 65536 + unat c * 256 + unat d"
  shows "n mod 256 = unat d" "n div 256 mod 256 = unat c" "n div 65536 mod 256 = unat b"
    "n div 16777216 = unat a"
proof -
  have n: "n = ((unat a * 256 + unat b) * 256 + unat c) * 256 + unat d" by (simp add: n_def algebra_simps)
  have d: "x div 65536 = x div 256 div 256" "x div 16777216 = x div 256 div 256 div 256" for x :: nat
    by (simp_all flip: div_mult2_eq)
  show "n mod 256 = unat d" "n div 256 mod 256 = unat c" "n div 65536 mod 256 = unat b"
    "n div 16777216 = unat a"
    unfolding n d by (simp_all only: byte_digit)
qed

lemma escaped_proper: "list_all proper_char l \<Longrightarrow> escaped l = l"
  by (induction l) (auto simp: escape_char_def proper_char_def)

lemma label_ok_proper: "list_all proper_char l \<Longrightarrow> length l < 64 \<Longrightarrow> label_ok l"
  by (auto simp: label_ok_def AVAHI_LABEL_MAX_def no_nul_def proper_char_def list_all_iff word_le_nat_alt word_less_nat_alt
      intro!: avahi_utf8_valid_ascii)

lemma proper_digits: "list_all isdigit_c l \<Longrightarrow> list_all proper_char l"
  by (auto simp: list_all_iff isdigit_c_def proper_char_def)

lemma proper_hex: "d < 16 \<Longrightarrow> proper_char (hex_digit d)"
proof -
  have "list_all (\<lambda>d. proper_char (hex_digit d)) [0..<16]" by code_simp
  then show "d < 16 \<Longrightarrow> proper_char (hex_digit d)" by (simp add: list_all_iff)
qed

definition octet_labels :: "byte list \<Rightarrow> cstr list" where
  "octet_labels bs = map (\<lambda>c. decimal (unat c)) (rev bs)"

definition nibble_labels :: "byte list \<Rightarrow> cstr list" where
  "nibble_labels bs = concat (map (\<lambda>c. [[hex_digit (unat c mod 16)], [hex_digit (unat c div 16)]]) (rev bs))"

lemma nibble_labels_join:
  "nibbles_reversed bs @ str ''ip6.arpa'' = join_labels (nibble_labels bs @ [str ''ip6'', str ''arpa''])"
proof (induction bs rule: rev_induct)
  case Nil
  then show ?case by (simp add: nibbles_reversed_def nibble_labels_def escape_char_def proper_char_def dotted_def)
next
  case (snoc c bs)
  have "escape_char (hex_digit (unat c mod 16)) = [hex_digit (unat c mod 16)]"
    "escape_char (hex_digit (unat c div 16)) = [hex_digit (unat c div 16)]"
    using proper_hex [of "unat c mod 16"] proper_hex [of "unat c div 16"]
    by (auto simp: escape_char_def proper_char_def div_less_iff_less_mult)
  with snoc show ?case
    by (cases "nibble_labels bs") (simp_all add: nibbles_reversed_def nibble_labels_def unat_nibbles dotted_def)
qed


lemma octet_labels_join:
  "decimal (unat d) @ dot # decimal (unat c) @ dot # decimal (unat b) @ dot # decimal (unat a) @ str ''.in-addr.arpa'' =
   join_labels (octet_labels [a, b, c, d] @ [str ''in-addr'', str ''arpa''])"
proof -
  have e: "escaped (decimal n) = decimal n" for n
    by (rule escaped_proper) (rule proper_digits, rule decimal_digits)
  have i: "escaped (str ''in-addr'') = str ''in-addr''" "escaped (str ''arpa'') = str ''arpa''"
    by (rule escaped_proper, simp add: proper_char_def)+
  show ?thesis by (simp only: octet_labels_def) (simp add: e i del: str_simps, simp)
qed

lemma decimal_octet_length: "length (decimal (unat (c :: byte))) \<le> 3"
  using byte_lt [of c] by (intro decimal_length) (simp_all del: byte_lt)

lemma reverse_v4:
  assumes "address_ok a" "proto a = AVAHI_PROTO_INET" "73 \<le> len"
  defines "ls \<equiv> octet_labels (take 4 (addr_bytes a)) @ [str ''in-addr'', str ''arpa'']"
  shows "avahi_reverse_lookup_name a len = Some (join_labels ls) \<and> length (join_labels ls) < 73 \<and>
    list_all (\<lambda>l. list_all proper_char l \<and> length l < 64) ls \<and> [] \<notin> set ls"
proof -
  obtain b0 b1 b2 b3 t where b: "addr_bytes a = b0 # b1 # b2 # b3 # t"
    using assms(1) by (auto simp: address_ok_def length_Suc_conv numeral_eq_Suc)
  have ls: "ls = octet_labels [b0, b1, b2, b3] @ [str ''in-addr'', str ''arpa'']"
    by (simp add: ls_def b)
  note d = decimal_octet_length [of b0] decimal_octet_length [of b1] decimal_octet_length [of b2]
    decimal_octet_length [of b3]
  have len: "length (join_labels ls) < 73"
    unfolding ls octet_labels_join [symmetric] using d by simp
  have "list_all (\<lambda>l. list_all proper_char l \<and> length l < 64) ls"
    using d proper_digits [OF decimal_digits] by (auto simp: ls octet_labels_def proper_char_def)
  moreover have "[] \<notin> set ls" by (simp add: ls octet_labels_def decimal_nonempty [symmetric])
  moreover have "avahi_reverse_lookup_name a len = Some (take (len - 1) (join_labels ls))"
    unfolding ls octet_labels_join [symmetric]
    unfolding avahi_reverse_lookup_name_def b Let_def unat_octets(2-4)
    unfolding unat_octets(1) unat_ntohl ntohl_octets
    using assms(2,3) by (simp del: str_simps)
  ultimately show ?thesis using len assms(3) by simp
qed

lemma reverse_v6:
  assumes "address_ok a" "proto a = AVAHI_PROTO_INET6" "73 \<le> len"
  defines "ls \<equiv> nibble_labels (addr_bytes a) @ [str ''ip6'', str ''arpa'']"
  shows "avahi_reverse_lookup_name a len = Some (join_labels ls) \<and> length (join_labels ls) < 73 \<and>
    list_all (\<lambda>l. list_all proper_char l \<and> length l < 64) ls \<and> [] \<notin> set ls"
proof -
  have p: "proper_char (hex_digit (unat c mod 16))" "proper_char (hex_digit (unat c div 16))" for c :: byte
    by (rule proper_hex, simp)+ (rule proper_hex, simp add: div_less_iff_less_mult)
  have "length (nibbles_reversed bs) = 4 * length bs" for bs
    by (induction bs rule: rev_induct) (simp_all add: nibbles_reversed_def)
  then have len: "length (join_labels ls) < 73"
    unfolding ls_def nibble_labels_join [symmetric] using assms(1) by (simp add: address_ok_def)
  have "list_all (\<lambda>l. list_all proper_char l \<and> length l < 64) ls" "[] \<notin> set ls"
    using p by (auto simp: ls_def nibble_labels_def proper_char_def list_all_iff)
  moreover have "avahi_reverse_lookup_name a len = Some (take (len - 1) (join_labels ls))"
    unfolding ls_def nibble_labels_join [symmetric]
    using assms(1-3) by (simp add: avahi_reverse_lookup_name_def address_ok_def proto_defs)
  ultimately show ?thesis using len assms(3) by simp
qed

lemma link_local_v4:
  "ntohl (b0 # b1 # b2 # b3 # t) AND 0xFFFF0000 = 0xA9FE0000 \<longleftrightarrow> b0 = 169 \<and> b1 = 254"
proof -
  let ?n = "ntohl (b0 # b1 # b2 # b3 # t)"
  let ?x = "unat b0 * 256 + unat b1"
  have "unat (?n AND 0xFFFF0000) = unat ?n div 65536 mod 65536 * 65536"
    using nat_and_block [of "unat ?n" 16 16] by (simp add: unsigned_and_eq mask_eq_exp_minus_1)
  also have "unat ?n div 65536 = ?x"
    using byte_lt [of b2] byte_lt [of b3] by (simp add: unat_ntohl nat_div_eq_iff del: byte_lt)
  also have "?x mod 65536 = ?x" using byte_lt [of b0] byte_lt [of b1] by (intro mod_less) linarith
  finally have f: "unat (?n AND 0xFFFF0000) = ?x * 65536" .
  have "unat (?n AND 0xFFFF0000) = 43518 * 65536 \<longleftrightarrow> ?x = 43518"
    unfolding f by (simp only: mult_cancel2) simp
  moreover have "?x = 43518 \<longleftrightarrow> unat b0 = 169 \<and> unat b1 = 254"
  proof
    assume h: "?x = 43518"
    show "unat b0 = 169 \<and> unat b1 = 254" using byte_digit [of "unat b0" b1] unfolding h by simp
  qed simp
  ultimately show ?thesis by (simp add: word_unat_eq_iff)
qed

lemma link_local_v6:
  "(push_bit 8 (ucast (b0 :: byte)) OR ucast (b1 :: byte)) AND 0xFFC0 = (0xFE80 :: u32) \<longleftrightarrow>
   b0 = 0xFE \<and> 0x80 \<le> b1 \<and> b1 < 0xC0"
proof -
  let ?n = "push_bit 8 (ucast b0) OR ucast b1 :: u32"
  have "unat b0 * 256 < 4294967296" using byte_lt [of b0] by linarith
  then have n: "unat ?n = unat b0 * 256 + unat b1"
    using nat_push_or [of "unat b1" 8 "unat b0"]
    by (simp add: unsigned_or_eq unsigned_ucast_eq push_bit_eq_mult unat_word_ariths)
  have "unat (?n AND 0xFFC0) = unat ?n div 64 mod 1024 * 64"
    using nat_and_block [of "unat ?n" 6 10] by (simp add: unsigned_and_eq mask_eq_exp_minus_1)
  moreover have "(unat b0 * 256 + unat b1) div 64 < 1024"
    using byte_lt [of b0] byte_lt [of b1] by (simp add: div_less_iff_less_mult del: byte_lt)
  moreover have "(unat b0 * 256 + unat b1) div 64 = 1018 \<longleftrightarrow> unat b0 = 254 \<and> 128 \<le> unat b1 \<and> unat b1 < 192"
  proof -
    consider "unat b0 \<le> 253" | "unat b0 = 254" | "255 \<le> unat b0" by linarith
    then show ?thesis using byte_lt [of b1] by cases (auto simp: nat_div_eq_iff simp del: byte_lt)
  qed
  ultimately show ?thesis by (simp add: word_unat_eq_iff n word_le_nat_alt word_less_nat_alt)
qed

subsection \<open>Properties\<close>

text \<open>
  For an IPv4 or IPv6 address and a buffer of 73 bytes, \<open>avahi_reverse_lookup_name\<close> gives a
  valid domain name, whose labels are the decimal octets or the hexadecimal nibbles, the last one
  first, in front of \<open>in-addr.arpa\<close> or \<open>ip6.arpa\<close>.
\<close>

theorem reverse_lookup_name_labels:
  assumes "address_ok a" "proto a = AVAHI_PROTO_INET \<or> proto a = AVAHI_PROTO_INET6" "73 \<le> len"
  shows "\<exists>s. avahi_reverse_lookup_name a len = Some s \<and> avahi_is_valid_domain_name s \<and>
    labels_of s = Some (if proto a = AVAHI_PROTO_INET
      then octet_labels (take 4 (addr_bytes a)) @ [str ''in-addr'', str ''arpa'']
      else nibble_labels (addr_bytes a) @ [str ''ip6'', str ''arpa''])"
proof -
  let ?ls = "if proto a = AVAHI_PROTO_INET
      then octet_labels (take 4 (addr_bytes a)) @ [str ''in-addr'', str ''arpa'']
      else nibble_labels (addr_bytes a) @ [str ''ip6'', str ''arpa'']"
  have r: "avahi_reverse_lookup_name a len = Some (join_labels ?ls) \<and> length (join_labels ?ls) < 73 \<and>
      list_all (\<lambda>l. list_all proper_char l \<and> length l < 64) ?ls \<and> [] \<notin> set ?ls"
    using reverse_v4 [OF assms(1) _ assms(3)] reverse_v6 [OF assms(1) _ assms(3)] assms(2) by auto
  then have "list_all label_ok ?ls" using label_ok_proper by (simp add: list_all_iff)
  from labels_of_join [OF this] r have l: "labels_of (join_labels ?ls) = Some ?ls" by blast
  then have "avahi_is_valid_domain_name (join_labels ?ls)"
    using r by (simp only: is_valid_domain_name_iff normal_form_def labels_valid_def AVAHI_DOMAIN_NAME_MAX_def) simp
  with r l show ?thesis by blast
qed

theorem reverse_lookup_name_labels_witness:
  "\<exists>s. avahi_reverse_lookup_name \<lparr>proto = AVAHI_PROTO_INET, addr_bytes = [192, 168, 0, 17] @ replicate 12 0\<rparr> 80 = Some s \<and>
    avahi_is_valid_domain_name s \<and>
    labels_of s = Some [str ''17'', str ''0'', str ''168'', str ''192'', str ''in-addr'', str ''arpa'']"
proof -
  have d: "octet_labels [192, 168, 0, 17] = [str ''17'', str ''0'', str ''168'', str ''192'']"
    by (simp add: octet_labels_def decimal.simps digit_byte_def byte_of_def)
  show ?thesis
    using reverse_lookup_name_labels [of "\<lparr>proto = AVAHI_PROTO_INET, addr_bytes = [192, 168, 0, 17] @ replicate 12 0\<rparr>" 80]
    by (simp add: address_ok_def d)
qed

text \<open>
  \<open>avahi_address_is_link_local\<close> holds exactly for 169.254.0.0/16 and fe80::/10.
\<close>

theorem link_local_exact:
  assumes "addr_bytes a = b0 # b1 # b2 # b3 # t"
  shows "avahi_address_is_link_local a \<longleftrightarrow>
    (proto a = AVAHI_PROTO_INET \<and> b0 = 169 \<and> b1 = 254 \<or>
     proto a = AVAHI_PROTO_INET6 \<and> b0 = 0xFE \<and> 0x80 \<le> b1 \<and> b1 < 0xC0)"
  using link_local_v4 [of b0 b1 b2 b3 t] link_local_v6 [of b0 b1] assms
  by (auto simp: avahi_address_is_link_local_def proto_defs)

theorem link_local_exact_witness:
  "avahi_address_is_link_local \<lparr>proto = AVAHI_PROTO_INET6, addr_bytes = [0xFE, 0xBF, 0, 1] @ replicate 12 0\<rparr>"
  using link_local_exact [of "\<lparr>proto = AVAHI_PROTO_INET6, addr_bytes = [0xFE, 0xBF, 0, 1] @ replicate 12 0\<rparr>"
      "0xFE" "0xBF" 0 1 "replicate 12 0"] by simp

text \<open>
  \<open>avahi_address_is_ipv4_in_ipv6\<close> does not recognise an IPv4-mapped address, ten zero bytes and
  two bytes 0xFF in front of the IPv4 address, but addresses with eight zero and four 0xFF bytes.
\<close>

theorem ipv4_mapped_not_recognised:
  "\<not> avahi_address_is_ipv4_in_ipv6
      \<lparr>proto = AVAHI_PROTO_INET6, addr_bytes = replicate 10 0 @ [0xFF, 0xFF, 192, 168, 0, 1]\<rparr> \<and>
   avahi_address_is_ipv4_in_ipv6
      \<lparr>proto = AVAHI_PROTO_INET6, addr_bytes = replicate 8 0 @ [0xFF, 0xFF, 0xFF, 0xFF, 192, 168, 0, 1]\<rparr>"
  by code_simp

end
