(* ===== verification/Hashmap.thy ===== *)
theory Hashmap
  imports Cstring "HOL-Library.Multiset"
begin

text \<open>
  The hash map (avahi-core/hashmap.c). Entries are objects with an identity (a number): the heap maps
  it to key and value, and an entry hangs in the list of all entries and in the list of its bucket,
  head first. \<open>AVAHI_LLIST_PREPEND\<close> is \<open>#\<close>; \<open>AVAHI_LLIST_REMOVE\<close> is \<open>remove1\<close>, a crash when the
  entry is not in the list. Reading an entry that is not in the heap is a crash. The record keeps
  the hash and the equality function, as the code does, whether free functions were given, and a
  log of the calls of those.
\<close>

definition HASH_MAP_SIZE :: nat where "HASH_MAP_SIZE = 123"

record ('k, 'v) hashmap =
  hash_func :: "'k \<Rightarrow> u32"
  equal_func :: "'k \<Rightarrow> 'k \<Rightarrow> bool"
  key_free_func :: bool
  value_free_func :: bool
  buckets :: "nat list list"
  entries_list :: "nat list"
  entry_heap :: "nat \<Rightarrow> ('k \<times> 'v) option"
  next_entry :: nat
  freed_keys :: "'k list"
  freed_values :: "'v list"

subsection \<open>The operations\<close>

definition bucket_of :: "('k, 'v) hashmap \<Rightarrow> 'k \<Rightarrow> nat" where
  "bucket_of m key = unat (hash_func m key) mod HASH_MAP_SIZE"

fun entry_search :: "('k, 'v) hashmap \<Rightarrow> 'k \<Rightarrow> nat list \<Rightarrow> nat option outcome" where
  "entry_search m key [] = Some None"
| "entry_search m key (e # es) =
     (case entry_heap m e of
        None \<Rightarrow> crash
      | Some (k, _) \<Rightarrow> if equal_func m key k then Some (Some e) else entry_search m key es)"

definition entry_get :: "('k, 'v) hashmap \<Rightarrow> 'k \<Rightarrow> nat option outcome" where
  "entry_get m key = entry_search m key (buckets m ! bucket_of m key)"

definition free_key :: "'k \<Rightarrow> ('k, 'v) hashmap \<Rightarrow> ('k, 'v) hashmap" where
  "free_key k m = (if key_free_func m then m\<lparr>freed_keys := k # freed_keys m\<rparr> else m)"

definition free_value :: "'v \<Rightarrow> ('k, 'v) hashmap \<Rightarrow> ('k, 'v) hashmap" where
  "free_value v m = (if value_free_func m then m\<lparr>freed_values := v # freed_values m\<rparr> else m)"

definition entry_free :: "('k, 'v) hashmap \<Rightarrow> nat \<Rightarrow> bool \<Rightarrow> ('k, 'v) hashmap outcome" where
  "entry_free m e stolen = do {
     (k, v) \<leftarrow> entry_heap m e;
     let idx = bucket_of m k;
     assert_that (e \<in> set (buckets m ! idx));
     assert_that (e \<in> set (entries_list m));
     let m = m\<lparr>buckets := (buckets m)[idx := remove1 e (buckets m ! idx)],
               entries_list := remove1 e (entries_list m)\<rparr>;
     let m = free_key k m;
     let m = (if \<not> stolen then free_value v m else m);
     Some (m\<lparr>entry_heap := (entry_heap m)(e := None)\<rparr>)
   }"

definition avahi_hashmap_new ::
  "('k \<Rightarrow> u32) \<Rightarrow> ('k \<Rightarrow> 'k \<Rightarrow> bool) \<Rightarrow> bool \<Rightarrow> bool \<Rightarrow> ('k, 'v) hashmap" where
  "avahi_hashmap_new h eq kf vf =
     \<lparr>hash_func = h, equal_func = eq, key_free_func = kf, value_free_func = vf,
      buckets = replicate HASH_MAP_SIZE [], entries_list = [], entry_heap = (\<lambda>_. None), next_entry = 0,
      freed_keys = [], freed_values = []\<rparr>"

text \<open>\<open>avahi_hashmap_free\<close>: the loop frees the head of the list until it is empty.\<close>

function avahi_hashmap_free :: "('k, 'v) hashmap \<Rightarrow> ('k, 'v) hashmap outcome" where
  "avahi_hashmap_free m =
     (case entries_list m of
        [] \<Rightarrow> Some m
      | e # _ \<Rightarrow> do { m \<leftarrow> entry_free m e False; avahi_hashmap_free m })"
  by pat_completeness auto
termination
  by (relation "measure (\<lambda>m. length (entries_list m))")
    (auto simp: entry_free_def free_key_def free_value_def Let_def Option.bind_eq_Some_conv)

declare avahi_hashmap_free.simps [simp del]

definition avahi_hashmap_lookup :: "('k, 'v) hashmap \<Rightarrow> 'k \<Rightarrow> 'v option outcome" where
  "avahi_hashmap_lookup m key = do {
     e \<leftarrow> entry_get m key;
     (case e of
        None \<Rightarrow> Some None
      | Some e \<Rightarrow> do { (_, v) \<leftarrow> entry_heap m e; Some (Some v) })
   }"

text \<open>The tail of insert and replace: a new entry in front of both lists.\<close>

definition prepend_entry :: "('k, 'v) hashmap \<Rightarrow> 'k \<Rightarrow> 'v \<Rightarrow> ('k, 'v) hashmap" where
  "prepend_entry m key value =
     (let e = next_entry m; idx = bucket_of m key in
      m\<lparr>entry_heap := (entry_heap m)(e \<mapsto> (key, value)), next_entry := e + 1,
        entries_list := e # entries_list m,
        buckets := (buckets m)[idx := e # buckets m ! idx]\<rparr>)"

definition avahi_hashmap_insert :: "('k, 'v) hashmap \<Rightarrow> 'k \<Rightarrow> 'v \<Rightarrow> (('k, 'v) hashmap \<times> int) outcome" where
  "avahi_hashmap_insert m key value = do {
     e \<leftarrow> entry_get m key;
     (case e of
        Some _ \<Rightarrow> Some (free_value value (free_key key m), 1)
      | None \<Rightarrow> Some (prepend_entry m key value, 0))
   }"

definition avahi_hashmap_replace :: "('k, 'v) hashmap \<Rightarrow> 'k \<Rightarrow> 'v \<Rightarrow> (('k, 'v) hashmap \<times> int) outcome" where
  "avahi_hashmap_replace m key value = do {
     e \<leftarrow> entry_get m key;
     (case e of
        Some e \<Rightarrow> do {
          (k, v) \<leftarrow> entry_heap m e;
          let m = free_value v (free_key k m);
          Some (m\<lparr>entry_heap := (entry_heap m)(e \<mapsto> (key, value))\<rparr>, 1)
        }
      | None \<Rightarrow> Some (prepend_entry m key value, 0))
   }"

definition avahi_hashmap_remove :: "('k, 'v) hashmap \<Rightarrow> 'k \<Rightarrow> ('k, 'v) hashmap outcome" where
  "avahi_hashmap_remove m key = do {
     e \<leftarrow> entry_get m key;
     (case e of None \<Rightarrow> Some m | Some e \<Rightarrow> entry_free m e False)
   }"

text \<open>The calls that \<open>avahi_hashmap_foreach\<close> makes with a callback that leaves the map alone.\<close>

definition avahi_hashmap_foreach :: "('k, 'v) hashmap \<Rightarrow> ('k \<times> 'v) list outcome" where
  "avahi_hashmap_foreach m = those (map (entry_heap m) (entries_list m))"

subsection \<open>The stock hash functions\<close>

definition avahi_string_hash :: "cstr \<Rightarrow> u32" where
  "avahi_string_hash p = foldl (\<lambda>hash c. 31 * hash + scast c) 0 p"

definition avahi_string_equal :: "cstr \<Rightarrow> cstr \<Rightarrow> bool" where
  "avahi_string_equal p q \<longleftrightarrow> strcmp p q = 0"

definition avahi_int_hash :: "int \<Rightarrow> u32" where
  "avahi_int_hash i = word_of_int i"

definition avahi_int_equal :: "int \<Rightarrow> int \<Rightarrow> bool" where
  "avahi_int_equal a b \<longleftrightarrow> a = b"

subsection \<open>The contract of hash and equality, and the invariant of a map\<close>

text \<open>
  What a client must give: on the keys it uses, the equality is an equivalence and equal keys have
  equal hashes.
\<close>

locale hash_key =
  fixes ok :: "'k \<Rightarrow> bool" and hash :: "'k \<Rightarrow> u32" and eq :: "'k \<Rightarrow> 'k \<Rightarrow> bool"
  assumes eq_refl: "ok k \<Longrightarrow> eq k k"
    and eq_sym: "ok k \<Longrightarrow> ok k' \<Longrightarrow> eq k k' \<Longrightarrow> eq k' k"
    and eq_trans: "ok k \<Longrightarrow> ok k' \<Longrightarrow> ok k'' \<Longrightarrow> eq k k' \<Longrightarrow> eq k' k'' \<Longrightarrow> eq k k''"
    and hash_cong: "ok k \<Longrightarrow> ok k' \<Longrightarrow> eq k k' \<Longrightarrow> hash k = hash k'"

text \<open>The entries of a map as an association list, the newest first.\<close>

definition hm_alist :: "('k, 'v) hashmap \<Rightarrow> ('k \<times> 'v) list" where
  "hm_alist m = map (\<lambda>e. the (entry_heap m e)) (entries_list m)"

definition hm_key :: "('k, 'v) hashmap \<Rightarrow> nat \<Rightarrow> 'k" where
  "hm_key m e = fst (the (entry_heap m e))"

definition hm_inv :: "('k \<Rightarrow> bool) \<Rightarrow> ('k \<Rightarrow> u32) \<Rightarrow> ('k \<Rightarrow> 'k \<Rightarrow> bool) \<Rightarrow> ('k, 'v) hashmap \<Rightarrow> bool" where
  "hm_inv ok hash eq m \<longleftrightarrow>
     hash_func m = hash \<and> equal_func m = eq \<and> length (buckets m) = HASH_MAP_SIZE \<and>
     distinct (entries_list m) \<and>
     (\<forall>e. entry_heap m e \<noteq> None \<longleftrightarrow> e \<in> set (entries_list m)) \<and>
     (\<forall>e \<in> set (entries_list m). e < next_entry m \<and> ok (hm_key m e)) \<and>
     (\<forall>e \<in> set (entries_list m). \<forall>e' \<in> set (entries_list m). eq (hm_key m e) (hm_key m e') \<longrightarrow> e = e') \<and>
     (\<forall>i < HASH_MAP_SIZE. distinct (buckets m ! i) \<and>
        set (buckets m ! i) = {e \<in> set (entries_list m). bucket_of m (hm_key m e) = i})"

fun al_lookup :: "('k \<Rightarrow> 'k \<Rightarrow> bool) \<Rightarrow> ('k \<times> 'v) list \<Rightarrow> 'k \<Rightarrow> 'v option" where
  "al_lookup eq [] key = None"
| "al_lookup eq ((k, v) # al) key = (if eq key k then Some v else al_lookup eq al key)"

lemma bucket_of_less [simp]: "bucket_of m k < HASH_MAP_SIZE"
  by (simp add: bucket_of_def HASH_MAP_SIZE_def)

lemma hm_invD:
  assumes "hm_inv ok hash eq m"
  shows "hash_func m = hash" "equal_func m = eq" "length (buckets m) = HASH_MAP_SIZE" "distinct (entries_list m)"
    "entry_heap m e \<noteq> None \<longleftrightarrow> e \<in> set (entries_list m)"
    "e \<in> set (entries_list m) \<Longrightarrow> e < next_entry m" "e \<in> set (entries_list m) \<Longrightarrow> ok (hm_key m e)"
    "e \<in> set (entries_list m) \<Longrightarrow> e' \<in> set (entries_list m) \<Longrightarrow> eq (hm_key m e) (hm_key m e') \<Longrightarrow> e = e'"
    "i < HASH_MAP_SIZE \<Longrightarrow> distinct (buckets m ! i)"
    "i < HASH_MAP_SIZE \<Longrightarrow> set (buckets m ! i) = {e \<in> set (entries_list m). bucket_of m (hm_key m e) = i}"
  using assms unfolding hm_inv_def by blast+

lemma hm_inv_new: "hm_inv ok hash eq (avahi_hashmap_new hash eq kf vf)"
  by (simp add: hm_inv_def avahi_hashmap_new_def)

text \<open>Freeing changes neither the lists nor the heap.\<close>

lemma free_simps [simp]:
  "hash_func (free_key k m) = hash_func m" "equal_func (free_key k m) = equal_func m"
  "buckets (free_key k m) = buckets m" "entries_list (free_key k m) = entries_list m"
  "entry_heap (free_key k m) = entry_heap m" "next_entry (free_key k m) = next_entry m"
  "value_free_func (free_key k m) = value_free_func m" "key_free_func (free_key k m) = key_free_func m"
  "freed_values (free_key k m) = freed_values m"
  "hash_func (free_value v m) = hash_func m" "equal_func (free_value v m) = equal_func m"
  "buckets (free_value v m) = buckets m" "entries_list (free_value v m) = entries_list m"
  "entry_heap (free_value v m) = entry_heap m" "next_entry (free_value v m) = next_entry m"
  "value_free_func (free_value v m) = value_free_func m" "key_free_func (free_value v m) = key_free_func m"
  "freed_keys (free_value v m) = freed_keys m"
  by (simp_all add: free_key_def free_value_def)

lemma hm_inv_free [simp]:
  "hm_inv ok hash eq (free_key k m) = hm_inv ok hash eq m" "hm_inv ok hash eq (free_value v m) = hm_inv ok hash eq m"
  "hm_alist (free_key k m) = hm_alist m" "hm_alist (free_value v m) = hm_alist m"
  "hm_key (free_key k m) = hm_key m" "hm_key (free_value v m) = hm_key m"
  by (simp_all add: hm_inv_def hm_alist_def hm_key_def[abs_def] bucket_of_def)

lemma entry_search_find:
  assumes "\<And>e. e \<in> set es \<Longrightarrow> entry_heap m e \<noteq> None"
  shows "entry_search m key es = Some (find (\<lambda>e. equal_func m key (hm_key m e)) es)"
  using assms by (induction es) (auto simp: hm_key_def split: option.splits)

lemma hm_alist_lookup:
  assumes "\<And>e. e \<in> set es \<Longrightarrow> entry_heap m e \<noteq> None"
  shows "al_lookup eq (map (\<lambda>e. the (entry_heap m e)) es) key =
    map_option (\<lambda>e. snd (the (entry_heap m e))) (find (\<lambda>e. eq key (hm_key m e)) es)"
  using assms
proof (induction es)
  case (Cons e es)
  then obtain k v where "entry_heap m e = Some (k, v)" by fastforce
  with Cons show ?case by (simp add: hm_key_def)
qed simp

lemma find_unique:
  assumes "\<And>x y. x \<in> set xs \<Longrightarrow> y \<in> set xs \<Longrightarrow> P x \<Longrightarrow> P y \<Longrightarrow> x = y" "{x \<in> set xs. P x} = {x \<in> set ys. P x}"
  shows "find P xs = find P ys"
proof (cases "find P xs")
  case None
  then have "find P ys = None" using assms(2) by (auto simp: find_None_iff)
  with None show ?thesis by simp
next
  case (Some x)
  then have x: "x \<in> set xs" "P x" by (auto simp: find_Some_iff)
  with assms(2) have "find P ys \<noteq> None" by (auto simp: find_None_iff)
  then obtain y where y: "find P ys = Some y" by blast
  then have "y \<in> set ys" "P y" by (auto simp: find_Some_iff)
  with assms x have "x = y" by blast
  with Some y show ?thesis by simp
qed

context hash_key
begin

abbreviation inv where "inv \<equiv> hm_inv ok hash eq"

text \<open>The search in the bucket finds what a search in the whole list finds.\<close>

lemma entry_get_eq:
  assumes "inv m" "ok key"
  shows "entry_get m key = Some (find (\<lambda>e. eq key (hm_key m e)) (entries_list m))"
proof -
  let ?b = "buckets m ! bucket_of m key"
  note i = hm_invD [OF assms(1)]
  have b: "set ?b = {e \<in> set (entries_list m). bucket_of m (hm_key m e) = bucket_of m key}" by (simp add: i(10))
  then have "entry_get m key = Some (find (\<lambda>e. eq key (hm_key m e)) ?b)"
    unfolding entry_get_def i(2) [symmetric] using i(5) by (intro entry_search_find) blast
  also have "find (\<lambda>e. eq key (hm_key m e)) ?b = find (\<lambda>e. eq key (hm_key m e)) (entries_list m)"
  proof (rule find_unique)
    fix e e'
    assume e: "e \<in> set ?b" "e' \<in> set ?b" "eq key (hm_key m e)" "eq key (hm_key m e')"
    then have "e \<in> set (entries_list m)" "e' \<in> set (entries_list m)" using b by auto
    with e(3,4) show "e = e'" using i(7,8) eq_sym eq_trans assms(2) by metis
  next
    have "bucket_of m (hm_key m e) = bucket_of m key" if "e \<in> set (entries_list m)" "eq key (hm_key m e)" for e
      using hash_cong [OF assms(2) _ that(2)] i(1,7) that(1) by (simp add: bucket_of_def)
    then show "{e \<in> set ?b. eq key (hm_key m e)} = {e \<in> set (entries_list m). eq key (hm_key m e)}"
      using b by auto
  qed
  finally show ?thesis .
qed

lemma entry_get_cases:
  assumes "inv m" "ok key"
  obtains (absent) "entry_get m key = Some None" "al_lookup eq (hm_alist m) key = None"
    "\<And>e. e \<in> set (entries_list m) \<Longrightarrow> \<not> eq key (hm_key m e)"
  | (present) e k v where "entry_get m key = Some (Some e)" "e \<in> set (entries_list m)"
    "entry_heap m e = Some (k, v)" "eq key k" "al_lookup eq (hm_alist m) key = Some v"
proof -
  note g = entry_get_eq [OF assms]
  have l: "al_lookup eq (hm_alist m) key =
      map_option (\<lambda>e. snd (the (entry_heap m e))) (find (\<lambda>e. eq key (hm_key m e)) (entries_list m))"
    unfolding hm_alist_def using hm_invD(5) [OF assms(1)] by (intro hm_alist_lookup) blast
  show thesis
  proof (cases "find (\<lambda>e. eq key (hm_key m e)) (entries_list m)")
    case None
    with g l show thesis by (intro absent) (auto simp: find_None_iff)
  next
    case (Some e)
    then have e: "e \<in> set (entries_list m)" "eq key (hm_key m e)" by (auto simp: find_Some_iff)
    then obtain k v where h: "entry_heap m e = Some (k, v)" using hm_invD(5) [OF assms(1)] by fastforce
    with e have "eq key k" by (simp add: hm_key_def)
    with present e(1) h g l Some show thesis by simp
  qed
qed

lemma lookup_eq:
  assumes "inv m" "ok key"
  shows "avahi_hashmap_lookup m key = Some (al_lookup eq (hm_alist m) key)"
  using assms by (cases rule: entry_get_cases) (simp_all add: avahi_hashmap_lookup_def)

end

subsection \<open>Every operation keeps the invariant\<close>

lemma freed_value_simp [simp]:
  "freed_values (free_value v m) = (if value_free_func m then v # freed_values m else freed_values m)"
  by (simp add: free_value_def)

lemma hm_alist_cong:
  "(\<And>e. e \<in> set es \<Longrightarrow> h e = h' e) \<Longrightarrow> map (\<lambda>e. the (h e)) es = map (\<lambda>e. the (h' e)) es"
  by simp

lemma prepend_entry_inv:
  assumes i: "hm_inv ok hash eq m" and key: "ok key"
    and new: "\<And>e. e \<in> set (entries_list m) \<Longrightarrow> \<not> eq key (hm_key m e) \<and> \<not> eq (hm_key m e) key"
  shows "hm_inv ok hash eq (prepend_entry m key v)" "hm_alist (prepend_entry m key v) = (key, v) # hm_alist m"
proof -
  note d = hm_invD [OF i]
  let ?e = "next_entry m" let ?m = "prepend_entry m key v"
  have e: "?e \<notin> set (entries_list m)" using d(6) by blast
  have k: "hm_key ?m e = (if e = ?e then key else hm_key m e)" for e
    by (simp add: hm_key_def prepend_entry_def Let_def)
  have b: "bucket_of ?m = bucket_of m" by (simp add: bucket_of_def [abs_def] prepend_entry_def Let_def)
  have l: "entries_list ?m = ?e # entries_list m" by (simp add: prepend_entry_def Let_def)
  show "hm_alist ?m = (key, v) # hm_alist m"
    using e by (auto simp: hm_alist_def prepend_entry_def Let_def)
  have "distinct (buckets ?m ! j) \<and>
      set (buckets ?m ! j) = {e \<in> set (entries_list ?m). bucket_of ?m (hm_key ?m e) = j}" if j: "j < HASH_MAP_SIZE" for j
  proof -
    have "buckets ?m ! j = (if j = bucket_of m key then ?e # buckets m ! j else buckets m ! j)"
      using d(3) j by (simp add: prepend_entry_def Let_def nth_list_update)
    moreover have "{x \<in> set (entries_list ?m). bucket_of ?m (hm_key ?m x) = j} =
        (if j = bucket_of m key then {?e} else {}) \<union> set (buckets m ! j)"
      unfolding b l k d(10) [OF j] using e by auto
    moreover have "?e \<notin> set (buckets m ! j)" using d(10) [OF j] e by blast
    ultimately show ?thesis using d(9) [OF j] by (cases "j = bucket_of m key") simp_all
  qed
  moreover have "entry_heap ?m e \<noteq> None \<longleftrightarrow> e \<in> set (entries_list ?m)" for e
    using d(5) [of e] by (auto simp: prepend_entry_def Let_def)
  moreover have "e < next_entry ?m \<and> ok (hm_key ?m e)" if "e \<in> set (entries_list ?m)" for e
    using that d(6,7) [of e] key by (auto simp: k l) (auto simp: prepend_entry_def Let_def)
  moreover have "e = e'" if "e \<in> set (entries_list ?m)" "e' \<in> set (entries_list ?m)" "eq (hm_key ?m e) (hm_key ?m e')" for e e'
    using that d(8) new by (auto simp: k l split: if_splits)
  moreover have "hash_func ?m = hash" "equal_func ?m = eq" "length (buckets ?m) = HASH_MAP_SIZE" "distinct (entries_list ?m)"
    using d(1-4) e by (simp_all add: prepend_entry_def Let_def)
  ultimately show "hm_inv ok hash eq ?m" unfolding hm_inv_def by blast
qed

lemma entry_free_inv:
  assumes i: "hm_inv ok hash eq m" and e: "e \<in> set (entries_list m)" and h: "entry_heap m e = Some (k, v)"
  obtains m' where "entry_free m e stolen = Some m'" "hm_inv ok hash eq m'"
    "hm_alist m' = map (\<lambda>e. the (entry_heap m e)) (remove1 e (entries_list m))"
    "entries_list m' = remove1 e (entries_list m)" "value_free_func m' = value_free_func m"
    "freed_values m' = (if value_free_func m \<and> \<not> stolen then v # freed_values m else freed_values m)"
proof -
  note d = hm_invD [OF i]
  have k: "hm_key m e = k" by (simp add: hm_key_def h)
  let ?b = "bucket_of m k"
  have b: "e \<in> set (buckets m ! ?b)" using d(10) [of ?b] e k by simp
  define m1 where "m1 = m\<lparr>buckets := (buckets m)[?b := remove1 e (buckets m ! ?b)],
               entries_list := remove1 e (entries_list m)\<rparr>"
  define m2 where "m2 = (if \<not> stolen then free_value v (free_key k m1) else free_key k m1)"
  define m' where "m' = m2\<lparr>entry_heap := (entry_heap m2)(e := None)\<rparr>"
  have f: "entry_free m e stolen = Some m'"
    using b e by (simp add: entry_free_def h m'_def m2_def m1_def Let_def)
  have s: "entry_heap m' = (entry_heap m)(e := None)" "entries_list m' = remove1 e (entries_list m)"
    "buckets m' = (buckets m)[?b := remove1 e (buckets m ! ?b)]" "next_entry m' = next_entry m"
    "hash_func m' = hash_func m" "equal_func m' = equal_func m"
    by (simp_all add: m'_def m2_def m1_def)
  have key: "hm_key m' x = hm_key m x" if "x \<noteq> e" for x using that by (simp add: hm_key_def s)
  have bk: "bucket_of m' = bucket_of m" by (simp add: bucket_of_def [abs_def] s)
  have l: "set (entries_list m') = set (entries_list m) - {e}" using d(4) by (simp add: s)
  have "distinct (buckets m' ! j) \<and>
      set (buckets m' ! j) = {x \<in> set (entries_list m'). bucket_of m' (hm_key m' x) = j}" if j: "j < HASH_MAP_SIZE" for j
  proof -
    have "buckets m' ! j = (if j = ?b then remove1 e (buckets m ! j) else buckets m ! j)"
      using d(3) j by (simp add: s nth_list_update)
    moreover have "{x \<in> set (entries_list m'). bucket_of m' (hm_key m' x) = j} = set (buckets m ! j) - {e}"
      unfolding bk l d(10) [OF j] using key by auto
    moreover have "e \<notin> set (buckets m ! j)" if "j \<noteq> ?b" using d(10) [OF j] k that by auto
    ultimately show ?thesis using d(9) [OF j] by (cases "j = ?b") simp_all
  qed
  moreover have "entry_heap m' x \<noteq> None \<longleftrightarrow> x \<in> set (entries_list m')" for x
    using d(5) [of x] unfolding l by (auto simp: s)
  moreover have "x < next_entry m' \<and> ok (hm_key m' x)" if "x \<in> set (entries_list m')" for x
    using that d(6,7) [of x] key [of x] unfolding l by (auto simp: s)
  moreover have "x = x'" if "x \<in> set (entries_list m')" "x' \<in> set (entries_list m')" "eq (hm_key m' x) (hm_key m' x')" for x x'
    using that d(8) key unfolding l by auto
  moreover have "hash_func m' = hash" "equal_func m' = eq" "length (buckets m') = HASH_MAP_SIZE" "distinct (entries_list m')"
    using d(1-4) by (simp_all add: s)
  ultimately have "hm_inv ok hash eq m'" unfolding hm_inv_def by blast
  moreover have "hm_alist m' = map (\<lambda>e. the (entry_heap m e)) (remove1 e (entries_list m))"
    unfolding hm_alist_def s using d(4) by (intro hm_alist_cong) (auto dest: in_set_remove1 simp: s)
  ultimately show thesis using that f s
    by (simp add: m'_def m2_def m1_def free_key_def free_value_def)
qed

lemma replace_entry_inv:
  assumes i: "hm_inv ok hash eq m" and e: "e \<in> set (entries_list m)" "ok key"
    and c: "\<And>x. x \<in> set (entries_list m) \<Longrightarrow> eq (hm_key m x) key \<or> eq key (hm_key m x) \<Longrightarrow> x = e"
    and b: "hash key = hash (hm_key m e)"
  shows "hm_inv ok hash eq (m\<lparr>entry_heap := (entry_heap m)(e \<mapsto> (key, v))\<rparr>)"
    "hm_alist (m\<lparr>entry_heap := (entry_heap m)(e \<mapsto> (key, v))\<rparr>) =
       map (\<lambda>x. if x = e then (key, v) else the (entry_heap m x)) (entries_list m)"
proof -
  note d = hm_invD [OF i]
  let ?m = "m\<lparr>entry_heap := (entry_heap m)(e \<mapsto> (key, v))\<rparr>"
  have k: "hm_key ?m x = (if x = e then key else hm_key m x)" for x by (simp add: hm_key_def)
  have bk: "bucket_of ?m (hm_key ?m x) = bucket_of m (hm_key m x)" for x
    using b d(1) by (simp add: bucket_of_def k)
  have "x = x'" if "x \<in> set (entries_list ?m)" "x' \<in> set (entries_list ?m)" "eq (hm_key ?m x) (hm_key ?m x')" for x x'
  proof -
    have "eq (if x = e then key else hm_key m x) (if x' = e then key else hm_key m x')" using that(3) unfolding k .
    moreover have "x \<in> set (entries_list m)" "x' \<in> set (entries_list m)" using that(1,2) by simp_all
    ultimately show ?thesis using c d(8) by metis
  qed
  moreover have "x < next_entry ?m \<and> ok (hm_key ?m x)" if "x \<in> set (entries_list ?m)" for x
    using that d(6,7) [of x] e(2) by (simp add: k)
  moreover have "entry_heap ?m x \<noteq> None \<longleftrightarrow> x \<in> set (entries_list ?m)" for x
    using d(5) [of x] e(1) by (cases "x = e") simp_all
  moreover have "distinct (buckets ?m ! j) \<and>
      set (buckets ?m ! j) = {x \<in> set (entries_list ?m). bucket_of ?m (hm_key ?m x) = j}" if "j < HASH_MAP_SIZE" for j
    unfolding bk using d(9,10) [OF that] by simp
  moreover have "hash_func ?m = hash" "equal_func ?m = eq" "length (buckets ?m) = HASH_MAP_SIZE" "distinct (entries_list ?m)"
    using d(1-4) by simp_all
  ultimately show "hm_inv ok hash eq ?m" unfolding hm_inv_def by blast
  show "hm_alist ?m = map (\<lambda>x. if x = e then (key, v) else the (entry_heap m x)) (entries_list m)"
    by (simp add: hm_alist_def)
qed

subsection \<open>The operations on the association list\<close>

text \<open>The values in the map.\<close>

definition hm_values :: "('k, 'v) hashmap \<Rightarrow> 'v multiset" where
  "hm_values m = mset (map snd (hm_alist m))"

lemma mset_map_update:
  "distinct xs \<Longrightarrow> e \<in> set xs \<Longrightarrow>
   add_mset (f e) (mset (map (\<lambda>x. if x = e then c else f x) xs)) = add_mset c (mset (map f xs))"
proof (induction xs)
  case (Cons x xs)
  have "x \<notin> set xs \<Longrightarrow> {#if y = x then c else f y. y \<in># mset xs#} = image_mset f (mset xs)"
    by (rule image_mset_cong) auto
  with Cons show ?case by (cases "x = e") auto
qed simp

lemma mset_map_remove1:
  "e \<in> set xs \<Longrightarrow> add_mset (f e) (mset (map f (remove1 e xs))) = mset (map f xs)"
  by (induction xs) auto

context hash_key
begin

lemma keys_unique:
  assumes "inv m" "ok key" "e \<in> set (entries_list m)" "eq key (hm_key m e)" "x \<in> set (entries_list m)"
    "eq (hm_key m x) key \<or> eq key (hm_key m x)"
  shows "x = e"
proof -
  note d = hm_invD [OF assms(1)]
  have "eq (hm_key m x) key" using assms(6) eq_sym d(7) [OF assms(5)] assms(2) by blast
  then have "eq (hm_key m x) (hm_key m e)" using eq_trans d(7) assms by blast
  then show ?thesis using d(8) assms by blast
qed

lemma insert_result:
  assumes "inv m" "ok key"
  obtains m' r where "avahi_hashmap_insert m key v = Some (m', r)" "inv m'"
    "hm_alist m' = (if al_lookup eq (hm_alist m) key = None then (key, v) # hm_alist m else hm_alist m)"
    "r = (if al_lookup eq (hm_alist m) key = None then 0 else 1)" "value_free_func m' = value_free_func m"
    "value_free_func m \<Longrightarrow> mset (freed_values m') + hm_values m' = add_mset v (mset (freed_values m) + hm_values m)"
  using assms(1,2)
proof (cases rule: entry_get_cases)
  case absent
  then have "\<not> eq key (hm_key m e) \<and> \<not> eq (hm_key m e) key" if "e \<in> set (entries_list m)" for e
    using that eq_sym hm_invD(7) [OF assms(1) that] assms(2) by blast
  from prepend_entry_inv [OF assms this] absent that show thesis
    by (simp add: avahi_hashmap_insert_def hm_values_def) (simp add: prepend_entry_def Let_def)
next
  case (present e k v')
  with that assms show thesis
    by (simp add: avahi_hashmap_insert_def hm_values_def)
qed

lemma replace_result:
  assumes "inv m" "ok key"
  obtains m' r where "avahi_hashmap_replace m key v = Some (m', r)" "inv m'"
    "hm_alist m' = (if al_lookup eq (hm_alist m) key = None then (key, v) # hm_alist m
       else map (\<lambda>(k, w). if eq key k then (key, v) else (k, w)) (hm_alist m))"
    "r = (if al_lookup eq (hm_alist m) key = None then 0 else 1)" "value_free_func m' = value_free_func m"
    "value_free_func m \<Longrightarrow> mset (freed_values m') + hm_values m' = add_mset v (mset (freed_values m) + hm_values m)"
  using assms(1,2)
proof (cases rule: entry_get_cases)
  case absent
  then have "\<not> eq key (hm_key m e) \<and> \<not> eq (hm_key m e) key" if "e \<in> set (entries_list m)" for e
    using that eq_sym hm_invD(7) [OF assms(1) that] assms(2) by blast
  from prepend_entry_inv [OF assms this] absent that show thesis
    by (simp add: avahi_hashmap_replace_def hm_values_def) (simp add: prepend_entry_def Let_def)
next
  case (present e k w)
  let ?m = "free_value w (free_key k m)"
  have k: "hm_key ?m e = k" "hm_key ?m = hm_key m" using present(3) by (simp_all add: hm_key_def)
  have i: "inv ?m" using assms(1) by simp
  have u: "x = e" if "x \<in> set (entries_list ?m)" "eq (hm_key ?m x) key \<or> eq key (hm_key ?m x)" for x
    using keys_unique [OF i assms(2)] present(2,4) that k by simp
  have h: "hash key = hash (hm_key ?m e)"
    using hash_cong [OF assms(2) _ present(4)] hm_invD(7) [OF assms(1) present(2)] k by simp
  have e: "e \<in> set (entries_list ?m)" using present(2) by simp
  note r = replace_entry_inv [OF i e assms(2) u h, of v]
  have "map (\<lambda>x. if x = e then (key, v) else the (entry_heap m x)) (entries_list m) =
      map (\<lambda>(k, w). if eq key k then (key, v) else (k, w)) (hm_alist m)"
  proof -
    have "(if x = e then (key, v) else the (entry_heap m x)) =
        (case the (entry_heap m x) of (k, w) \<Rightarrow> if eq key k then (key, v) else (k, w))" if x: "x \<in> set (entries_list m)" for x
    proof (cases "x = e")
      case False
      then have "\<not> eq key (hm_key m x)" using u [of x] x k by auto
      with False show ?thesis by (cases "the (entry_heap m x)") (simp add: hm_key_def)
    qed (use present(3,4) in simp)
    then show ?thesis by (simp add: hm_alist_def)
  qed
  with r(2) [unfolded free_simps] have a:
    "hm_alist (?m\<lparr>entry_heap := (entry_heap m)(e \<mapsto> (key, v))\<rparr>) =
      map (\<lambda>(k, w). if eq key k then (key, v) else (k, w)) (hm_alist m)" by simp
  have "add_mset w (hm_values (?m\<lparr>entry_heap := (entry_heap m)(e \<mapsto> (key, v))\<rparr>)) = add_mset v (hm_values m)"
    unfolding hm_values_def r(2) [unfolded free_simps]
    using mset_map_update [OF hm_invD(4) [OF assms(1)] present(2), of "\<lambda>x. snd (the (entry_heap m x))" v] present(3)
    by (simp add: hm_alist_def comp_def if_distrib [of snd] if_distrib [of the] cong: if_cong)
  then show thesis
    using present r(1) a
    by (intro that [of "?m\<lparr>entry_heap := (entry_heap m)(e \<mapsto> (key, v))\<rparr>" 1])
      (simp_all add: avahi_hashmap_replace_def)
qed

lemma remove_result:
  assumes "inv m" "ok key"
  obtains m' where "avahi_hashmap_remove m key = Some m'" "inv m'"
    "hm_alist m' = filter (\<lambda>(k, w). \<not> eq key k) (hm_alist m)" "value_free_func m' = value_free_func m"
    "value_free_func m \<Longrightarrow> mset (freed_values m') + hm_values m' = mset (freed_values m) + hm_values m"
  using assms(1,2)
proof (cases rule: entry_get_cases)
  case absent
  have "filter (\<lambda>(k, w). \<not> eq key k) (hm_alist m) = hm_alist m"
    using absent(3) by (auto simp: filter_id_conv hm_alist_def hm_key_def split: prod.splits) (metis fst_conv)
  with absent that assms show thesis by (simp add: avahi_hashmap_remove_def)
next
  case (present e k w)
  note d = hm_invD [OF assms(1)]
  have e: "eq key (hm_key m e)" using present(3,4) by (simp add: hm_key_def)
  have "x \<noteq> e \<longleftrightarrow> \<not> eq key (hm_key m x)" if "x \<in> set (entries_list m)" for x
    using keys_unique [OF assms present(2) e that] e by blast
  then have "remove1 e (entries_list m) = filter (\<lambda>x. \<not> eq key (hm_key m x)) (entries_list m)"
    unfolding distinct_remove1_removeAll [OF d(4)] removeAll_filter_not_eq
    by (intro filter_cong) (simp_all add: eq_commute)
  moreover have "map (\<lambda>e. the (entry_heap m e)) (filter (\<lambda>x. \<not> eq key (hm_key m x)) (entries_list m)) =
      filter (\<lambda>(k, w). \<not> eq key k) (hm_alist m)"
    by (simp add: hm_alist_def filter_map comp_def hm_key_def case_prod_beta)
  moreover obtain m' where "entry_free m e False = Some m'" "inv m'"
    "hm_alist m' = map (\<lambda>e. the (entry_heap m e)) (remove1 e (entries_list m))"
    "value_free_func m' = value_free_func m"
    "freed_values m' = (if value_free_func m \<and> \<not> False then w # freed_values m else freed_values m)"
    by (rule entry_free_inv [OF assms(1) present(2,3)])
  moreover from this(3) have "add_mset w (hm_values m') = hm_values m"
    using mset_map_remove1 [OF present(2), of "\<lambda>x. snd (the (entry_heap m x))"] present(3)
    by (simp add: hm_values_def multiset.map_comp comp_def) (simp add: hm_alist_def multiset.map_comp comp_def)
  ultimately show thesis using present(1,5) that [of m']
    by (simp add: avahi_hashmap_remove_def)
qed

lemma keys_ok: "inv m \<Longrightarrow> (k, v) \<in> set (hm_alist m) \<Longrightarrow> ok k"
  using hm_invD(7) [of ok hash eq m] by (auto simp: hm_alist_def hm_key_def) (metis fst_conv)

text \<open>Freeing the map frees every value in it once.\<close>

lemma free_result:
  assumes "inv m"
  shows "\<exists>m'. avahi_hashmap_free m = Some m' \<and> entries_list m' = [] \<and> value_free_func m' = value_free_func m \<and>
    (value_free_func m \<longrightarrow> mset (freed_values m') = mset (freed_values m) + hm_values m)"
  using assms
proof (induction "length (entries_list m)" arbitrary: m)
  case 0
  then show ?case by (simp add: avahi_hashmap_free.simps hm_values_def hm_alist_def)
next
  case (Suc n)
  then obtain e es where l: "entries_list m = e # es" by (cases "entries_list m") auto
  then obtain k v where h: "entry_heap m e = Some (k, v)" using hm_invD(5) [OF Suc.prems, of e] by auto
  obtain m1 where m1: "entry_free m e False = Some m1" "inv m1"
    "hm_alist m1 = map (\<lambda>e. the (entry_heap m e)) (remove1 e (entries_list m))"
    "entries_list m1 = remove1 e (entries_list m)" "value_free_func m1 = value_free_func m"
    "freed_values m1 = (if value_free_func m \<and> \<not> False then v # freed_values m else freed_values m)"
    by (rule entry_free_inv [OF Suc.prems _ h]) (simp add: l)
  have "n = length (entries_list m1)" using Suc.hyps(2) l m1(4) by simp
  note ih = Suc.hyps(1) [OF this m1(2)]
  have "hm_alist m = (k, v) # hm_alist m1" using m1(3) l h by (simp add: hm_alist_def [of m])
  then have "hm_values m = add_mset v (hm_values m1)" by (simp add: hm_values_def)
  moreover have "avahi_hashmap_free m = avahi_hashmap_free m1"
    using l m1(1) by (subst avahi_hashmap_free.simps) simp
  ultimately show ?case using ih m1(5,6) by auto
qed

end

subsection \<open>The stock hash functions meet the contract\<close>

lemma strcmp_zero: "no_nul p \<Longrightarrow> no_nul q \<Longrightarrow> strcmp p q = 0 \<longleftrightarrow> p = q"
  by (induction p q rule: strcmp.induct) (auto simp: word_uint_eq_iff)

lemma string_equal_iff: "no_nul p \<Longrightarrow> no_nul q \<Longrightarrow> avahi_string_equal p q \<longleftrightarrow> p = q"
  by (simp add: avahi_string_equal_def strcmp_zero)

interpretation string_key: hash_key no_nul avahi_string_hash avahi_string_equal
  by unfold_locales (auto simp: string_equal_iff)

interpretation int_key: hash_key "\<lambda>_. True" avahi_int_hash avahi_int_equal
  by unfold_locales (auto simp: avahi_int_equal_def)

subsection \<open>Sequences of operations and the abstract map\<close>

datatype ('k, 'v) hm_op = Op_insert 'k 'v | Op_replace 'k 'v | Op_remove 'k

fun op_key :: "('k, 'v) hm_op \<Rightarrow> 'k" where
  "op_key (Op_insert k v) = k" | "op_key (Op_replace k v) = k" | "op_key (Op_remove k) = k"

fun op_values :: "('k, 'v) hm_op \<Rightarrow> 'v list" where
  "op_values (Op_insert k v) = [v]" | "op_values (Op_replace k v) = [v]" | "op_values (Op_remove k) = []"

fun hm_step :: "('k, 'v) hashmap \<Rightarrow> ('k, 'v) hm_op \<Rightarrow> ('k, 'v) hashmap outcome" where
  "hm_step m (Op_insert k v) = map_option fst (avahi_hashmap_insert m k v)"
| "hm_step m (Op_replace k v) = map_option fst (avahi_hashmap_replace m k v)"
| "hm_step m (Op_remove k) = avahi_hashmap_remove m k"

fun hm_run :: "('k, 'v) hashmap \<Rightarrow> ('k, 'v) hm_op list \<Rightarrow> ('k, 'v) hashmap outcome" where
  "hm_run m [] = Some m"
| "hm_run m (p # ps) = do { m \<leftarrow> hm_step m p; hm_run m ps }"

text \<open>The specification: insert keeps the old value, replace overwrites it.\<close>

fun map_step :: "('k \<rightharpoonup> 'v) \<Rightarrow> ('k, 'v) hm_op \<Rightarrow> ('k \<rightharpoonup> 'v)" where
  "map_step f (Op_insert k v) = (if f k = None then f(k \<mapsto> v) else f)"
| "map_step f (Op_replace k v) = f(k \<mapsto> v)"
| "map_step f (Op_remove k) = f(k := None)"

text \<open>A map represents \<open>f\<close> when its entries, read with the equality, give \<open>f\<close>.\<close>

lemma al_lookup_update:
  "al_lookup (=) (map (\<lambda>(k, w). if key = k then (key, v) else (k, w)) al) x =
   (if x = key then (case al_lookup (=) al key of None \<Rightarrow> None | Some _ \<Rightarrow> Some v) else al_lookup (=) al x)"
  by (induction al) auto

lemma al_lookup_remove:
  "al_lookup (=) (filter (\<lambda>(k, w). key \<noteq> k) al) x = (if x = key then None else al_lookup (=) al x)"
  by (induction al) auto

lemma al_lookup_string:
  "\<forall>(k, v) \<in> set al. no_nul k \<Longrightarrow> no_nul key \<Longrightarrow> al_lookup avahi_string_equal al key = al_lookup (=) al key"
  by (induction al) (auto simp: string_equal_iff)

lemma string_step:
  assumes i: "string_key.inv m" and k: "no_nul (op_key p)"
  shows "\<exists>m'. hm_step m p = Some m' \<and> string_key.inv m' \<and> value_free_func m' = value_free_func m \<and>
    al_lookup (=) (hm_alist m') = map_step (al_lookup (=) (hm_alist m)) p \<and>
    (value_free_func m \<longrightarrow> mset (freed_values m') + hm_values m' = mset (op_values p) + (mset (freed_values m) + hm_values m))"
proof (cases p)
  have ok: "\<forall>(k, v) \<in> set (hm_alist m). no_nul k" using string_key.keys_ok [OF i] by blast
  case (Op_insert key v)
  with k have key: "no_nul key" by simp
  show ?thesis
  proof (rule string_key.insert_result [OF i key, of v])
    fix m' r
    assume "avahi_hashmap_insert m key v = Some (m', r)" "string_key.inv m'"
      "hm_alist m' = (if al_lookup avahi_string_equal (hm_alist m) key = None then (key, v) # hm_alist m else hm_alist m)"
      "value_free_func m' = value_free_func m"
      "value_free_func m \<Longrightarrow> mset (freed_values m') + hm_values m' = add_mset v (mset (freed_values m) + hm_values m)"
    then show ?thesis using Op_insert al_lookup_string [OF ok key] by (intro exI [of _ m']) (simp add: fun_eq_iff)
  qed
next
  have ok: "\<forall>(k, v) \<in> set (hm_alist m). no_nul k" using string_key.keys_ok [OF i] by blast
  case (Op_replace key v)
  with k have key: "no_nul key" by simp
  have e: "map (\<lambda>(k, w). if avahi_string_equal key k then (key, v) else (k, w)) (hm_alist m) =
      map (\<lambda>(k, w). if key = k then (key, v) else (k, w)) (hm_alist m)"
    using ok key by (intro map_cong) (auto simp: string_equal_iff)
  show ?thesis
  proof (rule string_key.replace_result [OF i key, of v])
    fix m' r
    assume a: "avahi_hashmap_replace m key v = Some (m', r)" "string_key.inv m'"
      "hm_alist m' = (if al_lookup avahi_string_equal (hm_alist m) key = None then (key, v) # hm_alist m
         else map (\<lambda>(k, w). if avahi_string_equal key k then (key, v) else (k, w)) (hm_alist m))"
      "value_free_func m' = value_free_func m"
      "value_free_func m \<Longrightarrow> mset (freed_values m') + hm_values m' = add_mset v (mset (freed_values m) + hm_values m)"
    have "al_lookup (=) (hm_alist m') = (al_lookup (=) (hm_alist m))(key \<mapsto> v)"
      unfolding a(3) e al_lookup_string [OF ok key] by (auto simp: fun_eq_iff al_lookup_update split: option.split)
    with a show ?thesis using Op_replace by (intro exI [of _ m']) simp
  qed
next
  have ok: "\<forall>(k, v) \<in> set (hm_alist m). no_nul k" using string_key.keys_ok [OF i] by blast
  case (Op_remove key)
  with k have key: "no_nul key" by simp
  have e: "filter (\<lambda>(k, w). \<not> avahi_string_equal key k) (hm_alist m) = filter (\<lambda>(k, w). key \<noteq> k) (hm_alist m)"
    using ok key by (intro filter_cong) (auto simp: string_equal_iff)
  show ?thesis
  proof (rule string_key.remove_result [OF i key])
    fix m'
    assume a: "avahi_hashmap_remove m key = Some m'" "string_key.inv m'"
      "hm_alist m' = filter (\<lambda>(k, w). \<not> avahi_string_equal key k) (hm_alist m)" "value_free_func m' = value_free_func m"
      "value_free_func m \<Longrightarrow> mset (freed_values m') + hm_values m' = mset (freed_values m) + hm_values m"
    have "al_lookup (=) (hm_alist m') = (al_lookup (=) (hm_alist m))(key := None)"
      unfolding a(3) e by (simp add: fun_eq_iff al_lookup_remove)
    with a show ?thesis using Op_remove by (intro exI [of _ m']) simp
  qed
qed

lemma string_run:
  assumes "string_key.inv m" "list_all (\<lambda>p. no_nul (op_key p)) ps"
  shows "\<exists>m'. hm_run m ps = Some m' \<and> string_key.inv m' \<and> value_free_func m' = value_free_func m \<and>
    al_lookup (=) (hm_alist m') = foldl map_step (al_lookup (=) (hm_alist m)) ps \<and>
    (value_free_func m \<longrightarrow> mset (freed_values m') + hm_values m' =
       mset (concat (map op_values ps)) + (mset (freed_values m) + hm_values m))"
  using assms
proof (induction ps arbitrary: m)
  case (Cons p ps)
  from Cons.prems string_step [of m p] obtain m1 where m1: "hm_step m p = Some m1" "string_key.inv m1"
    "value_free_func m1 = value_free_func m" "al_lookup (=) (hm_alist m1) = map_step (al_lookup (=) (hm_alist m)) p"
    "value_free_func m \<longrightarrow> mset (freed_values m1) + hm_values m1 = mset (op_values p) + (mset (freed_values m) + hm_values m)"
    by auto
  have "list_all (\<lambda>p. no_nul (op_key p)) ps" using Cons.prems(2) by simp
  from Cons.IH [OF m1(2) this] obtain m2 where "hm_run m1 ps = Some m2" "string_key.inv m2"
    "value_free_func m2 = value_free_func m1"
    "al_lookup (=) (hm_alist m2) = foldl map_step (al_lookup (=) (hm_alist m1)) ps"
    "value_free_func m1 \<longrightarrow> mset (freed_values m2) + hm_values m2 =
       mset (concat (map op_values ps)) + (mset (freed_values m1) + hm_values m1)" by blast
  with m1 show ?case by (intro exI [of _ m2]) (simp add: ac_simps)
qed simp

subsection \<open>Properties\<close>

text \<open>
  C10: a hash map with string keys is a map. After any sequence of inserts, replaces and removes,
  none of which stops the process, a lookup gives what the abstract map holds, which insert does
  not overwrite and replace does.
\<close>

theorem hashmap_refines_map:
  assumes "list_all (\<lambda>p. no_nul (op_key p)) ps" "no_nul key"
  shows "\<exists>m. hm_run (avahi_hashmap_new avahi_string_hash avahi_string_equal kf vf) ps = Some m \<and>
    avahi_hashmap_lookup m key = Some (foldl map_step (\<lambda>_. None) ps key)"
proof -
  let ?m = "avahi_hashmap_new avahi_string_hash avahi_string_equal kf vf :: (cstr, 'a) hashmap"
  have n: "al_lookup (=) (hm_alist ?m) = (\<lambda>_. None)" by (simp add: fun_eq_iff hm_alist_def avahi_hashmap_new_def)
  from string_run [OF hm_inv_new assms(1), of kf vf] obtain m where m: "hm_run ?m ps = Some m" "string_key.inv m"
    "al_lookup (=) (hm_alist m) = foldl map_step (\<lambda>_. None) ps" by (auto simp: n)
  have "\<forall>(k, v) \<in> set (hm_alist m). no_nul k" using string_key.keys_ok [OF m(2)] by blast
  with m assms(2) show ?thesis by (simp add: string_key.lookup_eq al_lookup_string)
qed

theorem hashmap_refines_map_witness:
  "\<exists>m. hm_run (avahi_hashmap_new avahi_string_hash avahi_string_equal True True)
      [Op_insert (str ''a'') (1 :: nat), Op_insert (str ''b'') 2, Op_insert (str ''a'') 3, Op_replace (str ''b'') 4] = Some m \<and>
    avahi_hashmap_lookup m (str ''b'') = Some (Some 4)"
  using hashmap_refines_map [of "[Op_insert (str ''a'') (1 :: nat), Op_insert (str ''b'') 2, Op_insert (str ''a'') 3,
      Op_replace (str ''b'') 4]" "str ''b''" True True] by simp

text \<open>
  C33: no value is lost and none is freed twice. When the map frees its values, every value handed to
  insert or replace is, at every time, either in the map or has been freed, exactly once, and
  \<open>avahi_hashmap_free\<close> frees the rest.
\<close>

theorem hashmap_frees_once:
  assumes "list_all (\<lambda>p. no_nul (op_key p)) ps"
  shows "\<exists>m m'. hm_run (avahi_hashmap_new avahi_string_hash avahi_string_equal kf True) ps = Some m \<and>
    mset (freed_values m) + hm_values m = mset (concat (map op_values ps)) \<and>
    avahi_hashmap_free m = Some m' \<and> entries_list m' = [] \<and>
    mset (freed_values m') = mset (concat (map op_values ps))"
proof -
  let ?m = "avahi_hashmap_new avahi_string_hash avahi_string_equal kf True :: (cstr, 'a) hashmap"
  from string_run [OF hm_inv_new assms, of kf True] obtain m where m: "hm_run ?m ps = Some m" "string_key.inv m"
    "value_free_func m" "mset (freed_values m) + hm_values m = mset (concat (map op_values ps))"
    by (auto simp: hm_values_def hm_alist_def) (auto simp: avahi_hashmap_new_def)
  with string_key.free_result [OF m(2)] show ?thesis by auto
qed

theorem hashmap_frees_once_witness:
  "\<exists>m m'. hm_run (avahi_hashmap_new avahi_string_hash avahi_string_equal False True)
      [Op_insert (str ''a'') (1 :: nat), Op_insert (str ''a'') 3, Op_remove (str ''a''), Op_insert (str ''a'') 5] = Some m \<and>
    avahi_hashmap_free m = Some m' \<and> mset (freed_values m') = {#1, 3, 5#}"
  using hashmap_frees_once [of "[Op_insert (str ''a'') (1 :: nat), Op_insert (str ''a'') 3, Op_remove (str ''a''),
      Op_insert (str ''a'') 5]" False] by auto

end
