(* ===== verification/Prioq.thy ===== *)
theory Prioq
  imports Prelude "HOL-Library.Multiset"
begin

text \<open>
  The priority queue (avahi-core/prioq.c), with its pointers. A node is a number; each field of
  \<open>AvahiPrioQueueNode\<close> is a function from nodes, NULL is \<open>None\<close>, and an assignment \<open>n->f = v\<close> is
  an update of the function. \<open>node_alive\<close> says which nodes are allocated. The fields of a node that
  is not are NULL and zero in the model; an operation on such a node is a crash. \<open>compare\<close> is an
  argument of every operation: it reads the objects behind the \<open>data\<close> pointers, which may change
  between calls. The counters are natural numbers: a queue never holds \<open>2^31\<close> nodes, so the
  \<open>unsigned\<close> positions do not wrap.
\<close>

record 'a prioq =
  root :: "nat option"
  last_node :: "nat option"
  n_nodes :: nat
  node_alive :: "nat \<Rightarrow> bool"
  next_node_id :: nat
  node_data :: "nat \<Rightarrow> 'a"
  node_x :: "nat \<Rightarrow> nat"
  node_y :: "nat \<Rightarrow> nat"
  node_left :: "nat \<Rightarrow> nat option"
  node_right :: "nat \<Rightarrow> nat option"
  node_parent :: "nat \<Rightarrow> nat option"
  node_next :: "nat \<Rightarrow> nat option"
  node_prev :: "nat \<Rightarrow> nat option"

subsection \<open>Exchanging two nodes\<close>

text \<open>
  Four idioms of the code: \<open>if ((n->left = c)) n->left->parent = n\<close>, the same on the right, for the
  list of siblings, and the link from the parent down to the node that takes the place of \<open>old\<close>.
\<close>

definition set_left :: "nat \<Rightarrow> nat option \<Rightarrow> 'a prioq \<Rightarrow> 'a prioq" where
  "set_left n c q =
     (let q = q\<lparr>node_left := (node_left q)(n := c)\<rparr> in
      case c of None \<Rightarrow> q | Some m \<Rightarrow> q\<lparr>node_parent := (node_parent q)(m := Some n)\<rparr>)"

definition set_right :: "nat \<Rightarrow> nat option \<Rightarrow> 'a prioq \<Rightarrow> 'a prioq" where
  "set_right n c q =
     (let q = q\<lparr>node_right := (node_right q)(n := c)\<rparr> in
      case c of None \<Rightarrow> q | Some m \<Rightarrow> q\<lparr>node_parent := (node_parent q)(m := Some n)\<rparr>)"

definition set_parent :: "nat \<Rightarrow> nat option \<Rightarrow> bool \<Rightarrow> 'a prioq \<Rightarrow> 'a prioq" where
  "set_parent n p on_left q =
     (let q = q\<lparr>node_parent := (node_parent q)(n := p)\<rparr> in
      case p of
        None \<Rightarrow> q\<lparr>root := Some n\<rparr>
      | Some m \<Rightarrow>
          if on_left then q\<lparr>node_left := (node_left q)(m := Some n)\<rparr>
          else q\<lparr>node_right := (node_right q)(m := Some n)\<rparr>)"

definition set_prev :: "nat \<Rightarrow> nat option \<Rightarrow> 'a prioq \<Rightarrow> 'a prioq" where
  "set_prev n p q =
     (let q = q\<lparr>node_prev := (node_prev q)(n := p)\<rparr> in
      case p of None \<Rightarrow> q | Some m \<Rightarrow> q\<lparr>node_next := (node_next q)(m := Some n)\<rparr>)"

definition set_next :: "nat \<Rightarrow> nat option \<Rightarrow> 'a prioq \<Rightarrow> 'a prioq" where
  "set_next n s q =
     (let q = q\<lparr>node_next := (node_next q)(n := s)\<rparr> in
      case s of
        None \<Rightarrow> q\<lparr>last_node := Some n\<rparr>
      | Some m \<Rightarrow> q\<lparr>node_prev := (node_prev q)(m := Some n)\<rparr>)"

text \<open>Is \<open>old\<close> the left child of \<open>p\<close>?\<close>

definition is_left :: "'a prioq \<Rightarrow> nat option \<Rightarrow> nat \<Rightarrow> bool" where
  "is_left q p old = (case p of None \<Rightarrow> False | Some m \<Rightarrow> node_left q m = Some old)"

definition swap_positions :: "nat \<Rightarrow> nat \<Rightarrow> 'a prioq \<Rightarrow> 'a prioq" where
  "swap_positions a b q =
     q\<lparr>node_x := (node_x q)(a := node_x q b, b := node_x q a),
       node_y := (node_y q)(a := node_y q b, b := node_y q a)\<rparr>"

definition swap_tree :: "nat \<Rightarrow> nat \<Rightarrow> 'a prioq \<Rightarrow> 'a prioq" where
  "swap_tree a b q =
     (if node_parent q a = Some b then
        let p = node_parent q b;
            q = q\<lparr>node_parent := (node_parent q)(b := Some a)\<rparr>;
            q = set_parent a p (is_left q p b) q
        in if node_left q b = Some a then
             let q = set_left b (node_left q a) q;
                 q = q\<lparr>node_left := (node_left q)(a := Some b)\<rparr>;
                 r = node_right q a;
                 q = set_right a (node_right q b) q
             in set_right b r q
           else
             let q = set_right b (node_right q a) q;
                 q = q\<lparr>node_right := (node_right q)(a := Some b)\<rparr>;
                 l = node_left q a;
                 q = set_left a (node_left q b) q
             in set_left b l q
      else if node_parent q b = Some a then
        let p = node_parent q a;
            q = q\<lparr>node_parent := (node_parent q)(a := Some b)\<rparr>;
            q = set_parent b p (is_left q p a) q
        in if node_left q a = Some b then
             let q = set_left a (node_left q b) q;
                 q = q\<lparr>node_left := (node_left q)(b := Some a)\<rparr>;
                 r = node_right q a;
                 q = set_right a (node_right q b) q
             in set_right b r q
           else
             let q = set_right a (node_right q b) q;
                 q = q\<lparr>node_right := (node_right q)(b := Some a)\<rparr>;
                 l = node_left q a;
                 q = set_left a (node_left q b) q
             in set_left b l q
      else
        let ap = node_parent q a; bp = node_parent q b;
            apl = is_left q ap a; bpl = is_left q bp b;
            q = set_parent a bp bpl q;
            q = set_parent b ap apl q;
            l = node_left q a; r = node_right q a;
            q = set_left a (node_left q b) q;
            q = set_left b l q;
            q = set_right a (node_right q b) q
        in set_right b r q)"

definition swap_siblings :: "nat \<Rightarrow> nat \<Rightarrow> 'a prioq \<Rightarrow> 'a prioq" where
  "swap_siblings a b q =
     (let ap = node_prev q a; an = node_next q a; bp = node_prev q b; bn = node_next q b in
      if node_next q a = Some b then
        let q = q\<lparr>node_prev := (node_prev q)(a := Some b)\<rparr>;
            q = q\<lparr>node_next := (node_next q)(b := Some a)\<rparr>;
            q = set_next a bn q
        in set_prev b ap q
      else if node_next q b = Some a then
        let q = q\<lparr>node_next := (node_next q)(a := Some b)\<rparr>;
            q = q\<lparr>node_prev := (node_prev q)(b := Some a)\<rparr>;
            q = set_prev a bp q
        in set_next b an q
      else
        let q = set_prev a bp q;
            q = set_next a bn q;
            q = set_prev b ap q
        in set_next b an q)"

definition exchange_nodes :: "'a prioq \<Rightarrow> nat \<Rightarrow> nat \<Rightarrow> 'a prioq outcome" where
  "exchange_nodes q a b = do {
     assert_that (a \<noteq> b);
     Some (swap_siblings a b (swap_tree a b (swap_positions a b q)))
   }"

subsection \<open>The operations\<close>

definition avahi_prio_queue_new :: "'a \<Rightarrow> 'a prioq" where
  "avahi_prio_queue_new d =
     \<lparr>root = None, last_node = None, n_nodes = 0, node_alive = (\<lambda>_. False), next_node_id = 0,
      node_data = (\<lambda>_. d), node_x = (\<lambda>_. 0), node_y = (\<lambda>_. 0), node_left = (\<lambda>_. None),
      node_right = (\<lambda>_. None), node_parent = (\<lambda>_. None), node_next = (\<lambda>_. None), node_prev = (\<lambda>_. None)\<rparr>"

text \<open>The walk from the root; \<open>k\<close> is the number of bits of \<open>x\<close> still to be read.\<close>

fun node_walk :: "'a prioq \<Rightarrow> nat option \<Rightarrow> nat \<Rightarrow> nat \<Rightarrow> nat outcome" where
  "node_walk q n x 0 = n"
| "node_walk q n x (Suc k) = do {
     m \<leftarrow> n;
     node_walk q (if bit x k then node_right q m else node_left q m) x k
   }"

definition get_node_at_xy :: "'a prioq \<Rightarrow> nat \<Rightarrow> nat \<Rightarrow> nat outcome" where
  "get_node_at_xy q x y = do {
     n \<leftarrow> node_walk q (root q) x y;
     assert_that (node_x q n = x);
     assert_that (node_y q n = y);
     Some n
   }"

text \<open>The two loops of \<open>avahi_prio_queue_shuffle\<close>; \<open>None\<close> also when they do not end.\<close>

partial_function (option) shuffle_up :: "('a \<Rightarrow> 'a \<Rightarrow> int) \<Rightarrow> 'a prioq \<Rightarrow> nat \<Rightarrow> 'a prioq option" where
  "shuffle_up compare q n =
     (case node_parent q n of
        None \<Rightarrow> Some q
      | Some p \<Rightarrow>
          if compare (node_data q p) (node_data q n) > 0
          then Option.bind (exchange_nodes q n p) (\<lambda>q. shuffle_up compare q n)
          else Some q)"

partial_function (option) shuffle_down :: "('a \<Rightarrow> 'a \<Rightarrow> int) \<Rightarrow> 'a prioq \<Rightarrow> nat \<Rightarrow> 'a prioq option" where
  "shuffle_down compare q n =
     (case node_left q n of
        None \<Rightarrow> (if node_right q n = None then Some q else None)
      | Some l \<Rightarrow>
          (let mn = (case node_right q n of
                None \<Rightarrow> l
              | Some r \<Rightarrow> if compare (node_data q r) (node_data q l) < 0 then r else l)
           in if compare (node_data q n) (node_data q mn) \<le> 0 then Some q
              else Option.bind (exchange_nodes q n mn) (\<lambda>q. shuffle_down compare q n)))"

definition avahi_prio_queue_shuffle :: "('a \<Rightarrow> 'a \<Rightarrow> int) \<Rightarrow> 'a prioq \<Rightarrow> nat \<Rightarrow> 'a prioq outcome" where
  "avahi_prio_queue_shuffle compare q n = do {
     assert_that (node_alive q n);
     q \<leftarrow> shuffle_up compare q n;
     shuffle_down compare q n
   }"

text \<open>The position behind the last node: the next in its row, or the first of a new row.\<close>

definition next_xy :: "nat \<Rightarrow> nat \<Rightarrow> nat \<times> nat" where
  "next_xy x y = (let x = x + 1 in if x \<ge> 2 ^ y then (0, y + 1) else (x, y))"

definition avahi_prio_queue_put :: "('a \<Rightarrow> 'a \<Rightarrow> int) \<Rightarrow> 'a prioq \<Rightarrow> 'a \<Rightarrow> ('a prioq \<times> nat) outcome" where
  "avahi_prio_queue_put compare q data = do {
     let n = next_node_id q;
     let q = q\<lparr>next_node_id := n + 1, node_alive := (node_alive q)(n := True), node_data := (node_data q)(n := data)\<rparr>;
     q \<leftarrow> (case last_node q of
         Some lst \<Rightarrow> do {
           assert_that (root q \<noteq> None);
           assert_that (n_nodes q \<noteq> 0);
           let (x, y) = next_xy (node_x q lst) (node_y q lst);
           let q = q\<lparr>node_x := (node_x q)(n := x), node_y := (node_y q)(n := y)\<rparr>;
           let q = q\<lparr>node_next := (node_next q)(lst := Some n), node_prev := (node_prev q)(n := Some lst)\<rparr>;
           assert_that (y > 0);
           p \<leftarrow> get_node_at_xy q (x div 2) (y - 1);
           let q = q\<lparr>node_parent := (node_parent q)(n := Some p)\<rparr>;
           Some (if odd x then q\<lparr>node_right := (node_right q)(p := Some n)\<rparr>
                 else q\<lparr>node_left := (node_left q)(p := Some n)\<rparr>)
         }
       | None \<Rightarrow> do {
           assert_that (root q = None);
           assert_that (n_nodes q = 0);
           let q = q\<lparr>node_x := (node_x q)(n := 0), node_y := (node_y q)(n := 0)\<rparr>;
           Some (q\<lparr>root := Some n, node_prev := (node_prev q)(n := None), node_parent := (node_parent q)(n := None)\<rparr>)
         });
     let q = q\<lparr>node_next := (node_next q)(n := None), node_left := (node_left q)(n := None),
               node_right := (node_right q)(n := None)\<rparr>;
     let q = q\<lparr>last_node := Some n, n_nodes := n_nodes q + 1\<rparr>;
     q \<leftarrow> avahi_prio_queue_shuffle compare q n;
     Some (q, n)
   }"

text \<open>\<open>avahi_free (n)\<close>: the node is no longer allocated, and its fields are reset.\<close>

definition free_node :: "nat \<Rightarrow> 'a prioq \<Rightarrow> 'a prioq" where
  "free_node n q =
     q\<lparr>node_alive := (node_alive q)(n := False), node_x := (node_x q)(n := 0), node_y := (node_y q)(n := 0),
       node_left := (node_left q)(n := None), node_right := (node_right q)(n := None),
       node_parent := (node_parent q)(n := None), node_next := (node_next q)(n := None),
       node_prev := (node_prev q)(n := None)\<rparr>"

text \<open>The removal of the last node, from \<open>assert (n == q->last)\<close> on.\<close>

definition remove_last :: "'a prioq \<Rightarrow> nat \<Rightarrow> 'a prioq outcome" where
  "remove_last q n = do {
     assert_that (last_node q = Some n);
     assert_that (node_next q n = None);
     assert_that (node_left q n = None);
     assert_that (node_right q n = None);
     let q = q\<lparr>last_node := node_prev q n\<rparr>;
     q \<leftarrow> (case node_prev q n of
         Some p \<Rightarrow> do {
           assert_that (node_parent q n \<noteq> None);
           Some (q\<lparr>node_next := (node_next q)(p := None)\<rparr>)
         }
       | None \<Rightarrow> do { assert_that (node_parent q n = None); Some q });
     q \<leftarrow> (case node_parent q n of
         Some p \<Rightarrow> do {
           assert_that (node_prev q n \<noteq> None);
           if node_left q p = Some n then do {
             assert_that (node_right q p = None);
             Some (q\<lparr>node_left := (node_left q)(p := None)\<rparr>)
           } else do {
             assert_that (node_right q p = Some n);
             assert_that (node_left q p \<noteq> None);
             Some (q\<lparr>node_right := (node_right q)(p := None)\<rparr>)
           }
         }
       | None \<Rightarrow> do {
           assert_that (root q = Some n);
           assert_that (node_prev q n = None);
           assert_that (n_nodes q = 1);
           Some (q\<lparr>root := None\<rparr>)
         });
     let q = free_node n q;
     assert_that (n_nodes q > 0);
     Some (q\<lparr>n_nodes := n_nodes q - 1\<rparr>)
   }"

text \<open>
  \<open>avahi_prio_queue_remove\<close>: the recursive call finds \<open>n\<close> in the last place, since that is where
  \<open>exchange_nodes\<close> puts it, so it is a call of the part above.
\<close>

definition avahi_prio_queue_remove :: "('a \<Rightarrow> 'a \<Rightarrow> int) \<Rightarrow> 'a prioq \<Rightarrow> nat \<Rightarrow> 'a prioq outcome" where
  "avahi_prio_queue_remove compare q n = do {
     assert_that (node_alive q n);
     if last_node q \<noteq> Some n then do {
       replacement \<leftarrow> last_node q;
       q \<leftarrow> exchange_nodes q replacement n;
       q \<leftarrow> remove_last q n;
       avahi_prio_queue_shuffle compare q replacement
     } else remove_last q n
   }"

partial_function (option) avahi_prio_queue_free :: "('a \<Rightarrow> 'a \<Rightarrow> int) \<Rightarrow> 'a prioq \<Rightarrow> 'a prioq option" where
  "avahi_prio_queue_free compare q =
     (case last_node q of
        Some n \<Rightarrow> Option.bind (avahi_prio_queue_remove compare q n) (avahi_prio_queue_free compare)
      | None \<Rightarrow> if n_nodes q = 0 then Some q else None)"

subsection \<open>Exchanging two nodes renames them\<close>

definition swp :: "nat \<Rightarrow> nat \<Rightarrow> nat \<Rightarrow> nat" where
  "swp a b c = (if c = a then b else if c = b then a else c)"

lemma swp_simps [simp]: "swp a b a = b" "swp a b b = a" "c \<noteq> a \<Longrightarrow> c \<noteq> b \<Longrightarrow> swp a b c = c"
  "swp a b (swp a b c) = c"
  by (simp_all add: swp_def)

lemma swp_eq_iff: "swp a b c = d \<longleftrightarrow> c = swp a b d"
  by (auto simp: swp_def)

text \<open>The links of the tree and of the list are consistent.\<close>

definition tree_links :: "'a prioq \<Rightarrow> bool" where
  "tree_links q \<longleftrightarrow>
     (\<forall>c d. node_left q c = Some d \<longrightarrow> node_parent q d = Some c \<and> node_right q c \<noteq> Some d) \<and>
     (\<forall>c d. node_right q c = Some d \<longrightarrow> node_parent q d = Some c) \<and>
     (\<forall>c d. node_parent q d = Some c \<longrightarrow> node_left q c = Some d \<or> node_right q c = Some d) \<and>
     (\<forall>c d. node_parent q d = Some c \<longrightarrow> c \<noteq> d \<and> node_parent q c \<noteq> Some d) \<and>
     (\<forall>c. node_alive q c \<longrightarrow> (node_parent q c = None \<longleftrightarrow> root q = Some c))"

definition list_links :: "'a prioq \<Rightarrow> bool" where
  "list_links q \<longleftrightarrow>
     (\<forall>c d. node_next q c = Some d \<longleftrightarrow> node_prev q d = Some c) \<and>
     (\<forall>c d. node_next q c = Some d \<longrightarrow> c \<noteq> d \<and> node_next q d \<noteq> Some c) \<and>
     (\<forall>c. node_alive q c \<longrightarrow> (node_next q c = None \<longleftrightarrow> last_node q = Some c))"

lemma tree_linksD:
  assumes "tree_links q"
  shows "node_left q c = Some d \<Longrightarrow> node_parent q d = Some c" "node_left q c = Some d \<Longrightarrow> node_right q c \<noteq> Some d"
    "node_right q c = Some d \<Longrightarrow> node_parent q d = Some c"
    "node_parent q d = Some c \<Longrightarrow> node_left q c = Some d \<or> node_right q c = Some d"
    "node_parent q d = Some c \<Longrightarrow> c \<noteq> d" "node_parent q d = Some c \<Longrightarrow> node_parent q c \<noteq> Some d"
    "node_alive q c \<Longrightarrow> node_parent q c = None \<longleftrightarrow> root q = Some c"
  using assms unfolding tree_links_def by blast+

text \<open>The idioms, field by field.\<close>

lemma set_link_simps [simp]:
  "root (set_left n c q) = root q" "last_node (set_left n c q) = last_node q"
  "node_left (set_left n c q) = (node_left q)(n := c)" "node_right (set_left n c q) = node_right q"
  "node_parent (set_left n c q) d = (if c = Some d then Some n else node_parent q d)"
  "root (set_right n c q) = root q" "last_node (set_right n c q) = last_node q"
  "node_right (set_right n c q) = (node_right q)(n := c)" "node_left (set_right n c q) = node_left q"
  "node_parent (set_right n c q) d = (if c = Some d then Some n else node_parent q d)"
  "root (set_parent n p l q) = (if p = None then Some n else root q)" "last_node (set_parent n p l q) = last_node q"
  "node_parent (set_parent n p l q) = (node_parent q)(n := p)"
  "node_left (set_parent n p l q) d = (if p = Some d \<and> l then Some n else node_left q d)"
  "node_right (set_parent n p l q) d = (if p = Some d \<and> \<not> l then Some n else node_right q d)"
  by (auto simp: set_left_def set_right_def set_parent_def Let_def split: option.split)

text \<open>A field of the renamed queue.\<close>

definition renamed :: "nat \<Rightarrow> nat \<Rightarrow> (nat \<Rightarrow> nat option) \<Rightarrow> nat \<Rightarrow> nat option" where
  "renamed a b f c = map_option (swp a b) (f (swp a b c))"

lemma renamed_simps:
  "renamed a b f a = map_option (swp a b) (f b)" "renamed a b f b = map_option (swp a b) (f a)"
  "c \<noteq> a \<Longrightarrow> c \<noteq> b \<Longrightarrow> renamed a b f c = map_option (swp a b) (f c)"
  by (simp_all add: renamed_def)

lemma map_swp:
  "x \<noteq> Some a \<Longrightarrow> x \<noteq> Some b \<Longrightarrow> map_option (swp a b) x = x"
  "x \<noteq> Some a \<Longrightarrow> map_option (swp a b) x = (if x = Some b then Some a else x)"
  "x \<noteq> Some b \<Longrightarrow> map_option (swp a b) x = (if x = Some a then Some b else x)"
  "map_option (swp a b) x = (if x = Some a then Some b else if x = Some b then Some a else x)"
  by (cases x; auto simp: swp_def)+

lemma parent_link:
  assumes "tree_links q"
  shows "node_parent q b = Some c \<and> is_left q (node_parent q b) b \<longleftrightarrow> node_left q c = Some b"
    "node_parent q b = Some c \<and> \<not> is_left q (node_parent q b) b \<longleftrightarrow> node_right q c = Some b"
    "node_parent q b = Some c \<longleftrightarrow> node_left q c = Some b \<or> node_right q c = Some b"
  using tree_linksD(1-3) [OF assms, of c b] tree_linksD(4) [OF assms, of b c]
  by (cases "node_parent q b"; auto simp: is_left_def)+

text \<open>Nodes that are not parent and child.\<close>

lemma swap_tree_far:
  assumes t: "tree_links q" and ab: "a \<noteq> b" "node_parent q a \<noteq> Some b" "node_parent q b \<noteq> Some a"
    and al: "node_alive q a" "node_alive q b"
  shows "node_left (swap_tree a b q) c = renamed a b (node_left q) c"
    "node_right (swap_tree a b q) c = renamed a b (node_right q) c"
    "node_parent (swap_tree a b q) c = renamed a b (node_parent q) c"
    "root (swap_tree a b q) = map_option (swp a b) (root q)"
proof -
  note d = tree_linksD [OF t] and pl = parent_link [OF t]
  have n: "node_left q a \<noteq> Some b" "node_right q a \<noteq> Some b" "node_left q b \<noteq> Some a" "node_right q b \<noteq> Some a"
    "node_left q a \<noteq> Some a" "node_right q a \<noteq> Some a" "node_left q b \<noteq> Some b" "node_right q b \<noteq> Some b"
    using ab d(1,3,5) by blast+
  have np: "node_parent q a \<noteq> Some a" "node_parent q b \<noteq> Some b" using d(5) by blast+
  define q2 where "q2 = set_parent b (node_parent q a) (is_left q (node_parent q a) a)
      (set_parent a (node_parent q b) (is_left q (node_parent q b) b) q)"
  have l2: "node_left q2 c = (if node_left q c = Some a then Some b else if node_left q c = Some b then Some a else node_left q c)"
    and r2: "node_right q2 c = (if node_right q c = Some a then Some b else if node_right q c = Some b then Some a else node_right q c)" for c
    unfolding q2_def set_link_simps pl(1,2) by simp_all
  have l2': "node_left q2 a = node_left q a" "node_left q2 b = node_left q b"
    "node_right q2 a = node_right q a" "node_right q2 b = node_right q b"
    using n by (simp_all add: l2 r2)
  have p2: "node_parent q2 = (node_parent q)(a := node_parent q b, b := node_parent q a)" by (simp add: q2_def)
  have s: "swap_tree a b q = set_right b (node_right q a) (set_right a (node_right q b)
      (set_left b (node_left q a) (set_left a (node_left q b) q2)))"
    using ab np by (simp add: swap_tree_def Let_def q2_def)
  show "node_left (swap_tree a b q) c = renamed a b (node_left q) c"
    "node_right (swap_tree a b q) c = renamed a b (node_right q) c"
    using n ab(1) unfolding s by (cases "c = a"; cases "c = b"; simp add: renamed_simps map_swp l2 r2)+
  show "node_parent (swap_tree a b q) c = renamed a b (node_parent q) c"
    using n ab np pl(3) [of c a] pl(3) [of c b] unfolding s
    by (cases "c = a"; cases "c = b"; simp add: renamed_simps map_swp(1) p2) (auto simp: map_swp(4) d(1,3))
  show "root (swap_tree a b q) = map_option (swp a b) (root q)"
    using ab(1) d(7) [OF al(1)] d(7) [OF al(2)] unfolding s by (auto simp: q2_def map_swp(4))
qed

text \<open>A node and its parent: both branches of the code.\<close>

lemma swap_tree_near:
  assumes t: "tree_links q" and pa: "node_parent q u = Some v" and ab: "{a, b} = {u, v}"
    and al: "node_alive q u" "node_alive q v"
  shows "node_left (swap_tree a b q) c = renamed a b (node_left q) c"
    "node_right (swap_tree a b q) c = renamed a b (node_right q) c"
    "node_parent (swap_tree a b q) c = renamed a b (node_parent q) c"
    "root (swap_tree a b q) = map_option (swp a b) (root q)"
proof -
  note d = tree_linksD [OF t] and pl = parent_link [OF t]
  have uv: "u \<noteq> v" "node_parent q v \<noteq> Some u" "node_parent q u \<noteq> Some u" "node_parent q v \<noteq> Some v"
    using pa d(5,6) by blast+
  then have n: "node_left q u \<noteq> Some v" "node_right q u \<noteq> Some v" "node_left q u \<noteq> Some u" "node_right q u \<noteq> Some u"
    "node_left q v \<noteq> Some v" "node_right q v \<noteq> Some v"
    using d(1,3) by blast+
  have k: "node_left q v = Some u \<and> node_right q v \<noteq> Some u \<or> node_right q v = Some u \<and> node_left q v \<noteq> Some u"
    using d(2) d(4) [OF pa] by blast
  have ku: "node_left q c = Some u \<or> node_right q c = Some u \<longleftrightarrow> c = v" for c using pa pl(3) [of u c] by auto
  define q1 where "q1 = q\<lparr>node_parent := (node_parent q)(v := Some u)\<rparr>"
  define q2 where "q2 = set_parent u (node_parent q v) (is_left q1 (node_parent q v) v) q1"
  have il: "is_left q1 p x = is_left q p x" for p x by (simp add: is_left_def q1_def split: option.split)
  have l2: "node_left q2 c = (if node_left q c = Some v then Some u else node_left q c)"
    and r2: "node_right q2 c = (if node_right q c = Some v then Some u else node_right q c)" for c
    unfolding q2_def set_link_simps il pl(1,2) by (simp_all add: q1_def)
  have p2: "node_parent q2 = (node_parent q)(v := Some u, u := node_parent q v)" by (simp add: q2_def q1_def)
  have ro: "root q2 = (if node_parent q v = None then Some u else root q)" by (simp add: q2_def q1_def)
  define s where "s = (if node_left q v = Some u
     then set_right v (node_right q u) (set_right u (node_right q v)
       ((set_left v (node_left q u) q2)\<lparr>node_left := (node_left (set_left v (node_left q u) q2))(u := Some v)\<rparr>))
     else set_left v (node_left q u) (set_left u (node_left q v)
       ((set_right v (node_right q u) q2)\<lparr>node_right := (node_right (set_right v (node_right q u) q2))(u := Some v)\<rparr>)))"
  have dj: "node_left q v \<noteq> Some c \<and> node_right q v \<noteq> Some c" if "node_left q u = Some c \<or> node_right q u = Some c" for c
    using that d(1) [of u c] d(3) [of u c] d(1) [of v c] d(3) [of v c] uv(1) by auto
  define q3 where "q3 = (set_left v (node_left q2 u) q2)\<lparr>node_left := (node_left (set_left v (node_left q2 u) q2))(u := Some v)\<rparr>"
  define q4 where "q4 = (set_right v (node_right q2 u) q2)\<lparr>node_right := (node_right (set_right v (node_right q2 u) q2))(u := Some v)\<rparr>"
  have f: "node_right q3 u = node_right q u" "node_right q3 v = node_right q v" "node_left q2 u = node_left q u"
    "node_right q2 u = node_right q u" "node_left q4 u = node_left q u" "node_left q4 v = node_left q v"
    "node_left q2 v = node_left q v"
    using n by (simp_all add: q3_def q4_def l2 r2)
  have "swap_tree u v q = (if node_left q2 v = Some u then set_right v (node_right q3 u) (set_right u (node_right q3 v) q3)
      else set_left v (node_left q4 u) (set_left u (node_left q4 v) q4))"
    unfolding q4_def q3_def q2_def q1_def by (simp only: swap_tree_def Let_def pa simp_thms if_True)
  then have s1: "swap_tree u v q = s"
    using n by (simp add: f s_def) (simp add: q3_def q4_def f)
  have "swap_tree v u q = (if node_left q2 v = Some u then set_right u (node_right q3 v) (set_right v (node_right q3 u) q3)
      else set_left u (node_left q4 v) (set_left v (node_left q4 u) q4))"
    unfolding q4_def q3_def q2_def q1_def using uv(2)
    by (simp only: swap_tree_def Let_def pa simp_thms if_True if_False)
  then have e2: "swap_tree v u q = (if node_left q v = Some u then set_right u (node_right q v) (set_right v (node_right q u) q3)
      else set_left u (node_left q v) (set_left v (node_left q u) q4))"
    unfolding f .
  have e1: "s = (if node_left q v = Some u then set_right v (node_right q u) (set_right u (node_right q v) q3)
      else set_left v (node_left q u) (set_left u (node_left q v) q4))"
    by (simp add: s_def q3_def q4_def f)
  have s2: "node_left (swap_tree v u q) = node_left s" "node_right (swap_tree v u q) = node_right s"
    "node_parent (swap_tree v u q) c = node_parent s c" "root (swap_tree v u q) = root s" for c
    unfolding e1 e2 using uv(1) dj [of c] by (auto simp: fun_upd_twist)
  have s: "node_left (swap_tree a b q) = node_left s" "node_right (swap_tree a b q) = node_right s"
    "node_parent (swap_tree a b q) c = node_parent s c" "root (swap_tree a b q) = root s" for c
    using s1 s2 ab unfolding doubleton_eq_iff by auto
  show "root (swap_tree a b q) = map_option (swp a b) (root q)"
    using uv pa d(7) [OF al(1)] d(7) [OF al(2)] ab unfolding s doubleton_eq_iff by (auto simp: s_def ro map_swp(4))
  have re: "renamed a b f = renamed u v f" for f
  proof -
    have "swp a b = swp u v" using ab by (auto simp: doubleton_eq_iff fun_eq_iff swp_def)
    then show ?thesis by (simp add: renamed_def [abs_def])
  qed
  have sl: "node_left s c = (if c = v then node_left q u
      else if c = u then (if node_left q v = Some u then Some v else node_left q v)
      else if node_left q c = Some v then Some u else node_left q c)" for c
    using n uv by (auto simp: s_def l2 r2)
  have sr: "node_right s c = (if c = v then node_right q u
      else if c = u then (if node_right q v = Some u then Some v else node_right q v)
      else if node_right q c = Some v then Some u else node_right q c)" for c
    using n uv k by (auto simp: s_def l2 r2)
  show "node_left (swap_tree a b q) c = renamed a b (node_left q) c"
    "node_right (swap_tree a b q) c = renamed a b (node_right q) c"
    unfolding s re sl sr using n ku [of c] by (auto simp: renamed_def swp_def map_swp(4))
  have sp: "node_parent s c = (if node_left q u = Some c \<or> node_right q u = Some c then Some v
      else if c = u then node_parent q v
      else if c = v \<or> node_left q v = Some c \<or> node_right q v = Some c then Some u
      else node_parent q c)" for c
    using n uv k dj [of c] by (auto simp: s_def p2)
  show "node_parent (swap_tree a b q) c = renamed a b (node_parent q) c"
    unfolding s re sp using n uv pa pl(3) [of c u] pl(3) [of c v]
    by (auto simp: renamed_def swp_def map_swp(4))
qed

lemma set_sibling_simps [simp]:
  "node_prev (set_prev n p q) = (node_prev q)(n := p)" "last_node (set_prev n p q) = last_node q"
  "node_next (set_prev n p q) d = (if p = Some d then Some n else node_next q d)"
  "node_next (set_next n s q) = (node_next q)(n := s)" "last_node (set_next n s q) = (if s = None then Some n else last_node q)"
  "node_prev (set_next n s q) d = (if s = Some d then Some n else node_prev q d)"
  by (auto simp: set_prev_def set_next_def Let_def split: option.split)

lemma swap_siblings_renamed:
  assumes t: "list_links q" and ab: "a \<noteq> b" and al: "node_alive q a" "node_alive q b"
  shows "node_next (swap_siblings a b q) c = renamed a b (node_next q) c"
    "node_prev (swap_siblings a b q) c = renamed a b (node_prev q) c"
    "last_node (swap_siblings a b q) = map_option (swp a b) (last_node q)"
proof -
  have d: "node_next q c = Some d \<longleftrightarrow> node_prev q d = Some c" "node_next q c = Some d \<Longrightarrow> node_next q d \<noteq> Some c"
    "node_next q c \<noteq> Some c" "node_alive q c \<Longrightarrow> node_next q c = None \<longleftrightarrow> last_node q = Some c" for c d
    using t unfolding list_links_def by blast+
  have pn: "node_prev q a = Some c \<longleftrightarrow> node_next q c = Some a" "node_prev q b = Some c \<longleftrightarrow> node_next q c = Some b" for c
    using d(1) by simp_all
  have np: "node_next q a = Some c \<longleftrightarrow> node_prev q c = Some a" "node_next q b = Some c \<longleftrightarrow> node_prev q c = Some b" for c
    using d(1) by simp_all
  have n: "node_next q a \<noteq> Some a" "node_next q b \<noteq> Some b" "node_prev q a \<noteq> Some a" "node_prev q b \<noteq> Some b"
    using d(1,3) by blast+
  have inj: "node_next q c = Some d \<Longrightarrow> node_next q c' = Some d \<Longrightarrow> c = c'"
    "node_prev q c = Some d \<Longrightarrow> node_prev q c' = Some d \<Longrightarrow> c = c'" for c c' d
    using d(1) by (metis option.inject)+
  note l = d(4) [OF al(1)] d(4) [OF al(2)]
  have ex: "\<not> (node_next q a = Some b \<and> node_next q b = Some a)" using d(2) by blast
  define far near1 near2 where
    "far = set_next b (node_next q a) (set_prev b (node_prev q a) (set_next a (node_next q b) (set_prev a (node_prev q b) q)))"
    "near1 = set_prev b (node_prev q a) (set_next a (node_next q b)
       (q\<lparr>node_prev := (node_prev q)(a := Some b), node_next := (node_next q)(b := Some a)\<rparr>))"
    "near2 = set_next b (node_next q a) (set_prev a (node_prev q b)
       (q\<lparr>node_next := (node_next q)(a := Some b), node_prev := (node_prev q)(b := Some a)\<rparr>))"
  have s: "swap_siblings a b q = (if node_next q a = Some b then near1 else if node_next q b = Some a then near2 else far)"
    unfolding far_near1_near2_def by (simp add: swap_siblings_def Let_def)
  show "node_next (swap_siblings a b q) c = renamed a b (node_next q) c"
    unfolding s far_near1_near2_def using n ab ex pn inj(1) [of c a b] inj(1) [of c b a]
    by (auto simp: renamed_def swp_def map_swp(4))
  show "node_prev (swap_siblings a b q) c = renamed a b (node_prev q) c"
    unfolding s far_near1_near2_def using n ab ex np inj(2) [of c a b] inj(2) [of c b a]
    by (auto simp: renamed_def swp_def map_swp(4))
  show "last_node (swap_siblings a b q) = map_option (swp a b) (last_node q)"
    unfolding s far_near1_near2_def using l ab ex by (auto simp: map_swp(4))
qed

subsection \<open>The queue as an array\<close>

text \<open>
  \<open>pq_rep q ids\<close>: the nodes of the tree, read row by row, are \<open>ids\<close>. The node at index \<open>i\<close> is at the
  position \<open>(x, y)\<close> with \<open>i + 1 = 2^y + x\<close>, its children are at \<open>2i + 1\<close> and \<open>2i + 2\<close>, its siblings at
  \<open>i - 1\<close> and \<open>i + 1\<close>.
\<close>

definition nth_opt :: "'b list \<Rightarrow> nat \<Rightarrow> 'b option" where
  "nth_opt xs i = (if i < length xs then Some (xs ! i) else None)"

definition pred_opt :: "'b list \<Rightarrow> nat \<Rightarrow> (nat \<Rightarrow> nat) \<Rightarrow> 'b option" where
  "pred_opt xs i f = (if i = 0 then None else Some (xs ! f i))"

definition above :: "nat \<Rightarrow> nat" where
  "above i = (i - 1) div 2"

definition node_at :: "'a prioq \<Rightarrow> nat list \<Rightarrow> nat \<Rightarrow> nat \<Rightarrow> bool" where
  "node_at q ids i n \<longleftrightarrow>
     n < next_node_id q \<and> node_x q n < 2 ^ node_y q n \<and> i + 1 = 2 ^ node_y q n + node_x q n \<and>
     node_left q n = nth_opt ids (2 * i + 1) \<and> node_right q n = nth_opt ids (2 * i + 2) \<and>
     node_parent q n = pred_opt ids i above \<and>
     node_next q n = nth_opt ids (i + 1) \<and> node_prev q n = pred_opt ids i (\<lambda>i. i - 1)"

lemma node_atD:
  assumes "node_at q ids i n"
  shows "n < next_node_id q" "node_x q n < 2 ^ node_y q n \<and> i + 1 = 2 ^ node_y q n + node_x q n"
    "node_left q n = nth_opt ids (2 * i + 1)" "node_right q n = nth_opt ids (2 * i + 2)"
    "node_parent q n = pred_opt ids i above" "node_next q n = nth_opt ids (i + 1)"
    "node_prev q n = pred_opt ids i (\<lambda>i. i - 1)"
  using assms unfolding node_at_def by blast+

definition pq_rep :: "'a prioq \<Rightarrow> nat list \<Rightarrow> bool" where
  "pq_rep q ids \<longleftrightarrow>
     distinct ids \<and> n_nodes q = length ids \<and> (\<forall>n. node_alive q n \<longleftrightarrow> n \<in> set ids) \<and>
     root q = nth_opt ids 0 \<and> last_node q = (if ids = [] then None else Some (last ids)) \<and>
     (\<forall>i < length ids. node_at q ids i (ids ! i)) \<and>
     (\<forall>n. n \<notin> set ids \<longrightarrow> node_left q n = None \<and> node_right q n = None \<and> node_parent q n = None \<and>
        node_next q n = None \<and> node_prev q n = None)"

lemma pq_repD:
  assumes "pq_rep q ids"
  shows "distinct ids" "n_nodes q = length ids" "node_alive q n \<longleftrightarrow> n \<in> set ids" "root q = nth_opt ids 0"
    "last_node q = (if ids = [] then None else Some (last ids))" "i < length ids \<Longrightarrow> node_at q ids i (ids ! i)"
    "n \<notin> set ids \<Longrightarrow> node_left q n = None \<and> node_right q n = None \<and> node_parent q n = None \<and>
       node_next q n = None \<and> node_prev q n = None"
  using assms unfolding pq_rep_def by blast+

lemma above_eq: "0 < i \<Longrightarrow> above i = k \<longleftrightarrow> i = 2 * k + 1 \<or> i = 2 * k + 2"
  unfolding above_def by presburger

lemma above_less: "0 < i \<Longrightarrow> above i < i"
  by (simp add: above_def)

lemma above_child [simp]: "above (2 * k + 1) = k" "above (2 * k + 2) = k" "above (Suc (2 * k)) = k" "above (Suc (Suc (2 * k))) = k"
  by (simp_all add: above_def)

text \<open>Each link, read through the array.\<close>

lemma pq_rep_links:
  assumes r: "pq_rep q ids"
  shows "node_left q c = Some d \<longleftrightarrow> (\<exists>i. 2 * i + 1 < length ids \<and> c = ids ! i \<and> d = ids ! (2 * i + 1))"
    "node_right q c = Some d \<longleftrightarrow> (\<exists>i. 2 * i + 2 < length ids \<and> c = ids ! i \<and> d = ids ! (2 * i + 2))"
    "node_parent q d = Some c \<longleftrightarrow> (\<exists>i. 0 < i \<and> i < length ids \<and> d = ids ! i \<and> c = ids ! above i)"
    "node_next q c = Some d \<longleftrightarrow> (\<exists>i. i + 1 < length ids \<and> c = ids ! i \<and> d = ids ! (i + 1))"
    "node_prev q d = Some c \<longleftrightarrow> (\<exists>i. i + 1 < length ids \<and> c = ids ! i \<and> d = ids ! (i + 1))"
proof -
  note d = pq_repD [OF r]
  have at: "\<exists>i. c = ids ! i \<and> i < length ids \<and> node_at q ids i c" if "c \<in> set ids" for c
    using that d(6) by (metis in_set_conv_nth)
  have inj: "ids ! i = ids ! j \<longleftrightarrow> i = j" if "i < length ids" "j < length ids" for i j
    using that d(1) by (simp add: nth_eq_iff_index_eq)
  have mem: "c \<in> set ids" if "node_left q c = Some d \<or> node_right q c = Some d \<or> node_parent q c = Some d \<or>
     node_next q c = Some d \<or> node_prev q c = Some d" for c d
    using that d(7) [of c] by fastforce
  have na: "node_at q ids i (ids ! i)" if "i < length ids" for i using d(6) that .
  have nl: "2 * i + 1 < length ids \<Longrightarrow> node_left q (ids ! i) = Some (ids ! (2 * i + 1))"
    "2 * i + 2 < length ids \<Longrightarrow> node_right q (ids ! i) = Some (ids ! (2 * i + 2))"
    "0 < i \<Longrightarrow> i < length ids \<Longrightarrow> node_parent q (ids ! i) = Some (ids ! above i)"
    "i + 1 < length ids \<Longrightarrow> node_next q (ids ! i) = Some (ids ! (i + 1))"
    "i + 1 < length ids \<Longrightarrow> node_prev q (ids ! (i + 1)) = Some (ids ! i)" for i
    using node_atD(3-7) [OF na [of i]] node_atD(7) [OF na [of "i + 1"]] by (simp_all add: nth_opt_def pred_opt_def)
  show "node_left q c = Some d \<longleftrightarrow> (\<exists>i. 2 * i + 1 < length ids \<and> c = ids ! i \<and> d = ids ! (2 * i + 1))"
  proof
    assume l: "node_left q c = Some d"
    then obtain i where "c = ids ! i" "node_at q ids i c" using mem at by meson
    with l show "\<exists>i. 2 * i + 1 < length ids \<and> c = ids ! i \<and> d = ids ! (2 * i + 1)"
      by (intro exI [of _ i]) (simp add: node_at_def nth_opt_def split: if_splits)
  qed (use nl in \<open>auto\<close>)
  show "node_right q c = Some d \<longleftrightarrow> (\<exists>i. 2 * i + 2 < length ids \<and> c = ids ! i \<and> d = ids ! (2 * i + 2))"
  proof
    assume l: "node_right q c = Some d"
    then obtain i where "c = ids ! i" "node_at q ids i c" using mem at by meson
    with l show "\<exists>i. 2 * i + 2 < length ids \<and> c = ids ! i \<and> d = ids ! (2 * i + 2)"
      by (intro exI [of _ i]) (simp add: node_at_def nth_opt_def split: if_splits)
  qed (use nl in \<open>auto\<close>)
  show "node_parent q d = Some c \<longleftrightarrow> (\<exists>i. 0 < i \<and> i < length ids \<and> d = ids ! i \<and> c = ids ! above i)"
  proof
    assume l: "node_parent q d = Some c"
    then obtain i where "d = ids ! i" "i < length ids" "node_at q ids i d" using mem at by meson
    with l show "\<exists>i. 0 < i \<and> i < length ids \<and> d = ids ! i \<and> c = ids ! above i"
      by (auto simp: node_at_def pred_opt_def split: if_splits)
  qed (use nl in \<open>auto\<close>)
  show "node_next q c = Some d \<longleftrightarrow> (\<exists>i. i + 1 < length ids \<and> c = ids ! i \<and> d = ids ! (i + 1))"
  proof
    assume l: "node_next q c = Some d"
    then obtain i where "c = ids ! i" "node_at q ids i c" using mem at by meson
    with l show "\<exists>i. i + 1 < length ids \<and> c = ids ! i \<and> d = ids ! (i + 1)"
      by (intro exI [of _ i]) (simp add: node_at_def nth_opt_def split: if_splits)
  qed (use nl in \<open>auto\<close>)
  show "node_prev q d = Some c \<longleftrightarrow> (\<exists>i. i + 1 < length ids \<and> c = ids ! i \<and> d = ids ! (i + 1))"
  proof
    assume l: "node_prev q d = Some c"
    then obtain i where i: "d = ids ! i" "i < length ids" "node_at q ids i d" using mem at by meson
    with l have "0 < i" "c = ids ! (i - 1)" by (auto simp: node_at_def pred_opt_def split: if_splits)
    with i show "\<exists>i. i + 1 < length ids \<and> c = ids ! i \<and> d = ids ! (i + 1)" by (intro exI [of _ "i - 1"]) simp
  qed (use nl in \<open>auto\<close>)
qed

lemma pq_rep_tree_links:
  assumes r: "pq_rep q ids"
  shows "tree_links q"
proof -
  note d = pq_repD [OF r] and l = pq_rep_links [OF r]
  have inj: "ids ! i = ids ! j \<longleftrightarrow> i = j" if "i < length ids" "j < length ids" for i j
    using that d(1) by (simp add: nth_eq_iff_index_eq)
  have "node_parent q d = Some c \<and> node_right q c \<noteq> Some d" if "node_left q c = Some d" for c d
  proof -
    from that l(1) obtain i where i: "2 * i + 1 < length ids" "c = ids ! i" "d = ids ! (2 * i + 1)" by blast
    then have "node_parent q d = Some c" unfolding l(3) by (intro exI [of _ "2 * i + 1"]) simp
    moreover have "node_right q c \<noteq> Some d" unfolding l(2) using i by (auto simp: inj) presburger
    ultimately show ?thesis ..
  qed
  moreover have "node_parent q d = Some c" if "node_right q c = Some d" for c d
  proof -
    from that l(2) obtain i where "2 * i + 2 < length ids" "c = ids ! i" "d = ids ! (2 * i + 2)" by blast
    then show ?thesis unfolding l(3) by (intro exI [of _ "2 * i + 2"]) simp
  qed
  moreover have "node_left q c = Some d \<or> node_right q c = Some d" "c \<noteq> d" "node_parent q c \<noteq> Some d"
    if "node_parent q d = Some c" for c d
  proof -
    from that l(3) obtain i where i: "0 < i" "i < length ids" "d = ids ! i" "c = ids ! above i" by blast
    have "i = 2 * above i + 1 \<or> i = 2 * above i + 2" using above_eq [OF i(1)] by blast
    then show "node_left q c = Some d \<or> node_right q c = Some d" unfolding l(1,2) using i by metis
    have a: "above i < i" using above_less [OF i(1)] .
    with i show "c \<noteq> d" by (simp add: inj)
    show "node_parent q c \<noteq> Some d"
    proof
      assume "node_parent q c = Some d"
      then obtain j where j: "0 < j" "j < length ids" "c = ids ! j" "d = ids ! above j" unfolding l(3) by blast
      with i a have "j = above i" by (simp add: inj)
      moreover have "above j < j" using above_less [OF j(1)] .
      ultimately show False using i j a by (simp add: inj)
    qed
  qed
  moreover have "node_parent q c = None \<longleftrightarrow> root q = Some c" if "node_alive q c" for c
  proof -
    from that d(3) obtain i where i: "i < length ids" "c = ids ! i" by (metis in_set_conv_nth)
    with d(6) [of i] have "node_parent q c = None \<longleftrightarrow> i = 0" by (simp add: node_at_def pred_opt_def)
    moreover have "root q = Some c \<longleftrightarrow> i = 0" using i d(4) inj [of 0 i] by (auto simp: nth_opt_def)
    ultimately show ?thesis by simp
  qed
  ultimately show ?thesis unfolding tree_links_def by blast
qed

lemma pq_rep_list_links:
  assumes r: "pq_rep q ids"
  shows "list_links q"
proof -
  note d = pq_repD [OF r] and l = pq_rep_links [OF r]
  have inj: "ids ! i = ids ! j \<longleftrightarrow> i = j" if "i < length ids" "j < length ids" for i j
    using that d(1) by (simp add: nth_eq_iff_index_eq)
  have "c \<noteq> d \<and> node_next q d \<noteq> Some c" if "node_next q c = Some d" for c d
  proof -
    from that l(4) obtain i where "i + 1 < length ids" "c = ids ! i" "d = ids ! (i + 1)" by blast
    then show ?thesis unfolding l(4) by (auto simp: inj)
  qed
  moreover have "node_next q c = None \<longleftrightarrow> last_node q = Some c" if "node_alive q c" for c
  proof -
    from that d(3) obtain i where i: "i < length ids" "c = ids ! i" by (metis in_set_conv_nth)
    with d(6) [of i] have "node_next q c = None \<longleftrightarrow> i + 1 = length ids" by (auto simp: node_at_def nth_opt_def)
    moreover have "last_node q = Some c \<longleftrightarrow> length ids - 1 = i"
      using i d(5) inj [of "length ids - 1" i] by (auto simp: last_conv_nth)
    ultimately show ?thesis using i by auto
  qed
  ultimately show ?thesis unfolding list_links_def l(4,5) by blast
qed

subsection \<open>Exchanging nodes exchanges two entries of the array\<close>

lemma swap_tree_renamed:
  assumes t: "tree_links q" and ab: "a \<noteq> b" and al: "node_alive q a" "node_alive q b"
  shows "node_left (swap_tree a b q) c = renamed a b (node_left q) c"
    "node_right (swap_tree a b q) c = renamed a b (node_right q) c"
    "node_parent (swap_tree a b q) c = renamed a b (node_parent q) c"
    "root (swap_tree a b q) = map_option (swp a b) (root q)"
proof -
  consider "node_parent q a = Some b" | "node_parent q b = Some a" | "node_parent q a \<noteq> Some b" "node_parent q b \<noteq> Some a"
    by blast
  then have "node_left (swap_tree a b q) c = renamed a b (node_left q) c \<and>
    node_right (swap_tree a b q) c = renamed a b (node_right q) c \<and>
    node_parent (swap_tree a b q) c = renamed a b (node_parent q) c \<and>
    root (swap_tree a b q) = map_option (swp a b) (root q)"
    by cases (simp_all add: swap_tree_near [OF t _ _ al] swap_tree_near [OF t _ _ al(2,1)] insert_commute
      swap_tree_far [OF t ab _ _ al])
  then show "node_left (swap_tree a b q) c = renamed a b (node_left q) c"
    "node_right (swap_tree a b q) c = renamed a b (node_right q) c"
    "node_parent (swap_tree a b q) c = renamed a b (node_parent q) c"
    "root (swap_tree a b q) = map_option (swp a b) (root q)" by blast+
qed

text \<open>What the parts leave alone.\<close>

definition others :: "'a prioq \<Rightarrow> (nat \<Rightarrow> nat) \<times> (nat \<Rightarrow> nat) \<times> nat \<times> (nat \<Rightarrow> bool) \<times> nat \<times> (nat \<Rightarrow> 'a)" where
  "others q = (node_x q, node_y q, n_nodes q, node_alive q, next_node_id q, node_data q)"

definition siblings :: "'a prioq \<Rightarrow> nat option \<times> (nat \<Rightarrow> nat option) \<times> (nat \<Rightarrow> nat option)" where
  "siblings q = (last_node q, node_next q, node_prev q)"

definition tree_part :: "'a prioq \<Rightarrow> nat option \<times> (nat \<Rightarrow> nat option) \<times> (nat \<Rightarrow> nat option) \<times> (nat \<Rightarrow> nat option)" where
  "tree_part q = (root q, node_left q, node_right q, node_parent q)"

lemma set_others:
  "others (set_left n c q) = others q" "others (set_right n c q) = others q" "others (set_parent n c l q) = others q"
  "others (set_prev n c q) = others q" "others (set_next n c q) = others q"
  "others (q\<lparr>node_left := f\<rparr>) = others q" "others (q\<lparr>node_right := f\<rparr>) = others q" "others (q\<lparr>node_parent := f\<rparr>) = others q"
  "others (q\<lparr>node_next := f\<rparr>) = others q" "others (q\<lparr>node_prev := f\<rparr>) = others q"
  by (simp_all add: others_def set_left_def set_right_def set_parent_def set_prev_def set_next_def Let_def split: option.split)

lemma set_siblings:
  "siblings (set_left n c q) = siblings q" "siblings (set_right n c q) = siblings q"
  "siblings (set_parent n c l q) = siblings q" "siblings (q\<lparr>node_left := f\<rparr>) = siblings q"
  "siblings (q\<lparr>node_right := f\<rparr>) = siblings q" "siblings (q\<lparr>node_parent := f\<rparr>) = siblings q"
  by (simp_all add: siblings_def set_left_def set_right_def set_parent_def Let_def split: option.split)

lemma set_tree_part:
  "tree_part (set_prev n c q) = tree_part q" "tree_part (set_next n c q) = tree_part q"
  "tree_part (q\<lparr>node_next := f\<rparr>) = tree_part q" "tree_part (q\<lparr>node_prev := f\<rparr>) = tree_part q"
  by (simp_all add: tree_part_def set_prev_def set_next_def Let_def split: option.split)

lemma swap_tree_frame: "others (swap_tree a b q) = others q" "siblings (swap_tree a b q) = siblings q"
  unfolding swap_tree_def Let_def by (simp_all add: set_others set_siblings)

lemma swap_siblings_frame: "others (swap_siblings a b q) = others q" "tree_part (swap_siblings a b q) = tree_part q"
  unfolding swap_siblings_def Let_def by (simp_all add: set_others set_tree_part)

lemma exchange_fields:
  assumes t: "tree_links q" "list_links q" and ab: "a \<noteq> b" and al: "node_alive q a" "node_alive q b"
  obtains q' where "exchange_nodes q a b = Some q'" "node_left q' = renamed a b (node_left q)"
    "node_right q' = renamed a b (node_right q)" "node_parent q' = renamed a b (node_parent q)"
    "node_next q' = renamed a b (node_next q)" "node_prev q' = renamed a b (node_prev q)"
    "root q' = map_option (swp a b) (root q)" "last_node q' = map_option (swp a b) (last_node q)"
    "node_x q' = (\<lambda>c. node_x q (swp a b c))" "node_y q' = (\<lambda>c. node_y q (swp a b c))"
    "node_data q' = node_data q" "node_alive q' = node_alive q" "n_nodes q' = n_nodes q" "next_node_id q' = next_node_id q"
proof -
  define q0 where "q0 = swap_positions a b q"
  define q1 where "q1 = swap_tree a b q0"
  define q2 where "q2 = swap_siblings a b q1"
  have f0: "tree_part q0 = tree_part q" "siblings q0 = siblings q" "node_x q0 = (\<lambda>c. node_x q (swp a b c))"
    "node_y q0 = (\<lambda>c. node_y q (swp a b c))" "node_data q0 = node_data q" "node_alive q0 = node_alive q"
    "n_nodes q0 = n_nodes q" "next_node_id q0 = next_node_id q"
    using ab by (auto simp: q0_def swap_positions_def tree_part_def siblings_def fun_eq_iff swp_def)
  have "tree_links q0" "node_alive q0 a" "node_alive q0 b"
    using t(1) f0 al by (simp_all add: tree_links_def tree_part_def)
  note r1 = swap_tree_renamed [OF this(1) ab this(2,3), folded q1_def]
  note s1 = swap_tree_frame [of a b q0, folded q1_def]
  have e: "node_next q1 = node_next q" "node_prev q1 = node_prev q" "last_node q1 = last_node q" "node_alive q1 = node_alive q"
    using f0 s1 by (simp_all add: siblings_def others_def)
  have "list_links q1" using t(2) unfolding list_links_def e .
  moreover have "node_alive q1 a" "node_alive q1 b" using al e by simp_all
  ultimately have "list_links q1" "node_alive q1 a" "node_alive q1 b" by blast+
  note r2 = swap_siblings_renamed [OF this(1) ab this(2,3), folded q2_def]
  note s2 = swap_siblings_frame [of a b q1, folded q2_def]
  have "exchange_nodes q a b = Some q2" using ab by (simp add: exchange_nodes_def q2_def q1_def q0_def)
  moreover have "node_left q1 = renamed a b (node_left q0)" "node_right q1 = renamed a b (node_right q0)"
    "node_parent q1 = renamed a b (node_parent q0)" "node_next q2 = renamed a b (node_next q1)"
    "node_prev q2 = renamed a b (node_prev q1)"
    using r1 r2 by (simp_all add: fun_eq_iff)
  ultimately show thesis
    using f0 r1(4) s1 r2(3) s2 by (intro that [of q2]) (simp_all add: tree_part_def siblings_def others_def)
qed

lemma nth_opt_map: "nth_opt (map f xs) i = map_option f (nth_opt xs i)"
  by (simp add: nth_opt_def)

lemma pred_opt_map: "i < length xs \<Longrightarrow> (0 < i \<Longrightarrow> g i < length xs) \<Longrightarrow> pred_opt (map f xs) i g = map_option f (pred_opt xs i g)"
  by (simp add: pred_opt_def)

lemma exchange_rep:
  assumes r: "pq_rep q ids" and a: "a \<in> set ids" and b: "b \<in> set ids" and ab: "a \<noteq> b"
  obtains q' where "exchange_nodes q a b = Some q'" "pq_rep q' (map (swp a b) ids)"
    "node_data q' = node_data q" "next_node_id q' = next_node_id q"
proof -
  note d = pq_repD [OF r]
  have al: "node_alive q a" "node_alive q b" using a b d(3) by simp_all
  obtain q' where
    q': "exchange_nodes q a b = Some q'" "node_left q' = renamed a b (node_left q)"
    "node_right q' = renamed a b (node_right q)" "node_parent q' = renamed a b (node_parent q)"
    "node_next q' = renamed a b (node_next q)" "node_prev q' = renamed a b (node_prev q)"
    "root q' = map_option (swp a b) (root q)" "last_node q' = map_option (swp a b) (last_node q)"
    "node_x q' = (\<lambda>c. node_x q (swp a b c))" "node_y q' = (\<lambda>c. node_y q (swp a b c))"
    "node_data q' = node_data q" "node_alive q' = node_alive q" "n_nodes q' = n_nodes q" "next_node_id q' = next_node_id q"
    by (rule exchange_fields [OF pq_rep_tree_links [OF r] pq_rep_list_links [OF r] ab al])
  let ?ids = "map (swp a b) ids"
  have inj: "inj (swp a b)" by (rule injI) (metis swp_simps(4))
  have s: "set ?ids = set ids" using a b by (auto simp: image_iff swp_def)
  have "node_at q' ?ids i (?ids ! i)" if i: "i < length ids" for i
  proof -
    note n = node_atD [OF d(6) [OF i]]
    have "?ids ! i \<in> set ids" using i s by (metis length_map nth_mem)
    then obtain j where "j < length ids" "?ids ! i = ids ! j" by (metis in_set_conv_nth)
    with d(6) [of j] have m: "?ids ! i < next_node_id q" by (simp add: node_at_def)
    have "above i < length ids" if "0 < i" using above_less [OF that] i by simp
    with i n m show ?thesis
      unfolding node_at_def q' renamed_def nth_opt_map by (simp add: pred_opt_map)
  qed
  moreover have "node_left q' n = None \<and> node_right q' n = None \<and> node_parent q' n = None \<and>
      node_next q' n = None \<and> node_prev q' n = None" if "n \<notin> set ids" for n
  proof -
    have "n \<noteq> a" "n \<noteq> b" using that a b by auto
    then show ?thesis using d(7) [OF that] by (simp add: q' renamed_def)
  qed
  moreover have "last_node q' = (if ?ids = [] then None else Some (last ?ids))"
    using d(5) by (simp add: q' last_map)
  moreover have "root q' = nth_opt ?ids 0" using d(4) by (simp add: q' nth_opt_map)
  moreover have "distinct ?ids" using d(1) inj by (simp add: distinct_map inj_on_subset [OF inj])
  ultimately have "pq_rep q' ?ids" using d(2,3) unfolding pq_rep_def s by (simp add: q')
  with that q' show thesis by blast
qed

lemma map_swp_update:
  assumes "distinct ids" "i < length ids" "j < length ids"
  shows "map (swp (ids ! i) (ids ! j)) ids = ids[i := ids ! j, j := ids ! i]"
  using assms by (intro nth_equalityI) (auto simp: swp_def nth_list_update nth_eq_iff_index_eq)

subsection \<open>The heap order\<close>

text \<open>The order a client must give: a total preorder, as \<open>compare\<close> functions of C give it.\<close>

locale total_compare =
  fixes compare :: "'a \<Rightarrow> 'a \<Rightarrow> int"
  assumes compare_flip: "compare a b < 0 \<longleftrightarrow> 0 < compare b a"
    and compare_trans: "compare a b \<le> 0 \<Longrightarrow> compare b c \<le> 0 \<Longrightarrow> compare a c \<le> 0"

text \<open>
  The values row by row: every one is at least its parent; and the same with one value at index \<open>k\<close>
  out of place, above or below.
\<close>

definition heap_ok :: "('a \<Rightarrow> 'a \<Rightarrow> int) \<Rightarrow> 'a list \<Rightarrow> bool" where
  "heap_ok compare vs \<longleftrightarrow> (\<forall>i. 0 < i \<longrightarrow> i < length vs \<longrightarrow> compare (vs ! above i) (vs ! i) \<le> 0)"

definition heap_but :: "('a \<Rightarrow> 'a \<Rightarrow> int) \<Rightarrow> 'a list \<Rightarrow> nat \<Rightarrow> bool" where
  "heap_but compare vs k \<longleftrightarrow>
     (\<forall>i. 0 < i \<longrightarrow> i < length vs \<longrightarrow> i \<noteq> k \<longrightarrow> above i \<noteq> k \<longrightarrow> compare (vs ! above i) (vs ! i) \<le> 0) \<and>
     (\<forall>i. 0 < i \<longrightarrow> i < length vs \<longrightarrow> above i = k \<longrightarrow> 0 < k \<longrightarrow> compare (vs ! above k) (vs ! i) \<le> 0)"

definition heap_down :: "('a \<Rightarrow> 'a \<Rightarrow> int) \<Rightarrow> 'a list \<Rightarrow> nat \<Rightarrow> bool" where
  "heap_down compare vs k \<longleftrightarrow> heap_but compare vs k \<and> (0 < k \<longrightarrow> compare (vs ! above k) (vs ! k) \<le> 0)"

definition swap_at :: "'a list \<Rightarrow> nat \<Rightarrow> nat \<Rightarrow> 'a list" where
  "swap_at vs i j = vs[i := vs ! j, j := vs ! i]"

lemma swap_at_simps [simp]:
  "length (swap_at vs i j) = length vs"
  "i < length vs \<Longrightarrow> j < length vs \<Longrightarrow>
   swap_at vs i j ! k = (if k = i then vs ! j else if k = j then vs ! i else vs ! k)"
  by (auto simp: swap_at_def nth_list_update)

lemma mset_swap_at: "i < length vs \<Longrightarrow> j < length vs \<Longrightarrow> mset (swap_at vs i j) = mset vs"
  unfolding swap_at_def by (rule mset_swap)

lemma map_swap_at: "i < length vs \<Longrightarrow> j < length vs \<Longrightarrow> map f (swap_at vs i j) = swap_at (map f vs) i j"
  by (simp add: swap_at_def map_update)

lemma heap_ok_but: "heap_ok compare vs \<Longrightarrow> k < length vs \<Longrightarrow>
  (\<And>i. 0 < i \<Longrightarrow> i < length vs \<Longrightarrow> above i = k \<Longrightarrow> 0 < k \<Longrightarrow> compare (vs ! above k) (vs ! i) \<le> 0) \<Longrightarrow> heap_but compare vs k"
  by (auto simp: heap_ok_def heap_but_def)

context total_compare
begin

lemma compare_total: "compare a b \<le> 0 \<or> compare b a \<le> 0"
  using compare_flip [of a b] compare_flip [of b a] by linarith

lemma up_step:
  assumes h: "heap_but compare vs k" and k: "0 < k" "k < length vs" and c: "0 < compare (vs ! above k) (vs ! k)"
  shows "heap_but compare (swap_at vs k (above k)) (above k)"
proof -
  let ?p = "above k" let ?w = "swap_at vs k ?p"
  have p: "?p < k" "?p < length vs" using above_less [OF k(1)] k by simp_all
  have n: "?w ! i = (if i = k then vs ! ?p else if i = ?p then vs ! k else vs ! i)" for i
    using k p by simp
  have A: "compare (vs ! above i) (vs ! i) \<le> 0" if "0 < i" "i < length vs" "i \<noteq> k" "above i \<noteq> k" for i
    using h that unfolding heap_but_def by blast
  have B: "compare (vs ! ?p) (vs ! i) \<le> 0" if "0 < i" "i < length vs" "above i = k" for i
    using h that k unfolding heap_but_def by blast
  have ap: "above i \<noteq> k" if "0 < i" "i \<le> k" for i using above_less [OF that(1)] that(2) by simp
  have "compare (?w ! above i) (?w ! i) \<le> 0" if "0 < i" "i < length vs" "i \<noteq> ?p" "above i \<noteq> ?p" for i
  proof (cases "above i = k")
    case True
    with that B [of i] above_less [OF that(1)] show ?thesis unfolding n by auto
  next
    case False
    with that A [of i] show ?thesis unfolding n by (cases "i = k") auto
  qed
  moreover have "compare (?w ! above ?p) (?w ! i) \<le> 0" if "0 < i" "i < length vs" "above i = ?p" "0 < ?p" for i
  proof -
    have pp: "above ?p < ?p" using above_less [OF that(4)] .
    have g: "compare (vs ! above ?p) (vs ! ?p) \<le> 0"
      using A [of ?p] that(4) p ap [of ?p] by simp
    show ?thesis
    proof (cases "i = k")
      case True
      with g pp p(1) show ?thesis unfolding n by simp
    next
      case False
      have "compare (vs ! ?p) (vs ! i) \<le> 0" using A [of i] that False p(1) by simp
      with g have "compare (vs ! above ?p) (vs ! i) \<le> 0" using compare_trans by blast
      moreover have "i \<noteq> ?p" using that(3) pp by auto
      ultimately show ?thesis unfolding n using False pp p(1) by simp
    qed
  qed
  ultimately show ?thesis unfolding heap_but_def by simp
qed

lemma down_step:
  assumes h: "heap_down compare vs k" and m: "0 < m" "m < length vs" "above m = k"
    and mn: "\<And>i. 0 < i \<Longrightarrow> i < length vs \<Longrightarrow> above i = k \<Longrightarrow> compare (vs ! m) (vs ! i) \<le> 0"
    and c: "0 < compare (vs ! k) (vs ! m)"
  shows "heap_down compare (swap_at vs k m) m"
proof -
  let ?w = "swap_at vs k m"
  have k: "k < m" "k < length vs" using above_less [OF m(1)] m by simp_all
  have n: "?w ! i = (if i = k then vs ! m else if i = m then vs ! k else vs ! i)" for i
    using k m by simp
  have A: "compare (vs ! above i) (vs ! i) \<le> 0" if "0 < i" "i < length vs" "i \<noteq> k" "above i \<noteq> k" for i
    using h that unfolding heap_down_def heap_but_def by blast
  have B: "compare (vs ! above k) (vs ! i) \<le> 0" if "0 < i" "i < length vs" "above i = k" "0 < k" for i
    using h that unfolding heap_down_def heap_but_def by blast
  have "compare (?w ! above i) (?w ! i) \<le> 0" if i: "0 < i" "i < length vs" "i \<noteq> m" "above i \<noteq> m" for i
  proof (cases "i = k")
    case True
    have "above k < k" using above_less [of k] True i by simp
    with True B [OF m(1-3)] i k show ?thesis unfolding n by simp
  next
    case False
    show ?thesis
    proof (cases "above i = k")
      case True
      with mn [OF i(1,2)] False i show ?thesis unfolding n by simp
    next
      case False
      with A [OF i(1,2)] \<open>i \<noteq> k\<close> i show ?thesis unfolding n by simp
    qed
  qed
  moreover have "compare (?w ! above m) (?w ! i) \<le> 0" if i: "0 < i" "i < length vs" "above i = m" for i
    using A [OF i(1,2)] i above_less [OF i(1)] k m(3) unfolding n by auto
  moreover have "compare (?w ! above m) (?w ! m) \<le> 0"
    using c compare_flip [of "vs ! m" "vs ! k"] k m(3) unfolding n by simp
  ultimately show ?thesis unfolding heap_down_def heap_but_def by simp
qed

lemma down_finish:
  assumes h: "heap_down compare vs k"
    and c: "\<And>i. 0 < i \<Longrightarrow> i < length vs \<Longrightarrow> above i = k \<Longrightarrow> compare (vs ! k) (vs ! i) \<le> 0"
  shows "heap_ok compare vs"
  unfolding heap_ok_def
proof (intro allI impI)
  fix i
  assume i: "0 < i" "i < length vs"
  show "compare (vs ! above i) (vs ! i) \<le> 0"
  proof (cases "i = k")
    case True
    with h i show ?thesis by (simp add: heap_down_def)
  next
    case False
    with c [OF i] h i show ?thesis unfolding heap_down_def heap_but_def by (cases "above i = k") simp_all
  qed
qed

text \<open>In a heap the first value is minimal.\<close>

lemma heap_root_min:
  "heap_ok compare vs \<Longrightarrow> i < length vs \<Longrightarrow> compare (vs ! 0) (vs ! i) \<le> 0"
proof (induction i rule: less_induct)
  case (less i)
  show ?case
  proof (cases "i = 0")
    case True
    then show ?thesis using compare_total by blast
  next
    case False
    with less have "compare (vs ! above i) (vs ! i) \<le> 0" by (simp add: heap_ok_def)
    moreover have "compare (vs ! 0) (vs ! above i) \<le> 0" using less above_less [of i] False by simp
    ultimately show ?thesis using compare_trans by blast
  qed
qed

end

subsection \<open>The loops restore the heap order\<close>

text \<open>The values of the queue, row by row.\<close>

abbreviation (input) pq_values :: "'a prioq \<Rightarrow> nat list \<Rightarrow> 'a list" where
  "pq_values q ids \<equiv> map (node_data q) ids"

lemma exchange_at:
  assumes r: "pq_rep q ids" and i: "i < length ids" and j: "j < length ids" and ij: "i \<noteq> j"
  obtains q' where "exchange_nodes q (ids ! i) (ids ! j) = Some q'" "pq_rep q' (swap_at ids i j)"
    "node_data q' = node_data q" "next_node_id q' = next_node_id q"
proof -
  have d: "distinct ids" using pq_repD(1) [OF r] .
  with i j ij have "ids ! i \<noteq> ids ! j" by (simp add: nth_eq_iff_index_eq)
  with exchange_rep [OF r nth_mem [OF i] nth_mem [OF j]] obtain q' where
    "exchange_nodes q (ids ! i) (ids ! j) = Some q'" "pq_rep q' (map (swp (ids ! i) (ids ! j)) ids)"
    "node_data q' = node_data q" "next_node_id q' = next_node_id q" by metis
  then show thesis using that map_swp_update [OF d i j] by (simp add: swap_at_def)
qed

context total_compare
begin

lemma shuffle_up_result:
  assumes "pq_rep q ids" "k < length ids" "heap_but compare (pq_values q ids) k"
  shows "\<exists>q' ids' k'. shuffle_up compare q (ids ! k) = Some q' \<and> pq_rep q' ids' \<and> k' < length ids' \<and>
    ids' ! k' = ids ! k \<and> mset ids' = mset ids \<and> node_data q' = node_data q \<and>
    next_node_id q' = next_node_id q \<and> heap_down compare (pq_values q ids') k'"
  using assms
proof (induction k arbitrary: q ids rule: less_induct)
  case (less k)
  note n = node_atD [OF pq_repD(6) [OF less.prems(1,2)]]
  show ?case
  proof (cases "0 < k \<and> 0 < compare (pq_values q ids ! above k) (pq_values q ids ! k)")
    case False
    then have "shuffle_up compare q (ids ! k) = Some q"
      using n(5) less.prems(2) above_less [of k] by (subst shuffle_up.simps) (auto simp: pred_opt_def)
    moreover have "heap_down compare (pq_values q ids) k" using False less.prems(3) by (auto simp: heap_down_def)
    ultimately show ?thesis using less.prems by blast
  next
    case True
    let ?p = "above k" let ?ids = "swap_at ids k ?p"
    have p: "?p < k" "?p < length ids" using True above_less [of k] less.prems(2) by simp_all
    obtain q1 where q1: "exchange_nodes q (ids ! k) (ids ! ?p) = Some q1" "pq_rep q1 ?ids"
      "node_data q1 = node_data q" "next_node_id q1 = next_node_id q"
      using exchange_at [OF less.prems(1,2) p(2)] p(1) by auto
    have "heap_but compare (pq_values q1 ?ids) ?p"
      using up_step [OF less.prems(3)] True less.prems(2) p by (simp add: q1(3) map_swap_at)
    then obtain q' ids' k' where "shuffle_up compare q1 (?ids ! ?p) = Some q'" "pq_rep q' ids'" "k' < length ids'"
      "ids' ! k' = ?ids ! ?p" "mset ids' = mset ?ids" "node_data q' = node_data q1"
      "next_node_id q' = next_node_id q1" "heap_down compare (pq_values q1 ids') k'"
      using less.IH [OF p(1) q1(2)] p by auto
    moreover have "?ids ! ?p = ids ! k" using p less.prems(2) by simp
    moreover have "shuffle_up compare q (ids ! k) = shuffle_up compare q1 (ids ! k)"
      using True q1(1) n(5) less.prems(2) p by (subst shuffle_up.simps) (simp add: pred_opt_def)
    ultimately show ?thesis using q1 mset_swap_at [OF less.prems(2) p(2)] by auto
  qed
qed

lemma shuffle_down_result:
  assumes "pq_rep q ids" "k < length ids" "heap_down compare (pq_values q ids) k"
  shows "\<exists>q' ids'. shuffle_down compare q (ids ! k) = Some q' \<and> pq_rep q' ids' \<and> mset ids' = mset ids \<and>
    node_data q' = node_data q \<and> next_node_id q' = next_node_id q \<and> heap_ok compare (pq_values q ids')"
  using assms
proof (induction "length ids - k" arbitrary: q ids k rule: less_induct)
  case less
  let ?vs = "pq_values q ids"
  note n = node_atD [OF pq_repD(6) [OF less.prems(1,2)]]
  have ch: "i = 2 * k + 1 \<or> i = 2 * k + 2" if "0 < i" "above i = k" for i using above_eq [OF that(1)] that(2) by blast
  show ?case
  proof (cases "2 * k + 1 < length ids")
    case False
    then have "shuffle_down compare q (ids ! k) = Some q" by (subst shuffle_down.simps) (simp add: n(3,4) nth_opt_def)
    moreover have "heap_ok compare ?vs"
    proof (rule down_finish [OF less.prems(3)])
      fix i
      assume "0 < i" "i < length ?vs" "above i = k"
      with ch [of i] False show "compare (?vs ! k) (?vs ! i) \<le> 0" by simp
    qed
    ultimately show ?thesis using less.prems(1) by blast
  next
    case True
    define m where "m = (if 2 * k + 2 < length ids \<and> compare (?vs ! (2 * k + 2)) (?vs ! (2 * k + 1)) < 0
      then 2 * k + 2 else 2 * k + 1)"
    have m: "0 < m" "m < length ids" "above m = k" "k < m" using True by (auto simp: m_def)
    have mn: "compare (?vs ! m) (?vs ! i) \<le> 0" if "0 < i" "i < length ?vs" "above i = k" for i
      using ch [OF that(1,3)] that(2) compare_total [of "?vs ! i" "?vs ! i"]
        compare_flip [of "?vs ! (2 * k + 2)" "?vs ! (2 * k + 1)"] by (auto simp: m_def)
    have s: "shuffle_down compare q (ids ! k) =
        (if compare (?vs ! k) (?vs ! m) \<le> 0 then Some q
         else Option.bind (exchange_nodes q (ids ! k) (ids ! m)) (\<lambda>q. shuffle_down compare q (ids ! k)))"
      using True less.prems(2) by (subst shuffle_down.simps) (auto simp: n(3,4) nth_opt_def m_def Let_def)
    show ?thesis
    proof (cases "compare (?vs ! k) (?vs ! m) \<le> 0")
      case True
      have "heap_ok compare ?vs"
        using mn True compare_trans by (intro down_finish [OF less.prems(3)]) blast
      with s True less.prems(1) show ?thesis by auto
    next
      case False
      let ?ids = "swap_at ids k m"
      obtain q1 where q1: "exchange_nodes q (ids ! k) (ids ! m) = Some q1" "pq_rep q1 ?ids"
        "node_data q1 = node_data q" "next_node_id q1 = next_node_id q"
        using exchange_at [OF less.prems(1,2) m(2)] m(4) by auto
      have "heap_down compare (pq_values q1 ?ids) m"
      proof -
        have "heap_down compare (swap_at ?vs k m) m"
        proof (rule down_step [OF less.prems(3) m(1) _ m(3)])
          show "m < length ?vs" using m(2) by simp
          show "0 < compare (?vs ! k) (?vs ! m)" using False by simp
        qed (rule mn)
        then show ?thesis using m(2) less.prems(2) by (simp add: q1(3) map_swap_at)
      qed
      moreover have "length ?ids - m < length ids - k" "m < length ?ids" using m less.prems(2) by simp_all
      ultimately obtain q' ids' where "shuffle_down compare q1 (?ids ! m) = Some q'" "pq_rep q' ids'"
        "mset ids' = mset ?ids" "node_data q' = node_data q1" "next_node_id q' = next_node_id q1"
        "heap_ok compare (pq_values q1 ids')"
        using less.hyps [of ?ids m q1] q1(2) by auto
      moreover have "?ids ! m = ids ! k" using m less.prems(2) by simp
      ultimately show ?thesis using q1 s False mset_swap_at [OF less.prems(2) m(2)] by auto
    qed
  qed
qed

text \<open>\<open>avahi_prio_queue_shuffle\<close> returns, and repairs one value that is out of place.\<close>

lemma shuffle_result:
  assumes "pq_rep q ids" "k < length ids" "heap_but compare (pq_values q ids) k"
  obtains q' ids' where "avahi_prio_queue_shuffle compare q (ids ! k) = Some q'" "pq_rep q' ids'"
    "mset ids' = mset ids" "node_data q' = node_data q" "next_node_id q' = next_node_id q"
    "heap_ok compare (pq_values q ids')"
proof -
  from shuffle_up_result [OF assms] obtain q1 ids1 k1 where q1: "shuffle_up compare q (ids ! k) = Some q1"
    "pq_rep q1 ids1" "k1 < length ids1" "ids1 ! k1 = ids ! k" "mset ids1 = mset ids" "node_data q1 = node_data q"
    "next_node_id q1 = next_node_id q" "heap_down compare (pq_values q ids1) k1" by blast
  from shuffle_down_result [OF q1(2,3)] q1(6,8) obtain q2 ids2 where "shuffle_down compare q1 (ids1 ! k1) = Some q2"
    "pq_rep q2 ids2" "mset ids2 = mset ids1" "node_data q2 = node_data q1" "next_node_id q2 = next_node_id q1"
    "heap_ok compare (pq_values q ids2)" by auto
  moreover have "node_alive q (ids ! k)" using pq_repD(3) [OF assms(1)] assms(2) by simp
  ultimately show thesis using that q1 by (simp add: avahi_prio_queue_shuffle_def)
qed

end

subsection \<open>Putting a node\<close>

lemma node_walk_index:
  assumes "\<And>i. i < length ids \<Longrightarrow> node_left q (ids ! i) = nth_opt ids (2 * i + 1) \<and> node_right q (ids ! i) = nth_opt ids (2 * i + 2)"
  shows "i < length ids \<Longrightarrow> j < length ids \<Longrightarrow> j + 1 = (i + 1) * 2 ^ k + x mod 2 ^ k \<Longrightarrow>
    node_walk q (Some (ids ! i)) x k = Some (ids ! j)"
proof (induction k arbitrary: i)
  case 0
  then show ?case by simp
next
  case (Suc k)
  let ?i = "if bit x k then 2 * i + 2 else 2 * i + 1"
  have "x mod 2 ^ Suc k = 2 ^ k * of_bool (bit x k) + x mod 2 ^ k"
    using take_bit_Suc_from_most [of k x] by (simp only: take_bit_eq_mod)
  then have j: "j + 1 = (?i + 1) * 2 ^ k + x mod 2 ^ k" using Suc.prems(3) by (simp add: algebra_simps)
  define c where "c = ?i + 1"
  have "c \<le> c * 2 ^ k" by simp
  then have "c \<le> j + 1" using j [folded c_def] by linarith
  then have i: "?i < length ids" using Suc.prems(2) unfolding c_def by linarith
  from Suc.IH [OF i Suc.prems(2) j] assms [OF Suc.prems(1)] i show ?case by (simp add: nth_opt_def split: if_splits)
qed

lemma heap_but_snoc:
  assumes "heap_ok compare vs"
  shows "heap_but compare (vs @ [v]) (length vs)"
proof -
  have a: "above i < length vs" if "0 < i" "i < length (vs @ [v])" for i using above_less [OF that(1)] that(2) by simp
  have "compare ((vs @ [v]) ! above i) ((vs @ [v]) ! i) \<le> 0" if "0 < i" "i < length (vs @ [v])" "i \<noteq> length vs" for i
    using assms that a [OF that(1,2)] by (simp add: heap_ok_def nth_append)
  moreover have "above i \<noteq> length vs" if "0 < i" "i < length (vs @ [v])" for i using a [OF that] by simp
  ultimately show ?thesis unfolding heap_but_def by blast
qed

text \<open>The position of the new node, and its parent.\<close>

lemma position_unique:
  assumes "x < 2 ^ y" "x' < 2 ^ y'" "2 ^ y + x = 2 ^ y' + (x' :: nat)"
  shows "x = x' \<and> y = y'"
proof -
  have *: "\<not> a < b" if "u < 2 ^ a" "2 ^ a + u = 2 ^ b + (v :: nat)" for a b u v
  proof
    assume "a < b"
    then have "2 ^ Suc a \<le> (2 :: nat) ^ b" by (intro power_increasing) simp_all
    with that show False by simp
  qed
  from * [OF assms(1,3)] * [OF assms(2) assms(3) [symmetric]] have "y = y'" by simp
  with assms(3) show ?thesis by simp
qed

lemma next_position:
  assumes "x < 2 ^ y" "n = 2 ^ y + (x :: nat)"
    and "next_xy x y = (x', y')"
  shows "x' < 2 ^ y'" "n + 1 = 2 ^ y' + x'" "0 < y'"
proof -
  have "y = 0 \<Longrightarrow> x = 0" using assms(1) by simp
  then show "x' < 2 ^ y'" "n + 1 = 2 ^ y' + x'" "0 < y'"
    using assms by (cases y; auto simp: next_xy_def Let_def split: if_splits)+
qed

lemma parent_position:
  assumes "x < 2 ^ y" "n + 1 = 2 ^ y + (x :: nat)" "0 < y"
  shows "above n + 1 = 2 ^ (y - 1) + x div 2" "x div 2 < 2 ^ (y - 1)" "odd x \<longleftrightarrow> even n" "0 < n"
proof -
  obtain z where z: "y = Suc z" using assms(3) by (cases y) auto
  have e: "n + 1 = 2 * 2 ^ z + x" using assms(2) z by simp
  have p: "(1::nat) \<le> 2 ^ z" by simp
  show "0 < n" using e p by linarith
  show "odd x \<longleftrightarrow> even n" using e by presburger
  show "x div 2 < 2 ^ (y - 1)" using assms(1) z by simp
  have "above n + 1 = (n + 1) div 2" using \<open>0 < n\<close> by (simp add: above_def)
  also have "\<dots> = 2 ^ z + x div 2" unfolding e by simp
  finally show "above n + 1 = 2 ^ (y - 1) + x div 2" using z by simp
qed

lemma pq_rep_snoc:
  assumes r: "pq_rep q ids" and n: "n \<notin> set ids" "next_node_id q \<le> next_node_id q'" "n < next_node_id q'"
    and xy: "x < 2 ^ y" "length ids + 1 = 2 ^ y + x"
    and f: "node_alive q' = (node_alive q)(n := True)" "n_nodes q' = n_nodes q + 1" "last_node q' = Some n"
      "node_x q' = (node_x q)(n := x)" "node_y q' = (node_y q)(n := y)"
      "root q' = (if ids = [] then Some n else root q)"
      "node_left q' = (if ids \<noteq> [] \<and> odd (length ids) then (node_left q)(ids ! above (length ids) := Some n, n := None) else (node_left q)(n := None))"
      "node_right q' = (if ids \<noteq> [] \<and> even (length ids) then (node_right q)(ids ! above (length ids) := Some n, n := None) else (node_right q)(n := None))"
      "node_parent q' = (node_parent q)(n := pred_opt ids (length ids) above)"
      "node_next q' = (if ids \<noteq> [] then (node_next q)(last ids := Some n, n := None) else (node_next q)(n := None))"
      "node_prev q' = (node_prev q)(n := pred_opt ids (length ids) (\<lambda>i. i - 1))"
  shows "pq_rep q' (ids @ [n])"
proof -
  note d = pq_repD [OF r]
  let ?l = "length ids"
  have inj: "ids ! i = ids ! j \<longleftrightarrow> i = j" if "i < ?l" "j < ?l" for i j
    using that d(1) by (simp add: nth_eq_iff_index_eq)
  have ab: "above ?l < ?l" if "ids \<noteq> []" using that by (simp add: above_less)
  have "node_at q' (ids @ [n]) i ((ids @ [n]) ! i)" if i: "i < ?l + 1" for i
  proof (cases "i = ?l")
    case True
    have "pred_opt (ids @ [n]) ?l g = pred_opt ids ?l g" if "0 < ?l \<longrightarrow> g ?l < ?l" for g
      using that by (simp add: pred_opt_def nth_append)
    with True xy n ab show ?thesis
      unfolding node_at_def f by (simp add: nth_opt_def nth_append)
  next
    case False
    with i have i: "i < ?l" by simp
    note m = node_atD [OF d(6) [OF i]]
    have e: "(ids @ [n]) ! i = ids ! i" "ids ! i \<noteq> n" using i n(1) by (auto simp: nth_append dest: nth_mem)
    have pr: "pred_opt (ids @ [n]) i g = pred_opt ids i g" if "0 < i \<longrightarrow> g i < ?l" for g
      using that i by (simp add: pred_opt_def nth_append)
    have ns: "nth_opt (ids @ [n]) j = (if j = ?l then Some n else nth_opt ids j)" for j
      by (auto simp: nth_opt_def nth_append)
    have a: "above ?l = i \<longleftrightarrow> ?l = 2 * i + 1 \<or> ?l = 2 * i + 2" by (rule above_eq) (use i in linarith)
    have ne: "ids \<noteq> []" using i by auto
    have l: "node_left q' (ids ! i) = nth_opt (ids @ [n]) (2 * i + 1)"
    proof -
      have "ids \<noteq> [] \<and> odd ?l \<and> ids ! i = ids ! above ?l \<longleftrightarrow> ?l = 2 * i + 1"
        unfolding inj [OF i ab [OF ne]] using a ne by (metis dvd_triv_left even_plus_one_iff odd_two_times_div_two_succ even_Suc add_2_eq_Suc')
      then have "node_left q' (ids ! i) = (if ?l = 2 * i + 1 then Some n else node_left q (ids ! i))"
        using e unfolding f by auto
      with m(3) show ?thesis unfolding ns by (auto simp: nth_opt_def)
    qed
    have r: "node_right q' (ids ! i) = nth_opt (ids @ [n]) (2 * i + 2)"
    proof -
      have "ids \<noteq> [] \<and> even ?l \<and> ids ! i = ids ! above ?l \<longleftrightarrow> ?l = 2 * i + 2"
        unfolding inj [OF i ab [OF ne]] using a ne by (metis dvd_triv_left even_plus_one_iff even_Suc add_2_eq_Suc')
      then have "node_right q' (ids ! i) = (if ?l = 2 * i + 2 then Some n else node_right q (ids ! i))"
        using e unfolding f by auto
      with m(4) show ?thesis unfolding ns by (auto simp: nth_opt_def)
    qed
    have la: "last ids = ids ! (?l - 1)" using ne by (simp add: last_conv_nth)
    have nx: "node_next q' (ids ! i) = nth_opt (ids @ [n]) (i + 1)"
      using m(6) e i inj [OF i, of "?l - 1"] unfolding f ns la by (auto simp: nth_opt_def)
    have "above i < ?l" if "0 < i" using above_less [OF that] i by simp
    then have "pred_opt (ids @ [n]) i above = pred_opt ids i above"
      "pred_opt (ids @ [n]) i (\<lambda>i. i - 1) = pred_opt ids i (\<lambda>i. i - 1)" using i by (intro pr; auto)+
    then show ?thesis
      unfolding node_at_def e(1) l r nx using m(1,2,5,7) e(2) n(2) by (simp add: f)
  qed
  moreover have "m \<notin> set (ids @ [n]) \<longrightarrow> node_left q' m = None \<and> node_right q' m = None \<and> node_parent q' m = None \<and>
        node_next q' m = None \<and> node_prev q' m = None" for m
    using d(7) [of m] ab last_in_set [of ids] nth_mem [of "above ?l" ids] unfolding f by auto
  moreover have "root q' = nth_opt (ids @ [n]) 0" using d(4) unfolding f by (auto simp: nth_opt_def nth_append)
  ultimately show ?thesis using d(1-3) n(1) unfolding pq_rep_def by (auto simp: f)
qed

context total_compare
begin

lemma put_result:
  assumes r: "pq_rep q ids" and h: "heap_ok compare (pq_values q ids)"
  obtains q' ids' where "avahi_prio_queue_put compare q v = Some (q', next_node_id q)" "pq_rep q' ids'"
    "mset ids' = add_mset (next_node_id q) (mset ids)" "next_node_id q \<notin> set ids"
    "node_data q' = (node_data q)(next_node_id q := v)" "next_node_id q' = next_node_id q + 1"
    "heap_ok compare (pq_values q' ids')"
proof -
  note d = pq_repD [OF r]
  let ?n = "next_node_id q" let ?l = "length ids"
  have n: "?n \<notin> set ids"
  proof
    assume "?n \<in> set ids"
    then obtain i where "i < ?l" "ids ! i = ?n" by (metis in_set_conv_nth)
    with d(6) [of i] show False by (simp add: node_at_def)
  qed
  have "\<exists>q1. avahi_prio_queue_put compare q v =
      Option.bind (avahi_prio_queue_shuffle compare q1 ?n) (\<lambda>q. Some (q, ?n)) \<and>
    pq_rep q1 (ids @ [?n]) \<and> node_data q1 = (node_data q)(?n := v) \<and> next_node_id q1 = ?n + 1"
  proof (cases "ids = []")
    case True
    let ?q1 = "q\<lparr>next_node_id := ?n + 1, node_alive := (node_alive q)(?n := True), node_data := (node_data q)(?n := v),
      node_x := (node_x q)(?n := 0), node_y := (node_y q)(?n := 0), root := Some ?n, node_prev := (node_prev q)(?n := None),
      node_parent := (node_parent q)(?n := None), node_next := (node_next q)(?n := None),
      node_left := (node_left q)(?n := None), node_right := (node_right q)(?n := None),
      last_node := Some ?n, n_nodes := n_nodes q + 1\<rparr>"
    have "avahi_prio_queue_put compare q v =
      Option.bind (avahi_prio_queue_shuffle compare ?q1 ?n) (\<lambda>q. Some (q, ?n))"
      using True d(2,4,5) by (simp add: avahi_prio_queue_put_def nth_opt_def Let_def)
    moreover have "pq_rep ?q1 (ids @ [?n])"
      using True n by (intro pq_rep_snoc [OF r, where x = 0 and y = 0]) (simp_all add: pred_opt_def)
    ultimately show ?thesis by auto
  next
    case False
    let ?lst = "last ids"
    have lst: "?lst = ids ! (?l - 1)" "?l - 1 < ?l" using False by (simp_all add: last_conv_nth)
    have pos: "node_x q ?lst < 2 ^ node_y q ?lst" "?l = 2 ^ node_y q ?lst + node_x q ?lst"
      using node_atD(2) [OF d(6) [OF lst(2)]] False unfolding lst(1) by auto
    obtain x y where xye: "next_xy (node_x q ?lst) (node_y q ?lst) = (x, y)" by fastforce
    note xy = next_position [OF pos xye]
    note pp = parent_position [OF xy]
    let ?p = "ids ! above ?l"
    have ab: "above ?l < ?l" using above_less [OF pp(4)] .
    let ?q0 = "q\<lparr>next_node_id := ?n + 1, node_alive := (node_alive q)(?n := True), node_data := (node_data q)(?n := v),
      node_x := (node_x q)(?n := x), node_y := (node_y q)(?n := y),
      node_next := (node_next q)(?lst := Some ?n), node_prev := (node_prev q)(?n := Some ?lst)\<rparr>"
    have "node_walk ?q0 (Some (ids ! 0)) (x div 2) (y - 1) = Some ?p"
    proof (rule node_walk_index)
      show "node_left ?q0 (ids ! i) = nth_opt ids (2 * i + 1) \<and> node_right ?q0 (ids ! i) = nth_opt ids (2 * i + 2)"
        if "i < ?l" for i using node_atD(3,4) [OF d(6) [OF that]] by simp
      show "above ?l + 1 = (0 + 1) * 2 ^ (y - 1) + x div 2 mod 2 ^ (y - 1)" using pp(1,2) by simp
    qed (use ab in auto)
    moreover have pn: "?p \<noteq> ?n" using n ab by (metis nth_mem)
    moreover have "node_x q ?p = x div 2 \<and> node_y q ?p = y - 1"
      using node_atD(2) [OF d(6) [OF ab]] pp(1,2) by (intro position_unique) simp_all
    ultimately have g: "get_node_at_xy ?q0 (x div 2) (y - 1) = Some ?p"
      using d(4) False by (simp add: get_node_at_xy_def nth_opt_def)
    define q0 where "q0 = ?q0"
    define q1 where "q1 = (if odd x then q0\<lparr>node_parent := (node_parent q0)(?n := Some ?p), node_right := (node_right q0)(?p := Some ?n)\<rparr>
      else q0\<lparr>node_parent := (node_parent q0)(?n := Some ?p), node_left := (node_left q0)(?p := Some ?n)\<rparr>)"
    define q2 where "q2 = q1\<lparr>node_next := (node_next q1)(?n := None), node_left := (node_left q1)(?n := None),
      node_right := (node_right q1)(?n := None), last_node := Some ?n, n_nodes := n_nodes q1 + 1\<rparr>"
    have "last_node q = Some ?lst" "root q \<noteq> None" "n_nodes q \<noteq> 0" using d(2,4,5) False by (simp_all add: nth_opt_def)
    then have "avahi_prio_queue_put compare q v =
      Option.bind (avahi_prio_queue_shuffle compare q2 ?n) (\<lambda>q. Some (q, ?n))"
      using g xy(3) xye unfolding avahi_prio_queue_put_def
      by (simp add: Let_def q2_def q1_def q0_def)
    moreover have "pq_rep q2 (ids @ [?n])"
      using False n pp(3) ab pn by (intro pq_rep_snoc [OF r, where x = x and y = y])
        (use xy(2) in \<open>simp_all add: pred_opt_def xy(1) lst q2_def q1_def q0_def\<close>)
    ultimately show ?thesis by (intro exI [of _ q2]) (simp add: q2_def q1_def q0_def)
  qed
  then obtain q1 where q1: "avahi_prio_queue_put compare q v =
      Option.bind (avahi_prio_queue_shuffle compare q1 ?n) (\<lambda>q. Some (q, ?n))"
    "pq_rep q1 (ids @ [?n])" "node_data q1 = (node_data q)(?n := v)" "next_node_id q1 = ?n + 1" by blast
  have vs: "pq_values q1 (ids @ [?n]) = pq_values q ids @ [v]" using n by (auto simp: q1(3))
  have "heap_but compare (pq_values q1 (ids @ [?n])) ?l"
    using heap_but_snoc [OF h] unfolding vs by simp
  then obtain q2 ids2 where "avahi_prio_queue_shuffle compare q1 ((ids @ [?n]) ! ?l) = Some q2" "pq_rep q2 ids2"
    "mset ids2 = mset (ids @ [?n])" "node_data q2 = node_data q1" "next_node_id q2 = next_node_id q1"
    "heap_ok compare (pq_values q1 ids2)"
    using shuffle_result [OF q1(2), of ?l] by auto
  with that q1 n show thesis by simp
qed

end

subsection \<open>Removing a node\<close>

lemma node_at_butlast:
  assumes r: "pq_rep q (ids @ [n])" and i: "i < length ids"
  shows "nth_opt ids j = (if j = length ids then None else nth_opt (ids @ [n]) j)"
    "pred_opt ids i above = pred_opt (ids @ [n]) i above"
    "pred_opt ids i (\<lambda>i. i - 1) = pred_opt (ids @ [n]) i (\<lambda>i. i - 1)"
  using i above_less [of i] by (auto simp: nth_opt_def pred_opt_def nth_append)

lemma remove_last_rep:
  assumes r: "pq_rep q (ids @ [n])"
  obtains q' where "remove_last q n = Some q'" "pq_rep q' ids" "node_data q' = node_data q" "next_node_id q' = next_node_id q"
proof -
  note d = pq_repD [OF r]
  let ?l = "length ids"
  have nn: "n \<notin> set ids" "distinct ids" using d(1) by simp_all
  have at: "node_at q (ids @ [n]) ?l n" using d(6) [of ?l] by (simp add: nth_append)
  have la: "last_node q = Some n" "n_nodes q = ?l + 1" using d(2,5) by simp_all
  have lk: "node_next q n = None" "node_left q n = None" "node_right q n = None"
    "node_parent q n = (if ids = [] then None else Some (ids ! above ?l))"
    "node_prev q n = (if ids = [] then None else Some (ids ! (?l - 1)))"
    using node_atD(3-7) [OF at] above_less [of ?l] by (auto simp: nth_opt_def pred_opt_def nth_append)
  have inj: "ids ! i = ids ! j \<longleftrightarrow> i = j" if "i < ?l" "j < ?l" for i j
    using that nn(2) by (simp add: nth_eq_iff_index_eq)
  have e: "(ids @ [n]) ! i = ids ! i" "ids ! i \<noteq> n" "ids ! i \<in> set ids" if "i < ?l" for i
    using that nn(1) by (auto simp: nth_append dest: nth_mem)
  have m: "node_at q (ids @ [n]) i (ids ! i)" if "i < ?l" for i using d(6) [of i] that e(1) [OF that] by simp
  show thesis
  proof (cases "ids = []")
    case True
    define q1 where "q1 = (free_node n (q\<lparr>last_node := None, root := None\<rparr>))\<lparr>n_nodes := 0\<rparr>"
    have "remove_last q n = Some q1"
      using True la lk d(4) by (simp add: remove_last_def q1_def nth_opt_def free_node_def Let_def)
    moreover have "pq_rep q1 ids"
      using True d(3,7) by (auto simp: pq_rep_def q1_def free_node_def nth_opt_def)
    ultimately show thesis using that by (simp add: q1_def free_node_def)
  next
    case False
    let ?p = "ids ! above ?l" let ?v = "ids ! (?l - 1)"
    have ab: "above ?l < ?l" "?l - 1 < ?l" using False above_less [of ?l] by simp_all
    have lp: "?l = 2 * above ?l + 1 \<or> ?l = 2 * above ?l + 2" using above_eq [of ?l "above ?l"] False by simp
    have pl: "node_left q ?p = Some (if odd ?l then n else ids ! (2 * above ?l + 1))"
      "node_right q ?p = (if odd ?l then None else Some n)"
    proof -
      have o: "odd ?l \<longleftrightarrow> ?l = 2 * above ?l + 1" using lp by presburger
      note w = node_atD(3,4) [OF m [OF ab(1)]]
      show "node_left q ?p = Some (if odd ?l then n else ids ! (2 * above ?l + 1))"
        "node_right q ?p = (if odd ?l then None else Some n)"
        unfolding o w using lp by (cases "?l = 2 * above ?l + 1"; simp add: nth_opt_def nth_append)+
    qed
    define q1 where "q1 = q\<lparr>last_node := Some ?v, node_next := (node_next q)(?v := None)\<rparr>"
    define q2 where "q2 = (if odd ?l then q1\<lparr>node_left := (node_left q1)(?p := None)\<rparr>
      else q1\<lparr>node_right := (node_right q1)(?p := None)\<rparr>)"
    define q3 where "q3 = (free_node n q2)\<lparr>n_nodes := ?l\<rparr>"
    have "2 * above ?l + 1 < ?l" if "even ?l" using lp that by presburger
    then have o: "ids ! (2 * above ?l + 1) \<noteq> n" if "even ?l" using e(2) that by blast
    have "remove_last q n = Some q3"
      using False la lk pl o d(4) unfolding q3_def q2_def q1_def
      by (simp add: remove_last_def free_node_def Let_def)
    moreover have "pq_rep q3 ids"
    proof -
      have "node_at q3 ids i (ids ! i)" if i: "i < ?l" for i
      proof -
        note b = node_at_butlast [OF r i] and w = node_atD [OF m [OF i]]
        have a: "above ?l = i \<longleftrightarrow> ?l = 2 * i + 1 \<or> ?l = 2 * i + 2" by (rule above_eq) (use i in linarith)
        have "odd ?l \<and> ids ! i = ?p \<longleftrightarrow> ?l = 2 * i + 1"
          unfolding inj [OF i ab(1)] using a by (metis dvd_triv_left even_Suc Suc_eq_plus1 add_2_eq_Suc')
        then have "node_left q3 (ids ! i) = (if ?l = 2 * i + 1 then None else node_left q (ids ! i))"
          using e(2) [OF i] by (auto simp: q3_def q2_def q1_def free_node_def)
        then have l: "node_left q3 (ids ! i) = nth_opt ids (2 * i + 1)" unfolding w(3) b(1) by auto
        have "even ?l \<and> ids ! i = ?p \<longleftrightarrow> ?l = 2 * i + 2"
          unfolding inj [OF i ab(1)] using a by (metis dvd_triv_left even_Suc Suc_eq_plus1 add_2_eq_Suc')
        then have "node_right q3 (ids ! i) = (if ?l = 2 * i + 2 then None else node_right q (ids ! i))"
          using e(2) [OF i] by (auto simp: q3_def q2_def q1_def free_node_def)
        then have rr: "node_right q3 (ids ! i) = nth_opt ids (2 * i + 2)" unfolding w(4) b(1) by auto
        have "node_next q3 (ids ! i) = (if ?l = i + 1 then None else node_next q (ids ! i))"
          using e(2) [OF i] inj [OF i ab(2)] i by (auto simp: q3_def q2_def q1_def free_node_def)
        then have nx: "node_next q3 (ids ! i) = nth_opt ids (i + 1)" unfolding w(6) b(1) by auto
        show ?thesis
          unfolding node_at_def l rr nx b(2,3) using w(1,2,5,7) e(2) [OF i]
          by (simp add: q3_def q2_def q1_def free_node_def)
      qed
      moreover have "node_left q3 x = None \<and> node_right q3 x = None \<and> node_parent q3 x = None \<and>
          node_next q3 x = None \<and> node_prev q3 x = None" if "x \<notin> set ids" for x
        using d(7) [of x] that e(3) [OF ab(1)] e(3) [OF ab(2)]
        by (cases "x = n") (auto simp: q3_def q2_def q1_def free_node_def)
      moreover have "root q3 = nth_opt ids 0" using d(4) False
        by (simp add: q3_def q2_def q1_def free_node_def nth_opt_def nth_append)
      moreover have "node_alive q3 x \<longleftrightarrow> x \<in> set ids" for x
        using d(3) [of x] nn(1) by (auto simp: q3_def q2_def q1_def free_node_def)
      moreover have "last_node q3 = Some (last ids)" "n_nodes q3 = ?l"
        using False by (simp_all add: q3_def q2_def q1_def free_node_def last_conv_nth)
      ultimately show ?thesis using nn(2) False unfolding pq_rep_def by simp
    qed
    ultimately show thesis using that by (simp add: q3_def q2_def q1_def free_node_def)
  qed
qed

text \<open>Taking the last value out of a heap and putting it in place of another one.\<close>

lemma heap_ok_butlast: "heap_ok compare (vs @ [v]) \<Longrightarrow> heap_ok compare vs"
proof -
  assume h: "heap_ok compare (vs @ [v])"
  have "compare (vs ! above i) (vs ! i) \<le> 0" if "0 < i" "i < length vs" for i
    using h [unfolded heap_ok_def, rule_format, of i] that above_less [OF that(1)] by (simp add: nth_append)
  then show ?thesis unfolding heap_ok_def by blast
qed

lemma heap_ok_nth: "heap_ok compare vs \<Longrightarrow> 0 < i \<Longrightarrow> i < length vs \<Longrightarrow> compare (vs ! above i) (vs ! i) \<le> 0"
  by (simp add: heap_ok_def)

context total_compare
begin

lemma heap_but_update:
  assumes h: "heap_ok compare vs" and k: "k < length vs"
  shows "heap_but compare (vs[k := v]) k"
proof -
  have "compare (vs[k := v] ! above i) (vs[k := v] ! i) \<le> 0"
    if "0 < i" "i < length vs" "i \<noteq> k" "above i \<noteq> k" for i
    using heap_ok_nth [OF h that(1,2)] that(3,4) by simp
  moreover have "compare (vs[k := v] ! above k) (vs[k := v] ! i) \<le> 0"
    if i: "0 < i" "i < length vs" "above i = k" "0 < k" for i
  proof -
    have "compare (vs ! above k) (vs ! k) \<le> 0" using heap_ok_nth [OF h i(4) k] .
    moreover have "compare (vs ! k) (vs ! i) \<le> 0" using heap_ok_nth [OF h i(1,2)] i(3) by simp
    moreover have "i \<noteq> k" "above k \<noteq> k" using above_less [OF i(1)] above_less [OF i(4)] i(3) by auto
    ultimately show ?thesis using compare_trans by simp
  qed
  ultimately show ?thesis unfolding heap_but_def by simp
qed

lemma remove_result:
  assumes r: "pq_rep q ids" and h: "heap_ok compare (pq_values q ids)" and n: "n \<in> set ids"
  obtains q' ids' where "avahi_prio_queue_remove compare q n = Some q'" "pq_rep q' ids'"
    "mset ids' = mset ids - {#n#}" "node_data q' = node_data q" "next_node_id q' = next_node_id q"
    "heap_ok compare (pq_values q' ids')"
proof -
  note d = pq_repD [OF r]
  from n have ne: "ids \<noteq> []" by auto
  define l where "l = last ids"
  define js where "js = butlast ids"
  have ids: "ids = js @ [l]" using ne by (simp add: l_def js_def)
  have al: "node_alive q n" "last_node q = Some l" using d(3,5) n ne by (simp_all add: l_def)
  show thesis
  proof (cases "n = l")
    case True
    obtain q' where q': "remove_last q n = Some q'" "pq_rep q' js" "node_data q' = node_data q" "next_node_id q' = next_node_id q"
      using remove_last_rep [of q js n] r True ids by metis
    have "heap_ok compare (pq_values q' js)" using h heap_ok_butlast unfolding ids q'(3) by fastforce
    moreover have "mset js = mset ids - {#n#}" using True ids by simp
    ultimately show thesis using that q' al True by (simp add: avahi_prio_queue_remove_def)
  next
    case False
    with n ids obtain k where k: "k < length js" "js ! k = n" by (auto simp: in_set_conv_nth)
    obtain q1 where q1: "exchange_nodes q (ids ! length js) (ids ! k) = Some q1" "pq_rep q1 (swap_at ids (length js) k)"
      "node_data q1 = node_data q" "next_node_id q1 = next_node_id q"
      using exchange_at [OF r, of "length js" k] k ids by auto
    have i: "ids ! length js = l" "ids ! k = n" using k by (simp_all add: ids nth_append)
    have s: "swap_at ids (length js) k = js[k := l] @ [n]"
      using k unfolding swap_at_def i by (simp add: ids list_update_append)
    obtain q2 where q2: "remove_last q1 n = Some q2" "pq_rep q2 (js[k := l])" "node_data q2 = node_data q1"
      "next_node_id q2 = next_node_id q1"
      using remove_last_rep [of q1 "js[k := l]" n] q1(2) s by metis
    have "heap_ok compare (pq_values q js)" using h heap_ok_butlast unfolding ids by fastforce
    then have "heap_but compare (pq_values q2 (js[k := l])) k"
      using heap_but_update [of "pq_values q js" k "node_data q l"] k by (simp add: q2(3) q1(3) map_update)
    then obtain q3 ids3 where q3: "avahi_prio_queue_shuffle compare q2 (js[k := l] ! k) = Some q3" "pq_rep q3 ids3"
      "mset ids3 = mset (js[k := l])" "node_data q3 = node_data q2" "next_node_id q3 = next_node_id q2"
      "heap_ok compare (pq_values q2 ids3)"
      using shuffle_result [OF q2(2), of k] k by auto
    have "mset (js[k := l]) = mset ids - {#n#}" using k False by (simp add: ids mset_update diff_add_mset_swap)
    with that [of q3 ids3] q3 q1 q2 al False k i show thesis by (simp add: avahi_prio_queue_remove_def)
  qed
qed

lemma free_result:
  assumes "pq_rep q ids" "heap_ok compare (pq_values q ids)"
  shows "\<exists>q'. avahi_prio_queue_free compare q = Some q' \<and> pq_rep q' []"
  using assms
proof (induction "length ids" arbitrary: q ids)
  case 0
  then show ?case using pq_repD(2,5) [OF 0(2)] by (subst avahi_prio_queue_free.simps) simp
next
  case (Suc k)
  then have ne: "ids \<noteq> []" by auto
  then have n: "last ids \<in> set ids" by simp
  obtain q1 ids1 where q1: "avahi_prio_queue_remove compare q (last ids) = Some q1" "pq_rep q1 ids1"
    "mset ids1 = mset ids - {#last ids#}" "node_data q1 = node_data q" "next_node_id q1 = next_node_id q"
    "heap_ok compare (pq_values q1 ids1)"
    by (rule remove_result [OF Suc.prems n])
  have "length ids1 = k" using Suc.hyps(2) q1(3) n by (metis diff_Suc_1 in_multiset_in_set size_Diff_singleton size_mset)
  then obtain q' where "avahi_prio_queue_free compare q1 = Some q'" "pq_rep q' []"
    using Suc.hyps(1) q1(2,6) by blast
  then show ?case using q1(1) ne pq_repD(5) [OF Suc.prems(1)] by (subst avahi_prio_queue_free.simps) simp
qed

end

subsection \<open>The contract of the queue\<close>

text \<open>
  What the clients rely on. The objects in the queue may change between calls: \<open>inv compare q\<close> says
  that \<open>q\<close> is in order for the current values, and after a change of the value of one node it is
  enough to call \<open>shuffle\<close> on that node.
\<close>

locale min_queue =
  fixes good :: "('a \<Rightarrow> 'a \<Rightarrow> int) \<Rightarrow> bool"
    and inv :: "('a \<Rightarrow> 'a \<Rightarrow> int) \<Rightarrow> 'q \<Rightarrow> bool"
    and alive :: "'q \<Rightarrow> nat \<Rightarrow> bool" and data :: "'q \<Rightarrow> nat \<Rightarrow> 'a" and top :: "'q \<Rightarrow> nat option"
    and put :: "('a \<Rightarrow> 'a \<Rightarrow> int) \<Rightarrow> 'q \<Rightarrow> 'a \<Rightarrow> ('q \<times> nat) option"
    and remove :: "('a \<Rightarrow> 'a \<Rightarrow> int) \<Rightarrow> 'q \<Rightarrow> nat \<Rightarrow> 'q option"
    and shuffle :: "('a \<Rightarrow> 'a \<Rightarrow> int) \<Rightarrow> 'q \<Rightarrow> nat \<Rightarrow> 'q option"
  assumes put_ok: "good c \<Longrightarrow> inv c q \<Longrightarrow> \<exists>q' n. put c q v = Some (q', n) \<and> inv c q' \<and> \<not> alive q n \<and>
      alive q' = (alive q)(n := True) \<and> data q' = (data q)(n := v)"
    and remove_ok: "good c \<Longrightarrow> inv c q \<Longrightarrow> alive q n \<Longrightarrow> \<exists>q'. remove c q n = Some q' \<and> inv c q' \<and>
      alive q' = (alive q)(n := False) \<and> data q' = data q"
    and shuffle_ok: "good c \<Longrightarrow> inv c q \<Longrightarrow> good c' \<Longrightarrow> alive q n \<Longrightarrow>
      (\<And>a b. alive q a \<Longrightarrow> alive q b \<Longrightarrow> a \<noteq> n \<Longrightarrow> b \<noteq> n \<Longrightarrow> c' (data q a) (data q b) = c (data q a) (data q b)) \<Longrightarrow>
      \<exists>q'. shuffle c' q n = Some q' \<and> inv c' q' \<and> alive q' = alive q \<and> data q' = data q"
    and top_none: "inv c q \<Longrightarrow> top q = None \<longleftrightarrow> (\<forall>n. \<not> alive q n)"
    and top_min: "good c \<Longrightarrow> inv c q \<Longrightarrow> top q = Some r \<Longrightarrow> alive q r \<and> (alive q n \<longrightarrow> c (data q r) (data q n) \<le> 0)"
begin

text \<open>A value smaller than all others comes to the top when it is put.\<close>

lemma top_after_put:
  assumes "good c" "inv c q" "\<And>n. alive q n \<Longrightarrow> 0 < c (data q n) v"
  shows "\<exists>q' n. put c q v = Some (q', n) \<and> top q' = Some n"
proof -
  from put_ok [OF assms(1,2), of v] obtain q' n where p: "put c q v = Some (q', n)" "inv c q'"
    "\<not> alive q n" "alive q' = (alive q)(n := True)" "data q' = (data q)(n := v)" by blast
  from p(4) have "alive q' n" by simp
  with top_none [OF p(2)] obtain r where r: "top q' = Some r" by (cases "top q'") auto
  have "alive q' r" "c (data q' r) (data q' n) \<le> 0" using top_min [OF assms(1) p(2) r, of n] p(4) by auto
  with assms(3) [of r] p have "r = n" by (auto simp: fun_upd_apply split: if_splits)
  with p r show ?thesis by blast
qed

end

definition pq_inv :: "('a \<Rightarrow> 'a \<Rightarrow> int) \<Rightarrow> 'a prioq \<Rightarrow> bool" where
  "pq_inv compare q \<longleftrightarrow> (\<exists>ids. pq_rep q ids \<and> heap_ok compare (map (node_data q) ids))"

lemma pq_inv_new: "pq_inv compare (avahi_prio_queue_new d)"
  unfolding pq_inv_def by (intro exI [of _ "[]"]) (simp add: pq_rep_def avahi_prio_queue_new_def nth_opt_def heap_ok_def)

lemma alive_eq: "pq_rep q ids \<Longrightarrow> node_alive q = (\<lambda>n. n \<in># mset ids)"
  using pq_repD(3) [of q ids] by auto

lemma heap_ok_value_change:
  assumes h: "heap_ok c (map f ids)" and c: "total_compare c" and k: "k < length ids"
    and e: "\<And>i j. i < length ids \<Longrightarrow> j < length ids \<Longrightarrow> i \<noteq> k \<Longrightarrow> j \<noteq> k \<Longrightarrow> c' (f (ids ! i)) (f (ids ! j)) = c (f (ids ! i)) (f (ids ! j))"
  shows "heap_but c' (map f ids) k"
proof -
  have "(map f ids)[k := f (ids ! k)] = map f ids" using k by (metis list_update_id nth_map)
  then have b: "heap_but c (map f ids) k"
    using total_compare.heap_but_update [OF c h, of k "f (ids ! k)"] k by simp
  have le: "above i < length ids" if "0 < i" "i < length ids" for i using above_less [OF that(1)] that(2) by simp
  have "c' (map f ids ! above i) (map f ids ! i) \<le> 0" if "0 < i" "i < length ids" "i \<noteq> k" "above i \<noteq> k" for i
  proof -
    have "c (map f ids ! above i) (map f ids ! i) \<le> 0" using b that unfolding heap_but_def length_map by blast
    then show ?thesis using that e [of "above i" i] le [OF that(1,2)] by simp
  qed
  moreover have "c' (map f ids ! above k) (map f ids ! i) \<le> 0" if "0 < i" "i < length ids" "above i = k" "0 < k" for i
  proof -
    have "c (map f ids ! above k) (map f ids ! i) \<le> 0" using b that unfolding heap_but_def length_map by blast
    moreover have "i \<noteq> k" "above k \<noteq> k" using above_less [OF that(1)] above_less [OF that(4)] that(3) by auto
    ultimately show ?thesis using that e [of "above k" i] le [OF that(4) k] by simp
  qed
  ultimately show ?thesis unfolding heap_but_def by simp
qed

text \<open>Only the order of the values in the queue matters.\<close>

lemma pq_inv_cong:
  assumes "pq_inv c q" "\<And>a b. node_alive q a \<Longrightarrow> node_alive q b \<Longrightarrow> c' (node_data q a) (node_data q b) = c (node_data q a) (node_data q b)"
  shows "pq_inv c' q"
proof -
  from assms(1) obtain ids where r: "pq_rep q ids" "heap_ok c (map (node_data q) ids)" by (auto simp: pq_inv_def)
  have "c' (map (node_data q) ids ! above i) (map (node_data q) ids ! i) \<le> 0" if "0 < i" "i < length ids" for i
    using heap_ok_nth [OF r(2) that(1)] above_less [OF that(1)] that(2) assms(2) pq_repD(3) [OF r(1)] by simp
  with r(1) show ?thesis unfolding pq_inv_def heap_ok_def by (intro exI [of _ ids]) simp
qed

lemma put_inv:
  assumes c: "total_compare c" and i: "pq_inv c q"
  shows "\<exists>q' n. avahi_prio_queue_put c q v = Some (q', n) \<and> pq_inv c q' \<and> \<not> node_alive q n \<and>
    node_alive q' = (node_alive q)(n := True) \<and> node_data q' = (node_data q)(n := v)"
proof -
  from i obtain ids where r: "pq_rep q ids" "heap_ok c (map (node_data q) ids)" by (auto simp: pq_inv_def)
  obtain q' ids' where q': "avahi_prio_queue_put c q v = Some (q', next_node_id q)" "pq_rep q' ids'"
    "mset ids' = add_mset (next_node_id q) (mset ids)" "next_node_id q \<notin> set ids"
    "node_data q' = (node_data q)(next_node_id q := v)" "next_node_id q' = next_node_id q + 1"
    "heap_ok c (map (node_data q') ids')"
    by (rule total_compare.put_result [OF c r])
  then show ?thesis using alive_eq [OF r(1)] alive_eq [OF q'(2)]
    by (intro exI [of _ q'] exI [of _ "next_node_id q"]) (auto simp: pq_inv_def fun_eq_iff)
qed

lemma remove_inv:
  assumes c: "total_compare c" and i: "pq_inv c q" and n: "node_alive q n"
  shows "\<exists>q'. avahi_prio_queue_remove c q n = Some q' \<and> pq_inv c q' \<and>
    node_alive q' = (node_alive q)(n := False) \<and> node_data q' = node_data q"
proof -
  from i obtain ids where r: "pq_rep q ids" "heap_ok c (map (node_data q) ids)" by (auto simp: pq_inv_def)
  have m: "n \<in> set ids" using pq_repD(3) [OF r(1)] n by simp
  obtain q' ids' where q': "avahi_prio_queue_remove c q n = Some q'" "pq_rep q' ids'"
    "mset ids' = mset ids - {#n#}" "node_data q' = node_data q" "next_node_id q' = next_node_id q"
    "heap_ok c (map (node_data q') ids')"
    by (rule total_compare.remove_result [OF c r m])
  have "set ids' = set ids - {n}"
  proof -
    have "mset ids' = mset (remove1 n ids)" using q'(3) by simp
    then have "set ids' = set (remove1 n ids)" by (rule mset_eq_setD)
    then show ?thesis using pq_repD(1) [OF r(1)] by simp
  qed
  then have "node_alive q' = (node_alive q)(n := False)"
    using pq_repD(3) [OF r(1)] pq_repD(3) [OF q'(2)] by (auto simp: fun_eq_iff)
  then show ?thesis using q' by (auto simp: pq_inv_def)
qed

lemma shuffle_inv:
  assumes c: "total_compare c" and i: "pq_inv c q" and c': "total_compare c'" and n: "node_alive q n"
    and e: "\<And>a b. node_alive q a \<Longrightarrow> node_alive q b \<Longrightarrow> a \<noteq> n \<Longrightarrow> b \<noteq> n \<Longrightarrow>
      c' (node_data q a) (node_data q b) = c (node_data q a) (node_data q b)"
  shows "\<exists>q'. avahi_prio_queue_shuffle c' q n = Some q' \<and> pq_inv c' q' \<and>
    node_alive q' = node_alive q \<and> node_data q' = node_data q"
proof -
  from i obtain ids where r: "pq_rep q ids" "heap_ok c (map (node_data q) ids)" by (auto simp: pq_inv_def)
  note d = pq_repD [OF r(1)]
  from n d(3) obtain k where k: "k < length ids" "ids ! k = n" by (metis in_set_conv_nth)
  have "heap_but c' (map (node_data q) ids) k"
  proof (rule heap_ok_value_change [OF r(2) c k(1)])
    fix i j
    assume "i < length ids" "j < length ids" "i \<noteq> k" "j \<noteq> k"
    moreover from this have "ids ! i \<noteq> n" "ids ! j \<noteq> n" using d(1) k by (auto simp: nth_eq_iff_index_eq)
    ultimately show "c' (node_data q (ids ! i)) (node_data q (ids ! j)) = c (node_data q (ids ! i)) (node_data q (ids ! j))"
      using d(3) by (intro e) simp_all
  qed
  then obtain q' ids' where q': "avahi_prio_queue_shuffle c' q (ids ! k) = Some q'" "pq_rep q' ids'"
    "mset ids' = mset ids" "node_data q' = node_data q" "next_node_id q' = next_node_id q"
    "heap_ok c' (map (node_data q) ids')"
    by (rule total_compare.shuffle_result [OF c' r(1) k(1)])
  moreover have "node_alive q' = node_alive q" unfolding alive_eq [OF r(1)] alive_eq [OF q'(2)] q'(3) ..
  ultimately show ?thesis unfolding k(2) pq_inv_def by auto
qed

lemma root_none:
  assumes "pq_inv c q"
  shows "root q = None \<longleftrightarrow> (\<forall>n. \<not> node_alive q n)"
proof -
  from assms obtain ids where r: "pq_rep q ids" by (auto simp: pq_inv_def)
  show ?thesis using pq_repD(3,4) [OF r] by (cases ids) (auto simp: nth_opt_def)
qed

lemma root_min:
  assumes c: "total_compare c" and i: "pq_inv c q" and r: "root q = Some r"
  shows "node_alive q r \<and> (node_alive q n \<longrightarrow> c (node_data q r) (node_data q n) \<le> 0)"
proof -
  from i obtain ids where p: "pq_rep q ids" "heap_ok c (map (node_data q) ids)" by (auto simp: pq_inv_def)
  note d = pq_repD [OF p(1)]
  from r d(4) have z: "0 < length ids" "r = ids ! 0" by (auto simp: nth_opt_def split: if_splits)
  have "c (node_data q r) (node_data q n) \<le> 0" if "node_alive q n"
  proof -
    from that d(3) obtain k where "k < length ids" "ids ! k = n" by (metis in_set_conv_nth)
    with total_compare.heap_root_min [OF c p(2), of k] z show ?thesis by simp
  qed
  with z d(3) show ?thesis by simp
qed

interpretation pq: min_queue total_compare pq_inv node_alive node_data root
  avahi_prio_queue_put avahi_prio_queue_remove avahi_prio_queue_shuffle
  by unfold_locales (fact put_inv, fact remove_inv, fact shuffle_inv, fact root_none, fact root_min)

subsection \<open>Sequences of operations\<close>

datatype 'a pq_op = Pq_put 'a | Pq_remove nat

fun pq_run :: "('a \<Rightarrow> 'a \<Rightarrow> int) \<Rightarrow> 'a prioq \<Rightarrow> 'a pq_op list \<Rightarrow> 'a prioq outcome" where
  "pq_run c q [] = Some q"
| "pq_run c q (Pq_put v # ps) = do { (q, _) \<leftarrow> avahi_prio_queue_put c q v; pq_run c q ps }"
| "pq_run c q (Pq_remove n # ps) = do { q \<leftarrow> avahi_prio_queue_remove c q n; pq_run c q ps }"

text \<open>
  The specification: the values in the queue by node, where the nodes are numbered as they come, and
  only nodes that are in the queue are removed.
\<close>

fun spec_run :: "nat \<Rightarrow> (nat \<rightharpoonup> 'a) \<Rightarrow> 'a pq_op list \<Rightarrow> (nat \<rightharpoonup> 'a) option" where
  "spec_run k f [] = Some f"
| "spec_run k f (Pq_put v # ps) = spec_run (k + 1) (f(k \<mapsto> v)) ps"
| "spec_run k f (Pq_remove n # ps) = (if f n = None then None else spec_run k (f(n := None)) ps)"

definition pq_map :: "'a prioq \<Rightarrow> (nat \<rightharpoonup> 'a)" where
  "pq_map q n = (if node_alive q n then Some (node_data q n) else None)"

lemma put_node_id: "avahi_prio_queue_put c q v = Some (q', n) \<Longrightarrow> n = next_node_id q"
  by (auto simp: avahi_prio_queue_put_def Let_def Option.bind_eq_Some_conv)

lemma put_next_id:
  assumes "total_compare c" "pq_inv c q" "avahi_prio_queue_put c q v = Some (q', n)"
  shows "next_node_id q' = next_node_id q + 1"
proof -
  from assms(2) obtain ids where "pq_rep q ids" "heap_ok c (map (node_data q) ids)" by (auto simp: pq_inv_def)
  from total_compare.put_result [OF assms(1) this, of v] assms(3) show ?thesis by auto
qed

lemma remove_next_id:
  assumes "total_compare c" "pq_inv c q" "node_alive q n" "avahi_prio_queue_remove c q n = Some q'"
  shows "next_node_id q' = next_node_id q"
proof -
  from assms(2) obtain ids where r: "pq_rep q ids" "heap_ok c (map (node_data q) ids)" by (auto simp: pq_inv_def)
  have "n \<in> set ids" using pq_repD(3) [OF r(1)] assms(3) by simp
  from total_compare.remove_result [OF assms(1) r this] assms(4) show ?thesis by auto
qed

lemma pq_run_spec:
  assumes "total_compare c" "pq_inv c q" "spec_run (next_node_id q) (pq_map q) ps = Some f"
  shows "\<exists>q'. pq_run c q ps = Some q' \<and> pq_inv c q' \<and> pq_map q' = f"
  using assms(2,3)
proof (induction ps arbitrary: q)
  case (Cons p ps)
  show ?case
  proof (cases p)
    case (Pq_put v)
    from pq.put_ok [OF assms(1) Cons.prems(1), of v] obtain q1 n where q1: "avahi_prio_queue_put c q v = Some (q1, n)"
      "pq_inv c q1" "node_alive q1 = (node_alive q)(n := True)" "node_data q1 = (node_data q)(n := v)" by blast
    have "pq_map q1 = (pq_map q)(next_node_id q \<mapsto> v)"
      using q1(3,4) put_node_id [OF q1(1)] by (auto simp: pq_map_def fun_eq_iff)
    then have "spec_run (next_node_id q1) (pq_map q1) ps = Some f"
      using Cons.prems(2) put_next_id [OF assms(1) Cons.prems(1) q1(1)] Pq_put by (simp del: fun_upd_apply)
    from Cons.IH [OF q1(2) this] show ?thesis using q1(1) Pq_put by simp
  next
    case (Pq_remove n)
    with Cons.prems(2) have n: "node_alive q n" by (auto simp: pq_map_def split: if_splits)
    from pq.remove_ok [OF assms(1) Cons.prems(1) n] obtain q1 where q1: "avahi_prio_queue_remove c q n = Some q1"
      "pq_inv c q1" "node_alive q1 = (node_alive q)(n := False)" "node_data q1 = node_data q" by blast
    have m: "pq_map q n \<noteq> None" using n by (simp add: pq_map_def)
    have "pq_map q1 = (pq_map q)(n := None)" using q1(3,4) by (auto simp: pq_map_def fun_eq_iff)
    then have "spec_run (next_node_id q1) (pq_map q1) ps = Some f"
      using Cons.prems(2) remove_next_id [OF assms(1) Cons.prems(1) n q1(1)] Pq_remove m
      by (simp del: fun_upd_apply)
    from Cons.IH [OF q1(2) this] show ?thesis using q1(1) Pq_remove by simp
  qed
qed simp

lemma total_compare_diff: "total_compare (\<lambda>a b. a - b :: int)"
  by unfold_locales linarith+

text \<open>A queue of three nodes, for the witnesses.\<close>

definition three_nodes :: "int prioq outcome" where
  "three_nodes = pq_run (\<lambda>a b. a - b) (avahi_prio_queue_new 0) [Pq_put 5, Pq_put 3, Pq_put 7]"

lemma three_nodes_inv:
  "\<exists>q. three_nodes = Some q \<and> pq_inv (\<lambda>a b. a - b) q \<and> pq_map q = [0 \<mapsto> 5, 1 \<mapsto> 3, 2 \<mapsto> 7]"
proof -
  have "spec_run (next_node_id (avahi_prio_queue_new (0 :: int))) (pq_map (avahi_prio_queue_new 0)) [Pq_put 5, Pq_put 3, Pq_put 7] =
    Some [0 \<mapsto> 5, 1 \<mapsto> 3, 2 \<mapsto> 7]"
    by (simp add: avahi_prio_queue_new_def pq_map_def fun_eq_iff)
  from pq_run_spec [OF total_compare_diff pq_inv_new this] show ?thesis by (simp add: three_nodes_def)
qed

lemma pq_map_alive: "pq_map q n = Some v \<Longrightarrow> node_alive q n \<and> node_data q n = v"
  by (simp add: pq_map_def split: if_splits)

lemma alive_dom: "node_alive q n = (n \<in> Map.dom (pq_map q))"
  by (simp add: pq_map_def domIff)

subsection \<open>Properties\<close>

text \<open>
  C3: the queue is a priority queue. After any sequence of puts and of removals of nodes that are in
  it, with a comparison that is a total preorder, no assert has failed and no loop run on, the nodes
  and values in it are those of the specification, the root is NULL exactly for the empty queue, and
  otherwise its value is minimal.
\<close>

theorem prio_queue_refines_map:
  assumes "total_compare compare" "spec_run 0 (\<lambda>_. None) ps = Some f"
  shows "\<exists>q. pq_run compare (avahi_prio_queue_new d) ps = Some q \<and> pq_map q = f \<and>
    (case root q of
       None \<Rightarrow> f = (\<lambda>_. None)
     | Some r \<Rightarrow> \<exists>v. f r = Some v \<and> (\<forall>n. case f n of None \<Rightarrow> True | Some w \<Rightarrow> compare v w \<le> 0))"
proof -
  let ?q = "avahi_prio_queue_new d"
  have "pq_map ?q = (\<lambda>_. None)" "next_node_id ?q = 0" by (simp_all add: pq_map_def fun_eq_iff avahi_prio_queue_new_def)
  with assms(2) have "spec_run (next_node_id ?q) (pq_map ?q) ps = Some f" by simp
  from pq_run_spec [OF assms(1) pq_inv_new this] obtain q where
    q: "pq_run compare ?q ps = Some q" "pq_inv compare q" "pq_map q = f" by blast
  have "case root q of None \<Rightarrow> f = (\<lambda>_. None)
     | Some r \<Rightarrow> \<exists>v. f r = Some v \<and> (\<forall>n. case f n of None \<Rightarrow> True | Some w \<Rightarrow> compare v w \<le> 0)"
  proof (cases "root q")
    case None
    with pq.top_none [OF q(2)] show ?thesis by (simp flip: q(3)) (simp add: pq_map_def fun_eq_iff)
  next
    case (Some r)
    with pq.top_min [OF assms(1) q(2) Some] show ?thesis
      by (simp flip: q(3)) (auto simp: pq_map_def)
  qed
  with q show ?thesis by blast
qed

theorem prio_queue_refines_map_witness:
  "\<exists>q. pq_run (\<lambda>a b. a - b) (avahi_prio_queue_new (0 :: int)) [Pq_put 5, Pq_put 3, Pq_put 7, Pq_remove 1, Pq_put 6] = Some q \<and>
    pq_map q = [0 \<mapsto> 5, 2 \<mapsto> 7, 3 \<mapsto> 6]"
proof -
  have "spec_run 0 (\<lambda>_. None) [Pq_put 5, Pq_put 3, Pq_put (7 :: int), Pq_remove 1, Pq_put 6] = Some [0 \<mapsto> 5, 2 \<mapsto> 7, 3 \<mapsto> 6]"
    by (auto simp: fun_eq_iff)
  from prio_queue_refines_map [OF total_compare_diff this, of 0] show ?thesis by blast
qed

text \<open>
  \<open>exchange_nodes\<close>, with its nine cases of neighbouring nodes, exchanges two nodes of the tree and
  of the list and nothing else: every link of the result is the old link with the two nodes renamed.
\<close>

theorem exchange_nodes_renames:
  assumes "pq_rep q ids" "node_alive q a" "node_alive q b" "a \<noteq> b"
  shows "\<exists>q'. exchange_nodes q a b = Some q' \<and> pq_rep q' (map (swp a b) ids) \<and> node_data q' = node_data q \<and>
    node_left q' = renamed a b (node_left q) \<and> node_right q' = renamed a b (node_right q) \<and>
    node_parent q' = renamed a b (node_parent q) \<and> node_next q' = renamed a b (node_next q) \<and>
    node_prev q' = renamed a b (node_prev q) \<and> root q' = map_option (swp a b) (root q) \<and>
    last_node q' = map_option (swp a b) (last_node q)"
proof -
  have m: "a \<in> set ids" "b \<in> set ids" using pq_repD(3) [OF assms(1)] assms(2,3) by simp_all
  obtain q' where "exchange_nodes q a b = Some q'" "pq_rep q' (map (swp a b) ids)" "node_data q' = node_data q"
    "next_node_id q' = next_node_id q" by (rule exchange_rep [OF assms(1) m assms(4)])
  moreover obtain q2 where "exchange_nodes q a b = Some q2" "node_left q2 = renamed a b (node_left q)"
    "node_right q2 = renamed a b (node_right q)" "node_parent q2 = renamed a b (node_parent q)"
    "node_next q2 = renamed a b (node_next q)" "node_prev q2 = renamed a b (node_prev q)"
    "root q2 = map_option (swp a b) (root q)" "last_node q2 = map_option (swp a b) (last_node q)"
    "node_x q2 = (\<lambda>c. node_x q (swp a b c))" "node_y q2 = (\<lambda>c. node_y q (swp a b c))"
    "node_data q2 = node_data q" "node_alive q2 = node_alive q" "n_nodes q2 = n_nodes q" "next_node_id q2 = next_node_id q"
    by (rule exchange_fields [OF pq_rep_tree_links [OF assms(1)] pq_rep_list_links [OF assms(1)] assms(4,2,3)])
  ultimately show ?thesis by auto
qed

theorem exchange_nodes_renames_witness:
  "\<exists>q q'. three_nodes = Some q \<and> exchange_nodes q 1 2 = Some q' \<and> root q' = map_option (swp 1 2) (root q)"
proof -
  from three_nodes_inv obtain q ids where q: "three_nodes = Some q" "pq_rep q ids"
    "pq_map q 1 = Some 3" "pq_map q 2 = Some 7" by (auto simp: pq_inv_def)
  from exchange_nodes_renames [OF q(2), of 1 2] pq_map_alive [OF q(3)] pq_map_alive [OF q(4)] q(1)
  show ?thesis by auto
qed

text \<open>
  When the value of one node has changed, in either direction, \<open>avahi_prio_queue_shuffle\<close> on that
  node returns and the queue is in order again, with the same nodes and values.
\<close>

theorem shuffle_repairs:
  assumes "total_compare c" "pq_inv c q" "total_compare c'" "node_alive q n"
    and "\<And>a b. node_alive q a \<Longrightarrow> node_alive q b \<Longrightarrow> a \<noteq> n \<Longrightarrow> b \<noteq> n \<Longrightarrow>
      c' (node_data q a) (node_data q b) = c (node_data q a) (node_data q b)"
  shows "\<exists>q'. avahi_prio_queue_shuffle c' q n = Some q' \<and> pq_inv c' q' \<and>
    node_alive q' = node_alive q \<and> node_data q' = node_data q"
  using assms by (rule pq.shuffle_ok)

theorem shuffle_repairs_witness:
  "\<exists>q q'. three_nodes = Some q \<and>
    avahi_prio_queue_shuffle (\<lambda>a b. (if a = 5 then 1 else a) - (if b = 5 then 1 else b)) q 0 = Some q' \<and>
    pq_inv (\<lambda>a b. (if a = 5 then 1 else a) - (if b = 5 then 1 else b)) q'"
proof -
  let ?c = "\<lambda>a b :: int. (if a = 5 then 1 else a) - (if b = 5 then 1 else b)"
  from three_nodes_inv obtain q where q: "three_nodes = Some q" "pq_inv (\<lambda>a b. a - b) q"
    "pq_map q = [0 \<mapsto> 5, 1 \<mapsto> 3, 2 \<mapsto> 7]" by blast
  have c: "total_compare ?c" by unfold_locales auto
  have n: "node_alive q 0" by (simp add: alive_dom q(3))
  have "?c (node_data q a) (node_data q b) = node_data q a - node_data q b"
    if "node_alive q a" "node_alive q b" "a \<noteq> 0" "b \<noteq> 0" for a b
  proof -
    have "node_data q k \<noteq> 5" if "node_alive q k" "k \<noteq> 0" for k
      using fun_cong [OF q(3), of k] that by (auto simp: pq_map_def split: if_splits)
    with that show ?thesis by simp
  qed
  from shuffle_repairs [OF total_compare_diff q(2) c n this] q(1) show ?thesis by blast
qed

end
