(* ===== verification/Timeeventq.thy ===== *)
theory Timeeventq
  imports Timeval Prioq
begin

text \<open>
  The time event queue (avahi-core/timeeventq.c): the timers of the program, all behind one timeout
  of the poll API. An event is a number; its fields are functions of it, and \<open>te_alive\<close> says which
  events are allocated. The priority queue holds the events; it is the one of theory \<open>Prioq\<close>, with
  \<open>compare\<close> reading the fields. \<open>te_timeout\<close> is the timeout of the poll API: \<open>None\<close> when it was
  freed, \<open>Some None\<close> when it is not armed, otherwise the time it will call \<open>expiration_event\<close> at.
  A callback with its \<open>userdata\<close> is a value of type \<open>'c\<close>, and what it does is an argument \<open>run\<close> of
  \<open>expiration_event\<close>. The clock is an argument.
\<close>

record 'c teq =
  te_alive :: "nat \<Rightarrow> bool"
  te_next :: nat
  te_node :: "nat \<Rightarrow> nat"
  te_expiry :: "nat \<Rightarrow> timeval"
  te_last_run :: "nat \<Rightarrow> timeval"
  te_callback :: "nat \<Rightarrow> 'c option"
  te_prioq :: "nat prioq"
  te_timeout :: "timeval option option"

subsection \<open>The operations\<close>

definition te_compare :: "'c teq \<Rightarrow> nat \<Rightarrow> nat \<Rightarrow> int" where
  "te_compare q a b =
     (let ret = avahi_timeval_compare (te_expiry q a) (te_expiry q b) in
      if ret \<noteq> 0 then ret else avahi_timeval_compare (te_last_run q a) (te_last_run q b))"

definition time_event_queue_root :: "'c teq \<Rightarrow> nat option" where
  "time_event_queue_root q = map_option (node_data (te_prioq q)) (root (te_prioq q))"

definition update_timeout :: "'c teq \<Rightarrow> 'c teq outcome" where
  "update_timeout q = do {
     assert_that (te_timeout q \<noteq> None);
     Some (case time_event_queue_root q of
         Some e \<Rightarrow> q\<lparr>te_timeout := Some (Some (te_expiry q e))\<rparr>
       | None \<Rightarrow> q\<lparr>te_timeout := Some None\<rparr>)
   }"

text \<open>
  \<open>expiration_event\<close> up to the call of the callback: \<open>None\<close> when no event has expired, otherwise the
  callback, its event and the queue with that event marked as run.
\<close>

definition expired_event :: "timeval \<Rightarrow> 'c teq \<Rightarrow> ('c \<times> nat \<times> 'c teq) option outcome" where
  "expired_event now q =
     (case time_event_queue_root q of
        None \<Rightarrow> Some None
      | Some e \<Rightarrow>
          if avahi_timeval_compare now (te_expiry q e) \<ge> 0 then do {
            let q = q\<lparr>te_last_run := (te_last_run q)(e := now)\<rparr>;
            p \<leftarrow> avahi_prio_queue_shuffle (te_compare q) (te_prioq q) (te_node q e);
            let q = q\<lparr>te_prioq := p\<rparr>;
            callback \<leftarrow> te_callback q e;
            Some (Some (callback, e, q))
          } else Some None)"

definition expiration_event ::
  "('c \<Rightarrow> nat \<Rightarrow> 'c teq \<Rightarrow> 'c teq outcome) \<Rightarrow> timeval \<Rightarrow> 'c teq \<Rightarrow> 'c teq outcome" where
  "expiration_event run now q = do {
     r \<leftarrow> expired_event now q;
     (case r of
        Some (callback, e, q) \<Rightarrow> do { q \<leftarrow> run callback e q; update_timeout q }
      | None \<Rightarrow> update_timeout q)
   }"

text \<open>The function returns before it looks at the clock.\<close>

definition fix_expiry_time :: "nat \<Rightarrow> 'c teq \<Rightarrow> 'c teq" where
  "fix_expiry_time e q = q"

definition avahi_time_event_queue_new :: "'c teq" where
  "avahi_time_event_queue_new =
     \<lparr>te_alive = (\<lambda>_. False), te_next = 0, te_node = (\<lambda>_. 0),
      te_expiry = (\<lambda>_. \<lparr>tv_sec = 0, tv_usec = 0\<rparr>), te_last_run = (\<lambda>_. \<lparr>tv_sec = 0, tv_usec = 0\<rparr>),
      te_callback = (\<lambda>_. None), te_prioq = avahi_prio_queue_new 0, te_timeout = Some None\<rparr>"

definition avahi_time_event_new :: "'c teq \<Rightarrow> timeval option \<Rightarrow> 'c \<Rightarrow> ('c teq \<times> nat) outcome" where
  "avahi_time_event_new q tv callback = do {
     let e = te_next q;
     let q = q\<lparr>te_next := e + 1, te_alive := (te_alive q)(e := True), te_callback := (te_callback q)(e := Some callback)\<rparr>;
     let t = (case tv of Some t \<Rightarrow> t | None \<Rightarrow> \<lparr>tv_sec = 0, tv_usec = 0\<rparr>);
     let q = q\<lparr>te_expiry := (te_expiry q)(e := t)\<rparr>;
     let q = fix_expiry_time e q;
     let q = q\<lparr>te_last_run := (te_last_run q)(e := \<lparr>tv_sec = 0, tv_usec = 0\<rparr>)\<rparr>;
     (p, n) \<leftarrow> avahi_prio_queue_put (te_compare q) (te_prioq q) e;
     let q = q\<lparr>te_prioq := p, te_node := (te_node q)(e := n)\<rparr>;
     q \<leftarrow> update_timeout q;
     Some (q, e)
   }"

definition avahi_time_event_free :: "'c teq \<Rightarrow> nat \<Rightarrow> 'c teq outcome" where
  "avahi_time_event_free q e = do {
     assert_that (te_alive q e);
     p \<leftarrow> avahi_prio_queue_remove (te_compare q) (te_prioq q) (te_node q e);
     let q = q\<lparr>te_prioq := p, te_alive := (te_alive q)(e := False)\<rparr>;
     update_timeout q
   }"

definition avahi_time_event_update :: "'c teq \<Rightarrow> nat \<Rightarrow> timeval \<Rightarrow> 'c teq outcome" where
  "avahi_time_event_update q e tv = do {
     assert_that (te_alive q e);
     let q = q\<lparr>te_expiry := (te_expiry q)(e := tv)\<rparr>;
     let q = fix_expiry_time e q;
     p \<leftarrow> avahi_prio_queue_shuffle (te_compare q) (te_prioq q) (te_node q e);
     let q = q\<lparr>te_prioq := p\<rparr>;
     update_timeout q
   }"

text \<open>The loop frees the events, from the root on; \<open>None\<close> also if it did not end.\<close>

partial_function (option) free_events :: "'c teq \<Rightarrow> 'c teq option" where
  "free_events q =
     (case time_event_queue_root q of
        None \<Rightarrow> Some q
      | Some e \<Rightarrow> Option.bind (avahi_time_event_free q e) free_events)"

definition avahi_time_event_queue_free :: "'c teq \<Rightarrow> 'c teq outcome" where
  "avahi_time_event_queue_free q = do {
     q \<leftarrow> free_events q;
     p \<leftarrow> avahi_prio_queue_free (te_compare q) (te_prioq q);
     assert_that (te_timeout q \<noteq> None);
     Some (q\<lparr>te_prioq := p, te_timeout := None\<rparr>)
   }"

subsection \<open>The order of the events\<close>

lemma timeval_compare_trans:
  "avahi_timeval_compare a b \<le> 0 \<Longrightarrow> avahi_timeval_compare b c \<le> 0 \<Longrightarrow> avahi_timeval_compare a c \<le> 0"
  by (auto simp: avahi_timeval_compare_def split: if_splits)

lemma te_compare_flip: "te_compare q a b < 0 \<longleftrightarrow> 0 < te_compare q b a"
  using timeval_compare_antisym [of "te_expiry q a" "te_expiry q b"]
    timeval_compare_antisym [of "te_last_run q a" "te_last_run q b"]
  by (auto simp: te_compare_def Let_def)

lemma te_compare_le:
  "te_compare q a b \<le> 0 \<longleftrightarrow>
     avahi_timeval_compare (te_expiry q a) (te_expiry q b) < 0 \<or>
     te_expiry q a = te_expiry q b \<and> avahi_timeval_compare (te_last_run q a) (te_last_run q b) \<le> 0"
  using timeval_compare_lex(2) [of "te_expiry q a" "te_expiry q b"]
  by (auto simp: te_compare_def Let_def)

lemma timeval_less_trans:
  "avahi_timeval_compare a b < 0 \<Longrightarrow> avahi_timeval_compare b c < 0 \<Longrightarrow> avahi_timeval_compare a c < 0"
  by (auto simp: avahi_timeval_compare_def split: if_splits)

lemma te_compare_trans: "te_compare q a b \<le> 0 \<Longrightarrow> te_compare q b c \<le> 0 \<Longrightarrow> te_compare q a c \<le> 0"
  unfolding te_compare_le by (metis timeval_compare_trans timeval_less_trans)

interpretation te: total_compare "te_compare q" for q
  by unfold_locales (rule te_compare_flip, rule te_compare_trans)

lemma te_compare_expiry:
  "te_compare q a b \<le> 0 \<Longrightarrow> avahi_timeval_compare (te_expiry q a) (te_expiry q b) \<le> 0"
  using timeval_compare_lex(2) [of "te_expiry q a" "te_expiry q b"] by (auto simp: te_compare_le)

subsection \<open>The invariant\<close>

text \<open>
  Events and nodes of the queue belong to each other, the queue is in order for the current times,
  and the timeout is armed for the event at the root.
\<close>

definition teq_core :: "'c teq \<Rightarrow> bool" where
  "teq_core q \<longleftrightarrow> pq_inv (te_compare q) (te_prioq q) \<and>
     (\<forall>e. te_alive q e \<longrightarrow> node_alive (te_prioq q) (te_node q e) \<and> node_data (te_prioq q) (te_node q e) = e \<and>
        te_callback q e \<noteq> None \<and> e < te_next q) \<and>
     (\<forall>n. node_alive (te_prioq q) n \<longrightarrow> te_alive q (node_data (te_prioq q) n) \<and> te_node q (node_data (te_prioq q) n) = n) \<and>
     te_timeout q \<noteq> None"

definition teq_ok :: "'c teq \<Rightarrow> bool" where
  "teq_ok q \<longleftrightarrow> teq_core q \<and> te_timeout q = Some (map_option (te_expiry q) (time_event_queue_root q))"

lemma teq_coreD:
  assumes "teq_core q"
  shows "pq_inv (te_compare q) (te_prioq q)" "te_alive q e \<Longrightarrow> node_alive (te_prioq q) (te_node q e)"
    "te_alive q e \<Longrightarrow> node_data (te_prioq q) (te_node q e) = e" "te_alive q e \<Longrightarrow> te_callback q e \<noteq> None"
    "te_alive q e \<Longrightarrow> e < te_next q" "node_alive (te_prioq q) n \<Longrightarrow> te_alive q (node_data (te_prioq q) n)"
    "node_alive (te_prioq q) n \<Longrightarrow> te_node q (node_data (te_prioq q) n) = n" "te_timeout q \<noteq> None"
  using assms unfolding teq_core_def by blast+

text \<open>The root is a minimal event, and NULL only without events.\<close>

lemma root_none_iff: "teq_core q \<Longrightarrow> time_event_queue_root q = None \<longleftrightarrow> (\<forall>e. \<not> te_alive q e)"
  using teq_coreD [of q] pq.top_none [of "te_compare q" "te_prioq q"] by (fastforce simp: time_event_queue_root_def)

lemma root_some:
  assumes "teq_core q" "time_event_queue_root q = Some e"
  shows "te_alive q e" "te_alive q e' \<Longrightarrow> te_compare q e e' \<le> 0"
proof -
  note d = teq_coreD [OF assms(1)]
  from assms(2) obtain r where r: "root (te_prioq q) = Some r" "node_data (te_prioq q) r = e"
    by (auto simp: time_event_queue_root_def)
  note m = pq.top_min [OF te.total_compare_axioms d(1) r(1)]
  show "te_alive q e" using m d(6) r(2) by blast
  show "te_compare q e e' \<le> 0" if "te_alive q e'"
    using m [of "te_node q e'"] d(2,3) [OF that] r(2) by simp
qed

lemma update_timeout_ok:
  assumes "teq_core q"
  shows "update_timeout q = Some (q\<lparr>te_timeout := Some (map_option (te_expiry q) (time_event_queue_root q))\<rparr>)"
    "teq_ok (q\<lparr>te_timeout := Some (map_option (te_expiry q) (time_event_queue_root q))\<rparr>)"
proof -
  show "update_timeout q = Some (q\<lparr>te_timeout := Some (map_option (te_expiry q) (time_event_queue_root q))\<rparr>)"
    using teq_coreD(8) [OF assms] by (simp add: update_timeout_def split: option.splits)
  have "te_compare (q\<lparr>te_timeout := t\<rparr>) = te_compare q" for t by (simp add: te_compare_def Let_def fun_eq_iff)
  with assms show "teq_ok (q\<lparr>te_timeout := Some (map_option (te_expiry q) (time_event_queue_root q))\<rparr>)"
    by (simp add: teq_ok_def teq_core_def time_event_queue_root_def)
qed

text \<open>The events with what a client sees of them.\<close>

definition te_view :: "'c teq \<Rightarrow> nat \<rightharpoonup> timeval \<times> timeval \<times> 'c option" where
  "te_view q e = (if te_alive q e then Some (te_expiry q e, te_last_run q e, te_callback q e) else None)"

lemma te_view_timeout [simp]: "te_view (q\<lparr>te_timeout := t\<rparr>) = te_view q"
  by (simp add: te_view_def fun_eq_iff)

lemma teq_ok_new: "teq_ok avahi_time_event_queue_new"
  using pq_inv_new [of _ 0]
  by (simp add: teq_ok_def teq_core_def avahi_time_event_queue_new_def time_event_queue_root_def)
    (simp add: avahi_prio_queue_new_def)

text \<open>Each operation, from \<open>teq_core\<close> to \<open>teq_ok\<close>.\<close>

lemma event_new_ok:
  assumes "teq_core q"
  shows "\<exists>q'. avahi_time_event_new q tv c = Some (q', te_next q) \<and> teq_ok q' \<and> te_next q' = te_next q + 1 \<and>
    te_view q' = (te_view q)(te_next q \<mapsto>
      (case tv of Some t \<Rightarrow> t | None \<Rightarrow> \<lparr>tv_sec = 0, tv_usec = 0\<rparr>, \<lparr>tv_sec = 0, tv_usec = 0\<rparr>, Some c))"
proof -
  note d = teq_coreD [OF assms]
  let ?e = "te_next q" let ?t = "case tv of Some t \<Rightarrow> t | None \<Rightarrow> \<lparr>tv_sec = 0, tv_usec = 0\<rparr>"
  define q1 where "q1 = q\<lparr>te_next := ?e + 1, te_alive := (te_alive q)(?e := True),
    te_callback := (te_callback q)(?e := Some c), te_expiry := (te_expiry q)(?e := ?t),
    te_last_run := (te_last_run q)(?e := \<lparr>tv_sec = 0, tv_usec = 0\<rparr>)\<rparr>"
  have ne: "node_data (te_prioq q) n \<noteq> ?e" if "node_alive (te_prioq q) n" for n
    using d(5) [OF d(6) [OF that]] by simp
  have "pq_inv (te_compare q1) (te_prioq q)"
    by (rule pq_inv_cong [OF d(1)]) (auto simp: q1_def te_compare_def Let_def dest: ne)
  from pq.put_ok [OF te.total_compare_axioms this, of ?e] obtain p n where
    p: "avahi_prio_queue_put (te_compare q1) (te_prioq q) ?e = Some (p, n)" "pq_inv (te_compare q1) p"
      "\<not> node_alive (te_prioq q) n" "node_alive p = (node_alive (te_prioq q))(n := True)"
      "node_data p = (node_data (te_prioq q))(n := ?e)" by blast
  define q2 where "q2 = q1\<lparr>te_prioq := p, te_node := (te_node q1)(?e := n)\<rparr>"
  have "te_compare q2 = te_compare q1" by (simp add: q2_def te_compare_def Let_def fun_eq_iff)
  then have "teq_core q2"
    using p(2,3) d unfolding teq_core_def q2_def q1_def
    by (auto simp: p(4,5) fun_upd_apply less_Suc_eq) (metis less_irrefl)+
  from update_timeout_ok [OF this] show ?thesis
    using p(1) by (simp add: avahi_time_event_new_def fix_expiry_time_def Let_def flip: q1_def)
      (auto simp: te_view_def q2_def q1_def fun_eq_iff fun_upd_apply)
qed

lemma event_free_ok:
  assumes "teq_core q" "te_alive q e"
  shows "\<exists>q'. avahi_time_event_free q e = Some q' \<and> teq_ok q' \<and> te_next q' = te_next q \<and>
    te_view q' = (te_view q)(e := None)"
proof -
  note d = teq_coreD [OF assms(1)]
  from pq.remove_ok [OF te.total_compare_axioms d(1) d(2) [OF assms(2)]] obtain p where
    p: "avahi_prio_queue_remove (te_compare q) (te_prioq q) (te_node q e) = Some p" "pq_inv (te_compare q) p"
      "node_alive p = (node_alive (te_prioq q))(te_node q e := False)" "node_data p = node_data (te_prioq q)" by blast
  define q2 where "q2 = q\<lparr>te_prioq := p, te_alive := (te_alive q)(e := False)\<rparr>"
  have "te_compare q2 = te_compare q" by (simp add: q2_def te_compare_def Let_def fun_eq_iff)
  then have "teq_core q2"
    using p(2) d assms(2) unfolding teq_core_def q2_def by (auto simp: p(3,4) fun_upd_apply) metis
  from update_timeout_ok [OF this] show ?thesis
    using p(1) assms(2) by (simp add: avahi_time_event_free_def Let_def flip: q2_def)
      (auto simp: te_view_def q2_def fun_eq_iff fun_upd_apply)
qed

text \<open>Changing the times of one event, and shuffling its node.\<close>

lemma event_times_ok:
  assumes "teq_core q" "te_alive q e"
    and "\<And>a. a \<noteq> e \<Longrightarrow> te_expiry q1 a = te_expiry q a \<and> te_last_run q1 a = te_last_run q a"
    and "te_alive q1 = te_alive q" "te_next q1 = te_next q" "te_node q1 = te_node q" "te_callback q1 = te_callback q"
      "te_prioq q1 = te_prioq q" "te_timeout q1 = te_timeout q"
  shows "\<exists>p. avahi_prio_queue_shuffle (te_compare q1) (te_prioq q1) (te_node q1 e) = Some p \<and>
    teq_core (q1\<lparr>te_prioq := p\<rparr>)"
proof -
  note d = teq_coreD [OF assms(1)]
  have n: "node_alive (te_prioq q) (te_node q e)" by (rule d(2) [OF assms(2)])
  have c: "te_compare q1 (node_data (te_prioq q) a) (node_data (te_prioq q) b) =
      te_compare q (node_data (te_prioq q) a) (node_data (te_prioq q) b)"
    if "node_alive (te_prioq q) a" "node_alive (te_prioq q) b" "a \<noteq> te_node q e" "b \<noteq> te_node q e" for a b
  proof -
    have "node_data (te_prioq q) a \<noteq> e" "node_data (te_prioq q) b \<noteq> e"
      using d(7) [OF that(1)] d(7) [OF that(2)] that(3,4) by auto
    from assms(3) [OF this(1)] assms(3) [OF this(2)] show ?thesis by (simp add: te_compare_def Let_def)
  qed
  from pq.shuffle_ok [OF te.total_compare_axioms d(1) te.total_compare_axioms n c] obtain p where
    p: "avahi_prio_queue_shuffle (te_compare q1) (te_prioq q) (te_node q e) = Some p" "pq_inv (te_compare q1) p"
      "node_alive p = node_alive (te_prioq q)" "node_data p = node_data (te_prioq q)" by blast
  have "te_compare (q1\<lparr>te_prioq := p\<rparr>) = te_compare q1" by (simp add: te_compare_def Let_def fun_eq_iff)
  with p(2) assms(1) have "teq_core (q1\<lparr>te_prioq := p\<rparr>)"
    unfolding teq_core_def by (simp add: assms(4-9) p(3,4))
  with p(1) show ?thesis unfolding assms(6,8) by blast
qed

lemma event_update_ok:
  assumes "teq_core q" "te_alive q e"
  shows "\<exists>q'. avahi_time_event_update q e tv = Some q' \<and> teq_ok q' \<and> te_next q' = te_next q \<and>
    te_view q' = (te_view q)(e \<mapsto> (tv, te_last_run q e, te_callback q e))"
proof -
  define q1 where "q1 = q\<lparr>te_expiry := (te_expiry q)(e := tv)\<rparr>"
  obtain p where p: "avahi_prio_queue_shuffle (te_compare q1) (te_prioq q1) (te_node q1 e) = Some p"
    "teq_core (q1\<lparr>te_prioq := p\<rparr>)"
    using event_times_ok [OF assms, of q1] by (auto simp: q1_def)
  from update_timeout_ok [OF p(2)] p(1) show ?thesis
    using assms(2) by (simp add: avahi_time_event_update_def fix_expiry_time_def Let_def flip: q1_def)
      (auto simp: te_view_def q1_def fun_eq_iff fun_upd_apply)
qed

lemma expiration_event_idle:
  assumes "teq_ok q" "\<And>e. te_alive q e \<Longrightarrow> avahi_timeval_compare now (te_expiry q e) < 0"
  shows "expiration_event run now q = Some q"
proof -
  have c: "teq_core q" "q\<lparr>te_timeout := Some (map_option (te_expiry q) (time_event_queue_root q))\<rparr> = q"
    using assms(1) by (simp_all add: teq_ok_def)
  then have u: "update_timeout q = Some q" using update_timeout_ok(1) [OF c(1)] by simp
  show ?thesis
    using u root_some(1) [OF c(1)] assms(2) by (force simp: expiration_event_def expired_event_def split: option.splits)
qed

lemma expiration_event_run:
  assumes "teq_ok q" "te_alive q e" "avahi_timeval_compare now (te_expiry q e) \<ge> 0"
  shows "\<exists>d c p. te_alive q d \<and> te_callback q d = Some c \<and> avahi_timeval_compare now (te_expiry q d) \<ge> 0 \<and>
    (\<forall>e. te_alive q e \<longrightarrow> te_compare q d e \<le> 0) \<and>
    teq_core (q\<lparr>te_last_run := (te_last_run q)(d := now), te_prioq := p\<rparr>) \<and>
    expiration_event run now q =
      Option.bind (run c d (q\<lparr>te_last_run := (te_last_run q)(d := now), te_prioq := p\<rparr>)) update_timeout"
proof -
  have c: "teq_core q" using assms(1) by (simp add: teq_ok_def)
  obtain d where d: "time_event_queue_root q = Some d"
    using root_none_iff [OF c] assms(2) by (cases "time_event_queue_root q") auto
  note r = root_some [OF c d]
  have "avahi_timeval_compare now (te_expiry q d) \<ge> 0"
    using te_compare_expiry [OF r(2) [OF assms(2)]] assms(3)
      timeval_compare_trans [of "te_expiry q d" "te_expiry q e" now]
      timeval_compare_antisym [of now "te_expiry q e"] timeval_compare_antisym [of now "te_expiry q d"]
    by linarith
  moreover obtain p where
    "avahi_prio_queue_shuffle (te_compare (q\<lparr>te_last_run := (te_last_run q)(d := now)\<rparr>)) (te_prioq q) (te_node q d) = Some p"
    "teq_core (q\<lparr>te_last_run := (te_last_run q)(d := now), te_prioq := p\<rparr>)"
    using event_times_ok [OF c r(1), of "q\<lparr>te_last_run := (te_last_run q)(d := now)\<rparr>"] by auto
  moreover obtain k where "te_callback q d = Some k" using teq_coreD(4) [OF c r(1)] by auto
  ultimately show ?thesis
    using r d by (intro exI [of _ d] exI [of _ k] exI [of _ p]) (simp add: expiration_event_def expired_event_def Let_def)
qed

text \<open>The loop that frees the events ends: there are only finitely many.\<close>

lemma alive_finite: "teq_core q \<Longrightarrow> finite {e. te_alive q e}"
  by (rule finite_subset [of _ "{..<te_next q}"]) (auto dest: teq_coreD(5))

lemma free_events_ok:
  assumes "teq_ok q"
  shows "\<exists>q'. free_events q = Some q' \<and> teq_ok q' \<and> (\<forall>e. \<not> te_alive q' e)"
  using assms
proof (induction "card {e. te_alive q e}" arbitrary: q)
  case 0
  then have "\<forall>e. \<not> te_alive q e" using alive_finite [of q] by (auto simp: teq_ok_def)
  with 0 root_none_iff [of q] show ?case by (subst free_events.simps) (simp add: teq_ok_def)
next
  case (Suc k)
  have c: "teq_core q" using Suc.prems by (simp add: teq_ok_def)
  have f: "finite {e. te_alive q e}" "{e. te_alive q e} \<noteq> {}"
    using alive_finite [OF c] Suc.hyps(2) by (simp, metis card.empty nat.distinct(1))
  then obtain e where e: "time_event_queue_root q = Some e"
    using root_none_iff [OF c] by (cases "time_event_queue_root q") auto
  have a: "te_alive q e" by (rule root_some(1) [OF c e])
  from event_free_ok [OF c a] obtain q1 where
    q1: "avahi_time_event_free q e = Some q1" "teq_ok q1" "te_view q1 = (te_view q)(e := None)" by blast
  have "{x. te_alive q1 x} = {x. te_alive q x} - {e}"
  proof -
    have "te_alive q1 x \<longleftrightarrow> te_alive q x \<and> x \<noteq> e" for x
      using fun_cong [OF q1(3), of x] by (simp add: te_view_def split: if_splits)
    then show ?thesis by auto
  qed
  then have "k = card {x. te_alive q1 x}" using Suc.hyps(2) a f(1) by simp
  from Suc.hyps(1) [OF this q1(2)] q1(1) e show ?case by (subst free_events.simps) simp
qed

lemma queue_free_ok:
  assumes "teq_ok q"
  shows "\<exists>q'. avahi_time_event_queue_free q = Some q' \<and> (\<forall>e. \<not> te_alive q' e) \<and>
    (\<forall>n. \<not> node_alive (te_prioq q') n) \<and> te_timeout q' = None"
proof -
  from free_events_ok [OF assms] obtain q1 where q1: "free_events q = Some q1" "teq_ok q1" "\<forall>e. \<not> te_alive q1 e"
    by blast
  have c: "teq_core q1" using q1(2) by (simp add: teq_ok_def)
  note d = teq_coreD [OF c]
  from d(1) obtain ids where r: "pq_rep (te_prioq q1) ids" "heap_ok (te_compare q1) (map (node_data (te_prioq q1)) ids)"
    by (auto simp: pq_inv_def)
  from total_compare.free_result [OF te.total_compare_axioms r] obtain p where
    p: "avahi_prio_queue_free (te_compare q1) (te_prioq q1) = Some p" "pq_rep p []" by blast
  have "\<not> node_alive p n" for n using pq_repD(3) [OF p(2)] by simp
  with p(1) q1 d(8) show ?thesis by (simp add: avahi_time_event_queue_free_def)
qed

subsection \<open>Sequences of operations\<close>

datatype 'c te_op = Te_new "timeval option" 'c | Te_free nat | Te_update nat timeval

fun te_exec :: "'c teq \<Rightarrow> 'c te_op \<Rightarrow> 'c teq outcome" where
  "te_exec q (Te_new tv c) = do { (q, _) \<leftarrow> avahi_time_event_new q tv c; Some q }"
| "te_exec q (Te_free e) = avahi_time_event_free q e"
| "te_exec q (Te_update e tv) = avahi_time_event_update q e tv"

fun te_run :: "'c teq \<Rightarrow> 'c te_op list \<Rightarrow> 'c teq outcome" where
  "te_run q [] = Some q"
| "te_run q (a # as) = do { q \<leftarrow> te_exec q a; te_run q as }"

text \<open>A client may free and update only events that exist.\<close>

fun te_allowed :: "'c teq \<Rightarrow> 'c te_op \<Rightarrow> bool" where
  "te_allowed q (Te_new tv c) = True"
| "te_allowed q (Te_free e) = te_alive q e"
| "te_allowed q (Te_update e tv) = te_alive q e"

fun te_all_allowed :: "'c teq \<Rightarrow> 'c te_op list \<Rightarrow> bool" where
  "te_all_allowed q [] = True"
| "te_all_allowed q (a # as) =
     (te_allowed q a \<and> (case te_exec q a of None \<Rightarrow> True | Some q \<Rightarrow> te_all_allowed q as))"

text \<open>A callback performs a sequence of allowed operations when its event expires.\<close>

definition te_client :: "('c \<Rightarrow> nat \<Rightarrow> 'c teq \<Rightarrow> 'c teq outcome) \<Rightarrow> bool" where
  "te_client run \<longleftrightarrow> (\<forall>c e q. te_alive q e \<longrightarrow> (\<exists>as. te_all_allowed q as \<and> run c e q = te_run q as))"

inductive te_reachable :: "('c \<Rightarrow> nat \<Rightarrow> 'c teq \<Rightarrow> 'c teq outcome) \<Rightarrow> 'c teq \<Rightarrow> bool" for run where
  start: "te_reachable run avahi_time_event_queue_new"
| operation: "te_reachable run q \<Longrightarrow> te_allowed q a \<Longrightarrow> te_exec q a = Some q' \<Longrightarrow> te_reachable run q'"
| expiration: "te_reachable run q \<Longrightarrow> expiration_event run now q = Some q' \<Longrightarrow> te_reachable run q'"

lemma te_exec_ok:
  assumes "teq_core q" "te_allowed q a"
  shows "\<exists>q'. te_exec q a = Some q' \<and> teq_ok q'"
proof (cases a)
  case (Te_new tv c)
  then show ?thesis using event_new_ok [OF assms(1), of tv c] by auto
next
  case (Te_free e)
  then show ?thesis using event_free_ok [OF assms(1), of e] assms(2) by auto
next
  case (Te_update e tv)
  then show ?thesis using event_update_ok [OF assms(1), of e tv] assms(2) by auto
qed

lemma te_run_ok: "teq_core q \<Longrightarrow> te_all_allowed q as \<Longrightarrow> \<exists>q'. te_run q as = Some q' \<and> teq_core q'"
proof (induction as arbitrary: q)
  case (Cons a as)
  then obtain q1 where "te_exec q a = Some q1" "teq_ok q1" using te_exec_ok [of q a] by auto
  with Cons show ?case by (auto simp: teq_ok_def)
qed simp

lemma expiration_event_ok:
  assumes "te_client run" "teq_ok q"
  shows "\<exists>q'. expiration_event run now q = Some q' \<and> teq_ok q'"
proof (cases "\<exists>e. te_alive q e \<and> avahi_timeval_compare now (te_expiry q e) \<ge> 0")
  case True
  then obtain e where "te_alive q e" "avahi_timeval_compare now (te_expiry q e) \<ge> 0" by blast
  from expiration_event_run [OF assms(2) this, of run] obtain d c q1 where
    q1: "teq_core q1" "te_alive q1 d" "expiration_event run now q = Option.bind (run c d q1) update_timeout" by fastforce
  obtain as where as: "te_all_allowed q1 as" "run c d q1 = te_run q1 as"
    using assms(1) q1(2) unfolding te_client_def by metis
  from te_run_ok [OF q1(1) as(1)] obtain q2 where "te_run q1 as = Some q2" "teq_core q2" by blast
  with update_timeout_ok [OF this(2)] q1(3) as(2) show ?thesis by auto
next
  case False
  then have "avahi_timeval_compare now (te_expiry q e) < 0" if "te_alive q e" for e using that by force
  from expiration_event_idle [OF assms(2) this] assms(2) show ?thesis by blast
qed

lemma te_reachable_ok:
  assumes "te_client run"
  shows "te_reachable run q \<Longrightarrow> teq_ok q"
proof (induction rule: te_reachable.induct)
  case (operation q a q')
  then show ?case using te_exec_ok [of q a] by (simp add: teq_ok_def)
next
  case (expiration q now q')
  then show ?case using expiration_event_ok [OF assms, of q now] by auto
qed (rule teq_ok_new)

text \<open>The specification: the events by number, with expiry, last run and callback.\<close>

fun te_spec :: "nat \<Rightarrow> (nat \<rightharpoonup> timeval \<times> timeval \<times> 'c option) \<Rightarrow> 'c te_op list \<Rightarrow> (nat \<rightharpoonup> timeval \<times> timeval \<times> 'c option) option" where
  "te_spec k f [] = Some f"
| "te_spec k f (Te_new tv c # as) =
     te_spec (k + 1) (f(k \<mapsto> (case tv of Some t \<Rightarrow> t | None \<Rightarrow> \<lparr>tv_sec = 0, tv_usec = 0\<rparr>, \<lparr>tv_sec = 0, tv_usec = 0\<rparr>, Some c))) as"
| "te_spec k f (Te_free e # as) = (case f e of None \<Rightarrow> None | Some _ \<Rightarrow> te_spec k (f(e := None)) as)"
| "te_spec k f (Te_update e tv # as) =
     (case f e of None \<Rightarrow> None | Some (_, l, c) \<Rightarrow> te_spec k (f(e \<mapsto> (tv, l, c))) as)"

lemma te_view_Some: "te_view q e = Some (t, l, c) \<longleftrightarrow> te_alive q e \<and> t = te_expiry q e \<and> l = te_last_run q e \<and> c = te_callback q e"
  by (auto simp: te_view_def)

lemma te_run_spec:
  assumes "teq_ok q" "te_spec (te_next q) (te_view q) as = Some f"
  shows "\<exists>q'. te_run q as = Some q' \<and> teq_ok q' \<and> te_view q' = f"
  using assms
proof (induction as arbitrary: q)
  case (Cons a as)
  have c: "teq_core q" using Cons.prems(1) by (simp add: teq_ok_def)
  show ?case
  proof (cases a)
    case (Te_new tv c)
    with event_new_ok [OF c, of tv c] Cons.prems(2) obtain q1 where
      "te_exec q a = Some q1" "teq_ok q1" "te_spec (te_next q1) (te_view q1) as = Some f" by auto
    with Cons.IH show ?thesis by simp
  next
    case (Te_free e)
    with Cons.prems(2) have "te_alive q e" "te_spec (te_next q) ((te_view q)(e := None)) as = Some f"
      by (auto split: option.splits simp: te_view_Some simp del: fun_upd_apply)
    with event_free_ok [OF c this(1)] Te_free obtain q1 where
      "te_exec q a = Some q1" "teq_ok q1" "te_spec (te_next q1) (te_view q1) as = Some f" by auto
    with Cons.IH show ?thesis by simp
  next
    case (Te_update e tv)
    with Cons.prems(2) have "te_alive q e"
      "te_spec (te_next q) ((te_view q)(e \<mapsto> (tv, te_last_run q e, te_callback q e))) as = Some f"
      by (auto split: option.splits simp: te_view_Some simp del: fun_upd_apply)
    with event_update_ok [OF c this(1), of tv] Te_update obtain q1 where
      "te_exec q a = Some q1" "teq_ok q1" "te_spec (te_next q1) (te_view q1) as = Some f" by auto
    with Cons.IH show ?thesis by simp
  qed
qed simp

text \<open>The timeout as the client sees it: not armed without events, else at the earliest expiry.\<close>

definition timeout_earliest :: "(nat \<rightharpoonup> timeval \<times> timeval \<times> 'c option) \<Rightarrow> timeval option option \<Rightarrow> bool" where
  "timeout_earliest f timeout =
     (case timeout of
        None \<Rightarrow> False
      | Some None \<Rightarrow> (\<forall>e. f e = None)
      | Some (Some t) \<Rightarrow> (\<exists>e l c. f e = Some (t, l, c)) \<and>
          (\<forall>e. case f e of None \<Rightarrow> True | Some (t', _) \<Rightarrow> avahi_timeval_compare t t' \<le> 0))"

lemma teq_ok_timeout:
  assumes "teq_ok q"
  shows "timeout_earliest (te_view q) (te_timeout q)"
proof -
  have c: "teq_core q" and t: "te_timeout q = Some (map_option (te_expiry q) (time_event_queue_root q))"
    using assms by (simp_all add: teq_ok_def)
  show ?thesis
  proof (cases "time_event_queue_root q")
    case None
    with root_none_iff [OF c] t show ?thesis by (simp add: timeout_earliest_def te_view_def)
  next
    case (Some e)
    note r = root_some [OF c Some]
    have "te_view q e = Some (te_expiry q e, te_last_run q e, te_callback q e)" using r(1) by (simp add: te_view_def)
    then have "\<exists>d l c. te_view q d = Some (te_expiry q e, l, c)" by blast
    moreover have "case te_view q d of None \<Rightarrow> True | Some (t', _) \<Rightarrow> avahi_timeval_compare (te_expiry q e) t' \<le> 0" for d
      using te_compare_expiry [OF r(2), of d] by (simp add: te_view_def)
    ultimately show ?thesis using t Some by (simp add: timeout_earliest_def)
  qed
qed


subsection \<open>Properties\<close>

text \<open>
  C4: the timeout of the poll API is always right. In every state that creations, releases and updates
  of existing events and calls of \<open>expiration_event\<close> lead to, with callbacks that perform such
  operations, the timeout is armed for the earliest expiry, or not armed if there are no events; every
  further operation returns, and \<open>avahi_time_event_queue_free\<close> ends with every event, every node and
  the timeout freed.
\<close>

theorem timeout_always_earliest:
  assumes "te_client run" "te_reachable run q"
  shows "timeout_earliest (te_view q) (te_timeout q) \<and>
    (te_allowed q a \<longrightarrow> te_exec q a \<noteq> crash) \<and> expiration_event run now q \<noteq> crash \<and>
    (\<exists>q'. avahi_time_event_queue_free q = Some q' \<and> (\<forall>e. \<not> te_alive q' e) \<and>
       (\<forall>n. \<not> node_alive (te_prioq q') n) \<and> te_timeout q' = None)"
proof -
  have o: "teq_ok q" by (rule te_reachable_ok [OF assms])
  then have "teq_core q" by (simp add: teq_ok_def)
  from te_exec_ok [OF this, of a] expiration_event_ok [OF assms(1) o, of now] show ?thesis
    using teq_ok_timeout [OF o] queue_free_ok [OF o] by auto
qed

text \<open>A callback that runs every second.\<close>

definition every_second :: "unit \<Rightarrow> nat \<Rightarrow> unit teq \<Rightarrow> unit teq outcome" where
  "every_second c e q = avahi_time_event_update q e (avahi_timeval_add (te_expiry q e) 1000000)"

lemma every_second_client: "te_client every_second"
  unfolding te_client_def
proof (intro allI impI)
  fix c :: unit and e and q :: "unit teq"
  assume "te_alive q e"
  then show "\<exists>as. te_all_allowed q as \<and> every_second c e q = te_run q as"
    by (intro exI [of _ "[Te_update e (avahi_timeval_add (te_expiry q e) 1000000)]"])
      (auto simp: every_second_def split: option.splits)
qed

text \<open>Two events, created in this order.\<close>

definition two_events :: "unit teq outcome" where
  "two_events = te_run avahi_time_event_queue_new
     [Te_new (Some \<lparr>tv_sec = 9, tv_usec = 0\<rparr>) (), Te_new (Some \<lparr>tv_sec = 7, tv_usec = 0\<rparr>) ()]"

lemma two_events_ok:
  "\<exists>q. two_events = Some q \<and> te_reachable every_second q \<and> te_alive q 1 \<and> te_expiry q 1 = \<lparr>tv_sec = 7, tv_usec = 0\<rparr>"
proof -
  let ?a = "Te_new (Some \<lparr>tv_sec = 9, tv_usec = 0\<rparr>) ()" and ?b = "Te_new (Some \<lparr>tv_sec = 7, tv_usec = 0\<rparr>) ()"
  from te_exec_ok [of avahi_time_event_queue_new ?a] teq_ok_new obtain q1 where
    q1: "te_exec avahi_time_event_queue_new ?a = Some q1" "teq_ok q1" by (auto simp: teq_ok_def)
  from te_exec_ok [of q1 ?b] q1(2) obtain q2 where
    q2: "te_exec q1 ?b = Some q2" "teq_ok q2" by (auto simp: teq_ok_def)
  have e: "two_events = Some q2" using q1(1) q2(1) by (simp add: two_events_def)
  have "te_reachable every_second q2"
    using te_reachable.operation [OF te_reachable.operation [OF te_reachable.start _ q1(1)] _ q2(1)] by simp
  moreover have "te_view q2 1 = Some (\<lparr>tv_sec = 7, tv_usec = 0\<rparr>, \<lparr>tv_sec = 0, tv_usec = 0\<rparr>, Some ())"
  proof -
    have "teq_core (avahi_time_event_queue_new :: unit teq)" using teq_ok_new [where 'a = unit] by (simp add: teq_ok_def)
    from event_new_ok [OF this, of "Some \<lparr>tv_sec = 9, tv_usec = 0\<rparr>" "()"] q1(1) have "te_next q1 = 1"
      by auto (simp add: avahi_time_event_queue_new_def)
    then show ?thesis
      using q2(1) event_new_ok [of q1 "Some \<lparr>tv_sec = 7, tv_usec = 0\<rparr>" "()"] q1(2) by (auto simp: teq_ok_def)
  qed
  ultimately show ?thesis using e by (auto simp: te_view_Some)
qed

theorem timeout_always_earliest_witness:
  "\<exists>q q'. two_events = Some q \<and> timeout_earliest (te_view q) (te_timeout q) \<and> avahi_time_event_queue_free q = Some q'"
  using two_events_ok timeout_always_earliest [OF every_second_client] by metis

text \<open>
  C24: the queue refines a table of events. For any sequence of creations, and of releases and updates
  of events in the table, every call returns, the events of the queue with their expiries, last runs
  and callbacks are those of the table, and the timeout is armed for the earliest of them.
\<close>

theorem time_events_refine_table:
  fixes as :: "'a te_op list"
  assumes "te_spec 0 (\<lambda>_. None) as = Some f"
  shows "\<exists>q. te_run avahi_time_event_queue_new as = Some q \<and> te_view q = f \<and> timeout_earliest f (te_timeout q)"
proof -
  let ?q = "avahi_time_event_queue_new :: 'a teq"
  have "te_next ?q = 0" "te_view ?q = (\<lambda>_. None)"
    by (simp_all add: avahi_time_event_queue_new_def te_view_def fun_eq_iff)
  with assms have "te_spec (te_next ?q) (te_view ?q) as = Some f" by simp
  from te_run_spec [OF teq_ok_new this] obtain q where "te_run ?q as = Some q" "teq_ok q" "te_view q = f" by blast
  with teq_ok_timeout show ?thesis by blast
qed

theorem time_events_refine_table_witness:
  "\<exists>q. te_run avahi_time_event_queue_new
      [Te_new (Some \<lparr>tv_sec = 9, tv_usec = 0\<rparr>) (), Te_new None (), Te_update 1 \<lparr>tv_sec = 8, tv_usec = 5\<rparr>, Te_free 0] = Some q \<and>
    timeout_earliest [1 \<mapsto> (\<lparr>tv_sec = 8, tv_usec = 5\<rparr>, \<lparr>tv_sec = 0, tv_usec = 0\<rparr>, Some ())] (te_timeout q)"
proof -
  have "te_spec 0 (\<lambda>_. None)
      [Te_new (Some \<lparr>tv_sec = 9, tv_usec = 0\<rparr>) (), Te_new None (), Te_update 1 \<lparr>tv_sec = 8, tv_usec = 5\<rparr>, Te_free 0] =
    Some [1 \<mapsto> (\<lparr>tv_sec = 8, tv_usec = 5\<rparr>, \<lparr>tv_sec = 0, tv_usec = 0\<rparr>, Some ())]"
    by (auto simp: fun_eq_iff)
  from time_events_refine_table [OF this] show ?thesis by blast
qed

text \<open>
  C34: when no event has expired \<open>expiration_event\<close> changes nothing and calls no callback. When one
  has, it calls the callback of exactly one event: one that has expired, with the earliest expiry and
  among those the one that was run the longest ago; before the call that event is marked as run now
  and the queue is in order again, and afterwards the timeout is armed anew.
\<close>

theorem expiration_runs_earliest:
  assumes "te_client run" "te_reachable run q"
  shows "if \<exists>e. te_alive q e \<and> avahi_timeval_compare now (te_expiry q e) \<ge> 0
    then \<exists>d c p. te_view q d = Some (te_expiry q d, te_last_run q d, Some c) \<and>
      avahi_timeval_compare now (te_expiry q d) \<ge> 0 \<and>
      (\<forall>e. te_alive q e \<longrightarrow> te_compare q d e \<le> 0) \<and>
      teq_core (q\<lparr>te_last_run := (te_last_run q)(d := now), te_prioq := p\<rparr>) \<and>
      expiration_event run now q =
        Option.bind (run c d (q\<lparr>te_last_run := (te_last_run q)(d := now), te_prioq := p\<rparr>)) update_timeout
    else expiration_event run now q = Some q"
proof -
  have o: "teq_ok q" by (rule te_reachable_ok [OF assms])
  show ?thesis
  proof (cases "\<exists>e. te_alive q e \<and> avahi_timeval_compare now (te_expiry q e) \<ge> 0")
    case True
    then obtain e where "te_alive q e" "avahi_timeval_compare now (te_expiry q e) \<ge> 0" by blast
    from expiration_event_run [OF o this, of run] obtain d c p where d: "te_alive q d" "te_callback q d = Some c"
      "avahi_timeval_compare now (te_expiry q d) \<ge> 0" "\<forall>e. te_alive q e \<longrightarrow> te_compare q d e \<le> 0"
      "teq_core (q\<lparr>te_last_run := (te_last_run q)(d := now), te_prioq := p\<rparr>)"
      "expiration_event run now q =
        Option.bind (run c d (q\<lparr>te_last_run := (te_last_run q)(d := now), te_prioq := p\<rparr>)) update_timeout" by blast
    from d(1,2) have "te_view q d = Some (te_expiry q d, te_last_run q d, Some c)" by (simp add: te_view_def)
    with d(3-6) True show ?thesis by (simp only: if_True) blast
  next
    case False
    then have "avahi_timeval_compare now (te_expiry q e) < 0" if "te_alive q e" for e using that by force
    from expiration_event_idle [OF o this] show ?thesis unfolding if_not_P [OF False] .
  qed
qed

theorem expiration_runs_earliest_witness:
  "\<exists>q d c p. two_events = Some q \<and> te_view q d = Some (te_expiry q d, te_last_run q d, Some c) \<and>
    expiration_event every_second \<lparr>tv_sec = 8, tv_usec = 0\<rparr> q =
      Option.bind (every_second c d (q\<lparr>te_last_run := (te_last_run q)(d := \<lparr>tv_sec = 8, tv_usec = 0\<rparr>), te_prioq := p\<rparr>)) update_timeout"
proof -
  from two_events_ok obtain q where q: "two_events = Some q" "te_reachable every_second q" "te_alive q 1"
    "te_expiry q 1 = \<lparr>tv_sec = 7, tv_usec = 0\<rparr>" by blast
  have "\<exists>e. te_alive q e \<and> avahi_timeval_compare \<lparr>tv_sec = 8, tv_usec = 0\<rparr> (te_expiry q e) \<ge> 0"
    using q(3,4) by (intro exI [of _ 1]) (simp add: avahi_timeval_compare_def)
  with expiration_runs_earliest [OF every_second_client q(2), of "\<lparr>tv_sec = 8, tv_usec = 0\<rparr>"] q(1) show ?thesis
    by auto
qed

end
