(* ===== verification/Domainutil.thy ===== *)
theory Domainutil
  imports Alternative Address
begin

text \<open>
  Comparing names for the conflict rules and finding a host name (avahi-core/domain-util.c). What
  \<open>gethostname\<close>, \<open>uname\<close> and the file \<open>/etc/lsb-release\<close> give are arguments: \<open>None\<close> when the call
  fails, the file as the pieces \<open>fgets\<close> reads. The same-pointer shortcut of
  \<open>avahi_binary_domain_cmp\<close> is left out.
\<close>

subsection \<open>Names\<close>

function avahi_binary_domain_cmp :: "cstr \<Rightarrow> cstr \<Rightarrow> int outcome" where
  "avahi_binary_domain_cmp a b =
     (case avahi_unescape_label AVAHI_LABEL_MAX a of
        None \<Rightarrow> crash
      | Some (ca, a') \<Rightarrow>
          (case avahi_unescape_label AVAHI_LABEL_MAX b of
             None \<Rightarrow> crash
           | Some (cb, b') \<Rightarrow>
               if strcmp ca cb \<noteq> 0 then Some (strcmp ca cb)
               else if a' = [] \<and> b' = [] then Some 0
               else avahi_binary_domain_cmp a' b'))"
  by pat_completeness auto
termination
proof (relation "measure (\<lambda>(a, b). length a + length b)", goal_cases)
  case (2 a b x ca a' y cb b')
  then show ?case
    using unescape_label_shorter [of AVAHI_LABEL_MAX a ca a'] unescape_label_shorter [of AVAHI_LABEL_MAX b cb b']
    by (cases a; cases b) fastforce+
qed simp

declare avahi_binary_domain_cmp.simps [simp del]

function avahi_domain_ends_with :: "cstr \<Rightarrow> cstr \<Rightarrow> bool outcome" where
  "avahi_domain_ends_with domain suffix =
     (if domain = [] then Some False
      else do {
        e \<leftarrow> avahi_domain_equal domain suffix;
        if e then Some True
        else case avahi_unescape_label AVAHI_LABEL_MAX domain of
          None \<Rightarrow> crash
        | Some (_, domain') \<Rightarrow> avahi_domain_ends_with domain' suffix
      })"
  by pat_completeness auto
termination
  by (relation "measure (\<lambda>(d, _). length d)") (auto dest: unescape_label_shorter)

declare avahi_domain_ends_with.simps [simp del]

subsection \<open>The host name\<close>

definition host_char :: "byte \<Rightarrow> bool" where
  "host_char c \<longleftrightarrow> 97 \<le> c \<and> c \<le> 122 \<or> 65 \<le> c \<and> c \<le> 90 \<or> 48 \<le> c \<and> c \<le> 57 \<or> c = 45"

definition strip_bad_chars :: "cstr \<Rightarrow> cstr" where
  "strip_bad_chars s = filter host_char (takeWhile (\<lambda>c. c \<noteq> dot) s)"

text \<open>The lines as \<open>fgets\<close> delivers them.\<close>

fun load_lsb_distrib_id :: "cstr list \<Rightarrow> nat \<Rightarrow> cstr option" where
  "load_lsb_distrib_id [] sz = None"
| "load_lsb_distrib_id (ln # lns) sz =
     (if take 11 ln \<noteq> str ''DISTRIB_ID='' then load_lsb_distrib_id lns sz
      else let p = drop 11 ln;
               p = dropWhile (\<lambda>c. c = 34) p;
               p = takeWhile (\<lambda>c. c \<noteq> 34) p
           in Some (take (sz - 1) p))"

text \<open>When no host name was set: the name of the distribution, or that of the system.\<close>

definition os_name :: "cstr list option \<Rightarrow> cstr option \<Rightarrow> nat \<Rightarrow> cstr" where
  "os_name lsb_release uname sz =
     (let s = (case Option.bind lsb_release (\<lambda>f. load_lsb_distrib_id f sz) of
          Some d \<Rightarrow> avahi_strdown (strip_bad_chars d)
        | None \<Rightarrow> []) in
      if s = [] then
        (let s = (case uname of Some u \<Rightarrow> avahi_strdown (strip_bad_chars (take (sz - 1) u)) | None \<Rightarrow> []) in
         if s = [] then take (sz - 1) (str ''unnamed'') else s)
      else s)"

definition avahi_get_host_name ::
  "cstr option \<Rightarrow> cstr list option \<Rightarrow> cstr option \<Rightarrow> nat \<Rightarrow> cstr outcome" where
  "avahi_get_host_name gethostname lsb_release uname sz = do {
     assert_that (sz > 0);
     let s = (case gethostname of Some h \<Rightarrow> strip_bad_chars (take (sz - 1) h) | None \<Rightarrow> []);
     let s = (if s = str ''localhost'' \<or> take 10 s = str ''localhost.'' then [] else s);
     let s = (if s = [] then os_name lsb_release uname sz else s);
     Some (if sz \<ge> AVAHI_LABEL_MAX then take (AVAHI_LABEL_MAX - 1) s else s)
   }"

definition avahi_get_host_name_strdup ::
  "cstr option \<Rightarrow> cstr list option \<Rightarrow> cstr option \<Rightarrow> cstr outcome" where
  "avahi_get_host_name_strdup gethostname lsb_release uname =
     avahi_get_host_name gethostname lsb_release uname AVAHI_DOMAIN_NAME_MAX"

subsection \<open>Host names\<close>

lemma strip_bad_chars_ok: "list_all host_char (strip_bad_chars s)"
  by (simp add: strip_bad_chars_def list_all_iff)

lemma host_char_tolower: "host_char c \<Longrightarrow> host_char (tolower_c c)"
  by (auto simp: host_char_def tolower_c_def word_le_nat_alt unat_word_ariths)

lemma strdown_ok: "list_all host_char s \<Longrightarrow> list_all host_char (avahi_strdown s)"
  by (induction s) (simp_all add: avahi_strdown_def host_char_tolower)

lemma list_all_take: "list_all P s \<Longrightarrow> list_all P (take n s)"
  by (auto simp: list_all_iff dest: in_set_takeD)

lemma os_name_ok: "list_all host_char (os_name l u sz)" "1 < sz \<Longrightarrow> os_name l u sz \<noteq> []"
proof -
  have "list_all host_char (str ''unnamed'')" by code_simp
  then show "list_all host_char (os_name l u sz)"
    by (auto simp: os_name_def Let_def strip_bad_chars_ok strdown_ok simp del: str_simps
        intro!: list_all_take split: option.split)
  show "1 < sz \<Longrightarrow> os_name l u sz \<noteq> []" by (auto simp: os_name_def Let_def)
qed

lemma get_host_name_ok:
  assumes "1 < sz"
  shows "\<exists>s. avahi_get_host_name h l u sz = Some s \<and> s \<noteq> [] \<and> list_all host_char s \<and>
    (AVAHI_LABEL_MAX \<le> sz \<longrightarrow> length s < AVAHI_LABEL_MAX)"
proof -
  define s1 where "s1 = (let s = (case h of Some h \<Rightarrow> strip_bad_chars (take (sz - 1) h) | None \<Rightarrow> []);
     s = (if s = str ''localhost'' \<or> take 10 s = str ''localhost.'' then [] else s) in
     if s = [] then os_name l u sz else s)"
  have "s1 \<noteq> []" "list_all host_char s1"
    unfolding s1_def Let_def using assms os_name_ok strip_bad_chars_ok by (auto split: option.split simp del: str_simps)
  moreover have "avahi_get_host_name h l u sz = Some (if sz \<ge> AVAHI_LABEL_MAX then take (AVAHI_LABEL_MAX - 1) s1 else s1)"
    using assms by (simp add: avahi_get_host_name_def s1_def Let_def)
  ultimately show ?thesis by (auto simp: AVAHI_LABEL_MAX_def intro: list_all_take)
qed

lemma host_char_plain: "host_char c \<Longrightarrow> c \<noteq> 0 \<and> c < 128 \<and> c \<noteq> dot \<and> c \<noteq> backslash"
  by (auto simp: host_char_def word_le_nat_alt word_less_nat_alt)

subsection \<open>Property\<close>

text \<open>
  Whatever the host name, the distribution file and \<open>uname\<close> give, \<open>avahi_get_host_name_strdup\<close>
  returns a name of letters, digits and hyphens that is a valid host name.
\<close>

theorem host_name_always_valid:
  "\<exists>s. avahi_get_host_name_strdup h lsb u = Some s \<and> avahi_is_valid_host_name s \<and> list_all host_char s"
proof -
  obtain s where s: "avahi_get_host_name h lsb u AVAHI_DOMAIN_NAME_MAX = Some s" "s \<noteq> []" "list_all host_char s"
    "length s < 64"
    using get_host_name_ok [of AVAHI_DOMAIN_NAME_MAX h lsb u] by (auto simp: AVAHI_DOMAIN_NAME_MAX_def AVAHI_LABEL_MAX_def)
  then have c: "c < 128" "c \<noteq> dot" "c \<noteq> backslash" if "c \<in> set s" for c
    using that host_char_plain by (auto simp: list_all_iff)
  then have "avahi_utf8_valid s" "dot \<notin> set s" "backslash \<notin> set s" by (auto intro: avahi_utf8_valid_ascii)
  with s show ?thesis by (simp add: avahi_get_host_name_strdup_def host_name_plain)
qed

end
