(* ===== verification/Rr.thy ===== *)
theory Rr
  imports Domainutil Strlst Hashmap
begin

text \<open>
  Keys and resource records (avahi-core/rr.c). Both are immutable in the code and shared by
  reference counts; here they are values, and the counting is left out. The union \<open>data\<close> of a record
  has no tag of its own: the code chooses the member by the type of the key. In the model it is a
  datatype with one constructor per member, and \<open>data_fits\<close> says that the constructor is the one the
  type asks for; every function that makes a record makes such a one, and a function that is given
  two records whose members differ, which their types then do too, crashes. \<open>Unset\<close> are name pointers
  that are still NULL; using them is a crash.
\<close>

subsection \<open>Types and classes\<close>

definition AVAHI_DNS_TYPE_A :: u16 where "AVAHI_DNS_TYPE_A = 0x01"
definition AVAHI_DNS_TYPE_NS :: u16 where "AVAHI_DNS_TYPE_NS = 0x02"
definition AVAHI_DNS_TYPE_CNAME :: u16 where "AVAHI_DNS_TYPE_CNAME = 0x05"
definition AVAHI_DNS_TYPE_SOA :: u16 where "AVAHI_DNS_TYPE_SOA = 0x06"
definition AVAHI_DNS_TYPE_PTR :: u16 where "AVAHI_DNS_TYPE_PTR = 0x0C"
definition AVAHI_DNS_TYPE_HINFO :: u16 where "AVAHI_DNS_TYPE_HINFO = 0x0D"
definition AVAHI_DNS_TYPE_TXT :: u16 where "AVAHI_DNS_TYPE_TXT = 0x10"
definition AVAHI_DNS_TYPE_AAAA :: u16 where "AVAHI_DNS_TYPE_AAAA = 0x1C"
definition AVAHI_DNS_TYPE_SRV :: u16 where "AVAHI_DNS_TYPE_SRV = 0x21"
definition AVAHI_DNS_TYPE_ANY :: u16 where "AVAHI_DNS_TYPE_ANY = 0xFF"
definition AVAHI_DNS_CLASS_IN :: u16 where "AVAHI_DNS_CLASS_IN = 0x01"
definition AVAHI_DNS_CLASS_ANY :: u16 where "AVAHI_DNS_CLASS_ANY = 0xFF"
definition AVAHI_DNS_CACHE_FLUSH :: u16 where "AVAHI_DNS_CACHE_FLUSH = 0x8000"
definition AVAHI_DNS_UNICAST_RESPONSE :: u16 where "AVAHI_DNS_UNICAST_RESPONSE = 0x8000"
definition AVAHI_DEFAULT_TTL :: u32 where "AVAHI_DEFAULT_TTL = 4500"

lemmas dns_type_defs = AVAHI_DNS_TYPE_A_def AVAHI_DNS_TYPE_NS_def AVAHI_DNS_TYPE_CNAME_def AVAHI_DNS_TYPE_SOA_def
  AVAHI_DNS_TYPE_PTR_def AVAHI_DNS_TYPE_HINFO_def AVAHI_DNS_TYPE_TXT_def AVAHI_DNS_TYPE_AAAA_def
  AVAHI_DNS_TYPE_SRV_def AVAHI_DNS_TYPE_ANY_def

definition name_type :: "u16 \<Rightarrow> bool" where
  "name_type t \<longleftrightarrow> t = AVAHI_DNS_TYPE_PTR \<or> t = AVAHI_DNS_TYPE_CNAME \<or> t = AVAHI_DNS_TYPE_NS"

subsection \<open>Keys\<close>

record rrkey =
  key_name :: cstr
  key_clazz :: u16
  key_type :: u16

definition avahi_key_new :: "cstr \<Rightarrow> u16 \<Rightarrow> u16 \<Rightarrow> rrkey option outcome" where
  "avahi_key_new name class type = do {
     n \<leftarrow> avahi_normalize_name_strdup name;
     Some (map_option (\<lambda>n. \<lparr>key_name = n, key_clazz = class, key_type = type\<rparr>) n)
   }"

definition avahi_key_new_cname :: "rrkey \<Rightarrow> rrkey option outcome" where
  "avahi_key_new_cname key =
     (if key_clazz key \<noteq> AVAHI_DNS_CLASS_IN then Some None
      else if key_type key = AVAHI_DNS_TYPE_CNAME then Some None
      else avahi_key_new (key_name key) (key_clazz key) AVAHI_DNS_TYPE_CNAME)"

definition avahi_dns_class_to_string :: "u16 \<Rightarrow> cstr option" where
  "avahi_dns_class_to_string class =
     (if class AND AVAHI_DNS_CACHE_FLUSH \<noteq> 0 then Some (str ''FLUSH'')
      else if class = AVAHI_DNS_CLASS_IN then Some (str ''IN'')
      else if class = AVAHI_DNS_CLASS_ANY then Some (str ''ANY'')
      else None)"

definition avahi_dns_type_to_string :: "u16 \<Rightarrow> cstr option" where
  "avahi_dns_type_to_string type =
     (if type = AVAHI_DNS_TYPE_CNAME then Some (str ''CNAME'')
      else if type = AVAHI_DNS_TYPE_A then Some (str ''A'')
      else if type = AVAHI_DNS_TYPE_AAAA then Some (str ''AAAA'')
      else if type = AVAHI_DNS_TYPE_PTR then Some (str ''PTR'')
      else if type = AVAHI_DNS_TYPE_HINFO then Some (str ''HINFO'')
      else if type = AVAHI_DNS_TYPE_TXT then Some (str ''TXT'')
      else if type = AVAHI_DNS_TYPE_SRV then Some (str ''SRV'')
      else if type = AVAHI_DNS_TYPE_ANY then Some (str ''ANY'')
      else if type = AVAHI_DNS_TYPE_SOA then Some (str ''SOA'')
      else if type = AVAHI_DNS_TYPE_NS then Some (str ''NS'')
      else None)"

definition avahi_key_to_string :: "rrkey \<Rightarrow> cstr" where
  "avahi_key_to_string k =
     (let c = (case avahi_dns_class_to_string (key_clazz k) of
             Some c \<Rightarrow> c | None \<Rightarrow> str ''CLASS'' @ decimal (unat (key_clazz k)));
          t = (case avahi_dns_type_to_string (key_type k) of
             Some t \<Rightarrow> t | None \<Rightarrow> str ''TYPE'' @ decimal (unat (key_type k)))
      in key_name k @ 9 # c @ 9 # t)"

definition avahi_key_equal :: "rrkey \<Rightarrow> rrkey \<Rightarrow> bool outcome" where
  "avahi_key_equal a b = do {
     e \<leftarrow> avahi_domain_equal (key_name a) (key_name b);
     Some (e \<and> key_type a = key_type b \<and> key_clazz a = key_clazz b)
   }"

definition avahi_key_is_pattern :: "rrkey \<Rightarrow> bool" where
  "avahi_key_is_pattern k \<longleftrightarrow> key_type k = AVAHI_DNS_TYPE_ANY \<or> key_clazz k = AVAHI_DNS_CLASS_ANY"

definition avahi_key_pattern_match :: "rrkey \<Rightarrow> rrkey \<Rightarrow> bool outcome" where
  "avahi_key_pattern_match pattern k = do {
     assert_that (\<not> avahi_key_is_pattern k);
     e \<leftarrow> avahi_domain_equal (key_name pattern) (key_name k);
     Some (e \<and> (key_type pattern = key_type k \<or> key_type pattern = AVAHI_DNS_TYPE_ANY) \<and>
       (key_clazz pattern = key_clazz k \<or> key_clazz pattern = AVAHI_DNS_CLASS_ANY))
   }"

definition avahi_key_hash :: "rrkey \<Rightarrow> u32 outcome" where
  "avahi_key_hash k = do {
     h \<leftarrow> avahi_domain_hash (key_name k);
     Some (h + ucast (key_type k) + ucast (key_clazz k))
   }"

definition avahi_key_get_estimate_size :: "rrkey \<Rightarrow> nat" where
  "avahi_key_get_estimate_size k = length (key_name k) + 1 + 4"

definition avahi_key_is_valid :: "rrkey \<Rightarrow> bool" where
  "avahi_key_is_valid k \<longleftrightarrow> avahi_is_valid_domain_name (key_name k)"

subsection \<open>Records\<close>

text \<open>\<open>Generic None\<close> is a NULL \<open>data\<close> with \<open>size\<close> 0; otherwise \<open>size\<close> is the length of the data.\<close>

datatype rdata =
    Generic "byte list option"
  | Srv u16 u16 u16 cstr
  | Ptr cstr
  | Hinfo cstr cstr
  | Txt string_list
  | A_addr "byte list"
  | Aaaa_addr "byte list"
  | Unset

record rr =
  rr_key :: rrkey
  rr_ttl :: u32
  rr_data :: rdata

definition generic_type :: "u16 \<Rightarrow> bool" where
  "generic_type t \<longleftrightarrow> \<not> name_type t \<and> t \<noteq> AVAHI_DNS_TYPE_SRV \<and> t \<noteq> AVAHI_DNS_TYPE_HINFO \<and> t \<noteq> AVAHI_DNS_TYPE_TXT \<and>
     t \<noteq> AVAHI_DNS_TYPE_A \<and> t \<noteq> AVAHI_DNS_TYPE_AAAA"

definition data_fits :: "u16 \<Rightarrow> rdata \<Rightarrow> bool" where
  "data_fits t d =
     (case d of
        Generic x \<Rightarrow> generic_type t \<and> (case x of None \<Rightarrow> True | Some b \<Rightarrow> length b < 65536)
      | Srv _ _ _ n \<Rightarrow> t = AVAHI_DNS_TYPE_SRV \<and> no_nul n
      | Ptr n \<Rightarrow> name_type t \<and> no_nul n
      | Hinfo cpu os \<Rightarrow> t = AVAHI_DNS_TYPE_HINFO \<and> no_nul cpu \<and> no_nul os
      | Txt _ \<Rightarrow> t = AVAHI_DNS_TYPE_TXT
      | A_addr a \<Rightarrow> t = AVAHI_DNS_TYPE_A \<and> length a = 4
      | Aaaa_addr a \<Rightarrow> t = AVAHI_DNS_TYPE_AAAA \<and> length a = 16
      | Unset \<Rightarrow> name_type t \<or> t = AVAHI_DNS_TYPE_SRV \<or> t = AVAHI_DNS_TYPE_HINFO)"

text \<open>The union after \<open>memset (&r->data, 0, sizeof (r->data))\<close>, read as the type of the key asks.\<close>

definition zero_data :: "u16 \<Rightarrow> rdata" where
  "zero_data t =
     (if name_type t \<or> t = AVAHI_DNS_TYPE_SRV \<or> t = AVAHI_DNS_TYPE_HINFO then Unset
      else if t = AVAHI_DNS_TYPE_TXT then Txt []
      else if t = AVAHI_DNS_TYPE_A then A_addr (replicate 4 0)
      else if t = AVAHI_DNS_TYPE_AAAA then Aaaa_addr (replicate 16 0)
      else Generic None)"

definition avahi_record_new :: "rrkey \<Rightarrow> u32 \<Rightarrow> rr" where
  "avahi_record_new k ttl =
     \<lparr>rr_key = k, rr_ttl = (if ttl \<noteq> - 1 then ttl else AVAHI_DEFAULT_TTL), rr_data = zero_data (key_type k)\<rparr>"

definition avahi_record_new_full :: "cstr \<Rightarrow> u16 \<Rightarrow> u16 \<Rightarrow> u32 \<Rightarrow> rr option outcome" where
  "avahi_record_new_full name class type ttl = do {
     k \<leftarrow> avahi_key_new name class type;
     Some (map_option (\<lambda>k. avahi_record_new k ttl) k)
   }"

definition HEX_digit :: "nat \<Rightarrow> byte" where
  "HEX_digit d = (if d < 10 then byte_of (48 + d) else byte_of (55 + d))"

text \<open>\<open>snprintf\<close> to the buffer of 1024 bytes; at most 20 bytes of generic data are shown.\<close>

definition avahi_record_to_string :: "(int \<Rightarrow> byte list \<Rightarrow> nat \<Rightarrow> cstr option) \<Rightarrow> rr \<Rightarrow> cstr outcome" where
  "avahi_record_to_string inet_ntop r = do {
     t \<leftarrow> (case rr_data r of
         A_addr a \<Rightarrow> inet_ntop AF_INET a 1024
       | Aaaa_addr a \<Rightarrow> inet_ntop AF_INET6 a 1024
       | Ptr n \<Rightarrow> Some n
       | Txt l \<Rightarrow> Some (avahi_string_list_to_string l)
       | Hinfo cpu os \<Rightarrow> Some (take 1023 (34 # cpu @ [34, 32, 34] @ os @ [34]))
       | Srv priority weight port n \<Rightarrow>
           Some (take 1023 (decimal (unat priority) @ 32 # decimal (unat weight) @ 32 # decimal (unat port) @ 32 # n))
       | Generic d \<Rightarrow>
           (let b = (case d of None \<Rightarrow> [] | Some b \<Rightarrow> b) in
            Some (str [CHR 0x5C] @ str ''# '' @ decimal (length b) @
              concat (map (\<lambda>c. [32, HEX_digit (unat c div 16), HEX_digit (unat c mod 16)]) (take 20 b))))
       | Unset \<Rightarrow> crash);
     Some (avahi_key_to_string (rr_key r) @ 32 # t @ str '' ; ttl='' @ decimal (unat (rr_ttl r)))
   }"

definition rdata_equal :: "rr \<Rightarrow> rr \<Rightarrow> bool outcome" where
  "rdata_equal a b = do {
     assert_that (key_type (rr_key a) = key_type (rr_key b));
     (case (rr_data a, rr_data b) of
        (Srv p w q n, Srv p' w' q' n') \<Rightarrow>
          if p = p' \<and> w = w' \<and> q = q' then avahi_domain_equal n n' else Some False
      | (Ptr n, Ptr n') \<Rightarrow> avahi_domain_equal n n'
      | (Hinfo cpu os, Hinfo cpu' os') \<Rightarrow> Some (strcmp cpu cpu' = 0 \<and> strcmp os os' = 0)
      | (Txt l, Txt l') \<Rightarrow> Some (avahi_string_list_equal l l')
      | (A_addr x, A_addr y) \<Rightarrow> Some (memcmp x y = 0)
      | (Aaaa_addr x, Aaaa_addr y) \<Rightarrow> Some (memcmp x y = 0)
      | (Generic x, Generic y) \<Rightarrow>
          (let x = (case x of None \<Rightarrow> [] | Some b \<Rightarrow> b); y = (case y of None \<Rightarrow> [] | Some b \<Rightarrow> b) in
           Some (length x = length y \<and> (length x = 0 \<or> memcmp x y = 0)))
      | _ \<Rightarrow> crash)
   }"

definition avahi_record_equal_no_ttl :: "rr \<Rightarrow> rr \<Rightarrow> bool outcome" where
  "avahi_record_equal_no_ttl a b = do {
     e \<leftarrow> avahi_key_equal (rr_key a) (rr_key b);
     if e then rdata_equal a b else Some False
   }"

text \<open>\<open>avahi_memdup\<close> asserts that its argument is not NULL, and \<open>strdup\<close> reads its.\<close>

definition avahi_record_copy :: "rr \<Rightarrow> rr outcome" where
  "avahi_record_copy r = do {
     d \<leftarrow> (case rr_data r of
         Ptr n \<Rightarrow> Some (Ptr n)
       | Srv p w q n \<Rightarrow> Some (Srv p w q n)
       | Hinfo cpu os \<Rightarrow> Some (Hinfo cpu os)
       | Txt l \<Rightarrow> Some (Txt (avahi_string_list_copy l))
       | A_addr a \<Rightarrow> Some (A_addr a)
       | Aaaa_addr a \<Rightarrow> Some (Aaaa_addr a)
       | Generic b \<Rightarrow> do { assert_that (b \<noteq> None); Some (Generic b) }
       | Unset \<Rightarrow> crash);
     Some \<lparr>rr_key = rr_key r, rr_ttl = rr_ttl r, rr_data = d\<rparr>
   }"

definition avahi_record_get_estimate_size :: "rr \<Rightarrow> nat outcome" where
  "avahi_record_get_estimate_size r = do {
     let n = avahi_key_get_estimate_size (rr_key r) + 4 + 2;
     (case rr_data r of
        Ptr s \<Rightarrow> Some (n + length s + 1)
      | Srv _ _ _ s \<Rightarrow> Some (n + 6 + length s + 1)
      | Hinfo cpu os \<Rightarrow> Some (n + length os + 1 + length cpu + 1)
      | Txt l \<Rightarrow> Some (n + snd (avahi_string_list_serialize l None))
      | A_addr _ \<Rightarrow> Some (n + 4)
      | Aaaa_addr _ \<Rightarrow> Some (n + 16)
      | Generic b \<Rightarrow> Some (n + (case b of None \<Rightarrow> 0 | Some b \<Rightarrow> length b))
      | Unset \<Rightarrow> crash)
   }"

subsection \<open>The order of the conflict rules\<close>

definition lexicographical_memcmp :: "byte list \<Rightarrow> byte list \<Rightarrow> int" where
  "lexicographical_memcmp a b =
     (let al = length a; bl = length b; c = (if al < bl then al else bl); ret = memcmp (take c a) (take c b) in
      if ret \<noteq> 0 then ret
      else if al = bl then 0
      else if al = c then 1 else - 1)"

definition uint16_cmp :: "u16 \<Rightarrow> u16 \<Rightarrow> int" where
  "uint16_cmp a b = (if a = b then 0 else if a < b then - 1 else 1)"

text \<open>The data that \<open>avahi_string_list_serialize\<close> writes to a buffer of the announced size.\<close>

definition txt_data :: "string_list \<Rightarrow> byte list" where
  "txt_data l = fst (avahi_string_list_serialize l (Some (snd (avahi_string_list_serialize l None))))"

definition avahi_record_lexicographical_compare :: "rr \<Rightarrow> rr \<Rightarrow> int outcome" where
  "avahi_record_lexicographical_compare a b =
     (let r = uint16_cmp (key_clazz (rr_key a)) (key_clazz (rr_key b)) in
      if r \<noteq> 0 then Some r
      else let r = uint16_cmp (key_type (rr_key a)) (key_type (rr_key b)) in
      if r \<noteq> 0 then Some r
      else case (rr_data a, rr_data b) of
        (Ptr n, Ptr n') \<Rightarrow> avahi_binary_domain_cmp n n'
      | (Srv p w q n, Srv p' w' q' n') \<Rightarrow>
          if uint16_cmp p p' \<noteq> 0 then Some (uint16_cmp p p')
          else if uint16_cmp w w' \<noteq> 0 then Some (uint16_cmp w w')
          else if uint16_cmp q q' \<noteq> 0 then Some (uint16_cmp q q')
          else avahi_binary_domain_cmp n n'
      | (Hinfo cpu os, Hinfo cpu' os') \<Rightarrow>
          Some (if strcmp cpu cpu' \<noteq> 0 then strcmp cpu cpu'
                else if strcmp os os' \<noteq> 0 then strcmp os os'
                else 0)
      | (Txt l, Txt l') \<Rightarrow>
          (let ma = txt_data l; mb = txt_data l' in
           Some (if ma \<noteq> [] \<and> mb \<noteq> [] then lexicographical_memcmp ma mb
                 else if ma \<noteq> [] \<and> mb = [] then 1
                 else if ma = [] \<and> mb \<noteq> [] then - 1
                 else 0))
      | (A_addr x, A_addr y) \<Rightarrow> Some (memcmp x y)
      | (Aaaa_addr x, Aaaa_addr y) \<Rightarrow> Some (memcmp x y)
      | (Generic x, Generic y) \<Rightarrow> do { x \<leftarrow> x; y \<leftarrow> y; Some (lexicographical_memcmp x y) }
      | _ \<Rightarrow> crash)"

subsection \<open>Validity\<close>

definition avahi_record_is_goodbye :: "rr \<Rightarrow> bool" where
  "avahi_record_is_goodbye r \<longleftrightarrow> rr_ttl r = 0"

definition avahi_record_is_valid :: "rr \<Rightarrow> bool outcome" where
  "avahi_record_is_valid r =
     (if \<not> avahi_key_is_valid (rr_key r) then Some False
      else case rr_data r of
        Ptr n \<Rightarrow> Some (avahi_is_valid_domain_name n)
      | Srv _ _ _ n \<Rightarrow> Some (avahi_is_valid_domain_name n)
      | Hinfo cpu os \<Rightarrow> Some (length os \<le> 255 \<and> length cpu \<le> 255)
      | Txt l \<Rightarrow> Some (list_all (\<lambda>t. \<not> (length t > 255 \<or> length t \<le> 0)) l)
      | Unset \<Rightarrow> crash
      | _ \<Rightarrow> Some True)"

definition get_address :: "rr \<Rightarrow> address option" where
  "get_address r =
     (case rr_data r of
        A_addr a \<Rightarrow> Some \<lparr>proto = AVAHI_PROTO_INET, addr_bytes = a @ replicate 12 0\<rparr>
      | Aaaa_addr a \<Rightarrow> Some \<lparr>proto = AVAHI_PROTO_INET6, addr_bytes = a\<rparr>
      | _ \<Rightarrow> None)"

definition avahi_record_is_link_local_address :: "rr \<Rightarrow> bool" where
  "avahi_record_is_link_local_address r =
     (case get_address r of None \<Rightarrow> False | Some a \<Rightarrow> avahi_address_is_link_local a)"

subsection \<open>Keys in a hash map\<close>

definition key_readable :: "rrkey \<Rightarrow> bool" where
  "key_readable k \<longleftrightarrow> labels_of (key_name k) \<noteq> None"

definition key_canon :: "rrkey \<Rightarrow> cstr list \<times> u16 \<times> u16" where
  "key_canon k = (canon (the (labels_of (key_name k))), key_type k, key_clazz k)"

lemma key_equal_canon:
  "key_readable a \<Longrightarrow> key_readable b \<Longrightarrow> avahi_key_equal a b = Some (key_canon a = key_canon b)"
  by (auto simp: key_readable_def key_canon_def avahi_key_equal_def domain_equal_canon)

lemma key_hash_canon:
  "key_readable k \<Longrightarrow> avahi_key_hash k =
     (case key_canon k of (ls, t, c) \<Rightarrow> Some (foldl hash_label 0 ls + ucast t + ucast c))"
  by (auto simp: key_readable_def key_canon_def avahi_key_hash_def avahi_domain_hash_def domain_hash_canon)

definition rr_key_eq :: "rrkey \<Rightarrow> rrkey \<Rightarrow> bool" where
  "rr_key_eq a b \<longleftrightarrow> avahi_key_equal a b = Some True"

definition rr_key_hash :: "rrkey \<Rightarrow> u32" where
  "rr_key_hash k = (case avahi_key_hash k of Some h \<Rightarrow> h | None \<Rightarrow> 0)"

interpretation rr_key: hash_key key_readable rr_key_hash rr_key_eq
  by unfold_locales (auto simp: rr_key_eq_def rr_key_hash_def key_equal_canon key_hash_canon)

subsection \<open>The order of the conflict rules\<close>

lemma strcmp_antisym: "strcmp b a = - strcmp a b"
  by (induction a b rule: strcmp.induct) simp_all

lemma binary_domain_cmp_unreadable:
  assumes "avahi_unescape_label AVAHI_LABEL_MAX a = None"
  shows "avahi_binary_domain_cmp a b = None" "avahi_binary_domain_cmp b a = None"
  by (subst avahi_binary_domain_cmp.simps, simp add: assms split: option.split prod.split)+

lemma binary_domain_cmp_step:
  assumes "avahi_unescape_label AVAHI_LABEL_MAX a = Some (x, a')" "avahi_unescape_label AVAHI_LABEL_MAX b = Some (y, b')"
  shows "avahi_binary_domain_cmp a b =
    (if strcmp x y \<noteq> 0 then Some (strcmp x y) else if a' = [] \<and> b' = [] then Some 0 else avahi_binary_domain_cmp a' b')"
  by (subst avahi_binary_domain_cmp.simps) (simp add: assms)

lemma binary_domain_cmp_antisym:
  "avahi_binary_domain_cmp b a = map_option uminus (avahi_binary_domain_cmp a b)"
proof (induction a b rule: avahi_binary_domain_cmp.induct)
  case (1 a b)
  show ?case
  proof (cases "avahi_unescape_label AVAHI_LABEL_MAX a = None \<or> avahi_unescape_label AVAHI_LABEL_MAX b = None")
    case True
    then show ?thesis using binary_domain_cmp_unreadable [of a b] binary_domain_cmp_unreadable [of b a] by auto
  next
    case False
    then obtain x a' y b' where u: "avahi_unescape_label AVAHI_LABEL_MAX a = Some (x, a')"
      "avahi_unescape_label AVAHI_LABEL_MAX b = Some (y, b')" by auto
    have "avahi_binary_domain_cmp b' a' = map_option uminus (avahi_binary_domain_cmp a' b')"
      if "strcmp x y = 0" "\<not> (a' = [] \<and> b' = [])"
      using 1 [OF u(1) refl u(2) refl _ that(2)] that(1) by simp
    then show ?thesis
      unfolding binary_domain_cmp_step [OF u] binary_domain_cmp_step [OF u(2,1)] strcmp_antisym [of y x] by auto
  qed
qed

text \<open>Names that compare equal are equal up to empty labels at the end.\<close>

fun strip_end :: "cstr list \<Rightarrow> cstr list" where
  "strip_end [] = []"
| "strip_end (l # ls) = (if strip_end ls = [] \<and> l = [] then [] else l # strip_end ls)"

lemma canon_strip_end: "canon ls = map (map tolower_c) (strip_end ls)"
  by (induction ls) auto

lemma binary_domain_cmp_zero:
  "no_nul a \<Longrightarrow> no_nul b \<Longrightarrow> labels_of a = Some la \<Longrightarrow> labels_of b = Some lb \<Longrightarrow>
   \<exists>r. avahi_binary_domain_cmp a b = Some r \<and> (r = 0 \<longleftrightarrow> strip_end la = strip_end lb)"
proof (induction "length a + length b" arbitrary: a b la lb rule: less_induct)
  case less
  obtain x a' la' where a: "avahi_unescape_label AVAHI_LABEL_MAX a = Some (x, a')" "labels_of a' = Some la'"
    and ca: "strip_end la = strip_end (x # la')" and sa: "a \<noteq> [] \<longrightarrow> length a' < length a" "a = [] \<longrightarrow> a' = []"
    using less.prems(3) unescape_label_shorter(2) [of AVAHI_LABEL_MAX a]
    by (cases "a = []") (auto simp: labels_of.simps [of a] split: option.splits)
  obtain y b' lb' where b: "avahi_unescape_label AVAHI_LABEL_MAX b = Some (y, b')" "labels_of b' = Some lb'"
    and cb: "strip_end lb = strip_end (y # lb')" and sb: "b \<noteq> [] \<longrightarrow> length b' < length b" "b = [] \<longrightarrow> b' = []"
    using less.prems(4) unescape_label_shorter(2) [of AVAHI_LABEL_MAX b]
    by (cases "b = []") (auto simp: labels_of.simps [of b] split: option.splits)
  have n: "no_nul x" "no_nul a'" "no_nul y" "no_nul b'"
    using unescape_label_result [OF a(1) less.prems(1)] unescape_label_result [OF b(1) less.prems(2)]
    by (auto simp: label_ok_def)
  have ih: "\<not> (a' = [] \<and> b' = []) \<Longrightarrow>
      \<exists>r. avahi_binary_domain_cmp a' b' = Some r \<and> (r = 0 \<longleftrightarrow> strip_end la' = strip_end lb')"
    using sa sb n by (intro less.hyps a(2) b(2)) (cases "a = []"; cases "b = []"; auto)+
  have z: "strcmp x y = 0 \<longleftrightarrow> x = y" using n by (intro strcmp_zero)
  show ?case
    using ih z a(2) b(2) unfolding binary_domain_cmp_step [OF a(1) b(1)] ca cb
    by (cases "a' = []"; cases "b' = []") auto
qed

lemma lexicographical_memcmp_antisym: "lexicographical_memcmp b a = - lexicographical_memcmp a b"
  using memcmp_antisym [of "take (length a) b" a] memcmp_antisym [of b "take (length b) a"]
  by (auto simp: lexicographical_memcmp_def Let_def)

lemma lexicographical_memcmp_zero: "lexicographical_memcmp a b = 0 \<longleftrightarrow> a = b"
  using memcmp_zero [of "take (length b) a" "take (length a) b"] memcmp_zero [of a b]
  by (auto simp: lexicographical_memcmp_def Let_def)

lemma uint16_cmp_zero [simp]: "uint16_cmp a b = 0 \<longleftrightarrow> a = b"
  by (auto simp: uint16_cmp_def)

lemma uint16_cmp_antisym: "uint16_cmp b a = - uint16_cmp a b"
  by (auto simp: uint16_cmp_def)


text \<open>What the conflict rules need of a record: the names can be read, the data is there, and TXT
  data has entries of a length that fits its byte.\<close>

definition name_ok :: "cstr \<Rightarrow> bool" where
  "name_ok n \<longleftrightarrow> no_nul n \<and> labels_of n \<noteq> None"

definition rr_complete :: "rr \<Rightarrow> bool" where
  "rr_complete r \<longleftrightarrow> data_fits (key_type (rr_key r)) (rr_data r) \<and> name_ok (key_name (rr_key r)) \<and>
     (case rr_data r of
        Ptr n \<Rightarrow> name_ok n
      | Srv _ _ _ n \<Rightarrow> name_ok n
      | Txt l \<Rightarrow> list_all (\<lambda>t. t \<noteq> [] \<and> length t < 256) l
      | Generic b \<Rightarrow> b \<noteq> None
      | Unset \<Rightarrow> False
      | _ \<Rightarrow> True)"

text \<open>Two types that ask for the same member.\<close>

lemma data_fits_member:
  assumes "data_fits t x" "data_fits t y" "x \<noteq> Unset" "y \<noteq> Unset"
  shows "(case (x, y) of (Srv _ _ _ _, Srv _ _ _ _) \<Rightarrow> True | (Ptr _, Ptr _) \<Rightarrow> True | (Hinfo _ _, Hinfo _ _) \<Rightarrow> True
    | (Txt _, Txt _) \<Rightarrow> True | (A_addr _, A_addr _) \<Rightarrow> True | (Aaaa_addr _, Aaaa_addr _) \<Rightarrow> True
    | (Generic _, Generic _) \<Rightarrow> True | _ \<Rightarrow> False)"
  using assms by (cases x; cases y) (auto simp: data_fits_def generic_type_def name_type_def dns_type_defs)

lemma data_fits_cases:
  assumes "data_fits t x" "data_fits t y" "x \<noteq> Unset" "y \<noteq> Unset"
  obtains p w q n p' w' q' n' where "x = Srv p w q n" "y = Srv p' w' q' n'" "no_nul n" "no_nul n'"
  | n n' where "x = Ptr n" "y = Ptr n'" "no_nul n" "no_nul n'"
  | c s c' s' where "x = Hinfo c s" "y = Hinfo c' s'" "no_nul c" "no_nul c'" "no_nul s" "no_nul s'"
  | l l' where "x = Txt l" "y = Txt l'"
  | a a' where "x = A_addr a" "y = A_addr a'" "length a = 4" "length a' = 4"
  | a a' where "x = Aaaa_addr a" "y = Aaaa_addr a'" "length a = 16" "length a' = 16"
  | b b' where "x = Generic b" "y = Generic b'"
  using data_fits_member [OF assms] assms
  by (cases x; cases y) (auto simp: data_fits_def)


lemma txt_data_parse:
  assumes "list_all (\<lambda>t. t \<noteq> [] \<and> length t < 256) l"
  shows "avahi_string_list_parse (txt_data l) = Some l"
proof -
  obtain out where o: "avahi_string_list_serialize l (Some (snd (avahi_string_list_serialize l None))) =
      (out, snd (avahi_string_list_serialize l None))" "avahi_string_list_parse out = Some l"
    by (rule exE [OF serialize_parse [OF assms order_refl]]) (erule conjE)
  show ?thesis unfolding txt_data_def o(1) fst_conv by (rule o(2))
qed

lemma txt_data_inj:
  assumes "list_all (\<lambda>t. t \<noteq> [] \<and> length t < 256) l" "list_all (\<lambda>t. t \<noteq> [] \<and> length t < 256) l'"
    "txt_data l = txt_data l'"
  shows "l = l'"
  using txt_data_parse [OF assms(1)] txt_data_parse [OF assms(2)] unfolding assms(3) by simp

lemma record_compare_ok:
  assumes a: "rr_complete a" and b: "rr_complete b"
  shows "\<exists>r. avahi_record_lexicographical_compare a b = Some r \<and>
    avahi_record_lexicographical_compare b a = Some (- r) \<and>
    (r = 0 \<longrightarrow> key_clazz (rr_key a) = key_clazz (rr_key b) \<and> rdata_equal a b = Some True)"
proof (cases "key_clazz (rr_key a) = key_clazz (rr_key b) \<and> key_type (rr_key a) = key_type (rr_key b)")
  case False
  then show ?thesis
    using uint16_cmp_antisym [of "key_clazz (rr_key a)" "key_clazz (rr_key b)"]
      uint16_cmp_antisym [of "key_type (rr_key a)" "key_type (rr_key b)"]
    by (auto simp: avahi_record_lexicographical_compare_def Let_def)
next
  case True
  have f: "data_fits (key_type (rr_key b)) (rr_data a)" "data_fits (key_type (rr_key b)) (rr_data b)"
    "rr_data a \<noteq> Unset" "rr_data b \<noteq> Unset"
    using a b True by (auto simp: rr_complete_def)
  note d = avahi_record_lexicographical_compare_def rdata_equal_def Let_def True
  show ?thesis
  proof (cases rule: data_fits_cases [OF f])
    case (1 p w q n p' w' q' n')
    then obtain la lb where l: "labels_of n = Some la" "labels_of n' = Some lb"
      using a b by (auto simp: rr_complete_def name_ok_def)
    obtain r where r: "avahi_binary_domain_cmp n n' = Some r" "r = 0 \<longleftrightarrow> strip_end la = strip_end lb"
      using binary_domain_cmp_zero [OF 1(3,4) l] by blast
    have e: "r = 0 \<longrightarrow> avahi_domain_equal n n' = Some True"
      using r(2) by (simp add: domain_equal_canon [OF l] canon_strip_end)
    have "avahi_binary_domain_cmp n' n = Some (- r)" using r(1) binary_domain_cmp_antisym [of n' n] by simp
    then show ?thesis
      using r(1) e uint16_cmp_antisym [of p p'] uint16_cmp_antisym [of w w'] uint16_cmp_antisym [of q q']
      by (auto simp: d 1)
  next
    case (2 n n')
    then obtain la lb where l: "labels_of n = Some la" "labels_of n' = Some lb"
      using a b by (auto simp: rr_complete_def name_ok_def)
    obtain r where r: "avahi_binary_domain_cmp n n' = Some r" "r = 0 \<longleftrightarrow> strip_end la = strip_end lb"
      using binary_domain_cmp_zero [OF 2(3,4) l] by blast
    have "r = 0 \<longrightarrow> avahi_domain_equal n n' = Some True"
      using r(2) by (simp add: domain_equal_canon [OF l] canon_strip_end)
    moreover have "avahi_binary_domain_cmp n' n = Some (- r)" using r(1) binary_domain_cmp_antisym [of n' n] by simp
    ultimately show ?thesis using r(1) by (auto simp: d 2)
  next
    case (3 c s c' s')
    then show ?thesis
      using strcmp_antisym [of c c'] strcmp_antisym [of s s'] by (auto simp: d strcmp_zero)
  next
    case (4 l l')
    then have "txt_data l = txt_data l' \<longrightarrow> l = l'" using a b txt_data_inj by (auto simp: rr_complete_def)
    then show ?thesis
      using lexicographical_memcmp_antisym [of "txt_data l" "txt_data l'"]
      by (auto simp: d 4 lexicographical_memcmp_zero equal_iff)
  next
    case (5 x y)
    then show ?thesis using memcmp_antisym [of x y] by (auto simp: d)
  next
    case (6 x y)
    then show ?thesis using memcmp_antisym [of x y] by (auto simp: d)
  next
    case (7 x y)
    then obtain bx "by" where "x = Some bx" "y = Some by" using a b by (auto simp: rr_complete_def)
    then show ?thesis
      using lexicographical_memcmp_antisym [of bx "by"] memcmp_zero [of "by" "by"]
      by (auto simp: d 7 lexicographical_memcmp_zero)
  qed
qed


lemma record_copy_eq:
  "avahi_record_copy r = (if rr_data r = Generic None \<or> rr_data r = Unset then crash else Some r)"
  by (auto simp: avahi_record_copy_def copy_eq assert_that_def split: rdata.split)

lemma record_new_fits: "data_fits (key_type k) (rr_data (avahi_record_new k ttl))"
  by (auto simp: avahi_record_new_def zero_data_def data_fits_def generic_type_def)

subsection \<open>When records are equal but for the TTL\<close>

text \<open>The records the caches and schedulers hold: every name can be read, and the data is there.\<close>

definition rr_readable :: "rr \<Rightarrow> bool" where
  "rr_readable r \<longleftrightarrow> data_fits (key_type (rr_key r)) (rr_data r) \<and> key_readable (rr_key r) \<and>
     (case rr_data r of
        Ptr n \<Rightarrow> labels_of n \<noteq> None
      | Srv _ _ _ n \<Rightarrow> labels_of n \<noteq> None
      | Unset \<Rightarrow> False
      | _ \<Rightarrow> True)"

text \<open>What \<open>rdata_equal\<close> compares: numbers, labels or strings.\<close>

definition data_canon :: "rdata \<Rightarrow> u16 list \<times> byte list list" where
  "data_canon d =
     (case d of
        Srv p w q n \<Rightarrow> ([p, w, q], canon (the (labels_of n)))
      | Ptr n \<Rightarrow> ([], canon (the (labels_of n)))
      | Hinfo cpu os \<Rightarrow> ([], [cpu, os])
      | Txt l \<Rightarrow> ([], l)
      | A_addr a \<Rightarrow> ([], [a])
      | Aaaa_addr a \<Rightarrow> ([], [a])
      | Generic b \<Rightarrow> ([], [case b of None \<Rightarrow> [] | Some b \<Rightarrow> b])
      | Unset \<Rightarrow> ([], []))"

definition rr_canon :: "rr \<Rightarrow> (cstr list \<times> u16 \<times> u16) \<times> u16 list \<times> byte list list" where
  "rr_canon r = (key_canon (rr_key r), data_canon (rr_data r))"

lemma rr_readable_key: "rr_readable r \<Longrightarrow> key_readable (rr_key r)"
  by (simp add: rr_readable_def)

lemma record_equal_canon:
  assumes a: "rr_readable a" and b: "rr_readable b"
  shows "avahi_record_equal_no_ttl a b = Some (rr_canon a = rr_canon b)"
proof (cases "key_canon (rr_key a) = key_canon (rr_key b)")
  case False
  then show ?thesis
    using key_equal_canon [OF rr_readable_key [OF a] rr_readable_key [OF b]]
    by (simp add: avahi_record_equal_no_ttl_def rr_canon_def)
next
  case True
  then have t: "key_type (rr_key a) = key_type (rr_key b)" by (simp add: key_canon_def)
  have e: "avahi_record_equal_no_ttl a b = rdata_equal a b"
    using key_equal_canon [OF rr_readable_key [OF a] rr_readable_key [OF b]] True
    by (simp add: avahi_record_equal_no_ttl_def)
  have f: "data_fits (key_type (rr_key b)) (rr_data a)" "data_fits (key_type (rr_key b)) (rr_data b)"
    "rr_data a \<noteq> Unset" "rr_data b \<noteq> Unset"
    using a b t by (auto simp: rr_readable_def)
  have c: "rr_canon a = rr_canon b \<longleftrightarrow> data_canon (rr_data a) = data_canon (rr_data b)"
    using True by (simp add: rr_canon_def)
  note d = rdata_equal_def e c data_canon_def t
  show ?thesis
  proof (cases rule: data_fits_cases [OF f])
    case (1 p w q n p' w' q' n')
    then obtain la lb where "labels_of n = Some la" "labels_of n' = Some lb"
      using a b by (auto simp: rr_readable_def)
    then show ?thesis by (auto simp: d 1 domain_equal_canon)
  next
    case (2 n n')
    then obtain la lb where "labels_of n = Some la" "labels_of n' = Some lb"
      using a b by (auto simp: rr_readable_def)
    then show ?thesis by (auto simp: d 2 domain_equal_canon)
  qed (auto simp: d strcmp_zero equal_iff memcmp_zero split: option.splits)
qed

lemma record_equal_key: "rr_canon a = rr_canon b \<Longrightarrow> key_canon (rr_key a) = key_canon (rr_key b)"
  by (simp add: rr_canon_def)

lemma pattern_match_ok:
  assumes "key_readable p" "key_readable k" "\<not> avahi_key_is_pattern k"
  shows "avahi_key_pattern_match p k \<noteq> None"
  using assms domain_equal_canon by (auto simp: avahi_key_pattern_match_def key_readable_def)

text \<open>A search for an equal record along a list, as the loops of the program make it.\<close>

fun find_record :: "rr \<Rightarrow> (nat \<Rightarrow> rr option) \<Rightarrow> nat list \<Rightarrow> nat option outcome" where
  "find_record r rec [] = Some None"
| "find_record r rec (x # xs) = do {
     r' \<leftarrow> rec x;
     e \<leftarrow> avahi_record_equal_no_ttl r' r;
     if e then Some (Some x) else find_record r rec xs
   }"

lemma find_record_eq:
  assumes "rr_readable r" "\<And>x. x \<in> set xs \<Longrightarrow> \<exists>r'. rec x = Some r' \<and> rr_readable r'"
  shows "find_record r rec xs = Some (find (\<lambda>x. rr_canon (the (rec x)) = rr_canon r) xs)"
  using assms(2)
proof (induction xs)
  case (Cons x xs)
  from Cons.prems [of x] obtain r' where "rec x = Some r'" "rr_readable r'" by auto
  with Cons show ?case by (simp add: record_equal_canon assms(1))
qed simp

subsection \<open>Properties\<close>

text \<open>
  C36: keys can be used in hash maps. On keys with readable names \<open>avahi_key_equal\<close> returns and decides
  equality of the lower-case labels, the type and the class; equal keys have equal hashes; and for a
  pattern that is none \<open>avahi_key_pattern_match\<close> is the same as \<open>avahi_key_equal\<close>.
\<close>

theorem key_equal_hash_match:
  assumes "key_readable a" "key_readable b"
  shows "avahi_key_equal a b = Some (key_canon a = key_canon b) \<and>
    (avahi_key_equal a b = Some True \<longrightarrow> (\<exists>h. avahi_key_hash a = Some h \<and> avahi_key_hash b = Some h)) \<and>
    (\<not> avahi_key_is_pattern a \<and> \<not> avahi_key_is_pattern b \<longrightarrow> avahi_key_pattern_match a b = avahi_key_equal a b)"
  using key_equal_canon [OF assms] key_hash_canon [OF assms(1)] key_hash_canon [OF assms(2)]
  by (auto simp: avahi_key_pattern_match_def avahi_key_is_pattern_def avahi_key_equal_def Option.bind_eq_Some_conv
      split: prod.split)

theorem key_equal_hash_match_witness:
  "\<exists>h. avahi_key_hash \<lparr>key_name = str ''Host.local'', key_clazz = 1, key_type = 1\<rparr> = Some h \<and>
    avahi_key_hash \<lparr>key_name = str ''host.LOCAL.'', key_clazz = 1, key_type = 1\<rparr> = Some h"
proof -
  let ?a = "\<lparr>key_name = str ''Host.local'', key_clazz = 1, key_type = 1\<rparr>"
  let ?b = "\<lparr>key_name = str ''host.LOCAL.'', key_clazz = 1, key_type = 1\<rparr>"
  have l: "labels_of (str ''Host.local'') = Some [str ''Host'', str ''local'']"
    "labels_of (str ''host.LOCAL.'') = Some [str ''host'', str ''LOCAL'']" by code_simp+
  have "canon [str ''Host'', str ''local''] = canon [str ''host'', str ''LOCAL'']" by code_simp
  with l have k: "key_readable ?a" "key_readable ?b" "key_canon ?a = key_canon ?b"
    by (simp_all add: key_readable_def key_canon_def)
  note p = key_equal_hash_match [OF k(1,2)]
  from p k(3) have "avahi_key_equal ?a ?b = Some True" by simp
  with p show ?thesis by simp
qed

text \<open>
  C28: both sides of a conflict come to the same verdict. For two records with readable names,
  allocated data and non-empty TXT entries \<open>avahi_record_lexicographical_compare\<close> returns, the result
  changes its sign when the records are exchanged, and it is zero only for records with the same
  class, type and, by \<open>rdata_equal\<close>, the same data.
\<close>

theorem conflict_verdicts_agree:
  assumes "rr_complete a" "rr_complete b"
  shows "\<exists>r. avahi_record_lexicographical_compare a b = Some r \<and>
    avahi_record_lexicographical_compare b a = Some (- r) \<and>
    (r = 0 \<longrightarrow> key_clazz (rr_key a) = key_clazz (rr_key b) \<and> rdata_equal a b = Some True)"
  using assms by (rule record_compare_ok)

definition sample_srv :: "u16 \<Rightarrow> rr" where
  "sample_srv port =
     \<lparr>rr_key = \<lparr>key_name = str ''x.local'', key_clazz = AVAHI_DNS_CLASS_IN, key_type = AVAHI_DNS_TYPE_SRV\<rparr>, rr_ttl = 120,
      rr_data = Srv 0 0 port (str ''h.local'')\<rparr>"

lemma sample_srv_complete: "rr_complete (sample_srv port)"
proof -
  have "labels_of (str ''x.local'') = Some [str ''x'', str ''local'']" "labels_of (str ''h.local'') = Some [str ''h'', str ''local'']"
    by code_simp+
  then show ?thesis by (simp add: rr_complete_def sample_srv_def data_fits_def name_ok_def)
qed

lemma sample_srv_readable: "rr_readable (sample_srv port)"
  using sample_srv_complete [of port] by (auto simp: rr_readable_def rr_complete_def key_readable_def name_ok_def split: rdata.splits)

theorem conflict_verdicts_agree_witness:
  "\<exists>r. avahi_record_lexicographical_compare (sample_srv 80) (sample_srv 443) = Some r \<and>
    avahi_record_lexicographical_compare (sample_srv 443) (sample_srv 80) = Some (- r) \<and> r < 0"
proof -
  have "avahi_record_lexicographical_compare (sample_srv 80) (sample_srv 443) = Some (- 1)"
    by (simp add: avahi_record_lexicographical_compare_def sample_srv_def uint16_cmp_def)
  with conflict_verdicts_agree [OF sample_srv_complete sample_srv_complete, of 80 443] show ?thesis by auto
qed

text \<open>
  The order is not the one of the data on the wire. A record whose data is a proper prefix of that
  of the other is called the greater one, and names are compared label by label without regard to the
  length bytes: \<open>b\<close> is called greater than \<open>aa\<close>, whose wire form starts with the greater byte.
\<close>

theorem conflict_order_not_wire_order:
  "lexicographical_memcmp [1, 2] [1, 2, 3] > 0 \<and>
   avahi_binary_domain_cmp (str ''b'') (str ''aa'') = Some 1 \<and> memcmp (1 # str ''b'') (2 # str ''aa'') < 0"
  by (intro conjI) (simp add: lexicographical_memcmp_def, code_simp, code_simp)

text \<open>
  \<open>avahi_record_copy\<close> returns an equal record, except that it fails an assert of \<open>avahi_memdup\<close> for a
  record of an unknown type that has no data, and reads NULL for one whose names are not set.
\<close>

theorem record_copy_exact:
  "avahi_record_copy r = (if rr_data r = Generic None \<or> rr_data r = Unset then crash else Some r)"
  by (rule record_copy_eq)

end
