(* ===== verification/Dns.thy ===== *)
theory Dns
  imports Rr
begin

text \<open>
  DNS packets (avahi-core/dns.c): reading names, keys and records from the bytes of a packet, and
  appending them, with name compression. A packet is its record; \<open>p_data\<close> is the memory behind
  \<open>AVAHI_DNS_PACKET_DATA (p)\<close>, of which the first \<open>p_size\<close> bytes belong to the packet (memory that
  was never written is zero in the model). A pointer into it is its offset. Reading or writing
  outside the memory is a crash, and so is a failing assert. A function that reads returns the packet with its
  \<open>rindex\<close> moved and \<open>None\<close> for -1 or NULL; on an error \<open>rindex\<close> stays where the reading stopped.
\<close>

definition AVAHI_DNS_PACKET_HEADER_SIZE :: nat where "AVAHI_DNS_PACKET_HEADER_SIZE = 12"
definition AVAHI_DNS_PACKET_EXTRA_SIZE :: nat where "AVAHI_DNS_PACKET_EXTRA_SIZE = 48"
definition AVAHI_DNS_LABELS_MAX :: nat where "AVAHI_DNS_LABELS_MAX = 127"
definition AVAHI_DNS_RDATA_MAX :: nat where "AVAHI_DNS_RDATA_MAX = 65535"
definition AVAHI_DNS_PACKET_SIZE_MAX :: nat where "AVAHI_DNS_PACKET_SIZE_MAX = 12 + 256 + 2 + 2 + 4 + 2 + 65535"

definition AVAHI_DNS_FIELD_ID :: nat where "AVAHI_DNS_FIELD_ID = 0"
definition AVAHI_DNS_FIELD_FLAGS :: nat where "AVAHI_DNS_FIELD_FLAGS = 1"
definition AVAHI_DNS_FIELD_QDCOUNT :: nat where "AVAHI_DNS_FIELD_QDCOUNT = 2"
definition AVAHI_DNS_FLAG_QR :: u16 where "AVAHI_DNS_FLAG_QR = 0x8000"
definition AVAHI_DNS_FLAG_OPCODE :: u16 where "AVAHI_DNS_FLAG_OPCODE = 0x7800"
definition AVAHI_DNS_FLAG_RCODE :: u16 where "AVAHI_DNS_FLAG_RCODE = 15"

definition AVAHI_DNS_FLAGS ::
  "bool \<Rightarrow> u16 \<Rightarrow> bool \<Rightarrow> bool \<Rightarrow> bool \<Rightarrow> bool \<Rightarrow> bool \<Rightarrow> bool \<Rightarrow> bool \<Rightarrow> u16 \<Rightarrow> u16" where
  "AVAHI_DNS_FLAGS qr opcode aa tc rd ra z ad cd rcode =
     push_bit 15 (of_bool qr) OR push_bit 11 (opcode AND 15) OR push_bit 10 (of_bool aa) OR
     push_bit 9 (of_bool tc) OR push_bit 8 (of_bool rd) OR push_bit 7 (of_bool ra) OR
     push_bit 5 (of_bool ad) OR push_bit 4 (of_bool cd) OR (rcode AND 15)"

record packet =
  p_size :: nat
  p_rindex :: nat
  p_max_size :: nat
  p_res_size :: nat
  p_names :: "(cstr, nat) hashmap option"
  p_data :: "byte list"

type_synonym 'a consumer = "packet \<Rightarrow> (packet \<times> 'a option) outcome"

text \<open>One step of a chain \<open>a < 0 || b < 0 || ...\<close>: the next one runs if this one succeeds.\<close>

definition consume_then :: "'a consumer \<Rightarrow> ('a \<Rightarrow> 'b consumer) \<Rightarrow> 'b consumer" where
  "consume_then m f p = do {
     (p, r) \<leftarrow> m p;
     (case r of None \<Rightarrow> Some (p, None) | Some v \<Rightarrow> f v p)
   }"

text \<open>Access to the memory, and 16 and 32 bit numbers in network order.\<close>

definition p_slice :: "packet \<Rightarrow> nat \<Rightarrow> nat \<Rightarrow> byte list outcome" where
  "p_slice p off n = (if off + n \<le> length (p_data p) then Some (take n (drop off (p_data p))) else crash)"

definition p_write :: "nat \<Rightarrow> byte list \<Rightarrow> packet \<Rightarrow> packet outcome" where
  "p_write off bs p =
     (if off + length bs \<le> length (p_data p)
      then Some (p\<lparr>p_data := take off (p_data p) @ bs @ drop (off + length bs) (p_data p)\<rparr>)
      else crash)"

definition u16_bytes :: "u16 \<Rightarrow> byte list" where
  "u16_bytes v = [ucast (drop_bit 8 v), ucast v]"

definition u32_bytes :: "u32 \<Rightarrow> byte list" where
  "u32_bytes v = [ucast (drop_bit 24 v), ucast (drop_bit 16 v), ucast (drop_bit 8 v), ucast v]"

definition bytes_u16 :: "byte list \<Rightarrow> u16" where
  "bytes_u16 d = push_bit 8 (ucast (d ! 0)) OR ucast (d ! 1)"

definition bytes_u32 :: "byte list \<Rightarrow> u32" where
  "bytes_u32 d = push_bit 24 (ucast (d ! 0)) OR push_bit 16 (ucast (d ! 1)) OR push_bit 8 (ucast (d ! 2)) OR ucast (d ! 3)"

subsection \<open>Header\<close>

definition avahi_dns_packet_new :: "nat \<Rightarrow> packet" where
  "avahi_dns_packet_new mtu =
     (let max_size = (if mtu \<le> 0 then AVAHI_DNS_PACKET_SIZE_MAX
            else if mtu \<ge> AVAHI_DNS_PACKET_EXTRA_SIZE then mtu - AVAHI_DNS_PACKET_EXTRA_SIZE
            else 0);
          max_size = (if max_size < AVAHI_DNS_PACKET_HEADER_SIZE then AVAHI_DNS_PACKET_HEADER_SIZE else max_size)
      in \<lparr>p_size = AVAHI_DNS_PACKET_HEADER_SIZE, p_rindex = AVAHI_DNS_PACKET_HEADER_SIZE, p_max_size = max_size,
          p_res_size = 0, p_names = None, p_data = replicate max_size 0\<rparr>)"

definition avahi_dns_packet_set_field :: "packet \<Rightarrow> nat \<Rightarrow> u16 \<Rightarrow> packet outcome" where
  "avahi_dns_packet_set_field p idx v = do {
     assert_that (idx < AVAHI_DNS_PACKET_HEADER_SIZE);
     p_write (2 * idx) (u16_bytes v) p
   }"

definition avahi_dns_packet_get_field :: "packet \<Rightarrow> nat \<Rightarrow> u16 outcome" where
  "avahi_dns_packet_get_field p idx = do {
     assert_that (idx < AVAHI_DNS_PACKET_HEADER_SIZE);
     d \<leftarrow> p_slice p (2 * idx) 2;
     Some (bytes_u16 d)
   }"

definition avahi_dns_packet_inc_field :: "packet \<Rightarrow> nat \<Rightarrow> packet outcome" where
  "avahi_dns_packet_inc_field p idx = do {
     assert_that (idx < AVAHI_DNS_PACKET_HEADER_SIZE);
     v \<leftarrow> avahi_dns_packet_get_field p idx;
     avahi_dns_packet_set_field p idx (v + 1)
   }"

definition avahi_dns_packet_new_query :: "nat \<Rightarrow> packet outcome" where
  "avahi_dns_packet_new_query mtu =
     avahi_dns_packet_set_field (avahi_dns_packet_new mtu) AVAHI_DNS_FIELD_FLAGS
       (AVAHI_DNS_FLAGS False 0 False False False False False False False 0)"

definition avahi_dns_packet_new_response :: "nat \<Rightarrow> bool \<Rightarrow> packet outcome" where
  "avahi_dns_packet_new_response mtu aa =
     avahi_dns_packet_set_field (avahi_dns_packet_new mtu) AVAHI_DNS_FIELD_FLAGS
       (AVAHI_DNS_FLAGS True 0 aa False False False False False False 0)"

definition avahi_dns_packet_check_valid :: "packet \<Rightarrow> int outcome" where
  "avahi_dns_packet_check_valid p =
     (if p_size p < AVAHI_DNS_PACKET_HEADER_SIZE then Some (- 1)
      else do {
        flags \<leftarrow> avahi_dns_packet_get_field p AVAHI_DNS_FIELD_FLAGS;
        Some (if flags AND AVAHI_DNS_FLAG_OPCODE \<noteq> 0 then - 1 else 0)
      })"

definition avahi_dns_packet_check_valid_multicast :: "packet \<Rightarrow> int outcome" where
  "avahi_dns_packet_check_valid_multicast p = do {
     v \<leftarrow> avahi_dns_packet_check_valid p;
     if v < 0 then Some (- 1)
     else do {
       flags \<leftarrow> avahi_dns_packet_get_field p AVAHI_DNS_FIELD_FLAGS;
       Some (if flags AND AVAHI_DNS_FLAG_RCODE \<noteq> 0 then - 1 else 0)
     }
   }"

definition avahi_dns_packet_is_query :: "packet \<Rightarrow> bool outcome" where
  "avahi_dns_packet_is_query p = do {
     flags \<leftarrow> avahi_dns_packet_get_field p AVAHI_DNS_FIELD_FLAGS;
     Some (flags AND AVAHI_DNS_FLAG_QR = 0)
   }"

definition avahi_dns_packet_is_empty :: "packet \<Rightarrow> bool" where
  "avahi_dns_packet_is_empty p \<longleftrightarrow> p_size p \<le> AVAHI_DNS_PACKET_HEADER_SIZE"

definition avahi_dns_packet_space :: "packet \<Rightarrow> nat outcome" where
  "avahi_dns_packet_space p = do { assert_that (p_size p \<le> p_max_size p); Some (p_max_size p - p_size p) }"

definition avahi_dns_packet_reserve_size :: "packet \<Rightarrow> nat \<Rightarrow> (packet \<times> nat) outcome" where
  "avahi_dns_packet_reserve_size p res_size = do {
     assert_that (p_size p + p_res_size p \<le> p_max_size p);
     let p = (if p_size p + p_res_size p + res_size \<le> p_max_size p
              then p\<lparr>p_res_size := p_res_size p + res_size\<rparr> else p);
     Some (p, p_res_size p)
   }"

definition avahi_dns_packet_reserved_space :: "packet \<Rightarrow> nat outcome" where
  "avahi_dns_packet_reserved_space p = do {
     assert_that (p_size p + p_res_size p \<le> p_max_size p);
     Some (p_max_size p - p_size p - p_res_size p)
   }"

subsection \<open>Appending\<close>

definition avahi_dns_packet_extend :: "packet \<Rightarrow> nat \<Rightarrow> packet \<times> nat option" where
  "avahi_dns_packet_extend p l =
     (if p_size p + l > p_max_size p then (p, None)
      else (p\<lparr>p_size := p_size p + l\<rparr>, Some (p_size p)))"

text \<open>Extending and filling the new bytes; the result is the offset of the first one.\<close>

definition append_raw :: "byte list \<Rightarrow> nat consumer" where
  "append_raw bs p =
     (case avahi_dns_packet_extend p (length bs) of
        (p, None) \<Rightarrow> Some (p, None)
      | (p, Some d) \<Rightarrow> do { p \<leftarrow> p_write d bs p; Some (p, Some d) })"

definition avahi_dns_packet_append_uint16 :: "u16 \<Rightarrow> nat consumer" where
  "avahi_dns_packet_append_uint16 v = append_raw (u16_bytes v)"

definition avahi_dns_packet_append_uint32 :: "u32 \<Rightarrow> nat consumer" where
  "avahi_dns_packet_append_uint32 v = append_raw (u32_bytes v)"

definition avahi_dns_packet_append_bytes :: "byte list \<Rightarrow> nat consumer" where
  "avahi_dns_packet_append_bytes b p = do { assert_that (length b \<noteq> 0); append_raw b p }"

definition avahi_dns_packet_append_string :: "cstr \<Rightarrow> nat consumer" where
  "avahi_dns_packet_append_string s =
     (let k = (if length s \<ge> 255 then 255 else length s) in append_raw (byte_of k # take k s))"

fun cleanup_loop :: "nat \<Rightarrow> nat list \<Rightarrow> (cstr, nat) hashmap \<Rightarrow> (cstr, nat) hashmap outcome" where
  "cleanup_loop sz [] m = Some m"
| "cleanup_loop sz (e # es) m = do {
     (key, value) \<leftarrow> entry_heap m e;
     m \<leftarrow> (if value \<ge> sz then avahi_hashmap_remove m key else Some m);
     cleanup_loop sz es m
   }"

definition avahi_dns_packet_cleanup_name_table :: "packet \<Rightarrow> packet outcome" where
  "avahi_dns_packet_cleanup_name_table p =
     (case p_names p of
        None \<Rightarrow> Some p
      | Some m \<Rightarrow> do {
          m \<leftarrow> cleanup_loop (p_size p) (entries_list m) m;
          Some (p\<lparr>p_names := Some m\<rparr>)
        })"

text \<open>
  The loop of \<open>avahi_dns_packet_append_name\<close>, and how it is left: with the end of the name written,
  by \<open>goto fail\<close>, or by the \<open>return NULL\<close> in front of the compression pointer.
\<close>

datatype name_exit = Name_done | Name_fail | Name_null

definition name_pointer :: "nat \<Rightarrow> byte list" where
  "name_pointer idx = [ucast (drop_bit 8 (0xC000 OR u32_of idx)), ucast (u32_of idx)]"

function append_name_loop :: "packet \<Rightarrow> cstr \<Rightarrow> (packet \<times> name_exit) outcome" where
  "append_name_loop p name =
     (if name = [] then do {
        (p, d) \<leftarrow> append_raw [0] p;
        Some (p, case d of None \<Rightarrow> Name_fail | Some _ \<Rightarrow> Name_done)
      } else do {
        prev \<leftarrow> (case p_names p of None \<Rightarrow> Some None | Some m \<Rightarrow> avahi_hashmap_lookup m name);
        target \<leftarrow> (case prev of
            None \<Rightarrow> Some None
          | Some idx \<Rightarrow> do { assert_that (idx < p_size p); Some (if idx < 0x4000 then Some idx else None) });
        (case target of
           Some idx \<Rightarrow> do {
             (p, t) \<leftarrow> append_raw (name_pointer idx) p;
             Some (p, case t of None \<Rightarrow> Name_null | Some _ \<Rightarrow> Name_done)
           }
         | None \<Rightarrow>
             (case avahi_unescape_label AVAHI_LABEL_MAX name of
                None \<Rightarrow> Some (p, Name_fail)
              | Some (label, name') \<Rightarrow> do {
                  (p, d) \<leftarrow> avahi_dns_packet_append_string label p;
                  (case d of
                     None \<Rightarrow> Some (p, Name_fail)
                   | Some d \<Rightarrow> do {
                       let m = (case p_names p of
                           Some m \<Rightarrow> m | None \<Rightarrow> avahi_hashmap_new avahi_string_hash avahi_string_equal True False);
                       (m, _) \<leftarrow> avahi_hashmap_insert m name d;
                       append_name_loop (p\<lparr>p_names := Some m\<rparr>) name'
                     })
                }))
      })"
  by pat_completeness auto
termination
  by (relation "measure (\<lambda>(_, name). length name)") (auto dest: unescape_label_shorter)

declare append_name_loop.simps [simp del]

definition avahi_dns_packet_append_name :: "cstr \<Rightarrow> nat consumer" where
  "avahi_dns_packet_append_name name p = do {
     let saved_size = p_size p;
     let (p, saved_ptr) = avahi_dns_packet_extend p 0;
     (p, e) \<leftarrow> append_name_loop p name;
     (case e of
        Name_done \<Rightarrow> Some (p, saved_ptr)
      | Name_null \<Rightarrow> Some (p, None)
      | Name_fail \<Rightarrow> do {
          p \<leftarrow> avahi_dns_packet_cleanup_name_table (p\<lparr>p_size := saved_size\<rparr>);
          Some (p, None)
        })
   }"

text \<open>Going back to \<open>sz\<close> bytes when \<open>m\<close> fails.\<close>

definition or_rollback :: "nat \<Rightarrow> nat consumer \<Rightarrow> nat consumer" where
  "or_rollback sz m p = do {
     (p, r) \<leftarrow> m p;
     (case r of
        Some t \<Rightarrow> Some (p, Some t)
      | None \<Rightarrow> do { p \<leftarrow> avahi_dns_packet_cleanup_name_table (p\<lparr>p_size := sz\<rparr>); Some (p, None) })
   }"

definition avahi_dns_packet_append_key :: "rrkey \<Rightarrow> bool \<Rightarrow> nat consumer" where
  "avahi_dns_packet_append_key k unicast_response p =
     or_rollback (p_size p)
       (consume_then (avahi_dns_packet_append_name (key_name k)) (\<lambda>t.
        consume_then (avahi_dns_packet_append_uint16 (key_type k)) (\<lambda>_.
        consume_then (avahi_dns_packet_append_uint16
          (key_clazz k OR (if unicast_response then AVAHI_DNS_UNICAST_RESPONSE else 0))) (\<lambda>_ p.
        Some (p, Some t))))) p"

text \<open>\<open>Some ()\<close> is the return of 0.\<close>

definition finished :: "unit consumer" where
  "finished p = Some (p, Some ())"

definition append_rdata :: "rdata \<Rightarrow> unit consumer" where
  "append_rdata d =
     (case d of
        Ptr n \<Rightarrow> consume_then (avahi_dns_packet_append_name n) (\<lambda>_. finished)
      | Srv priority weight port n \<Rightarrow>
          consume_then (avahi_dns_packet_append_uint16 priority) (\<lambda>_.
          consume_then (avahi_dns_packet_append_uint16 weight) (\<lambda>_.
          consume_then (avahi_dns_packet_append_uint16 port) (\<lambda>_.
          consume_then (avahi_dns_packet_append_name n) (\<lambda>_. finished))))
      | Hinfo cpu os \<Rightarrow>
          consume_then (avahi_dns_packet_append_string cpu) (\<lambda>_.
          consume_then (avahi_dns_packet_append_string os) (\<lambda>_. finished))
      | Txt l \<Rightarrow>
          (\<lambda>p. let n = snd (avahi_string_list_serialize l None) in
             case avahi_dns_packet_extend p n of
               (p, None) \<Rightarrow> Some (p, None)
             | (p, Some d) \<Rightarrow> do {
                 p \<leftarrow> p_write d (fst (avahi_string_list_serialize l (Some n))) p;
                 finished p
               })
      | A_addr a \<Rightarrow> consume_then (avahi_dns_packet_append_bytes a) (\<lambda>_. finished)
      | Aaaa_addr a \<Rightarrow> consume_then (avahi_dns_packet_append_bytes a) (\<lambda>_. finished)
      | Generic b \<Rightarrow>
          (case b of
             None \<Rightarrow> finished
           | Some b \<Rightarrow> if b = [] then finished else consume_then (avahi_dns_packet_append_bytes b) (\<lambda>_. finished))
      | Unset \<Rightarrow> (\<lambda>_. crash))"

definition record_class :: "u16 \<Rightarrow> bool \<Rightarrow> u16" where
  "record_class clazz cache_flush =
     (if cache_flush then clazz OR AVAHI_DNS_CACHE_FLUSH else clazz AND NOT AVAHI_DNS_CACHE_FLUSH)"

definition record_ttl :: "u32 \<Rightarrow> u32 \<Rightarrow> u32" where
  "record_ttl ttl max_ttl = (if max_ttl \<noteq> 0 \<and> ttl > max_ttl then max_ttl else ttl)"

definition avahi_dns_packet_append_record :: "rr \<Rightarrow> bool \<Rightarrow> u32 \<Rightarrow> nat consumer" where
  "avahi_dns_packet_append_record r cache_flush max_ttl p =
     or_rollback (p_size p)
       (consume_then (avahi_dns_packet_append_name (key_name (rr_key r))) (\<lambda>t.
        consume_then (avahi_dns_packet_append_uint16 (key_type (rr_key r))) (\<lambda>_.
        consume_then (avahi_dns_packet_append_uint16 (record_class (key_clazz (rr_key r)) cache_flush)) (\<lambda>_.
        consume_then (avahi_dns_packet_append_uint32 (record_ttl (rr_ttl r) max_ttl)) (\<lambda>_.
        consume_then (avahi_dns_packet_append_uint16 0) (\<lambda>l p.
          (let start = p_size p in
           consume_then (append_rdata (rr_data r)) (\<lambda>_ p. do {
             let size = p_size p - start;
             assert_that (size \<le> AVAHI_DNS_RDATA_MAX);
             p \<leftarrow> p_write l (u16_bytes (u16_of size)) p;
             Some (p, Some t)
           }) p))))))) p"

subsection \<open>Reading\<close>

text \<open>
  The loop of \<open>consume_labels\<close>: \<open>fuel\<close> is \<open>AVAHI_DNS_LABELS_MAX - i\<close>, \<open>out\<close> the name written so far and
  \<open>l\<close> the bytes left for it.
\<close>

fun labels_loop ::
  "nat \<Rightarrow> packet \<Rightarrow> nat \<Rightarrow> cstr \<Rightarrow> nat \<Rightarrow> nat \<Rightarrow> bool \<Rightarrow> bool \<Rightarrow> (nat \<times> cstr) option outcome"
where
  "labels_loop 0 p idx out l ret compressed first_label = Some None"
| "labels_loop (Suc fuel) p idx out l ret compressed first_label =
     (if idx + 1 > p_size p then Some None
      else do {
        b \<leftarrow> p_slice p idx 1;
        let n = unat (hd b);
        if n = 0 then
          (if l < 1 then Some None else Some (Some (if compressed then ret else ret + 1, out)))
        else if n \<le> 63 then
          (let idx = idx + 1; ret = (if compressed then ret else ret + 1) in
           if idx + n > p_size p then Some None
           else if n + 1 > l then Some None
           else do {
             let (out, l) = (if \<not> first_label then (out @ [dot], l - 1) else (out, l));
             label \<leftarrow> p_slice p idx n;
             (w, l, ok) \<leftarrow> avahi_escape_label label l;
             if \<not> ok then Some None
             else labels_loop fuel p (idx + n) (out @ w) l (if compressed then ret else ret + n) compressed False
           })
        else if hd b AND 0xC0 = 0xC0 then
          (if idx + 2 > p_size p then Some None
           else do {
             d \<leftarrow> p_slice p idx 2;
             let label_ptr = unat (d ! 0 AND NOT 0xC0) * 256 + unat (d ! 1);
             if label_ptr < AVAHI_DNS_PACKET_HEADER_SIZE \<or> label_ptr \<ge> idx then Some None
             else labels_loop fuel p label_ptr out l (if compressed then ret else ret + 2) True first_label
           })
        else Some None
      })"

definition consume_labels :: "packet \<Rightarrow> nat \<Rightarrow> nat \<Rightarrow> (nat \<times> cstr) option outcome" where
  "consume_labels p idx l = do {
     assert_that (l \<noteq> 0);
     labels_loop AVAHI_DNS_LABELS_MAX p idx [] l 0 False True
   }"

definition avahi_dns_packet_consume_name :: "nat \<Rightarrow> cstr consumer" where
  "avahi_dns_packet_consume_name l p = do {
     r \<leftarrow> consume_labels p (p_rindex p) l;
     Some (case r of
         None \<Rightarrow> (p, None)
       | Some (n, name) \<Rightarrow> (p\<lparr>p_rindex := p_rindex p + n\<rparr>, Some name))
   }"

text \<open>The next \<open>n\<close> bytes.\<close>

definition consume_raw :: "nat \<Rightarrow> byte list consumer" where
  "consume_raw n p =
     (if p_rindex p + n > p_size p then Some (p, None)
      else do {
        d \<leftarrow> p_slice p (p_rindex p) n;
        Some (p\<lparr>p_rindex := p_rindex p + n\<rparr>, Some d)
      })"

definition avahi_dns_packet_consume_uint16 :: "u16 consumer" where
  "avahi_dns_packet_consume_uint16 = consume_then (consume_raw 2) (\<lambda>d p. Some (p, Some (bytes_u16 d)))"

definition avahi_dns_packet_consume_uint32 :: "u32 consumer" where
  "avahi_dns_packet_consume_uint32 = consume_then (consume_raw 4) (\<lambda>d p. Some (p, Some (bytes_u32 d)))"

definition avahi_dns_packet_consume_bytes :: "nat \<Rightarrow> byte list consumer" where
  "avahi_dns_packet_consume_bytes l p = do { assert_that (l > 0); consume_raw l p }"

definition avahi_dns_packet_consume_string :: "nat \<Rightarrow> cstr consumer" where
  "avahi_dns_packet_consume_string l p = do {
     assert_that (l > 0);
     if p_rindex p \<ge> p_size p then Some (p, None)
     else do {
       b \<leftarrow> p_slice p (p_rindex p) 1;
       let k = unat (hd b);
       if p_rindex p + 1 + k > p_size p then Some (p, None)
       else do {
         let l = (if l > k + 1 then k + 1 else l);
         d \<leftarrow> p_slice p (p_rindex p + 1) (l - 1);
         Some (p\<lparr>p_rindex := p_rindex p + (1 + k)\<rparr>, Some (c_string d))
       }
     }
   }"

definition avahi_dns_packet_get_rptr :: "packet \<Rightarrow> nat option" where
  "avahi_dns_packet_get_rptr p = (if p_rindex p > p_size p then None else Some (p_rindex p))"

definition avahi_dns_packet_skip :: "nat \<Rightarrow> unit consumer" where
  "avahi_dns_packet_skip n p =
     (if p_rindex p + n > p_size p then Some (p, None) else Some (p\<lparr>p_rindex := p_rindex p + n\<rparr>, Some ()))"

definition yields :: "'a \<Rightarrow> 'a consumer" where
  "yields v p = Some (p, Some v)"

text \<open>
  The switch of \<open>parse_rdata\<close>; \<open>d\<close> is the data of the record so far, which an empty unknown record keeps.
\<close>

definition parse_data :: "u16 \<Rightarrow> nat \<Rightarrow> rdata \<Rightarrow> rdata consumer" where
  "parse_data type rdlength d =
     (if name_type type then
        consume_then (avahi_dns_packet_consume_name AVAHI_DOMAIN_NAME_MAX) (\<lambda>n. yields (Ptr n))
      else if type = AVAHI_DNS_TYPE_SRV then
        consume_then avahi_dns_packet_consume_uint16 (\<lambda>priority.
        consume_then avahi_dns_packet_consume_uint16 (\<lambda>weight.
        consume_then avahi_dns_packet_consume_uint16 (\<lambda>port.
        consume_then (avahi_dns_packet_consume_name AVAHI_DOMAIN_NAME_MAX) (\<lambda>n. yields (Srv priority weight port n)))))
      else if type = AVAHI_DNS_TYPE_HINFO then
        consume_then (avahi_dns_packet_consume_string AVAHI_DOMAIN_NAME_MAX) (\<lambda>cpu.
        consume_then (avahi_dns_packet_consume_string AVAHI_DOMAIN_NAME_MAX) (\<lambda>os. yields (Hinfo cpu os)))
      else if type = AVAHI_DNS_TYPE_TXT then
        (if rdlength > 0 then (\<lambda>p. do {
           ptr \<leftarrow> avahi_dns_packet_get_rptr p;
           b \<leftarrow> p_slice p ptr rdlength;
           (case avahi_string_list_parse b of
              None \<Rightarrow> Some (p, None)
            | Some l \<Rightarrow> consume_then (avahi_dns_packet_skip rdlength) (\<lambda>_. yields (Txt l)) p)
         }) else yields (Txt []))
      else if type = AVAHI_DNS_TYPE_A then
        consume_then (avahi_dns_packet_consume_bytes 4) (\<lambda>a. yields (A_addr a))
      else if type = AVAHI_DNS_TYPE_AAAA then
        consume_then (avahi_dns_packet_consume_bytes 16) (\<lambda>a. yields (Aaaa_addr a))
      else if rdlength > 0 then (\<lambda>p. do {
        ptr \<leftarrow> avahi_dns_packet_get_rptr p;
        b \<leftarrow> p_slice p ptr rdlength;
        consume_then (avahi_dns_packet_skip rdlength) (\<lambda>_. yields (Generic (Some b))) p
      }) else yields d)"

definition parse_rdata :: "u16 \<Rightarrow> nat \<Rightarrow> rdata \<Rightarrow> rdata consumer" where
  "parse_rdata type rdlength d p =
     consume_then (parse_data type rdlength d) (\<lambda>d' p'. do {
       start \<leftarrow> avahi_dns_packet_get_rptr p;
       ptr \<leftarrow> avahi_dns_packet_get_rptr p';
       Some (p', if int ptr - int start \<noteq> int rdlength then None else Some d')
     }) p"

definition avahi_dns_packet_consume_record :: "(rr \<times> bool) consumer" where
  "avahi_dns_packet_consume_record =
     consume_then (avahi_dns_packet_consume_name AVAHI_DOMAIN_NAME_MAX) (\<lambda>name.
     consume_then avahi_dns_packet_consume_uint16 (\<lambda>type.
     consume_then avahi_dns_packet_consume_uint16 (\<lambda>class.
     consume_then avahi_dns_packet_consume_uint32 (\<lambda>ttl.
     consume_then avahi_dns_packet_consume_uint16 (\<lambda>rdlength p.
       if p_rindex p + unat rdlength > p_size p then Some (p, None)
       else do {
         let cache_flush = (class AND AVAHI_DNS_CACHE_FLUSH \<noteq> 0);
         let class = class AND NOT AVAHI_DNS_CACHE_FLUSH;
         r \<leftarrow> avahi_record_new_full name class type ttl;
         (case r of
            None \<Rightarrow> Some (p, None)
          | Some r \<Rightarrow>
              consume_then (parse_rdata type (unat rdlength) (rr_data r)) (\<lambda>d p. do {
                let r = r\<lparr>rr_data := d\<rparr>;
                v \<leftarrow> avahi_record_is_valid r;
                Some (p, if \<not> v then None else Some (r, cache_flush))
              }) p)
       })))))"

definition avahi_dns_packet_consume_key :: "(rrkey \<times> bool) consumer" where
  "avahi_dns_packet_consume_key =
     consume_then (avahi_dns_packet_consume_name 256) (\<lambda>name.
     consume_then avahi_dns_packet_consume_uint16 (\<lambda>type.
     consume_then avahi_dns_packet_consume_uint16 (\<lambda>class p. do {
       let unicast_response = (class AND AVAHI_DNS_UNICAST_RESPONSE \<noteq> 0);
       let class = class AND NOT AVAHI_DNS_UNICAST_RESPONSE;
       k \<leftarrow> avahi_key_new name class type;
       Some (p, case k of
           None \<Rightarrow> None
         | Some k \<Rightarrow> if \<not> avahi_key_is_valid k then None else Some (k, unicast_response))
     })))"

subsection \<open>Replies and raw data\<close>

fun copy_queries_loop :: "nat \<Rightarrow> packet \<Rightarrow> packet \<Rightarrow> (packet \<times> packet) outcome" where
  "copy_queries_loop 0 p r = Some (p, r)"
| "copy_queries_loop (Suc n) p r = do {
     (p, k) \<leftarrow> avahi_dns_packet_consume_key p;
     r \<leftarrow> (case k of
         None \<Rightarrow> Some r
       | Some (k, unicast_response) \<Rightarrow> do { (r, _) \<leftarrow> avahi_dns_packet_append_key k unicast_response r; Some r });
     copy_queries_loop n p r
   }"

text \<open>The reply; \<open>rindex\<close> of the packet \<open>p\<close> is as before afterwards.\<close>

definition avahi_dns_packet_new_reply :: "packet \<Rightarrow> nat \<Rightarrow> bool \<Rightarrow> bool \<Rightarrow> packet outcome" where
  "avahi_dns_packet_new_reply p mtu copy_queries aa = do {
     r \<leftarrow> avahi_dns_packet_new_response mtu aa;
     r \<leftarrow> (if copy_queries then do {
         n \<leftarrow> avahi_dns_packet_get_field p AVAHI_DNS_FIELD_QDCOUNT;
         (_, r) \<leftarrow> copy_queries_loop (unat n) (p\<lparr>p_rindex := AVAHI_DNS_PACKET_HEADER_SIZE\<rparr>) r;
         avahi_dns_packet_set_field r AVAHI_DNS_FIELD_QDCOUNT n
       } else Some r);
     i \<leftarrow> avahi_dns_packet_get_field p AVAHI_DNS_FIELD_ID;
     r \<leftarrow> avahi_dns_packet_set_field r AVAHI_DNS_FIELD_ID i;
     fr \<leftarrow> avahi_dns_packet_get_field r AVAHI_DNS_FIELD_FLAGS;
     fp \<leftarrow> avahi_dns_packet_get_field p AVAHI_DNS_FIELD_FLAGS;
     avahi_dns_packet_set_field r AVAHI_DNS_FIELD_FLAGS
       ((fr AND NOT AVAHI_DNS_FLAG_OPCODE) OR (fp AND AVAHI_DNS_FLAG_OPCODE))
   }"

text \<open>The memory of the packet is gone afterwards; what is left is the name table with its freed keys.\<close>

definition avahi_dns_packet_free :: "packet \<Rightarrow> (cstr, nat) hashmap option outcome" where
  "avahi_dns_packet_free p =
     (case p_names p of None \<Rightarrow> Some None | Some m \<Rightarrow> do { m \<leftarrow> avahi_hashmap_free m; Some (Some m) })"

text \<open>The size goes into a 16 bit argument of \<open>parse_rdata\<close>.\<close>

definition avahi_rdata_parse :: "u16 \<Rightarrow> rdata \<Rightarrow> byte list \<Rightarrow> rdata option outcome" where
  "avahi_rdata_parse type d rdata = do {
     (p, r) \<leftarrow> parse_rdata type (length rdata mod 65536) d
       \<lparr>p_size = length rdata, p_rindex = 0, p_max_size = length rdata, p_res_size = 0, p_names = None, p_data = rdata\<rparr>;
     assert_that (p_names p = None);
     Some r
   }"

text \<open>The bytes written to a buffer of \<open>max_size\<close> bytes, or \<open>None\<close> for -1.\<close>

definition avahi_rdata_serialize :: "rdata \<Rightarrow> nat \<Rightarrow> byte list option outcome" where
  "avahi_rdata_serialize d max_size = do {
     assert_that (max_size > 0);
     (p, r) \<leftarrow> append_rdata d
       \<lparr>p_size = 0, p_rindex = 0, p_max_size = max_size, p_res_size = 0, p_names = None, p_data = replicate max_size 0\<rparr>;
     _ \<leftarrow> avahi_dns_packet_free p;
     Some (case r of None \<Rightarrow> None | Some _ \<Rightarrow> Some (take (p_size p) (p_data p)))
   }"

end
