(* ===== verification/Dnsread.thy ===== *)
theory Dnsread
  imports Dns
begin

text \<open>
  Reading a packet is safe: the functions of theory \<open>Dns\<close> that consume names, keys and records return
  for every content of the packet, and what they return is well-formed.
\<close>

subsection \<open>Names with arbitrary labels\<close>

text \<open>
  The labels of a packet are any bytes. A label with a NUL, or that is not UTF-8, is escaped and then
  refused by \<open>avahi_unescape_label\<close>.
\<close>

lemma unescape_loop_nul:
  "0 \<in> set l \<Longrightarrow> length d + length l < sz \<Longrightarrow> unescape_loop sz d (escaped l @ t) = None"
proof (induction l arbitrary: d)
  case (Cons c l)
  show ?case
  proof (cases "c = 0")
    case True
    have "escape_char 0 = [backslash, 48, 48, 48]" by (simp add: escape_char_def proper_char_def escape_decimal_def byte_of_def)
    then show ?thesis using True Cons.prems(2) by (simp add: isdigit_c_def digit_value_def)
  next
    case False
    with Cons show ?thesis by (simp add: unescape_loop_escape_char)
  qed
qed simp

lemma unescape_bad_label:
  assumes "\<not> label_ok l" "length l < AVAHI_LABEL_MAX"
  shows "avahi_unescape_label AVAHI_LABEL_MAX (escaped l) = None"
    "avahi_unescape_label AVAHI_LABEL_MAX (escaped l @ dot # t) = None"
proof -
  have "unescape_loop AVAHI_LABEL_MAX [] (escaped l @ t) = None \<or>
    unescape_loop AVAHI_LABEL_MAX [] (escaped l @ t) = unescape_loop AVAHI_LABEL_MAX l t \<and> \<not> avahi_utf8_valid l" for t
  proof (cases "0 \<in> set l")
    case True
    then show ?thesis using unescape_loop_nul [of l "[]" AVAHI_LABEL_MAX t] assms(2) by simp
  next
    case False
    then have "no_nul l" by (simp add: no_nul_def)
    with assms show ?thesis using unescape_loop_escaped [of "[]" l AVAHI_LABEL_MAX t] by (simp add: label_ok_def)
  qed
  from this [of "[]"] this [of "dot # t"] assms(2)
  show "avahi_unescape_label AVAHI_LABEL_MAX (escaped l) = None"
    "avahi_unescape_label AVAHI_LABEL_MAX (escaped l @ dot # t) = None"
    by (auto simp: avahi_unescape_label_def)
qed

definition short_labels :: "byte list list \<Rightarrow> bool" where
  "short_labels ls \<longleftrightarrow> list_all (\<lambda>l. l \<noteq> [] \<and> length l < AVAHI_LABEL_MAX) ls"

lemma short_labels_simps [simp]:
  "short_labels []" "short_labels (l # ls) \<longleftrightarrow> l \<noteq> [] \<and> length l < AVAHI_LABEL_MAX \<and> short_labels ls"
  by (simp_all add: short_labels_def)

lemma join_labels_Cons: "ls \<noteq> [] \<Longrightarrow> join_labels (l # ls) = escaped l @ dot # join_labels ls"
  by (cases ls) simp_all

lemma join_labels_Nil_iff: "short_labels ls \<Longrightarrow> join_labels ls = [] \<longleftrightarrow> ls = []"
  by (cases ls) auto

lemma unescape_join:
  assumes "short_labels (l # ls)"
  shows "avahi_unescape_label AVAHI_LABEL_MAX (join_labels (l # ls)) =
    (if label_ok l then Some (l, join_labels ls) else None)"
proof (cases "ls = []")
  case True
  then show ?thesis using assms unescape_bad_label(1) [of l] by (auto simp: label_ok_def unescape_escaped)
next
  case False
  from assms have "length l < AVAHI_LABEL_MAX" by simp
  then show ?thesis unfolding join_labels_Cons [OF False]
    using unescape_bad_label(2) [of l "join_labels ls"] unescape_escaped(2) [of l AVAHI_LABEL_MAX "join_labels ls"]
    by (cases "label_ok l") (simp_all add: label_ok_def)
qed

lemma labels_of_short:
  "short_labels ls \<Longrightarrow> labels_of (join_labels ls) = (if list_all label_ok ls then Some ls else None)"
proof (induction ls)
  case (Cons l ls)
  have "join_labels (l # ls) \<noteq> []" using Cons.prems join_labels_Nil_iff [of "l # ls"] by simp
  with Cons unescape_join [OF Cons.prems] show ?case by (auto simp: labels_of.simps [of "join_labels (l # ls)"] simp del: join_labels.simps)
qed simp

text \<open>Normalising such a name does not run out of the buffer if the name fits it.\<close>

lemma normalize_loop_short:
  assumes "short_labels ls" "ls = [] \<Longrightarrow> nul" "length (if emp then join_labels ls else dotted ls) < sz"
  shows "normalize_loop (join_labels ls) emp out sz nul =
    Some (if list_all label_ok ls then Some (out @ (if emp then join_labels ls else dotted ls)) else None)"
  using assms
proof (induction ls arbitrary: emp out sz nul)
  case Nil
  then show ?case by (simp add: normalize_loop.simps [of "[]"])
next
  case (Cons l ls)
  have ne: "join_labels (l # ls) \<noteq> []" using Cons.prems(1) join_labels_Nil_iff [of "l # ls"] by simp
  show ?case
  proof (cases "label_ok l")
    case False
    with ne unescape_join [OF Cons.prems(1)] show ?thesis
      by (simp add: normalize_loop.simps [of "join_labels (l # ls)"] del: join_labels.simps)
  next
    case True
    then have u: "avahi_unescape_label AVAHI_LABEL_MAX (join_labels (l # ls)) = Some (l, join_labels ls)"
      using unescape_join [OF Cons.prems(1)] by simp
    define out' sz' where "out' = (if emp then out else out @ [dot])" and "sz' = (if emp then sz else sz - 1)"
    have sz: "length (escaped l) < sz'" "length (escaped l) + (if emp then 0 else 1) < sz"
      "length (dotted ls) < sz' - length (escaped l)" "l \<noteq> []"
      using Cons.prems(1,3) by (auto simp: sz'_def split: if_splits)
    have "normalize_loop (join_labels (l # ls)) emp out sz nul =
        normalize_loop (join_labels ls) False (out' @ escaped l) (sz' - length (escaped l)) True"
      using normalize_loop_step [OF ne u sz(4,2), of out nul] by (simp add: out'_def sz'_def)
    also have "\<dots> = Some (if list_all label_ok ls then Some ((out' @ escaped l) @ dotted ls) else None)"
      using Cons.IH [of True False "sz' - length (escaped l)" "out' @ escaped l"] Cons.prems(1) sz(3) by simp
    finally show ?thesis using True by (simp add: out'_def)
  qed
qed

lemma key_new_short:
  assumes "short_labels ls" "length (join_labels ls) < AVAHI_DOMAIN_NAME_MAX"
  shows "avahi_key_new (join_labels ls) c t =
    Some (if list_all label_ok ls then Some \<lparr>key_name = join_labels ls, key_clazz = c, key_type = t\<rparr> else None)"
  using normalize_loop_short [OF assms(1), of True True AVAHI_DOMAIN_NAME_MAX "[]"] assms(2)
  by (simp add: avahi_key_new_def avahi_normalize_name_strdup_def avahi_normalize_name_def)

lemma join_labels_snoc:
  "join_labels (ls @ [l]) = (if ls = [] then escaped l else join_labels ls @ dot # escaped l)"
  by (cases ls) (simp_all add: dotted_def)

lemma short_labels_snoc [simp]: "short_labels (ls @ [l]) \<longleftrightarrow> short_labels ls \<and> l \<noteq> [] \<and> length l < AVAHI_LABEL_MAX"
  by (auto simp: short_labels_def)

lemma escape_label_cases:
  assumes "0 < sz"
  obtains "length (escaped l) < sz" "avahi_escape_label l sz = Some (escaped l, sz - length (escaped l), True)"
  | w sz' where "sz \<le> length (escaped l)" "avahi_escape_label l sz = Some (w, sz', False)"
proof (cases "length (escaped l) < sz")
  case True
  then show ?thesis using that(1) escape_label_fits by blast
next
  case False
  obtain w sz' ok where e: "escape_loop l sz = (w, sz', ok)" by (cases "escape_loop l sz") auto
  with escape_loop_fails [of sz l] False assms that(2) show ?thesis by (simp add: avahi_escape_label_def)
qed

subsection \<open>Reading is safe\<close>

lemma p_slice_in: "off + n \<le> p_size p \<Longrightarrow> p_size p \<le> length (p_data p) \<Longrightarrow>
    \<exists>d. p_slice p off n = Some d \<and> length d = n"
  by (simp add: p_slice_def)

text \<open>What \<open>consume_labels\<close> returns: a position inside the packet and the spelling of short labels.\<close>

definition name_result :: "packet \<Rightarrow> nat \<Rightarrow> nat \<Rightarrow> (nat \<times> cstr) option \<Rightarrow> bool" where
  "name_result p start l r \<longleftrightarrow>
     (case r of
        None \<Rightarrow> True
      | Some (n, name) \<Rightarrow> start + n \<le> p_size p \<and> length name < l \<and> (\<exists>ls. short_labels ls \<and> name = join_labels ls))"

lemma labels_loop_safe:
  assumes "p_size p \<le> length (p_data p)" "0 < l" "short_labels ls" "first_label \<longleftrightarrow> ls = []"
    and "start + ret \<le> p_size p" "compressed \<or> idx = start + ret"
  shows "\<exists>r. labels_loop fuel p idx (join_labels ls) l ret compressed first_label = Some r \<and>
    name_result p start (length (join_labels ls) + l) r"
  using assms
proof (induction fuel arbitrary: idx ls l ret compressed first_label)
  case (Suc fuel)
  show ?case
  proof (cases "idx + 1 > p_size p")
    case False
    with p_slice_in [of idx 1 p] Suc.prems(1) obtain b where b: "p_slice p idx 1 = Some [b]"
      by (auto simp: length_Suc_conv)
    consider "unat b = 0" | "unat b \<noteq> 0" "unat b \<le> 63" | "unat b > 63" "b AND 0xC0 = 0xC0"
      | "unat b > 63" "b AND 0xC0 \<noteq> 0xC0" by linarith
    then show ?thesis
    proof cases
      case 1
      then show ?thesis using Suc.prems False b by (auto simp: name_result_def)
    next
      case 2
      show ?thesis
      proof (cases "idx + 1 + unat b > p_size p \<or> unat b + 1 > l")
        case True
        with 2 False b show ?thesis by (auto simp: name_result_def Let_def)
      next
        case fit: False
        then obtain lb where lb: "p_slice p (idx + 1) (unat b) = Some lb" "length lb = unat b"
          using p_slice_in [of "idx + 1" "unat b" p] Suc.prems(1) by auto
        define l1 where "l1 = (if first_label then l else l - 1)"
        have l1: "0 < l1" using fit 2 by (auto simp: l1_def)
        define out1 where "out1 = (if first_label then join_labels ls else join_labels ls @ [dot])"
        have step: "labels_loop (Suc fuel) p idx (join_labels ls) l ret compressed first_label =
            Option.bind (avahi_escape_label lb l1) (\<lambda>(w, l, ok). if \<not> ok then Some None
              else labels_loop fuel p (idx + 1 + unat b) (out1 @ w) l
                (if compressed then ret else ret + 1 + unat b) compressed False)"
          using 2 False b fit lb by (simp add: l1_def out1_def Let_def cong: if_cong)
        from l1 show ?thesis
        proof (cases rule: escape_label_cases [of l1 lb])
          case 1
          have o: "out1 @ escaped lb = join_labels (ls @ [lb])"
            using Suc.prems(4) by (auto simp: out1_def join_labels_snoc)
          have "\<exists>r. labels_loop fuel p (idx + 1 + unat b) (join_labels (ls @ [lb])) (l1 - length (escaped lb))
              (if compressed then ret else ret + 1 + unat b) compressed False = Some r \<and>
              name_result p start (length (join_labels (ls @ [lb])) + (l1 - length (escaped lb))) r"
            using Suc.prems fit 1(1) 2 lb(2) by (intro Suc.IH) (auto simp: AVAHI_LABEL_MAX_def)
          moreover have "length (join_labels (ls @ [lb])) + (l1 - length (escaped lb)) = length (join_labels ls) + l"
            using 1(1) l1 fit Suc.prems(4) by (auto simp: l1_def join_labels_snoc split: if_splits)
          ultimately show ?thesis unfolding step 1(2) by (simp add: o)
        next
          case (2 w sz')
          then show ?thesis unfolding step by (simp add: name_result_def)
        qed
      qed
    next
      case 3
      show ?thesis
      proof (cases "idx + 2 > p_size p")
        case True
        with 3 False b show ?thesis by (auto simp: name_result_def Let_def)
      next
        case fit: False
        then obtain d where d: "p_slice p idx 2 = Some d" using p_slice_in [of idx 2 p] Suc.prems(1) by auto
        define t where "t = unat (d ! 0 AND NOT 0xC0) * 256 + unat (d ! 1)"
        have step: "labels_loop (Suc fuel) p idx (join_labels ls) l ret compressed first_label =
            (if t < AVAHI_DNS_PACKET_HEADER_SIZE \<or> t \<ge> idx then Some None
             else labels_loop fuel p t (join_labels ls) l (if compressed then ret else ret + 2) True first_label)"
          using 3 False b fit d by (simp add: t_def Let_def)
        have "\<exists>r. labels_loop fuel p t (join_labels ls) l (if compressed then ret else ret + 2) True first_label = Some r \<and>
            name_result p start (length (join_labels ls) + l) r"
          using Suc.prems fit by (intro Suc.IH) auto
        then show ?thesis unfolding step by (auto simp: name_result_def)
      qed
    next
      case 4
      with False b show ?thesis by (auto simp: name_result_def Let_def)
    qed
  qed (simp add: name_result_def)
qed (simp add: name_result_def)

lemma no_nul_escaped: "no_nul (escaped l)"
proof (induction l)
  case (Cons c l)
  have "k < 10 \<Longrightarrow> 48 + byte_of k \<noteq> 0" for k using escape_digit(5) .
  moreover have "unat c div 100 < 10" using byte_lt [of c] by (simp add: div_less_iff_less_mult del: byte_lt)
  moreover have "unat c div 10 mod 10 < 10" "unat c mod 10 < 10" by simp_all
  ultimately have "no_nul (escape_char c)"
    by (auto simp: escape_char_def escape_decimal_def proper_char_def)
  with Cons show ?case by simp
qed simp

lemma no_nul_join: "no_nul (join_labels ls)"
proof -
  have "no_nul (dotted ls)" for ls by (induction ls) (simp_all add: dotted_def no_nul_escaped)
  then show ?thesis by (cases ls) (simp_all add: no_nul_escaped)
qed

text \<open>A packet that can be read, and what reading may do to it.\<close>

definition readable :: "packet \<Rightarrow> bool" where
  "readable p \<longleftrightarrow> p_size p \<le> length (p_data p) \<and> p_rindex p \<le> p_size p"

definition moved :: "packet \<Rightarrow> packet \<Rightarrow> bool" where
  "moved p p' \<longleftrightarrow> p' = p\<lparr>p_rindex := p_rindex p'\<rparr> \<and> p_rindex p \<le> p_rindex p' \<and> p_rindex p' \<le> p_size p"

text \<open>Reading returns, moves \<open>rindex\<close> forward inside the packet, and gives a value with the property.\<close>

definition reads :: "('a \<Rightarrow> bool) \<Rightarrow> 'a consumer \<Rightarrow> packet \<Rightarrow> bool" where
  "reads P m p \<longleftrightarrow> (\<exists>p' r. m p = Some (p', r) \<and> moved p p' \<and> (case r of None \<Rightarrow> True | Some v \<Rightarrow> P v))"

lemma movedD: "moved p p' \<Longrightarrow> p_size p' = p_size p \<and> p_data p' = p_data p \<and> p_names p' = p_names p"
  unfolding moved_def by (metis packet.ext_inject packet.surjective packet.update_convs(2))

lemma moved_refl: "readable p \<Longrightarrow> moved p p"
  by (simp add: moved_def readable_def)

lemma moved_readable: "readable p \<Longrightarrow> moved p p' \<Longrightarrow> readable p'"
  using movedD [of p p'] by (simp add: readable_def moved_def)

lemma moved_trans:
  assumes "moved p p1" "moved p1 p2"
  shows "moved p p2"
proof -
  have "p1 = p\<lparr>p_rindex := p_rindex p1\<rparr>" "p2 = p1\<lparr>p_rindex := p_rindex p2\<rparr>" using assms by (simp_all add: moved_def)
  then have "p2 = p\<lparr>p_rindex := p_rindex p2\<rparr>" by (metis packet.update_convs(2) packet.surjective)
  then show ?thesis using assms movedD [OF assms(1)] by (auto simp: moved_def)
qed

lemma reads_then:
  assumes "readable p" "reads P m p" "\<And>v p'. P v \<Longrightarrow> readable p' \<Longrightarrow> moved p p' \<Longrightarrow> reads Q (f v) p'"
  shows "reads Q (consume_then m f) p"
proof -
  obtain p1 r where r: "m p = Some (p1, r)" "moved p p1" "case r of None \<Rightarrow> True | Some v \<Rightarrow> P v"
    using assms(2) by (auto simp: reads_def)
  show ?thesis
  proof (cases r)
    case None
    with r show ?thesis by (simp add: reads_def consume_then_def)
  next
    case (Some v)
    with assms(3) [of v p1] moved_readable [OF assms(1) r(2)] r obtain p2 x where
      "f v p1 = Some (p2, x)" "moved p1 p2" "case x of None \<Rightarrow> True | Some v \<Rightarrow> Q v" by (auto simp: reads_def)
    with r Some moved_trans show ?thesis by (fastforce simp: reads_def consume_then_def)
  qed
qed

lemma reads_yields: "readable p \<Longrightarrow> P v \<Longrightarrow> reads P (yields v) p"
  by (simp add: reads_def yields_def moved_refl)

lemma reads_none: "readable p \<Longrightarrow> reads P (\<lambda>p. Some (p, None)) p"
  by (simp add: reads_def moved_refl)

definition name_read :: "nat \<Rightarrow> cstr \<Rightarrow> bool" where
  "name_read l name \<longleftrightarrow> length name < l \<and> (\<exists>ls. short_labels ls \<and> name = join_labels ls)"

lemma reads_name:
  assumes "readable p" "0 < l"
  shows "reads (name_read l) (avahi_dns_packet_consume_name l) p"
proof -
  obtain r where "labels_loop AVAHI_DNS_LABELS_MAX p (p_rindex p) [] l 0 False True = Some r"
    "name_result p (p_rindex p) l r"
    using labels_loop_safe [of p l "[]" True "p_rindex p" 0 False "p_rindex p"] assms by (auto simp: readable_def)
  with assms moved_refl [OF assms(1)] show ?thesis
    by (auto simp: reads_def avahi_dns_packet_consume_name_def consume_labels_def name_result_def name_read_def moved_def
        split: option.splits)
qed

lemma reads_raw: "readable p \<Longrightarrow> reads (\<lambda>d. length d = n) (consume_raw n) p"
  using p_slice_in [of "p_rindex p" n p] moved_refl [of p]
  by (auto simp: reads_def consume_raw_def readable_def moved_def)

lemma reads_uint:
  assumes "readable p"
  shows "reads (\<lambda>_. True) avahi_dns_packet_consume_uint16 p" "reads (\<lambda>_. True) avahi_dns_packet_consume_uint32 p"
  unfolding avahi_dns_packet_consume_uint16_def avahi_dns_packet_consume_uint32_def
  by (rule reads_then [OF assms reads_raw [OF assms]]; simp add: reads_def moved_refl)+

lemma reads_bytes: "readable p \<Longrightarrow> 0 < n \<Longrightarrow> reads (\<lambda>d. length d = n) (avahi_dns_packet_consume_bytes n) p"
  using reads_raw [of p n] by (simp add: reads_def avahi_dns_packet_consume_bytes_def)

lemma reads_string:
  assumes "readable p" "0 < l"
  shows "reads no_nul (avahi_dns_packet_consume_string l) p"
proof (cases "p_rindex p \<ge> p_size p")
  case True
  with assms show ?thesis by (simp add: reads_def avahi_dns_packet_consume_string_def moved_refl)
next
  case False
  with p_slice_in [of "p_rindex p" 1 p] assms(1) obtain b where b: "p_slice p (p_rindex p) 1 = Some [b]"
    by (auto simp: readable_def length_Suc_conv)
  show ?thesis
  proof (cases "p_rindex p + 1 + unat b > p_size p")
    case True
    with False assms b show ?thesis by (simp add: reads_def avahi_dns_packet_consume_string_def moved_refl Let_def)
  next
    case fit: False
    define l1 where "l1 = (if l > unat b + 1 then unat b + 1 else l)"
    have "p_rindex p + 1 + (l1 - 1) \<le> p_size p" using fit assms(2) by (auto simp: l1_def)
    from p_slice_in [OF this] assms(1) obtain d where "p_slice p (p_rindex p + 1) (l1 - 1) = Some d"
      by (auto simp: readable_def)
    then have "avahi_dns_packet_consume_string l p = Some (p\<lparr>p_rindex := p_rindex p + (1 + unat b)\<rparr>, Some (c_string d))"
      using False fit assms b by (auto simp: avahi_dns_packet_consume_string_def l1_def Let_def split: if_splits)
    then show ?thesis using fit assms(1) by (simp add: reads_def moved_def readable_def)
  qed
qed

lemma reads_skip: "readable p \<Longrightarrow> reads (\<lambda>_. True) (avahi_dns_packet_skip n) p"
  using moved_refl [of p] by (auto simp: reads_def avahi_dns_packet_skip_def readable_def moved_def)

lemma rptr_readable: "readable p \<Longrightarrow> avahi_dns_packet_get_rptr p = Some (p_rindex p)"
  by (simp add: avahi_dns_packet_get_rptr_def readable_def)


text \<open>The switch over the types, for data that lies in the packet.\<close>

definition data_read :: "u16 \<Rightarrow> rdata \<Rightarrow> bool" where
  "data_read t d \<longleftrightarrow> data_fits t d \<and> d \<noteq> Unset \<and>
     (case d of
        Ptr n \<Rightarrow> name_read AVAHI_DOMAIN_NAME_MAX n
      | Srv _ _ _ n \<Rightarrow> name_read AVAHI_DOMAIN_NAME_MAX n
      | _ \<Rightarrow> True)"

lemma name_read_no_nul: "name_read l n \<Longrightarrow> no_nul n"
  using no_nul_join by (auto simp: name_read_def)

lemma reads_parse_data:
  assumes "readable p" "p_rindex p + rdlength \<le> p_size p" "rdlength < 65536" "d = zero_data t"
  shows "reads (data_read t) (parse_data t rdlength d) p"
proof -
  have pos: "0 < AVAHI_DOMAIN_NAME_MAX" by (simp add: AVAHI_DOMAIN_NAME_MAX_def)
  note nm = reads_name [OF _ pos] and st = reads_string [OF _ pos]
  obtain b where b: "p_slice p (p_rindex p) rdlength = Some b" "length b = rdlength"
    using p_slice_in [OF assms(2)] assms(1) by (auto simp: readable_def)
  note r = rptr_readable [OF assms(1)]
  consider "name_type t" | "t = AVAHI_DNS_TYPE_SRV" | "t = AVAHI_DNS_TYPE_HINFO" | "t = AVAHI_DNS_TYPE_TXT"
    | "t = AVAHI_DNS_TYPE_A" | "t = AVAHI_DNS_TYPE_AAAA" | "generic_type t"
    unfolding generic_type_def by blast
  then show ?thesis
  proof cases
    case 1
    have "reads (data_read t) (consume_then (avahi_dns_packet_consume_name AVAHI_DOMAIN_NAME_MAX) (\<lambda>n. yields (Ptr n))) p"
      by (rule reads_then [OF assms(1) nm [OF assms(1)]], rule reads_yields)
        (use 1 name_read_no_nul in \<open>auto simp: data_read_def data_fits_def\<close>)
    with 1 show ?thesis by (simp add: parse_data_def)
  next
    case 2
    have "reads (data_read t) (consume_then avahi_dns_packet_consume_uint16 (\<lambda>priority.
        consume_then avahi_dns_packet_consume_uint16 (\<lambda>weight.
        consume_then avahi_dns_packet_consume_uint16 (\<lambda>port.
        consume_then (avahi_dns_packet_consume_name AVAHI_DOMAIN_NAME_MAX) (\<lambda>n. yields (Srv priority weight port n)))))) p"
      by (rule reads_then [OF assms(1) reads_uint(1) [OF assms(1)]], rule reads_then, assumption, erule reads_uint(1),
          rule reads_then, assumption, erule reads_uint(1), rule reads_then, assumption, erule nm, rule reads_yields, assumption)
        (use 2 name_read_no_nul in \<open>auto simp: data_read_def data_fits_def\<close>)
    with 2 show ?thesis by (simp add: parse_data_def name_type_def dns_type_defs)
  next
    case 3
    have "reads (data_read t) (consume_then (avahi_dns_packet_consume_string AVAHI_DOMAIN_NAME_MAX) (\<lambda>cpu.
        consume_then (avahi_dns_packet_consume_string AVAHI_DOMAIN_NAME_MAX) (\<lambda>os. yields (Hinfo cpu os)))) p"
      by (rule reads_then [OF assms(1) st [OF assms(1)]], rule reads_then, assumption, erule st, rule reads_yields, assumption)
        (use 3 in \<open>auto simp: data_read_def data_fits_def\<close>)
    with 3 show ?thesis by (simp add: parse_data_def name_type_def dns_type_defs)
  next
    case 4
    have "reads (data_read t) (consume_then (avahi_dns_packet_skip rdlength) (\<lambda>_. yields (Txt l))) p" for l
      by (rule reads_then [OF assms(1) reads_skip [OF assms(1)]], rule reads_yields, assumption)
        (use 4 in \<open>auto simp: data_read_def data_fits_def\<close>)
    then show ?thesis using 4 b r reads_none [OF assms(1)]
      by (auto simp: parse_data_def name_type_def dns_type_defs reads_def data_read_def data_fits_def yields_def moved_refl [OF assms(1)]
          split: option.split)
  next
    case 5
    have "reads (data_read t) (consume_then (avahi_dns_packet_consume_bytes 4) (\<lambda>a. yields (A_addr a))) p"
      by (rule reads_then [OF assms(1) reads_bytes [OF assms(1)]], simp, rule reads_yields, assumption)
        (use 5 in \<open>auto simp: data_read_def data_fits_def\<close>)
    with 5 show ?thesis by (simp add: parse_data_def name_type_def dns_type_defs)
  next
    case 6
    have "reads (data_read t) (consume_then (avahi_dns_packet_consume_bytes 16) (\<lambda>a. yields (Aaaa_addr a))) p"
      by (rule reads_then [OF assms(1) reads_bytes [OF assms(1)]], simp, rule reads_yields, assumption)
        (use 6 in \<open>auto simp: data_read_def data_fits_def\<close>)
    with 6 show ?thesis by (simp add: parse_data_def name_type_def dns_type_defs)
  next
    case 7
    have "reads (data_read t) (consume_then (avahi_dns_packet_skip rdlength) (\<lambda>_. yields (Generic (Some b)))) p"
      by (rule reads_then [OF assms(1) reads_skip [OF assms(1)]], rule reads_yields, assumption)
        (use 7 b assms(3) in \<open>auto simp: data_read_def data_fits_def\<close>)
    moreover have "reads (data_read t) (yields (Generic None)) p"
      by (rule reads_yields [OF assms(1)]) (use 7 in \<open>auto simp: data_read_def data_fits_def\<close>)
    ultimately show ?thesis using 7 b r assms(4)
      by (auto simp: parse_data_def generic_type_def zero_data_def reads_def)
  qed
qed

lemma reads_parse_rdata:
  assumes "readable p" "p_rindex p + rdlength \<le> p_size p" "rdlength < 65536" "d = zero_data t"
  shows "reads (data_read t) (parse_rdata t rdlength d) p"
proof -
  have "reads (data_read t) (consume_then (parse_data t rdlength d) (\<lambda>d' p'. do {
       start \<leftarrow> avahi_dns_packet_get_rptr p;
       ptr \<leftarrow> avahi_dns_packet_get_rptr p';
       Some (p', if int ptr - int start \<noteq> int rdlength then None else Some d')
     })) p"
    by (rule reads_then [OF assms(1) reads_parse_data [OF assms]])
      (simp add: reads_def rptr_readable assms(1) moved_refl)
  then show ?thesis by (simp add: reads_def parse_rdata_def)
qed

text \<open>A record as it comes out of a packet.\<close>

definition label_name :: "cstr \<Rightarrow> bool" where
  "label_name n \<longleftrightarrow> (\<exists>ls. short_labels ls \<and> list_all label_ok ls \<and> n = join_labels ls)"

definition received :: "rr \<Rightarrow> bool" where
  "received r \<longleftrightarrow> label_name (key_name (rr_key r)) \<and> data_read (key_type (rr_key r)) (rr_data r) \<and>
     avahi_record_is_valid r = Some True"

lemma is_valid_total: "rr_data r \<noteq> Unset \<Longrightarrow> \<exists>b. avahi_record_is_valid r = Some b"
  by (auto simp: avahi_record_is_valid_def split: rdata.split)

lemma key_new_read:
  assumes "name_read l n" "l \<le> AVAHI_DOMAIN_NAME_MAX"
  shows "\<exists>k. avahi_key_new n c t = Some k \<and>
    (case k of None \<Rightarrow> True | Some k \<Rightarrow> k = \<lparr>key_name = n, key_clazz = c, key_type = t\<rparr> \<and> label_name n)"
proof -
  from assms(1) obtain ls where "short_labels ls" "n = join_labels ls" "length n < l" by (auto simp: name_read_def)
  with key_new_short [of ls c t] assms(2) show ?thesis by (auto simp: label_name_def)
qed

lemma reads_record:
  assumes "readable p"
  shows "reads (\<lambda>(r, _). received r) avahi_dns_packet_consume_record p"
proof -
  have pos: "0 < AVAHI_DOMAIN_NAME_MAX" by (simp add: AVAHI_DOMAIN_NAME_MAX_def)
  have last: "reads (\<lambda>(r, _). received r) (\<lambda>p.
      if p_rindex p + unat rdlength > p_size p then Some (p, None)
       else do {
         let cache_flush = (class AND AVAHI_DNS_CACHE_FLUSH \<noteq> 0);
         let class = class AND NOT AVAHI_DNS_CACHE_FLUSH;
         r \<leftarrow> avahi_record_new_full name class type ttl;
         (case r of
            None \<Rightarrow> Some (p, None)
          | Some r \<Rightarrow>
              consume_then (parse_rdata type (unat rdlength) (rr_data r)) (\<lambda>d p. do {
                let r = r\<lparr>rr_data := d\<rparr>;
                v \<leftarrow> avahi_record_is_valid r;
                Some (p, if \<not> v then None else Some (r, cache_flush))
              }) p)
       }) q" if q: "readable q" "name_read AVAHI_DOMAIN_NAME_MAX name" for q name type "class" ttl and rdlength :: u16
  proof (cases "p_rindex q + unat rdlength > p_size q")
    case True
    with q(1) show ?thesis by (simp add: reads_def moved_refl)
  next
    case False
    define c where "c = class AND NOT AVAHI_DNS_CACHE_FLUSH"
    obtain k where k: "avahi_key_new name c type = Some k"
      "case k of None \<Rightarrow> True | Some k \<Rightarrow> k = \<lparr>key_name = name, key_clazz = c, key_type = type\<rparr> \<and> label_name name"
      using key_new_read [OF q(2) order_refl] by blast
    show ?thesis
    proof (cases k)
      case None
      with False k q(1) show ?thesis
        by (simp add: reads_def moved_refl avahi_record_new_full_def Let_def flip: c_def)
    next
      case (Some k')
      define r where "r = avahi_record_new k' ttl"
      have r: "rr_data r = zero_data type" "rr_key r = \<lparr>key_name = name, key_clazz = c, key_type = type\<rparr>" "label_name name"
        using k(2) Some by (simp_all add: r_def avahi_record_new_def)
      have fin: "reads (\<lambda>(r, _). received r) (\<lambda>p. do {
            v \<leftarrow> avahi_record_is_valid (r\<lparr>rr_data := d\<rparr>);
            Some (p, if \<not> v then None else Some (r\<lparr>rr_data := d\<rparr>, fl))}) q'"
        if dq: "data_read type d" "readable q'" for d q' fl
      proof -
        obtain v where "avahi_record_is_valid (r\<lparr>rr_data := d\<rparr>) = Some v"
          using is_valid_total [of "r\<lparr>rr_data := d\<rparr>"] dq(1) by (auto simp: data_read_def)
        with dq r show ?thesis by (auto simp: reads_def moved_refl received_def)
      qed
      have "reads (\<lambda>(r, _). received r) (consume_then (parse_rdata type (unat rdlength) (rr_data r)) (\<lambda>d p. do {
            v \<leftarrow> avahi_record_is_valid (r\<lparr>rr_data := d\<rparr>);
            Some (p, if \<not> v then None else Some (r\<lparr>rr_data := d\<rparr>, fl))})) q" for fl
        by (rule reads_then [OF q(1) reads_parse_rdata [OF q(1)]]) (use False r(1) fin in auto)
      from this [of "class AND AVAHI_DNS_CACHE_FLUSH \<noteq> 0", unfolded r_def] show ?thesis using False k(1) Some
        by (simp add: reads_def avahi_record_new_full_def Let_def flip: c_def)
    qed
  qed
  show ?thesis unfolding avahi_dns_packet_consume_record_def
    by (rule reads_then [OF assms reads_name [OF assms pos]], rule reads_then, assumption, erule reads_uint(1),
        rule reads_then, assumption, erule reads_uint(1), rule reads_then, assumption, erule reads_uint(2),
        rule reads_then, assumption, erule reads_uint(1), rule last, assumption, assumption)
qed

definition received_key :: "rrkey \<Rightarrow> bool" where
  "received_key k \<longleftrightarrow> label_name (key_name k) \<and> length (key_name k) < 256 \<and> avahi_key_is_valid k"

lemma reads_key:
  assumes "readable p"
  shows "reads (\<lambda>(k, _). received_key k) avahi_dns_packet_consume_key p"
proof -
  have last: "reads (\<lambda>(k, _). received_key k) (\<lambda>p. do {
       let unicast_response = (class AND AVAHI_DNS_UNICAST_RESPONSE \<noteq> 0);
       let class = class AND NOT AVAHI_DNS_UNICAST_RESPONSE;
       k \<leftarrow> avahi_key_new name class type;
       Some (p, case k of
           None \<Rightarrow> None
         | Some k \<Rightarrow> if \<not> avahi_key_is_valid k then None else Some (k, unicast_response))
     }) q" if q: "readable q" "name_read 256 name" for q name type "class"
  proof -
    define c where "c = class AND NOT AVAHI_DNS_UNICAST_RESPONSE"
    obtain k where k: "avahi_key_new name c type = Some k"
      "case k of None \<Rightarrow> True | Some k \<Rightarrow> k = \<lparr>key_name = name, key_clazz = c, key_type = type\<rparr> \<and> label_name name"
      using key_new_read [OF q(2)] by (auto simp: AVAHI_DOMAIN_NAME_MAX_def)
    with q show ?thesis
      by (auto simp: reads_def moved_refl received_key_def name_read_def Let_def split: option.splits simp flip: c_def)
  qed
  show ?thesis unfolding avahi_dns_packet_consume_key_def
    by (rule reads_then [OF assms reads_name [OF assms]], simp, rule reads_then, assumption, erule reads_uint(1),
        rule reads_then, assumption, erule reads_uint(1), rule last, assumption, assumption)
qed

end
