(* ===== verification/Dnswrite.thy ===== *)
theory Dnswrite
  imports Dnsread
begin

text \<open>
  Appending to a packet (theory \<open>Dns\<close>): the name table as a map, what the bytes of a packet say, and the
  rules for chains of appends: they keep what was there, fail only without room, and are rolled back.
\<close>

subsection \<open>The name table as a map\<close>

definition tab :: "(cstr, nat) hashmap \<Rightarrow> cstr \<rightharpoonup> nat" where
  "tab m = al_lookup (=) (hm_alist m)"

lemma tab_iff:
  assumes "string_key.inv m"
  shows "tab m k = Some v \<longleftrightarrow> (\<exists>e \<in> set (entries_list m). entry_heap m e = Some (k, v))"
proof -
  note d = hm_invD [OF assms]
  have k: "no_nul (hm_key m e)" if "e \<in> set (entries_list m)" for e using d(7) [OF that] .
  have u: "e = e'" if "e \<in> set (entries_list m)" "e' \<in> set (entries_list m)" "hm_key m e = hm_key m e'" for e e'
    using d(8) [OF that(1,2)] that(3) k [OF that(1)] by (simp add: string_equal_iff)
  have "al_lookup (=) (map (\<lambda>e. the (entry_heap m e)) es) k = Some v \<longleftrightarrow> (\<exists>e \<in> set es. entry_heap m e = Some (k, v))"
    if "set es \<subseteq> set (entries_list m)" for es
    using that
  proof (induction es)
    case (Cons e es)
    then obtain k' v' where h: "entry_heap m e = Some (k', v')" using d(5) [of e] by auto
    have "e = e'" if "e' \<in> set es" "entry_heap m e' = Some (k', w)" for e' w
      using u [of e e'] Cons.prems that h by (auto simp: hm_key_def)
    then show ?case using Cons h by auto
  qed simp
  from this [of "entries_list m"] show ?thesis by (simp add: tab_def hm_alist_def)
qed

lemma tab_no_nul: "string_key.inv m \<Longrightarrow> tab m k = Some v \<Longrightarrow> no_nul k"
  using hm_invD(7) [of no_nul avahi_string_hash avahi_string_equal m] by (auto simp: tab_iff hm_key_def) (metis fst_conv option.sel)

lemma tab_lookup: "string_key.inv m \<Longrightarrow> no_nul k \<Longrightarrow> avahi_hashmap_lookup m k = Some (tab m k)"
  using string_key.lookup_eq [of m k] al_lookup_string [of "hm_alist m" k] string_key.keys_ok [of m]
  by (auto simp: tab_def)

lemma tab_insert:
  assumes "string_key.inv m" "no_nul k"
  shows "\<exists>m' r. avahi_hashmap_insert m k v = Some (m', r) \<and> string_key.inv m' \<and>
    tab m' = (case tab m k of None \<Rightarrow> (tab m)(k \<mapsto> v) | Some _ \<Rightarrow> tab m)"
  using string_step [of m "Op_insert k v"] assms by (auto simp: tab_def Option.bind_eq_Some_conv split: option.splits)

lemma tab_new:
  "string_key.inv (avahi_hashmap_new avahi_string_hash avahi_string_equal kf vf)"
  "tab (avahi_hashmap_new avahi_string_hash avahi_string_equal kf vf) = (\<lambda>_. None)"
  by (rule hm_inv_new) (simp add: tab_def hm_alist_def avahi_hashmap_new_def fun_eq_iff)

lemma remove_entry:
  assumes "string_key.inv m" "e \<in> set (entries_list m)" "entry_heap m e = Some (k, v)"
  obtains m' where "avahi_hashmap_remove m k = Some m'" "string_key.inv m'"
    "entries_list m' = remove1 e (entries_list m)"
    "\<And>x. x \<in> set (entries_list m') \<Longrightarrow> entry_heap m' x = entry_heap m x"
proof -
  note d = hm_invD [OF assms(1)]
  have key: "no_nul k" using d(7) [OF assms(2)] assms(3) by (simp add: hm_key_def)
  from assms(1) key show thesis
  proof (cases rule: string_key.entry_get_cases)
    case absent
    from absent(3) [OF assms(2)] assms(3) key show thesis by (simp add: hm_key_def string_equal_iff)
  next
    case (present e' k' v')
    have "e' = e" using d(8) [OF assms(2) present(2)] present(3,4) assms(3) by (simp add: hm_key_def)
    obtain m' where m': "entry_free m e False = Some m'" "string_key.inv m'"
      "hm_alist m' = map (\<lambda>e. the (entry_heap m e)) (remove1 e (entries_list m))"
      "entries_list m' = remove1 e (entries_list m)"
      by (rule entry_free_inv [OF assms(1-3)])
    have "entry_heap m' x = entry_heap m x" if "x \<in> set (entries_list m')" for x
    proof -
      have "the (entry_heap m' x) = the (entry_heap m x)" using m'(3,4) that by (simp add: hm_alist_def)
      moreover have "entry_heap m' x \<noteq> None" using hm_invD(5) [OF m'(2)] that by blast
      moreover have "entry_heap m x \<noteq> None" using d(5) that m'(4) by (metis notin_set_remove1)
      ultimately show ?thesis by (metis option.expand)
    qed
    with that [of m'] m' present \<open>e' = e\<close> show thesis by (simp add: avahi_hashmap_remove_def)
  qed
qed

lemma cleanup_loop_ok:
  assumes "string_key.inv m" "distinct es" "set es \<subseteq> set (entries_list m)"
  shows "\<exists>m'. cleanup_loop sz es m = Some m' \<and> string_key.inv m' \<and>
    set (entries_list m') = {e \<in> set (entries_list m). e \<in> set es \<longrightarrow> snd (the (entry_heap m e)) < sz} \<and>
    (\<forall>e \<in> set (entries_list m'). entry_heap m' e = entry_heap m e)"
  using assms
proof (induction es arbitrary: m)
  case (Cons e es)
  from Cons.prems have e: "e \<in> set (entries_list m)" by simp
  with hm_invD(5) [OF Cons.prems(1)] obtain k v where h: "entry_heap m e = Some (k, v)" by fastforce
  show ?case
  proof (cases "v \<ge> sz")
    case True
    obtain m1 where m1: "avahi_hashmap_remove m k = Some m1" "string_key.inv m1"
      "entries_list m1 = remove1 e (entries_list m)"
      "\<And>x. x \<in> set (entries_list m1) \<Longrightarrow> entry_heap m1 x = entry_heap m x"
      using remove_entry [OF Cons.prems(1) e h] by blast
    have s: "set (entries_list m1) = set (entries_list m) - {e}"
      using m1(3) hm_invD(4) [OF Cons.prems(1)] by simp
    from Cons.prems s have "distinct es" "set es \<subseteq> set (entries_list m1)" by auto
    from Cons.IH [OF m1(2) this] obtain m' where m': "cleanup_loop sz es m1 = Some m'" "string_key.inv m'"
      "set (entries_list m') = {e \<in> set (entries_list m1). e \<in> set es \<longrightarrow> snd (the (entry_heap m1 e)) < sz}"
      "\<forall>e \<in> set (entries_list m'). entry_heap m' e = entry_heap m1 e" by blast
    have "set (entries_list m') = {x \<in> set (entries_list m). x \<in> set (e # es) \<longrightarrow> snd (the (entry_heap m x)) < sz}"
      unfolding m'(3) using s m1(4) h True by auto
    moreover have "\<forall>x \<in> set (entries_list m'). entry_heap m' x = entry_heap m x" using m'(3,4) m1(4) by simp
    ultimately show ?thesis using m' m1(1) h True by simp
  next
    case False
    from Cons.prems Cons.IH [OF Cons.prems(1)] obtain m' where m': "cleanup_loop sz es m = Some m'" "string_key.inv m'"
      "set (entries_list m') = {e \<in> set (entries_list m). e \<in> set es \<longrightarrow> snd (the (entry_heap m e)) < sz}"
      "\<forall>e \<in> set (entries_list m'). entry_heap m' e = entry_heap m e" by auto
    moreover have "set (entries_list m') = {x \<in> set (entries_list m). x \<in> set (e # es) \<longrightarrow> snd (the (entry_heap m x)) < sz}"
      unfolding m'(3) using h False by auto
    ultimately show ?thesis using h False by simp
  qed
qed auto

lemma cleanup_tab:
  assumes "string_key.inv m"
  shows "\<exists>m'. cleanup_loop sz (entries_list m) m = Some m' \<and> string_key.inv m' \<and>
    tab m' = (\<lambda>k. case tab m k of Some v \<Rightarrow> if v < sz then Some v else None | None \<Rightarrow> None)"
proof -
  from cleanup_loop_ok [OF assms hm_invD(4) [OF assms] subset_refl, of sz] obtain m' where
    m': "cleanup_loop sz (entries_list m) m = Some m'" "string_key.inv m'"
      "set (entries_list m') = {e \<in> set (entries_list m). snd (the (entry_heap m e)) < sz}"
      "\<forall>e \<in> set (entries_list m'). entry_heap m' e = entry_heap m e" by auto
  have "tab m' k = Some v \<longleftrightarrow> tab m k = Some v \<and> v < sz" for k v
    unfolding tab_iff [OF m'(2)] tab_iff [OF assms] using m'(3,4) by (force simp: m'(3))
  then have "tab m' k = (case tab m k of Some v \<Rightarrow> if v < sz then Some v else None | None \<Rightarrow> None)" for k
    by (cases "tab m k"; cases "tab m' k") (auto split: if_splits, metis option.distinct(1))
  with m' show ?thesis by (auto simp: fun_eq_iff)
qed

subsection \<open>Names in memory\<close>

text \<open>
  The memory of a packet as a partial function, without the bytes of a hole \<open>H\<close> that are still to be
  written; and a name that can be read from it at \<open>off\<close> in \<open>n\<close> rounds of the loop, ending in front
  of \<open>e\<close>.
\<close>

definition mem :: "nat set \<Rightarrow> packet \<Rightarrow> nat \<rightharpoonup> byte" where
  "mem H p i = (if i < p_size p \<and> i \<notin> H then Some (p_data p ! i) else None)"

definition bytes_at :: "(nat \<rightharpoonup> byte) \<Rightarrow> nat \<Rightarrow> byte list \<Rightarrow> bool" where
  "bytes_at M off bs \<longleftrightarrow> (\<forall>i < length bs. M (off + i) = Some (bs ! i))"

inductive name_at :: "(nat \<rightharpoonup> byte) \<Rightarrow> nat \<Rightarrow> nat \<Rightarrow> byte list list \<Rightarrow> nat \<Rightarrow> bool" for M where
  name_end: "bytes_at M off [0] \<Longrightarrow> name_at M 1 off [] (off + 1)"
| name_label: "l \<noteq> [] \<Longrightarrow> length l < AVAHI_LABEL_MAX \<Longrightarrow> bytes_at M off (byte_of (length l) # l) \<Longrightarrow>
    name_at M n (off + 1 + length l) ls e \<Longrightarrow> name_at M (n + 1) off (l # ls) e"
| name_jump: "bytes_at M off (name_pointer t) \<Longrightarrow> AVAHI_DNS_PACKET_HEADER_SIZE \<le> t \<Longrightarrow> t < off \<Longrightarrow> t < 0x4000 \<Longrightarrow>
    name_at M n t ls e \<Longrightarrow> name_at M (n + 1) off ls (off + 2)"

lemma bytes_at_Nil [simp]: "bytes_at M off []"
  by (simp add: bytes_at_def)

lemma bytes_at_Cons: "bytes_at M off (b # bs) \<longleftrightarrow> M off = Some b \<and> bytes_at M (off + 1) bs"
  by (auto simp: bytes_at_def less_Suc_eq_0_disj)

lemma bytes_at_append: "bytes_at M off (bs @ cs) \<longleftrightarrow> bytes_at M off bs \<and> bytes_at M (off + length bs) cs"
  by (induction bs arbitrary: off) (auto simp: bytes_at_Cons)

lemma map_le_Some: "M \<subseteq>\<^sub>m M' \<Longrightarrow> M x = Some y \<Longrightarrow> M' x = Some y"
  by (metis domI map_le_def)

lemma bytes_at_mono: "M \<subseteq>\<^sub>m M' \<Longrightarrow> bytes_at M off bs \<Longrightarrow> bytes_at M' off bs"
  by (auto simp: bytes_at_def intro: map_le_Some)

lemma name_at_mono:
  assumes "name_at M n off ls e" "M \<subseteq>\<^sub>m M'"
  shows "name_at M' n off ls e"
  using assms(1)
proof (induction rule: name_at.induct)
  case (name_end off)
  then show ?case by (intro name_at.name_end bytes_at_mono [OF assms(2)])
next
  case (name_label l off n ls e)
  then show ?case by (intro name_at.name_label bytes_at_mono [OF assms(2)])
next
  case (name_jump off t n ls e)
  from bytes_at_mono [OF assms(2) name_jump(1)] name_jump show ?case by (intro name_at.name_jump)
qed

lemma name_at_first: "name_at M n off ls e \<Longrightarrow> M off \<noteq> None"
  by (induction rule: name_at.induct) (auto simp: name_pointer_def bytes_at_Cons)

subsection \<open>What appending keeps\<close>

definition tbl :: "packet \<Rightarrow> cstr \<rightharpoonup> nat" where
  "tbl p = (case p_names p of None \<Rightarrow> (\<lambda>_. None) | Some m \<Rightarrow> tab m)"

definition packet_ok :: "packet \<Rightarrow> bool" where
  "packet_ok p \<longleftrightarrow> length (p_data p) = p_max_size p \<and> p_size p \<le> p_max_size p \<and>
     (case p_names p of None \<Rightarrow> True | Some m \<Rightarrow> string_key.inv m)"

definition extends :: "packet \<Rightarrow> packet \<Rightarrow> bool" where
  "extends p p' \<longleftrightarrow> packet_ok p' \<and> p_max_size p' = p_max_size p \<and> p_rindex p' = p_rindex p \<and> p_res_size p' = p_res_size p \<and>
     p_size p \<le> p_size p' \<and> take (p_size p) (p_data p') = take (p_size p) (p_data p) \<and> tbl p \<subseteq>\<^sub>m tbl p' \<and>
     (\<forall>k v. tbl p' k = Some v \<longrightarrow> tbl p k = Some v \<or> p_size p \<le> v)"

lemma extends_refl: "packet_ok p \<Longrightarrow> extends p p"
  by (simp add: extends_def)

lemma take_eq_mono: "take n xs = take n ys \<Longrightarrow> m \<le> n \<Longrightarrow> take m xs = take m ys"
  by (metis min.absorb1 take_take)

lemma extends_trans:
  assumes "extends p p1" "extends p1 p2"
  shows "extends p p2"
proof -
  have "take (p_size p) (p_data p2) = take (p_size p) (p_data p1)"
    using assms take_eq_mono [of "p_size p1" "p_data p2" "p_data p1" "p_size p"] by (simp add: extends_def)
  moreover have "tbl p \<subseteq>\<^sub>m tbl p2" using assms map_le_trans by (auto simp: extends_def)
  moreover have "tbl p k = Some v \<or> p_size p \<le> v" if "tbl p2 k = Some v" for k v
    using assms that unfolding extends_def by (meson order_trans)
  ultimately show ?thesis using assms by (auto simp: extends_def)
qed

lemma extends_mem:
  assumes "extends p p'"
  shows "mem H p \<subseteq>\<^sub>m mem H p'"
proof -
  have "p_data p' ! i = p_data p ! i" if "i < p_size p" for i
    using assms that nth_take [of i "p_size p" "p_data p'"] nth_take [of i "p_size p" "p_data p"] by (simp add: extends_def)
  then show ?thesis using assms by (auto simp: map_le_def mem_def extends_def dom_def)
qed

lemma append_raw_ok:
  assumes "packet_ok p"
  shows "\<exists>p' r. append_raw bs p = Some (p', r) \<and> extends p p' \<and> p_names p' = p_names p \<and>
    (case r of
       None \<Rightarrow> p' = p \<and> p_max_size p < p_size p + length bs
     | Some d \<Rightarrow> d = p_size p \<and> p_size p' = p_size p + length bs \<and> (\<forall>H \<subseteq> {..<p_size p}. bytes_at (mem H p') (p_size p) bs))"
proof (cases "p_size p + length bs > p_max_size p")
  case True
  then show ?thesis using extends_refl [OF assms] by (simp add: append_raw_def avahi_dns_packet_extend_def)
next
  case False
  define q where "q = p\<lparr>p_size := p_size p + length bs,
    p_data := take (p_size p) (p_data p) @ bs @ drop (p_size p + length bs) (p_data p)\<rparr>"
  have l: "length (p_data p) = p_max_size p" "p_size p \<le> p_max_size p" using assms by (simp_all add: packet_ok_def)
  have "append_raw bs p = Some (q, Some (p_size p))"
    using False l by (simp add: append_raw_def avahi_dns_packet_extend_def p_write_def q_def)
  moreover have "extends p q" using assms False l by (simp add: extends_def packet_ok_def q_def tbl_def)
  moreover have "bytes_at (mem H q) (p_size p) bs" if "H \<subseteq> {..<p_size p}" for H
    using l False that by (auto simp: bytes_at_def mem_def q_def nth_append)
  ultimately show ?thesis by (simp add: q_def)
qed

text \<open>An entry of the name table whose name can be read, in at most two rounds for each label.\<close>

definition good_labels :: "byte list list \<Rightarrow> bool" where
  "good_labels ls \<longleftrightarrow> short_labels ls \<and> list_all label_ok ls"

definition entry_ok :: "(nat \<rightharpoonup> byte) \<Rightarrow> cstr \<Rightarrow> nat \<Rightarrow> bool" where
  "entry_ok M k v \<longleftrightarrow> (\<exists>ls n e. good_labels ls \<and> k = join_labels ls \<and> AVAHI_DNS_PACKET_HEADER_SIZE \<le> v \<and>
     name_at M n v ls e \<and> n \<le> 2 * length ls)"

lemma entry_ok_mono: "entry_ok M k v \<Longrightarrow> M \<subseteq>\<^sub>m M' \<Longrightarrow> entry_ok M' k v"
  unfolding entry_ok_def using name_at_mono by blast

lemma entry_ok_less: "entry_ok (mem H p) k v \<Longrightarrow> v < p_size p"
  unfolding entry_ok_def using name_at_first [of "mem H p"] by (fastforce simp: mem_def split: if_splits)

lemma good_labels_simps [simp]:
  "good_labels []" "good_labels (l # ls) \<longleftrightarrow> l \<noteq> [] \<and> label_ok l \<and> good_labels ls"
  by (auto simp: good_labels_def label_ok_def)

lemma labels_of_good: "good_labels ls \<Longrightarrow> labels_of (join_labels ls) = Some ls"
  using labels_of_short by (simp add: good_labels_def)

lemma join_labels_inj: "good_labels ls \<Longrightarrow> good_labels ls' \<Longrightarrow> join_labels ls = join_labels ls' \<Longrightarrow> ls = ls'"
  by (metis labels_of_good option.inject)

lemma append_string_label:
  assumes "length l < AVAHI_LABEL_MAX"
  shows "avahi_dns_packet_append_string l = append_raw (byte_of (length l) # l)"
proof -
  have "\<not> 255 \<le> length l" using assms unfolding AVAHI_LABEL_MAX_def by linarith
  then show ?thesis unfolding avahi_dns_packet_append_string_def Let_def fun_eq_iff by (simp only: if_False take_all_iff order_refl take_all simp_thms)
qed

text \<open>One round for a name with labels.\<close>

lemma append_name_loop_step:
  assumes "packet_ok p" "good_labels (l # ls)" "\<forall>idx. tbl p (join_labels (l # ls)) = Some idx \<longrightarrow> idx < p_size p"
    and "target = (case tbl p (join_labels (l # ls)) of None \<Rightarrow> None | Some idx \<Rightarrow> if idx < 0x4000 then Some idx else None)"
  shows "append_name_loop p (join_labels (l # ls)) = (case target of
           Some idx \<Rightarrow> do {
             (p, t) \<leftarrow> append_raw (name_pointer idx) p;
             Some (p, case t of None \<Rightarrow> Name_null | Some _ \<Rightarrow> Name_done)
           }
         | None \<Rightarrow> do {
             (p, d) \<leftarrow> append_raw (byte_of (length l) # l) p;
             (case d of
                None \<Rightarrow> Some (p, Name_fail)
              | Some d \<Rightarrow> do {
                  let m = (case p_names p of
                      Some m \<Rightarrow> m | None \<Rightarrow> avahi_hashmap_new avahi_string_hash avahi_string_equal True False);
                  (m, _) \<leftarrow> avahi_hashmap_insert m (join_labels (l # ls)) d;
                  append_name_loop (p\<lparr>p_names := Some m\<rparr>) (join_labels ls)
                })
           })"
proof -
  let ?name = "join_labels (l # ls)"
  have g: "length l < AVAHI_LABEL_MAX" "label_ok l" using assms(2) by (auto simp: label_ok_def)
  have ne: "?name \<noteq> []" using assms(2) join_labels_Nil_iff [of "l # ls"] by (simp add: good_labels_def)
  have nn: "no_nul ?name" by (rule no_nul_join)
  have u: "avahi_unescape_label AVAHI_LABEL_MAX ?name = Some (l, join_labels ls)"
    using unescape_join [of l ls] g assms(2) by (simp add: good_labels_def)
  have prev: "(case p_names p of None \<Rightarrow> Some None | Some m \<Rightarrow> avahi_hashmap_lookup m ?name) = Some (tbl p ?name)"
    using assms(1) tab_lookup [OF _ nn] by (auto simp: packet_ok_def tbl_def split: option.splits)
  show ?thesis
    using ne u prev assms(3) append_string_label [OF g(1)] unfolding assms(4)
    by (subst append_name_loop.simps) (auto split: option.split)
qed

text \<open>The size of a name without compression.\<close>

definition wire_length :: "byte list list \<Rightarrow> nat" where
  "wire_length ls = sum_list (map (\<lambda>l. 1 + length l) ls) + 1"

lemma wire_length_simps [simp]: "wire_length [] = 1" "wire_length (l # ls) = 1 + length l + wire_length ls"
  by (simp_all add: wire_length_def)

lemma wire_length_pos: "1 \<le> wire_length ls"
  by (simp add: wire_length_def)

lemma append_name_loop_ok:
  assumes "packet_ok p" "good_labels ls" "AVAHI_DNS_PACKET_HEADER_SIZE \<le> p_size p" "H \<subseteq> {..<p_size p}"
    and "\<And>k v. tbl p k = Some v \<Longrightarrow> length k \<le> length (join_labels ls) \<Longrightarrow> entry_ok (mem H p) k v"
  shows "\<exists>p' x. append_name_loop p (join_labels ls) = Some (p', x) \<and> extends p p' \<and>
    (x = Name_done \<longrightarrow>
       (\<exists>n. name_at (mem H p') n (p_size p) ls (p_size p') \<and> n \<le> 2 * length ls + 1) \<and>
       (\<forall>k v. tbl p' k = Some v \<longrightarrow> tbl p k = Some v \<or> entry_ok (mem H p') k v)) \<and>
    (p_size p + wire_length ls \<le> p_max_size p \<longrightarrow> x = Name_done \<and> p_size p' \<le> p_size p + wire_length ls)"
  using assms
proof (induction ls arbitrary: p)
  case Nil
  obtain p' r where r: "append_raw [0] p = Some (p', r)" "extends p p'" "p_names p' = p_names p"
    "case r of
       None \<Rightarrow> p' = p \<and> p_max_size p < p_size p + length [0 :: byte]
     | Some d \<Rightarrow> d = p_size p \<and> p_size p' = p_size p + length [0 :: byte] \<and> (\<forall>H \<subseteq> {..<p_size p}. bytes_at (mem H p') (p_size p) [0])"
    using append_raw_ok [OF Nil(1), of "[0]"] by blast
  have "name_at (mem H p') 1 (p_size p) [] (p_size p')" if "r \<noteq> None"
    using that r(4) Nil(4) name_at.name_end [of "mem H p'" "p_size p"] by auto
  moreover have "tbl p' = tbl p" using r(3) by (simp add: tbl_def)
  ultimately show ?case using r by (auto simp: append_name_loop.simps [of p "[]"] split: option.split)
next
  case (Cons l ls)
  let ?name = "join_labels (l # ls)"
  have g: "good_labels (l # ls)" "good_labels ls" "label_ok l" "l \<noteq> []" "length l < AVAHI_LABEL_MAX"
    using Cons.prems(2) by (auto simp: label_ok_def)
  have nn: "no_nul ?name" by (rule no_nul_join)
  have hit: "entry_ok (mem H p) ?name idx" if "tbl p ?name = Some idx" for idx
    using Cons.prems(5) that by blast
  have small: "\<forall>idx. tbl p ?name = Some idx \<longrightarrow> idx < p_size p"
    using entry_ok_less hit by blast
  define target where "target = (case tbl p ?name of None \<Rightarrow> None | Some idx \<Rightarrow> if idx < 0x4000 then Some idx else None)"
  note step = append_name_loop_step [OF Cons.prems(1) g(1) small target_def]
  show ?case
  proof (cases target)
    case (Some idx)
    then have idx: "tbl p ?name = Some idx" "idx < 0x4000" by (auto simp: target_def split: option.splits if_splits)
    obtain ls0 n e where h: "good_labels ls0" "?name = join_labels ls0" "AVAHI_DNS_PACKET_HEADER_SIZE \<le> idx"
        "name_at (mem H p) n idx ls0 e" "n \<le> 2 * length ls0"
      using hit [OF idx(1)] unfolding entry_ok_def by blast
    have "ls0 = l # ls" using join_labels_inj [OF g(1) h(1,2)] by simp
    then have n: "AVAHI_DNS_PACKET_HEADER_SIZE \<le> idx" "name_at (mem H p) n idx (l # ls) e" "n \<le> 2 * length (l # ls)"
      using h by simp_all
    obtain p' r where r: "append_raw (name_pointer idx) p = Some (p', r)" "extends p p'" "p_names p' = p_names p"
      "case r of
         None \<Rightarrow> p' = p \<and> p_max_size p < p_size p + length (name_pointer idx)
       | Some d \<Rightarrow> d = p_size p \<and> p_size p' = p_size p + length (name_pointer idx) \<and>
           (\<forall>H \<subseteq> {..<p_size p}. bytes_at (mem H p') (p_size p) (name_pointer idx))"
      using append_raw_ok [OF Cons.prems(1), of "name_pointer idx"] by blast
    have "name_at (mem H p') (n + 1) (p_size p) (l # ls) (p_size p')" if "r \<noteq> None"
    proof -
      have "p_size p' = p_size p + 2" "bytes_at (mem H p') (p_size p) (name_pointer idx)"
        using that r(4) Cons.prems(4) by (auto simp: name_pointer_def)
      then show ?thesis
        using name_at.name_jump [OF _ n(1) small [rule_format, OF idx(1)] idx(2) name_at_mono [OF n(2) extends_mem [OF r(2)]]] by simp
    qed
    moreover have "tbl p' = tbl p" using r(3) by (simp add: tbl_def)
    moreover have "2 \<le> wire_length (l # ls)" using g(4) wire_length_pos [of ls] by simp
    ultimately show ?thesis using r n(3) unfolding step Some
      by (cases r) (auto simp: name_pointer_def intro!: exI [of _ "n + 1"])
  next
    case None
    let ?b = "byte_of (length l) # l"
    obtain p1 r where r: "append_raw ?b p = Some (p1, r)" "extends p p1" "p_names p1 = p_names p"
      "case r of
         None \<Rightarrow> p1 = p \<and> p_max_size p < p_size p + length ?b
       | Some d \<Rightarrow> d = p_size p \<and> p_size p1 = p_size p + length ?b \<and>
           (\<forall>H \<subseteq> {..<p_size p}. bytes_at (mem H p1) (p_size p) ?b)"
      using append_raw_ok [OF Cons.prems(1), of ?b] by blast
    show ?thesis
    proof (cases r)
      case None
      with r \<open>target = None\<close> wire_length_pos [of ls] show ?thesis unfolding step by auto
    next
      case (Some d)
      then have d: "d = p_size p" "p_size p1 = p_size p + 1 + length l" "bytes_at (mem H p1) (p_size p) ?b"
        using r(4) Cons.prems(4) by auto
      define m where "m = (case p_names p1 of
          Some m \<Rightarrow> m | None \<Rightarrow> avahi_hashmap_new avahi_string_hash avahi_string_equal True False)"
      have m: "string_key.inv m" "tab m = tbl p"
        using Cons.prems(1) r(3) by (auto simp: m_def tbl_def packet_ok_def tab_new split: option.splits)
      obtain m' x where m': "avahi_hashmap_insert m ?name d = Some (m', x)" "string_key.inv m'"
        "tab m' = (case tab m ?name of None \<Rightarrow> (tab m)(?name \<mapsto> d) | Some _ \<Rightarrow> tab m)"
        using tab_insert [OF m(1) nn, of d] by blast
      define p2 where "p2 = p1\<lparr>p_names := Some m'\<rparr>"
      have t2: "tbl p2 = (case tbl p ?name of None \<Rightarrow> (tbl p)(?name \<mapsto> d) | Some _ \<Rightarrow> tbl p)"
        unfolding m(2) [symmetric] m'(3) [symmetric] by (simp add: tbl_def p2_def)
      have new: "tbl p2 k = Some v \<Longrightarrow> tbl p k = Some v \<or> k = ?name \<and> v = p_size p" for k v
        unfolding t2 by (auto split: option.splits if_splits simp: d(1))
      have le: "tbl p \<subseteq>\<^sub>m tbl p2" unfolding t2 by (auto simp: map_le_def split: option.split)
      have "packet_ok p2" using r(2) m'(2) by (auto simp: packet_ok_def p2_def extends_def)
      moreover have "extends p p2" using r(2) calculation le new unfolding extends_def
        by (auto simp: p2_def)
      moreover have mem2: "mem H p2 = mem H p1" by (simp add: mem_def p2_def fun_eq_iff)
      ultimately have x2: "packet_ok p2" "extends p p2" "mem H p \<subseteq>\<^sub>m mem H p2" "p_size p2 = p_size p1"
        using extends_mem [of p p2 H] by (simp_all add: p2_def)
      have "length (join_labels ls) < length ?name"
        using g(4) by (cases ls) auto
      then have old: "entry_ok (mem H p2) k v" if "tbl p2 k = Some v" "length k \<le> length (join_labels ls)" for k v
        using new [OF that(1)] that(2) Cons.prems(5) [of k v] entry_ok_mono [OF _ x2(3)] by auto
      have "AVAHI_DNS_PACKET_HEADER_SIZE \<le> p_size p2" "H \<subseteq> {..<p_size p2}"
        using Cons.prems(3,4) x2(4) d(2) by auto
      from Cons.IH [OF x2(1) g(2) this old] obtain p' y where
        p': "append_name_loop p2 (join_labels ls) = Some (p', y)" "extends p2 p'"
          "y = Name_done \<longrightarrow>
             (\<exists>n. name_at (mem H p') n (p_size p2) ls (p_size p') \<and> n \<le> 2 * length ls + 1) \<and>
             (\<forall>k v. tbl p' k = Some v \<longrightarrow> tbl p2 k = Some v \<or> entry_ok (mem H p') k v)"
          "p_size p2 + wire_length ls \<le> p_max_size p2 \<longrightarrow> y = Name_done \<and> p_size p' \<le> p_size p2 + wire_length ls"
        by blast
      have room: "p_size p + wire_length (l # ls) \<le> p_max_size p \<longrightarrow> y = Name_done \<and> p_size p' \<le> p_size p + wire_length (l # ls)"
        using p'(4) x2(2,4) d(2) by (auto simp: extends_def)
      have e: "append_name_loop p ?name = Some (p', y)"
        using r(1) Some \<open>target = None\<close> m'(1) p'(1) unfolding step by (simp add: m_def p2_def)
      have fin: "(\<exists>n. name_at (mem H p') n (p_size p) (l # ls) (p_size p') \<and> n \<le> 2 * length (l # ls) + 1) \<and>
          (\<forall>k v. tbl p' k = Some v \<longrightarrow> tbl p k = Some v \<or> entry_ok (mem H p') k v)" if y: "y = Name_done"
      proof -
        obtain n where n: "name_at (mem H p') n (p_size p2) ls (p_size p')" "n \<le> 2 * length ls + 1"
          using p'(3) y by blast
        have "bytes_at (mem H p') (p_size p) ?b"
          using bytes_at_mono [OF extends_mem [OF p'(2)]] d(3) mem2 by simp
        then have na: "name_at (mem H p') (n + 1) (p_size p) (l # ls) (p_size p')"
          using name_at.name_label [OF g(4,5), of "mem H p'" "p_size p" n ls "p_size p'"] n(1) x2(4) d(2) by simp
        then have "entry_ok (mem H p') ?name (p_size p)"
          unfolding entry_ok_def using g(1) n(2) Cons.prems(3) by (intro exI [of _ "l # ls"]) auto
        then have "tbl p k = Some v \<or> entry_ok (mem H p') k v" if "tbl p' k = Some v" for k v
          using p'(3) y that new [of k v] by auto
        with na n(2) show ?thesis by (intro conjI exI [of _ "n + 1"]) auto
      qed
      show ?thesis using e extends_trans [OF x2(2) p'(2)] fin room by blast
    qed
  qed
qed

subsection \<open>Appending as a whole\<close>

text \<open>
  A packet that is being written: the names of its table can be read from its bytes outside the hole \<open>H\<close>.
\<close>

definition write_ok :: "nat set \<Rightarrow> packet \<Rightarrow> bool" where
  "write_ok H p \<longleftrightarrow> packet_ok p \<and> AVAHI_DNS_PACKET_HEADER_SIZE \<le> p_size p \<and> H \<subseteq> {..<p_size p} \<and>
     (\<forall>k v. tbl p k = Some v \<longrightarrow> entry_ok (mem H p) k v)"

text \<open>The packet as before, up to the memory behind its end and an empty table for none.\<close>

definition same_packet :: "packet \<Rightarrow> packet \<Rightarrow> bool" where
  "same_packet p p' \<longleftrightarrow> extends p p' \<and> p_size p' = p_size p \<and> tbl p' = tbl p"

text \<open>
  An append that starts in \<open>p\<close> and is part of one that started in \<open>b\<close>: what it keeps whether it succeeds
  or not, and what holds when it succeeds, which it does with room for \<open>w\<close> bytes. The hole may change on the way.
\<close>

definition appends ::
  "packet \<Rightarrow> nat set \<Rightarrow> nat set \<Rightarrow> nat \<Rightarrow> ('a \<Rightarrow> packet \<Rightarrow> bool) \<Rightarrow> 'a consumer \<Rightarrow> packet \<Rightarrow> bool"
where
  "appends b H H' w R m p \<longleftrightarrow> (\<exists>p' r. m p = Some (p', r) \<and> extends b p' \<and>
     (p_size p + w \<le> p_max_size b \<longrightarrow> r \<noteq> None \<and> p_size p' \<le> p_size p + w) \<and>
     (case r of None \<Rightarrow> True | Some t \<Rightarrow> write_ok H' p' \<and> mem H p \<subseteq>\<^sub>m mem H' p' \<and> R t p'))"

lemma appendsE:
  assumes "appends b H H' w R m p"
  obtains p' r where "m p = Some (p', r)" "extends b p'"
    "p_size p + w \<le> p_max_size b \<longrightarrow> r \<noteq> None \<and> p_size p' \<le> p_size p + w"
    "\<forall>t. r = Some t \<longrightarrow> write_ok H' p' \<and> mem H p \<subseteq>\<^sub>m mem H' p' \<and> R t p'"
  using assms unfolding appends_def by (auto split: option.splits)

lemma appendsI:
  assumes "m p = Some (p', r)" "extends b p'"
    "p_size p + w \<le> p_max_size b \<Longrightarrow> r \<noteq> None \<and> p_size p' \<le> p_size p + w"
    "\<And>t. r = Some t \<Longrightarrow> write_ok H' p' \<and> mem H p \<subseteq>\<^sub>m mem H' p' \<and> R t p'"
  shows "appends b H H' w R m p"
  using assms unfolding appends_def by (cases r) auto

lemma appends_then:
  assumes "appends b H H1 w R m p"
    "\<And>t p'. R t p' \<Longrightarrow> write_ok H1 p' \<Longrightarrow> extends b p' \<Longrightarrow> mem H p \<subseteq>\<^sub>m mem H1 p' \<Longrightarrow> appends b H1 H' w' Q (f t) p'"
  shows "appends b H H' (w + w') Q (consume_then m f) p"
proof -
  obtain p1 r where r: "m p = Some (p1, r)" "extends b p1"
      "p_size p + w \<le> p_max_size b \<longrightarrow> r \<noteq> None \<and> p_size p1 \<le> p_size p + w"
      "\<forall>t. r = Some t \<longrightarrow> write_ok H1 p1 \<and> mem H p \<subseteq>\<^sub>m mem H1 p1 \<and> R t p1"
    using assms(1) by (rule appendsE)
  show ?thesis
  proof (cases r)
    case None
    then have c: "consume_then m f p = Some (p1, None)" using r(1) by (simp add: consume_then_def)
    show ?thesis using c r(2,3) None by (simp add: appends_def)
  next
    case (Some t)
    with r have a: "appends b H1 H' w' Q (f t) p1" by (intro assms(2)) auto
    obtain p2 x where
      x: "f t p1 = Some (p2, x)" "extends b p2"
        "p_size p1 + w' \<le> p_max_size b \<longrightarrow> x \<noteq> None \<and> p_size p2 \<le> p_size p1 + w'"
        "\<forall>t. x = Some t \<longrightarrow> write_ok H' p2 \<and> mem H1 p1 \<subseteq>\<^sub>m mem H' p2 \<and> Q t p2"
      using a by (rule appendsE)
    have "consume_then m f p = Some (p2, x)" using r Some x(1) by (simp add: consume_then_def)
    moreover have "mem H p \<subseteq>\<^sub>m mem H1 p1" using r(4) Some by simp
    ultimately show ?thesis using x r(3) map_le_trans by (intro appendsI [where r = x]) fastforce+
  qed
qed

lemma appends_mono:
  assumes "appends b H H' w R m p" "w \<le> w'" "\<And>t p'. R t p' \<Longrightarrow> write_ok H' p' \<Longrightarrow> mem H p \<subseteq>\<^sub>m mem H' p' \<Longrightarrow> Q t p'"
  shows "appends b H H' w' Q m p"
proof -
  obtain p' r where "m p = Some (p', r)" "extends b p'"
      "p_size p + w \<le> p_max_size b \<longrightarrow> r \<noteq> None \<and> p_size p' \<le> p_size p + w"
      "\<forall>t. r = Some t \<longrightarrow> write_ok H' p' \<and> mem H p \<subseteq>\<^sub>m mem H' p' \<and> R t p'"
    using assms(1) by (rule appendsE)
  then show ?thesis using assms(2,3) by (intro appendsI) fastforce+
qed

lemma write_ok_extends:
  assumes "write_ok H p" "extends p p'" "\<forall>k v. tbl p' k = Some v \<longrightarrow> tbl p k = Some v \<or> entry_ok (mem H p') k v"
  shows "write_ok H p'"
proof -
  have "entry_ok (mem H p') k v" if "tbl p' k = Some v" for k v
    using assms that entry_ok_mono [OF _ extends_mem [OF assms(2)]] unfolding write_ok_def by blast
  moreover have "AVAHI_DNS_PACKET_HEADER_SIZE \<le> p_size p'" "H \<subseteq> {..<p_size p'}"
    using assms(1,2) by (auto simp: write_ok_def extends_def intro: order_trans)
  ultimately show ?thesis using assms(2) by (simp add: write_ok_def extends_def)
qed

lemma appends_raw:
  assumes "write_ok H p" "extends b p"
  shows "appends b H H (length bs) (\<lambda>t p'. t = p_size p \<and> p_size p' = p_size p + length bs \<and> bytes_at (mem H p') (p_size p) bs)
    (append_raw bs) p"
proof -
  have p: "packet_ok p" "H \<subseteq> {..<p_size p}" using assms(1) by (simp_all add: write_ok_def)
  from append_raw_ok [OF p(1), of bs] obtain p' r where r: "append_raw bs p = Some (p', r)" "extends p p'" "p_names p' = p_names p"
    "case r of
       None \<Rightarrow> p' = p \<and> p_max_size p < p_size p + length bs
     | Some d \<Rightarrow> d = p_size p \<and> p_size p' = p_size p + length bs \<and> (\<forall>H \<subseteq> {..<p_size p}. bytes_at (mem H p') (p_size p) bs)"
    by blast
  have "write_ok H p'" using write_ok_extends [OF assms(1) r(2)] r(3) by (simp add: tbl_def)
  with r p(2) extends_trans [OF assms(2) r(2)] extends_mem [OF r(2), of H] show ?thesis
    using assms(2) by (cases r) (auto simp: appends_def extends_def)
qed

text \<open>Two bytes that are filled in later.\<close>

lemma appends_hole:
  assumes "write_ok {} p" "extends b p" "length bs = 2"
  shows "appends b {} {p_size p, p_size p + 1} 2 (\<lambda>t p'. t = p_size p \<and> p_size p' = p_size p + 2) (append_raw bs) p"
proof -
  let ?H = "{p_size p, p_size p + 1}"
  have p: "packet_ok p" using assms(1) by (simp_all add: write_ok_def)
  from append_raw_ok [OF p(1), of bs] obtain p' r where r: "append_raw bs p = Some (p', r)" "extends p p'" "p_names p' = p_names p"
    "case r of
       None \<Rightarrow> p' = p \<and> p_max_size p < p_size p + length bs
     | Some d \<Rightarrow> d = p_size p \<and> p_size p' = p_size p + length bs \<and> (\<forall>H \<subseteq> {..<p_size p}. bytes_at (mem H p') (p_size p) bs)"
    by blast
  have "mem {} p \<subseteq>\<^sub>m mem ?H p'" using map_le_Some [OF extends_mem [OF r(2), of "{}"]]
    by (fastforce simp: map_le_def mem_def dom_def split: if_splits)
  moreover have "tbl p' = tbl p" using r(3) by (simp add: tbl_def)
  ultimately have "write_ok ?H p'" if "r \<noteq> None"
    using assms(1,3) r(2,4) that entry_ok_mono [OF _ \<open>mem {} p \<subseteq>\<^sub>m mem ?H p'\<close>] by (auto simp: write_ok_def extends_def)
  with r assms(3) extends_trans [OF assms(2) r(2)] \<open>mem {} p \<subseteq>\<^sub>m mem ?H p'\<close> show ?thesis
    using assms(2) by (cases r) (auto simp: appends_def extends_def)
qed

text \<open>Filling the hole.\<close>

lemma fill_hole:
  assumes "write_ok {l, l + 1} p" "extends b p" "p_size b \<le> l" "length bs = 2"
  shows "\<exists>p'. p_write l bs p = Some p' \<and> extends b p' \<and> write_ok {} p' \<and> mem {l, l + 1} p \<subseteq>\<^sub>m mem {} p' \<and>
    bytes_at (mem {} p') l bs \<and> p_size p' = p_size p"
proof -
  have p: "packet_ok p" "l + 1 < p_size p" using assms(1) by (auto simp: write_ok_def)
  then have len: "length (p_data p) = p_max_size p" "p_size p \<le> p_max_size p" by (simp_all add: packet_ok_def)
  define p' where "p' = p\<lparr>p_data := take l (p_data p) @ bs @ drop (l + 2) (p_data p)\<rparr>"
  have d: "p_data p' ! i = (if i = l then bs ! 0 else if i = l + 1 then bs ! 1 else p_data p ! i)" if "i < p_size p" for i
    using that len p(2) assms(4) by (auto simp: p'_def nth_append min_def numeral_2_eq_2 Suc_diff_Suc less_Suc_eq_0_disj)
  have w: "p_write l bs p = Some p'" using len p(2) assms(4) by (simp add: p_write_def p'_def)
  have ok: "packet_ok p'" using p len assms(4) by (simp add: packet_ok_def p'_def)
  have le: "mem {l, l + 1} p \<subseteq>\<^sub>m mem {} p'" using d by (auto simp: map_le_def mem_def p'_def dom_def)
  have "bytes_at (mem {} p') l bs" using d [of l] d [of "l + 1"] p(2) assms(4)
    by (auto simp: bytes_at_def mem_def less_Suc_eq numeral_2_eq_2 p'_def)
  moreover have "write_ok {} p'" using assms(1) ok entry_ok_mono [OF _ le] by (auto simp: write_ok_def p'_def tbl_def)
  moreover have "extends b p'"
  proof -
    have "take (p_size b) (p_data p') = take (p_size b) (p_data p)"
      using assms(3) len p(2) by (simp add: p'_def min_def)
    then show ?thesis using assms(2) ok by (simp add: extends_def p'_def tbl_def)
  qed
  ultimately show ?thesis using w le by (auto simp: p'_def)
qed

lemma rollback_ok:
  assumes "write_ok H p" "extends p p'"
  shows "\<exists>q. avahi_dns_packet_cleanup_name_table (p'\<lparr>p_size := p_size p\<rparr>) = Some q \<and> same_packet p q"
proof -
  have s: "v < p_size p" if "tbl p k = Some v" for k v
    using assms(1) that entry_ok_less unfolding write_ok_def by blast
  have t: "tbl p k = (case tbl p' k of Some v \<Rightarrow> if v < p_size p then Some v else None | None \<Rightarrow> None)" for k
  proof (cases "tbl p' k")
    case None
    have "tbl p \<subseteq>\<^sub>m tbl p'" using assms(2) by (simp add: extends_def)
    with None show ?thesis by (metis (no_types, lifting) map_le_Some option.exhaust option.simps(4))
  next
    case (Some v)
    have le: "tbl p \<subseteq>\<^sub>m tbl p'" and new: "tbl p k = Some v \<or> p_size p \<le> v"
      using assms(2) Some by (auto simp: extends_def)
    then show ?thesis using Some s [of k v] s [of k] map_le_Some [OF le, of k] by (cases "tbl p k") auto
  qed
  show ?thesis
  proof (cases "p_names p'")
    case None
    with t have "tbl p = tbl p'" by (auto simp: tbl_def fun_eq_iff)
    with None assms show ?thesis
      by (auto simp: avahi_dns_packet_cleanup_name_table_def same_packet_def extends_def packet_ok_def tbl_def write_ok_def)
  next
    case (Some m)
    then have "string_key.inv m" using assms(2) by (simp add: extends_def packet_ok_def)
    from cleanup_tab [OF this, of "p_size p"] obtain m' where
      m': "cleanup_loop (p_size p) (entries_list m) m = Some m'" "string_key.inv m'"
        "tab m' = (\<lambda>k. case tab m k of Some v \<Rightarrow> if v < p_size p then Some v else None | None \<Rightarrow> None)" by blast
    have "tab m' = tbl p" using t Some by (simp add: m'(3) tbl_def fun_eq_iff)
    with Some m' assms show ?thesis
      by (auto simp: avahi_dns_packet_cleanup_name_table_def same_packet_def extends_def packet_ok_def tbl_def write_ok_def)
  qed
qed

text \<open>A chain of appends with the rollback behind it: all or nothing.\<close>

definition appends_or_same :: "nat set \<Rightarrow> nat \<Rightarrow> (nat \<Rightarrow> packet \<Rightarrow> bool) \<Rightarrow> nat consumer \<Rightarrow> packet \<Rightarrow> bool" where
  "appends_or_same H w R m p \<longleftrightarrow> (\<exists>p' r. m p = Some (p', r) \<and>
     (p_size p + w \<le> p_max_size p \<longrightarrow> r \<noteq> None \<and> p_size p' \<le> p_size p + w) \<and>
     (case r of None \<Rightarrow> same_packet p p' | Some t \<Rightarrow> extends p p' \<and> write_ok H p' \<and> R t p'))"

lemma or_rollback_ok:
  assumes "write_ok H p" "appends p H H' w R m p"
  shows "appends_or_same H' w R (or_rollback (p_size p) m) p"
proof -
  obtain p1 r where r: "m p = Some (p1, r)" "extends p p1"
    "p_size p + w \<le> p_max_size p \<longrightarrow> r \<noteq> None \<and> p_size p1 \<le> p_size p + w"
    "\<forall>t. r = Some t \<longrightarrow> write_ok H' p1 \<and> mem H p \<subseteq>\<^sub>m mem H' p1 \<and> R t p1"
    using assms(2) by (rule appendsE)
  from rollback_ok [OF assms(1) r(2)] obtain q where
    "avahi_dns_packet_cleanup_name_table (p1\<lparr>p_size := p_size p\<rparr>) = Some q" "same_packet p q" by blast
  with r show ?thesis by (cases r) (auto simp: appends_or_same_def or_rollback_def)
qed

text \<open>The name of a record: labels that can be read back in \<open>AVAHI_DNS_LABELS_MAX\<close> rounds.\<close>

lemma append_name_ok:
  assumes "write_ok H p" "good_labels ls" "extends b p"
  shows "appends b H H (wire_length ls) (\<lambda>t p'. t = p_size p \<and>
      (\<exists>n. name_at (mem H p') n (p_size p) ls (p_size p') \<and> n \<le> 2 * length ls + 1))
    (avahi_dns_packet_append_name (join_labels ls)) p"
proof -
  have w: "packet_ok p" "AVAHI_DNS_PACKET_HEADER_SIZE \<le> p_size p" "H \<subseteq> {..<p_size p}"
    "\<And>k v. tbl p k = Some v \<Longrightarrow> entry_ok (mem H p) k v" using assms(1) by (auto simp: write_ok_def)
  from append_name_loop_ok [OF w(1) assms(2) w(2,3) w(4)] obtain p' x where
    x: "append_name_loop p (join_labels ls) = Some (p', x)" "extends p p'"
      "x = Name_done \<Longrightarrow>
         (\<exists>n. name_at (mem H p') n (p_size p) ls (p_size p') \<and> n \<le> 2 * length ls + 1) \<and>
         (\<forall>k v. tbl p' k = Some v \<longrightarrow> tbl p k = Some v \<or> entry_ok (mem H p') k v)"
      "p_size p + wire_length ls \<le> p_max_size p \<longrightarrow> x = Name_done \<and> p_size p' \<le> p_size p + wire_length ls" by blast
  have mx: "p_max_size p = p_max_size b" using assms(3) by (simp add: extends_def)
  have e: "avahi_dns_packet_extend p 0 = (p, Some (p_size p))"
    using w(1) by (simp add: avahi_dns_packet_extend_def packet_ok_def)
  obtain q where q: "avahi_dns_packet_cleanup_name_table (p'\<lparr>p_size := p_size p\<rparr>) = Some q" "same_packet p q"
    using rollback_ok [OF assms(1) x(2)] by blast
  show ?thesis
  proof (cases x)
    case Name_done
    with x write_ok_extends [OF assms(1) x(2)] extends_trans [OF assms(3) x(2)] extends_mem [OF x(2), of H] show ?thesis
      by (simp add: appends_def avahi_dns_packet_append_name_def e mx)
  next
    case Name_fail
    with x q extends_trans [OF assms(3), of q] show ?thesis by (simp add: appends_def avahi_dns_packet_append_name_def e same_packet_def mx)
  next
    case Name_null
    with x extends_trans [OF assms(3), of p'] show ?thesis by (simp add: appends_def avahi_dns_packet_append_name_def e mx)
  qed
qed

end
