(* ===== verification/Dnsback.thy ===== *)
theory Dnsback
  imports Dnswrite
begin

text \<open>
  Reading back what was appended: names through compression pointers, the data of every record type, keys
  and records.
\<close>

subsection \<open>Reading back\<close>

text \<open>
  The consumer reads \<open>v\<close> between \<open>off\<close> and \<open>e\<close> in every packet that has the bytes \<open>M\<close>.
\<close>

definition gets :: "(nat \<rightharpoonup> byte) \<Rightarrow> nat \<Rightarrow> 'a consumer \<Rightarrow> 'a \<Rightarrow> nat \<Rightarrow> bool" where
  "gets M off m v e \<longleftrightarrow> (\<forall>p. M \<subseteq>\<^sub>m mem {} p \<longrightarrow> readable p \<longrightarrow> p_rindex p = off \<longrightarrow>
     e \<le> p_size p \<and> m p = Some (p\<lparr>p_rindex := e\<rparr>, Some v))"

lemma gets_mono: "gets M off m v e \<Longrightarrow> M \<subseteq>\<^sub>m M' \<Longrightarrow> gets M' off m v e"
  unfolding gets_def using map_le_trans by blast

lemma mem_rindex [simp]: "mem H (p\<lparr>p_rindex := i\<rparr>) = mem H p"
  by (simp add: mem_def fun_eq_iff)

lemma gets_then:
  assumes "gets M off m v e" "gets M e (f v) w e'"
  shows "gets M off (consume_then m f) w e'"
  unfolding gets_def
proof (intro allI impI)
  fix p assume p: "M \<subseteq>\<^sub>m mem {} p" "readable p" "p_rindex p = off"
  then have m: "e \<le> p_size p" "m p = Some (p\<lparr>p_rindex := e\<rparr>, Some v)" using assms(1) by (simp_all add: gets_def)
  then have "readable (p\<lparr>p_rindex := e\<rparr>)" using p(2) by (simp add: readable_def)
  with assms(2) p(1) have "e' \<le> p_size p \<and> f v (p\<lparr>p_rindex := e\<rparr>) = Some (p\<lparr>p_rindex := e'\<rparr>, Some w)"
    unfolding gets_def by (elim allE [of _ "p\<lparr>p_rindex := e\<rparr>"]) simp
  with m show "e' \<le> p_size p \<and> consume_then m f p = Some (p\<lparr>p_rindex := e'\<rparr>, Some w)"
    by (simp add: consume_then_def)
qed

lemma bytes_at_size:
  assumes "bytes_at (mem {} p) off bs" "bs \<noteq> []"
  shows "off + length bs \<le> p_size p"
proof -
  have "mem {} p (off + (length bs - 1)) \<noteq> None" using assms by (auto simp: bytes_at_def)
  then have "off + (length bs - 1) < p_size p" by (auto simp: mem_def split: if_splits)
  then show ?thesis using assms(2) by (cases bs) auto
qed

lemma bytes_at_slice:
  assumes "bytes_at (mem {} p) off bs" "bs \<noteq> []" "p_size p \<le> length (p_data p)"
  shows "p_slice p off (length bs) = Some bs"
proof -
  have "off + length bs \<le> p_size p" using bytes_at_size [OF assms(1,2)] .
  moreover have "p_data p ! (off + i) = bs ! i" if "i < length bs" for i
    using assms(1) that by (auto simp: bytes_at_def mem_def split: if_splits)
  ultimately show ?thesis using assms(3) by (auto simp: p_slice_def intro: nth_equalityI)
qed

lemma gets_raw:
  assumes "bytes_at M off bs" "bs \<noteq> []"
  shows "gets M off (consume_raw (length bs)) bs (off + length bs)"
  unfolding gets_def
proof (intro allI impI)
  fix p assume p: "M \<subseteq>\<^sub>m mem {} p" "readable p" "p_rindex p = off"
  note b = bytes_at_mono [OF p(1) assms(1)]
  show "off + length bs \<le> p_size p \<and> consume_raw (length bs) p = Some (p\<lparr>p_rindex := off + length bs\<rparr>, Some bs)"
    using bytes_at_size [OF b assms(2)] bytes_at_slice [OF b assms(2)] p(2,3) by (simp add: consume_raw_def readable_def)
qed

lemma gets_yields: "gets M off (yields v) v off"
  by (simp add: gets_def yields_def readable_def)

lemma u16_roundtrip: "bytes_u16 (u16_bytes v) = v"
  unfolding bytes_u16_def u16_bytes_def
  by (rule bit_word_eqI) (auto simp: bit_simps)

lemma u32_roundtrip: "bytes_u32 (u32_bytes v) = v"
proof (rule bit_word_eqI)
  fix n :: nat assume "n < LENGTH(32)"
  then consider "n < 8" | "8 \<le> n" "n < 16" | "16 \<le> n" "n < 24" | "24 \<le> n" "n < 32" by fastforce
  then show "bit (bytes_u32 (u32_bytes v)) n = bit v n"
    by cases (auto simp: bytes_u32_def u32_bytes_def bit_simps)
qed

lemma gets_uint16: "bytes_at M off (u16_bytes v) \<Longrightarrow> gets M off avahi_dns_packet_consume_uint16 v (off + 2)"
  using gets_then [OF gets_raw [of M off "u16_bytes v"] gets_yields, of "\<lambda>d. bytes_u16 d"] u16_roundtrip [of v]
  by (simp add: avahi_dns_packet_consume_uint16_def yields_def [abs_def] u16_bytes_def eval_nat_numeral)

lemma gets_uint32: "bytes_at M off (u32_bytes v) \<Longrightarrow> gets M off avahi_dns_packet_consume_uint32 v (off + 4)"
  using gets_then [OF gets_raw [of M off "u32_bytes v"] gets_yields, of "\<lambda>d. bytes_u32 d"] u32_roundtrip [of v]
  by (simp add: avahi_dns_packet_consume_uint32_def yields_def [abs_def] u32_bytes_def eval_nat_numeral)

lemma gets_bytes: "bytes_at M off bs \<Longrightarrow> bs \<noteq> [] \<Longrightarrow>
    gets M off (avahi_dns_packet_consume_bytes (length bs)) bs (off + length bs)"
  using gets_raw [of M off bs] by (simp add: gets_def avahi_dns_packet_consume_bytes_def)

lemma gets_string:
  assumes "bytes_at M off (byte_of (length s) # s)" "length s \<le> 255" "no_nul s" "length s < l"
  shows "gets M off (avahi_dns_packet_consume_string l) s (off + 1 + length s)"
  unfolding gets_def
proof (intro allI impI)
  fix p assume p: "M \<subseteq>\<^sub>m mem {} p" "readable p" "p_rindex p = off"
  have b: "bytes_at (mem {} p) off [byte_of (length s)]" "bytes_at (mem {} p) (off + 1) s"
    "bytes_at (mem {} p) off (byte_of (length s) # s)"
    using bytes_at_mono [OF p(1) assms(1)] by (auto simp: bytes_at_Cons)
  have sz: "p_size p \<le> length (p_data p)" using p(2) by (simp add: readable_def)
  have 1: "p_slice p off 1 = Some [byte_of (length s)]" using bytes_at_slice [OF b(1) _ sz] by simp
  have n: "unat (byte_of (length s)) = length s" using assms(2) by (simp add: unat_byte_of)
  have e: "off + 1 + length s \<le> p_size p" using bytes_at_size [OF b(3)] by simp
  have 2: "p_slice p (off + 1) (length s) = Some s"
    using bytes_at_slice [OF b(2) _ sz] e sz by (cases "s = []") (auto simp: p_slice_def)
  have c: "c_string s = s" using assms(3) by (auto simp: c_string_def no_nul_def takeWhile_eq_all_conv)
  consider "length s + 1 < l" | "l = length s + 1" using assms(4) by linarith
  then show "off + 1 + length s \<le> p_size p \<and>
      avahi_dns_packet_consume_string l p = Some (p\<lparr>p_rindex := off + 1 + length s\<rparr>, Some s)"
    by cases (use 1 2 n e p(3) in \<open>simp_all add: avahi_dns_packet_consume_string_def c Let_def\<close>)
qed

lemma bytes_at_byte: "bytes_at (mem {} p) off [b] \<Longrightarrow> p_size p \<le> length (p_data p) \<Longrightarrow>
    \<not> off + 1 > p_size p \<and> p_slice p off 1 = Some [b]"
  using bytes_at_size [of p off "[b]"] bytes_at_slice [of p off "[b]"] by simp

lemma name_at_less: "name_at M n off ls e \<Longrightarrow> off < e"
  by (induction rule: name_at.induct) auto

lemma name_at_end: "name_at M n off ls e \<Longrightarrow> e \<le> off + 64 * length ls + 2"
  by (induction rule: name_at.induct) (auto simp: AVAHI_LABEL_MAX_def)

lemma bit_word_of_nat: "bit (word_of_nat k :: 'a::len word) n \<longleftrightarrow> n < LENGTH('a) \<and> bit k n"
  by transfer (simp add: bit_take_bit_iff bit_of_nat_iff)

lemma pointer_bytes:
  assumes "t < 0x4000"
  shows "unat (name_pointer t ! 0 AND NOT 0xC0) * 256 + unat (name_pointer t ! 1) = t"
    "name_pointer t ! 0 AND 0xC0 = 0xC0" "unat (name_pointer t ! 0) > 63" "name_pointer t = [name_pointer t ! 0, name_pointer t ! 1]"
proof -
  let ?a = "byte_of (t div 256)"
  have a: "t div 256 < 64" using assms by simp
  have small: "n < 6" if "bit ?a n" for n
  proof (rule ccontr)
    assume "\<not> n < 6"
    then have "(2 :: nat) ^ 6 \<le> 2 ^ n" by (intro power_increasing) auto
    then have "t div 256 div 2 ^ n = 0" using a by simp
    then have "\<not> bit (t div 256) n" by (simp add: bit_iff_odd)
    with that show False by (simp add: byte_of_def bit_word_of_nat)
  qed
  have c0: "bit (0xC0 :: byte) n \<longleftrightarrow> n = 6 \<or> n = 7" for n
  proof -
    have "(0xC0 :: byte) = push_bit 6 3" by simp
    then show ?thesis by (cases "n < 8") (auto simp: bit_simps less_Suc_eq numeral_eq_Suc)
  qed
  have hi: "name_pointer t ! 0 = 0xC0 OR ?a"
  proof -
    have "(0xC0 :: byte) = ucast (drop_bit 8 (0xC000 :: u32))" by simp
    moreover have "?a = ucast (drop_bit 8 (u32_of t))"
      using a assms by (simp add: word_unat_eq_iff unsigned_ucast_eq take_bit_eq_mod unat_drop_bit_eq drop_bit_eq_div [of 8 t])
    ultimately show ?thesis by (simp add: name_pointer_def bit_eq_iff bit_simps)
  qed
  have lo: "unat (name_pointer t ! 1) = t mod 256"
    using assms by (simp add: name_pointer_def unsigned_ucast_eq take_bit_eq_mod)
  have "(0xC0 OR ?a) AND NOT 0xC0 = ?a"
  proof (rule bit_word_eqI)
    fix n
    have "bit ?a n \<Longrightarrow> \<not> bit (0xC0 :: byte) n" using small [of n] unfolding c0 by linarith
    then show "bit ((0xC0 OR ?a) AND NOT 0xC0) n = bit ?a n" if "n < LENGTH(8)" using that by (auto simp: bit_simps)
  qed
  then show "unat (name_pointer t ! 0 AND NOT 0xC0) * 256 + unat (name_pointer t ! 1) = t"
    unfolding hi lo using a by simp
  show c: "name_pointer t ! 0 AND 0xC0 = 0xC0" unfolding hi
    by (rule bit_word_eqI) (auto simp: bit_simps)
  show "unat (name_pointer t ! 0) > 63"
  proof (rule ccontr)
    assume n: "\<not> unat (name_pointer t ! 0) > 63"
    have "name_pointer t ! 0 AND 0xC0 \<le> name_pointer t ! 0" by (rule word_and_le2)
    with c n show False by (simp add: word_le_nat_alt)
  qed
qed (simp add: name_pointer_def)

lemma labels_loop_gets:
  assumes "name_at M n off ls e" "M \<subseteq>\<^sub>m mem {} p" "p_size p \<le> length (p_data p)" "n \<le> fuel"
    and "length (if first_label then join_labels ls else dotted ls) < l"
  shows "labels_loop fuel p off out l ret compressed first_label =
    Some (Some (if compressed then ret else ret + (e - off), out @ (if first_label then join_labels ls else dotted ls)))"
  using assms
proof (induction arbitrary: fuel out l ret compressed first_label rule: name_at.induct)
  case (name_end off)
  obtain f where f: "fuel = Suc f" using name_end.prems(3) by (cases fuel) auto
  have "\<not> off + 1 > p_size p \<and> p_slice p off 1 = Some [0]"
    using bytes_at_byte bytes_at_mono name_end by blast
  then show ?case using name_end.prems(4) by (simp add: f Let_def)
next
  case (name_label lb off n ls e)
  obtain f where f: "fuel = Suc f" "n \<le> f" using name_label.prems(3) by (cases fuel) auto
  let ?k = "length lb"
  have b: "bytes_at (mem {} p) off [byte_of ?k]" "bytes_at (mem {} p) (off + 1) lb"
    "bytes_at (mem {} p) off (byte_of ?k # lb)"
    using bytes_at_mono [OF name_label.prems(1) name_label.hyps(3)] by (auto simp: bytes_at_Cons)
  have k: "unat (byte_of ?k) = ?k" "0 < ?k" "?k \<le> 63" using name_label.hyps(1,2) by (auto simp: AVAHI_LABEL_MAX_def)
  have 1: "\<not> off + 1 > p_size p" "p_slice p off 1 = Some [byte_of ?k]"
    using bytes_at_byte [OF b(1) name_label.prems(2)] by auto
  have 2: "\<not> off + 1 + ?k > p_size p" using bytes_at_size [OF b(3)] by simp
  have 3: "p_slice p (off + 1) ?k = Some lb" using bytes_at_slice [OF b(2) name_label.hyps(1) name_label.prems(2)] .
  define l1 where "l1 = (if first_label then l else l - 1)"
  define out1 where "out1 = (if first_label then out else out @ [dot])"
  have l1: "length (escaped lb) < l1" "\<not> ?k + 1 > l" "length (dotted ls) < l1 - length (escaped lb)"
    using name_label.prems(4) length_escaped(1) [of lb] by (auto simp: l1_def split: if_splits)
  note esc = escape_label_fits [OF l1(1)]
  have "labels_loop fuel p off out l ret compressed first_label =
    labels_loop f p (off + 1 + ?k) (out1 @ escaped lb) (l1 - length (escaped lb))
      (if compressed then ret else ret + 1 + ?k) compressed False"
    using 1 2 3 k l1(2) esc unfolding f(1) l1_def out1_def
    by (cases first_label) (simp_all add: Let_def cong: if_cong)
  also have "\<dots> = Some (Some (if compressed then ret else ret + (e - off), (out1 @ escaped lb) @ dotted ls))"
  proof -
    have "ret + 1 + ?k + (e - (off + 1 + ?k)) = ret + (e - off)" using name_at_less [OF name_label.hyps(4)] by linarith
    then show ?thesis
      using name_label.IH [OF name_label.prems(1,2) f(2), of False "l1 - length (escaped lb)"] l1(3)
      by (cases compressed) (simp_all only: if_True if_False)
  qed
  finally show ?case by (simp add: out1_def)
next
  case (name_jump off t n ls e)
  obtain f where f: "fuel = Suc f" "n \<le> f" using name_jump.prems(3) by (cases fuel) auto
  note pt = pointer_bytes [OF name_jump.hyps(4)]
  have b: "bytes_at (mem {} p) off (name_pointer t)" using bytes_at_mono [OF name_jump.prems(1) name_jump.hyps(1)] .
  then have b1: "bytes_at (mem {} p) off [name_pointer t ! 0]" using pt(4) by (metis bytes_at_Cons bytes_at_Nil)
  have 1: "\<not> off + 1 > p_size p" "p_slice p off 1 = Some [name_pointer t ! 0]"
    using bytes_at_byte [OF b1 name_jump.prems(2)] by auto
  have 2: "\<not> off + 2 > p_size p" "p_slice p off 2 = Some (name_pointer t)"
    using bytes_at_size [OF b] bytes_at_slice [OF b _ name_jump.prems(2)] by (auto simp: name_pointer_def numeral_2_eq_2)
  have nz: "unat (name_pointer t ! 0) \<noteq> 0" "\<not> unat (name_pointer t ! 0) \<le> 63" using pt(3) by auto
  have "labels_loop fuel p off out l ret compressed first_label =
    labels_loop f p t out l (if compressed then ret else ret + 2) True first_label"
    using 1 2 nz pt(1,2) name_jump.hyps(2,3) by (simp add: f(1) Let_def cong: if_cong)
  also have "\<dots> = Some (Some (if compressed then ret else ret + 2, out @ (if first_label then join_labels ls else dotted ls)))"
    using name_jump.IH [OF name_jump.prems(1,2) f(2) name_jump.prems(4)] by simp
  finally show ?case by simp
qed

lemma gets_name:
  assumes "name_at M n off ls e" "n \<le> AVAHI_DNS_LABELS_MAX" "length (join_labels ls) < l"
  shows "gets M off (avahi_dns_packet_consume_name l) (join_labels ls) e"
  unfolding gets_def
proof (intro allI impI)
  fix p assume p: "M \<subseteq>\<^sub>m mem {} p" "readable p" "p_rindex p = off"
  have sz: "p_size p \<le> length (p_data p)" using p(2) by (simp add: readable_def)
  have "labels_loop AVAHI_DNS_LABELS_MAX p off [] l 0 False True = Some (Some (e - off, join_labels ls))"
    using labels_loop_gets [OF assms(1) p(1) sz assms(2), of True l "[]" 0 False] assms(3) by simp
  moreover have "e \<le> p_size p"
    using labels_loop_safe [OF sz, of l "[]" True off 0 False off AVAHI_DNS_LABELS_MAX] assms(3) p(2,3) calculation
      name_at_less [OF assms(1)] by (auto simp: readable_def name_result_def)
  ultimately show "e \<le> p_size p \<and> avahi_dns_packet_consume_name l p = Some (p\<lparr>p_rindex := e\<rparr>, Some (join_labels ls))"
    using name_at_less [OF assms(1)] assms(3) p(3) by (simp add: avahi_dns_packet_consume_name_def consume_labels_def)
qed

subsection \<open>Record data\<close>

text \<open>
  A name that survives: non-empty labels that \<open>avahi_escape_label\<close> wrote, at most 63 of them, so that
  reading needs at most \<open>AVAHI_DNS_LABELS_MAX\<close> rounds even if every label is behind a pointer of its own.
\<close>

definition wire_name :: "cstr \<Rightarrow> bool" where
  "wire_name n \<longleftrightarrow> no_nul n \<and> length n < AVAHI_DOMAIN_NAME_MAX \<and>
     (case labels_of n of
        None \<Rightarrow> False
      | Some ls \<Rightarrow> [] \<notin> set ls \<and> join_labels ls = n \<and> length ls \<le> 63)"

lemma wire_nameE:
  assumes "wire_name n"
  obtains ls where "good_labels ls" "n = join_labels ls" "length ls \<le> 63" "length (join_labels ls) < AVAHI_DOMAIN_NAME_MAX"
proof -
  from assms obtain ls where ls: "labels_of n = Some ls" "[] \<notin> set ls" "join_labels ls = n" "length ls \<le> 63"
    "no_nul n" "length n < AVAHI_DOMAIN_NAME_MAX" by (auto simp: wire_name_def split: option.splits)
  then have "list_all label_ok ls" using labels_of_ok by blast
  with ls(2) have "good_labels ls" by (auto simp: good_labels_def short_labels_def list_all_iff label_ok_def)
  with ls that show thesis by blast
qed

text \<open>Sizes without compression.\<close>

definition name_size :: "cstr \<Rightarrow> nat" where
  "name_size n = (case labels_of n of None \<Rightarrow> 0 | Some ls \<Rightarrow> wire_length ls)"

definition data_size :: "rdata \<Rightarrow> nat" where
  "data_size d =
     (case d of
        Ptr n \<Rightarrow> name_size n
      | Srv _ _ _ n \<Rightarrow> 6 + name_size n
      | Hinfo cpu os \<Rightarrow> 2 + length cpu + length os
      | Txt l \<Rightarrow> snd (avahi_string_list_serialize l None)
      | A_addr a \<Rightarrow> length a
      | Aaaa_addr a \<Rightarrow> length a
      | Generic b \<Rightarrow> (case b of None \<Rightarrow> 0 | Some b \<Rightarrow> length b)
      | Unset \<Rightarrow> 0)"

definition sendable_data :: "u16 \<Rightarrow> rdata \<Rightarrow> bool" where
  "sendable_data t d \<longleftrightarrow> data_fits t d \<and>
     (case d of
        Generic b \<Rightarrow> b \<noteq> Some []
      | Srv _ _ _ n \<Rightarrow> wire_name n
      | Ptr n \<Rightarrow> wire_name n
      | Hinfo cpu os \<Rightarrow> length cpu \<le> 255 \<and> length os \<le> 255
      | Txt l \<Rightarrow> list_all (\<lambda>s. s \<noteq> [] \<and> length s < 256) l \<and> snd (avahi_string_list_serialize l None) \<le> AVAHI_DNS_RDATA_MAX
      | Unset \<Rightarrow> False
      | _ \<Rightarrow> True)"

text \<open>The name \<open>n\<close> can be read at \<open>off\<close>; and so can the data \<open>d\<close>.\<close>

definition name_bytes :: "(nat \<rightharpoonup> byte) \<Rightarrow> nat \<Rightarrow> cstr \<Rightarrow> nat \<Rightarrow> bool" where
  "name_bytes M off n e \<longleftrightarrow> (\<exists>k ls. name_at M k off ls e \<and> n = join_labels ls \<and> good_labels ls \<and> length ls \<le> 63 \<and>
     k \<le> AVAHI_DNS_LABELS_MAX \<and> length n < AVAHI_DOMAIN_NAME_MAX)"

definition data_bytes :: "(nat \<rightharpoonup> byte) \<Rightarrow> nat \<Rightarrow> rdata \<Rightarrow> nat \<Rightarrow> bool" where
  "data_bytes M off d e \<longleftrightarrow>
     (case d of
        Ptr n \<Rightarrow> name_bytes M off n e
      | Srv priority weight port n \<Rightarrow>
          bytes_at M off (u16_bytes priority @ u16_bytes weight @ u16_bytes port) \<and> name_bytes M (off + 6) n e
      | Hinfo cpu os \<Rightarrow>
          bytes_at M off ((byte_of (length cpu) # cpu) @ (byte_of (length os) # os)) \<and> e = off + 2 + length cpu + length os
      | Txt l \<Rightarrow> (\<exists>b. bytes_at M off b \<and> b \<noteq> [] \<and> length b \<le> AVAHI_DNS_RDATA_MAX \<and>
          avahi_string_list_parse b = Some l \<and> e = off + length b)
      | A_addr a \<Rightarrow> bytes_at M off a \<and> e = off + length a
      | Aaaa_addr a \<Rightarrow> bytes_at M off a \<and> e = off + length a
      | Generic b \<Rightarrow> (case b of None \<Rightarrow> e = off | Some b \<Rightarrow> bytes_at M off b \<and> e = off + length b)
      | Unset \<Rightarrow> False)"

lemma name_bytes_mono: "name_bytes M off n e \<Longrightarrow> M \<subseteq>\<^sub>m M' \<Longrightarrow> name_bytes M' off n e"
  unfolding name_bytes_def using name_at_mono by blast

lemma data_bytes_mono: "data_bytes M off d e \<Longrightarrow> M \<subseteq>\<^sub>m M' \<Longrightarrow> data_bytes M' off d e"
  using bytes_at_mono [of M M'] name_bytes_mono [of M] by (auto simp: data_bytes_def split: rdata.splits option.splits)

lemma name_bytes_size: "name_bytes M off n e \<Longrightarrow> off < e \<and> e \<le> off + 4034"
  unfolding name_bytes_def using name_at_less name_at_end by fastforce

lemma data_bytes_size:
  assumes "data_bytes M off d e" "sendable_data t d"
  shows "off \<le> e \<and> e - off \<le> AVAHI_DNS_RDATA_MAX"
  using assms name_bytes_size [of M off] name_bytes_size [of M "off + 6"]
  by (auto simp: data_bytes_def sendable_data_def data_fits_def AVAHI_DNS_RDATA_MAX_def split: rdata.splits option.splits)
    (fastforce+)?

lemma gets_name_bytes: "name_bytes M off n e \<Longrightarrow> gets M off (avahi_dns_packet_consume_name AVAHI_DOMAIN_NAME_MAX) n e"
  unfolding name_bytes_def using gets_name by blast

lemma appends_name:
  assumes "write_ok H p" "extends b p" "wire_name n"
  shows "appends b H H (name_size n) (\<lambda>t p'. t = p_size p \<and> name_bytes (mem H p') (p_size p) n (p_size p'))
    (avahi_dns_packet_append_name n) p"
proof -
  obtain ls where ls: "good_labels ls" "n = join_labels ls" "length ls \<le> 63" "length (join_labels ls) < AVAHI_DOMAIN_NAME_MAX"
    using wire_nameE [OF assms(3)] .
  have "name_size n = wire_length ls" by (simp add: name_size_def ls(2) labels_of_good [OF ls(1)])
  then show ?thesis unfolding ls(2)
  proof (intro appends_mono [OF append_name_ok [OF assms(1) ls(1) assms(2)]], goal_cases)
    case 1
    then show ?case by simp
  next
    case (2 t p')
    from 2(2) show ?case
    proof -
    assume "t = p_size p \<and> (\<exists>n. name_at (mem H p') n (p_size p) ls (p_size p') \<and> n \<le> 2 * length ls + 1)"
    then obtain k where "t = p_size p" "name_at (mem H p') k (p_size p) ls (p_size p')" "k \<le> 127" using ls(3) by auto
    with ls show "t = p_size p \<and> name_bytes (mem H p') (p_size p) (join_labels ls) (p_size p')"
      unfolding name_bytes_def AVAHI_DNS_LABELS_MAX_def by blast
    qed
  qed
qed

lemma appends_finished: "write_ok H p \<Longrightarrow> extends b p \<Longrightarrow> Q () p \<Longrightarrow> appends b H H 0 Q finished p"
  by (simp add: appends_def finished_def map_le_refl)

lemma appends_then_finished:
  assumes "appends b H H w R m p" "\<And>t p'. R t p' \<Longrightarrow> Q () p'"
  shows "appends b H H w Q (consume_then m (\<lambda>_. finished)) p"
  using appends_then [OF assms(1), of H 0 Q "\<lambda>_. finished"] appends_finished assms(2) by simp

lemma length_uint_bytes [simp]: "length (u16_bytes v) = 2" "length (u32_bytes w) = 4"
  by (simp_all add: u16_bytes_def u32_bytes_def)

lemma appends_u16:
  assumes "write_ok H p" "extends b p"
  shows "appends b H H 2 (\<lambda>t p'. t = p_size p \<and> p_size p' = p_size p + 2 \<and> bytes_at (mem H p') (p_size p) (u16_bytes v))
    (avahi_dns_packet_append_uint16 v) p"
  using appends_raw [OF assms, of "u16_bytes v"] by (simp add: avahi_dns_packet_append_uint16_def)

lemma appends_string:
  assumes "write_ok H p" "extends b p" "length s \<le> 255"
  shows "appends b H H (1 + length s) (\<lambda>t p'. p_size p' = p_size p + 1 + length s \<and> bytes_at (mem H p') (p_size p) (byte_of (length s) # s))
    (avahi_dns_packet_append_string s) p"
proof -
  have "(if length s \<ge> 255 then 255 else length s) = length s" using assms(3) by auto
  then have "avahi_dns_packet_append_string s = append_raw (byte_of (length s) # s)"
    by (simp add: avahi_dns_packet_append_string_def Let_def del: if_split)
  with appends_mono [OF appends_raw [OF assms(1,2)], of "byte_of (length s) # s"] show ?thesis by simp
qed

lemma appends_bytes:
  assumes "write_ok H p" "extends b p" "bs \<noteq> []"
  shows "appends b H H (length bs) (\<lambda>t p'. p_size p' = p_size p + length bs \<and> bytes_at (mem H p') (p_size p) bs)
    (avahi_dns_packet_append_bytes bs) p"
  using appends_mono [OF appends_raw [OF assms(1,2), of bs]] assms(3)
  by (simp add: avahi_dns_packet_append_bytes_def [abs_def] appends_def)

text \<open>The serialised strings are as many bytes as \<open>extend\<close> was asked for.\<close>

lemma append_txt_raw:
  assumes "list_all (\<lambda>s. s \<noteq> [] \<and> length s < 256) l"
  obtains bs where "avahi_string_list_parse bs = Some l" "length bs = snd (avahi_string_list_serialize l None)" "bs \<noteq> []"
    "append_rdata (Txt l) = consume_then (append_raw bs) (\<lambda>_. finished)"
proof -
  define n where "n = snd (avahi_string_list_serialize l None)"
  from serialize_parse [OF assms, of n] obtain out where
    out: "avahi_string_list_serialize l (Some n) = (out, n)" "avahi_string_list_parse out = Some l" by (auto simp: n_def)
  have len: "length out = n" using serialize_readable [of l n] out(1) by (simp add: Let_def)
  have n: "0 < n" by (simp add: n_def avahi_string_list_serialize_def Let_def)
  have "append_rdata (Txt l) p = consume_then (append_raw out) (\<lambda>_. finished) p" for p
    using out(1) len by (simp add: append_rdata_def append_raw_def consume_then_def Let_def avahi_dns_packet_extend_def flip: n_def)
  with out(2) len n show thesis by (intro that [of out]) (auto simp: n_def fun_eq_iff)
qed

lemma appends_rdata:
  assumes "write_ok H p" "extends b p" "sendable_data t d"
  shows "appends b H H (data_size d) (\<lambda>_ p'. data_bytes (mem H p') (p_size p) d (p_size p')) (append_rdata d) p"
proof (cases d)
  case (Ptr n)
  then have "wire_name n" using assms(3) by (simp add: sendable_data_def)
  from appends_then_finished [OF appends_name [OF assms(1,2) this]] show ?thesis
    by (simp add: Ptr append_rdata_def data_bytes_def data_size_def)
next
  case (Srv pr w po n)
  then have n: "wire_name n" using assms(3) by (simp add: sendable_data_def)
  have "appends b H H (2 + (2 + (2 + (name_size n + 0)))) (\<lambda>_ p'. data_bytes (mem H p') (p_size p) d (p_size p')) (
      consume_then (avahi_dns_packet_append_uint16 pr) (\<lambda>_.
      consume_then (avahi_dns_packet_append_uint16 w) (\<lambda>_.
      consume_then (avahi_dns_packet_append_uint16 po) (\<lambda>_.
      consume_then (avahi_dns_packet_append_name n) (\<lambda>_. finished))))) p"
  proof (rule appends_then [OF appends_u16 [OF assms(1,2)]], goal_cases)
    case a: (1 _ p1)
    show ?case
    proof (rule appends_then [OF appends_u16 [OF a(2,3)]], goal_cases)
      case b: (1 _ p2)
      show ?case
      proof (rule appends_then [OF appends_u16 [OF b(2,3)]], goal_cases)
        case c: (1 _ p3)
        show ?case
        proof (rule appends_then [OF appends_name [OF c(2,3) n]], goal_cases)
          case d: (1 _ p4)
          have m: "mem H p2 \<subseteq>\<^sub>m mem H p4" using c(4) d(4) by (rule map_le_trans)
          have m': "mem H p1 \<subseteq>\<^sub>m mem H p4" using b(4) m by (rule map_le_trans)
          have "bytes_at (mem H p4) (p_size p) (u16_bytes pr)" "bytes_at (mem H p4) (p_size p + 2) (u16_bytes w)"
            "bytes_at (mem H p4) (p_size p + 4) (u16_bytes po)"
            using bytes_at_mono [OF m'] bytes_at_mono [OF m] bytes_at_mono [OF d(4)] a(1) b(1) c(1) by (simp_all add: eval_nat_numeral)
          then show ?case
            by (intro appends_finished [OF d(2,3)]) (use Srv a(1) b(1) c(1) d(1) in
              \<open>simp add: data_bytes_def bytes_at_append eval_nat_numeral\<close>)
        qed
      qed
    qed
  qed
  then show ?thesis by (simp add: Srv append_rdata_def data_size_def eval_nat_numeral)
next
  case (Hinfo cpu os)
  then have l: "length cpu \<le> 255" "length os \<le> 255" using assms(3) by (simp_all add: sendable_data_def)
  have "appends b H H (1 + length cpu + (1 + length os + 0)) (\<lambda>_ p'. data_bytes (mem H p') (p_size p) d (p_size p')) (
      consume_then (avahi_dns_packet_append_string cpu) (\<lambda>_.
      consume_then (avahi_dns_packet_append_string os) (\<lambda>_. finished))) p"
  proof (rule appends_then [OF appends_string [OF assms(1,2) l(1)]], goal_cases)
    case a: (1 _ p1)
    show ?case
    proof (rule appends_then [OF appends_string [OF a(2,3) l(2)]], goal_cases)
      case b: (1 _ p2)
      have "bytes_at (mem H p2) (p_size p) (byte_of (length cpu) # cpu)" using bytes_at_mono [OF b(4)] a(1) by blast
      then show ?case
        by (intro appends_finished [OF b(2,3)]) (use Hinfo a(1) b(1) in \<open>simp add: data_bytes_def bytes_at_append bytes_at_Cons\<close>)
    qed
  qed
  then show ?thesis by (simp add: Hinfo append_rdata_def data_size_def)
next
  case (Txt l)
  then obtain bs where bs: "avahi_string_list_parse bs = Some l" "length bs = snd (avahi_string_list_serialize l None)" "bs \<noteq> []"
    "append_rdata (Txt l) = consume_then (append_raw bs) (\<lambda>_. finished)"
    using assms(3) append_txt_raw by (auto simp: sendable_data_def)
  have "appends b H H (length bs) (\<lambda>_ p'. data_bytes (mem H p') (p_size p) d (p_size p')) (append_rdata (Txt l)) p"
    unfolding bs(4) by (rule appends_then_finished [OF appends_raw [OF assms(1,2)]])
      (use bs assms(3) Txt in \<open>auto simp: data_bytes_def sendable_data_def\<close>)
  then show ?thesis using bs(2) by (simp add: Txt data_size_def)
next
  case (A_addr a)
  then have "a \<noteq> []" using assms(3) by (auto simp: sendable_data_def data_fits_def)
  from appends_then_finished [OF appends_bytes [OF assms(1,2) this]] show ?thesis
    by (simp add: A_addr append_rdata_def data_bytes_def data_size_def)
next
  case (Aaaa_addr a)
  then have "a \<noteq> []" using assms(3) by (auto simp: sendable_data_def data_fits_def)
  from appends_then_finished [OF appends_bytes [OF assms(1,2) this]] show ?thesis
    by (simp add: Aaaa_addr append_rdata_def data_bytes_def data_size_def)
next
  case (Generic g)
  show ?thesis
  proof (cases g)
    case None
    then show ?thesis using Generic appends_finished [OF assms(1,2)]
      by (simp add: append_rdata_def data_bytes_def data_size_def)
  next
    case (Some bs)
    then have "bs \<noteq> []" using assms(3) Generic by (auto simp: sendable_data_def)
    from this appends_then_finished [OF appends_bytes [OF assms(1,2) this]] show ?thesis
      by (simp add: Generic Some append_rdata_def data_bytes_def data_size_def)
  qed
next
  case Unset
  then show ?thesis using assms(3) by (simp add: sendable_data_def)
qed

lemma gets_data:
  assumes "data_bytes M off d e" "sendable_data t d"
  shows "gets M off (parse_data t (e - off) (zero_data t)) d e"
proof (cases d)
  case (Ptr n)
  then have "gets M off (consume_then (avahi_dns_packet_consume_name AVAHI_DOMAIN_NAME_MAX) (\<lambda>n. yields (Ptr n))) d e"
    using assms(1) by (intro gets_then [OF gets_name_bytes]) (auto simp: data_bytes_def gets_yields)
  then show ?thesis using Ptr assms(2) by (simp add: parse_data_def sendable_data_def data_fits_def)
next
  case (Srv pr w po n)
  then have b: "bytes_at M off (u16_bytes pr)" "bytes_at M (off + 2) (u16_bytes w)" "bytes_at M (off + 2 + 2) (u16_bytes po)"
    "name_bytes M (off + 2 + 2 + 2) n e"
    using assms(1) by (simp_all add: data_bytes_def bytes_at_append eval_nat_numeral)
  have "gets M off (consume_then avahi_dns_packet_consume_uint16 (\<lambda>priority.
        consume_then avahi_dns_packet_consume_uint16 (\<lambda>weight.
        consume_then avahi_dns_packet_consume_uint16 (\<lambda>port.
        consume_then (avahi_dns_packet_consume_name AVAHI_DOMAIN_NAME_MAX) (\<lambda>n. yields (Srv priority weight port n)))))) d e"
    unfolding Srv
    by (rule gets_then [OF gets_uint16 [OF b(1)]], rule gets_then [OF gets_uint16 [OF b(2)]],
        rule gets_then [OF gets_uint16 [OF b(3)]], rule gets_then [OF gets_name_bytes [OF b(4)]], rule gets_yields)
  then show ?thesis using Srv assms(2) by (simp add: parse_data_def sendable_data_def data_fits_def name_type_def dns_type_defs)
next
  case (Hinfo cpu os)
  then have b: "bytes_at M off (byte_of (length cpu) # cpu)" "bytes_at M (off + 1 + length cpu) (byte_of (length os) # os)"
    "e = off + 1 + length cpu + 1 + length os"
    using assms(1) by (simp_all add: data_bytes_def bytes_at_append bytes_at_Cons)
  have l: "length cpu \<le> 255" "length os \<le> 255" "no_nul cpu" "no_nul os" "length cpu < AVAHI_DOMAIN_NAME_MAX" "length os < AVAHI_DOMAIN_NAME_MAX"
    using assms(2) Hinfo by (simp_all add: sendable_data_def data_fits_def AVAHI_DOMAIN_NAME_MAX_def)
  have "gets M off (consume_then (avahi_dns_packet_consume_string AVAHI_DOMAIN_NAME_MAX) (\<lambda>cpu.
        consume_then (avahi_dns_packet_consume_string AVAHI_DOMAIN_NAME_MAX) (\<lambda>os. yields (Hinfo cpu os)))) d e"
    unfolding Hinfo b(3)
    by (rule gets_then [OF gets_string [OF b(1) l(1,3,5)]], rule gets_then [OF gets_string [OF b(2) l(2,4,6)]], rule gets_yields)
  then show ?thesis using Hinfo assms(2) by (simp add: parse_data_def sendable_data_def data_fits_def name_type_def dns_type_defs)
next
  case (A_addr a)
  then have "length a = 4" "bytes_at M off a" "e = off + length a" "t = AVAHI_DNS_TYPE_A"
    using assms by (auto simp: data_bytes_def sendable_data_def data_fits_def)
  moreover from this have "a \<noteq> []" by auto
  ultimately show ?thesis using A_addr gets_then [OF gets_bytes [of M off a] gets_yields, of A_addr]
    by (auto simp: parse_data_def name_type_def dns_type_defs)
next
  case (Aaaa_addr a)
  then have "length a = 16" "bytes_at M off a" "e = off + length a" "t = AVAHI_DNS_TYPE_AAAA"
    using assms by (auto simp: data_bytes_def sendable_data_def data_fits_def)
  moreover from this have "a \<noteq> []" by auto
  ultimately show ?thesis using Aaaa_addr gets_then [OF gets_bytes [of M off a] gets_yields, of Aaaa_addr]
    by (auto simp: parse_data_def name_type_def dns_type_defs)
next
  case (Txt l)
  then obtain bs where b: "bytes_at M off bs" "bs \<noteq> []" "avahi_string_list_parse bs = Some l" "e = off + length bs" "t = AVAHI_DNS_TYPE_TXT"
    using assms by (auto simp: data_bytes_def sendable_data_def data_fits_def)
  show ?thesis unfolding gets_def
  proof (intro allI impI)
    fix p assume p: "M \<subseteq>\<^sub>m mem {} p" "readable p" "p_rindex p = off"
    note bs = bytes_at_mono [OF p(1) b(1)]
    have "p_slice p off (length bs) = Some bs" using bytes_at_slice [OF bs b(2)] p(2) by (simp add: readable_def)
    moreover have "off + length bs \<le> p_size p" using bytes_at_size [OF bs b(2)] .
    ultimately show "e \<le> p_size p \<and> parse_data t (e - off) (zero_data t) p = Some (p\<lparr>p_rindex := e\<rparr>, Some d)"
      using b p Txt by (simp add: parse_data_def name_type_def dns_type_defs rptr_readable consume_then_def avahi_dns_packet_skip_def yields_def)
  qed
next
  case (Generic g)
  then have t: "generic_type t" using assms(2) by (simp add: sendable_data_def data_fits_def)
  show ?thesis
  proof (cases g)
    case None
    then have "e = off" using assms(1) Generic by (simp add: data_bytes_def)
    then show ?thesis using t None Generic gets_yields [of M off "Generic None"]
      by (simp add: parse_data_def generic_type_def zero_data_def)
  next
    case (Some bs)
    then have b: "bytes_at M off bs" "bs \<noteq> []" "e = off + length bs"
      using assms Generic by (auto simp: data_bytes_def sendable_data_def)
    show ?thesis unfolding gets_def
    proof (intro allI impI)
      fix p assume p: "M \<subseteq>\<^sub>m mem {} p" "readable p" "p_rindex p = off"
      note bs = bytes_at_mono [OF p(1) b(1)]
      have "p_slice p off (length bs) = Some bs" using bytes_at_slice [OF bs b(2)] p(2) by (simp add: readable_def)
      moreover have "off + length bs \<le> p_size p" using bytes_at_size [OF bs b(2)] .
      ultimately show "e \<le> p_size p \<and> parse_data t (e - off) (zero_data t) p = Some (p\<lparr>p_rindex := e\<rparr>, Some d)"
        using b p t Generic Some by (simp add: parse_data_def generic_type_def rptr_readable consume_then_def avahi_dns_packet_skip_def yields_def)
    qed
  qed
next
  case Unset
  then show ?thesis using assms(2) by (simp add: sendable_data_def)
qed

lemma gets_rdata:
  assumes "data_bytes M off d e" "sendable_data t d"
  shows "gets M off (parse_rdata t (e - off) (zero_data t)) d e"
  unfolding gets_def
proof (intro allI impI)
  fix p assume p: "M \<subseteq>\<^sub>m mem {} p" "readable p" "p_rindex p = off"
  with gets_data [OF assms] have "e \<le> p_size p \<and> parse_data t (e - off) (zero_data t) p = Some (p\<lparr>p_rindex := e\<rparr>, Some d)"
    by (simp add: gets_def)
  moreover have "off \<le> e" using data_bytes_size [OF assms] by simp
  ultimately show "e \<le> p_size p \<and> parse_rdata t (e - off) (zero_data t) p = Some (p\<lparr>p_rindex := e\<rparr>, Some d)"
    using p by (simp add: parse_rdata_def consume_then_def rptr_readable avahi_dns_packet_get_rptr_def of_nat_diff)
qed

subsection \<open>Keys and records\<close>

definition sendable_key :: "rrkey \<Rightarrow> bool" where
  "sendable_key k \<longleftrightarrow> wire_name (key_name k) \<and> length (key_name k) < 256 \<and> avahi_key_is_valid k \<and>
     key_clazz k AND AVAHI_DNS_UNICAST_RESPONSE = 0"

definition sendable :: "rr \<Rightarrow> bool" where
  "sendable r \<longleftrightarrow> wire_name (key_name (rr_key r)) \<and> sendable_data (key_type (rr_key r)) (rr_data r) \<and>
     avahi_record_is_valid r = Some True \<and> key_clazz (rr_key r) AND AVAHI_DNS_CACHE_FLUSH = 0"

text \<open>The TTL is limited by the sender, and the receiver replaces the largest one by the default.\<close>

definition as_received :: "rr \<Rightarrow> u32 \<Rightarrow> rr" where
  "as_received r max_ttl = avahi_record_new (rr_key r) (record_ttl (rr_ttl r) max_ttl)\<lparr>rr_data := rr_data r\<rparr>"

definition key_bytes :: "(nat \<rightharpoonup> byte) \<Rightarrow> nat \<Rightarrow> rrkey \<Rightarrow> bool \<Rightarrow> nat \<Rightarrow> bool" where
  "key_bytes M off k u e \<longleftrightarrow> (\<exists>e1. name_bytes M off (key_name k) e1 \<and>
     bytes_at M e1 (u16_bytes (key_type k)) \<and>
     bytes_at M (e1 + 2) (u16_bytes (key_clazz k OR (if u then AVAHI_DNS_UNICAST_RESPONSE else 0))) \<and> e = e1 + 2 + 2)"

definition record_bytes :: "(nat \<rightharpoonup> byte) \<Rightarrow> nat \<Rightarrow> rr \<Rightarrow> bool \<Rightarrow> u32 \<Rightarrow> nat \<Rightarrow> bool" where
  "record_bytes M off r cf max_ttl e \<longleftrightarrow> (\<exists>e1 start. name_bytes M off (key_name (rr_key r)) e1 \<and>
     bytes_at M e1 (u16_bytes (key_type (rr_key r))) \<and>
     bytes_at M (e1 + 2) (u16_bytes (record_class (key_clazz (rr_key r)) cf)) \<and>
     bytes_at M (e1 + 2 + 2) (u32_bytes (record_ttl (rr_ttl r) max_ttl)) \<and>
     start = e1 + 2 + 2 + 4 + 2 \<and> bytes_at M (e1 + 2 + 2 + 4) (u16_bytes (u16_of (e - start))) \<and>
     data_bytes M start (rr_data r) e)"

lemma flag_bit:
  fixes f c :: u16
  assumes "c AND f = 0" "f \<noteq> 0"
  shows "(c OR f) AND f \<noteq> 0" "(c OR f) AND NOT f = c" "c AND NOT f = c"
proof -
  have "(c OR f) AND f = f" by (rule bit_word_eqI) (auto simp: bit_simps)
  then show "(c OR f) AND f \<noteq> 0" using assms(2) by simp
  have d: "\<not> (bit c n \<and> bit f n)" for n using assms(1) by (metis bit_and_iff bit_0_eq bot_apply bot_bool_def)
  show "(c OR f) AND NOT f = c" "c AND NOT f = c"
    by (rule bit_word_eqI; use d in \<open>auto simp: bit_simps\<close>)+
qed

lemma class_bits:
  assumes "c AND AVAHI_DNS_CACHE_FLUSH = 0"
  shows "(record_class c cf AND AVAHI_DNS_CACHE_FLUSH \<noteq> 0) = cf" "record_class c cf AND NOT AVAHI_DNS_CACHE_FLUSH = c"
  using flag_bit [OF assms] assms by (auto simp: record_class_def AVAHI_DNS_CACHE_FLUSH_def)

lemma key_class_bits:
  assumes "c AND AVAHI_DNS_UNICAST_RESPONSE = 0"
  shows "((c OR (if u then AVAHI_DNS_UNICAST_RESPONSE else 0)) AND AVAHI_DNS_UNICAST_RESPONSE \<noteq> 0) = u"
    "(c OR (if u then AVAHI_DNS_UNICAST_RESPONSE else 0)) AND NOT AVAHI_DNS_UNICAST_RESPONSE = c"
  using flag_bit [OF assms] assms by (auto simp: AVAHI_DNS_UNICAST_RESPONSE_def)

lemma key_new_name_bytes:
  assumes "name_bytes M off n e"
  shows "avahi_key_new n c t = Some (Some \<lparr>key_name = n, key_clazz = c, key_type = t\<rparr>)"
proof -
  obtain ls where "n = join_labels ls" "good_labels ls" "length n < AVAHI_DOMAIN_NAME_MAX"
    using assms by (auto simp: name_bytes_def)
  then show ?thesis using key_new_short [of ls c t] by (simp add: good_labels_def)
qed

lemma key_new_same: "name_bytes M off (key_name k) e \<Longrightarrow> avahi_key_new (key_name k) (key_clazz k) (key_type k) = Some (Some k)"
  using key_new_name_bytes by (cases k) fastforce

lemma gets_key:
  assumes "key_bytes M off k u e" "sendable_key k"
  shows "gets M off avahi_dns_packet_consume_key (k, u) e"
proof -
  obtain e1 where k: "name_bytes M off (key_name k) e1" "bytes_at M e1 (u16_bytes (key_type k))"
     "bytes_at M (e1 + 2) (u16_bytes (key_clazz k OR (if u then AVAHI_DNS_UNICAST_RESPONSE else 0)))" "e = e1 + 2 + 2"
    using assms(1) unfolding key_bytes_def by blast
  have nm: "gets M off (avahi_dns_packet_consume_name 256) (key_name k) e1"
    using k(1) gets_name [where l = 256] assms(2) by (auto simp: name_bytes_def sendable_key_def)
  have s: "avahi_key_is_valid k" "key_clazz k AND AVAHI_DNS_UNICAST_RESPONSE = 0" using assms(2) by (simp_all add: sendable_key_def)
  show ?thesis unfolding avahi_dns_packet_consume_key_def
    by (rule gets_then [OF nm], rule gets_then [OF gets_uint16 [OF k(2)]], rule gets_then [OF gets_uint16 [OF k(3)]])
      (use s in \<open>simp add: gets_def k(4) key_class_bits key_new_same [OF k(1)] readable_def Let_def\<close>)
qed

lemma gets_record:
  assumes "record_bytes M off r cf max_ttl e" "sendable r"
  shows "gets M off avahi_dns_packet_consume_record (as_received r max_ttl, cf) e"
proof -
  let ?k = "rr_key r"
  obtain e1 start where b: "name_bytes M off (key_name ?k) e1" "bytes_at M e1 (u16_bytes (key_type ?k))"
     "bytes_at M (e1 + 2) (u16_bytes (record_class (key_clazz ?k) cf))"
     "bytes_at M (e1 + 2 + 2) (u32_bytes (record_ttl (rr_ttl r) max_ttl))"
     "start = e1 + 2 + 2 + 4 + 2" "bytes_at M (e1 + 2 + 2 + 4) (u16_bytes (u16_of (e - start)))"
     "data_bytes M start (rr_data r) e"
    using assms(1) unfolding record_bytes_def by blast
  have s: "sendable_data (key_type ?k) (rr_data r)" "avahi_record_is_valid r = Some True" "key_clazz ?k AND AVAHI_DNS_CACHE_FLUSH = 0"
    using assms(2) by (simp_all add: sendable_def)
  define a where "a = avahi_record_new ?k (record_ttl (rr_ttl r) max_ttl)"
  have sz: "start \<le> e" "unat (u16_of (e - start)) = e - start"
    using data_bytes_size [OF b(7) s(1)] by (auto simp: AVAHI_DNS_RDATA_MAX_def)
  have new: "avahi_record_new_full (key_name ?k) (key_clazz ?k) (key_type ?k) (record_ttl (rr_ttl r) max_ttl) = Some (Some a)"
    by (simp add: avahi_record_new_full_def key_new_same [OF b(1)] a_def)
  have a: "rr_data a = zero_data (key_type ?k)" by (simp add: a_def avahi_record_new_def)
  have v: "avahi_record_is_valid (a\<lparr>rr_data := rr_data r\<rparr>) = Some True"
    using s(2) by (cases "avahi_key_is_valid ?k") (simp_all add: a_def avahi_record_new_def avahi_record_is_valid_def)
  have g: "gets M start (consume_then (parse_rdata (key_type ?k) (e - start) (rr_data a)) (\<lambda>d p. do {
              v \<leftarrow> avahi_record_is_valid (a\<lparr>rr_data := d\<rparr>);
              Some (p, if \<not> v then None else Some (a\<lparr>rr_data := d\<rparr>, cf))})) (a\<lparr>rr_data := rr_data r\<rparr>, cf) e"
    unfolding a by (rule gets_then [OF gets_rdata [OF b(7) s(1)]]) (simp add: v gets_def readable_def)
  show ?thesis unfolding avahi_dns_packet_consume_record_def as_received_def a_def [symmetric]
  proof (rule gets_then [OF gets_name_bytes [OF b(1)]], rule gets_then [OF gets_uint16 [OF b(2)]],
      rule gets_then [OF gets_uint16 [OF b(3)]], rule gets_then [OF gets_uint32 [OF b(4)]],
      rule gets_then [OF gets_uint16 [OF b(6)]], goal_cases)
    case 1
    show ?case unfolding gets_def
    proof (intro allI impI)
      fix p assume p: "M \<subseteq>\<^sub>m mem {} p" "readable p" "p_rindex p = e1 + 2 + 2 + 4 + 2"
      with g b(5) have "e \<le> p_size p" "consume_then (parse_rdata (key_type ?k) (e - start) (rr_data a)) (\<lambda>d p. do {
              v \<leftarrow> avahi_record_is_valid (a\<lparr>rr_data := d\<rparr>);
              Some (p, if \<not> v then None else Some (a\<lparr>rr_data := d\<rparr>, cf))}) p = Some (p\<lparr>p_rindex := e\<rparr>, Some (a\<lparr>rr_data := rr_data r\<rparr>, cf))"
        by (simp_all add: gets_def)
      moreover have "\<not> p_rindex p + unat (u16_of (e - start)) > p_size p" using p(3) b(5) sz calculation(1) by simp
      ultimately show "e \<le> p_size p \<and> (if p_rindex p + unat (u16_of (e - start)) > p_size p then Some (p, None)
       else do {
         let cache_flush = (record_class (key_clazz ?k) cf AND AVAHI_DNS_CACHE_FLUSH \<noteq> 0);
         let class = record_class (key_clazz ?k) cf AND NOT AVAHI_DNS_CACHE_FLUSH;
         r \<leftarrow> avahi_record_new_full (key_name ?k) class (key_type ?k) (record_ttl (rr_ttl r) max_ttl);
         (case r of
            None \<Rightarrow> Some (p, None)
          | Some r \<Rightarrow>
              consume_then (parse_rdata (key_type ?k) (unat (u16_of (e - start))) (rr_data r)) (\<lambda>d p. do {
                let r = r\<lparr>rr_data := d\<rparr>;
                v \<leftarrow> avahi_record_is_valid r;
                Some (p, if \<not> v then None else Some (r, cache_flush))
              }) p)
       }) = Some (p\<lparr>p_rindex := e\<rparr>, Some (a\<lparr>rr_data := rr_data r\<rparr>, cf))"
        using class_bits [OF s(3)] by (simp add: Let_def new sz(2) del: unat_u16_of)
    qed
  qed
qed

lemma appends_u32:
  assumes "write_ok H p" "extends b p"
  shows "appends b H H 4 (\<lambda>t p'. p_size p' = p_size p + 4 \<and> bytes_at (mem H p') (p_size p) (u32_bytes v))
    (avahi_dns_packet_append_uint32 v) p"
  using appends_mono [OF appends_raw [OF assms, of "u32_bytes v"]] by (simp add: avahi_dns_packet_append_uint32_def)

definition key_size :: "rrkey \<Rightarrow> nat" where
  "key_size k = name_size (key_name k) + 4"

definition record_size :: "rr \<Rightarrow> nat" where
  "record_size r = name_size (key_name (rr_key r)) + 10 + data_size (rr_data r)"

lemma append_key_ok:
  assumes "write_ok {} p" "sendable_key k"
  shows "appends_or_same {} (key_size k) (\<lambda>t p'. t = p_size p \<and> key_bytes (mem {} p') (p_size p) k u (p_size p'))
    (avahi_dns_packet_append_key k u) p"
proof -
  have pp: "extends p p" using assms(1) by (simp add: write_ok_def extends_refl)
  have n: "wire_name (key_name k)" using assms(2) by (simp add: sendable_key_def)
  have "appends p {} {} (name_size (key_name k) + (2 + (2 + 0)))
      (\<lambda>t p'. t = p_size p \<and> key_bytes (mem {} p') (p_size p) k u (p_size p'))
      (consume_then (avahi_dns_packet_append_name (key_name k)) (\<lambda>t.
        consume_then (avahi_dns_packet_append_uint16 (key_type k)) (\<lambda>_.
        consume_then (avahi_dns_packet_append_uint16
          (key_clazz k OR (if u then AVAHI_DNS_UNICAST_RESPONSE else 0))) (\<lambda>_ p.
        Some (p, Some t))))) p"
  proof (rule appends_then [OF appends_name [OF assms(1) pp n]], goal_cases)
    case a: (1 t p1)
    show ?case
    proof (rule appends_then [OF appends_u16 [OF a(2,3)]], goal_cases)
      case b: (1 _ p2)
      show ?case
      proof (rule appends_then [OF appends_u16 [OF b(2,3)]], goal_cases)
        case c: (1 _ p3)
        have m: "mem {} p1 \<subseteq>\<^sub>m mem {} p3" using b(4) c(4) by (rule map_le_trans)
        have "key_bytes (mem {} p3) (p_size p) k u (p_size p3)" unfolding key_bytes_def
          using name_bytes_mono [OF _ m] bytes_at_mono [OF c(4)] a(1) b(1) c(1) by (intro exI [of _ "p_size p1"]) simp
        then show ?case using a(1) c(2,3) by (simp add: appends_def map_le_refl)
      qed
    qed
  qed
  then show ?thesis using or_rollback_ok [OF assms(1)]
    by (simp add: appends_or_same_def avahi_dns_packet_append_key_def key_size_def)
qed

lemma append_record_ok:
  assumes "write_ok {} p" "sendable r"
  shows "appends_or_same {} (record_size r)
    (\<lambda>t p'. t = p_size p \<and> record_bytes (mem {} p') (p_size p) r cf max_ttl (p_size p'))
    (avahi_dns_packet_append_record r cf max_ttl) p"
proof -
  have pp: "extends p p" using assms(1) by (simp add: write_ok_def extends_refl)
  let ?k = "rr_key r"
  have n: "wire_name (key_name ?k)" "sendable_data (key_type ?k) (rr_data r)" using assms(2) by (simp_all add: sendable_def)
  have "appends p {} {} (name_size (key_name ?k) + (2 + (2 + (4 + (2 + (data_size (rr_data r) + 0))))))
      (\<lambda>t p'. t = p_size p \<and> record_bytes (mem {} p') (p_size p) r cf max_ttl (p_size p'))
      (consume_then (avahi_dns_packet_append_name (key_name ?k)) (\<lambda>t.
        consume_then (avahi_dns_packet_append_uint16 (key_type ?k)) (\<lambda>_.
        consume_then (avahi_dns_packet_append_uint16 (record_class (key_clazz ?k) cf)) (\<lambda>_.
        consume_then (avahi_dns_packet_append_uint32 (record_ttl (rr_ttl r) max_ttl)) (\<lambda>_.
        consume_then (avahi_dns_packet_append_uint16 0) (\<lambda>l p.
          (let start = p_size p in
           consume_then (append_rdata (rr_data r)) (\<lambda>_ p. do {
             let size = p_size p - start;
             assert_that (size \<le> AVAHI_DNS_RDATA_MAX);
             p \<leftarrow> p_write l (u16_bytes (u16_of size)) p;
             Some (p, Some t)
           }) p))))))) p"
  proof (rule appends_then [OF appends_name [OF assms(1) pp n(1)]], goal_cases)
    case a: (1 t p1)
    show ?case
    proof (rule appends_then [OF appends_u16 [OF a(2,3)]], goal_cases)
      case b: (1 _ p2)
      show ?case
      proof (rule appends_then [OF appends_u16 [OF b(2,3)]], goal_cases)
        case c: (1 _ p3)
        show ?case
        proof (rule appends_then [OF appends_u32 [OF c(2,3)]], goal_cases)
          case d: (1 _ p4)
          have hole: "appends p {} {p_size p4, p_size p4 + 1} 2 (\<lambda>t p'. t = p_size p4 \<and> p_size p' = p_size p4 + 2)
              (avahi_dns_packet_append_uint16 0) p4"
            unfolding avahi_dns_packet_append_uint16_def by (rule appends_hole [OF d(2,3)]) simp
          show ?case
          proof (rule appends_then [OF hole], goal_cases)
            case e: (1 l p5)
            have "appends p {p_size p4, p_size p4 + 1} {} (data_size (rr_data r) + 0)
              (\<lambda>t p'. t = p_size p \<and> record_bytes (mem {} p') (p_size p) r cf max_ttl (p_size p'))
              (consume_then (append_rdata (rr_data r)) (\<lambda>_ p. do {
                 let size = p_size p - p_size p5;
                 assert_that (size \<le> AVAHI_DNS_RDATA_MAX);
                 p \<leftarrow> p_write l (u16_bytes (u16_of size)) p;
                 Some (p, Some t)
               })) p5"
            proof (rule appends_then [OF appends_rdata [OF e(2,3) n(2)]], goal_cases)
              case f: (1 _ p6)
              let ?b = "u16_bytes (u16_of (p_size p6 - p_size p5))"
              have le: "p_size p \<le> p_size p4" using d(3) by (simp add: extends_def)
              from fill_hole [OF f(2,3) le, of ?b] obtain p7 where
                p7: "p_write (p_size p4) ?b p6 = Some p7" "extends p p7" "write_ok {} p7"
                  "mem {p_size p4, p_size p4 + 1} p6 \<subseteq>\<^sub>m mem {} p7" "bytes_at (mem {} p7) (p_size p4) ?b" "p_size p7 = p_size p6" by auto
              have m5: "mem {p_size p4, p_size p4 + 1} p5 \<subseteq>\<^sub>m mem {} p7" using f(4) p7(4) by (rule map_le_trans)
              have m4: "mem {} p4 \<subseteq>\<^sub>m mem {} p7" using e(4) m5 by (rule map_le_trans)
              have m3: "mem {} p3 \<subseteq>\<^sub>m mem {} p7" using d(4) m4 by (rule map_le_trans)
              have m2: "mem {} p2 \<subseteq>\<^sub>m mem {} p7" using c(4) m3 by (rule map_le_trans)
              have m1: "mem {} p1 \<subseteq>\<^sub>m mem {} p7" using b(4) m2 by (rule map_le_trans)
              have sz: "p_size p6 - p_size p5 \<le> AVAHI_DNS_RDATA_MAX" using data_bytes_size [OF f(1) n(2)] by simp
              have "name_bytes (mem {} p7) (p_size p) (key_name ?k) (p_size p1)"
                "bytes_at (mem {} p7) (p_size p1) (u16_bytes (key_type ?k))"
                "bytes_at (mem {} p7) (p_size p1 + 2) (u16_bytes (record_class (key_clazz ?k) cf))"
                "bytes_at (mem {} p7) (p_size p1 + 2 + 2) (u32_bytes (record_ttl (rr_ttl r) max_ttl))"
                "p_size p4 = p_size p1 + 2 + 2 + 4" "p_size p5 = p_size p4 + 2" "t = p_size p"
                "data_bytes (mem {} p7) (p_size p5) (rr_data r) (p_size p7)"
                using name_bytes_mono [OF _ m1] bytes_at_mono [OF m2] bytes_at_mono [OF m3] bytes_at_mono [OF m4]
                  a(1) b(1) c(1) d(1) e(1) data_bytes_mono [OF f(1) p7(4)] p7(6) by simp_all
              then have "record_bytes (mem {} p7) (p_size p) r cf max_ttl (p_size p7)" unfolding record_bytes_def
                using p7(5,6) by (intro exI [of _ "p_size p1"] exI [of _ "p_size p5"]) simp
              then show ?case using sz p7 e(1) \<open>t = p_size p\<close> by (simp add: appends_def Let_def)
            qed
            then show ?case by (simp add: appends_def)
          qed
        qed
      qed
    qed
  qed
  from or_rollback_ok [OF assms(1) this]
  have "appends_or_same {} (name_size (key_name ?k) + (2 + (2 + (4 + (2 + (data_size (rr_data r) + 0))))))
      (\<lambda>t p'. t = p_size p \<and> record_bytes (mem {} p') (p_size p) r cf max_ttl (p_size p'))
      (avahi_dns_packet_append_record r cf max_ttl) p"
    unfolding appends_or_same_def avahi_dns_packet_append_record_def .
  moreover have "name_size (key_name ?k) + (2 + (2 + (4 + (2 + (data_size (rr_data r) + 0))))) = record_size r"
    by (simp add: record_size_def)
  ultimately show ?thesis by (simp only:)
qed

end
