(* ===== verification/Dnsmessage.thy ===== *)
theory Dnsmessage
  imports Dnsback
begin

text \<open>
  Whole messages: keys and records appended to a fresh packet and read from it, the size estimates of rr.c
  against the sizes in a packet, replies, and the properties of dns.c.
\<close>

subsection \<open>Messages\<close>

text \<open>
  A message as a list of keys and records that are appended one after the other; those that the packet
  has no room for are left out. The receiver reads as many keys and records as were accepted.
\<close>

datatype item = Question rrkey bool | Record rr bool u32

fun append_item :: "item \<Rightarrow> nat consumer" where
  "append_item (Question k u) = avahi_dns_packet_append_key k u"
| "append_item (Record r cf max_ttl) = avahi_dns_packet_append_record r cf max_ttl"

fun append_items :: "item list \<Rightarrow> packet \<Rightarrow> (packet \<times> item list) outcome" where
  "append_items [] p = Some (p, [])"
| "append_items (i # is) p = do {
     (p, t) \<leftarrow> append_item i p;
     (p, acc) \<leftarrow> append_items is p;
     Some (p, if t = None then acc else i # acc)
   }"

datatype received_item = Got_question rrkey bool | Got_record rr bool

fun consume_item :: "item \<Rightarrow> received_item consumer" where
  "consume_item (Question _ _) = consume_then avahi_dns_packet_consume_key (\<lambda>(k, u). yields (Got_question k u))"
| "consume_item (Record _ _ _) = consume_then avahi_dns_packet_consume_record (\<lambda>(r, cf). yields (Got_record r cf))"

fun consume_items :: "item list \<Rightarrow> received_item list consumer" where
  "consume_items [] = yields []"
| "consume_items (i # is) = consume_then (consume_item i) (\<lambda>x. consume_then (consume_items is) (\<lambda>xs. yields (x # xs)))"

fun item_as_received :: "item \<Rightarrow> received_item" where
  "item_as_received (Question k u) = Got_question k u"
| "item_as_received (Record r cf max_ttl) = Got_record (as_received r max_ttl) cf"

fun sendable_item :: "item \<Rightarrow> bool" where
  "sendable_item (Question k _) \<longleftrightarrow> sendable_key k"
| "sendable_item (Record r _ _) \<longleftrightarrow> sendable r"

fun item_size :: "item \<Rightarrow> nat" where
  "item_size (Question k _) = key_size k"
| "item_size (Record r _ _) = record_size r"

fun item_bytes :: "(nat \<rightharpoonup> byte) \<Rightarrow> nat \<Rightarrow> item \<Rightarrow> nat \<Rightarrow> bool" where
  "item_bytes M off (Question k u) e \<longleftrightarrow> key_bytes M off k u e"
| "item_bytes M off (Record r cf max_ttl) e \<longleftrightarrow> record_bytes M off r cf max_ttl e"

lemma append_item_ok:
  "write_ok {} p \<Longrightarrow> sendable_item i \<Longrightarrow>
   appends_or_same {} (item_size i) (\<lambda>t p'. t = p_size p \<and> item_bytes (mem {} p') (p_size p) i (p_size p')) (append_item i) p"
  using append_key_ok append_record_ok by (cases i) simp_all

lemma gets_item:
  assumes "item_bytes M off i e" "sendable_item i"
  shows "gets M off (consume_item i) (item_as_received i) e"
proof (cases i)
  case (Question k u)
  then have "key_bytes M off k u e" "sendable_key k" using assms by simp_all
  from gets_then [OF gets_key [OF this], of "\<lambda>(k, u). yields (Got_question k u)" "Got_question k u" e] gets_yields [of M e "Got_question k u"]
  show ?thesis by (simp add: Question)
next
  case (Record r cf max_ttl)
  then have "record_bytes M off r cf max_ttl e" "sendable r" using assms by simp_all
  from gets_then [OF gets_record [OF this], of "\<lambda>(r, cf). yields (Got_record r cf)" "Got_record (as_received r max_ttl) cf" e]
    gets_yields [of M e "Got_record (as_received r max_ttl) cf"]
  show ?thesis by (simp add: Record)
qed

lemma same_packet_ok: "write_ok {} p \<Longrightarrow> same_packet p p' \<Longrightarrow> write_ok {} p'"
  using write_ok_extends [of "{}" p p'] by (simp add: same_packet_def)

text \<open>The names of the table, and the bytes, behind the size of the packet.\<close>

lemma append_items_ok:
  assumes "write_ok {} p" "list_all sendable_item is"
  shows "\<exists>p' acc. append_items is p = Some (p', acc) \<and> write_ok {} p' \<and> extends p p' \<and>
    (p_size p + sum_list (map item_size is) \<le> p_max_size p \<longrightarrow> acc = is) \<and>
    gets (mem {} p') (p_size p) (consume_items acc) (map item_as_received acc) (p_size p')"
  using assms
proof (induction "is" arbitrary: p)
  case Nil
  then have "extends p p" by (simp add: write_ok_def extends_refl)
  with Nil show ?case by (simp add: gets_yields)
next
  case (Cons i "is")
  obtain p1 r where r: "append_item i p = Some (p1, r)"
      "p_size p + item_size i \<le> p_max_size p \<longrightarrow> r \<noteq> None \<and> p_size p1 \<le> p_size p + item_size i"
      "case r of None \<Rightarrow> same_packet p p1
        | Some t \<Rightarrow> extends p p1 \<and> write_ok {} p1 \<and> t = p_size p \<and> item_bytes (mem {} p1) (p_size p) i (p_size p1)"
    using append_item_ok [of p i] Cons.prems unfolding appends_or_same_def by auto
  have x: "extends p p1" "write_ok {} p1"
    using r(3) same_packet_ok [OF Cons.prems(1)] by (auto simp: same_packet_def split: option.splits)
  obtain p2 acc where acc: "append_items is p1 = Some (p2, acc)" "write_ok {} p2" "extends p1 p2"
      "p_size p1 + sum_list (map item_size is) \<le> p_max_size p1 \<longrightarrow> acc = is"
      "gets (mem {} p2) (p_size p1) (consume_items acc) (map item_as_received acc) (p_size p2)"
    using Cons.IH [OF x(2)] Cons.prems(2) by auto
  have "extends p p2" using x(1) acc(3) by (rule extends_trans)
  moreover have "p_max_size p1 = p_max_size p" using x(1) by (simp add: extends_def)
  moreover have "gets (mem {} p2) (p_size p) (consume_items (if r = None then acc else i # acc))
      (map item_as_received (if r = None then acc else i # acc)) (p_size p2)"
  proof (cases r)
    case None
    with r(3) acc(5) show ?thesis by (simp add: same_packet_def)
  next
    case (Some t)
    then have "item_bytes (mem {} p1) (p_size p) i (p_size p1)" using r(3) by simp
    from gets_mono [OF gets_item [OF this] extends_mem [OF acc(3)]] Cons.prems(2)
    have "gets (mem {} p2) (p_size p) (consume_item i) (item_as_received i) (p_size p1)" by simp
    from gets_then [OF this gets_then [OF acc(5) gets_yields], of "\<lambda>x xs. x # xs"] Some
    show ?thesis by simp
  qed
  ultimately show ?case using r(1,2) acc(1,2,4) by auto
qed

text \<open>Fresh packets.\<close>

lemma write_ok_new: "write_ok {} (avahi_dns_packet_new mtu)"
  by (simp add: write_ok_def packet_ok_def avahi_dns_packet_new_def tbl_def AVAHI_DNS_PACKET_HEADER_SIZE_def Let_def)

definition fresh :: "packet \<Rightarrow> bool" where
  "fresh p \<longleftrightarrow> (\<exists>mtu. avahi_dns_packet_new_query mtu = Some p) \<or> (\<exists>mtu aa. avahi_dns_packet_new_response mtu aa = Some p)"

lemma set_field_result:
  assumes "avahi_dns_packet_set_field p idx v = Some q"
  obtains d where "q = p\<lparr>p_data := d\<rparr>" "length d = length (p_data p)"
  using assms by (auto simp: avahi_dns_packet_set_field_def p_write_def Option.bind_eq_Some_conv split: if_splits)

lemma fresh_ok:
  assumes "fresh p"
  shows "write_ok {} p" "p_size p = AVAHI_DNS_PACKET_HEADER_SIZE" "p_rindex p = AVAHI_DNS_PACKET_HEADER_SIZE"
proof -
  obtain mtu f where "avahi_dns_packet_set_field (avahi_dns_packet_new mtu) AVAHI_DNS_FIELD_FLAGS f = Some p"
    using assms by (auto simp: fresh_def avahi_dns_packet_new_query_def avahi_dns_packet_new_response_def)
  then obtain d where d: "p = (avahi_dns_packet_new mtu)\<lparr>p_data := d\<rparr>" "length d = length (p_data (avahi_dns_packet_new mtu))"
    by (rule set_field_result)
  then show "write_ok {} p" using write_ok_new [of mtu] by (simp add: write_ok_def packet_ok_def tbl_def)
      (simp add: avahi_dns_packet_new_def Let_def)
  show "p_size p = AVAHI_DNS_PACKET_HEADER_SIZE" "p_rindex p = AVAHI_DNS_PACKET_HEADER_SIZE" using d by (simp_all add: avahi_dns_packet_new_def Let_def)
qed

subsection \<open>Sizes in a fresh packet\<close>

text \<open>A name is not compressed when all names in the table are longer.\<close>

lemma append_raw_Some:
  assumes "append_raw bs p = Some (p', Some d)"
  shows "p_size p' = p_size p + length bs \<and> p_size p' \<le> p_max_size p \<and> p_max_size p' = p_max_size p \<and> p_names p' = p_names p"
  using assms by (auto simp: append_raw_def avahi_dns_packet_extend_def p_write_def Option.bind_eq_Some_conv split: if_splits)

lemma append_name_loop_fresh:
  assumes "packet_ok p" "good_labels ls" "\<forall>k v. tbl p k = Some v \<longrightarrow> length (join_labels ls) < length k"
    and "append_name_loop p (join_labels ls) = Some (p', Name_done)"
  shows "p_size p' = p_size p + wire_length ls \<and> p_max_size p' = p_max_size p"
  using assms
proof (induction ls arbitrary: p)
  case Nil
  then obtain d where "append_raw [0] p = Some (p', Some d)"
    by (auto simp: append_name_loop.simps [of p "[]"] Option.bind_eq_Some_conv split: option.splits)
  then show ?case using append_raw_Some [of "[0]" p p' d] by simp
next
  case (Cons l ls)
  let ?name = "join_labels (l # ls)"
  have g: "good_labels (l # ls)" "good_labels ls" "label_ok l" "l \<noteq> []" "length l < AVAHI_LABEL_MAX"
    using Cons.prems(2) by (auto simp: label_ok_def)
  have nn: "no_nul ?name" by (rule no_nul_join)
  have none: "tbl p ?name = None" using Cons.prems(3) by (metis less_irrefl not_None_eq)
  then have small: "\<forall>idx. tbl p ?name = Some idx \<longrightarrow> idx < p_size p"
    and target: "None = (case tbl p ?name of None \<Rightarrow> None | Some idx \<Rightarrow> if idx < 0x4000 then Some idx else None)" by simp_all
  define m where "m q = (case p_names q of
      Some m \<Rightarrow> m | None \<Rightarrow> avahi_hashmap_new avahi_string_hash avahi_string_equal True False)" for q :: packet
  obtain p1 d m' x where p1: "append_raw (byte_of (length l) # l) p = Some (p1, Some d)"
    "avahi_hashmap_insert (m p1) ?name d = Some (m', x)"
    "append_name_loop (p1\<lparr>p_names := Some m'\<rparr>) (join_labels ls) = Some (p', Name_done)"
    using Cons.prems(4) unfolding append_name_loop_step [OF Cons.prems(1) g(1) small target]
      option.case Let_def m_def [symmetric] by (auto simp: Option.bind_eq_Some_conv split: option.splits)
  have s: "p_size p1 = p_size p + 1 + length l" "p_max_size p1 = p_max_size p" "p_names p1 = p_names p"
    using append_raw_Some [OF p1(1)] by simp_all
  have "packet_ok p1" using append_raw_ok [OF Cons.prems(1), of "byte_of (length l) # l"] p1(1) by (auto simp: extends_def)
  have m: "string_key.inv (m p1)" "tab (m p1) = tbl p"
    using Cons.prems(1) s(3) by (auto simp: m_def tbl_def packet_ok_def tab_new split: option.splits)
  from tab_insert [OF m(1) nn, of d] p1(2) none m(2) have m': "string_key.inv m'" "tab m' = (tbl p)(?name \<mapsto> d)" by auto
  let ?q = "p1\<lparr>p_names := Some m'\<rparr>"
  have "packet_ok ?q" using \<open>packet_ok p1\<close> m'(1) by (simp add: packet_ok_def)
  moreover have len: "length (join_labels ls) < length ?name" using g(4) by (cases ls) auto
  moreover have "length (join_labels ls) < length k" if "tbl ?q k = Some v" for k v
    using that Cons.prems(3) len by (auto simp: tbl_def m'(2) simp del: join_labels.simps split: if_splits intro: less_trans)
  ultimately show ?case using Cons.IH [of ?q] g(2) p1(3) s by simp
qed

lemma append_name_fresh:
  assumes "write_ok {} p" "tbl p = (\<lambda>_. None)" "good_labels ls"
    and "avahi_dns_packet_append_name (join_labels ls) p = Some (p', Some t)"
  shows "p_size p' = p_size p + wire_length ls \<and> p_max_size p' = p_max_size p"
proof -
  have ok: "packet_ok p" using assms(1) by (simp add: write_ok_def)
  have e: "avahi_dns_packet_extend p 0 = (p, Some (p_size p))"
    using ok by (simp add: avahi_dns_packet_extend_def packet_ok_def)
  have "append_name_loop p (join_labels ls) = Some (p', Name_done)"
  proof (cases "append_name_loop p (join_labels ls)")
    case None
    with assms(4) show ?thesis by (simp add: avahi_dns_packet_append_name_def e)
  next
    case (Some qx)
    with assms(4) show ?thesis
      by (cases qx; cases "snd qx") (auto simp: avahi_dns_packet_append_name_def e Let_def Option.bind_eq_Some_conv)
  qed
  then show ?thesis using append_name_loop_fresh [OF ok assms(3)] assms(2) by simp
qed

lemma escape_char_cases: "escape_char c = [c] \<or> backslash \<in> set (escape_char c)"
  by (auto simp: escape_char_def escape_decimal_def)

lemma escaped_plain: "backslash \<notin> set (escaped l) \<Longrightarrow> length (escaped l) = length l"
proof (induction l)
  case (Cons c l)
  then show ?case using escape_char_cases [of c] by auto
qed simp

lemma wire_length_plain:
  assumes "backslash \<notin> set (join_labels ls)"
  shows "wire_length ls = (if ls = [] then 1 else length (join_labels ls) + 2)"
proof -
  have d: "backslash \<notin> set (dotted ls) \<Longrightarrow> wire_length ls = length (dotted ls) + 1" for ls
    by (induction ls) (auto simp: dotted_def escaped_plain)
  show ?thesis using assms d by (cases ls) (auto simp: escaped_plain)
qed

lemma consume_then_Some:
  "consume_then m f p = Some (q, Some v) \<longleftrightarrow> (\<exists>p1 a. m p = Some (p1, Some a) \<and> f a p1 = Some (q, Some v))"
  by (auto simp: consume_then_def Option.bind_eq_Some_conv split: option.splits)

lemma or_rollback_Some: "or_rollback sz m p = Some (q, Some t) \<Longrightarrow> m p = Some (q, Some t)"
  by (auto simp: or_rollback_def Option.bind_eq_Some_conv split: option.splits)

lemma record_fresh_size:
  assumes "write_ok {} p" "tbl p = (\<lambda>_. None)" "sendable r" "rr_data r = Txt l"
    and "avahi_dns_packet_append_record r cf max_ttl p = Some (p', Some t)"
  shows "p_size p + record_size r \<le> p_max_size p"
proof -
  let ?k = "rr_key r"
  obtain ls where ls: "good_labels ls" "key_name ?k = join_labels ls"
    using assms(3) by (auto simp: sendable_def elim: wire_nameE)
  have l: "list_all (\<lambda>s. s \<noteq> [] \<and> length s < 256) l" using assms(3,4) by (simp add: sendable_def sendable_data_def)
  obtain bs where bs: "length bs = snd (avahi_string_list_serialize l None)"
    "append_rdata (rr_data r) = consume_then (append_raw bs) (\<lambda>_. finished)"
    using append_txt_raw [OF l] assms(4) by metis
  note q = or_rollback_Some [OF assms(5) [unfolded avahi_dns_packet_append_record_def]]
  obtain p1 p2 p3 p4 p5 p6 a b c d e f where
    "avahi_dns_packet_append_name (key_name ?k) p = Some (p1, Some a)"
    "append_raw (u16_bytes (key_type ?k)) p1 = Some (p2, Some b)"
    "append_raw (u16_bytes (record_class (key_clazz ?k) cf)) p2 = Some (p3, Some c)"
    "append_raw (u32_bytes (record_ttl (rr_ttl r) max_ttl)) p3 = Some (p4, Some d)"
    "append_raw (u16_bytes 0) p4 = Some (p5, Some e)" "append_raw bs p5 = Some (p6, Some f)"
    using q unfolding bs(2) avahi_dns_packet_append_uint16_def avahi_dns_packet_append_uint32_def Let_def consume_then_Some
    by blast
  note s = append_name_fresh [OF assms(1,2) ls(1) this(1) [unfolded ls(2)]] append_raw_Some [OF this(2)]
    append_raw_Some [OF this(3)] append_raw_Some [OF this(4)] append_raw_Some [OF this(5)] append_raw_Some [OF this(6)]
  have "p_size p + wire_length ls + 10 + length bs = p_size p6" using s by simp
  moreover have "p_size p6 \<le> p_max_size p" using s by linarith
  ultimately have "p_size p + wire_length ls + 10 + length bs \<le> p_max_size p" by simp
  then show ?thesis using bs(1) ls assms(4) by (simp add: record_size_def data_size_def name_size_def labels_of_good)
qed

lemma fresh_tbl: "fresh p \<Longrightarrow> tbl p = (\<lambda>_. None)"
proof -
  assume "fresh p"
  then obtain mtu f where "avahi_dns_packet_set_field (avahi_dns_packet_new mtu) AVAHI_DNS_FIELD_FLAGS f = Some p"
    by (auto simp: fresh_def avahi_dns_packet_new_query_def avahi_dns_packet_new_response_def)
  then show ?thesis by (rule set_field_result) (simp add: tbl_def avahi_dns_packet_new_def Let_def)
qed

lemma estimate_short:
  assumes "sendable r" "rr_data r = Txt l" "key_name (rr_key r) \<noteq> []" "backslash \<notin> set (key_name (rr_key r))"
  shows "avahi_record_get_estimate_size r = Some (record_size r - 1)" "0 < record_size r"
proof -
  obtain ls where ls: "good_labels ls" "key_name (rr_key r) = join_labels ls"
    using assms(1) by (auto simp: sendable_def elim: wire_nameE)
  then have "ls \<noteq> []" using assms(3) by auto
  then have "record_size r = length (key_name (rr_key r)) + 12 + snd (avahi_string_list_serialize l None)"
    using ls assms(2,4) wire_length_plain [of ls]
    by (simp add: record_size_def name_size_def labels_of_good data_size_def)
  then show "avahi_record_get_estimate_size r = Some (record_size r - 1)" "0 < record_size r"
    using assms(2) by (simp_all add: avahi_record_get_estimate_size_def avahi_key_get_estimate_size_def Let_def)
qed

subsection \<open>Strings that are too long for a record\<close>

lemma appends_room:
  assumes "appends b H H' w R m p" "p_size p + w \<le> p_max_size b"
  obtains t p' where "m p = Some (p', Some t)" "write_ok H' p'" "extends b p'" "p_size p' \<le> p_size p + w" "R t p'"
proof -
  obtain p' r where r: "m p = Some (p', r)" "extends b p'"
    "p_size p + w \<le> p_max_size b \<longrightarrow> r \<noteq> None \<and> p_size p' \<le> p_size p + w"
    "\<forall>t. r = Some t \<longrightarrow> write_ok H' p' \<and> mem H p \<subseteq>\<^sub>m mem H' p' \<and> R t p'"
    using assms(1) by (rule appendsE)
  then show thesis using that assms(2) by auto
qed

lemma append_long_txt:
  assumes "fresh p" "wire_name n" "list_all (\<lambda>s. s \<noteq> [] \<and> length s < 256) l"
    and "AVAHI_DNS_RDATA_MAX < snd (avahi_string_list_serialize l None)"
    and "p_size p + name_size n + 10 + snd (avahi_string_list_serialize l None) \<le> p_max_size p"
  shows "avahi_dns_packet_append_record
    \<lparr>rr_key = \<lparr>key_name = n, key_clazz = c, key_type = AVAHI_DNS_TYPE_TXT\<rparr>, rr_ttl = ttl, rr_data = Txt l\<rparr> cf max_ttl p = crash"
proof -
  have w: "write_ok {} p" "extends p p" using fresh_ok(1) [OF assms(1)] by (simp_all add: write_ok_def extends_refl)
  obtain bs where bs: "length bs = snd (avahi_string_list_serialize l None)"
    "append_rdata (Txt l) = consume_then (append_raw bs) (\<lambda>_. finished)"
    using append_txt_raw [OF assms(3)] by metis
  obtain t p1 where 1: "avahi_dns_packet_append_name n p = Some (p1, Some t)" "write_ok {} p1" "extends p p1" "p_size p1 \<le> p_size p + name_size n"
    using appends_room [OF appends_name [OF w assms(2)]] assms(5) by (metis add_leD1)
  obtain t2 p2 where 2: "avahi_dns_packet_append_uint16 AVAHI_DNS_TYPE_TXT p1 = Some (p2, Some t2)" "write_ok {} p2" "extends p p2"
    "p_size p2 \<le> p_size p1 + 2" by (rule appends_room [OF appends_u16 [OF 1(2,3)]]) (use 1(4) assms(5) in simp)
  obtain t3 p3 where 3: "avahi_dns_packet_append_uint16 (record_class c cf) p2 = Some (p3, Some t3)" "write_ok {} p3" "extends p p3"
    "p_size p3 \<le> p_size p2 + 2" by (rule appends_room [OF appends_u16 [OF 2(2,3)]]) (use 1(4) 2(4) assms(5) in simp)
  obtain t4 p4 where 4: "avahi_dns_packet_append_uint32 (record_ttl ttl max_ttl) p3 = Some (p4, Some t4)" "write_ok {} p4" "extends p p4"
    "p_size p4 \<le> p_size p3 + 4" by (rule appends_room [OF appends_u32 [OF 3(2,3)]]) (use 1(4) 2(4) 3(4) assms(5) in simp)
  obtain t5 p5 where 5: "avahi_dns_packet_append_uint16 0 p4 = Some (p5, Some t5)" "write_ok {} p5" "extends p p5"
    "p_size p5 \<le> p_size p4 + 2" by (rule appends_room [OF appends_u16 [OF 4(2,3)]]) (use 1(4) 2(4) 3(4) 4(4) assms(5) in simp)
  obtain t6 p6 where 6: "append_raw bs p5 = Some (p6, Some t6)" "p_size p6 = p_size p5 + length bs"
    by (rule appends_room [OF appends_raw [OF 5(2,3), of bs]]) (use 1(4) 2(4) 3(4) 4(4) 5(4) assms(5) bs(1) in auto)
  show ?thesis unfolding avahi_dns_packet_append_record_def or_rollback_def rr.simps rrkey.simps
    using assms(4) by (simp add: consume_then_def 1(1) 2(1) 3(1) 4(1) 5(1) bs 6 finished_def Let_def)
qed

lemma item_bytes_less: "item_bytes M off i e \<Longrightarrow> sendable_item i \<Longrightarrow> off < e"
  using name_bytes_size data_bytes_size by (cases i) (fastforce simp: key_bytes_def record_bytes_def sendable_def)+

text \<open>A record for the witnesses.\<close>

definition plain_txt :: "byte list \<Rightarrow> rr" where
  "plain_txt s = \<lparr>rr_key = \<lparr>key_name = str ''a'', key_clazz = AVAHI_DNS_CLASS_IN, key_type = AVAHI_DNS_TYPE_TXT\<rparr>, rr_ttl = 120,
      rr_data = Txt [s]\<rparr>"

lemma new_response_max: "\<exists>p. avahi_dns_packet_new_response mtu aa = Some p \<and> fresh p \<and> p_max_size p = p_max_size (avahi_dns_packet_new mtu)"
proof -
  have "avahi_dns_packet_new_response mtu aa \<noteq> None"
    by (auto simp: avahi_dns_packet_new_response_def avahi_dns_packet_set_field_def p_write_def avahi_dns_packet_new_def Let_def
        AVAHI_DNS_FIELD_FLAGS_def AVAHI_DNS_PACKET_HEADER_SIZE_def AVAHI_DNS_PACKET_SIZE_MAX_def u16_bytes_def)
  then obtain p where p: "avahi_dns_packet_new_response mtu aa = Some p" by blast
  then have "p_max_size p = p_max_size (avahi_dns_packet_new mtu)"
    unfolding avahi_dns_packet_new_response_def by (rule set_field_result) simp
  with p show ?thesis by (auto simp: fresh_def)
qed

subsection \<open>Replies\<close>

lemma append_received_key:
  assumes "write_ok {} r" "label_name (key_name k)"
  shows "\<exists>r' t. avahi_dns_packet_append_key k u r = Some (r', t) \<and> write_ok {} r' \<and> extends r r'"
proof -
  have rr: "extends r r" using assms(1) by (simp add: write_ok_def extends_refl)
  obtain ls where ls: "good_labels ls" "key_name k = join_labels ls"
    using assms(2) by (auto simp: label_name_def good_labels_def)
  have "appends r {} {} (wire_length ls + (2 + (2 + 0))) (\<lambda>_ _. True)
      (consume_then (avahi_dns_packet_append_name (key_name k)) (\<lambda>t.
        consume_then (avahi_dns_packet_append_uint16 (key_type k)) (\<lambda>_.
        consume_then (avahi_dns_packet_append_uint16
          (key_clazz k OR (if u then AVAHI_DNS_UNICAST_RESPONSE else 0))) (\<lambda>_ p.
        Some (p, Some t))))) r"
    unfolding ls(2)
    by (rule appends_then [OF append_name_ok [OF assms(1) ls(1) rr]], rule appends_then [OF appends_u16], assumption, assumption,
        rule appends_then [OF appends_u16], assumption, assumption) (simp add: appends_def map_le_refl)
  from or_rollback_ok [OF assms(1) this] obtain r' t where
    "avahi_dns_packet_append_key k u r = Some (r', t)" "case t of None \<Rightarrow> same_packet r r' | Some _ \<Rightarrow> extends r r' \<and> write_ok {} r'"
    by (auto simp: appends_or_same_def avahi_dns_packet_append_key_def split: option.splits)
  then show ?thesis using same_packet_ok [OF assms(1)] by (cases t) (auto simp: same_packet_def)
qed

lemma copy_queries_ok:
  "readable p \<Longrightarrow> write_ok {} r \<Longrightarrow> \<exists>p' r'. copy_queries_loop n p r = Some (p', r') \<and> write_ok {} r'"
proof (induction n arbitrary: p r)
  case (Suc n)
  obtain p1 k where k: "avahi_dns_packet_consume_key p = Some (p1, k)" "moved p p1"
    "case k of None \<Rightarrow> True | Some (k, _) \<Rightarrow> received_key k"
    using reads_key [OF Suc.prems(1)] by (auto simp: reads_def)
  have p1: "readable p1" using moved_readable [OF Suc.prems(1) k(2)] .
  show ?case
  proof (cases k)
    case None
    with Suc.IH [OF p1 Suc.prems(2)] k(1) show ?thesis by simp
  next
    case (Some ku)
    obtain key u where ku: "ku = (key, u)" by (cases ku)
    with k(3) Some have "label_name (key_name key)" by (simp add: received_key_def)
    from append_received_key [OF Suc.prems(2) this, of u] obtain r' t where
      "avahi_dns_packet_append_key key u r = Some (r', t)" "write_ok {} r'" by blast
    with Suc.IH [OF p1, of r'] k(1) Some ku show ?thesis by simp
  qed
qed simp

lemma field_ok:
  assumes "AVAHI_DNS_PACKET_HEADER_SIZE \<le> length (p_data p)" "idx < 6"
  shows "\<exists>v. avahi_dns_packet_get_field p idx = Some v" "\<exists>q. avahi_dns_packet_set_field p idx w = Some q \<and> length (p_data q) = length (p_data p)"
  using assms by (auto simp: avahi_dns_packet_get_field_def avahi_dns_packet_set_field_def p_slice_def p_write_def u16_bytes_def
      AVAHI_DNS_PACKET_HEADER_SIZE_def)

lemma new_reply_ok:
  assumes "readable p" "AVAHI_DNS_PACKET_HEADER_SIZE \<le> p_size p"
  shows "\<exists>r. avahi_dns_packet_new_reply p mtu copy_queries aa = Some r"
proof -
  have lp: "AVAHI_DNS_PACKET_HEADER_SIZE \<le> length (p_data p)" using assms by (simp add: readable_def)
  note fp = field_ok(1) [OF lp]
  obtain r where r: "avahi_dns_packet_new_response mtu aa = Some r" "write_ok {} r" using new_response_max fresh_ok(1) by blast
  have len: "write_ok {} q \<Longrightarrow> AVAHI_DNS_PACKET_HEADER_SIZE \<le> length (p_data q)" for q
    by (simp add: write_ok_def packet_ok_def)
  obtain n where n: "avahi_dns_packet_get_field p AVAHI_DNS_FIELD_QDCOUNT = Some n" using fp [of AVAHI_DNS_FIELD_QDCOUNT] by (auto simp: AVAHI_DNS_FIELD_QDCOUNT_def)
  obtain i where i: "avahi_dns_packet_get_field p AVAHI_DNS_FIELD_ID = Some i" using fp [of AVAHI_DNS_FIELD_ID] by (auto simp: AVAHI_DNS_FIELD_ID_def)
  obtain f where f: "avahi_dns_packet_get_field p AVAHI_DNS_FIELD_FLAGS = Some f" using fp [of AVAHI_DNS_FIELD_FLAGS] by (auto simp: AVAHI_DNS_FIELD_FLAGS_def)
  have "readable (p\<lparr>p_rindex := AVAHI_DNS_PACKET_HEADER_SIZE\<rparr>)" using assms by (simp add: readable_def)
  from copy_queries_ok [OF this r(2), of "unat n"] obtain p' r' where
    c: "copy_queries_loop (unat n) (p\<lparr>p_rindex := AVAHI_DNS_PACKET_HEADER_SIZE\<rparr>) r = Some (p', r')" "write_ok {} r'" by blast
  obtain r1 where r1: "avahi_dns_packet_set_field r' AVAHI_DNS_FIELD_QDCOUNT n = Some r1" "length (p_data r1) = length (p_data r')"
    using field_ok(2) [OF len [OF c(2)], of AVAHI_DNS_FIELD_QDCOUNT n] by (auto simp: AVAHI_DNS_FIELD_QDCOUNT_def)
  define r2 where "r2 = (if copy_queries then r1 else r)"
  have l2: "AVAHI_DNS_PACKET_HEADER_SIZE \<le> length (p_data r2)" using len [OF r(2)] len [OF c(2)] r1(2) by (simp add: r2_def)
  obtain r3 where r3: "avahi_dns_packet_set_field r2 AVAHI_DNS_FIELD_ID i = Some r3" "AVAHI_DNS_PACKET_HEADER_SIZE \<le> length (p_data r3)"
    using field_ok(2) [OF l2, of AVAHI_DNS_FIELD_ID i] l2 by (auto simp: AVAHI_DNS_FIELD_ID_def)
  obtain g where g: "avahi_dns_packet_get_field r3 AVAHI_DNS_FIELD_FLAGS = Some g"
    using field_ok(1) [OF r3(2), of AVAHI_DNS_FIELD_FLAGS] by (auto simp: AVAHI_DNS_FIELD_FLAGS_def)
  obtain r4 where "avahi_dns_packet_set_field r3 AVAHI_DNS_FIELD_FLAGS ((g AND NOT AVAHI_DNS_FLAG_OPCODE) OR (f AND AVAHI_DNS_FLAG_OPCODE)) = Some r4"
    using field_ok(2) [OF r3(2), of AVAHI_DNS_FIELD_FLAGS "(g AND NOT AVAHI_DNS_FLAG_OPCODE) OR (f AND AVAHI_DNS_FLAG_OPCODE)"] by (auto simp: AVAHI_DNS_FIELD_FLAGS_def)
  then show ?thesis using r(1) n i f c(1) r1(1) r3(1) g
    by (cases copy_queries) (simp_all add: avahi_dns_packet_new_reply_def r2_def)
qed

subsection \<open>Properties\<close>

text \<open>
  C1: what is sent is received. Keys and records that are appended to a fresh query or response are
  either left out or read back in order, up to the limit on their TTL, by a receiver that reads as many
  as were accepted; reading ends at the end of the packet. If the packet has room for all of them
  without name compression, all are accepted.
\<close>

theorem dns_message_roundtrip:
  assumes "fresh p" "list_all sendable_item is"
  shows "\<exists>p' acc. append_items is p = Some (p', acc) \<and>
    (AVAHI_DNS_PACKET_HEADER_SIZE + sum_list (map item_size is) \<le> p_max_size p \<longrightarrow> acc = is) \<and>
    consume_items acc p' = Some (p'\<lparr>p_rindex := p_size p'\<rparr>, Some (map item_as_received acc))"
proof -
  obtain p' acc where a: "append_items is p = Some (p', acc)" "write_ok {} p'" "extends p p'"
    "p_size p + sum_list (map item_size is) \<le> p_max_size p \<longrightarrow> acc = is"
    "gets (mem {} p') (p_size p) (consume_items acc) (map item_as_received acc) (p_size p')"
    using append_items_ok [OF fresh_ok(1) [OF assms(1)] assms(2)] by blast
  have "p_rindex p' = p_size p" "readable p'"
    using a(2,3) fresh_ok(2,3) [OF assms(1)] by (auto simp: extends_def write_ok_def packet_ok_def readable_def)
  with a(5) have "consume_items acc p' = Some (p'\<lparr>p_rindex := p_size p'\<rparr>, Some (map item_as_received acc))"
    by (simp add: gets_def map_le_refl)
  with a(1,4) fresh_ok(2) [OF assms(1)] show ?thesis by simp
qed

definition sample_items :: "item list" where
  "sample_items =
     [Question \<lparr>key_name = str ''x.local'', key_clazz = AVAHI_DNS_CLASS_IN, key_type = AVAHI_DNS_TYPE_SRV\<rparr> True,
      Record (sample_srv 80) True 0,
      Record \<lparr>rr_key = \<lparr>key_name = str ''x.local'', key_clazz = AVAHI_DNS_CLASS_IN, key_type = AVAHI_DNS_TYPE_TXT\<rparr>, rr_ttl = 4500,
        rr_data = Txt [str ''a=1'']\<rparr> True 10]"

lemma sample_items_ok: "list_all sendable_item sample_items" "sum_list (map item_size sample_items) \<le> 100"
  by code_simp+

theorem dns_message_roundtrip_witness:
  "\<exists>p p'. avahi_dns_packet_new_response 1500 True = Some p \<and> append_items sample_items p = Some (p', sample_items) \<and>
    consume_items sample_items p' = Some (p'\<lparr>p_rindex := p_size p'\<rparr>, Some (map item_as_received sample_items))"
proof -
  obtain p where p: "avahi_dns_packet_new_response 1500 True = Some p" "fresh p" "p_max_size p = 1452"
    using new_response_max [of 1500 True] by (auto simp: avahi_dns_packet_new_def AVAHI_DNS_PACKET_EXTRA_SIZE_def AVAHI_DNS_PACKET_HEADER_SIZE_def)
  have "AVAHI_DNS_PACKET_HEADER_SIZE + sum_list (map item_size sample_items) \<le> p_max_size p"
    using sample_items_ok(2) by (simp add: p(3) AVAHI_DNS_PACKET_HEADER_SIZE_def)
  with dns_message_roundtrip [OF p(2) sample_items_ok(1)] p(1) show ?thesis by blast
qed

text \<open>
  C11: appending is all or nothing. After any keys and records have been appended to a fresh packet,
  appending one more returns; it returns NULL only if the packet has no room for it without name
  compression, and then the bytes of the packet, its size and its name table are as before.
\<close>

theorem append_all_or_nothing:
  assumes "fresh p" "list_all sendable_item is" "sendable_item i" "append_items is p = Some (q, acc)"
  shows "\<exists>q' r. append_item i q = Some (q', r) \<and>
    (p_size q + item_size i \<le> p_max_size q \<longrightarrow> r \<noteq> None) \<and>
    (case r of
       None \<Rightarrow> p_size q' = p_size q \<and> take (p_size q) (p_data q') = take (p_size q) (p_data q) \<and> tbl q' = tbl q
     | Some t \<Rightarrow> t = p_size q \<and> p_size q < p_size q' \<and> p_size q' \<le> p_max_size q)"
proof -
  have q: "write_ok {} q" using append_items_ok [OF fresh_ok(1) [OF assms(1)] assms(2)] assms(4) by auto
  obtain q' r where r: "append_item i q = Some (q', r)"
      "p_size q + item_size i \<le> p_max_size q \<longrightarrow> r \<noteq> None \<and> p_size q' \<le> p_size q + item_size i"
      "case r of None \<Rightarrow> same_packet q q'
        | Some t \<Rightarrow> extends q q' \<and> write_ok {} q' \<and> t = p_size q \<and> item_bytes (mem {} q') (p_size q) i (p_size q')"
    using append_item_ok [OF q assms(3)] unfolding appends_or_same_def by auto
  have "p_size q < p_size q'" if "item_bytes (mem {} q') (p_size q) i (p_size q')"
    using that item_bytes_less assms(3) by blast
  then show ?thesis using r by (auto simp: same_packet_def extends_def packet_ok_def split: option.splits)
qed

theorem append_all_or_nothing_witness:
  "\<exists>p q'. avahi_dns_packet_new_response 1500 True = Some p \<and>
    append_item (Record (sample_srv 80) True 0) p = Some (q', Some 12) \<and> p_size q' \<le> 1452"
proof -
  obtain p where p: "avahi_dns_packet_new_response 1500 True = Some p" "fresh p" "p_max_size p = 1452"
    using new_response_max [of 1500 True] by (auto simp: avahi_dns_packet_new_def AVAHI_DNS_PACKET_EXTRA_SIZE_def AVAHI_DNS_PACKET_HEADER_SIZE_def)
  let ?i = "Record (sample_srv 80) True 0"
  have i: "sendable_item ?i" "item_size ?i \<le> 100" using sample_items_ok by (simp_all add: sample_items_def)
  have "p_size p = 12" using fresh_ok(2) [OF p(2)] by (simp add: AVAHI_DNS_PACKET_HEADER_SIZE_def)
  moreover have "append_items [] p = Some (p, [])" "list_all sendable_item []" by simp_all
  from append_all_or_nothing [OF p(2) this(2) i(1) this(1)] obtain q' r where r: "append_item ?i p = Some (q', r)"
    "p_size p + item_size ?i \<le> p_max_size p \<longrightarrow> r \<noteq> None"
    "case r of None \<Rightarrow> True | Some t \<Rightarrow> t = p_size p \<and> p_size p < p_size q' \<and> p_size q' \<le> p_max_size p"
    by (auto split: option.splits)
  ultimately show ?thesis using p i(2) by (cases r) auto
qed

text \<open>
  Strings of more than 65535 bytes in a TXT record stop the process: if the packet has room for them,
  \<open>avahi_dns_packet_append_record\<close> fails its assert on the size of the data.
\<close>

theorem append_record_aborts:
  assumes "fresh p" "wire_name n" "list_all (\<lambda>s. s \<noteq> [] \<and> length s < 256) l"
    and "AVAHI_DNS_RDATA_MAX < snd (avahi_string_list_serialize l None)"
    and "p_size p + name_size n + 10 + snd (avahi_string_list_serialize l None) \<le> p_max_size p"
  shows "avahi_dns_packet_append_record
    \<lparr>rr_key = \<lparr>key_name = n, key_clazz = c, key_type = AVAHI_DNS_TYPE_TXT\<rparr>, rr_ttl = ttl, rr_data = Txt l\<rparr> cf max_ttl p = crash"
  using assms by (rule append_long_txt)

lemma serialized_size_replicate: "serialized_size_loop (replicate n t) = n * serialized_size_loop [t]"
  by (induction n) (auto simp: Let_def)

theorem append_record_aborts_witness:
  "\<exists>p. avahi_dns_packet_new_response 0 True = Some p \<and>
    avahi_dns_packet_append_record
      \<lparr>rr_key = \<lparr>key_name = str ''a'', key_clazz = AVAHI_DNS_CLASS_IN, key_type = AVAHI_DNS_TYPE_TXT\<rparr>, rr_ttl = 4500,
        rr_data = Txt (replicate 256 (replicate 255 97))\<rparr> True 0 p = crash"
proof -
  obtain p where p: "avahi_dns_packet_new_response 0 True = Some p" "fresh p" "p_max_size p = 65813"
    using new_response_max [of 0 True]
    by (auto simp: avahi_dns_packet_new_def AVAHI_DNS_PACKET_SIZE_MAX_def AVAHI_DNS_PACKET_HEADER_SIZE_def)
  have n: "wire_name (str ''a'')" "name_size (str ''a'') = 3" by code_simp+
  have s: "snd (avahi_string_list_serialize (replicate 256 (replicate 255 97)) None) = 65536"
    by (simp add: avahi_string_list_serialize_def serialized_size_replicate Let_def del: replicate.simps)
  show ?thesis using p append_record_aborts [OF p(2) n(1), of "replicate 256 (replicate 255 97)"] fresh_ok(2) [OF p(2)] s n(2)
    by (simp add: AVAHI_DNS_RDATA_MAX_def AVAHI_DNS_PACKET_HEADER_SIZE_def list_all_iff del: replicate.simps)
qed

text \<open>
  The size that \<open>send_response_packet\<close> allocates for a record that did not fit is one byte too small
  for a TXT record whose name needs no escapes: \<open>avahi_record_get_estimate_size\<close> is one byte less than the
  record takes in an empty packet, and so the record is refused there as well.
\<close>

theorem txt_estimate_one_byte_short:
  assumes "sendable r" "rr_data r = Txt l" "key_name (rr_key r) \<noteq> []" "backslash \<notin> set (key_name (rr_key r))"
    and "avahi_record_get_estimate_size r = Some n"
    and "avahi_dns_packet_new_response (n + AVAHI_DNS_PACKET_HEADER_SIZE + AVAHI_DNS_PACKET_EXTRA_SIZE) aa = Some p"
  shows "\<exists>q. avahi_dns_packet_append_record r cf max_ttl p = Some (q, None)"
proof -
  have n: "n + 1 = record_size r" using estimate_short [OF assms(1-4)] assms(5) by simp
  have f: "fresh p" "p_max_size p = n + AVAHI_DNS_PACKET_HEADER_SIZE"
    using assms(6) new_response_max [of "n + AVAHI_DNS_PACKET_HEADER_SIZE + AVAHI_DNS_PACKET_EXTRA_SIZE" aa]
    by (auto simp: avahi_dns_packet_new_def AVAHI_DNS_PACKET_HEADER_SIZE_def Let_def)
  obtain q t where q: "avahi_dns_packet_append_record r cf max_ttl p = Some (q, t)"
    using append_record_ok [OF fresh_ok(1) [OF f(1)] assms(1), of cf max_ttl] by (auto simp: appends_or_same_def)
  have "t = None"
  proof (rule ccontr)
    assume "t \<noteq> None"
    then obtain x where "t = Some x" by blast
    from record_fresh_size [OF fresh_ok(1) [OF f(1)] fresh_tbl [OF f(1)] assms(1,2)] q this
    show False using f n fresh_ok(2) [OF f(1)] by fastforce
  qed
  with q show ?thesis by blast
qed

theorem txt_estimate_one_byte_short_witness:
  "\<exists>n p q. avahi_record_get_estimate_size (plain_txt (str ''a=1'')) = Some n \<and>
    avahi_dns_packet_new_response (n + AVAHI_DNS_PACKET_HEADER_SIZE + AVAHI_DNS_PACKET_EXTRA_SIZE) True = Some p \<and>
    avahi_dns_packet_append_record (plain_txt (str ''a=1'')) True 0 p = Some (q, None)"
proof -
  let ?r = "plain_txt (str ''a=1'')"
  have s: "sendable ?r" "avahi_record_get_estimate_size ?r = Some 16" by code_simp+
  obtain p where p: "avahi_dns_packet_new_response (16 + AVAHI_DNS_PACKET_HEADER_SIZE + AVAHI_DNS_PACKET_EXTRA_SIZE) True = Some p"
    using new_response_max by blast
  have "rr_data ?r = Txt [str ''a=1'']" "key_name (rr_key ?r) = str ''a''" by (simp_all add: plain_txt_def)
  from txt_estimate_one_byte_short [OF s(1) this(1) _ _ s(2) p] this(2) s(2) p show ?thesis by fastforce
qed

text \<open>
  C2: whatever bytes arrive, reading is safe. Reading a record or a key from any packet returns, leaves
  \<open>rindex\<close> inside the packet, and the result is NULL or a valid record or key whose names consist of
  labels that are valid UTF-8; and \<open>avahi_dns_packet_new_reply\<close> returns a reply for any packet that has a header.
\<close>

theorem reading_never_crashes:
  assumes "p_size p \<le> length (p_data p)" "p_rindex p \<le> p_size p" "AVAHI_DNS_PACKET_HEADER_SIZE \<le> p_size p"
  shows "(\<exists>q x. avahi_dns_packet_consume_record p = Some (q, x) \<and> p_rindex p \<le> p_rindex q \<and> p_rindex q \<le> p_size p \<and>
      (case x of None \<Rightarrow> True | Some (r, cache_flush) \<Rightarrow> received r)) \<and>
    (\<exists>q x. avahi_dns_packet_consume_key p = Some (q, x) \<and> p_rindex p \<le> p_rindex q \<and> p_rindex q \<le> p_size p \<and>
      (case x of None \<Rightarrow> True | Some (k, unicast_response) \<Rightarrow> received_key k)) \<and>
    (\<exists>r. avahi_dns_packet_new_reply p mtu copy_queries aa = Some r)"
proof -
  have p: "readable p" using assms by (simp add: readable_def)
  show ?thesis using reads_record [OF p] reads_key [OF p] new_reply_ok [OF p assms(3)] unfolding reads_def moved_def by blast
qed

theorem reading_never_crashes_witness:
  "\<exists>q x. avahi_dns_packet_consume_record \<lparr>p_size = 14, p_rindex = 12, p_max_size = 14, p_res_size = 0, p_names = None,
      p_data = replicate 12 0 @ [0xC0, 12]\<rparr> = Some (q, x) \<and> p_rindex q \<le> 14"
  using reading_never_crashes [of "\<lparr>p_size = 14, p_rindex = 12, p_max_size = 14, p_res_size = 0, p_names = None,
      p_data = replicate 12 0 @ [0xC0, 12]\<rparr>"] by (fastforce simp: AVAHI_DNS_PACKET_HEADER_SIZE_def)

end
