(* ===== verification/Rrlist.thy ===== *)
theory Rrlist
  imports Rr
begin

text \<open>
  Record lists (avahi-core/rrlist.c): the records a response is made of, each in the list \<open>rl_unread\<close>
  until \<open>avahi_record_list_next\<close> hands it out, and in \<open>rl_read\<close> from then on. Items are objects with an
  identity, a number; \<open>rl_heap\<close> gives their fields, and reading a freed item is a crash. The flags are
  only tested for zero by their users, and are truth values here.
\<close>

record rl_item =
  item_read :: bool
  item_record :: rr
  item_unicast_response :: bool
  item_flush_cache :: bool
  item_auxiliary :: bool

record record_list =
  rl_read :: "nat list"
  rl_unread :: "nat list"
  rl_all_flush_cache :: bool
  rl_heap :: "nat \<Rightarrow> rl_item option"
  rl_next :: nat

subsection \<open>The operations\<close>

definition avahi_record_list_new :: record_list where
  "avahi_record_list_new =
     \<lparr>rl_read = [], rl_unread = [], rl_all_flush_cache = True, rl_heap = (\<lambda>_. None), rl_next = 0\<rparr>"

definition item_free :: "record_list \<Rightarrow> nat \<Rightarrow> record_list outcome" where
  "item_free l i = do {
     x \<leftarrow> rl_heap l i;
     l \<leftarrow> (if item_read x then do {
            assert_that (i \<in> set (rl_read l));
            Some (l\<lparr>rl_read := remove1 i (rl_read l)\<rparr>)
          } else do {
            assert_that (i \<in> set (rl_unread l));
            Some (l\<lparr>rl_unread := remove1 i (rl_unread l)\<rparr>)
          });
     Some (l\<lparr>rl_heap := (rl_heap l)(i := None)\<rparr>)
   }"

text \<open>The two loops of \<open>avahi_record_list_flush\<close>; every round removes an item from one of the lists.\<close>

lemma length_remove1_less: "x \<in> set xs \<Longrightarrow> length (remove1 x xs) < length xs"
  by (induction xs) auto

lemma item_free_shrinks:
  "item_free l i = Some l' \<Longrightarrow> length (rl_read l') + length (rl_unread l') < length (rl_read l) + length (rl_unread l)"
  by (cases "rl_heap l i")
    (auto simp: item_free_def Option.bind_eq_Some_conv length_remove1_less split: if_splits)

function flush_read :: "record_list \<Rightarrow> record_list outcome" where
  "flush_read l = (case rl_read l of [] \<Rightarrow> Some l | i # _ \<Rightarrow> do { l \<leftarrow> item_free l i; flush_read l })"
  by pat_completeness auto
termination
  by (relation "measure (\<lambda>l. length (rl_read l) + length (rl_unread l))") (auto dest: item_free_shrinks)

function flush_unread :: "record_list \<Rightarrow> record_list outcome" where
  "flush_unread l = (case rl_unread l of [] \<Rightarrow> Some l | i # _ \<Rightarrow> do { l \<leftarrow> item_free l i; flush_unread l })"
  by pat_completeness auto
termination
  by (relation "measure (\<lambda>l. length (rl_read l) + length (rl_unread l))") (auto dest: item_free_shrinks)

declare flush_read.simps [simp del] flush_unread.simps [simp del]

definition avahi_record_list_flush :: "record_list \<Rightarrow> record_list outcome" where
  "avahi_record_list_flush l = do {
     l \<leftarrow> flush_read l;
     l \<leftarrow> flush_unread l;
     Some (l\<lparr>rl_all_flush_cache := True\<rparr>)
   }"

definition avahi_record_list_free :: "record_list \<Rightarrow> record_list outcome" where
  "avahi_record_list_free l = avahi_record_list_flush l"

text \<open>NULL, or the record with its flags: flush cache, unicast response, auxiliary.\<close>

definition avahi_record_list_next :: "record_list \<Rightarrow> (record_list \<times> (rr \<times> bool \<times> bool \<times> bool) option) outcome" where
  "avahi_record_list_next l =
     (case rl_unread l of
        [] \<Rightarrow> Some (l, None)
      | i # _ \<Rightarrow> do {
          x \<leftarrow> rl_heap l i;
          assert_that (\<not> item_read x);
          let l = l\<lparr>rl_unread := remove1 i (rl_unread l), rl_read := i # rl_read l\<rparr>;
          let l = l\<lparr>rl_heap := (rl_heap l)(i \<mapsto> x\<lparr>item_read := True\<rparr>)\<rparr>;
          Some (l, Some (item_record x, item_flush_cache x, item_unicast_response x, item_auxiliary x))
        })"

definition rl_record :: "record_list \<Rightarrow> nat \<Rightarrow> rr option" where
  "rl_record l i = map_option item_record (rl_heap l i)"

definition record_list_get :: "record_list \<Rightarrow> rr \<Rightarrow> nat option outcome" where
  "record_list_get l r = do {
     i \<leftarrow> find_record r (rl_record l) (rl_read l);
     (case i of
        Some i \<Rightarrow> Some (Some i)
      | None \<Rightarrow> find_record r (rl_record l) (rl_unread l))
   }"

definition avahi_record_list_push :: "record_list \<Rightarrow> rr \<Rightarrow> bool \<Rightarrow> bool \<Rightarrow> bool \<Rightarrow> record_list outcome" where
  "avahi_record_list_push l r flush_cache unicast_response auxiliary = do {
     i \<leftarrow> record_list_get l r;
     (case i of
        Some _ \<Rightarrow> Some l
      | None \<Rightarrow>
          (let i = rl_next l;
               x = \<lparr>item_read = False, item_record = r, item_unicast_response = unicast_response,
                    item_flush_cache = flush_cache, item_auxiliary = auxiliary\<rparr>;
               l = l\<lparr>rl_next := i + 1, rl_heap := (rl_heap l)(i \<mapsto> x)\<rparr>;
               l = l\<lparr>rl_all_flush_cache := rl_all_flush_cache l \<and> flush_cache\<rparr>
           in Some (l\<lparr>rl_unread := i # rl_unread l\<rparr>)))
   }"

definition avahi_record_list_drop :: "record_list \<Rightarrow> rr \<Rightarrow> record_list outcome" where
  "avahi_record_list_drop l r = do {
     i \<leftarrow> record_list_get l r;
     (case i of None \<Rightarrow> Some l | Some i \<Rightarrow> item_free l i)
   }"

definition avahi_record_list_is_empty :: "record_list \<Rightarrow> bool" where
  "avahi_record_list_is_empty l \<longleftrightarrow> rl_unread l = [] \<and> rl_read l = []"

definition avahi_record_list_all_flush_cache :: "record_list \<Rightarrow> bool" where
  "avahi_record_list_all_flush_cache l = rl_all_flush_cache l"

subsection \<open>The invariant\<close>

text \<open>
  The two lists are disjoint and hold the items of the heap, each in the list its flag says; no two of
  them hold equal records; and when \<open>rl_all_flush_cache\<close> is set, every item has the flag.
\<close>

definition rl_items :: "record_list \<Rightarrow> nat list" where
  "rl_items l = rl_read l @ rl_unread l"

definition rl_inv :: "record_list \<Rightarrow> bool" where
  "rl_inv l \<longleftrightarrow> distinct (rl_items l) \<and>
     (\<forall>i. i \<in> set (rl_items l) \<longleftrightarrow> rl_heap l i \<noteq> None) \<and>
     (\<forall>i x. rl_heap l i = Some x \<longrightarrow> i < rl_next l \<and> rr_readable (item_record x) \<and>
        item_read x = (i \<in> set (rl_read l)) \<and> (rl_all_flush_cache l \<longrightarrow> item_flush_cache x)) \<and>
     (\<forall>i j x y. rl_heap l i = Some x \<and> rl_heap l j = Some y \<and>
        rr_canon (item_record x) = rr_canon (item_record y) \<longrightarrow> i = j)"

lemma rl_invD:
  assumes "rl_inv l"
  shows "distinct (rl_items l)" "i \<in> set (rl_items l) \<longleftrightarrow> rl_heap l i \<noteq> None"
    "rl_heap l i = Some x \<Longrightarrow> i < rl_next l" "rl_heap l i = Some x \<Longrightarrow> rr_readable (item_record x)"
    "rl_heap l i = Some x \<Longrightarrow> item_read x = (i \<in> set (rl_read l))"
    "rl_heap l i = Some x \<Longrightarrow> rl_all_flush_cache l \<Longrightarrow> item_flush_cache x"
    "rl_heap l i = Some x \<Longrightarrow> rl_heap l j = Some y \<Longrightarrow> rr_canon (item_record x) = rr_canon (item_record y) \<Longrightarrow> i = j"
  using assms unfolding rl_inv_def by blast+

lemma rl_inv_new: "rl_inv avahi_record_list_new"
  by (simp add: rl_inv_def rl_items_def avahi_record_list_new_def)

lemma record_list_get_eq:
  assumes "rl_inv l" "rr_readable r"
  shows "record_list_get l r = Some (find (\<lambda>i. rr_canon (the (rl_record l i)) = rr_canon r) (rl_items l))"
proof -
  have "\<exists>r'. rl_record l i = Some r' \<and> rr_readable r'" if "i \<in> set (rl_items l)" for i
    using rl_invD(2,4) [OF assms(1), of i] that by (auto simp: rl_record_def)
  then have "find_record r (rl_record l) xs = Some (find (\<lambda>i. rr_canon (the (rl_record l i)) = rr_canon r) xs)"
    if "set xs \<subseteq> set (rl_items l)" for xs
    using that by (intro find_record_eq assms(2)) blast
  moreover have "find P (xs @ ys) = (case find P xs of Some i \<Rightarrow> Some i | None \<Rightarrow> find P ys)" for P and xs ys :: "nat list"
    by (induction xs) auto
  ultimately show ?thesis
    by (simp add: record_list_get_def rl_items_def split: option.split)
qed

lemma item_free_inv:
  assumes "rl_inv l" "i \<in> set (rl_items l)"
  shows "\<exists>l'. item_free l i = Some l' \<and> rl_inv l' \<and> rl_read l' = remove1 i (rl_read l) \<and>
    rl_unread l' = remove1 i (rl_unread l) \<and> rl_heap l' = (rl_heap l)(i := None) \<and>
    rl_all_flush_cache l' = rl_all_flush_cache l"
proof -
  note d = rl_invD [OF assms(1)]
  from d(2) assms(2) obtain x where x: "rl_heap l i = Some x" by blast
  define l' where "l' = l\<lparr>rl_read := remove1 i (rl_read l), rl_unread := remove1 i (rl_unread l), rl_heap := (rl_heap l)(i := None)\<rparr>"
  have "i \<notin> set (rl_unread l)" if "i \<in> set (rl_read l)" using d(1) that by (auto simp: rl_items_def)
  then have f: "item_free l i = Some l'"
    using d(5) [OF x] x assms(2) by (auto simp: item_free_def l'_def rl_items_def remove1_idem)
  have it: "distinct (rl_read l)" "distinct (rl_unread l)" "set (rl_read l) \<inter> set (rl_unread l) = {}"
    using d(1) by (auto simp: rl_items_def)
  have s: "set (rl_items l') = set (rl_items l) - {i}" "set (rl_read l') = set (rl_read l) - {i}" "distinct (rl_items l')"
    using it by (auto simp: l'_def rl_items_def)
  have h: "rl_heap l' j = Some y \<longleftrightarrow> j \<noteq> i \<and> rl_heap l j = Some y" for j y by (simp add: l'_def)
  have "rl_inv l'"
    unfolding rl_inv_def s h using d s(3)
    by (intro conjI allI impI) (auto simp: l'_def)
  then show ?thesis using f by (simp add: l'_def)
qed

lemma push_new_inv:
  assumes "rl_inv l" "rr_readable r" "\<And>i x. rl_heap l i = Some x \<Longrightarrow> rr_canon (item_record x) \<noteq> rr_canon r" "\<not> item_read x"
    "item_record x = r" "f \<longrightarrow> rl_all_flush_cache l \<and> item_flush_cache x"
  shows "rl_inv (l\<lparr>rl_unread := rl_next l # rl_unread l, rl_next := rl_next l + 1, rl_heap := (rl_heap l)(rl_next l \<mapsto> x),
    rl_all_flush_cache := f\<rparr>)" (is "rl_inv ?l")
proof -
  note d = rl_invD [OF assms(1)]
  have n: "rl_next l \<notin> set (rl_items l)" "rl_heap l (rl_next l) = None"
    using d(2,3) [of "rl_next l"] by auto
  have s: "set (rl_items ?l) = insert (rl_next l) (set (rl_items l))" "distinct (rl_items ?l)"
    using d(1) n(1) by (auto simp: rl_items_def)
  have h: "rl_heap ?l j = (if j = rl_next l then Some x else rl_heap l j)" for j by simp
  show ?thesis
    unfolding rl_inv_def s(1) h
  proof (intro conjI allI impI, goal_cases)
    case 1
    show ?case by (rule s(2))
  next
    case (2 i)
    then show ?case using d(2) [of i] by simp
  next
    case (3 i y)
    then show ?case using d(3) [of i y] by (auto split: if_splits)
  next
    case (4 i y)
    then show ?case using d(4) [of i y] assms(2,5) by (auto split: if_splits)
  next
    case (5 i y)
    then show ?case using d(5) [of i y] n(1) assms(4) by (auto simp: rl_items_def split: if_splits)
  next
    case (6 i y)
    then show ?case using d(6) [of i y] assms(6) by (auto split: if_splits)
  next
    case (7 i j y z)
    then show ?case using d(7) [of i y j z] assms(3,5) by (metis option.inject)
  qed
qed

subsection \<open>The list as a pair of sequences\<close>

text \<open>
  The specification: what was read and what was not, the newest first, each record with its flags
  (flush cache, unicast response, auxiliary), and the conjunction of the flush cache flags of every
  record that entered since the last flush.
\<close>

type_synonym rl_state = "(rr \<times> bool \<times> bool \<times> bool) list \<times> (rr \<times> bool \<times> bool \<times> bool) list \<times> bool"

definition rl_entry :: "record_list \<Rightarrow> nat \<Rightarrow> rr \<times> bool \<times> bool \<times> bool" where
  "rl_entry l i = (let x = the (rl_heap l i) in
     (item_record x, item_flush_cache x, item_unicast_response x, item_auxiliary x))"

definition rl_state :: "record_list \<Rightarrow> rl_state" where
  "rl_state l = (map (rl_entry l) (rl_read l), map (rl_entry l) (rl_unread l), rl_all_flush_cache l)"

datatype rl_op = Rl_push rr bool bool bool | Rl_next | Rl_drop rr | Rl_flush

fun rl_exec :: "record_list \<Rightarrow> rl_op \<Rightarrow> record_list outcome" where
  "rl_exec l (Rl_push r f u a) = avahi_record_list_push l r f u a"
| "rl_exec l Rl_next = map_option fst (avahi_record_list_next l)"
| "rl_exec l (Rl_drop r) = avahi_record_list_drop l r"
| "rl_exec l Rl_flush = avahi_record_list_flush l"

fun rl_run :: "record_list \<Rightarrow> rl_op list \<Rightarrow> record_list outcome" where
  "rl_run l [] = Some l"
| "rl_run l (a # as) = do { l \<leftarrow> rl_exec l a; rl_run l as }"

fun rl_op_readable :: "rl_op \<Rightarrow> bool" where
  "rl_op_readable (Rl_push r f u a) = rr_readable r"
| "rl_op_readable Rl_next = True"
| "rl_op_readable (Rl_drop r) = rr_readable r"
| "rl_op_readable Rl_flush = True"

definition same_record :: "rr \<Rightarrow> rr \<times> bool \<times> bool \<times> bool \<Rightarrow> bool" where
  "same_record r e \<longleftrightarrow> rr_canon (fst e) = rr_canon r"

fun rl_spec :: "rl_state \<Rightarrow> rl_op \<Rightarrow> rl_state" where
  "rl_spec (rd, un, all) (Rl_push r f u a) =
     (if list_ex (same_record r) (rd @ un) then (rd, un, all) else (rd, (r, f, u, a) # un, all \<and> f))"
| "rl_spec (rd, un, all) Rl_next = (case un of [] \<Rightarrow> (rd, [], all) | e # un \<Rightarrow> (e # rd, un, all))"
| "rl_spec (rd, un, all) (Rl_drop r) =
     (filter (\<lambda>e. \<not> same_record r e) rd, filter (\<lambda>e. \<not> same_record r e) un, all)"
| "rl_spec (rd, un, all) Rl_flush = ([], [], True)"

lemma rl_entry_record: "rl_heap l i = Some x \<Longrightarrow> same_record r (rl_entry l i) \<longleftrightarrow> rr_canon (item_record x) = rr_canon r"
  by (simp add: same_record_def rl_entry_def Let_def)

lemma rl_state_new: "rl_state avahi_record_list_new = ([], [], True)"
  by (simp add: rl_state_def avahi_record_list_new_def)

lemma rl_find_entry:
  assumes "rl_inv l"
  shows "find (\<lambda>i. rr_canon (the (rl_record l i)) = rr_canon r) (rl_items l) = find (\<lambda>i. same_record r (rl_entry l i)) (rl_items l)"
proof (rule find_cong [OF refl])
  fix i
  assume "i \<in> set (rl_items l)"
  then obtain x where "rl_heap l i = Some x" using rl_invD(2) [OF assms] by auto
  then show "(rr_canon (the (rl_record l i)) = rr_canon r) = same_record r (rl_entry l i)"
    by (simp add: rl_entry_record rl_record_def)
qed

lemma rl_get_cases:
  assumes "rl_inv l" "rr_readable r"
  obtains (absent) "record_list_get l r = Some None" "\<And>i. i \<in> set (rl_items l) \<Longrightarrow> \<not> same_record r (rl_entry l i)"
  | (present) i where "record_list_get l r = Some (Some i)" "i \<in> set (rl_items l)"
    "\<And>j. j \<in> set (rl_items l) \<Longrightarrow> same_record r (rl_entry l j) \<longleftrightarrow> j = i"
proof -
  have g: "record_list_get l r = Some (find (\<lambda>i. same_record r (rl_entry l i)) (rl_items l))"
    unfolding record_list_get_eq [OF assms] rl_find_entry [OF assms(1)] by (rule refl)
  show thesis
  proof (cases "find (\<lambda>i. same_record r (rl_entry l i)) (rl_items l)")
    case None
    with g absent show thesis by (simp add: find_None_iff)
  next
    case (Some i)
    then have i: "i \<in> set (rl_items l)" "same_record r (rl_entry l i)" by (auto simp: find_Some_iff)
    have u: "j = i" if j: "j \<in> set (rl_items l)" "same_record r (rl_entry l j)" for j
    proof -
      obtain x y where h: "rl_heap l i = Some x" "rl_heap l j = Some y"
        using rl_invD(2) [OF assms(1)] i(1) j(1) by (metis option.exhaust)
      then show ?thesis using rl_invD(7) [OF assms(1) h] i(2) j(2) by (simp add: rl_entry_record)
    qed
    show thesis
    proof (rule present)
      show "record_list_get l r = Some (Some i)" using g Some by simp
      show "same_record r (rl_entry l j) \<longleftrightarrow> j = i" if "j \<in> set (rl_items l)" for j using u [OF that] i(2) by blast
    qed (rule i(1))
  qed
qed

lemma filter_remove1:
  "distinct xs \<Longrightarrow> (\<And>x. x \<in> set xs \<Longrightarrow> P x \<longleftrightarrow> x = i) \<Longrightarrow> filter (\<lambda>x. \<not> P x) xs = remove1 i xs"
proof -
  assume "distinct xs" "\<And>x. x \<in> set xs \<Longrightarrow> P x \<longleftrightarrow> x = i"
  then have "filter (\<lambda>x. \<not> P x) xs = filter ((\<noteq>) i) xs" by (intro filter_cong) auto
  with \<open>distinct xs\<close> show ?thesis by (simp add: distinct_remove1_removeAll removeAll_filter_not_eq)
qed

lemma rl_push_ok:
  assumes "rl_inv l" "rr_readable r"
  shows "\<exists>l'. avahi_record_list_push l r f u a = Some l' \<and> rl_inv l' \<and> rl_state l' = rl_spec (rl_state l) (Rl_push r f u a)"
  using assms
proof (cases rule: rl_get_cases)
  case absent
  define x where "x = \<lparr>item_read = False, item_record = r, item_unicast_response = u, item_flush_cache = f, item_auxiliary = a\<rparr>"
  note d = rl_invD [OF assms(1)]
  have n: "rl_next l \<notin> set (rl_items l)" using d(2,3) [of "rl_next l"] by auto
  let ?l = "l\<lparr>rl_unread := rl_next l # rl_unread l, rl_next := rl_next l + 1, rl_heap := (rl_heap l)(rl_next l \<mapsto> x),
    rl_all_flush_cache := rl_all_flush_cache l \<and> f\<rparr>"
  have "rr_canon (item_record y) \<noteq> rr_canon r" if "rl_heap l i = Some y" for i y
    using absent(2) [of i] d(2) [of i] rl_entry_record [OF that] that by simp
  from push_new_inv [OF assms this, of _ x "rl_all_flush_cache l \<and> f"] have "rl_inv ?l" by (simp add: x_def)
  moreover have "map (rl_entry ?l) xs = map (rl_entry l) xs" if "set xs \<subseteq> set (rl_items l)" for xs
    using that n by (auto simp: rl_entry_def)
  then have "rl_state ?l = rl_spec (rl_state l) (Rl_push r f u a)"
    using absent(2) by (auto simp: rl_state_def rl_items_def list_ex_iff) (simp add: rl_entry_def x_def)
  moreover have "avahi_record_list_push l r f u a = Some ?l"
    by (simp add: avahi_record_list_push_def absent(1) Let_def x_def)
  ultimately show ?thesis by blast
next
  case (present i)
  then have "list_ex (same_record r) (map (rl_entry l) (rl_read l) @ map (rl_entry l) (rl_unread l))"
    by (auto simp: list_ex_iff rl_items_def)
  with present(1) assms(1) show ?thesis by (simp add: avahi_record_list_push_def rl_state_def)
qed

lemma rl_drop_ok:
  assumes "rl_inv l" "rr_readable r"
  shows "\<exists>l'. avahi_record_list_drop l r = Some l' \<and> rl_inv l' \<and> rl_state l' = rl_spec (rl_state l) (Rl_drop r)"
  using assms
proof (cases rule: rl_get_cases)
  case absent
  then have "filter (\<lambda>i. \<not> same_record r (rl_entry l i)) xs = xs" if "set xs \<subseteq> set (rl_items l)" for xs
    using that by (auto simp: filter_id_conv)
  with absent(1) assms(1) show ?thesis
    by (simp add: avahi_record_list_drop_def rl_state_def filter_map comp_def rl_items_def)
next
  case (present i)
  from item_free_inv [OF assms(1) present(2)] obtain l' where
    l': "item_free l i = Some l'" "rl_inv l'" "rl_read l' = remove1 i (rl_read l)" "rl_unread l' = remove1 i (rl_unread l)"
      "rl_heap l' = (rl_heap l)(i := None)" "rl_all_flush_cache l' = rl_all_flush_cache l" by blast
  have it: "distinct (rl_read l)" "distinct (rl_unread l)" using rl_invD(1) [OF assms(1)] by (auto simp: rl_items_def)
  have m: "map (rl_entry l') (remove1 i xs) = filter (\<lambda>e. \<not> same_record r e) (map (rl_entry l) xs)"
    if "distinct xs" "set xs \<subseteq> set (rl_items l)" for xs
  proof -
    have "filter (\<lambda>j. \<not> same_record r (rl_entry l j)) xs = remove1 i xs"
      using that present(3) by (intro filter_remove1) blast+
    moreover have "map (rl_entry l') (remove1 i xs) = map (rl_entry l) (remove1 i xs)"
      using that(1) by (auto simp: rl_entry_def l'(5))
    ultimately show ?thesis by (simp add: filter_map comp_def)
  qed
  from l' present(1) m [OF it(1)] m [OF it(2)] show ?thesis
    by (simp add: avahi_record_list_drop_def rl_state_def rl_items_def)
qed

lemma rl_next_ok:
  assumes "rl_inv l"
  shows "\<exists>l' e. avahi_record_list_next l = Some (l', e) \<and> rl_inv l' \<and> rl_state l' = rl_spec (rl_state l) Rl_next \<and>
    e = (case fst (snd (rl_state l)) of [] \<Rightarrow> None | e # _ \<Rightarrow> Some e)"
proof (cases "rl_unread l")
  case Nil
  with assms show ?thesis by (simp add: avahi_record_list_next_def rl_state_def)
next
  case (Cons i un)
  note d = rl_invD [OF assms]
  have it: "i \<in> set (rl_items l)" "i \<notin> set (rl_read l)" "i \<notin> set un"
    using d(1) Cons by (auto simp: rl_items_def)
  obtain x where x: "rl_heap l i = Some x" using d(2) it(1) by blast
  define l' where "l' = l\<lparr>rl_unread := un, rl_read := i # rl_read l, rl_heap := (rl_heap l)(i \<mapsto> x\<lparr>item_read := True\<rparr>)\<rparr>"
  have h: "rl_heap l' j = (if j = i then Some (x\<lparr>item_read := True\<rparr>) else rl_heap l j)" for j by (simp add: l'_def)
  have s: "set (rl_items l') = set (rl_items l)" "distinct (rl_items l')" "rl_next l' = rl_next l"
    "rl_all_flush_cache l' = rl_all_flush_cache l" "rl_read l' = i # rl_read l" "rl_unread l' = un"
    using d(1) Cons by (auto simp: rl_items_def l'_def)
  have "rl_inv l'"
    unfolding rl_inv_def s(1,3-5) h
  proof (intro conjI allI impI, goal_cases)
    case 1
    show ?case by (rule s(2))
  next
    case (2 j)
    then show ?case using d(2) [of j] it(1) x by (auto simp: rl_items_def)
  next
    case (3 j y)
    then show ?case using d(3) [of j] x by (auto split: if_splits)
  next
    case (4 j y)
    then show ?case using d(4) [of j] x by (auto split: if_splits)
  next
    case (5 j y)
    then show ?case using d(5) [of j] by (auto split: if_splits)
  next
    case (6 j y)
    then show ?case using d(6) [of j] x by (auto split: if_splits)
  next
    case (7 j k y z)
    then show ?case
      using d(7) [of j "if j = i then x else y" k "if k = i then x else z"] x by (auto split: if_splits)
  qed
  moreover have "avahi_record_list_next l = Some (l', Some (rl_entry l i))"
    using d(5) [OF x] it(2) Cons x by (simp add: avahi_record_list_next_def l'_def rl_entry_def Let_def)
  moreover have "rl_entry l' j = rl_entry l j" for j using x by (simp add: rl_entry_def h)
  then have "rl_state l' = rl_spec (rl_state l) Rl_next"
    using Cons by (simp add: rl_state_def s)
  ultimately show ?thesis using Cons by (auto simp: rl_state_def)
qed

lemma flush_read_ok:
  "rl_inv l \<Longrightarrow> \<exists>l'. flush_read l = Some l' \<and> rl_inv l' \<and> rl_read l' = [] \<and> (rl_unread l = [] \<longrightarrow> rl_unread l' = [])"
proof (induction "length (rl_read l)" arbitrary: l)
  case 0
  then show ?case by (subst flush_read.simps) simp
next
  case (Suc n)
  then obtain i rd where r: "rl_read l = i # rd" by (cases "rl_read l") auto
  then have "i \<in> set (rl_items l)" by (simp add: rl_items_def)
  from item_free_inv [OF Suc.prems this] obtain l1 where
    l1: "item_free l i = Some l1" "rl_inv l1" "rl_read l1 = rd" "rl_unread l1 = remove1 i (rl_unread l)" using r by auto
  with Suc.hyps(1) [of l1] Suc.hyps(2) r show ?case by (subst flush_read.simps) auto
qed

lemma flush_unread_ok:
  "rl_inv l \<Longrightarrow> rl_read l = [] \<Longrightarrow> \<exists>l'. flush_unread l = Some l' \<and> rl_inv l' \<and> rl_read l' = [] \<and> rl_unread l' = []"
proof (induction "length (rl_unread l)" arbitrary: l)
  case 0
  then show ?case by (subst flush_unread.simps) simp
next
  case (Suc n)
  then obtain i un where r: "rl_unread l = i # un" by (cases "rl_unread l") auto
  then have "i \<in> set (rl_items l)" by (simp add: rl_items_def)
  from item_free_inv [OF Suc.prems(1) this] obtain l1 where
    l1: "item_free l i = Some l1" "rl_inv l1" "rl_read l1 = []" "rl_unread l1 = un" using r Suc.prems(2) by auto
  with Suc.hyps(1) [of l1] Suc.hyps(2) r show ?case by (subst flush_unread.simps) auto
qed

lemma rl_flush_ok:
  assumes "rl_inv l"
  shows "\<exists>l'. avahi_record_list_flush l = Some l' \<and> rl_inv l' \<and> rl_state l' = ([], [], True) \<and> rl_heap l' = (\<lambda>_. None)"
proof -
  from flush_read_ok [OF assms] obtain l1 where l1: "flush_read l = Some l1" "rl_inv l1" "rl_read l1 = []" by blast
  from flush_unread_ok [OF this(2,3)] obtain l2 where
    l2: "flush_unread l1 = Some l2" "rl_inv l2" "rl_read l2 = []" "rl_unread l2 = []" by blast
  have "rl_heap l2 i = None" for i using rl_invD(2) [OF l2(2), of i] l2(3,4) by (simp add: rl_items_def)
  then have "rl_heap l2 = (\<lambda>_. None)" by blast
  moreover from this have "rl_inv (l2\<lparr>rl_all_flush_cache := True\<rparr>)"
    using l2(3,4) by (simp add: rl_inv_def rl_items_def)
  ultimately show ?thesis using l1(1) l2 by (simp add: avahi_record_list_flush_def rl_state_def)
qed

lemma rl_exec_ok:
  "rl_inv l \<Longrightarrow> rl_op_readable a \<Longrightarrow> \<exists>l'. rl_exec l a = Some l' \<and> rl_inv l' \<and> rl_state l' = rl_spec (rl_state l) a"
proof (cases a)
  case (Rl_push r f u aux)
  assume "rl_inv l" "rl_op_readable a"
  with rl_push_ok [of l r f u aux] Rl_push show ?thesis by simp
next
  case Rl_next
  assume "rl_inv l"
  from rl_next_ok [OF this] obtain l' e where "avahi_record_list_next l = Some (l', e)" "rl_inv l'"
    "rl_state l' = rl_spec (rl_state l) Rl_next" by blast
  with Rl_next show ?thesis by simp
next
  case (Rl_drop r)
  assume "rl_inv l" "rl_op_readable a"
  with rl_drop_ok [of l r] Rl_drop show ?thesis by simp
next
  case Rl_flush
  assume "rl_inv l"
  from rl_flush_ok [OF this] obtain l' where "avahi_record_list_flush l = Some l'" "rl_inv l'"
    "rl_state l' = ([], [], True)" by blast
  with Rl_flush show ?thesis by (cases "rl_state l") simp
qed

lemma rl_run_ok:
  "rl_inv l \<Longrightarrow> list_all rl_op_readable as \<Longrightarrow>
   \<exists>l'. rl_run l as = Some l' \<and> rl_inv l' \<and> rl_state l' = foldl rl_spec (rl_state l) as"
proof (induction as arbitrary: l)
  case (Cons a as)
  then obtain l1 where l1: "rl_exec l a = Some l1" "rl_inv l1" "rl_state l1 = rl_spec (rl_state l) a"
    using rl_exec_ok [of l a] by auto
  from Cons.IH [OF l1(2)] Cons.prems(2) l1(1,3) show ?case by simp
qed simp

subsection \<open>Properties\<close>

text \<open>
  C32: a record list is what its users take it for. After any sequence of pushes, nexts, drops and
  flushes of readable records, none of which crashes, the list holds exactly what the specification
  says: a record enters once, whatever equal ones are pushed later, is handed out by the nexts newest
  first, once, with the flags of the first push, and is gone after a drop; \<open>is_empty\<close> says whether
  there is a record left, read or not, and freeing the list frees every item.
\<close>

theorem record_list_refines_sequences:
  assumes "list_all rl_op_readable as"
  shows "\<exists>l. rl_run avahi_record_list_new as = Some l \<and>
    (case foldl rl_spec ([], [], True) as of (rd, un, all) \<Rightarrow>
       rl_state l = (rd, un, all) \<and> (avahi_record_list_is_empty l \<longleftrightarrow> rd @ un = []) \<and>
       map_option snd (avahi_record_list_next l) = Some (case un of [] \<Rightarrow> None | e # _ \<Rightarrow> Some e) \<and>
       distinct (map (rr_canon \<circ> fst) (rd @ un))) \<and>
    map_option rl_heap (avahi_record_list_free l) = Some (\<lambda>_. None)"
proof -
  from rl_state_new rl_run_ok [OF rl_inv_new assms] obtain l where
    l: "rl_run avahi_record_list_new as = Some l" "rl_inv l" "rl_state l = foldl rl_spec ([], [], True) as" by auto
  have "distinct (map (rr_canon \<circ> fst \<circ> rl_entry l) (rl_items l))"
  proof (subst distinct_map, intro conjI inj_onI)
    show "distinct (rl_items l)" by (rule rl_invD(1) [OF l(2)])
    fix i j
    assume ij: "i \<in> set (rl_items l)" "j \<in> set (rl_items l)"
      "(rr_canon \<circ> fst \<circ> rl_entry l) i = (rr_canon \<circ> fst \<circ> rl_entry l) j"
    then obtain x y where "rl_heap l i = Some x" "rl_heap l j = Some y" using rl_invD(2) [OF l(2)] by blast
    with ij(3) rl_invD(7) [OF l(2)] show "i = j" by (simp add: rl_entry_def Let_def)
  qed
  then have "distinct (map (rr_canon \<circ> fst) (map (rl_entry l) (rl_read l) @ map (rl_entry l) (rl_unread l)))"
    by (simp only: rl_items_def map_append list.map_comp)
  moreover obtain l' where "avahi_record_list_next l = Some (l', case map (rl_entry l) (rl_unread l) of [] \<Rightarrow> None | e # _ \<Rightarrow> Some e)"
    using rl_next_ok [OF l(2)] by (auto simp: rl_state_def)
  moreover obtain l'' where "avahi_record_list_flush l = Some l''" "rl_heap l'' = (\<lambda>_. None)"
    using rl_flush_ok [OF l(2)] by blast
  moreover have "foldl rl_spec ([], [], True) as = (map (rl_entry l) (rl_read l), map (rl_entry l) (rl_unread l), rl_all_flush_cache l)"
    using l(3) by (simp add: rl_state_def)
  ultimately show ?thesis using l(1)
    by (simp only: rl_state_def avahi_record_list_is_empty_def avahi_record_list_free_def prod.case option.map) auto
qed

definition srv_op :: "u16 \<Rightarrow> bool \<Rightarrow> rl_op" where
  "srv_op port f = Rl_push (sample_srv port) f False False"

lemma sample_srv_same: "same_record (sample_srv p) (sample_srv q, e) \<longleftrightarrow> p = q"
  by (auto simp: same_record_def rr_canon_def sample_srv_def data_canon_def)

theorem record_list_refines_sequences_witness:
  "\<exists>l. rl_run avahi_record_list_new [srv_op 1 True, srv_op 2 True, srv_op 1 False, Rl_next, Rl_drop (sample_srv 2)] = Some l \<and>
    rl_state l = ([], [(sample_srv 1, True, False, False)], True)"
proof -
  have "list_all rl_op_readable [srv_op 1 True, srv_op 2 True, srv_op 1 False, Rl_next, Rl_drop (sample_srv 2)]"
    by (simp add: srv_op_def sample_srv_readable)
  from record_list_refines_sequences [OF this] show ?thesis
    by (auto simp: srv_op_def sample_srv_same)
qed

text \<open>
  \<open>avahi_record_list_all_flush_cache\<close> answers a question about the past. When it says yes, every
  record in the list has the flush cache flag; but a record without the flag that was dropped is still
  counted, even when the list is empty again, until the next flush.
\<close>

theorem all_flush_cache_one_sided:
  assumes "list_all rl_op_readable as"
  shows "(case rl_run avahi_record_list_new as of
       None \<Rightarrow> False
     | Some l \<Rightarrow> (case rl_state l of (rd, un, all) \<Rightarrow>
         (if avahi_record_list_all_flush_cache l then list_all (\<lambda>(_, f, _). f) (rd @ un) else True))) \<and>
    (\<exists>l. rl_run avahi_record_list_new [srv_op 1 False, Rl_drop (sample_srv 1)] = Some l \<and>
       avahi_record_list_is_empty l \<and> \<not> avahi_record_list_all_flush_cache l)"
proof -
  from rl_run_ok [OF rl_inv_new assms] obtain l where l: "rl_run avahi_record_list_new as = Some l" "rl_inv l" by blast
  have "item_flush_cache (the (rl_heap l i))" if "i \<in> set (rl_items l)" "rl_all_flush_cache l" for i
    using rl_invD(2,6) [OF l(2)] that by (metis option.exhaust_sel)
  then have "if avahi_record_list_all_flush_cache l then list_all (\<lambda>(_, f, _). f) (map (rl_entry l) (rl_items l)) else True"
    by (auto simp: list_all_iff rl_entry_def Let_def avahi_record_list_all_flush_cache_def)
  moreover have "list_all rl_op_readable [srv_op 1 False, Rl_drop (sample_srv 1)]"
    by (simp add: srv_op_def sample_srv_readable)
  from rl_run_ok [OF rl_inv_new this] have
    "\<exists>l. rl_run avahi_record_list_new [srv_op 1 False, Rl_drop (sample_srv 1)] = Some l \<and> rl_state l = ([], [], False)"
    by (auto simp: srv_op_def sample_srv_same rl_state_new)
  then have "\<exists>l. rl_run avahi_record_list_new [srv_op 1 False, Rl_drop (sample_srv 1)] = Some l \<and>
       avahi_record_list_is_empty l \<and> \<not> avahi_record_list_all_flush_cache l"
    by (auto simp: rl_state_def avahi_record_list_is_empty_def avahi_record_list_all_flush_cache_def)
  ultimately show ?thesis
    unfolding l(1) rl_items_def rl_state_def option.case prod.case map_append by blast
qed

theorem all_flush_cache_one_sided_witness:
  "\<exists>l. rl_run avahi_record_list_new [srv_op 1 True] = Some l \<and> (case rl_state l of (rd, un, all) \<Rightarrow>
         (if avahi_record_list_all_flush_cache l then list_all (\<lambda>(_, f, _). f) (rd @ un) else True))"
proof -
  have "list_all rl_op_readable [srv_op 1 True]" by (simp add: srv_op_def sample_srv_readable)
  from all_flush_cache_one_sided [OF this] show ?thesis by (auto split: option.splits)
qed

end
