(* ===== verification/Llist.thy ===== *)
theory Llist
  imports Prelude
begin

text \<open>
  The intrusive lists of avahi-common/llist.h. Items are numbers; the \<open>next\<close> and \<open>prev\<close> fields that
  \<open>AVAHI_LLIST_FIELDS\<close> puts into every item are two functions of them, shared by all lists that use
  these fields, and a head is a pointer or NULL. The macros are the functions of the same names. Most
  lists of the program are only walked as a whole, and the components that own them model them as the
  list of their items; the theories that use the fields directly (the chains of the cache, which start
  in a hash map) use the model here, and \<open>llist\<close> says which list of items a head starts.
\<close>

record links =
  l_next :: "nat \<Rightarrow> nat option"
  l_prev :: "nat \<Rightarrow> nat option"

subsection \<open>The macros\<close>

definition no_links :: links where
  "no_links = \<lparr>l_next = (\<lambda>_. None), l_prev = (\<lambda>_. None)\<rparr>"

definition llist_prepend :: "links \<Rightarrow> nat option \<Rightarrow> nat \<Rightarrow> links \<times> nat option" where
  "llist_prepend lk head item =
     (let lk = lk\<lparr>l_next := (l_next lk)(item := head)\<rparr>;
          lk = (case l_next lk item of
                  Some n \<Rightarrow> lk\<lparr>l_prev := (l_prev lk)(n := Some item)\<rparr>
                | None \<Rightarrow> lk);
          lk = lk\<lparr>l_prev := (l_prev lk)(item := None)\<rparr>
      in (lk, Some item))"

definition llist_remove :: "links \<Rightarrow> nat option \<Rightarrow> nat \<Rightarrow> (links \<times> nat option) outcome" where
  "llist_remove lk head item = do {
     let lk = (case l_next lk item of
                 Some n \<Rightarrow> lk\<lparr>l_prev := (l_prev lk)(n := l_prev lk item)\<rparr>
               | None \<Rightarrow> lk);
     (lk, head) \<leftarrow> (case l_prev lk item of
         Some p \<Rightarrow> Some (lk\<lparr>l_next := (l_next lk)(p := l_next lk item)\<rparr>, head)
       | None \<Rightarrow> do {
           assert_that (head = Some item);
           Some (lk, l_next lk item)
         });
     Some (lk\<lparr>l_next := (l_next lk)(item := None), l_prev := (l_prev lk)(item := None)\<rparr>, head)
   }"

text \<open>
  The loop \<open>for (e = head; e; e = n)\<close> that fetches \<open>n\<close> before it runs its body, on a state \<open>'s\<close> that
  contains the links; it ends early when the body returns something. \<open>None\<close> when the body crashes or
  the loop does not end.
\<close>

partial_function (option) llist_foreach ::
  "('s \<Rightarrow> links) \<Rightarrow> (nat \<Rightarrow> 's \<Rightarrow> ('r option \<times> 's) option) \<Rightarrow> nat option \<Rightarrow> 's \<Rightarrow> ('r option \<times> 's) option" where
  "llist_foreach lk body head s =
     (case head of
        None \<Rightarrow> Some (None, s)
      | Some e \<Rightarrow>
          Option.bind (body e s) (\<lambda>(r, s'). case r of
              Some x \<Rightarrow> Some (Some x, s')
            | None \<Rightarrow> llist_foreach lk body (l_next (lk s) e) s'))"

subsection \<open>The items of a list\<close>

fun chain :: "links \<Rightarrow> nat option \<Rightarrow> nat option \<Rightarrow> nat list \<Rightarrow> bool" where
  "chain lk p h [] = (h = None)"
| "chain lk p h (x # xs) = (h = Some x \<and> l_prev lk x = p \<and> chain lk (Some x) (l_next lk x) xs)"

definition llist :: "links \<Rightarrow> nat option \<Rightarrow> nat list \<Rightarrow> bool" where
  "llist lk h xs \<longleftrightarrow> chain lk None h xs \<and> distinct xs"

definition hd_opt :: "'a list \<Rightarrow> 'a option" where
  "hd_opt xs = (case xs of [] \<Rightarrow> None | x # _ \<Rightarrow> Some x)"

lemma hd_opt_simps [simp]: "hd_opt [] = None" "hd_opt (x # xs) = Some x" "hd_opt xs = None \<longleftrightarrow> xs = []"
  by (simp_all add: hd_opt_def split: list.split)

lemma llist_Nil [simp]: "llist lk h [] \<longleftrightarrow> h = None"
  by (simp add: llist_def)

lemma llist_head: "llist lk h xs \<Longrightarrow> h = hd_opt xs"
  by (cases xs) (auto simp: llist_def)

lemma chain_cong:
  assumes "\<And>x. x \<in> set xs \<Longrightarrow> l_next lk' x = l_next lk x \<and> l_prev lk' x = l_prev lk x"
  shows "chain lk' p h xs = chain lk p h xs"
  using assms
proof (induction xs arbitrary: p h)
  case (Cons x xs)
  have "chain lk' (Some x) (l_next lk x) xs = chain lk (Some x) (l_next lk x) xs"
    using Cons.prems by (intro Cons.IH) simp
  with Cons.prems [of x] show ?case by simp
qed simp

lemma llist_cong:
  assumes "\<And>x. x \<in> set xs \<Longrightarrow> l_next lk' x = l_next lk x \<and> l_prev lk' x = l_prev lk x"
  shows "llist lk' h xs = llist lk h xs"
  unfolding llist_def using chain_cong [of xs lk' lk None h, OF assms] by blast

text \<open>The neighbours of an item.\<close>

lemma chain_head: "chain lk p h xs \<Longrightarrow> h = hd_opt xs"
  by (cases xs) auto

lemma chain_next:
  "chain lk p h (xs @ x # ys) \<Longrightarrow> l_next lk x = hd_opt ys \<and> l_prev lk x = (if xs = [] then p else Some (last xs))"
proof (induction xs arbitrary: p h)
  case (Cons a xs)
  from Cons.IH [of "Some a" "l_next lk a"] Cons.prems show ?case by simp
next
  case Nil
  then have "l_prev lk x = p" "chain lk (Some x) (l_next lk x) ys" by simp_all
  with chain_head show ?case by simp
qed

lemma hd_opt_rev: "hd_opt (rev xs) = (if xs = [] then None else Some (last xs))"
  by (cases xs rule: rev_cases) auto

lemma llist_neighbours:
  "llist lk h (xs @ x # ys) \<Longrightarrow> l_next lk x = hd_opt ys \<and> l_prev lk x = hd_opt (rev xs)"
  using chain_next [of lk None h xs x ys] by (simp add: llist_def hd_opt_rev)

text \<open>A list with these neighbours throughout is one, which is how changed links are recognised.\<close>

lemma chainI:
  assumes "\<And>ys x zs. xs = ys @ x # zs \<Longrightarrow> l_next lk x = hd_opt zs \<and> l_prev lk x = (if ys = [] then p else Some (last ys))"
  shows "chain lk p (hd_opt xs) xs"
  using assms
proof (induction xs arbitrary: p)
  case (Cons x xs)
  have "l_next lk x = hd_opt xs \<and> l_prev lk x = p" using Cons.prems [of "[]" x xs] by simp
  moreover have "chain lk (Some x) (hd_opt xs) xs"
  proof (rule Cons.IH)
    fix ys y zs
    assume "xs = ys @ y # zs"
    with Cons.prems [of "x # ys" y zs] show "l_next lk y = hd_opt zs \<and> l_prev lk y = (if ys = [] then Some x else Some (last ys))"
      by simp
  qed
  ultimately show ?case by simp
qed simp

lemma llist_prepend_ok:
  assumes "llist lk h xs" "x \<notin> set xs"
  shows "llist (fst (llist_prepend lk h x)) (Some x) (x # xs)" "snd (llist_prepend lk h x) = Some x"
    "\<And>y. y \<notin> set (x # xs) \<Longrightarrow> l_next (fst (llist_prepend lk h x)) y = l_next lk y \<and>
       l_prev (fst (llist_prepend lk h x)) y = l_prev lk y"
proof -
  show "snd (llist_prepend lk h x) = Some x" by (simp add: llist_prepend_def Let_def)
  show "llist (fst (llist_prepend lk h x)) (Some x) (x # xs)"
  proof (cases xs)
    case (Cons y ys)
    then have "chain (fst (llist_prepend lk h x)) (Some y) (l_next lk y) ys = chain lk (Some y) (l_next lk y) ys"
      using assms by (intro chain_cong) (auto simp: llist_prepend_def Let_def llist_def)
    with Cons assms show ?thesis by (auto simp: llist_def llist_prepend_def Let_def)
  qed (use assms in \<open>simp add: llist_def llist_prepend_def Let_def\<close>)
  show "l_next (fst (llist_prepend lk h x)) y = l_next lk y \<and> l_prev (fst (llist_prepend lk h x)) y = l_prev lk y"
    if "y \<notin> set (x # xs)" for y
    using that llist_head [OF assms(1)] by (cases xs) (auto simp: llist_prepend_def Let_def)
qed

lemma llist_remove_ok:
  assumes "llist lk h xs" "x \<in> set xs"
  obtains lk' where "llist_remove lk h x = Some (lk', hd_opt (remove1 x xs))" "llist lk' (hd_opt (remove1 x xs)) (remove1 x xs)"
    "\<And>y. y \<notin> set xs \<Longrightarrow> l_next lk' y = l_next lk y \<and> l_prev lk' y = l_prev lk y"
    "l_next lk' x = None" "l_prev lk' x = None"
proof -
  from assms(2) obtain ys zs where s: "xs = ys @ x # zs" by (meson split_list)
  have dist: "distinct xs" and c: "chain lk None h xs" using assms(1) by (simp_all add: llist_def)
  have r: "remove1 x xs = ys @ zs" using dist s by (simp add: remove1_append)
  note n = llist_neighbours [OF assms(1) [unfolded s]]
  have hd: "h = hd_opt xs" by (rule llist_head [OF assms(1)])
  define lk1 where "lk1 = (case hd_opt zs of Some z \<Rightarrow> lk\<lparr>l_prev := (l_prev lk)(z := hd_opt (rev ys))\<rparr> | None \<Rightarrow> lk)"
  define lk2 where "lk2 = (case hd_opt (rev ys) of Some y \<Rightarrow> lk1\<lparr>l_next := (l_next lk1)(y := hd_opt zs)\<rparr> | None \<Rightarrow> lk1)"
  define lk' where "lk' = lk2\<lparr>l_next := (l_next lk2)(x := None), l_prev := (l_prev lk2)(x := None)\<rparr>"
  have x: "hd_opt zs \<noteq> Some x" "hd_opt (rev ys) \<noteq> Some x"
    using dist s by (cases zs; cases ys rule: rev_cases; auto)+
  have p1: "l_prev lk1 x = hd_opt (rev ys)" "l_next lk1 x = hd_opt zs"
    using n x by (auto simp: lk1_def split: option.split)
  have rm: "llist_remove lk h x = Some (lk', hd_opt (ys @ zs))"
  proof -
    have l: "(case l_next lk x of Some n \<Rightarrow> lk\<lparr>l_prev := (l_prev lk)(n := l_prev lk x)\<rparr> | None \<Rightarrow> lk) = lk1"
      unfolding lk1_def conjunct1 [OF n] conjunct2 [OF n] by (rule refl)
    show ?thesis
    proof (cases ys rule: rev_cases)
      case Nil
      then show ?thesis using p1 hd s
        unfolding llist_remove_def l Let_def by (simp add: lk'_def lk2_def)
    next
      case (snoc as y)
      then have "hd_opt (ys @ zs) = hd_opt xs" using s by (cases as) simp_all
      with snoc show ?thesis using p1 hd
        unfolding llist_remove_def l Let_def by (simp add: lk'_def lk2_def)
    qed
  qed
  have nx: "l_next lk' u = (if u = x then None else if hd_opt (rev ys) = Some u then hd_opt zs else l_next lk u)" for u
    by (auto simp: lk'_def lk2_def lk1_def split: option.splits)
  have pv: "l_prev lk' u = (if u = x then None else if hd_opt zs = Some u then hd_opt (rev ys) else l_prev lk u)" for u
    by (auto simp: lk'_def lk2_def lk1_def split: option.splits)
  have "chain lk' None (hd_opt (ys @ zs)) (ys @ zs)"
  proof (rule chainI)
    fix as a bs
    assume e: "ys @ zs = as @ a # bs"
    have d: "distinct (as @ a # bs)" using dist s by (simp flip: e)
    have "a \<in> set (ys @ zs)" unfolding e by simp
    then have xa: "x \<noteq> a" using dist s by auto
    have dy: "distinct ys" "distinct zs" "set ys \<inter> set zs = {}" using dist s by auto
    show "l_next lk' a = hd_opt bs \<and> l_prev lk' a = (if as = [] then None else Some (last as))"
    proof (cases "a \<in> set ys")
      case True
      then obtain cs where ys: "ys = as @ a # cs" "bs = cs @ zs"
        using e d by (auto simp: append_eq_append_conv2 append_eq_Cons_conv Cons_eq_append_conv) 
      then have "xs = as @ a # (cs @ x # zs)" using s by simp
      from llist_neighbours [OF assms(1) [unfolded this]]
      have l: "l_next lk a = hd_opt (cs @ x # zs)" "l_prev lk a = hd_opt (rev as)" by auto
      have "hd_opt zs \<noteq> Some a" using True dy(3) by (cases zs) auto
      moreover have "hd_opt (rev ys) = Some a \<longleftrightarrow> cs = []"
        using ys(1) dy(1) by (cases cs rule: rev_cases) auto
      moreover have "hd_opt (rev as) = (if as = [] then None else Some (last as))" by (rule hd_opt_rev)
      ultimately show ?thesis using l xa ys(2) by (cases cs) (auto simp: nx pv)
    next
      case False
      then have "a \<in> set zs" using arg_cong [OF e, of set] by auto
      with False e obtain cs where zs: "zs = cs @ a # bs" "as = ys @ cs"
        using d by (auto simp: append_eq_append_conv2 append_eq_Cons_conv Cons_eq_append_conv)
      then have "xs = (ys @ x # cs) @ a # bs" using s by simp
      from llist_neighbours [OF assms(1) [unfolded this]]
      have l: "l_next lk a = hd_opt bs" "l_prev lk a = hd_opt (rev (ys @ x # cs))" by auto
      have "hd_opt (rev ys) \<noteq> Some a" using False by (auto simp: hd_opt_rev)
      moreover have "hd_opt zs = Some a \<longleftrightarrow> cs = []" using zs(1) dy(2) by (cases cs) auto
      moreover have "hd_opt (rev as) = (if as = [] then None else Some (last as))" by (rule hd_opt_rev)
      ultimately show ?thesis using l xa zs(2) by (cases cs rule: rev_cases) (auto simp: nx pv)
    qed
  qed
  then have "llist lk' (hd_opt (ys @ zs)) (ys @ zs)" using dist s by (simp add: llist_def)
  moreover have "l_next lk' y = l_next lk y \<and> l_prev lk' y = l_prev lk y" if y: "y \<notin> set xs" for y
  proof -
    have "hd_opt zs \<noteq> Some y" "hd_opt (rev ys) \<noteq> Some y" using y s by (cases zs; cases ys rule: rev_cases; auto)+
    with y s show ?thesis by (auto simp: nx pv)
  qed
  moreover have "l_next lk' x = None" "l_prev lk' x = None" by (simp_all add: nx pv)
  ultimately show thesis using that rm unfolding r by blast
qed

text \<open>
  A loop over a list: \<open>I ys s\<close> says that the state is \<open>s\<close> when the items \<open>ys\<close> are done. A body may change
  the links, but not those between the items that are left.
\<close>

lemma llist_foreach_rule:
  assumes "llist lk0 h xs" "I [] s"
    and "\<And>ys x zs s. xs = ys @ x # zs \<Longrightarrow> I ys s \<Longrightarrow>
      l_next (lk s) x = l_next lk0 x \<and>
      (\<exists>r s'. body x s = Some (r, s') \<and> (case r of None \<Rightarrow> I (ys @ [x]) s' | Some v \<Rightarrow> Q (Some v) s'))"
    and "\<And>s. I xs s \<Longrightarrow> Q None s"
  shows "\<exists>r s'. llist_foreach lk body h s = Some (r, s') \<and> Q r s'"
proof -
  have "\<exists>r s'. llist_foreach lk body (hd_opt zs) s = Some (r, s') \<and> Q r s'" if "xs = ys @ zs" "I ys s" for ys zs s
    using that
  proof (induction zs arbitrary: ys s)
    case Nil
    with assms(4) show ?case by (subst llist_foreach.simps) simp
  next
    case (Cons x zs)
    from assms(3) [OF Cons.prems] obtain r s' where r: "l_next (lk s) x = l_next lk0 x" "body x s = Some (r, s')"
      "case r of None \<Rightarrow> I (ys @ [x]) s' | Some v \<Rightarrow> Q (Some v) s'" by blast
    have n: "l_next lk0 x = hd_opt zs" using llist_neighbours [OF assms(1) [unfolded Cons.prems(1)]] by blast
    show ?case
    proof (cases r)
      case None
      with Cons.IH [of "ys @ [x]" s'] Cons.prems(1) r obtain r' s'' where
        "llist_foreach lk body (hd_opt zs) s' = Some (r', s'')" "Q r' s''" by auto
      with r(1,2) n None show ?thesis by (subst llist_foreach.simps) simp
    next
      case (Some v)
      with r show ?thesis by (subst llist_foreach.simps) simp
    qed
  qed
  from this [of "[]" xs s] assms(2) llist_head [OF assms(1)] show ?thesis by simp
qed

end
