(* ===== verification/Loops.thy ===== *)
theory Loops
  imports Prelude
begin

text \<open>
  The loops of the code over linked lists, where the model has lists: over all members, for the first member
  with a property, and from the head until the list is empty; with the rules the proofs use.
\<close>

text \<open>
  A loop over a linked list whose body leaves the list alone, and the search for the first member with
  a property.
\<close>

fun for_each :: "('a \<Rightarrow> 's \<Rightarrow> 's outcome) \<Rightarrow> 'a list \<Rightarrow> 's \<Rightarrow> 's outcome" where
  "for_each f [] s = Some s"
| "for_each f (x # xs) s = do { s \<leftarrow> f x s; for_each f xs s }"

fun find_first :: "('a \<Rightarrow> bool outcome) \<Rightarrow> 'a list \<Rightarrow> 'a option outcome" where
  "find_first p [] = Some None"
| "find_first p (x # xs) = do { b \<leftarrow> p x; if b then Some (Some x) else find_first p xs }"

text \<open>\<open>while (head) free (head)\<close>: the loops that empty a linked list from its head.\<close>

partial_function (option) while_head :: "('s \<Rightarrow> 'a list option) \<Rightarrow> ('a \<Rightarrow> 's \<Rightarrow> 's option) \<Rightarrow> 's \<Rightarrow> 's option" where
  "while_head hd_of body s =
     Option.bind (hd_of s) (\<lambda>xs. case xs of [] \<Rightarrow> Some s | x # _ \<Rightarrow> Option.bind (body x s) (while_head hd_of body))"

subsection \<open>Rules\<close>

lemma for_each_rule:
  assumes "\<And>x s. x \<in> set xs \<Longrightarrow> I s \<Longrightarrow> \<exists>s'. f x s = Some s' \<and> I s'" "I s"
  shows "\<exists>s'. for_each f xs s = Some s' \<and> I s'"
  using assms
proof (induction xs arbitrary: s)
  case (Cons x xs)
  from Cons.prems(1) [of x s] Cons.prems(2) obtain s1 where s1: "f x s = Some s1" "I s1" by auto
  have "\<exists>s'. for_each f xs s1 = Some s' \<and> I s'" using Cons.prems(1) by (intro Cons.IH s1(2)) auto
  with s1(1) show ?case by simp
qed simp

lemma find_first_eq:
  assumes "\<And>x. x \<in> set xs \<Longrightarrow> p x = Some (q x)"
  shows "find_first p xs = Some (find q xs)"
  using assms by (induction xs) simp_all

lemma find_first_cases:
  assumes "\<And>x. x \<in> set xs \<Longrightarrow> \<exists>b. p x = Some b"
  obtains (none) "find_first p xs = Some None" "\<And>x. x \<in> set xs \<Longrightarrow> p x = Some False"
  | (found) x where "find_first p xs = Some (Some x)" "x \<in> set xs" "p x = Some True"
proof -
  have e: "find_first p xs = Some (find (\<lambda>x. p x = Some True) xs)"
  proof (rule find_first_eq)
    fix x
    assume "x \<in> set xs"
    from assms [OF this] obtain b where "p x = Some b" ..
    then show "p x = Some (p x = Some True)" by (cases b) simp_all
  qed
  show thesis
  proof (cases "find (\<lambda>x. p x = Some True) xs")
    case None
    have "p x = Some False" if x: "x \<in> set xs" for x
    proof -
      from assms [OF x] obtain b where b: "p x = Some b" ..
      from None x have "p x \<noteq> Some True" by (simp add: find_None_iff)
      with b show ?thesis by (cases b) simp_all
    qed
    with e None none show thesis by simp
  next
    case (Some x)
    then have "x \<in> set xs" "p x = Some True" by (auto simp: find_Some_iff)
    with e Some found show thesis by simp
  qed
qed

text \<open>A loop that takes the head of a list away until nothing is left.\<close>

lemma while_head_rule:
  assumes "\<And>s x xs. I s \<Longrightarrow> hd_of s = Some (x # xs) \<Longrightarrow> \<exists>s'. body x s = Some s' \<and> I s' \<and> hd_of s' = Some xs"
    and "I s" "hd_of s = Some xs"
  shows "\<exists>s'. while_head hd_of body s = Some s' \<and> I s' \<and> hd_of s' = Some []"
  using assms(2,3)
proof (induction xs arbitrary: s)
  case Nil
  then show ?case by (subst while_head.simps) simp
next
  case (Cons x xs)
  from assms(1) [OF Cons.prems] obtain s1 where s1: "body x s = Some s1" "I s1" "hd_of s1 = Some xs" by blast
  from Cons.IH [OF s1(2,3)] s1(1) Cons.prems(2) show ?case by (subst while_head.simps) simp
qed

text \<open>A loop that adds up what it has dealt with.\<close>

lemma for_each_collect:
  assumes "\<And>x s A. x \<in> set xs \<Longrightarrow> I A s \<Longrightarrow> \<exists>s'. f x s = Some s' \<and> I (A \<union> F x) s'" "I A s"
  shows "\<exists>s'. for_each f xs s = Some s' \<and> I (A \<union> (\<Union>x \<in> set xs. F x)) s'"
  using assms
proof (induction xs arbitrary: A s)
  case (Cons x xs)
  from Cons.prems obtain s1 where s1: "f x s = Some s1" "I (A \<union> F x) s1" by (metis list.set_intros(1))
  from Cons.IH [OF Cons.prems(1) s1(2)] s1(1) show ?case by (auto simp: Un_assoc)
qed simp

lemma for_each_shrink:
  assumes "\<And>x s. I s \<Longrightarrow> P x s \<Longrightarrow> \<exists>s'. f x s = Some s' \<and> I s' \<and> (\<forall>y. y \<noteq> x \<and> P y s \<longrightarrow> P y s')"
    and "I s" "distinct xs" "\<And>x. x \<in> set xs \<Longrightarrow> P x s"
  shows "\<exists>s'. for_each f xs s = Some s' \<and> I s'"
  using assms(2-4)
proof (induction xs arbitrary: s)
  case (Cons x xs)
  from assms(1) [OF Cons.prems(1), of x] Cons.prems(3) obtain s1 where
    s1: "f x s = Some s1" "I s1" "\<forall>y. y \<noteq> x \<and> P y s \<longrightarrow> P y s1" by auto
  have "P y s1" if "y \<in> set xs" for y
  proof -
    have "y \<noteq> x" "P y s" using Cons.prems(2) Cons.prems(3) [of y] that by auto
    with s1(3) show ?thesis by blast
  qed
  with Cons.prems(2) have "\<exists>s'. for_each f xs s1 = Some s' \<and> I s'" by (intro Cons.IH [OF s1(2)]) simp_all
  with s1(1) show ?case by simp
qed simp

end
