(* ===== verification/Timers.thy ===== *)
theory Timers
  imports Timeeventq
begin

text \<open>
  Objects with a timer of their own. The announcers, groups, scheduler jobs and queriers keep a pointer
  to at most one time event each, whose callback gets the object; \<open>set_timeout\<close> of announce.c is the way
  they all move it. This theory sees the time event queue as the set of timers each callback has,
  \<open>armed\<close>, and shows what setting and clearing a timer does to it.
\<close>

subsection \<open>Moving a timer\<close>

text \<open>
  \<open>c\<close> is the callback with its object, \<open>t\<close> the pointer to its time event, \<open>tv\<close> NULL or the new time of
  expiry. The result holds the new pointer.
\<close>

definition set_timer :: "'c \<Rightarrow> nat option \<Rightarrow> timeval option \<Rightarrow> 'c teq \<Rightarrow> (nat option \<times> 'c teq) outcome" where
  "set_timer c t tv q =
     (case tv of
        None \<Rightarrow>
          (case t of
             Some t \<Rightarrow> do { q \<leftarrow> avahi_time_event_free q t; Some (None, q) }
           | None \<Rightarrow> Some (None, q))
      | Some tv \<Rightarrow>
          (case t of
             Some t \<Rightarrow> do { q \<leftarrow> avahi_time_event_update q t tv; Some (Some t, q) }
           | None \<Rightarrow> do { (q, t) \<leftarrow> avahi_time_event_new q (Some tv) c; Some (Some t, q) }))"

subsection \<open>The timers of a callback\<close>

definition armed :: "'c teq \<Rightarrow> 'c \<Rightarrow> (nat \<times> timeval) set" where
  "armed q c = {(t, a). \<exists>l. te_view q t = Some (a, l, Some c)}"

definition armed_as :: "'c teq \<Rightarrow> 'c \<Rightarrow> nat option \<Rightarrow> bool" where
  "armed_as q c t \<longleftrightarrow> (case t of None \<Rightarrow> armed q c = {} | Some t \<Rightarrow> \<exists>a. armed q c = {(t, a)})"

definition due :: "'c teq \<Rightarrow> 'c \<Rightarrow> timeval set" where
  "due q c = snd ` armed q c"

lemma armed_new: "armed avahi_time_event_queue_new c = {}"
  by (simp add: armed_def te_view_def avahi_time_event_queue_new_def)

lemma armed_timeout [simp]: "armed (q\<lparr>te_timeout := x\<rparr>) = armed q"
  by (simp add: armed_def [abs_def])

lemma armed_as_cong: "armed q' c = armed q c \<Longrightarrow> armed_as q' c t \<longleftrightarrow> armed_as q c t"
  by (cases t) (simp_all add: armed_as_def)

lemma armed_as_None [simp]: "armed_as q c None \<longleftrightarrow> armed q c = {}"
  by (simp add: armed_as_def)

lemma armed_as_Some: "armed_as q c (Some t) \<longleftrightarrow> (\<exists>a. armed q c = {(t, a)})"
  by (simp add: armed_as_def)

lemma armed_iff: "(t, a) \<in> armed q c \<longleftrightarrow> (\<exists>l. te_view q t = Some (a, l, Some c))"
  by (simp add: armed_def)

lemma armed_upd:
  "te_view q' = (te_view q)(t := v) \<Longrightarrow>
   armed q' d = {x \<in> armed q d. fst x \<noteq> t} \<union> {(t, a) | a. \<exists>l. v = Some (a, l, Some d)}"
  unfolding armed_def by (auto split: if_splits)

lemma armed_as_alive: "armed_as q c (Some t) \<Longrightarrow> te_alive q t \<and> te_callback q t = Some c"
proof -
  assume "armed_as q c (Some t)"
  then obtain a where "armed q c = {(t, a)}" by (auto simp: armed_as_def)
  then have "(t, a) \<in> armed q c" by simp
  then show ?thesis by (auto simp: armed_iff te_view_Some)
qed

lemma armed_unique: "(t, a) \<in> armed q c \<Longrightarrow> (t, b) \<in> armed q d \<Longrightarrow> c = d \<and> a = b"
  by (auto simp: armed_def)

lemma new_timer_ok:
  assumes "teq_core q"
  shows "\<exists>q'. avahi_time_event_new q (Some tv) c = Some (q', te_next q) \<and> teq_core q' \<and>
    armed q' = (armed q)(c := insert (te_next q, tv) (armed q c))"
proof -
  from event_new_ok [OF assms, of "Some tv" c] obtain q' where
    q': "avahi_time_event_new q (Some tv) c = Some (q', te_next q)" "teq_ok q'"
      "te_view q' = (te_view q)(te_next q \<mapsto> (tv, \<lparr>tv_sec = 0, tv_usec = 0\<rparr>, Some c))" by auto
  have "te_view q (te_next q) = None" using teq_coreD(5) [OF assms, of "te_next q"] by (auto simp: te_view_def)
  then have "x \<in> armed q d \<Longrightarrow> fst x \<noteq> te_next q" for x d by (auto simp: armed_def)
  then have "armed q' d = ((armed q)(c := insert (te_next q, tv) (armed q c))) d" for d
    unfolding armed_upd [OF q'(3)] by auto
  with q'(1,2) show ?thesis by (auto simp: teq_ok_def)
qed

lemma own_timer:
  assumes "armed q c = {(t, a)}"
  shows "te_alive q t" "te_callback q t = Some c" "{x \<in> armed q c. fst x \<noteq> t} = {}"
    "d \<noteq> c \<Longrightarrow> {x \<in> armed q d. fst x \<noteq> t} = armed q d"
proof -
  have m: "(t, a) \<in> armed q c" using assms by simp
  then show "te_alive q t" "te_callback q t = Some c" by (auto simp: armed_iff te_view_Some)
  show "{x \<in> armed q c. fst x \<noteq> t} = {}" using assms by auto
  assume "d \<noteq> c"
  then have "x \<in> armed q d \<Longrightarrow> fst x \<noteq> t" for x using armed_unique [OF m, of "snd x" d] by auto
  then show "{x \<in> armed q d. fst x \<noteq> t} = armed q d" by blast
qed

lemma update_timer_ok:
  assumes "teq_core q" "armed q c = {(t, a)}"
  shows "\<exists>q'. avahi_time_event_update q t tv = Some q' \<and> teq_core q' \<and> armed q' = (armed q)(c := {(t, tv)})"
proof -
  note o = own_timer [OF assms(2)]
  from event_update_ok [OF assms(1) o(1), of tv] obtain q' where
    q': "avahi_time_event_update q t tv = Some q'" "teq_ok q'" "te_view q' = (te_view q)(t \<mapsto> (tv, te_last_run q t, Some c))"
    using o(2) by auto
  have "armed q' d = ((armed q)(c := {(t, tv)})) d" for d
    unfolding armed_upd [OF q'(3)] using o(3) o(4) [of d] by (cases "d = c") auto
  with q'(1,2) show ?thesis by (auto simp: teq_ok_def)
qed

lemma free_timer_ok:
  assumes "teq_core q" "armed q c = {(t, a)}"
  shows "\<exists>q'. avahi_time_event_free q t = Some q' \<and> teq_core q' \<and> armed q' = (armed q)(c := {})"
proof -
  note o = own_timer [OF assms(2)]
  from event_free_ok [OF assms(1) o(1)] obtain q' where
    q': "avahi_time_event_free q t = Some q'" "teq_ok q'" "te_view q' = (te_view q)(t := None)" by auto
  have "armed q' d = ((armed q)(c := {})) d" for d
    unfolding armed_upd [OF q'(3)] using o(3) o(4) [of d] by (cases "d = c") auto
  with q'(1,2) show ?thesis by (auto simp: teq_ok_def)
qed

lemma set_timer_ok:
  assumes "teq_core q" "armed_as q c t"
  shows "\<exists>t' q'. set_timer c t tv q = Some (t', q') \<and> teq_core q' \<and> (t' = None \<longleftrightarrow> tv = None) \<and>
    armed q' = (armed q)(c := (case tv of None \<Rightarrow> {} | Some a \<Rightarrow> {(the t', a)}))"
proof (cases tv)
  case None
  show ?thesis
  proof (cases t)
    case N: None
    with None assms show ?thesis by (auto simp: set_timer_def fun_eq_iff)
  next
    case (Some t1)
    then obtain a where "armed q c = {(t1, a)}" using assms(2) by (auto simp: armed_as_def)
    from free_timer_ok [OF assms(1) this] None Some show ?thesis by (auto simp: set_timer_def)
  qed
next
  case (Some a)
  show ?thesis
  proof (cases t)
    case None
    with new_timer_ok [OF assms(1), of a c] assms(2) Some show ?thesis by (auto simp: set_timer_def)
  next
    case S: (Some t1)
    then obtain b where "armed q c = {(t1, b)}" using assms(2) by (auto simp: armed_as_def)
    from update_timer_ok [OF assms(1) this, of a] Some S show ?thesis by (auto simp: set_timer_def)
  qed
qed

text \<open>The event that \<open>expired_event\<close> hands out keeps its timer, and so does every other.\<close>

lemma armed_run:
  assumes "te_view q d = Some (a, l, Some c)" "te_view q' = (te_view q)(d \<mapsto> (a, l', Some c))"
  shows "armed q' = armed q" "(d, a) \<in> armed q c"
proof -
  show m: "(d, a) \<in> armed q c" using assms(1) by (auto simp: armed_iff)
  show "armed q' = armed q"
  proof (rule ext)
    fix x
    have "y \<in> armed q x \<Longrightarrow> fst y = d \<Longrightarrow> x = c \<and> y = (d, a)" for y using armed_unique [OF m, of "snd y" x] by auto
    then show "armed q' x = armed q x" unfolding armed_upd [OF assms(2)] using m by auto
  qed
qed

end
