(* ===== verification/Jobs.thy ===== *)
theory Jobs
  imports Loops Timers Dns
begin

text \<open>
  What the three schedulers of an interface have in common (avahi-core/query-sched.c, probe-sched.c and
  response-sched.c): jobs with a timer each, in the list of those that are scheduled, in the history of those
  that are done, and for responses in a third list of those that are suppressed. The three files repeat this
  code with other names and constants; here it is there once, and the theories of the three schedulers
  extend the records with their fields.

  A job is a number with its fields in the heap \<open>s_job\<close>; \<open>done\<close> of the first two files is the state
  \<open>AVAHI_DONE\<close>. The lists are lists, as theory \<open>Llist\<close> justifies. Sending a packet adds it to \<open>s_sent\<close>.
\<close>

subsection \<open>Jobs and lists\<close>

datatype job_state =
    AVAHI_SCHEDULED
  | AVAHI_DONE
  | AVAHI_SUPPRESSED

record job =
  j_time_event :: "nat option"
  j_state :: job_state
  j_delivery :: timeval

datatype 'o job_timer = Job nat | Other_job 'o

record ('j, 'o) sched =
  s_job :: "nat \<Rightarrow> 'j option"
  s_next :: nat
  s_jobs :: "nat list"
  s_history :: "nat list"
  s_suppressed :: "nat list"
  s_time_event_queue :: "'o job_timer teq"
  s_jitter :: jitter_state
  s_sent :: "packet list"

definition mod_job :: "nat \<Rightarrow> ('x job_scheme \<Rightarrow> 'x job_scheme) \<Rightarrow> ('x job_scheme, 'o, 'z) sched_scheme \<Rightarrow> ('x job_scheme, 'o, 'z) sched_scheme outcome" where
  "mod_job j f s = do { x \<leftarrow> s_job s j; Some (s\<lparr>s_job := (s_job s)(j \<mapsto> f x)\<rparr>) }"

definition job_list :: "job_state \<Rightarrow> ('x job_scheme, 'o, 'z) sched_scheme \<Rightarrow> nat list" where
  "job_list st s = (case st of AVAHI_SCHEDULED \<Rightarrow> s_jobs s | AVAHI_DONE \<Rightarrow> s_history s | AVAHI_SUPPRESSED \<Rightarrow> s_suppressed s)"

definition map_list :: "job_state \<Rightarrow> (nat list \<Rightarrow> nat list) \<Rightarrow> ('x job_scheme, 'o, 'z) sched_scheme \<Rightarrow> ('x job_scheme, 'o, 'z) sched_scheme" where
  "map_list st f s =
     (case st of
        AVAHI_SCHEDULED \<Rightarrow> s\<lparr>s_jobs := f (s_jobs s)\<rparr>
      | AVAHI_DONE \<Rightarrow> s\<lparr>s_history := f (s_history s)\<rparr>
      | AVAHI_SUPPRESSED \<Rightarrow> s\<lparr>s_suppressed := f (s_suppressed s)\<rparr>)"

subsection \<open>Operations\<close>

text \<open>\<open>x\<close> holds the fields of the new job; its time event is NULL.\<close>

definition job_new :: "'x job_scheme \<Rightarrow> ('x job_scheme, 'o, 'z) sched_scheme \<Rightarrow> ('x job_scheme, 'o, 'z) sched_scheme \<times> nat" where
  "job_new x s =
     (let j = s_next s; s = s\<lparr>s_job := (s_job s)(j \<mapsto> x\<lparr>j_time_event := None\<rparr>), s_next := j + 1\<rparr>
      in (map_list (j_state x) (\<lambda>js. j # js) s, j))"

definition job_free :: "nat \<Rightarrow> ('x job_scheme, 'o, 'z) sched_scheme \<Rightarrow> ('x job_scheme, 'o, 'z) sched_scheme outcome" where
  "job_free j s = do {
     x \<leftarrow> s_job s j;
     q \<leftarrow> (case j_time_event x of
         Some t \<Rightarrow> avahi_time_event_free (s_time_event_queue s) t
       | None \<Rightarrow> Some (s_time_event_queue s));
     let s = s\<lparr>s_time_event_queue := q\<rparr>;
     assert_that (j \<in> set (job_list (j_state x) s));
     let s = map_list (j_state x) (remove1 j) s;
     Some (s\<lparr>s_job := (s_job s)(j := None)\<rparr>)
   }"

text \<open>The time event of a job at a given time, and \<open>job_set_elapse_time\<close>.\<close>

definition job_set_time :: "nat \<Rightarrow> timeval \<Rightarrow> ('x job_scheme, 'o, 'z) sched_scheme \<Rightarrow> ('x job_scheme, 'o, 'z) sched_scheme outcome" where
  "job_set_time j tv s = do {
     x \<leftarrow> s_job s j;
     (t, q) \<leftarrow> set_timer (Job j) (j_time_event x) (Some tv) (s_time_event_queue s);
     mod_job j (\<lambda>x. x\<lparr>j_time_event := t\<rparr>) (s\<lparr>s_time_event_queue := q\<rparr>)
   }"

definition job_set_elapse_time :: "env \<Rightarrow> nat \<Rightarrow> nat \<Rightarrow> nat \<Rightarrow> ('x job_scheme, 'o, 'z) sched_scheme \<Rightarrow> ('x job_scheme, 'o, 'z) sched_scheme outcome" where
  "job_set_elapse_time v j msec jitter s =
     (let (tv, jit) = elapse v msec jitter (s_jitter s) in job_set_time j tv (s\<lparr>s_jitter := jit\<rparr>))"

definition job_mark_done :: "env \<Rightarrow> nat \<Rightarrow> nat \<Rightarrow> ('x job_scheme, 'o, 'z) sched_scheme \<Rightarrow> ('x job_scheme, 'o, 'z) sched_scheme outcome" where
  "job_mark_done v history_msec j s = do {
     x \<leftarrow> s_job s j;
     assert_that (j_state x = AVAHI_SCHEDULED);
     assert_that (j \<in> set (s_jobs s));
     let s = s\<lparr>s_jobs := remove1 j (s_jobs s)\<rparr>;
     let s = s\<lparr>s_history := j # s_history s\<rparr>;
     s \<leftarrow> mod_job j (\<lambda>x. x\<lparr>j_state := AVAHI_DONE\<rparr>) s;
     s \<leftarrow> job_set_elapse_time v j history_msec 0 s;
     mod_job j (\<lambda>x. x\<lparr>j_delivery := env_now v\<rparr>) s
   }"

definition scheduler_clear :: "('x job_scheme, 'o, 'z) sched_scheme \<Rightarrow> ('x job_scheme, 'o, 'z) sched_scheme outcome" where
  "scheduler_clear s = do {
     s \<leftarrow> while_head (\<lambda>s. Some (s_jobs s)) job_free s;
     s \<leftarrow> while_head (\<lambda>s. Some (s_history s)) job_free s;
     while_head (\<lambda>s. Some (s_suppressed s)) job_free s
   }"

text \<open>
  The searches \<open>find_scheduled_job\<close>, \<open>find_history_job\<close> and \<open>find_suppressed_job\<close>: \<open>same\<close> compares a job with what is
  looked for, \<open>outdated\<close> judges the age of a job that is found; it is freed if too old.
\<close>

definition find_job :: "('x job_scheme \<Rightarrow> bool outcome) \<Rightarrow> job_state \<Rightarrow> ('x job_scheme, 'o, 'z) sched_scheme \<Rightarrow> nat option outcome" where
  "find_job same st s =
     find_first (\<lambda>j. do { x \<leftarrow> s_job s j; assert_that (j_state x = st); same x }) (job_list st s)"

definition find_recent_job ::
  "env \<Rightarrow> (int \<Rightarrow> bool) \<Rightarrow> ('x job_scheme \<Rightarrow> bool outcome) \<Rightarrow> job_state \<Rightarrow> ('x job_scheme, 'o, 'z) sched_scheme \<Rightarrow>
   (('x job_scheme, 'o, 'z) sched_scheme \<times> nat option) outcome" where
  "find_recent_job v outdated same st s = do {
     r \<leftarrow> find_job same st s;
     (case r of
        None \<Rightarrow> Some (s, None)
      | Some j \<Rightarrow> do {
          x \<leftarrow> s_job s j;
          if outdated (avahi_age (env_now v) (j_delivery x)) then do { s \<leftarrow> job_free j s; Some (s, None) }
          else Some (s, Some j)
        })
   }"

subsection \<open>The invariant\<close>

text \<open>
  Every job is in the list of its state and in no other, and has one timer, which for a scheduled job
  is due when the job is; \<open>J\<close> are the jobs that are being worked on, whose timer may be missing or elsewhere.
\<close>

definition job_timer_ok :: "'o job_timer teq \<Rightarrow> nat \<Rightarrow> 'x job_scheme \<Rightarrow> bool" where
  "job_timer_ok q j x \<longleftrightarrow> (\<exists>t a. j_time_event x = Some t \<and> armed q (Job j) = {(t, a)} \<and>
     (j_state x = AVAHI_SCHEDULED \<longrightarrow> a = j_delivery x))"

definition sched_core :: "nat set \<Rightarrow> ('x job_scheme, 'o, 'z) sched_scheme \<Rightarrow> bool" where
  "sched_core J s \<longleftrightarrow> teq_core (s_time_event_queue s) \<and>
     (\<forall>st. distinct (job_list st s) \<and> set (job_list st s) = {j. \<exists>x. s_job s j = Some x \<and> j_state x = st}) \<and>
     (\<forall>j x. s_job s j = Some x \<longrightarrow> j < s_next s \<and> armed_as (s_time_event_queue s) (Job j) (j_time_event x) \<and>
        (j \<notin> J \<longrightarrow> job_timer_ok (s_time_event_queue s) j x)) \<and>
     (\<forall>j. s_job s j = None \<longrightarrow> armed (s_time_event_queue s) (Job j) = {})"

abbreviation sched_ok :: "('x job_scheme, 'o, 'z) sched_scheme \<Rightarrow> bool" where
  "sched_ok \<equiv> sched_core {}"

lemma sched_coreD:
  assumes "sched_core J s"
  shows "teq_core (s_time_event_queue s)" "distinct (job_list st s)"
    "j \<in> set (job_list st s) \<longleftrightarrow> (\<exists>x. s_job s j = Some x \<and> j_state x = st)"
    "s_job s j = Some x \<Longrightarrow> j < s_next s" "s_job s j = Some x \<Longrightarrow> armed_as (s_time_event_queue s) (Job j) (j_time_event x)"
    "s_job s j = Some x \<Longrightarrow> j \<notin> J \<Longrightarrow> job_timer_ok (s_time_event_queue s) j x"
    "s_job s j = None \<Longrightarrow> armed (s_time_event_queue s) (Job j) = {}"
  using assms unfolding sched_core_def by blast+

text \<open>What an operation on one job leaves as it was.\<close>

definition same_rest :: "('x job_scheme, 'o, 'z) sched_scheme \<Rightarrow> ('x job_scheme, 'o, 'z) sched_scheme \<Rightarrow> bool" where
  "same_rest s s' \<longleftrightarrow> s_sent s' = s_sent s \<and> sched.more s' = sched.more s"

lemma same_rest_refl [simp]: "same_rest s s"
  by (simp add: same_rest_def)

lemma same_rest_trans: "same_rest s1 s2 \<Longrightarrow> same_rest s2 s3 \<Longrightarrow> same_rest s1 s3"
  by (simp add: same_rest_def)

lemma map_list_fields [simp]:
  "s_job (map_list st f s) = s_job s" "s_next (map_list st f s) = s_next s"
  "s_time_event_queue (map_list st f s) = s_time_event_queue s" "s_jitter (map_list st f s) = s_jitter s"
  "s_sent (map_list st f s) = s_sent s" "sched.more (map_list st f s) = sched.more s"
  "job_list st' (map_list st f s) = (if st' = st then f (job_list st s) else job_list st' s)"
  by (cases st; simp add: map_list_def job_list_def split: job_state.split)+

lemma job_list_updates [simp]:
  "job_list st (s\<lparr>s_job := h\<rparr>) = job_list st s" "job_list st (s\<lparr>s_next := n\<rparr>) = job_list st s"
  "job_list st (s\<lparr>s_time_event_queue := q\<rparr>) = job_list st s" "job_list st (s\<lparr>s_jitter := i\<rparr>) = job_list st s"
  "job_list st (s\<lparr>s_sent := ps\<rparr>) = job_list st s"
  by (cases st; simp add: job_list_def)+

lemma job_list_simps [simp]:
  "job_list AVAHI_SCHEDULED s = s_jobs s" "job_list AVAHI_DONE s = s_history s" "job_list AVAHI_SUPPRESSED s = s_suppressed s"
  by (simp_all add: job_list_def)


lemma core_update:
  assumes c: "sched_core J s" and h: "s_job s' = (s_job s)(j := v)" and n: "s_next s \<le> s_next s'" "v \<noteq> None \<Longrightarrow> j < s_next s'"
    and l: "\<And>st. distinct (job_list st s')"
      "\<And>st i. i \<in> set (job_list st s') \<longleftrightarrow> (if i = j then \<exists>x. v = Some x \<and> j_state x = st else i \<in> set (job_list st s))"
    and q: "teq_core (s_time_event_queue s')" "armed (s_time_event_queue s') = (armed (s_time_event_queue s))(Job j := T)"
      "v = None \<Longrightarrow> T = {}" "\<And>x. v = Some x \<Longrightarrow> armed_as (s_time_event_queue s') (Job j) (j_time_event x)"
      "\<And>x. v = Some x \<Longrightarrow> j \<notin> J' \<Longrightarrow> job_timer_ok (s_time_event_queue s') j x"
    and J: "J - {j} \<subseteq> J'"
  shows "sched_core J' s'"
proof -
  note d = sched_coreD [OF c]
  have a: "armed (s_time_event_queue s') (Job i) = armed (s_time_event_queue s) (Job i)" if "i \<noteq> j" for i using q(2) that by simp
  have t: "job_timer_ok (s_time_event_queue s') i x \<longleftrightarrow> job_timer_ok (s_time_event_queue s) i x" if "i \<noteq> j" for i x
    using a [OF that] by (simp add: job_timer_ok_def)
  have "set (job_list st s') = {i. \<exists>x. s_job s' i = Some x \<and> j_state x = st}" for st
    using l(2) [of _ st] d(3) [of _ st] h by auto
  moreover have "i < s_next s' \<and> armed_as (s_time_event_queue s') (Job i) (j_time_event x) \<and>
      (i \<notin> J' \<longrightarrow> job_timer_ok (s_time_event_queue s') i x)" if i: "s_job s' i = Some x" for i x
  proof (cases "i = j")
    case True
    with i h n(2) q(4,5) show ?thesis by auto
  next
    case False
    with i h have "s_job s i = Some x" by simp
    with d(4,5,6) [of i x] n(1) a [OF False] t [OF False] J False armed_as_cong [OF a [OF False]] show ?thesis by auto
  qed
  moreover have "armed (s_time_event_queue s') (Job i) = {}" if "s_job s' i = None" for i
    using that h d(7) [of i] a [of i] q(2,3) by (cases "i = j") auto
  ultimately show ?thesis unfolding sched_core_def using q(1) l(1) by blast
qed

lemma core_mono: "sched_core J s \<Longrightarrow> J \<subseteq> J' \<Longrightarrow> sched_core J' s"
  unfolding sched_core_def by blast

text \<open>Fields that say nothing about the list or the timer of a job.\<close>

lemma core_payload:
  assumes "sched_core J s" "s_job s j = Some x" "j_state y = j_state x" "j_time_event y = j_time_event x"
    "j_delivery y = j_delivery x \<or> j \<in> J \<or> j_state x \<noteq> AVAHI_SCHEDULED"
  shows "sched_core J (s\<lparr>s_job := (s_job s)(j \<mapsto> y)\<rparr>)"
proof (rule core_update [OF assms(1), where j = j and v = "Some y" and T = "armed (s_time_event_queue s) (Job j)"])
  note d = sched_coreD [OF assms(1)]
  show "j < s_next (s\<lparr>s_job := (s_job s)(j \<mapsto> y)\<rparr>)" using d(4) [OF assms(2)] by simp
  show "i \<in> set (job_list st (s\<lparr>s_job := (s_job s)(j \<mapsto> y)\<rparr>)) \<longleftrightarrow>
    (if i = j then \<exists>x. Some y = Some x \<and> j_state x = st else i \<in> set (job_list st s))" for st i
    using d(3) [of j st] assms(2,3) by simp
  show "armed_as (s_time_event_queue (s\<lparr>s_job := (s_job s)(j \<mapsto> y)\<rparr>)) (Job j) (j_time_event x')" if "Some y = Some x'" for x'
    using d(5) [OF assms(2)] assms(4) that by simp
  show "job_timer_ok (s_time_event_queue (s\<lparr>s_job := (s_job s)(j \<mapsto> y)\<rparr>)) j x'" if "Some y = Some x'" "j \<notin> J" for x'
    using d(6) [OF assms(2)] assms(3-5) that by (auto simp: job_timer_ok_def)
qed (use sched_coreD [OF assms(1)] in auto)

lemma core_simple [simp]:
  "sched_core J (s\<lparr>s_jitter := i\<rparr>) = sched_core J s" "sched_core J (s\<lparr>s_sent := ps\<rparr>) = sched_core J s"
  by (simp_all add: sched_core_def)

lemma job_new_ok:
  assumes "sched_core J s" "job_new x s = (s', j)"
  shows "sched_core (insert j J) s'" "s_job s j = None" "s_job s' = (s_job s)(j \<mapsto> x\<lparr>j_time_event := None\<rparr>)"
    "job_list st s' = (if st = j_state x then j # job_list st s else job_list st s)"
    "s_time_event_queue s' = s_time_event_queue s" "s_jitter s' = s_jitter s" "same_rest s s'"
proof -
  note d = sched_coreD [OF assms(1)]
  have s': "s' = map_list (j_state x) (\<lambda>js. j # js) (s\<lparr>s_job := (s_job s)(j \<mapsto> x\<lparr>j_time_event := None\<rparr>), s_next := j + 1\<rparr>)"
    and j: "j = s_next s" using assms(2) by (auto simp: job_new_def Let_def)
  show n: "s_job s j = None" using d(4) [of j] j by (cases "s_job s j") auto
  show h: "s_job s' = (s_job s)(j \<mapsto> x\<lparr>j_time_event := None\<rparr>)" by (simp add: s')
  show l: "job_list st s' = (if st = j_state x then j # job_list st s else job_list st s)" for st by (simp add: s')
  show q: "s_time_event_queue s' = s_time_event_queue s" "s_jitter s' = s_jitter s" "same_rest s s'" by (simp_all add: s' same_rest_def)
  have nl: "j \<notin> set (job_list st s)" for st using d(3) n by simp
  show "sched_core (insert j J) s'"
  proof (rule core_update [OF assms(1) h, where T = "{}"])
    show "distinct (job_list st s')" for st using l d(2) nl by simp
    show "i \<in> set (job_list st s') \<longleftrightarrow> (if i = j then \<exists>y. Some (x\<lparr>j_time_event := None\<rparr>) = Some y \<and> j_state y = st else i \<in> set (job_list st s))" for st i
      using l nl by auto
    show "armed (s_time_event_queue s') = (armed (s_time_event_queue s))(Job j := {})" using d(7) [OF n] q(1) by (simp add: fun_upd_idem)
  qed (use d(1) d(7) [OF n] j q(1) in \<open>auto simp: s'\<close>)
qed

lemma job_free_ok:
  assumes "sched_core J s" "s_job s j = Some x"
  shows "\<exists>s'. job_free j s = Some s' \<and> sched_core (J - {j}) s' \<and> s_job s' = (s_job s)(j := None) \<and>
    (\<forall>st. job_list st s' = remove1 j (job_list st s)) \<and> s_jitter s' = s_jitter s \<and> same_rest s s'"
proof -
  note d = sched_coreD [OF assms(1)]
  let ?q = "s_time_event_queue s"
  have "\<exists>q. (case j_time_event x of Some t \<Rightarrow> avahi_time_event_free ?q t | None \<Rightarrow> Some ?q) = Some q \<and> teq_core q \<and>
    armed q = (armed ?q)(Job j := {})"
  proof (cases "j_time_event x")
    case None
    with d(1,5) assms(2) have "armed ?q (Job j) = {}" by fastforce
    with None d(1) show ?thesis by (auto simp: fun_eq_iff)
  next
    case (Some t)
    with d(5) [OF assms(2)] obtain a where "armed ?q (Job j) = {(t, a)}" by (auto simp: armed_as_def)
    from free_timer_ok [OF d(1) this] Some show ?thesis by simp
  qed
  then obtain q where q: "(case j_time_event x of Some t \<Rightarrow> avahi_time_event_free ?q t | None \<Rightarrow> Some ?q) = Some q" "teq_core q"
    "armed q = (armed ?q)(Job j := {})" by blast
  let ?s = "map_list (j_state x) (remove1 j) (s\<lparr>s_time_event_queue := q\<rparr>)"
  let ?s' = "?s\<lparr>s_job := (s_job ?s)(j := None)\<rparr>"
  have m: "j \<in> set (job_list (j_state x) s)" using d(3) assms(2) by simp
  have e: "job_free j s = Some ?s'" using assms(2) q(1) m by (simp add: job_free_def)
  have l: "job_list st ?s' = remove1 j (job_list st s)" for st
    using d(3) [of j st] assms(2) by (auto simp: remove1_idem)
  have "sched_core (J - {j}) ?s'"
  proof (rule core_update [OF assms(1), where j = j and v = None and T = "{}"])
    show "distinct (job_list st ?s')" for st using l d(2) by simp
    show "i \<in> set (job_list st ?s') \<longleftrightarrow> (if i = j then \<exists>y. None = Some y \<and> j_state y = st else i \<in> set (job_list st s))" for st i
      unfolding l using d(2) [of st] by auto
  qed (use q in simp_all)
  with e l show ?thesis by (intro exI [of _ ?s']) (simp add: same_rest_def)
qed

lemma set_time_ok:
  assumes "sched_core J s" "s_job s j = Some x" "j_state x \<noteq> AVAHI_SCHEDULED \<or> j_delivery x = tv \<or> j \<in> J'" "J - {j} \<subseteq> J'"
  shows "\<exists>s' t. job_set_time j tv s = Some s' \<and> sched_core J' s' \<and> s_job s' = (s_job s)(j \<mapsto> x\<lparr>j_time_event := Some t\<rparr>) \<and>
    armed (s_time_event_queue s') (Job j) = {(t, tv)} \<and> (\<forall>st. job_list st s' = job_list st s) \<and> s_jitter s' = s_jitter s \<and> same_rest s s'"
proof -
  note d = sched_coreD [OF assms(1)]
  from set_timer_ok [OF d(1) d(5) [OF assms(2)], of "Some tv"] obtain t q where
    q: "set_timer (Job j) (j_time_event x) (Some tv) (s_time_event_queue s) = Some (Some t, q)" "teq_core q"
      "armed q = (armed (s_time_event_queue s))(Job j := {(t, tv)})" by auto
  let ?s' = "s\<lparr>s_time_event_queue := q, s_job := (s_job s)(j \<mapsto> x\<lparr>j_time_event := Some t\<rparr>)\<rparr>"
  have e: "job_set_time j tv s = Some ?s'" using assms(2) q(1) by (simp add: job_set_time_def mod_job_def)
  have "sched_core J' ?s'"
  proof (rule core_update [OF assms(1), where j = j and v = "Some (x\<lparr>j_time_event := Some t\<rparr>)" and T = "{(t, tv)}"])
    show "i \<in> set (job_list st ?s') \<longleftrightarrow> (if i = j then \<exists>y. Some (x\<lparr>j_time_event := Some t\<rparr>) = Some y \<and> j_state y = st else i \<in> set (job_list st s))" for st i
      using d(3) [of j st] assms(2) by simp
    show "j < s_next ?s'" using d(4) [OF assms(2)] by simp
  qed (use q d assms(3,4) in \<open>auto simp: armed_as_def job_timer_ok_def\<close>)
  with e q(3) show ?thesis by (intro exI [of _ ?s'] exI [of _ t]) (simp add: same_rest_def)
qed

lemma move_delivery_ok:
  assumes "sched_core J s" "s_job s j = Some x" "j \<notin> J" "j_delivery y = tv" "j_state y = j_state x" "j_time_event y = j_time_event x"
  shows "\<exists>t q. j_time_event x = Some t \<and> avahi_time_event_update (s_time_event_queue s) t tv = Some q \<and>
    sched_core J (s\<lparr>s_job := (s_job s)(j \<mapsto> y), s_time_event_queue := q\<rparr>)"
proof -
  note d = sched_coreD [OF assms(1)]
  from d(6) [OF assms(2,3)] obtain t a where t: "j_time_event x = Some t" "armed (s_time_event_queue s) (Job j) = {(t, a)}"
    by (auto simp: job_timer_ok_def)
  from update_timer_ok [OF d(1) t(2), of tv] obtain q where
    q: "avahi_time_event_update (s_time_event_queue s) t tv = Some q" "teq_core q" "armed q = (armed (s_time_event_queue s))(Job j := {(t, tv)})" by blast
  let ?s = "s\<lparr>s_job := (s_job s)(j \<mapsto> y), s_time_event_queue := q\<rparr>"
  have "sched_core J ?s"
  proof (rule core_update [OF assms(1), where j = j and v = "Some y" and T = "{(t, tv)}"])
    show "i \<in> set (job_list st ?s) \<longleftrightarrow> (if i = j then \<exists>x. Some y = Some x \<and> j_state x = st else i \<in> set (job_list st s))" for st i
      using d(3) [of j st] assms(2,5) by simp
    show "j < s_next ?s" using d(4) [OF assms(2)] by simp
    show "distinct (job_list st ?s)" for st using d(2) by simp
  qed (use q t assms(4,6) in \<open>auto simp: armed_as_def job_timer_ok_def\<close>)
  with t(1) q(1) show ?thesis by blast
qed

lemma set_elapse_ok:
  assumes "sched_core J s" "s_job s j = Some x" "j_state x \<noteq> AVAHI_SCHEDULED"
  shows "\<exists>s' t. job_set_elapse_time v j msec jitter s = Some s' \<and> sched_core (J - {j}) s' \<and>
    s_job s' = (s_job s)(j \<mapsto> x\<lparr>j_time_event := Some t\<rparr>) \<and>
    due (s_time_event_queue s') (Job j) = {fst (elapse v msec jitter (s_jitter s))} \<and> (\<forall>st. job_list st s' = job_list st s) \<and> same_rest s s'"
proof -
  obtain tv i where e: "elapse v msec jitter (s_jitter s) = (tv, i)" by fastforce
  have "sched_core J (s\<lparr>s_jitter := i\<rparr>)" "s_job (s\<lparr>s_jitter := i\<rparr>) j = Some x" using assms(1,2) by simp_all
  from set_time_ok [OF this, of tv "J - {j}"] assms(3) e show ?thesis
    by (auto simp: job_set_elapse_time_def due_def same_rest_def)
qed

lemma mark_done_ok:
  assumes "sched_core J s" "s_job s j = Some x" "j_state x = AVAHI_SCHEDULED"
  shows "\<exists>s' t. job_mark_done v msec j s = Some s' \<and> sched_core (J - {j}) s' \<and>
    s_job s' = (s_job s)(j \<mapsto> x\<lparr>j_state := AVAHI_DONE, j_time_event := Some t, j_delivery := env_now v\<rparr>) \<and>
    s_jobs s' = remove1 j (s_jobs s) \<and> s_history s' = j # s_history s \<and> s_suppressed s' = s_suppressed s \<and>
    due (s_time_event_queue s') (Job j) = {fst (elapse v msec 0 (s_jitter s))} \<and> same_rest s s'"
proof -
  note d = sched_coreD [OF assms(1)]
  have m: "j \<in> set (s_jobs s)" using d(3) [of j AVAHI_SCHEDULED] assms(2,3) by simp
  have nm: "j \<notin> set (s_history s)" using d(3) [of j AVAHI_DONE] assms(2,3) by simp
  let ?x = "x\<lparr>j_state := AVAHI_DONE\<rparr>"
  let ?s = "s\<lparr>s_jobs := remove1 j (s_jobs s), s_history := j # s_history s, s_job := (s_job s)(j \<mapsto> ?x)\<rparr>"
  have l: "job_list st ?s = (case st of AVAHI_SCHEDULED \<Rightarrow> remove1 j (s_jobs s) | AVAHI_DONE \<Rightarrow> j # s_history s | AVAHI_SUPPRESSED \<Rightarrow> s_suppressed s)" for st
    by (cases st) (simp_all add: job_list_def)
  have c: "sched_core (insert j J) ?s"
  proof (rule core_update [OF assms(1), where j = j and v = "Some ?x" and T = "armed (s_time_event_queue s) (Job j)"])
    show "distinct (job_list st ?s)" for st
      unfolding l using d(2) [of AVAHI_SCHEDULED] d(2) [of AVAHI_DONE] d(2) [of AVAHI_SUPPRESSED] nm by (cases st) simp_all
    show "i \<in> set (job_list st ?s) \<longleftrightarrow> (if i = j then \<exists>y. Some ?x = Some y \<and> j_state y = st else i \<in> set (job_list st s))" for st i
      unfolding l using d(2) [of AVAHI_SCHEDULED] d(3) [of j AVAHI_SUPPRESSED] assms(2,3) by (cases st) auto
    show "j < s_next ?s" using d(4) [OF assms(2)] by simp
  qed (use d(1) d(5) [OF assms(2)] in auto)
  have x: "s_job ?s j = Some ?x" by simp
  from set_elapse_ok [OF c x, of v msec 0] obtain s1 t where
    s1: "job_set_elapse_time v j msec 0 ?s = Some s1" "sched_core (J - {j}) s1" "s_job s1 = (s_job ?s)(j \<mapsto> ?x\<lparr>j_time_event := Some t\<rparr>)"
      "due (s_time_event_queue s1) (Job j) = {fst (elapse v msec 0 (s_jitter s))}" "\<And>st. job_list st s1 = job_list st ?s" "same_rest ?s s1" by auto
  let ?y = "?x\<lparr>j_time_event := Some t, j_delivery := env_now v\<rparr>"
  let ?s2 = "s1\<lparr>s_job := (s_job s1)(j \<mapsto> ?y)\<rparr>"
  have "sched_core (J - {j}) ?s2" by (rule core_payload [OF s1(2), where x = "?x\<lparr>j_time_event := Some t\<rparr>"]) (simp_all add: s1(3))
  moreover have "job_mark_done v msec j s = Some ?s2" using assms(2,3) m s1(1,3) by (simp add: job_mark_done_def mod_job_def)
  moreover have "s_jobs ?s2 = remove1 j (s_jobs s)" "s_history ?s2 = j # s_history s" "s_suppressed ?s2 = s_suppressed s"
    using s1(5) [of AVAHI_SCHEDULED] s1(5) [of AVAHI_DONE] s1(5) [of AVAHI_SUPPRESSED] by simp_all
  moreover have "same_rest s ?s2" using s1(6) by (simp add: same_rest_def)
  ultimately show ?thesis using s1(3,4) by (intro exI [of _ ?s2] exI [of _ t]) simp
qed

lemma clear_list_ok:
  assumes "sched_ok s"
  shows "\<exists>s'. while_head (\<lambda>s. Some (job_list st s)) job_free s = Some s' \<and> sched_ok s' \<and> job_list st s' = [] \<and>
    (\<forall>st'. job_list st' s = [] \<longrightarrow> job_list st' s' = []) \<and> same_rest s s'"
proof -
  have "\<exists>s'. while_head (\<lambda>s. Some (job_list st s)) job_free s = Some s' \<and>
      (sched_ok s' \<and> (\<forall>st'. job_list st' s = [] \<longrightarrow> job_list st' s' = []) \<and> same_rest s s') \<and> Some (job_list st s') = Some []"
  proof (rule while_head_rule [where I = "\<lambda>s'. sched_ok s' \<and> (\<forall>st'. job_list st' s = [] \<longrightarrow> job_list st' s' = []) \<and> same_rest s s'"])
    fix t x xs
    assume t: "sched_ok t \<and> (\<forall>st'. job_list st' s = [] \<longrightarrow> job_list st' t = []) \<and> same_rest s t" and h: "Some (job_list st t) = Some (x # xs)"
    from t have c: "sched_ok t" by blast
    from h have "x \<in> set (job_list st t)" by simp
    with sched_coreD(3) [OF c] obtain y where y: "s_job t x = Some y" by blast
    from job_free_ok [OF c y] obtain t' where
      t': "job_free x t = Some t'" "sched_ok t'" "\<And>st. job_list st t' = remove1 x (job_list st t)" "same_rest t t'" by auto
    with t h show "\<exists>s'. job_free x t = Some s' \<and> (sched_ok s' \<and> (\<forall>st'. job_list st' s = [] \<longrightarrow> job_list st' s' = []) \<and> same_rest s s') \<and>
        Some (job_list st s') = Some xs"
      using same_rest_trans [of s t t'] by auto
  qed (use assms in simp_all)
  then show ?thesis by auto
qed

lemma scheduler_clear_ok:
  assumes "sched_ok s"
  shows "\<exists>s'. scheduler_clear s = Some s' \<and> sched_ok s' \<and> s_job s' = (\<lambda>_. None) \<and> same_rest s s'"
proof -
  from clear_list_ok [OF assms, of AVAHI_SCHEDULED] obtain s1 where
    s1: "while_head (\<lambda>s. Some (s_jobs s)) job_free s = Some s1" "sched_ok s1" "s_jobs s1 = []" "same_rest s s1" by auto
  from clear_list_ok [OF s1(2), of AVAHI_DONE] obtain s2 where
    s2: "while_head (\<lambda>s. Some (s_history s)) job_free s1 = Some s2" "sched_ok s2" "s_history s2 = []" "same_rest s1 s2"
      "\<And>st. job_list st s1 = [] \<Longrightarrow> job_list st s2 = []" by auto
  from clear_list_ok [OF s2(2), of AVAHI_SUPPRESSED] obtain s3 where
    s3: "while_head (\<lambda>s. Some (s_suppressed s)) job_free s2 = Some s3" "sched_ok s3" "s_suppressed s3 = []" "same_rest s2 s3"
      "\<And>st. job_list st s2 = [] \<Longrightarrow> job_list st s3 = []" by auto
  have e: "job_list st s3 = []" for st
    using s1(3) s2(3) s2(5) [of AVAHI_SCHEDULED] s3(3) s3(5) [of AVAHI_SCHEDULED] s3(5) [of AVAHI_DONE] by (cases st) simp_all
  have "s_job s3 j = None" for j
  proof (cases "s_job s3 j")
    case (Some x)
    with sched_coreD(3) [OF s3(2), of j "j_state x"] e show ?thesis by simp
  qed
  then have "s_job s3 = (\<lambda>_. None)" by blast
  with s1 s2 s3 same_rest_trans [OF same_rest_trans [OF s1(4) s2(4)] s3(4)] show ?thesis by (simp add: scheduler_clear_def)
qed

text \<open>A search finds the first job of the list that is the same.\<close>

lemma find_job_eq:
  assumes "sched_core J s" "\<And>j x. s_job s j = Some x \<Longrightarrow> j_state x = st \<Longrightarrow> same x = Some (p x)"
  shows "find_job same st s = Some (find (\<lambda>j. case s_job s j of None \<Rightarrow> False | Some x \<Rightarrow> p x) (job_list st s))"
  unfolding find_job_def
proof (rule find_first_eq)
  fix j
  assume "j \<in> set (job_list st s)"
  then obtain x where "s_job s j = Some x" "j_state x = st" using sched_coreD(3) [OF assms(1)] by blast
  with assms(2) show "(do { x \<leftarrow> s_job s j; assert_that (j_state x = st); same x }) = Some (case s_job s j of None \<Rightarrow> False | Some x \<Rightarrow> p x)" by simp
qed

lemma find_job_cases:
  assumes "sched_core J s" "\<And>j x. s_job s j = Some x \<Longrightarrow> j_state x = st \<Longrightarrow> same x = Some (p x)"
  obtains (none) "find_job same st s = Some None" "\<And>j x. s_job s j = Some x \<Longrightarrow> j_state x = st \<Longrightarrow> \<not> p x"
  | (found) j x where "find_job same st s = Some (Some j)" "s_job s j = Some x" "j_state x = st" "p x"
proof -
  let ?q = "\<lambda>j. case s_job s j of None \<Rightarrow> False | Some x \<Rightarrow> p x"
  from find_job_eq [OF assms] have e: "find_job same st s = Some (find ?q (job_list st s))" .
  show thesis
  proof (cases "find ?q (job_list st s)")
    case None
    have "\<not> p x" if "s_job s j = Some x" "j_state x = st" for j x
      using None that sched_coreD(3) [OF assms(1), of j st] by (auto simp: find_None_iff)
    with None e show thesis by (intro none) auto
  next
    case (Some j)
    then have "j \<in> set (job_list st s)" "?q j" by (auto simp: find_Some_iff)
    with sched_coreD(3) [OF assms(1), of j st] obtain x where "s_job s j = Some x" "j_state x = st" "p x" by auto
    with e Some show thesis by (intro found [of j x]) simp_all
  qed
qed

lemma find_recent_ok:
  assumes "sched_core J s" "\<And>j x. s_job s j = Some x \<Longrightarrow> j_state x = st \<Longrightarrow> same x = Some (p x)"
  obtains (none) "find_recent_job v outdated same st s = Some (s, None)" "\<And>j x. s_job s j = Some x \<Longrightarrow> j_state x = st \<Longrightarrow> \<not> p x"
  | (old) s' j x where "find_recent_job v outdated same st s = Some (s', None)" "s_job s j = Some x" "j_state x = st" "p x"
      "outdated (avahi_age (env_now v) (j_delivery x))" "job_free j s = Some s'" "sched_core (J - {j}) s'" "s_job s' = (s_job s)(j := None)"
      "\<And>st. job_list st s' = remove1 j (job_list st s)" "same_rest s s'"
  | (recent) j x where "find_recent_job v outdated same st s = Some (s, Some j)" "s_job s j = Some x" "j_state x = st" "p x"
      "\<not> outdated (avahi_age (env_now v) (j_delivery x))"
proof (rule find_job_cases [OF assms])
  assume "find_job same st s = Some None" "\<And>j x. s_job s j = Some x \<Longrightarrow> j_state x = st \<Longrightarrow> \<not> p x"
  with none show thesis by (simp add: find_recent_job_def)
next
  fix j x
  assume f: "find_job same st s = Some (Some j)" "s_job s j = Some x" "j_state x = st" "p x"
  show thesis
  proof (cases "outdated (avahi_age (env_now v) (j_delivery x))")
    case True
    from job_free_ok [OF assms(1) f(2)] obtain s' where
      s': "job_free j s = Some s'" "sched_core (J - {j}) s'" "s_job s' = (s_job s)(j := None)"
        "\<And>st. job_list st s' = remove1 j (job_list st s)" "same_rest s s'" by blast
    have "find_recent_job v outdated same st s = Some (s', None)" using f True s'(1) by (simp add: find_recent_job_def)
    from old [OF this f(2-4) True s'] show thesis .
  next
    case False
    with f recent show thesis by (simp add: find_recent_job_def)
  qed
qed

end
