(* ===== verification/Keychain.thy ===== *)
theory Keychain
  imports Llist Rr
begin

text \<open>
  Objects found by their key. The cache, the lookups and the server keep objects that have an
  \<open>AvahiKey\<close> in a hash map from keys to the first of the objects with that key; the others hang behind
  it in the list made of the fields \<open>by_key\<close>. This theory holds what those components share: the hash
  map seen by canonical key, and the invariant \<open>keyed\<close> with the three changes the components make.
\<close>

type_synonym canon_key = "cstr list \<times> u16 \<times> u16"

subsection \<open>A hash map with keys, seen by canonical key\<close>

definition km_get :: "(rrkey, 'v) hashmap \<Rightarrow> canon_key \<Rightarrow> (rrkey \<times> 'v) option" where
  "km_get m kc = map_of (map (\<lambda>(k, v). (key_canon k, (k, v))) (hm_alist m)) kc"

abbreviation km_inv :: "(rrkey, 'v) hashmap \<Rightarrow> bool" where
  "km_inv m \<equiv> hm_inv key_readable rr_key_hash rr_key_eq m"

lemma rr_key_eq_canon: "key_readable a \<Longrightarrow> key_readable b \<Longrightarrow> rr_key_eq a b \<longleftrightarrow> key_canon a = key_canon b"
  by (simp add: rr_key_eq_def key_equal_canon)

lemma km_get_SomeD:
  assumes "km_inv m" "km_get m kc = Some (k, v)"
  shows "key_canon k = kc" "key_readable k" "(k, v) \<in> set (hm_alist m)"
proof -
  from assms(2) have "(kc, (k, v)) \<in> set (map (\<lambda>(k, v). (key_canon k, (k, v))) (hm_alist m))"
    unfolding km_get_def by (rule map_of_SomeD)
  then show "key_canon k = kc" "(k, v) \<in> set (hm_alist m)" by auto
  with rr_key.keys_ok [OF assms(1)] show "key_readable k" by blast
qed

lemma km_lookup_list:
  assumes "\<forall>(k, v) \<in> set al. key_readable k" "key_readable key"
  shows "al_lookup rr_key_eq al key = map_option snd (map_of (map (\<lambda>(k, v). (key_canon k, (k, v))) al) (key_canon key))"
  using assms
proof (induction al)
  case (Cons x al)
  obtain k v where x: "x = (k, v)" by (cases x)
  with Cons.prems have "key_readable k" by simp
  then have "rr_key_eq key k \<longleftrightarrow> key_canon k = key_canon key"
    using rr_key_eq_canon [OF Cons.prems(2)] by auto
  with Cons x show ?case by simp
qed simp

lemma km_lookup:
  assumes "km_inv m" "key_readable k"
  shows "avahi_hashmap_lookup m k = Some (map_option snd (km_get m (key_canon k)))"
proof -
  have "\<forall>(k, v) \<in> set (hm_alist m). key_readable k" using rr_key.keys_ok [OF assms(1)] by blast
  from km_lookup_list [OF this assms(2)] rr_key.lookup_eq [OF assms] show ?thesis by (simp add: km_get_def)
qed

lemma km_new: "km_inv (avahi_hashmap_new rr_key_hash rr_key_eq kf vf)"
  "km_get (avahi_hashmap_new rr_key_hash rr_key_eq kf vf) kc = None"
  using hm_inv_new by (simp_all add: km_get_def hm_alist_def avahi_hashmap_new_def hm_inv_def)

lemma km_replace:
  assumes "km_inv m" "key_readable k"
  obtains m' r where "avahi_hashmap_replace m k v = Some (m', r)" "km_inv m'"
    "km_get m' = (km_get m)(key_canon k \<mapsto> (k, v))"
proof -
  have ok: "\<forall>(k, v) \<in> set (hm_alist m). key_readable k" using rr_key.keys_ok [OF assms(1)] by blast
  obtain m' r where m': "avahi_hashmap_replace m k v = Some (m', r)" "km_inv m'"
    "hm_alist m' = (if al_lookup rr_key_eq (hm_alist m) k = None then (k, v) # hm_alist m
       else map (\<lambda>(k', w). if rr_key_eq k k' then (k, v) else (k', w)) (hm_alist m))"
    by (rule rr_key.replace_result [OF assms, of v])
  have upd: "map_of (map (\<lambda>(k, v). (key_canon k, (k, v))) (map (\<lambda>(k', w). if rr_key_eq k k' then (k, v) else (k', w)) al)) kc =
      (if kc = key_canon k then (case map_of (map (\<lambda>(k, v). (key_canon k, (k, v))) al) kc of None \<Rightarrow> None | Some _ \<Rightarrow> Some (k, v))
       else map_of (map (\<lambda>(k, v). (key_canon k, (k, v))) al) kc)" if "\<forall>(k, v) \<in> set al. key_readable k" for al kc
    using that
  proof (induction al)
    case (Cons x al)
    obtain k0 w where x: "x = (k0, w)" by (cases x)
    with Cons.prems have r: "rr_key_eq k k0 \<longleftrightarrow> key_canon k = key_canon k0" and
      al: "\<forall>(k, v) \<in> set al. key_readable k" by (simp_all add: rr_key_eq_canon assms(2))
    show ?case
    proof (cases "key_canon k = key_canon k0")
      case True
      with Cons.IH [OF al] show ?thesis unfolding x by (simp add: r del: map_map)
    next
      case False
      then have "kc = key_canon k0 \<Longrightarrow> kc \<noteq> key_canon k" by simp
      with False Cons.IH [OF al] show ?thesis
        unfolding x by (cases "kc = key_canon k0") (simp_all add: r del: map_map)
    qed
  qed simp
  have "km_get m' kc = ((km_get m)(key_canon k \<mapsto> (k, v))) kc" for kc
  proof (cases "al_lookup rr_key_eq (hm_alist m) k = None")
    case True
    then show ?thesis using m'(3) by (simp add: km_get_def)
  next
    case False
    then show ?thesis using m'(3) km_lookup_list [OF ok assms(2)] upd [OF ok, of kc]
      by (auto simp: km_get_def split: option.split)
  qed
  then have "km_get m' = (km_get m)(key_canon k \<mapsto> (k, v))" by blast
  with that m'(1,2) show thesis by blast
qed

lemma km_remove:
  assumes "km_inv m" "key_readable k"
  obtains m' where "avahi_hashmap_remove m k = Some m'" "km_inv m'" "km_get m' = (km_get m)(key_canon k := None)"
proof -
  have ok: "\<forall>(k, v) \<in> set (hm_alist m). key_readable k" using rr_key.keys_ok [OF assms(1)] by blast
  obtain m' where m': "avahi_hashmap_remove m k = Some m'" "km_inv m'"
    "hm_alist m' = filter (\<lambda>(k', w). \<not> rr_key_eq k k') (hm_alist m)"
    by (rule rr_key.remove_result [OF assms])
  have "map_of (map (\<lambda>(k, v). (key_canon k, (k, v))) (filter (\<lambda>(k', w). \<not> rr_key_eq k k') al)) kc =
      (if kc = key_canon k then None else map_of (map (\<lambda>(k, v). (key_canon k, (k, v))) al) kc)"
    if "\<forall>(k, v) \<in> set al. key_readable k" for al kc
    using that by (induction al) (auto simp: rr_key_eq_canon assms(2))
  from this [OF ok] have "km_get m' = (km_get m)(key_canon k := None)"
    unfolding km_get_def m'(3) by (intro ext) simp
  with that m'(1,2) show thesis by blast
qed

lemma km_alist:
  assumes "km_inv m" "(k, v) \<in> set (hm_alist m)"
  shows "km_get m (key_canon k) = Some (k, v)"
proof -
  note d = hm_invD [OF assms(1)]
  have "inj_on (\<lambda>e. key_canon (hm_key m e)) (set (entries_list m))"
  proof (rule inj_onI)
    fix e e'
    assume e: "e \<in> set (entries_list m)" "e' \<in> set (entries_list m)" "key_canon (hm_key m e) = key_canon (hm_key m e')"
    then have "rr_key_eq (hm_key m e) (hm_key m e')" using d(7) by (simp add: rr_key_eq_canon)
    then show "e = e'" using d(8) e(1,2) by blast
  qed
  then have "distinct (map (\<lambda>e. key_canon (hm_key m e)) (entries_list m))"
    using d(4) by (simp add: distinct_map)
  moreover have "map fst (map (\<lambda>(k, v). (key_canon k, (k, v))) (hm_alist m)) = map (\<lambda>e. key_canon (hm_key m e)) (entries_list m)"
    by (simp add: hm_alist_def hm_key_def case_prod_beta)
  ultimately have "distinct (map fst (map (\<lambda>(k, v). (key_canon k, (k, v))) (hm_alist m)))" by simp
  moreover have "(key_canon k, (k, v)) \<in> set (map (\<lambda>(k, v). (key_canon k, (k, v))) (hm_alist m))" using assms(2) by force
  ultimately show ?thesis unfolding km_get_def by (rule map_of_is_SomeI)
qed
subsection \<open>The objects with a key\<close>

text \<open>
  \<open>ks e\<close> is the key of object \<open>e\<close> if it exists, \<open>ch kc\<close> the objects with the canonical key \<open>kc\<close> in the order
  of their list.
\<close>

definition keyed :: "(rrkey, nat) hashmap \<Rightarrow> links \<Rightarrow> (nat \<rightharpoonup> rrkey) \<Rightarrow> (canon_key \<Rightarrow> nat list) \<Rightarrow> bool" where
  "keyed m lk ks ch \<longleftrightarrow> km_inv m \<and>
     (\<forall>kc. llist lk (hd_opt (ch kc)) (ch kc) \<and> map_option snd (km_get m kc) = hd_opt (ch kc)) \<and>
     (\<forall>kc e. e \<in> set (ch kc) \<longleftrightarrow> (\<exists>k. ks e = Some k \<and> key_canon k = kc)) \<and>
     (\<forall>e k. ks e = Some k \<longrightarrow> key_readable k)"

lemma keyedD:
  assumes "keyed m lk ks ch"
  shows "km_inv m" "llist lk (hd_opt (ch kc)) (ch kc)" "map_option snd (km_get m kc) = hd_opt (ch kc)"
    "e \<in> set (ch kc) \<longleftrightarrow> (\<exists>k. ks e = Some k \<and> key_canon k = kc)" "ks e = Some k \<Longrightarrow> key_readable k"
    "distinct (ch kc)"
  using assms unfolding keyed_def llist_def by blast+

lemma keyed_lookup:
  "keyed m lk ks ch \<Longrightarrow> key_readable k \<Longrightarrow> avahi_hashmap_lookup m k = Some (hd_opt (ch (key_canon k)))"
  using km_lookup [of m k] keyedD(1,3) [of m lk ks ch] by simp

lemma keyed_new: "keyed (avahi_hashmap_new rr_key_hash rr_key_eq kf vf) no_links (\<lambda>_. None) (\<lambda>_. [])"
  unfolding keyed_def by (simp add: km_new)

text \<open>A new object in front of its list.\<close>

lemma keyed_add:
  assumes "keyed m lk ks ch" "ks e = None" "key_readable k"
  obtains m' r where "avahi_hashmap_replace m k e = Some (m', r)" "km_get m' = (km_get m)(key_canon k \<mapsto> (k, e))"
    "keyed m' (fst (llist_prepend lk (hd_opt (ch (key_canon k))) e)) (ks(e \<mapsto> k))
       (ch(key_canon k := e # ch (key_canon k)))"
proof -
  note d = keyedD [OF assms(1)]
  let ?kc = "key_canon k"
  obtain m' r where m': "avahi_hashmap_replace m k e = Some (m', r)" "km_inv m'" "km_get m' = (km_get m)(?kc \<mapsto> (k, e))"
    by (rule km_replace [OF d(1) assms(3)])
  have e: "e \<notin> set (ch kc)" for kc using d(4) [of e kc] assms(2) by simp
  note p = llist_prepend_ok [OF d(2) [of ?kc] e]
  let ?lk = "fst (llist_prepend lk (hd_opt (ch ?kc)) e)"
  have "llist ?lk (hd_opt (ch kc)) (ch kc)" if "kc \<noteq> ?kc" for kc
  proof -
    have "y \<notin> set (e # ch ?kc)" if y: "y \<in> set (ch kc)" for y
      using y e [of kc] d(4) [of y kc] d(4) [of y ?kc] \<open>kc \<noteq> ?kc\<close> by auto
    then show ?thesis using llist_cong [of "ch kc" ?lk lk "hd_opt (ch kc)"] p(3) d(2) [of kc] by blast
  qed
  then have "keyed m' ?lk (ks(e \<mapsto> k)) (ch(?kc := e # ch ?kc))"
    using m' d p(1) e assms(3) unfolding keyed_def by (auto simp: fun_upd_apply)
  with that m'(1,3) show thesis by blast
qed

text \<open>An object leaves its list.\<close>

lemma keyed_remove:
  assumes "keyed m lk ks ch" "ks e = Some k"
  obtains lk' where "llist_remove lk (hd_opt (ch (key_canon k))) e = Some (lk', hd_opt (remove1 e (ch (key_canon k))))"
    "\<forall>m'. km_inv m' \<and> map_option snd (km_get m' (key_canon k)) = hd_opt (remove1 e (ch (key_canon k))) \<and>
      (\<forall>kc. kc \<noteq> key_canon k \<longrightarrow> km_get m' kc = km_get m kc) \<longrightarrow>
      keyed m' lk' (ks(e := None)) (ch(key_canon k := remove1 e (ch (key_canon k))))"
proof -
  note d = keyedD [OF assms(1)]
  let ?kc = "key_canon k"
  have e: "e \<in> set (ch ?kc)" using d(4) assms(2) by blast
  obtain lk' where lk': "llist_remove lk (hd_opt (ch ?kc)) e = Some (lk', hd_opt (remove1 e (ch ?kc)))"
    "llist lk' (hd_opt (remove1 e (ch ?kc))) (remove1 e (ch ?kc))"
    "\<And>y. y \<notin> set (ch ?kc) \<Longrightarrow> l_next lk' y = l_next lk y \<and> l_prev lk' y = l_prev lk y"
    "l_next lk' e = None" "l_prev lk' e = None"
    using llist_remove_ok [OF d(2) [of ?kc] e] by metis
  have o: "llist lk' (hd_opt (ch kc)) (ch kc)" if "kc \<noteq> ?kc" for kc
  proof -
    have "y \<notin> set (ch ?kc)" if y: "y \<in> set (ch kc)" for y
      using y d(4) [of y kc] d(4) [of y ?kc] \<open>kc \<noteq> ?kc\<close> by auto
    then show ?thesis using llist_cong [of "ch kc" lk' lk "hd_opt (ch kc)"] lk'(3) d(2) [of kc] by blast
  qed
  have s: "y \<in> set (remove1 e (ch ?kc)) \<longleftrightarrow> y \<noteq> e \<and> y \<in> set (ch ?kc)" for y using d(6) by auto
  show thesis
  proof (rule that)
    show "llist_remove lk (hd_opt (ch ?kc)) e = Some (lk', hd_opt (remove1 e (ch ?kc)))" by (rule lk'(1))
    have "keyed m' lk' (ks(e := None)) (ch(?kc := remove1 e (ch ?kc)))"
      if m': "km_inv m'" "map_option snd (km_get m' ?kc) = hd_opt (remove1 e (ch ?kc))"
        "\<And>kc. kc \<noteq> ?kc \<Longrightarrow> km_get m' kc = km_get m kc" for m'
      unfolding keyed_def
    proof (intro conjI allI impI, goal_cases)
      case 1
      show ?case by (rule m'(1))
    next
      case (2 kc)
      then show ?case using lk'(2) o by simp
    next
      case (3 kc)
      then show ?case using m'(2,3) d(3) [of kc] by simp
    next
      case (4 kc y)
      then show ?case using s [of y] d(4) [of y kc] assms(2) by auto
    next
      case (5 y k')
      then show ?case using d(5) [of y k'] by (simp split: if_splits)
    qed
    then show "\<forall>m'. km_inv m' \<and> map_option snd (km_get m' ?kc) = hd_opt (remove1 e (ch ?kc)) \<and>
      (\<forall>kc. kc \<noteq> ?kc \<longrightarrow> km_get m' kc = km_get m kc) \<longrightarrow>
      keyed m' lk' (ks(e := None)) (ch(?kc := remove1 e (ch ?kc)))" by blast
  qed
qed

text \<open>The key of an object is replaced by an equal one.\<close>

lemma keyed_rekey:
  assumes "keyed m lk ks ch" "ks e = Some k" "key_readable k'" "key_canon k' = key_canon k"
  shows "keyed m lk (ks(e \<mapsto> k')) ch"
    "hd_opt (ch (key_canon k)) = Some e \<Longrightarrow> \<exists>m' r. avahi_hashmap_replace m k' e = Some (m', r) \<and>
       keyed m' lk (ks(e \<mapsto> k')) ch \<and> km_get m' = (km_get m)(key_canon k \<mapsto> (k', e))"
proof -
  note d = keyedD [OF assms(1)]
  show r: "keyed m lk (ks(e \<mapsto> k')) ch"
    using assms(1) d(4) [of e] assms(2-4) unfolding keyed_def by auto
  assume h: "hd_opt (ch (key_canon k)) = Some e"
  obtain m' r where m': "avahi_hashmap_replace m k' e = Some (m', r)" "km_inv m'" "km_get m' = (km_get m)(key_canon k \<mapsto> (k', e))"
    using km_replace [OF d(1) assms(3), of e] assms(4) by metis
  moreover have "keyed m' lk (ks(e \<mapsto> k')) ch"
    using r m'(2,3) h unfolding keyed_def by (auto simp: fun_upd_apply)
  ultimately show "\<exists>m' r. avahi_hashmap_replace m k' e = Some (m', r) \<and> keyed m' lk (ks(e \<mapsto> k')) ch \<and>
      km_get m' = (km_get m)(key_canon k \<mapsto> (k', e))" by blast
qed

end
