(* ===== verification/Cache.thy ===== *)
theory Cache
  imports Keychain Timeeventq Address
begin

text \<open>
  The record cache of an interface (avahi-core/cache.c): the records that were heard on the network, each
  with a timer that asks for it again before its TTL is over and removes it in the end. An entry is a
  number with its fields in \<open>c_heap\<close>; reading a freed one is a crash. Entries with the same key hang in a
  list that starts in the hash map, and all of them in the list \<open>c_entries\<close>; the links of both are
  those of theory \<open>Llist\<close>. The timers are events of the time event queue of theory \<open>Timeeventq\<close>, which the cache
  shares with other parts of the server: their callbacks are \<open>Other\<close>.

  What other components do when the cache calls them is a log: \<open>c_notified\<close> has the calls of
  \<open>avahi_multicast_lookup_engine_notify\<close>, \<open>c_posted\<close> those of \<open>avahi_interface_post_query\<close>. The answer
  of \<open>avahi_querier_shall_refresh_cache\<close> is an argument \<open>refresh\<close>. The clock is an argument: \<open>env\<close> holds what
  \<open>gettimeofday\<close>, \<open>time\<close> and \<open>rand\<close> give during one operation.
\<close>

subsection \<open>The state\<close>

datatype cache_state =
    AVAHI_CACHE_VALID
  | AVAHI_CACHE_EXPIRY1
  | AVAHI_CACHE_EXPIRY2
  | AVAHI_CACHE_EXPIRY3
  | AVAHI_CACHE_EXPIRY_FINAL
  | AVAHI_CACHE_POOF
  | AVAHI_CACHE_POOF_FINAL
  | AVAHI_CACHE_GOODBYE_FINAL
  | AVAHI_CACHE_REPLACE_FINAL

datatype browser_event =
    AVAHI_BROWSER_NEW
  | AVAHI_BROWSER_REMOVE

datatype 'o cache_timer = Elapse_func nat | Other 'o

record cache_entry =
  ce_record :: rr
  ce_timestamp :: timeval
  ce_poof_timestamp :: timeval
  ce_expiry :: timeval
  ce_cache_flush :: bool
  ce_poof_num :: int
  ce_origin :: address
  ce_state :: cache_state
  ce_time_event :: "nat option"
  ce_poof_address :: address

record 'o cache =
  c_hashmap :: "(rrkey, nat) hashmap"
  c_by_key :: links
  c_entries :: "nat option"
  c_entry_links :: links
  c_heap :: "nat \<Rightarrow> cache_entry option"
  c_next :: nat
  c_n_entries :: nat
  c_last_rand :: nat
  c_last_rand_timestamp :: int
  c_time_event_queue :: "'o cache_timer teq"
  c_n_cache_entries_max :: nat
  c_notified :: "(rr \<times> browser_event) list"
  c_posted :: "rrkey list"

subsection \<open>The operations\<close>

definition set_entry :: "nat \<Rightarrow> cache_entry \<Rightarrow> 'o cache \<Rightarrow> 'o cache" where
  "set_entry e x c = c\<lparr>c_heap := (c_heap c)(e \<mapsto> x)\<rparr>"

definition remove_entry :: "'o cache \<Rightarrow> nat \<Rightarrow> 'o cache outcome" where
  "remove_entry c e = do {
     x \<leftarrow> c_heap c e;
     t \<leftarrow> avahi_hashmap_lookup (c_hashmap c) (rr_key (ce_record x));
     (lk, t) \<leftarrow> llist_remove (c_by_key c) t e;
     m \<leftarrow> (case t of
         Some t \<Rightarrow> do {
           y \<leftarrow> c_heap c t;
           (m, _) \<leftarrow> avahi_hashmap_replace (c_hashmap c) (rr_key (ce_record y)) t;
           Some m
         }
       | None \<Rightarrow> avahi_hashmap_remove (c_hashmap c) (rr_key (ce_record x)));
     let c = c\<lparr>c_by_key := lk, c_hashmap := m\<rparr>;
     (lk, h) \<leftarrow> llist_remove (c_entry_links c) (c_entries c) e;
     let c = c\<lparr>c_entry_links := lk, c_entries := h\<rparr>;
     q \<leftarrow> (case ce_time_event x of
         Some t \<Rightarrow> avahi_time_event_free (c_time_event_queue c) t
       | None \<Rightarrow> Some (c_time_event_queue c));
     let c = c\<lparr>c_time_event_queue := q\<rparr>;
     let c = c\<lparr>c_notified := c_notified c @ [(ce_record x, AVAHI_BROWSER_REMOVE)]\<rparr>;
     let c = c\<lparr>c_heap := (c_heap c)(e := None)\<rparr>;
     assert_that (c_n_entries c \<ge> 1);
     Some (c\<lparr>c_n_entries := c_n_entries c - 1\<rparr>)
   }"

text \<open>\<open>last_rand\<close> is not initialised: \<open>junk\<close>.\<close>

definition avahi_cache_new :: "'o cache_timer teq \<Rightarrow> nat \<Rightarrow> nat \<Rightarrow> 'o cache" where
  "avahi_cache_new q n_max junk =
     \<lparr>c_hashmap = avahi_hashmap_new rr_key_hash rr_key_eq False False, c_by_key = no_links, c_entries = None,
      c_entry_links = no_links, c_heap = (\<lambda>_. None), c_next = 0, c_n_entries = 0, c_last_rand = junk,
      c_last_rand_timestamp = 0, c_time_event_queue = q, c_n_cache_entries_max = n_max, c_notified = [],
      c_posted = []\<rparr>"

lemma remove_entry_count: "remove_entry c e = Some c' \<Longrightarrow> c_n_entries c' < c_n_entries c"
  by (auto simp: remove_entry_def Option.bind_eq_Some_conv Let_def)

function avahi_cache_flush :: "'o cache \<Rightarrow> 'o cache outcome" where
  "avahi_cache_flush c =
     (case c_entries c of
        None \<Rightarrow> Some c
      | Some e \<Rightarrow> do { c \<leftarrow> remove_entry c e; avahi_cache_flush c })"
  by pat_completeness auto
termination
  by (relation "measure c_n_entries") (auto dest: remove_entry_count)

declare avahi_cache_flush.simps [simp del]

text \<open>The loop of \<open>avahi_cache_free\<close> is that of \<open>avahi_cache_flush\<close>.\<close>

definition avahi_cache_free :: "'o cache \<Rightarrow> 'o cache outcome" where
  "avahi_cache_free c = do {
     c \<leftarrow> avahi_cache_flush c;
     assert_that (c_n_entries c = 0);
     m \<leftarrow> avahi_hashmap_free (c_hashmap c);
     Some (c\<lparr>c_hashmap := m\<rparr>)
   }"

definition cache_lookup_key :: "('o, 'z) cache_scheme \<Rightarrow> rrkey \<Rightarrow> nat option outcome" where
  "cache_lookup_key c k = do {
     assert_that (\<not> avahi_key_is_pattern k);
     avahi_hashmap_lookup (c_hashmap c) k
   }"

definition avahi_cache_walk ::
  "('o, 'z) cache_scheme \<Rightarrow> rrkey \<Rightarrow>
   (nat \<Rightarrow> ('o, 'z) cache_scheme \<Rightarrow> ('r option \<times> ('o, 'z) cache_scheme) outcome) \<Rightarrow> ('r option \<times> ('o, 'z) cache_scheme) outcome" where
  "avahi_cache_walk c pattern cb =
     (if avahi_key_is_pattern pattern then
        llist_foreach c_entry_links
          (\<lambda>e c. do {
             x \<leftarrow> c_heap c e;
             b \<leftarrow> avahi_key_pattern_match pattern (rr_key (ce_record x));
             if b then cb e c else Some (None, c)
           }) (c_entries c) c
      else do {
        e \<leftarrow> cache_lookup_key c pattern;
        llist_foreach c_by_key cb e c
      })"

definition lookup_record_callback :: "rr \<Rightarrow> nat \<Rightarrow> 'o cache \<Rightarrow> (nat option \<times> 'o cache) outcome" where
  "lookup_record_callback r e c = do {
     x \<leftarrow> c_heap c e;
     b \<leftarrow> avahi_record_equal_no_ttl (ce_record x) r;
     Some (if b then Some e else None, c)
   }"

definition lookup_record :: "'o cache \<Rightarrow> rr \<Rightarrow> nat option outcome" where
  "lookup_record c r = do {
     (e, _) \<leftarrow> avahi_cache_walk c (rr_key r) (lookup_record_callback r);
     Some e
   }"

definition update_time_event :: "'o cache \<Rightarrow> nat \<Rightarrow> 'o cache outcome" where
  "update_time_event c e = do {
     x \<leftarrow> c_heap c e;
     (case ce_time_event x of
        Some t \<Rightarrow> do {
          q \<leftarrow> avahi_time_event_update (c_time_event_queue c) t (ce_expiry x);
          Some (c\<lparr>c_time_event_queue := q\<rparr>)
        }
      | None \<Rightarrow> do {
          (q, t) \<leftarrow> avahi_time_event_new (c_time_event_queue c) (Some (ce_expiry x)) (Elapse_func e);
          Some (set_entry e (x\<lparr>ce_time_event := Some t\<rparr>) (c\<lparr>c_time_event_queue := q\<rparr>))
        })
   }"

text \<open>
  The jitter of \<open>next_expiry\<close> is computed in doubles, which hold 53 bits: \<open>round_double\<close> rounds a
  natural number to the nearest one, ties to even. The other steps of
  \<open>(double) (right-left) * last_rand / (RAND_MAX+1.0)\<close> are exact, as \<open>RAND_MAX+1\<close> is a power of two.
\<close>

fun bit_length :: "nat \<Rightarrow> nat" where
  "bit_length n = (if n = 0 then 0 else Suc (bit_length (n div 2)))"

declare bit_length.simps [simp del]

definition round_double :: "nat \<Rightarrow> nat" where
  "round_double n =
     (let k = bit_length n - 53; q = n div 2 ^ k; r = n mod 2 ^ k in
      if 2 * r > 2 ^ k \<or> (2 * r = 2 ^ k \<and> odd q) then (q + 1) * 2 ^ k else q * 2 ^ k)"

definition expiry_usec :: "u32 \<Rightarrow> nat \<Rightarrow> nat \<Rightarrow> nat" where
  "expiry_usec ttl percent rnd =
     (let usec = unat ttl * 10000;
          left = usec * percent;
          right = usec * (percent + 2)
      in left + round_double ((right - left) * rnd) div (RAND_MAX + 1))"

definition next_expiry :: "env \<Rightarrow> 'o cache \<Rightarrow> nat \<Rightarrow> nat \<Rightarrow> 'o cache outcome" where
  "next_expiry v c e percent = do {
     x \<leftarrow> c_heap c e;
     assert_that (percent > 0 \<and> percent \<le> 100);
     let c = (if env_time v \<ge> c_last_rand_timestamp c + 10
              then c\<lparr>c_last_rand := env_rand v, c_last_rand_timestamp := env_time v\<rparr> else c);
     let usec = expiry_usec (rr_ttl (ce_record x)) percent (c_last_rand c);
     let c = set_entry e (x\<lparr>ce_expiry := avahi_timeval_add (ce_timestamp x) (int usec)\<rparr>) c;
     update_time_event c e
   }"

definition expire_in_one_second :: "env \<Rightarrow> 'o cache \<Rightarrow> nat \<Rightarrow> cache_state \<Rightarrow> 'o cache outcome" where
  "expire_in_one_second v c e state = do {
     x \<leftarrow> c_heap c e;
     let c = set_entry e (x\<lparr>ce_state := state, ce_expiry := avahi_timeval_add (env_now v) 1000000\<rparr>) c;
     update_time_event c e
   }"

text \<open>The switch of \<open>elapse_func\<close>: \<open>None\<close> removes the entry.\<close>

definition elapse_switch :: "cache_state \<Rightarrow> (cache_state \<times> nat) option" where
  "elapse_switch s =
     (case s of
        AVAHI_CACHE_EXPIRY_FINAL \<Rightarrow> None
      | AVAHI_CACHE_POOF_FINAL \<Rightarrow> None
      | AVAHI_CACHE_GOODBYE_FINAL \<Rightarrow> None
      | AVAHI_CACHE_REPLACE_FINAL \<Rightarrow> None
      | AVAHI_CACHE_VALID \<Rightarrow> Some (AVAHI_CACHE_EXPIRY1, 85)
      | AVAHI_CACHE_POOF \<Rightarrow> Some (AVAHI_CACHE_EXPIRY1, 85)
      | AVAHI_CACHE_EXPIRY1 \<Rightarrow> Some (AVAHI_CACHE_EXPIRY2, 90)
      | AVAHI_CACHE_EXPIRY2 \<Rightarrow> Some (AVAHI_CACHE_EXPIRY3, 95)
      | AVAHI_CACHE_EXPIRY3 \<Rightarrow> Some (AVAHI_CACHE_EXPIRY_FINAL, 100))"

definition elapse_func :: "(rrkey \<Rightarrow> bool) \<Rightarrow> env \<Rightarrow> 'o cache \<Rightarrow> nat \<Rightarrow> 'o cache outcome" where
  "elapse_func refresh v c e = do {
     x \<leftarrow> c_heap c e;
     (case elapse_switch (ce_state x) of
        None \<Rightarrow> remove_entry c e
      | Some (state, percent) \<Rightarrow> do {
          let x = x\<lparr>ce_state := state\<rparr>;
          let c = set_entry e x c;
          assert_that (percent > 0);
          let c = (if refresh (rr_key (ce_record x)) then c\<lparr>c_posted := c_posted c @ [rr_key (ce_record x)]\<rparr> else c);
          next_expiry v c e percent
        })
   }"

text \<open>
  \<open>expiration_event\<close> of the time event queue, with the callbacks of the cache; \<open>other\<close> are the callbacks
  of other parts of the server.
\<close>

definition cache_expiration ::
  "('o \<Rightarrow> nat \<Rightarrow> 'o cache_timer teq \<Rightarrow> 'o cache_timer teq outcome) \<Rightarrow> (rrkey \<Rightarrow> bool) \<Rightarrow> env \<Rightarrow> 'o cache \<Rightarrow> 'o cache outcome" where
  "cache_expiration other refresh v c = do {
     r \<leftarrow> expired_event (env_now v) (c_time_event_queue c);
     c \<leftarrow> (case r of
         Some (Elapse_func e, _, q) \<Rightarrow> elapse_func refresh v (c\<lparr>c_time_event_queue := q\<rparr>) e
       | Some (Other f, t, q) \<Rightarrow> do { q \<leftarrow> other f t q; Some (c\<lparr>c_time_event_queue := q\<rparr>) }
       | None \<Rightarrow> Some c);
     q \<leftarrow> update_timeout (c_time_event_queue c);
     Some (c\<lparr>c_time_event_queue := q\<rparr>)
   }"

text \<open>
  The two loops of \<open>avahi_cache_update\<close> fetch the next entry after their bodies; these leave the links
  alone, so that this does not matter.
\<close>

definition expire_old :: "env \<Rightarrow> nat \<Rightarrow> 'o cache \<Rightarrow> (nat option \<times> 'o cache) outcome" where
  "expire_old v e c = do {
     x \<leftarrow> c_heap c e;
     if avahi_timeval_diff (env_now v) (ce_timestamp x) > 1000000 then do {
       c \<leftarrow> expire_in_one_second v c e AVAHI_CACHE_REPLACE_FINAL;
       Some (None, c)
     } else Some (None, c)
   }"

definition new_entry :: "rr \<Rightarrow> cache_entry" where
  "new_entry r =
     (let t = \<lparr>tv_sec = 0, tv_usec = 0\<rparr>; a = \<lparr>proto = AVAHI_PROTO_UNSPEC, addr_bytes = replicate 16 0\<rparr> in
      \<lparr>ce_record = r, ce_timestamp = t, ce_poof_timestamp = t, ce_expiry = t, ce_cache_flush = False, ce_poof_num = 0,
       ce_origin = a, ce_state = AVAHI_CACHE_VALID, ce_time_event = None, ce_poof_address = a\<rparr>)"

definition append_entry :: "'o cache \<Rightarrow> nat option \<Rightarrow> rr \<Rightarrow> ('o cache \<times> nat) outcome" where
  "append_entry c first r = do {
     let e = c_next c;
     let c = set_entry e (new_entry r) (c\<lparr>c_next := e + 1\<rparr>);
     let (lk, first) = llist_prepend (c_by_key c) first e;
     (m, _) \<leftarrow> avahi_hashmap_replace (c_hashmap c) (rr_key r) (the first);
     let c = c\<lparr>c_by_key := lk, c_hashmap := m\<rparr>;
     let (lk, h) = llist_prepend (c_entry_links c) (c_entries c) e;
     let c = c\<lparr>c_entry_links := lk, c_entries := h\<rparr>;
     let c = c\<lparr>c_n_entries := c_n_entries c + 1\<rparr>;
     let c = c\<lparr>c_notified := c_notified c @ [(r, AVAHI_BROWSER_NEW)]\<rparr>;
     Some (c, e)
   }"

definition replace_record :: "'o cache \<Rightarrow> nat \<Rightarrow> rr \<Rightarrow> 'o cache outcome" where
  "replace_record c e r = do {
     c \<leftarrow> (if l_prev (c_by_key c) e = None then do {
            (m, _) \<leftarrow> avahi_hashmap_replace (c_hashmap c) (rr_key r) e;
            Some (c\<lparr>c_hashmap := m\<rparr>)
          } else Some c);
     x \<leftarrow> c_heap c e;
     Some (set_entry e (x\<lparr>ce_record := r\<rparr>) c)
   }"

definition finish_update :: "env \<Rightarrow> 'o cache \<Rightarrow> nat \<Rightarrow> bool \<Rightarrow> address \<Rightarrow> 'o cache outcome" where
  "finish_update v c e cache_flush a = do {
     x \<leftarrow> c_heap c e;
     let c = set_entry e (x\<lparr>ce_origin := a, ce_timestamp := env_now v\<rparr>) c;
     c \<leftarrow> next_expiry v c e 80;
     x \<leftarrow> c_heap c e;
     Some (set_entry e (x\<lparr>ce_state := AVAHI_CACHE_VALID, ce_cache_flush := cache_flush\<rparr>) c)
   }"

definition avahi_cache_update :: "env \<Rightarrow> 'o cache \<Rightarrow> rr \<Rightarrow> bool \<Rightarrow> address \<Rightarrow> 'o cache outcome" where
  "avahi_cache_update v c r cache_flush a =
     (if rr_ttl r = 0 then do {
        e \<leftarrow> lookup_record c r;
        (case e of
           Some e \<Rightarrow> expire_in_one_second v c e AVAHI_CACHE_GOODBYE_FINAL
         | None \<Rightarrow> Some c)
      } else do {
        first \<leftarrow> cache_lookup_key c (rr_key r);
        (_, c) \<leftarrow> (if cache_flush then llist_foreach c_by_key (expire_old v) first c else Some (None, c));
        (e, c) \<leftarrow> llist_foreach c_by_key (lookup_record_callback r) first c;
        (case e of
           Some e \<Rightarrow> do {
             c \<leftarrow> replace_record c e r;
             finish_update v c e cache_flush a
           }
         | None \<Rightarrow>
             if c_n_entries c \<ge> c_n_cache_entries_max c then Some c
             else do {
               (c, e) \<leftarrow> append_entry c first r;
               finish_update v c e cache_flush a
             })
      })"

text \<open>The lines that \<open>avahi_cache_dump\<close> hands to its callback.\<close>

definition dump_callback ::
  "(int \<Rightarrow> byte list \<Rightarrow> nat \<Rightarrow> cstr option) \<Rightarrow> nat \<Rightarrow> 'o cache \<times> cstr list \<Rightarrow> (unit option \<times> 'o cache \<times> cstr list) outcome" where
  "dump_callback inet_ntop e = (\<lambda>(c, out). do {
     x \<leftarrow> c_heap c e;
     t \<leftarrow> avahi_record_to_string inet_ntop (ce_record x);
     Some (None, c, out @ [t])
   })"

fun dump_chains ::
  "(int \<Rightarrow> byte list \<Rightarrow> nat \<Rightarrow> cstr option) \<Rightarrow> 'o cache \<Rightarrow> (rrkey \<times> nat) list \<Rightarrow> cstr list \<Rightarrow> cstr list outcome" where
  "dump_chains inet_ntop c [] out = Some out"
| "dump_chains inet_ntop c ((k, e) # kes) out = do {
     (_, _, out) \<leftarrow> llist_foreach (\<lambda>(c, _). c_by_key c) (dump_callback inet_ntop) (Some e) (c, out);
     dump_chains inet_ntop c kes out
   }"

definition avahi_cache_dump :: "(int \<Rightarrow> byte list \<Rightarrow> nat \<Rightarrow> cstr option) \<Rightarrow> 'o cache \<Rightarrow> cstr list outcome" where
  "avahi_cache_dump inet_ntop c = do {
     kes \<leftarrow> avahi_hashmap_foreach (c_hashmap c);
     dump_chains inet_ntop c kes [str '';;; CACHE DUMP FOLLOWS ;;;'']
   }"

definition avahi_cache_entry_half_ttl :: "env \<Rightarrow> cache_entry \<Rightarrow> bool" where
  "avahi_cache_entry_half_ttl v x =
     (let age = word_of_int (avahi_timeval_diff (env_now v) (ce_timestamp x) sdiv 1000000) :: u32 in
      age \<ge> rr_ttl (ce_record x) div 2)"

subsection \<open>Passive observation of failure\<close>

definition start_poof_callback :: "env \<Rightarrow> address \<Rightarrow> nat \<Rightarrow> 'o cache \<Rightarrow> (unit option \<times> 'o cache) outcome" where
  "start_poof_callback v a e c = do {
     x \<leftarrow> c_heap c e;
     (case ce_state x of
        AVAHI_CACHE_VALID \<Rightarrow>
          Some (None, set_entry e (x\<lparr>ce_state := AVAHI_CACHE_POOF, ce_poof_address := a,
            ce_poof_timestamp := env_now v, ce_poof_num := 0\<rparr>) c)
      | AVAHI_CACHE_POOF \<Rightarrow>
          if avahi_timeval_diff (env_now v) (ce_poof_timestamp x) < 1000000 then Some (None, c)
          else do {
            let x = x\<lparr>ce_poof_timestamp := env_now v, ce_poof_address := a, ce_poof_num := ce_poof_num x + 1\<rparr>;
            let c = set_entry e x c;
            if ce_poof_num x > 3 then do {
              c \<leftarrow> expire_in_one_second v c e AVAHI_CACHE_POOF_FINAL;
              Some (None, c)
            } else Some (None, c)
          }
      | _ \<Rightarrow> Some (None, c))
   }"

definition avahi_cache_start_poof :: "env \<Rightarrow> 'o cache \<Rightarrow> rrkey \<Rightarrow> address \<Rightarrow> 'o cache outcome" where
  "avahi_cache_start_poof v c key a = do {
     (_, c) \<leftarrow> avahi_cache_walk c key (start_poof_callback v a);
     Some c
   }"

definition avahi_cache_stop_poof :: "env \<Rightarrow> 'o cache \<Rightarrow> rr \<Rightarrow> address \<Rightarrow> 'o cache outcome" where
  "avahi_cache_stop_poof v c r a = do {
     e \<leftarrow> lookup_record c r;
     (case e of
        None \<Rightarrow> Some c
      | Some e \<Rightarrow> do {
          x \<leftarrow> c_heap c e;
          if ce_state x = AVAHI_CACHE_POOF \<or> ce_state x = AVAHI_CACHE_POOF_FINAL then
            if avahi_address_cmp a (ce_poof_address x) = 0 then
              next_expiry v (set_entry e (x\<lparr>ce_state := AVAHI_CACHE_VALID\<rparr>) c) e 80
            else Some c
          else Some c
        })
   }"

subsection \<open>The invariant\<close>

text \<open>
  \<open>cache_rep c xs ch\<close>: the entries are \<open>xs\<close>, those with the canonical key \<open>kc\<close> are \<open>ch kc\<close>, in the order of the
  lists. The hash map holds, for every key in use, the first entry of its list, and the key it holds is
  the one of that entry's record, which is alive. No two entries hold equal records, there are not more
  than configured, and the subscribers have been told of exactly the records that are there.
\<close>

definition record_ok :: "rr \<Rightarrow> bool" where
  "record_ok r \<longleftrightarrow> rr_readable r \<and> \<not> avahi_key_is_pattern (rr_key r) \<and> rr_ttl r \<noteq> 0"

definition ce_rec :: "'o cache \<Rightarrow> nat \<rightharpoonup> rr" where
  "ce_rec c e = map_option ce_record (c_heap c e)"

definition ce_keys :: "'o cache \<Rightarrow> nat \<rightharpoonup> rrkey" where
  "ce_keys c e = map_option rr_key (ce_rec c e)"

type_synonym canon_record = "canon_key \<times> u16 list \<times> byte list list"

fun seen_step :: "canon_record set \<Rightarrow> rr \<times> browser_event \<Rightarrow> canon_record set" where
  "seen_step S (r, AVAHI_BROWSER_NEW) = insert (rr_canon r) S"
| "seen_step S (r, AVAHI_BROWSER_REMOVE) = S - {rr_canon r}"

definition cache_records :: "'o cache \<Rightarrow> canon_record set" where
  "cache_records c = {rr_canon r | e r. ce_rec c e = Some r}"

definition cache_rep :: "'o cache \<Rightarrow> nat list \<Rightarrow> (canon_key \<Rightarrow> nat list) \<Rightarrow> bool" where
  "cache_rep c xs ch \<longleftrightarrow>
     keyed (c_hashmap c) (c_by_key c) (ce_keys c) ch \<and>
     (\<forall>kc k h. km_get (c_hashmap c) kc = Some (k, h) \<longrightarrow> ce_keys c h = Some k) \<and>
     llist (c_entry_links c) (c_entries c) xs \<and> (\<forall>e. e \<in> set xs \<longleftrightarrow> ce_rec c e \<noteq> None) \<and>
     c_n_entries c = length xs \<and> length xs \<le> c_n_cache_entries_max c \<and>
     (\<forall>e r. ce_rec c e = Some r \<longrightarrow> e < c_next c \<and> record_ok r) \<and>
     (\<forall>e e' r r'. ce_rec c e = Some r \<and> ce_rec c e' = Some r' \<and> rr_canon r = rr_canon r' \<longrightarrow> e = e') \<and>
     foldl seen_step {} (c_notified c) = cache_records c"

lemma cache_repD:
  assumes "cache_rep c xs ch"
  shows "keyed (c_hashmap c) (c_by_key c) (ce_keys c) ch"
    "km_get (c_hashmap c) kc = Some (k, h) \<Longrightarrow> ce_keys c h = Some k"
    "llist (c_entry_links c) (c_entries c) xs" "e \<in> set xs \<longleftrightarrow> ce_rec c e \<noteq> None"
    "c_n_entries c = length xs" "length xs \<le> c_n_cache_entries_max c"
    "ce_rec c e = Some r \<Longrightarrow> e < c_next c" "ce_rec c e = Some r \<Longrightarrow> record_ok r"
    "ce_rec c e = Some r \<Longrightarrow> ce_rec c e' = Some r' \<Longrightarrow> rr_canon r = rr_canon r' \<Longrightarrow> e = e'"
    "foldl seen_step {} (c_notified c) = cache_records c"
  using assms unfolding cache_rep_def by blast+

lemma ce_rec_heap: "c_heap c e = Some x \<Longrightarrow> ce_rec c e = Some (ce_record x)"
  "ce_rec c e = Some r \<Longrightarrow> \<exists>x. c_heap c e = Some x \<and> ce_record x = r"
  by (auto simp: ce_rec_def)

text \<open>The fields that \<open>cache_rep\<close> reads.\<close>

definition skeleton where
  "skeleton c = (c_hashmap c, c_by_key c, c_entries c, c_entry_links c, c_next c, c_n_entries c,
     c_n_cache_entries_max c, c_notified c, ce_rec c)"

lemma cache_rep_skeleton: "skeleton c' = skeleton c \<Longrightarrow> cache_rep c' xs ch = cache_rep c xs ch"
  unfolding cache_rep_def cache_records_def ce_keys_def [abs_def] skeleton_def by (simp only: prod.inject)

text \<open>
  Every entry has a timer at its expiry that calls \<open>elapse_func\<close> for it, save those in \<open>P\<close>, which have none;
  and there are no other timers with that callback.
\<close>

definition timers_ok :: "nat set \<Rightarrow> 'o cache \<Rightarrow> bool" where
  "timers_ok P c \<longleftrightarrow> teq_core (c_time_event_queue c) \<and>
     (\<forall>e x t. c_heap c e = Some x \<and> ce_time_event x = Some t \<longrightarrow>
        (\<exists>l. te_view (c_time_event_queue c) t = Some (ce_expiry x, l, Some (Elapse_func e)))) \<and>
     (\<forall>e x. c_heap c e = Some x \<and> ce_time_event x = None \<longrightarrow> e \<in> P) \<and>
     (\<forall>t a l e. te_view (c_time_event_queue c) t = Some (a, l, Some (Elapse_func e)) \<longrightarrow>
        (\<exists>x. c_heap c e = Some x \<and> ce_time_event x = Some t))"

lemma timers_okD:
  assumes "timers_ok P c"
  shows "teq_core (c_time_event_queue c)"
    "c_heap c e = Some x \<Longrightarrow> ce_time_event x = Some t \<Longrightarrow>
       \<exists>l. te_view (c_time_event_queue c) t = Some (ce_expiry x, l, Some (Elapse_func e))"
    "c_heap c e = Some x \<Longrightarrow> ce_time_event x = None \<Longrightarrow> e \<in> P"
    "te_view (c_time_event_queue c) t = Some (a, l, Some (Elapse_func e)) \<Longrightarrow>
       \<exists>x. c_heap c e = Some x \<and> ce_time_event x = Some t"
  using assms unfolding timers_ok_def by blast+

lemma set_entry_simps [simp]:
  "c_hashmap (set_entry e x c) = c_hashmap c" "c_by_key (set_entry e x c) = c_by_key c"
  "c_entries (set_entry e x c) = c_entries c" "c_entry_links (set_entry e x c) = c_entry_links c"
  "c_heap (set_entry e x c) = (c_heap c)(e \<mapsto> x)" "c_next (set_entry e x c) = c_next c"
  "c_n_entries (set_entry e x c) = c_n_entries c" "c_time_event_queue (set_entry e x c) = c_time_event_queue c"
  "c_n_cache_entries_max (set_entry e x c) = c_n_cache_entries_max c" "c_notified (set_entry e x c) = c_notified c"
  "c_posted (set_entry e x c) = c_posted c" "c_last_rand (set_entry e x c) = c_last_rand c"
  "c_last_rand_timestamp (set_entry e x c) = c_last_rand_timestamp c"
  by (simp_all add: set_entry_def)

lemma skeleton_set_entry:
  "c_heap c e = Some x \<Longrightarrow> ce_record x' = ce_record x \<Longrightarrow> skeleton (set_entry e x' c) = skeleton c"
  by (auto simp: skeleton_def ce_rec_def fun_eq_iff)

lemma skeleton_simps [simp]:
  "skeleton (c\<lparr>c_time_event_queue := q\<rparr>) = skeleton c" "skeleton (c\<lparr>c_posted := ps\<rparr>) = skeleton c"
  "skeleton (c\<lparr>c_last_rand := r\<rparr>) = skeleton c" "skeleton (c\<lparr>c_last_rand_timestamp := t\<rparr>) = skeleton c"
  by (simp_all add: skeleton_def ce_rec_def fun_eq_iff)

subsection \<open>The timers\<close>

text \<open>An entry gets new fields and its timer the new expiry.\<close>

lemma rearm_ok:
  assumes "timers_ok P c" "c_heap c e = Some x" "ce_time_event x' = ce_time_event x"
  shows "\<exists>t q. update_time_event (set_entry e x' c) e =
      Some (set_entry e (x'\<lparr>ce_time_event := Some t\<rparr>) (c\<lparr>c_time_event_queue := q\<rparr>)) \<and> teq_ok q \<and>
    timers_ok (P - {e}) (set_entry e (x'\<lparr>ce_time_event := Some t\<rparr>) (c\<lparr>c_time_event_queue := q\<rparr>))"
proof -
  note d = timers_okD [OF assms(1)]
  show ?thesis
  proof (cases "ce_time_event x")
    case None
    from event_new_ok [OF d(1), of "Some (ce_expiry x')" "Elapse_func e"] obtain q where
      q: "avahi_time_event_new (c_time_event_queue c) (Some (ce_expiry x')) (Elapse_func e) = Some (q, te_next (c_time_event_queue c))"
        "teq_ok q" "te_view q = (te_view (c_time_event_queue c))(te_next (c_time_event_queue c) \<mapsto>
          (ce_expiry x', \<lparr>tv_sec = 0, tv_usec = 0\<rparr>, Some (Elapse_func e)))" by auto
    let ?t = "te_next (c_time_event_queue c)"
    let ?c = "set_entry e (x'\<lparr>ce_time_event := Some ?t\<rparr>) (c\<lparr>c_time_event_queue := q\<rparr>)"
    have n: "te_view (c_time_event_queue c) ?t = None"
      using teq_coreD(5) [OF d(1), of ?t] by (auto simp: te_view_def)
    have "update_time_event (set_entry e x' c) e = Some ?c"
      using q(1) None assms(3) by (simp add: update_time_event_def set_entry_def)
    moreover have "timers_ok (P - {e}) ?c"
      unfolding timers_ok_def
    proof (intro conjI allI impI, goal_cases)
      case 1
      then show ?case using q(2) by (simp add: teq_ok_def)
    next
      case (2 e' y t')
      then show ?case
      proof (cases "e' = e")
        case False
        then have y: "c_heap c e' = Some y" "ce_time_event y = Some t'" using 2 by simp_all
        from d(2) [OF this] n show ?thesis by (auto simp: q(3))
      qed (auto simp: q(3))
    next
      case (3 e' y)
      then show ?case using d(3) [of e' y] by (auto split: if_splits)
    next
      case (4 t a l e')
      then show ?case
      proof (cases "t = ?t")
        case False
        then have "te_view (c_time_event_queue c) t = Some (a, l, Some (Elapse_func e'))" using 4 by (simp add: q(3))
        from d(4) [OF this] None assms(2) show ?thesis by auto
      qed (use 4 in \<open>simp add: q(3)\<close>)
    qed
    ultimately show ?thesis using q(2) by blast
  next
    case (Some t)
    from d(2) [OF assms(2) Some] obtain l where
      v: "te_view (c_time_event_queue c) t = Some (ce_expiry x, l, Some (Elapse_func e))" by blast
    then have al: "te_alive (c_time_event_queue c) t" and l: "te_last_run (c_time_event_queue c) t = l"
      "te_callback (c_time_event_queue c) t = Some (Elapse_func e)" by (auto simp: te_view_Some)
    from event_update_ok [OF d(1) al, of "ce_expiry x'"] obtain q where
      q: "avahi_time_event_update (c_time_event_queue c) t (ce_expiry x') = Some q" "teq_ok q"
        "te_view q = (te_view (c_time_event_queue c))(t \<mapsto> (ce_expiry x', l, Some (Elapse_func e)))" using l by auto
    let ?c = "set_entry e (x'\<lparr>ce_time_event := Some t\<rparr>) (c\<lparr>c_time_event_queue := q\<rparr>)"
    have xt: "x'\<lparr>ce_time_event := Some t\<rparr> = x'" using Some assms(3) by simp
    have "update_time_event (set_entry e x' c) e = Some ?c"
      unfolding xt using q(1) Some assms(3) by (simp add: update_time_event_def set_entry_def)
    moreover have "timers_ok (P - {e}) ?c"
      unfolding timers_ok_def
    proof (intro conjI allI impI, goal_cases)
      case 1
      then show ?case using q(2) by (simp add: teq_ok_def)
    next
      case (2 e' y t')
      then show ?case
      proof (cases "e' = e")
        case False
        then have y: "c_heap c e' = Some y" "ce_time_event y = Some t'" using 2 by simp_all
        from d(2) [OF this] v False show ?thesis by (auto simp: q(3))
      qed (auto simp: q(3))
    next
      case (3 e' y)
      then show ?case using d(3) [of e' y] by (auto split: if_splits)
    next
      case (4 t' a l' e')
      then show ?case
      proof (cases "t' = t")
        case False
        then have "te_view (c_time_event_queue c) t' = Some (a, l', Some (Elapse_func e'))" using 4 by (simp add: q(3))
        from d(4) [OF this] Some assms(2) False show ?thesis by auto
      qed (use 4 in \<open>simp add: q(3)\<close>)
    qed
    ultimately show ?thesis using q(2) by blast
  qed
qed

text \<open>New fields that concern neither the timer nor its time.\<close>

lemma timers_ok_fields:
  assumes "timers_ok P c" "c_heap c e = Some x" "ce_time_event x' = ce_time_event x" "ce_expiry x' = ce_expiry x"
  shows "timers_ok P (set_entry e x' c)"
proof -
  note d = timers_okD [OF assms(1)]
  show ?thesis
    unfolding timers_ok_def
  proof (intro conjI allI impI, goal_cases)
    case 1
    show ?case using d(1) by simp
  next
    case (2 e' y t)
    then show ?case using d(2) [OF assms(2)] d(2) [of e' y] assms(3,4) by (auto split: if_splits)
  next
    case (3 e' y)
    then show ?case using d(3) [OF assms(2)] d(3) [of e' y] assms(3) by (auto split: if_splits)
  next
    case (4 t a l e')
    then have "\<exists>x. c_heap c e' = Some x \<and> ce_time_event x = Some t" using d(4) by simp
    then show ?case using assms(2,3) by auto
  qed
qed

text \<open>
  An operation leaves the time event queue armed: it did not touch it, or it ended with an update of the
  timeout.
\<close>

definition armed :: "'o cache \<Rightarrow> 'o cache \<Rightarrow> bool" where
  "armed c c' \<longleftrightarrow> teq_ok (c_time_event_queue c') \<or> c_time_event_queue c' = c_time_event_queue c"

lemma armed_refl [simp]: "armed c c"
  by (simp add: armed_def)

lemma armed_trans: "armed c c1 \<Longrightarrow> armed c1 c2 \<Longrightarrow> armed c c2"
  by (auto simp: armed_def)

lemma armed_ok: "armed c c' \<Longrightarrow> teq_ok (c_time_event_queue c) \<Longrightarrow> teq_ok (c_time_event_queue c')"
  by (auto simp: armed_def)

lemma next_expiry_ok:
  assumes "timers_ok P c" "c_heap c e = Some x" "0 < percent" "percent \<le> 100"
  shows "\<exists>c' t. next_expiry v c e percent = Some c' \<and> skeleton c' = skeleton c \<and>
    c_heap c' = (c_heap c)(e \<mapsto> x\<lparr>ce_expiry := avahi_timeval_add (ce_timestamp x)
      (int (expiry_usec (rr_ttl (ce_record x)) percent (c_last_rand c'))), ce_time_event := Some t\<rparr>) \<and>
    timers_ok (P - {e}) c' \<and> teq_ok (c_time_event_queue c') \<and> c_posted c' = c_posted c \<and>
    c_last_rand c' \<in> {c_last_rand c, env_rand v}"
proof -
  define c1 where "c1 = (if env_time v \<ge> c_last_rand_timestamp c + 10
    then c\<lparr>c_last_rand := env_rand v, c_last_rand_timestamp := env_time v\<rparr> else c)"
  define x' where "x' = x\<lparr>ce_expiry := avahi_timeval_add (ce_timestamp x)
    (int (expiry_usec (rr_ttl (ce_record x)) percent (c_last_rand c1)))\<rparr>"
  have s: "c_heap c1 = c_heap c" "c_time_event_queue c1 = c_time_event_queue c" "skeleton c1 = skeleton c"
    "c_posted c1 = c_posted c" "c_last_rand c1 \<in> {c_last_rand c, env_rand v}"
    by (simp_all add: c1_def)
  have "timers_ok P c1" using assms(1) by (simp add: timers_ok_def s)
  moreover have x: "c_heap c1 e = Some x" using assms(2) by (simp add: s)
  ultimately obtain t q where tq: "update_time_event (set_entry e x' c1) e =
      Some (set_entry e (x'\<lparr>ce_time_event := Some t\<rparr>) (c1\<lparr>c_time_event_queue := q\<rparr>))" "teq_ok q"
    "timers_ok (P - {e}) (set_entry e (x'\<lparr>ce_time_event := Some t\<rparr>) (c1\<lparr>c_time_event_queue := q\<rparr>))"
    using rearm_ok [of P c1 e x x'] by (auto simp: x'_def)
  have "skeleton (set_entry e (x'\<lparr>ce_time_event := Some t\<rparr>) (c1\<lparr>c_time_event_queue := q\<rparr>)) = skeleton c"
    using x s(3) by (subst skeleton_set_entry [where x = x]) (simp_all add: x'_def)
  moreover have "next_expiry v c e percent = Some (set_entry e (x'\<lparr>ce_time_event := Some t\<rparr>) (c1\<lparr>c_time_event_queue := q\<rparr>))"
    using assms(2-4) tq(1) by (simp add: next_expiry_def x'_def c1_def Let_def)
  ultimately show ?thesis using tq(2,3) s by (auto simp: x'_def)
qed

lemma expire_in_one_second_ok:
  assumes "timers_ok P c" "c_heap c e = Some x"
  shows "\<exists>c' t. expire_in_one_second v c e st = Some c' \<and> skeleton c' = skeleton c \<and>
    c_heap c' = (c_heap c)(e \<mapsto> x\<lparr>ce_state := st, ce_expiry := avahi_timeval_add (env_now v) 1000000,
      ce_time_event := Some t\<rparr>) \<and>
    timers_ok (P - {e}) c' \<and> teq_ok (c_time_event_queue c') \<and> c_posted c' = c_posted c \<and> c_last_rand c' = c_last_rand c"
proof -
  define x' where "x' = x\<lparr>ce_state := st, ce_expiry := avahi_timeval_add (env_now v) 1000000\<rparr>"
  obtain t q where tq: "update_time_event (set_entry e x' c) e =
      Some (set_entry e (x'\<lparr>ce_time_event := Some t\<rparr>) (c\<lparr>c_time_event_queue := q\<rparr>))" "teq_ok q"
    "timers_ok (P - {e}) (set_entry e (x'\<lparr>ce_time_event := Some t\<rparr>) (c\<lparr>c_time_event_queue := q\<rparr>))"
    using rearm_ok [OF assms, of x'] by (auto simp: x'_def)
  have "skeleton (set_entry e (x'\<lparr>ce_time_event := Some t\<rparr>) (c\<lparr>c_time_event_queue := q\<rparr>)) = skeleton c"
    using assms(2) by (subst skeleton_set_entry [where x = x]) (simp_all add: x'_def)
  moreover have "expire_in_one_second v c e st = Some (set_entry e (x'\<lparr>ce_time_event := Some t\<rparr>) (c\<lparr>c_time_event_queue := q\<rparr>))"
    using assms(2) tq(1) by (simp add: expire_in_one_second_def x'_def Let_def)
  ultimately show ?thesis using tq(2,3) by (auto simp: x'_def)
qed

subsection \<open>Removing an entry\<close>

lemma ce_keys_readable: "cache_rep c xs ch \<Longrightarrow> ce_rec c e = Some r \<Longrightarrow> key_readable (rr_key r)"
  using cache_repD(8) [of c xs ch e r] by (simp add: record_ok_def rr_readable_def)

lemma remove_entry_ok:
  assumes "cache_rep c xs ch" "timers_ok P c" "c_heap c e = Some x"
  shows "\<exists>c' xs' ch'. remove_entry c e = Some c' \<and> cache_rep c' xs' ch' \<and> timers_ok (P - {e}) c' \<and>
    c_heap c' = (c_heap c)(e := None) \<and> armed c c' \<and> c_posted c' = c_posted c \<and>
    c_n_entries c' = c_n_entries c - 1 \<and> c_n_cache_entries_max c' = c_n_cache_entries_max c \<and>
    c_notified c' = c_notified c @ [(ce_record x, AVAHI_BROWSER_REMOVE)]"
proof -
  note d = cache_repD [OF assms(1)]
  note kd = keyedD [OF d(1)]
  note t = timers_okD [OF assms(2)]
  let ?r = "ce_record x" let ?k = "rr_key ?r" let ?kc = "key_canon ?k"
  have r: "ce_rec c e = Some ?r" by (rule ce_rec_heap(1) [OF assms(3)])
  have k: "ce_keys c e = Some ?k" "key_readable ?k"
    using r ce_keys_readable [OF assms(1) r] by (simp_all add: ce_keys_def)
  have l: "avahi_hashmap_lookup (c_hashmap c) ?k = Some (hd_opt (ch ?kc))" by (rule keyed_lookup [OF d(1) k(2)])
  obtain lk where lk: "llist_remove (c_by_key c) (hd_opt (ch ?kc)) e = Some (lk, hd_opt (remove1 e (ch ?kc)))"
    "\<forall>m'. km_inv m' \<and> map_option snd (km_get m' ?kc) = hd_opt (remove1 e (ch ?kc)) \<and>
      (\<forall>kc. kc \<noteq> ?kc \<longrightarrow> km_get m' kc = km_get (c_hashmap c) kc) \<longrightarrow>
      keyed m' lk ((ce_keys c)(e := None)) (ch(?kc := remove1 e (ch ?kc)))"
    by (rule keyed_remove [OF d(1) k(1)])
  have "\<exists>m. (case hd_opt (remove1 e (ch ?kc)) of
         Some t \<Rightarrow> do {
           y \<leftarrow> c_heap c t;
           (m, _) \<leftarrow> avahi_hashmap_replace (c_hashmap c) (rr_key (ce_record y)) t;
           Some m
         }
       | None \<Rightarrow> avahi_hashmap_remove (c_hashmap c) ?k) = Some m \<and>
    keyed m lk ((ce_keys c)(e := None)) (ch(?kc := remove1 e (ch ?kc))) \<and>
    (\<forall>kc k h. km_get m kc = Some (k, h) \<longrightarrow> ((ce_keys c)(e := None)) h = Some k)"
  proof (cases "remove1 e (ch ?kc)")
    case Nil
    obtain m where m: "avahi_hashmap_remove (c_hashmap c) ?k = Some m" "km_inv m"
      "km_get m = (km_get (c_hashmap c))(?kc := None)"
      by (rule km_remove [OF kd(1) k(2)])
    have "keyed m lk ((ce_keys c)(e := None)) (ch(?kc := remove1 e (ch ?kc)))"
      by (rule lk(2) [rule_format]) (simp add: m(2,3) Nil)
    moreover have "((ce_keys c)(e := None)) h = Some k'" if g: "km_get m kc = Some (k', h)" for kc k' h
    proof -
      have g': "km_get (c_hashmap c) kc = Some (k', h)" "kc \<noteq> ?kc" using g by (simp_all add: m(3) split: if_splits)
      have "ce_keys c h = Some k'" by (rule d(2) [OF g'(1)])
      moreover have "key_canon k' = kc" using km_get_SomeD(1) [OF kd(1) g'(1)] .
      ultimately show ?thesis using k(1) g'(2) by auto
    qed
    ultimately show ?thesis using Nil m(1) by simp
  next
    case (Cons h hs)
    have dis: "distinct (ch ?kc)" by (rule kd(6))
    have h: "h \<in> set (ch ?kc)" "h \<noteq> e" using Cons dis set_remove1_eq [OF dis, of e] by auto
    obtain k' where k': "ce_keys c h = Some k'" "key_canon k' = ?kc" using kd(4) h(1) by blast
    then obtain y where y: "c_heap c h = Some y" "rr_key (ce_record y) = k'"
      by (auto simp: ce_keys_def ce_rec_def)
    obtain m u where m: "avahi_hashmap_replace (c_hashmap c) k' h = Some (m, u)" "km_inv m"
      "km_get m = (km_get (c_hashmap c))(key_canon k' \<mapsto> (k', h))"
      by (rule km_replace [OF kd(1) kd(5) [OF k'(1)]])
    have "keyed m lk ((ce_keys c)(e := None)) (ch(?kc := remove1 e (ch ?kc)))"
      by (rule lk(2) [rule_format]) (simp add: m(2,3) k'(2) Cons)
    moreover have "((ce_keys c)(e := None)) h' = Some k''" if g: "km_get m kc = Some (k'', h')" for kc k'' h'
    proof (cases "kc = ?kc")
      case True
      then show ?thesis using g k' h(2) by (simp add: m(3))
    next
      case False
      then have g': "km_get (c_hashmap c) kc = Some (k'', h')" using g k'(2) by (simp add: m(3))
      have "ce_keys c h' = Some k''" by (rule d(2) [OF g'])
      moreover have "key_canon k'' = kc" using km_get_SomeD(1) [OF kd(1) g'] .
      ultimately show ?thesis using k(1) False by auto
    qed
    ultimately show ?thesis using Cons m(1) y by auto
  qed
  then obtain m where m: "(case hd_opt (remove1 e (ch ?kc)) of
         Some t \<Rightarrow> do {
           y \<leftarrow> c_heap c t;
           (m, _) \<leftarrow> avahi_hashmap_replace (c_hashmap c) (rr_key (ce_record y)) t;
           Some m
         }
       | None \<Rightarrow> avahi_hashmap_remove (c_hashmap c) ?k) = Some m"
    "keyed m lk ((ce_keys c)(e := None)) (ch(?kc := remove1 e (ch ?kc)))"
    "\<And>kc k h. km_get m kc = Some (k, h) \<Longrightarrow> ((ce_keys c)(e := None)) h = Some k" by blast
  have e: "e \<in> set xs" using d(4) r by simp
  obtain elk where elk: "llist_remove (c_entry_links c) (hd_opt xs) e = Some (elk, hd_opt (remove1 e xs))"
    "llist elk (hd_opt (remove1 e xs)) (remove1 e xs)"
    using llist_remove_ok [OF d(3) e] llist_head [OF d(3)] by metis
  have "\<exists>q. (case ce_time_event x of Some t \<Rightarrow> avahi_time_event_free (c_time_event_queue c) t
       | None \<Rightarrow> Some (c_time_event_queue c)) = Some q \<and> teq_core q \<and> (teq_ok q \<or> q = c_time_event_queue c) \<and>
     te_view q = (case ce_time_event x of None \<Rightarrow> te_view (c_time_event_queue c)
       | Some t \<Rightarrow> (te_view (c_time_event_queue c))(t := None))"
  proof (cases "ce_time_event x")
    case None
    then show ?thesis using t(1) by simp
  next
    case (Some tv)
    then have "te_alive (c_time_event_queue c) tv" using t(2) [OF assms(3) Some] by (auto simp: te_view_Some)
    from event_free_ok [OF t(1) this] Some show ?thesis by (auto simp: teq_ok_def)
  qed
  then obtain q where q: "(case ce_time_event x of Some t \<Rightarrow> avahi_time_event_free (c_time_event_queue c) t
       | None \<Rightarrow> Some (c_time_event_queue c)) = Some q" "teq_core q" "teq_ok q \<or> q = c_time_event_queue c"
     "te_view q = (case ce_time_event x of None \<Rightarrow> te_view (c_time_event_queue c)
       | Some t \<Rightarrow> (te_view (c_time_event_queue c))(t := None))" by blast
  have n: "c_n_entries c \<ge> 1" using d(5) e by (cases xs) auto
  define c' where "c' = c\<lparr>c_by_key := lk, c_hashmap := m, c_entry_links := elk, c_entries := hd_opt (remove1 e xs),
    c_time_event_queue := q, c_notified := c_notified c @ [(?r, AVAHI_BROWSER_REMOVE)],
    c_heap := (c_heap c)(e := None), c_n_entries := c_n_entries c - 1\<rparr>"
  have res: "remove_entry c e = Some c'"
    using assms(3) l lk(1) m(1) elk(1) q(1) n llist_head [OF d(3)]
    by (cases "ce_time_event x") (simp_all add: remove_entry_def c'_def Let_def)
  have rec: "ce_rec c' = (ce_rec c)(e := None)" by (auto simp: c'_def ce_rec_def fun_eq_iff)
  have keys: "ce_keys c' = (ce_keys c)(e := None)" by (auto simp: ce_keys_def rec fun_eq_iff)
  have "cache_records c' = cache_records c - {rr_canon ?r}"
  proof (intro set_eqI iffI)
    fix u
    assume "u \<in> cache_records c'"
    then obtain y r' where "y \<noteq> e" "ce_rec c y = Some r'" "u = rr_canon r'"
      by (auto simp: cache_records_def rec split: if_splits)
    with d(9) [OF r, of y r'] show "u \<in> cache_records c - {rr_canon ?r}"
      unfolding cache_records_def by (metis (mono_tags, lifting) Diff_iff mem_Collect_eq singletonD)
  next
    fix u
    assume "u \<in> cache_records c - {rr_canon ?r}"
    then obtain y r' where y: "ce_rec c y = Some r'" "u = rr_canon r'" "u \<noteq> rr_canon ?r"
      by (auto simp: cache_records_def)
    then have "y \<noteq> e" using r by auto
    then have "ce_rec c' y = Some r'" using y(1) by (simp add: rec)
    with y(2) show "u \<in> cache_records c'" unfolding cache_records_def by blast
  qed
  then have seen: "foldl seen_step {} (c_notified c') = cache_records c'"
    using d(10) by (simp add: c'_def)
  have dx: "distinct xs" using d(3) by (simp add: llist_def)
  have "cache_rep c' (remove1 e xs) (ch(?kc := remove1 e (ch ?kc)))"
    unfolding cache_rep_def keys rec
  proof (intro conjI allI impI, goal_cases)
    case 1
    show ?case using m(2) by (simp add: c'_def)
  next
    case (2 kc k h)
    then show ?case using m(3) by (simp add: c'_def)
  next
    case 3
    show ?case using elk(2) by (simp add: c'_def)
  next
    case (4 y)
    then show ?case using d(4) [of y] dx by auto
  next
    case 5
    then show ?case using d(5) e by (simp add: c'_def length_remove1)
  next
    case 6
    then show ?case using d(6) e by (simp add: c'_def length_remove1)
  next
    case (7 y r')
    then show ?case using d(7) [of y r'] by (simp add: c'_def split: if_splits)
  next
    case (8 y r')
    then show ?case using d(8) [of y r'] by (simp split: if_splits)
  next
    case (9 y y' r' r'')
    then show ?case using d(9) [of y r' y' r''] by (simp split: if_splits)
  next
    case 10
    show ?case by (rule seen)
  qed
  moreover have "timers_ok (P - {e}) c'"
    unfolding timers_ok_def
  proof (intro conjI allI impI, goal_cases)
    case 1
    show ?case using q(2) by (simp add: c'_def)
  next
    case (2 y z u)
    then have z: "c_heap c y = Some z" "ce_time_event z = Some u" "y \<noteq> e" by (simp_all add: c'_def split: if_splits)
    have "ce_time_event x \<noteq> Some u" using t(2) [OF z(1,2)] t(2) [OF assms(3)] z(3) by fastforce
    then show ?case using t(2) [OF z(1,2)] by (auto simp: c'_def q(4) split: option.split)
  next
    case (3 y z)
    then show ?case using t(3) [of y z] by (auto simp: c'_def split: if_splits)
  next
    case (4 u a lr y)
    then have u: "te_view (c_time_event_queue c) u = Some (a, lr, Some (Elapse_func y))" "ce_time_event x \<noteq> Some u"
      by (auto simp: c'_def q(4) split: option.splits if_splits)
    from t(4) [OF u(1)] u(2) assms(3) show ?case by (auto simp: c'_def)
  qed
  ultimately show ?thesis using res q(3) by (auto simp: c'_def armed_def)
qed


subsection \<open>Finding entries\<close>

lemma chain_entry:
  assumes "cache_rep c xs ch" "e \<in> set (ch kc)"
  obtains x where "c_heap c e = Some x" "record_ok (ce_record x)" "key_canon (rr_key (ce_record x)) = kc"
proof -
  obtain k where "ce_keys c e = Some k" "key_canon k = kc" using keyedD(4) [OF cache_repD(1) [OF assms(1)]] assms(2) by blast
  then obtain x where x: "c_heap c e = Some x" "rr_key (ce_record x) = k" by (auto simp: ce_keys_def ce_rec_def)
  moreover have "record_ok (ce_record x)" by (rule cache_repD(8) [OF assms(1) ce_rec_heap(1) [OF x(1)]])
  ultimately show thesis using that \<open>key_canon k = kc\<close> by blast
qed

lemma entry_in_chain:
  assumes "cache_rep c xs ch" "c_heap c e = Some x"
  shows "e \<in> set (ch (key_canon (rr_key (ce_record x))))" "e \<in> set xs"
  using keyedD(4) [OF cache_repD(1) [OF assms(1)]] cache_repD(4) [OF assms(1)] assms(2)
  by (auto simp: ce_keys_def ce_rec_def)

lemma lookup_callback:
  assumes "rr_readable r" "c_heap c e = Some x" "record_ok (ce_record x)"
  shows "lookup_record_callback r e c = Some (if rr_canon (ce_record x) = rr_canon r then Some e else None, c)"
  using assms record_equal_canon [of "ce_record x" r] by (simp add: lookup_record_callback_def record_ok_def)

text \<open>The search of an equal record along the list of its key.\<close>

lemma search_chain:
  assumes "cache_rep c xs ch" "rr_readable r"
  shows "\<exists>e. llist_foreach c_by_key (lookup_record_callback r) (hd_opt (ch (key_canon (rr_key r)))) c = Some (e, c) \<and>
    (case e of
       None \<Rightarrow> \<forall>e x. c_heap c e = Some x \<longrightarrow> rr_canon (ce_record x) \<noteq> rr_canon r
     | Some e \<Rightarrow> \<exists>x. c_heap c e = Some x \<and> rr_canon (ce_record x) = rr_canon r)"
proof -
  let ?kc = "key_canon (rr_key r)"
  let ?I = "\<lambda>ys s. s = c \<and> (\<forall>y \<in> set ys. \<forall>x. c_heap c y = Some x \<longrightarrow> rr_canon (ce_record x) \<noteq> rr_canon r)"
  let ?Q = "\<lambda>e s. s = c \<and> (case e of
       None \<Rightarrow> \<forall>e x. c_heap c e = Some x \<longrightarrow> rr_canon (ce_record x) \<noteq> rr_canon r
     | Some e \<Rightarrow> \<exists>x. c_heap c e = Some x \<and> rr_canon (ce_record x) = rr_canon r)"
  have "\<exists>e s. llist_foreach c_by_key (lookup_record_callback r) (hd_opt (ch ?kc)) c = Some (e, s) \<and> ?Q e s"
  proof (rule llist_foreach_rule [where I = ?I and Q = ?Q and ?lk0.0 = "c_by_key c" and xs = "ch ?kc"])
    show "llist (c_by_key c) (hd_opt (ch ?kc)) (ch ?kc)" by (rule keyedD(2) [OF cache_repD(1) [OF assms(1)]])
  next
    fix ys e zs s
    assume e: "ch ?kc = ys @ e # zs" "?I ys s"
    then obtain x where x: "c_heap c e = Some x" "record_ok (ce_record x)"
      by (metis chain_entry [OF assms(1)] in_set_conv_decomp)
    show "l_next (c_by_key s) e = l_next (c_by_key c) e \<and> (\<exists>u s'. lookup_record_callback r e s = Some (u, s') \<and>
        (case u of None \<Rightarrow> ?I (ys @ [e]) s' | Some v \<Rightarrow> ?Q (Some v) s'))"
      using e(2) x(1) lookup_callback [OF assms(2) x] by auto
  next
    fix s
    assume s: "?I (ch ?kc) s"
    have "rr_canon (ce_record x) \<noteq> rr_canon r" if "c_heap c e = Some x" for e x
      using s that entry_in_chain(1) [OF assms(1) that] record_equal_key [of "ce_record x" r] by auto
    then show "?Q None s" using s by simp
  qed simp
  then show ?thesis by auto
qed

text \<open>A walk with a pattern does not find a record whose key is that pattern: there is none.\<close>

lemma lookup_record_ok:
  assumes "cache_rep c xs ch" "rr_readable r"
  shows "\<exists>e. lookup_record c r = Some e \<and>
    (case e of
       None \<Rightarrow> \<forall>e x. c_heap c e = Some x \<longrightarrow> rr_canon (ce_record x) \<noteq> rr_canon r
     | Some e \<Rightarrow> \<exists>x. c_heap c e = Some x \<and> rr_canon (ce_record x) = rr_canon r)"
proof (cases "avahi_key_is_pattern (rr_key r)")
  case False
  have "cache_lookup_key c (rr_key r) = Some (hd_opt (ch (key_canon (rr_key r))))"
    using keyed_lookup [OF cache_repD(1) [OF assms(1)]] rr_readable_key [OF assms(2)] False by (simp add: cache_lookup_key_def)
  with search_chain [OF assms] False show ?thesis by (auto simp: lookup_record_def avahi_cache_walk_def)
next
  case True
  let ?b = "\<lambda>e c. do {
             x \<leftarrow> c_heap c e;
             b \<leftarrow> avahi_key_pattern_match (rr_key r) (rr_key (ce_record x));
             if b then lookup_record_callback r e c else Some (None, c)
           }"
  have ne: "rr_canon (ce_record x) \<noteq> rr_canon r" if "record_ok (ce_record x)" for x
  proof
    assume "rr_canon (ce_record x) = rr_canon r"
    then have "key_canon (rr_key (ce_record x)) = key_canon (rr_key r)" by (rule record_equal_key)
    with True that show False by (simp add: record_ok_def key_canon_def avahi_key_is_pattern_def)
  qed
  have "\<exists>e s. llist_foreach c_entry_links ?b (c_entries c) c = Some (e, s) \<and> e = None \<and> s = c"
  proof (rule llist_foreach_rule [where I = "\<lambda>_ s. s = c" and Q = "\<lambda>e s. e = None \<and> s = c" and xs = xs])
    show "llist (c_entry_links c) (c_entries c) xs" by (rule cache_repD(3) [OF assms(1)])
  next
    fix ys e zs s
    assume e: "xs = ys @ e # zs" "s = c"
    then obtain x where x: "c_heap c e = Some x" using cache_repD(4) [OF assms(1), of e] by (auto simp: ce_rec_def)
    note ok = cache_repD(8) [OF assms(1) ce_rec_heap(1) [OF x]]
    obtain b where "avahi_key_pattern_match (rr_key r) (rr_key (ce_record x)) = Some b"
      using pattern_match_ok [OF rr_readable_key [OF assms(2)]] ok by (fastforce simp: record_ok_def rr_readable_def)
    then show "l_next (c_entry_links s) e = l_next (c_entry_links c) e \<and> (\<exists>u s'. ?b e s = Some (u, s') \<and>
        (case u of None \<Rightarrow> s' = c | Some v \<Rightarrow> Some v = None \<and> s' = c))"
      using e(2) x lookup_callback [OF assms(2) x ok] ne [OF ok] by simp
  qed auto
  then have "lookup_record c r = Some None" using True by (simp add: lookup_record_def avahi_cache_walk_def)
  moreover have "\<forall>e x. c_heap c e = Some x \<longrightarrow> rr_canon (ce_record x) \<noteq> rr_canon r"
    using ne cache_repD(8) [OF assms(1) ce_rec_heap(1)] by blast
  ultimately show ?thesis by simp
qed

subsection \<open>The operations keep the invariant\<close>

definition cache_ok :: "nat set \<Rightarrow> 'o cache \<Rightarrow> bool" where
  "cache_ok P c \<longleftrightarrow> (\<exists>xs ch. cache_rep c xs ch) \<and> timers_ok P c"

lemma cache_okI: "cache_rep c xs ch \<Longrightarrow> timers_ok P c \<Longrightarrow> cache_ok P c"
  by (auto simp: cache_ok_def)

lemma cache_ok_skeleton: "cache_ok P c \<Longrightarrow> skeleton c' = skeleton c \<Longrightarrow> timers_ok P' c' \<Longrightarrow> cache_ok P' c'"
  unfolding cache_ok_def using cache_rep_skeleton [of c' c] by blast

lemma timers_ok_new: "teq_core q \<Longrightarrow> (\<And>t a l e. te_view q t \<noteq> Some (a, l, Some (Elapse_func e))) \<Longrightarrow>
  timers_ok P (avahi_cache_new q n_max junk)"
  by (simp add: timers_ok_def avahi_cache_new_def)

lemma cache_ok_new:
  assumes "teq_core q" "\<And>t a l e. te_view q t \<noteq> Some (a, l, Some (Elapse_func e))"
  shows "cache_ok {} (avahi_cache_new q n_max junk)"
proof -
  let ?c = "avahi_cache_new q n_max junk"
  have r: "ce_rec ?c = (\<lambda>_. None)" "ce_keys ?c = (\<lambda>_. None)"
    by (simp_all add: ce_rec_def ce_keys_def avahi_cache_new_def fun_eq_iff)
  have "cache_rep ?c [] (\<lambda>_. [])"
    unfolding cache_rep_def r cache_records_def
    using keyed_new [of False False] by (simp add: avahi_cache_new_def km_new)
  from cache_okI [OF this timers_ok_new [OF assms]] show ?thesis .
qed

text \<open>
  What an entry is to a client: all but the number of its timer. The cache is a table of these, by
  canonical record.
\<close>

definition ce_view :: "cache_entry \<Rightarrow> cache_entry" where
  "ce_view x = x\<lparr>ce_time_event := None\<rparr>"

definition c_view :: "'o cache \<Rightarrow> nat \<rightharpoonup> cache_entry" where
  "c_view c e = map_option ce_view (c_heap c e)"

lemma ce_view_simps [simp]:
  "ce_view (x\<lparr>ce_time_event := t\<rparr>) = ce_view x" "ce_record (ce_view x) = ce_record x"
  "ce_timestamp (ce_view x) = ce_timestamp x" "ce_state (ce_view x) = ce_state x" "ce_expiry (ce_view x) = ce_expiry x"
  "ce_poof_timestamp (ce_view x) = ce_poof_timestamp x" "ce_poof_num (ce_view x) = ce_poof_num x"
  "ce_poof_address (ce_view x) = ce_poof_address x" "ce_time_event (ce_view x) = None"
  by (simp_all add: ce_view_def)

lemma c_view_Some: "c_view c e = Some y \<longleftrightarrow> (\<exists>x. c_heap c e = Some x \<and> y = ce_view x)"
  by (auto simp: c_view_def)

lemma c_view_set_entry [simp]: "c_view (set_entry e x c) = (c_view c)(e \<mapsto> ce_view x)"
  by (auto simp: c_view_def fun_eq_iff)

lemma c_view_upd: "c_heap c' = (c_heap c)(e \<mapsto> x) \<Longrightarrow> c_view c' = (c_view c)(e \<mapsto> ce_view x)"
  "c_heap c' = (c_heap c)(e := None) \<Longrightarrow> c_view c' = (c_view c)(e := None)"
  by (auto simp: c_view_def fun_eq_iff)

definition jitter :: "'o cache \<Rightarrow> nat \<times> int" where
  "jitter c = (c_last_rand c, c_last_rand_timestamp c)"

definition next_jitter :: "env \<Rightarrow> nat \<times> int \<Rightarrow> nat \<times> int" where
  "next_jitter v j = (if env_time v \<ge> snd j + 10 then (env_rand v, env_time v) else j)"

lemma jitter_simps [simp]: "jitter (set_entry e x c) = jitter c" "jitter (c\<lparr>c_time_event_queue := q\<rparr>) = jitter c"
  "jitter (c\<lparr>c_posted := ps\<rparr>) = jitter c"
  by (simp_all add: jitter_def)

lemma last_rand_jitter: "c_last_rand c = fst (jitter c)"
  by (simp add: jitter_def)

lemma update_time_event_jitter: "update_time_event c e = Some c' \<Longrightarrow> jitter c' = jitter c"
  by (auto simp: update_time_event_def Option.bind_eq_Some_conv split: option.splits)

lemma next_expiry_jitter: "next_expiry v c e percent = Some c' \<Longrightarrow> jitter c' = next_jitter v (jitter c)"
  by (auto simp: next_expiry_def Option.bind_eq_Some_conv Let_def next_jitter_def dest!: update_time_event_jitter)
    (auto simp: jitter_def)

lemma expire_in_one_second_jitter: "expire_in_one_second v c e st = Some c' \<Longrightarrow> jitter c' = jitter c"
  by (auto simp: expire_in_one_second_def Option.bind_eq_Some_conv Let_def dest!: update_time_event_jitter)

lemma cache_ok_entry:
  assumes "cache_ok P c" "c_heap c e = Some x"
  shows "record_ok (ce_record x)"
  using assms cache_repD(8) ce_rec_heap(1) unfolding cache_ok_def by blast

text \<open>The three ways to give an entry new fields.\<close>

lemma fields_ok:
  assumes "cache_ok P c" "c_heap c e = Some x" "ce_record x' = ce_record x" "ce_time_event x' = ce_time_event x"
    "ce_expiry x' = ce_expiry x"
  shows "cache_ok P (set_entry e x' c)"
  using cache_ok_skeleton [OF assms(1) skeleton_set_entry [OF assms(2,3)]]
    timers_ok_fields [OF _ assms(2,4,5)] assms(1) by (auto simp: cache_ok_def)

lemma expire_soon_ok:
  assumes "cache_ok P c" "c_heap c e = Some x"
  shows "\<exists>c'. expire_in_one_second v c e st = Some c' \<and> cache_ok (P - {e}) c' \<and> skeleton c' = skeleton c \<and> armed c c' \<and>
    c_posted c' = c_posted c \<and> jitter c' = jitter c \<and>
    c_view c' = (c_view c)(e \<mapsto> (ce_view x)\<lparr>ce_state := st, ce_expiry := avahi_timeval_add (env_now v) 1000000\<rparr>)"
proof -
  have "timers_ok P c" using assms(1) by (simp add: cache_ok_def)
  from expire_in_one_second_ok [OF this assms(2), of v st] obtain c' t where
    c': "expire_in_one_second v c e st = Some c'" "skeleton c' = skeleton c"
    "c_heap c' = (c_heap c)(e \<mapsto> x\<lparr>ce_state := st, ce_expiry := avahi_timeval_add (env_now v) 1000000, ce_time_event := Some t\<rparr>)"
    "timers_ok (P - {e}) c'" "teq_ok (c_time_event_queue c')" "c_posted c' = c_posted c" by blast
  from c_view_upd(1) [OF c'(3)] cache_ok_skeleton [OF assms(1) c'(2,4)] expire_in_one_second_jitter [OF c'(1)] c'
  show ?thesis by (auto simp: armed_def ce_view_def)
qed

lemma next_expiry_view:
  assumes "cache_ok P c" "c_heap c e = Some x" "0 < percent" "percent \<le> 100"
  shows "\<exists>c'. next_expiry v c e percent = Some c' \<and> cache_ok (P - {e}) c' \<and> skeleton c' = skeleton c \<and> armed c c' \<and>
    c_posted c' = c_posted c \<and> jitter c' = next_jitter v (jitter c) \<and>
    c_view c' = (c_view c)(e \<mapsto> (ce_view x)\<lparr>ce_expiry := avahi_timeval_add (ce_timestamp x)
      (int (expiry_usec (rr_ttl (ce_record x)) percent (fst (next_jitter v (jitter c)))))\<rparr>)"
proof -
  have "timers_ok P c" using assms(1) by (simp add: cache_ok_def)
  from next_expiry_ok [OF this assms(2-4), of v] obtain c' t where
    c': "next_expiry v c e percent = Some c'" "skeleton c' = skeleton c"
    "c_heap c' = (c_heap c)(e \<mapsto> x\<lparr>ce_expiry := avahi_timeval_add (ce_timestamp x)
      (int (expiry_usec (rr_ttl (ce_record x)) percent (c_last_rand c'))), ce_time_event := Some t\<rparr>)"
    "timers_ok (P - {e}) c'" "teq_ok (c_time_event_queue c')" "c_posted c' = c_posted c" by blast
  from c_view_upd(1) [OF c'(3)] cache_ok_skeleton [OF assms(1) c'(2,4)] next_expiry_jitter [OF c'(1)] c'
  show ?thesis by (auto simp: armed_def ce_view_def last_rand_jitter)
qed

lemma timers_ok_cong:
  "c_time_event_queue c' = c_time_event_queue c \<Longrightarrow> c_heap c' = c_heap c \<Longrightarrow> timers_ok P c' = timers_ok P c"
  by (simp add: timers_ok_def)

text \<open>The timer of an entry runs out.\<close>

lemma elapse_func_ok:
  assumes "cache_ok {} c" "c_heap c e = Some x"
  shows "\<exists>c'. elapse_func refresh v c e = Some c' \<and> cache_ok {} c' \<and> armed c c' \<and>
    c_n_cache_entries_max c' = c_n_cache_entries_max c \<and>
    (case elapse_switch (ce_state x) of
       None \<Rightarrow> c_view c' = (c_view c)(e := None) \<and> c_posted c' = c_posted c \<and> jitter c' = jitter c \<and>
         c_notified c' = c_notified c @ [(ce_record x, AVAHI_BROWSER_REMOVE)]
     | Some (state, percent) \<Rightarrow> c_view c' = (c_view c)(e \<mapsto> (ce_view x)\<lparr>ce_state := state,
          ce_expiry := avahi_timeval_add (ce_timestamp x)
            (int (expiry_usec (rr_ttl (ce_record x)) percent (fst (next_jitter v (jitter c)))))\<rparr>) \<and>
         jitter c' = next_jitter v (jitter c) \<and> c_notified c' = c_notified c \<and>
         c_posted c' = c_posted c @ (if refresh (rr_key (ce_record x)) then [rr_key (ce_record x)] else []))"
proof (cases "elapse_switch (ce_state x)")
  case None
  from assms(1) obtain xs ch where r: "cache_rep c xs ch" "timers_ok {} c" by (auto simp: cache_ok_def)
  from remove_entry_ok [OF r assms(2)] obtain c' xs' ch' where
    c': "remove_entry c e = Some c'" "cache_rep c' xs' ch'" "timers_ok {} c'" "c_heap c' = (c_heap c)(e := None)" "armed c c'"
      "c_posted c' = c_posted c" "c_notified c' = c_notified c @ [(ce_record x, AVAHI_BROWSER_REMOVE)]"
      "c_n_cache_entries_max c' = c_n_cache_entries_max c" by auto
  have "jitter c' = jitter c"
    using c'(1) by (auto simp: remove_entry_def Option.bind_eq_Some_conv Let_def jitter_def)
  with c' None assms(2) c_view_upd(2) [OF c'(4)] show ?thesis
    by (auto simp: elapse_func_def cache_ok_def)
next
  case (Some sp)
  obtain state percent where sp: "sp = (state, percent)" by (cases sp)
  have p: "0 < percent" "percent \<le> 100"
    using Some sp by (auto simp: elapse_switch_def split: cache_state.splits)
  let ?x = "x\<lparr>ce_state := state\<rparr>" let ?k = "rr_key (ce_record x)"
  let ?c = "(set_entry e ?x c)\<lparr>c_posted := c_posted c @ (if refresh ?k then [?k] else [])\<rparr>"
  have ok0: "cache_ok {} (set_entry e ?x c)" using fields_ok [OF assms, of ?x] by simp
  then have "timers_ok {} (set_entry e ?x c)" by (simp add: cache_ok_def)
  then have "timers_ok {} ?c" by (subst timers_ok_cong [of _ "set_entry e ?x c"]) simp_all
  then have ok: "cache_ok {} ?c" by (intro cache_ok_skeleton [OF ok0]) simp_all
  have h: "c_heap ?c e = Some ?x" by simp
  from next_expiry_view [OF ok h p, of v] obtain c' where c': "next_expiry v ?c e percent = Some c'" "cache_ok {} c'"
    "skeleton c' = skeleton ?c" "armed ?c c'" "c_posted c' = c_posted ?c" "jitter c' = next_jitter v (jitter ?c)"
    "c_view c' = (c_view ?c)(e \<mapsto> (ce_view ?x)\<lparr>ce_expiry := avahi_timeval_add (ce_timestamp ?x)
      (int (expiry_usec (rr_ttl (ce_record ?x)) percent (fst (next_jitter v (jitter ?c)))))\<rparr>)" by auto
  have eq: "?c = (if refresh ?k then (set_entry e ?x c)\<lparr>c_posted := c_posted c @ [?k]\<rparr> else set_entry e ?x c)"
    by (simp add: set_entry_def)
  have "elapse_func refresh v c e = next_expiry v ?c e percent"
    using assms(2) Some sp p unfolding eq by (simp add: elapse_func_def Let_def)
  moreover have "c_view ?c = (c_view c)(e \<mapsto> ce_view ?x)" by (auto simp: c_view_def fun_eq_iff)
  moreover have "c_notified c' = c_notified c" "c_n_cache_entries_max c' = c_n_cache_entries_max c"
    using c'(3) by (simp_all add: skeleton_def)
  ultimately show ?thesis
    using c' Some sp by (auto simp: armed_def ce_view_def)
qed

text \<open>A loop whose body changes each entry on its own, by \<open>g\<close>.\<close>

definition quiet :: "'o cache \<Rightarrow> 'o cache \<Rightarrow> bool" where
  "quiet c c' \<longleftrightarrow> cache_ok {} c' \<and> skeleton c' = skeleton c \<and> armed c c' \<and> c_posted c' = c_posted c \<and> jitter c' = jitter c"

lemma quiet_trans: "quiet c c1 \<Longrightarrow> quiet c1 c2 \<Longrightarrow> quiet c c2"
  unfolding quiet_def by (metis armed_trans)

lemma quiet_refl: "cache_ok {} c \<Longrightarrow> quiet c c"
  by (simp add: quiet_def)

lemma foreach_entries:
  assumes c: "cache_ok {} c" and l: "llist (lk c) (hd_opt zs) zs" and lk: "\<And>s. skeleton s = skeleton c \<Longrightarrow> lk s = lk c"
    and h: "\<And>e. e \<in> set zs \<Longrightarrow> c_heap c e \<noteq> None"
    and body: "\<And>e x s. e \<in> set zs \<Longrightarrow> quiet c s \<Longrightarrow> c_heap s e = Some x \<Longrightarrow>
      \<exists>s'. body e s = Some (None, s') \<and> quiet s s' \<and> c_view s' = (c_view s)(e \<mapsto> g (ce_view x))"
  shows "\<exists>c'. llist_foreach lk body (hd_opt zs) c = Some (None, c') \<and> quiet c c' \<and>
    c_view c' = (\<lambda>e. map_option (if e \<in> set zs then g else (\<lambda>y. y)) (c_view c e))"
proof -
  let ?I = "\<lambda>ys s. quiet c s \<and> c_view s = (\<lambda>e. map_option (if e \<in> set ys then g else (\<lambda>y. y)) (c_view c e))"
  let ?Q = "\<lambda>r s. r = None \<and> ?I zs s"
  have dist: "distinct zs" using l by (simp add: llist_def)
  have "\<exists>r s. llist_foreach lk body (hd_opt zs) c = Some (r, s) \<and> ?Q r s"
  proof (rule llist_foreach_rule [where I = ?I and Q = ?Q and ?lk0.0 = "lk c" and xs = zs])
    show "llist (lk c) (hd_opt zs) zs" by (rule l)
    show "?I [] c" using quiet_refl [OF c] by (simp add: option.map_ident)
  next
    fix ys e ws s
    assume e: "zs = ys @ e # ws" "?I ys s"
    then have ez: "e \<in> set zs" "e \<notin> set ys" using dist by auto
    then have "c_view s e = c_view c e" using e(2) by (simp add: option.map_ident)
    then obtain x where x: "c_heap s e = Some x" "c_view c e = Some (ce_view x)"
      using h [OF ez(1)] by (auto simp: c_view_def)
    from body [OF ez(1) _ x(1)] e(2) obtain s' where s': "body e s = Some (None, s')" "quiet s s'"
      "c_view s' = (c_view s)(e \<mapsto> g (ce_view x))" by blast
    have vs: "c_view s a = map_option (if a \<in> set ys then g else (\<lambda>y. y)) (c_view c a)" for a
      using e(2) by (simp add: fun_eq_iff)
    have "c_view s' a = map_option (if a \<in> set (ys @ [e]) then g else (\<lambda>y. y)) (c_view c a)" for a
      unfolding s'(3) by (cases "a = e") (simp_all add: x(2) vs)
    then have "?I (ys @ [e]) s'" using e(2) s'(2) quiet_trans by blast
    moreover have "lk s = lk c" using lk e(2) unfolding quiet_def by blast
    ultimately have "l_next (lk s) e = l_next (lk c) e \<and> (body e s = Some (None, s') \<and>
        (case None of None \<Rightarrow> ?I (ys @ [e]) s' | Some u \<Rightarrow> ?Q (Some u) s'))"
      using s'(1) by (simp only: option.case)
    then show "l_next (lk s) e = l_next (lk c) e \<and> (\<exists>r s'. body e s = Some (r, s') \<and>
        (case r of None \<Rightarrow> ?I (ys @ [e]) s' | Some u \<Rightarrow> ?Q (Some u) s'))" by blast
  qed simp
  then show ?thesis by blast
qed

lemma skeleton_links: "skeleton s = skeleton c \<Longrightarrow> c_by_key s = c_by_key c" "skeleton s = skeleton c \<Longrightarrow> c_entry_links s = c_entry_links c"
  by (simp_all add: skeleton_def)

text \<open>The loop of a cache flush.\<close>

definition too_old :: "env \<Rightarrow> cache_entry \<Rightarrow> bool" where
  "too_old v x \<longleftrightarrow> avahi_timeval_diff (env_now v) (ce_timestamp x) > 1000000"

definition replaced :: "env \<Rightarrow> cache_entry \<Rightarrow> cache_entry" where
  "replaced v x = (if too_old v x
     then x\<lparr>ce_state := AVAHI_CACHE_REPLACE_FINAL, ce_expiry := avahi_timeval_add (env_now v) 1000000\<rparr> else x)"

lemma expire_old_ok:
  assumes "cache_ok {} s" "c_heap s e = Some x"
  shows "\<exists>s'. expire_old v e s = Some (None, s') \<and> quiet s s' \<and> c_view s' = (c_view s)(e \<mapsto> replaced v (ce_view x))"
proof (cases "too_old v x")
  case True
  from expire_soon_ok [OF assms, of v AVAHI_CACHE_REPLACE_FINAL] obtain s' where
    "expire_in_one_second v s e AVAHI_CACHE_REPLACE_FINAL = Some s'" "quiet s s'"
    "c_view s' = (c_view s)(e \<mapsto> (ce_view x)\<lparr>ce_state := AVAHI_CACHE_REPLACE_FINAL, ce_expiry := avahi_timeval_add (env_now v) 1000000\<rparr>)"
    by (auto simp: quiet_def)
  with True assms(2) show ?thesis by (simp add: expire_old_def too_old_def replaced_def)
next
  case False
  have "(c_view s)(e \<mapsto> ce_view x) = c_view s" using assms(2) by (auto simp: c_view_def fun_eq_iff)
  with False assms show ?thesis by (simp add: expire_old_def too_old_def replaced_def quiet_refl)
qed

lemma foreach_expire_old:
  assumes "cache_ok {} c" "cache_rep c xs ch"
  shows "\<exists>c'. llist_foreach c_by_key (expire_old v) (hd_opt (ch kc)) c = Some (None, c') \<and> quiet c c' \<and>
    c_view c' = (\<lambda>e. map_option (\<lambda>y. if key_canon (rr_key (ce_record y)) = kc then replaced v y else y) (c_view c e))"
proof -
  note k = keyedD [OF cache_repD(1) [OF assms(2)]]
  have "\<exists>c'. llist_foreach c_by_key (expire_old v) (hd_opt (ch kc)) c = Some (None, c') \<and> quiet c c' \<and>
      c_view c' = (\<lambda>e. map_option (if e \<in> set (ch kc) then replaced v else (\<lambda>y. y)) (c_view c e))"
    using assms(1) k(2) skeleton_links(1)
  proof (rule foreach_entries)
    show "c_heap c e \<noteq> None" if "e \<in> set (ch kc)" for e using chain_entry [OF assms(2) that] by auto
    show "\<exists>s'. expire_old v e s = Some (None, s') \<and> quiet s s' \<and> c_view s' = (c_view s)(e \<mapsto> replaced v (ce_view x))"
      if "quiet c s" "c_heap s e = Some x" for e x s
      using that expire_old_ok [of s e x v] by (simp add: quiet_def)
  qed
  moreover have "map_option (if e \<in> set (ch kc) then replaced v else (\<lambda>y. y)) (c_view c e) =
      map_option (\<lambda>y. if key_canon (rr_key (ce_record y)) = kc then replaced v y else y) (c_view c e)" for e
  proof (cases "c_heap c e")
    case (Some x)
    then have "e \<in> set (ch kc) \<longleftrightarrow> key_canon (rr_key (ce_record x)) = kc"
      using k(4) [of e kc] by (auto simp: ce_keys_def ce_rec_def)
    with Some show ?thesis by (simp add: c_view_def)
  qed (simp add: c_view_def)
  ultimately show ?thesis by auto
qed

text \<open>The record of an entry is replaced by an equal one.\<close>

lemma replace_record_ok:
  assumes "cache_ok {} c" "c_heap c e = Some x" "rr_canon (ce_record x) = rr_canon r" "record_ok r"
  shows "\<exists>c'. replace_record c e r = Some c' \<and> cache_ok {} c' \<and> armed c c' \<and> c_posted c' = c_posted c \<and> jitter c' = jitter c \<and>
    c_heap c' = (c_heap c)(e \<mapsto> x\<lparr>ce_record := r\<rparr>) \<and> c_notified c' = c_notified c \<and>
    c_n_entries c' = c_n_entries c \<and> c_n_cache_entries_max c' = c_n_cache_entries_max c"
proof -
  from assms(1) obtain xs ch where rep: "cache_rep c xs ch" and tm: "timers_ok {} c" by (auto simp: cache_ok_def)
  note d = cache_repD [OF rep]
  note kd = keyedD [OF d(1)]
  let ?k = "rr_key (ce_record x)" let ?kc = "key_canon ?k"
  have k: "ce_keys c e = Some ?k" using assms(2) by (simp add: ce_keys_def ce_rec_def)
  have kr: "key_readable (rr_key r)" "key_canon (rr_key r) = ?kc"
    using assms(4) record_equal_key [OF assms(3)] by (auto simp: record_ok_def rr_readable_def)
  have e: "e \<in> set (ch ?kc)" by (rule entry_in_chain(1) [OF rep assms(2)])
  then obtain ys zs where s: "ch ?kc = ys @ e # zs" by (meson split_list)
  have hd: "l_prev (c_by_key c) e = None \<longleftrightarrow> hd_opt (ch ?kc) = Some e"
  proof -
    have "l_prev (c_by_key c) e = hd_opt (rev ys)" using llist_neighbours kd(2) [of ?kc] unfolding s by blast
    moreover have "distinct (ys @ e # zs)" using kd(6) [of ?kc] s by simp
    ultimately show ?thesis by (cases ys) (auto simp: s)
  qed
  have "\<exists>m. (if l_prev (c_by_key c) e = None then do {
            (m, _) \<leftarrow> avahi_hashmap_replace (c_hashmap c) (rr_key r) e;
            Some (c\<lparr>c_hashmap := m\<rparr>)
          } else Some c) = Some (c\<lparr>c_hashmap := m\<rparr>) \<and>
      keyed m (c_by_key c) ((ce_keys c)(e \<mapsto> rr_key r)) ch \<and>
      (\<forall>kc k h. km_get m kc = Some (k, h) \<longrightarrow> ((ce_keys c)(e \<mapsto> rr_key r)) h = Some k)"
  proof (cases "l_prev (c_by_key c) e = None")
    case True
    with hd keyed_rekey(2) [OF d(1) k kr] obtain m u where m: "avahi_hashmap_replace (c_hashmap c) (rr_key r) e = Some (m, u)"
      "keyed m (c_by_key c) ((ce_keys c)(e \<mapsto> rr_key r)) ch" "km_get m = (km_get (c_hashmap c))(?kc \<mapsto> (rr_key r, e))"
      by blast
    have "((ce_keys c)(e \<mapsto> rr_key r)) h = Some k'" if g: "km_get m kc = Some (k', h)" for kc k' h
    proof (cases "kc = ?kc")
      case True
      with g show ?thesis by (simp add: m(3))
    next
      case False
      with g have g': "km_get (c_hashmap c) kc = Some (k', h)" by (simp add: m(3))
      then have "h \<noteq> e" using d(2) [OF g'] km_get_SomeD(1) [OF kd(1) g'] k False by auto
      with d(2) [OF g'] show ?thesis by simp
    qed
    with m(1,2) True show ?thesis by (intro exI [of _ m] conjI allI impI) simp_all
  next
    case False
    have "((ce_keys c)(e \<mapsto> rr_key r)) h = Some k'" if g: "km_get (c_hashmap c) kc = Some (k', h)" for kc k' h
    proof -
      have "h \<noteq> e"
      proof
        assume "h = e"
        then have "kc = ?kc" using d(2) [OF g] km_get_SomeD(1) [OF kd(1) g] k by simp
        then have "hd_opt (ch ?kc) = Some e" using kd(3) [of kc] g \<open>h = e\<close> by simp
        with False hd show False by simp
      qed
      with d(2) [OF g] show ?thesis by simp
    qed
    with keyed_rekey(1) [OF d(1) k kr] show ?thesis
      unfolding if_not_P [OF False] by (intro exI [of _ "c_hashmap c"]) simp
  qed
  then obtain m where m: "(if l_prev (c_by_key c) e = None then do {
            (m, _) \<leftarrow> avahi_hashmap_replace (c_hashmap c) (rr_key r) e;
            Some (c\<lparr>c_hashmap := m\<rparr>)
          } else Some c) = Some (c\<lparr>c_hashmap := m\<rparr>)"
      "keyed m (c_by_key c) ((ce_keys c)(e \<mapsto> rr_key r)) ch"
      "\<And>kc k h. km_get m kc = Some (k, h) \<Longrightarrow> ((ce_keys c)(e \<mapsto> rr_key r)) h = Some k" by blast
  define c' where "c' = set_entry e (x\<lparr>ce_record := r\<rparr>) (c\<lparr>c_hashmap := m\<rparr>)"
  have res: "replace_record c e r = Some c'" using m(1) assms(2) by (simp add: replace_record_def c'_def)
  have rec: "ce_rec c' = (ce_rec c)(e \<mapsto> r)" by (auto simp: c'_def ce_rec_def fun_eq_iff)
  have keys: "ce_keys c' = (ce_keys c)(e \<mapsto> rr_key r)" by (auto simp: ce_keys_def rec fun_eq_iff)
  have old: "ce_rec c e = Some (ce_record x)" by (rule ce_rec_heap(1) [OF assms(2)])
  have rr: "\<exists>r1. ce_rec c y = Some r1 \<and> rr_canon r1 = rr_canon r'" if "ce_rec c' y = Some r'" for y r'
    using that old assms(3) by (auto simp: rec split: if_splits)
  have rr': "\<exists>r1. ce_rec c' y = Some r1 \<and> rr_canon r1 = rr_canon r'" if "ce_rec c y = Some r'" for y r'
    using that old assms(3) by (auto simp: rec)
  have cr: "cache_records c' = cache_records c" using rr rr' unfolding cache_records_def by (intro set_eqI) (smt (verit, ccfv_threshold) mem_Collect_eq)
  have "cache_rep c' xs ch"
    unfolding cache_rep_def keys cr
  proof (intro conjI allI impI, goal_cases)
    case 1
    show ?case using m(2) by (simp add: c'_def)
  next
    case (2 kc k h)
    then show ?case using m(3) by (simp add: c'_def)
  next
    case 3
    show ?case using d(3) by (simp add: c'_def)
  next
    case (4 y)
    then show ?case using d(4) [of y] old by (auto simp: rec)
  next
    case 5
    then show ?case using d(5) by (simp add: c'_def)
  next
    case 6
    then show ?case using d(6) by (simp add: c'_def)
  next
    case (7 y r')
    then obtain r1 where "ce_rec c y = Some r1" using rr by blast
    from d(7) [OF this] show ?case by (simp add: c'_def)
  next
    case (8 y r')
    then show ?case using d(8) [of y r'] assms(4) by (simp add: rec split: if_splits)
  next
    case (9 y y' r' r'')
    then obtain r1 r2 where "ce_rec c y = Some r1" "rr_canon r1 = rr_canon r'" "ce_rec c y' = Some r2" "rr_canon r2 = rr_canon r''"
      using rr by meson
    with 9 d(9) [of y r1 y' r2] show ?case by simp
  next
    case 10
    show ?case using d(10) by (simp add: c'_def)
  qed
  moreover have "timers_ok {} (set_entry e (x\<lparr>ce_record := r\<rparr>) c)"
    by (rule timers_ok_fields [OF tm assms(2)]) simp_all
  then have "timers_ok {} c'" by (subst timers_ok_cong [of _ "set_entry e (x\<lparr>ce_record := r\<rparr>) c"]) (simp_all add: c'_def)
  ultimately have "cache_ok {} c'" by (rule cache_okI)
  with res show ?thesis by (simp add: c'_def armed_def jitter_def)
qed

text \<open>A new entry.\<close>

lemma append_entry_ok:
  assumes "cache_ok {} c" "cache_rep c xs ch" "record_ok r"
    and new: "\<forall>e x. c_heap c e = Some x \<longrightarrow> rr_canon (ce_record x) \<noteq> rr_canon r"
    and room: "c_n_entries c < c_n_cache_entries_max c"
  shows "\<exists>c'. append_entry c (hd_opt (ch (key_canon (rr_key r)))) r = Some (c', c_next c) \<and> cache_ok {c_next c} c' \<and>
    c_time_event_queue c' = c_time_event_queue c \<and> c_posted c' = c_posted c \<and> jitter c' = jitter c \<and>
    c_heap c' = (c_heap c)(c_next c \<mapsto> new_entry r) \<and> c_notified c' = c_notified c @ [(r, AVAHI_BROWSER_NEW)] \<and>
    c_n_entries c' = c_n_entries c + 1 \<and> c_n_cache_entries_max c' = c_n_cache_entries_max c"
proof -
  have tm: "timers_ok {} c" using assms(1) by (simp add: cache_ok_def)
  note d = cache_repD [OF assms(2)]
  let ?e = "c_next c" let ?kc = "key_canon (rr_key r)"
  have none: "ce_rec c ?e = None" using d(7) [of ?e] by (cases "ce_rec c ?e") auto
  then have h: "c_heap c ?e = None" by (simp add: ce_rec_def)
  have kr: "key_readable (rr_key r)" using assms(3) by (simp add: record_ok_def rr_readable_def)
  have "ce_keys c ?e = None" by (simp add: ce_keys_def none)
  then obtain m u where m: "avahi_hashmap_replace (c_hashmap c) (rr_key r) ?e = Some (m, u)"
    "km_get m = (km_get (c_hashmap c))(?kc \<mapsto> (rr_key r, ?e))"
    "keyed m (fst (llist_prepend (c_by_key c) (hd_opt (ch ?kc)) ?e)) ((ce_keys c)(?e \<mapsto> rr_key r)) (ch(?kc := ?e # ch ?kc))"
    using keyed_add [OF d(1) _ kr] by metis
  have ex: "?e \<notin> set xs" using d(4) none by simp
  note pe = llist_prepend_ok [OF d(3) ex]
  obtain lk where lk: "llist_prepend (c_by_key c) (hd_opt (ch ?kc)) ?e = (lk, Some ?e)"
    by (simp add: llist_prepend_def Let_def)
  obtain elk where elk: "llist_prepend (c_entry_links c) (c_entries c) ?e = (elk, Some ?e)"
    by (simp add: llist_prepend_def Let_def)
  define c' where "c' = set_entry ?e (new_entry r) (c\<lparr>c_next := ?e + 1, c_by_key := lk, c_hashmap := m, c_entry_links := elk,
    c_entries := Some ?e, c_n_entries := c_n_entries c + 1, c_notified := c_notified c @ [(r, AVAHI_BROWSER_NEW)]\<rparr>)"
  have res: "append_entry c (hd_opt (ch ?kc)) r = Some (c', ?e)"
    using m(1) lk elk by (simp add: append_entry_def c'_def set_entry_def Let_def)
  have nr: "ce_record (new_entry r) = r" "ce_time_event (new_entry r) = None" by (simp_all add: new_entry_def Let_def)
  have rec: "ce_rec c' = (ce_rec c)(?e \<mapsto> r)" by (auto simp: c'_def ce_rec_def fun_eq_iff nr)
  have keys: "ce_keys c' = (ce_keys c)(?e \<mapsto> rr_key r)" by (auto simp: ce_keys_def rec fun_eq_iff)
  have cr: "cache_records c' = insert (rr_canon r) (cache_records c)"
  proof (intro set_eqI iffI)
    fix w
    assume "w \<in> cache_records c'"
    then show "w \<in> insert (rr_canon r) (cache_records c)"
      by (auto simp: cache_records_def rec split: if_splits)
  next
    fix w
    assume "w \<in> insert (rr_canon r) (cache_records c)"
    then consider "w = rr_canon r" | y r' where "ce_rec c y = Some r'" "w = rr_canon r'" by (auto simp: cache_records_def)
    then show "w \<in> cache_records c'"
    proof cases
      case 1
      moreover have "ce_rec c' ?e = Some r" by (simp add: rec)
      ultimately show ?thesis unfolding cache_records_def by blast
    next
      case (2 y r')
      then have "ce_rec c' y = Some r'" using none by (auto simp: rec)
      with 2(2) show ?thesis unfolding cache_records_def by blast
    qed
  qed
  have newr: "rr_canon r' \<noteq> rr_canon r" if "ce_rec c y = Some r'" for y r'
    using ce_rec_heap(2) [OF that] new by blast
  have "cache_rep c' (?e # xs) (ch(?kc := ?e # ch ?kc))"
    unfolding cache_rep_def keys cr
  proof (intro conjI allI impI, goal_cases)
    case 1
    show ?case using m(3) lk by (simp add: c'_def)
  next
    case (2 kc k hh)
    then show ?case
    proof (cases "kc = ?kc")
      case False
      then have g: "km_get (c_hashmap c) kc = Some (k, hh)" using 2 by (simp add: c'_def m(2))
      then have "ce_keys c hh = Some k" by (rule d(2))
      moreover from this have "hh \<noteq> ?e" by (auto simp: ce_keys_def none)
      ultimately show ?thesis by simp
    qed (use 2 in \<open>auto simp: c'_def m(2)\<close>)
  next
    case 3
    show ?case using pe(1) elk by (simp add: c'_def)
  next
    case (4 y)
    then show ?case using d(4) [of y] by (auto simp: rec)
  next
    case 5
    then show ?case using d(5) by (simp add: c'_def)
  next
    case 6
    then show ?case using room d(5) by (simp add: c'_def)
  next
    case (7 y r')
    then show ?case using d(7) [of y r'] by (cases "y = ?e") (simp_all add: rec, simp_all add: c'_def)
  next
    case (8 y r')
    then show ?case using d(8) [of y r'] assms(3) by (simp add: rec split: if_splits)
  next
    case (9 y y' r' r'')
    then show ?case using d(9) [of y r' y' r''] newr [of y r'] newr [of y' r''] by (auto simp: rec split: if_splits)
  next
    case 10
    show ?case using d(10) by (simp add: c'_def)
  qed
  moreover have "timers_ok {?e} c'"
    unfolding timers_ok_def
  proof (intro conjI allI impI, goal_cases)
    case 1
    show ?case using timers_okD(1) [OF tm] by (simp add: c'_def)
  next
    case (2 y x t)
    then show ?case using timers_okD(2) [OF tm, of y x t] nr(2) by (auto simp: c'_def split: if_splits)
  next
    case (3 y x)
    then show ?case using timers_okD(3) [OF tm, of y x] by (auto simp: c'_def split: if_splits)
  next
    case (4 t a l y)
    then have "\<exists>x. c_heap c y = Some x \<and> ce_time_event x = Some t" using timers_okD(4) [OF tm] by (simp add: c'_def)
    moreover have "y \<noteq> ?e" using calculation h by auto
    ultimately show ?case by (simp add: c'_def)
  qed
  ultimately have "cache_ok {?e} c'" by (rule cache_okI)
  with res show ?thesis by (simp add: c'_def jitter_def)
qed

text \<open>The end of an update, for an entry that may be new.\<close>

lemma finish_update_ok:
  assumes "cache_ok {e} c" "c_heap c e = Some x"
  shows "\<exists>c'. finish_update v c e f a = Some c' \<and> cache_ok {} c' \<and> armed c c' \<and> skeleton c' = skeleton c \<and>
    c_posted c' = c_posted c \<and> jitter c' = next_jitter v (jitter c) \<and>
    c_view c' = (c_view c)(e \<mapsto> (ce_view x)\<lparr>ce_origin := a, ce_timestamp := env_now v,
      ce_expiry := avahi_timeval_add (env_now v)
        (int (expiry_usec (rr_ttl (ce_record x)) 80 (fst (next_jitter v (jitter c))))),
      ce_state := AVAHI_CACHE_VALID, ce_cache_flush := f\<rparr>)"
proof -
  let ?x = "x\<lparr>ce_origin := a, ce_timestamp := env_now v\<rparr>"
  let ?c = "set_entry e ?x c"
  have c1: "cache_ok {e} ?c" "skeleton ?c = skeleton c" "c_heap ?c e = Some ?x"
    using fields_ok [OF assms, of ?x] skeleton_set_entry [OF assms(2), of ?x] by simp_all
  from next_expiry_view [OF c1(1,3), of 80 v] obtain c2 where c2: "next_expiry v ?c e 80 = Some c2" "cache_ok {} c2"
    "skeleton c2 = skeleton ?c" "armed ?c c2" "c_posted c2 = c_posted ?c" "jitter c2 = next_jitter v (jitter ?c)"
    "c_view c2 = (c_view ?c)(e \<mapsto> (ce_view ?x)\<lparr>ce_expiry := avahi_timeval_add (ce_timestamp ?x)
      (int (expiry_usec (rr_ttl (ce_record ?x)) 80 (fst (next_jitter v (jitter ?c)))))\<rparr>)" by auto
  from c2(7) have "c_view c2 e = Some ((ce_view ?x)\<lparr>ce_expiry := avahi_timeval_add (ce_timestamp ?x)
      (int (expiry_usec (rr_ttl (ce_record ?x)) 80 (fst (next_jitter v (jitter ?c)))))\<rparr>)" by simp
  then obtain y where y: "c_heap c2 e = Some y" "ce_view y = (ce_view ?x)\<lparr>ce_expiry := avahi_timeval_add (ce_timestamp ?x)
      (int (expiry_usec (rr_ttl (ce_record ?x)) 80 (fst (next_jitter v (jitter ?c)))))\<rparr>"
    by (auto simp: c_view_Some)
  let ?y = "y\<lparr>ce_state := AVAHI_CACHE_VALID, ce_cache_flush := f\<rparr>"
  have "cache_ok {} (set_entry e ?y c2)" using fields_ok [OF c2(2) y(1), of ?y] by simp
  moreover have "skeleton (set_entry e ?y c2) = skeleton c"
    using skeleton_set_entry [OF y(1), of ?y] c1(2) c2(3) by simp
  moreover have "finish_update v c e f a = Some (set_entry e ?y c2)"
    using assms(2) c2(1) y(1) by (simp add: finish_update_def Let_def)
  moreover have "ce_view ?y = (ce_view y)\<lparr>ce_state := AVAHI_CACHE_VALID, ce_cache_flush := f\<rparr>" by (simp add: ce_view_def)
  then have "ce_view ?y = (ce_view x)\<lparr>ce_origin := a, ce_timestamp := env_now v,
      ce_expiry := avahi_timeval_add (env_now v)
        (int (expiry_usec (rr_ttl (ce_record x)) 80 (fst (next_jitter v (jitter c))))),
      ce_state := AVAHI_CACHE_VALID, ce_cache_flush := f\<rparr>"
    unfolding y(2) by (cases x) (simp add: ce_view_def)
  moreover have "armed c (set_entry e ?y c2)" using c2(4) by (simp add: armed_def)
  ultimately show ?thesis
    using c2(5,6,7) by (intro exI [of _ "set_entry e ?y c2"] conjI) simp_all
qed

subsection \<open>The cache as a table of records\<close>

definition cache_map :: "'o cache \<Rightarrow> canon_record \<rightharpoonup> cache_entry" where
  "cache_map c k =
     (case find (\<lambda>e. case c_heap c e of None \<Rightarrow> False | Some x \<Rightarrow> rr_canon (ce_record x) = k) [0..<c_next c] of
        None \<Rightarrow> None
      | Some e \<Rightarrow> c_view c e)"

abbreviation ce_canon :: "cache_entry \<Rightarrow> canon_record" where
  "ce_canon y \<equiv> rr_canon (ce_record y)"

lemma cache_map_iff:
  assumes "cache_ok P c"
  shows "cache_map c k = Some y \<longleftrightarrow> (\<exists>e. c_view c e = Some y \<and> ce_canon y = k)"
proof -
  from assms obtain xs ch where rep: "cache_rep c xs ch" by (auto simp: cache_ok_def)
  let ?P = "\<lambda>e. case c_heap c e of None \<Rightarrow> False | Some x \<Rightarrow> rr_canon (ce_record x) = k"
  show ?thesis
  proof
    assume "cache_map c k = Some y"
    then obtain e where e: "find ?P [0..<c_next c] = Some e" "c_view c e = Some y" by (auto simp: cache_map_def split: option.splits)
    then have "?P e" by (auto simp: find_Some_iff)
    with e(2) show "\<exists>e. c_view c e = Some y \<and> ce_canon y = k" by (auto simp: c_view_Some)
  next
    assume "\<exists>e. c_view c e = Some y \<and> ce_canon y = k"
    then obtain e x where e: "c_heap c e = Some x" "y = ce_view x" "rr_canon (ce_record x) = k" by (auto simp: c_view_Some)
    note r = cache_repD [OF rep]
    have l: "e < c_next c" using r(7) [OF ce_rec_heap(1) [OF e(1)]] .
    have u: "e' = e" if "?P e'" for e'
      using that r(9) [OF ce_rec_heap(1) ce_rec_heap(1) [OF e(1)]] e(3) by (auto split: option.splits)
    have "find ?P [0..<c_next c] \<noteq> None"
      unfolding find_None_iff using l e(1,3) by auto
    then obtain e' where e': "find ?P [0..<c_next c] = Some e'" by blast
    then have "?P e'" by (auto simp: find_Some_iff)
    with u e' e show "cache_map c k = Some y" by (simp add: cache_map_def c_view_def)
  qed
qed

lemma cache_map_eqI:
  assumes "cache_ok P c" "\<And>k y. M k = Some y \<longleftrightarrow> (\<exists>e. c_view c e = Some y \<and> ce_canon y = k)"
  shows "cache_map c = M"
proof (rule ext)
  fix k
  have "cache_map c k = Some y \<longleftrightarrow> M k = Some y" for y
    unfolding cache_map_iff [OF assms(1)] assms(2) by (rule refl)
  then show "cache_map c k = M k" by (cases "M k"; cases "cache_map c k") auto
qed

lemma view_unique:
  assumes "cache_ok P c" "c_view c e = Some y" "c_view c e' = Some y'" "ce_canon y = ce_canon y'"
  shows "e = e'"
  using assms cache_repD(9) ce_rec_heap(1) unfolding cache_ok_def c_view_Some by (metis ce_view_simps(2))

lemma cache_map_upd:
  assumes "cache_ok P c" "cache_ok P' c'" "c_view c' = (c_view c)(e \<mapsto> y')"
    and "case c_view c e of None \<Rightarrow> cache_map c (ce_canon y') = None | Some y \<Rightarrow> ce_canon y = ce_canon y'"
  shows "cache_map c' = (cache_map c)(ce_canon y' \<mapsto> y')"
proof (rule cache_map_eqI [OF assms(2)])
  fix k y
  have n: "ce_canon y1 \<noteq> ce_canon y'" if "c_view c e1 = Some y1" "e1 \<noteq> e" for e1 y1
  proof (cases "c_view c e")
    case None
    then show ?thesis using assms(4) cache_map_iff [OF assms(1), of "ce_canon y'" y1] that(1) by auto
  next
    case (Some y0)
    then show ?thesis using assms(4) view_unique [OF assms(1) that(1) Some] that(2) by auto
  qed
  show "((cache_map c)(ce_canon y' \<mapsto> y')) k = Some y \<longleftrightarrow> (\<exists>e. c_view c' e = Some y \<and> ce_canon y = k)"
  proof (cases "k = ce_canon y'")
    case True
    have "(\<exists>a. c_view c' a = Some y \<and> ce_canon y = k) \<longleftrightarrow> y = y'"
      using n True by (auto simp: assms(3) split: if_splits)
    with True show ?thesis by auto
  next
    case False
    have "c_view c' a = Some y \<and> ce_canon y = k \<longleftrightarrow> c_view c a = Some y \<and> ce_canon y = k" for a
    proof (cases "a = e")
      case True
      then show ?thesis using False assms(4) by (auto simp: assms(3))
    qed (simp add: assms(3))
    then show ?thesis using False cache_map_iff [OF assms(1), of k y] by simp
  qed
qed

lemma cache_map_del:
  assumes "cache_ok P c" "cache_ok P' c'" "c_view c' = (c_view c)(e := None)" "c_view c e = Some y"
  shows "cache_map c' = (cache_map c)(ce_canon y := None)"
proof (rule cache_map_eqI [OF assms(2)])
  fix k y1
  have "(\<exists>a. c_view c' a = Some y1 \<and> ce_canon y1 = k) \<longleftrightarrow>
      (\<exists>a. a \<noteq> e \<and> c_view c a = Some y1 \<and> ce_canon y1 = k)"
    unfolding assms(3) by (rule arg_cong [where f = Ex]) (simp add: fun_eq_iff)
  also have "\<dots> \<longleftrightarrow> k \<noteq> ce_canon y \<and> (\<exists>a. c_view c a = Some y1 \<and> ce_canon y1 = k)"
  proof (intro iffI; elim exE conjE)
    fix a
    assume "a \<noteq> e" "c_view c a = Some y1" "ce_canon y1 = k"
    then have "k \<noteq> ce_canon y" using view_unique [OF assms(1) assms(4), of a y1] by auto
    with \<open>c_view c a = Some y1\<close> \<open>ce_canon y1 = k\<close> show "k \<noteq> ce_canon y \<and> (\<exists>a. c_view c a = Some y1 \<and> ce_canon y1 = k)"
      by blast
  next
    fix a
    assume a: "k \<noteq> ce_canon y" "c_view c a = Some y1" "ce_canon y1 = k"
    then have "a \<noteq> e" using assms(4) by auto
    with a show "\<exists>a. a \<noteq> e \<and> c_view c a = Some y1 \<and> ce_canon y1 = k" by blast
  qed
  also have "\<dots> \<longleftrightarrow> ((cache_map c)(ce_canon y := None)) k = Some y1"
    unfolding cache_map_iff [OF assms(1), symmetric] by simp
  finally show "((cache_map c)(ce_canon y := None)) k = Some y1 \<longleftrightarrow> (\<exists>a. c_view c' a = Some y1 \<and> ce_canon y1 = k)" by blast
qed

lemma ex_map_option:
  assumes "\<And>y. C (h y) = C y"
  shows "(\<exists>y0. (\<exists>e. V e = Some y0 \<and> C y0 = k) \<and> h y0 = y) \<longleftrightarrow> (\<exists>e. map_option h (V e) = Some y \<and> C y = k)"
proof (intro iffI; elim exE conjE)
  fix y0 e
  assume "V e = Some y0" "C y0 = k" "h y0 = y"
  then have "map_option h (V e) = Some y" "C y = k" using assms [of y0] by simp_all
  then show "\<exists>e. map_option h (V e) = Some y \<and> C y = k" by blast
next
  fix e
  assume e: "map_option h (V e) = Some y" "C y = k"
  then obtain y0 where "V e = Some y0" "h y0 = y" by auto
  moreover from this have "C y0 = k" using assms [of y0] e(2) by simp
  ultimately show "\<exists>y0. (\<exists>e. V e = Some y0 \<and> C y0 = k) \<and> h y0 = y" by blast
qed

lemma cache_map_map:
  assumes "cache_ok P c" "cache_ok P' c'" "\<And>e. c_view c' e = map_option h (c_view c e)" "\<And>y. ce_canon (h y) = ce_canon y"
  shows "cache_map c' k = map_option h (cache_map c k)"
proof -
  have "cache_map c' = (\<lambda>k. map_option h (cache_map c k))"
  proof (rule cache_map_eqI [OF assms(2)])
    fix k y
    have "map_option h (cache_map c k) = Some y \<longleftrightarrow> (\<exists>y0. cache_map c k = Some y0 \<and> h y0 = y)"
      by (rule map_option_eq_Some)
    also have "\<dots> \<longleftrightarrow> (\<exists>y0. (\<exists>e. c_view c e = Some y0 \<and> ce_canon y0 = k) \<and> h y0 = y)"
      unfolding cache_map_iff [OF assms(1)] by (rule refl)
    also have "\<dots> \<longleftrightarrow> (\<exists>e. map_option h (c_view c e) = Some y \<and> ce_canon y = k)"
      using assms(4) by (rule ex_map_option)
    finally show "map_option h (cache_map c k) = Some y \<longleftrightarrow> (\<exists>e. c_view c' e = Some y \<and> ce_canon y = k)"
      unfolding assms(3) .
  qed
  then show ?thesis by simp
qed

lemma cache_map_card:
  assumes "cache_ok P c"
  shows "c_n_entries c = card (dom (cache_map c))" "finite (dom (cache_map c))" "c_n_entries c \<le> c_n_cache_entries_max c"
proof -
  obtain xs ch where rep: "cache_rep c xs ch" using assms unfolding cache_ok_def by blast
  note d = cache_repD [OF rep]
  define f where "f e = ce_canon (the (c_view c e))" for e
  have x: "e \<in> set xs \<longleftrightarrow> c_view c e \<noteq> None" for e
    unfolding d(4) by (simp add: ce_rec_def c_view_def)
  have dm: "dom (cache_map c) = f ` set xs"
  proof (intro set_eqI iffI)
    fix k
    assume "k \<in> dom (cache_map c)"
    then obtain y where "cache_map c k = Some y" by blast
    then obtain e where e: "c_view c e = Some y" "ce_canon y = k" unfolding cache_map_iff [OF assms] by blast
    then have "e \<in> set xs" "f e = k" unfolding x f_def by simp_all
    then show "k \<in> f ` set xs" by blast
  next
    fix k
    assume "k \<in> f ` set xs"
    then obtain e where e: "c_view c e \<noteq> None" "k = f e" unfolding x [symmetric] by blast
    then obtain y where "c_view c e = Some y" "k = ce_canon y" unfolding f_def by force
    then have "cache_map c k = Some y" unfolding cache_map_iff [OF assms] by blast
    then show "k \<in> dom (cache_map c)" by blast
  qed
  have "inj_on f (set xs)"
  proof (rule inj_onI)
    fix e e'
    assume e: "e \<in> set xs" "e' \<in> set xs" "f e = f e'"
    from e(1,2) obtain y y' where y: "c_view c e = Some y" "c_view c e' = Some y'" unfolding x by blast
    with e(3) have "ce_canon y = ce_canon y'" unfolding f_def by simp
    with view_unique [OF assms y] show "e = e'" .
  qed
  then have "card (f ` set xs) = length xs"
    using d(3) unfolding llist_def by (simp only: card_image distinct_card)
  then show "c_n_entries c = card (dom (cache_map c))" unfolding dm d(5) by (rule sym)
  show "finite (dom (cache_map c))" unfolding dm by simp
  show "c_n_entries c \<le> c_n_cache_entries_max c" unfolding d(5) by (rule d(6))
qed

text \<open>The entry of a record.\<close>

lemma lookup_record_map:
  assumes "cache_ok {} c" "rr_readable r"
  shows "case cache_map c (rr_canon r) of
      None \<Rightarrow> lookup_record c r = Some None
    | Some y \<Rightarrow> \<exists>e x. lookup_record c r = Some (Some e) \<and> c_heap c e = Some x \<and> y = ce_view x \<and> ce_canon x = rr_canon r"
proof -
  from assms(1) obtain xs ch where rep: "cache_rep c xs ch" by (auto simp: cache_ok_def)
  from lookup_record_ok [OF rep assms(2)] obtain e where e: "lookup_record c r = Some e"
    "case e of
       None \<Rightarrow> \<forall>e x. c_heap c e = Some x \<longrightarrow> rr_canon (ce_record x) \<noteq> rr_canon r
     | Some e \<Rightarrow> \<exists>x. c_heap c e = Some x \<and> rr_canon (ce_record x) = rr_canon r" by blast
  show ?thesis
  proof (cases e)
    case None
    then have "cache_map c (rr_canon r) = None"
    proof (cases "cache_map c (rr_canon r)")
      case (Some y)
      then obtain e1 where "c_view c e1 = Some y" "ce_canon y = rr_canon r" unfolding cache_map_iff [OF assms(1)] by blast
      then show ?thesis using None e(2) by (auto simp: c_view_Some)
    qed
    with None e(1) show ?thesis by simp
  next
    case (Some e1)
    with e(2) obtain x where x: "c_heap c e1 = Some x" "rr_canon (ce_record x) = rr_canon r" by auto
    then have "cache_map c (rr_canon r) = Some (ce_view x)"
      using cache_map_iff [OF assms(1), of "rr_canon r" "ce_view x"] by (auto simp: c_view_Some)
    with Some e(1) x show ?thesis by auto
  qed
qed

text \<open>The specification of the operations: on the table, with the state of the jitter.\<close>

type_synonym cache_table = "(canon_record \<rightharpoonup> cache_entry) \<times> nat \<times> int"

definition cache_table :: "'o cache \<Rightarrow> cache_table" where
  "cache_table c = (cache_map c, jitter c)"

definition fresh_until :: "env \<Rightarrow> nat \<times> int \<Rightarrow> timeval \<Rightarrow> rr \<Rightarrow> nat \<Rightarrow> timeval" where
  "fresh_until v j since r percent = avahi_timeval_add since (int (expiry_usec (rr_ttl r) percent (fst (next_jitter v j))))"

definition refreshed :: "env \<Rightarrow> nat \<times> int \<Rightarrow> rr \<Rightarrow> bool \<Rightarrow> address \<Rightarrow> cache_entry \<Rightarrow> cache_entry" where
  "refreshed v j r f a y = y\<lparr>ce_record := r, ce_origin := a, ce_timestamp := env_now v,
     ce_expiry := fresh_until v j (env_now v) r 80, ce_state := AVAHI_CACHE_VALID, ce_cache_flush := f\<rparr>"

definition spec_flush :: "env \<Rightarrow> rr \<Rightarrow> (canon_record \<rightharpoonup> cache_entry) \<Rightarrow> (canon_record \<rightharpoonup> cache_entry)" where
  "spec_flush v r M k =
     map_option (\<lambda>y. if key_canon (rr_key (ce_record y)) = key_canon (rr_key r) then replaced v y else y) (M k)"

definition spec_update :: "nat \<Rightarrow> env \<Rightarrow> rr \<Rightarrow> bool \<Rightarrow> address \<Rightarrow> cache_table \<Rightarrow> cache_table" where
  "spec_update n_max v r f a = (\<lambda>(M, j).
     if rr_ttl r = 0 then
       (case M (rr_canon r) of
          None \<Rightarrow> (M, j)
        | Some y \<Rightarrow> (M(rr_canon r \<mapsto> y\<lparr>ce_state := AVAHI_CACHE_GOODBYE_FINAL,
            ce_expiry := avahi_timeval_add (env_now v) 1000000\<rparr>), j))
     else
       let M = (if f then spec_flush v r M else M) in
       case M (rr_canon r) of
         Some y \<Rightarrow> (M(rr_canon r \<mapsto> refreshed v j r f a y), next_jitter v j)
       | None \<Rightarrow>
           if card (dom M) \<ge> n_max then (M, j)
           else (M(rr_canon r \<mapsto> refreshed v j r f a (new_entry r)), next_jitter v j))"

definition quiet_but :: "'o cache \<Rightarrow> 'o cache \<Rightarrow> bool" where
  "quiet_but c c' \<longleftrightarrow> cache_ok {} c' \<and> armed c c' \<and> c_posted c' = c_posted c \<and>
     c_n_cache_entries_max c' = c_n_cache_entries_max c"

lemma quiet_quiet_but: "quiet c c' \<Longrightarrow> quiet_but c c'"
  by (auto simp: quiet_def quiet_but_def skeleton_def)

lemma cache_ok_cong:
  "cache_ok P c \<Longrightarrow> cache_ok P' c"  if "P \<subseteq> P'"
  using that unfolding cache_ok_def timers_ok_def by blast

lemma goodbye_ok:
  assumes "cache_ok {} c" "rr_readable r" "rr_ttl r = 0"
  shows "\<exists>c'. avahi_cache_update v c r f a = Some c' \<and> quiet_but c c' \<and>
    cache_table c' = spec_update (c_n_cache_entries_max c) v r f a (cache_table c)"
proof (cases "cache_map c (rr_canon r)")
  case None
  with lookup_record_map [OF assms(1,2)] assms(1,3) show ?thesis
    by (simp add: avahi_cache_update_def quiet_but_def cache_table_def spec_update_def)
next
  case (Some y)
  with lookup_record_map [OF assms(1,2)] obtain e x where x: "lookup_record c r = Some (Some e)" "c_heap c e = Some x"
    "y = ce_view x" "ce_canon x = rr_canon r" by auto
  from expire_soon_ok [OF assms(1) x(2), of v AVAHI_CACHE_GOODBYE_FINAL] obtain c' where
    c': "expire_in_one_second v c e AVAHI_CACHE_GOODBYE_FINAL = Some c'" "cache_ok {} c'" "quiet c c'" "jitter c' = jitter c"
      "c_view c' = (c_view c)(e \<mapsto> (ce_view x)\<lparr>ce_state := AVAHI_CACHE_GOODBYE_FINAL, ce_expiry := avahi_timeval_add (env_now v) 1000000\<rparr>)"
    by (auto simp: quiet_def)
  have "c_view c e = Some (ce_view x)" using x(2) by (simp add: c_view_def)
  from cache_map_upd [OF assms(1) c'(2,5)] this x(4)
  have "cache_map c' = (cache_map c)(rr_canon r \<mapsto> y\<lparr>ce_state := AVAHI_CACHE_GOODBYE_FINAL, ce_expiry := avahi_timeval_add (env_now v) 1000000\<rparr>)"
    by (simp add: x(3))
  with c' x(1) assms(3) Some show ?thesis
    by (simp add: avahi_cache_update_def quiet_quiet_but cache_table_def spec_update_def)
qed

text \<open>An entry, new or found, is refreshed: the common end of an update.\<close>

lemma refresh_ok:
  assumes "cache_ok {} c" "cache_ok {e} c1" "armed c c1" "c_posted c1 = c_posted c" "jitter c1 = jitter c"
    "c_n_cache_entries_max c1 = c_n_cache_entries_max c" "c_heap c1 = (c_heap c)(e \<mapsto> x)" "ce_record x = r"
    "case c_view c e of None \<Rightarrow> cache_map c (rr_canon r) = None | Some y \<Rightarrow> ce_canon y = rr_canon r"
  shows "\<exists>c'. finish_update v c1 e f a = Some c' \<and> quiet_but c c' \<and>
    cache_table c' = ((cache_map c)(rr_canon r \<mapsto> refreshed v (jitter c) r f a (ce_view x)), next_jitter v (jitter c))"
proof -
  have h: "c_heap c1 e = Some x" by (simp add: assms(7))
  from finish_update_ok [OF assms(2) h, of v f a] obtain c' where c': "finish_update v c1 e f a = Some c'" "cache_ok {} c'"
    "armed c1 c'" "skeleton c' = skeleton c1" "c_posted c' = c_posted c1" "jitter c' = next_jitter v (jitter c1)"
    "c_view c' = (c_view c1)(e \<mapsto> (ce_view x)\<lparr>ce_origin := a, ce_timestamp := env_now v,
      ce_expiry := avahi_timeval_add (env_now v)
        (int (expiry_usec (rr_ttl (ce_record x)) 80 (fst (next_jitter v (jitter c1))))),
      ce_state := AVAHI_CACHE_VALID, ce_cache_flush := f\<rparr>)" by blast
  have rf: "(ce_view x)\<lparr>ce_origin := a, ce_timestamp := env_now v,
      ce_expiry := avahi_timeval_add (env_now v)
        (int (expiry_usec (rr_ttl (ce_record x)) 80 (fst (next_jitter v (jitter c1))))),
      ce_state := AVAHI_CACHE_VALID, ce_cache_flush := f\<rparr> = refreshed v (jitter c) r f a (ce_view x)"
    unfolding refreshed_def fresh_until_def assms(5,8) using assms(8) by (cases x) (simp add: ce_view_def)
  have vu: "c_view c' = (c_view c)(e \<mapsto> refreshed v (jitter c) r f a (ce_view x))"
    unfolding c'(7) rf c_view_upd(1) [OF assms(7)] by simp
  have rr: "ce_record (refreshed v (jitter c) r f a (ce_view x)) = r" by (simp add: refreshed_def)
  from cache_map_upd [OF assms(1) c'(2) vu, unfolded rr, OF assms(9)]
  have "cache_map c' = (cache_map c)(rr_canon r \<mapsto> refreshed v (jitter c) r f a (ce_view x))" .
  moreover have "quiet_but c c'"
    using c'(2-5) armed_trans [OF assms(3) c'(3)] assms(4,6) by (simp add: quiet_but_def skeleton_def)
  ultimately show ?thesis using c'(1,6) assms(5) by (simp add: cache_table_def)
qed

lemma update_ok:
  assumes "cache_ok {} c" "rr_readable r" "rr_ttl r \<noteq> 0" "\<not> avahi_key_is_pattern (rr_key r)"
  shows "\<exists>c'. avahi_cache_update v c r f a = Some c' \<and> quiet_but c c' \<and>
    cache_table c' = spec_update (c_n_cache_entries_max c) v r f a (cache_table c)"
proof -
  from assms(1) obtain xs ch where rep: "cache_rep c xs ch" by (auto simp: cache_ok_def)
  let ?kc = "key_canon (rr_key r)"
  let ?h = "\<lambda>y. if f \<and> key_canon (rr_key (ce_record y)) = ?kc then replaced v y else y"
  have rok: "record_ok r" using assms(2-4) by (simp add: record_ok_def)
  have l: "cache_lookup_key c (rr_key r) = Some (hd_opt (ch ?kc))"
    using keyed_lookup [OF cache_repD(1) [OF rep]] rr_readable_key [OF assms(2)] assms(4) by (simp add: cache_lookup_key_def)
  have "\<exists>c1. (if f then llist_foreach c_by_key (expire_old v) (hd_opt (ch ?kc)) c else Some (None, c)) = Some (None, c1) \<and>
      quiet c c1 \<and> (\<forall>e. c_view c1 e = map_option ?h (c_view c e))"
  proof (cases f)
    case True
    with foreach_expire_old [OF assms(1) rep, of v ?kc] show ?thesis by auto
  next
    case False
    with quiet_refl [OF assms(1)] show ?thesis by (simp add: option.map_ident)
  qed
  then obtain c1 where c1: "(if f then llist_foreach c_by_key (expire_old v) (hd_opt (ch ?kc)) c else Some (None, c)) = Some (None, c1)"
    "quiet c c1" "\<And>e. c_view c1 e = map_option ?h (c_view c e)" by blast
  have ok1: "cache_ok {} c1" "jitter c1 = jitter c" "skeleton c1 = skeleton c" using c1(2) by (simp_all add: quiet_def)
  have m1: "cache_map c1 k = map_option ?h (cache_map c k)" for k
    by (rule cache_map_map [OF assms(1) ok1(1) c1(3)]) (simp add: replaced_def)
  have M: "cache_map c1 = (if f then spec_flush v r (cache_map c) else cache_map c)"
    by (auto simp: fun_eq_iff m1 spec_flush_def option.map_ident)
  have rep1: "cache_rep c1 xs ch" using rep cache_rep_skeleton [OF ok1(3)] by simp
  have qb: "quiet_but c c1" by (rule quiet_quiet_but [OF c1(2)])
  from search_chain [OF rep1 assms(2)] obtain e where e: "llist_foreach c_by_key (lookup_record_callback r) (hd_opt (ch ?kc)) c1 = Some (e, c1)"
    "case e of None \<Rightarrow> \<forall>e x. c_heap c1 e = Some x \<longrightarrow> rr_canon (ce_record x) \<noteq> rr_canon r
     | Some e \<Rightarrow> \<exists>x. c_heap c1 e = Some x \<and> rr_canon (ce_record x) = rr_canon r" by blast
  have qb_trans: "quiet_but c c'" if "quiet_but c1 c'" for c'
    using that qb armed_trans [of c c1 c'] by (simp add: quiet_but_def)
  show ?thesis
  proof (cases e)
    case (Some e1)
    with e(2) obtain x where x: "c_heap c1 e1 = Some x" "rr_canon (ce_record x) = rr_canon r" by auto
    from replace_record_ok [OF ok1(1) x rok] obtain c2 where c2: "replace_record c1 e1 r = Some c2" "cache_ok {} c2"
      "armed c1 c2" "c_posted c2 = c_posted c1" "jitter c2 = jitter c1" "c_heap c2 = (c_heap c1)(e1 \<mapsto> x\<lparr>ce_record := r\<rparr>)"
      "c_n_cache_entries_max c2 = c_n_cache_entries_max c1" by blast
    have "cache_ok {e1} c2" using cache_ok_cong [OF _ c2(2)] by blast
    from refresh_ok [OF ok1(1) this c2(3,4,5,7,6), of r v f a] x obtain c' where c': "finish_update v c2 e1 f a = Some c'"
      "quiet_but c1 c'" "cache_table c' = ((cache_map c1)(rr_canon r \<mapsto> refreshed v (jitter c1) r f a (ce_view (x\<lparr>ce_record := r\<rparr>))),
        next_jitter v (jitter c1))" by (auto simp: c_view_def)
    have "c_view c1 e1 = Some (ce_view x)" using x(1) by (simp add: c_view_def)
    then have mx: "cache_map c1 (rr_canon r) = Some (ce_view x)" using cache_map_iff [OF ok1(1), of "rr_canon r" "ce_view x"] x(2) by auto
    have rf: "refreshed v j r f a (ce_view (x\<lparr>ce_record := r\<rparr>)) = refreshed v j r f a (ce_view x)" for j
      by (simp add: refreshed_def ce_view_def)
    have "avahi_cache_update v c r f a = Some c'"
      using assms(3) l c1(1) e(1) Some c2(1) c'(1) by (simp add: avahi_cache_update_def)
    moreover have "cache_table c' = spec_update (c_n_cache_entries_max c) v r f a (cache_table c)"
      unfolding c'(3) rf ok1(2) using mx assms(3)
      by (simp add: spec_update_def cache_table_def Let_def flip: M)
    ultimately show ?thesis using qb_trans [OF c'(2)] by blast
  next
    case None
    then have new: "\<forall>e x. c_heap c1 e = Some x \<longrightarrow> rr_canon (ce_record x) \<noteq> rr_canon r" using e(2) by simp
    have mx: "cache_map c1 (rr_canon r) = None"
    proof (cases "cache_map c1 (rr_canon r)")
      case (Some y)
      then obtain e' where "c_view c1 e' = Some y" "ce_canon y = rr_canon r" unfolding cache_map_iff [OF ok1(1)] by blast
      with new show ?thesis by (auto simp: c_view_Some)
    qed
    have mxs: "c_n_cache_entries_max c1 = c_n_cache_entries_max c" using qb by (simp add: quiet_but_def)
    have cnt: "c_n_entries c1 = card (dom (cache_map c1))" by (rule cache_map_card(1) [OF ok1(1)])
    show ?thesis
    proof (cases "c_n_entries c1 \<ge> c_n_cache_entries_max c1")
      case True
      then have "avahi_cache_update v c r f a = Some c1"
        using assms(3) l c1(1) e(1) None by (simp add: avahi_cache_update_def)
      moreover have "cache_table c1 = spec_update (c_n_cache_entries_max c) v r f a (cache_table c)"
        using mx assms(3) True ok1(2) unfolding cnt mxs by (simp add: spec_update_def cache_table_def Let_def flip: M)
      ultimately show ?thesis using qb by blast
    next
      case False
      then have "c_n_entries c1 < c_n_cache_entries_max c1" by simp
      from append_entry_ok [OF ok1(1) rep1 rok new this] obtain c2 where
        c2: "append_entry c1 (hd_opt (ch ?kc)) r = Some (c2, c_next c1)" "cache_ok {c_next c1} c2"
          "c_time_event_queue c2 = c_time_event_queue c1" "c_posted c2 = c_posted c1" "jitter c2 = jitter c1"
          "c_heap c2 = (c_heap c1)(c_next c1 \<mapsto> new_entry r)" "c_n_cache_entries_max c2 = c_n_cache_entries_max c1" by blast
      have a2: "armed c1 c2" using c2(3) by (simp add: armed_def)
      have nr: "ce_record (new_entry r) = r" "ce_view (new_entry r) = new_entry r" by (simp_all add: new_entry_def Let_def ce_view_def)
      have "c_heap c1 (c_next c1) = None"
        using cache_repD(7) [OF rep1 ce_rec_heap(1), of "c_next c1"] by (cases "c_heap c1 (c_next c1)") auto
      then have "c_view c1 (c_next c1) = None" by (simp add: c_view_def)
      with refresh_ok [OF ok1(1) c2(2) a2 c2(4,5,7,6) nr(1), of v f a] mx obtain c' where
        c': "finish_update v c2 (c_next c1) f a = Some c'" "quiet_but c1 c'"
          "cache_table c' = ((cache_map c1)(rr_canon r \<mapsto> refreshed v (jitter c1) r f a (new_entry r)), next_jitter v (jitter c1))"
        by (auto simp: nr(2))
      have "avahi_cache_update v c r f a = Some c'"
        using assms(3) l c1(1) e(1) None False c2(1) c'(1) by (simp add: avahi_cache_update_def)
      moreover have "cache_table c' = spec_update (c_n_cache_entries_max c) v r f a (cache_table c)"
        unfolding c'(3) ok1(2) using mx assms(3) False unfolding cnt mxs
        by (simp add: spec_update_def cache_table_def Let_def flip: M)
      ultimately show ?thesis using qb_trans [OF c'(2)] by blast
    qed
  qed
qed

subsection \<open>The other operations on the table\<close>

definition poof_step :: "env \<Rightarrow> address \<Rightarrow> cache_entry \<Rightarrow> cache_entry" where
  "poof_step v a y =
     (if ce_state y = AVAHI_CACHE_VALID then
        y\<lparr>ce_state := AVAHI_CACHE_POOF, ce_poof_address := a, ce_poof_timestamp := env_now v, ce_poof_num := 0\<rparr>
      else if ce_state y = AVAHI_CACHE_POOF \<and> avahi_timeval_diff (env_now v) (ce_poof_timestamp y) \<ge> 1000000 then
        (let y = y\<lparr>ce_poof_timestamp := env_now v, ce_poof_address := a, ce_poof_num := ce_poof_num y + 1\<rparr> in
         if ce_poof_num y > 3
         then y\<lparr>ce_state := AVAHI_CACHE_POOF_FINAL, ce_expiry := avahi_timeval_add (env_now v) 1000000\<rparr> else y)
      else y)"

definition key_asks :: "rrkey \<Rightarrow> cache_entry \<Rightarrow> bool" where
  "key_asks key y \<longleftrightarrow>
     (if avahi_key_is_pattern key then avahi_key_pattern_match key (rr_key (ce_record y)) = Some True
      else key_canon (rr_key (ce_record y)) = key_canon key)"

definition spec_start_poof :: "env \<Rightarrow> rrkey \<Rightarrow> address \<Rightarrow> cache_table \<Rightarrow> cache_table" where
  "spec_start_poof v key a = (\<lambda>(M, j). (\<lambda>k. map_option (\<lambda>y. if key_asks key y then poof_step v a y else y) (M k), j))"

definition spec_stop_poof :: "env \<Rightarrow> rr \<Rightarrow> address \<Rightarrow> cache_table \<Rightarrow> cache_table" where
  "spec_stop_poof v r a = (\<lambda>(M, j).
     case M (rr_canon r) of
       None \<Rightarrow> (M, j)
     | Some y \<Rightarrow>
         if (ce_state y = AVAHI_CACHE_POOF \<or> ce_state y = AVAHI_CACHE_POOF_FINAL) \<and>
            avahi_address_cmp a (ce_poof_address y) = 0
         then (M(rr_canon r \<mapsto> y\<lparr>ce_state := AVAHI_CACHE_VALID,
           ce_expiry := fresh_until v j (ce_timestamp y) (ce_record y) 80\<rparr>), next_jitter v j)
         else (M, j))"

definition spec_elapse :: "env \<Rightarrow> canon_record \<Rightarrow> cache_table \<Rightarrow> cache_table" where
  "spec_elapse v k = (\<lambda>(M, j).
     case M k of
       None \<Rightarrow> (M, j)
     | Some y \<Rightarrow>
         (case elapse_switch (ce_state y) of
            None \<Rightarrow> (M(k := None), j)
          | Some (st, percent) \<Rightarrow> (M(k \<mapsto> y\<lparr>ce_state := st,
              ce_expiry := fresh_until v j (ce_timestamp y) (ce_record y) percent\<rparr>), next_jitter v j)))"

lemma start_poof_callback_ok:
  assumes "cache_ok {} s" "c_heap s e = Some x"
  shows "\<exists>s'. start_poof_callback v a e s = Some (None, s') \<and> quiet s s' \<and> c_view s' = (c_view s)(e \<mapsto> poof_step v a (ce_view x))"
proof -
  have same: "(c_view s)(e \<mapsto> ce_view x) = c_view s" using assms(2) by (auto simp: c_view_def fun_eq_iff)
  consider (valid) "ce_state x = AVAHI_CACHE_VALID"
    | (poof) "ce_state x = AVAHI_CACHE_POOF" "avahi_timeval_diff (env_now v) (ce_poof_timestamp x) \<ge> 1000000"
    | (idle) "ce_state x \<noteq> AVAHI_CACHE_VALID"
        "\<not> (ce_state x = AVAHI_CACHE_POOF \<and> avahi_timeval_diff (env_now v) (ce_poof_timestamp x) \<ge> 1000000)"
    by blast
  then show ?thesis
  proof cases
    case valid
    let ?x = "x\<lparr>ce_state := AVAHI_CACHE_POOF, ce_poof_address := a, ce_poof_timestamp := env_now v, ce_poof_num := 0\<rparr>"
    have "quiet s (set_entry e ?x s)"
      using fields_ok [OF assms, of ?x] skeleton_set_entry [OF assms(2), of ?x] by (simp add: quiet_def armed_def)
    moreover have "ce_view ?x = poof_step v a (ce_view x)" using valid by (cases x) (simp add: poof_step_def ce_view_def)
    ultimately show ?thesis using valid assms(2) by (simp add: start_poof_callback_def)
  next
    case poof
    let ?x = "x\<lparr>ce_poof_timestamp := env_now v, ce_poof_address := a, ce_poof_num := ce_poof_num x + 1\<rparr>"
    let ?s = "set_entry e ?x s"
    have q: "quiet s ?s"
      using fields_ok [OF assms, of ?x] skeleton_set_entry [OF assms(2), of ?x] by (simp add: quiet_def armed_def)
    show ?thesis
    proof (cases "ce_poof_num x + 1 > 3")
      case True
      have h: "cache_ok {} ?s" "c_heap ?s e = Some ?x" using q by (simp_all add: quiet_def)
      from expire_soon_ok [OF h, of v AVAHI_CACHE_POOF_FINAL] obtain s' where s': "expire_in_one_second v ?s e AVAHI_CACHE_POOF_FINAL = Some s'"
        "quiet ?s s'" "c_view s' = (c_view ?s)(e \<mapsto> (ce_view ?x)\<lparr>ce_state := AVAHI_CACHE_POOF_FINAL, ce_expiry := avahi_timeval_add (env_now v) 1000000\<rparr>)"
        by (auto simp: quiet_def)
      have "(ce_view ?x)\<lparr>ce_state := AVAHI_CACHE_POOF_FINAL, ce_expiry := avahi_timeval_add (env_now v) 1000000\<rparr> = poof_step v a (ce_view x)"
        using poof True by (cases x) (simp add: poof_step_def ce_view_def Let_def)
      with s' poof True assms(2) quiet_trans [OF q s'(2)] show ?thesis by (simp add: start_poof_callback_def Let_def)
    next
      case False
      have "ce_view ?x = poof_step v a (ce_view x)"
        using poof False by (cases x) (simp add: poof_step_def ce_view_def Let_def)
      with poof False assms(2) q show ?thesis by (simp add: start_poof_callback_def Let_def)
    qed
  next
    case idle
    then have "poof_step v a (ce_view x) = ce_view x" by (auto simp: poof_step_def)
    moreover have "start_poof_callback v a e s = Some (None, s)"
      using idle assms(2) by (auto simp: start_poof_callback_def split: cache_state.splits)
    ultimately show ?thesis using same quiet_refl [OF assms(1)] by simp
  qed
qed

text \<open>A walk whose callback changes each entry on its own.\<close>

lemma walk_entries:
  assumes c: "cache_ok {} c" and key: "key_readable key"
    and cb: "\<And>e x s. cache_ok {} s \<Longrightarrow> c_heap s e = Some x \<Longrightarrow>
      \<exists>s'. cb e s = Some (None, s') \<and> quiet s s' \<and> c_view s' = (c_view s)(e \<mapsto> g (ce_view x))"
  shows "\<exists>c'. avahi_cache_walk c key cb = Some (None, c') \<and> quiet c c' \<and>
    (\<forall>e. c_view c' e = map_option (\<lambda>y. if key_asks key y then g y else y) (c_view c e))"
proof -
  from c obtain xs ch where rep: "cache_rep c xs ch" by (auto simp: cache_ok_def)
  note d = cache_repD [OF rep]
  note k = keyedD [OF d(1)]
  show ?thesis
  proof (cases "avahi_key_is_pattern key")
    case False
    let ?zs = "ch (key_canon key)"
    have "cache_lookup_key c key = Some (hd_opt ?zs)"
      using keyed_lookup [OF d(1) key] False by (simp add: cache_lookup_key_def)
    moreover have "\<exists>c'. llist_foreach c_by_key cb (hd_opt ?zs) c = Some (None, c') \<and> quiet c c' \<and>
      c_view c' = (\<lambda>e. map_option (if e \<in> set ?zs then g else (\<lambda>y. y)) (c_view c e))"
      using c k(2) skeleton_links(1)
    proof (rule foreach_entries)
      show "c_heap c e \<noteq> None" if "e \<in> set ?zs" for e using chain_entry [OF rep that] by auto
      show "\<exists>s'. cb e s = Some (None, s') \<and> quiet s s' \<and> c_view s' = (c_view s)(e \<mapsto> g (ce_view x))"
        if "quiet c s" "c_heap s e = Some x" for e x s
        using that cb [of s e x] by (simp add: quiet_def)
    qed
    moreover have "map_option (if e \<in> set ?zs then g else (\<lambda>y. y)) (c_view c e) =
        map_option (\<lambda>y. if key_asks key y then g y else y) (c_view c e)" for e
    proof (cases "c_heap c e")
      case (Some x)
      then have "e \<in> set ?zs \<longleftrightarrow> key_asks key (ce_view x)"
        using k(4) [of e "key_canon key"] False by (auto simp: ce_keys_def ce_rec_def key_asks_def)
      with Some show ?thesis by (simp add: c_view_def)
    qed (simp add: c_view_def)
    ultimately show ?thesis using False by (auto simp: avahi_cache_walk_def)
  next
    case True
    let ?g = "\<lambda>y. if key_asks key y then g y else y"
    let ?b = "\<lambda>e c. do {
             x \<leftarrow> c_heap c e;
             b \<leftarrow> avahi_key_pattern_match key (rr_key (ce_record x));
             if b then cb e c else Some (None, c)
           }"
    have "\<exists>c'. llist_foreach c_entry_links ?b (hd_opt xs) c = Some (None, c') \<and> quiet c c' \<and>
      c_view c' = (\<lambda>e. map_option (if e \<in> set xs then ?g else (\<lambda>y. y)) (c_view c e))"
    proof (rule foreach_entries [OF c _ skeleton_links(2)])
      show "llist (c_entry_links c) (hd_opt xs) xs" using d(3) llist_head [OF d(3)] by simp
      show "c_heap c e \<noteq> None" if "e \<in> set xs" for e using d(4) [of e] that by (auto simp: ce_rec_def)
      show "\<exists>s'. ?b e s = Some (None, s') \<and> quiet s s' \<and> c_view s' = (c_view s)(e \<mapsto> ?g (ce_view x))"
        if s: "quiet c s" "c_heap s e = Some x" for e x s
      proof -
        have ok: "cache_ok {} s" using s(1) by (simp add: quiet_def)
        have "record_ok (ce_record x)" by (rule cache_ok_entry [OF ok s(2)])
        then obtain b where b: "avahi_key_pattern_match key (rr_key (ce_record x)) = Some b"
          using pattern_match_ok [OF key] by (fastforce simp: record_ok_def rr_readable_def)
        have ka: "key_asks key (ce_view x) \<longleftrightarrow> b" using True b by (simp add: key_asks_def)
        show ?thesis
        proof (cases b)
          case True
          with b ka s(2) cb [OF ok s(2)] show ?thesis by simp
        next
          case False
          have "(c_view s)(e \<mapsto> ce_view x) = c_view s" using s(2) by (auto simp: c_view_def fun_eq_iff)
          with False b ka s(2) quiet_refl [OF ok] show ?thesis by simp
        qed
      qed
    qed
    moreover have "map_option (if e \<in> set xs then ?g else (\<lambda>y. y)) (c_view c e) = map_option ?g (c_view c e)" for e
    proof (cases "e \<in> set xs")
      case False
      then have "c_view c e = None" using d(4) [of e] by (auto simp: ce_rec_def c_view_def)
      then show ?thesis by simp
    qed simp
    ultimately show ?thesis using True llist_head [OF d(3)] by (auto simp: avahi_cache_walk_def)
  qed
qed

lemma start_poof_ok:
  assumes "cache_ok {} c" "key_readable key"
  shows "\<exists>c'. avahi_cache_start_poof v c key a = Some c' \<and> quiet_but c c' \<and>
    cache_table c' = spec_start_poof v key a (cache_table c)"
proof -
  from walk_entries [where cb = "start_poof_callback v a" and g = "poof_step v a", OF assms start_poof_callback_ok]
  obtain c' where
    c': "avahi_cache_walk c key (start_poof_callback v a) = Some (None, c')" "quiet c c'"
      "\<And>e. c_view c' e = map_option (\<lambda>y. if key_asks key y then poof_step v a y else y) (c_view c e)" by blast
  have ok: "cache_ok {} c'" "jitter c' = jitter c" using c'(2) by (simp_all add: quiet_def)
  have "cache_map c' k = map_option (\<lambda>y. if key_asks key y then poof_step v a y else y) (cache_map c k)" for k
    by (rule cache_map_map [OF assms(1) ok(1) c'(3)]) (simp add: poof_step_def Let_def)
  then have "cache_map c' = (\<lambda>k. map_option (\<lambda>y. if key_asks key y then poof_step v a y else y) (cache_map c k))" by blast
  with c'(1,2) ok(2) show ?thesis
    by (auto simp: avahi_cache_start_poof_def quiet_quiet_but cache_table_def spec_start_poof_def)
qed

lemma stop_poof_ok:
  assumes "cache_ok {} c" "rr_readable r"
  shows "\<exists>c'. avahi_cache_stop_poof v c r a = Some c' \<and> quiet_but c c' \<and>
    cache_table c' = spec_stop_poof v r a (cache_table c)"
proof (cases "cache_map c (rr_canon r)")
  case None
  with lookup_record_map [OF assms] assms(1) show ?thesis
    by (simp add: avahi_cache_stop_poof_def quiet_but_def cache_table_def spec_stop_poof_def)
next
  case (Some y)
  with lookup_record_map [OF assms] obtain e x where x: "lookup_record c r = Some (Some e)" "c_heap c e = Some x"
    "y = ce_view x" "ce_canon x = rr_canon r" by auto
  show ?thesis
  proof (cases "(ce_state x = AVAHI_CACHE_POOF \<or> ce_state x = AVAHI_CACHE_POOF_FINAL) \<and> avahi_address_cmp a (ce_poof_address x) = 0")
    case True
    let ?x = "x\<lparr>ce_state := AVAHI_CACHE_VALID\<rparr>" let ?c = "set_entry e ?x c"
    have ok: "cache_ok {} ?c" "c_heap ?c e = Some ?x" "skeleton ?c = skeleton c"
      using fields_ok [OF assms(1) x(2), of ?x] skeleton_set_entry [OF x(2), of ?x] by simp_all
    from next_expiry_view [OF ok(1,2), of 80 v] obtain c' where c': "next_expiry v ?c e 80 = Some c'" "cache_ok {} c'"
      "skeleton c' = skeleton ?c" "armed ?c c'" "c_posted c' = c_posted ?c" "jitter c' = next_jitter v (jitter ?c)"
      "c_view c' = (c_view ?c)(e \<mapsto> (ce_view ?x)\<lparr>ce_expiry := avahi_timeval_add (ce_timestamp ?x)
        (int (expiry_usec (rr_ttl (ce_record ?x)) 80 (fst (next_jitter v (jitter ?c)))))\<rparr>)" by auto
    let ?y = "y\<lparr>ce_state := AVAHI_CACHE_VALID, ce_expiry := fresh_until v (jitter c) (ce_timestamp y) (ce_record y) 80\<rparr>"
    have "(ce_view ?x)\<lparr>ce_expiry := avahi_timeval_add (ce_timestamp ?x)
        (int (expiry_usec (rr_ttl (ce_record ?x)) 80 (fst (next_jitter v (jitter ?c)))))\<rparr> = ?y"
      unfolding x(3) by (cases x) (simp add: ce_view_def fresh_until_def)
    with c'(7) have v: "c_view c' = (c_view c)(e \<mapsto> ?y)" by simp
    have "c_view c e = Some (ce_view x)" using x(2) by (simp add: c_view_def)
    with cache_map_upd [OF assms(1) c'(2) v] x(3,4) have "cache_map c' = (cache_map c)(rr_canon r \<mapsto> ?y)" by simp
    moreover have "quiet_but c c'" using c'(2-5) ok(3) by (simp add: quiet_but_def skeleton_def armed_def)
    ultimately show ?thesis using c'(1,6) x Some True
      by (simp add: avahi_cache_stop_poof_def cache_table_def spec_stop_poof_def)
  next
    case False
    with x Some assms(1) show ?thesis
      by (auto simp: avahi_cache_stop_poof_def quiet_but_def cache_table_def spec_stop_poof_def)
  qed
qed

lemma elapse_table:
  assumes "cache_ok {} c" "c_heap c e = Some x"
  shows "\<exists>c'. elapse_func refresh v c e = Some c' \<and> cache_ok {} c' \<and> armed c c' \<and>
    c_n_cache_entries_max c' = c_n_cache_entries_max c \<and>
    cache_table c' = spec_elapse v (ce_canon x) (cache_table c) \<and>
    c_posted c' = c_posted c @ (if elapse_switch (ce_state x) \<noteq> None \<and> refresh (rr_key (ce_record x)) then [rr_key (ce_record x)] else [])"
proof -
  have v: "c_view c e = Some (ce_view x)" using assms(2) by (simp add: c_view_def)
  then have m: "cache_map c (ce_canon x) = Some (ce_view x)" using cache_map_iff [OF assms(1), of "ce_canon x" "ce_view x"] by auto
  from elapse_func_ok [OF assms, of refresh v] obtain c' where c': "elapse_func refresh v c e = Some c'" "cache_ok {} c'" "armed c c'"
    "c_n_cache_entries_max c' = c_n_cache_entries_max c"
    "case elapse_switch (ce_state x) of
       None \<Rightarrow> c_view c' = (c_view c)(e := None) \<and> c_posted c' = c_posted c \<and> jitter c' = jitter c \<and>
         c_notified c' = c_notified c @ [(ce_record x, AVAHI_BROWSER_REMOVE)]
     | Some (state, percent) \<Rightarrow> c_view c' = (c_view c)(e \<mapsto> (ce_view x)\<lparr>ce_state := state,
          ce_expiry := avahi_timeval_add (ce_timestamp x)
            (int (expiry_usec (rr_ttl (ce_record x)) percent (fst (next_jitter v (jitter c)))))\<rparr>) \<and>
         jitter c' = next_jitter v (jitter c) \<and> c_notified c' = c_notified c \<and>
         c_posted c' = c_posted c @ (if refresh (rr_key (ce_record x)) then [rr_key (ce_record x)] else [])" by blast
  show ?thesis
  proof (cases "elapse_switch (ce_state x)")
    case None
    with c'(5) have "c_view c' = (c_view c)(e := None)" "c_posted c' = c_posted c" "jitter c' = jitter c" by simp_all
    with cache_map_del [OF assms(1) c'(2) _ v] m None c'(1-4) show ?thesis
      by (simp add: cache_table_def spec_elapse_def)
  next
    case (Some sp)
    obtain st p where sp: "sp = (st, p)" by (cases sp)
    let ?y = "(ce_view x)\<lparr>ce_state := st, ce_expiry := fresh_until v (jitter c) (ce_timestamp x) (ce_record x) p\<rparr>"
    from c'(5) Some sp have r: "c_view c' = (c_view c)(e \<mapsto> ?y)" "jitter c' = next_jitter v (jitter c)"
      "c_posted c' = c_posted c @ (if refresh (rr_key (ce_record x)) then [rr_key (ce_record x)] else [])"
      by (simp_all add: fresh_until_def)
    with cache_map_upd [OF assms(1) c'(2) r(1)] v m Some sp c'(1-4) show ?thesis
      by (simp add: cache_table_def spec_elapse_def)
  qed
qed

text \<open>Flushing ends with an empty cache.\<close>

lemma cache_flush_ok:
  "cache_ok {} c \<Longrightarrow> \<exists>c'. avahi_cache_flush c = Some c' \<and> quiet_but c c' \<and> (\<forall>e. c_heap c' e = None) \<and> c_n_entries c' = 0 \<and>
    cache_table c' = (\<lambda>_. None, jitter c)"
proof (induction "c_n_entries c" arbitrary: c)
  case 0
  from 0(2) obtain xs ch where rep: "cache_rep c xs ch" by (auto simp: cache_ok_def)
  note d = cache_repD [OF rep]
  have "xs = []" using d(5) 0(1) by simp
  then have h: "c_heap c e = None" for e using d(4) [of e] by (simp add: ce_rec_def)
  then have "cache_map c k = None" for k
    using cache_map_iff [OF 0(2), of k] by (cases "cache_map c k") (auto simp: c_view_def)
  moreover have "avahi_cache_flush c = Some c"
    using d(3) \<open>xs = []\<close> by (subst avahi_cache_flush.simps) simp
  ultimately show ?case using 0 h by (auto simp: quiet_but_def cache_table_def)
next
  case (Suc n)
  from Suc.prems obtain xs ch where rep: "cache_rep c xs ch" and tm: "timers_ok {} c" by (auto simp: cache_ok_def)
  note d = cache_repD [OF rep]
  obtain e ys where xs: "xs = e # ys" using Suc.hyps(2) d(5) by (cases xs) auto
  have hd: "c_entries c = Some e" using llist_head [OF d(3)] xs by simp
  obtain x where x: "c_heap c e = Some x" using d(4) [of e] xs by (auto simp: ce_rec_def)
  from remove_entry_ok [OF rep tm x] obtain c1 xs' ch' where c1: "remove_entry c e = Some c1" "cache_rep c1 xs' ch'" "timers_ok {} c1"
    "armed c c1" "c_posted c1 = c_posted c" "c_n_entries c1 = c_n_entries c - 1" "c_n_cache_entries_max c1 = c_n_cache_entries_max c" by auto
  have j: "jitter c1 = jitter c" using c1(1) by (auto simp: remove_entry_def Option.bind_eq_Some_conv Let_def jitter_def)
  have "n = c_n_entries c1" using c1(6) Suc.hyps(2) by simp
  from Suc.hyps(1) [OF this cache_okI [OF c1(2,3)]] obtain c' where c': "avahi_cache_flush c1 = Some c'" "quiet_but c1 c'"
    "\<forall>e. c_heap c' e = None" "c_n_entries c' = 0" "cache_table c' = (\<lambda>_. None, jitter c1)" by blast
  have "avahi_cache_flush c = Some c'" using hd c1(1) c'(1) by (subst avahi_cache_flush.simps) simp
  moreover have "quiet_but c c'"
    using c'(2) c1(4,5,7) armed_trans [OF c1(4)] by (simp add: quiet_but_def)
  ultimately show ?case using c' j by auto
qed

lemma cache_free_ok:
  assumes "cache_ok {} c"
  shows "\<exists>c'. avahi_cache_free c = Some c' \<and> (\<forall>e. c_heap c' e = None) \<and> hm_alist (c_hashmap c') = [] \<and>
    (\<forall>t a l e. te_view (c_time_event_queue c') t \<noteq> Some (a, l, Some (Elapse_func e)))"
proof -
  from cache_flush_ok [OF assms] obtain c1 where c1: "avahi_cache_flush c = Some c1" "cache_ok {} c1" "\<forall>e. c_heap c1 e = None" "c_n_entries c1 = 0"
    by (auto simp: quiet_but_def)
  then have "km_inv (c_hashmap c1)" unfolding cache_ok_def cache_rep_def keyed_def by blast
  from rr_key.free_result [OF this] obtain m where m: "avahi_hashmap_free (c_hashmap c1) = Some m" "entries_list m = []" by blast
  have "te_view (c_time_event_queue c1) t \<noteq> Some (a, l, Some (Elapse_func e))" for t a l e
    using timers_okD(4) [of "{}" c1 t a l e] c1(2,3) by (auto simp: cache_ok_def)
  with c1 m show ?thesis by (simp add: avahi_cache_free_def hm_alist_def)
qed

subsection \<open>The jitter in doubles\<close>

lemma bit_length_bounds:
  "n < 2 ^ bit_length n" "0 < n \<Longrightarrow> 2 ^ (bit_length n - 1) \<le> n"
proof (induction n rule: bit_length.induct)
  case (1 n)
  {
    case 1
    show ?case
    proof (cases "n = 0")
      case False
      with "1.IH"(1) have "n div 2 < 2 ^ bit_length (n div 2)" by blast
      with False show ?thesis by (subst bit_length.simps) simp
    qed simp
  next
    case 2
    then have l: "bit_length n = Suc (bit_length (n div 2))" by (subst bit_length.simps) simp
    show ?case
    proof (cases "n div 2 = 0")
      case True
      then have "bit_length (n div 2) = 0" by (subst bit_length.simps) simp
      with 2 l show ?thesis by simp
    next
      case False
      then have h: "(2 :: nat) ^ (bit_length (n div 2) - 1) \<le> n div 2" using "1.IH"(2) 2 by blast
      have "bit_length (n div 2) = Suc (bit_length (n div 2) - 1)" using False by (subst (2) bit_length.simps, subst bit_length.simps) simp
      then have "(2 :: nat) ^ bit_length (n div 2) = 2 * 2 ^ (bit_length (n div 2) - 1)" by (metis power_Suc)
      with h l show ?thesis by simp
    qed
  }
qed

text \<open>A number below a product of a number of at most 53 bits with a power of two is not rounded above it.\<close>

lemma round_double_le:
  assumes "n \<le> a * 2 ^ j" "a < 2 ^ 53"
  shows "round_double n \<le> a * 2 ^ j"
proof -
  let ?k = "bit_length n - 53" let ?q = "n div 2 ^ ?k"
  have q: "?q * 2 ^ ?k \<le> n" by simp
  show ?thesis
  proof (cases "n mod 2 ^ ?k = 0")
    case True
    then have "round_double n = ?q * 2 ^ ?k" by (simp add: round_double_def Let_def)
    with q assms(1) show ?thesis by linarith
  next
    case False
    then have k: "0 < ?k" by (cases ?k) auto
    have "?k \<le> j"
    proof (rule ccontr)
      assume "\<not> ?k \<le> j"
      then have "53 + j \<le> bit_length n - 1" using k by linarith
      then have "(2 :: nat) ^ (53 + j) \<le> 2 ^ (bit_length n - 1)" by (intro power_increasing) simp_all
      also have "\<dots> \<le> n" using False by (intro bit_length_bounds(2)) (cases n, auto)
      also have "\<dots> \<le> a * 2 ^ j" by (rule assms(1))
      finally have "(2 :: nat) ^ 53 * 2 ^ j \<le> a * 2 ^ j" by (simp add: power_add)
      with assms(2) show False by simp
    qed
    then obtain i where i: "j = ?k + i" using le_Suc_ex by blast
    then have m: "a * 2 ^ j = (a * 2 ^ i) * 2 ^ ?k" by (simp add: power_add mult.commute mult.left_commute)
    have "?q * 2 ^ ?k + n mod 2 ^ ?k = n" by (rule div_mult_mod_eq)
    then have "?q * 2 ^ ?k < (a * 2 ^ i) * 2 ^ ?k" using assms(1) False m by linarith
    then have "?q + 1 \<le> a * 2 ^ i" by simp
    then have "(?q + 1) * 2 ^ ?k \<le> (a * 2 ^ i) * 2 ^ ?k" by (intro mult_right_mono) simp_all
    moreover have "round_double n \<le> (?q + 1) * 2 ^ ?k" by (simp add: round_double_def Let_def)
    ultimately show ?thesis using m by linarith
  qed
qed

lemma expiry_usec_bounds:
  assumes "percent \<le> 100" "rnd \<le> RAND_MAX"
  shows "unat ttl * 10000 * percent \<le> expiry_usec ttl percent rnd"
    "expiry_usec ttl percent rnd \<le> unat ttl * 10000 * (percent + 2)"
proof -
  let ?u = "unat ttl * 10000"
  have "unat ttl < 4294967296" by simp
  then have "2 * ?u < 2 * (4294967296 * 10000)" by linarith
  also have "\<dots> < (2 :: nat) ^ 53" by simp
  finally have u: "2 * ?u < 2 ^ 53" .
  have d: "?u * (percent + 2) - ?u * percent = 2 * ?u" by (simp add: algebra_simps)
  have "(2 * ?u) * rnd \<le> (2 * ?u) * 2 ^ 31" using assms(2) by (intro mult_left_mono) (simp_all add: RAND_MAX_def)
  from round_double_le [OF this u] have "round_double ((2 * ?u) * rnd) div 2 ^ 31 \<le> (2 * ?u) * 2 ^ 31 div 2 ^ 31"
    by (rule div_le_mono)
  then have "round_double ((2 * ?u) * rnd) div 2 ^ 31 \<le> 2 * ?u" by simp
  moreover have "RAND_MAX + 1 = 2 ^ 31" by (simp add: RAND_MAX_def)
  ultimately have "round_double ((2 * ?u) * rnd) div (RAND_MAX + 1) \<le> 2 * ?u" by (simp only:)
  then show "?u * percent \<le> expiry_usec ttl percent rnd" "expiry_usec ttl percent rnd \<le> ?u * (percent + 2)"
    by (simp_all add: expiry_usec_def Let_def d)
qed

end
