(* ===== verification/Cacherun.thy ===== *)
theory Cacherun imports Cache
begin

text \<open>
  Runs of the cache: its calls as data, one round of the time event queue it shares with the rest
  of the server (\<open>cache_expiration\<close>, with the callbacks of others as an argument), the caches that can be
  reached, and the properties of the cache over such runs.
\<close>

subsection \<open>Runs of the cache\<close>

text \<open>
  The calls its users make; \<open>Op_elapse v k\<close> is the callback of the timer of the entry with the
  canonical record \<open>k\<close>. The records and keys come from packets and can be read, and an update that is not
  a goodbye is never made for a key that is a pattern.
\<close>

datatype cache_op =
    Op_update env rr bool address
  | Op_elapse env canon_record
  | Op_start_poof env rrkey address
  | Op_stop_poof env rr address
  | Op_flush

definition entry_of :: "'o cache \<Rightarrow> canon_record \<Rightarrow> nat option" where
  "entry_of c k = find (\<lambda>e. case c_heap c e of None \<Rightarrow> False | Some x \<Rightarrow> rr_canon (ce_record x) = k) [0..<c_next c]"

fun cache_exec :: "(rrkey \<Rightarrow> bool) \<Rightarrow> 'o cache \<Rightarrow> cache_op \<Rightarrow> 'o cache outcome" where
  "cache_exec refresh c (Op_update v r f a) = avahi_cache_update v c r f a"
| "cache_exec refresh c (Op_elapse v k) = (case entry_of c k of None \<Rightarrow> Some c | Some e \<Rightarrow> elapse_func refresh v c e)"
| "cache_exec refresh c (Op_start_poof v key a) = avahi_cache_start_poof v c key a"
| "cache_exec refresh c (Op_stop_poof v r a) = avahi_cache_stop_poof v c r a"
| "cache_exec refresh c Op_flush = avahi_cache_flush c"

fun cache_run :: "(rrkey \<Rightarrow> bool) \<Rightarrow> 'o cache \<Rightarrow> cache_op list \<Rightarrow> 'o cache outcome" where
  "cache_run refresh c [] = Some c"
| "cache_run refresh c (a # as) = do { c \<leftarrow> cache_exec refresh c a; cache_run refresh c as }"

fun cache_allowed :: "cache_op \<Rightarrow> bool" where
  "cache_allowed (Op_update v r f a) = (rr_readable r \<and> (rr_ttl r = 0 \<or> \<not> avahi_key_is_pattern (rr_key r)))"
| "cache_allowed (Op_elapse v k) = True"
| "cache_allowed (Op_start_poof v key a) = key_readable key"
| "cache_allowed (Op_stop_poof v r a) = rr_readable r"
| "cache_allowed Op_flush = True"

fun cache_spec :: "nat \<Rightarrow> cache_table \<Rightarrow> cache_op \<Rightarrow> cache_table" where
  "cache_spec n T (Op_update v r f a) = spec_update n v r f a T"
| "cache_spec n T (Op_elapse v k) = spec_elapse v k T"
| "cache_spec n T (Op_start_poof v key a) = spec_start_poof v key a T"
| "cache_spec n T (Op_stop_poof v r a) = spec_stop_poof v r a T"
| "cache_spec n T Op_flush = (\<lambda>_. None, snd T)"

lemma entry_of_map:
  assumes "cache_ok {} c"
  shows "case entry_of c k of None \<Rightarrow> cache_map c k = None
    | Some e \<Rightarrow> \<exists>x. c_heap c e = Some x \<and> ce_canon x = k \<and> cache_map c k = Some (ce_view x)"
proof (cases "entry_of c k")
  case None
  then show ?thesis by (simp add: cache_map_def entry_of_def)
next
  case (Some e)
  then have "case c_heap c e of None \<Rightarrow> False | Some x \<Rightarrow> rr_canon (ce_record x) = k"
    by (auto simp: entry_of_def find_Some_iff)
  with Some show ?thesis by (auto simp: cache_map_def entry_of_def c_view_def split: option.splits)
qed

lemma cache_exec_ok:
  assumes "cache_ok {} c" "cache_allowed a"
  shows "\<exists>c'. cache_exec refresh c a = Some c' \<and> cache_ok {} c' \<and> armed c c' \<and>
    c_n_cache_entries_max c' = c_n_cache_entries_max c \<and>
    cache_table c' = cache_spec (c_n_cache_entries_max c) (cache_table c) a"
proof (cases a)
  case (Op_update v r f ad)
  then have "\<exists>c'. avahi_cache_update v c r f ad = Some c' \<and> quiet_but c c' \<and>
      cache_table c' = spec_update (c_n_cache_entries_max c) v r f ad (cache_table c)"
    using goodbye_ok [OF assms(1), of r v f ad] update_ok [OF assms(1), of r v f ad] assms(2) by (cases "rr_ttl r = 0") simp_all
  with Op_update show ?thesis by (auto simp: quiet_but_def)
next
  case (Op_elapse v k)
  show ?thesis
  proof (cases "entry_of c k")
    case None
    with entry_of_map [OF assms(1), of k] assms(1) Op_elapse show ?thesis
      by (simp add: cache_table_def spec_elapse_def)
  next
    case (Some e)
    with entry_of_map [OF assms(1), of k] obtain x where "c_heap c e = Some x" "ce_canon x = k" by auto
    with elapse_table [OF assms(1), of e x refresh v] Some Op_elapse show ?thesis by auto
  qed
next
  case (Op_start_poof v key ad)
  with start_poof_ok [OF assms(1), of key v ad] assms(2) show ?thesis by (auto simp: quiet_but_def)
next
  case (Op_stop_poof v r ad)
  with stop_poof_ok [OF assms(1), of r v ad] assms(2) show ?thesis by (auto simp: quiet_but_def)
next
  case Op_flush
  with cache_flush_ok [OF assms(1)] show ?thesis by (auto simp: quiet_but_def cache_table_def)
qed

lemma cache_run_ok:
  "cache_ok {} c \<Longrightarrow> list_all cache_allowed as \<Longrightarrow> \<exists>c'. cache_run refresh c as = Some c' \<and> cache_ok {} c' \<and>
    c_n_cache_entries_max c' = c_n_cache_entries_max c \<and>
    cache_table c' = foldl (cache_spec (c_n_cache_entries_max c)) (cache_table c) as"
proof (induction as arbitrary: c)
  case (Cons a as)
  then obtain c1 where c1: "cache_exec refresh c a = Some c1" "cache_ok {} c1"
    "c_n_cache_entries_max c1 = c_n_cache_entries_max c"
    "cache_table c1 = cache_spec (c_n_cache_entries_max c) (cache_table c) a"
    using cache_exec_ok [of c a refresh] by auto
  with Cons.IH [OF c1(2)] Cons.prems(2) show ?case by auto
qed simp

text \<open>A cache of its own: with a new time event queue.\<close>

definition new_cache :: "nat \<Rightarrow> nat \<Rightarrow> unit cache" where
  "new_cache n_max junk = avahi_cache_new avahi_time_event_queue_new n_max junk"

lemma new_cache_ok: "cache_ok {} (new_cache n junk)" "cache_table (new_cache n junk) = (\<lambda>_. None, junk, 0)"
    "c_n_cache_entries_max (new_cache n junk) = n"
proof -
  have "te_view (avahi_time_event_queue_new :: unit cache_timer teq) t = None" for t
    by (simp add: te_view_def avahi_time_event_queue_new_def)
  moreover have "teq_core (avahi_time_event_queue_new :: unit cache_timer teq)"
    using teq_ok_new [where 'a = "unit cache_timer"] by (simp add: teq_ok_def)
  ultimately show "cache_ok {} (new_cache n junk)" unfolding new_cache_def by (intro cache_ok_new) simp_all
  show "cache_table (new_cache n junk) = (\<lambda>_. None, junk, 0)" "c_n_cache_entries_max (new_cache n junk) = n"
    by (simp_all add: cache_table_def cache_map_def new_cache_def avahi_cache_new_def jitter_def fun_eq_iff)
qed

subsection \<open>The time event queue with other users\<close>

text \<open>The part of \<open>expiration_event\<close> before the callback.\<close>

lemma expired_event_cases:
  assumes "teq_ok q"
  shows "(expired_event now q = Some None \<and> (\<forall>e. te_alive q e \<longrightarrow> avahi_timeval_compare now (te_expiry q e) < 0)) \<or>
    (\<exists>d f q'. expired_event now q = Some (Some (f, d, q')) \<and> te_view q d = Some (te_expiry q d, te_last_run q d, Some f) \<and>
       avahi_timeval_compare now (te_expiry q d) \<ge> 0 \<and>
       (\<forall>e. te_alive q e \<longrightarrow> avahi_timeval_compare (te_expiry q d) (te_expiry q e) \<le> 0) \<and>
       teq_core q' \<and> te_view q' = (te_view q)(d \<mapsto> (te_expiry q d, now, Some f)))"
proof -
  have c: "teq_core q" using assms by (simp add: teq_ok_def)
  show ?thesis
  proof (cases "time_event_queue_root q")
    case None
    with root_none_iff [OF c] show ?thesis by (auto simp: expired_event_def)
  next
    case (Some d)
    note r = root_some [OF c Some]
    have least: "avahi_timeval_compare (te_expiry q d) (te_expiry q e) \<le> 0" if "te_alive q e" for e
      using te_compare_expiry [OF r(2) [OF that]] .
    show ?thesis
    proof (cases "avahi_timeval_compare now (te_expiry q d) \<ge> 0")
      case True
      obtain p where p: "avahi_prio_queue_shuffle (te_compare (q\<lparr>te_last_run := (te_last_run q)(d := now)\<rparr>)) (te_prioq q) (te_node q d) = Some p"
        "teq_core (q\<lparr>te_last_run := (te_last_run q)(d := now), te_prioq := p\<rparr>)"
        using event_times_ok [OF c r(1), of "q\<lparr>te_last_run := (te_last_run q)(d := now)\<rparr>"] by auto
      obtain f where f: "te_callback q d = Some f" using teq_coreD(4) [OF c r(1)] by auto
      let ?q = "q\<lparr>te_last_run := (te_last_run q)(d := now), te_prioq := p\<rparr>"
      have "expired_event now q = Some (Some (f, d, ?q))"
        using Some True p(1) f by (simp add: expired_event_def Let_def)
      moreover have "te_view ?q = (te_view q)(d \<mapsto> (te_expiry q d, now, Some f))"
        using r(1) f by (auto simp: te_view_def fun_eq_iff)
      moreover have "te_view q d = Some (te_expiry q d, te_last_run q d, Some f)" using r(1) f by (simp add: te_view_def)
      ultimately show ?thesis using True least p(2) by blast
    next
      case False
      have "avahi_timeval_compare now (te_expiry q e) < 0" if "te_alive q e" for e
        using least [OF that] False timeval_compare_trans [of "te_expiry q d" "te_expiry q e" now]
          timeval_compare_antisym [of now "te_expiry q e"] timeval_compare_antisym [of now "te_expiry q d"]
        by linarith
      moreover have "expired_event now q = Some None" using Some False by (simp add: expired_event_def)
      ultimately show ?thesis by blast
    qed
  qed
qed

text \<open>What other parts of the server may do: create events of theirs, and free and update those.\<close>

fun foreign :: "'o cache_timer teq \<Rightarrow> 'o cache_timer te_op \<Rightarrow> bool" where
  "foreign q (Te_new tv f) = (case f of Other _ \<Rightarrow> True | Elapse_func _ \<Rightarrow> False)"
| "foreign q (Te_free t) = (\<exists>o1 a l. te_view q t = Some (a, l, Some (Other o1)))"
| "foreign q (Te_update t tv) = (\<exists>o1 a l. te_view q t = Some (a, l, Some (Other o1)))"

fun all_foreign :: "'o cache_timer teq \<Rightarrow> 'o cache_timer te_op list \<Rightarrow> bool" where
  "all_foreign q [] = True"
| "all_foreign q (a # as) = (foreign q a \<and> (case te_exec q a of None \<Rightarrow> True | Some q \<Rightarrow> all_foreign q as))"

definition other_client :: "('o \<Rightarrow> nat \<Rightarrow> 'o cache_timer teq \<Rightarrow> 'o cache_timer teq outcome) \<Rightarrow> bool" where
  "other_client other \<longleftrightarrow> (\<forall>o1 t q a l. te_view q t = Some (a, l, Some (Other o1)) \<longrightarrow>
     (\<exists>as. all_foreign q as \<and> other o1 t q = te_run q as))"

lemma foreign_exec:
  assumes "teq_core q" "foreign q a"
  shows "\<exists>q'. te_exec q a = Some q' \<and> teq_ok q' \<and>
    (\<forall>t b l e. te_view q' t = Some (b, l, Some (Elapse_func e)) \<longleftrightarrow> te_view q t = Some (b, l, Some (Elapse_func e)))"
proof (cases a)
  case (Te_new tv f)
  then obtain o1 where f: "f = Other o1" using assms(2) by (cases f) auto
  have "te_view q (te_next q) = None" using teq_coreD(5) [OF assms(1), of "te_next q"] by (auto simp: te_view_def)
  with event_new_ok [OF assms(1), of tv f] Te_new f show ?thesis by auto
next
  case (Te_free t)
  then obtain o1 b l where t: "te_view q t = Some (b, l, Some (Other o1))" using assms(2) by auto
  then have "te_alive q t" by (auto simp: te_view_Some)
  with event_free_ok [OF assms(1) this] t Te_free show ?thesis by auto
next
  case (Te_update t tv)
  then obtain o1 b l where t: "te_view q t = Some (b, l, Some (Other o1))" using assms(2) by auto
  then have "te_alive q t" "te_callback q t = Some (Other o1)" by (auto simp: te_view_Some)
  with event_update_ok [OF assms(1), of t tv] t Te_update show ?thesis by auto
qed

lemma foreign_run:
  "teq_core q \<Longrightarrow> all_foreign q as \<Longrightarrow> \<exists>q'. te_run q as = Some q' \<and> teq_core q' \<and>
    (\<forall>t b l e. te_view q' t = Some (b, l, Some (Elapse_func e)) \<longleftrightarrow> te_view q t = Some (b, l, Some (Elapse_func e)))"
proof (induction as arbitrary: q)
  case (Cons a as)
  then obtain q1 where q1: "te_exec q a = Some q1" "teq_ok q1"
    "\<forall>t b l e. te_view q1 t = Some (b, l, Some (Elapse_func e)) \<longleftrightarrow> te_view q t = Some (b, l, Some (Elapse_func e))"
    using foreign_exec [of q a] by auto
  with Cons.IH [of q1] Cons.prems(2) show ?case by (auto simp: teq_ok_def)
qed simp

lemma cache_ok_queue:
  assumes "cache_ok P c" "teq_core q"
    and "\<And>t e. (\<exists>b l. te_view q t = Some (b, l, Some (Elapse_func e))) \<Longrightarrow> \<exists>b l. te_view (c_time_event_queue c) t = Some (b, l, Some (Elapse_func e))"
    and "\<And>t b l e. te_view (c_time_event_queue c) t = Some (b, l, Some (Elapse_func e)) \<Longrightarrow> \<exists>l. te_view q t = Some (b, l, Some (Elapse_func e))"
  shows "cache_ok P (c\<lparr>c_time_event_queue := q\<rparr>)"
proof (rule cache_ok_skeleton [OF assms(1)])
  have tm: "timers_ok P c" using assms(1) by (simp add: cache_ok_def)
  note d = timers_okD [OF tm]
  show "timers_ok P (c\<lparr>c_time_event_queue := q\<rparr>)"
    unfolding timers_ok_def
  proof (intro conjI allI impI, goal_cases)
    case 1
    show ?case using assms(2) by simp
  next
    case (2 e x t)
    then obtain l where "te_view (c_time_event_queue c) t = Some (ce_expiry x, l, Some (Elapse_func e))" using d(2) [of e x t] by auto
    from assms(4) [OF this] show ?case by simp
  next
    case (3 e x)
    then show ?case using d(3) by simp
  next
    case (4 t a l e)
    then have "\<exists>b l. te_view q t = Some (b, l, Some (Elapse_func e))" by simp
    from assms(3) [OF this] d(4) show ?case by auto
  qed
qed simp

lemma c_view_queue [simp]: "c_view (c\<lparr>c_time_event_queue := q\<rparr>) = c_view c"
  by (simp add: c_view_def fun_eq_iff)

lemma cache_table_queue [simp]: "cache_table (c\<lparr>c_time_event_queue := q\<rparr>) = cache_table c"
  "cache_map (c\<lparr>c_time_event_queue := q\<rparr>) = cache_map c"
  by (simp_all add: cache_table_def cache_map_def [abs_def] cong: option.case_cong)

text \<open>One round of the time event queue.\<close>

lemma cache_expiration_ok:
  assumes "cache_ok {} c" "teq_ok (c_time_event_queue c)" "other_client other"
  shows "\<exists>c'. cache_expiration other refresh v c = Some c' \<and> cache_ok {} c' \<and> teq_ok (c_time_event_queue c') \<and>
    c_n_cache_entries_max c' = c_n_cache_entries_max c \<and>
    (if \<exists>k y. cache_map c k = Some y \<and> avahi_timeval_compare (env_now v) (ce_expiry y) \<ge> 0 then
       (\<exists>k y. cache_map c k = Some y \<and> avahi_timeval_compare (env_now v) (ce_expiry y) \<ge> 0 \<and>
          (\<forall>k' y'. cache_map c k' = Some y' \<longrightarrow> avahi_timeval_compare (ce_expiry y) (ce_expiry y') \<le> 0) \<and>
          cache_table c' = spec_elapse v k (cache_table c)) \<or>
       (cache_table c' = cache_table c \<and> (\<exists>t a l o1. te_view (c_time_event_queue c) t = Some (a, l, Some (Other o1)) \<and>
          avahi_timeval_compare (env_now v) a \<ge> 0))
     else cache_table c' = cache_table c)"
proof -
  let ?q = "c_time_event_queue c"
  have tm: "timers_ok {} c" using assms(1) by (simp add: cache_ok_def)
  have tmr: "\<exists>t l. te_view ?q t = Some (ce_expiry y, l, Some (Elapse_func e)) \<and> te_alive ?q t \<and> te_expiry ?q t = ce_expiry y"
    if y: "c_view c e = Some y" for e y
  proof -
    obtain x where x: "c_heap c e = Some x" "y = ce_view x" using y by (auto simp: c_view_Some)
    then obtain t where "ce_time_event x = Some t" using timers_okD(3) [OF tm x(1)] by (cases "ce_time_event x") auto
    from timers_okD(2) [OF tm x(1) this] x(2) show ?thesis by (auto simp: te_view_Some)
  qed
  have finish: "\<exists>c'. (do { q \<leftarrow> update_timeout (c_time_event_queue c1); Some (c1\<lparr>c_time_event_queue := q\<rparr>) }) = Some c' \<and>
      cache_ok {} c' \<and> teq_ok (c_time_event_queue c') \<and> cache_table c' = cache_table c1 \<and>
      c_n_cache_entries_max c' = c_n_cache_entries_max c1" if c1: "cache_ok {} c1" for c1 :: "'a cache"
  proof -
    have core: "teq_core (c_time_event_queue c1)" using c1 by (simp add: cache_ok_def timers_ok_def)
    let ?q1 = "(c_time_event_queue c1)\<lparr>te_timeout := Some (map_option (te_expiry (c_time_event_queue c1)) (time_event_queue_root (c_time_event_queue c1)))\<rparr>"
    note u = update_timeout_ok [OF core]
    have "cache_ok {} (c1\<lparr>c_time_event_queue := ?q1\<rparr>)"
      using u(2) by (intro cache_ok_queue [OF c1]) (auto simp: teq_ok_def)
    with u show ?thesis by auto
  qed
  have none: "\<not> (\<exists>k y. cache_map c k = Some y \<and> avahi_timeval_compare (env_now v) (ce_expiry y) \<ge> 0)"
    if "\<forall>e. te_alive ?q e \<longrightarrow> avahi_timeval_compare (env_now v) (te_expiry ?q e) < 0"
  proof
    assume "\<exists>k y. cache_map c k = Some y \<and> avahi_timeval_compare (env_now v) (ce_expiry y) \<ge> 0"
    then obtain e y where "c_view c e = Some y" "avahi_timeval_compare (env_now v) (ce_expiry y) \<ge> 0"
      unfolding cache_map_iff [OF assms(1)] by blast
    with tmr [of e y] that show False by fastforce
  qed
  from expired_event_cases [OF assms(2), of "env_now v"] show ?thesis
  proof (elim disjE exE conjE)
    assume e: "expired_event (env_now v) ?q = Some None" "\<forall>e. te_alive ?q e \<longrightarrow> avahi_timeval_compare (env_now v) (te_expiry ?q e) < 0"
    from finish [OF assms(1)] obtain c' where "(do { q \<leftarrow> update_timeout (c_time_event_queue c); Some (c\<lparr>c_time_event_queue := q\<rparr>) }) = Some c'"
      "cache_ok {} c'" "teq_ok (c_time_event_queue c')" "cache_table c' = cache_table c" "c_n_cache_entries_max c' = c_n_cache_entries_max c" by blast
    with e(1) none [OF e(2)] show ?thesis by (simp add: cache_expiration_def if_not_P)
  next
    fix d f q'
    assume e: "expired_event (env_now v) ?q = Some (Some (f, d, q'))" "te_view ?q d = Some (te_expiry ?q d, te_last_run ?q d, Some f)"
      "avahi_timeval_compare (env_now v) (te_expiry ?q d) \<ge> 0"
      "\<forall>e. te_alive ?q e \<longrightarrow> avahi_timeval_compare (te_expiry ?q d) (te_expiry ?q e) \<le> 0"
      "teq_core q'" "te_view q' = (te_view ?q)(d \<mapsto> (te_expiry ?q d, env_now v, Some f))"
    have ok1: "cache_ok {} (c\<lparr>c_time_event_queue := q'\<rparr>)"
      using e(2,5,6) by (intro cache_ok_queue [OF assms(1)]) (auto split: if_splits)
    show ?thesis
    proof (cases f)
      case (Elapse_func i)
      from timers_okD(4) [OF tm e(2) [unfolded Elapse_func]] obtain x where x: "c_heap c i = Some x" "ce_time_event x = Some d" by blast
      have xe: "ce_expiry x = te_expiry ?q d" using timers_okD(2) [OF tm x] e(2) by auto
      have vx: "c_view c i = Some (ce_view x)" using x(1) by (simp add: c_view_def)
      then have mx: "cache_map c (ce_canon x) = Some (ce_view x)" using cache_map_iff [OF assms(1), of "ce_canon x" "ce_view x"] by auto
      have least: "avahi_timeval_compare (ce_expiry x) (ce_expiry y') \<le> 0" if m: "cache_map c k' = Some y'" for k' y'
      proof -
        obtain e' where "c_view c e' = Some y'" using m unfolding cache_map_iff [OF assms(1)] by blast
        from tmr [OF this] e(4) xe show ?thesis by auto
      qed
      have "c_heap (c\<lparr>c_time_event_queue := q'\<rparr>) i = Some x" using x(1) by simp
      from elapse_table [OF ok1 this, of refresh v] obtain c1 where c1: "elapse_func refresh v (c\<lparr>c_time_event_queue := q'\<rparr>) i = Some c1"
        "cache_ok {} c1" "c_n_cache_entries_max c1 = c_n_cache_entries_max c" "cache_table c1 = spec_elapse v (ce_canon x) (cache_table c)" by auto
      from finish [OF c1(2)] obtain c' where c': "(do { q \<leftarrow> update_timeout (c_time_event_queue c1); Some (c1\<lparr>c_time_event_queue := q\<rparr>) }) = Some c'"
        "cache_ok {} c'" "teq_ok (c_time_event_queue c')" "cache_table c' = cache_table c1" "c_n_cache_entries_max c' = c_n_cache_entries_max c1" by blast
      have "cache_expiration other refresh v c = Some c'"
        using e(1) Elapse_func c1(1) c'(1) by (simp add: cache_expiration_def)
      moreover have due: "cache_map c (ce_canon x) = Some (ce_view x) \<and>
          avahi_timeval_compare (env_now v) (ce_expiry (ce_view x)) \<ge> 0" using e(3) xe mx by simp
      then have "\<exists>k y. cache_map c k = Some y \<and> avahi_timeval_compare (env_now v) (ce_expiry y) \<ge> 0" by blast
      moreover have "\<exists>k y. cache_map c k = Some y \<and> avahi_timeval_compare (env_now v) (ce_expiry y) \<ge> 0 \<and>
          (\<forall>k' y'. cache_map c k' = Some y' \<longrightarrow> avahi_timeval_compare (ce_expiry y) (ce_expiry y') \<le> 0) \<and>
          cache_table c' = spec_elapse v k (cache_table c)"
        using due least c'(4) c1(4) by (intro exI [of _ "ce_canon x"] exI [of _ "ce_view x"]) simp
      ultimately show ?thesis
        using c'(2,3,5) c1(3) by (intro exI [of _ c']) simp
    next
      case (Other o1)
      have "te_view q' d = Some (te_expiry ?q d, env_now v, Some (Other o1))" using e(6) Other by simp
      with assms(3) obtain as where as: "all_foreign q' as" "other o1 d q' = te_run q' as" unfolding other_client_def by blast
      from foreign_run [OF e(5) as(1)] obtain q2 where q2: "te_run q' as = Some q2" "teq_core q2"
        "\<forall>t b l e. te_view q2 t = Some (b, l, Some (Elapse_func e)) \<longleftrightarrow> te_view q' t = Some (b, l, Some (Elapse_func e))" by blast
      have ok2: "cache_ok {} ((c\<lparr>c_time_event_queue := q'\<rparr>)\<lparr>c_time_event_queue := q2\<rparr>)"
        using q2(2,3) by (intro cache_ok_queue [OF ok1]) auto
      from finish [OF ok2] obtain c' where c': "(do { q \<leftarrow> update_timeout q2; Some (c\<lparr>c_time_event_queue := q\<rparr>) }) = Some c'"
        "cache_ok {} c'" "teq_ok (c_time_event_queue c')" "cache_table c' = cache_table c" "c_n_cache_entries_max c' = c_n_cache_entries_max c" by auto
      have "cache_expiration other refresh v c = Some c'"
        using e(1) Other as(2) q2(1) c'(1) by (simp add: cache_expiration_def)
      moreover have "\<exists>t a l o1. te_view ?q t = Some (a, l, Some (Other o1)) \<and> avahi_timeval_compare (env_now v) a \<ge> 0"
        using e(2,3) Other by blast
      ultimately show ?thesis using c'(2-5) by (intro exI [of _ c']) simp
    qed
  qed
qed

subsection \<open>Reachable caches\<close>

fun client_op :: "cache_op \<Rightarrow> bool" where
  "client_op (Op_elapse v k) = False"
| "client_op _ = True"

inductive cache_reachable ::
  "('o \<Rightarrow> nat \<Rightarrow> 'o cache_timer teq \<Rightarrow> 'o cache_timer teq outcome) \<Rightarrow> nat \<Rightarrow> 'o cache \<Rightarrow> bool" for other n_max where
  start: "teq_ok q \<Longrightarrow> \<forall>t a l e. te_view q t \<noteq> Some (a, l, Some (Elapse_func e)) \<Longrightarrow>
    cache_reachable other n_max (avahi_cache_new q n_max junk)"
| operation: "cache_reachable other n_max c \<Longrightarrow> cache_allowed a \<Longrightarrow> client_op a \<Longrightarrow> cache_exec refresh c a = Some c' \<Longrightarrow>
    cache_reachable other n_max c'"
| foreign: "cache_reachable other n_max c \<Longrightarrow> foreign (c_time_event_queue c) a \<Longrightarrow>
    te_exec (c_time_event_queue c) a = Some q \<Longrightarrow> cache_reachable other n_max (c\<lparr>c_time_event_queue := q\<rparr>)"
| expiration: "cache_reachable other n_max c \<Longrightarrow> cache_expiration other refresh v c = Some c' \<Longrightarrow> cache_reachable other n_max c'"

lemma cache_reachable_ok:
  assumes "other_client other"
  shows "cache_reachable other n_max c \<Longrightarrow> cache_ok {} c \<and> teq_ok (c_time_event_queue c) \<and> c_n_cache_entries_max c = n_max"
proof (induction rule: cache_reachable.induct)
  case (start q junk)
  then have "cache_ok {} (avahi_cache_new q n_max junk)" by (intro cache_ok_new) (simp_all add: teq_ok_def)
  with start show ?case by (simp add: avahi_cache_new_def)
next
  case (operation c a refresh c')
  with cache_exec_ok [of c a refresh] armed_ok show ?case by auto
next
  case (foreign c a q)
  then have c: "cache_ok {} c" "teq_core (c_time_event_queue c)" by (simp_all add: teq_ok_def)
  from foreign_exec [OF c(2) foreign.hyps(2)] foreign.hyps(3) have
    q: "teq_ok q" "\<forall>t b l e. te_view q t = Some (b, l, Some (Elapse_func e)) \<longleftrightarrow> te_view (c_time_event_queue c) t = Some (b, l, Some (Elapse_func e))"
    by auto
  then have "cache_ok {} (c\<lparr>c_time_event_queue := q\<rparr>)"
    by (intro cache_ok_queue [OF c(1)]) (auto simp: teq_ok_def)
  with q foreign.IH show ?case by simp
next
  case (expiration c refresh v c')
  with cache_expiration_ok [OF _ _ assms, of c refresh v] show ?case by auto
qed

lemma cache_records_dom: "cache_ok P c \<Longrightarrow> cache_records c = dom (cache_map c)"
proof (intro set_eqI iffI)
  fix k
  assume c: "cache_ok P c" and "k \<in> cache_records c"
  then obtain e x where "c_heap c e = Some x" "k = ce_canon x" by (auto simp: cache_records_def ce_rec_def)
  then have "cache_map c k = Some (ce_view x)" using cache_map_iff [OF c, of k "ce_view x"] by (auto simp: c_view_Some)
  then show "k \<in> dom (cache_map c)" by blast
next
  fix k
  assume c: "cache_ok P c" and "k \<in> dom (cache_map c)"
  then obtain y where "cache_map c k = Some y" by blast
  then obtain e where e: "c_view c e = Some y" "ce_canon y = k" unfolding cache_map_iff [OF c] by blast
  then obtain x where x: "c_heap c e = Some x" "y = ce_view x" by (auto simp: c_view_Some)
  then have "ce_rec c e = Some (ce_record x)" "rr_canon (ce_record x) = k" using e(2) by (simp_all add: ce_rec_def)
  then show "k \<in> cache_records c" unfolding cache_records_def by blast
qed

subsection \<open>Properties\<close>

text \<open>
  C5: a cache is always consistent. In every state that calls of its users, its own timers and the timers
  of others lead to: it holds at most the configured number of records, no two of them equal, and counts
  them right; its subscribers have been told of exactly the records it holds; every entry has one timer, at
  its expiry, and there is no timer for an entry that is gone; every key in the hash map is the key of
  the record of the entry it leads to, which is alive; and every further call returns.
\<close>

theorem cache_always_consistent:
  assumes "other_client other" "cache_reachable other n_max c"
  shows "c_n_entries c = card (dom (cache_map c)) \<and> c_n_entries c \<le> n_max \<and>
    inj_on (\<lambda>e. rr_canon (ce_record (the (c_heap c e)))) {e. c_heap c e \<noteq> None} \<and>
    foldl seen_step {} (c_notified c) = dom (cache_map c) \<and>
    (\<forall>e x. c_heap c e = Some x \<longrightarrow> (\<exists>t l. ce_time_event x = Some t \<and>
       te_view (c_time_event_queue c) t = Some (ce_expiry x, l, Some (Elapse_func e)))) \<and>
    (\<forall>t a l e. te_view (c_time_event_queue c) t = Some (a, l, Some (Elapse_func e)) \<longrightarrow>
       (\<exists>x. c_heap c e = Some x \<and> ce_time_event x = Some t)) \<and>
    (\<forall>(k, e) \<in> set (hm_alist (c_hashmap c)). \<exists>x. c_heap c e = Some x \<and> rr_key (ce_record x) = k) \<and>
    timeout_earliest (te_view (c_time_event_queue c)) (te_timeout (c_time_event_queue c)) \<and>
    (cache_allowed a \<longrightarrow> cache_exec refresh c a \<noteq> crash) \<and> cache_expiration other refresh v c \<noteq> crash \<and>
    avahi_cache_free c \<noteq> crash"
proof -
  have ok: "cache_ok {} c" "teq_ok (c_time_event_queue c)" "c_n_cache_entries_max c = n_max"
    using cache_reachable_ok [OF assms] by simp_all
  from ok(1) obtain xs ch where rep: "cache_rep c xs ch" and tm: "timers_ok {} c" by (auto simp: cache_ok_def)
  note d = cache_repD [OF rep]
  have "inj_on (\<lambda>e. rr_canon (ce_record (the (c_heap c e)))) {e. c_heap c e \<noteq> None}"
    using d(9) by (intro inj_onI) (auto simp: ce_rec_def)
  moreover have "\<exists>t l. ce_time_event x = Some t \<and> te_view (c_time_event_queue c) t = Some (ce_expiry x, l, Some (Elapse_func e))"
    if "c_heap c e = Some x" for e x
    using timers_okD(2,3) [OF tm that] by (cases "ce_time_event x") auto
  moreover have "\<exists>x. c_heap c e = Some x \<and> rr_key (ce_record x) = k" if m: "(k, e) \<in> set (hm_alist (c_hashmap c))" for k e
  proof -
    have inv: "km_inv (c_hashmap c)" using keyedD(1) [OF d(1)] .
    from d(2) [OF km_alist [OF inv m]] show ?thesis by (auto simp: ce_keys_def ce_rec_def)
  qed
  moreover have "\<exists>x. c_heap c e = Some x \<and> ce_time_event x = Some t"
    if "te_view (c_time_event_queue c) t = Some (a, l, Some (Elapse_func e))" for t a l e
    by (rule timers_okD(4) [OF tm that])
  moreover have "c_n_entries c = card (dom (cache_map c))" "c_n_entries c \<le> n_max"
    using cache_map_card [OF ok(1)] ok(3) by simp_all
  moreover have "timeout_earliest (te_view (c_time_event_queue c)) (te_timeout (c_time_event_queue c))"
    by (rule teq_ok_timeout [OF ok(2)])
  moreover have "foldl seen_step {} (c_notified c) = dom (cache_map c)"
    using d(10) cache_records_dom [OF ok(1)] by simp
  moreover have "cache_allowed a \<longrightarrow> cache_exec refresh c a \<noteq> crash"
    using cache_exec_ok [OF ok(1), of a refresh] by auto
  moreover have "cache_expiration other refresh v c \<noteq> crash"
    using cache_expiration_ok [OF ok(1,2) assms(1), of refresh v] by auto
  moreover have "avahi_cache_free c \<noteq> crash" using cache_free_ok [OF ok(1)] by auto
  ultimately show ?thesis by (intro conjI allI impI ballI) (auto simp del: not_None_eq not_Some_eq)
qed

text \<open>A first cache with one record, for the examples.\<close>

definition quiet_other :: "unit \<Rightarrow> nat \<Rightarrow> unit cache_timer teq \<Rightarrow> unit cache_timer teq outcome" where
  "quiet_other f t q = Some q"

lemma quiet_other_client: "other_client quiet_other"
  unfolding other_client_def quiet_other_def by (intro allI impI exI [of _ "[]"]) simp

definition at_time :: "int \<Rightarrow> env" where
  "at_time s = \<lparr>env_now = \<lparr>tv_sec = s, tv_usec = 0\<rparr>, env_time = s, env_rand = 7\<rparr>"

definition some_address :: address where
  "some_address = \<lparr>proto = AVAHI_PROTO_INET, addr_bytes = replicate 16 1\<rparr>"

lemma sample_srv_key: "\<not> avahi_key_is_pattern (rr_key (sample_srv p))" "rr_ttl (sample_srv p) = 120"
  "key_canon (rr_key (sample_srv p)) = key_canon (rr_key (sample_srv q))"
  by (simp_all add: sample_srv_def avahi_key_is_pattern_def AVAHI_DNS_CLASS_IN_def AVAHI_DNS_CLASS_ANY_def dns_type_defs)

lemma new_cache_reachable: "cache_reachable quiet_other n (new_cache n junk)"
proof -
  have "te_view (avahi_time_event_queue_new :: unit cache_timer teq) t = None" for t
    by (simp add: te_view_def avahi_time_event_queue_new_def)
  then show ?thesis unfolding new_cache_def by (intro cache_reachable.start [OF teq_ok_new]) simp
qed

lemma client_run_reachable:
  "cache_reachable other n c \<Longrightarrow> list_all cache_allowed as \<Longrightarrow> list_all client_op as \<Longrightarrow> cache_run refresh c as = Some c' \<Longrightarrow>
   cache_reachable other n c'"
proof (induction as arbitrary: c)
  case (Cons a as)
  then obtain c1 where "cache_exec refresh c a = Some c1" "cache_run refresh c1 as = Some c'"
    by (auto simp: Option.bind_eq_Some_conv)
  with Cons.IH [of c1] Cons.prems cache_reachable.operation [of other n c a refresh c1] show ?case by simp
qed simp

theorem cache_always_consistent_witness:
  "\<exists>c. cache_run (\<lambda>_. True) (new_cache 10 3) [Op_update (at_time 100) (sample_srv 1) True some_address,
      Op_update (at_time 200) (sample_srv 2) True some_address] = Some c \<and>
    foldl seen_step {} (c_notified c) = dom (cache_map c) \<and>
    cache_expiration quiet_other (\<lambda>_. True) (at_time 300) c \<noteq> crash"
proof -
  let ?as = "[Op_update (at_time 100) (sample_srv 1) True some_address, Op_update (at_time 200) (sample_srv 2) True some_address]"
  have al: "list_all cache_allowed ?as" "list_all client_op ?as" by (simp_all add: sample_srv_readable sample_srv_key)
  from cache_run_ok [OF new_cache_ok(1) al(1)] obtain c where c: "cache_run (\<lambda>_. True) (new_cache 10 3) ?as = Some c" by blast
  have "cache_reachable quiet_other 10 c" by (rule client_run_reachable [OF new_cache_reachable al c])
  from cache_always_consistent [OF quiet_other_client this, of Op_flush "\<lambda>_. True" "at_time 300"]
  have "foldl seen_step {} (c_notified c) = dom (cache_map c)"
    "cache_expiration quiet_other (\<lambda>_. True) (at_time 300) c \<noteq> crash" by blast+
  with c show ?thesis by (intro exI [of _ c] conjI)
qed

text \<open>
  C6: the cache refines a table of records. For any sequence of updates, timers, observations of failure and
  flushes, on readable records, every call returns and the cache holds exactly what the specification
  computes on a table from records (without their TTL) to entries: the same records with the same
  times of expiry, states and origins. A goodbye gives a known record one more second; a flushing update
  gives every older record of its key one more second; an update refreshes an equal record and adds a
  new one only while there is room.
\<close>

theorem cache_refines_table:
  assumes "list_all cache_allowed as"
  shows "\<exists>c. cache_run refresh (new_cache n_max junk) as = Some c \<and>
    cache_table c = foldl (cache_spec n_max) (\<lambda>_. None, junk, 0) as \<and> card (dom (cache_map c)) \<le> n_max"
proof -
  from cache_run_ok [OF new_cache_ok(1) assms, of refresh] obtain c where
    c: "cache_run refresh (new_cache n_max junk) as = Some c" "cache_ok {} c" "c_n_cache_entries_max c = n_max"
      "cache_table c = foldl (cache_spec n_max) (\<lambda>_. None, junk, 0) as"
    by (auto simp: new_cache_ok(2,3))
  with cache_map_card [OF c(2)] show ?thesis by simp
qed

lemma sample_srv_canon: "rr_canon (sample_srv p) = rr_canon (sample_srv q) \<longleftrightarrow> p = q"
  by (auto simp: rr_canon_def sample_srv_def data_canon_def)

lemma spec_update_first:
  assumes "rr_ttl r \<noteq> 0" "0 < n"
  shows "spec_update n v r f a (\<lambda>_. None, j) = ([rr_canon r \<mapsto> refreshed v j r f a (new_entry r)], next_jitter v j)"
proof -
  have "spec_flush v r (\<lambda>_. None) = (\<lambda>_. None)" by (simp add: spec_flush_def fun_eq_iff)
  with assms show ?thesis by (simp add: spec_update_def Let_def)
qed

lemma spec_update_full:
  assumes "rr_ttl r \<noteq> 0" "rr_canon r \<noteq> k"
  shows "spec_update 1 v r True a ([k \<mapsto> y], j) = (spec_flush v r [k \<mapsto> y], j)"
proof -
  have "dom (spec_flush v r [k \<mapsto> y]) = {k}" "spec_flush v r [k \<mapsto> y] (rr_canon r) = None"
    using assms(2) by (auto simp: spec_flush_def split: if_splits)
  with assms(1) show ?thesis by (simp add: spec_update_def Let_def)
qed

theorem cache_refines_table_witness:
  "\<exists>c. cache_run (\<lambda>_. True) (new_cache 1 3) [Op_update (at_time 100) (sample_srv 1) True some_address,
      Op_update (at_time 200) (sample_srv 2) True some_address] = Some c \<and>
    map_option ce_state (cache_map c (rr_canon (sample_srv 1))) = Some AVAHI_CACHE_REPLACE_FINAL \<and>
    cache_map c (rr_canon (sample_srv 2)) = None"
proof -
  let ?as = "[Op_update (at_time 100) (sample_srv 1) True some_address, Op_update (at_time 200) (sample_srv 2) True some_address]"
  have al: "list_all cache_allowed ?as" by (simp add: sample_srv_readable sample_srv_key)
  from cache_refines_table [OF al] obtain c where c: "cache_run (\<lambda>_. True) (new_cache 1 3) ?as = Some c"
    "cache_table c = foldl (cache_spec 1) (\<lambda>_. None, 3, 0) ?as" by blast
  have d: "avahi_timeval_diff \<lparr>tv_sec = 200, tv_usec = 0\<rparr> \<lparr>tv_sec = 100, tv_usec = 0\<rparr> = 100000000"
    by (simp add: timeval_diff_value tv_value_def)
  let ?y = "refreshed (at_time 100) (3, 0) (sample_srv 1) True some_address (new_entry (sample_srv 1))"
  have "cache_table c = spec_update 1 (at_time 200) (sample_srv 2) True some_address
      ([rr_canon (sample_srv 1) \<mapsto> ?y], next_jitter (at_time 100) (3, 0))"
    unfolding c(2) by (simp add: spec_update_first sample_srv_key)
  also have "\<dots> = (spec_flush (at_time 200) (sample_srv 2) [rr_canon (sample_srv 1) \<mapsto> ?y], next_jitter (at_time 100) (3, 0))"
    by (rule spec_update_full) (simp_all add: sample_srv_key sample_srv_canon)
  finally have "cache_map c = spec_flush (at_time 200) (sample_srv 2) [rr_canon (sample_srv 1) \<mapsto> ?y]"
    by (simp add: cache_table_def)
  moreover have "too_old (at_time 200) ?y" by (simp add: too_old_def refreshed_def at_time_def d)
  moreover have "ce_record ?y = sample_srv 1" by (simp add: refreshed_def)
  moreover note sample_srv_key(3) [of 1 2]
  ultimately have "map_option ce_state (cache_map c (rr_canon (sample_srv 1))) = Some AVAHI_CACHE_REPLACE_FINAL"
    "cache_map c (rr_canon (sample_srv 2)) = None"
    by (simp_all add: spec_flush_def replaced_def sample_srv_canon)
  with c(1) show ?thesis by blast
qed

subsection \<open>The life of an entry\<close>

definition sane :: "env \<Rightarrow> bool" where
  "sane v \<longleftrightarrow> env_rand v \<le> RAND_MAX \<and> 10 \<le> env_time v"

fun op_sane :: "cache_op \<Rightarrow> bool" where
  "op_sane (Op_update v r f a) = sane v"
| "op_sane (Op_elapse v k) = sane v"
| "op_sane (Op_start_poof v key a) = sane v"
| "op_sane (Op_stop_poof v r a) = sane v"
| "op_sane Op_flush = True"

text \<open>The calls that have nothing to say about the record \<open>r\<close>, its timer included.\<close>

fun leaves_alone :: "rr \<Rightarrow> cache_op \<Rightarrow> bool" where
  "leaves_alone r (Op_update v r' f a) = (rr_canon r' \<noteq> rr_canon r \<and> (f \<longrightarrow> key_canon (rr_key r') \<noteq> key_canon (rr_key r)))"
| "leaves_alone r (Op_elapse v k) = True"
| "leaves_alone r (Op_start_poof v key a) =
     (\<not> avahi_key_is_pattern key \<and> key_canon key \<noteq> key_canon (rr_key r))"
| "leaves_alone r (Op_stop_poof v r' a) = (rr_canon r' \<noteq> rr_canon r)"
| "leaves_alone r Op_flush = False"

fun elapses :: "canon_record \<Rightarrow> cache_op list \<Rightarrow> nat" where
  "elapses k [] = 0"
| "elapses k (a # as) = (case a of Op_elapse _ k' \<Rightarrow> (if k' = k then 1 else 0) | _ \<Rightarrow> 0) + elapses k as"

definition ages :: "cache_state list" where
  "ages = [AVAHI_CACHE_VALID, AVAHI_CACHE_EXPIRY1, AVAHI_CACHE_EXPIRY2, AVAHI_CACHE_EXPIRY3, AVAHI_CACHE_EXPIRY_FINAL]"

text \<open>The entry after \<open>n\<close> expiries of its timer without an update.\<close>

definition aged :: "rr \<Rightarrow> timeval \<Rightarrow> nat \<Rightarrow> cache_entry option \<Rightarrow> bool" where
  "aged r since n y \<longleftrightarrow>
     (case y of
        None \<Rightarrow> 5 \<le> n
      | Some y \<Rightarrow> n < 5 \<and> ce_record y = r \<and> ce_timestamp y = since \<and> ce_state y = ages ! n \<and>
          tv_value since + int (unat (rr_ttl r) * 10000 * (80 + 5 * n)) \<le> tv_value (ce_expiry y) \<and>
          tv_value (ce_expiry y) \<le> tv_value since + int (unat (rr_ttl r) * 10000 * (82 + 5 * n)))"

definition jitter_ok :: "nat \<times> int \<Rightarrow> bool" where
  "jitter_ok j \<longleftrightarrow> fst j \<le> RAND_MAX \<or> snd j \<le> 0"

lemma jitter_ok_next: "sane v \<Longrightarrow> jitter_ok j \<Longrightarrow> fst (next_jitter v j) \<le> RAND_MAX"
  by (auto simp: jitter_ok_def next_jitter_def sane_def)

lemma jitter_ok_next' : "sane v \<Longrightarrow> jitter_ok j \<Longrightarrow> jitter_ok (next_jitter v j)"
  using jitter_ok_next unfolding jitter_ok_def by blast

lemma fresh_until_bounds:
  assumes "sane v" "jitter_ok j" "p \<le> 100"
  shows "tv_value since + int (unat (rr_ttl r) * 10000 * p) \<le> tv_value (fresh_until v j since r p)"
    "tv_value (fresh_until v j since r p) \<le> tv_value since + int (unat (rr_ttl r) * 10000 * (p + 2))"
  using expiry_usec_bounds [OF assms(3) jitter_ok_next [OF assms(1,2)], of "rr_ttl r"]
  unfolding fresh_until_def tv_value_add by linarith+

lemma jitter_ok_spec:
  assumes "op_sane a" "jitter_ok (snd T)"
  shows "jitter_ok (snd (cache_spec n T a))"
  using assms by (cases a) (auto simp: spec_update_def spec_elapse_def spec_start_poof_def spec_stop_poof_def
    jitter_ok_next' Let_def split: prod.splits option.splits)

lemma aged_refreshed:
  assumes "sane v" "jitter_ok j"
  shows "aged r (env_now v) 0 (Some (refreshed v j r f a y))"
  using fresh_until_bounds [OF assms, of 80 "env_now v" r] by (simp add: aged_def refreshed_def ages_def)

lemma aged_elapse:
  assumes "aged r since n (M (rr_canon r))" "sane v" "jitter_ok j"
  shows "aged r since (Suc n) (fst (spec_elapse v (rr_canon r) (M, j)) (rr_canon r))"
proof (cases "M (rr_canon r)")
  case None
  with assms(1) show ?thesis by (simp add: spec_elapse_def aged_def)
next
  case (Some y)
  with assms(1) have y: "n < 5" "ce_record y = r" "ce_timestamp y = since" "ce_state y = ages ! n" by (auto simp: aged_def)
  from y(1) consider "n = 0" | "n = 1" | "n = 2" | "n = 3" | "n = 4" by linarith
  then show ?thesis
    using fresh_until_bounds [OF assms(2,3), of "80 + 5 * Suc n" since r] y(2-4) Some
    by cases (simp_all add: spec_elapse_def aged_def elapse_switch_def ages_def)
qed

lemma record_same_key: "rr_canon a = rr_canon b \<Longrightarrow> key_canon (rr_key a) = key_canon (rr_key b)"
  by (simp add: rr_canon_def)

lemma aged_step:
  assumes "aged r since n (fst T (rr_canon r))" "op_sane a" "jitter_ok (snd T)" "leaves_alone r a"
  shows "aged r since (n + elapses (rr_canon r) [a]) (fst (cache_spec m T a) (rr_canon r))"
proof -
  obtain M j where T: "T = (M, j)" by (cases T)
  note assms = assms [unfolded T fst_conv snd_conv]
  show ?thesis
  proof (cases a)
    case (Op_update v r' f ad)
    have "spec_flush v r' M (rr_canon r) = M (rr_canon r)" if "f"
      using assms(1,4) that Op_update by (auto simp: spec_flush_def aged_def split: option.splits)
    then have "fst (spec_update m v r' f ad (M, j)) (rr_canon r) = M (rr_canon r)"
      using assms(4) Op_update by (auto simp: spec_update_def Let_def split: option.splits)
    with assms(1) Op_update T show ?thesis by simp
  next
    case (Op_elapse v k)
    show ?thesis
    proof (cases "k = rr_canon r")
      case True
      from aged_elapse [where M = M and v = v and j = j and n = n and since = since and r = r] assms(1,2,3) True Op_elapse T show ?thesis by simp
    next
      case False
      then have "fst (spec_elapse v k (M, j)) (rr_canon r) = M (rr_canon r)"
        by (auto simp: spec_elapse_def split: option.splits)
      with assms(1) Op_elapse T False show ?thesis by simp
    qed
  next
    case (Op_start_poof v key ad)
    have "fst (spec_start_poof v key ad (M, j)) (rr_canon r) = M (rr_canon r)"
      using assms(1,4) Op_start_poof by (auto simp: spec_start_poof_def key_asks_def aged_def split: option.splits)
    with assms(1) Op_start_poof T show ?thesis by simp
  next
    case (Op_stop_poof v r' ad)
    have "fst (spec_stop_poof v r' ad (M, j)) (rr_canon r) = M (rr_canon r)"
      using assms(4) Op_stop_poof by (auto simp: spec_stop_poof_def split: option.splits)
    with assms(1) Op_stop_poof T show ?thesis by simp
  next
    case Op_flush
    with assms(4) show ?thesis by simp
  qed
qed

lemma elapses_Cons: "elapses k (a # as) = elapses k [a] + elapses k as"
  by simp

lemma aged_run:
  "aged r since n (fst T (rr_canon r)) \<Longrightarrow> jitter_ok (snd T) \<Longrightarrow> list_all op_sane as \<Longrightarrow> list_all (leaves_alone r) as \<Longrightarrow>
   aged r since (n + elapses (rr_canon r) as) (fst (foldl (cache_spec m) T as) (rr_canon r))"
proof (induction as arbitrary: n T)
  case (Cons a as)
  then have "aged r since (n + elapses (rr_canon r) [a]) (fst (cache_spec m T a) (rr_canon r))" by (intro aged_step) simp_all
  moreover have "jitter_ok (snd (cache_spec m T a))" using Cons.prems(2,3) by (intro jitter_ok_spec) simp_all
  ultimately have "aged r since (n + elapses (rr_canon r) [a] + elapses (rr_canon r) as)
      (fst (foldl (cache_spec m) (cache_spec m T a) as) (rr_canon r))" using Cons.prems(3,4) by (intro Cons.IH) simp_all
  then show ?case unfolding elapses_Cons [of _ a as] by (simp add: add.assoc del: elapses.simps)
qed simp

lemma jitter_ok_run:
  "list_all op_sane as \<Longrightarrow> jitter_ok (snd T) \<Longrightarrow> jitter_ok (snd (foldl (cache_spec n) T as))"
proof (induction as arbitrary: T)
  case (Cons a as)
  then show ?case using jitter_ok_spec [of a T n] by simp
qed simp

lemma cache_run_append:
  "cache_run refresh c (as @ bs) = do { c \<leftarrow> cache_run refresh c as; cache_run refresh c bs }"
  by (induction as arbitrary: c) (simp_all add: bind_assoc Option.bind_assoc)

lemma update_stays:
  assumes "rr_ttl r \<noteq> 0" "fst (spec_update n v r f a (M, j)) (rr_canon r) \<noteq> None"
  shows "\<exists>y. fst (spec_update n v r f a (M, j)) (rr_canon r) = Some (refreshed v j r f a y)"
  using assms by (auto simp: spec_update_def Let_def split: option.splits if_splits)

text \<open>
  C30: an entry that is not refreshed disappears. After an update that the cache has taken, as long as the
  calls are about other records: the first four times that its timer fires the entry moves to the next
  state, and its timer is set for 85, 90, 95 and 100 percent of the TTL after the update, give or take
  the two percent of jitter; the fifth time it is gone. It is never gone earlier.
\<close>

theorem unrefreshed_record_expires:
  assumes "list_all cache_allowed (before @ Op_update v r f a # after)" "list_all op_sane (before @ Op_update v r f a # after)"
    and "rr_ttl r \<noteq> 0" "list_all (leaves_alone r) after"
    and "cache_run refresh (new_cache n junk) (before @ [Op_update v r f a]) = Some c" "cache_map c (rr_canon r) \<noteq> None"
  shows "\<exists>c'. cache_run refresh c after = Some c' \<and>
    aged r (env_now v) (elapses (rr_canon r) after) (cache_map c' (rr_canon r))"
proof -
  let ?b = "before @ [Op_update v r f a]"
  have al: "list_all cache_allowed ?b" "list_all cache_allowed after" using assms(1) by simp_all
  obtain M j where T: "foldl (cache_spec n) (\<lambda>_. None, junk, 0) before = (M, j)" by (rule prod.exhaust)
  have "jitter_ok (snd (foldl (cache_spec n) (\<lambda>_. None, junk, 0) before))"
    using assms(2) by (intro jitter_ok_run) (simp_all add: jitter_ok_def)
  then have j: "jitter_ok j" using T by simp
  from cache_run_ok [OF new_cache_ok(1) al(1), of refresh n junk] assms(5) have c: "cache_ok {} c"
    "c_n_cache_entries_max c = n" "cache_table c = spec_update n v r f a (M, j)"
    by (simp_all add: new_cache_ok(2,3) T)
  then have cm: "cache_map c = fst (spec_update n v r f a (M, j))" by (simp add: cache_table_def prod_eq_iff)
  from update_stays [OF assms(3), of n v f a M j] assms(6) obtain y where
    y: "cache_map c (rr_canon r) = Some (refreshed v j r f a y)" unfolding cm by blast
  have sv: "sane v" using assms(2) by simp
  have ag: "aged r (env_now v) 0 (fst (cache_table c) (rr_canon r))"
    using aged_refreshed [OF sv j, of r f a y] y by (simp add: cache_table_def)
  have "jitter_ok (snd (cache_table c))"
    using jitter_ok_spec [of "Op_update v r f a" "(M, j)" n] sv j c(3) by simp
  from aged_run [OF ag this _ assms(4), of n] assms(2)
  have "aged r (env_now v) (elapses (rr_canon r) after) (fst (foldl (cache_spec n) (cache_table c) after) (rr_canon r))" by simp
  moreover from cache_run_ok [OF c(1) al(2), of refresh] c(2) obtain c' where
    c': "cache_run refresh c after = Some c'" "cache_table c' = foldl (cache_spec n) (cache_table c) after" by blast
  moreover have "cache_map c' = fst (foldl (cache_spec n) (cache_table c) after)"
    unfolding c'(2) [symmetric] by (simp add: cache_table_def)
  ultimately show ?thesis by simp
qed

theorem unrefreshed_record_expires_witness:
  "\<exists>c c'. cache_run (\<lambda>_. True) (new_cache 5 3) [Op_update (at_time 100) (sample_srv 1) True some_address] = Some c \<and>
    cache_run (\<lambda>_. True) c (map (\<lambda>t. Op_elapse (at_time t) (rr_canon (sample_srv 1))) [198, 204, 210, 216, 222]) = Some c' \<and>
    cache_map c (rr_canon (sample_srv 1)) \<noteq> None \<and> cache_map c' (rr_canon (sample_srv 1)) = None"
proof -
  let ?u = "Op_update (at_time 100) (sample_srv 1) True some_address"
  let ?as = "map (\<lambda>t. Op_elapse (at_time t) (rr_canon (sample_srv 1))) [198, 204, 210, 216, 222]"
  have al: "list_all cache_allowed ([] @ ?u # ?as)" "list_all op_sane ([] @ ?u # ?as)"
    by (simp_all add: sample_srv_readable sample_srv_key sane_def at_time_def RAND_MAX_def)
  have "list_all cache_allowed [?u]" using al(1) by simp
  from cache_refines_table [OF this, of "\<lambda>_. True" 5 3] obtain c where
    c: "cache_run (\<lambda>_. True) (new_cache 5 3) [?u] = Some c" "cache_table c = foldl (cache_spec 5) (\<lambda>_. None, 3, 0) [?u]" by blast
  have "cache_map c = [rr_canon (sample_srv 1) \<mapsto> refreshed (at_time 100) (3, 0) (sample_srv 1) True some_address (new_entry (sample_srv 1))]"
    using c(2) by (simp add: cache_table_def spec_update_first sample_srv_key)
  then have m: "cache_map c (rr_canon (sample_srv 1)) \<noteq> None" by simp
  have "cache_run (\<lambda>_. True) (new_cache 5 3) ([] @ [?u]) = Some c" using c(1) by simp
  from unrefreshed_record_expires [OF al _ _ this m] obtain c' where
    c': "cache_run (\<lambda>_. True) c ?as = Some c'" "aged (sample_srv 1) (env_now (at_time 100)) (elapses (rr_canon (sample_srv 1)) ?as) (cache_map c' (rr_canon (sample_srv 1)))"
    by (auto simp: sample_srv_key)
  have "elapses (rr_canon (sample_srv 1)) ?as = 5" by simp
  with c'(2) have "cache_map c' (rr_canon (sample_srv 1)) = None" by (auto simp: aged_def split: option.splits)
  with c(1) c'(1) m show ?thesis by blast
qed

text \<open>After the first record has come, its timer is the only one in the queue.\<close>

lemma first_update_timer:
  "\<exists>c t a l. cache_exec refresh (new_cache 5 3) (Op_update (at_time 100) (sample_srv 1) False some_address) = Some c \<and>
    te_view (c_time_event_queue c) = [t \<mapsto> (a, l, Some (Elapse_func 0))]"
proof -
  let ?m = "avahi_hashmap_new rr_key_hash rr_key_eq False False :: (rrkey, nat) hashmap"
  let ?k = "rr_key (sample_srv 1)"
  have kr: "key_readable ?k" using sample_srv_readable rr_readable_key by blast
  have l: "avahi_hashmap_lookup ?m ?k = Some None" using km_lookup [OF km_new(1) kr] by (simp add: km_new(2))
  obtain m r where m: "avahi_hashmap_replace ?m ?k 0 = Some (m, r)" by (rule km_replace [OF km_new(1) kr])
  have core: "teq_core (avahi_time_event_queue_new :: unit cache_timer teq)"
    using teq_ok_new [where 'a = "unit cache_timer"] by (simp add: teq_ok_def)
  have none: "te_view (avahi_time_event_queue_new :: unit cache_timer teq) = (\<lambda>_. None)"
    by (simp add: te_view_def avahi_time_event_queue_new_def fun_eq_iff)
  define tv where "tv = avahi_timeval_add (env_now (at_time 100)) (int (expiry_usec (rr_ttl (sample_srv 1)) 80 7))"
  from event_new_ok [OF core, of "Some tv" "Elapse_func 0 :: unit cache_timer"] none obtain q t l where
    q: "avahi_time_event_new avahi_time_event_queue_new (Some tv) (Elapse_func 0 :: unit cache_timer) = Some (q, t)"
      "te_view q = [t \<mapsto> (tv, l, Some (Elapse_func 0))]" by auto
  have f: "llist_foreach lk body None s = Some (None, s)" for lk body s
    by (subst llist_foreach.simps) simp
  have now: "env_time (at_time 100) = 100" "env_rand (at_time 100) = 7" by (simp_all add: at_time_def)
  have "\<exists>c. cache_exec refresh (new_cache 5 3) (Op_update (at_time 100) (sample_srv 1) False some_address) = Some c \<and>
      c_time_event_queue c = q"
    using sample_srv_key l m q(1) tv_def
    by (simp add: now f avahi_cache_update_def cache_lookup_key_def new_cache_def avahi_cache_new_def append_entry_def set_entry_def
        llist_prepend_def finish_update_def next_expiry_def update_time_event_def new_entry_def Let_def no_links_def)
  with q(2) show ?thesis by blast
qed

text \<open>
  C31: the timer of the cache acts on expired entries only, the earliest first. One round of the time event
  queue either leaves the records of the cache as they are or takes one step for a single entry, one that has
  expired and has an earliest time of expiry; and it takes such a step whenever there is an expired
  entry and no timer of another part of the server is due.
\<close>

theorem expiration_takes_the_earliest:
  assumes "other_client other" "cache_reachable other n_max c"
  shows "\<exists>c'. cache_expiration other refresh v c = Some c' \<and>
    (cache_table c' = cache_table c \<or>
      (\<exists>k y. cache_map c k = Some y \<and> avahi_timeval_compare (env_now v) (ce_expiry y) \<ge> 0 \<and>
         (\<forall>k' y'. cache_map c k' = Some y' \<longrightarrow> avahi_timeval_compare (ce_expiry y) (ce_expiry y') \<le> 0) \<and>
         cache_table c' = spec_elapse v k (cache_table c))) \<and>
    ((\<exists>k y. cache_map c k = Some y \<and> avahi_timeval_compare (env_now v) (ce_expiry y) \<ge> 0) \<and>
      \<not> (\<exists>t a l o1. te_view (c_time_event_queue c) t = Some (a, l, Some (Other o1)) \<and> avahi_timeval_compare (env_now v) a \<ge> 0) \<longrightarrow>
      (\<exists>k. cache_map c k \<noteq> None \<and> cache_table c' = spec_elapse v k (cache_table c)))"
proof -
  from cache_reachable_ok [OF assms] have ok: "cache_ok {} c" "teq_ok (c_time_event_queue c)" by simp_all
  let ?due = "\<exists>k y. cache_map c k = Some y \<and> avahi_timeval_compare (env_now v) (ce_expiry y) \<ge> 0"
  from cache_expiration_ok [OF ok assms(1), of refresh v] obtain c' where c': "cache_expiration other refresh v c = Some c'"
    "if ?due then
       (\<exists>k y. cache_map c k = Some y \<and> avahi_timeval_compare (env_now v) (ce_expiry y) \<ge> 0 \<and>
          (\<forall>k' y'. cache_map c k' = Some y' \<longrightarrow> avahi_timeval_compare (ce_expiry y) (ce_expiry y') \<le> 0) \<and>
          cache_table c' = spec_elapse v k (cache_table c)) \<or>
       (cache_table c' = cache_table c \<and> (\<exists>t a l o1. te_view (c_time_event_queue c) t = Some (a, l, Some (Other o1)) \<and>
          avahi_timeval_compare (env_now v) a \<ge> 0))
     else cache_table c' = cache_table c" by blast
  show ?thesis
  proof (cases ?due)
    case True
    with c'(2) have "(\<exists>k y. cache_map c k = Some y \<and> avahi_timeval_compare (env_now v) (ce_expiry y) \<ge> 0 \<and>
          (\<forall>k' y'. cache_map c k' = Some y' \<longrightarrow> avahi_timeval_compare (ce_expiry y) (ce_expiry y') \<le> 0) \<and>
          cache_table c' = spec_elapse v k (cache_table c)) \<or>
       (cache_table c' = cache_table c \<and> (\<exists>t a l o1. te_view (c_time_event_queue c) t = Some (a, l, Some (Other o1)) \<and>
          avahi_timeval_compare (env_now v) a \<ge> 0))" by (simp only: if_True)
    then show ?thesis
    proof
      assume "\<exists>k y. cache_map c k = Some y \<and> avahi_timeval_compare (env_now v) (ce_expiry y) \<ge> 0 \<and>
          (\<forall>k' y'. cache_map c k' = Some y' \<longrightarrow> avahi_timeval_compare (ce_expiry y) (ce_expiry y') \<le> 0) \<and>
          cache_table c' = spec_elapse v k (cache_table c)"
      with c'(1) show ?thesis by (intro exI [of _ c']) blast
    next
      assume "cache_table c' = cache_table c \<and> (\<exists>t a l o1. te_view (c_time_event_queue c) t = Some (a, l, Some (Other o1)) \<and>
          avahi_timeval_compare (env_now v) a \<ge> 0)"
      with c'(1) show ?thesis by (intro exI [of _ c']) blast
    qed
  next
    case False
    with c'(2) have "cache_table c' = cache_table c" by (simp only: if_False)
    with c'(1) False show ?thesis by blast
  qed
qed

theorem expiration_takes_the_earliest_witness:
  "\<exists>c c'. cache_run (\<lambda>_. True) (new_cache 5 3) [Op_update (at_time 100) (sample_srv 1) False some_address] = Some c \<and>
    cache_map c (rr_canon (sample_srv 1)) \<noteq> None \<and>
    cache_expiration quiet_other (\<lambda>_. True) (at_time 300) c = Some c' \<and>
    cache_table c' = spec_elapse (at_time 300) (rr_canon (sample_srv 1)) (cache_table c)"
proof -
  let ?u = "Op_update (at_time 100) (sample_srv 1) False some_address" and ?k = "rr_canon (sample_srv 1)"
  have al: "list_all cache_allowed [?u]" "list_all client_op [?u]" by (simp_all add: sample_srv_readable sample_srv_key)
  from first_update_timer [of "\<lambda>_. True"] obtain c t a l where
    c: "cache_run (\<lambda>_. True) (new_cache 5 3) [?u] = Some c" "te_view (c_time_event_queue c) = [t \<mapsto> (a, l, Some (Elapse_func 0))]" by auto
  let ?y = "refreshed (at_time 100) (3, 0) (sample_srv 1) False some_address (new_entry (sample_srv 1))"
  from cache_run_ok [OF new_cache_ok(1) al(1), of "\<lambda>_. True" 5 3] c(1) have "cache_table c = foldl (cache_spec 5) (\<lambda>_. None, 3, 0) [?u]"
    by (simp add: new_cache_ok)
  then have "cache_map c = [?k \<mapsto> ?y]" by (simp add: cache_table_def spec_update_first sample_srv_key)
  then have m: "cache_map c ?k = Some ?y" and only: "cache_map c k \<noteq> None \<Longrightarrow> k = ?k" for k by (auto split: if_splits)
  have s: "sane (at_time 100)" "jitter_ok (3, 0)" by (simp_all add: sane_def jitter_ok_def at_time_def RAND_MAX_def)
  have n: "tv_normal (env_now (at_time 100))" "tv_normal (env_now (at_time 300))" by (simp_all add: at_time_def tv_normal_def)
  have "tv_normal (ce_expiry ?y)" using tv_normal_add_nonneg [OF n(1)] by (simp add: refreshed_def fresh_until_def)
  moreover have "tv_value (ce_expiry ?y) \<le> tv_value (env_now (at_time 300))"
    using fresh_until_bounds(2) [OF s, of 80 "env_now (at_time 100)" "sample_srv 1"]
    by (simp add: refreshed_def sample_srv_key at_time_def tv_value_def)
  ultimately have due: "avahi_timeval_compare (env_now (at_time 300)) (ce_expiry ?y) \<ge> 0"
    using timeval_compare_value [OF n(2)] by (simp add: sgn_if)
  have r: "cache_reachable quiet_other 5 c" by (rule client_run_reachable [OF new_cache_reachable al c(1)])
  have "\<exists>k y. cache_map c k = Some y \<and> avahi_timeval_compare (env_now (at_time 300)) (ce_expiry y) \<ge> 0" using m due by blast
  moreover have "\<not> (\<exists>t a l o1. te_view (c_time_event_queue c) t = Some (a, l, Some (Other o1)) \<and> avahi_timeval_compare (env_now (at_time 300)) a \<ge> 0)"
    unfolding c(2) by (auto split: if_splits)
  ultimately obtain c' k where "cache_expiration quiet_other (\<lambda>_. True) (at_time 300) c = Some c'" "cache_map c k \<noteq> None"
    "cache_table c' = spec_elapse (at_time 300) k (cache_table c)"
    using expiration_takes_the_earliest [OF quiet_other_client r, of "\<lambda>_. True" "at_time 300"] by blast
  with only [of k] c(1) m show ?thesis by auto
qed

subsection \<open>Passive observation of failure\<close>

fun spaced :: "env list \<Rightarrow> bool" where
  "spaced (v # w # vs) = (tv_value (env_now w) - tv_value (env_now v) \<ge> 1000000 \<and> spaced (w # vs))"
| "spaced vs = True"

lemma spec_start_poof_run:
  assumes "\<not> avahi_key_is_pattern (rr_key r)"
  shows "M (rr_canon r) = Some y \<Longrightarrow> key_canon (rr_key (ce_record y)) = key_canon (rr_key r) \<Longrightarrow>
    \<exists>M' j'. foldl (cache_spec n) (M, j) (map (\<lambda>v. Op_start_poof v (rr_key r) a) vs) = (M', j') \<and>
      M' (rr_canon r) = Some (foldl (\<lambda>y v. poof_step v a y) y vs)"
proof (induction vs arbitrary: M y)
  case (Cons v vs)
  let ?M = "fst (spec_start_poof v (rr_key r) a (M, j))"
  have "?M (rr_canon r) = Some (poof_step v a y)" using Cons.prems assms by (simp add: spec_start_poof_def key_asks_def)
  moreover have "ce_record (poof_step v a y) = ce_record y" by (simp add: poof_step_def Let_def)
  ultimately have "\<exists>M' j'. foldl (cache_spec n) (?M, j) (map (\<lambda>v. Op_start_poof v (rr_key r) a) vs) = (M', j') \<and>
      M' (rr_canon r) = Some (foldl (\<lambda>y v. poof_step v a y) (poof_step v a y) vs)" using Cons.prems by (intro Cons.IH) simp_all
  then show ?case by (simp add: spec_start_poof_def)
qed simp

text \<open>What a series of queries without an answer, each a second or more after the one before, makes of an entry.\<close>

lemma poof_final:
  "ce_state y = AVAHI_CACHE_POOF_FINAL \<Longrightarrow> foldl (\<lambda>y v. poof_step v a y) y vs = y"
  by (induction vs) (simp_all add: poof_step_def)

lemma poof_counts:
  fixes a :: address
  assumes "spaced (w # vs)" "ce_state y = AVAHI_CACHE_POOF" "ce_poof_timestamp y = env_now w"
    "ce_poof_num y = int n" "n \<le> 3"
  defines "z \<equiv> foldl (\<lambda>y v. poof_step v a y) y vs"
  shows "if n + length vs \<le> 3
    then ce_state z = AVAHI_CACHE_POOF \<and> ce_poof_num z = int (n + length vs) \<and> ce_expiry z = ce_expiry y
    else ce_state z = AVAHI_CACHE_POOF_FINAL \<and> ce_poof_num z = 4 \<and>
      ce_expiry z = avahi_timeval_add (env_now (vs ! (3 - n))) 1000000"
  using assms(1-5) unfolding z_def
proof (induction vs arbitrary: w y n)
  case (Cons v vs)
  then have d: "avahi_timeval_diff (env_now v) (ce_poof_timestamp y) \<ge> 1000000" by (simp add: timeval_diff_value)
  show ?case
  proof (cases "n \<le> 2")
    case True
    have "ce_state (poof_step v a y) = AVAHI_CACHE_POOF" "ce_poof_timestamp (poof_step v a y) = env_now v"
      "ce_poof_num (poof_step v a y) = int (Suc n)" "ce_expiry (poof_step v a y) = ce_expiry y"
      using Cons.prems d True by (simp_all add: poof_step_def Let_def)
    moreover have "3 - n = Suc (3 - Suc n)" using True by simp
    ultimately show ?thesis using Cons.prems True Cons.IH [of v "poof_step v a y" "Suc n"] by simp
  next
    case False
    with Cons.prems have n: "n = 3" by simp
    with Cons.prems d have "ce_state (poof_step v a y) = AVAHI_CACHE_POOF_FINAL" "ce_poof_num (poof_step v a y) = 4"
      "ce_expiry (poof_step v a y) = avahi_timeval_add (env_now v) 1000000" by (simp_all add: poof_step_def Let_def)
    with poof_final [of "poof_step v a y" a vs] n show ?thesis by simp
  qed
qed simp

lemma poof_counts_valid:
  fixes a :: address
  assumes "spaced vs" "vs \<noteq> []" "ce_state y = AVAHI_CACHE_VALID"
  defines "z \<equiv> foldl (\<lambda>y v. poof_step v a y) y vs"
  shows "if length vs \<le> 4
    then ce_state z = AVAHI_CACHE_POOF \<and> ce_poof_num z = int (length vs) - 1 \<and> ce_expiry z = ce_expiry y
    else ce_state z = AVAHI_CACHE_POOF_FINAL \<and> ce_poof_num z = 4 \<and>
      ce_expiry z = avahi_timeval_add (env_now (vs ! 4)) 1000000"
proof -
  obtain v ws where vs: "vs = v # ws" using assms(2) by (cases vs) auto
  have "ce_state (poof_step v a y) = AVAHI_CACHE_POOF" "ce_poof_timestamp (poof_step v a y) = env_now v"
    "ce_poof_num (poof_step v a y) = int 0" "ce_expiry (poof_step v a y) = ce_expiry y"
    using assms(3) by (simp_all add: poof_step_def)
  with poof_counts [of v ws "poof_step v a y" 0 a] assms(1) show ?thesis
    unfolding z_def vs by (simp add: nth_Cons split: if_splits)
qed

text \<open>The time event of an entry stands at its time of expiry.\<close>

lemma entry_timer:
  assumes "cache_ok {} c" "cache_map c k = Some y"
  shows "\<exists>e t l. entry_of c k = Some e \<and> te_view (c_time_event_queue c) t = Some (ce_expiry y, l, Some (Elapse_func e))"
proof -
  from entry_of_map [OF assms(1), of k] assms(2) obtain e x where
    e: "entry_of c k = Some e" "c_heap c e = Some x" "y = ce_view x" by (auto split: option.splits)
  note T = timers_okD [OF conjunct2 [OF assms(1) [unfolded cache_ok_def]]]
  from T(3) [OF e(2)] obtain t where "ce_time_event x = Some t" by (cases "ce_time_event x") auto
  from T(2) [OF e(2) this] e show ?thesis by auto
qed

text \<open>
  C37: how many unanswered queries it takes to give up a record. When queries for the key of a valid record are
  seen without an answer, a second or more apart, the first starts the observation and the next three are counted,
  and the record keeps the time of expiry it had. The fifth puts its time of expiry, and its timer with it,
  at exactly one second from that query, where further queries leave it; when the timer elapses, the record is
  removed.
\<close>

theorem poof_takes_five_queries:
  assumes "other_client other" "cache_reachable other n_max c"
    and "cache_map c (rr_canon r) = Some y" "ce_state y = AVAHI_CACHE_VALID"
    and "key_readable (rr_key r)" "\<not> avahi_key_is_pattern (rr_key r)"
    and "spaced vs" "vs \<noteq> []"
  shows "\<exists>c' y'. cache_run refresh c (map (\<lambda>v. Op_start_poof v (rr_key r) a) vs) = Some c' \<and>
    cache_map c' (rr_canon r) = Some y' \<and>
    (if length vs \<le> 4
     then ce_state y' = AVAHI_CACHE_POOF \<and> ce_poof_num y' = int (length vs) - 1 \<and> ce_expiry y' = ce_expiry y
     else ce_state y' = AVAHI_CACHE_POOF_FINAL \<and>
       ce_expiry y' = avahi_timeval_add (env_now (vs ! 4)) 1000000 \<and>
       (\<forall>w. \<exists>c''. cache_exec refresh c' (Op_elapse w (rr_canon r)) = Some c'' \<and> cache_map c'' (rr_canon r) = None)) \<and>
    (\<exists>e t l. entry_of c' (rr_canon r) = Some e \<and>
       te_view (c_time_event_queue c') t = Some (ce_expiry y', l, Some (Elapse_func e)))"
proof -
  have ok: "cache_ok {} c" using cache_reachable_ok [OF assms(1,2)] by simp
  let ?as = "map (\<lambda>v. Op_start_poof v (rr_key r) a) vs"
  let ?y = "foldl (\<lambda>y v. poof_step v a y) y vs"
  have "list_all cache_allowed ?as" using assms(5) by (simp add: list_all_iff)
  from cache_run_ok [OF ok this, of refresh] obtain c' where c': "cache_run refresh c ?as = Some c'" "cache_ok {} c'"
    "cache_table c' = foldl (cache_spec (c_n_cache_entries_max c)) (cache_map c, jitter c) ?as" by (auto simp: cache_table_def)
  from assms(3) have "ce_canon y = rr_canon r" using cache_map_iff [OF ok] by blast
  then have key: "key_canon (rr_key (ce_record y)) = key_canon (rr_key r)" by (rule record_same_key)
  from spec_start_poof_run [where M = "cache_map c" and y = y and r = r and vs = vs and a = a and j = "jitter c" and
      n = "c_n_cache_entries_max c", OF assms(6,3) key]
  have m: "cache_map c' (rr_canon r) = Some ?y"
    using c'(3) by (auto simp: cache_table_def)
  have gone: "\<exists>c''. cache_exec refresh c' (Op_elapse w (rr_canon r)) = Some c'' \<and> cache_map c'' (rr_canon r) = None"
    if "ce_state ?y = AVAHI_CACHE_POOF_FINAL" for w
  proof -
    from cache_exec_ok [OF c'(2), of "Op_elapse w (rr_canon r)" refresh] m that show ?thesis
      by (auto simp: cache_table_def spec_elapse_def elapse_switch_def)
  qed
  from poof_counts_valid [OF assms(7,8,4), of a] gone entry_timer [OF c'(2) m] m c'(1) show ?thesis
    by (intro exI [of _ c'] exI [of _ ?y]) (auto split: if_splits)
qed

theorem poof_takes_five_queries_witness:
  "\<exists>c c' y'. cache_run (\<lambda>_. True) (new_cache 5 3) [Op_update (at_time 100) (sample_srv 1) True some_address] = Some c \<and>
    cache_run (\<lambda>_. True) c (map (\<lambda>v. Op_start_poof v (rr_key (sample_srv 1)) some_address) (map at_time [101, 102, 103, 104, 105, 106])) = Some c' \<and>
    cache_map c' (rr_canon (sample_srv 1)) = Some y' \<and> ce_state y' = AVAHI_CACHE_POOF_FINAL \<and>
    ce_expiry y' = avahi_timeval_add (env_now (at_time 105)) 1000000"
proof -
  let ?u = "Op_update (at_time 100) (sample_srv 1) True some_address"
  have al: "list_all cache_allowed [?u]" "list_all client_op [?u]" by (simp_all add: sample_srv_readable sample_srv_key)
  from cache_run_ok [OF new_cache_ok(1) al(1), of "\<lambda>_. True" 5 3] obtain c where
    c: "cache_run (\<lambda>_. True) (new_cache 5 3) [?u] = Some c" "cache_table c = foldl (cache_spec 5) (\<lambda>_. None, 3, 0) [?u]"
    by (auto simp: new_cache_ok)
  have m: "cache_map c (rr_canon (sample_srv 1)) = Some (refreshed (at_time 100) (3, 0) (sample_srv 1) True some_address (new_entry (sample_srv 1)))"
    using c(2) by (simp add: cache_table_def spec_update_first sample_srv_key)
  have r: "cache_reachable quiet_other 5 c" by (rule client_run_reachable [OF new_cache_reachable al c(1)])
  have k: "key_readable (rr_key (sample_srv 1))" using sample_srv_readable rr_readable_key by blast
  have s: "spaced (map at_time [101, 102, 103, 104, 105, 106])" by (simp add: at_time_def tv_value_def)
  from poof_takes_five_queries [OF quiet_other_client r m _ k sample_srv_key(1) s, of "\<lambda>_. True" some_address] c(1)
  show ?thesis by (auto simp: refreshed_def simp del: cache_run.simps)
qed

end
