(* ===== verification/Zone.thy ===== *)
theory Zone
  imports Loops Timers Rrlist Keychain Domainutil
begin

text \<open>
  What a server publishes: entries with a record each (\<open>AvahiEntry\<close>), groups of entries that are registered
  together (\<open>AvahiSEntryGroup\<close>), and for every entry and interface an announcer (\<open>AvahiAnnouncer\<close>) that
  probes for the record and announces it. This theory holds their data and what they need of the
  interfaces (avahi-core/iface.c); announce.c is in theory \<open>Announce\<close>, entry.c in theory \<open>Entry\<close>.

  Entries, groups, announcers and interfaces are numbers with their fields in the heaps \<open>z_entry\<close>,
  \<open>z_group\<close>, \<open>z_announcer\<close> and \<open>z_iface\<close>; reading a freed one is a crash. A linked list is the list of its
  members, as theory \<open>Llist\<close> justifies: \<open>AVAHI_LLIST_PREPEND\<close> is \<open>#\<close>, \<open>AVAHI_LLIST_REMOVE\<close> asks for a member. The
  hash map \<open>z_entries_by_key\<close> leads from a key to the first of its entries; here its value is the list that
  hangs off it. \<open>z_by_hardware\<close> is the hash map of the monitor, from an index to the list of the interfaces on
  that hardware.

  What the zone makes other components do is the log \<open>z_log\<close>: posting probes and responses on an interface
  (\<open>avahi_probe_scheduler_post\<close>, \<open>avahi_response_scheduler_post\<close>), telling the owner of a group about its state, and
  cleaning up the browsers. The callback of a group can call back into the zone: it is an argument \<open>cb\<close>
  of the operations, which gets the group, its new state and the zone, and does nothing if the group
  has no callback.
\<close>

subsection \<open>Flags and states\<close>

definition AVAHI_PUBLISH_UNIQUE :: u32 where "AVAHI_PUBLISH_UNIQUE = 1"
definition AVAHI_PUBLISH_NO_PROBE :: u32 where "AVAHI_PUBLISH_NO_PROBE = 2"
definition AVAHI_PUBLISH_NO_ANNOUNCE :: u32 where "AVAHI_PUBLISH_NO_ANNOUNCE = 4"
definition AVAHI_PUBLISH_ALLOW_MULTIPLE :: u32 where "AVAHI_PUBLISH_ALLOW_MULTIPLE = 8"
definition AVAHI_PUBLISH_NO_REVERSE :: u32 where "AVAHI_PUBLISH_NO_REVERSE = 16"
definition AVAHI_PUBLISH_NO_COOKIE :: u32 where "AVAHI_PUBLISH_NO_COOKIE = 32"
definition AVAHI_PUBLISH_UPDATE :: u32 where "AVAHI_PUBLISH_UPDATE = 64"
definition AVAHI_PUBLISH_USE_WIDE_AREA :: u32 where "AVAHI_PUBLISH_USE_WIDE_AREA = 128"
definition AVAHI_PUBLISH_USE_MULTICAST :: u32 where "AVAHI_PUBLISH_USE_MULTICAST = 256"

lemmas publish_defs = AVAHI_PUBLISH_UNIQUE_def AVAHI_PUBLISH_NO_PROBE_def AVAHI_PUBLISH_NO_ANNOUNCE_def
  AVAHI_PUBLISH_ALLOW_MULTIPLE_def AVAHI_PUBLISH_NO_REVERSE_def AVAHI_PUBLISH_NO_COOKIE_def
  AVAHI_PUBLISH_UPDATE_def AVAHI_PUBLISH_USE_WIDE_AREA_def AVAHI_PUBLISH_USE_MULTICAST_def

text \<open>\<open>flags & f\<close> as a condition, and \<open>AVAHI_FLAGS_VALID\<close>.\<close>

definition has_flag :: "u32 \<Rightarrow> u32 \<Rightarrow> bool" where
  "has_flag flags f \<longleftrightarrow> flags AND f \<noteq> 0"

definition flags_valid :: "u32 \<Rightarrow> u32 \<Rightarrow> bool" where
  "flags_valid flags known \<longleftrightarrow> flags AND NOT known = 0"

definition AVAHI_IF_UNSPEC :: int where "AVAHI_IF_UNSPEC = - 1"

definition if_valid :: "int \<Rightarrow> bool" where
  "if_valid i \<longleftrightarrow> i \<ge> 0 \<or> i = AVAHI_IF_UNSPEC"

definition proto_valid :: "protocol \<Rightarrow> bool" where
  "proto_valid p \<longleftrightarrow> p = AVAHI_PROTO_INET \<or> p = AVAHI_PROTO_INET6 \<or> p = AVAHI_PROTO_UNSPEC"

datatype announcer_state =
    AVAHI_PROBING
  | AVAHI_WAITING
  | AVAHI_ANNOUNCING
  | AVAHI_ESTABLISHED

datatype group_state =
    AVAHI_ENTRY_GROUP_UNCOMMITED
  | AVAHI_ENTRY_GROUP_REGISTERING
  | AVAHI_ENTRY_GROUP_ESTABLISHED
  | AVAHI_ENTRY_GROUP_COLLISION
  | AVAHI_ENTRY_GROUP_FAILURE

datatype server_state =
    AVAHI_SERVER_INVALID
  | AVAHI_SERVER_REGISTERING
  | AVAHI_SERVER_RUNNING
  | AVAHI_SERVER_COLLISION
  | AVAHI_SERVER_FAILURE

subsection \<open>The objects\<close>

record announcer =
  a_interface :: nat
  a_entry :: nat
  a_time_event :: "nat option"
  a_state :: announcer_state
  a_n_iteration :: nat
  a_sec_delay :: nat

record avahi_entry =
  e_group :: "nat option"
  e_dead :: bool
  e_flags :: u32
  e_record :: rr
  e_interface :: int
  e_protocol :: protocol
  e_announcers :: "nat list"

record entry_group =
  g_dead :: bool
  g_state :: group_state
  g_n_probing :: int
  g_n_register_try :: nat
  g_register_time :: timeval
  g_register_time_event :: "nat option"
  g_established_at :: timeval
  g_entries :: "nat list"

record iface =
  i_index :: int
  i_protocol :: protocol
  i_announcing :: bool
  i_announcers :: "nat list"

datatype 'o zone_timer = Elapse_announce nat | Register_time nat | Cleanup | Other_timer 'o

datatype zone_event =
    Post_probe nat rr bool
  | Post_response nat rr bool "address option" bool
  | Group_changed nat group_state
  | Browser_cleanup

record 'o zone =
  z_entry :: "nat \<Rightarrow> avahi_entry option"
  z_group :: "nat \<Rightarrow> entry_group option"
  z_announcer :: "nat \<Rightarrow> announcer option"
  z_iface :: "nat \<Rightarrow> iface option"
  z_next :: nat
  z_entries :: "nat list"
  z_groups :: "nat list"
  z_interfaces :: "nat list"
  z_by_hardware :: "int \<Rightarrow> nat list option"
  z_entries_by_key :: "(rrkey, nat list) hashmap"
  z_record_list :: record_list
  z_need_entry_cleanup :: bool
  z_need_group_cleanup :: bool
  z_need_browser_cleanup :: bool
  z_cleanup_time_event :: "nat option"
  z_time_event_queue :: "'o zone_timer teq"
  z_jitter :: jitter_state
  z_log :: "zone_event list"
  z_error :: int
  z_state :: server_state
  z_host_name_fqdn :: cstr
  z_domain_name :: cstr
  z_has_wide_area_servers :: bool
  z_disable_publishing :: bool
  z_add_service_cookie :: bool
  z_local_service_cookie :: u32

type_synonym 'o group_callback = "nat \<Rightarrow> group_state \<Rightarrow> 'o zone \<Rightarrow> 'o zone outcome"

subsection \<open>Changing an object\<close>

definition mod_announcer :: "nat \<Rightarrow> (announcer \<Rightarrow> announcer) \<Rightarrow> 'o zone \<Rightarrow> 'o zone outcome" where
  "mod_announcer a f z = do { x \<leftarrow> z_announcer z a; Some (z\<lparr>z_announcer := (z_announcer z)(a \<mapsto> f x)\<rparr>) }"

definition mod_entry :: "nat \<Rightarrow> (avahi_entry \<Rightarrow> avahi_entry) \<Rightarrow> 'o zone \<Rightarrow> 'o zone outcome" where
  "mod_entry e f z = do { x \<leftarrow> z_entry z e; Some (z\<lparr>z_entry := (z_entry z)(e \<mapsto> f x)\<rparr>) }"

definition mod_group :: "nat \<Rightarrow> (entry_group \<Rightarrow> entry_group) \<Rightarrow> 'o zone \<Rightarrow> 'o zone outcome" where
  "mod_group g f z = do { x \<leftarrow> z_group z g; Some (z\<lparr>z_group := (z_group z)(g \<mapsto> f x)\<rparr>) }"

definition mod_iface :: "nat \<Rightarrow> (iface \<Rightarrow> iface) \<Rightarrow> 'o zone \<Rightarrow> 'o zone outcome" where
  "mod_iface i f z = do { x \<leftarrow> z_iface z i; Some (z\<lparr>z_iface := (z_iface z)(i \<mapsto> f x)\<rparr>) }"

definition log_event :: "zone_event \<Rightarrow> 'o zone \<Rightarrow> 'o zone" where
  "log_event ev z = z\<lparr>z_log := z_log z @ [ev]\<rparr>"

subsection \<open>Interfaces\<close>

definition avahi_interface_match :: "iface \<Rightarrow> int \<Rightarrow> protocol \<Rightarrow> bool" where
  "avahi_interface_match i idx protocol =
     (if idx \<noteq> AVAHI_IF_UNSPEC \<and> idx \<noteq> i_index i then False
      else if protocol \<noteq> AVAHI_PROTO_UNSPEC \<and> protocol \<noteq> i_protocol i then False
      else True)"

definition avahi_interface_monitor_get_hw_interface :: "'o zone \<Rightarrow> int \<Rightarrow> nat list option outcome" where
  "avahi_interface_monitor_get_hw_interface z idx = do { assert_that (idx \<ge> 0); Some (z_by_hardware z idx) }"

definition avahi_interface_monitor_get_interface :: "'o zone \<Rightarrow> int \<Rightarrow> protocol \<Rightarrow> nat option outcome" where
  "avahi_interface_monitor_get_interface z idx protocol = do {
     assert_that (idx \<ge> 0);
     assert_that (protocol \<noteq> AVAHI_PROTO_UNSPEC);
     hw \<leftarrow> avahi_interface_monitor_get_hw_interface z idx;
     (case hw of
        None \<Rightarrow> Some None
      | Some is \<Rightarrow> find_first (\<lambda>i. do { x \<leftarrow> z_iface z i; Some (i_protocol x = protocol) }) is)
   }"

definition avahi_interface_monitor_walk ::
  "int \<Rightarrow> protocol \<Rightarrow> (nat \<Rightarrow> 'o zone \<Rightarrow> 'o zone outcome) \<Rightarrow> 'o zone \<Rightarrow> 'o zone outcome" where
  "avahi_interface_monitor_walk interface protocol callback z =
     (let matching = (\<lambda>i z. do {
            x \<leftarrow> z_iface z i;
            if avahi_interface_match x interface protocol then callback i z else Some z
          })
      in
      if interface \<noteq> AVAHI_IF_UNSPEC then
        if protocol \<noteq> AVAHI_PROTO_UNSPEC then do {
          i \<leftarrow> avahi_interface_monitor_get_interface z interface protocol;
          (case i of Some i \<Rightarrow> callback i z | None \<Rightarrow> Some z)
        } else do {
          hw \<leftarrow> avahi_interface_monitor_get_hw_interface z interface;
          (case hw of Some is \<Rightarrow> for_each matching is z | None \<Rightarrow> Some z)
        }
      else for_each matching (z_interfaces z) z)"

definition avahi_interface_post_probe :: "nat \<Rightarrow> rr \<Rightarrow> bool \<Rightarrow> 'o zone \<Rightarrow> 'o zone outcome" where
  "avahi_interface_post_probe i record immediately z = do {
     x \<leftarrow> z_iface z i;
     if \<not> i_announcing x then Some z
     else Some (log_event (Post_probe i record immediately) z)
   }"

definition avahi_interface_post_response ::
  "nat \<Rightarrow> rr \<Rightarrow> bool \<Rightarrow> address option \<Rightarrow> bool \<Rightarrow> 'o zone \<Rightarrow> 'o zone outcome" where
  "avahi_interface_post_response i record flush_cache querier immediately z = do {
     x \<leftarrow> z_iface z i;
     if \<not> i_announcing x then Some z
     else Some (log_event (Post_response i record flush_cache querier immediately) z)
   }"

end
