(* ===== verification/Announce.thy ===== *)
theory Announce
  imports Zone
begin

text \<open>
  Probing and announcing (avahi-core/announce.c), with the part of avahi-core/server.c that puts together
  the records an announcement carries. The functions \<open>next_state\<close> and \<open>avahi_s_entry_group_check_probed\<close> of the
  code call each other; as the state is known at each of these calls, \<open>next_state\<close> here calls the branch
  that the code would take: \<open>announce_step\<close> is the branch of \<open>AVAHI_ANNOUNCING\<close>.
\<close>

definition AVAHI_ANNOUNCEMENT_JITTER_MSEC :: nat where "AVAHI_ANNOUNCEMENT_JITTER_MSEC = 250"
definition AVAHI_PROBE_JITTER_MSEC :: nat where "AVAHI_PROBE_JITTER_MSEC = 250"
definition AVAHI_PROBE_INTERVAL_MSEC :: nat where "AVAHI_PROBE_INTERVAL_MSEC = 250"

subsection \<open>Announcers and their timers\<close>

definition remove_announcer :: "nat \<Rightarrow> 'o zone \<Rightarrow> 'o zone outcome" where
  "remove_announcer a z = do {
     x \<leftarrow> z_announcer z a;
     q \<leftarrow> (case a_time_event x of
         Some t \<Rightarrow> avahi_time_event_free (z_time_event_queue z) t
       | None \<Rightarrow> Some (z_time_event_queue z));
     let z = z\<lparr>z_time_event_queue := q\<rparr>;
     i \<leftarrow> z_iface z (a_interface x);
     assert_that (a \<in> set (i_announcers i));
     z \<leftarrow> mod_iface (a_interface x) (\<lambda>i. i\<lparr>i_announcers := remove1 a (i_announcers i)\<rparr>) z;
     e \<leftarrow> z_entry z (a_entry x);
     assert_that (a \<in> set (e_announcers e));
     z \<leftarrow> mod_entry (a_entry x) (\<lambda>e. e\<lparr>e_announcers := remove1 a (e_announcers e)\<rparr>) z;
     Some (z\<lparr>z_announcer := (z_announcer z)(a := None)\<rparr>)
   }"

definition set_timeout :: "nat \<Rightarrow> timeval option \<Rightarrow> 'o zone \<Rightarrow> 'o zone outcome" where
  "set_timeout a tv z = do {
     x \<leftarrow> z_announcer z a;
     (t, q) \<leftarrow> set_timer (Elapse_announce a) (a_time_event x) tv (z_time_event_queue z);
     mod_announcer a (\<lambda>x. x\<lparr>a_time_event := t\<rparr>) (z\<lparr>z_time_event_queue := q\<rparr>)
   }"

definition set_timeout_elapse :: "env \<Rightarrow> nat \<Rightarrow> nat \<Rightarrow> nat \<Rightarrow> 'o zone \<Rightarrow> 'o zone outcome" where
  "set_timeout_elapse v a msec jitter z =
     (let (tv, j) = elapse v msec jitter (z_jitter z) in set_timeout a (Some tv) (z\<lparr>z_jitter := j\<rparr>))"

definition get_announcer :: "'o zone \<Rightarrow> nat \<Rightarrow> nat \<Rightarrow> nat option outcome" where
  "get_announcer z e i = do {
     y \<leftarrow> z_entry z e;
     find_first (\<lambda>a. do { x \<leftarrow> z_announcer z a; Some (a_interface x = i) }) (e_announcers y)
   }"

definition avahi_entry_is_registered :: "'o zone \<Rightarrow> nat \<Rightarrow> nat \<Rightarrow> bool outcome" where
  "avahi_entry_is_registered z e i = do {
     y \<leftarrow> z_entry z e;
     assert_that (\<not> e_dead y);
     a \<leftarrow> get_announcer z e i;
     (case a of
        None \<Rightarrow> Some False
      | Some a \<Rightarrow> do {
          x \<leftarrow> z_announcer z a;
          Some (a_state x = AVAHI_ANNOUNCING \<or> a_state x = AVAHI_ESTABLISHED \<or>
            (a_state x = AVAHI_WAITING \<and> \<not> has_flag (e_flags y) AVAHI_PUBLISH_UNIQUE))
        })
   }"

definition avahi_entry_is_probing :: "'o zone \<Rightarrow> nat \<Rightarrow> nat \<Rightarrow> bool outcome" where
  "avahi_entry_is_probing z e i = do {
     y \<leftarrow> z_entry z e;
     assert_that (\<not> e_dead y);
     a \<leftarrow> get_announcer z e i;
     (case a of
        None \<Rightarrow> Some False
      | Some a \<Rightarrow> do {
          x \<leftarrow> z_announcer z a;
          Some (a_state x = AVAHI_PROBING \<or>
            (a_state x = AVAHI_WAITING \<and> has_flag (e_flags y) AVAHI_PUBLISH_UNIQUE))
        })
   }"

definition avahi_entry_is_commited :: "'o zone \<Rightarrow> nat \<Rightarrow> bool outcome" where
  "avahi_entry_is_commited z e = do {
     y \<leftarrow> z_entry z e;
     assert_that (\<not> e_dead y);
     (case e_group y of
        None \<Rightarrow> Some True
      | Some g \<Rightarrow> do {
          x \<leftarrow> z_group z g;
          Some (g_state x = AVAHI_ENTRY_GROUP_REGISTERING \<or> g_state x = AVAHI_ENTRY_GROUP_ESTABLISHED)
        })
   }"

subsection \<open>The records of a response (server.c)\<close>

definition entries_with_key :: "'o zone \<Rightarrow> rrkey \<Rightarrow> nat list outcome" where
  "entries_with_key z k = do {
     es \<leftarrow> avahi_hashmap_lookup (z_entries_by_key z) k;
     Some (case es of None \<Rightarrow> [] | Some es \<Rightarrow> es)
   }"

definition avahi_server_prepare_response :: "nat \<Rightarrow> bool \<Rightarrow> bool \<Rightarrow> 'o zone \<Rightarrow> 'o zone outcome" where
  "avahi_server_prepare_response e unicast_response auxiliary z = do {
     y \<leftarrow> z_entry z e;
     l \<leftarrow> avahi_record_list_push (z_record_list z) (e_record y) (has_flag (e_flags y) AVAHI_PUBLISH_UNIQUE)
       unicast_response auxiliary;
     Some (z\<lparr>z_record_list := l\<rparr>)
   }"

text \<open>The bodies of the two loops, and the search without and with the CNAME records.\<close>

definition prepare_if_registered :: "nat \<Rightarrow> bool \<Rightarrow> nat \<Rightarrow> 'o zone \<Rightarrow> 'o zone outcome" where
  "prepare_if_registered i unicast_response e z = do {
     y \<leftarrow> z_entry z e;
     if e_dead y then Some z
     else do {
       r \<leftarrow> avahi_entry_is_registered z e i;
       if r then avahi_server_prepare_response e unicast_response False z else Some z
     }
   }"

definition prepare_if_match :: "nat \<Rightarrow> rrkey \<Rightarrow> bool \<Rightarrow> nat \<Rightarrow> 'o zone \<Rightarrow> 'o zone outcome" where
  "prepare_if_match i k unicast_response e z = do {
     y \<leftarrow> z_entry z e;
     if e_dead y then Some z
     else do {
       m \<leftarrow> avahi_key_pattern_match k (rr_key (e_record y));
       if m then prepare_if_registered i unicast_response e z else Some z
     }
   }"

definition prepare_by_key :: "nat \<Rightarrow> rrkey \<Rightarrow> bool \<Rightarrow> 'o zone \<Rightarrow> 'o zone outcome" where
  "prepare_by_key i k unicast_response z =
     (if avahi_key_is_pattern k then for_each (prepare_if_match i k unicast_response) (z_entries z) z
      else do {
        es \<leftarrow> entries_with_key z k;
        for_each (prepare_if_registered i unicast_response) es z
      })"

definition wants_cname :: "rrkey \<Rightarrow> bool" where
  "wants_cname k \<longleftrightarrow> (key_clazz k = AVAHI_DNS_CLASS_IN \<or> key_clazz k = AVAHI_DNS_CLASS_ANY) \<and>
     key_type k \<noteq> AVAHI_DNS_TYPE_CNAME \<and> key_type k \<noteq> AVAHI_DNS_TYPE_ANY"

text \<open>The recursive call is made with a key of type CNAME, for which it makes no further call.\<close>

definition avahi_server_prepare_matching_responses :: "nat \<Rightarrow> rrkey \<Rightarrow> bool \<Rightarrow> 'o zone \<Rightarrow> 'o zone outcome" where
  "avahi_server_prepare_matching_responses i k unicast_response z = do {
     z \<leftarrow> prepare_by_key i k unicast_response z;
     if wants_cname k then do {
       cname \<leftarrow> avahi_key_new (key_name k) AVAHI_DNS_CLASS_IN AVAHI_DNS_TYPE_CNAME;
       (case cname of
          None \<Rightarrow> Some z
        | Some cname \<Rightarrow> prepare_by_key i cname unicast_response z)
     } else Some z
   }"

text \<open>
  \<open>avahi_server_generate_response (s, i, NULL, NULL, 0, 0, immediately)\<close>: no query is answered. A record that
  asks for a unicast response and could not be scheduled would end in \<open>assert (p)\<close>; here any record
  that asks for one does.
\<close>

partial_function (option) generate_loop :: "nat \<Rightarrow> bool \<Rightarrow> 'o zone \<Rightarrow> 'o zone option" where
  "generate_loop i immediately z =
     Option.bind (avahi_record_list_next (z_record_list z)) (\<lambda>(l, n). case n of
         None \<Rightarrow> Some (z\<lparr>z_record_list := l\<rparr>)
       | Some (r, flush_cache, unicast_response, auxiliary) \<Rightarrow>
           let im = (immediately \<or> (flush_cache \<and> \<not> auxiliary \<and> avahi_record_list_all_flush_cache l)) in
           Option.bind (assert_that (\<not> unicast_response)) (\<lambda>_.
           Option.bind (avahi_interface_post_response i r flush_cache None im (z\<lparr>z_record_list := l\<rparr>))
             (generate_loop i immediately)))"

definition generate_announcement :: "nat \<Rightarrow> bool \<Rightarrow> 'o zone \<Rightarrow> 'o zone outcome" where
  "generate_announcement i immediately z = do {
     z \<leftarrow> generate_loop i immediately z;
     l \<leftarrow> avahi_record_list_flush (z_record_list z);
     Some (z\<lparr>z_record_list := l\<rparr>)
   }"

subsection \<open>The state of a group\<close>

definition clear_register_timer :: "nat \<Rightarrow> 'o zone \<Rightarrow> 'o zone outcome" where
  "clear_register_timer g z = do {
     x \<leftarrow> z_group z g;
     (t, q) \<leftarrow> set_timer (Register_time g) (g_register_time_event x) None (z_time_event_queue z);
     mod_group g (\<lambda>x. x\<lparr>g_register_time_event := t\<rparr>) (z\<lparr>z_time_event_queue := q\<rparr>)
   }"

definition avahi_s_entry_group_change_state ::
  "'o group_callback \<Rightarrow> env \<Rightarrow> nat \<Rightarrow> group_state \<Rightarrow> 'o zone \<Rightarrow> 'o zone outcome" where
  "avahi_s_entry_group_change_state cb v g state z = do {
     x \<leftarrow> z_group z g;
     if g_state x = state then Some z
     else do {
       assert_that (state \<noteq> AVAHI_ENTRY_GROUP_FAILURE);
       z \<leftarrow> (if g_state x = AVAHI_ENTRY_GROUP_ESTABLISHED then
               if avahi_age (env_now v) (g_established_at x) > 5000000
               then mod_group g (\<lambda>x. x\<lparr>g_n_register_try := 0\<rparr>) z else Some z
             else if g_state x = AVAHI_ENTRY_GROUP_REGISTERING then clear_register_timer g z
             else Some z);
       z \<leftarrow> (if state = AVAHI_ENTRY_GROUP_ESTABLISHED
             then mod_group g (\<lambda>x. x\<lparr>g_established_at := env_now v\<rparr>) z else Some z);
       z \<leftarrow> mod_group g (\<lambda>x. x\<lparr>g_state := state\<rparr>) z;
       cb g state (log_event (Group_changed g state) z)
     }
   }"

subsection \<open>The steps of an announcer\<close>

definition announce_step :: "env \<Rightarrow> nat \<Rightarrow> 'o zone \<Rightarrow> 'o zone outcome" where
  "announce_step v a z = do {
     x \<leftarrow> z_announcer z a;
     y \<leftarrow> z_entry z (a_entry x);
     z \<leftarrow> (if has_flag (e_flags y) AVAHI_PUBLISH_UNIQUE
           then avahi_server_prepare_matching_responses (a_interface x) (rr_key (e_record y)) False z
           else avahi_server_prepare_response (a_entry x) False False z);
     z \<leftarrow> generate_announcement (a_interface x) False z;
     z \<leftarrow> mod_announcer a (\<lambda>x. x\<lparr>a_n_iteration := a_n_iteration x + 1\<rparr>) z;
     x \<leftarrow> z_announcer z a;
     if a_n_iteration x \<ge> 4 then do {
       z \<leftarrow> mod_announcer a (\<lambda>x. x\<lparr>a_state := AVAHI_ESTABLISHED\<rparr>) z;
       set_timeout a None z
     } else do {
       let (tv, j) = elapse v (a_sec_delay x * 1000) AVAHI_ANNOUNCEMENT_JITTER_MSEC (z_jitter z);
       let z = z\<lparr>z_jitter := j\<rparr>;
       z \<leftarrow> (if a_n_iteration x < 10 then mod_announcer a (\<lambda>x. x\<lparr>a_sec_delay := a_sec_delay x * 2\<rparr>) z else Some z);
       set_timeout a (Some tv) z
     }
   }"

definition announce_waiting :: "env \<Rightarrow> bool \<Rightarrow> nat \<Rightarrow> 'o zone \<Rightarrow> 'o zone outcome" where
  "announce_waiting v immediately a z = do {
     x \<leftarrow> z_announcer z a;
     if a_state x \<noteq> AVAHI_WAITING then Some z
     else do {
       z \<leftarrow> mod_announcer a (\<lambda>x. x\<lparr>a_state := AVAHI_ANNOUNCING\<rparr>) z;
       if immediately then do {
         z \<leftarrow> mod_announcer a (\<lambda>x. x\<lparr>a_n_iteration := 1\<rparr>) z;
         announce_step v a z
       } else do {
         z \<leftarrow> mod_announcer a (\<lambda>x. x\<lparr>a_n_iteration := 0\<rparr>) z;
         set_timeout_elapse v a 0 AVAHI_ANNOUNCEMENT_JITTER_MSEC z
       }
     }
   }"

definition avahi_s_entry_group_check_probed ::
  "'o group_callback \<Rightarrow> env \<Rightarrow> bool \<Rightarrow> nat \<Rightarrow> 'o zone \<Rightarrow> 'o zone outcome" where
  "avahi_s_entry_group_check_probed cb v immediately g z = do {
     x \<leftarrow> z_group z g;
     assert_that (\<not> g_dead x);
     if g_state x \<noteq> AVAHI_ENTRY_GROUP_REGISTERING \<or> g_n_probing x > 0 then Some z
     else do {
       z \<leftarrow> avahi_s_entry_group_change_state cb v g AVAHI_ENTRY_GROUP_ESTABLISHED z;
       x \<leftarrow> z_group z g;
       if g_dead x then Some z
       else for_each (\<lambda>e z. do {
           y \<leftarrow> z_entry z e;
           for_each (announce_waiting v immediately) (e_announcers y) z
         }) (g_entries x) z
     }
   }"

definition add_probing :: "nat option \<Rightarrow> int \<Rightarrow> 'o zone \<Rightarrow> 'o zone outcome" where
  "add_probing g d z =
     (case g of None \<Rightarrow> Some z | Some g \<Rightarrow> mod_group g (\<lambda>x. x\<lparr>g_n_probing := g_n_probing x + d\<rparr>) z)"

definition probing_done :: "'o group_callback \<Rightarrow> env \<Rightarrow> nat \<Rightarrow> 'o zone \<Rightarrow> 'o zone outcome" where
  "probing_done cb v a z = do {
     x \<leftarrow> z_announcer z a;
     y \<leftarrow> z_entry z (a_entry x);
     registering \<leftarrow> (case e_group y of
         None \<Rightarrow> Some False
       | Some g \<Rightarrow> do {
           w \<leftarrow> z_group z g;
           assert_that (g_n_probing w \<noteq> 0);
           Some (g_state w = AVAHI_ENTRY_GROUP_REGISTERING)
         });
     z \<leftarrow> add_probing (e_group y) (- 1) z;
     if registering then do {
       z \<leftarrow> mod_announcer a (\<lambda>x. x\<lparr>a_state := AVAHI_WAITING\<rparr>) z;
       z \<leftarrow> set_timeout a None z;
       g \<leftarrow> e_group y;
       avahi_s_entry_group_check_probed cb v True g z
     } else do {
       z \<leftarrow> mod_announcer a (\<lambda>x. x\<lparr>a_state := AVAHI_ANNOUNCING, a_n_iteration := 1\<rparr>) z;
       z \<leftarrow> set_timeout a None z;
       announce_step v a z
     }
   }"

definition probe_step :: "env \<Rightarrow> nat \<Rightarrow> 'o zone \<Rightarrow> 'o zone outcome" where
  "probe_step v a z = do {
     x \<leftarrow> z_announcer z a;
     y \<leftarrow> z_entry z (a_entry x);
     z \<leftarrow> avahi_interface_post_probe (a_interface x) (e_record y) False z;
     z \<leftarrow> set_timeout_elapse v a AVAHI_PROBE_INTERVAL_MSEC 0 z;
     mod_announcer a (\<lambda>x. x\<lparr>a_n_iteration := a_n_iteration x + 1\<rparr>) z
   }"

definition next_state :: "'o group_callback \<Rightarrow> env \<Rightarrow> nat \<Rightarrow> 'o zone \<Rightarrow> 'o zone outcome" where
  "next_state cb v a z = do {
     x \<leftarrow> z_announcer z a;
     y \<leftarrow> z_entry z (a_entry x);
     (case a_state x of
        AVAHI_WAITING \<Rightarrow> do { g \<leftarrow> e_group y; avahi_s_entry_group_check_probed cb v True g z }
      | AVAHI_PROBING \<Rightarrow> if a_n_iteration x \<ge> 4 then probing_done cb v a z else probe_step v a z
      | AVAHI_ANNOUNCING \<Rightarrow> announce_step v a z
      | AVAHI_ESTABLISHED \<Rightarrow> Some z)
   }"

definition elapse_announce :: "'o group_callback \<Rightarrow> env \<Rightarrow> nat \<Rightarrow> 'o zone \<Rightarrow> 'o zone outcome" where
  "elapse_announce cb v a z = next_state cb v a z"

subsection \<open>Starting, restarting and ending announcers\<close>

text \<open>The timer that suits the state; the end of \<open>go_to_initial_state\<close> and of \<open>reannounce\<close>.\<close>

definition restart_timer :: "env \<Rightarrow> nat \<Rightarrow> 'o zone \<Rightarrow> 'o zone outcome" where
  "restart_timer v a z = do {
     x \<leftarrow> z_announcer z a;
     if a_state x = AVAHI_PROBING then set_timeout_elapse v a 0 AVAHI_PROBE_JITTER_MSEC z
     else if a_state x = AVAHI_ANNOUNCING then set_timeout_elapse v a 0 AVAHI_ANNOUNCEMENT_JITTER_MSEC z
     else set_timeout a None z
   }"

definition initial_state :: "'o zone \<Rightarrow> avahi_entry \<Rightarrow> announcer_state outcome" where
  "initial_state z y =
     (if has_flag (e_flags y) AVAHI_PUBLISH_UNIQUE \<and> \<not> has_flag (e_flags y) AVAHI_PUBLISH_NO_PROBE then Some AVAHI_PROBING
      else if \<not> has_flag (e_flags y) AVAHI_PUBLISH_NO_ANNOUNCE then
        (case e_group y of
           None \<Rightarrow> Some AVAHI_ANNOUNCING
         | Some g \<Rightarrow> do {
             w \<leftarrow> z_group z g;
             Some (if g_state w = AVAHI_ENTRY_GROUP_ESTABLISHED then AVAHI_ANNOUNCING else AVAHI_WAITING)
           })
      else Some AVAHI_ESTABLISHED)"

definition go_to_initial_state :: "env \<Rightarrow> nat \<Rightarrow> 'o zone \<Rightarrow> 'o zone outcome" where
  "go_to_initial_state v a z = do {
     x \<leftarrow> z_announcer z a;
     y \<leftarrow> z_entry z (a_entry x);
     st \<leftarrow> initial_state z y;
     z \<leftarrow> mod_announcer a (\<lambda>x. x\<lparr>a_state := st, a_n_iteration := 1, a_sec_delay := 1\<rparr>) z;
     z \<leftarrow> (if st = AVAHI_PROBING then add_probing (e_group y) 1 z else Some z);
     restart_timer v a z
   }"

text \<open>The fields that \<open>go_to_initial_state\<close> sets are not read before; the others are set in \<open>new_announcer\<close>.\<close>

definition new_announcer :: "env \<Rightarrow> nat \<Rightarrow> nat \<Rightarrow> 'o zone \<Rightarrow> 'o zone outcome" where
  "new_announcer v i e z = do {
     y \<leftarrow> z_entry z e;
     assert_that (\<not> e_dead y);
     x \<leftarrow> z_iface z i;
     c \<leftarrow> avahi_entry_is_commited z e;
     if \<not> avahi_interface_match x (e_interface y) (e_protocol y) \<or> \<not> i_announcing x \<or> \<not> c then Some z
     else do {
       a \<leftarrow> get_announcer z e i;
       (case a of
          Some _ \<Rightarrow> Some z
        | None \<Rightarrow> do {
            let a = z_next z;
            let z = z\<lparr>z_next := a + 1, z_announcer := (z_announcer z)(a \<mapsto>
              \<lparr>a_interface = i, a_entry = e, a_time_event = None, a_state = AVAHI_ESTABLISHED, a_n_iteration = 0, a_sec_delay = 0\<rparr>)\<rparr>;
            z \<leftarrow> mod_iface i (\<lambda>x. x\<lparr>i_announcers := a # i_announcers x\<rparr>) z;
            z \<leftarrow> mod_entry e (\<lambda>y. y\<lparr>e_announcers := a # e_announcers y\<rparr>) z;
            go_to_initial_state v a z
          })
     }
   }"

definition unless_dead :: "(nat \<Rightarrow> 'o zone \<Rightarrow> 'o zone outcome) \<Rightarrow> nat \<Rightarrow> 'o zone \<Rightarrow> 'o zone outcome" where
  "unless_dead body e z = do { y \<leftarrow> z_entry z e; if e_dead y then Some z else body e z }"

definition avahi_announce_interface :: "env \<Rightarrow> nat \<Rightarrow> 'o zone \<Rightarrow> 'o zone outcome" where
  "avahi_announce_interface v i z = do {
     x \<leftarrow> z_iface z i;
     if \<not> i_announcing x then Some z
     else for_each (unless_dead (new_announcer v i)) (z_entries z) z
   }"

definition announce_walk_callback :: "env \<Rightarrow> nat \<Rightarrow> nat \<Rightarrow> 'o zone \<Rightarrow> 'o zone outcome" where
  "announce_walk_callback v e i z = do {
     y \<leftarrow> z_entry z e;
     assert_that (\<not> e_dead y);
     new_announcer v i e z
   }"

definition avahi_announce_entry :: "env \<Rightarrow> nat \<Rightarrow> 'o zone \<Rightarrow> 'o zone outcome" where
  "avahi_announce_entry v e z = do {
     y \<leftarrow> z_entry z e;
     assert_that (\<not> e_dead y);
     avahi_interface_monitor_walk (e_interface y) (e_protocol y) (announce_walk_callback v e) z
   }"

definition avahi_announce_group :: "env \<Rightarrow> nat \<Rightarrow> 'o zone \<Rightarrow> 'o zone outcome" where
  "avahi_announce_group v g z = do {
     x \<leftarrow> z_group z g;
     for_each (unless_dead (avahi_announce_entry v)) (g_entries x) z
   }"

definition avahi_entry_return_to_initial_state :: "env \<Rightarrow> nat \<Rightarrow> nat \<Rightarrow> 'o zone \<Rightarrow> 'o zone outcome" where
  "avahi_entry_return_to_initial_state v e i z = do {
     a \<leftarrow> get_announcer z e i;
     (case a of
        None \<Rightarrow> Some z
      | Some a \<Rightarrow> do {
          x \<leftarrow> z_announcer z a;
          y \<leftarrow> z_entry z (a_entry x);
          z \<leftarrow> (if a_state x = AVAHI_PROBING then add_probing (e_group y) (- 1) z else Some z);
          go_to_initial_state v a z
        })
   }"

definition make_goodbye_record :: "rr \<Rightarrow> rr outcome" where
  "make_goodbye_record r = do { g \<leftarrow> avahi_record_copy r; Some (g\<lparr>rr_ttl := 0\<rparr>) }"

definition is_duplicate_entry :: "'o zone \<Rightarrow> nat \<Rightarrow> bool outcome" where
  "is_duplicate_entry z e = do {
     y \<leftarrow> z_entry z e;
     es \<leftarrow> entries_with_key z (rr_key (e_record y));
     i \<leftarrow> find_first (\<lambda>i. do {
         x \<leftarrow> z_entry z i;
         if i = e \<or> e_dead x then Some False
         else avahi_record_equal_no_ttl (e_record x) (e_record y)
       }) es;
     Some (i \<noteq> None)
   }"

definition send_goodbye_callback :: "nat \<Rightarrow> nat \<Rightarrow> 'o zone \<Rightarrow> 'o zone outcome" where
  "send_goodbye_callback e i z = do {
     y \<leftarrow> z_entry z e;
     assert_that (\<not> e_dead y);
     x \<leftarrow> z_iface z i;
     if \<not> avahi_interface_match x (e_interface y) (e_protocol y) then Some z
     else if has_flag (e_flags y) AVAHI_PUBLISH_NO_ANNOUNCE then Some z
     else do {
       r \<leftarrow> avahi_entry_is_registered z e i;
       if \<not> r then Some z
       else do {
         d \<leftarrow> is_duplicate_entry z e;
         if d then Some z
         else do {
           g \<leftarrow> make_goodbye_record (e_record y);
           avahi_interface_post_response i g (has_flag (e_flags y) AVAHI_PUBLISH_UNIQUE) None True z
         }
       }
     }
   }"

definition reannounced_state :: "avahi_entry \<Rightarrow> announcer_state \<Rightarrow> announcer_state" where
  "reannounced_state y st =
     (if st = AVAHI_PROBING \<or> (st = AVAHI_WAITING \<and> has_flag (e_flags y) AVAHI_PUBLISH_UNIQUE \<and>
          \<not> has_flag (e_flags y) AVAHI_PUBLISH_NO_PROBE) then AVAHI_PROBING
      else if st = AVAHI_WAITING then AVAHI_WAITING
      else if has_flag (e_flags y) AVAHI_PUBLISH_NO_ANNOUNCE then AVAHI_ESTABLISHED
      else AVAHI_ANNOUNCING)"

definition reannounce :: "env \<Rightarrow> nat \<Rightarrow> 'o zone \<Rightarrow> 'o zone outcome" where
  "reannounce v a z = do {
     x \<leftarrow> z_announcer z a;
     y \<leftarrow> z_entry z (a_entry x);
     idle \<leftarrow> (case e_group y of
         None \<Rightarrow> Some False
       | Some g \<Rightarrow> do {
           w \<leftarrow> z_group z g;
           Some (g_state w = AVAHI_ENTRY_GROUP_UNCOMMITED \<or> g_state w = AVAHI_ENTRY_GROUP_COLLISION)
         });
     if idle then Some z
     else do {
       z \<leftarrow> (if a_state x = AVAHI_PROBING then add_probing (e_group y) (- 1) z else Some z);
       let st = reannounced_state y (a_state x);
       z \<leftarrow> mod_announcer a (\<lambda>x. x\<lparr>a_state := st\<rparr>) z;
       z \<leftarrow> (if st = AVAHI_PROBING then add_probing (e_group y) 1 z else Some z);
       z \<leftarrow> mod_announcer a (\<lambda>x. x\<lparr>a_n_iteration := 1, a_sec_delay := 1\<rparr>) z;
       restart_timer v a z
     }
   }"

definition reannounce_walk_callback :: "env \<Rightarrow> nat \<Rightarrow> nat \<Rightarrow> 'o zone \<Rightarrow> 'o zone outcome" where
  "reannounce_walk_callback v e i z = do {
     y \<leftarrow> z_entry z e;
     assert_that (\<not> e_dead y);
     a \<leftarrow> get_announcer z e i;
     (case a of None \<Rightarrow> Some z | Some a \<Rightarrow> reannounce v a z)
   }"

definition avahi_reannounce_entry :: "env \<Rightarrow> nat \<Rightarrow> 'o zone \<Rightarrow> 'o zone outcome" where
  "avahi_reannounce_entry v e z = do {
     y \<leftarrow> z_entry z e;
     assert_that (\<not> e_dead y);
     avahi_interface_monitor_walk (e_interface y) (e_protocol y) (reannounce_walk_callback v e) z
   }"

definition avahi_goodbye_interface :: "nat \<Rightarrow> bool \<Rightarrow> bool \<Rightarrow> 'o zone \<Rightarrow> 'o zone outcome" where
  "avahi_goodbye_interface i send_goodbye remove z = do {
     x \<leftarrow> z_iface z i;
     z \<leftarrow> (if send_goodbye \<and> i_announcing x
           then for_each (unless_dead (\<lambda>e. send_goodbye_callback e i)) (z_entries z) z else Some z);
     if remove then while_head (\<lambda>z. map_option i_announcers (z_iface z i)) remove_announcer z else Some z
   }"

definition avahi_goodbye_entry :: "nat \<Rightarrow> bool \<Rightarrow> bool \<Rightarrow> 'o zone \<Rightarrow> 'o zone outcome" where
  "avahi_goodbye_entry e send_goodbye remove z = do {
     y \<leftarrow> z_entry z e;
     z \<leftarrow> (if send_goodbye \<and> \<not> e_dead y
           then avahi_interface_monitor_walk AVAHI_IF_UNSPEC AVAHI_PROTO_UNSPEC (send_goodbye_callback e) z else Some z);
     if remove then while_head (\<lambda>z. map_option e_announcers (z_entry z e)) remove_announcer z else Some z
   }"

end
