(* ===== verification/Entry.thy ===== *)
theory Entry
  imports Announce
begin

text \<open>
  Entries and groups (avahi-core/entry.c): adding records to a server, with the checks that come before,
  and the life of an entry group. The addition functions return an error code; those that return a
  pointer in the code return \<open>None\<close> for NULL, with the code in \<open>z_error\<close>. Whether a string is the address of a
  host is an argument \<open>address_parse\<close>, as in theory \<open>Domain\<close>.
\<close>

subsection \<open>Error codes and constants\<close>

definition AVAHI_OK :: int where "AVAHI_OK = 0"
definition AVAHI_ERR_BAD_STATE :: int where "AVAHI_ERR_BAD_STATE = -2"
definition AVAHI_ERR_INVALID_HOST_NAME :: int where "AVAHI_ERR_INVALID_HOST_NAME = -3"
definition AVAHI_ERR_INVALID_TTL :: int where "AVAHI_ERR_INVALID_TTL = -6"
definition AVAHI_ERR_IS_PATTERN :: int where "AVAHI_ERR_IS_PATTERN = -7"
definition AVAHI_ERR_COLLISION :: int where "AVAHI_ERR_COLLISION = -8"
definition AVAHI_ERR_INVALID_RECORD :: int where "AVAHI_ERR_INVALID_RECORD = -9"
definition AVAHI_ERR_INVALID_PORT :: int where "AVAHI_ERR_INVALID_PORT = -12"
definition AVAHI_ERR_INVALID_INTERFACE :: int where "AVAHI_ERR_INVALID_INTERFACE = -27"
definition AVAHI_ERR_INVALID_PROTOCOL :: int where "AVAHI_ERR_INVALID_PROTOCOL = -28"
definition AVAHI_ERR_INVALID_FLAGS :: int where "AVAHI_ERR_INVALID_FLAGS = -29"
definition AVAHI_ERR_NOT_FOUND :: int where "AVAHI_ERR_NOT_FOUND = -30"
definition AVAHI_ERR_INVALID_SERVICE_SUBTYPE :: int where "AVAHI_ERR_INVALID_SERVICE_SUBTYPE = -33"
definition AVAHI_ERR_INVALID_DNS_CLASS :: int where "AVAHI_ERR_INVALID_DNS_CLASS = -47"
definition AVAHI_ERR_INVALID_DNS_TYPE :: int where "AVAHI_ERR_INVALID_DNS_TYPE = -48"
definition AVAHI_ERR_NOT_SUPPORTED :: int where "AVAHI_ERR_NOT_SUPPORTED = -49"
definition AVAHI_ERR_NOT_PERMITTED :: int where "AVAHI_ERR_NOT_PERMITTED = -50"
definition AVAHI_ERR_IS_EMPTY :: int where "AVAHI_ERR_IS_EMPTY = -52"

definition AVAHI_RR_HOLDOFF_MSEC :: int where "AVAHI_RR_HOLDOFF_MSEC = 1000"
definition AVAHI_RR_HOLDOFF_MSEC_RATE_LIMIT :: int where "AVAHI_RR_HOLDOFF_MSEC_RATE_LIMIT = 20000"
definition AVAHI_RR_RATE_LIMIT_COUNT :: nat where "AVAHI_RR_RATE_LIMIT_COUNT = 15"

definition AVAHI_DEFAULT_TTL_HOST_NAME :: u32 where "AVAHI_DEFAULT_TTL_HOST_NAME = 120"

definition AVAHI_DNS_TYPE_OPT :: u16 where "AVAHI_DNS_TYPE_OPT = 41"
definition AVAHI_DNS_TYPE_TKEY :: u16 where "AVAHI_DNS_TYPE_TKEY = 249"
definition AVAHI_DNS_TYPE_TSIG :: u16 where "AVAHI_DNS_TYPE_TSIG = 250"
definition AVAHI_DNS_TYPE_IXFR :: u16 where "AVAHI_DNS_TYPE_IXFR = 251"
definition AVAHI_DNS_TYPE_AXFR :: u16 where "AVAHI_DNS_TYPE_AXFR = 252"

definition AVAHI_MDNS_SUFFIX_LOCAL :: cstr where "AVAHI_MDNS_SUFFIX_LOCAL = str ''local''"
definition AVAHI_MDNS_SUFFIX_ADDR_IPV4 :: cstr where "AVAHI_MDNS_SUFFIX_ADDR_IPV4 = str ''254.169.in-addr.arpa''"
definition AVAHI_MDNS_SUFFIX_ADDR_IPV6 :: cstr where "AVAHI_MDNS_SUFFIX_ADDR_IPV6 = str ''0.8.e.f.ip6.arpa''"

datatype dns_server_type = AVAHI_DNS_SERVER_RESOLVE | AVAHI_DNS_SERVER_UPDATE | AVAHI_DNS_SERVER_MAX

definition avahi_server_set_errno :: "int \<Rightarrow> 'o zone \<Rightarrow> 'o zone" where
  "avahi_server_set_errno err z = z\<lparr>z_error := err\<rparr>"

text \<open>The returns of the validity macros: a NULL pointer, and an error code.\<close>

definition fail_null :: "int \<Rightarrow> 'o zone \<Rightarrow> ('o zone \<times> nat option) outcome" where
  "fail_null err z = Some (avahi_server_set_errno err z, None)"

definition fail_code :: "int \<Rightarrow> 'o zone \<Rightarrow> ('o zone \<times> int) outcome" where
  "fail_code err z = Some (avahi_server_set_errno err z, err)"

subsection \<open>Transport flags\<close>

definition transport_flags_from_domain :: "'o zone \<Rightarrow> u32 \<Rightarrow> cstr \<Rightarrow> u32 outcome" where
  "transport_flags_from_domain z flags domain = do {
     assert_that (\<not> (has_flag flags AVAHI_PUBLISH_USE_MULTICAST \<and> has_flag flags AVAHI_PUBLISH_USE_WIDE_AREA));
     if has_flag flags (AVAHI_PUBLISH_USE_MULTICAST OR AVAHI_PUBLISH_USE_WIDE_AREA) then Some flags
     else if \<not> z_has_wide_area_servers z then Some (flags OR AVAHI_PUBLISH_USE_MULTICAST)
     else do {
       l \<leftarrow> avahi_domain_ends_with domain AVAHI_MDNS_SUFFIX_LOCAL;
       l \<leftarrow> (if l then Some True else avahi_domain_ends_with domain AVAHI_MDNS_SUFFIX_ADDR_IPV4);
       l \<leftarrow> (if l then Some True else avahi_domain_ends_with domain AVAHI_MDNS_SUFFIX_ADDR_IPV6);
       Some (flags OR (if l then AVAHI_PUBLISH_USE_MULTICAST else AVAHI_PUBLISH_USE_WIDE_AREA))
     }
   }"

subsection \<open>Freeing entries and groups\<close>

definition avahi_entry_free :: "nat \<Rightarrow> 'o zone \<Rightarrow> 'o zone outcome" where
  "avahi_entry_free e z = do {
     z \<leftarrow> avahi_goodbye_entry e True True z;
     assert_that (e \<in> set (z_entries z));
     let z = z\<lparr>z_entries := remove1 e (z_entries z)\<rparr>;
     y \<leftarrow> z_entry z e;
     es \<leftarrow> entries_with_key z (rr_key (e_record y));
     assert_that (e \<in> set es);
     let es = remove1 e es;
     m \<leftarrow> (case es of
         t # _ \<Rightarrow> do {
           w \<leftarrow> z_entry z t;
           (m, _) \<leftarrow> avahi_hashmap_replace (z_entries_by_key z) (rr_key (e_record w)) es;
           Some m
         }
       | [] \<Rightarrow> avahi_hashmap_remove (z_entries_by_key z) (rr_key (e_record y)));
     let z = z\<lparr>z_entries_by_key := m\<rparr>;
     z \<leftarrow> (case e_group y of
         None \<Rightarrow> Some z
       | Some g \<Rightarrow> do {
           x \<leftarrow> z_group z g;
           assert_that (e \<in> set (g_entries x));
           mod_group g (\<lambda>x. x\<lparr>g_entries := remove1 e (g_entries x)\<rparr>) z
         });
     Some (z\<lparr>z_entry := (z_entry z)(e := None)\<rparr>)
   }"

definition avahi_entry_group_free :: "nat \<Rightarrow> 'o zone \<Rightarrow> 'o zone outcome" where
  "avahi_entry_group_free g z = do {
     z \<leftarrow> while_head (\<lambda>z. map_option g_entries (z_group z g)) avahi_entry_free z;
     x \<leftarrow> z_group z g;
     q \<leftarrow> (case g_register_time_event x of
         Some t \<Rightarrow> avahi_time_event_free (z_time_event_queue z) t
       | None \<Rightarrow> Some (z_time_event_queue z));
     let z = z\<lparr>z_time_event_queue := q\<rparr>;
     assert_that (g \<in> set (z_groups z));
     let z = z\<lparr>z_groups := remove1 g (z_groups z)\<rparr>;
     Some (z\<lparr>z_group := (z_group z)(g := None)\<rparr>)
   }"

definition avahi_cleanup_dead_entries :: "'o zone \<Rightarrow> 'o zone outcome" where
  "avahi_cleanup_dead_entries z = do {
     z \<leftarrow> (if z_need_group_cleanup z then do {
            z \<leftarrow> for_each (\<lambda>g z. do {
              x \<leftarrow> z_group z g;
              if g_dead x then avahi_entry_group_free g z else Some z
            }) (z_groups z) z;
            Some (z\<lparr>z_need_group_cleanup := False\<rparr>)
          } else Some z);
     z \<leftarrow> (if z_need_entry_cleanup z then do {
            z \<leftarrow> for_each (\<lambda>e z. do {
              y \<leftarrow> z_entry z e;
              if e_dead y then avahi_entry_free e z else Some z
            }) (z_entries z) z;
            Some (z\<lparr>z_need_entry_cleanup := False\<rparr>)
          } else Some z);
     let z = (if z_need_browser_cleanup z then log_event Browser_cleanup z else z);
     (case z_cleanup_time_event z of
        None \<Rightarrow> Some z
      | Some t \<Rightarrow> do {
          q \<leftarrow> avahi_time_event_free (z_time_event_queue z) t;
          Some (z\<lparr>z_time_event_queue := q, z_cleanup_time_event := None\<rparr>)
        })
   }"

subsection \<open>Adding a record\<close>

definition conflicts_with :: "int \<Rightarrow> protocol \<Rightarrow> rr \<Rightarrow> u32 \<Rightarrow> avahi_entry \<Rightarrow> bool outcome" where
  "conflicts_with interface protocol r flags e =
     (if e_dead e then Some False
      else if \<not> has_flag flags AVAHI_PUBLISH_UNIQUE \<and> \<not> has_flag (e_flags e) AVAHI_PUBLISH_UNIQUE then Some False
      else if has_flag flags AVAHI_PUBLISH_ALLOW_MULTIPLE \<and> has_flag (e_flags e) AVAHI_PUBLISH_ALLOW_MULTIPLE then Some False
      else do {
        eq \<leftarrow> avahi_record_equal_no_ttl r (e_record e);
        if eq then Some False
        else Some ((interface \<le> 0 \<or> e_interface e \<le> 0 \<or> e_interface e = interface) \<and>
          (protocol = AVAHI_PROTO_UNSPEC \<or> e_protocol e = AVAHI_PROTO_UNSPEC \<or> e_protocol e = protocol))
      })"

definition check_record_conflict :: "'o zone \<Rightarrow> int \<Rightarrow> protocol \<Rightarrow> rr \<Rightarrow> u32 \<Rightarrow> int outcome" where
  "check_record_conflict z interface protocol r flags = do {
     es \<leftarrow> entries_with_key z (rr_key r);
     e \<leftarrow> find_first (\<lambda>e. do { y \<leftarrow> z_entry z e; conflicts_with interface protocol r flags y }) es;
     Some (if e = None then 0 else - 1)
   }"

definition group_is :: "(group_state \<Rightarrow> bool) \<Rightarrow> nat option \<Rightarrow> 'o zone \<Rightarrow> bool outcome" where
  "group_is p g z = (case g of None \<Rightarrow> Some True | Some g \<Rightarrow> do { x \<leftarrow> z_group z g; Some (p (g_state x)) })"

definition update_entry :: "env \<Rightarrow> nat option \<Rightarrow> int \<Rightarrow> protocol \<Rightarrow> u32 \<Rightarrow> rr \<Rightarrow> 'o zone \<Rightarrow> ('o zone \<times> nat option) outcome" where
  "update_entry v g interface protocol flags r z = do {
     es \<leftarrow> entries_with_key z (rr_key r);
     e \<leftarrow> find_first (\<lambda>e. do {
         y \<leftarrow> z_entry z e;
         Some (\<not> e_dead y \<and> e_group y = g \<and> e_interface y = interface \<and> e_protocol y = protocol)
       }) es;
     (case e of
        None \<Rightarrow> fail_null AVAHI_ERR_NOT_FOUND z
      | Some e \<Rightarrow> do {
          y \<leftarrow> z_entry z e;
          let is_first = (hd es = e);
          z \<leftarrow> mod_entry e (\<lambda>y. y\<lparr>e_record := r, e_flags := flags\<rparr>) z;
          eq \<leftarrow> avahi_record_equal_no_ttl (e_record y) r;
          c \<leftarrow> group_is (\<lambda>s. s \<noteq> AVAHI_ENTRY_GROUP_UNCOMMITED) g z;
          z \<leftarrow> (if \<not> eq \<and> c then do {
                 z \<leftarrow> (if \<not> has_flag flags AVAHI_PUBLISH_UNIQUE then avahi_goodbye_entry e True False z else Some z);
                 avahi_reannounce_entry v e z
               } else Some z);
          z \<leftarrow> (if is_first then do {
                 (m, _) \<leftarrow> avahi_hashmap_replace (z_entries_by_key z) (rr_key r) es;
                 Some (z\<lparr>z_entries_by_key := m\<rparr>)
               } else Some z);
          Some (z, Some e)
        })
   }"

definition insert_entry :: "env \<Rightarrow> nat option \<Rightarrow> int \<Rightarrow> protocol \<Rightarrow> u32 \<Rightarrow> rr \<Rightarrow> 'o zone \<Rightarrow> ('o zone \<times> nat option) outcome" where
  "insert_entry v g interface protocol flags r z = do {
     c \<leftarrow> check_record_conflict z interface protocol r flags;
     if c < 0 then fail_null AVAHI_ERR_COLLISION z
     else do {
       let e = z_next z;
       let z = z\<lparr>z_next := e + 1, z_entry := (z_entry z)(e \<mapsto>
         \<lparr>e_group = g, e_dead = False, e_flags = flags, e_record = r, e_interface = interface, e_protocol = protocol,
          e_announcers = []\<rparr>)\<rparr>;
       let z = z\<lparr>z_entries := e # z_entries z\<rparr>;
       es \<leftarrow> entries_with_key z (rr_key r);
       (m, _) \<leftarrow> avahi_hashmap_replace (z_entries_by_key z) (rr_key r) (e # es);
       let z = z\<lparr>z_entries_by_key := m\<rparr>;
       z \<leftarrow> (case g of None \<Rightarrow> Some z | Some g \<Rightarrow> mod_group g (\<lambda>x. x\<lparr>g_entries := e # g_entries x\<rparr>) z);
       z \<leftarrow> avahi_announce_entry v e z;
       Some (z, Some e)
     }
   }"

definition publishable_type :: "u16 \<Rightarrow> bool" where
  "publishable_type t \<longleftrightarrow> t \<noteq> 0 \<and> t \<noteq> AVAHI_DNS_TYPE_ANY \<and> t \<noteq> AVAHI_DNS_TYPE_OPT \<and> t \<noteq> AVAHI_DNS_TYPE_TKEY \<and>
     t \<noteq> AVAHI_DNS_TYPE_TSIG \<and> t \<noteq> AVAHI_DNS_TYPE_IXFR \<and> t \<noteq> AVAHI_DNS_TYPE_AXFR"

definition server_add_internal ::
  "env \<Rightarrow> nat option \<Rightarrow> int \<Rightarrow> protocol \<Rightarrow> u32 \<Rightarrow> rr \<Rightarrow> 'o zone \<Rightarrow> ('o zone \<times> nat option) outcome" where
  "server_add_internal v g interface protocol flags r z =
     (if \<not> (z_state z \<noteq> AVAHI_SERVER_FAILURE \<and> z_state z \<noteq> AVAHI_SERVER_INVALID) then fail_null AVAHI_ERR_BAD_STATE z
      else if \<not> if_valid interface then fail_null AVAHI_ERR_INVALID_INTERFACE z
      else if \<not> proto_valid protocol then fail_null AVAHI_ERR_INVALID_PROTOCOL z
      else if \<not> flags_valid flags (AVAHI_PUBLISH_NO_ANNOUNCE OR AVAHI_PUBLISH_NO_PROBE OR AVAHI_PUBLISH_UNIQUE OR
          AVAHI_PUBLISH_ALLOW_MULTIPLE OR AVAHI_PUBLISH_UPDATE OR AVAHI_PUBLISH_USE_WIDE_AREA OR
          AVAHI_PUBLISH_USE_MULTICAST) then fail_null AVAHI_ERR_INVALID_FLAGS z
      else if \<not> avahi_is_valid_domain_name (key_name (rr_key r)) then fail_null AVAHI_ERR_INVALID_HOST_NAME z
      else if \<not> rr_ttl r \<noteq> 0 then fail_null AVAHI_ERR_INVALID_TTL z
      else if avahi_key_is_pattern (rr_key r) then fail_null AVAHI_ERR_IS_PATTERN z
      else do {
        valid \<leftarrow> avahi_record_is_valid r;
        if \<not> valid then fail_null AVAHI_ERR_INVALID_RECORD z
        else if key_clazz (rr_key r) \<noteq> AVAHI_DNS_CLASS_IN then fail_null AVAHI_ERR_INVALID_DNS_CLASS z
        else if \<not> publishable_type (key_type (rr_key r)) then fail_null AVAHI_ERR_INVALID_DNS_TYPE z
        else do {
          flags \<leftarrow> transport_flags_from_domain z flags (key_name (rr_key r));
          if \<not> has_flag flags AVAHI_PUBLISH_USE_MULTICAST then fail_null AVAHI_ERR_NOT_SUPPORTED z
          else if z_disable_publishing z then fail_null AVAHI_ERR_NOT_PERMITTED z
          else do {
            free \<leftarrow> group_is (\<lambda>s. s \<noteq> AVAHI_ENTRY_GROUP_ESTABLISHED \<and> s \<noteq> AVAHI_ENTRY_GROUP_REGISTERING) g z;
            if \<not> (free \<or> has_flag flags AVAHI_PUBLISH_UPDATE) then fail_null AVAHI_ERR_BAD_STATE z
            else if has_flag flags AVAHI_PUBLISH_UPDATE then update_entry v g interface protocol flags r z
            else insert_entry v g interface protocol flags r z
          }
        }
      })"

text \<open>A function that returns the last error when the addition returns NULL.\<close>

definition code_of :: "('o zone \<times> nat option) \<Rightarrow> 'o zone \<times> int" where
  "code_of = (\<lambda>(z, e). (z, if e = None then z_error z else AVAHI_OK))"

definition avahi_server_add ::
  "env \<Rightarrow> nat option \<Rightarrow> int \<Rightarrow> protocol \<Rightarrow> u32 \<Rightarrow> rr \<Rightarrow> 'o zone \<Rightarrow> ('o zone \<times> int) outcome" where
  "avahi_server_add v g interface protocol flags r z = map_option code_of (server_add_internal v g interface protocol flags r z)"

text \<open>
  The state of \<open>avahi_server_iterate\<close> is the entry it returned last; as it does not move past a live entry, calling it
  again returns the same one.
\<close>

fun skip_dead :: "'o zone \<Rightarrow> nat list \<Rightarrow> nat option outcome" where
  "skip_dead z [] = Some None"
| "skip_dead z (e # es) = do { y \<leftarrow> z_entry z e; if e_dead y then skip_dead z es else Some (Some e) }"

definition avahi_server_iterate :: "'o zone \<Rightarrow> nat option \<Rightarrow> nat option \<Rightarrow> (nat option \<times> rr option) outcome" where
  "avahi_server_iterate z g state = do {
     es \<leftarrow> (case g of None \<Rightarrow> Some (z_entries z) | Some g \<Rightarrow> do { x \<leftarrow> z_group z g; Some (g_entries x) });
     let rest = (case state of None \<Rightarrow> es | Some e \<Rightarrow> dropWhile (\<lambda>x. x \<noteq> e) es);
     e \<leftarrow> skip_dead z rest;
     (case e of
        None \<Rightarrow> Some (None, None)
      | Some e \<Rightarrow> do { y \<leftarrow> z_entry z e; Some (Some e, Some (e_record y)) })
   }"

subsection \<open>Addresses\<close>

definition server_add_ptr_internal ::
  "env \<Rightarrow> nat option \<Rightarrow> int \<Rightarrow> protocol \<Rightarrow> u32 \<Rightarrow> u32 \<Rightarrow> cstr option \<Rightarrow> cstr \<Rightarrow> 'o zone \<Rightarrow> ('o zone \<times> nat option) outcome" where
  "server_add_ptr_internal v g interface protocol flags ttl name dest z =
     (if \<not> (case name of None \<Rightarrow> True | Some n \<Rightarrow> avahi_is_valid_domain_name n) then fail_null AVAHI_ERR_INVALID_HOST_NAME z
      else if \<not> avahi_is_valid_domain_name dest then fail_null AVAHI_ERR_INVALID_HOST_NAME z
      else do {
        let name = (case name of None \<Rightarrow> z_host_name_fqdn z | Some n \<Rightarrow> n);
        r \<leftarrow> avahi_record_new_full name AVAHI_DNS_CLASS_IN AVAHI_DNS_TYPE_PTR ttl;
        (case r of
           None \<Rightarrow> fail_null AVAHI_ERR_NO_MEMORY z
         | Some r \<Rightarrow> do {
             n \<leftarrow> avahi_normalize_name_strdup dest;
             let r = r\<lparr>rr_data := (case n of None \<Rightarrow> Unset | Some n \<Rightarrow> Ptr n)\<rparr>;
             server_add_internal v g interface protocol flags r z
           })
      })"

definition avahi_server_add_ptr ::
  "env \<Rightarrow> nat option \<Rightarrow> int \<Rightarrow> protocol \<Rightarrow> u32 \<Rightarrow> u32 \<Rightarrow> cstr option \<Rightarrow> cstr \<Rightarrow> 'o zone \<Rightarrow> ('o zone \<times> int) outcome" where
  "avahi_server_add_ptr v g interface protocol flags ttl name dest z =
     map_option code_of (server_add_ptr_internal v g interface protocol flags ttl name dest z)"

definition free_if :: "nat option \<Rightarrow> 'o zone \<Rightarrow> 'o zone outcome" where
  "free_if e z = (case e of None \<Rightarrow> Some z | Some e \<Rightarrow> avahi_entry_free e z)"

definition address_record :: "cstr \<Rightarrow> address \<Rightarrow> rr option outcome" where
  "address_record name a =
     (if proto a = AVAHI_PROTO_INET then do {
        r \<leftarrow> avahi_record_new_full name AVAHI_DNS_CLASS_IN AVAHI_DNS_TYPE_A AVAHI_DEFAULT_TTL_HOST_NAME;
        Some (map_option (\<lambda>r. r\<lparr>rr_data := A_addr (take 4 (addr_bytes a))\<rparr>) r)
      } else do {
        assert_that (proto a = AVAHI_PROTO_INET6);
        r \<leftarrow> avahi_record_new_full name AVAHI_DNS_CLASS_IN AVAHI_DNS_TYPE_AAAA AVAHI_DEFAULT_TTL_HOST_NAME;
        Some (map_option (\<lambda>r. r\<lparr>rr_data := Aaaa_addr (take 16 (addr_bytes a))\<rparr>) r)
      })"

definition avahi_server_add_address ::
  "(cstr \<Rightarrow> bool) \<Rightarrow> env \<Rightarrow> nat option \<Rightarrow> int \<Rightarrow> protocol \<Rightarrow> u32 \<Rightarrow> cstr option \<Rightarrow> address \<Rightarrow> 'o zone \<Rightarrow> ('o zone \<times> int) outcome" where
  "avahi_server_add_address address_parse v g interface protocol flags name a z =
     (if \<not> if_valid interface then fail_code AVAHI_ERR_INVALID_INTERFACE z
      else if \<not> (proto_valid protocol \<and> proto_valid (proto a)) then fail_code AVAHI_ERR_INVALID_PROTOCOL z
      else if \<not> flags_valid flags (AVAHI_PUBLISH_NO_REVERSE OR AVAHI_PUBLISH_NO_ANNOUNCE OR AVAHI_PUBLISH_NO_PROBE OR
          AVAHI_PUBLISH_UPDATE OR AVAHI_PUBLISH_USE_WIDE_AREA OR AVAHI_PUBLISH_USE_MULTICAST) then fail_code AVAHI_ERR_INVALID_FLAGS z
      else do {
        fqdn \<leftarrow> (case name of None \<Rightarrow> Some True | Some n \<Rightarrow> avahi_is_valid_fqdn address_parse n);
        if \<not> fqdn then fail_code AVAHI_ERR_INVALID_HOST_NAME z
        else do {
          name \<leftarrow> (case name of
              None \<Rightarrow> Some (z_host_name_fqdn z)
            | Some n \<Rightarrow> do { m \<leftarrow> avahi_normalize_name n AVAHI_DOMAIN_NAME_MAX; m });
          flags \<leftarrow> transport_flags_from_domain z flags name;
          if \<not> has_flag flags AVAHI_PUBLISH_USE_MULTICAST then fail_code AVAHI_ERR_NOT_SUPPORTED z
          else do {
            r \<leftarrow> address_record name a;
            (case r of
               None \<Rightarrow> fail_code AVAHI_ERR_NO_MEMORY z
             | Some r \<Rightarrow> do {
                 (z, entry) \<leftarrow> server_add_internal v g interface protocol
                   ((flags AND NOT AVAHI_PUBLISH_NO_REVERSE) OR AVAHI_PUBLISH_UNIQUE OR AVAHI_PUBLISH_ALLOW_MULTIPLE) r z;
                 (z, ret) \<leftarrow> (if entry = None then Some (z, z_error z)
                   else if has_flag flags AVAHI_PUBLISH_NO_REVERSE then Some (z, AVAHI_OK)
                   else do {
                     reverse_n \<leftarrow> avahi_reverse_lookup_name a AVAHI_DOMAIN_NAME_MAX;
                     (z, reverse) \<leftarrow> server_add_ptr_internal v g interface protocol (flags OR AVAHI_PUBLISH_UNIQUE)
                       AVAHI_DEFAULT_TTL_HOST_NAME (Some reverse_n) name z;
                     Some (z, if reverse = None then z_error z else AVAHI_OK)
                   });
                 if ret \<noteq> AVAHI_OK \<and> \<not> has_flag flags AVAHI_PUBLISH_UPDATE then do {
                   z \<leftarrow> free_if entry z;
                   Some (z, ret)
                 } else Some (z, ret)
               })
          }
        }
      })"

subsection \<open>Services\<close>

definition server_add_txt_strlst_nocopy ::
  "env \<Rightarrow> nat option \<Rightarrow> int \<Rightarrow> protocol \<Rightarrow> u32 \<Rightarrow> u32 \<Rightarrow> cstr option \<Rightarrow> string_list \<Rightarrow> 'o zone \<Rightarrow> ('o zone \<times> nat option) outcome" where
  "server_add_txt_strlst_nocopy v g interface protocol flags ttl name strlst z = do {
     r \<leftarrow> avahi_record_new_full (case name of None \<Rightarrow> z_host_name_fqdn z | Some n \<Rightarrow> n) AVAHI_DNS_CLASS_IN AVAHI_DNS_TYPE_TXT ttl;
     (case r of
        None \<Rightarrow> fail_null AVAHI_ERR_NO_MEMORY z
      | Some r \<Rightarrow> server_add_internal v g interface protocol flags (r\<lparr>rr_data := Txt strlst\<rparr>) z)
   }"

definition add_magic_cookie :: "'o zone \<Rightarrow> string_list \<Rightarrow> string_list" where
  "add_magic_cookie z strlst =
     (if \<not> z_add_service_cookie z then strlst
      else if avahi_string_list_find strlst AVAHI_SERVICE_COOKIE \<noteq> None then strlst
      else avahi_string_list_add_vprintf strlst (AVAHI_SERVICE_COOKIE @ str ''='' @ decimal (unat (z_local_service_cookie z))))"

definition service_checks :: "(cstr \<Rightarrow> bool) \<Rightarrow> int \<Rightarrow> protocol \<Rightarrow> u32 \<Rightarrow> u32 \<Rightarrow> cstr \<Rightarrow> cstr \<Rightarrow> cstr option \<Rightarrow> cstr option \<Rightarrow> int outcome" where
  "service_checks address_parse interface protocol flags known name type domain host =
     (if \<not> if_valid interface then Some AVAHI_ERR_INVALID_INTERFACE
      else if \<not> proto_valid protocol then Some AVAHI_ERR_INVALID_PROTOCOL
      else if \<not> flags_valid flags known then Some AVAHI_ERR_INVALID_FLAGS
      else if \<not> avahi_is_valid_service_name name then Some AVAHI_ERR_INVALID_SERVICE_NAME
      else if \<not> avahi_is_valid_service_type_strict type then Some AVAHI_ERR_INVALID_SERVICE_TYPE
      else if \<not> (case domain of None \<Rightarrow> True | Some d \<Rightarrow> avahi_is_valid_domain_name d) then Some AVAHI_ERR_INVALID_DOMAIN_NAME
      else do {
        h \<leftarrow> (case host of None \<Rightarrow> Some True | Some h \<Rightarrow> avahi_is_valid_fqdn address_parse h);
        Some (if h then AVAHI_OK else AVAHI_ERR_INVALID_HOST_NAME)
      })"

text \<open>The four records of a service, and what is freed when one of them fails.\<close>

definition free_service :: "nat option \<Rightarrow> nat option \<Rightarrow> nat option \<Rightarrow> 'o zone \<Rightarrow> 'o zone outcome" where
  "free_service srv txt ptr z = do { z \<leftarrow> free_if srv z; z \<leftarrow> free_if txt z; free_if ptr z }"

definition service_failed ::
  "u32 \<Rightarrow> int \<Rightarrow> nat option \<Rightarrow> nat option \<Rightarrow> nat option \<Rightarrow> 'o zone \<Rightarrow> ('o zone \<times> int) outcome" where
  "service_failed flags ret srv txt ptr z =
     (if ret \<noteq> AVAHI_OK \<and> \<not> has_flag flags AVAHI_PUBLISH_UPDATE then do { z \<leftarrow> free_service srv txt ptr z; Some (z, ret) }
      else Some (z, ret))"

definition add_service_records ::
  "env \<Rightarrow> nat option \<Rightarrow> int \<Rightarrow> protocol \<Rightarrow> u32 \<Rightarrow> u16 \<Rightarrow> cstr option \<Rightarrow> string_list \<Rightarrow> cstr \<Rightarrow> cstr \<Rightarrow> cstr \<Rightarrow> 'o zone \<Rightarrow> ('o zone \<times> int) outcome" where
  "add_service_records v g interface protocol flags port h strlst svc_name ptr_name enum_ptr z = do {
     (z, ptr_entry) \<leftarrow> server_add_ptr_internal v g interface protocol 0 AVAHI_DEFAULT_TTL (Some ptr_name) svc_name z;
     if ptr_entry = None then service_failed flags (z_error z) None None None z
     else do {
       r \<leftarrow> avahi_record_new_full svc_name AVAHI_DNS_CLASS_IN AVAHI_DNS_TYPE_SRV AVAHI_DEFAULT_TTL_HOST_NAME;
       (case r of
          None \<Rightarrow> service_failed flags AVAHI_ERR_NO_MEMORY None None ptr_entry (avahi_server_set_errno AVAHI_ERR_NO_MEMORY z)
        | Some r \<Rightarrow> do {
            let r = r\<lparr>rr_data := (case h of None \<Rightarrow> Unset | Some h \<Rightarrow> Srv 0 0 port h)\<rparr>;
            (z, srv_entry) \<leftarrow> server_add_internal v g interface protocol AVAHI_PUBLISH_UNIQUE r z;
            if srv_entry = None then service_failed flags (z_error z) None None ptr_entry z
            else do {
              let strlst = (if \<not> has_flag flags AVAHI_PUBLISH_NO_COOKIE then add_magic_cookie z strlst else strlst);
              (z, txt_entry) \<leftarrow> server_add_txt_strlst_nocopy v g interface protocol AVAHI_PUBLISH_UNIQUE AVAHI_DEFAULT_TTL
                (Some svc_name) strlst z;
              if txt_entry = None then service_failed flags (z_error z) srv_entry None ptr_entry z
              else do {
                (z, enum_entry) \<leftarrow> server_add_ptr_internal v g interface protocol 0 AVAHI_DEFAULT_TTL (Some enum_ptr) ptr_name z;
                if enum_entry = None then service_failed flags (z_error z) srv_entry txt_entry ptr_entry z
                else Some (z, AVAHI_OK)
              }
            }
          })
     }
   }"

definition server_add_service_strlst_nocopy ::
  "(cstr \<Rightarrow> bool) \<Rightarrow> env \<Rightarrow> nat option \<Rightarrow> int \<Rightarrow> protocol \<Rightarrow> u32 \<Rightarrow> cstr \<Rightarrow> cstr \<Rightarrow> cstr option \<Rightarrow> cstr option \<Rightarrow> u16 \<Rightarrow>
   string_list \<Rightarrow> 'o zone \<Rightarrow> ('o zone \<times> int) outcome" where
  "server_add_service_strlst_nocopy address_parse v g interface protocol flags name type domain host port strlst z = do {
     c \<leftarrow> service_checks address_parse interface protocol flags
       (AVAHI_PUBLISH_NO_COOKIE OR AVAHI_PUBLISH_UPDATE OR AVAHI_PUBLISH_USE_WIDE_AREA OR AVAHI_PUBLISH_USE_MULTICAST)
       name type domain host;
     if c \<noteq> AVAHI_OK then fail_code c z
     else do {
       let domain = (case domain of None \<Rightarrow> z_domain_name z | Some d \<Rightarrow> d);
       let host = (case host of None \<Rightarrow> z_host_name_fqdn z | Some h \<Rightarrow> h);
       flags \<leftarrow> transport_flags_from_domain z flags domain;
       if \<not> has_flag flags AVAHI_PUBLISH_USE_MULTICAST then fail_code AVAHI_ERR_NOT_SUPPORTED z
       else do {
         h \<leftarrow> avahi_normalize_name_strdup host;
         if h = None then fail_code AVAHI_ERR_NO_MEMORY z
         else do {
           svc_name \<leftarrow> avahi_service_name_join AVAHI_DOMAIN_NAME_MAX (Some name) type domain;
           (case svc_name of
              Inl ret \<Rightarrow> fail_code ret z
            | Inr svc_name \<Rightarrow> do {
                ptr_name \<leftarrow> avahi_service_name_join AVAHI_DOMAIN_NAME_MAX None type domain;
                (case ptr_name of
                   Inl ret \<Rightarrow> fail_code ret z
                 | Inr ptr_name \<Rightarrow> do {
                     enum_ptr \<leftarrow> avahi_service_name_join AVAHI_DOMAIN_NAME_MAX None (str ''_services._dns-sd._udp'') domain;
                     (case enum_ptr of
                        Inl ret \<Rightarrow> fail_code ret z
                      | Inr enum_ptr \<Rightarrow>
                          add_service_records v g interface protocol flags port h strlst svc_name ptr_name enum_ptr z)
                   })
              })
         }
       }
     }
   }"

definition avahi_server_add_service_strlst ::
  "(cstr \<Rightarrow> bool) \<Rightarrow> env \<Rightarrow> nat option \<Rightarrow> int \<Rightarrow> protocol \<Rightarrow> u32 \<Rightarrow> cstr \<Rightarrow> cstr \<Rightarrow> cstr option \<Rightarrow> cstr option \<Rightarrow> u16 \<Rightarrow>
   string_list \<Rightarrow> 'o zone \<Rightarrow> ('o zone \<times> int) outcome" where
  "avahi_server_add_service_strlst address_parse v g interface protocol flags name type domain host port strlst z =
     server_add_service_strlst_nocopy address_parse v g interface protocol flags name type domain host port
       (avahi_string_list_copy strlst) z"

text \<open>The variable arguments of \<open>avahi_server_add_service\<close> are a list of strings.\<close>

definition avahi_server_add_service ::
  "(cstr \<Rightarrow> bool) \<Rightarrow> env \<Rightarrow> nat option \<Rightarrow> int \<Rightarrow> protocol \<Rightarrow> u32 \<Rightarrow> cstr \<Rightarrow> cstr \<Rightarrow> cstr option \<Rightarrow> cstr option \<Rightarrow> u16 \<Rightarrow>
   cstr list \<Rightarrow> 'o zone \<Rightarrow> ('o zone \<times> int) outcome" where
  "avahi_server_add_service address_parse v g interface protocol flags name type domain host port va z =
     server_add_service_strlst_nocopy address_parse v g interface protocol flags name type domain host port
       (avahi_string_list_new_va va) z"

definition server_update_service_txt_strlst_nocopy ::
  "(cstr \<Rightarrow> bool) \<Rightarrow> env \<Rightarrow> nat option \<Rightarrow> int \<Rightarrow> protocol \<Rightarrow> u32 \<Rightarrow> cstr \<Rightarrow> cstr \<Rightarrow> cstr option \<Rightarrow>
   string_list \<Rightarrow> 'o zone \<Rightarrow> ('o zone \<times> int) outcome" where
  "server_update_service_txt_strlst_nocopy address_parse v g interface protocol flags name type domain strlst z = do {
     c \<leftarrow> service_checks address_parse interface protocol flags
       (AVAHI_PUBLISH_NO_COOKIE OR AVAHI_PUBLISH_USE_WIDE_AREA OR AVAHI_PUBLISH_USE_MULTICAST) name type domain None;
     if c \<noteq> AVAHI_OK then fail_code c z
     else do {
       let domain = (case domain of None \<Rightarrow> z_domain_name z | Some d \<Rightarrow> d);
       flags \<leftarrow> transport_flags_from_domain z flags domain;
       if \<not> has_flag flags AVAHI_PUBLISH_USE_MULTICAST then fail_code AVAHI_ERR_NOT_SUPPORTED z
       else do {
         svc_name \<leftarrow> avahi_service_name_join AVAHI_DOMAIN_NAME_MAX (Some name) type domain;
         (case svc_name of
            Inl ret \<Rightarrow> fail_code ret z
          | Inr svc_name \<Rightarrow> do {
              let strlst = (if \<not> has_flag flags AVAHI_PUBLISH_NO_COOKIE then add_magic_cookie z strlst else strlst);
              r \<leftarrow> server_add_txt_strlst_nocopy v g interface protocol (AVAHI_PUBLISH_UNIQUE OR AVAHI_PUBLISH_UPDATE)
                AVAHI_DEFAULT_TTL (Some svc_name) strlst z;
              Some (code_of r)
            })
       }
     }
   }"

definition avahi_server_update_service_txt_strlst ::
  "(cstr \<Rightarrow> bool) \<Rightarrow> env \<Rightarrow> nat option \<Rightarrow> int \<Rightarrow> protocol \<Rightarrow> u32 \<Rightarrow> cstr \<Rightarrow> cstr \<Rightarrow> cstr option \<Rightarrow>
   string_list \<Rightarrow> 'o zone \<Rightarrow> ('o zone \<times> int) outcome" where
  "avahi_server_update_service_txt_strlst address_parse v g interface protocol flags name type domain strlst z =
     server_update_service_txt_strlst_nocopy address_parse v g interface protocol flags name type domain
       (avahi_string_list_copy strlst) z"

definition avahi_server_update_service_txt ::
  "(cstr \<Rightarrow> bool) \<Rightarrow> env \<Rightarrow> nat option \<Rightarrow> int \<Rightarrow> protocol \<Rightarrow> u32 \<Rightarrow> cstr \<Rightarrow> cstr \<Rightarrow> cstr option \<Rightarrow>
   cstr list \<Rightarrow> 'o zone \<Rightarrow> ('o zone \<times> int) outcome" where
  "avahi_server_update_service_txt address_parse v g interface protocol flags name type domain va z =
     server_update_service_txt_strlst_nocopy address_parse v g interface protocol flags name type domain
       (avahi_string_list_new_va va) z"

definition avahi_server_add_service_subtype ::
  "env \<Rightarrow> nat option \<Rightarrow> int \<Rightarrow> protocol \<Rightarrow> u32 \<Rightarrow> cstr \<Rightarrow> cstr \<Rightarrow> cstr option \<Rightarrow> cstr \<Rightarrow> 'o zone \<Rightarrow> ('o zone \<times> int) outcome" where
  "avahi_server_add_service_subtype v g interface protocol flags name type domain subtype z = do {
     c \<leftarrow> service_checks (\<lambda>_. False) interface protocol flags (AVAHI_PUBLISH_USE_MULTICAST OR AVAHI_PUBLISH_USE_WIDE_AREA)
       name type domain None;
     if c \<noteq> AVAHI_OK then fail_code c z
     else if \<not> avahi_is_valid_service_subtype subtype then fail_code AVAHI_ERR_INVALID_SERVICE_SUBTYPE z
     else do {
       let domain = (case domain of None \<Rightarrow> z_domain_name z | Some d \<Rightarrow> d);
       flags \<leftarrow> transport_flags_from_domain z flags domain;
       if \<not> has_flag flags AVAHI_PUBLISH_USE_MULTICAST then fail_code AVAHI_ERR_NOT_SUPPORTED z
       else do {
         svc_name \<leftarrow> avahi_service_name_join AVAHI_DOMAIN_NAME_MAX (Some name) type domain;
         (case svc_name of
            Inl ret \<Rightarrow> fail_code ret z
          | Inr svc_name \<Rightarrow> do {
              ptr_name \<leftarrow> avahi_service_name_join AVAHI_DOMAIN_NAME_MAX None subtype domain;
              (case ptr_name of
                 Inl ret \<Rightarrow> fail_code ret z
               | Inr ptr_name \<Rightarrow> avahi_server_add_ptr v g interface protocol 0 AVAHI_DEFAULT_TTL (Some ptr_name) svc_name z)
            })
       }
     }
   }"

subsection \<open>DNS servers\<close>

text \<open>\<open>b\<close> says whether the low half of the byte at the front comes next.\<close>

fun hexstring_loop :: "bool \<Rightarrow> nat \<Rightarrow> byte list \<Rightarrow> cstr" where
  "hexstring_loop b sl [] = []"
| "hexstring_loop b sl (k # p) =
     (if sl > 1 then
        hex_digit (unat ((if b then k else drop_bit 4 k) AND 0xF)) #
        (if b then hexstring_loop False (sl - 1) p
         else if sl - 1 > 1 then hex_digit (unat (k AND 0xF)) # hexstring_loop False (sl - 2) p else [])
      else [])"

definition hexstring :: "nat \<Rightarrow> byte list \<Rightarrow> cstr" where
  "hexstring sl p = hexstring_loop False sl p"

definition server_add_dns_server_name ::
  "(cstr \<Rightarrow> bool) \<Rightarrow> env \<Rightarrow> nat option \<Rightarrow> int \<Rightarrow> protocol \<Rightarrow> u32 \<Rightarrow> cstr option \<Rightarrow> dns_server_type \<Rightarrow> cstr \<Rightarrow> u16 \<Rightarrow> 'o zone \<Rightarrow>
   ('o zone \<times> nat option) outcome" where
  "server_add_dns_server_name address_parse v g interface protocol flags domain type name port z =
     (if \<not> flags_valid flags (AVAHI_PUBLISH_USE_WIDE_AREA OR AVAHI_PUBLISH_USE_MULTICAST) then fail_null AVAHI_ERR_INVALID_FLAGS z
      else if \<not> (type = AVAHI_DNS_SERVER_UPDATE \<or> type = AVAHI_DNS_SERVER_RESOLVE) then fail_null AVAHI_ERR_INVALID_FLAGS z
      else if port = 0 then fail_null AVAHI_ERR_INVALID_PORT z
      else do {
        fqdn \<leftarrow> avahi_is_valid_fqdn address_parse name;
        if \<not> fqdn then fail_null AVAHI_ERR_INVALID_HOST_NAME z
        else if \<not> (case domain of None \<Rightarrow> True | Some d \<Rightarrow> avahi_is_valid_domain_name d) then fail_null AVAHI_ERR_INVALID_DOMAIN_NAME z
        else do {
          let domain = (case domain of None \<Rightarrow> z_domain_name z | Some d \<Rightarrow> d);
          flags \<leftarrow> transport_flags_from_domain z flags domain;
          if \<not> has_flag flags AVAHI_PUBLISH_USE_MULTICAST then fail_null AVAHI_ERR_NOT_SUPPORTED z
          else do {
            n \<leftarrow> avahi_normalize_name_strdup name;
            if n = None then fail_null AVAHI_ERR_NO_MEMORY z
            else do {
              m \<leftarrow> avahi_normalize_name domain AVAHI_DOMAIN_NAME_MAX;
              normalized_d \<leftarrow> m;
              let t = take (AVAHI_DOMAIN_NAME_MAX - 1)
                ((if type = AVAHI_DNS_SERVER_RESOLVE then str ''_domain._udp'' else str ''_dns-update._udp'') @ str ''.'' @ normalized_d);
              r \<leftarrow> avahi_record_new_full t AVAHI_DNS_CLASS_IN AVAHI_DNS_TYPE_SRV AVAHI_DEFAULT_TTL_HOST_NAME;
              (case r of
                 None \<Rightarrow> fail_null AVAHI_ERR_NO_MEMORY z
               | Some r \<Rightarrow> server_add_internal v g interface protocol 0 (r\<lparr>rr_data := Srv 0 0 port (the n)\<rparr>) z)
            }
          }
        }
      })"

text \<open>
  \<open>n\<close> is a buffer of 64 bytes that \<open>snprintf\<close> fills with the host name and the domain. A NULL from
  \<open>avahi_record_new_full\<close> is written through before it is tested: a crash.
\<close>

definition avahi_server_add_dns_server_address ::
  "(cstr \<Rightarrow> bool) \<Rightarrow> env \<Rightarrow> nat option \<Rightarrow> int \<Rightarrow> protocol \<Rightarrow> u32 \<Rightarrow> cstr option \<Rightarrow> dns_server_type \<Rightarrow> address \<Rightarrow> u16 \<Rightarrow> 'o zone \<Rightarrow>
   ('o zone \<times> int) outcome" where
  "avahi_server_add_dns_server_address address_parse v g interface protocol flags domain type address port z =
     (if \<not> if_valid interface then fail_code AVAHI_ERR_INVALID_INTERFACE z
      else if \<not> (proto_valid protocol \<and> proto_valid (proto address)) then fail_code AVAHI_ERR_INVALID_PROTOCOL z
      else if \<not> flags_valid flags (AVAHI_PUBLISH_USE_MULTICAST OR AVAHI_PUBLISH_USE_WIDE_AREA) then fail_code AVAHI_ERR_INVALID_FLAGS z
      else if \<not> (type = AVAHI_DNS_SERVER_UPDATE \<or> type = AVAHI_DNS_SERVER_RESOLVE) then fail_code AVAHI_ERR_INVALID_FLAGS z
      else if port = 0 then fail_code AVAHI_ERR_INVALID_PORT z
      else if \<not> (case domain of None \<Rightarrow> True | Some d \<Rightarrow> avahi_is_valid_domain_name d) then fail_code AVAHI_ERR_INVALID_DOMAIN_NAME z
      else do {
        let domain = (case domain of None \<Rightarrow> z_domain_name z | Some d \<Rightarrow> d);
        flags \<leftarrow> transport_flags_from_domain z flags domain;
        if \<not> has_flag flags AVAHI_PUBLISH_USE_MULTICAST then fail_code AVAHI_ERR_NOT_SUPPORTED z
        else do {
          let is_ipv4 = (proto address = AVAHI_PROTO_INET);
          let h = hexstring 64 (take (if is_ipv4 then 4 else 16) (addr_bytes address));
          let n = take 63 ((if is_ipv4 then str ''ip-'' else str ''ip6-'') @ h @ str ''.'' @ domain);
          r \<leftarrow> avahi_record_new_full n AVAHI_DNS_CLASS_IN (if is_ipv4 then AVAHI_DNS_TYPE_A else AVAHI_DNS_TYPE_AAAA)
            AVAHI_DEFAULT_TTL_HOST_NAME;
          r \<leftarrow> r;
          let r = r\<lparr>rr_data := (if is_ipv4 then A_addr (take 4 (addr_bytes address)) else Aaaa_addr (take 16 (addr_bytes address)))\<rparr>;
          (z, a_entry) \<leftarrow> server_add_internal v g interface protocol (AVAHI_PUBLISH_UNIQUE OR AVAHI_PUBLISH_ALLOW_MULTIPLE) r z;
          (case a_entry of
             None \<Rightarrow> Some (z, z_error z)
           | Some e \<Rightarrow> do {
               (z, s_entry) \<leftarrow> server_add_dns_server_name address_parse v g interface protocol flags (Some domain) type n port z;
               if s_entry = None then do {
                 z \<leftarrow> (if \<not> has_flag flags AVAHI_PUBLISH_UPDATE then avahi_entry_free e z else Some z);
                 Some (z, z_error z)
               } else Some (z, AVAHI_OK)
             })
        }
      })"

subsection \<open>The life of a group\<close>

definition avahi_s_entry_group_new :: "timeval \<Rightarrow> 'o zone \<Rightarrow> 'o zone \<times> nat" where
  "avahi_s_entry_group_new junk z =
     (let g = z_next z;
          z = z\<lparr>z_next := g + 1, z_group := (z_group z)(g \<mapsto>
            \<lparr>g_dead = False, g_state = AVAHI_ENTRY_GROUP_UNCOMMITED, g_n_probing = 0, g_n_register_try = 0,
             g_register_time = \<lparr>tv_sec = 0, tv_usec = 0\<rparr>, g_register_time_event = None, g_established_at = junk,
             g_entries = []\<rparr>)\<rparr>
      in (z\<lparr>z_groups := g # z_groups z\<rparr>, g))"

definition cleanup_time_event_callback :: "'o zone \<Rightarrow> 'o zone outcome" where
  "cleanup_time_event_callback z = avahi_cleanup_dead_entries z"

definition schedule_cleanup :: "env \<Rightarrow> 'o zone \<Rightarrow> 'o zone outcome" where
  "schedule_cleanup v z =
     (if z_cleanup_time_event z = None then do {
        let (tv, j) = elapse v 1000 0 (z_jitter z);
        (q, t) \<leftarrow> avahi_time_event_new (z_time_event_queue z) (Some tv) Cleanup;
        Some (z\<lparr>z_jitter := j, z_time_event_queue := q, z_cleanup_time_event := Some t\<rparr>)
      } else Some z)"

text \<open>The loop that ends every live entry of a group, of \<open>avahi_s_entry_group_free\<close> and \<open>avahi_s_entry_group_reset\<close>.\<close>

definition kill_entry :: "bool \<Rightarrow> nat \<Rightarrow> 'o zone \<Rightarrow> 'o zone outcome" where
  "kill_entry send_goodbye e z = do {
     y \<leftarrow> z_entry z e;
     if e_dead y then Some z
     else do {
       z \<leftarrow> avahi_goodbye_entry e send_goodbye True z;
       mod_entry e (\<lambda>y. y\<lparr>e_dead := True\<rparr>) z
     }
   }"

definition avahi_s_entry_group_free :: "env \<Rightarrow> nat \<Rightarrow> 'o zone \<Rightarrow> 'o zone outcome" where
  "avahi_s_entry_group_free v g z = do {
     x \<leftarrow> z_group z g;
     z \<leftarrow> for_each (kill_entry True) (g_entries x) z;
     x \<leftarrow> z_group z g;
     z \<leftarrow> (if g_register_time_event x \<noteq> None then clear_register_timer g z else Some z);
     z \<leftarrow> mod_group g (\<lambda>x. x\<lparr>g_dead := True\<rparr>) z;
     schedule_cleanup v (z\<lparr>z_need_group_cleanup := True, z_need_entry_cleanup := True\<rparr>)
   }"

definition entry_group_commit_real :: "'o group_callback \<Rightarrow> env \<Rightarrow> nat \<Rightarrow> 'o zone \<Rightarrow> 'o zone outcome" where
  "entry_group_commit_real cb v g z = do {
     z \<leftarrow> mod_group g (\<lambda>x. x\<lparr>g_register_time := env_now v\<rparr>) z;
     z \<leftarrow> avahi_s_entry_group_change_state cb v g AVAHI_ENTRY_GROUP_REGISTERING z;
     x \<leftarrow> z_group z g;
     if g_dead x then Some z
     else do {
       z \<leftarrow> avahi_announce_group v g z;
       avahi_s_entry_group_check_probed cb v False g z
     }
   }"

definition entry_group_register_time_event_callback :: "'o group_callback \<Rightarrow> env \<Rightarrow> nat \<Rightarrow> 'o zone \<Rightarrow> 'o zone outcome" where
  "entry_group_register_time_event_callback cb v g z = do {
     z \<leftarrow> clear_register_timer g z;
     entry_group_commit_real cb v g z
   }"

definition avahi_s_entry_group_is_empty :: "nat \<Rightarrow> 'o zone \<Rightarrow> bool outcome" where
  "avahi_s_entry_group_is_empty g z = do {
     x \<leftarrow> z_group z g;
     e \<leftarrow> find_first (\<lambda>e. do { y \<leftarrow> z_entry z e; Some (\<not> e_dead y) }) (g_entries x);
     Some (e = None)
   }"

definition holdoff_usec :: "nat \<Rightarrow> int" where
  "holdoff_usec n_try =
     1000 * (if n_try \<ge> AVAHI_RR_RATE_LIMIT_COUNT then AVAHI_RR_HOLDOFF_MSEC_RATE_LIMIT else AVAHI_RR_HOLDOFF_MSEC)"

definition avahi_s_entry_group_commit :: "'o group_callback \<Rightarrow> env \<Rightarrow> nat \<Rightarrow> 'o zone \<Rightarrow> ('o zone \<times> int) outcome" where
  "avahi_s_entry_group_commit cb v g z = do {
     x \<leftarrow> z_group z g;
     assert_that (\<not> g_dead x);
     if g_state x \<noteq> AVAHI_ENTRY_GROUP_UNCOMMITED \<and> g_state x \<noteq> AVAHI_ENTRY_GROUP_COLLISION then fail_code AVAHI_ERR_BAD_STATE z
     else do {
       empty \<leftarrow> avahi_s_entry_group_is_empty g z;
       if empty then fail_code AVAHI_ERR_IS_EMPTY z
       else do {
         let n = g_n_register_try x + 1;
         let tv = avahi_timeval_add (g_register_time x) (holdoff_usec n);
         z \<leftarrow> mod_group g (\<lambda>x. x\<lparr>g_n_register_try := n, g_register_time := tv\<rparr>) z;
         if avahi_timeval_compare tv (env_now v) \<le> 0 then do {
           z \<leftarrow> entry_group_commit_real cb v g z;
           Some (z, AVAHI_OK)
         } else do {
           assert_that (g_register_time_event x = None);
           (q, t) \<leftarrow> avahi_time_event_new (z_time_event_queue z) (Some tv) (Register_time g);
           z \<leftarrow> mod_group g (\<lambda>x. x\<lparr>g_register_time_event := Some t\<rparr>) (z\<lparr>z_time_event_queue := q\<rparr>);
           z \<leftarrow> avahi_s_entry_group_change_state cb v g AVAHI_ENTRY_GROUP_REGISTERING z;
           Some (z, AVAHI_OK)
         }
       }
     }
   }"

definition avahi_s_entry_group_reset :: "'o group_callback \<Rightarrow> env \<Rightarrow> nat \<Rightarrow> 'o zone \<Rightarrow> 'o zone outcome" where
  "avahi_s_entry_group_reset cb v g z = do {
     x \<leftarrow> z_group z g;
     z \<leftarrow> for_each (kill_entry True) (g_entries x) z;
     let z = z\<lparr>z_need_entry_cleanup := True\<rparr>;
     z \<leftarrow> mod_group g (\<lambda>x. x\<lparr>g_n_probing := 0\<rparr>) z;
     z \<leftarrow> avahi_s_entry_group_change_state cb v g AVAHI_ENTRY_GROUP_UNCOMMITED z;
     schedule_cleanup v z
   }"

definition avahi_s_entry_group_get_state :: "nat \<Rightarrow> 'o zone \<Rightarrow> group_state outcome" where
  "avahi_s_entry_group_get_state g z = do { x \<leftarrow> z_group z g; assert_that (\<not> g_dead x); Some (g_state x) }"

end
