(* ===== verification/Zoneinv.thy ===== *)
theory Zoneinv
  imports Entry
begin

text \<open>
  The invariant of the zone, and that the steps of announcers keep it. It says that the lists and the
  hash map hold exactly the objects that belong to them; that an announcer has a timer exactly while it
  probes or announces; that announcers belong to live entries of committed groups; and that \<open>g_n_probing\<close> is
  no less than the number of announcers of the group that probe, so that it never wraps around.
\<close>

subsection \<open>The invariant\<close>

definition normal_name :: "cstr \<Rightarrow> bool" where
  "normal_name n \<longleftrightarrow> avahi_normalize_name_strdup n = Some (Some n) \<and> labels_of n \<noteq> None"

text \<open>The records a client may publish: readable, with a normal name, and with data that can be copied.\<close>

definition sound_record :: "rr \<Rightarrow> bool" where
  "sound_record r \<longleftrightarrow> rr_readable r \<and> rr_data r \<noteq> Generic None \<and> rr_data r \<noteq> Unset \<and> normal_name (key_name (rr_key r))"

definition group_of :: "'o zone \<Rightarrow> nat \<Rightarrow> nat option" where
  "group_of z e = (case z_entry z e of None \<Rightarrow> None | Some y \<Rightarrow> e_group y)"

definition canon_of :: "'o zone \<Rightarrow> nat \<Rightarrow> canon_key option" where
  "canon_of z e = map_option (\<lambda>y. key_canon (rr_key (e_record y))) (z_entry z e)"

definition entries_ok :: "'o zone \<Rightarrow> bool" where
  "entries_ok z \<longleftrightarrow> distinct (z_entries z) \<and> set (z_entries z) = dom (z_entry z) \<and>
     (\<forall>e y. z_entry z e = Some y \<longrightarrow> e < z_next z \<and> sound_record (e_record y) \<and> \<not> avahi_key_is_pattern (rr_key (e_record y)) \<and> if_valid (e_interface y) \<and>
        (\<forall>g. e_group y = Some g \<longrightarrow> z_group z g \<noteq> None) \<and> (e_dead y \<longrightarrow> e_announcers y = []))"

definition groups_ok :: "'o zone \<Rightarrow> bool" where
  "groups_ok z \<longleftrightarrow> distinct (z_groups z) \<and> set (z_groups z) = dom (z_group z) \<and>
     (\<forall>g x. z_group z g = Some x \<longrightarrow> g < z_next z \<and>
        g_entries x = filter (\<lambda>e. group_of z e = Some g) (z_entries z) \<and>
        (\<forall>e y. g_dead x \<and> z_entry z e = Some y \<and> e_group y = Some g \<longrightarrow> e_dead y))"

definition keys_ok :: "'o zone \<Rightarrow> bool" where
  "keys_ok z \<longleftrightarrow> km_inv (z_entries_by_key z) \<and>
     (\<forall>kc. map_option snd (km_get (z_entries_by_key z) kc) =
        (case filter (\<lambda>e. canon_of z e = Some kc) (z_entries z) of [] \<Rightarrow> None | es \<Rightarrow> Some es))"

definition committed :: "'o zone \<Rightarrow> nat option \<Rightarrow> bool" where
  "committed z g \<longleftrightarrow> (case g of None \<Rightarrow> True | Some g \<Rightarrow> \<exists>w. z_group z g = Some w \<and>
     (g_state w = AVAHI_ENTRY_GROUP_REGISTERING \<or> g_state w = AVAHI_ENTRY_GROUP_ESTABLISHED))"

definition links_ok :: "'o zone \<Rightarrow> bool" where
  "links_ok z \<longleftrightarrow>
     (\<forall>a x. z_announcer z a = Some x \<longrightarrow> a < z_next z \<and>
        (\<exists>y. z_entry z (a_entry x) = Some y \<and> \<not> e_dead y \<and> a \<in> set (e_announcers y) \<and> committed z (e_group y)) \<and>
        (\<exists>i. z_iface z (a_interface x) = Some i \<and> a \<in> set (i_announcers i))) \<and>
     (\<forall>e y. z_entry z e = Some y \<longrightarrow> distinct (e_announcers y) \<and>
        (\<forall>a \<in> set (e_announcers y). \<exists>x. z_announcer z a = Some x \<and> a_entry x = e) \<and>
        (\<forall>a b x w. a \<in> set (e_announcers y) \<and> b \<in> set (e_announcers y) \<and> z_announcer z a = Some x \<and>
           z_announcer z b = Some w \<and> a_interface x = a_interface w \<longrightarrow> a = b)) \<and>
     (\<forall>i x. z_iface z i = Some x \<longrightarrow> distinct (i_announcers x) \<and>
        (\<forall>a \<in> set (i_announcers x). \<exists>w. z_announcer z a = Some w \<and> a_interface w = i)) \<and>
     (\<forall>i \<in> set (z_interfaces z). z_iface z i \<noteq> None) \<and>
     (\<forall>idx is i. z_by_hardware z idx = Some is \<and> i \<in> set is \<longrightarrow> z_iface z i \<noteq> None)"

definition wants_timer :: "announcer_state \<Rightarrow> bool" where
  "wants_timer st \<longleftrightarrow> st = AVAHI_PROBING \<or> st = AVAHI_ANNOUNCING"

definition group_timer_ok :: "'o zone_timer teq \<Rightarrow> nat \<Rightarrow> entry_group \<Rightarrow> bool" where
  "group_timer_ok q g x \<longleftrightarrow> armed_as q (Register_time g) (g_register_time_event x) \<and>
     (g_register_time_event x \<noteq> None \<longrightarrow> g_state x = AVAHI_ENTRY_GROUP_REGISTERING \<and> \<not> g_dead x)"

definition zone_timers_ok :: "'o zone \<Rightarrow> bool" where
  "zone_timers_ok z \<longleftrightarrow> teq_core (z_time_event_queue z) \<and>
     (\<forall>a. case z_announcer z a of
        None \<Rightarrow> armed (z_time_event_queue z) (Elapse_announce a) = {}
      | Some x \<Rightarrow> armed_as (z_time_event_queue z) (Elapse_announce a) (a_time_event x) \<and>
          (a_time_event x \<noteq> None \<longleftrightarrow> wants_timer (a_state x)) \<and>
          (a_state x = AVAHI_WAITING \<longrightarrow> group_of z (a_entry x) \<noteq> None)) \<and>
     (\<forall>g. case z_group z g of
        None \<Rightarrow> armed (z_time_event_queue z) (Register_time g) = {}
      | Some x \<Rightarrow> group_timer_ok (z_time_event_queue z) g x) \<and>
     armed_as (z_time_event_queue z) Cleanup (z_cleanup_time_event z)"

definition probing :: "'o zone \<Rightarrow> nat \<Rightarrow> nat set" where
  "probing z g = {a. \<exists>x. z_announcer z a = Some x \<and> a_state x = AVAHI_PROBING \<and> group_of z (a_entry x) = Some g}"

definition counts_ok :: "'o zone \<Rightarrow> bool" where
  "counts_ok z \<longleftrightarrow> (\<forall>g x. z_group z g = Some x \<longrightarrow> int (card (probing z g)) \<le> g_n_probing x)"

text \<open>Between two announcements nothing is scheduled in the record list.\<close>

definition list_ok :: "'o zone \<Rightarrow> bool" where
  "list_ok z \<longleftrightarrow> rl_inv (z_record_list z) \<and> rl_state (z_record_list z) = ([], [], True)"

definition zone_ok :: "'o zone \<Rightarrow> bool" where
  "zone_ok z \<longleftrightarrow> entries_ok z \<and> groups_ok z \<and> keys_ok z \<and> links_ok z \<and> zone_timers_ok z \<and> counts_ok z \<and> list_ok z"

lemma zone_okD:
  assumes "zone_ok z"
  shows "entries_ok z" "groups_ok z" "keys_ok z" "links_ok z" "zone_timers_ok z" "counts_ok z" "list_ok z"
  using assms by (simp_all add: zone_ok_def)

lemma entries_okD:
  assumes "entries_ok z"
  shows "distinct (z_entries z)" "e \<in> set (z_entries z) \<longleftrightarrow> z_entry z e \<noteq> None"
    "z_entry z e = Some y \<Longrightarrow> e < z_next z" "z_entry z e = Some y \<Longrightarrow> sound_record (e_record y)"
    "z_entry z e = Some y \<Longrightarrow> \<not> avahi_key_is_pattern (rr_key (e_record y))"
    "z_entry z e = Some y \<Longrightarrow> if_valid (e_interface y)"
    "z_entry z e = Some y \<Longrightarrow> e_group y = Some g \<Longrightarrow> \<exists>w. z_group z g = Some w"
    "z_entry z e = Some y \<Longrightarrow> e_dead y \<Longrightarrow> e_announcers y = []"
  using assms unfolding entries_ok_def by (auto simp: dom_def)

lemma groups_okD:
  assumes "groups_ok z"
  shows "distinct (z_groups z)" "g \<in> set (z_groups z) \<longleftrightarrow> z_group z g \<noteq> None"
    "z_group z g = Some x \<Longrightarrow> g < z_next z"
    "z_group z g = Some x \<Longrightarrow> g_entries x = filter (\<lambda>e. group_of z e = Some g) (z_entries z)"
    "z_group z g = Some x \<Longrightarrow> g_dead x \<Longrightarrow> z_entry z e = Some y \<Longrightarrow> e_group y = Some g \<Longrightarrow> e_dead y"
  using assms unfolding groups_ok_def by (auto simp: dom_def)

lemma links_okD:
  assumes "links_ok z"
  shows "z_announcer z a = Some x \<Longrightarrow> a < z_next z"
    "z_announcer z a = Some x \<Longrightarrow> \<exists>y. z_entry z (a_entry x) = Some y \<and> \<not> e_dead y \<and> a \<in> set (e_announcers y) \<and> committed z (e_group y)"
    "z_announcer z a = Some x \<Longrightarrow> \<exists>i. z_iface z (a_interface x) = Some i \<and> a \<in> set (i_announcers i)"
    "z_entry z e = Some y \<Longrightarrow> distinct (e_announcers y)"
    "z_entry z e = Some y \<Longrightarrow> a \<in> set (e_announcers y) \<Longrightarrow> \<exists>x. z_announcer z a = Some x \<and> a_entry x = e"
    "z_entry z e = Some y \<Longrightarrow> a \<in> set (e_announcers y) \<Longrightarrow> b \<in> set (e_announcers y) \<Longrightarrow> z_announcer z a = Some x \<Longrightarrow>
       z_announcer z b = Some w \<Longrightarrow> a_interface x = a_interface w \<Longrightarrow> a = b"
    "z_iface z i = Some u \<Longrightarrow> distinct (i_announcers u)"
    "z_iface z i = Some u \<Longrightarrow> a \<in> set (i_announcers u) \<Longrightarrow> \<exists>x. z_announcer z a = Some x \<and> a_interface x = i"
    "i \<in> set (z_interfaces z) \<Longrightarrow> \<exists>u. z_iface z i = Some u"
    "z_by_hardware z idx = Some is \<Longrightarrow> i \<in> set is \<Longrightarrow> \<exists>u. z_iface z i = Some u"
  using assms unfolding links_ok_def by (blast | metis not_None_eq)+

lemma zone_timers_okD:
  assumes "zone_timers_ok z"
  shows "teq_core (z_time_event_queue z)"
    "z_announcer z a = None \<Longrightarrow> armed (z_time_event_queue z) (Elapse_announce a) = {}"
    "z_announcer z a = Some x \<Longrightarrow> armed_as (z_time_event_queue z) (Elapse_announce a) (a_time_event x)"
    "z_announcer z a = Some x \<Longrightarrow> a_time_event x \<noteq> None \<longleftrightarrow> wants_timer (a_state x)"
    "z_announcer z a = Some x \<Longrightarrow> a_state x = AVAHI_WAITING \<Longrightarrow> group_of z (a_entry x) \<noteq> None"
    "z_group z g = None \<Longrightarrow> armed (z_time_event_queue z) (Register_time g) = {}"
    "z_group z g = Some w \<Longrightarrow> group_timer_ok (z_time_event_queue z) g w"
    "armed_as (z_time_event_queue z) Cleanup (z_cleanup_time_event z)"
proof -
  note d = assms [unfolded zone_timers_ok_def]
  show "teq_core (z_time_event_queue z)" "armed_as (z_time_event_queue z) Cleanup (z_cleanup_time_event z)" using d by blast+
  have a: "case z_announcer z a of
        None \<Rightarrow> armed (z_time_event_queue z) (Elapse_announce a) = {}
      | Some x \<Rightarrow> armed_as (z_time_event_queue z) (Elapse_announce a) (a_time_event x) \<and>
          (a_time_event x \<noteq> None \<longleftrightarrow> wants_timer (a_state x)) \<and>
          (a_state x = AVAHI_WAITING \<longrightarrow> group_of z (a_entry x) \<noteq> None)" using d by blast
  show "z_announcer z a = None \<Longrightarrow> armed (z_time_event_queue z) (Elapse_announce a) = {}" using a by simp
  assume x: "z_announcer z a = Some x"
  show "armed_as (z_time_event_queue z) (Elapse_announce a) (a_time_event x)" using a x by simp
  show "a_time_event x \<noteq> None \<longleftrightarrow> wants_timer (a_state x)" using a x by simp
  show "a_state x = AVAHI_WAITING \<Longrightarrow> group_of z (a_entry x) \<noteq> None" using a x by simp
next
  have "case z_group z g of
        None \<Rightarrow> armed (z_time_event_queue z) (Register_time g) = {}
      | Some x \<Rightarrow> group_timer_ok (z_time_event_queue z) g x" using assms unfolding zone_timers_ok_def by blast
  then show "z_group z g = None \<Longrightarrow> armed (z_time_event_queue z) (Register_time g) = {}"
    "z_group z g = Some w \<Longrightarrow> group_timer_ok (z_time_event_queue z) g w" by simp_all
qed

text \<open>What the invariant does not look at.\<close>

definition same_zone :: "'o zone \<Rightarrow> 'o zone \<Rightarrow> bool" where
  "same_zone z z' \<longleftrightarrow> z_entry z' = z_entry z \<and> z_group z' = z_group z \<and> z_announcer z' = z_announcer z \<and>
     z_iface z' = z_iface z \<and> z_next z' = z_next z \<and> z_entries z' = z_entries z \<and> z_groups z' = z_groups z \<and>
     z_interfaces z' = z_interfaces z \<and> z_by_hardware z' = z_by_hardware z \<and> z_entries_by_key z' = z_entries_by_key z \<and>
     z_cleanup_time_event z' = z_cleanup_time_event z \<and> z_time_event_queue z' = z_time_event_queue z"

lemma group_of_cong: "z_entry z' = z_entry z \<Longrightarrow> group_of z' = group_of z"
  by (simp add: group_of_def [abs_def])

lemma canon_of_cong: "z_entry z' = z_entry z \<Longrightarrow> canon_of z' = canon_of z"
  by (simp add: canon_of_def [abs_def])

lemma same_zoneD:
  assumes "same_zone z z'"
  shows "z_entry z' = z_entry z" "z_group z' = z_group z" "z_announcer z' = z_announcer z" "z_iface z' = z_iface z"
    "z_next z' = z_next z" "z_entries z' = z_entries z" "z_groups z' = z_groups z" "z_interfaces z' = z_interfaces z"
    "z_by_hardware z' = z_by_hardware z" "z_entries_by_key z' = z_entries_by_key z"
    "z_cleanup_time_event z' = z_cleanup_time_event z" "z_time_event_queue z' = z_time_event_queue z"
proof -
  note d = assms [unfolded same_zone_def]
  show "z_entry z' = z_entry z" by (rule d [THEN conjunct1])
  show "z_group z' = z_group z" by (rule d [THEN conjunct2, THEN conjunct1])
  show "z_announcer z' = z_announcer z" by (rule d [THEN conjunct2, THEN conjunct2, THEN conjunct1])
  show "z_iface z' = z_iface z" by (rule d [THEN conjunct2, THEN conjunct2, THEN conjunct2, THEN conjunct1])
  show "z_next z' = z_next z" by (rule d [THEN conjunct2, THEN conjunct2, THEN conjunct2, THEN conjunct2, THEN conjunct1])
  show "z_entries z' = z_entries z" by (rule d [THEN conjunct2, THEN conjunct2, THEN conjunct2, THEN conjunct2, THEN conjunct2, THEN conjunct1])
  show "z_groups z' = z_groups z" by (rule d [THEN conjunct2, THEN conjunct2, THEN conjunct2, THEN conjunct2, THEN conjunct2, THEN conjunct2, THEN conjunct1])
  show "z_interfaces z' = z_interfaces z" by (rule d [THEN conjunct2, THEN conjunct2, THEN conjunct2, THEN conjunct2, THEN conjunct2, THEN conjunct2, THEN conjunct2, THEN conjunct1])
  show "z_by_hardware z' = z_by_hardware z" by (rule d [THEN conjunct2, THEN conjunct2, THEN conjunct2, THEN conjunct2, THEN conjunct2, THEN conjunct2, THEN conjunct2, THEN conjunct2, THEN conjunct1])
  show "z_entries_by_key z' = z_entries_by_key z" by (rule d [THEN conjunct2, THEN conjunct2, THEN conjunct2, THEN conjunct2, THEN conjunct2, THEN conjunct2, THEN conjunct2, THEN conjunct2, THEN conjunct2, THEN conjunct1])
  show "z_cleanup_time_event z' = z_cleanup_time_event z" by (rule d [THEN conjunct2, THEN conjunct2, THEN conjunct2, THEN conjunct2, THEN conjunct2, THEN conjunct2, THEN conjunct2, THEN conjunct2, THEN conjunct2, THEN conjunct2, THEN conjunct1])
  show "z_time_event_queue z' = z_time_event_queue z" by (rule d [THEN conjunct2, THEN conjunct2, THEN conjunct2, THEN conjunct2, THEN conjunct2, THEN conjunct2, THEN conjunct2, THEN conjunct2, THEN conjunct2, THEN conjunct2, THEN conjunct2])
qed

lemma same_zone_views:
  assumes "same_zone z z'"
  shows "group_of z' = group_of z" "canon_of z' = canon_of z" "committed z' = committed z"
    "probing z' = probing z"
proof -
  note e = same_zoneD [OF assms]
  show g: "group_of z' = group_of z" by (rule group_of_cong [OF e(1)])
  show "canon_of z' = canon_of z" by (rule canon_of_cong [OF e(1)])
  show "committed z' = committed z" by (rule ext) (simp only: committed_def e(2))
  show "probing z' = probing z" by (rule ext) (simp only: probing_def e(3) g)
qed

lemma same_zone_parts:
  assumes "same_zone z z'"
  shows "entries_ok z' = entries_ok z" "groups_ok z' = groups_ok z" "keys_ok z' = keys_ok z" "links_ok z' = links_ok z"
    "zone_timers_ok z' = zone_timers_ok z" "counts_ok z' = counts_ok z"
proof -
  note s = same_zoneD [OF assms] same_zone_views [OF assms]
  show "entries_ok z' = entries_ok z" unfolding entries_ok_def s by (rule refl)
  show "groups_ok z' = groups_ok z" unfolding groups_ok_def s by (rule refl)
  show "keys_ok z' = keys_ok z" unfolding keys_ok_def s by (rule refl)
  show "links_ok z' = links_ok z" unfolding links_ok_def s by (rule refl)
  show "zone_timers_ok z' = zone_timers_ok z" unfolding zone_timers_ok_def s by (rule refl)
  show "counts_ok z' = counts_ok z" unfolding counts_ok_def s by (rule refl)
qed

lemma same_zone_inv:
  assumes "same_zone z z'" "zone_ok z" "list_ok z'"
  shows "zone_ok z'"
  using assms(2,3) unfolding zone_ok_def same_zone_parts [OF assms(1)] by blast

lemma same_zone_refl: "same_zone z z"
  by (simp add: same_zone_def)

lemma same_zone_trans: "same_zone z1 z2 \<Longrightarrow> same_zone z2 z3 \<Longrightarrow> same_zone z1 z3"
  by (simp add: same_zone_def)

end
