(* ===== verification/Zoneannounce.thy ===== *)
theory Zoneannounce
  imports Zoneinv
begin

text \<open>
  The steps of announcers keep the invariant of the zone: collecting the records of an announcement and posting
  them, and the operations on one announcer, its timer and the counter of its group (avahi-core/announce.c).
\<close>

subsection \<open>Reading the zone\<close>

lemma get_announcer_cases:
  assumes "links_ok z" "z_entry z e = Some y"
  obtains (none) "get_announcer z e i = Some None"
      "\<And>a x. a \<in> set (e_announcers y) \<Longrightarrow> z_announcer z a = Some x \<Longrightarrow> a_interface x \<noteq> i"
  | (some) a x where "get_announcer z e i = Some (Some a)" "a \<in> set (e_announcers y)" "z_announcer z a = Some x"
      "a_interface x = i" "a_entry x = e"
proof -
  note d = links_okD [OF assms(1)]
  have r: "\<exists>b. (do { x \<leftarrow> z_announcer z a; Some (a_interface x = i) }) = Some b" if "a \<in> set (e_announcers y)" for a
    using d(5) [OF assms(2) that] by auto
  show thesis
  proof (rule find_first_cases [OF r, of "e_announcers y"], assumption)
    assume n: "find_first (\<lambda>a. do { x \<leftarrow> z_announcer z a; Some (a_interface x = i) }) (e_announcers y) = Some None"
      "\<And>a. a \<in> set (e_announcers y) \<Longrightarrow> (do { x \<leftarrow> z_announcer z a; Some (a_interface x = i) }) = Some False"
    show thesis
    proof (rule none)
      show "get_announcer z e i = Some None" using n(1) assms(2) by (simp add: get_announcer_def)
      show "a_interface x \<noteq> i" if "a \<in> set (e_announcers y)" "z_announcer z a = Some x" for a x using n(2) [OF that(1)] that(2) by simp
    qed
  next
    fix a
    assume s: "find_first (\<lambda>a. do { x \<leftarrow> z_announcer z a; Some (a_interface x = i) }) (e_announcers y) = Some (Some a)"
      "a \<in> set (e_announcers y)" "(do { x \<leftarrow> z_announcer z a; Some (a_interface x = i) }) = Some True"
    from d(5) [OF assms(2) s(2)] obtain x where x: "z_announcer z a = Some x" "a_entry x = e" by blast
    show thesis by (rule some [of a x]) (use s x assms(2) in \<open>simp_all add: get_announcer_def\<close>)
  qed
qed

lemma is_registered_returns:
  assumes "links_ok z" "z_entry z e = Some y" "\<not> e_dead y"
  shows "\<exists>b. avahi_entry_is_registered z e i = Some b"
  using assms(1,2)
proof (cases rule: get_announcer_cases [of z e y i])
  case none
  with assms have "avahi_entry_is_registered z e i = Some False" by (simp add: avahi_entry_is_registered_def)
  then show ?thesis by blast
next
  case (some a x)
  with assms show ?thesis by (simp add: avahi_entry_is_registered_def)
qed

lemma is_commited_eq:
  assumes "entries_ok z" "z_entry z e = Some y" "\<not> e_dead y"
  shows "avahi_entry_is_commited z e = Some (committed z (e_group y))"
proof (cases "e_group y")
  case None
  with assms show ?thesis by (simp add: avahi_entry_is_commited_def committed_def)
next
  case (Some g)
  from entries_okD(7) [OF assms(1,2) Some] obtain w where "z_group z g = Some w" by blast
  with Some assms show ?thesis by (simp add: avahi_entry_is_commited_def committed_def)
qed

lemma key_readable_of: "entries_ok z \<Longrightarrow> z_entry z e = Some y \<Longrightarrow> key_readable (rr_key (e_record y))"
  using entries_okD(4) [of z e y] by (simp add: sound_record_def rr_readable_key)

lemma entries_with_key_eq:
  assumes "keys_ok z" "key_readable k"
  shows "entries_with_key z k = Some (filter (\<lambda>e. canon_of z e = Some (key_canon k)) (z_entries z))"
proof -
  from assms(1) have k: "km_inv (z_entries_by_key z)" "map_option snd (km_get (z_entries_by_key z) (key_canon k)) =
      (case filter (\<lambda>e. canon_of z e = Some (key_canon k)) (z_entries z) of [] \<Rightarrow> None | es \<Rightarrow> Some es)"
    unfolding keys_ok_def by blast+
  from km_lookup [OF k(1) assms(2)] k(2) show ?thesis by (simp add: entries_with_key_def split: list.splits)
qed

lemma entries_with_keyD:
  assumes "entries_ok z" "keys_ok z" "key_readable k"
  obtains es where "entries_with_key z k = Some es" "\<And>e. e \<in> set es \<Longrightarrow> \<exists>y. z_entry z e = Some y \<and> key_canon (rr_key (e_record y)) = key_canon k"
proof -
  have "\<exists>y. z_entry z e = Some y \<and> key_canon (rr_key (e_record y)) = key_canon k"
    if "e \<in> set (filter (\<lambda>e. canon_of z e = Some (key_canon k)) (z_entries z))" for e
    using that by (auto simp: canon_of_def)
  with entries_with_key_eq [OF assms(2,3)] that show thesis by blast
qed

subsection \<open>Collecting and posting the records of an announcement\<close>

definition list_open :: "'o zone \<Rightarrow> bool" where
  "list_open z \<longleftrightarrow> rl_inv (z_record_list z) \<and> (\<forall>p \<in> set (fst (snd (rl_state (z_record_list z)))). \<not> fst (snd (snd p)))"

lemma list_ok_open: "list_ok z \<Longrightarrow> list_open z"
  by (simp add: list_ok_def list_open_def)

text \<open>The zone in the middle of collecting: as \<open>z\<close>, with more in its record list.\<close>

definition collecting :: "'o zone \<Rightarrow> 'o zone \<Rightarrow> bool" where
  "collecting z z' \<longleftrightarrow> same_zone z z' \<and> list_open z'"

lemma collectingD:
  assumes "collecting z z'"
  shows "same_zone z z'" "list_open z'" "z_entry z' = z_entry z" "entries_ok z' = entries_ok z" "links_ok z' = links_ok z"
    "keys_ok z' = keys_ok z" "z_entries z' = z_entries z"
proof -
  show s: "same_zone z z'" "list_open z'" using assms by (simp_all add: collecting_def)
  show "z_entry z' = z_entry z" "z_entries z' = z_entries z" by (rule same_zoneD [OF s(1)])+
  show "entries_ok z' = entries_ok z" "links_ok z' = links_ok z" "keys_ok z' = keys_ok z" by (rule same_zone_parts [OF s(1)])+
qed

lemma prepare_response_ok:
  assumes "entries_ok z" "z_entry z e = Some y" "collecting z z'"
  shows "\<exists>z''. avahi_server_prepare_response e False aux z' = Some z'' \<and> collecting z z''"
proof -
  note c = collectingD [OF assms(3)]
  have r: "rr_readable (e_record y)" using entries_okD(4) [OF assms(1,2)] by (simp add: sound_record_def)
  from c(2) have l: "rl_inv (z_record_list z')" "\<forall>p \<in> set (fst (snd (rl_state (z_record_list z')))). \<not> fst (snd (snd p))"
    by (simp_all add: list_open_def)
  obtain rd un all where st: "rl_state (z_record_list z') = (rd, un, all)" by (cases "rl_state (z_record_list z')")
  from rl_push_ok [OF l(1) r, of "has_flag (e_flags y) AVAHI_PUBLISH_UNIQUE" False aux] obtain l' where
    l': "avahi_record_list_push (z_record_list z') (e_record y) (has_flag (e_flags y) AVAHI_PUBLISH_UNIQUE) False aux = Some l'"
      "rl_inv l'" "rl_state l' = rl_spec (rl_state (z_record_list z')) (Rl_push (e_record y) (has_flag (e_flags y) AVAHI_PUBLISH_UNIQUE) False aux)"
    by blast
  have "avahi_server_prepare_response e False aux z' = Some (z'\<lparr>z_record_list := l'\<rparr>)"
    using l'(1) assms(2) c(3) by (simp add: avahi_server_prepare_response_def)
  moreover have "same_zone z' (z'\<lparr>z_record_list := l'\<rparr>)" by (simp add: same_zone_def)
  then have "same_zone z (z'\<lparr>z_record_list := l'\<rparr>)" by (rule same_zone_trans [OF c(1)])
  moreover have "list_open (z'\<lparr>z_record_list := l'\<rparr>)"
    using l(2) l'(2,3) st by (simp add: list_open_def)
  ultimately show ?thesis unfolding collecting_def by blast
qed

lemma prepare_if_registered_ok:
  assumes "entries_ok z" "links_ok z" "z_entry z e = Some y" "collecting z z'"
  shows "\<exists>z''. prepare_if_registered i False e z' = Some z'' \<and> collecting z z''"
proof (cases "e_dead y")
  case True
  with assms collectingD(3) [OF assms(4)] show ?thesis by (simp add: prepare_if_registered_def)
next
  case False
  note c = collectingD [OF assms(4)]
  have y: "z_entry z' e = Some y" using c(3) assms(3) by simp
  from is_registered_returns [of z' e y i] y False assms(2) c(5) obtain b where b: "avahi_entry_is_registered z' e i = Some b" by auto
  show ?thesis
  proof (cases b)
    case True
    with prepare_response_ok [OF assms(1,3,4), of False] y False b show ?thesis by (simp add: prepare_if_registered_def)
  next
    case F: False
    with y False b assms(4) show ?thesis by (simp add: prepare_if_registered_def)
  qed
qed

lemma prepare_by_key_ok:
  assumes "entries_ok z" "links_ok z" "keys_ok z" "key_readable k" "collecting z z1"
  shows "\<exists>z''. prepare_by_key i k False z1 = Some z'' \<and> collecting z z''"
proof (cases "avahi_key_is_pattern k")
  case True
  have "\<exists>z'. prepare_if_match i k False e s = Some z' \<and> collecting z z'" if e: "e \<in> set (z_entries z)" and s: "collecting z s" for e s
  proof -
    from e entries_okD(2) [OF assms(1), of e] obtain y where y: "z_entry z e = Some y" by blast
    have y': "z_entry s e = Some y" using y collectingD(3) [OF s] by simp
    from pattern_match_ok [OF assms(4) key_readable_of [OF assms(1) y] entries_okD(5) [OF assms(1) y]]
    obtain b where b: "avahi_key_pattern_match k (rr_key (e_record y)) = Some b" by blast
    from prepare_if_registered_ok [OF assms(1,2) y s, of i] y' b s show ?thesis
      by (cases "e_dead y"; cases b) (simp_all add: prepare_if_match_def)
  qed
  then have "\<exists>z'. for_each (prepare_if_match i k False) (z_entries z) z1 = Some z' \<and> collecting z z'"
    by (rule for_each_rule) (assumption+, rule assms(5))
  with True collectingD(7) [OF assms(5)] show ?thesis by (simp add: prepare_by_key_def)
next
  case False
  note c = collectingD [OF assms(5)]
  obtain es where es: "entries_with_key z1 k = Some es" "\<And>e. e \<in> set es \<Longrightarrow> \<exists>y. z_entry z1 e = Some y \<and> key_canon (rr_key (e_record y)) = key_canon k"
    by (rule entries_with_keyD [of z1 k]) (use assms(1,3,4) c(4,6) in auto)
  have "\<exists>z'. prepare_if_registered i False e s = Some z' \<and> collecting z z'" if e: "e \<in> set es" and s: "collecting z s" for e s
  proof -
    from es(2) [OF e] c(3) obtain y where "z_entry z e = Some y" by auto
    from prepare_if_registered_ok [OF assms(1,2) this s] show ?thesis .
  qed
  then have "\<exists>z'. for_each (prepare_if_registered i False) es z1 = Some z' \<and> collecting z z'"
    by (rule for_each_rule) (assumption+, rule assms(5))
  with False es(1) show ?thesis by (simp add: prepare_by_key_def)
qed

lemma matching_responses_ok:
  assumes "entries_ok z" "links_ok z" "keys_ok z" "key_readable k" "normal_name (key_name k)" "collecting z z1"
  shows "\<exists>z''. avahi_server_prepare_matching_responses i k False z1 = Some z'' \<and> collecting z z''"
proof -
  from prepare_by_key_ok [OF assms(1-4,6), of i] obtain z2 where
    z2: "prepare_by_key i k False z1 = Some z2" "collecting z z2" by blast
  let ?c = "\<lparr>key_name = key_name k, key_clazz = AVAHI_DNS_CLASS_IN, key_type = AVAHI_DNS_TYPE_CNAME\<rparr>"
  have n: "avahi_key_new (key_name k) AVAHI_DNS_CLASS_IN AVAHI_DNS_TYPE_CNAME = Some (Some ?c)"
    using assms(5) by (simp add: avahi_key_new_def normal_name_def)
  have "key_readable ?c" using assms(4) by (simp add: key_readable_def)
  from prepare_by_key_ok [OF assms(1-3) this z2(2), of i] obtain z3 where
    z3: "prepare_by_key i ?c False z2 = Some z3" "collecting z z3" by blast
  show ?thesis
  proof (cases "wants_cname k")
    case True
    with z2(1) n z3 show ?thesis by (simp add: avahi_server_prepare_matching_responses_def)
  next
    case False
    with z2 show ?thesis by (simp add: avahi_server_prepare_matching_responses_def)
  qed
qed

lemma post_response_returns:
  assumes "z_iface z i \<noteq> None"
  shows "\<exists>l. avahi_interface_post_response i r f q im z = Some (z\<lparr>z_log := l\<rparr>)"
proof -
  from assms obtain x where x: "z_iface z i = Some x" by blast
  have "z\<lparr>z_log := z_log z\<rparr> = z" by simp
  then show ?thesis
  proof (cases "i_announcing x")
    case True
    then show ?thesis using x by (auto simp: avahi_interface_post_response_def log_event_def)
  next
    case False
    then have "avahi_interface_post_response i r f q im z = Some (z\<lparr>z_log := z_log z\<rparr>)"
      using x by (simp add: avahi_interface_post_response_def)
    then show ?thesis by blast
  qed
qed

lemma same_zone_post: "same_zone z (z\<lparr>z_log := l, z_record_list := m\<rparr>)" "same_zone z (z\<lparr>z_log := l\<rparr>)" "same_zone z (z\<lparr>z_record_list := m\<rparr>)"
  by (simp_all add: same_zone_def)

lemma generate_loop_ok:
  assumes "z_iface z i \<noteq> None" "collecting z z1" "length (fst (snd (rl_state (z_record_list z1)))) = n"
  shows "\<exists>z2. generate_loop i im z1 = Some z2 \<and> same_zone z z2 \<and> rl_inv (z_record_list z2)"
  using assms(2,3)
proof (induction n arbitrary: z1)
  case 0
  note c = collectingD [OF 0(1)]
  from c(2) have inv: "rl_inv (z_record_list z1)" by (simp add: list_open_def)
  from rl_next_ok [OF inv] 0(2) obtain l where
    l: "avahi_record_list_next (z_record_list z1) = Some (l, None)" "rl_inv l" by auto
  have "generate_loop i im z1 = Some (z1\<lparr>z_record_list := l\<rparr>)" by (subst generate_loop.simps) (simp add: l(1))
  with l(2) same_zone_trans [OF c(1) same_zone_post(3)] show ?case by auto
next
  case (Suc n)
  note c = collectingD [OF Suc.prems(1)]
  from c(2) have inv: "rl_inv (z_record_list z1)" and
    u: "\<forall>p \<in> set (fst (snd (rl_state (z_record_list z1)))). \<not> fst (snd (snd p))" by (simp_all add: list_open_def)
  obtain rd un all where st: "rl_state (z_record_list z1) = (rd, un, all)" by (cases "rl_state (z_record_list z1)")
  with Suc.prems(2) obtain p un' where un: "un = p # un'" "length un' = n" by (cases un) auto
  obtain r f uc aux where p: "p = (r, f, uc, aux)" by (cases p) auto
  from rl_next_ok [OF inv] obtain l where
    l: "avahi_record_list_next (z_record_list z1) = Some (l, Some (r, f, uc, aux))" "rl_inv l" "rl_state l = (p # rd, un', all)"
    using st un p by auto
  have uc: "\<not> uc" using u st un p by simp
  let ?im = "im \<or> f \<and> \<not> aux \<and> avahi_record_list_all_flush_cache l"
  have "z_iface (z1\<lparr>z_record_list := l\<rparr>) i \<noteq> None" using assms(1) same_zoneD(4) [OF c(1)] by simp
  from post_response_returns [OF this, of r f None ?im] obtain g where
    g: "avahi_interface_post_response i r f None ?im (z1\<lparr>z_record_list := l\<rparr>) = Some (z1\<lparr>z_record_list := l, z_log := g\<rparr>)" by blast
  let ?z = "z1\<lparr>z_record_list := l, z_log := g\<rparr>"
  have "same_zone z1 ?z" by (simp add: same_zone_def)
  then have "collecting z ?z" unfolding collecting_def
    using same_zone_trans [OF c(1)] l(2,3) u st un by (simp add: list_open_def)
  from Suc.IH [OF this] l(3) un(2) obtain z2 where
    z2: "generate_loop i im ?z = Some z2" "same_zone z z2" "rl_inv (z_record_list z2)" by auto
  have "generate_loop i im z1 = Some z2"
    by (subst generate_loop.simps) (simp add: l(1) uc g z2(1) Let_def)
  with z2(2,3) show ?case by blast
qed

lemma generate_announcement_ok:
  assumes "z_iface z i \<noteq> None" "collecting z z1"
  shows "\<exists>z2. generate_announcement i im z1 = Some z2 \<and> same_zone z z2 \<and> list_ok z2"
proof -
  from generate_loop_ok [OF assms refl] obtain z2 where
    z2: "generate_loop i im z1 = Some z2" "same_zone z z2" "rl_inv (z_record_list z2)" by blast
  from rl_flush_ok [OF z2(3)] obtain l where
    l: "avahi_record_list_flush (z_record_list z2) = Some l" "rl_inv l" "rl_state l = ([], [], True)"
    by (cases "rl_state (z_record_list z2)") auto
  from z2(1) l(1) have "generate_announcement i im z1 = Some (z2\<lparr>z_record_list := l\<rparr>)"
    by (simp add: generate_announcement_def)
  moreover have "list_ok (z2\<lparr>z_record_list := l\<rparr>)" using l(2,3) by (simp add: list_ok_def)
  ultimately show ?thesis using same_zone_trans [OF z2(2) same_zone_post(3)] by blast
qed

subsection \<open>Changing one announcer\<close>

definition ann_frame :: "'o zone \<Rightarrow> 'o zone \<Rightarrow> bool" where
  "ann_frame z z' \<longleftrightarrow> z_entry z' = z_entry z \<and> z_iface z' = z_iface z \<and> z_next z' = z_next z \<and> z_entries z' = z_entries z \<and>
     z_groups z' = z_groups z \<and> z_interfaces z' = z_interfaces z \<and> z_by_hardware z' = z_by_hardware z \<and>
     z_entries_by_key z' = z_entries_by_key z \<and> z_cleanup_time_event z' = z_cleanup_time_event z"

lemma ann_frameD:
  assumes "ann_frame z z'"
  shows "z_entry z' = z_entry z" "z_iface z' = z_iface z" "z_next z' = z_next z" "z_entries z' = z_entries z"
    "z_groups z' = z_groups z" "z_interfaces z' = z_interfaces z" "z_by_hardware z' = z_by_hardware z"
    "z_entries_by_key z' = z_entries_by_key z" "z_cleanup_time_event z' = z_cleanup_time_event z"
  using assms by (simp_all add: ann_frame_def)

lemma ann_frame_refl: "ann_frame z z"
  by (simp add: ann_frame_def)

lemma ann_frame_trans: "ann_frame z1 z2 \<Longrightarrow> ann_frame z2 z3 \<Longrightarrow> ann_frame z1 z3"
  by (simp add: ann_frame_def)

lemma same_zone_frame: "same_zone z z' \<Longrightarrow> ann_frame z z'"
  by (simp add: ann_frame_def same_zone_def)

definition shift_probing :: "nat option \<Rightarrow> int \<Rightarrow> (nat \<Rightarrow> entry_group option) \<Rightarrow> nat \<Rightarrow> entry_group option" where
  "shift_probing og d h =
     (case og of None \<Rightarrow> h
      | Some g \<Rightarrow> (case h g of None \<Rightarrow> h | Some w \<Rightarrow> h(g \<mapsto> w\<lparr>g_n_probing := g_n_probing w + d\<rparr>)))"

lemma shift_probing_zero: "shift_probing og 0 h = h"
  by (auto simp: shift_probing_def fun_eq_iff split: option.split)

lemma shift_probing_None: "shift_probing og d h g = None \<longleftrightarrow> h g = None"
  by (auto simp: shift_probing_def split: option.split)

lemma shift_probing_Some:
  assumes "shift_probing og d h g = Some w"
  obtains w0 where "h g = Some w0" "w = w0\<lparr>g_n_probing := g_n_probing w0 + (if og = Some g then d else 0)\<rparr>"
proof -
  from assms shift_probing_None [of og d h g] obtain w0 where w0: "h g = Some w0" by (cases "h g") auto
  have "w = w0\<lparr>g_n_probing := g_n_probing w0 + (if og = Some g then d else 0)\<rparr>"
    using assms w0 by (cases og) (auto simp: shift_probing_def split: option.splits if_splits)
  with w0 that show thesis by blast
qed

lemma shift_probing_committed:
  assumes "z_group z' = shift_probing og d (z_group z)"
  shows "committed z' = committed z"
proof (rule ext)
  fix g
  have "(\<exists>w. z_group z' h = Some w \<and> P (g_state w)) \<longleftrightarrow> (\<exists>w. z_group z h = Some w \<and> P (g_state w))" for h P
    unfolding assms by (cases og) (auto simp: shift_probing_def split: option.splits)
  from this [of _ "\<lambda>s. s = AVAHI_ENTRY_GROUP_REGISTERING \<or> s = AVAHI_ENTRY_GROUP_ESTABLISHED"]
  show "committed z' g = committed z g" by (cases g) (simp_all add: committed_def)
qed

lemma finite_probing: "links_ok z \<Longrightarrow> finite (probing z g)"
proof -
  assume "links_ok z"
  from links_okD(1) [OF this] have "probing z g \<subseteq> {..< z_next z}" by (auto simp: probing_def)
  then show ?thesis by (rule finite_subset) simp
qed

lemma links_ok_announcer:
  assumes "links_ok z" "ann_frame z z'" "z_announcer z a = Some x" "z_announcer z' = (z_announcer z)(a \<mapsto> x')"
    "a_interface x' = a_interface x" "a_entry x' = a_entry x" "committed z' = committed z"
  shows "links_ok z'"
proof -
  note d = links_okD [OF assms(1)] and f = ann_frameD [OF assms(2)]
  have v: "\<exists>w0. z_announcer z b = Some w0 \<and> a_interface w0 = a_interface w \<and> a_entry w0 = a_entry w"
    if "z_announcer z' b = Some w" for b w
    using that assms(3-6) by (cases "b = a") auto
  have r: "\<exists>w. z_announcer z' b = Some w \<and> a_interface w0 = a_interface w \<and> a_entry w0 = a_entry w"
    if "z_announcer z b = Some w0" for b w0
    using that assms(3-6) by (cases "b = a") auto
  show ?thesis
    unfolding links_ok_def f assms(7)
  proof (intro conjI allI impI ballI, goal_cases)
    case (1 b w)
    with v d(1) show ?case by blast
  next
    case (2 b w)
    from v [OF this] d(2) show ?case by metis
  next
    case (3 b w)
    from v [OF this] d(3) show ?case by metis
  next
    case (4 e y)
    with d(4) show ?case by blast
  next
    case (5 e y b)
    from d(5) [OF this] r show ?case by metis
  next
    case (6 e y b c w u)
    then have m: "z_entry z e = Some y" "b \<in> set (e_announcers y)" "c \<in> set (e_announcers y)" "z_announcer z' b = Some w"
      "z_announcer z' c = Some u" "a_interface w = a_interface u" by blast+
    from v [OF m(4)] obtain w0 where w0: "z_announcer z b = Some w0" "a_interface w0 = a_interface w" by blast
    from v [OF m(5)] obtain u0 where u0: "z_announcer z c = Some u0" "a_interface u0 = a_interface u" by blast
    from d(6) [OF m(1-3) w0(1) u0(1)] w0(2) u0(2) m(6) show ?case by simp
  next
    case (7 i u)
    with d(7) show ?case by blast
  next
    case (8 i u b)
    from d(8) [OF this] r show ?case by metis
  next
    case (9 i)
    from d(9) [OF this] show ?case by blast
  next
    case (10 idx js i)
    then show ?case using d(10) by blast
  qed
qed

lemma groups_ok_shift:
  assumes "entries_ok z" "groups_ok z" "ann_frame z z'" "z_group z' = shift_probing og d (z_group z)"
  shows "entries_ok z'" "groups_ok z'"
proof -
  note e = entries_okD [OF assms(1)] and g = groups_okD [OF assms(2)] and f = ann_frameD [OF assms(3)]
  have n: "z_group z' g = None \<longleftrightarrow> z_group z g = None" for g unfolding assms(4) by (rule shift_probing_None)
  show "entries_ok z'"
    using assms(1) unfolding entries_ok_def f n .
  have v: "\<exists>w0. z_group z h = Some w0 \<and> g_entries w = g_entries w0 \<and> g_dead w = g_dead w0" if "z_group z' h = Some w" for h w
    using that [unfolded assms(4)] by (rule shift_probing_Some) auto
  have gr: "group_of z' = group_of z" by (rule group_of_cong [OF f(1)])
  show "groups_ok z'"
    unfolding groups_ok_def f gr
  proof (intro conjI allI impI, goal_cases)
    case 1
    show ?case by (rule g(1))
  next
    case 2
    have "dom (z_group z') = dom (z_group z)" using n by (auto simp: dom_def)
    with assms(2) show ?case by (simp add: groups_ok_def)
  next
    case (3 h w)
    from v [OF this] g(3) show ?case by blast
  next
    case (4 h w)
    from v [OF this] g(4) show ?case by metis
  next
    case (5 h w e y)
    from v [of h w] 5 g(5) [of h _ e y] show ?case by metis
  qed
qed

lemma probing_update:
  assumes "z_entry z' = z_entry z" "z_announcer z a = Some x" "z_announcer z' = (z_announcer z)(a \<mapsto> x')" "a_entry x' = a_entry x"
  shows "probing z' g = (if group_of z (a_entry x) = Some g \<and> a_state x' = AVAHI_PROBING then insert a (probing z g) else probing z g - {a})"
  using assms unfolding probing_def group_of_cong [OF assms(1)] by auto

lemma ann_update:
  assumes z: "zone_ok z" and x: "z_announcer z a = Some x" and f: "ann_frame z z'"
    and ann: "z_announcer z' = (z_announcer z)(a \<mapsto> x')" "a_interface x' = a_interface x" "a_entry x' = a_entry x"
    and grp: "z_group z' = shift_probing (group_of z (a_entry x)) d (z_group z)"
    and d: "of_bool (a_state x' = AVAHI_PROBING) - of_bool (a_state x = AVAHI_PROBING) \<le> d"
    and q: "teq_core (z_time_event_queue z')"
      "armed (z_time_event_queue z') = (armed (z_time_event_queue z))(Elapse_announce a := T)"
      "armed_as (z_time_event_queue z') (Elapse_announce a) (a_time_event x')"
    and t: "a_time_event x' \<noteq> None \<longleftrightarrow> wants_timer (a_state x')"
    and w: "a_state x' = AVAHI_WAITING \<Longrightarrow> group_of z (a_entry x) \<noteq> None"
    and l: "list_ok z'"
  shows "zone_ok z'"
proof -
  note zd = zone_okD [OF z] and fd = ann_frameD [OF f]
  have gr: "group_of z' = group_of z" by (rule group_of_cong [OF fd(1)])
  have cm: "committed z' = committed z" by (rule shift_probing_committed [OF grp])
  have "entries_ok z'" "groups_ok z'" by (rule groups_ok_shift [OF zd(1,2) f grp])+
  moreover have "keys_ok z'"
    using zd(3) unfolding keys_ok_def fd canon_of_cong [OF fd(1)] .
  moreover have "links_ok z'" by (rule links_ok_announcer [OF zd(4) f x ann cm])
  moreover have "zone_timers_ok z'"
  proof -
    note td = zone_timers_okD [OF zd(5)]
    have other: "armed_as (z_time_event_queue z') c t = armed_as (z_time_event_queue z) c t" if "c \<noteq> Elapse_announce a" for c t
      by (rule armed_as_cong) (use that q(2) in simp)
    have other': "armed (z_time_event_queue z') c = armed (z_time_event_queue z) c" if "c \<noteq> Elapse_announce a" for c
      using that q(2) by simp
    show ?thesis
      unfolding zone_timers_ok_def
    proof (intro conjI allI, goal_cases)
      case 1
      show ?case by (rule q(1))
    next
      case (2 b)
      show ?case
      proof (cases "b = a")
        case True
        then show ?thesis using q(3) t w ann gr by simp
      next
        case False
        then have b: "Elapse_announce b \<noteq> Elapse_announce a" "z_announcer z' b = z_announcer z b" using ann(1) by simp_all
        show ?thesis
        proof (cases "z_announcer z b")
          case None
          then show ?thesis using td(2) other' [OF b(1)] b(2) by simp
        next
          case (Some u)
          then show ?thesis using td(3-5) [OF Some] other [OF b(1)] b(2) gr by simp
        qed
      qed
    next
      case (3 g)
      show ?case
      proof (cases "z_group z' g")
        case None
        then have "z_group z g = None" unfolding grp by (simp add: shift_probing_None)
        with td(6) None other' show ?thesis by simp
      next
        case (Some w1)
        with grp have "shift_probing (group_of z (a_entry x)) d (z_group z) g = Some w1" by simp
        then obtain w0 where w0: "z_group z g = Some w0" "g_state w1 = g_state w0" "g_dead w1 = g_dead w0"
          "g_register_time_event w1 = g_register_time_event w0"
          by (rule shift_probing_Some) auto
        with td(7) [OF w0(1)] Some other show ?thesis by (simp add: group_timer_ok_def)
      qed
    next
      case 4
      show ?case using td(8) other fd(9) by simp
    qed
  qed
  moreover have "counts_ok z'"
    unfolding counts_ok_def
  proof (intro allI impI)
    fix g w1
    assume w1: "z_group z' g = Some w1"
    then have "shift_probing (group_of z (a_entry x)) d (z_group z) g = Some w1" unfolding grp .
    then obtain w0 where w0: "z_group z g = Some w0"
      "g_n_probing w1 = g_n_probing w0 + (if group_of z (a_entry x) = Some g then d else 0)"
      by (rule shift_probing_Some) simp
    have c: "int (card (probing z g)) \<le> g_n_probing w0" using zd(6) w0(1) by (simp add: counts_ok_def)
    note fin = finite_probing [OF zd(4), of g]
    have mem: "a \<in> probing z g \<longleftrightarrow> group_of z (a_entry x) = Some g \<and> a_state x = AVAHI_PROBING"
      using x by (auto simp: probing_def)
    have pos: "1 \<le> card (probing z g)" if "a \<in> probing z g" using that fin by (cases "card (probing z g)") auto
    have "int (card (probing z' g)) \<le> int (card (probing z g)) + (if group_of z (a_entry x) = Some g then d else 0)"
      unfolding probing_update [OF fd(1) x ann(1,3)]
      using d mem fin pos by (auto simp: card_insert_if card_Diff_singleton_if of_nat_diff of_bool_def split: if_splits)
    with c w0(2) show "int (card (probing z' g)) \<le> g_n_probing w1" by simp
  qed
  ultimately show ?thesis using l unfolding zone_ok_def by blast
qed

subsection \<open>An operation at work on one announcer\<close>

text \<open>
  \<open>working z a x d z1 x1\<close>: an operation that started in the zone \<open>z\<close> with the announcer \<open>a\<close> as \<open>x\<close> has come to
  \<open>z1\<close>, where \<open>a\<close> is \<open>x1\<close> and the counter of its group has changed by \<open>d\<close>; all else is as it was.
\<close>

definition working :: "'o zone \<Rightarrow> nat \<Rightarrow> announcer \<Rightarrow> int \<Rightarrow> 'o zone \<Rightarrow> announcer \<Rightarrow> bool" where
  "working z a x d z1 x1 \<longleftrightarrow> zone_ok z \<and> z_announcer z a = Some x \<and> ann_frame z z1 \<and>
     z_announcer z1 = (z_announcer z)(a \<mapsto> x1) \<and> a_interface x1 = a_interface x \<and> a_entry x1 = a_entry x \<and>
     z_group z1 = shift_probing (group_of z (a_entry x)) d (z_group z) \<and>
     teq_core (z_time_event_queue z1) \<and>
     (\<exists>T. armed (z_time_event_queue z1) = (armed (z_time_event_queue z))(Elapse_announce a := T)) \<and>
     armed_as (z_time_event_queue z1) (Elapse_announce a) (a_time_event x1) \<and> list_ok z1"

lemma workingD:
  assumes "working z a x d z1 x1"
  shows "zone_ok z" "z_announcer z a = Some x" "ann_frame z z1" "z_announcer z1 = (z_announcer z)(a \<mapsto> x1)"
    "a_interface x1 = a_interface x" "a_entry x1 = a_entry x" "z_group z1 = shift_probing (group_of z (a_entry x)) d (z_group z)"
    "teq_core (z_time_event_queue z1)"
    "\<exists>T. armed (z_time_event_queue z1) = (armed (z_time_event_queue z))(Elapse_announce a := T)"
    "armed_as (z_time_event_queue z1) (Elapse_announce a) (a_time_event x1)" "list_ok z1"
  using assms unfolding working_def by blast+

lemma workingI:
  assumes "zone_ok z" "z_announcer z a = Some x" "ann_frame z z1" "z_announcer z1 = (z_announcer z)(a \<mapsto> x1)"
    "a_interface x1 = a_interface x" "a_entry x1 = a_entry x" "z_group z1 = shift_probing (group_of z (a_entry x)) d (z_group z)"
    "teq_core (z_time_event_queue z1)"
    "armed (z_time_event_queue z1) = (armed (z_time_event_queue z))(Elapse_announce a := T)"
    "armed_as (z_time_event_queue z1) (Elapse_announce a) (a_time_event x1)" "list_ok z1"
  shows "working z a x d z1 x1"
  using assms unfolding working_def by blast

lemma working_views:
  assumes "working z a x d z1 x1"
  shows "z_announcer z1 a = Some x1" "z_entry z1 = z_entry z" "z_iface z1 = z_iface z" "entries_ok z1" "links_ok z1" "keys_ok z1"
    "group_of z1 = group_of z"
proof -
  note w = workingD [OF assms]
  note zd = zone_okD [OF w(1)]
  show "z_announcer z1 a = Some x1" using w(4) by simp
  show e: "z_entry z1 = z_entry z" "z_iface z1 = z_iface z" by (rule ann_frameD [OF w(3)])+
  show "entries_ok z1" by (rule groups_ok_shift(1) [OF zd(1,2) w(3,7)])
  show "links_ok z1" by (rule links_ok_announcer [OF zd(4) w(3,2,4-6) shift_probing_committed [OF w(7)]])
  show "keys_ok z1" using zd(3) unfolding keys_ok_def canon_of_cong [OF e(1)] ann_frameD [OF w(3)] .
  show "group_of z1 = group_of z" by (rule group_of_cong [OF e(1)])
qed

text \<open>The entry of the announcer, its interface and its group exist.\<close>

lemma working_entry:
  assumes "working z a x d z1 x1"
  obtains y where "z_entry z1 (a_entry x) = Some y" "z_entry z (a_entry x) = Some y" "\<not> e_dead y" "sound_record (e_record y)"
    "committed z (e_group y)" "group_of z (a_entry x) = e_group y" "z_iface z1 (a_interface x) \<noteq> None"
proof -
  note w = workingD [OF assms] and v = working_views [OF assms]
  note zd = zone_okD [OF w(1)]
  from links_okD(2) [OF zd(4) w(2)] obtain y where y: "z_entry z (a_entry x) = Some y" "\<not> e_dead y" "committed z (e_group y)" by blast
  from links_okD(3) [OF zd(4) w(2)] v(3) have "z_iface z1 (a_interface x) \<noteq> None" by auto
  with y v(2) entries_okD(4) [OF zd(1) y(1)] that show thesis by (simp add: group_of_def)
qed

lemma working_refl:
  assumes "zone_ok z" "z_announcer z a = Some x"
  shows "working z a x 0 z x"
proof (rule workingI [OF assms ann_frame_refl, where T = "armed (z_time_event_queue z) (Elapse_announce a)"])
  note zd = zone_okD [OF assms(1)]
  show "z_announcer z = (z_announcer z)(a \<mapsto> x)" using assms(2) by (simp add: fun_upd_idem)
  show "z_group z = shift_probing (group_of z (a_entry x)) 0 (z_group z)" by (simp add: shift_probing_zero)
  show "teq_core (z_time_event_queue z)" "list_ok z" using zone_timers_okD(1) [OF zd(5)] zd(7) .
  show "armed_as (z_time_event_queue z) (Elapse_announce a) (a_time_event x)" by (rule zone_timers_okD(3) [OF zd(5) assms(2)])
qed simp_all

lemma working_same:
  assumes "working z a x d z1 x1" "same_zone z1 z2" "list_ok z2"
  shows "working z a x d z2 x1"
proof -
  note w = workingD [OF assms(1)] and s = same_zoneD [OF assms(2)]
  from w(9) obtain T where T: "armed (z_time_event_queue z1) = (armed (z_time_event_queue z))(Elapse_announce a := T)" ..
  show ?thesis
    by (rule workingI [OF w(1,2) ann_frame_trans [OF w(3) same_zone_frame [OF assms(2)]], where T = T])
      (use s w(4-8,10) T assms(3) in simp_all)
qed

lemma working_jitter:
  assumes "working z a x d z1 x1"
  shows "working z a x d (z1\<lparr>z_jitter := j\<rparr>) x1" "working z a x d (z1\<lparr>z_log := l\<rparr>) x1"
  by (rule working_same [OF assms]; use workingD(11) [OF assms] in \<open>simp add: same_zone_def list_ok_def\<close>)+

lemma working_state:
  assumes "working z a x d z1 x1" "a_interface (f x1) = a_interface x1" "a_entry (f x1) = a_entry x1" "a_time_event (f x1) = a_time_event x1"
  shows "\<exists>z2. mod_announcer a f z1 = Some z2 \<and> working z a x d z2 (f x1) \<and> z_jitter z2 = z_jitter z1 \<and> z_log z2 = z_log z1"
proof -
  note w = workingD [OF assms(1)] and v = working_views(1) [OF assms(1)]
  from w(9) obtain T where T: "armed (z_time_event_queue z1) = (armed (z_time_event_queue z))(Elapse_announce a := T)" ..
  let ?z = "z1\<lparr>z_announcer := (z_announcer z1)(a \<mapsto> f x1)\<rparr>"
  have "ann_frame z1 ?z" by (simp add: ann_frame_def)
  then have "working z a x d ?z (f x1)"
    by (intro workingI [OF w(1,2) ann_frame_trans [OF w(3)], where T = T])
      (use w(4-8,10,11) T assms(2-4) in \<open>simp_all add: list_ok_def\<close>)
  moreover have "mod_announcer a f z1 = Some ?z" using v by (simp add: mod_announcer_def)
  ultimately show ?thesis by simp
qed

lemma working_timeout:
  assumes "working z a x d z1 x1"
  shows "\<exists>z2 t. set_timeout a tv z1 = Some z2 \<and> working z a x d z2 (x1\<lparr>a_time_event := t\<rparr>) \<and> (t = None \<longleftrightarrow> tv = None) \<and>
    due (z_time_event_queue z2) (Elapse_announce a) = set_option tv \<and> z_log z2 = z_log z1 \<and> z_jitter z2 = z_jitter z1"
proof -
  note w = workingD [OF assms] and v = working_views(1) [OF assms]
  from w(9) obtain T where T: "armed (z_time_event_queue z1) = (armed (z_time_event_queue z))(Elapse_announce a := T)" ..
  from set_timer_ok [OF w(8,10), of tv] obtain t q where
    t: "set_timer (Elapse_announce a) (a_time_event x1) tv (z_time_event_queue z1) = Some (t, q)" "teq_core q" "t = None \<longleftrightarrow> tv = None"
    and ar: "armed q = (armed (z_time_event_queue z1))(Elapse_announce a := (case tv of None \<Rightarrow> {} | Some a \<Rightarrow> {(the t, a)}))"
    by blast
  let ?z = "z1\<lparr>z_time_event_queue := q, z_announcer := (z_announcer z1)(a \<mapsto> x1\<lparr>a_time_event := t\<rparr>)\<rparr>"
  have "armed q = (armed (z_time_event_queue z))(Elapse_announce a := (case tv of None \<Rightarrow> {} | Some a \<Rightarrow> {(the t, a)}))"
    unfolding ar T by simp
  moreover have "armed_as q (Elapse_announce a) t" using t(3) ar by (cases tv) (auto simp: armed_as_def)
  moreover have "ann_frame z1 ?z" by (simp add: ann_frame_def)
  ultimately have "working z a x d ?z (x1\<lparr>a_time_event := t\<rparr>)"
    by (intro workingI [OF w(1,2) ann_frame_trans [OF w(3)]])
      (use w(4-8,10,11) t(2) in \<open>simp_all add: list_ok_def\<close>)
  moreover have "set_timeout a tv z1 = Some ?z" using v t(1) by (simp add: set_timeout_def mod_announcer_def)
  moreover have "due q (Elapse_announce a) = set_option tv" unfolding due_def ar by (cases tv) simp_all
  ultimately show ?thesis using t(3) by (intro exI [of _ ?z] exI [of _ t]) simp
qed

lemma working_elapse:
  assumes "working z a x d z1 x1"
  shows "\<exists>z2 t. set_timeout_elapse v a msec jitter z1 = Some z2 \<and> working z a x d z2 (x1\<lparr>a_time_event := Some t\<rparr>) \<and>
    due (z_time_event_queue z2) (Elapse_announce a) = {fst (elapse v msec jitter (z_jitter z1))} \<and> z_log z2 = z_log z1"
proof -
  obtain tv j where e: "elapse v msec jitter (z_jitter z1) = (tv, j)" by (cases "elapse v msec jitter (z_jitter z1)")
  from working_timeout [OF working_jitter(1) [OF assms], of "Some tv" j] obtain z2 t where
    z2: "set_timeout a (Some tv) (z1\<lparr>z_jitter := j\<rparr>) = Some z2" "working z a x d z2 (x1\<lparr>a_time_event := t\<rparr>)" "t \<noteq> None"
      "due (z_time_event_queue z2) (Elapse_announce a) = {tv}" "z_log z2 = z_log z1" by auto
  then show ?thesis by (auto simp: set_timeout_elapse_def e)
qed

lemma working_shift:
  assumes "working z a x d z1 x1"
  shows "\<exists>z2. add_probing (group_of z (a_entry x)) d' z1 = Some z2 \<and> working z a x (d + d') z2 x1 \<and> z_log z2 = z_log z1 \<and> z_jitter z2 = z_jitter z1"
proof (cases "group_of z (a_entry x)")
  case None
  with assms show ?thesis by (simp add: add_probing_def working_def shift_probing_def)
next
  case (Some g)
  note w = workingD [OF assms]
  note zd = zone_okD [OF w(1)]
  from w(9) obtain T where T: "armed (z_time_event_queue z1) = (armed (z_time_event_queue z))(Elapse_announce a := T)" ..
  from Some obtain y where y: "z_entry z (a_entry x) = Some y" "e_group y = Some g" by (auto simp: group_of_def split: option.splits)
  from entries_okD(7) [OF zd(1) y] obtain u where u: "z_group z g = Some u" ..
  let ?u = "u\<lparr>g_n_probing := g_n_probing u + (d + d')\<rparr>"
  let ?z = "z1\<lparr>z_group := (z_group z1)(g \<mapsto> ?u)\<rparr>"
  have g1: "z_group z1 g = Some (u\<lparr>g_n_probing := g_n_probing u + d\<rparr>)" using w(7) Some u by (simp add: shift_probing_def)
  have "add_probing (Some g) d' z1 = Some ?z" using g1 by (simp add: add_probing_def mod_group_def add.assoc)
  moreover have "ann_frame z1 ?z" by (simp add: ann_frame_def)
  then have "working z a x (d + d') ?z x1"
    by (intro workingI [OF w(1,2) ann_frame_trans [OF w(3)], where T = T])
      (use w(4-8,10,11) T u Some in \<open>simp_all add: list_ok_def shift_probing_def\<close>)
  ultimately show ?thesis using Some by simp
qed

lemma working_done:
  assumes "working z a x d z1 x1" "of_bool (a_state x1 = AVAHI_PROBING) - of_bool (a_state x = AVAHI_PROBING) \<le> d"
    "a_time_event x1 \<noteq> None \<longleftrightarrow> wants_timer (a_state x1)" "a_state x1 = AVAHI_WAITING \<Longrightarrow> group_of z (a_entry x) \<noteq> None"
  shows "zone_ok z1"
proof -
  note w = workingD [OF assms(1)]
  from w(9) obtain T where T: "armed (z_time_event_queue z1) = (armed (z_time_event_queue z))(Elapse_announce a := T)" ..
  show ?thesis by (rule ann_update [OF w(1-7) assms(2) w(8) T w(10) assms(3,4) w(11)])
qed

subsection \<open>The steps of an announcer\<close>

definition stepped :: "'o zone \<Rightarrow> 'o zone \<Rightarrow> bool" where
  "stepped z z' \<longleftrightarrow> zone_ok z' \<and> ann_frame z z' \<and>
     (\<forall>b. map_option (\<lambda>x. (a_interface x, a_entry x)) (z_announcer z' b) = map_option (\<lambda>x. (a_interface x, a_entry x)) (z_announcer z b)) \<and>
     (\<forall>g. map_option (\<lambda>w. w\<lparr>g_n_probing := 0\<rparr>) (z_group z' g) = map_option (\<lambda>w. w\<lparr>g_n_probing := 0\<rparr>) (z_group z g))"

lemma steppedD:
  assumes "stepped z z'"
  shows "zone_ok z'" "ann_frame z z'" "z_entry z' = z_entry z" "z_iface z' = z_iface z" "z_entries z' = z_entries z"
    "z_interfaces z' = z_interfaces z" "z_by_hardware z' = z_by_hardware z"
    "z_announcer z b = Some x \<Longrightarrow> \<exists>x'. z_announcer z' b = Some x' \<and> a_interface x' = a_interface x \<and> a_entry x' = a_entry x"
    "z_announcer z' b = Some x' \<Longrightarrow> \<exists>x. z_announcer z b = Some x \<and> a_interface x' = a_interface x \<and> a_entry x' = a_entry x"
    "z_group z g = Some w \<Longrightarrow> \<exists>w'. z_group z' g = Some w' \<and> g_state w' = g_state w \<and> g_dead w' = g_dead w \<and> g_entries w' = g_entries w"
    "committed z' = committed z" "z_group z g = None \<Longrightarrow> z_group z' g = None"
proof -
  show s: "zone_ok z'" "ann_frame z z'" using assms unfolding stepped_def by blast+
  show "z_entry z' = z_entry z" "z_iface z' = z_iface z" "z_entries z' = z_entries z"
    "z_interfaces z' = z_interfaces z" "z_by_hardware z' = z_by_hardware z" by (rule ann_frameD [OF s(2)])+
  have a: "map_option (\<lambda>x. (a_interface x, a_entry x)) (z_announcer z' b) = map_option (\<lambda>x. (a_interface x, a_entry x)) (z_announcer z b)" for b
    using assms unfolding stepped_def by blast
  show "z_announcer z b = Some x \<Longrightarrow> \<exists>x'. z_announcer z' b = Some x' \<and> a_interface x' = a_interface x \<and> a_entry x' = a_entry x"
    "z_announcer z' b = Some x' \<Longrightarrow> \<exists>x. z_announcer z b = Some x \<and> a_interface x' = a_interface x \<and> a_entry x' = a_entry x"
    using a [of b] by (auto, cases "z_announcer z b", auto)
  have g: "map_option (\<lambda>w. w\<lparr>g_n_probing := 0\<rparr>) (z_group z' g) = map_option (\<lambda>w. w\<lparr>g_n_probing := 0\<rparr>) (z_group z g)" for g
    using assms unfolding stepped_def by blast
  have g': "\<exists>w'. z_group z' g = Some w' \<and> g_state w' = g_state w \<and> g_dead w' = g_dead w \<and> g_entries w' = g_entries w"
    if w: "z_group z g = Some w" for g w
  proof -
    from g [of g] w obtain w' where w': "z_group z' g = Some w'" "w'\<lparr>g_n_probing := 0\<rparr> = w\<lparr>g_n_probing := 0\<rparr>" by (cases "z_group z' g") auto
    from arg_cong [OF w'(2), of g_state] arg_cong [OF w'(2), of g_dead] arg_cong [OF w'(2), of g_entries] w'(1) show ?thesis by simp
  qed
  then show "z_group z g = Some w \<Longrightarrow> \<exists>w'. z_group z' g = Some w' \<and> g_state w' = g_state w \<and> g_dead w' = g_dead w \<and> g_entries w' = g_entries w" .
  show n: "z_group z g = None \<Longrightarrow> z_group z' g = None" for g using g [of g] by simp
  show "committed z' = committed z"
  proof (rule ext)
    fix og
    show "committed z' og = committed z og"
    proof (cases og)
      case (Some g)
      then show ?thesis using g' [of g] n [of g] by (cases "z_group z g") (auto simp: committed_def)
    qed (simp add: committed_def)
  qed
qed

lemma stepped_refl: "zone_ok z \<Longrightarrow> stepped z z"
  by (simp add: stepped_def ann_frame_refl)

lemma stepped_trans: "stepped z1 z2 \<Longrightarrow> stepped z2 z3 \<Longrightarrow> stepped z1 z3"
  by (simp add: stepped_def ann_frame_def)

lemma working_stepped:
  assumes "working z a x d z1 x1" "zone_ok z1"
  shows "stepped z z1"
proof -
  note w = workingD [OF assms(1)]
  have "map_option (\<lambda>w. w\<lparr>g_n_probing := 0\<rparr>) (z_group z1 g) = map_option (\<lambda>w. w\<lparr>g_n_probing := 0\<rparr>) (z_group z g)" for g
    unfolding w(7) by (auto simp: shift_probing_def split: option.splits)
  with w assms(2) show ?thesis unfolding stepped_def by simp
qed

text \<open>The announcer after \<open>announce_step\<close>.\<close>

definition announced :: "announcer \<Rightarrow> nat option \<Rightarrow> announcer" where
  "announced x t =
     (if a_n_iteration x \<ge> 3 then x\<lparr>a_n_iteration := a_n_iteration x + 1, a_state := AVAHI_ESTABLISHED, a_time_event := None\<rparr>
      else x\<lparr>a_n_iteration := a_n_iteration x + 1, a_sec_delay := a_sec_delay x * 2, a_time_event := t\<rparr>)"

lemma announce_step_ok:
  assumes "working z a x d z1 x1"
  shows "\<exists>z2 t. announce_step v a z1 = Some z2 \<and> working z a x d z2 (announced x1 (Some t)) \<and>
    (\<exists>j. due (z_time_event_queue z2) (Elapse_announce a) =
      (if a_n_iteration x1 \<ge> 3 then {} else {fst (elapse v (a_sec_delay x1 * 1000) AVAHI_ANNOUNCEMENT_JITTER_MSEC j)}))"
proof -
  note w = workingD [OF assms] and vw = working_views [OF assms]
  obtain y where y: "z_entry z1 (a_entry x) = Some y" "\<not> e_dead y" "sound_record (e_record y)" "z_iface z1 (a_interface x) \<noteq> None"
    by (rule working_entry [OF assms]) blast
  have start: "collecting z1 z1" unfolding collecting_def using w(11) by (simp add: same_zone_refl list_ok_open)
  have sr: "key_readable (rr_key (e_record y))" "normal_name (key_name (rr_key (e_record y)))"
    using y(3) by (simp_all add: sound_record_def rr_readable_key)
  have "\<exists>z2. (if has_flag (e_flags y) AVAHI_PUBLISH_UNIQUE
         then avahi_server_prepare_matching_responses (a_interface x1) (rr_key (e_record y)) False z1
         else avahi_server_prepare_response (a_entry x1) False False z1) = Some z2 \<and> collecting z1 z2"
    using matching_responses_ok [OF vw(4,5,6) sr start, of "a_interface x"] prepare_response_ok [OF vw(4) y(1) start] w(5,6) by auto
  then obtain z2 where z2: "(if has_flag (e_flags y) AVAHI_PUBLISH_UNIQUE
         then avahi_server_prepare_matching_responses (a_interface x1) (rr_key (e_record y)) False z1
         else avahi_server_prepare_response (a_entry x1) False False z1) = Some z2" "collecting z1 z2" by blast
  from generate_announcement_ok [OF y(4) z2(2), of False] obtain z3 where
    z3: "generate_announcement (a_interface x1) False z2 = Some z3" "same_zone z1 z3" "list_ok z3" using w(5) by auto
  have "generate_announcement (a_interface x1) False z2 = Some z3" by (rule z3(1))
  note W3 = working_same [OF assms z3(2,3)]
  from working_state [OF W3, of "\<lambda>x. x\<lparr>a_n_iteration := a_n_iteration x + 1\<rparr>"] obtain z4 where
    z4: "mod_announcer a (\<lambda>x. x\<lparr>a_n_iteration := a_n_iteration x + 1\<rparr>) z3 = Some z4"
      "working z a x d z4 (x1\<lparr>a_n_iteration := a_n_iteration x1 + 1\<rparr>)" "z_jitter z4 = z_jitter z3" by auto
  note x4 = working_views(1) [OF z4(2)]
  have pre: "announce_step v a z1 = (if a_n_iteration x1 \<ge> 3 then do {
       z \<leftarrow> mod_announcer a (\<lambda>x. x\<lparr>a_state := AVAHI_ESTABLISHED\<rparr>) z4;
       set_timeout a None z
     } else do {
       let (tv, j) = elapse v (a_sec_delay x1 * 1000) AVAHI_ANNOUNCEMENT_JITTER_MSEC (z_jitter z4);
       let z = z4\<lparr>z_jitter := j\<rparr>;
       z \<leftarrow> mod_announcer a (\<lambda>x. x\<lparr>a_sec_delay := a_sec_delay x * 2\<rparr>) z;
       set_timeout a (Some tv) z
     })"
    using vw(1) y(1) z2(1) z3(1) z4(1) x4 w(6) by (simp add: announce_step_def Let_def cong: if_cong)
  show ?thesis
  proof (cases "a_n_iteration x1 \<ge> 3")
    case True
    from working_state [OF z4(2), of "\<lambda>x. x\<lparr>a_state := AVAHI_ESTABLISHED\<rparr>"] obtain z5 where
      z5: "mod_announcer a (\<lambda>x. x\<lparr>a_state := AVAHI_ESTABLISHED\<rparr>) z4 = Some z5"
        "working z a x d z5 (x1\<lparr>a_n_iteration := a_n_iteration x1 + 1, a_state := AVAHI_ESTABLISHED\<rparr>)" by auto
    from working_timeout [OF z5(2), of None] obtain z6 where
      z6: "set_timeout a None z5 = Some z6" "due (z_time_event_queue z6) (Elapse_announce a) = {}"
        "working z a x d z6 (x1\<lparr>a_n_iteration := a_n_iteration x1 + 1, a_state := AVAHI_ESTABLISHED, a_time_event := None\<rparr>)" by auto
    with pre z5(1) True show ?thesis by (auto simp: announced_def)
  next
    case False
    obtain tv j where e: "elapse v (a_sec_delay x1 * 1000) AVAHI_ANNOUNCEMENT_JITTER_MSEC (z_jitter z4) = (tv, j)"
      by (cases "elapse v (a_sec_delay x1 * 1000) AVAHI_ANNOUNCEMENT_JITTER_MSEC (z_jitter z4)")
    from working_state [OF working_jitter(1) [OF z4(2)], of "\<lambda>x. x\<lparr>a_sec_delay := a_sec_delay x * 2\<rparr>" j] obtain z5 where
      z5: "mod_announcer a (\<lambda>x. x\<lparr>a_sec_delay := a_sec_delay x * 2\<rparr>) (z4\<lparr>z_jitter := j\<rparr>) = Some z5"
        "working z a x d z5 (x1\<lparr>a_n_iteration := a_n_iteration x1 + 1, a_sec_delay := a_sec_delay x1 * 2\<rparr>)" by auto
    from working_timeout [OF z5(2), of "Some tv"] obtain z6 t where
      z6: "set_timeout a (Some tv) z5 = Some z6" "due (z_time_event_queue z6) (Elapse_announce a) = {tv}" "t \<noteq> None"
        "working z a x d z6 (x1\<lparr>a_n_iteration := a_n_iteration x1 + 1, a_sec_delay := a_sec_delay x1 * 2, a_time_event := t\<rparr>)" by auto
    from z6(3) obtain t' where "t = Some t'" by blast
    moreover have "\<exists>j. tv = fst (elapse v (a_sec_delay x1 * 1000) AVAHI_ANNOUNCEMENT_JITTER_MSEC j)"
      by (rule exI [of _ "z_jitter z4"]) (simp add: e)
    ultimately show ?thesis using pre z5(1) z6(1,2,4) False e
      by (intro exI [of _ z6] exI [of _ t']) (auto simp: announced_def)
  qed
qed

lemma announce_waiting_ok:
  assumes "zone_ok z" "z_announcer z a = Some x"
  shows "\<exists>z' x'. announce_waiting v im a z = Some z' \<and> stepped z z' \<and> z_announcer z' = (z_announcer z)(a \<mapsto> x') \<and>
    z_group z' = z_group z \<and>
    (if a_state x = AVAHI_WAITING then a_state x' = AVAHI_ANNOUNCING \<and> a_n_iteration x' = (if im then 2 else 0) else x' = x)"
proof (cases "a_state x = AVAHI_WAITING")
  case False
  have "(z_announcer z)(a \<mapsto> x) = z_announcer z" using assms(2) by auto
  with False assms show ?thesis by (simp add: announce_waiting_def stepped_refl)
next
  case True
  note w0 = working_refl [OF assms]
  from working_state [OF w0, of "\<lambda>x. x\<lparr>a_state := AVAHI_ANNOUNCING\<rparr>"] obtain z1 where
    z1: "mod_announcer a (\<lambda>x. x\<lparr>a_state := AVAHI_ANNOUNCING\<rparr>) z = Some z1" "working z a x 0 z1 (x\<lparr>a_state := AVAHI_ANNOUNCING\<rparr>)" by auto
  from working_state [OF z1(2), of "\<lambda>x. x\<lparr>a_n_iteration := if im then 1 else 0\<rparr>"] obtain z2 where
    z2: "mod_announcer a (\<lambda>x. x\<lparr>a_n_iteration := if im then 1 else 0\<rparr>) z1 = Some z2"
      "working z a x 0 z2 (x\<lparr>a_state := AVAHI_ANNOUNCING, a_n_iteration := if im then 1 else 0\<rparr>)" by auto
  have "\<exists>z3 x3. (if im then announce_step v a z2 else set_timeout_elapse v a 0 AVAHI_ANNOUNCEMENT_JITTER_MSEC z2) = Some z3 \<and>
      working z a x 0 z3 x3 \<and> a_state x3 = AVAHI_ANNOUNCING \<and> a_n_iteration x3 = (if im then 2 else 0) \<and> a_time_event x3 \<noteq> None"
  proof (cases im)
    case True
    from announce_step_ok [OF z2(2), of v] obtain z3 t where
      z3: "announce_step v a z2 = Some z3" "working z a x 0 z3 (announced (x\<lparr>a_state := AVAHI_ANNOUNCING, a_n_iteration := if im then 1 else 0\<rparr>) (Some t))" by blast
    from True z3 show ?thesis by (intro exI conjI) (simp, assumption, simp_all add: announced_def True)
  next
    case False
    from working_elapse [OF z2(2), of v 0 AVAHI_ANNOUNCEMENT_JITTER_MSEC] obtain z3 t where
      z3: "set_timeout_elapse v a 0 AVAHI_ANNOUNCEMENT_JITTER_MSEC z2 = Some z3"
        "working z a x 0 z3 (x\<lparr>a_state := AVAHI_ANNOUNCING, a_n_iteration := if im then 1 else 0, a_time_event := Some t\<rparr>)" by auto
    from False z3 show ?thesis by (intro exI conjI) (simp, assumption, simp_all)
  qed
  then obtain z3 x3 where
    z3: "(if im then announce_step v a z2 else set_timeout_elapse v a 0 AVAHI_ANNOUNCEMENT_JITTER_MSEC z2) = Some z3"
      "working z a x 0 z3 x3" "a_state x3 = AVAHI_ANNOUNCING" "a_n_iteration x3 = (if im then 2 else 0)" "a_time_event x3 \<noteq> None" by blast
  have ok: "zone_ok z3" by (rule working_done [OF z3(2)]) (use z3(3,5) True in \<open>simp_all add: wants_timer_def\<close>)
  have "announce_waiting v im a z = Some z3"
    using assms(2) True z1(1) z2(1) z3(1) by (cases im) (simp_all add: announce_waiting_def)
  moreover have "z_group z3 = z_group z" using workingD(7) [OF z3(2)] by (simp add: shift_probing_zero)
  ultimately show ?thesis using working_stepped [OF z3(2) ok] workingD(4) [OF z3(2)] z3(3,4) True by auto
qed

subsection \<open>Changing a group\<close>

lemma group_update:
  assumes z: "zone_ok z" and w: "z_group z g = Some w" and f: "ann_frame z z'"
    and ann: "z_announcer z' = z_announcer z"
    and grp: "z_group z' = (z_group z)(g \<mapsto> w')" "g_entries w' = g_entries w"
    and dead: "g_dead w' \<Longrightarrow> \<not> g_dead w \<Longrightarrow> \<forall>e y. z_entry z e = Some y \<and> e_group y = Some g \<longrightarrow> e_dead y"
    and com: "\<And>a x. z_announcer z a = Some x \<Longrightarrow> group_of z (a_entry x) = Some g \<Longrightarrow>
      g_state w' = AVAHI_ENTRY_GROUP_REGISTERING \<or> g_state w' = AVAHI_ENTRY_GROUP_ESTABLISHED"
    and cnt: "int (card (probing z g)) \<le> g_n_probing w'"
    and q: "teq_core (z_time_event_queue z')"
      "armed (z_time_event_queue z') = (armed (z_time_event_queue z))(Register_time g := T)"
      "group_timer_ok (z_time_event_queue z') g w'"
    and l: "list_ok z'"
  shows "zone_ok z'"
proof -
  note zd = zone_okD [OF z] and fd = ann_frameD [OF f]
  note e = entries_okD [OF zd(1)] and gd = groups_okD [OF zd(2)] and td = zone_timers_okD [OF zd(5)]
  have gr: "group_of z' = group_of z" by (rule group_of_cong [OF fd(1)])
  have n: "z_group z' h = None \<longleftrightarrow> z_group z h = None" for h unfolding grp using w by simp
  have "entries_ok z'" using zd(1) unfolding entries_ok_def fd n .
  moreover have "groups_ok z'"
    unfolding groups_ok_def fd gr
  proof (intro conjI allI impI, goal_cases)
    case 1
    show ?case by (rule gd(1))
  next
    case 2
    have "dom (z_group z') = dom (z_group z)" using n by (auto simp: dom_def)
    with zd(2) show ?case by (simp add: groups_ok_def)
  next
    case (3 h u)
    then show ?case using gd(3) w unfolding grp by (auto split: if_splits)
  next
    case (4 h u)
    then show ?case using gd(4) w grp(2) unfolding grp(1) by (auto split: if_splits)
  next
    case (5 h u e' y)
    then show ?case using gd(5) [of h] w dead unfolding grp(1) by (auto split: if_splits)
  qed
  moreover have "keys_ok z'" using zd(3) unfolding keys_ok_def fd canon_of_cong [OF fd(1)] .
  moreover have "links_ok z'"
  proof -
    note d = links_okD [OF zd(4)]
    have cm: "committed z' (e_group y)" if "z_announcer z a = Some x" "z_entry z (a_entry x) = Some y" "committed z (e_group y)" for a x y
    proof (cases "e_group y = Some g")
      case True
      then show ?thesis using com [OF that(1)] that(2) grp(1) by (simp add: committed_def group_of_def)
    next
      case False
      then show ?thesis using that(3) unfolding committed_def grp(1) by (cases "e_group y") auto
    qed
    show ?thesis
      unfolding links_ok_def fd ann
    proof (intro conjI allI impI ballI, goal_cases)
      case (1 a x)
      with d(1) show ?case by blast
    next
      case (2 a x)
      from d(2) [OF this] cm [OF this] show ?case by blast
    next
      case (3 a x)
      from d(3) [OF this] show ?case by blast
    next
      case (4 e y)
      with d(4) show ?case by blast
    next
      case (5 e y b)
      with d(5) show ?case by blast
    next
      case (6 e y b c w u)
      with d(6) show ?case by blast
    next
      case (7 i u)
      with d(7) show ?case by blast
    next
      case (8 i u b)
      with d(8) show ?case by blast
    next
      case (9 i)
      from d(9) [OF this] show ?case by blast
    next
      case (10 idx js i)
      then show ?case using d(10) by blast
    qed
  qed
  moreover have "zone_timers_ok z'"
  proof -
    have other: "armed_as (z_time_event_queue z') c t = armed_as (z_time_event_queue z) c t" if "c \<noteq> Register_time g" for c t
      by (rule armed_as_cong) (use that q(2) in simp)
    have other': "armed (z_time_event_queue z') c = armed (z_time_event_queue z) c" if "c \<noteq> Register_time g" for c
      using that q(2) by simp
    show ?thesis
      unfolding zone_timers_ok_def
    proof (intro conjI allI, goal_cases)
      case 1
      show ?case by (rule q(1))
    next
      case (2 b)
      show ?case
      proof (cases "z_announcer z b")
        case None
        then show ?thesis using td(2) other' ann by simp
      next
        case (Some u)
        then show ?thesis using td(3-5) [OF Some] other ann gr by simp
      qed
    next
      case (3 h)
      show ?case
      proof (cases "h = g")
        case True
        then show ?thesis using q(3) grp(1) by simp
      next
        case False
        then have h: "Register_time h \<noteq> Register_time g" "z_group z' h = z_group z h" using grp(1) by simp_all
        show ?thesis
        proof (cases "z_group z h")
          case None
          then show ?thesis using td(6) other' [OF h(1)] h(2) by simp
        next
          case (Some u)
          then show ?thesis using td(7) [OF Some] other [OF h(1)] h(2) by (simp add: group_timer_ok_def)
        qed
      qed
    next
      case 4
      show ?case using td(8) other fd(9) by simp
    qed
  qed
  moreover have "counts_ok z'"
  proof -
    have "probing z' = probing z" by (rule ext) (simp add: probing_def ann gr)
    with zd(6) cnt show ?thesis unfolding counts_ok_def grp(1) by simp
  qed
  ultimately show ?thesis using l unfolding zone_ok_def by blast
qed

text \<open>What \<open>avahi_s_entry_group_change_state\<close> does before it calls the client.\<close>

lemma change_state_result:
  assumes "z_group z g = Some w" "g_state w \<noteq> st" "st \<noteq> AVAHI_ENTRY_GROUP_FAILURE" "teq_core (z_time_event_queue z)"
    "armed_as (z_time_event_queue z) (Register_time g) (g_register_time_event w)"
  obtains z1 w1 T where "\<And>cb. avahi_s_entry_group_change_state cb v g st z = cb g st z1"
    "ann_frame z z1" "z_announcer z1 = z_announcer z" "z_group z1 = (z_group z)(g \<mapsto> w1)" "z_record_list z1 = z_record_list z"
    "z_log z1 = z_log z @ [Group_changed g st]"
    "g_state w1 = st" "g_entries w1 = g_entries w" "g_dead w1 = g_dead w" "g_n_probing w1 = g_n_probing w"
    "g_register_time_event w1 = (if g_state w = AVAHI_ENTRY_GROUP_REGISTERING then None else g_register_time_event w)"
    "teq_core (z_time_event_queue z1)" "armed (z_time_event_queue z1) = (armed (z_time_event_queue z))(Register_time g := T)"
    "armed_as (z_time_event_queue z1) (Register_time g) (g_register_time_event w1)"
    "g_established_at w1 = (if st = AVAHI_ENTRY_GROUP_ESTABLISHED then env_now v else g_established_at w)"
    "z_next z1 = z_next z" "g_register_time w1 = g_register_time w"
proof -
  have "\<exists>z2 w2 T. (if g_state w = AVAHI_ENTRY_GROUP_ESTABLISHED then
               if avahi_age (env_now v) (g_established_at w) > 5000000
               then mod_group g (\<lambda>x. x\<lparr>g_n_register_try := 0\<rparr>) z else Some z
             else if g_state w = AVAHI_ENTRY_GROUP_REGISTERING then clear_register_timer g z
             else Some z) = Some z2 \<and> ann_frame z z2 \<and> z_announcer z2 = z_announcer z \<and> z_group z2 = (z_group z)(g \<mapsto> w2) \<and>
      z_record_list z2 = z_record_list z \<and> z_log z2 = z_log z \<and>
      g_entries w2 = g_entries w \<and> g_dead w2 = g_dead w \<and> g_n_probing w2 = g_n_probing w \<and> g_established_at w2 = g_established_at w \<and>
      g_register_time_event w2 = (if g_state w = AVAHI_ENTRY_GROUP_REGISTERING then None else g_register_time_event w) \<and>
      teq_core (z_time_event_queue z2) \<and> armed (z_time_event_queue z2) = (armed (z_time_event_queue z))(Register_time g := T) \<and>
      armed_as (z_time_event_queue z2) (Register_time g) (g_register_time_event w2) \<and> g_register_time w2 = g_register_time w"
  proof (cases "g_state w = AVAHI_ENTRY_GROUP_REGISTERING")
    case True
    from set_timer_ok [OF assms(4,5), of None] obtain q where
      q: "set_timer (Register_time g) (g_register_time_event w) None (z_time_event_queue z) = Some (None, q)" "teq_core q"
        "armed q = (armed (z_time_event_queue z))(Register_time g := {})" by auto
    have "clear_register_timer g z = Some (z\<lparr>z_time_event_queue := q, z_group := (z_group z)(g \<mapsto> w\<lparr>g_register_time_event := None\<rparr>)\<rparr>)"
      using assms(1) q(1) by (simp add: clear_register_timer_def mod_group_def)
    with True q(2,3) show ?thesis
      by (intro exI [of _ "z\<lparr>z_time_event_queue := q, z_group := (z_group z)(g \<mapsto> w\<lparr>g_register_time_event := None\<rparr>)\<rparr>"]
          exI [of _ "w\<lparr>g_register_time_event := None\<rparr>"] exI [of _ "{}"]) (simp add: ann_frame_def)
  next
    case False
    have i: "(armed (z_time_event_queue z))(Register_time g := armed (z_time_event_queue z) (Register_time g)) = armed (z_time_event_queue z)" by simp
    show ?thesis
    proof (cases "g_state w = AVAHI_ENTRY_GROUP_ESTABLISHED \<and> avahi_age (env_now v) (g_established_at w) > 5000000")
      case True
      have "mod_group g (\<lambda>x. x\<lparr>g_n_register_try := 0\<rparr>) z = Some (z\<lparr>z_group := (z_group z)(g \<mapsto> w\<lparr>g_n_register_try := 0\<rparr>)\<rparr>)"
        using assms(1) by (simp add: mod_group_def)
      with True assms(4,5) i show ?thesis
        by (intro exI [of _ "z\<lparr>z_group := (z_group z)(g \<mapsto> w\<lparr>g_n_register_try := 0\<rparr>)\<rparr>"]
            exI [of _ "w\<lparr>g_n_register_try := 0\<rparr>"] exI [of _ "armed (z_time_event_queue z) (Register_time g)"])
          (simp add: ann_frame_def)
    next
      case F: False
      with False assms(1,4,5) i show ?thesis
        by (intro exI [of _ z] exI [of _ w] exI [of _ "armed (z_time_event_queue z) (Register_time g)"])
          (auto simp add: ann_frame_def fun_upd_idem)
    qed
  qed
  then obtain z2 w2 T where z2: "(if g_state w = AVAHI_ENTRY_GROUP_ESTABLISHED then
               if avahi_age (env_now v) (g_established_at w) > 5000000
               then mod_group g (\<lambda>x. x\<lparr>g_n_register_try := 0\<rparr>) z else Some z
             else if g_state w = AVAHI_ENTRY_GROUP_REGISTERING then clear_register_timer g z
             else Some z) = Some z2" and f: "ann_frame z z2" and a: "z_announcer z2 = z_announcer z" and
    gr: "z_group z2 = (z_group z)(g \<mapsto> w2)" and l: "z_record_list z2 = z_record_list z" "z_log z2 = z_log z" and
    w2: "g_entries w2 = g_entries w" "g_dead w2 = g_dead w" "g_n_probing w2 = g_n_probing w" "g_established_at w2 = g_established_at w"
      "g_register_time_event w2 = (if g_state w = AVAHI_ENTRY_GROUP_REGISTERING then None else g_register_time_event w)" and
    q: "teq_core (z_time_event_queue z2)" "armed (z_time_event_queue z2) = (armed (z_time_event_queue z))(Register_time g := T)"
      "armed_as (z_time_event_queue z2) (Register_time g) (g_register_time_event w2)" "g_register_time w2 = g_register_time w"
    by blast
  define w3 where "w3 = (if st = AVAHI_ENTRY_GROUP_ESTABLISHED then w2\<lparr>g_established_at := env_now v\<rparr> else w2)\<lparr>g_state := st\<rparr>"
  define z1 where "z1 = z2\<lparr>z_group := (z_group z)(g \<mapsto> w3), z_log := z_log z @ [Group_changed g st]\<rparr>"
  show thesis
  proof (rule that [of z1 w3 T])
    show "avahi_s_entry_group_change_state cb v g st z = cb g st z1" for cb
      using assms(1-3) z2 gr l(2) by (simp add: avahi_s_entry_group_change_state_def mod_group_def z1_def w3_def log_event_def)
    show "ann_frame z z1" using f by (simp add: ann_frame_def z1_def)
    show "z_next z1 = z_next z" using f by (simp add: ann_frame_def z1_def)
  qed (use a gr l w2 q in \<open>simp_all add: z1_def w3_def\<close>)
qed

subsection \<open>The callback of a group\<close>

definition keeps_groups :: "'o zone \<Rightarrow> 'o zone \<Rightarrow> bool" where
  "keeps_groups z z' \<longleftrightarrow> (\<forall>g. z_group z g \<noteq> None \<longrightarrow> z_group z' g \<noteq> None)"

text \<open>A client may do whatever keeps the invariant, but it frees no group while the code works on it.\<close>

definition callback_ok :: "'o group_callback \<Rightarrow> bool" where
  "callback_ok cb \<longleftrightarrow> (\<forall>g st z. zone_ok z \<and> z_group z g \<noteq> None \<longrightarrow> (\<exists>z'. cb g st z = Some z' \<and> zone_ok z' \<and> keeps_groups z z'))"

lemma callback_okD:
  "callback_ok cb \<Longrightarrow> zone_ok z \<Longrightarrow> z_group z g \<noteq> None \<Longrightarrow> \<exists>z'. cb g st z = Some z' \<and> zone_ok z' \<and> keeps_groups z z'"
  unfolding callback_ok_def by blast

lemma callback_ok_silent: "callback_ok (\<lambda>_ _ z. Some z)"
  by (simp add: callback_ok_def keeps_groups_def)

lemma keeps_groups_refl: "keeps_groups z z"
  by (simp add: keeps_groups_def)

lemma keeps_groups_trans: "keeps_groups z1 z2 \<Longrightarrow> keeps_groups z2 z3 \<Longrightarrow> keeps_groups z1 z3"
  by (simp add: keeps_groups_def)

lemma stepped_keeps_groups: "stepped z z' \<Longrightarrow> keeps_groups z z'"
  using steppedD(10) unfolding keeps_groups_def by blast

lemma change_state_ok:
  assumes "callback_ok cb" "zone_ok z" "z_group z g = Some w" "st \<noteq> AVAHI_ENTRY_GROUP_FAILURE"
    and com: "\<And>a x. z_announcer z a = Some x \<Longrightarrow> group_of z (a_entry x) = Some g \<Longrightarrow>
      st = AVAHI_ENTRY_GROUP_REGISTERING \<or> st = AVAHI_ENTRY_GROUP_ESTABLISHED"
  shows "\<exists>z'. avahi_s_entry_group_change_state cb v g st z = Some z' \<and> zone_ok z' \<and> keeps_groups z z'"
proof (cases "g_state w = st")
  case True
  with assms show ?thesis by (simp add: avahi_s_entry_group_change_state_def keeps_groups_def)
next
  case False
  note zd = zone_okD [OF assms(2)]
  note td = zone_timers_okD [OF zd(5)]
  from td(7) [OF assms(3)] have gt: "armed_as (z_time_event_queue z) (Register_time g) (g_register_time_event w)"
    "g_register_time_event w \<noteq> None \<Longrightarrow> g_state w = AVAHI_ENTRY_GROUP_REGISTERING" unfolding group_timer_ok_def by blast+
  obtain z1 w1 T where z1: "\<And>cb. avahi_s_entry_group_change_state cb v g st z = cb g st z1"
    "ann_frame z z1" "z_announcer z1 = z_announcer z" "z_group z1 = (z_group z)(g \<mapsto> w1)" "z_record_list z1 = z_record_list z"
    and w1: "g_state w1 = st" "g_entries w1 = g_entries w" "g_dead w1 = g_dead w" "g_n_probing w1 = g_n_probing w"
      "g_register_time_event w1 = (if g_state w = AVAHI_ENTRY_GROUP_REGISTERING then None else g_register_time_event w)"
    and q: "teq_core (z_time_event_queue z1)" "armed (z_time_event_queue z1) = (armed (z_time_event_queue z))(Register_time g := T)"
      "armed_as (z_time_event_queue z1) (Register_time g) (g_register_time_event w1)"
    by (rule change_state_result [OF assms(3) False assms(4) td(1) gt(1), of v]) blast
  have "g_register_time_event w1 = None" using w1(5) gt(2) by (cases "g_register_time_event w") auto
  with q(3) have gt1: "group_timer_ok (z_time_event_queue z1) g w1" by (simp add: group_timer_ok_def)
  have "zone_ok z1"
  proof (rule group_update [OF assms(2,3) z1(2,3,4) w1(2)])
    show "int (card (probing z g)) \<le> g_n_probing w1" using zd(6) assms(3) w1(4) by (simp add: counts_ok_def)
    show "list_ok z1" using zd(7) z1(5) by (simp add: list_ok_def)
    show "teq_core (z_time_event_queue z1)" "armed (z_time_event_queue z1) = (armed (z_time_event_queue z))(Register_time g := T)"
      "group_timer_ok (z_time_event_queue z1) g w1" by (rule q(1,2) gt1)+
  qed (use com w1 in auto)
  moreover have "z_group z1 g \<noteq> None" "keeps_groups z z1" using z1(4) by (auto simp: keeps_groups_def)
  ultimately show ?thesis using callback_okD [OF assms(1), of z1 g st] z1(1) keeps_groups_trans by metis
qed

subsection \<open>Checking whether a group is probed\<close>

text \<open>A loop over the entries of a group and their announcers.\<close>

lemma announce_all_ok:
  assumes "zone_ok z" "z_entry z e = Some y"
  shows "\<exists>z'. for_each (announce_waiting v im) (e_announcers y) z = Some z' \<and> stepped z z'"
proof (rule for_each_rule [where I = "stepped z"])
  show "stepped z z" by (rule stepped_refl [OF assms(1)])
  fix a s
  assume a: "a \<in> set (e_announcers y)" and s: "stepped z s"
  from links_okD(5) [OF zone_okD(4) [OF assms(1)] assms(2) a] steppedD(8) [OF s] obtain x where x: "z_announcer s a = Some x" by blast
  from announce_waiting_ok [OF steppedD(1) [OF s] x, of v im] stepped_trans [OF s]
  show "\<exists>s'. announce_waiting v im a s = Some s' \<and> stepped z s'" by blast
qed

lemma announce_group_ok:
  assumes "zone_ok z" "\<forall>e \<in> set es. z_entry z e \<noteq> None"
  shows "\<exists>z'. for_each (\<lambda>e z. do { y \<leftarrow> z_entry z e; for_each (announce_waiting v im) (e_announcers y) z }) es z = Some z' \<and> stepped z z'"
proof (rule for_each_rule [where I = "stepped z"])
  show "stepped z z" by (rule stepped_refl [OF assms(1)])
  fix e s
  assume e: "e \<in> set es" and s: "stepped z s"
  from e assms(2) steppedD(3) [OF s] obtain y where y: "z_entry s e = Some y" by auto
  from announce_all_ok [OF steppedD(1) [OF s] y, of v im] stepped_trans [OF s] y
  show "\<exists>s'. (do { y \<leftarrow> z_entry s e; for_each (announce_waiting v im) (e_announcers y) s }) = Some s' \<and> stepped z s'" by auto
qed

lemma group_entries_exist:
  assumes "zone_ok z" "z_group z g = Some w"
  shows "\<forall>e \<in> set (g_entries w). z_entry z e \<noteq> None"
proof
  fix e
  assume "e \<in> set (g_entries w)"
  then have "group_of z e = Some g" using groups_okD(4) [OF zone_okD(2) [OF assms(1)] assms(2)] by simp
  then show "z_entry z e \<noteq> None" by (auto simp: group_of_def split: option.splits)
qed

lemma check_probed_ok:
  assumes "callback_ok cb" "zone_ok z" "z_group z g = Some w" "\<not> g_dead w"
  shows "\<exists>z'. avahi_s_entry_group_check_probed cb v im g z = Some z' \<and> zone_ok z' \<and> keeps_groups z z'"
proof (cases "g_state w \<noteq> AVAHI_ENTRY_GROUP_REGISTERING \<or> g_n_probing w > 0")
  case True
  then have "avahi_s_entry_group_check_probed cb v im g z = Some z"
    using assms(3,4) by (auto simp: avahi_s_entry_group_check_probed_def)
  with assms(2) keeps_groups_refl show ?thesis by blast
next
  case False
  from change_state_ok [OF assms(1-3), of AVAHI_ENTRY_GROUP_ESTABLISHED v] obtain z1 where
    z1: "avahi_s_entry_group_change_state cb v g AVAHI_ENTRY_GROUP_ESTABLISHED z = Some z1" "zone_ok z1" "keeps_groups z z1" by auto
  from z1(3) assms(3) obtain w1 where w1: "z_group z1 g = Some w1" by (auto simp: keeps_groups_def)
  have eq: "avahi_s_entry_group_check_probed cb v im g z = (if g_dead w1 then Some z1 else
      for_each (\<lambda>e z. do { y \<leftarrow> z_entry z e; for_each (announce_waiting v im) (e_announcers y) z }) (g_entries w1) z1)"
    using assms(3,4) False z1(1) w1 by (simp add: avahi_s_entry_group_check_probed_def cong: if_cong)
  from announce_group_ok [OF z1(2) group_entries_exist [OF z1(2) w1], of v im] obtain z2 where
    z2: "for_each (\<lambda>e z. do { y \<leftarrow> z_entry z e; for_each (announce_waiting v im) (e_announcers y) z }) (g_entries w1) z1 = Some z2"
      "stepped z1 z2" by blast
  show ?thesis
  proof (cases "g_dead w1")
    case True
    with eq z1 show ?thesis by simp
  next
    case F: False
    with eq z1 z2 steppedD(1) [OF z2(2)] keeps_groups_trans [OF z1(3) stepped_keeps_groups [OF z2(2)]] show ?thesis by simp
  qed
qed

subsection \<open>Probing\<close>

lemma post_probe_returns:
  assumes "z_iface z i = Some u"
  shows "avahi_interface_post_probe i r im z = Some (z\<lparr>z_log := z_log z @ (if i_announcing u then [Post_probe i r im] else [])\<rparr>)"
  using assms by (simp add: avahi_interface_post_probe_def log_event_def)

lemma probe_step_ok:
  assumes "zone_ok z" "z_announcer z a = Some x" "z_entry z (a_entry x) = Some y" "z_iface z (a_interface x) = Some u"
  shows "\<exists>z' t. probe_step v a z = Some z' \<and> working z a x 0 z' (x\<lparr>a_time_event := Some t, a_n_iteration := a_n_iteration x + 1\<rparr>) \<and>
    (\<exists>j. due (z_time_event_queue z') (Elapse_announce a) = {fst (elapse v AVAHI_PROBE_INTERVAL_MSEC 0 j)}) \<and>
    z_log z' = z_log z @ (if i_announcing u then [Post_probe (a_interface x) (e_record y) False] else [])"
proof -
  let ?z = "z\<lparr>z_log := z_log z @ (if i_announcing u then [Post_probe (a_interface x) (e_record y) False] else [])\<rparr>"
  note w1 = working_jitter(2) [OF working_refl [OF assms(1,2)],
    of "z_log z @ (if i_announcing u then [Post_probe (a_interface x) (e_record y) False] else [])"]
  from working_elapse [OF w1, of v AVAHI_PROBE_INTERVAL_MSEC 0] obtain z2 t where
    z2: "set_timeout_elapse v a AVAHI_PROBE_INTERVAL_MSEC 0 ?z = Some z2" "working z a x 0 z2 (x\<lparr>a_time_event := Some t\<rparr>)"
      "due (z_time_event_queue z2) (Elapse_announce a) = {fst (elapse v AVAHI_PROBE_INTERVAL_MSEC 0 (z_jitter ?z))}" "z_log z2 = z_log ?z" by blast
  let ?f = "\<lambda>x. x\<lparr>a_n_iteration := a_n_iteration x + 1\<rparr>"
  from working_state [OF z2(2), of ?f] obtain z3 where
    z3: "mod_announcer a ?f z2 = Some z3" "working z a x 0 z3 (x\<lparr>a_time_event := Some t, a_n_iteration := a_n_iteration x + 1\<rparr>)"
      "z_log z3 = z_log z2" by auto
  have "z_time_event_queue z3 = z_time_event_queue z2" using z3(1) by (auto simp: mod_announcer_def Option.bind_eq_Some_conv)
  moreover have "probe_step v a z = Some z3"
    using assms(2,3) post_probe_returns [OF assms(4), of "e_record y" False] z2(1) z3(1) by (simp add: probe_step_def)
  ultimately show ?thesis using z2(3,4) z3(2,3) by (intro exI [of _ z3] exI [of _ t]) (auto intro: exI [of _ "z_jitter ?z"])
qed

lemma entry_of_announcer:
  assumes "zone_ok z" "z_announcer z a = Some x"
  obtains y u where "z_entry z (a_entry x) = Some y" "\<not> e_dead y" "committed z (e_group y)" "group_of z (a_entry x) = e_group y"
    "z_iface z (a_interface x) = Some u"
  by (rule working_entry [OF working_refl [OF assms]]) blast

lemma live_group:
  assumes "zone_ok z" "z_entry z e = Some y" "\<not> e_dead y" "e_group y = Some g"
  obtains w where "z_group z g = Some w" "\<not> g_dead w"
proof -
  note zd = zone_okD [OF assms(1)]
  from entries_okD(7) [OF zd(1) assms(2,4)] obtain w where w: "z_group z g = Some w" ..
  with groups_okD(5) [OF zd(2) w _ assms(2,4)] assms(3) that show thesis by blast
qed

lemma probing_counted:
  assumes "zone_ok z" "z_announcer z a = Some x" "a_state x = AVAHI_PROBING" "group_of z (a_entry x) = Some g" "z_group z g = Some w"
  shows "g_n_probing w > 0"
proof -
  note zd = zone_okD [OF assms(1)]
  have "a \<in> probing z g" using assms(2-4) by (simp add: probing_def)
  with finite_probing [OF zd(4), of g] have "0 < card (probing z g)" by (auto simp: card_gt_0_iff)
  moreover have "int (card (probing z g)) \<le> g_n_probing w" using zd(6) assms(5) by (simp add: counts_ok_def)
  ultimately show ?thesis by linarith
qed

lemma add_probing_eq: "add_probing None d z = Some z"
  by (simp add: add_probing_def)

lemma probing_done_cases:
  assumes "zone_ok z" "z_announcer z a = Some x" "a_state x = AVAHI_PROBING"
  obtains (waits) z1 g w x1 where "\<And>cb. probing_done cb v a z = avahi_s_entry_group_check_probed cb v True g z1" "zone_ok z1" "stepped z z1"
      "z_group z1 g = Some w" "\<not> g_dead w" "z_announcer z1 a = Some x1" "a_state x1 = AVAHI_WAITING" "group_of z1 (a_entry x1) = Some g"
      "z_announcer z1 = (z_announcer z)(a \<mapsto> x\<lparr>a_state := AVAHI_WAITING, a_time_event := None\<rparr>)"
      "group_of z (a_entry x) = Some g" "z_group z1 = shift_probing (Some g) (- 1) (z_group z)"
      "g_state w = AVAHI_ENTRY_GROUP_REGISTERING"
  | (announces) z1 x1 where "\<And>cb. probing_done cb v a z = Some z1" "zone_ok z1" "stepped z z1" "z_announcer z1 a = Some x1"
      "a_state x1 = AVAHI_ANNOUNCING" "a_n_iteration x1 = 2" "z_announcer z1 = (z_announcer z)(a \<mapsto> x1)"
      "z_group z1 = shift_probing (group_of z (a_entry x)) (- 1) (z_group z)"
      "\<And>g w. group_of z (a_entry x) = Some g \<Longrightarrow> z_group z g = Some w \<Longrightarrow> g_state w \<noteq> AVAHI_ENTRY_GROUP_REGISTERING"
proof -
  obtain y u where y: "z_entry z (a_entry x) = Some y" "\<not> e_dead y" "group_of z (a_entry x) = e_group y"
    by (rule entry_of_announcer [OF assms(1,2)]) blast
  from working_shift [OF working_refl [OF assms(1,2)], of "- 1"] obtain z1 where
    z1: "add_probing (e_group y) (- 1) z = Some z1" "working z a x (- 1) z1 x" unfolding y(3) by auto
  have reg: "\<exists>b. (case e_group y of None \<Rightarrow> Some False
       | Some g \<Rightarrow> do { w \<leftarrow> z_group z g; assert_that (g_n_probing w \<noteq> 0); Some (g_state w = AVAHI_ENTRY_GROUP_REGISTERING) }) = Some b \<and>
       (b \<longrightarrow> e_group y \<noteq> None)"
  proof (cases "e_group y")
    case (Some g)
    obtain w where w: "z_group z g = Some w" by (rule live_group [OF assms(1) y(1,2) Some]) blast
    from probing_counted [OF assms _ w] y(3) Some have "g_n_probing w > 0" by simp
    with Some w show ?thesis by simp
  qed auto
  then obtain b where b: "(case e_group y of None \<Rightarrow> Some False
       | Some g \<Rightarrow> do { w \<leftarrow> z_group z g; assert_that (g_n_probing w \<noteq> 0); Some (g_state w = AVAHI_ENTRY_GROUP_REGISTERING) }) = Some b"
      "b \<longrightarrow> e_group y \<noteq> None" by blast
  show thesis
  proof (cases b)
    case True
    with b(2) obtain g where g: "e_group y = Some g" by blast
    from working_state [OF z1(2), of "\<lambda>x. x\<lparr>a_state := AVAHI_WAITING\<rparr>"] obtain z2 where
      z2: "mod_announcer a (\<lambda>x. x\<lparr>a_state := AVAHI_WAITING\<rparr>) z1 = Some z2" "working z a x (- 1) z2 (x\<lparr>a_state := AVAHI_WAITING\<rparr>)" by auto
    from working_timeout [OF z2(2), of None] obtain z3 where
      z3: "set_timeout a None z2 = Some z3" "working z a x (- 1) z3 (x\<lparr>a_state := AVAHI_WAITING, a_time_event := None\<rparr>)" by auto
    have ok: "zone_ok z3" by (rule working_done [OF z3(2)]) (use assms(3) g y(3) in \<open>simp_all add: wants_timer_def\<close>)
    note st = working_stepped [OF z3(2) ok]
    from y(1) steppedD(3) [OF st] have y3: "z_entry z3 (a_entry x) = Some y" by simp
    obtain w where w: "z_group z3 g = Some w" "\<not> g_dead w" by (rule live_group [OF ok y3 y(2) g]) blast
    have "probing_done cb v a z = avahi_s_entry_group_check_probed cb v True g z3" for cb
      using assms(2) y(1) b(1) True z1(1) z2(1) z3(1) g by (simp add: probing_done_def)
    moreover have "g_state w = AVAHI_ENTRY_GROUP_REGISTERING"
      using w(1) b(1) True g workingD(7) [OF z3(2)] y(3) by (auto simp: shift_probing_def Option.bind_eq_Some_conv split: option.splits)
    ultimately show thesis
      using waits [OF _ ok st w working_views(1) [OF z3(2)]] y3 g y(3) workingD(4,7) [OF z3(2)] by (simp add: group_of_def)
  next
    case False
    let ?f = "\<lambda>x. x\<lparr>a_state := AVAHI_ANNOUNCING, a_n_iteration := 1\<rparr>"
    from working_state [OF z1(2), of ?f] obtain z2 where
      z2: "mod_announcer a ?f z1 = Some z2" "working z a x (- 1) z2 (?f x)" by auto
    from working_timeout [OF z2(2), of None] obtain z3 where
      z3: "set_timeout a None z2 = Some z3" "working z a x (- 1) z3 ((?f x)\<lparr>a_time_event := None\<rparr>)" by auto
    from announce_step_ok [OF z3(2), of v] obtain z4 t where
      z4: "announce_step v a z3 = Some z4" "working z a x (- 1) z4 (announced ((?f x)\<lparr>a_time_event := None\<rparr>) (Some t))" by blast
    have ok: "zone_ok z4" by (rule working_done [OF z4(2)]) (use assms(3) in \<open>simp_all add: wants_timer_def announced_def\<close>)
    have "probing_done cb v a z = Some z4" for cb
      using assms(2) y(1) b(1) False z1(1) z2(1) z3(1) z4(1) by (simp add: probing_done_def)
    moreover have "g_state w \<noteq> AVAHI_ENTRY_GROUP_REGISTERING" if "group_of z (a_entry x) = Some g" "z_group z g = Some w" for g w
      using b(1) False that y(3) by (auto simp: Option.bind_eq_Some_conv)
    ultimately show thesis
      using announces [OF _ ok working_stepped [OF z4(2) ok] working_views(1) [OF z4(2)] _ _ workingD(4) [OF z4(2)] workingD(7) [OF z4(2)]]
      by (simp add: announced_def)
  qed
qed

lemma probing_done_ok:
  assumes "callback_ok cb" "zone_ok z" "z_announcer z a = Some x" "a_state x = AVAHI_PROBING"
  shows "\<exists>z'. probing_done cb v a z = Some z' \<and> zone_ok z' \<and> keeps_groups z z'"
  using assms(2-4)
proof (cases rule: probing_done_cases [where v = v])
  case (waits z1 g w x1)
  from check_probed_ok [OF assms(1) waits(2,4,5), of v True] waits(1,3) stepped_keeps_groups keeps_groups_trans show ?thesis by metis
next
  case (announces z1 x1)
  with stepped_keeps_groups show ?thesis by blast
qed

lemma next_state_ok:
  assumes "callback_ok cb" "zone_ok z" "z_announcer z a = Some x"
  shows "\<exists>z'. next_state cb v a z = Some z' \<and> zone_ok z' \<and> keeps_groups z z'"
proof -
  obtain y u where y: "z_entry z (a_entry x) = Some y" "\<not> e_dead y" "group_of z (a_entry x) = e_group y" "z_iface z (a_interface x) = Some u"
    by (rule entry_of_announcer [OF assms(2,3)]) blast
  note zd = zone_okD [OF assms(2)]
  show ?thesis
  proof (cases "a_state x")
    case AVAHI_PROBING
    show ?thesis
    proof (cases "a_n_iteration x \<ge> 4")
      case True
      with AVAHI_PROBING assms(3) y(1) probing_done_ok [OF assms AVAHI_PROBING, of v] show ?thesis by (simp add: next_state_def)
    next
      case False
      from probe_step_ok [OF assms(2,3) y(1,4), of v] obtain z1 t where
        z1: "probe_step v a z = Some z1" "working z a x 0 z1 (x\<lparr>a_time_event := Some t, a_n_iteration := a_n_iteration x + 1\<rparr>)" by blast
      have ok: "zone_ok z1" by (rule working_done [OF z1(2)]) (use AVAHI_PROBING in \<open>simp_all add: wants_timer_def\<close>)
      from z1(1) AVAHI_PROBING False assms(3) y(1) have "next_state cb v a z = Some z1" by (simp add: next_state_def)
      with ok stepped_keeps_groups [OF working_stepped [OF z1(2) ok]] show ?thesis by blast
    qed
  next
    case AVAHI_WAITING
    with zone_timers_okD(5) [OF zd(5) assms(3)] y(3) obtain g where g: "e_group y = Some g" by auto
    obtain w where w: "z_group z g = Some w" "\<not> g_dead w" by (rule live_group [OF assms(2) y(1,2) g]) blast
    with AVAHI_WAITING assms(3) y(1) g check_probed_ok [OF assms(1,2) w, of v True] show ?thesis by (simp add: next_state_def)
  next
    case AVAHI_ANNOUNCING
    from announce_step_ok [OF working_refl [OF assms(2,3)], of v] obtain z1 t where
      z1: "announce_step v a z = Some z1" "working z a x 0 z1 (announced x (Some t))" by blast
    have ok: "zone_ok z1" by (rule working_done [OF z1(2)]) (use AVAHI_ANNOUNCING in \<open>auto simp: wants_timer_def announced_def split: if_splits\<close>)
    from z1(1) AVAHI_ANNOUNCING assms(3) y(1) have "next_state cb v a z = Some z1" by (simp add: next_state_def)
    with ok stepped_keeps_groups [OF working_stepped [OF z1(2) ok]] show ?thesis by blast
  next
    case AVAHI_ESTABLISHED
    with assms y(1) keeps_groups_refl show ?thesis by (simp add: next_state_def)
  qed
qed

subsection \<open>Starting and restarting\<close>

lemma restart_timer_ok:
  assumes "working z a x d z1 x1" "of_bool (a_state x1 = AVAHI_PROBING) - of_bool (a_state x = AVAHI_PROBING) \<le> d"
    "a_state x1 = AVAHI_WAITING \<Longrightarrow> group_of z (a_entry x) \<noteq> None"
  shows "\<exists>z2. restart_timer v a z1 = Some z2 \<and> stepped z z2"
proof -
  note x1 = working_views(1) [OF assms(1)]
  have "\<exists>z2 t. restart_timer v a z1 = Some z2 \<and> working z a x d z2 (x1\<lparr>a_time_event := t\<rparr>) \<and> (t \<noteq> None \<longleftrightarrow> wants_timer (a_state x1))"
  proof (cases "wants_timer (a_state x1)")
    case True
    then show ?thesis
      using x1 working_elapse [OF assms(1), of v 0 AVAHI_PROBE_JITTER_MSEC] working_elapse [OF assms(1), of v 0 AVAHI_ANNOUNCEMENT_JITTER_MSEC]
      by (fastforce simp: restart_timer_def wants_timer_def)
  next
    case False
    then show ?thesis
      using x1 working_timeout [OF assms(1), of None] by (fastforce simp: restart_timer_def wants_timer_def)
  qed
  then obtain z2 t where z2: "restart_timer v a z1 = Some z2" "working z a x d z2 (x1\<lparr>a_time_event := t\<rparr>)"
    "t \<noteq> None \<longleftrightarrow> wants_timer (a_state x1)" by blast
  have "zone_ok z2" by (rule working_done [OF z2(2)]) (use assms(2,3) z2(3) in simp_all)
  with z2(1) working_stepped [OF z2(2)] show ?thesis by blast
qed

lemma initial_state_returns:
  assumes "zone_ok z" "z_entry z e = Some y"
  obtains st where "initial_state z y = Some st" "st = AVAHI_WAITING \<Longrightarrow> e_group y \<noteq> None"
proof (cases "e_group y")
  case None
  then have "\<exists>st. initial_state z y = Some st \<and> st \<noteq> AVAHI_WAITING" by (simp add: initial_state_def)
  with that show thesis by blast
next
  case (Some g)
  from entries_okD(7) [OF zone_okD(1) [OF assms(1)] assms(2) Some] obtain w where "z_group z g = Some w" ..
  with Some have "\<exists>st. initial_state z y = Some st" by (simp add: initial_state_def)
  with that Some show thesis by blast
qed

text \<open>\<open>d\<close> is the change the caller has made to the counter before.\<close>

lemma go_to_initial_state_working:
  assumes "working z a x d z1 x" "- of_bool (a_state x = AVAHI_PROBING) \<le> d"
    "\<And>y. z_entry z (a_entry x) = Some y \<Longrightarrow> initial_state z1 y = initial_state z y"
  shows "\<exists>z2. go_to_initial_state v a z1 = Some z2 \<and> stepped z z2"
proof -
  note w = workingD [OF assms(1)] and vw = working_views [OF assms(1)]
  obtain y where y: "z_entry z1 (a_entry x) = Some y" "z_entry z (a_entry x) = Some y" "group_of z (a_entry x) = e_group y"
    by (rule working_entry [OF assms(1)]) blast
  obtain st where st: "initial_state z y = Some st" "st = AVAHI_WAITING \<Longrightarrow> e_group y \<noteq> None"
    by (rule initial_state_returns [OF w(1) y(2)]) blast
  let ?f = "\<lambda>x. x\<lparr>a_state := st, a_n_iteration := 1, a_sec_delay := 1\<rparr>"
  from working_state [OF assms(1), of ?f] obtain z2 where z2: "mod_announcer a ?f z1 = Some z2" "working z a x d z2 (?f x)" by auto
  have "\<exists>z3 d'. (if st = AVAHI_PROBING then add_probing (e_group y) 1 z2 else Some z2) = Some z3 \<and> working z a x d' z3 (?f x) \<and>
      of_bool (st = AVAHI_PROBING) - of_bool (a_state x = AVAHI_PROBING) \<le> d'"
  proof (cases "st = AVAHI_PROBING")
    case True
    from working_shift [OF z2(2), of 1] y(3) obtain z3 where
      z3: "add_probing (e_group y) 1 z2 = Some z3" "working z a x (d + 1) z3 (?f x)" by auto
    with True assms(2) show ?thesis by (intro exI [of _ z3] exI [of _ "d + 1"]) simp
  next
    case False
    with z2(2) assms(2) show ?thesis by (intro exI [of _ z2] exI [of _ d]) simp
  qed
  then obtain z3 d' where z3: "(if st = AVAHI_PROBING then add_probing (e_group y) 1 z2 else Some z2) = Some z3"
    "working z a x d' z3 (?f x)" "of_bool (st = AVAHI_PROBING) - of_bool (a_state x = AVAHI_PROBING) \<le> d'" by blast
  from restart_timer_ok [OF z3(2), of v] z3(3) st(2) y(3) obtain z4 where
    z4: "restart_timer v a z3 = Some z4" "stepped z z4" by auto
  have "go_to_initial_state v a z1 = Some z4"
    using vw(1) y(1) assms(3) [OF y(2)] st(1) z2(1) z3(1) z4(1) by (simp add: go_to_initial_state_def cong: if_cong)
  with z4(2) show ?thesis by blast
qed

lemma go_to_initial_state_ok:
  assumes "zone_ok z" "z_announcer z a = Some x"
  shows "\<exists>z2. go_to_initial_state v a z = Some z2 \<and> stepped z z2"
  by (rule go_to_initial_state_working [OF working_refl [OF assms]]) simp_all

lemma initial_state_shift:
  assumes "working z a x d z1 x1"
  shows "initial_state z1 y = initial_state z y"
proof -
  have "(do { w \<leftarrow> z_group z1 g; Some (f (g_state w)) }) = (do { w \<leftarrow> z_group z g; Some (f (g_state w)) })" for g and f :: "group_state \<Rightarrow> announcer_state"
    unfolding workingD(7) [OF assms] by (cases "group_of z (a_entry x)") (auto simp: shift_probing_def split: option.splits)
  from this [of _ "\<lambda>s. if s = AVAHI_ENTRY_GROUP_ESTABLISHED then AVAHI_ANNOUNCING else AVAHI_WAITING"] show ?thesis
    unfolding initial_state_def by (cases "e_group y") simp_all
qed

lemma return_to_initial_state_ok:
  assumes "zone_ok z" "z_entry z e = Some y"
  shows "\<exists>z'. avahi_entry_return_to_initial_state v e i z = Some z' \<and> stepped z z'"
  using zone_okD(4) [OF assms(1)] assms(2)
proof (cases rule: get_announcer_cases [of z e y i])
  case none
  then show ?thesis using stepped_refl [OF assms(1)] by (simp add: avahi_entry_return_to_initial_state_def)
next
  case (some a x)
  have y: "z_entry z (a_entry x) = Some y" "group_of z (a_entry x) = e_group y" using some assms(2) by (simp_all add: group_of_def)
  show ?thesis
  proof (cases "a_state x = AVAHI_PROBING")
    case True
    from working_shift [OF working_refl [OF assms(1) some(3)], of "- 1"] y(2) obtain z1 where
      z1: "add_probing (e_group y) (- 1) z = Some z1" "working z a x (- 1) z1 x" by auto
    from go_to_initial_state_working [OF z1(2) _ initial_state_shift [OF z1(2)], of v] True obtain z2 where
      "go_to_initial_state v a z1 = Some z2" "stepped z z2" by auto
    with some y(1) z1(1) True show ?thesis by (simp add: avahi_entry_return_to_initial_state_def)
  next
    case False
    with some y(1) go_to_initial_state_ok [OF assms(1) some(3), of v] show ?thesis
      by (simp add: avahi_entry_return_to_initial_state_def)
  qed
qed

end
