(* ===== verification/Zonewalk.thy ===== *)
theory Zonewalk
  imports Zoneannounce
begin

text \<open>
  Announcers come and go: new announcers, announcing again, goodbyes and the removal of announcers, with the
  walk over the interfaces that they share. Each of these operations returns and keeps the invariant.
\<close>

subsection \<open>Announcers come and go\<close>

lemma reshape:
  assumes z: "zone_ok z" and y: "z_entry z e = Some y" "\<not> e_dead y" and e: "z_entry z' = (z_entry z)(e \<mapsto> y\<lparr>e_announcers := as\<rparr>)"
    and s: "z_group z' = z_group z" "z_entries z' = z_entries z" "z_groups z' = z_groups z" "z_entries_by_key z' = z_entries_by_key z"
      "z_cleanup_time_event z' = z_cleanup_time_event z" "z_next z \<le> z_next z'" "z_record_list z' = z_record_list z"
    and links: "links_ok z'"
    and b: "\<And>b. b \<noteq> a \<Longrightarrow> z_announcer z' b = z_announcer z b"
    and q: "teq_core (z_time_event_queue z')"
      "armed (z_time_event_queue z') = (armed (z_time_event_queue z))(Elapse_announce a := {})"
    and a: "\<And>x. z_announcer z' a = Some x \<Longrightarrow> a_time_event x = None \<and> a_state x = AVAHI_ESTABLISHED"
  shows "zone_ok z'"
proof -
  note zd = zone_okD [OF z]
  note ed = entries_okD [OF zd(1)] and gd = groups_okD [OF zd(2)] and td = zone_timers_okD [OF zd(5)]
  have gr: "group_of z' = group_of z" unfolding group_of_def e by (rule ext) (simp add: y)
  have cn: "canon_of z' = canon_of z" unfolding canon_of_def e by (rule ext) (simp add: y)
  have old: "\<exists>y0. z_entry z f = Some y0 \<and> e_record y1 = e_record y0 \<and> e_group y1 = e_group y0 \<and> e_dead y1 = e_dead y0 \<and>
      (f \<noteq> e \<longrightarrow> y1 = y0)" if "z_entry z' f = Some y1" for f y1
    using that y e by (cases "f = e") auto
  have "entries_ok z'"
    unfolding entries_ok_def s(1,2)
  proof (intro conjI allI impI, goal_cases)
    case 1
    show ?case by (rule ed(1))
  next
    case 2
    have "dom (z_entry z') = dom (z_entry z)" using y e by (auto simp: dom_def)
    with zd(1) show ?case by (simp add: entries_ok_def)
  next
    case (3 f y1)
    from old [OF this] ed(3) s(6) show ?case by fastforce
  next
    case (4 f y1)
    from old [OF this] ed(4) show ?case by metis
  next
    case (5 f y1)
    from old [OF this] ed(5) show ?case by metis
  next
    case (6 f y1)
    then show ?case using ed(6) [of f] ed(6) [OF y(1)] e by (cases "f = e") auto
  next
    case (7 f y1 g)
    from old [OF 7(1)] ed(7) 7(2) show ?case by fastforce
  next
    case (8 f y1)
    from old [OF 8(1)] 8(2) ed(8) y show ?case by (cases "f = e") auto
  qed
  moreover have "groups_ok z'"
    unfolding groups_ok_def s(1,2,3) gr
  proof (intro conjI allI impI, goal_cases)
    case 1
    show ?case by (rule gd(1))
  next
    case 2
    show ?case using zd(2) by (simp add: groups_ok_def)
  next
    case (3 g x)
    then show ?case using gd(3) s(6) by fastforce
  next
    case (4 g x)
    then show ?case by (rule gd(4))
  next
    case (5 g x f y1)
    then show ?case using old [of f y1] gd(5) [of g x f] by metis
  qed
  moreover have "keys_ok z'" using zd(3) unfolding keys_ok_def s cn .
  moreover note links
  moreover have "zone_timers_ok z'"
  proof -
    have other: "armed_as (z_time_event_queue z') c t = armed_as (z_time_event_queue z) c t" if "c \<noteq> Elapse_announce a" for c t
      by (rule armed_as_cong) (use that q(2) in simp)
    have other': "armed (z_time_event_queue z') c = armed (z_time_event_queue z) c" if "c \<noteq> Elapse_announce a" for c
      using that q(2) by simp
    show ?thesis
      unfolding zone_timers_ok_def
    proof (intro conjI allI, goal_cases)
      case 1
      show ?case by (rule q(1))
    next
      case (2 b)
      show ?case
      proof (cases "b = a")
        case True
        then show ?thesis using q(2) a by (cases "z_announcer z' a") (auto simp: wants_timer_def)
      next
        case False
        then have b': "Elapse_announce b \<noteq> Elapse_announce a" "z_announcer z' b = z_announcer z b" using b by simp_all
        show ?thesis
        proof (cases "z_announcer z b")
          case None
          then show ?thesis using td(2) other' [OF b'(1)] b'(2) by simp
        next
          case (Some u)
          then show ?thesis using td(3-5) [OF Some] other [OF b'(1)] b'(2) gr by simp
        qed
      qed
    next
      case (3 g)
      show ?case
      proof (cases "z_group z g")
        case None
        then show ?thesis using td(6) other' s(1) by simp
      next
        case (Some u)
        then show ?thesis using td(7) [OF Some] other s(1) by (simp add: group_timer_ok_def)
      qed
    next
      case 4
      show ?case using td(8) other s(5) by simp
    qed
  qed
  moreover have "counts_ok z'"
    unfolding counts_ok_def s(1)
  proof (intro allI impI)
    fix g x
    assume x: "z_group z g = Some x"
    have "c \<in> probing z g" if "c \<in> probing z' g" for c
    proof -
      from that obtain u where u: "z_announcer z' c = Some u" "a_state u = AVAHI_PROBING" "group_of z (a_entry u) = Some g"
        by (auto simp: probing_def gr)
      then have "c \<noteq> a" using a by auto
      with u b show ?thesis by (simp add: probing_def)
    qed
    then have "card (probing z' g) \<le> card (probing z g)"
      by (intro card_mono [OF finite_probing [OF zd(4)]]) blast
    with x zd(6) show "int (card (probing z' g)) \<le> g_n_probing x" unfolding counts_ok_def by fastforce
  qed
  moreover have "list_ok z'" using zd(7) s(7) by (simp add: list_ok_def)
  ultimately show ?thesis unfolding zone_ok_def by blast
qed

lemma committed_cong: "z_group z' = z_group z \<Longrightarrow> committed z' = committed z"
  by (simp add: committed_def [abs_def])

text \<open>The new announcer of the entry \<open>e\<close> on the interface \<open>i\<close>, before it has a state.\<close>

definition with_announcer :: "nat \<Rightarrow> nat \<Rightarrow> avahi_entry \<Rightarrow> iface \<Rightarrow> 'o zone \<Rightarrow> 'o zone" where
  "with_announcer e i y u z =
     z\<lparr>z_next := z_next z + 1,
       z_announcer := (z_announcer z)(z_next z \<mapsto>
         \<lparr>a_interface = i, a_entry = e, a_time_event = None, a_state = AVAHI_ESTABLISHED, a_n_iteration = 0, a_sec_delay = 0\<rparr>),
       z_iface := (z_iface z)(i \<mapsto> u\<lparr>i_announcers := z_next z # i_announcers u\<rparr>),
       z_entry := (z_entry z)(e \<mapsto> y\<lparr>e_announcers := z_next z # e_announcers y\<rparr>)\<rparr>"

lemma fresh_announcer: "links_ok z \<Longrightarrow> z_announcer z (z_next z) = None"
  using links_okD(1) [of z "z_next z"] by (cases "z_announcer z (z_next z)") auto

lemma with_announcer_links:
  assumes "links_ok z" "z_entry z e = Some y" "\<not> e_dead y" "committed z (e_group y)" "z_iface z i = Some u"
    and no: "\<And>a x. a \<in> set (e_announcers y) \<Longrightarrow> z_announcer z a = Some x \<Longrightarrow> a_interface x \<noteq> i"
  shows "links_ok (with_announcer e i y u z)"
proof -
  note d = links_okD [OF assms(1)] and fresh = fresh_announcer [OF assms(1)]
  let ?z = "with_announcer e i y u z"
  let ?a = "z_next z"
  have ne: "?a \<notin> set (e_announcers y')" if "z_entry z f = Some y'" for f y' using d(5) [OF that] fresh by fastforce
  have ni: "?a \<notin> set (i_announcers u')" if "z_iface z j = Some u'" for j u' using d(8) [OF that] fresh by fastforce
  have cm: "committed ?z = committed z" by (rule committed_cong) (simp add: with_announcer_def)
  have A: "z_announcer ?z = (z_announcer z)(?a \<mapsto>
         \<lparr>a_interface = i, a_entry = e, a_time_event = None, a_state = AVAHI_ESTABLISHED, a_n_iteration = 0, a_sec_delay = 0\<rparr>)"
    and I: "z_iface ?z = (z_iface z)(i \<mapsto> u\<lparr>i_announcers := ?a # i_announcers u\<rparr>)"
    and E: "z_entry ?z = (z_entry z)(e \<mapsto> y\<lparr>e_announcers := ?a # e_announcers y\<rparr>)"
    and R: "z_next ?z = ?a + 1" "z_interfaces ?z = z_interfaces z" "z_by_hardware ?z = z_by_hardware z"
    by (simp_all add: with_announcer_def)
  show ?thesis
    unfolding links_ok_def cm R(2,3)
  proof (intro conjI allI impI ballI, goal_cases)
    case (1 a x)
    show ?case
    proof (cases "a = ?a")
      case False
      with 1 have "z_announcer z a = Some x" unfolding A by simp
      from d(1) [OF this] show ?thesis unfolding R(1) by simp
    qed (simp add: R(1))
  next
    case (2 a x)
    show ?case
    proof (cases "a = ?a")
      case True
      then show ?thesis using 2 assms(3,4) unfolding A E by auto
    next
      case False
      with 2 have x: "z_announcer z a = Some x" unfolding A by simp
      from d(2) [OF x] obtain y' where y': "z_entry z (a_entry x) = Some y'" "\<not> e_dead y'" "a \<in> set (e_announcers y')" "committed z (e_group y')" by blast
      show ?thesis using y' assms(2) unfolding E by (cases "a_entry x = e") auto
    qed
  next
    case (3 a x)
    show ?case
    proof (cases "a = ?a")
      case True
      then show ?thesis using 3 unfolding A I by auto
    next
      case False
      with 3 have x: "z_announcer z a = Some x" unfolding A by simp
      from d(3) [OF x] obtain u' where u': "z_iface z (a_interface x) = Some u'" "a \<in> set (i_announcers u')" by blast
      show ?thesis using u' assms(5) unfolding I by (cases "a_interface x = i") auto
    qed
  next
    case (4 f y')
    then show ?case using d(4) [of f y'] d(4) [OF assms(2)] ne [OF assms(2)] unfolding E by (cases "f = e") auto
  next
    case (5 f y' a)
    then show ?case
    proof (cases "a = ?a")
      case True
      have "f = e"
      proof (rule ccontr)
        assume "f \<noteq> e"
        then have "z_entry z f = Some y'" using 5 unfolding E by simp
        from ne [OF this] 5 True show False by simp
      qed
      with True show ?thesis unfolding A by simp
    next
      case False
      have "\<exists>y0. z_entry z f = Some y0 \<and> a \<in> set (e_announcers y0)"
        using 5 assms(2) False unfolding E by (cases "f = e") auto
      then obtain y0 where "z_entry z f = Some y0" "a \<in> set (e_announcers y0)" by blast
      from d(5) [OF this] False show ?thesis unfolding A by simp
    qed
  next
    case (6 f y' a b x w)
    then have p: "z_entry ?z f = Some y'" "a \<in> set (e_announcers y')" "b \<in> set (e_announcers y')" "z_announcer ?z a = Some x"
      "z_announcer ?z b = Some w" "a_interface x = a_interface w" by simp_all
    show ?case
    proof (cases "f = e")
      case False
      then have f: "z_entry z f = Some y'" using p(1) unfolding E by simp
      then have "a \<noteq> ?a" "b \<noteq> ?a" using ne [OF f] p(2,3) by auto
      with d(6) [OF f p(2,3)] p(4-6) show ?thesis unfolding A by simp
    next
      case True
      then have y': "e_announcers y' = ?a # e_announcers y" using p(1) unfolding E by auto
      have n: "a_interface x0 \<noteq> i" if "c \<in> set (e_announcers y)" "z_announcer ?z c = Some x0" for c x0
        using no [OF that(1), of x0] that ne [OF assms(2)] unfolding A by (cases "c = ?a") simp_all
      have s: "a_interface x0 = i" if "z_announcer ?z ?a = Some x0" for x0 using that unfolding A by auto
      show ?thesis
      proof (cases "a = ?a")
        case True
        have x: "a_interface x = i" using s [of x] p(4) True by simp
        show ?thesis
        proof (rule ccontr)
          assume "a \<noteq> b"
          then have "b \<in> set (e_announcers y)" using p(3) True unfolding y' by simp
          from n [OF this p(5)] x p(6) show False by simp
        qed
      next
        case F: False
        then have a: "a \<in> set (e_announcers y)" using p(2) y' by simp
        show ?thesis
        proof (cases "b = ?a")
          case True
          then show ?thesis using n [OF a p(4)] s [of w] p(5,6) by simp
        next
          case False
          then have "b \<in> set (e_announcers y)" using p(3) y' by simp
          from d(6) [OF assms(2) a this] p(4-6) F False show ?thesis unfolding A by simp
        qed
      qed
    qed
  next
    case (7 j u')
    then show ?case using d(7) [of j u'] d(7) [OF assms(5)] ni [OF assms(5)] unfolding I by (cases "j = i") auto
  next
    case (8 j u' a)
    show ?case
    proof (cases "a = ?a")
      case True
      have "j = i"
      proof (rule ccontr)
        assume "j \<noteq> i"
        then have "z_iface z j = Some u'" using 8 unfolding I by simp
        from ni [OF this] 8 True show False by simp
      qed
      with True show ?thesis unfolding A by simp
    next
      case False
      have "\<exists>u0. z_iface z j = Some u0 \<and> a \<in> set (i_announcers u0)"
        using 8 assms(5) False unfolding I by (cases "j = i") auto
      then obtain u0 where "z_iface z j = Some u0" "a \<in> set (i_announcers u0)" by blast
      from d(8) [OF this] False show ?thesis unfolding A by simp
    qed
  next
    case (9 j)
    from d(9) [OF this] show ?case unfolding I by auto
  next
    case (10 idx js j)
    then show ?case using d(10) [of idx js j] unfolding I by auto
  qed
qed

lemma with_announcer_ok:
  assumes "zone_ok z" "z_entry z e = Some y" "\<not> e_dead y" "committed z (e_group y)" "z_iface z i = Some u"
    "\<And>a x. a \<in> set (e_announcers y) \<Longrightarrow> z_announcer z a = Some x \<Longrightarrow> a_interface x \<noteq> i"
  shows "zone_ok (with_announcer e i y u z)"
proof -
  note zd = zone_okD [OF assms(1)]
  note td = zone_timers_okD [OF zd(5)]
  have no: "armed (z_time_event_queue z) (Elapse_announce (z_next z)) = {}"
    by (rule td(2) [OF fresh_announcer [OF zd(4)]])
  show ?thesis
  proof (rule reshape [OF assms(1-3), where a = "z_next z" and as = "z_next z # e_announcers y"])
    show "links_ok (with_announcer e i y u z)" by (rule with_announcer_links [OF zd(4) assms(2-6)])
    have "(armed (z_time_event_queue z))(Elapse_announce (z_next z) := {}) = armed (z_time_event_queue z)" using no by (simp add: fun_upd_idem)
    then show "armed (z_time_event_queue (with_announcer e i y u z)) = (armed (z_time_event_queue z))(Elapse_announce (z_next z) := {})"
      by (simp add: with_announcer_def)
  qed (use td(1) in \<open>auto simp: with_announcer_def\<close>)
qed

text \<open>What announcing and saying goodbye leave alone.\<close>

definition kept :: "'o zone \<Rightarrow> 'o zone \<Rightarrow> bool" where
  "kept z z' \<longleftrightarrow> zone_ok z' \<and>
     (\<forall>e. map_option (\<lambda>y. y\<lparr>e_announcers := []\<rparr>) (z_entry z' e) = map_option (\<lambda>y. y\<lparr>e_announcers := []\<rparr>) (z_entry z e)) \<and>
     (\<forall>i. map_option (\<lambda>u. u\<lparr>i_announcers := []\<rparr>) (z_iface z' i) = map_option (\<lambda>u. u\<lparr>i_announcers := []\<rparr>) (z_iface z i)) \<and>
     (\<forall>g. map_option (\<lambda>w. w\<lparr>g_n_probing := 0\<rparr>) (z_group z' g) = map_option (\<lambda>w. w\<lparr>g_n_probing := 0\<rparr>) (z_group z g)) \<and>
     z_entries z' = z_entries z \<and> z_groups z' = z_groups z \<and> z_interfaces z' = z_interfaces z \<and>
     z_by_hardware z' = z_by_hardware z \<and> z_entries_by_key z' = z_entries_by_key z"

lemma keptD:
  assumes "kept z z'"
  shows "zone_ok z'" "z_entries z' = z_entries z" "z_groups z' = z_groups z" "z_interfaces z' = z_interfaces z"
    "z_by_hardware z' = z_by_hardware z" "z_entries_by_key z' = z_entries_by_key z"
  using assms unfolding kept_def by blast+

lemma map_option_eqD:
  "map_option f u' = map_option f u \<Longrightarrow> u = Some x \<Longrightarrow> \<exists>x'. u' = Some x' \<and> f x' = f x"
  by (cases u') auto

lemma kept_entry:
  assumes "kept z z'" "z_entry z e = Some y"
  shows "\<exists>as. z_entry z' e = Some (y\<lparr>e_announcers := as\<rparr>)"
proof -
  have "map_option (\<lambda>y. y\<lparr>e_announcers := []\<rparr>) (z_entry z' e) = map_option (\<lambda>y. y\<lparr>e_announcers := []\<rparr>) (z_entry z e)"
    using assms(1) unfolding kept_def by blast
  from map_option_eqD [OF this assms(2)] obtain y' where y': "z_entry z' e = Some y'" "y'\<lparr>e_announcers := []\<rparr> = y\<lparr>e_announcers := []\<rparr>" by blast
  from arg_cong [OF y'(2), of "\<lambda>x. x\<lparr>e_announcers := e_announcers y'\<rparr>"] have "y' = y\<lparr>e_announcers := e_announcers y'\<rparr>" by simp
  with y'(1) show ?thesis by metis
qed

lemma kept_iface:
  assumes "kept z z'" "z_iface z i = Some u"
  shows "\<exists>as. z_iface z' i = Some (u\<lparr>i_announcers := as\<rparr>)"
proof -
  have "map_option (\<lambda>u. u\<lparr>i_announcers := []\<rparr>) (z_iface z' i) = map_option (\<lambda>u. u\<lparr>i_announcers := []\<rparr>) (z_iface z i)"
    using assms(1) unfolding kept_def by blast
  from map_option_eqD [OF this assms(2)] obtain u' where u': "z_iface z' i = Some u'" "u'\<lparr>i_announcers := []\<rparr> = u\<lparr>i_announcers := []\<rparr>" by blast
  from arg_cong [OF u'(2), of "\<lambda>x. x\<lparr>i_announcers := i_announcers u'\<rparr>"] have "u' = u\<lparr>i_announcers := i_announcers u'\<rparr>" by simp
  with u'(1) show ?thesis by metis
qed

lemma kept_group:
  assumes "kept z z'" "z_group z g = Some w"
  shows "\<exists>n. z_group z' g = Some (w\<lparr>g_n_probing := n\<rparr>)"
proof -
  have "map_option (\<lambda>w. w\<lparr>g_n_probing := 0\<rparr>) (z_group z' g) = map_option (\<lambda>w. w\<lparr>g_n_probing := 0\<rparr>) (z_group z g)"
    using assms(1) unfolding kept_def by blast
  from map_option_eqD [OF this assms(2)] obtain w' where w': "z_group z' g = Some w'" "w'\<lparr>g_n_probing := 0\<rparr> = w\<lparr>g_n_probing := 0\<rparr>" by blast
  from arg_cong [OF w'(2), of "\<lambda>x. x\<lparr>g_n_probing := g_n_probing w'\<rparr>"] have "w' = w\<lparr>g_n_probing := g_n_probing w'\<rparr>" by simp
  with w'(1) show ?thesis by metis
qed

lemma kept_refl: "zone_ok z \<Longrightarrow> kept z z"
  by (simp add: kept_def)

lemma kept_trans: "kept z1 z2 \<Longrightarrow> kept z2 z3 \<Longrightarrow> kept z1 z3"
  unfolding kept_def by simp

lemma stepped_kept: "stepped z z' \<Longrightarrow> kept z z'"
  unfolding stepped_def kept_def ann_frame_def by simp

lemma kept_keeps_groups: "kept z z' \<Longrightarrow> keeps_groups z z'"
  using kept_group unfolding keeps_groups_def by blast

lemma with_announcer_kept:
  assumes "zone_ok (with_announcer e i y u z)" "z_entry z e = Some y" "z_iface z i = Some u"
  shows "kept z (with_announcer e i y u z)"
  using assms unfolding kept_def by (simp add: with_announcer_def)

lemma new_announcer_ok:
  assumes "zone_ok z" "z_entry z e = Some y" "\<not> e_dead y" "z_iface z i = Some u"
  shows "\<exists>z'. new_announcer v i e z = Some z' \<and> kept z z'"
proof -
  note zd = zone_okD [OF assms(1)]
  note c = is_commited_eq [OF zd(1) assms(2,3)]
  show ?thesis
  proof (cases "\<not> avahi_interface_match u (e_interface y) (e_protocol y) \<or> \<not> i_announcing u \<or> \<not> committed z (e_group y)")
    case True
    then have "new_announcer v i e z = Some z" using assms c unfolding new_announcer_def by auto
    with kept_refl [OF assms(1)] show ?thesis by blast
  next
    case False
    then have cm: "committed z (e_group y)" by blast
    show ?thesis
      using zd(4) assms(2)
    proof (cases rule: get_announcer_cases [of z e y i])
      case (some a x)
      then have "new_announcer v i e z = Some z" using assms c False by (simp add: new_announcer_def)
      with kept_refl [OF assms(1)] show ?thesis by blast
    next
      case none
      let ?z = "with_announcer e i y u z"
      have ok: "zone_ok ?z" by (rule with_announcer_ok [OF assms(1-3) cm assms(4) none(2)])
      have a: "z_announcer ?z (z_next z) =
          Some \<lparr>a_interface = i, a_entry = e, a_time_event = None, a_state = AVAHI_ESTABLISHED, a_n_iteration = 0, a_sec_delay = 0\<rparr>"
        by (simp add: with_announcer_def)
      from go_to_initial_state_ok [OF ok a, of v] obtain z2 where
        z2: "go_to_initial_state v (z_next z) ?z = Some z2" "stepped ?z z2" by blast
      have "new_announcer v i e z = go_to_initial_state v (z_next z) ?z"
        using assms c False none(1) by (simp add: new_announcer_def mod_iface_def mod_entry_def Let_def with_announcer_def)
      with z2 kept_trans [OF with_announcer_kept [OF ok assms(2,4)] stepped_kept [OF z2(2)]] show ?thesis by simp
    qed
  qed
qed

subsection \<open>Walking the interfaces\<close>

lemma get_interface_cases:
  assumes "links_ok z" "idx \<ge> 0" "p \<noteq> AVAHI_PROTO_UNSPEC"
  obtains (none) "avahi_interface_monitor_get_interface z idx p = Some None"
  | (some) i u where "avahi_interface_monitor_get_interface z idx p = Some (Some i)" "z_iface z i = Some u"
proof (cases "z_by_hardware z idx")
  case None
  with assms(2,3) none show thesis
    by (simp add: avahi_interface_monitor_get_interface_def avahi_interface_monitor_get_hw_interface_def)
next
  case (Some js)
  have u: "\<exists>u. z_iface z i = Some u" if "i \<in> set js" for i by (rule links_okD(10) [OF assms(1) Some that])
  have r: "\<exists>b. (do { x \<leftarrow> z_iface z i; Some (i_protocol x = p) }) = Some b" if "i \<in> set js" for i
    using u [OF that] by auto
  have eq: "avahi_interface_monitor_get_interface z idx p = find_first (\<lambda>i. do { x \<leftarrow> z_iface z i; Some (i_protocol x = p) }) js"
    using assms(2,3) Some by (simp add: avahi_interface_monitor_get_interface_def avahi_interface_monitor_get_hw_interface_def)
  show thesis
  proof (rule find_first_cases [OF r, of js], assumption)
    assume "find_first (\<lambda>i. do { x \<leftarrow> z_iface z i; Some (i_protocol x = p) }) js = Some None"
    with none eq show thesis by simp
  next
    fix i
    assume "find_first (\<lambda>i. do { x \<leftarrow> z_iface z i; Some (i_protocol x = p) }) js = Some (Some i)" "i \<in> set js"
    with some eq u show thesis by metis
  qed
qed

text \<open>A walk returns and keeps \<open>I\<close> if its callback does.\<close>

lemma monitor_walk_rule:
  assumes "links_ok z" "if_valid idx"
    and I: "I z" "\<And>s. I s \<Longrightarrow> kept z s"
    and cb: "\<And>i s. I s \<Longrightarrow> z_iface z i \<noteq> None \<Longrightarrow> \<exists>s'. callback i s = Some s' \<and> I s'"
  shows "\<exists>z'. avahi_interface_monitor_walk idx p callback z = Some z' \<and> I z'"
proof -
  define m where "m = (\<lambda>i z. do { x \<leftarrow> z_iface z i; if avahi_interface_match x idx p then callback i z else Some z })"
  have loop: "\<exists>z'. for_each m js z = Some z' \<and> I z'" if js: "\<And>i. i \<in> set js \<Longrightarrow> \<exists>u. z_iface z i = Some u" for js
  proof (rule for_each_rule [where I = I])
    show "I z" by (rule I(1))
    fix i s
    assume i: "i \<in> set js" and s: "I s"
    from js [OF i] obtain u where u: "z_iface z i = Some u" ..
    from kept_iface [OF I(2) [OF s] u] obtain as where "z_iface s i = Some (u\<lparr>i_announcers := as\<rparr>)" ..
    with cb [OF s, of i] u s show "\<exists>s'. m i s = Some s' \<and> I s'" by (simp add: m_def)
  qed
  have eq: "avahi_interface_monitor_walk idx p callback z = (if idx \<noteq> AVAHI_IF_UNSPEC then
        if p \<noteq> AVAHI_PROTO_UNSPEC then do {
          i \<leftarrow> avahi_interface_monitor_get_interface z idx p;
          (case i of Some i \<Rightarrow> callback i z | None \<Rightarrow> Some z)
        } else do {
          hw \<leftarrow> avahi_interface_monitor_get_hw_interface z idx;
          (case hw of Some js \<Rightarrow> for_each m js z | None \<Rightarrow> Some z)
        }
      else for_each m (z_interfaces z) z)"
    by (simp add: avahi_interface_monitor_walk_def m_def Let_def)
  show ?thesis
  proof (cases "idx = AVAHI_IF_UNSPEC")
    case True
    with eq loop [of "z_interfaces z"] links_okD(9) [OF assms(1)] show ?thesis by simp
  next
    case False
    with assms(2) have idx: "idx \<ge> 0" by (simp add: if_valid_def)
    show ?thesis
    proof (cases "p = AVAHI_PROTO_UNSPEC")
      case True
      show ?thesis
      proof (cases "z_by_hardware z idx")
        case None
        with eq False True idx I(1) show ?thesis by (simp add: avahi_interface_monitor_get_hw_interface_def)
      next
        case (Some js)
        with eq False True idx loop [of js] links_okD(10) [OF assms(1) Some] show ?thesis
          by (simp add: avahi_interface_monitor_get_hw_interface_def)
      qed
    next
      case F: False
      show ?thesis
        using assms(1) idx F
      proof (cases rule: get_interface_cases)
        case none
        with eq False F I(1) show ?thesis by simp
      next
        case (some i u)
        with eq False F cb [OF I(1), of i] show ?thesis by simp
      qed
    qed
  qed
qed

lemma unless_dead_loop:
  assumes "zone_ok z" "set es \<subseteq> dom (z_entry z)"
    and body: "\<And>s e y. kept z s \<Longrightarrow> z_entry s e = Some y \<Longrightarrow> \<not> e_dead y \<Longrightarrow> \<exists>s'. body e s = Some s' \<and> kept s s'"
  shows "\<exists>z'. for_each (unless_dead body) es z = Some z' \<and> kept z z'"
proof (rule for_each_rule [where I = "kept z"])
  show "kept z z" by (rule kept_refl [OF assms(1)])
  fix e s
  assume "e \<in> set es" and s: "kept z s"
  with assms(2) obtain y0 where "z_entry z e = Some y0" by blast
  from kept_entry [OF s this] obtain y where y: "z_entry s e = Some y" by blast
  show "\<exists>s'. unless_dead body e s = Some s' \<and> kept z s'"
  proof (cases "e_dead y")
    case True
    with y s show ?thesis by (simp add: unless_dead_def)
  next
    case False
    with y body [OF s y] kept_trans [OF s] show ?thesis by (auto simp: unless_dead_def)
  qed
qed

lemma entries_dom: "zone_ok z \<Longrightarrow> set (z_entries z) \<subseteq> dom (z_entry z)"
  using zone_okD(1) [of z] by (simp add: entries_ok_def)

lemma group_dom: "zone_ok z \<Longrightarrow> z_group z g = Some w \<Longrightarrow> set (g_entries w) \<subseteq> dom (z_entry z)"
  using group_entries_exist [of z g w] by blast

lemma announce_interface_ok:
  assumes "zone_ok z" "z_iface z i = Some u"
  shows "\<exists>z'. avahi_announce_interface v i z = Some z' \<and> kept z z'"
proof (cases "i_announcing u")
  case False
  with assms kept_refl [OF assms(1)] show ?thesis by (simp add: avahi_announce_interface_def)
next
  case True
  have "\<exists>z'. for_each (unless_dead (new_announcer v i)) (z_entries z) z = Some z' \<and> kept z z'"
  proof (rule unless_dead_loop [OF assms(1) entries_dom [OF assms(1)]])
    fix s e y
    assume s: "kept z s" and y: "z_entry s e = Some y" "\<not> e_dead y"
    from kept_iface [OF s assms(2)] obtain as where "z_iface s i = Some (u\<lparr>i_announcers := as\<rparr>)" ..
    from new_announcer_ok [OF keptD(1) [OF s] y this] show "\<exists>s'. new_announcer v i e s = Some s' \<and> kept s s'" .
  qed
  with True assms(2) show ?thesis by (simp add: avahi_announce_interface_def)
qed

lemma announce_entry_ok:
  assumes "zone_ok z" "z_entry z e = Some y" "\<not> e_dead y"
  shows "\<exists>z'. avahi_announce_entry v e z = Some z' \<and> kept z z'"
proof -
  note zd = zone_okD [OF assms(1)]
  have "\<exists>z'. avahi_interface_monitor_walk (e_interface y) (e_protocol y) (announce_walk_callback v e) z = Some z' \<and> kept z z'"
  proof (rule monitor_walk_rule [OF zd(4) entries_okD(6) [OF zd(1) assms(2)], of "kept z"])
    show "kept z z" by (rule kept_refl [OF assms(1)])
    fix i s
    assume s: "kept z s" and i: "z_iface z i \<noteq> None"
    from kept_entry [OF s assms(2)] obtain as where y: "z_entry s e = Some (y\<lparr>e_announcers := as\<rparr>)" ..
    from i kept_iface [OF s, of i] obtain u where u: "z_iface s i = Some u" by blast
    from new_announcer_ok [OF keptD(1) [OF s] y _ u, of v] assms(3) kept_trans [OF s] y
    show "\<exists>s'. announce_walk_callback v e i s = Some s' \<and> kept z s'" by (auto simp: announce_walk_callback_def)
  qed
  with assms(2,3) show ?thesis by (simp add: avahi_announce_entry_def)
qed

lemma announce_group_entries_ok:
  assumes "zone_ok z" "z_group z g = Some w"
  shows "\<exists>z'. avahi_announce_group v g z = Some z' \<and> kept z z'"
proof -
  have "\<exists>z'. for_each (unless_dead (avahi_announce_entry v)) (g_entries w) z = Some z' \<and> kept z z'"
  proof (rule unless_dead_loop [OF assms(1) group_dom [OF assms]])
    fix s e y
    assume "kept z s" "z_entry s e = Some y" "\<not> e_dead y"
    then show "\<exists>s'. avahi_announce_entry v e s = Some s' \<and> kept s s'" by (intro announce_entry_ok keptD(1))
  qed
  with assms(2) show ?thesis by (simp add: avahi_announce_group_def)
qed

subsection \<open>Announcing again\<close>

lemma reannounce_ok:
  assumes "zone_ok z" "z_announcer z a = Some x"
  shows "\<exists>z'. reannounce v a z = Some z' \<and> stepped z z'"
proof -
  obtain y u where y: "z_entry z (a_entry x) = Some y" "\<not> e_dead y" "group_of z (a_entry x) = e_group y"
    by (rule entry_of_announcer [OF assms]) blast
  note zd = zone_okD [OF assms(1)]
  have "\<exists>b. (case e_group y of None \<Rightarrow> Some False
       | Some g \<Rightarrow> do { w \<leftarrow> z_group z g;
           Some (g_state w = AVAHI_ENTRY_GROUP_UNCOMMITED \<or> g_state w = AVAHI_ENTRY_GROUP_COLLISION) }) = Some b"
    using entries_okD(7) [OF zd(1) y(1)] by (cases "e_group y") fastforce+
  then obtain b where b: "(case e_group y of None \<Rightarrow> Some False
       | Some g \<Rightarrow> do { w \<leftarrow> z_group z g;
           Some (g_state w = AVAHI_ENTRY_GROUP_UNCOMMITED \<or> g_state w = AVAHI_ENTRY_GROUP_COLLISION) }) = Some b" ..
  show ?thesis
  proof (cases b)
    case True
    with assms(2) y(1) b stepped_refl [OF assms(1)] show ?thesis by (simp add: reannounce_def)
  next
    case False
    let ?st = "reannounced_state y (a_state x)"
    let ?d = "- of_bool (a_state x = AVAHI_PROBING) :: int"
    have "\<exists>z1. (if a_state x = AVAHI_PROBING then add_probing (e_group y) (- 1) z else Some z) = Some z1 \<and> working z a x ?d z1 x"
      using working_shift [OF working_refl [OF assms], of "- 1"] working_refl [OF assms] y(3) by auto
    then obtain z1 where z1: "(if a_state x = AVAHI_PROBING then add_probing (e_group y) (- 1) z else Some z) = Some z1"
      "working z a x ?d z1 x" by blast
    from working_state [OF z1(2), of "\<lambda>x. x\<lparr>a_state := ?st\<rparr>"] obtain z2 where
      z2: "mod_announcer a (\<lambda>x. x\<lparr>a_state := ?st\<rparr>) z1 = Some z2" "working z a x ?d z2 (x\<lparr>a_state := ?st\<rparr>)" by auto
    have "\<exists>z3. (if ?st = AVAHI_PROBING then add_probing (e_group y) 1 z2 else Some z2) = Some z3 \<and>
        working z a x (?d + of_bool (?st = AVAHI_PROBING)) z3 (x\<lparr>a_state := ?st\<rparr>)"
      using working_shift [OF z2(2), of 1] z2(2) y(3) by (cases "?st = AVAHI_PROBING") auto
    then obtain z3 where z3: "(if ?st = AVAHI_PROBING then add_probing (e_group y) 1 z2 else Some z2) = Some z3"
      "working z a x (?d + of_bool (?st = AVAHI_PROBING)) z3 (x\<lparr>a_state := ?st\<rparr>)" by blast
    let ?f = "\<lambda>x. x\<lparr>a_n_iteration := 1, a_sec_delay := 1\<rparr>"
    from working_state [OF z3(2), of ?f] obtain z4 where
      z4: "mod_announcer a ?f z3 = Some z4" "working z a x (?d + of_bool (?st = AVAHI_PROBING)) z4 (?f (x\<lparr>a_state := ?st\<rparr>))" by auto
    have w: "?st = AVAHI_WAITING \<Longrightarrow> group_of z (a_entry x) \<noteq> None"
      using zone_timers_okD(5) [OF zd(5) assms(2)] by (simp add: reannounced_state_def split: if_splits)
    from restart_timer_ok [OF z4(2), of v] w obtain z5 where z5: "restart_timer v a z4 = Some z5" "stepped z z5" by auto
    have "reannounce v a z = Some z5"
      using assms(2) y(1) b False z1(1) z2(1) z3(1) z4(1) z5(1) by (simp add: reannounce_def Let_def cong: if_cong)
    with z5(2) show ?thesis by blast
  qed
qed

lemma reannounce_entry_ok:
  assumes "zone_ok z" "z_entry z e = Some y" "\<not> e_dead y"
  shows "\<exists>z'. avahi_reannounce_entry v e z = Some z' \<and> kept z z'"
proof -
  note zd = zone_okD [OF assms(1)]
  have "\<exists>z'. avahi_interface_monitor_walk (e_interface y) (e_protocol y) (reannounce_walk_callback v e) z = Some z' \<and> kept z z'"
  proof (rule monitor_walk_rule [OF zd(4) entries_okD(6) [OF zd(1) assms(2)], of "kept z"])
    show "kept z z" by (rule kept_refl [OF assms(1)])
    fix i s
    assume s: "kept z s"
    from kept_entry [OF s assms(2)] obtain as where y: "z_entry s e = Some (y\<lparr>e_announcers := as\<rparr>)" ..
    note ok = keptD(1) [OF s]
    show "\<exists>s'. reannounce_walk_callback v e i s = Some s' \<and> kept z s'"
      using zone_okD(4) [OF ok] y
    proof (cases rule: get_announcer_cases [of s e _ i])
      case none
      with y assms(3) s show ?thesis by (simp add: reannounce_walk_callback_def)
    next
      case (some a x)
      from reannounce_ok [OF ok some(3), of v] obtain s' where "reannounce v a s = Some s'" "stepped s s'" by blast
      with y assms(3) some(1) kept_trans [OF s stepped_kept] show ?thesis by (auto simp: reannounce_walk_callback_def)
    qed
  qed
  with assms(2,3) show ?thesis by (simp add: avahi_reannounce_entry_def)
qed

subsection \<open>Goodbyes\<close>

lemma is_duplicate_returns:
  assumes "zone_ok z" "z_entry z e = Some y"
  shows "\<exists>b. is_duplicate_entry z e = Some b"
proof -
  note zd = zone_okD [OF assms(1)]
  have ry: "rr_readable (e_record y)" using entries_okD(4) [OF zd(1) assms(2)] by (simp add: sound_record_def)
  obtain es where es: "entries_with_key z (rr_key (e_record y)) = Some es"
    "\<And>e'. e' \<in> set es \<Longrightarrow> \<exists>y'. z_entry z e' = Some y' \<and> key_canon (rr_key (e_record y')) = key_canon (rr_key (e_record y))"
    by (rule entries_with_keyD [OF zd(1,3) key_readable_of [OF zd(1) assms(2)]]) blast
  have r: "\<exists>b. (do { x \<leftarrow> z_entry z i; if i = e \<or> e_dead x then Some False else avahi_record_equal_no_ttl (e_record x) (e_record y) }) = Some b"
    if "i \<in> set es" for i
  proof -
    from es(2) [OF that] obtain x where x: "z_entry z i = Some x" by blast
    have "rr_readable (e_record x)" using entries_okD(4) [OF zd(1) x] by (simp add: sound_record_def)
    from record_equal_canon [OF this ry] x show ?thesis by (cases "i = e \<or> e_dead x") auto
  qed
  show ?thesis
  proof (rule find_first_cases [OF r, of es], assumption)
    assume "find_first (\<lambda>i. do { x \<leftarrow> z_entry z i; if i = e \<or> e_dead x then Some False else avahi_record_equal_no_ttl (e_record x) (e_record y) }) es = Some None"
    then have "is_duplicate_entry z e = Some False" using assms(2) es(1) by (simp add: is_duplicate_entry_def)
    then show ?thesis by blast
  next
    fix x
    assume "find_first (\<lambda>i. do { x \<leftarrow> z_entry z i; if i = e \<or> e_dead x then Some False else avahi_record_equal_no_ttl (e_record x) (e_record y) }) es = Some (Some x)"
    then have "is_duplicate_entry z e = Some True" using assms(2) es(1) by (simp add: is_duplicate_entry_def)
    then show ?thesis by blast
  qed
qed

lemma goodbye_record_returns: "sound_record r \<Longrightarrow> make_goodbye_record r = Some (r\<lparr>rr_ttl := 0\<rparr>)"
  by (simp add: make_goodbye_record_def sound_record_def normal_name_def record_copy_eq)

lemma send_goodbye_ok:
  assumes "zone_ok z" "z_entry z e = Some y" "\<not> e_dead y" "z_iface z i \<noteq> None"
  shows "\<exists>z'. send_goodbye_callback e i z = Some z' \<and> kept z z'"
proof -
  note zd = zone_okD [OF assms(1)]
  from assms(4) obtain u where u: "z_iface z i = Some u" by blast
  from is_registered_returns [OF zd(4) assms(2,3), of i] obtain r where r: "avahi_entry_is_registered z e i = Some r" ..
  from is_duplicate_returns [OF assms(1,2)] obtain d where d: "is_duplicate_entry z e = Some d" ..
  note g = goodbye_record_returns [OF entries_okD(4) [OF zd(1) assms(2)]]
  from post_response_returns [OF assms(4), of "e_record y\<lparr>rr_ttl := 0\<rparr>" "has_flag (e_flags y) AVAHI_PUBLISH_UNIQUE" None True]
  obtain l where l: "avahi_interface_post_response i (e_record y\<lparr>rr_ttl := 0\<rparr>) (has_flag (e_flags y) AVAHI_PUBLISH_UNIQUE) None True z = Some (z\<lparr>z_log := l\<rparr>)" ..
  have s: "same_zone z (z\<lparr>z_log := l\<rparr>)" by (rule same_zone_post(2))
  have ok: "zone_ok (z\<lparr>z_log := l\<rparr>)" by (rule same_zone_inv [OF s assms(1)]) (use zd(7) in \<open>simp add: list_ok_def\<close>)
  have k: "kept z (z\<lparr>z_log := l\<rparr>)" using ok by (simp add: kept_def)
  let ?quiet = "\<not> avahi_interface_match u (e_interface y) (e_protocol y) \<or> has_flag (e_flags y) AVAHI_PUBLISH_NO_ANNOUNCE \<or> \<not> r \<or> d"
  show ?thesis
  proof (cases ?quiet)
    case True
    then have "send_goodbye_callback e i z = Some z" using assms(2,3) u r d by (auto simp: send_goodbye_callback_def)
    with kept_refl [OF assms(1)] show ?thesis by blast
  next
    case False
    then have "send_goodbye_callback e i z = Some (z\<lparr>z_log := l\<rparr>)"
      using assms(2,3) u r d g l by (simp add: send_goodbye_callback_def)
    with k show ?thesis by blast
  qed
qed

subsection \<open>Removing an announcer\<close>

definition without_announcer :: "nat \<Rightarrow> announcer \<Rightarrow> avahi_entry \<Rightarrow> iface \<Rightarrow> 'o zone_timer teq \<Rightarrow> 'o zone \<Rightarrow> 'o zone" where
  "without_announcer a x y u q z =
     z\<lparr>z_time_event_queue := q,
       z_iface := (z_iface z)(a_interface x \<mapsto> u\<lparr>i_announcers := remove1 a (i_announcers u)\<rparr>),
       z_entry := (z_entry z)(a_entry x \<mapsto> y\<lparr>e_announcers := remove1 a (e_announcers y)\<rparr>),
       z_announcer := (z_announcer z)(a := None)\<rparr>"

lemma without_announcer_links:
  assumes "links_ok z" "z_announcer z a = Some x" "z_entry z (a_entry x) = Some y" "z_iface z (a_interface x) = Some u"
  shows "links_ok (without_announcer a x y u q z)"
proof -
  note d = links_okD [OF assms(1)]
  let ?z = "without_announcer a x y u q z"
  have cm: "committed ?z = committed z" by (rule committed_cong) (simp add: without_announcer_def)
  have A: "z_announcer ?z = (z_announcer z)(a := None)"
    and I: "z_iface ?z = (z_iface z)(a_interface x \<mapsto> u\<lparr>i_announcers := remove1 a (i_announcers u)\<rparr>)"
    and E: "z_entry ?z = (z_entry z)(a_entry x \<mapsto> y\<lparr>e_announcers := remove1 a (e_announcers y)\<rparr>)"
    and R: "z_next ?z = z_next z" "z_interfaces ?z = z_interfaces z" "z_by_hardware ?z = z_by_hardware z"
    by (simp_all add: without_announcer_def)
  have oldE: "\<exists>y0. z_entry z f = Some y0 \<and> set (e_announcers y') = set (e_announcers y0) - {a} \<and> distinct (e_announcers y')"
    if y': "z_entry ?z f = Some y'" for f y'
  proof (cases "f = a_entry x")
    case True
    then show ?thesis using y' assms(3) d(4) [OF assms(3)] unfolding E by auto
  next
    case False
    then have f: "z_entry z f = Some y'" using y' unfolding E by simp
    have "a \<notin> set (e_announcers y')" using d(5) [OF f] assms(2) False by fastforce
    with f d(4) [OF f] show ?thesis by auto
  qed
  have oldI: "\<exists>u0. z_iface z j = Some u0 \<and> set (i_announcers u') = set (i_announcers u0) - {a} \<and> distinct (i_announcers u')"
    if u': "z_iface ?z j = Some u'" for j u'
  proof (cases "j = a_interface x")
    case True
    then show ?thesis using u' assms(4) d(7) [OF assms(4)] unfolding I by auto
  next
    case False
    then have f: "z_iface z j = Some u'" using u' unfolding I by simp
    have "a \<notin> set (i_announcers u')" using d(8) [OF f] assms(2) False by fastforce
    with f d(7) [OF f] show ?thesis by auto
  qed
  have oldA: "b \<noteq> a \<and> z_announcer z b = Some w" if "z_announcer ?z b = Some w" for b w
    using that unfolding A by (simp split: if_splits)
  show ?thesis
    unfolding links_ok_def cm R
  proof (intro conjI allI impI ballI, goal_cases)
    case (1 b w)
    from oldA [OF this] d(1) show ?case by blast
  next
    case (2 b w)
    from oldA [OF this] have b: "b \<noteq> a" "z_announcer z b = Some w" by blast+
    from d(2) [OF b(2)] obtain y0 where y0: "z_entry z (a_entry w) = Some y0" "\<not> e_dead y0" "b \<in> set (e_announcers y0)" "committed z (e_group y0)" by blast
    show ?case using y0 b(1) assms(3) unfolding E by (cases "a_entry w = a_entry x") auto
  next
    case (3 b w)
    from oldA [OF this] have b: "b \<noteq> a" "z_announcer z b = Some w" by blast+
    from d(3) [OF b(2)] obtain u0 where u0: "z_iface z (a_interface w) = Some u0" "b \<in> set (i_announcers u0)" by blast
    show ?case using u0 b(1) assms(4) unfolding I by (cases "a_interface w = a_interface x") auto
  next
    case (4 f y')
    from oldE [OF this] show ?case by blast
  next
    case (5 f y' b)
    from oldE [OF 5(1)] 5(2) obtain y0 where y0: "z_entry z f = Some y0" "b \<in> set (e_announcers y0)" "b \<noteq> a" by auto
    from d(5) [OF y0(1,2)] y0(3) show ?case unfolding A by simp
  next
    case (6 f y' b c w v)
    then have p: "z_entry ?z f = Some y'" "b \<in> set (e_announcers y')" "c \<in> set (e_announcers y')" "z_announcer ?z b = Some w"
      "z_announcer ?z c = Some v" "a_interface w = a_interface v" by simp_all
    from oldE [OF p(1)] p(2,3) obtain y0 where y0: "z_entry z f = Some y0" "b \<in> set (e_announcers y0)" "c \<in> set (e_announcers y0)" by auto
    from d(6) [OF y0] oldA [OF p(4)] oldA [OF p(5)] p(6) show ?case by blast
  next
    case (7 j u')
    from oldI [OF this] show ?case by blast
  next
    case (8 j u' b)
    from oldI [OF 8(1)] 8(2) obtain u0 where u0: "z_iface z j = Some u0" "b \<in> set (i_announcers u0)" "b \<noteq> a" by auto
    from d(8) [OF u0(1,2)] u0(3) show ?case unfolding A by simp
  next
    case (9 j)
    from d(9) [OF this] show ?case unfolding I by auto
  next
    case (10 idx js j)
    then show ?case using d(10) [of idx js j] unfolding I by auto
  qed
qed

lemma remove_announcer_ok:
  assumes "zone_ok z" "z_announcer z a = Some x"
  shows "\<exists>z'. remove_announcer a z = Some z' \<and> kept z z' \<and>
    (\<forall>y. z_entry z (a_entry x) = Some y \<longrightarrow> z_entry z' (a_entry x) = Some (y\<lparr>e_announcers := remove1 a (e_announcers y)\<rparr>)) \<and>
    (\<forall>u. z_iface z (a_interface x) = Some u \<longrightarrow> z_iface z' (a_interface x) = Some (u\<lparr>i_announcers := remove1 a (i_announcers u)\<rparr>))"
proof -
  note zd = zone_okD [OF assms(1)]
  note td = zone_timers_okD [OF zd(5)] and d = links_okD [OF zd(4)]
  from d(2) [OF assms(2)] obtain y where y: "z_entry z (a_entry x) = Some y" "\<not> e_dead y" "a \<in> set (e_announcers y)" by blast
  from d(3) [OF assms(2)] obtain u where u: "z_iface z (a_interface x) = Some u" "a \<in> set (i_announcers u)" by blast
  have "\<exists>q. (case a_time_event x of Some t \<Rightarrow> avahi_time_event_free (z_time_event_queue z) t | None \<Rightarrow> Some (z_time_event_queue z)) = Some q \<and>
      teq_core q \<and> armed q = (armed (z_time_event_queue z))(Elapse_announce a := {})"
  proof (cases "a_time_event x")
    case None
    then show ?thesis using td(1) td(3) [OF assms(2)] by (simp add: fun_upd_idem)
  next
    case (Some t)
    with td(3) [OF assms(2)] obtain tv where "armed (z_time_event_queue z) (Elapse_announce a) = {(t, tv)}" by (auto simp: armed_as_Some)
    from free_timer_ok [OF td(1) this] Some show ?thesis by auto
  qed
  then obtain q where q: "(case a_time_event x of Some t \<Rightarrow> avahi_time_event_free (z_time_event_queue z) t | None \<Rightarrow> Some (z_time_event_queue z)) = Some q"
    "teq_core q" "armed q = (armed (z_time_event_queue z))(Elapse_announce a := {})" by blast
  let ?z = "without_announcer a x y u q z"
  have r: "remove_announcer a z = Some ?z"
    using assms(2) q(1) u y(1,3) by (simp add: remove_announcer_def mod_iface_def mod_entry_def without_announcer_def)
  have "zone_ok ?z"
  proof (rule reshape [OF assms(1) y(1,2), where a = a and as = "remove1 a (e_announcers y)"])
    show "links_ok ?z" by (rule without_announcer_links [OF zd(4) assms(2) y(1) u(1)])
  qed (use q in \<open>auto simp: without_announcer_def\<close>)
  then have "kept z ?z" using y(1) u(1) unfolding kept_def by (simp add: without_announcer_def)
  with r y(1) u(1) show ?thesis by (intro exI [of _ ?z]) (simp add: without_announcer_def)
qed

lemma remove_interface_announcers:
  assumes "zone_ok z" "z_iface z i = Some u"
  shows "\<exists>z'. while_head (\<lambda>z. map_option i_announcers (z_iface z i)) remove_announcer z = Some z' \<and> kept z z' \<and>
    map_option i_announcers (z_iface z' i) = Some []"
proof (rule while_head_rule [where I = "kept z" and xs = "i_announcers u"])
  show "kept z z" by (rule kept_refl [OF assms(1)])
  show "map_option i_announcers (z_iface z i) = Some (i_announcers u)" using assms(2) by simp
  fix s a as
  assume s: "kept z s" and h: "map_option i_announcers (z_iface s i) = Some (a # as)"
  note ok = keptD(1) [OF s]
  from h obtain w where w: "z_iface s i = Some w" "i_announcers w = a # as" by auto
  from links_okD(8) [OF zone_okD(4) [OF ok] w(1), of a] w(2) obtain x where x: "z_announcer s a = Some x" "a_interface x = i" by auto
  from remove_announcer_ok [OF ok x(1)] x(2) w obtain s' where
    s': "remove_announcer a s = Some s'" "kept s s'" "z_iface s' i = Some (w\<lparr>i_announcers := as\<rparr>)" by auto
  with kept_trans [OF s s'(2)]
  show "\<exists>s'. remove_announcer a s = Some s' \<and> kept z s' \<and> map_option i_announcers (z_iface s' i) = Some as" by simp
qed

lemma remove_entry_announcers:
  assumes "zone_ok z" "z_entry z e = Some y"
  shows "\<exists>z'. while_head (\<lambda>z. map_option e_announcers (z_entry z e)) remove_announcer z = Some z' \<and> kept z z' \<and>
    map_option e_announcers (z_entry z' e) = Some []"
proof (rule while_head_rule [where I = "kept z" and xs = "e_announcers y"])
  show "kept z z" by (rule kept_refl [OF assms(1)])
  show "map_option e_announcers (z_entry z e) = Some (e_announcers y)" using assms(2) by simp
  fix s a as
  assume s: "kept z s" and h: "map_option e_announcers (z_entry s e) = Some (a # as)"
  note ok = keptD(1) [OF s]
  from h obtain w where w: "z_entry s e = Some w" "e_announcers w = a # as" by auto
  from links_okD(5) [OF zone_okD(4) [OF ok] w(1), of a] w(2) obtain x where x: "z_announcer s a = Some x" "a_entry x = e" by auto
  from remove_announcer_ok [OF ok x(1)] x(2) w obtain s' where
    s': "remove_announcer a s = Some s'" "kept s s'" "z_entry s' e = Some (w\<lparr>e_announcers := as\<rparr>)" by auto
  with kept_trans [OF s s'(2)]
  show "\<exists>s'. remove_announcer a s = Some s' \<and> kept z s' \<and> map_option e_announcers (z_entry s' e) = Some as" by simp
qed

lemma goodbye_interface_ok:
  assumes "zone_ok z" "z_iface z i = Some u"
  shows "\<exists>z'. avahi_goodbye_interface i send remove z = Some z' \<and> kept z z' \<and>
    (remove \<longrightarrow> map_option i_announcers (z_iface z' i) = Some [])"
proof -
  have "\<exists>z1. (if send \<and> i_announcing u then for_each (unless_dead (\<lambda>e. send_goodbye_callback e i)) (z_entries z) z else Some z) = Some z1 \<and> kept z z1"
  proof (cases "send \<and> i_announcing u")
    case True
    have "\<exists>z'. for_each (unless_dead (\<lambda>e. send_goodbye_callback e i)) (z_entries z) z = Some z' \<and> kept z z'"
    proof (rule unless_dead_loop [OF assms(1) entries_dom [OF assms(1)]])
      fix s e y
      assume s: "kept z s" and y: "z_entry s e = Some y" "\<not> e_dead y"
      from kept_iface [OF s assms(2)] have "z_iface s i \<noteq> None" by auto
      from send_goodbye_ok [OF keptD(1) [OF s] y this] show "\<exists>s'. send_goodbye_callback e i s = Some s' \<and> kept s s'" .
    qed
    with True show ?thesis by simp
  qed (use kept_refl [OF assms(1)] in auto)
  then obtain z1 where z1: "(if send \<and> i_announcing u then for_each (unless_dead (\<lambda>e. send_goodbye_callback e i)) (z_entries z) z else Some z) = Some z1"
    "kept z z1" by blast
  from kept_iface [OF z1(2) assms(2)] obtain as where u1: "z_iface z1 i = Some (u\<lparr>i_announcers := as\<rparr>)" ..
  from remove_interface_announcers [OF keptD(1) [OF z1(2)] u1] obtain z2 where
    z2: "while_head (\<lambda>z. map_option i_announcers (z_iface z i)) remove_announcer z1 = Some z2" "kept z1 z2"
      "map_option i_announcers (z_iface z2 i) = Some []" by blast
  show ?thesis
  proof (cases remove)
    case True
    with assms(2) z1(1) z2 kept_trans [OF z1(2) z2(2)] show ?thesis by (simp add: avahi_goodbye_interface_def)
  next
    case False
    with assms(2) z1 show ?thesis by (simp add: avahi_goodbye_interface_def)
  qed
qed

lemma goodbye_entry_ok:
  assumes "zone_ok z" "z_entry z e = Some y"
  shows "\<exists>z'. avahi_goodbye_entry e send remove z = Some z' \<and> kept z z' \<and>
    (remove \<longrightarrow> map_option e_announcers (z_entry z' e) = Some [])"
proof -
  have "\<exists>z1. (if send \<and> \<not> e_dead y then avahi_interface_monitor_walk AVAHI_IF_UNSPEC AVAHI_PROTO_UNSPEC (send_goodbye_callback e) z
      else Some z) = Some z1 \<and> kept z z1"
  proof (cases "send \<and> \<not> e_dead y")
    case True
    have "\<exists>z'. avahi_interface_monitor_walk AVAHI_IF_UNSPEC AVAHI_PROTO_UNSPEC (send_goodbye_callback e) z = Some z' \<and> kept z z'"
    proof (rule monitor_walk_rule [OF zone_okD(4) [OF assms(1)], of _ "kept z"])
      show "if_valid AVAHI_IF_UNSPEC" by (simp add: if_valid_def)
      show "kept z z" by (rule kept_refl [OF assms(1)])
      fix i s
      assume s: "kept z s" and i: "z_iface z i \<noteq> None"
      from kept_entry [OF s assms(2)] obtain as where y: "z_entry s e = Some (y\<lparr>e_announcers := as\<rparr>)" ..
      from i kept_iface [OF s, of i] have "z_iface s i \<noteq> None" by auto
      from send_goodbye_ok [OF keptD(1) [OF s] y _ this] True kept_trans [OF s]
      show "\<exists>s'. send_goodbye_callback e i s = Some s' \<and> kept z s'" by auto
    qed
    with True show ?thesis by simp
  qed (use kept_refl [OF assms(1)] in auto)
  then obtain z1 where z1: "(if send \<and> \<not> e_dead y then avahi_interface_monitor_walk AVAHI_IF_UNSPEC AVAHI_PROTO_UNSPEC (send_goodbye_callback e) z
      else Some z) = Some z1" "kept z z1" by blast
  from kept_entry [OF z1(2) assms(2)] obtain as where y1: "z_entry z1 e = Some (y\<lparr>e_announcers := as\<rparr>)" ..
  from remove_entry_announcers [OF keptD(1) [OF z1(2)] y1] obtain z2 where
    z2: "while_head (\<lambda>z. map_option e_announcers (z_entry z e)) remove_announcer z1 = Some z2" "kept z1 z2"
      "map_option e_announcers (z_entry z2 e) = Some []" by blast
  show ?thesis
  proof (cases remove)
    case True
    with assms(2) z1(1) z2 kept_trans [OF z1(2) z2(2)] show ?thesis by (simp add: avahi_goodbye_entry_def)
  next
    case False
    with assms(2) z1 show ?thesis by (simp add: avahi_goodbye_entry_def)
  qed
qed

end
