(* ===== verification/Zoneentry.thy ===== *)
theory Zoneentry
  imports Zonewalk
begin

text \<open>
  Entries and groups come and go (avahi-core/entry.c): freeing and ending them, cleaning up, committing
  groups and adding records. Each of these operations returns and keeps the invariant.
\<close>

subsection \<open>Freeing an entry\<close>

definition without_entry :: "nat \<Rightarrow> avahi_entry \<Rightarrow> (rrkey, nat list) hashmap \<Rightarrow> 'o zone \<Rightarrow> 'o zone" where
  "without_entry e y m z =
     z\<lparr>z_entries := remove1 e (z_entries z), z_entries_by_key := m,
       z_group := (\<lambda>g. map_option (\<lambda>w. w\<lparr>g_entries := remove1 e (g_entries w)\<rparr>) (z_group z g)),
       z_entry := (z_entry z)(e := None)\<rparr>"

lemma filter_remove1_eq: "distinct xs \<Longrightarrow> filter P (remove1 x xs) = remove1 x (filter P xs)"
  by (induction xs) (auto simp: remove1_idem)

lemma without_entry_ok:
  assumes z: "zone_ok z" and y: "z_entry z e = Some y" "e_announcers y = []" and m: "km_inv m"
    "map_option snd (km_get m (key_canon (rr_key (e_record y)))) =
       (case remove1 e (filter (\<lambda>f. canon_of z f = Some (key_canon (rr_key (e_record y)))) (z_entries z)) of [] \<Rightarrow> None | es \<Rightarrow> Some es)"
    "\<And>kc. kc \<noteq> key_canon (rr_key (e_record y)) \<Longrightarrow> km_get m kc = km_get (z_entries_by_key z) kc"
  shows "zone_ok (without_entry e y m z)"
proof -
  let ?z = "without_entry e y m z"
  let ?kc = "key_canon (rr_key (e_record y))"
  note zd = zone_okD [OF z]
  note ed = entries_okD [OF zd(1)] and gd = groups_okD [OF zd(2)] and d = links_okD [OF zd(4)] and td = zone_timers_okD [OF zd(5)]
  have E: "z_entry ?z = (z_entry z)(e := None)" and N: "z_next ?z = z_next z" and L: "z_entries ?z = remove1 e (z_entries z)"
    "z_groups ?z = z_groups z" "z_interfaces ?z = z_interfaces z" "z_by_hardware ?z = z_by_hardware z"
    and A: "z_announcer ?z = z_announcer z" and I: "z_iface ?z = z_iface z" and Q: "z_time_event_queue ?z = z_time_event_queue z"
    "z_cleanup_time_event ?z = z_cleanup_time_event z" and M: "z_entries_by_key ?z = m"
    by (simp_all add: without_entry_def)
  have gs: "\<exists>w0. z_group z g = Some w0 \<and> w = w0\<lparr>g_entries := remove1 e (g_entries w0)\<rparr>" if "z_group ?z g = Some w" for g w
    using that by (auto simp: without_entry_def)
  have gn: "z_group ?z g = None \<longleftrightarrow> z_group z g = None" for g by (simp add: without_entry_def)
  have old: "f \<noteq> e \<and> z_entry z f = Some y'" if "z_entry ?z f = Some y'" for f y' using that unfolding E by (simp split: if_splits)
  have gr: "group_of ?z f = (if f = e then None else group_of z f)" for f by (simp add: group_of_def E)
  have cn: "canon_of ?z f = (if f = e then None else canon_of z f)" for f by (simp add: canon_of_def E)
  have ne: "a_entry x \<noteq> e" if "z_announcer z a = Some x" for a x using d(2) [OF that] y by auto
  have cm: "committed ?z = committed z"
  proof (rule ext)
    fix og
    show "committed ?z og = committed z og" by (cases og) (auto simp: committed_def without_entry_def)
  qed
  have fe: "filter (\<lambda>f. (if f = e then None else h f) = Some c) (remove1 e xs) = remove1 e (filter (\<lambda>f. h f = Some c) xs)"
    if "distinct xs" for h :: "nat \<Rightarrow> 'b option" and c xs
  proof -
    have "filter (\<lambda>f. (if f = e then None else h f) = Some c) (remove1 e xs) = filter (\<lambda>f. h f = Some c) (remove1 e xs)"
      using that by (intro filter_cong) auto
    then show ?thesis by (simp only: filter_remove1_eq [OF that])
  qed
  have "entries_ok ?z"
    unfolding entries_ok_def N gn
  proof (intro conjI allI impI, goal_cases)
    case 1
    show ?case using ed(1) L(1) by simp
  next
    case 2
    have "set (z_entries z) = dom (z_entry z)" using zd(1) by (simp add: entries_ok_def)
    then show ?case using ed(1) y(1) unfolding L E by auto
  next
    case (3 f y')
    from old [OF this] ed(3) show ?case by blast
  next
    case (4 f y')
    from old [OF this] ed(4) show ?case by blast
  next
    case (5 f y')
    from old [OF this] ed(5) show ?case by blast
  next
    case (6 f y')
    from old [OF this] ed(6) show ?case by blast
  next
    case (7 f y' g)
    from old [OF 7(1)] ed(7) 7(2) show ?case by blast
  next
    case (8 f y')
    from old [OF 8(1)] ed(8) 8(2) show ?case by blast
  qed
  moreover have "groups_ok ?z"
    unfolding groups_ok_def N L(1,2) gr
  proof (intro conjI allI impI, goal_cases)
    case 1
    show ?case by (rule gd(1))
  next
    case 2
    have "dom (z_group ?z) = dom (z_group z)" using gn by (auto simp: dom_def)
    with zd(2) show ?case by (simp add: groups_ok_def)
  next
    case (3 g w)
    from gs [OF this] gd(3) show ?case by blast
  next
    case (4 g w)
    from gs [OF this] obtain w0 where w0: "z_group z g = Some w0" "w = w0\<lparr>g_entries := remove1 e (g_entries w0)\<rparr>" by blast
    show ?case unfolding fe [OF ed(1)] using gd(4) [OF w0(1)] w0(2) by simp
  next
    case (5 g w f y')
    then have p: "z_group ?z g = Some w" "g_dead w" "z_entry ?z f = Some y'" "e_group y' = Some g" by simp_all
    from gs [OF p(1)] p(2) obtain w0 where w0: "z_group z g = Some w0" "g_dead w0" by auto
    from gd(5) [OF w0] old [OF p(3)] p(4) show ?case by blast
  qed
  moreover have "keys_ok ?z"
    unfolding keys_ok_def L(1) M cn
  proof (intro conjI allI, goal_cases)
    case 1
    show ?case by (rule m(1))
  next
    case (2 kc)
    show ?case
    proof (cases "kc = ?kc")
      case True
      show ?thesis unfolding fe [OF ed(1)] True by (rule m(2))
    next
      case False
      have "canon_of z e \<noteq> Some kc" using y(1) False by (simp add: canon_of_def)
      then have "e \<notin> set (filter (\<lambda>f. canon_of z f = Some kc) (z_entries z))" by simp
      then have "remove1 e (filter (\<lambda>f. canon_of z f = Some kc) (z_entries z)) = filter (\<lambda>f. canon_of z f = Some kc) (z_entries z)"
        by (rule remove1_idem)
      moreover have "map_option snd (km_get (z_entries_by_key z) kc) =
          (case filter (\<lambda>f. canon_of z f = Some kc) (z_entries z) of [] \<Rightarrow> None | es \<Rightarrow> Some es)"
        using zd(3) unfolding keys_ok_def by blast
      ultimately show ?thesis unfolding fe [OF ed(1)] m(3) [OF False] by (simp only:)
    qed
  qed
  moreover have "links_ok ?z"
    unfolding links_ok_def cm A I N L(3,4)
  proof (intro conjI allI impI ballI, goal_cases)
    case (1 a x)
    with d(1) show ?case by blast
  next
    case (2 a x)
    from d(2) [OF this] ne [OF this] show ?case unfolding E by auto
  next
    case (3 a x)
    from d(3) [OF this] show ?case by blast
  next
    case (4 f y')
    from old [OF this] d(4) show ?case by blast
  next
    case (5 f y' a)
    from old [OF 5(1)] d(5) 5(2) show ?case by blast
  next
    case (6 f y' a b x w)
    then have p: "z_entry ?z f = Some y'" "a \<in> set (e_announcers y')" "b \<in> set (e_announcers y')" "z_announcer z a = Some x"
      "z_announcer z b = Some w" "a_interface x = a_interface w" by simp_all
    from old [OF p(1)] have f: "z_entry z f = Some y'" by blast
    show ?case by (rule d(6) [OF f p(2-6)])
  next
    case (7 i u)
    with d(7) show ?case by blast
  next
    case (8 i u a)
    with d(8) show ?case by blast
  next
    case (9 i)
    from d(9) [OF this] show ?case by blast
  next
    case (10 idx js i)
    then show ?case using d(10) by blast
  qed
  moreover have "zone_timers_ok ?z"
    unfolding zone_timers_ok_def A Q
  proof (intro conjI allI, goal_cases)
    case 1
    show ?case by (rule td(1))
  next
    case (2 a)
    show ?case
    proof (cases "z_announcer z a")
      case None
      then show ?thesis using td(2) by simp
    next
      case (Some x)
      then show ?thesis using td(3-5) [OF Some] gr ne [OF Some] by simp
    qed
  next
    case (3 g)
    show ?case
    proof (cases "z_group z g")
      case None
      then have "z_group ?z g = None" using gn by simp
      with td(6) [OF None] show ?thesis by simp
    next
      case (Some w)
      then have "z_group ?z g = Some (w\<lparr>g_entries := remove1 e (g_entries w)\<rparr>)" by (simp add: without_entry_def)
      then show ?thesis using td(7) [OF Some] by (simp add: group_timer_ok_def)
    qed
  next
    case 4
    show ?case by (rule td(8))
  qed
  moreover have "counts_ok ?z"
    unfolding counts_ok_def
  proof (intro allI impI)
    fix g w
    assume "z_group ?z g = Some w"
    from gs [OF this] obtain w0 where w0: "z_group z g = Some w0" "g_n_probing w = g_n_probing w0" by auto
    have "probing ?z g = probing z g" using ne by (auto simp: probing_def A gr)
    with w0 zd(6) show "int (card (probing ?z g)) \<le> g_n_probing w" by (simp add: counts_ok_def)
  qed
  moreover have "list_ok ?z" using zd(7) by (simp add: list_ok_def without_entry_def)
  ultimately show ?thesis unfolding zone_ok_def by blast
qed

definition freed :: "nat \<Rightarrow> 'o zone \<Rightarrow> 'o zone \<Rightarrow> bool" where
  "freed e z z' \<longleftrightarrow> zone_ok z' \<and> z_entry z' e = None \<and> z_entries z' = remove1 e (z_entries z) \<and> z_groups z' = z_groups z \<and>
     (\<forall>f y. f \<noteq> e \<and> z_entry z f = Some y \<longrightarrow> (\<exists>as. z_entry z' f = Some (y\<lparr>e_announcers := as\<rparr>))) \<and>
     (\<forall>g w. z_group z g = Some w \<longrightarrow> (\<exists>n. z_group z' g = Some (w\<lparr>g_n_probing := n, g_entries := remove1 e (g_entries w)\<rparr>)))"

lemma freedD:
  assumes "freed e z z'"
  shows "zone_ok z'" "z_entry z' e = None" "z_entries z' = remove1 e (z_entries z)" "z_groups z' = z_groups z"
    "f \<noteq> e \<Longrightarrow> z_entry z f = Some y \<Longrightarrow> \<exists>as. z_entry z' f = Some (y\<lparr>e_announcers := as\<rparr>)"
    "z_group z g = Some w \<Longrightarrow> \<exists>n. z_group z' g = Some (w\<lparr>g_n_probing := n, g_entries := remove1 e (g_entries w)\<rparr>)"
  using assms unfolding freed_def by blast+

lemma entry_free_ok:
  assumes "zone_ok z" "z_entry z e = Some y"
  shows "\<exists>z'. avahi_entry_free e z = Some z' \<and> freed e z z'"
proof -
  from goodbye_entry_ok [OF assms, of True True] obtain z1 where
    z1: "avahi_goodbye_entry e True True z = Some z1" "kept z z1" "map_option e_announcers (z_entry z1 e) = Some []" by blast
  from kept_entry [OF z1(2) assms(2)] z1(3) have y1: "z_entry z1 e = Some (y\<lparr>e_announcers := []\<rparr>)" by auto
  note ok = keptD(1) [OF z1(2)]
  note zd = zone_okD [OF ok]
  note ed = entries_okD [OF zd(1)]
  let ?k = "rr_key (e_record y)"
  let ?es = "filter (\<lambda>f. canon_of z1 f = Some (key_canon ?k)) (z_entries z1)"
  have kr: "key_readable ?k" using key_readable_of [OF zd(1) y1] by simp
  have e1: "e \<in> set (z_entries z1)" using ed(2) y1 by simp
  have ees: "e \<in> set ?es" using e1 y1 by (simp add: canon_of_def)
  note es = entries_with_key_eq [OF zd(3) kr]
  have km: "km_inv (z_entries_by_key z1)" using zd(3) by (simp add: keys_ok_def)
  have "\<exists>m. (case remove1 e ?es of
         t # _ \<Rightarrow> do { w \<leftarrow> z_entry z1 t; (m, _) \<leftarrow> avahi_hashmap_replace (z_entries_by_key z1) (rr_key (e_record w)) (remove1 e ?es); Some m }
       | [] \<Rightarrow> avahi_hashmap_remove (z_entries_by_key z1) ?k) = Some m \<and> km_inv m \<and>
       map_option snd (km_get m (key_canon ?k)) = (case remove1 e ?es of [] \<Rightarrow> None | es \<Rightarrow> Some es) \<and>
       (\<forall>kc. kc \<noteq> key_canon ?k \<longrightarrow> km_get m kc = km_get (z_entries_by_key z1) kc)"
  proof (cases "remove1 e ?es")
    case Nil
    obtain m where "avahi_hashmap_remove (z_entries_by_key z1) ?k = Some m" "km_inv m"
      "km_get m = (km_get (z_entries_by_key z1))(key_canon ?k := None)" by (rule km_remove [OF km kr])
    with Nil show ?thesis by simp
  next
    case (Cons t ts)
    then have "t \<in> set ?es" by (metis list.set_intros(1) notin_set_remove1)
    then obtain w where w: "z_entry z1 t = Some w" "key_canon (rr_key (e_record w)) = key_canon ?k" by (auto simp: canon_of_def)
    obtain m r where m: "avahi_hashmap_replace (z_entries_by_key z1) (rr_key (e_record w)) (t # ts) = Some (m, r)" "km_inv m"
      "km_get m = (km_get (z_entries_by_key z1))(key_canon (rr_key (e_record w)) \<mapsto> (rr_key (e_record w), t # ts))"
      by (rule km_replace [OF km key_readable_of [OF zd(1) w(1)]])
    with Cons w show ?thesis by simp
  qed
  then obtain m where m: "(case remove1 e ?es of
         t # _ \<Rightarrow> do { w \<leftarrow> z_entry z1 t; (m, _) \<leftarrow> avahi_hashmap_replace (z_entries_by_key z1) (rr_key (e_record w)) (remove1 e ?es); Some m }
       | [] \<Rightarrow> avahi_hashmap_remove (z_entries_by_key z1) ?k) = Some m" "km_inv m"
       "map_option snd (km_get m (key_canon ?k)) = (case remove1 e ?es of [] \<Rightarrow> None | es \<Rightarrow> Some es)"
       "\<And>kc. kc \<noteq> key_canon ?k \<Longrightarrow> km_get m kc = km_get (z_entries_by_key z1) kc" by blast
  let ?z = "without_entry e (y\<lparr>e_announcers := []\<rparr>) m z1"
  have ok2: "zone_ok ?z" by (rule without_entry_ok [OF ok y1]) (use m in simp_all)
  define z2 where "z2 = z1\<lparr>z_entries := remove1 e (z_entries z1), z_entries_by_key := m\<rparr>"
  have g: "(case e_group y of None \<Rightarrow> Some z2
       | Some g \<Rightarrow> do { x \<leftarrow> z_group z2 g; assert_that (e \<in> set (g_entries x));
           mod_group g (\<lambda>x. x\<lparr>g_entries := remove1 e (g_entries x)\<rparr>) z2 }) =
     Some (z2\<lparr>z_group := (\<lambda>g. map_option (\<lambda>w. w\<lparr>g_entries := remove1 e (g_entries w)\<rparr>) (z_group z1 g))\<rparr>)"
  proof -
    have gm: "e \<in> set (g_entries w) \<longleftrightarrow> e_group y = Some g" if "z_group z1 g = Some w" for g w
      using groups_okD(4) [OF zd(2) that] e1 y1 by (simp add: group_of_def)
    have other: "map_option (\<lambda>w. w\<lparr>g_entries := remove1 e (g_entries w)\<rparr>) (z_group z1 g) = z_group z1 g" if "e_group y \<noteq> Some g" for g
      using gm [of g] that by (cases "z_group z1 g") (simp_all add: remove1_idem)
    show ?thesis
    proof (cases "e_group y")
      case None
      then have "(\<lambda>g. map_option (\<lambda>w. w\<lparr>g_entries := remove1 e (g_entries w)\<rparr>) (z_group z1 g)) = z_group z1" using other by auto
      with None show ?thesis by (simp add: z2_def)
    next
      case (Some g)
      from entries_okD(7) [OF zd(1) y1, of g] Some obtain w where w: "z_group z1 g = Some w" by auto
      have "(\<lambda>g. map_option (\<lambda>w. w\<lparr>g_entries := remove1 e (g_entries w)\<rparr>) (z_group z1 g)) =
          (z_group z1)(g \<mapsto> w\<lparr>g_entries := remove1 e (g_entries w)\<rparr>)"
        using other w Some by auto
      with Some w gm [OF w] show ?thesis by (simp add: z2_def mod_group_def)
    qed
  qed
  have "entries_with_key (z1\<lparr>z_entries := remove1 e (z_entries z1)\<rparr>) ?k = Some ?es"
    using es by (simp add: entries_with_key_def)
  then have "avahi_entry_free e z = Some ?z"
    using z1(1) e1 y1 ees m(1) g [unfolded z2_def] by (simp add: avahi_entry_free_def Let_def without_entry_def cong: list.case_cong)
  moreover have "freed e z ?z"
    unfolding freed_def
  proof (intro conjI allI impI)
    show "zone_ok ?z" by (rule ok2)
    show "z_entry ?z e = None" by (simp add: without_entry_def)
    show "z_entries ?z = remove1 e (z_entries z)" "z_groups ?z = z_groups z" using keptD(2,3) [OF z1(2)] by (simp_all add: without_entry_def)
    show "\<exists>as. z_entry ?z f = Some (y'\<lparr>e_announcers := as\<rparr>)" if "f \<noteq> e \<and> z_entry z f = Some y'" for f y'
      using kept_entry [OF z1(2), of f y'] that by (auto simp: without_entry_def)
    show "\<exists>n. z_group ?z g = Some (w\<lparr>g_n_probing := n, g_entries := remove1 e (g_entries w)\<rparr>)" if "z_group z g = Some w" for g w
      using kept_group [OF z1(2) that] by (auto simp: without_entry_def)
  qed
  ultimately show ?thesis by blast
qed

subsection \<open>Freeing groups and cleaning up\<close>

lemma drop_group:
  assumes z: "zone_ok z" and w: "z_group z g = Some w" "g_entries w = []" and q: "teq_core q"
    "armed q = (armed (z_time_event_queue z))(Register_time g := {})"
  shows "zone_ok (z\<lparr>z_time_event_queue := q, z_groups := remove1 g (z_groups z), z_group := (z_group z)(g := None)\<rparr>)" (is "zone_ok ?z")
proof -
  note zd = zone_okD [OF z]
  note ed = entries_okD [OF zd(1)] and gd = groups_okD [OF zd(2)] and d = links_okD [OF zd(4)] and td = zone_timers_okD [OF zd(5)]
  have no: "e_group y \<noteq> Some g" if "z_entry z e = Some y" for e y
  proof
    assume "e_group y = Some g"
    then have "e \<in> set (g_entries w)" using gd(4) [OF w(1)] ed(2) [of e] that by (simp add: group_of_def)
    then show False using w(2) by simp
  qed
  have gr: "group_of ?z = group_of z" by (rule group_of_cong) simp
  have cn: "canon_of ?z = canon_of z" by (rule canon_of_cong) simp
  have ge: "group_of z e \<noteq> Some g" for e using no by (auto simp: group_of_def split: option.splits)
  have cm: "committed ?z (e_group y) = committed z (e_group y)" if "z_entry z e = Some y" for e y
    using no [OF that] by (cases "e_group y") (auto simp: committed_def)
  have "entries_ok ?z"
    unfolding entries_ok_def
  proof (intro conjI allI impI, goal_cases)
    case 2
    show ?case using zd(1) by (simp add: entries_ok_def)
  next
    case (7 e y h)
    then have "z_entry z e = Some y" "e_group y = Some h" by simp_all
    with ed(7) no show ?case by fastforce
  qed (use ed in simp_all)
  moreover have "groups_ok ?z"
    unfolding groups_ok_def gr
  proof (intro conjI allI impI, goal_cases)
    case 1
    show ?case using gd(1) by simp
  next
    case 2
    have "set (z_groups z) = dom (z_group z)" using zd(2) by (simp add: groups_ok_def)
    then show ?case using gd(1) w(1) by auto
  next
    case (3 h x)
    then show ?case using gd(3) by (auto split: if_splits)
  next
    case (4 h x)
    then show ?case using gd(4) by (auto split: if_splits)
  next
    case (5 h x e y)
    then show ?case using gd(5) [of h x e y] by (auto split: if_splits)
  qed
  moreover have "keys_ok ?z" using zd(3) unfolding keys_ok_def cn by simp
  moreover have "links_ok ?z"
  proof -
    have "\<exists>y. z_entry z (a_entry x) = Some y \<and> \<not> e_dead y \<and> a \<in> set (e_announcers y) \<and> committed ?z (e_group y)"
      if "z_announcer z a = Some x" for a x
      using d(2) [OF that] cm by blast
    then show ?thesis using zd(4) unfolding links_ok_def by simp
  qed
  moreover have "zone_timers_ok ?z"
    unfolding zone_timers_ok_def gr
  proof (intro conjI allI, goal_cases)
    case 1
    show ?case using q(1) by simp
  next
    case (2 a)
    show ?case
    proof (cases "z_announcer z a")
      case None
      then show ?thesis using td(2) q(2) by simp
    next
      case (Some x)
      then show ?thesis using td(3-5) [OF Some] armed_as_cong [of q "Elapse_announce a" "z_time_event_queue z"] q(2) by simp
    qed
  next
    case (3 h)
    show ?case
    proof (cases "h = g")
      case True
      then show ?thesis using q(2) by simp
    next
      case False
      then show ?thesis using td(6) [of h] td(7) [of h] q(2) armed_as_cong [of q "Register_time h" "z_time_event_queue z"]
        by (cases "z_group z h") (simp_all add: group_timer_ok_def)
    qed
  next
    case 4
    show ?case using td(8) armed_as_cong [of q Cleanup "z_time_event_queue z"] q(2) by simp
  qed
  moreover have "counts_ok ?z"
  proof -
    have "probing ?z = probing z" by (rule ext) (simp add: probing_def gr)
    with zd(6) show ?thesis unfolding counts_ok_def by (simp split: if_splits)
  qed
  moreover have "list_ok ?z" using zd(7) by (simp add: list_ok_def)
  ultimately show ?thesis unfolding zone_ok_def by blast
qed

lemma group_free_ok:
  assumes "zone_ok z" "z_group z g = Some w"
  shows "\<exists>z'. avahi_entry_group_free g z = Some z' \<and> zone_ok z' \<and> z_group z' g = None \<and>
    (\<forall>h. h \<noteq> g \<and> z_group z h \<noteq> None \<longrightarrow> z_group z' h \<noteq> None)"
proof -
  let ?I = "\<lambda>s. zone_ok s \<and> z_groups s = z_groups z \<and> (\<forall>h. z_group z h \<noteq> None \<longrightarrow> z_group s h \<noteq> None)"
  have "\<exists>z1. while_head (\<lambda>z. map_option g_entries (z_group z g)) avahi_entry_free z = Some z1 \<and> ?I z1 \<and>
      map_option g_entries (z_group z1 g) = Some []"
  proof (rule while_head_rule [where I = ?I and xs = "g_entries w"])
    show "?I z" using assms(1) by blast
    show "map_option g_entries (z_group z g) = Some (g_entries w)" using assms(2) by simp
    fix s e es
    assume I: "?I s" and h: "map_option g_entries (z_group s g) = Some (e # es)"
    then have ok: "zone_ok s" by blast
    from h obtain u where u: "z_group s g = Some u" "g_entries u = e # es" by auto
    from group_entries_exist [OF ok u(1)] u(2) obtain y where y: "z_entry s e = Some y" by auto
    from entry_free_ok [OF ok y] obtain s1 where s1: "avahi_entry_free e s = Some s1" "freed e s s1" by blast
    note f = freedD [OF s1(2)]
    from f(6) [OF u(1)] u(2) have "map_option g_entries (z_group s1 g) = Some es" by auto
    moreover have "z_group s1 h \<noteq> None" if "z_group z h \<noteq> None" for h
    proof -
      from that I obtain v where "z_group s h = Some v" by auto
      from f(6) [OF this] show ?thesis by auto
    qed
    ultimately show "\<exists>s'. avahi_entry_free e s = Some s' \<and> ?I s' \<and> map_option g_entries (z_group s' g) = Some es"
      using s1(1) f(1,4) I by auto
  qed
  then obtain z1 where z1: "while_head (\<lambda>z. map_option g_entries (z_group z g)) avahi_entry_free z = Some z1" "zone_ok z1"
    "z_groups z1 = z_groups z" "\<And>h. z_group z h \<noteq> None \<Longrightarrow> z_group z1 h \<noteq> None" "map_option g_entries (z_group z1 g) = Some []" by blast
  from z1(5) obtain u where u: "z_group z1 g = Some u" "g_entries u = []" by auto
  note zd = zone_okD [OF z1(2)]
  note td = zone_timers_okD [OF zd(5)]
  from td(7) [OF u(1)] have gt: "armed_as (z_time_event_queue z1) (Register_time g) (g_register_time_event u)" by (simp add: group_timer_ok_def)
  have "\<exists>q. (case g_register_time_event u of Some t \<Rightarrow> avahi_time_event_free (z_time_event_queue z1) t | None \<Rightarrow> Some (z_time_event_queue z1)) = Some q \<and>
      teq_core q \<and> armed q = (armed (z_time_event_queue z1))(Register_time g := {})"
  proof (cases "g_register_time_event u")
    case None
    then show ?thesis using td(1) gt by (simp add: fun_upd_idem)
  next
    case (Some t)
    with gt obtain tv where "armed (z_time_event_queue z1) (Register_time g) = {(t, tv)}" by (auto simp: armed_as_Some)
    from free_timer_ok [OF td(1) this] Some show ?thesis by auto
  qed
  then obtain q where q: "(case g_register_time_event u of Some t \<Rightarrow> avahi_time_event_free (z_time_event_queue z1) t | None \<Rightarrow> Some (z_time_event_queue z1)) = Some q"
    "teq_core q" "armed q = (armed (z_time_event_queue z1))(Register_time g := {})" by blast
  have "g \<in> set (z_groups z1)" using groups_okD(2) [OF zd(2)] u(1) by simp
  with z1(1) u(1) q(1) have "avahi_entry_group_free g z =
      Some (z1\<lparr>z_time_event_queue := q, z_groups := remove1 g (z_groups z1), z_group := (z_group z1)(g := None)\<rparr>)"
    by (simp add: avahi_entry_group_free_def)
  with drop_group [OF z1(2) u q(2,3)] z1(4) show ?thesis by auto
qed

text \<open>A new or a freed timer of the cleanup.\<close>

lemma cleanup_timer_update:
  assumes z: "zone_ok z" and q: "teq_core q" "armed q = (armed (z_time_event_queue z))(Cleanup := T)" "armed_as q Cleanup t"
  shows "zone_ok (z\<lparr>z_jitter := j, z_time_event_queue := q, z_cleanup_time_event := t\<rparr>)" (is "zone_ok ?z")
proof -
  note zd = zone_okD [OF z]
  note td = zone_timers_okD [OF zd(5)]
  have s: "same_zone z (?z\<lparr>z_time_event_queue := z_time_event_queue z, z_cleanup_time_event := z_cleanup_time_event z\<rparr>)"
    by (simp add: same_zone_def)
  have gr: "group_of ?z = group_of z" by (rule group_of_cong) simp
  have cn: "canon_of ?z = canon_of z" by (rule canon_of_cong) simp
  have cm: "committed ?z = committed z" by (rule committed_cong) simp
  have pr: "probing ?z = probing z" by (rule ext) (simp add: probing_def gr)
  have "entries_ok ?z = entries_ok z" unfolding entries_ok_def by simp
  moreover have "groups_ok ?z = groups_ok z" unfolding groups_ok_def gr by simp
  moreover have "keys_ok ?z = keys_ok z" unfolding keys_ok_def cn by simp
  moreover have "links_ok ?z = links_ok z" unfolding links_ok_def cm by simp
  moreover have "counts_ok ?z = counts_ok z" unfolding counts_ok_def pr by simp
  moreover have "list_ok ?z = list_ok z" unfolding list_ok_def by simp
  moreover have "zone_timers_ok ?z"
    unfolding zone_timers_ok_def gr
  proof (intro conjI allI, goal_cases)
    case 1
    show ?case using q(1) by simp
  next
    case (2 a)
    show ?case using td(2) [of a] td(3-5) [of a] q(2) armed_as_cong [of q "Elapse_announce a" "z_time_event_queue z"]
      by (cases "z_announcer z a") simp_all
  next
    case (3 g)
    show ?case using td(6) [of g] td(7) [of g] q(2) armed_as_cong [of q "Register_time g" "z_time_event_queue z"]
      by (cases "z_group z g") (simp_all add: group_timer_ok_def)
  next
    case 4
    show ?case using q(3) by simp
  qed
  ultimately show ?thesis using zd unfolding zone_ok_def by blast
qed

lemma zone_flags_ok:
  assumes "zone_ok z"
  shows "zone_ok (z\<lparr>z_need_group_cleanup := b\<rparr>)" "zone_ok (z\<lparr>z_need_entry_cleanup := b\<rparr>)" "zone_ok (log_event ev z)"
    "zone_ok (avahi_server_set_errno err z)" "zone_ok (z\<lparr>z_need_group_cleanup := b, z_need_entry_cleanup := c\<rparr>)"
  by (rule same_zone_inv [OF _ assms]; use zone_okD(7) [OF assms] in \<open>simp add: same_zone_def list_ok_def log_event_def avahi_server_set_errno_def\<close>)+

lemma cleanup_dead_entries_ok:
  assumes "zone_ok z"
  shows "\<exists>z'. avahi_cleanup_dead_entries z = Some z' \<and> zone_ok z' \<and> z_cleanup_time_event z' = None"
proof -
  let ?fg = "\<lambda>g z. do { x \<leftarrow> z_group z g; if g_dead x then avahi_entry_group_free g z else Some z }"
  let ?fe = "\<lambda>e z. do { y \<leftarrow> z_entry z e; if e_dead y then avahi_entry_free e z else Some z }"
  have "\<exists>s'. for_each ?fg (z_groups z) z = Some s' \<and> zone_ok s'"
  proof (rule for_each_shrink [where P = "\<lambda>g s. z_group s g \<noteq> None"])
    fix g s
    assume s: "zone_ok s" and g: "z_group (s :: 'a zone) g \<noteq> None"
    then obtain w where w: "z_group s g = Some w" by blast
    show "\<exists>s'. ?fg g s = Some s' \<and> zone_ok s' \<and> (\<forall>y. y \<noteq> g \<and> z_group s y \<noteq> None \<longrightarrow> z_group s' y \<noteq> None)"
    proof (cases "g_dead w")
      case True
      from group_free_ok [OF s w] obtain s' where "avahi_entry_group_free g s = Some s'" "zone_ok s'"
        "\<forall>h. h \<noteq> g \<and> z_group s h \<noteq> None \<longrightarrow> z_group s' h \<noteq> None" by blast
      with w True show ?thesis by auto
    next
      case False
      with w s show ?thesis by auto
    qed
  qed (use assms groups_okD(1,2) [OF zone_okD(2) [OF assms]] in auto)
  then obtain z1 where z1: "for_each ?fg (z_groups z) z = Some z1" "zone_ok z1" by blast
  define z2 where "z2 = (if z_need_group_cleanup z then z1\<lparr>z_need_group_cleanup := False\<rparr> else z)"
  have z2: "(if z_need_group_cleanup z then do { z \<leftarrow> for_each ?fg (z_groups z) z; Some (z\<lparr>z_need_group_cleanup := False\<rparr>) } else Some z) = Some z2" "zone_ok z2"
    using z1 assms by (simp_all add: z2_def zone_flags_ok)
  have "\<exists>s'. for_each ?fe (z_entries z2) z2 = Some s' \<and> zone_ok s'"
  proof (rule for_each_shrink [where P = "\<lambda>e s. z_entry s e \<noteq> None"])
    fix e s
    assume s: "zone_ok s" and e: "z_entry (s :: 'a zone) e \<noteq> None"
    then obtain y where y: "z_entry s e = Some y" by blast
    show "\<exists>s'. ?fe e s = Some s' \<and> zone_ok s' \<and> (\<forall>f. f \<noteq> e \<and> z_entry s f \<noteq> None \<longrightarrow> z_entry s' f \<noteq> None)"
    proof (cases "e_dead y")
      case True
      from entry_free_ok [OF s y] obtain s' where s': "avahi_entry_free e s = Some s'" "freed e s s'" by blast
      with y True freedD(1,5) [OF s'(2)] show ?thesis by fastforce
    next
      case False
      with y s show ?thesis by auto
    qed
  qed (use z2(2) entries_okD(1,2) [OF zone_okD(1) [OF z2(2)]] in auto)
  then obtain z3 where z3: "for_each ?fe (z_entries z2) z2 = Some z3" "zone_ok z3" by blast
  define z4 where "z4 = (if z_need_entry_cleanup z2 then z3\<lparr>z_need_entry_cleanup := False\<rparr> else z2)"
  have z4: "(if z_need_entry_cleanup z2 then do { z \<leftarrow> for_each ?fe (z_entries z2) z2; Some (z\<lparr>z_need_entry_cleanup := False\<rparr>) } else Some z2) = Some z4" "zone_ok z4"
    using z3 z2(2) by (simp_all add: z4_def zone_flags_ok)
  define z5 where "z5 = (if z_need_browser_cleanup z4 then log_event Browser_cleanup z4 else z4)"
  have ok5: "zone_ok z5" using z4(2) zone_flags_ok(3) [OF z4(2)] by (simp add: z5_def)
  have eq: "avahi_cleanup_dead_entries z = (case z_cleanup_time_event z5 of None \<Rightarrow> Some z5
      | Some t \<Rightarrow> do { q \<leftarrow> avahi_time_event_free (z_time_event_queue z5) t; Some (z5\<lparr>z_time_event_queue := q, z_cleanup_time_event := None\<rparr>) })"
    unfolding avahi_cleanup_dead_entries_def z2(1) bind.bind_lunit z4(1) Let_def z5_def by (rule refl)
  note td = zone_timers_okD [OF zone_okD(5) [OF ok5]]
  show ?thesis
  proof (cases "z_cleanup_time_event z5")
    case None
    with eq ok5 show ?thesis by simp
  next
    case (Some t)
    with td(8) obtain tv where "armed (z_time_event_queue z5) Cleanup = {(t, tv)}" by (auto simp: armed_as_Some)
    from free_timer_ok [OF td(1) this] obtain q where
      q: "avahi_time_event_free (z_time_event_queue z5) t = Some q" "teq_core q" "armed q = (armed (z_time_event_queue z5))(Cleanup := {})" by blast
    have "zone_ok (z5\<lparr>z_jitter := z_jitter z5, z_time_event_queue := q, z_cleanup_time_event := None\<rparr>)"
      by (rule cleanup_timer_update [OF ok5 q(2,3)]) (simp add: q(3))
    with eq Some q(1) show ?thesis by simp
  qed
qed

lemma schedule_cleanup_ok:
  assumes "zone_ok z"
  shows "\<exists>z'. schedule_cleanup v z = Some z' \<and> zone_ok z' \<and> z_group z' = z_group z \<and> z_cleanup_time_event z' \<noteq> None"
proof (cases "z_cleanup_time_event z")
  case (Some t)
  with assms show ?thesis by (simp add: schedule_cleanup_def)
next
  case None
  note td = zone_timers_okD [OF zone_okD(5) [OF assms]]
  obtain tv j where e: "elapse v 1000 0 (z_jitter z) = (tv, j)" by (cases "elapse v 1000 0 (z_jitter z)")
  from new_timer_ok [OF td(1), of tv Cleanup] obtain q where
    q: "avahi_time_event_new (z_time_event_queue z) (Some tv) Cleanup = Some (q, te_next (z_time_event_queue z))" "teq_core q"
      "armed q = (armed (z_time_event_queue z))(Cleanup := insert (te_next (z_time_event_queue z), tv) (armed (z_time_event_queue z) Cleanup))" by blast
  have "zone_ok (z\<lparr>z_jitter := j, z_time_event_queue := q, z_cleanup_time_event := Some (te_next (z_time_event_queue z))\<rparr>)"
    by (rule cleanup_timer_update [OF assms q(2,3)]) (use td(8) None in \<open>auto simp: armed_as_Some q(3)\<close>)
  with None e q(1) show ?thesis by (simp add: schedule_cleanup_def)
qed

subsection \<open>Changing an entry\<close>

lemma entry_changed:
  assumes z: "zone_ok z" and y: "z_entry z e = Some y"
    and y': "e_group y' = e_group y" "e_announcers y' = e_announcers y" "sound_record (e_record y')"
      "\<not> avahi_key_is_pattern (rr_key (e_record y'))" "if_valid (e_interface y')"
      "key_canon (rr_key (e_record y')) = key_canon (rr_key (e_record y))" "e_dead y \<Longrightarrow> e_dead y'"
      "e_dead y' \<Longrightarrow> e_announcers y = []"
  shows "zone_ok (z\<lparr>z_entry := (z_entry z)(e \<mapsto> y')\<rparr>)" (is "zone_ok ?z")
proof -
  note zd = zone_okD [OF z]
  note ed = entries_okD [OF zd(1)] and gd = groups_okD [OF zd(2)] and d = links_okD [OF zd(4)] and td = zone_timers_okD [OF zd(5)]
  have gr: "group_of ?z = group_of z" unfolding group_of_def by (rule ext) (simp add: y y'(1))
  have cn: "canon_of ?z = canon_of z" unfolding canon_of_def by (rule ext) (simp add: y y'(6))
  have cm: "committed ?z = committed z" by (rule committed_cong) simp
  have pr: "probing ?z = probing z" by (rule ext) (simp add: probing_def gr)
  have "dom ((z_entry z)(e \<mapsto> y')) = dom (z_entry z)" using y by (auto simp: dom_def)
  with zd(1) have dm: "set (z_entries z) = dom ((z_entry z)(e \<mapsto> y'))" by (simp add: entries_ok_def)
  have "entries_ok ?z"
    unfolding entries_ok_def
  proof (intro conjI allI impI, goal_cases)
    case 1
    show ?case using ed(1) by simp
  next
    case 2
    show ?case using dm by simp
  next
    case (3 f x)
    then show ?case using ed(3) [of f x] ed(3) [OF y] by (cases "f = e") simp_all
  next
    case (4 f x)
    then show ?case using ed(4) [of f x] y'(3) by (cases "f = e") simp_all
  next
    case (5 f x)
    then show ?case using ed(5) [of f x] y'(4) by (cases "f = e") simp_all
  next
    case (6 f x)
    then show ?case using ed(6) [of f x] y'(5) by (cases "f = e") simp_all
  next
    case (7 f x g)
    then show ?case using ed(7) [of f x g] ed(7) [OF y, of g] y'(1) by (cases "f = e") auto
  next
    case (8 f x)
    then show ?case using ed(8) [of f x] y'(2,8) by (cases "f = e") simp_all
  qed
  moreover have "groups_ok ?z"
    unfolding groups_ok_def gr
  proof (intro conjI allI impI, goal_cases)
    case 1
    show ?case using gd(1) by simp
  next
    case 2
    show ?case using zd(2) by (simp add: groups_ok_def)
  next
    case (3 g w)
    then show ?case using gd(3) by simp
  next
    case (4 g w)
    then show ?case using gd(4) by simp
  next
    case (5 g w f x)
    then have p: "z_group z g = Some w" "g_dead w" "z_entry ?z f = Some x" "e_group x = Some g" by simp_all
    show ?case
    proof (cases "f = e")
      case True
      then show ?thesis using p gd(5) [OF p(1,2) y] y'(1,7) by simp
    next
      case False
      then show ?thesis using p gd(5) [OF p(1,2)] by simp
    qed
  qed
  moreover have "keys_ok ?z = keys_ok z" unfolding keys_ok_def cn by simp
  moreover have "links_ok ?z"
    unfolding links_ok_def cm
  proof (intro conjI allI impI ballI, goal_cases)
    case (1 a x)
    then show ?case using d(1) by simp
  next
    case (2 a x)
    then have x: "z_announcer z a = Some x" by simp
    from d(2) [OF x] obtain y0 where y0: "z_entry z (a_entry x) = Some y0" "\<not> e_dead y0" "a \<in> set (e_announcers y0)" "committed z (e_group y0)" by blast
    show ?case
    proof (cases "a_entry x = e")
      case True
      then have "y0 = y" using y0(1) y by simp
      with y0 y' have "\<not> e_dead y'" by auto
      with True y0 y' \<open>y0 = y\<close> show ?thesis by simp
    next
      case False
      with y0 show ?thesis by simp
    qed
  next
    case (3 a x)
    then show ?case using d(3) by simp
  next
    case (4 f x)
    then show ?case using d(4) [of f x] d(4) [OF y] y'(2) by (cases "f = e") simp_all
  next
    case (5 f x a)
    then show ?case using d(5) [of f x a] d(5) [OF y, of a] y'(2) by (cases "f = e") simp_all
  next
    case (6 f x a b u w)
    then have p: "z_entry ?z f = Some x" "a \<in> set (e_announcers x)" "b \<in> set (e_announcers x)" "z_announcer z a = Some u"
      "z_announcer z b = Some w" "a_interface u = a_interface w" by simp_all
    show ?case
    proof (cases "f = e")
      case True
      then have "e_announcers x = e_announcers y" using p(1) y'(2) by simp
      with d(6) [OF y _ _ p(4-6)] p(2,3) show ?thesis by simp
    next
      case False
      then have "z_entry z f = Some x" using p(1) by simp
      from d(6) [OF this p(2-6)] show ?thesis .
    qed
  next
    case (7 i u)
    then show ?case using d(7) by simp
  next
    case (8 i u a)
    then show ?case using d(8) by simp
  next
    case (9 i)
    then show ?case using d(9) by simp
  next
    case (10 idx js i)
    then show ?case using d(10) [of idx js i] by simp
  qed
  moreover have "zone_timers_ok ?z = zone_timers_ok z" unfolding zone_timers_ok_def gr by (simp cong: option.case_cong)
  moreover have "counts_ok ?z = counts_ok z" unfolding counts_ok_def pr by simp
  moreover have "list_ok ?z = list_ok z" unfolding list_ok_def by simp
  ultimately show ?thesis using zd unfolding zone_ok_def by blast
qed

subsection \<open>Ending the entries of a group\<close>

lemma kill_entry_ok:
  assumes "zone_ok z" "z_entry z e = Some y"
  shows "\<exists>z'. kill_entry b e z = Some z' \<and> zone_ok z' \<and> (\<exists>y'. z_entry z' e = Some y' \<and> e_dead y') \<and>
    (\<forall>f x. f \<noteq> e \<and> z_entry z f = Some x \<longrightarrow> (\<exists>as. z_entry z' f = Some (x\<lparr>e_announcers := as\<rparr>))) \<and>
    (\<forall>f. z_entry z' f \<noteq> None \<longrightarrow> z_entry z f \<noteq> None) \<and> group_of z' = group_of z \<and> z_entries z' = z_entries z \<and>
    (\<forall>g w. z_group z g = Some w \<longrightarrow> (\<exists>n. z_group z' g = Some (w\<lparr>g_n_probing := n\<rparr>)))"
proof (cases "e_dead y")
  case True
  have "\<exists>as. x = x\<lparr>e_announcers := as\<rparr>" for x :: avahi_entry
    by (rule exI [of _ "e_announcers x"]) simp
  moreover have "\<exists>n. w = w\<lparr>g_n_probing := n\<rparr>" for w :: entry_group
    by (rule exI [of _ "g_n_probing w"]) simp
  moreover have "kill_entry b e z = Some z" using True assms(2) by (simp add: kill_entry_def)
  ultimately show ?thesis using assms True by (intro exI [of _ z]) simp
next
  case False
  from goodbye_entry_ok [OF assms, of b True] obtain z1 where
    z1: "avahi_goodbye_entry e b True z = Some z1" "kept z z1" "map_option e_announcers (z_entry z1 e) = Some []" by blast
  from kept_entry [OF z1(2) assms(2)] z1(3) have y1: "z_entry z1 e = Some (y\<lparr>e_announcers := []\<rparr>)" by auto
  let ?y = "y\<lparr>e_announcers := [], e_dead := True\<rparr>"
  let ?z = "z1\<lparr>z_entry := (z_entry z1)(e \<mapsto> ?y)\<rparr>"
  note ok = keptD(1) [OF z1(2)]
  note ed = entries_okD [OF zone_okD(1) [OF ok]]
  have "zone_ok ?z"
    by (rule entry_changed [OF ok y1]) (use ed(4-6) [OF y1] in simp_all)
  moreover have "kill_entry b e z = Some ?z"
    using False assms(2) z1(1) y1 by (simp add: kill_entry_def mod_entry_def)
  moreover have k: "z_entry z f = Some x \<Longrightarrow> \<exists>as. z_entry z1 f = Some (x\<lparr>e_announcers := as\<rparr>)" for f x
    by (rule kept_entry [OF z1(2)])
  moreover have "z_entry z f \<noteq> None" if "z_entry ?z f \<noteq> None" for f
  proof -
    have "map_option (\<lambda>y. y\<lparr>e_announcers := []\<rparr>) (z_entry z1 f) = map_option (\<lambda>y. y\<lparr>e_announcers := []\<rparr>) (z_entry z f)"
      using z1(2) unfolding kept_def by blast
    then show ?thesis using that assms(2) by (cases "f = e"; cases "z_entry z f"; cases "z_entry z1 f") simp_all
  qed
  moreover have "group_of ?z = group_of z"
  proof (rule ext)
    fix f
    have "map_option (\<lambda>y. y\<lparr>e_announcers := []\<rparr>) (z_entry z1 f) = map_option (\<lambda>y. y\<lparr>e_announcers := []\<rparr>) (z_entry z f)"
      using z1(2) unfolding kept_def by blast
    then show "group_of ?z f = group_of z f"
      using assms(2) k [of f] by (cases "f = e"; cases "z_entry z f"; cases "z_entry z1 f") (auto simp: group_of_def)
  qed
  moreover have "z_group z g = Some w \<Longrightarrow> \<exists>n. z_group ?z g = Some (w\<lparr>g_n_probing := n\<rparr>)" for g w
    using kept_group [OF z1(2)] by simp
  ultimately show ?thesis using keptD(2) [OF z1(2)] by (intro exI [of _ ?z]) auto
qed

lemma kill_group_ok:
  assumes "zone_ok z" "z_group z g = Some w"
  shows "\<exists>z'. for_each (kill_entry b) (g_entries w) z = Some z' \<and> zone_ok z' \<and>
    (\<exists>n. z_group z' g = Some (w\<lparr>g_n_probing := n\<rparr>)) \<and> keeps_groups z z' \<and>
    (\<forall>e y. z_entry z' e = Some y \<and> e_group y = Some g \<longrightarrow> e_dead y)"
proof -
  let ?I = "\<lambda>D s. zone_ok s \<and> (\<exists>n. z_group s g = Some (w\<lparr>g_n_probing := n\<rparr>)) \<and> keeps_groups z s \<and> group_of s = group_of z \<and>
     (\<forall>f. z_entry s f \<noteq> None \<longleftrightarrow> z_entry z f \<noteq> None) \<and> (\<forall>e \<in> D. \<exists>y. z_entry s e = Some y \<and> e_dead y)"
  have "\<exists>z'. for_each (kill_entry b) es s = Some z' \<and> ?I (D \<union> set es) z'" if "?I D s" "set es \<subseteq> dom (z_entry z)" for D s es
    using that
  proof (induction es arbitrary: D s)
    case Nil
    then show ?case by simp
  next
    case (Cons e es)
    have ok: "zone_ok s" using Cons.prems(1) by blast
    have "z_entry z e \<noteq> None" using Cons.prems(2) by auto
    with Cons.prems(1) obtain y where y: "z_entry s e = Some y" by (metis option.exhaust)
    from kill_entry_ok [OF ok y, of b] obtain s1 where s1: "kill_entry b e s = Some s1" "zone_ok s1"
      "\<exists>y'. z_entry s1 e = Some y' \<and> e_dead y'" "group_of s1 = group_of s"
      and o: "\<And>f x. f \<noteq> e \<Longrightarrow> z_entry s f = Some x \<Longrightarrow> \<exists>as. z_entry s1 f = Some (x\<lparr>e_announcers := as\<rparr>)"
      and n: "\<And>f. z_entry s1 f \<noteq> None \<Longrightarrow> z_entry s f \<noteq> None"
      and gw: "\<And>g w. z_group s g = Some w \<Longrightarrow> \<exists>n. z_group s1 g = Some (w\<lparr>g_n_probing := n\<rparr>)" by blast
    have "?I (insert e D) s1"
    proof (intro conjI)
      show "zone_ok s1" by (rule s1(2))
      from Cons.prems(1) obtain n0 where "z_group s g = Some (w\<lparr>g_n_probing := n0\<rparr>)" by blast
      from gw [OF this] show "\<exists>n. z_group s1 g = Some (w\<lparr>g_n_probing := n\<rparr>)" by simp
      have "keeps_groups s s1" using gw by (auto simp: keeps_groups_def)
      moreover have "keeps_groups z s" using Cons.prems(1) by blast
      ultimately show "keeps_groups z s1" by (rule keeps_groups_trans [rotated])
      show "group_of s1 = group_of z" using s1(4) Cons.prems(1) by simp
      show "\<forall>f. z_entry s1 f \<noteq> None \<longleftrightarrow> z_entry z f \<noteq> None"
      proof
        fix f
        have "z_entry s1 f \<noteq> None \<longleftrightarrow> z_entry s f \<noteq> None" using n [of f] o [of f] s1(3) y by (cases "f = e") auto
        then show "z_entry s1 f \<noteq> None \<longleftrightarrow> z_entry z f \<noteq> None" using Cons.prems(1) by blast
      qed
      show "\<forall>f \<in> insert e D. \<exists>y. z_entry s1 f = Some y \<and> e_dead y"
      proof
        fix f
        assume f: "f \<in> insert e D"
        show "\<exists>y. z_entry s1 f = Some y \<and> e_dead y"
        proof (cases "f = e")
          case True
          then show ?thesis using s1(3) by simp
        next
          case False
          with f Cons.prems(1) obtain x where "z_entry s f = Some x" "e_dead x" by blast
          with o [OF False] show ?thesis by fastforce
        qed
      qed
    qed
    moreover have "set es \<subseteq> dom (z_entry z)" using Cons.prems(2) by simp
    ultimately have "\<exists>z'. for_each (kill_entry b) es s1 = Some z' \<and> ?I (insert e D \<union> set es) z'" by (rule Cons.IH)
    with s1(1) show ?case by simp
  qed
  moreover have "?I {} z"
    using assms keeps_groups_refl [of z] by (auto intro: exI [of _ "g_n_probing w"])
  ultimately have "\<exists>z'. for_each (kill_entry b) (g_entries w) z = Some z' \<and> ?I ({} \<union> set (g_entries w)) z'"
    using group_dom [OF assms] by blast
  then obtain z' where
    z': "for_each (kill_entry b) (g_entries w) z = Some z'" "zone_ok z'" "\<exists>n. z_group z' g = Some (w\<lparr>g_n_probing := n\<rparr>)" "keeps_groups z z'"
      "group_of z' = group_of z" "\<And>f. z_entry z' f \<noteq> None \<longleftrightarrow> z_entry z f \<noteq> None" "\<forall>e \<in> set (g_entries w). \<exists>y. z_entry z' e = Some y \<and> e_dead y"
    by auto
  have "e_dead y" if "z_entry z' e = Some y" "e_group y = Some g" for e y
  proof -
    have "group_of z e = Some g" using that z'(5) by (metis group_of_def option.simps(5))
    moreover have "e \<in> set (z_entries z)" using entries_okD(2) [OF zone_okD(1) [OF assms(1)], of e] z'(6) [of e] that(1) by simp
    ultimately have "e \<in> set (g_entries w)" using groups_okD(4) [OF zone_okD(2) [OF assms(1)] assms(2)] by simp
    with z'(7) that(1) show ?thesis by auto
  qed
  with z' show ?thesis by blast
qed

lemma keeps_groupsD: "keeps_groups z z' \<Longrightarrow> z_group z g = Some w \<Longrightarrow> \<exists>w'. z_group z' g = Some w'"
  unfolding keeps_groups_def by blast

lemma clear_register_timer_ok:
  assumes "zone_ok z" "z_group z g = Some w"
  shows "\<exists>z'. clear_register_timer g z = Some z' \<and> zone_ok z' \<and> ann_frame z z' \<and> z_announcer z' = z_announcer z \<and>
    z_group z' = (z_group z)(g \<mapsto> w\<lparr>g_register_time_event := None\<rparr>)"
proof -
  note zd = zone_okD [OF assms(1)]
  note td = zone_timers_okD [OF zd(5)]
  have gt: "armed_as (z_time_event_queue z) (Register_time g) (g_register_time_event w)"
    using td(7) [OF assms(2)] by (simp add: group_timer_ok_def)
  from set_timer_ok [OF td(1) gt, of None] obtain q where
    q: "set_timer (Register_time g) (g_register_time_event w) None (z_time_event_queue z) = Some (None, q)" "teq_core q"
      "armed q = (armed (z_time_event_queue z))(Register_time g := {})" by auto
  let ?z = "z\<lparr>z_time_event_queue := q, z_group := (z_group z)(g \<mapsto> w\<lparr>g_register_time_event := None\<rparr>)\<rparr>"
  have c: "clear_register_timer g z = Some ?z" using assms(2) q(1) by (simp add: clear_register_timer_def mod_group_def)
  have f: "ann_frame z ?z" by (simp add: ann_frame_def)
  have "zone_ok ?z"
  proof (rule group_update [OF assms f, where w' = "w\<lparr>g_register_time_event := None\<rparr>" and T = "{}"])
    fix a x
    assume "z_announcer z a = Some x" "group_of z (a_entry x) = Some g"
    with links_okD(2) [OF zd(4)] assms(2)
    show "g_state (w\<lparr>g_register_time_event := None\<rparr>) = AVAHI_ENTRY_GROUP_REGISTERING \<or>
        g_state (w\<lparr>g_register_time_event := None\<rparr>) = AVAHI_ENTRY_GROUP_ESTABLISHED"
      by (fastforce simp: group_of_def committed_def)
  next
    show "int (card (probing z g)) \<le> g_n_probing (w\<lparr>g_register_time_event := None\<rparr>)"
      using zd(6) assms(2) by (simp add: counts_ok_def)
  qed (use q zd(7) in \<open>simp_all add: group_timer_ok_def list_ok_def\<close>)
  with c f show ?thesis by simp
qed

lemma no_announcers_of_dead:
  assumes "zone_ok z" "\<And>e y. z_entry z e = Some y \<Longrightarrow> e_group y = Some g \<Longrightarrow> e_dead y" "z_announcer z a = Some x"
  shows "group_of z (a_entry x) \<noteq> Some g"
proof
  assume g: "group_of z (a_entry x) = Some g"
  from links_okD(2) [OF zone_okD(4) [OF assms(1)] assms(3)] obtain y where "z_entry z (a_entry x) = Some y" "\<not> e_dead y" by blast
  with g assms(2) show False by (auto simp: group_of_def)
qed

lemma s_group_free_ok:
  assumes "zone_ok z" "z_group z g = Some w"
  shows "\<exists>z'. avahi_s_entry_group_free v g z = Some z' \<and> zone_ok z' \<and> (\<exists>w'. z_group z' g = Some w' \<and> g_dead w') \<and>
    keeps_groups z z' \<and> z_cleanup_time_event z' \<noteq> None"
proof -
  from kill_group_ok [OF assms, of True] obtain z1 n where
    z1: "for_each (kill_entry True) (g_entries w) z = Some z1" "zone_ok z1" "z_group z1 g = Some (w\<lparr>g_n_probing := n\<rparr>)"
      "keeps_groups z z1" "\<And>e y. z_entry z1 e = Some y \<Longrightarrow> e_group y = Some g \<Longrightarrow> e_dead y" by blast
  let ?w = "w\<lparr>g_n_probing := n\<rparr>"
  have "\<exists>z2 w2. (if g_register_time_event ?w \<noteq> None then clear_register_timer g z1 else Some z1) = Some z2 \<and> zone_ok z2 \<and>
      ann_frame z1 z2 \<and> z_announcer z2 = z_announcer z1 \<and> z_group z2 = (z_group z1)(g \<mapsto> w2) \<and> w2 = ?w\<lparr>g_register_time_event := None\<rparr>"
  proof (cases "g_register_time_event ?w = None")
    case True
    have "?w = ?w\<lparr>g_register_time_event := None\<rparr>" using True by simp
    then have "z_group z1 = (z_group z1)(g \<mapsto> ?w\<lparr>g_register_time_event := None\<rparr>)" using z1(3) by (metis fun_upd_idem)
    with True z1(2) ann_frame_refl show ?thesis by auto
  next
    case False
    with clear_register_timer_ok [OF z1(2,3)] show ?thesis by auto
  qed
  then obtain z2 w2 where z2: "(if g_register_time_event ?w \<noteq> None then clear_register_timer g z1 else Some z1) = Some z2" "zone_ok z2"
      "ann_frame z1 z2" "z_announcer z2 = z_announcer z1" "z_group z2 = (z_group z1)(g \<mapsto> w2)" and w2: "w2 = ?w\<lparr>g_register_time_event := None\<rparr>" by blast
  have g2: "z_group z2 g = Some w2" using z2(5) by simp
  have e2: "z_entry z2 = z_entry z1" by (rule ann_frameD [OF z2(3)])
  note zd = zone_okD [OF z2(2)]
  note td = zone_timers_okD [OF zd(5)]
  let ?z = "z2\<lparr>z_group := (z_group z2)(g \<mapsto> w2\<lparr>g_dead := True\<rparr>)\<rparr>"
  have f: "ann_frame z2 ?z" by (simp add: ann_frame_def)
  have dead: "e_dead y" if "z_entry z2 e = Some y" "e_group y = Some g" for e y using z1(5) that e2 by simp
  have none: "group_of z2 (a_entry x) \<noteq> Some g" if "z_announcer z2 a = Some x" for a x
    by (rule no_announcers_of_dead [OF z2(2) _ that]) (rule dead)
  have "zone_ok ?z"
  proof (rule group_update [OF z2(2) g2 f, where w' = "w2\<lparr>g_dead := True\<rparr>" and T = "armed (z_time_event_queue z2) (Register_time g)"])
    fix a x
    assume "z_announcer z2 a = Some x" "group_of z2 (a_entry x) = Some g"
    with none show "g_state (w2\<lparr>g_dead := True\<rparr>) = AVAHI_ENTRY_GROUP_REGISTERING \<or>
        g_state (w2\<lparr>g_dead := True\<rparr>) = AVAHI_ENTRY_GROUP_ESTABLISHED" by blast
  next
    show "int (card (probing z2 g)) \<le> g_n_probing (w2\<lparr>g_dead := True\<rparr>)" using zd(6) g2 by (simp add: counts_ok_def)
    show "group_timer_ok (z_time_event_queue ?z) g (w2\<lparr>g_dead := True\<rparr>)"
      using td(7) [OF g2] w2 by (simp add: group_timer_ok_def)
    show "\<forall>e y. z_entry z2 e = Some y \<and> e_group y = Some g \<longrightarrow> e_dead y" using dead by blast
  qed (use zd(7) td(1) in \<open>simp_all add: list_ok_def\<close>)
  from zone_flags_ok(5) [OF this, of True True] schedule_cleanup_ok obtain z3 where
    z3: "schedule_cleanup v (?z\<lparr>z_need_group_cleanup := True, z_need_entry_cleanup := True\<rparr>) = Some z3" "zone_ok z3"
      "z_group z3 = z_group (?z\<lparr>z_need_group_cleanup := True, z_need_entry_cleanup := True\<rparr>)" "z_cleanup_time_event z3 \<noteq> None" by blast
  have "avahi_s_entry_group_free v g z = Some z3"
    using assms(2) z1(1,3) z2(1) g2 z3(1) by (simp add: avahi_s_entry_group_free_def mod_group_def cong: if_cong)
  moreover have "keeps_groups z z3" using z1(4) z2(5) z3(3) by (auto simp: keeps_groups_def)
  ultimately show ?thesis using z3(2-4) by (intro exI [of _ z3]) simp
qed

lemma group_reset_ok:
  assumes "callback_ok cb" "zone_ok z" "z_group z g = Some w"
  shows "\<exists>z'. avahi_s_entry_group_reset cb v g z = Some z' \<and> zone_ok z' \<and> keeps_groups z z'"
proof -
  from kill_group_ok [OF assms(2,3), of True] obtain z1 n where
    z1: "for_each (kill_entry True) (g_entries w) z = Some z1" "zone_ok z1" "z_group z1 g = Some (w\<lparr>g_n_probing := n\<rparr>)"
      "keeps_groups z z1" "\<And>e y. z_entry z1 e = Some y \<Longrightarrow> e_group y = Some g \<Longrightarrow> e_dead y" by blast
  let ?w = "w\<lparr>g_n_probing := n\<rparr>"
  let ?z1 = "z1\<lparr>z_need_entry_cleanup := True\<rparr>"
  let ?z = "?z1\<lparr>z_group := (z_group z1)(g \<mapsto> w\<lparr>g_n_probing := 0\<rparr>)\<rparr>"
  note zd = zone_okD [OF z1(2)]
  note td = zone_timers_okD [OF zd(5)]
  have f: "ann_frame z1 ?z" by (simp add: ann_frame_def)
  have none: "group_of z1 (a_entry x) \<noteq> Some g" if "z_announcer z1 a = Some x" for a x
    by (rule no_announcers_of_dead [OF z1(2) z1(5) that])
  have ok: "zone_ok ?z"
  proof (rule group_update [OF z1(2,3) f, where w' = "w\<lparr>g_n_probing := 0\<rparr>" and T = "armed (z_time_event_queue z1) (Register_time g)"])
    have "probing z1 g = {}" using none by (auto simp: probing_def)
    then show "int (card (probing z1 g)) \<le> g_n_probing (w\<lparr>g_n_probing := 0\<rparr>)" by simp
    show "group_timer_ok (z_time_event_queue ?z) g (w\<lparr>g_n_probing := 0\<rparr>)"
      using td(7) [OF z1(3)] by (simp add: group_timer_ok_def)
  qed (use zd(7) td(1) none in \<open>auto simp add: list_ok_def\<close>)
  have gz: "z_group ?z g = Some (w\<lparr>g_n_probing := 0\<rparr>)" by simp
  have none': "group_of ?z (a_entry x) \<noteq> Some g" if "z_announcer ?z a = Some x" for a x
    using none [of a x] that group_of_cong [of ?z z1] by simp
  from change_state_ok [OF assms(1) ok gz, of AVAHI_ENTRY_GROUP_UNCOMMITED v] none' obtain z2 where
    z2: "avahi_s_entry_group_change_state cb v g AVAHI_ENTRY_GROUP_UNCOMMITED ?z = Some z2" "zone_ok z2" "keeps_groups ?z z2" by blast
  from schedule_cleanup_ok [OF z2(2), of v] obtain z3 where z3: "schedule_cleanup v z2 = Some z3" "zone_ok z3" "z_group z3 = z_group z2" by blast
  have "avahi_s_entry_group_reset cb v g z = Some z3"
    using assms(3) z1(1,3) z2(1) z3(1) by (simp add: avahi_s_entry_group_reset_def mod_group_def)
  moreover have "keeps_groups z z3" using z1(4) z2(3) z3(3) by (auto simp: keeps_groups_def)
  ultimately show ?thesis using z3(2) by blast
qed

subsection \<open>Committing a group\<close>

lemma commit_real_ok:
  assumes "callback_ok cb" "zone_ok z" "z_group z g = Some w"
  shows "\<exists>z'. entry_group_commit_real cb v g z = Some z' \<and> zone_ok z' \<and> keeps_groups z z'"
proof -
  note zd = zone_okD [OF assms(2)]
  note td = zone_timers_okD [OF zd(5)]
  let ?w = "w\<lparr>g_register_time := env_now v\<rparr>"
  let ?z = "z\<lparr>z_group := (z_group z)(g \<mapsto> ?w)\<rparr>"
  have f: "ann_frame z ?z" by (simp add: ann_frame_def)
  have ok: "zone_ok ?z"
  proof (rule group_update [OF assms(2,3) f, where w' = ?w and T = "armed (z_time_event_queue z) (Register_time g)"])
    fix a x
    assume "z_announcer z a = Some x" "group_of z (a_entry x) = Some g"
    with links_okD(2) [OF zd(4)] assms(3)
    show "g_state ?w = AVAHI_ENTRY_GROUP_REGISTERING \<or> g_state ?w = AVAHI_ENTRY_GROUP_ESTABLISHED"
      by (fastforce simp: group_of_def committed_def)
  next
    show "int (card (probing z g)) \<le> g_n_probing ?w" using zd(6) assms(3) by (simp add: counts_ok_def)
    show "group_timer_ok (z_time_event_queue ?z) g ?w" using td(7) [OF assms(3)] by (simp add: group_timer_ok_def)
  qed (use zd(7) td(1) in \<open>simp_all add: list_ok_def\<close>)
  from change_state_ok [OF assms(1) ok, of g ?w AVAHI_ENTRY_GROUP_REGISTERING v] obtain z1 where
    z1: "avahi_s_entry_group_change_state cb v g AVAHI_ENTRY_GROUP_REGISTERING ?z = Some z1" "zone_ok z1" "keeps_groups ?z z1" by auto
  from keeps_groupsD [OF z1(3), of g] obtain w1 where w1: "z_group z1 g = Some w1" by auto
  have k1: "keeps_groups z z1" using z1(3) by (auto simp: keeps_groups_def)
  show ?thesis
  proof (cases "g_dead w1")
    case True
    then have "entry_group_commit_real cb v g z = Some z1"
      using assms(3) z1(1) w1 by (simp add: entry_group_commit_real_def mod_group_def)
    with z1(2) k1 show ?thesis by blast
  next
    case False
    from announce_group_entries_ok [OF z1(2) w1, of v] obtain z2 where z2: "avahi_announce_group v g z1 = Some z2" "kept z1 z2" by blast
    from kept_group [OF z2(2) w1] obtain n where w2: "z_group z2 g = Some (w1\<lparr>g_n_probing := n\<rparr>)" ..
    from check_probed_ok [OF assms(1) keptD(1) [OF z2(2)] w2, of v False] False obtain z3 where
      z3: "avahi_s_entry_group_check_probed cb v False g z2 = Some z3" "zone_ok z3" "keeps_groups z2 z3" by auto
    have "entry_group_commit_real cb v g z = Some z3"
      using assms(3) z1(1) w1 False z2(1) z3(1) by (simp add: entry_group_commit_real_def mod_group_def)
    with z3(2) keeps_groups_trans [OF k1 keeps_groups_trans [OF kept_keeps_groups [OF z2(2)] z3(3)]] show ?thesis by blast
  qed
qed

lemma register_callback_ok:
  assumes "callback_ok cb" "zone_ok z" "z_group z g = Some w"
  shows "\<exists>z'. entry_group_register_time_event_callback cb v g z = Some z' \<and> zone_ok z' \<and> keeps_groups z z'"
proof -
  from clear_register_timer_ok [OF assms(2,3)] obtain z1 where
    z1: "clear_register_timer g z = Some z1" "zone_ok z1" "z_group z1 = (z_group z)(g \<mapsto> w\<lparr>g_register_time_event := None\<rparr>)" by blast
  from commit_real_ok [OF assms(1) z1(2), of g "w\<lparr>g_register_time_event := None\<rparr>" v] z1(3) obtain z2 where
    z2: "entry_group_commit_real cb v g z1 = Some z2" "zone_ok z2" "keeps_groups z1 z2" by auto
  have "keeps_groups z z1" using z1(3) by (auto simp: keeps_groups_def)
  from keeps_groups_trans [OF this z2(3)] z1(1) z2 show ?thesis by (simp add: entry_group_register_time_event_callback_def)
qed

lemma is_empty_returns:
  assumes "zone_ok z" "z_group z g = Some w"
  shows "\<exists>b. avahi_s_entry_group_is_empty g z = Some b"
proof -
  have r: "\<exists>b. (do { y \<leftarrow> z_entry z e; Some (\<not> e_dead y) }) = Some b" if "e \<in> set (g_entries w)" for e
    using group_entries_exist [OF assms] that by fastforce
  show ?thesis
    by (rule find_first_cases [OF r, of "g_entries w"], assumption)
      (use assms(2) in \<open>simp_all add: avahi_s_entry_group_is_empty_def\<close>, blast+)
qed

lemma commit_ok:
  assumes "callback_ok cb" "zone_ok z" "z_group z g = Some w" "\<not> g_dead w"
  shows "\<exists>z' r. avahi_s_entry_group_commit cb v g z = Some (z', r) \<and> zone_ok z' \<and> keeps_groups z z'"
proof (cases "g_state w \<noteq> AVAHI_ENTRY_GROUP_UNCOMMITED \<and> g_state w \<noteq> AVAHI_ENTRY_GROUP_COLLISION")
  case True
  with assms zone_flags_ok(4) [OF assms(2)] show ?thesis
    by (simp add: avahi_s_entry_group_commit_def fail_code_def keeps_groups_def avahi_server_set_errno_def)
next
  case False
  from is_empty_returns [OF assms(2,3)] obtain b where b: "avahi_s_entry_group_is_empty g z = Some b" ..
  note zd = zone_okD [OF assms(2)]
  note td = zone_timers_okD [OF zd(5)]
  from td(7) [OF assms(3)] False have none: "g_register_time_event w = None" by (auto simp: group_timer_ok_def)
  let ?n = "g_n_register_try w + 1"
  let ?tv = "avahi_timeval_add (g_register_time w) (holdoff_usec ?n)"
  let ?w = "w\<lparr>g_n_register_try := ?n, g_register_time := ?tv\<rparr>"
  let ?z = "z\<lparr>z_group := (z_group z)(g \<mapsto> ?w)\<rparr>"
  have an: "group_of z (a_entry x) \<noteq> Some g" if a: "z_announcer z a = Some x" for a x
  proof
    assume "group_of z (a_entry x) = Some g"
    with links_okD(2) [OF zd(4) a] assms(3) False show False by (fastforce simp: group_of_def committed_def)
  qed
  show ?thesis
  proof (cases "b")
    case True
    with assms False b zone_flags_ok(4) [OF assms(2)] show ?thesis
      by (simp add: avahi_s_entry_group_commit_def fail_code_def keeps_groups_def avahi_server_set_errno_def)
  next
    case F: False
    show ?thesis
    proof (cases "avahi_timeval_compare ?tv (env_now v) \<le> 0")
      case True
      have f: "ann_frame z ?z" by (simp add: ann_frame_def)
      have ok: "zone_ok ?z"
      proof (rule group_update [OF assms(2,3) f, where w' = ?w and T = "armed (z_time_event_queue z) (Register_time g)"])
        show "int (card (probing z g)) \<le> g_n_probing ?w" using zd(6) assms(3) by (simp add: counts_ok_def)
        show "group_timer_ok (z_time_event_queue ?z) g ?w" using td(7) [OF assms(3)] by (simp add: group_timer_ok_def)
      qed (use zd(7) td(1) an in \<open>auto simp: list_ok_def\<close>)
      from commit_real_ok [OF assms(1) ok, of g ?w v] obtain z1 where
        z1: "entry_group_commit_real cb v g ?z = Some z1" "zone_ok z1" "keeps_groups ?z z1" by auto
      have "avahi_s_entry_group_commit cb v g z = Some (z1, AVAHI_OK)"
        using assms(3,4) False b F True z1(1) by (auto simp add: avahi_s_entry_group_commit_def mod_group_def Let_def)
      moreover have "keeps_groups z z1" using z1(3) by (auto simp: keeps_groups_def)
      ultimately show ?thesis using z1(2) by blast
    next
      case later: False
      let ?q = "z_time_event_queue z"
      from new_timer_ok [OF td(1), of ?tv "Register_time g"] obtain q where
        q: "avahi_time_event_new ?q (Some ?tv) (Register_time g) = Some (q, te_next ?q)" "teq_core q"
          "armed q = (armed ?q)(Register_time g := insert (te_next ?q, ?tv) (armed ?q (Register_time g)))" by blast
      have e: "armed ?q (Register_time g) = {}" using td(7) [OF assms(3)] none by (simp add: group_timer_ok_def)
      let ?w1 = "?w\<lparr>g_register_time_event := Some (te_next ?q)\<rparr>"
      let ?z1 = "z\<lparr>z_time_event_queue := q, z_group := (z_group z)(g \<mapsto> ?w1)\<rparr>"
      have g1: "z_group ?z1 g = Some ?w1" by simp
      have a1: "armed_as (z_time_event_queue ?z1) (Register_time g) (g_register_time_event ?w1)"
        using q(3) e by (simp add: armed_as_Some)
      have st: "g_state ?w1 \<noteq> AVAHI_ENTRY_GROUP_REGISTERING" using False by auto
      obtain z2 w2 T where z2: "\<And>cb. avahi_s_entry_group_change_state cb v g AVAHI_ENTRY_GROUP_REGISTERING ?z1 = cb g AVAHI_ENTRY_GROUP_REGISTERING z2"
        "ann_frame ?z1 z2" "z_announcer z2 = z_announcer ?z1" "z_group z2 = (z_group ?z1)(g \<mapsto> w2)" "z_record_list z2 = z_record_list ?z1"
        and w2: "g_state w2 = AVAHI_ENTRY_GROUP_REGISTERING" "g_entries w2 = g_entries ?w1" "g_dead w2 = g_dead ?w1" "g_n_probing w2 = g_n_probing ?w1"
        and q2: "teq_core (z_time_event_queue z2)" "armed (z_time_event_queue z2) = (armed (z_time_event_queue ?z1))(Register_time g := T)"
          "armed_as (z_time_event_queue z2) (Register_time g) (g_register_time_event w2)"
        by (rule change_state_result [OF g1 st _ _ a1, of v]) (use q(2) in auto)
      have f: "ann_frame z z2" using z2(2) by (simp add: ann_frame_def)
      have ok: "zone_ok z2"
      proof (rule group_update [OF assms(2,3) f, where w' = w2 and T = T])
        show "z_announcer z2 = z_announcer z" using z2(3) by simp
        show "z_group z2 = (z_group z)(g \<mapsto> w2)" using z2(4) by simp
        show "g_entries w2 = g_entries w" using w2(2) by simp
        show "int (card (probing z g)) \<le> g_n_probing w2" using zd(6) assms(3) w2(4) by (simp add: counts_ok_def)
        show "armed (z_time_event_queue z2) = (armed (z_time_event_queue z))(Register_time g := T)"
          using q2(2) q(3) by simp
        show "group_timer_ok (z_time_event_queue z2) g w2" using q2(3) w2(1,3) assms(4) by (simp add: group_timer_ok_def)
        show "list_ok z2" using zd(7) z2(5) by (simp add: list_ok_def)
      qed (use q2(1) w2 assms(4) in auto)
      have g2: "z_group z2 g \<noteq> None" using z2(4) by simp
      from callback_okD [OF assms(1) ok g2, of AVAHI_ENTRY_GROUP_REGISTERING] obtain z3 where
        z3: "cb g AVAHI_ENTRY_GROUP_REGISTERING z2 = Some z3" "zone_ok z3" "keeps_groups z2 z3" by blast
      have "avahi_s_entry_group_commit cb v g z = Some (z3, AVAHI_OK)"
        using assms(3,4) False b F later q(1) none z2(1) [of cb] z3(1)
        by (auto simp add: avahi_s_entry_group_commit_def mod_group_def Let_def)
      moreover have "keeps_groups z z3" using z3(3) z2(4) by (auto simp: keeps_groups_def)
      ultimately show ?thesis using z3(2) by blast
    qed
  qed
qed

lemma with_group_ok:
  assumes z: "zone_ok z" and w: "g_entries w = []" "\<not> g_dead w" "g_register_time_event w = None" "g_n_probing w = 0"
  shows "zone_ok (z\<lparr>z_next := z_next z + 1, z_group := (z_group z)(z_next z \<mapsto> w), z_groups := z_next z # z_groups z\<rparr>)" (is "zone_ok ?z")
proof -
  note zd = zone_okD [OF z]
  note ed = entries_okD [OF zd(1)] and gd = groups_okD [OF zd(2)] and d = links_okD [OF zd(4)] and td = zone_timers_okD [OF zd(5)]
  have new: "z_group z (z_next z) = None" using gd(3) [of "z_next z"] by (cases "z_group z (z_next z)") auto
  have no: "e_group y \<noteq> Some (z_next z)" if "z_entry z e = Some y" for e y using ed(7) [OF that, of "z_next z"] new by auto
  have gr: "group_of ?z = group_of z" by (rule group_of_cong) simp
  have ge: "group_of z e \<noteq> Some (z_next z)" for e using no by (auto simp: group_of_def split: option.splits)
  have cn: "canon_of ?z = canon_of z" by (rule canon_of_cong) simp
  have cm: "committed ?z (e_group y) = committed z (e_group y)" if "z_entry z e = Some y" for e y
    using no [OF that] by (cases "e_group y") (auto simp: committed_def)
  have "entries_ok ?z"
    unfolding entries_ok_def
  proof (intro conjI allI impI, goal_cases)
    case 2
    show ?case using zd(1) by (simp add: entries_ok_def)
  next
    case (3 e y)
    then show ?case using ed(3) [of e y] by simp
  next
    case (7 e y h)
    then have "z_entry z e = Some y" "e_group y = Some h" by simp_all
    with ed(7) no show ?case by fastforce
  qed (use ed in simp_all)
  moreover have "groups_ok ?z"
    unfolding groups_ok_def gr
  proof (intro conjI allI impI, goal_cases)
    case 1
    show ?case using gd(1) gd(2) [of "z_next z"] new by simp
  next
    case 2
    show ?case using zd(2) by (auto simp: groups_ok_def)
  next
    case (3 h x)
    then show ?case using gd(3) [of h x] by (cases "h = z_next z") simp_all
  next
    case (4 h x)
    then show ?case using gd(4) [of h x] w(1) ge by (cases "h = z_next z") simp_all
  next
    case (5 h x e y)
    then show ?case using gd(5) [of h x e y] w(2) by (cases "h = z_next z") simp_all
  qed
  moreover have "keys_ok ?z = keys_ok z" unfolding keys_ok_def cn by simp
  moreover have "links_ok ?z"
  proof -
    have "\<exists>y. z_entry z (a_entry x) = Some y \<and> \<not> e_dead y \<and> a \<in> set (e_announcers y) \<and> committed ?z (e_group y)"
      if "z_announcer z a = Some x" for a x
      using d(2) [OF that] cm by blast
    then show ?thesis using zd(4) d(1) unfolding links_ok_def by (simp add: less_Suc_eq)
  qed
  moreover have "zone_timers_ok ?z"
    unfolding zone_timers_ok_def gr
  proof (intro conjI allI, goal_cases)
    case 1
    show ?case using td(1) by simp
  next
    case (2 a)
    show ?case using td(2) [of a] td(3-5) [of a] by (cases "z_announcer z a") simp_all
  next
    case (3 h)
    show ?case
    proof (cases "h = z_next z")
      case True
      then show ?thesis using td(6) [OF new] w(3) by (simp add: group_timer_ok_def)
    next
      case False
      then show ?thesis using td(6) [of h] td(7) [of h] by (cases "z_group z h") (simp_all add: group_timer_ok_def)
    qed
  next
    case 4
    show ?case using td(8) by simp
  qed
  moreover have "counts_ok ?z"
  proof -
    have pr: "probing ?z = probing z" unfolding probing_def gr by simp
    have "probing z (z_next z) = {}" using ge by (auto simp: probing_def)
    then show ?thesis using zd(6) w(4) unfolding counts_ok_def pr by simp
  qed
  moreover have "list_ok ?z" using zd(7) by (simp add: list_ok_def)
  ultimately show ?thesis using zd unfolding zone_ok_def by blast
qed

lemma group_new_ok:
  assumes "zone_ok z" "avahi_s_entry_group_new junk z = (z', g)"
  shows "zone_ok z'" "z_group z g = None" "\<exists>w. z_group z' g = Some w \<and> g_state w = AVAHI_ENTRY_GROUP_UNCOMMITED \<and> \<not> g_dead w"
    "keeps_groups z z'"
proof -
  have new: "z_group z (z_next z) = None" using groups_okD(3) [OF zone_okD(2) [OF assms(1)], of "z_next z"] by (cases "z_group z (z_next z)") auto
  let ?w = "\<lparr>g_dead = False, g_state = AVAHI_ENTRY_GROUP_UNCOMMITED, g_n_probing = 0, g_n_register_try = 0,
             g_register_time = \<lparr>tv_sec = 0, tv_usec = 0\<rparr>, g_register_time_event = None, g_established_at = junk, g_entries = []\<rparr>"
  have z': "z' = z\<lparr>z_next := z_next z + 1, z_group := (z_group z)(z_next z \<mapsto> ?w), z_groups := z_next z # z_groups z\<rparr>" "g = z_next z"
    using assms(2) by (auto simp: avahi_s_entry_group_new_def Let_def)
  show "zone_ok z'" unfolding z'(1) by (rule with_group_ok [OF assms(1)]) simp_all
  show "z_group z g = None" "\<exists>w. z_group z' g = Some w \<and> g_state w = AVAHI_ENTRY_GROUP_UNCOMMITED \<and> \<not> g_dead w" "keeps_groups z z'"
    using new z' by (auto simp: keeps_groups_def)
qed

subsection \<open>Adding a record\<close>

lemma ends_with_exact:
  assumes "labels_of suffix = Some ss" "labels_of domain = Some ls"
  shows "avahi_domain_ends_with domain suffix = Some (\<exists>k < length ls. canon (drop k ls) = canon ss)"
  using assms(2)
proof (induction domain arbitrary: ls rule: length_induct)
  case (1 domain)
  show ?case
  proof (cases "domain = []")
    case True
    with 1(2) show ?thesis by (simp add: avahi_domain_ends_with.simps)
  next
    case False
    with 1(2) obtain l d' ls' where u: "avahi_unescape_label AVAHI_LABEL_MAX domain = Some (l, d')" "labels_of d' = Some ls'" "ls = l # ls'"
      by (subst (asm) labels_of.simps) (auto split: option.splits)
    have "length d' < length domain" using unescape_label_shorter [OF u(1)] False by simp
    with 1(1) u(2) have ih: "avahi_domain_ends_with d' suffix = Some (\<exists>k < length ls'. canon (drop k ls') = canon ss)" by blast
    have ex: "(\<exists>k < length (l # ls'). canon (drop k (l # ls')) = canon ss) \<longleftrightarrow>
        canon (l # ls') = canon ss \<or> (\<exists>k < length ls'. canon (drop k ls') = canon ss)"
      by (auto simp: less_Suc_eq_0_disj)
    show ?thesis
      using False domain_equal_canon [OF 1(2) assms(1)] u ih ex
      by (subst avahi_domain_ends_with.simps) simp
  qed
qed

lemma suffix_labels: "labels_of AVAHI_MDNS_SUFFIX_LOCAL \<noteq> None" "labels_of AVAHI_MDNS_SUFFIX_ADDR_IPV4 \<noteq> None"
  "labels_of AVAHI_MDNS_SUFFIX_ADDR_IPV6 \<noteq> None"
  by code_simp+

definition flags_agree :: "u32 \<Rightarrow> bool" where
  "flags_agree flags \<longleftrightarrow> \<not> (has_flag flags AVAHI_PUBLISH_USE_MULTICAST \<and> has_flag flags AVAHI_PUBLISH_USE_WIDE_AREA)"

lemma transport_flags_returns:
  assumes "flags_agree flags" "labels_of domain \<noteq> None"
  shows "\<exists>f. transport_flags_from_domain z flags domain = Some f \<and>
    (f = flags \<or> f = flags OR AVAHI_PUBLISH_USE_MULTICAST \<or> f = flags OR AVAHI_PUBLISH_USE_WIDE_AREA)"
proof -
  have e: "\<exists>b. avahi_domain_ends_with domain s = Some b" if "labels_of s \<noteq> None" for s
    using assms(2) that ends_with_exact by blast
  from e [OF suffix_labels(1)] e [OF suffix_labels(2)] e [OF suffix_labels(3)] obtain a b c where
    abc: "avahi_domain_ends_with domain AVAHI_MDNS_SUFFIX_LOCAL = Some a" "avahi_domain_ends_with domain AVAHI_MDNS_SUFFIX_ADDR_IPV4 = Some b"
      "avahi_domain_ends_with domain AVAHI_MDNS_SUFFIX_ADDR_IPV6 = Some c" by blast
  have na: "\<not> (has_flag flags AVAHI_PUBLISH_USE_MULTICAST \<and> has_flag flags AVAHI_PUBLISH_USE_WIDE_AREA)"
    using assms(1) by (simp add: flags_agree_def)
  show ?thesis
    using na abc by (cases a; cases b) (auto simp: transport_flags_from_domain_def)
qed

definition grown :: "'o zone \<Rightarrow> 'o zone \<Rightarrow> bool" where
  "grown z z' \<longleftrightarrow> zone_ok z' \<and> keeps_groups z z' \<and>
     (\<forall>e y. z_entry z e = Some y \<longrightarrow> (\<exists>y'. z_entry z' e = Some y' \<and> e_group y' = e_group y \<and> e_dead y' = e_dead y)) \<and>
     (\<forall>g w. z_group z g = Some w \<longrightarrow> (\<exists>w'. z_group z' g = Some w' \<and> g_dead w' = g_dead w \<and> g_state w' = g_state w))"

lemma grown_refl: "zone_ok z \<Longrightarrow> grown z z"
  by (simp add: grown_def keeps_groups_refl)

lemma kept_grown:
  assumes "kept z z'"
  shows "grown z z'"
  unfolding grown_def
proof (intro conjI allI impI)
  show "zone_ok z'" "keeps_groups z z'" by (rule keptD(1) [OF assms], rule kept_keeps_groups [OF assms])
  show "\<exists>y'. z_entry z' e = Some y' \<and> e_group y' = e_group y \<and> e_dead y' = e_dead y" if "z_entry z e = Some y" for e y
    using kept_entry [OF assms that] by auto
  show "\<exists>w'. z_group z' g = Some w' \<and> g_dead w' = g_dead w \<and> g_state w' = g_state w" if "z_group z g = Some w" for g w
    using kept_group [OF assms that] by auto
qed

lemma grownD:
  assumes "grown z z'"
  shows "zone_ok z'" "keeps_groups z z'"
    "z_entry z e = Some y \<Longrightarrow> \<exists>y'. z_entry z' e = Some y' \<and> e_group y' = e_group y \<and> e_dead y' = e_dead y"
    "z_group z g = Some w \<Longrightarrow> \<exists>w'. z_group z' g = Some w' \<and> g_dead w' = g_dead w \<and> g_state w' = g_state w"
  using assms unfolding grown_def by blast+

lemma grown_trans:
  assumes "grown z1 z2" "grown z2 z3"
  shows "grown z1 z3"
  unfolding grown_def
proof (intro conjI allI impI)
  note a = grownD [OF assms(1)] and b = grownD [OF assms(2)]
  show "zone_ok z3" "keeps_groups z1 z3" by (rule b(1), rule keeps_groups_trans [OF a(2) b(2)])
  show "\<exists>y'. z_entry z3 e = Some y' \<and> e_group y' = e_group y \<and> e_dead y' = e_dead y" if "z_entry z1 e = Some y" for e y
  proof -
    from a(3) [OF that] obtain y1 where y1: "z_entry z2 e = Some y1" "e_group y1 = e_group y" "e_dead y1 = e_dead y" by blast
    from b(3) [OF y1(1)] y1(2,3) show ?thesis by simp
  qed
  show "\<exists>w'. z_group z3 g = Some w' \<and> g_dead w' = g_dead w \<and> g_state w' = g_state w" if "z_group z1 g = Some w" for g w
  proof -
    from a(4) [OF that] obtain w1 where w1: "z_group z2 g = Some w1" "g_dead w1 = g_dead w" "g_state w1 = g_state w" by blast
    from b(4) [OF w1(1)] w1(2,3) show ?thesis by simp
  qed
qed

lemma grown_errno: "zone_ok z \<Longrightarrow> grown z (avahi_server_set_errno err z)"
  unfolding grown_def using zone_flags_ok(4) [of z err] by (simp add: keeps_groups_def avahi_server_set_errno_def)

lemma conflicts_with_returns:
  assumes "rr_readable r" "rr_readable (e_record y)"
  shows "\<exists>b. conflicts_with i p r f y = Some b"
proof -
  from record_equal_canon [OF assms] obtain eq where "avahi_record_equal_no_ttl r (e_record y) = Some eq" by blast
  moreover have "Ex Not" by (rule exI [of _ False]) simp
  ultimately show ?thesis by (simp add: conflicts_with_def)
qed

lemma sound_readable: "sound_record r \<Longrightarrow> rr_readable r" "sound_record r \<Longrightarrow> key_readable (rr_key r)"
  by (simp_all add: sound_record_def rr_readable_key)

lemma check_conflict_returns:
  assumes "zone_ok z" "sound_record r"
  shows "\<exists>c. check_record_conflict z i p r f = Some c"
proof -
  note zd = zone_okD [OF assms(1)]
  obtain es where es: "entries_with_key z (rr_key r) = Some es"
    "\<And>e. e \<in> set es \<Longrightarrow> \<exists>y. z_entry z e = Some y \<and> key_canon (rr_key (e_record y)) = key_canon (rr_key r)"
    by (rule entries_with_keyD [OF zd(1,3) sound_readable(2) [OF assms(2)]]) blast
  have rt: "\<exists>b. (do { y \<leftarrow> z_entry z e; conflicts_with i p r f y }) = Some b" if "e \<in> set es" for e
  proof -
    from es(2) [OF that] obtain y where y: "z_entry z e = Some y" by blast
    from conflicts_with_returns [OF sound_readable(1) [OF assms(2)] sound_readable(1) [OF entries_okD(4) [OF zd(1) y]]] y
    show ?thesis by simp
  qed
  show ?thesis
    by (rule find_first_cases [OF rt, of es], assumption) (use es(1) in \<open>simp_all add: check_record_conflict_def\<close>)
qed

lemma rekey_ok:
  assumes z: "zone_ok z" and m: "km_inv m" "\<And>kc. map_option snd (km_get m kc) = map_option snd (km_get (z_entries_by_key z) kc)"
  shows "zone_ok (z\<lparr>z_entries_by_key := m\<rparr>)" (is "zone_ok ?z")
proof -
  note zd = zone_okD [OF z]
  have gr: "group_of ?z = group_of z" by (rule group_of_cong) simp
  have cn: "canon_of ?z = canon_of z" by (rule canon_of_cong) simp
  have cm: "committed ?z = committed z" by (rule committed_cong) simp
  have pr: "probing ?z = probing z" unfolding probing_def gr by simp
  have "entries_ok ?z = entries_ok z" unfolding entries_ok_def by simp
  moreover have "groups_ok ?z = groups_ok z" unfolding groups_ok_def gr by simp
  moreover have "keys_ok ?z" using zd(3) m unfolding keys_ok_def cn by simp
  moreover have "links_ok ?z = links_ok z" unfolding links_ok_def cm by simp
  moreover have "zone_timers_ok ?z = zone_timers_ok z" unfolding zone_timers_ok_def gr by (simp cong: option.case_cong)
  moreover have "counts_ok ?z = counts_ok z" unfolding counts_ok_def pr by simp
  moreover have "list_ok ?z = list_ok z" unfolding list_ok_def by simp
  ultimately show ?thesis using zd unfolding zone_ok_def by blast
qed

definition with_entry :: "avahi_entry \<Rightarrow> (rrkey, nat list) hashmap \<Rightarrow> 'o zone \<Rightarrow> 'o zone" where
  "with_entry y m z =
     z\<lparr>z_next := z_next z + 1, z_entry := (z_entry z)(z_next z \<mapsto> y), z_entries := z_next z # z_entries z, z_entries_by_key := m,
       z_group := (case e_group y of None \<Rightarrow> z_group z
         | Some g \<Rightarrow> (z_group z)(g := map_option (\<lambda>x. x\<lparr>g_entries := z_next z # g_entries x\<rparr>) (z_group z g)))\<rparr>"

lemma with_entry_ok:
  assumes z: "zone_ok z" and y: "\<not> e_dead y" "e_announcers y = []" "sound_record (e_record y)"
      "\<not> avahi_key_is_pattern (rr_key (e_record y))" "if_valid (e_interface y)"
      "\<And>g. e_group y = Some g \<Longrightarrow> \<exists>w. z_group z g = Some w \<and> \<not> g_dead w"
    and m: "km_inv m" "map_option snd (km_get m (key_canon (rr_key (e_record y)))) =
       Some (z_next z # filter (\<lambda>f. canon_of z f = Some (key_canon (rr_key (e_record y)))) (z_entries z))"
    "\<And>kc. kc \<noteq> key_canon (rr_key (e_record y)) \<Longrightarrow> km_get m kc = km_get (z_entries_by_key z) kc"
  shows "zone_ok (with_entry y m z)"
proof -
  let ?z = "with_entry y m z"
  let ?e = "z_next z"
  note zd = zone_okD [OF z]
  note ed = entries_okD [OF zd(1)] and gd = groups_okD [OF zd(2)] and d = links_okD [OF zd(4)] and td = zone_timers_okD [OF zd(5)]
  have new: "z_entry z ?e = None" using ed(3) [of ?e] by (cases "z_entry z ?e") auto
  have E: "z_entry ?z = (z_entry z)(?e \<mapsto> y)" and N: "z_next ?z = ?e + 1" and L: "z_entries ?z = ?e # z_entries z"
    "z_groups ?z = z_groups z" "z_interfaces ?z = z_interfaces z" "z_by_hardware ?z = z_by_hardware z"
    and A: "z_announcer ?z = z_announcer z" and I: "z_iface ?z = z_iface z" and Q: "z_time_event_queue ?z = z_time_event_queue z"
    "z_cleanup_time_event ?z = z_cleanup_time_event z" and M: "z_entries_by_key ?z = m"
    by (simp_all add: with_entry_def)
  have gs: "\<exists>w0. z_group z g = Some w0 \<and> w = w0\<lparr>g_entries := (if e_group y = Some g then ?e # g_entries w0 else g_entries w0)\<rparr>"
    if "z_group ?z g = Some w" for g w
    using that by (cases "e_group y") (auto simp: with_entry_def split: if_splits)
  have gn: "z_group ?z g = None \<longleftrightarrow> z_group z g = None" for g by (cases "e_group y") (auto simp: with_entry_def)
  have gr: "group_of ?z f = (if f = ?e then e_group y else group_of z f)" for f by (simp add: group_of_def E)
  have cn: "canon_of ?z f = (if f = ?e then Some (key_canon (rr_key (e_record y))) else canon_of z f)" for f by (simp add: canon_of_def E)
  have ne: "a_entry x \<noteq> ?e" if "z_announcer z a = Some x" for a x using d(2) [OF that] new by auto
  have nin: "?e \<notin> set (z_entries z)" using ed(2) [of ?e] new by simp
  have fe: "filter (\<lambda>f. (if f = ?e then b else h f) = Some c) (?e # z_entries z) =
      (if b = Some c then [?e] else []) @ filter (\<lambda>f. h f = Some c) (z_entries z)" for h :: "nat \<Rightarrow> 'b option" and b c
  proof -
    have "filter (\<lambda>f. (if f = ?e then b else h f) = Some c) (z_entries z) = filter (\<lambda>f. h f = Some c) (z_entries z)"
      using nin by (intro filter_cong) auto
    then show ?thesis by simp
  qed
  have cm: "committed ?z = committed z"
  proof (rule ext)
    fix og
    show "committed ?z og = committed z og"
    proof (cases og)
      case (Some g)
      then show ?thesis using gs [of g] gn [of g] by (cases "z_group z g"; cases "z_group ?z g") (auto simp: committed_def)
    qed (simp add: committed_def)
  qed
  have "entries_ok ?z"
    unfolding entries_ok_def N gn
  proof (intro conjI allI impI, goal_cases)
    case 1
    show ?case using ed(1) nin L(1) by simp
  next
    case 2
    have "set (z_entries z) = dom (z_entry z)" using zd(1) by (simp add: entries_ok_def)
    then show ?case unfolding L E by simp
  next
    case (3 f x)
    then show ?case using ed(3) [of f x] unfolding E by (cases "f = ?e") simp_all
  next
    case (4 f x)
    then show ?case using ed(4) [of f x] y(3) unfolding E by (cases "f = ?e") simp_all
  next
    case (5 f x)
    then show ?case using ed(5) [of f x] y(4) unfolding E by (cases "f = ?e") simp_all
  next
    case (6 f x)
    then show ?case using ed(6) [of f x] y(5) unfolding E by (cases "f = ?e") simp_all
  next
    case (7 f x g)
    then show ?case using ed(7) [of f x g] y(6) [of g] unfolding E by (cases "f = ?e") auto
  next
    case (8 f x)
    then show ?case using ed(8) [of f x] y(1) unfolding E by (cases "f = ?e") simp_all
  qed
  moreover have "groups_ok ?z"
    unfolding groups_ok_def N L(1,2) gr
  proof (intro conjI allI impI, goal_cases)
    case 1
    show ?case by (rule gd(1))
  next
    case 2
    have "dom (z_group ?z) = dom (z_group z)" using gn by (auto simp: dom_def)
    with zd(2) show ?case by (simp add: groups_ok_def)
  next
    case (3 g w)
    from gs [OF this] gd(3) show ?case by fastforce
  next
    case (4 g w)
    from gs [OF this] obtain w0 where w0: "z_group z g = Some w0"
      "w = w0\<lparr>g_entries := (if e_group y = Some g then ?e # g_entries w0 else g_entries w0)\<rparr>" by blast
    show ?case unfolding fe using gd(4) [OF w0(1)] w0(2) by simp
  next
    case (5 g w f x)
    then have p: "z_group ?z g = Some w" "g_dead w" "z_entry ?z f = Some x" "e_group x = Some g" by simp_all
    from gs [OF p(1)] p(2) obtain w0 where w0: "z_group z g = Some w0" "g_dead w0" by auto
    have "f \<noteq> ?e" using p(3,4) y(6) [of g] w0 unfolding E by auto
    with gd(5) [OF w0] p(3,4) show ?case unfolding E by simp
  qed
  moreover have "keys_ok ?z"
    unfolding keys_ok_def L(1) M cn
  proof (intro conjI allI, goal_cases)
    case 1
    show ?case by (rule m(1))
  next
    case (2 kc)
    show ?case
    proof (cases "kc = key_canon (rr_key (e_record y))")
      case True
      show ?thesis unfolding fe True using m(2) by simp
    next
      case False
      have "map_option snd (km_get (z_entries_by_key z) kc) =
          (case filter (\<lambda>f. canon_of z f = Some kc) (z_entries z) of [] \<Rightarrow> None | es \<Rightarrow> Some es)"
        using zd(3) unfolding keys_ok_def by blast
      then show ?thesis unfolding fe m(3) [OF False] using False by auto
    qed
  qed
  moreover have "links_ok ?z"
    unfolding links_ok_def cm A I N L(3,4)
  proof (intro conjI allI impI ballI, goal_cases)
    case (1 a x)
    with d(1) show ?case by fastforce
  next
    case (2 a x)
    from d(2) [OF this] ne [OF this] show ?case unfolding E by auto
  next
    case (3 a x)
    from d(3) [OF this] show ?case by blast
  next
    case (4 f x)
    then show ?case using d(4) [of f x] y(2) unfolding E by (cases "f = ?e") simp_all
  next
    case (5 f x a)
    then show ?case using d(5) [of f x a] y(2) unfolding E by (cases "f = ?e") auto
  next
    case (6 f x a b u w)
    then have p: "z_entry ?z f = Some x" "a \<in> set (e_announcers x)" "b \<in> set (e_announcers x)" "z_announcer z a = Some u"
      "z_announcer z b = Some w" "a_interface u = a_interface w" by simp_all
    have "f \<noteq> ?e" using p(1,2) y(2) unfolding E by auto
    then have f: "z_entry z f = Some x" using p(1) unfolding E by simp
    show ?case by (rule d(6) [OF f p(2-6)])
  next
    case (7 i u)
    with d(7) show ?case by blast
  next
    case (8 i u a)
    with d(8) show ?case by blast
  next
    case (9 i)
    from d(9) [OF this] show ?case by blast
  next
    case (10 idx js i)
    then show ?case using d(10) by blast
  qed
  moreover have "zone_timers_ok ?z"
    unfolding zone_timers_ok_def A Q
  proof (intro conjI allI, goal_cases)
    case 1
    show ?case by (rule td(1))
  next
    case (2 a)
    show ?case
    proof (cases "z_announcer z a")
      case None
      then show ?thesis using td(2) by simp
    next
      case (Some x)
      then show ?thesis using td(3-5) [OF Some] gr ne [OF Some] by simp
    qed
  next
    case (3 g)
    show ?case
    proof (cases "z_group ?z g")
      case None
      then show ?thesis using td(6) [of g] gn [of g] by simp
    next
      case (Some w)
      from gs [OF this] obtain w0 where w0: "z_group z g = Some w0"
        "w = w0\<lparr>g_entries := (if e_group y = Some g then ?e # g_entries w0 else g_entries w0)\<rparr>" by blast
      then show ?thesis using td(7) [OF w0(1)] Some by (simp add: group_timer_ok_def)
    qed
  next
    case 4
    show ?case by (rule td(8))
  qed
  moreover have "counts_ok ?z"
    unfolding counts_ok_def
  proof (intro allI impI)
    fix g w
    assume "z_group ?z g = Some w"
    from gs [OF this] obtain w0 where w0: "z_group z g = Some w0" "g_n_probing w = g_n_probing w0" by auto
    have "probing ?z g = probing z g" using ne by (auto simp: probing_def A gr)
    with w0 zd(6) show "int (card (probing ?z g)) \<le> g_n_probing w" by (simp add: counts_ok_def)
  qed
  moreover have "list_ok ?z" using zd(7) by (simp add: list_ok_def with_entry_def)
  ultimately show ?thesis unfolding zone_ok_def by blast
qed

text \<open>A group that entries may be added to.\<close>

definition live_group_arg :: "'o zone \<Rightarrow> nat option \<Rightarrow> bool" where
  "live_group_arg z og \<longleftrightarrow> (case og of None \<Rightarrow> True | Some g \<Rightarrow> \<exists>w. z_group z g = Some w \<and> \<not> g_dead w)"

lemma group_is_returns: "live_group_arg z og \<Longrightarrow> \<exists>b. group_is p og z = Some b"
  by (cases og) (auto simp: group_is_def live_group_arg_def)

lemma insert_entry_ok:
  assumes "zone_ok z" "live_group_arg z og" "sound_record r" "\<not> avahi_key_is_pattern (rr_key r)" "if_valid i"
  shows "(\<exists>err. insert_entry v og i p f r z = Some (avahi_server_set_errno err z, None)) \<or>
    (\<exists>z' e y. insert_entry v og i p f r z = Some (z', Some e) \<and> grown z z' \<and> z_entry z e = None \<and>
       z_entry z' e = Some y \<and> e_group y = og \<and> e_record y = r \<and> \<not> e_dead y)"
proof -
  note zd = zone_okD [OF assms(1)]
  note ed = entries_okD [OF zd(1)]
  from check_conflict_returns [OF assms(1,3), of i p f] obtain c where c: "check_record_conflict z i p r f = Some c" ..
  show ?thesis
  proof (cases "c < 0")
    case True
    with c show ?thesis by (auto simp: insert_entry_def fail_null_def)
  next
    case False
    let ?e = "z_next z"
    let ?y = "\<lparr>e_group = og, e_dead = False, e_flags = f, e_record = r, e_interface = i, e_protocol = p, e_announcers = []\<rparr>"
    let ?es = "filter (\<lambda>f. canon_of z f = Some (key_canon (rr_key r))) (z_entries z)"
    note kr = sound_readable(2) [OF assms(3)]
    have new: "z_entry z ?e = None" using ed(3) [of ?e] by (cases "z_entry z ?e") auto
    have km: "km_inv (z_entries_by_key z)" using zd(3) by (simp add: keys_ok_def)
    obtain m q where m: "avahi_hashmap_replace (z_entries_by_key z) (rr_key r) (?e # ?es) = Some (m, q)" "km_inv m"
      "km_get m = (km_get (z_entries_by_key z))(key_canon (rr_key r) \<mapsto> (rr_key r, ?e # ?es))" by (rule km_replace [OF km kr])
    have ok: "zone_ok (with_entry ?y m z)"
      by (rule with_entry_ok [OF assms(1)]) (use assms(2-5) m(2,3) in \<open>auto simp: live_group_arg_def\<close>)
    have ye: "z_entry (with_entry ?y m z) ?e = Some ?y" by (simp add: with_entry_def)
    from announce_entry_ok [OF ok ye, of v] obtain z2 where z2: "avahi_announce_entry v ?e (with_entry ?y m z) = Some z2" "kept (with_entry ?y m z) z2" by auto
    have es: "entries_with_key (z\<lparr>z_next := ?e + 1, z_entry := (z_entry z)(?e \<mapsto> ?y), z_entries := ?e # z_entries z\<rparr>) (rr_key r) = Some ?es"
      using entries_with_key_eq [OF zd(3) kr] by (simp add: entries_with_key_def)
    have "(case og of None \<Rightarrow> Some (z\<lparr>z_next := ?e + 1, z_entry := (z_entry z)(?e \<mapsto> ?y), z_entries := ?e # z_entries z, z_entries_by_key := m\<rparr>)
        | Some g \<Rightarrow> mod_group g (\<lambda>x. x\<lparr>g_entries := ?e # g_entries x\<rparr>)
            (z\<lparr>z_next := ?e + 1, z_entry := (z_entry z)(?e \<mapsto> ?y), z_entries := ?e # z_entries z, z_entries_by_key := m\<rparr>)) =
      Some (with_entry ?y m z)"
      using assms(2) by (cases og) (auto simp: with_entry_def mod_group_def live_group_arg_def)
    then have "insert_entry v og i p f r z = Some (z2, Some ?e)"
      using c False es m(1) z2(1) by (simp add: insert_entry_def Let_def cong: option.case_cong)
    moreover have "grown z (with_entry ?y m z)"
      unfolding grown_def
    proof (intro conjI allI impI)
      show "zone_ok (with_entry ?y m z)" by (rule ok)
      show "keeps_groups z (with_entry ?y m z)" unfolding keeps_groups_def by (cases og) (auto simp: with_entry_def)
      show "\<exists>y'. z_entry (with_entry ?y m z) e = Some y' \<and> e_group y' = e_group y \<and> e_dead y' = e_dead y" if "z_entry z e = Some y" for e y
        using that new by (cases "e = ?e") (auto simp: with_entry_def)
      show "\<exists>w'. z_group (with_entry ?y m z) g = Some w' \<and> g_dead w' = g_dead w \<and> g_state w' = g_state w" if "z_group z g = Some w" for g w
        using that by (cases og) (auto simp: with_entry_def)
    qed
    moreover from kept_entry [OF z2(2) ye] obtain as where "z_entry z2 ?e = Some (?y\<lparr>e_announcers := as\<rparr>)" ..
    ultimately show ?thesis using grown_trans [OF _ kept_grown [OF z2(2)]] new by fastforce
  qed
qed

lemma update_entry_ok:
  assumes "zone_ok z" "live_group_arg z og" "sound_record r" "\<not> avahi_key_is_pattern (rr_key r)"
  shows "(\<exists>err. update_entry v og i p f r z = Some (avahi_server_set_errno err z, None)) \<or>
    (\<exists>z' e y. update_entry v og i p f r z = Some (z', Some e) \<and> grown z z' \<and> z_entry z e \<noteq> None \<and>
       z_entry z' e = Some y \<and> e_group y = og \<and> e_record y = r \<and> \<not> e_dead y)"
proof -
  note zd = zone_okD [OF assms(1)]
  note ed = entries_okD [OF zd(1)]
  note kr = sound_readable(2) [OF assms(3)]
  define es where "es = filter (\<lambda>f. canon_of z f = Some (key_canon (rr_key r))) (z_entries z)"
  have es: "entries_with_key z (rr_key r) = Some es" "es = filter (\<lambda>f. canon_of z f = Some (key_canon (rr_key r))) (z_entries z)"
    using entries_with_key_eq [OF zd(3) kr] by (simp_all add: es_def)
  have es3: "\<exists>y. z_entry z e = Some y \<and> key_canon (rr_key (e_record y)) = key_canon (rr_key r)" if "e \<in> set es" for e
    using that by (auto simp: es_def canon_of_def)
  have rt: "\<exists>b. (do { y \<leftarrow> z_entry z e; Some (\<not> e_dead y \<and> e_group y = og \<and> e_interface y = i \<and> e_protocol y = p) }) = Some b"
    if "e \<in> set es" for e
    using es3 [OF that] by auto
  show ?thesis
  proof (rule find_first_cases [OF rt, of es], assumption)
    assume "find_first (\<lambda>e. do { y \<leftarrow> z_entry z e; Some (\<not> e_dead y \<and> e_group y = og \<and> e_interface y = i \<and> e_protocol y = p) }) es = Some None"
    with es(1) have "update_entry v og i p f r z = fail_null AVAHI_ERR_NOT_FOUND z" by (simp add: update_entry_def)
    then show ?thesis by (auto simp: fail_null_def)
  next
    fix e
    assume ff: "find_first (\<lambda>e. do { y \<leftarrow> z_entry z e; Some (\<not> e_dead y \<and> e_group y = og \<and> e_interface y = i \<and> e_protocol y = p) }) es = Some (Some e)"
      and e: "e \<in> set es" and ok: "(do { y \<leftarrow> z_entry z e; Some (\<not> e_dead y \<and> e_group y = og \<and> e_interface y = i \<and> e_protocol y = p) }) = Some True"
    from es3 [OF e] obtain y where y: "z_entry z e = Some y" "key_canon (rr_key (e_record y)) = key_canon (rr_key r)" by blast
    with ok have yo: "\<not> e_dead y" "e_group y = og" by simp_all
    let ?y = "y\<lparr>e_record := r, e_flags := f\<rparr>"
    let ?z1 = "z\<lparr>z_entry := (z_entry z)(e \<mapsto> ?y)\<rparr>"
    have ok1: "zone_ok ?z1" by (rule entry_changed [OF assms(1) y(1)]) (use assms(3,4) y(2) ed(6) [OF y(1)] yo in simp_all)
    have g1: "grown z ?z1"
      unfolding grown_def using ok1 y(1) by (auto simp: keeps_groups_def)
    have y1: "z_entry ?z1 e = Some ?y" by simp
    from record_equal_canon [OF sound_readable(1) [OF ed(4) [OF y(1)]] sound_readable(1) [OF assms(3)]] obtain eq where
      eq: "avahi_record_equal_no_ttl (e_record y) r = Some eq" by blast
    have "live_group_arg ?z1 og" using assms(2) by (simp add: live_group_arg_def cong: option.case_cong)
    from group_is_returns [OF this] obtain c where c: "group_is (\<lambda>s. s \<noteq> AVAHI_ENTRY_GROUP_UNCOMMITED) og ?z1 = Some c" by blast
    have "\<exists>z2. (if \<not> eq \<and> c then do {
                 z \<leftarrow> (if \<not> has_flag f AVAHI_PUBLISH_UNIQUE then avahi_goodbye_entry e True False ?z1 else Some ?z1);
                 avahi_reannounce_entry v e z
               } else Some ?z1) = Some z2 \<and> kept ?z1 z2"
    proof (cases "\<not> eq \<and> c")
      case True
      have "\<exists>s. (if \<not> has_flag f AVAHI_PUBLISH_UNIQUE then avahi_goodbye_entry e True False ?z1 else Some ?z1) = Some s \<and> kept ?z1 s"
        using goodbye_entry_ok [OF ok1 y1, of True False] kept_refl [OF ok1] by auto
      then obtain s where s: "(if \<not> has_flag f AVAHI_PUBLISH_UNIQUE then avahi_goodbye_entry e True False ?z1 else Some ?z1) = Some s" "kept ?z1 s" by blast
      from kept_entry [OF s(2) y1] obtain as where "z_entry s e = Some (?y\<lparr>e_announcers := as\<rparr>)" ..
      from reannounce_entry_ok [OF keptD(1) [OF s(2)] this, of v] yo obtain s2 where
        s2: "avahi_reannounce_entry v e s = Some s2" "kept s s2" by auto
      have b: "(do { z \<leftarrow> (if \<not> has_flag f AVAHI_PUBLISH_UNIQUE then avahi_goodbye_entry e True False ?z1 else Some ?z1); avahi_reannounce_entry v e z }) = Some s2"
        unfolding s(1) by (simp add: s2(1))
      show ?thesis using True b kept_trans [OF s(2) s2(2)] by auto
    next
      case False
      with kept_refl [OF ok1] show ?thesis by auto
    qed
    then obtain z2 where z2: "(if \<not> eq \<and> c then do {
                 z \<leftarrow> (if \<not> has_flag f AVAHI_PUBLISH_UNIQUE then avahi_goodbye_entry e True False ?z1 else Some ?z1);
                 avahi_reannounce_entry v e z
               } else Some ?z1) = Some z2" "kept ?z1 z2" by blast
    from kept_entry [OF z2(2) y1] obtain as where y2: "z_entry z2 e = Some (?y\<lparr>e_announcers := as\<rparr>)" ..
    note ok2 = keptD(1) [OF z2(2)]
    have "\<exists>z3. (if hd es = e then do {
                 (m, _) \<leftarrow> avahi_hashmap_replace (z_entries_by_key z2) (rr_key r) es;
                 Some (z2\<lparr>z_entries_by_key := m\<rparr>)
               } else Some z2) = Some z3 \<and> grown z2 z3 \<and> z_entry z3 = z_entry z2"
    proof (cases "hd es = e")
      case True
      have km: "km_inv (z_entries_by_key z2)" using zone_okD(3) [OF ok2] by (simp add: keys_ok_def)
      obtain m q where m: "avahi_hashmap_replace (z_entries_by_key z2) (rr_key r) es = Some (m, q)" "km_inv m"
        "km_get m = (km_get (z_entries_by_key z2))(key_canon (rr_key r) \<mapsto> (rr_key r, es))" by (rule km_replace [OF km kr])
      have old: "map_option snd (km_get (z_entries_by_key z2) (key_canon (rr_key r))) = Some es"
      proof -
        have "z_entries_by_key z2 = z_entries_by_key z" using keptD(6) [OF z2(2)] by simp
        moreover have "map_option snd (km_get (z_entries_by_key z) (key_canon (rr_key r))) = (case es of [] \<Rightarrow> None | es \<Rightarrow> Some es)"
          using zd(3) unfolding keys_ok_def es(2) by blast
        moreover have "es \<noteq> []" using e by auto
        ultimately show ?thesis by (cases es) simp_all
      qed
      have ok3: "zone_ok (z2\<lparr>z_entries_by_key := m\<rparr>)" by (rule rekey_ok [OF ok2 m(2)]) (simp add: m(3) old)
      then have "grown z2 (z2\<lparr>z_entries_by_key := m\<rparr>)" unfolding grown_def by (simp add: keeps_groups_def)
      with True m(1) show ?thesis by simp
    next
      case False
      with grown_refl [OF ok2] show ?thesis by simp
    qed
    then obtain z3 where z3: "(if hd es = e then do {
                 (m, _) \<leftarrow> avahi_hashmap_replace (z_entries_by_key z2) (rr_key r) es;
                 Some (z2\<lparr>z_entries_by_key := m\<rparr>)
               } else Some z2) = Some z3" "grown z2 z3" "z_entry z3 = z_entry z2" by blast
    have "update_entry v og i p f r z = Some (z3, Some e)"
      unfolding update_entry_def es(1) bind.bind_lunit ff option.case y(1) Let_def
      using y(1) eq c z2(1) z3(1) by (simp add: mod_entry_def cong: if_cong)
    moreover have "grown z z3" by (rule grown_trans [OF g1 grown_trans [OF kept_grown [OF z2(2)] z3(2)]])
    moreover have "z_entry z3 e = Some (?y\<lparr>e_announcers := as\<rparr>)" using y2 z3(3) by simp
    moreover have "e_group (?y\<lparr>e_announcers := as\<rparr>) = og" "e_record (?y\<lparr>e_announcers := as\<rparr>) = r" "\<not> e_dead (?y\<lparr>e_announcers := as\<rparr>)"
      using yo by simp_all
    moreover have "z_entry z e \<noteq> None" using y(1) by simp
    ultimately show ?thesis by blast
  qed
qed

lemma record_valid_returns:
  assumes "sound_record r"
  shows "\<exists>b. avahi_record_is_valid r = Some b"
  using assms by (auto simp: avahi_record_is_valid_def sound_record_def split: rdata.split)

text \<open>Every call returns; a failed one only sets the error code, a successful one keeps what was there.\<close>

lemma server_add_internal_ok:
  assumes "zone_ok z" "live_group_arg z og" "sound_record r" "flags_agree f"
  shows "(\<exists>err. server_add_internal v og i p f r z = Some (avahi_server_set_errno err z, None)) \<or>
    (\<exists>z' e y. server_add_internal v og i p f r z = Some (z', Some e) \<and> grown z z' \<and>
       z_entry z' e = Some y \<and> e_group y = og \<and> e_record y = r \<and> \<not> e_dead y \<and>
       (z_entry z e \<noteq> None \<longrightarrow> (\<exists>f'. has_flag f' AVAHI_PUBLISH_UPDATE \<and> transport_flags_from_domain z f (key_name (rr_key r)) = Some f')))"
    (is "?fail \<or> ?done")
proof -
  have F: "(\<exists>err. fail_null e z = Some (avahi_server_set_errno err z, None)) \<or> P" for e P by (auto simp: fail_null_def)
  from record_valid_returns [OF assms(3)] obtain valid where valid: "avahi_record_is_valid r = Some valid" ..
  have "labels_of (key_name (rr_key r)) \<noteq> None" using assms(3) by (simp add: sound_record_def normal_name_def)
  from transport_flags_returns [OF assms(4) this, of z] obtain f' where
    f': "transport_flags_from_domain z f (key_name (rr_key r)) = Some f'" by blast
  from group_is_returns [OF assms(2)] obtain free where
    free: "group_is (\<lambda>s. s \<noteq> AVAHI_ENTRY_GROUP_ESTABLISHED \<and> s \<noteq> AVAHI_ENTRY_GROUP_REGISTERING) og z = Some free" by blast
  define Q where "Q x \<longleftrightarrow> (\<exists>err. x = fail_null err z) \<or>
      (x = update_entry v og i p f' r z \<and> has_flag f' AVAHI_PUBLISH_UPDATE \<and> \<not> avahi_key_is_pattern (rr_key r)) \<or>
      (x = insert_entry v og i p f' r z \<and> if_valid i \<and> \<not> avahi_key_is_pattern (rr_key r))" for x
  have ifQ: "Q (if b then fail_null err z else y)" if "\<not> b \<Longrightarrow> Q y" for b err y
    using that unfolding Q_def by (cases b) (simp_all, blast)
  have "Q (server_add_internal v og i p f r z)"
    unfolding server_add_internal_def valid f' free bind.bind_lunit
    by (intro ifQ) (simp add: Q_def)
  then consider (bad) err where "server_add_internal v og i p f r z = fail_null err z"
    | (upd) "server_add_internal v og i p f r z = update_entry v og i p f' r z" "has_flag f' AVAHI_PUBLISH_UPDATE" "\<not> avahi_key_is_pattern (rr_key r)"
    | (ins) "server_add_internal v og i p f r z = insert_entry v og i p f' r z" "if_valid i" "\<not> avahi_key_is_pattern (rr_key r)"
    unfolding Q_def by blast
  then show ?thesis
  proof cases
    case bad
    then have "server_add_internal v og i p f r z = Some (avahi_server_set_errno err z, None)" by (simp add: fail_null_def)
    then show ?thesis by blast
  next
    case upd
    from update_entry_ok [OF assms(1-3) upd(3), of v i p f'] show ?thesis
    proof (elim disjE exE conjE)
      fix err
      assume "update_entry v og i p f' r z = Some (avahi_server_set_errno err z, None)"
      then have "server_add_internal v og i p f r z = Some (avahi_server_set_errno err z, None)" using upd(1) by simp
      then show ?thesis by blast
    next
      fix z' e y
      assume u: "update_entry v og i p f' r z = Some (z', Some e)" "grown z z'" "z_entry z' e = Some y" "e_group y = og" "e_record y = r" "\<not> e_dead y"
      have "server_add_internal v og i p f r z = Some (z', Some e)" using upd(1) u(1) by simp
      with u(2-6) upd(2) f' show ?thesis by blast
    qed
  next
    case ins
    from insert_entry_ok [OF assms(1-3) ins(3,2), of v p f'] show ?thesis
    proof (elim disjE exE conjE)
      fix err
      assume "insert_entry v og i p f' r z = Some (avahi_server_set_errno err z, None)"
      then have "server_add_internal v og i p f r z = Some (avahi_server_set_errno err z, None)" using ins(1) by simp
      then show ?thesis by blast
    next
      fix z' e y
      assume u: "insert_entry v og i p f' r z = Some (z', Some e)" "grown z z'" "z_entry z e = None" "z_entry z' e = Some y" "e_group y = og" "e_record y = r" "\<not> e_dead y"
      have "server_add_internal v og i p f r z = Some (z', Some e)" using ins(1) u(1) by simp
      with u(2-7) show ?thesis by blast
    qed
  qed
qed

end
