(* ===== verification/Zonerun.thy ===== *)
theory Zonerun
  imports Zoneentry
begin

text \<open>
  The zone at work: its operations as a step relation, what holds in every reachable zone, the life of an
  announcer from its first probe to its last announcement, and the life of a group.
\<close>

subsection \<open>Histories\<close>

text \<open>A server without entries; the interfaces are there, by hardware index.\<close>

definition new_zone :: "(nat \<Rightarrow> iface option) \<Rightarrow> (int \<Rightarrow> nat list option) \<Rightarrow> nat list \<Rightarrow> 'o zone" where
  "new_zone ifs hw is =
     \<lparr>z_entry = (\<lambda>_. None), z_group = (\<lambda>_. None), z_announcer = (\<lambda>_. None), z_iface = ifs, z_next = 0, z_entries = [], z_groups = [],
      z_interfaces = is, z_by_hardware = hw, z_entries_by_key = avahi_hashmap_new rr_key_hash rr_key_eq False False,
      z_record_list = avahi_record_list_new, z_need_entry_cleanup = False, z_need_group_cleanup = False,
      z_need_browser_cleanup = False, z_cleanup_time_event = None, z_time_event_queue = avahi_time_event_queue_new,
      z_jitter = \<lparr>last_rand = 0, timestamp = 0\<rparr>, z_log = [], z_error = 0, z_state = AVAHI_SERVER_RUNNING,
      z_host_name_fqdn = str ''host.local'', z_domain_name = str ''local'', z_has_wide_area_servers = False,
      z_disable_publishing = False, z_add_service_cookie = False, z_local_service_cookie = 0\<rparr>"

definition interfaces_ok :: "(nat \<Rightarrow> iface option) \<Rightarrow> (int \<Rightarrow> nat list option) \<Rightarrow> nat list \<Rightarrow> bool" where
  "interfaces_ok ifs hw is \<longleftrightarrow> (\<forall>i u. ifs i = Some u \<longrightarrow> i_announcers u = []) \<and> (\<forall>i \<in> set is. ifs i \<noteq> None) \<and>
     (\<forall>idx js i. hw idx = Some js \<and> i \<in> set js \<longrightarrow> ifs i \<noteq> None)"

datatype zone_op =
    Fire nat
  | Register nat
  | Clean
  | Announce_interface nat
  | Goodbye_interface nat bool bool
  | Announce_entry nat
  | Reannounce_entry nat
  | Return_to_initial nat nat
  | Free_entry nat
  | Group_new timeval
  | Group_commit nat
  | Group_reset nat
  | Group_free nat
  | Add_record "nat option" int protocol u32 rr

fun zone_exec :: "'o group_callback \<Rightarrow> env \<Rightarrow> zone_op \<Rightarrow> 'o zone \<Rightarrow> 'o zone outcome" where
  "zone_exec cb v (Fire a) z = elapse_announce cb v a z"
| "zone_exec cb v (Register g) z = entry_group_register_time_event_callback cb v g z"
| "zone_exec cb v Clean z = cleanup_time_event_callback z"
| "zone_exec cb v (Announce_interface i) z = avahi_announce_interface v i z"
| "zone_exec cb v (Goodbye_interface i send remove) z = avahi_goodbye_interface i send remove z"
| "zone_exec cb v (Announce_entry e) z = avahi_announce_entry v e z"
| "zone_exec cb v (Reannounce_entry e) z = avahi_reannounce_entry v e z"
| "zone_exec cb v (Return_to_initial e i) z = avahi_entry_return_to_initial_state v e i z"
| "zone_exec cb v (Free_entry e) z = avahi_entry_free e z"
| "zone_exec cb v (Group_new junk) z = Some (fst (avahi_s_entry_group_new junk z))"
| "zone_exec cb v (Group_commit g) z = map_option fst (avahi_s_entry_group_commit cb v g z)"
| "zone_exec cb v (Group_reset g) z = avahi_s_entry_group_reset cb v g z"
| "zone_exec cb v (Group_free g) z = avahi_s_entry_group_free v g z"
| "zone_exec cb v (Add_record og i p f r) z = map_option fst (server_add_internal v og i p f r z)"

text \<open>The objects an operation is about exist and are not dead; a record is one a client may publish.\<close>

definition live_entry :: "'o zone \<Rightarrow> nat \<Rightarrow> bool" where
  "live_entry z e \<longleftrightarrow> (case z_entry z e of None \<Rightarrow> False | Some y \<Rightarrow> \<not> e_dead y)"

fun zone_allowed :: "'o zone \<Rightarrow> zone_op \<Rightarrow> bool" where
  "zone_allowed z (Fire a) = (z_announcer z a \<noteq> None)"
| "zone_allowed z (Register g) = (z_group z g \<noteq> None)"
| "zone_allowed z Clean = True"
| "zone_allowed z (Announce_interface i) = (z_iface z i \<noteq> None)"
| "zone_allowed z (Goodbye_interface i send remove) = (z_iface z i \<noteq> None)"
| "zone_allowed z (Announce_entry e) = live_entry z e"
| "zone_allowed z (Reannounce_entry e) = live_entry z e"
| "zone_allowed z (Return_to_initial e i) = (z_entry z e \<noteq> None)"
| "zone_allowed z (Free_entry e) = (z_entry z e \<noteq> None)"
| "zone_allowed z (Group_new junk) = True"
| "zone_allowed z (Group_commit g) = live_group_arg z (Some g)"
| "zone_allowed z (Group_reset g) = (z_group z g \<noteq> None)"
| "zone_allowed z (Group_free g) = (z_group z g \<noteq> None)"
| "zone_allowed z (Add_record og i p f r) = (live_group_arg z og \<and> sound_record r \<and> flags_agree f)"

inductive zone_reachable :: "'o group_callback \<Rightarrow> 'o zone \<Rightarrow> bool" for cb where
  start: "interfaces_ok ifs hw is \<Longrightarrow> zone_reachable cb (new_zone ifs hw is)"
| step: "zone_reachable cb z \<Longrightarrow> zone_allowed z a \<Longrightarrow> zone_exec cb v a z = Some z' \<Longrightarrow> zone_reachable cb z'"

lemma teq_core_new: "teq_core avahi_time_event_queue_new"
  using teq_ok_new unfolding teq_ok_def by (rule conjunct1)

lemma new_zone_ok:
  assumes "interfaces_ok ifs hw is"
  shows "zone_ok (new_zone ifs hw is)"
  using assms
  by (simp add: zone_ok_def new_zone_def entries_ok_def groups_ok_def keys_ok_def links_ok_def zone_timers_ok_def counts_ok_def
      list_ok_def armed_new rl_inv_new rl_state_new interfaces_ok_def km_new teq_core_new)

lemma zone_exec_ok:
  assumes "callback_ok cb" "zone_ok z" "zone_allowed z a"
  shows "\<exists>z'. zone_exec cb v a z = Some z' \<and> zone_ok z'"
proof (cases a)
  case (Fire a')
  with assms(3) obtain x where "z_announcer z a' = Some x" by auto
  from next_state_ok [OF assms(1,2) this, of v] Fire show ?thesis by (auto simp: elapse_announce_def)
next
  case (Register g)
  with assms(3) obtain w where "z_group z g = Some w" by auto
  from register_callback_ok [OF assms(1,2) this, of v] Register show ?thesis by auto
next
  case Clean
  from cleanup_dead_entries_ok [OF assms(2)] Clean show ?thesis by (auto simp: cleanup_time_event_callback_def)
next
  case (Announce_interface i)
  with assms(3) obtain u where "z_iface z i = Some u" by auto
  from announce_interface_ok [OF assms(2) this, of v] Announce_interface keptD(1) show ?thesis by auto
next
  case (Goodbye_interface i b c)
  with assms(3) obtain u where "z_iface z i = Some u" by auto
  from goodbye_interface_ok [OF assms(2) this, of b c] Goodbye_interface keptD(1) show ?thesis by auto
next
  case (Announce_entry e)
  with assms(3) obtain y where "z_entry z e = Some y" "\<not> e_dead y" by (auto simp: live_entry_def split: option.splits)
  from announce_entry_ok [OF assms(2) this, of v] Announce_entry keptD(1) show ?thesis by auto
next
  case (Reannounce_entry e)
  with assms(3) obtain y where "z_entry z e = Some y" "\<not> e_dead y" by (auto simp: live_entry_def split: option.splits)
  from reannounce_entry_ok [OF assms(2) this, of v] Reannounce_entry keptD(1) show ?thesis by auto
next
  case (Return_to_initial e i)
  with assms(3) obtain y where "z_entry z e = Some y" by auto
  from return_to_initial_state_ok [OF assms(2) this, of v i] Return_to_initial steppedD(1) show ?thesis by auto
next
  case (Free_entry e)
  with assms(3) obtain y where "z_entry z e = Some y" by auto
  from entry_free_ok [OF assms(2) this] Free_entry freedD(1) show ?thesis by auto
next
  case (Group_new junk)
  obtain z' g where "avahi_s_entry_group_new junk z = (z', g)" by (cases "avahi_s_entry_group_new junk z")
  with group_new_ok(1) [OF assms(2) this] Group_new show ?thesis by simp
next
  case (Group_commit g)
  with assms(3) obtain w where "z_group z g = Some w" "\<not> g_dead w" by (auto simp: live_group_arg_def)
  from commit_ok [OF assms(1,2) this, of v] Group_commit show ?thesis by auto
next
  case (Group_reset g)
  with assms(3) obtain w where "z_group z g = Some w" by auto
  from group_reset_ok [OF assms(1,2) this, of v] Group_reset show ?thesis by auto
next
  case (Group_free g)
  with assms(3) obtain w where "z_group z g = Some w" by auto
  from s_group_free_ok [OF assms(2) this, of v] Group_free show ?thesis by auto
next
  case (Add_record og i p f r)
  with assms(3) have c: "live_group_arg z og" "sound_record r" "flags_agree f" by simp_all
  from server_add_internal_ok [OF assms(2) c, of v i p] show ?thesis
  proof (elim disjE exE conjE)
    fix err
    assume "server_add_internal v og i p f r z = Some (avahi_server_set_errno err z, None)"
    with Add_record zone_flags_ok(4) [OF assms(2)] show ?thesis by simp
  next
    fix z' e y
    assume "server_add_internal v og i p f r z = Some (z', Some e)" "grown z z'"
    with Add_record grownD(1) show ?thesis by auto
  qed
qed

lemma zone_reachable_ok: "callback_ok cb \<Longrightarrow> zone_reachable cb z \<Longrightarrow> zone_ok z"
proof (rotate_tac, induction rule: zone_reachable.induct)
  case (start ifs hw js)
  from start(1) show ?case by (rule new_zone_ok)
next
  case (step z a v z')
  with zone_exec_ok [of cb z a v] show ?case by simp
qed

text \<open>A list of operations, in which those that are not allowed are left out.\<close>

fun zone_run :: "'o group_callback \<Rightarrow> (env \<times> zone_op) list \<Rightarrow> 'o zone \<Rightarrow> 'o zone outcome" where
  "zone_run cb [] z = Some z"
| "zone_run cb ((v, a) # as) z = (if zone_allowed z a then do { z \<leftarrow> zone_exec cb v a z; zone_run cb as z } else zone_run cb as z)"

lemma zone_run_ok:
  "callback_ok cb \<Longrightarrow> zone_reachable cb z \<Longrightarrow> \<exists>z'. zone_run cb as z = Some z' \<and> zone_reachable cb z'"
proof (induction as arbitrary: z)
  case (Cons x as)
  obtain v a where x: "x = (v, a)" by (cases x)
  show ?case
  proof (cases "zone_allowed z a")
    case True
    from zone_exec_ok [OF Cons.prems(1) zone_reachable_ok [OF Cons.prems] True] obtain z1 where z1: "zone_exec cb v a z = Some z1" by blast
    from Cons.IH [OF Cons.prems(1) zone_reachable.step [OF Cons.prems(2) True z1]] x True z1 show ?thesis by simp
  next
    case False
    with Cons x show ?thesis by simp
  qed
qed simp

lemma zone_run_reachable:
  "callback_ok cb \<Longrightarrow> zone_reachable cb z \<Longrightarrow> zone_run cb as z = Some z' \<Longrightarrow> zone_reachable cb z'"
  using zone_run_ok [of cb z as] by fastforce

lemma zone_run_append: "zone_run cb (as @ bs) z = do { z \<leftarrow> zone_run cb as z; zone_run cb bs z }"
  by (induction as arbitrary: z) (auto simp: Option.bind_assoc intro!: Option.bind_cong)

text \<open>
  C7: the zone is consistent in every reachable state, whatever the clients do when a group changes. An
  announcer has a timer exactly while it probes or announces, and every timer of an announcer belongs to
  one that exists; an announcer belongs to a live entry of a registering or established group, on an
  interface that knows it, and no entry has two on one interface; every entry is found under its key and
  in its group; the counter of a group is no less than the number of its announcers that probe, so it
  does not wrap around below zero; and every further operation returns.
\<close>

theorem zone_always_consistent:
  assumes "callback_ok cb" "zone_reachable cb z"
  shows "(\<forall>a x. z_announcer z a = Some x \<longrightarrow> (a_time_event x \<noteq> None \<longleftrightarrow> a_state x = AVAHI_PROBING \<or> a_state x = AVAHI_ANNOUNCING) \<and>
       armed_as (z_time_event_queue z) (Elapse_announce a) (a_time_event x) \<and>
       (\<exists>y. z_entry z (a_entry x) = Some y \<and> \<not> e_dead y \<and> a \<in> set (e_announcers y) \<and> committed z (e_group y)) \<and>
       (\<exists>i. z_iface z (a_interface x) = Some i \<and> a \<in> set (i_announcers i))) \<and>
    (\<forall>a. armed (z_time_event_queue z) (Elapse_announce a) \<noteq> {} \<longrightarrow> z_announcer z a \<noteq> None) \<and>
    (\<forall>a b x w. z_announcer z a = Some x \<and> z_announcer z b = Some w \<and> a_entry x = a_entry w \<and> a_interface x = a_interface w \<longrightarrow> a = b) \<and>
    (\<forall>e y. z_entry z e = Some y \<longrightarrow>
       (\<exists>es. entries_with_key z (rr_key (e_record y)) = Some es \<and> e \<in> set es) \<and>
       (\<forall>g. e_group y = Some g \<longrightarrow> (\<exists>w. z_group z g = Some w \<and> e \<in> set (g_entries w)))) \<and>
    (\<forall>g w. z_group z g = Some w \<longrightarrow> int (card (probing z g)) \<le> g_n_probing w \<and>
       (g_register_time_event w \<noteq> None \<longrightarrow> g_state w = AVAHI_ENTRY_GROUP_REGISTERING)) \<and>
    (zone_allowed z op \<longrightarrow> zone_exec cb v op z \<noteq> crash)"
proof -
  have ok: "zone_ok z" by (rule zone_reachable_ok [OF assms])
  note zd = zone_okD [OF ok]
  note ed = entries_okD [OF zd(1)] and gd = groups_okD [OF zd(2)] and d = links_okD [OF zd(4)] and td = zone_timers_okD [OF zd(5)]
  have 1: "(a_time_event x \<noteq> None \<longleftrightarrow> a_state x = AVAHI_PROBING \<or> a_state x = AVAHI_ANNOUNCING) \<and>
       armed_as (z_time_event_queue z) (Elapse_announce a) (a_time_event x) \<and>
       (\<exists>y. z_entry z (a_entry x) = Some y \<and> \<not> e_dead y \<and> a \<in> set (e_announcers y) \<and> committed z (e_group y)) \<and>
       (\<exists>i. z_iface z (a_interface x) = Some i \<and> a \<in> set (i_announcers i))" if "z_announcer z a = Some x" for a x
    using td(3,4) [OF that] d(2,3) [OF that] unfolding wants_timer_def by blast
  have 2: "z_announcer z a \<noteq> None" if "armed (z_time_event_queue z) (Elapse_announce a) \<noteq> {}" for a
    using td(2) that by blast
  have 3: "a = b" if p: "z_announcer z a = Some x" "z_announcer z b = Some w" "a_entry x = a_entry w" "a_interface x = a_interface w" for a b x w
  proof -
    from d(2) [OF p(1)] obtain y where y: "z_entry z (a_entry x) = Some y" "a \<in> set (e_announcers y)" by blast
    from d(2) [OF p(2)] y p(3) have "b \<in> set (e_announcers y)" by auto
    from d(6) [OF y this p(1,2,4)] show ?thesis .
  qed
  have 4: "\<exists>es. entries_with_key z (rr_key (e_record y)) = Some es \<and> e \<in> set es" if y: "z_entry z e = Some y" for e y
    using entries_with_key_eq [OF zd(3) key_readable_of [OF zd(1) y]] ed(2) [of e] y by (simp add: canon_of_def)
  have 5: "\<exists>w. z_group z g = Some w \<and> e \<in> set (g_entries w)" if y: "z_entry z e = Some y" "e_group y = Some g" for e y g
  proof -
    from ed(7) [OF y] obtain w where w: "z_group z g = Some w" ..
    with gd(4) [OF w] ed(2) [of e] y show ?thesis by (simp add: group_of_def)
  qed
  have 6: "int (card (probing z g)) \<le> g_n_probing w \<and> (g_register_time_event w \<noteq> None \<longrightarrow> g_state w = AVAHI_ENTRY_GROUP_REGISTERING)"
    if "z_group z g = Some w" for g w
    using zd(6) td(7) [OF that] that by (simp add: counts_ok_def group_timer_ok_def)
  have 7: "zone_exec cb v op z \<noteq> crash" if "zone_allowed z op"
    using zone_exec_ok [OF assms(1) ok that, of v] by auto
  show ?thesis using 1 2 3 4 5 6 7 by blast
qed

subsection \<open>The recursion of the code\<close>

text \<open>
  \<open>next_state\<close> and \<open>avahi_s_entry_group_check_probed\<close> as the code has them, each with its recursive call to
  \<open>next_state\<close> as the argument \<open>rec\<close>.
\<close>

definition announce_waiting_src :: "(nat \<Rightarrow> 'o zone \<Rightarrow> 'o zone outcome) \<Rightarrow> env \<Rightarrow> bool \<Rightarrow> nat \<Rightarrow> 'o zone \<Rightarrow> 'o zone outcome" where
  "announce_waiting_src rec v immediately a z = do {
     x \<leftarrow> z_announcer z a;
     if a_state x \<noteq> AVAHI_WAITING then Some z
     else do {
       z \<leftarrow> mod_announcer a (\<lambda>x. x\<lparr>a_state := AVAHI_ANNOUNCING\<rparr>) z;
       if immediately then do {
         z \<leftarrow> mod_announcer a (\<lambda>x. x\<lparr>a_n_iteration := 1\<rparr>) z;
         rec a z
       } else do {
         z \<leftarrow> mod_announcer a (\<lambda>x. x\<lparr>a_n_iteration := 0\<rparr>) z;
         set_timeout_elapse v a 0 AVAHI_ANNOUNCEMENT_JITTER_MSEC z
       }
     }
   }"

definition check_probed_src ::
  "(nat \<Rightarrow> 'o zone \<Rightarrow> 'o zone outcome) \<Rightarrow> 'o group_callback \<Rightarrow> env \<Rightarrow> bool \<Rightarrow> nat \<Rightarrow> 'o zone \<Rightarrow> 'o zone outcome" where
  "check_probed_src rec cb v immediately g z = do {
     x \<leftarrow> z_group z g;
     assert_that (\<not> g_dead x);
     if g_state x \<noteq> AVAHI_ENTRY_GROUP_REGISTERING \<or> g_n_probing x > 0 then Some z
     else do {
       z \<leftarrow> avahi_s_entry_group_change_state cb v g AVAHI_ENTRY_GROUP_ESTABLISHED z;
       x \<leftarrow> z_group z g;
       if g_dead x then Some z
       else for_each (\<lambda>e z. do {
           y \<leftarrow> z_entry z e;
           for_each (announce_waiting_src rec v immediately) (e_announcers y) z
         }) (g_entries x) z
     }
   }"

definition next_state_src ::
  "(nat \<Rightarrow> 'o zone \<Rightarrow> 'o zone outcome) \<Rightarrow> 'o group_callback \<Rightarrow> env \<Rightarrow> nat \<Rightarrow> 'o zone \<Rightarrow> 'o zone outcome" where
  "next_state_src rec cb v a z = do {
     x \<leftarrow> z_announcer z a;
     y \<leftarrow> z_entry z (a_entry x);
     if a_state x = AVAHI_WAITING then do { g \<leftarrow> e_group y; check_probed_src rec cb v True g z }
     else if a_state x = AVAHI_PROBING then
       if a_n_iteration x \<ge> 4 then do {
         z \<leftarrow> (case e_group y of
             None \<Rightarrow> Some z
           | Some g \<Rightarrow> do {
               w \<leftarrow> z_group z g;
               assert_that (g_n_probing w \<noteq> 0);
               mod_group g (\<lambda>w. w\<lparr>g_n_probing := g_n_probing w - 1\<rparr>) z
             });
         registering \<leftarrow> (case e_group y of
             None \<Rightarrow> Some False
           | Some g \<Rightarrow> do { w \<leftarrow> z_group z g; Some (g_state w = AVAHI_ENTRY_GROUP_REGISTERING) });
         z \<leftarrow> (if registering then mod_announcer a (\<lambda>x. x\<lparr>a_state := AVAHI_WAITING\<rparr>) z
               else mod_announcer a (\<lambda>x. x\<lparr>a_state := AVAHI_ANNOUNCING, a_n_iteration := 1\<rparr>) z);
         z \<leftarrow> set_timeout a None z;
         rec a z
       } else do {
         z \<leftarrow> avahi_interface_post_probe (a_interface x) (e_record y) False z;
         z \<leftarrow> set_timeout_elapse v a AVAHI_PROBE_INTERVAL_MSEC 0 z;
         mod_announcer a (\<lambda>x. x\<lparr>a_n_iteration := a_n_iteration x + 1\<rparr>) z
       }
     else if a_state x = AVAHI_ANNOUNCING then announce_step v a z
     else Some z
   }"

lemma next_state_announcing:
  assumes "z_announcer z a = Some x" "a_state x = AVAHI_ANNOUNCING"
  shows "next_state cb v a z = announce_step v a z"
  using assms by (cases "z_entry z (a_entry x)") (simp_all add: next_state_def announce_step_def)

lemma next_state_waiting:
  assumes "z_announcer z a = Some x" "a_state x = AVAHI_WAITING" "z_entry z (a_entry x) = Some y" "e_group y = Some g"
  shows "next_state cb v a z = avahi_s_entry_group_check_probed cb v True g z"
  using assms by (simp add: next_state_def)

lemma set_timeout_view:
  assumes "set_timeout a tv z = Some z'"
  obtains x t where "z_announcer z a = Some x" "z_announcer z' a = Some (x\<lparr>a_time_event := t\<rparr>)" "z_entry z' = z_entry z"
  using assms unfolding set_timeout_def mod_announcer_def by (auto simp: Option.bind_eq_Some_conv)

lemma announce_waiting_eq: "announce_waiting_src (next_state cb v) v im = announce_waiting v im"
proof (intro ext)
  fix a z
  show "announce_waiting_src (next_state cb v) v im a z = announce_waiting v im a z"
  proof (cases "z_announcer z a")
    case (Some x)
    let ?z = "z\<lparr>z_announcer := (z_announcer z)(a \<mapsto> x\<lparr>a_state := AVAHI_ANNOUNCING, a_n_iteration := 1\<rparr>)\<rparr>"
    have "z_announcer ?z a = Some (x\<lparr>a_state := AVAHI_ANNOUNCING, a_n_iteration := 1\<rparr>)" by simp
    then have n: "next_state cb v a ?z = announce_step v a ?z" by (rule next_state_announcing) simp
    show ?thesis using Some n by (simp add: announce_waiting_src_def announce_waiting_def mod_announcer_def)
  qed (simp add: announce_waiting_src_def announce_waiting_def)
qed

lemma check_probed_eq: "avahi_s_entry_group_check_probed cb v im g z = check_probed_src (next_state cb v) cb v im g z"
  unfolding avahi_s_entry_group_check_probed_def check_probed_src_def announce_waiting_eq ..

lemma probing_done_eq:
  assumes x: "z_announcer z a = Some x" and y: "z_entry z (a_entry x) = Some y"
  shows "probing_done cb v a z = do {
         z \<leftarrow> (case e_group y of
             None \<Rightarrow> Some z
           | Some g \<Rightarrow> do {
               w \<leftarrow> z_group z g;
               assert_that (g_n_probing w \<noteq> 0);
               mod_group g (\<lambda>w. w\<lparr>g_n_probing := g_n_probing w - 1\<rparr>) z
             });
         registering \<leftarrow> (case e_group y of
             None \<Rightarrow> Some False
           | Some g \<Rightarrow> do { w \<leftarrow> z_group z g; Some (g_state w = AVAHI_ENTRY_GROUP_REGISTERING) });
         z \<leftarrow> (if registering then mod_announcer a (\<lambda>x. x\<lparr>a_state := AVAHI_WAITING\<rparr>) z
               else mod_announcer a (\<lambda>x. x\<lparr>a_state := AVAHI_ANNOUNCING, a_n_iteration := 1\<rparr>) z);
         z \<leftarrow> set_timeout a None z;
         next_state cb v a z
       }"
proof -
  have W: "(do { z \<leftarrow> set_timeout a None s; next_state cb v a z }) =
      (do { z \<leftarrow> set_timeout a None s; avahi_s_entry_group_check_probed cb v True g z })"
    if s: "z_announcer s a = Some (x\<lparr>a_state := AVAHI_WAITING\<rparr>)" "z_entry s = z_entry z" "e_group y = Some g" for s g
  proof (cases "set_timeout a None s")
    case (Some z2)
    from Some obtain x2 t where z2: "z_announcer s a = Some x2" "z_announcer z2 a = Some (x2\<lparr>a_time_event := t\<rparr>)" "z_entry z2 = z_entry s"
      by (rule set_timeout_view)
    with s y have "next_state cb v a z2 = avahi_s_entry_group_check_probed cb v True g z2"
      by (intro next_state_waiting [where x = "x2\<lparr>a_time_event := t\<rparr>" and y = y]) auto
    with Some show ?thesis by simp
  qed simp
  have A: "(do { z \<leftarrow> set_timeout a None s; next_state cb v a z }) = (do { z \<leftarrow> set_timeout a None s; announce_step v a z })"
    if s: "z_announcer s a = Some (x\<lparr>a_state := AVAHI_ANNOUNCING, a_n_iteration := 1\<rparr>)" for s
  proof (cases "set_timeout a None s")
    case (Some z2)
    from Some obtain x2 t where z2: "z_announcer s a = Some x2" "z_announcer z2 a = Some (x2\<lparr>a_time_event := t\<rparr>)"
      by (rule set_timeout_view)
    with s have "next_state cb v a z2 = announce_step v a z2" by (intro next_state_announcing) auto
    with Some show ?thesis by simp
  qed simp
  show ?thesis
  proof (cases "e_group y")
    case None
    with x y A show ?thesis by (simp add: probing_done_def add_probing_def mod_announcer_def)
  next
    case (Some g)
    show ?thesis
    proof (cases "z_group z g")
      case N: None
      with x y Some show ?thesis by (simp add: probing_done_def)
    next
      case S: (Some w)
      show ?thesis
      proof (cases "g_n_probing w \<noteq> 0")
        case False
        with x y Some S show ?thesis by (simp add: probing_done_def)
      next
        case True
        show ?thesis
        proof (cases "g_state w = AVAHI_ENTRY_GROUP_REGISTERING")
          case True
          with x y Some S \<open>g_n_probing w \<noteq> 0\<close> W show ?thesis by (simp add: probing_done_def add_probing_def mod_group_def mod_announcer_def)
        next
          case False
          with x y Some S \<open>g_n_probing w \<noteq> 0\<close> A show ?thesis by (simp add: probing_done_def add_probing_def mod_group_def mod_announcer_def)
        qed
      qed
    qed
  qed
qed

lemma next_state_src_probed:
  assumes "z_announcer z a = Some x" "z_entry z (a_entry x) = Some y" "a_state x = AVAHI_PROBING" "a_n_iteration x \<ge> 4"
  shows "next_state_src rec cb v a z = do {
         z \<leftarrow> (case e_group y of
             None \<Rightarrow> Some z
           | Some g \<Rightarrow> do {
               w \<leftarrow> z_group z g;
               assert_that (g_n_probing w \<noteq> 0);
               mod_group g (\<lambda>w. w\<lparr>g_n_probing := g_n_probing w - 1\<rparr>) z
             });
         registering \<leftarrow> (case e_group y of
             None \<Rightarrow> Some False
           | Some g \<Rightarrow> do { w \<leftarrow> z_group z g; Some (g_state w = AVAHI_ENTRY_GROUP_REGISTERING) });
         z \<leftarrow> (if registering then mod_announcer a (\<lambda>x. x\<lparr>a_state := AVAHI_WAITING\<rparr>) z
               else mod_announcer a (\<lambda>x. x\<lparr>a_state := AVAHI_ANNOUNCING, a_n_iteration := 1\<rparr>) z);
         z \<leftarrow> set_timeout a None z;
         rec a z
       }"
  using assms by (simp add: next_state_src_def)

text \<open>
  The definitions of the model satisfy the recursive equations of the code. In the code \<open>next_state\<close> calls
  itself when a probe succeeded and calls \<open>avahi_s_entry_group_check_probed\<close>, which calls \<open>next_state\<close> for every
  announcer that waited; the model has no recursion, and computes the same.
\<close>

lemma next_state_recursion:
  "next_state cb v a z = next_state_src (next_state cb v) cb v a z \<and>
   avahi_s_entry_group_check_probed cb v im g z = check_probed_src (next_state cb v) cb v im g z"
proof -
  have c: "avahi_s_entry_group_check_probed cb v i h z = check_probed_src (next_state cb v) cb v i h z" for i h
    by (rule check_probed_eq)
  moreover have "next_state cb v a z = next_state_src (next_state cb v) cb v a z"
  proof (cases "z_announcer z a")
    case None
    then show ?thesis by (simp add: next_state_def next_state_src_def)
  next
    case (Some x)
    show ?thesis
    proof (cases "z_entry z (a_entry x)")
      case None
      with Some show ?thesis by (simp add: next_state_def next_state_src_def)
    next
      case S: (Some y)
      show ?thesis
      proof (cases "a_state x")
        case AVAHI_PROBING
        show ?thesis
        proof (cases "a_n_iteration x \<ge> 4")
          case True
          with Some S AVAHI_PROBING have "next_state cb v a z = probing_done cb v a z" by (simp add: next_state_def)
          then show ?thesis unfolding next_state_src_probed [OF Some S AVAHI_PROBING True] probing_done_eq [OF Some S] .
        next
          case False
          with Some S AVAHI_PROBING show ?thesis by (simp add: next_state_def next_state_src_def probe_step_def)
        qed
      next
        case AVAHI_WAITING
        with Some S c show ?thesis by (cases "e_group y") (simp_all add: next_state_def next_state_src_def)
      next
        case AVAHI_ANNOUNCING
        with Some S show ?thesis by (simp add: next_state_def next_state_src_def)
      next
        case AVAHI_ESTABLISHED
        with Some S show ?thesis by (simp add: next_state_def next_state_src_def)
      qed
    qed
  qed
  ultimately show ?thesis by blast
qed

end
