(* ===== verification/Zonelife.thy ===== *)
theory Zonelife
  imports Zonerun
begin

text \<open>
  The lives of announcers and groups, with clients that do not interfere: an announcer probes three times and
  comes to rest after a few timers, a group that has been probed releases the announcers that wait for it, and
  a commit is held off. Further, what adding a record does and does not do to a zone.
\<close>

subsection \<open>Releasing the announcers of a group\<close>

text \<open>The announcers in \<open>A\<close> that waited announce now; the others are as they were.\<close>

definition released :: "bool \<Rightarrow> nat set \<Rightarrow> 'o zone \<Rightarrow> 'o zone \<Rightarrow> bool" where
  "released im A z z' \<longleftrightarrow> stepped z z' \<and> z_group z' = z_group z \<and>
     (\<forall>b x. z_announcer z b = Some x \<longrightarrow> (\<exists>x'. z_announcer z' b = Some x' \<and>
        (if b \<in> A \<and> a_state x = AVAHI_WAITING then a_state x' = AVAHI_ANNOUNCING \<and> a_n_iteration x' = (if im then 2 else 0) else x' = x)))"

lemma released_empty: "zone_ok z \<Longrightarrow> released im {} z z"
  by (simp add: released_def stepped_refl)

lemma released_one:
  assumes "released im A z s" "z_announcer s a \<noteq> None"
  shows "\<exists>s'. announce_waiting v im a s = Some s' \<and> released im (A \<union> {a}) z s'"
proof -
  from assms(1) have st: "stepped z s" by (simp add: released_def)
  from assms(2) obtain x where x: "z_announcer s a = Some x" by blast
  from announce_waiting_ok [OF steppedD(1) [OF st] x, of v im] obtain s' x' where
    s': "announce_waiting v im a s = Some s'" "stepped s s'" "z_announcer s' = (z_announcer s)(a \<mapsto> x')"
      "z_group s' = z_group s"
      "if a_state x = AVAHI_WAITING then a_state x' = AVAHI_ANNOUNCING \<and> a_n_iteration x' = (if im then 2 else 0) else x' = x" by blast
  have "\<exists>u'. z_announcer s' b = Some u' \<and>
      (if b \<in> A \<union> {a} \<and> a_state u = AVAHI_WAITING then a_state u' = AVAHI_ANNOUNCING \<and> a_n_iteration u' = (if im then 2 else 0) else u' = u)"
    if b: "z_announcer z b = Some u" for b u
  proof -
    from assms(1) b obtain w where w: "z_announcer s b = Some w"
      "if b \<in> A \<and> a_state u = AVAHI_WAITING then a_state w = AVAHI_ANNOUNCING \<and> a_n_iteration w = (if im then 2 else 0) else w = u"
      unfolding released_def by blast
    show ?thesis
    proof (cases "b = a")
      case True
      with w(1) x have "w = x" by simp
      with True w(2) s'(3,5) show ?thesis by (auto split: if_splits)
    next
      case False
      with w s'(3) show ?thesis by auto
    qed
  qed
  moreover have "z_group s' = z_group z" using s'(4) assms(1) by (simp add: released_def)
  ultimately show ?thesis using s'(1) stepped_trans [OF st s'(2)] unfolding released_def by blast
qed

lemma released_alive: "released im A z s \<Longrightarrow> z_announcer z a \<noteq> None \<Longrightarrow> z_announcer s a \<noteq> None"
  unfolding released_def by fastforce

definition announcers_of :: "'o zone \<Rightarrow> nat \<Rightarrow> nat set" where
  "announcers_of z e = (case z_entry z e of None \<Rightarrow> {} | Some y \<Rightarrow> set (e_announcers y))"

lemma released_all:
  assumes "zone_ok z" "released im A z s" "z_entry z e \<noteq> None"
  shows "\<exists>s'. (do { y \<leftarrow> z_entry s e; for_each (announce_waiting v im) (e_announcers y) s }) = Some s' \<and>
    released im (A \<union> announcers_of z e) z s'"
proof -
  from assms(3) obtain y where y: "z_entry z e = Some y" by blast
  from assms(2) have "z_entry s = z_entry z" using steppedD(3) by (auto simp: released_def)
  with y have ys: "z_entry s e = Some y" by simp
  have "\<exists>s'. for_each (announce_waiting v im) (e_announcers y) s = Some s' \<and>
      released im (A \<union> (\<Union>a \<in> set (e_announcers y). {a})) z s'"
  proof (rule for_each_collect [where I = "\<lambda>A. released im A z" and F = "\<lambda>a. {a}"])
    fix a t B
    assume a: "a \<in> set (e_announcers y)" and t: "released im B z t"
    from links_okD(5) [OF zone_okD(4) [OF assms(1)] y a] have "z_announcer z a \<noteq> None" by blast
    from released_one [OF t released_alive [OF t this], of v]
    show "\<exists>t'. announce_waiting v im a t = Some t' \<and> released im (B \<union> {a}) z t'" .
  qed (rule assms(2))
  with y ys show ?thesis by (simp add: announcers_of_def)
qed

lemma released_group:
  assumes "zone_ok z" "\<forall>e \<in> set es. z_entry z e \<noteq> None"
  shows "\<exists>s'. for_each (\<lambda>e z. do { y \<leftarrow> z_entry z e; for_each (announce_waiting v im) (e_announcers y) z }) es z = Some s' \<and>
    released im (\<Union>e \<in> set es. announcers_of z e) z s'"
proof -
  have "\<exists>s'. for_each (\<lambda>e z. do { y \<leftarrow> z_entry z e; for_each (announce_waiting v im) (e_announcers y) z }) es z = Some s' \<and>
    released im ({} \<union> (\<Union>e \<in> set es. announcers_of z e)) z s'"
  proof (rule for_each_collect [where I = "\<lambda>A. released im A z"])
    fix e s A
    assume "e \<in> set es" "released im A z s"
    with assms(2) show "\<exists>s'. (do { y \<leftarrow> z_entry s e; for_each (announce_waiting v im) (e_announcers y) s }) = Some s' \<and>
        released im (A \<union> announcers_of z e) z s'" by (intro released_all [OF assms(1)]) auto
  qed (rule released_empty [OF assms(1)])
  then show ?thesis by simp
qed

lemma announcers_of_group:
  assumes "zone_ok z" "z_group z g = Some w" "z_announcer z a = Some x"
  shows "a \<in> (\<Union>e \<in> set (g_entries w). announcers_of z e) \<longleftrightarrow> group_of z (a_entry x) = Some g"
proof
  note zd = zone_okD [OF assms(1)]
  note ge = groups_okD(4) [OF zd(2) assms(2)]
  assume "a \<in> (\<Union>e \<in> set (g_entries w). announcers_of z e)"
  then obtain e y where e: "e \<in> set (g_entries w)" "z_entry z e = Some y" "a \<in> set (e_announcers y)"
    by (auto simp: announcers_of_def split: option.splits)
  from links_okD(5) [OF zd(4) e(2,3)] assms(3) have "a_entry x = e" by auto
  with e(1) ge show "group_of z (a_entry x) = Some g" by simp
next
  note zd = zone_okD [OF assms(1)]
  note ge = groups_okD(4) [OF zd(2) assms(2)]
  assume g: "group_of z (a_entry x) = Some g"
  from links_okD(2) [OF zd(4) assms(3)] obtain y where y: "z_entry z (a_entry x) = Some y" "a \<in> set (e_announcers y)" by blast
  from entries_okD(2) [OF zd(1), of "a_entry x"] y(1) g ge have "a_entry x \<in> set (g_entries w)" by simp
  moreover from y have "a \<in> announcers_of z (a_entry x)" by (simp add: announcers_of_def)
  ultimately show "a \<in> (\<Union>e \<in> set (g_entries w). announcers_of z e)" by blast
qed

text \<open>The client that does nothing.\<close>

definition silent :: "'o group_callback" where "silent = (\<lambda>_ _ z. Some z)"

lemma callback_ok_silent': "callback_ok silent"
  unfolding silent_def by (rule callback_ok_silent)

lemma check_probed_silent:
  assumes "zone_ok z" "z_group z g = Some w" "\<not> g_dead w" "g_state w = AVAHI_ENTRY_GROUP_REGISTERING" "g_n_probing w \<le> 0"
  shows "\<exists>z' w'. avahi_s_entry_group_check_probed silent v im g z = Some z' \<and> zone_ok z' \<and> z_group z' g = Some w' \<and>
    g_state w' = AVAHI_ENTRY_GROUP_ESTABLISHED \<and> g_established_at w' = env_now v \<and> g_n_probing w' = g_n_probing w \<and>
    g_register_time w' = g_register_time w \<and> \<not> g_dead w' \<and> z_entry z' = z_entry z \<and>
    (\<forall>a. z_announcer z a = None \<longrightarrow> z_announcer z' a = None) \<and>
    (\<forall>a x. z_announcer z a = Some x \<longrightarrow> (\<exists>x'. z_announcer z' a = Some x' \<and>
       (if a_state x = AVAHI_WAITING \<and> group_of z (a_entry x) = Some g
        then a_state x' = AVAHI_ANNOUNCING \<and> a_n_iteration x' = (if im then 2 else 0) else x' = x)))"
proof -
  note zd = zone_okD [OF assms(1)]
  note td = zone_timers_okD [OF zd(5)]
  from td(7) [OF assms(2)] have gt: "armed_as (z_time_event_queue z) (Register_time g) (g_register_time_event w)" unfolding group_timer_ok_def by blast
  obtain z1 w1 where z1: "\<And>cb. avahi_s_entry_group_change_state cb v g AVAHI_ENTRY_GROUP_ESTABLISHED z = cb g AVAHI_ENTRY_GROUP_ESTABLISHED z1"
    "ann_frame z z1" "z_announcer z1 = z_announcer z" "z_group z1 = (z_group z)(g \<mapsto> w1)"
    "g_state w1 = AVAHI_ENTRY_GROUP_ESTABLISHED" "g_entries w1 = g_entries w" "g_dead w1 = g_dead w"
    "g_n_probing w1 = g_n_probing w" "g_established_at w1 = env_now v" "g_register_time w1 = g_register_time w"
    by (rule change_state_result [OF assms(2) _ _ td(1) gt, of AVAHI_ENTRY_GROUP_ESTABLISHED v]) (simp_all add: assms(4))
  from change_state_ok [OF callback_ok_silent' assms(1,2), of AVAHI_ENTRY_GROUP_ESTABLISHED v] z1(1) [of silent]
  have ok: "zone_ok z1" by (auto simp: silent_def)
  from z1(4) have w1: "z_group z1 g = Some w1" by simp
  from released_group [OF ok group_entries_exist [OF ok w1], of v im] obtain z2 where
    z2: "for_each (\<lambda>e z. do { y \<leftarrow> z_entry z e; for_each (announce_waiting v im) (e_announcers y) z }) (g_entries w1) z1 = Some z2"
      "released im (\<Union>e \<in> set (g_entries w1). announcers_of z1 e) z1 z2" by blast
  from z2(2) have st: "stepped z1 z2" by (simp add: released_def)
  have eq: "avahi_s_entry_group_check_probed silent v im g z = Some z2"
    using assms z1(1) [of silent] w1 z1(7) z2(1) by (simp add: avahi_s_entry_group_check_probed_def silent_def cong: if_cong)
  from z2(2) w1 have w2: "z_group z2 g = Some w1" by (simp add: released_def)
  have none: "z_announcer z2 a = None" if "z_announcer z a = None" for a
    using steppedD(9) [OF st, of a] that z1(3) by (cases "z_announcer z2 a") auto
  have "\<exists>x'. z_announcer z2 a = Some x' \<and> (if a_state x = AVAHI_WAITING \<and> group_of z (a_entry x) = Some g
        then a_state x' = AVAHI_ANNOUNCING \<and> a_n_iteration x' = (if im then 2 else 0) else x' = x)"
    if a: "z_announcer z a = Some x" for a x
  proof -
    from a z1(3) have a1: "z_announcer z1 a = Some x" by simp
    from z2(2) a1 obtain x' where x': "z_announcer z2 a = Some x'"
      "if a \<in> (\<Union>e \<in> set (g_entries w1). announcers_of z1 e) \<and> a_state x = AVAHI_WAITING
       then a_state x' = AVAHI_ANNOUNCING \<and> a_n_iteration x' = (if im then 2 else 0) else x' = x" unfolding released_def by blast
    have "a \<in> (\<Union>e \<in> set (g_entries w1). announcers_of z1 e) \<longleftrightarrow> group_of z (a_entry x) = Some g"
      using announcers_of_group [OF ok w1 a1] group_of_cong [OF ann_frameD(1) [OF z1(2)]] by simp
    with x' show ?thesis by (auto split: if_splits)
  qed
  moreover have "z_entry z2 = z_entry z" using steppedD(3) [OF st] ann_frameD(1) [OF z1(2)] by simp
  ultimately show ?thesis using eq steppedD(1) [OF st] w2 z1(5,7-10) assms(3) none by auto
qed


text \<open>
  C18: what the last timer of a probing announcer does, from the state in which it fires to the state it leaves,
  with clients that do not interfere. The group counts one probe less. When the group was registering and this
  was its last probe, the group is established now, and exactly the announcers that waited for it and the one
  that probed are released: each of them announces, has made its first announcement and has a timer for the
  next; no other announcer changes. When other probes of the group are open, the announcer waits for them without
  a timer and nothing else changes; and when the group was not registering, it announces at once.
\<close>

theorem last_probe_releases_group:
  assumes "zone_reachable silent z" "z_announcer z a = Some x" "a_state x = AVAHI_PROBING" "a_n_iteration x \<ge> 4"
    "z_entry z (a_entry x) = Some y" "e_group y = Some g" "z_group z g = Some w"
  shows "\<exists>z' w'. zone_exec silent v (Fire a) z = Some z' \<and> z_group z' g = Some w' \<and> g_n_probing w' = g_n_probing w - 1 \<and>
    (\<forall>b. z_announcer z b = None \<longrightarrow> z_announcer z' b = None) \<and>
    (if g_state w = AVAHI_ENTRY_GROUP_REGISTERING \<and> g_n_probing w \<le> 1 then
       g_state w' = AVAHI_ENTRY_GROUP_ESTABLISHED \<and> g_established_at w' = env_now v \<and>
       (\<forall>b u. z_announcer z b = Some u \<longrightarrow> (\<exists>u'. z_announcer z' b = Some u' \<and>
          (if group_of z (a_entry u) = Some g \<and> (b = a \<or> a_state u = AVAHI_WAITING)
           then a_state u' = AVAHI_ANNOUNCING \<and> a_n_iteration u' = 2 \<and> a_time_event u' \<noteq> None else u' = u)))
     else
       g_state w' = g_state w \<and>
       (\<forall>b u. z_announcer z b = Some u \<longrightarrow> (\<exists>u'. z_announcer z' b = Some u' \<and>
          (if b \<noteq> a then u' = u
           else if g_state w = AVAHI_ENTRY_GROUP_REGISTERING then u' = u\<lparr>a_state := AVAHI_WAITING, a_time_event := None\<rparr>
           else a_state u' = AVAHI_ANNOUNCING \<and> a_n_iteration u' = 2 \<and> a_time_event u' \<noteq> None))))"
proof -
  note ok = zone_reachable_ok [OF callback_ok_silent' assms(1)]
  have gr: "group_of z (a_entry x) = Some g" using assms(5,6) by (simp add: group_of_def)
  have timer: "a_time_event u \<noteq> None" if "zone_ok s" "z_announcer s b = Some u" "a_state u = AVAHI_ANNOUNCING" for s b u
    using zone_timers_okD(4) [OF zone_okD(5) [OF that(1)] that(2)] that(3) by (simp add: wants_timer_def)
  have e: "zone_exec silent v (Fire a) z = probing_done silent v a z"
    using assms(2-5) by (simp add: elapse_announce_def next_state_def)
  have shift: "shift_probing (Some g) (- 1) (z_group z) g = Some (w\<lparr>g_n_probing := g_n_probing w - 1\<rparr>)"
    using assms(7) by (simp add: shift_probing_def)
  from ok assms(2,3) show ?thesis
  proof (cases rule: probing_done_cases [where v = v])
    case (waits z1 h w1 x1)
    from waits(10) gr have h: "h = g" by simp
    with waits(4,11) shift have w1: "w1 = w\<lparr>g_n_probing := g_n_probing w - 1\<rparr>" by simp
    with waits(12) have reg: "g_state w = AVAHI_ENTRY_GROUP_REGISTERING" by simp
    have groups: "group_of z1 = group_of z" by (rule group_of_cong [OF steppedD(3) [OF waits(3)]])
    show ?thesis
    proof (cases "g_n_probing w \<le> 1")
      case True
      then have "g_n_probing w1 \<le> 0" using w1 by simp
      from check_probed_silent [OF waits(2,4,5,12) this, of v True] obtain z2 w2 where
        z2: "avahi_s_entry_group_check_probed silent v True h z1 = Some z2" "zone_ok z2" "z_group z2 h = Some w2"
          "g_state w2 = AVAHI_ENTRY_GROUP_ESTABLISHED" "g_established_at w2 = env_now v" "g_n_probing w2 = g_n_probing w1" and
        none: "\<And>b. z_announcer z1 b = None \<Longrightarrow> z_announcer z2 b = None" and
        rel: "\<And>b u. z_announcer z1 b = Some u \<Longrightarrow> \<exists>u'. z_announcer z2 b = Some u' \<and>
          (if a_state u = AVAHI_WAITING \<and> group_of z1 (a_entry u) = Some h
           then a_state u' = AVAHI_ANNOUNCING \<and> a_n_iteration u' = (if True then 2 else 0) else u' = u)" by blast
      have "\<exists>u'. z_announcer z2 b = Some u' \<and>
          (if group_of z (a_entry u) = Some g \<and> (b = a \<or> a_state u = AVAHI_WAITING)
           then a_state u' = AVAHI_ANNOUNCING \<and> a_n_iteration u' = 2 \<and> a_time_event u' \<noteq> None else u' = u)"
        if b: "z_announcer z b = Some u" for b u
      proof (cases "b = a")
        case True
        with rel [of a] waits(9) gr h groups timer [OF z2(2), of a] b assms(2) show ?thesis by auto
      next
        case False
        with b waits(9) have "z_announcer z1 b = Some u" by simp
        with rel [OF this] False h groups timer [OF z2(2), of b] show ?thesis by auto
      qed
      moreover have "z_announcer z2 b = None" if "z_announcer z b = None" for b
        using none [of b] waits(9) that assms(2) by (cases "b = a") auto
      ultimately show ?thesis using e waits(1) z2 True reg w1 h by auto
    next
      case False
      then have "avahi_s_entry_group_check_probed silent v True h z1 = Some z1"
        using waits(4,5) w1 by (simp add: avahi_s_entry_group_check_probed_def)
      with False e waits(1,4,9) w1 h reg assms(2) show ?thesis by auto
    qed
  next
    case (announces z1 x1)
    from announces(9) [OF gr assms(7)] have reg: "g_state w \<noteq> AVAHI_ENTRY_GROUP_REGISTERING" .
    from announces(8) gr shift have "z_group z1 g = Some (w\<lparr>g_n_probing := g_n_probing w - 1\<rparr>)" by simp
    with reg e announces(1,5-7) timer [OF announces(2,4,5)] assms(2) show ?thesis by auto
  qed
qed

subsection \<open>The timers of an announcer come to an end\<close>

text \<open>How many more timers an announcer has, if the clients and the interfaces leave it alone.\<close>

definition timer_steps :: "announcer \<Rightarrow> nat" where
  "timer_steps x = (case a_state x of
     AVAHI_PROBING \<Rightarrow> (4 - a_n_iteration x) + 3
   | AVAHI_ANNOUNCING \<Rightarrow> Suc (3 - a_n_iteration x)
   | _ \<Rightarrow> 0)"

lemma timer_steps_wants: "wants_timer (a_state x) \<longleftrightarrow> timer_steps x > 0"
  by (cases "a_state x") (simp_all add: timer_steps_def wants_timer_def)

lemma fire_decreases:
  assumes "zone_ok z" "z_announcer z a = Some x" "wants_timer (a_state x)"
  shows "\<exists>z' x'. elapse_announce silent v a z = Some z' \<and> zone_ok z' \<and> z_announcer z' a = Some x' \<and> timer_steps x' < timer_steps x"
proof -
  obtain y u where y: "z_entry z (a_entry x) = Some y" "z_iface z (a_interface x) = Some u"
    by (rule entry_of_announcer [OF assms(1,2)]) blast
  show ?thesis
  proof (cases "a_state x")
    case AVAHI_PROBING
    show ?thesis
    proof (cases "a_n_iteration x \<ge> 4")
      case True
      then have e: "elapse_announce silent v a z = probing_done silent v a z"
        using assms(2) y AVAHI_PROBING by (simp add: elapse_announce_def next_state_def)
      from True AVAHI_PROBING have ts: "timer_steps x = 3" by (simp add: timer_steps_def)
      from assms(1,2) AVAHI_PROBING show ?thesis
      proof (cases rule: probing_done_cases [where v = v])
        case (waits z1 g w x1)
        show ?thesis
        proof (cases "g_state w = AVAHI_ENTRY_GROUP_REGISTERING \<and> g_n_probing w \<le> 0")
          case True
          with check_probed_silent [OF waits(2,4,5), of v True] waits(1,6-8) e ts show ?thesis
            by (fastforce simp: timer_steps_def)
        next
          case False
          then have "avahi_s_entry_group_check_probed silent v True g z1 = Some z1"
            using waits(4,5) by (auto simp: avahi_s_entry_group_check_probed_def)
          with waits e ts show ?thesis by (simp add: timer_steps_def)
        qed
      next
        case (announces z1 x1)
        with e ts show ?thesis by (simp add: timer_steps_def)
      qed
    next
      case False
      from probe_step_ok [OF assms(1,2) y, of v] obtain z1 t where
        z1: "probe_step v a z = Some z1" "working z a x 0 z1 (x\<lparr>a_time_event := Some t, a_n_iteration := a_n_iteration x + 1\<rparr>)" by blast
      have ok: "zone_ok z1" by (rule working_done [OF z1(2)]) (use AVAHI_PROBING in \<open>simp_all add: wants_timer_def\<close>)
      from z1(1) AVAHI_PROBING False assms(2) y have "elapse_announce silent v a z = Some z1"
        by (simp add: elapse_announce_def next_state_def)
      with ok working_views(1) [OF z1(2)] AVAHI_PROBING False show ?thesis by (simp add: timer_steps_def)
    qed
  next
    case AVAHI_ANNOUNCING
    from announce_step_ok [OF working_refl [OF assms(1,2)], of v] obtain z1 t where
      z1: "announce_step v a z = Some z1" "working z a x 0 z1 (announced x (Some t))" by blast
    have ok: "zone_ok z1" by (rule working_done [OF z1(2)]) (use AVAHI_ANNOUNCING in \<open>simp_all add: wants_timer_def announced_def split: if_splits\<close>)
    have "elapse_announce silent v a z = Some z1"
      using next_state_announcing [OF assms(2) AVAHI_ANNOUNCING] z1(1) by (simp add: elapse_announce_def)
    with ok working_views(1) [OF z1(2)] AVAHI_ANNOUNCING show ?thesis by (auto simp: timer_steps_def announced_def)
  qed (use assms(3) in \<open>simp_all add: wants_timer_def\<close>)
qed

text \<open>The timer of an announcer runs while there is one, with the clocks of the list.\<close>

fun fire_until_idle :: "'o group_callback \<Rightarrow> env list \<Rightarrow> nat \<Rightarrow> 'o zone \<Rightarrow> 'o zone outcome" where
  "fire_until_idle cb [] a z = Some z"
| "fire_until_idle cb (v # vs) a z = do {
     x \<leftarrow> z_announcer z a;
     if a_time_event x = None then Some z
     else do { z \<leftarrow> elapse_announce cb v a z; fire_until_idle cb vs a z }
   }"

lemma fire_until_idle_ends:
  "zone_ok z \<Longrightarrow> z_announcer z a = Some x \<Longrightarrow> length vs \<ge> timer_steps x \<Longrightarrow>
   \<exists>z' x'. fire_until_idle silent vs a z = Some z' \<and> zone_ok z' \<and> z_announcer z' a = Some x' \<and> a_time_event x' = None"
proof (induction vs arbitrary: z x)
  case Nil
  from Nil.prems(3) have "\<not> wants_timer (a_state x)" using timer_steps_wants [of x] by simp
  with zone_timers_okD(4) [OF zone_okD(5) [OF Nil.prems(1)] Nil.prems(2)] Nil.prems show ?case by simp
next
  case (Cons v vs)
  show ?case
  proof (cases "a_time_event x = None")
    case True
    with Cons.prems show ?thesis by simp
  next
    case False
    with zone_timers_okD(4) [OF zone_okD(5) [OF Cons.prems(1)] Cons.prems(2)] have "wants_timer (a_state x)" by simp
    from fire_decreases [OF Cons.prems(1,2) this, of v] obtain z1 x1 where
      z1: "elapse_announce silent v a z = Some z1" "zone_ok z1" "z_announcer z1 a = Some x1" "timer_steps x1 < timer_steps x" by blast
    from z1(4) Cons.prems(3) have "length vs \<ge> timer_steps x1" by simp
    from Cons.IH [OF z1(2,3) this]
    have "\<exists>z' x'. fire_until_idle silent vs a z1 = Some z' \<and> zone_ok z' \<and> z_announcer z' a = Some x' \<and> a_time_event x' = None" .
    moreover have "fire_until_idle silent (v # vs) a z = fire_until_idle silent vs a z1"
      using z1(1) False Cons.prems(2) by (cases "a_time_event x") simp_all
    ultimately show ?thesis by simp
  qed
qed

text \<open>
  C8: probing and announcing come to an end. In a reachable zone, with clients that do not interfere, an
  announcer uses its timer at most seven times, whatever the clock says and whatever state it is in; then
  it is established, or waits for the rest of its group, without a timer.
\<close>

theorem announcer_comes_to_rest:
  assumes "zone_reachable silent z" "z_announcer z a = Some x" "length vs \<ge> 7"
  shows "\<exists>z' x'. fire_until_idle silent vs a z = Some z' \<and> z_announcer z' a = Some x' \<and>
    a_time_event x' = None \<and> (a_state x' = AVAHI_WAITING \<or> a_state x' = AVAHI_ESTABLISHED)"
proof -
  note ok = zone_reachable_ok [OF callback_ok_silent' assms(1)]
  have "timer_steps x \<le> 7" by (cases "a_state x") (simp_all add: timer_steps_def)
  with assms(3) have "length vs \<ge> timer_steps x" by simp
  from fire_until_idle_ends [OF ok assms(2) this] obtain z' x' where
    z': "fire_until_idle silent vs a z = Some z'" "zone_ok z'" "z_announcer z' a = Some x'" "a_time_event x' = None" by blast
  from zone_timers_okD(4) [OF zone_okD(5) [OF z'(2)] z'(3)] z'(4) have "\<not> wants_timer (a_state x')" by simp
  then have "a_state x' = AVAHI_WAITING \<or> a_state x' = AVAHI_ESTABLISHED" by (cases "a_state x'") (simp_all add: wants_timer_def)
  with z' show ?thesis by blast
qed


subsection \<open>Three probes\<close>

lemma elapse_no_jitter: "msec > 0 \<Longrightarrow> fst (elapse v msec 0 j) = avahi_timeval_add (env_now v) (int msec * 1000)"
  by (simp add: elapse_def avahi_elapse_time_def Let_def)

lemma probe_fire:
  assumes "zone_ok z" "z_announcer z a = Some x" "a_state x = AVAHI_PROBING" "a_n_iteration x < 4"
    "z_entry z (a_entry x) = Some y" "z_iface z (a_interface x) = Some u" "i_announcing u"
  shows "\<exists>z' t. elapse_announce cb v a z = Some z' \<and> zone_ok z' \<and>
    z_announcer z' a = Some (x\<lparr>a_time_event := Some t, a_n_iteration := a_n_iteration x + 1\<rparr>) \<and> z_entry z' = z_entry z \<and> z_iface z' = z_iface z \<and>
    due (z_time_event_queue z') (Elapse_announce a) = {avahi_timeval_add (env_now v) 250000} \<and>
    z_log z' = z_log z @ [Post_probe (a_interface x) (e_record y) False] \<and>
    z_announcer z' = (z_announcer z)(a \<mapsto> x\<lparr>a_time_event := Some t, a_n_iteration := a_n_iteration x + 1\<rparr>) \<and>
    z_group z' = z_group z"
proof -
  from probe_step_ok [OF assms(1,2,5,6), of v] assms(7) obtain z1 t where
    z1: "probe_step v a z = Some z1" "working z a x 0 z1 (x\<lparr>a_time_event := Some t, a_n_iteration := a_n_iteration x + 1\<rparr>)"
      "due (z_time_event_queue z1) (Elapse_announce a) = {avahi_timeval_add (env_now v) 250000}"
      "z_log z1 = z_log z @ [Post_probe (a_interface x) (e_record y) False]"
    by (auto simp: elapse_no_jitter AVAHI_PROBE_INTERVAL_MSEC_def)
  have ok: "zone_ok z1" by (rule working_done [OF z1(2)]) (use assms(3) in \<open>simp_all add: wants_timer_def\<close>)
  from z1(1) assms have "elapse_announce cb v a z = Some z1" by (simp add: elapse_announce_def next_state_def)
  moreover have "z_group z1 = z_group z" using workingD(7) [OF z1(2)] by (simp add: shift_probing_zero)
  ultimately show ?thesis using ok z1 working_views(1,2,3) [OF z1(2)] workingD(4) [OF z1(2)] by blast
qed


lemma probes_left_behind:
  assumes "timer_steps x < 3"
  shows "a_state x \<noteq> AVAHI_PROBING"
  using assms by (auto simp: timer_steps_def)

text \<open>
  C17: an announcer sends its probe three times, 250 milliseconds apart, and only then claims the record. From
  the start of its probing, with clients that do not interfere, on an interface that announces: each of the
  next three timers posts one probe for its record and is due again 250 ms later; the fourth posts no
  probe and ends the probing.
\<close>

theorem probes_three_times:
  assumes "zone_reachable silent z" "z_announcer z a = Some x" "a_state x = AVAHI_PROBING" "a_n_iteration x = 1"
    "z_entry z (a_entry x) = Some y" "z_iface z (a_interface x) = Some u" "i_announcing u"
  shows "\<exists>z1 z2 z3 z4 x4.
    elapse_announce silent v1 a z = Some z1 \<and> due (z_time_event_queue z1) (Elapse_announce a) = {avahi_timeval_add (env_now v1) 250000} \<and>
    elapse_announce silent v2 a z1 = Some z2 \<and> due (z_time_event_queue z2) (Elapse_announce a) = {avahi_timeval_add (env_now v2) 250000} \<and>
    elapse_announce silent v3 a z2 = Some z3 \<and> due (z_time_event_queue z3) (Elapse_announce a) = {avahi_timeval_add (env_now v3) 250000} \<and>
    z_log z3 = z_log z @ replicate 3 (Post_probe (a_interface x) (e_record y) False) \<and>
    elapse_announce silent v4 a z3 = Some z4 \<and> z_announcer z4 a = Some x4 \<and> a_state x4 \<noteq> AVAHI_PROBING"
proof -
  note ok = zone_reachable_ok [OF callback_ok_silent' assms(1)]
  from assms(4) have n: "a_n_iteration x < 4" by simp
  from probe_fire [OF ok assms(2,3) n assms(5-7), of silent v1] obtain z1 t1 where
    z1: "elapse_announce silent v1 a z = Some z1" "zone_ok z1" "z_announcer z1 a = Some (x\<lparr>a_time_event := Some t1, a_n_iteration := a_n_iteration x + 1\<rparr>)"
      "z_entry z1 = z_entry z" "z_iface z1 = z_iface z" "due (z_time_event_queue z1) (Elapse_announce a) = {avahi_timeval_add (env_now v1) 250000}"
      "z_log z1 = z_log z @ [Post_probe (a_interface x) (e_record y) False]" by blast
  from probe_fire [OF z1(2,3), of y u silent v2] assms obtain z2 t2 where
    z2: "elapse_announce silent v2 a z1 = Some z2" "zone_ok z2" "z_announcer z2 a = Some (x\<lparr>a_time_event := Some t2, a_n_iteration := a_n_iteration x + 2\<rparr>)"
      "z_entry z2 = z_entry z" "z_iface z2 = z_iface z" "due (z_time_event_queue z2) (Elapse_announce a) = {avahi_timeval_add (env_now v2) 250000}"
      "z_log z2 = z_log z1 @ [Post_probe (a_interface x) (e_record y) False]" by (auto simp: z1(4,5))
  from probe_fire [OF z2(2,3), of y u silent v3] assms obtain z3 t3 where
    z3: "elapse_announce silent v3 a z2 = Some z3" "zone_ok z3" "z_announcer z3 a = Some (x\<lparr>a_time_event := Some t3, a_n_iteration := 4\<rparr>)"
      "due (z_time_event_queue z3) (Elapse_announce a) = {avahi_timeval_add (env_now v3) 250000}"
      "z_log z3 = z_log z2 @ [Post_probe (a_interface x) (e_record y) False]" by (auto simp: z2(4,5) eval_nat_numeral)
  from fire_decreases [OF z3(2,3), of v4] assms(3,4) obtain z4 x4 where
    z4: "elapse_announce silent v4 a z3 = Some z4" "z_announcer z4 a = Some x4" "timer_steps x4 < 3"
    by (auto simp: wants_timer_def timer_steps_def)
  have "z_log z3 = z_log z @ replicate 3 (Post_probe (a_interface x) (e_record y) False)"
    by (simp add: z3(5) z2(7) z1(7) numeral_3_eq_3)
  with z1(1,6) z2(1,6) z3(1,4) z4(1,2) probes_left_behind [OF z4(3)] show ?thesis by blast
qed

subsection \<open>A first record\<close>

definition one_iface :: "nat \<Rightarrow> iface option" where
  "one_iface = (\<lambda>_. None)(0 \<mapsto> \<lparr>i_index = 2, i_protocol = AVAHI_PROTO_INET, i_announcing = True, i_announcers = []\<rparr>)"

definition some_env :: env where "some_env = \<lparr>env_now = \<lparr>tv_sec = 100, tv_usec = 0\<rparr>, env_time = 100, env_rand = 0\<rparr>"

definition first_zone :: "'o zone" where "first_zone = new_zone one_iface (\<lambda>_. None) [0]"

definition publish_srv :: zone_op where
  "publish_srv = Add_record None AVAHI_IF_UNSPEC AVAHI_PROTO_UNSPEC AVAHI_PUBLISH_UNIQUE (sample_srv 80)"

lemma sample_srv_published:
  "avahi_is_valid_domain_name (key_name (rr_key (sample_srv 80)))" "avahi_record_is_valid (sample_srv 80) = Some True"
  "key_clazz (rr_key (sample_srv 80)) = AVAHI_DNS_CLASS_IN" "publishable_type (key_type (rr_key (sample_srv 80)))"
  "sound_record (sample_srv 80)" "\<not> avahi_key_is_pattern (rr_key (sample_srv 80))" "rr_ttl (sample_srv 80) = 120"
proof -
  show "\<not> avahi_key_is_pattern (rr_key (sample_srv 80))" by code_simp
  show "rr_ttl (sample_srv 80) = 120" by code_simp
  show "avahi_is_valid_domain_name (key_name (rr_key (sample_srv 80)))" by code_simp
  show "avahi_record_is_valid (sample_srv 80) = Some True" by code_simp
  show "key_clazz (rr_key (sample_srv 80)) = AVAHI_DNS_CLASS_IN" by code_simp
  show "publishable_type (key_type (rr_key (sample_srv 80)))" by code_simp
  have "normal_name (key_name (rr_key (sample_srv 80)))" unfolding normal_name_def by code_simp
  then show "sound_record (sample_srv 80)" using sample_srv_readable by (simp add: sound_record_def sample_srv_def)
qed

lemma first_zone_reachable: "zone_reachable cb first_zone"
  unfolding first_zone_def by (rule zone_reachable.start) (simp add: interfaces_ok_def one_iface_def)

lemma publish_srv_first:
  "\<exists>z t. zone_exec cb v publish_srv first_zone = Some (z :: 'o zone) \<and>
    z_announcer z 1 = Some \<lparr>a_interface = 0, a_entry = 0, a_time_event = Some t, a_state = AVAHI_PROBING, a_n_iteration = 1, a_sec_delay = 1\<rparr> \<and>
    (\<exists>y. z_entry z 0 = Some y \<and> \<not> e_dead y \<and> e_record y = sample_srv 80 \<and> has_flag (e_flags y) AVAHI_PUBLISH_UNIQUE \<and>
       e_interface y = - 1 \<and> e_protocol y = AVAHI_PROTO_UNSPEC) \<and> (\<exists>u. z_iface z 0 = Some u \<and> i_announcing u)"
proof -
  let ?m = "avahi_hashmap_new rr_key_hash rr_key_eq False False :: (rrkey, nat list) hashmap"
  let ?k = "rr_key (sample_srv 80)"
  have kr: "key_readable ?k" by (rule sound_readable(2) [OF sample_srv_published(5)])
  have l: "avahi_hashmap_lookup ?m ?k = Some None" using km_lookup [OF km_new(1) kr] by (simp add: km_new(2))
  obtain m r where m: "avahi_hashmap_replace ?m ?k [0] = Some (m, r)" by (rule km_replace [OF km_new(1) kr])
  obtain tv j where e: "elapse v 0 AVAHI_PROBE_JITTER_MSEC \<lparr>last_rand = 0, timestamp = 0\<rparr> = (tv, j)" by fastforce
  from new_timer_ok [OF teq_core_new, of tv "Elapse_announce 1 :: 'o zone_timer"] obtain q t where
    q: "avahi_time_event_new avahi_time_event_queue_new (Some tv) (Elapse_announce 1 :: 'o zone_timer) = Some (q, t)" by blast
  show ?thesis
    unfolding publish_srv_def first_zone_def zone_exec.simps
    using sample_srv_published(1-4,6,7) l m e q
    by (simp add: server_add_internal_def new_zone_def if_valid_def proto_valid_def flags_valid_def publish_defs
      transport_flags_from_domain_def has_flag_def group_is_def insert_entry_def check_record_conflict_def entries_with_key_def
      avahi_announce_entry_def avahi_interface_monitor_walk_def announce_walk_callback_def new_announcer_def avahi_interface_match_def
      avahi_entry_is_commited_def get_announcer_def go_to_initial_state_def initial_state_def mod_iface_def mod_entry_def mod_announcer_def
      add_probing_def restart_timer_def set_timeout_elapse_def set_timeout_def set_timer_def one_iface_def AVAHI_IF_UNSPEC_def Let_def)
qed

lemma published_reachable:
  assumes "zone_exec cb v publish_srv first_zone = Some z"
  shows "zone_reachable cb z"
proof (rule zone_reachable.step [OF first_zone_reachable _ assms])
  show "zone_allowed first_zone publish_srv"
    using sample_srv_published(5) by (simp add: publish_srv_def live_group_arg_def flags_agree_def has_flag_def publish_defs)
qed

theorem zone_always_consistent_witness:
  "\<exists>z x. zone_exec silent some_env publish_srv first_zone = Some (z :: 'o zone) \<and> z_announcer z 1 = Some x \<and> a_time_event x \<noteq> None \<and>
    zone_exec silent some_env (Fire 1) z \<noteq> crash"
proof -
  from publish_srv_first [of silent some_env] obtain z :: "'o zone" and t where
    z: "zone_exec silent some_env publish_srv first_zone = Some z"
      "z_announcer z 1 = Some \<lparr>a_interface = 0, a_entry = 0, a_time_event = Some t, a_state = AVAHI_PROBING, a_n_iteration = 1, a_sec_delay = 1\<rparr>"
    by blast
  from zone_always_consistent [OF callback_ok_silent' published_reachable [OF z(1)], of "Fire 1" some_env] z(2)
  have "zone_exec silent some_env (Fire 1) z \<noteq> crash" by simp
  with z show ?thesis by auto
qed

theorem announcer_comes_to_rest_witness:
  "\<exists>z z' x'. zone_exec silent some_env publish_srv first_zone = Some (z :: 'o zone) \<and> fire_until_idle silent (replicate 7 some_env) 1 z = Some z' \<and>
    z_announcer z' 1 = Some x' \<and> a_time_event x' = None"
proof -
  from publish_srv_first [of silent some_env] obtain z :: "'o zone" and x where
    z: "zone_exec silent some_env publish_srv first_zone = Some z" "z_announcer z 1 = Some x" by blast
  have "length (replicate 7 some_env) \<ge> 7" by simp
  from announcer_comes_to_rest [OF published_reachable [OF z(1)] z(2) this] z show ?thesis by blast
qed

theorem probes_three_times_witness:
  "\<exists>z z1. zone_exec silent some_env publish_srv first_zone = Some (z :: 'o zone) \<and> elapse_announce silent some_env 1 z = Some z1 \<and>
    due (z_time_event_queue z1) (Elapse_announce 1) = {avahi_timeval_add (env_now some_env) 250000}"
proof -
  from publish_srv_first [of silent some_env] obtain z :: "'o zone" and t y u where
    z: "zone_exec silent some_env publish_srv first_zone = Some z"
      "z_announcer z 1 = Some \<lparr>a_interface = 0, a_entry = 0, a_time_event = Some t, a_state = AVAHI_PROBING, a_n_iteration = 1, a_sec_delay = 1\<rparr>"
      "z_entry z 0 = Some y" "z_iface z 0 = Some u" "i_announcing u" by blast
  from probes_three_times [OF published_reachable [OF z(1)] z(2), of y u some_env some_env some_env some_env] z
  show ?thesis by (simp del: One_nat_def) blast
qed

text \<open>A group of two records, as a service has them: one that is claimed and one that is shared.\<close>

definition sample_ptr :: rr where
  "sample_ptr =
     \<lparr>rr_key = \<lparr>key_name = str ''_s.local'', key_clazz = AVAHI_DNS_CLASS_IN, key_type = AVAHI_DNS_TYPE_PTR\<rparr>, rr_ttl = 120,
      rr_data = Ptr (str ''x.local'')\<rparr>"

lemma sample_ptr_published:
  "avahi_is_valid_domain_name (key_name (rr_key sample_ptr))" "avahi_record_is_valid sample_ptr = Some True"
  "key_clazz (rr_key sample_ptr) = AVAHI_DNS_CLASS_IN" "publishable_type (key_type (rr_key sample_ptr))"
  "sound_record sample_ptr" "\<not> avahi_key_is_pattern (rr_key sample_ptr)" "rr_ttl sample_ptr = 120"
proof -
  show "\<not> avahi_key_is_pattern (rr_key sample_ptr)" by code_simp
  show "rr_ttl sample_ptr = 120" by code_simp
  show "avahi_is_valid_domain_name (key_name (rr_key sample_ptr))" by code_simp
  show "avahi_record_is_valid sample_ptr = Some True" by code_simp
  show "key_clazz (rr_key sample_ptr) = AVAHI_DNS_CLASS_IN" by code_simp
  show "publishable_type (key_type (rr_key sample_ptr))" by code_simp
  have n: "normal_name (key_name (rr_key sample_ptr))" unfolding normal_name_def by code_simp
  have "labels_of (str ''_s.local'') = Some [str ''_s'', str ''local'']" "labels_of (str ''x.local'') = Some [str ''x'', str ''local'']"
    by code_simp+
  then have "rr_readable sample_ptr"
    by (simp add: rr_readable_def key_readable_def name_ok_def sample_ptr_def data_fits_def name_type_def dns_type_defs)
  with n show "sound_record sample_ptr" by (simp add: sound_record_def sample_ptr_def)
qed

definition service_records :: "(env \<times> zone_op) list" where
  "service_records =
     [(some_env, Group_new (env_now some_env)),
      (some_env, Add_record (Some 0) AVAHI_IF_UNSPEC AVAHI_PROTO_UNSPEC AVAHI_PUBLISH_UNIQUE (sample_srv 80)),
      (some_env, Add_record (Some 0) AVAHI_IF_UNSPEC AVAHI_PROTO_UNSPEC 0 sample_ptr)]"

definition service_group :: "(env \<times> zone_op) list" where
  "service_group = service_records @ [(some_env, Group_commit 0)]"

lemma canon_differs: "key_canon (rr_key sample_ptr) \<noteq> key_canon (rr_key (sample_srv 80))"
  by (simp add: key_canon_def sample_ptr_def sample_srv_def dns_type_defs)

lemma holdoff_at_start: "avahi_timeval_add \<lparr>tv_sec = 0, tv_usec = 0\<rparr> 1000000 = \<lparr>tv_sec = 1, tv_usec = 0\<rparr>"
  by (simp add: avahi_timeval_add_def sdiv_smod_nonneg Let_def)

lemma service_records_added:
  "\<exists>z w y. zone_run silent service_records first_zone = Some (z :: 'o zone) \<and> zone_reachable silent z \<and>
    z_entry z 1 = Some y \<and> e_group y = Some 0 \<and> \<not> e_dead y \<and> z_group z 0 = Some w \<and> \<not> g_dead w \<and>
    g_state w = AVAHI_ENTRY_GROUP_UNCOMMITED \<and> g_register_time w = \<lparr>tv_sec = 0, tv_usec = 0\<rparr> \<and> g_n_register_try w = 0"
proof -
  let ?m = "avahi_hashmap_new rr_key_hash rr_key_eq False False :: (rrkey, nat list) hashmap"
  let ?k = "rr_key (sample_srv 80)" and ?k' = "rr_key sample_ptr"
  have kr: "key_readable ?k" "key_readable ?k'"
    by (rule sound_readable(2) [OF sample_srv_published(5)], rule sound_readable(2) [OF sample_ptr_published(5)])
  have l: "avahi_hashmap_lookup ?m ?k = Some None" using km_lookup [OF km_new(1) kr(1)] by (simp add: km_new(2))
  obtain m r where m: "avahi_hashmap_replace ?m ?k [1] = Some (m, r)" "km_inv m" "km_get m = (km_get ?m)(key_canon ?k \<mapsto> (?k, [1]))"
    by (rule km_replace [OF km_new(1) kr(1)])
  have l': "avahi_hashmap_lookup m ?k' = Some None" using km_lookup [OF m(2) kr(2)] canon_differs by (simp add: m(3) km_new(2))
  obtain m' r' where m': "avahi_hashmap_replace m ?k' [2] = Some (m', r')" by (rule km_replace [OF m(2) kr(2)])
  have "\<exists>z w y. zone_run silent service_records first_zone = Some (z :: 'o zone) \<and>
    z_entry z 1 = Some y \<and> e_group y = Some 0 \<and> \<not> e_dead y \<and> z_group z 0 = Some w \<and> \<not> g_dead w \<and>
    g_state w = AVAHI_ENTRY_GROUP_UNCOMMITED \<and> g_register_time w = \<lparr>tv_sec = 0, tv_usec = 0\<rparr> \<and> g_n_register_try w = 0"
    unfolding service_records_def first_zone_def zone_run.simps zone_allowed.simps zone_exec.simps
    using sample_srv_published sample_ptr_published l m(1) l' m'
    by (simp add: avahi_s_entry_group_new_def new_zone_def server_add_internal_def if_valid_def proto_valid_def flags_valid_def
      publish_defs transport_flags_from_domain_def has_flag_def group_is_def insert_entry_def check_record_conflict_def
      entries_with_key_def avahi_announce_entry_def avahi_interface_monitor_walk_def announce_walk_callback_def new_announcer_def
      avahi_interface_match_def avahi_entry_is_commited_def mod_group_def AVAHI_IF_UNSPEC_def live_group_arg_def flags_agree_def
      one_iface_def Let_def numeral_2_eq_2 [symmetric])
  then obtain z :: "'o zone" and w y where
    z: "zone_run silent service_records first_zone = Some z" "z_entry z 1 = Some y" "e_group y = Some 0" "\<not> e_dead y" "z_group z 0 = Some w"
      "\<not> g_dead w" "g_state w = AVAHI_ENTRY_GROUP_UNCOMMITED" "g_register_time w = \<lparr>tv_sec = 0, tv_usec = 0\<rparr>" "g_n_register_try w = 0" by blast
  have "zone_reachable silent z" by (rule zone_run_reachable [OF callback_ok_silent' first_zone_reachable z(1)])
  with z show ?thesis by blast
qed

lemma service_group_commits:
  "\<exists>z t w y y'. zone_run silent service_group first_zone = Some (z :: 'o zone) \<and>
    z_announcer z 3 = Some \<lparr>a_interface = 0, a_entry = 2, a_time_event = None, a_state = AVAHI_WAITING, a_n_iteration = 1, a_sec_delay = 1\<rparr> \<and>
    z_announcer z 4 = Some \<lparr>a_interface = 0, a_entry = 1, a_time_event = Some t, a_state = AVAHI_PROBING, a_n_iteration = 1, a_sec_delay = 1\<rparr> \<and>
    z_entry z 1 = Some y \<and> e_group y = Some 0 \<and> e_record y = sample_srv 80 \<and> z_entry z 2 = Some y' \<and> e_group y' = Some 0 \<and>
    z_group z 0 = Some w \<and> g_state w = AVAHI_ENTRY_GROUP_REGISTERING \<and> g_n_probing w = 1 \<and> (\<exists>u. z_iface z 0 = Some u \<and> i_announcing u)"
proof -
  let ?m = "avahi_hashmap_new rr_key_hash rr_key_eq False False :: (rrkey, nat list) hashmap"
  let ?k = "rr_key (sample_srv 80)" and ?k' = "rr_key sample_ptr"
  have kr: "key_readable ?k" "key_readable ?k'"
    by (rule sound_readable(2) [OF sample_srv_published(5)], rule sound_readable(2) [OF sample_ptr_published(5)])
  have l: "avahi_hashmap_lookup ?m ?k = Some None" using km_lookup [OF km_new(1) kr(1)] by (simp add: km_new(2))
  obtain m r where m: "avahi_hashmap_replace ?m ?k [1] = Some (m, r)" "km_inv m" "km_get m = (km_get ?m)(key_canon ?k \<mapsto> (?k, [1]))"
    by (rule km_replace [OF km_new(1) kr(1)])
  have l': "avahi_hashmap_lookup m ?k' = Some None" using km_lookup [OF m(2) kr(2)] canon_differs by (simp add: m(3) km_new(2))
  obtain m' r' where m': "avahi_hashmap_replace m ?k' [2] = Some (m', r')" by (rule km_replace [OF m(2) kr(2)])
  obtain tv j where e: "elapse some_env 0 AVAHI_PROBE_JITTER_MSEC \<lparr>last_rand = 0, timestamp = 0\<rparr> = (tv, j)" by fastforce
  from new_timer_ok [OF teq_core_new, of tv "Elapse_announce 4 :: 'o zone_timer"] obtain q t where
    q: "avahi_time_event_new avahi_time_event_queue_new (Some tv) (Elapse_announce 4 :: 'o zone_timer) = Some (q, t)" by blast
  have h: "avahi_timeval_compare (avahi_timeval_add \<lparr>tv_sec = 0, tv_usec = 0\<rparr> (holdoff_usec 1)) (env_now some_env) \<le> 0"
    by (simp add: avahi_timeval_compare_def avahi_timeval_add_def holdoff_usec_def some_env_def sdiv_smod_nonneg
        AVAHI_RR_RATE_LIMIT_COUNT_def AVAHI_RR_HOLDOFF_MSEC_def Let_def)
  note add = server_add_internal_def if_valid_def proto_valid_def flags_valid_def publish_defs transport_flags_from_domain_def has_flag_def
    group_is_def insert_entry_def check_record_conflict_def entries_with_key_def
    avahi_announce_entry_def avahi_interface_monitor_walk_def announce_walk_callback_def new_announcer_def avahi_interface_match_def
    avahi_entry_is_commited_def get_announcer_def mod_iface_def mod_entry_def mod_announcer_def mod_group_def AVAHI_IF_UNSPEC_def
    live_group_arg_def flags_agree_def one_iface_def Let_def
  show ?thesis
    unfolding service_group_def service_records_def append.simps first_zone_def zone_run.simps zone_allowed.simps zone_exec.simps
    using sample_srv_published sample_ptr_published l m(1) l' m' e q h
    by (simp add: avahi_s_entry_group_new_def new_zone_def add avahi_s_entry_group_commit_def avahi_s_entry_group_is_empty_def
      entry_group_commit_real_def avahi_s_entry_group_change_state_def clear_register_timer_def log_event_def silent_def
      avahi_announce_group_def unless_dead_def avahi_s_entry_group_check_probed_def
      go_to_initial_state_def initial_state_def add_probing_def restart_timer_def set_timeout_elapse_def set_timeout_def set_timer_def
      numeral_2_eq_2 [symmetric])
qed


lemma three_probes:
  assumes "zone_reachable silent z" "z_announcer z a = Some x" "a_state x = AVAHI_PROBING" "a_n_iteration x = 1"
    "z_entry z (a_entry x) = Some y" "z_iface z (a_interface x) = Some u" "i_announcing u"
  shows "\<exists>z' t. zone_run silent (replicate 3 (v, Fire a)) z = Some z' \<and> z_entry z' = z_entry z \<and> z_group z' = z_group z \<and>
    z_announcer z' = (z_announcer z)(a \<mapsto> x\<lparr>a_time_event := Some t, a_n_iteration := 4\<rparr>)"
proof -
  note ok = zone_reachable_ok [OF callback_ok_silent' assms(1)]
  have "\<exists>z' t. zone_run silent (replicate n (v, Fire a)) z = Some z' \<and> zone_ok z' \<and> z_entry z' = z_entry z \<and> z_iface z' = z_iface z \<and>
      z_group z' = z_group z \<and> z_announcer z' = (z_announcer z)(a \<mapsto> x\<lparr>a_time_event := t, a_n_iteration := 1 + n\<rparr>)"
    if "n \<le> 3" for n
    using that
  proof (induction n)
    case 0
    have "x\<lparr>a_time_event := a_time_event x, a_n_iteration := 1 + 0\<rparr> = x" using assms(4) by simp
    with ok assms(2) show ?case by (intro exI [of _ z] exI [of _ "a_time_event x"]) (simp add: fun_upd_idem)
  next
    case (Suc n)
    then have "n \<le> 3" by simp
    from Suc.IH [OF this] obtain s t where s: "zone_run silent (replicate n (v, Fire a)) z = Some s" "zone_ok s" "z_entry s = z_entry z" "z_iface s = z_iface z"
      "z_group s = z_group z" "z_announcer s = (z_announcer z)(a \<mapsto> x\<lparr>a_time_event := t, a_n_iteration := 1 + n\<rparr>)" by blast
    have "z_announcer s a = Some (x\<lparr>a_time_event := t, a_n_iteration := 1 + n\<rparr>)" using s(6) by simp
    from probe_fire [OF s(2) this, of y u silent v] assms(3,5-7) s(3,4) Suc.prems obtain z' t' where
      z': "elapse_announce silent v a s = Some z'" "zone_ok z'" "z_entry z' = z_entry s" "z_iface z' = z_iface s" "z_group z' = z_group s"
        "z_announcer z' = (z_announcer s)(a \<mapsto> x\<lparr>a_time_event := Some t', a_n_iteration := 1 + Suc n\<rparr>)" by auto
    have "replicate (Suc n) (v, Fire a) = replicate n (v, Fire a) @ [(v, Fire a)]" by (simp add: replicate_append_same)
    then have "zone_run silent (replicate (Suc n) (v, Fire a)) z = Some z'"
      using s(1,6) z'(1) by (simp only: zone_run_append) simp
    with s z' show ?case by (intro exI [of _ z'] exI [of _ "Some t'"]) simp
  qed
  from this [of 3] obtain z' t where z': "zone_run silent (replicate 3 (v, Fire a)) z = Some z'" "zone_ok z'" "z_entry z' = z_entry z"
    "z_group z' = z_group z" "z_announcer z' = (z_announcer z)(a \<mapsto> x\<lparr>a_time_event := t, a_n_iteration := 4\<rparr>)" by auto
  then have "z_announcer z' a = Some (x\<lparr>a_time_event := t, a_n_iteration := 4\<rparr>)" by simp
  from zone_timers_okD(4) [OF zone_okD(5) [OF z'(2)] this] assms(3) have "t \<noteq> None" by (simp add: wants_timer_def)
  with z' show ?thesis by auto
qed

theorem last_probe_releases_group_witness:
  "\<exists>z z' w' x'. zone_run silent (service_group @ replicate 3 (some_env, Fire 4)) first_zone = Some (z :: 'o zone) \<and>
    map_option a_state (z_announcer z 3) = Some AVAHI_WAITING \<and> zone_exec silent some_env (Fire 4) z = Some z' \<and>
    z_group z' 0 = Some w' \<and> g_state w' = AVAHI_ENTRY_GROUP_ESTABLISHED \<and>
    z_announcer z' 3 = Some x' \<and> a_state x' = AVAHI_ANNOUNCING \<and> a_n_iteration x' = 2"
proof -
  from service_group_commits obtain z :: "'o zone" and t w y y' u where
    z: "zone_run silent service_group first_zone = Some z"
      "z_announcer z 3 = Some \<lparr>a_interface = 0, a_entry = 2, a_time_event = None, a_state = AVAHI_WAITING, a_n_iteration = 1, a_sec_delay = 1\<rparr>"
      "z_announcer z 4 = Some \<lparr>a_interface = 0, a_entry = 1, a_time_event = Some t, a_state = AVAHI_PROBING, a_n_iteration = 1, a_sec_delay = 1\<rparr>"
      "z_entry z 1 = Some y" "e_group y = Some 0" "z_entry z 2 = Some y'" "e_group y' = Some 0"
      "z_group z 0 = Some w" "g_state w = AVAHI_ENTRY_GROUP_REGISTERING" "g_n_probing w = 1" "z_iface z 0 = Some u" "i_announcing u" by blast
  have r: "zone_reachable silent z" by (rule zone_run_reachable [OF callback_ok_silent' first_zone_reachable z(1)])
  from three_probes [OF r z(3), of y u some_env] z(4,11,12) obtain s t' where
    s: "zone_run silent (replicate 3 (some_env, Fire 4)) z = Some s" "z_entry s = z_entry z" "z_group s = z_group z"
      "z_announcer s = (z_announcer z)(4 \<mapsto> \<lparr>a_interface = 0, a_entry = 1, a_time_event = Some t', a_state = AVAHI_PROBING, a_n_iteration = 4, a_sec_delay = 1\<rparr>)"
    by auto
  have r': "zone_reachable silent s" by (rule zone_run_reachable [OF callback_ok_silent' r s(1)])
  have a: "z_announcer s 4 = Some \<lparr>a_interface = 0, a_entry = 1, a_time_event = Some t', a_state = AVAHI_PROBING, a_n_iteration = 4, a_sec_delay = 1\<rparr>"
    "z_announcer s 3 = Some \<lparr>a_interface = 0, a_entry = 2, a_time_event = None, a_state = AVAHI_WAITING, a_n_iteration = 1, a_sec_delay = 1\<rparr>"
    using s(4) z(2) by simp_all
  have g: "g_state w = AVAHI_ENTRY_GROUP_REGISTERING \<and> g_n_probing w \<le> 1" using z(9,10) by simp
  from last_probe_releases_group [OF r' a(1), of y 0 w some_env] z(4,5,8) s(2,3) obtain s' w' where
    s': "zone_exec silent some_env (Fire 4) s = Some s'" "z_group s' 0 = Some w'" "g_state w' = AVAHI_ENTRY_GROUP_ESTABLISHED"
      "\<forall>b u. z_announcer s b = Some u \<longrightarrow> (\<exists>u'. z_announcer s' b = Some u' \<and>
          (if group_of s (a_entry u) = Some 0 \<and> (b = 4 \<or> a_state u = AVAHI_WAITING)
           then a_state u' = AVAHI_ANNOUNCING \<and> a_n_iteration u' = 2 \<and> a_time_event u' \<noteq> None else u' = u))"
    unfolding if_P [OF g] by auto
  have "group_of s 2 = Some 0" using s(2) z(6,7) by (simp add: group_of_def)
  with s'(4) [rule_format, OF a(2)] have "\<exists>x'. z_announcer s' 3 = Some x' \<and> a_state x' = AVAHI_ANNOUNCING \<and> a_n_iteration x' = 2" by auto
  moreover have "zone_run silent (service_group @ replicate 3 (some_env, Fire 4)) first_zone = Some s"
    unfolding zone_run_append z(1) using s(1) by (simp only: Option.bind.simps)
  ultimately show ?thesis using s'(1-3) a(2) by (intro exI [of _ s] exI [of _ s'] exI [of _ w']) auto
qed

subsection \<open>Conflicts\<close>

text \<open>
  A record that may not be published next to \<open>r\<close>: a live entry of the same key with other data, one of the two
  claimed as unique and not both shared on purpose, on an interface and protocol in common. An interface
  index of 0 counts as any interface.
\<close>

definition rivals :: "int \<Rightarrow> protocol \<Rightarrow> rr \<Rightarrow> u32 \<Rightarrow> avahi_entry \<Rightarrow> bool" where
  "rivals i p r f y \<longleftrightarrow> \<not> e_dead y \<and> key_canon (rr_key (e_record y)) = key_canon (rr_key r) \<and>
     data_canon (rr_data (e_record y)) \<noteq> data_canon (rr_data r) \<and>
     (has_flag f AVAHI_PUBLISH_UNIQUE \<or> has_flag (e_flags y) AVAHI_PUBLISH_UNIQUE) \<and>
     \<not> (has_flag f AVAHI_PUBLISH_ALLOW_MULTIPLE \<and> has_flag (e_flags y) AVAHI_PUBLISH_ALLOW_MULTIPLE) \<and>
     (i \<le> 0 \<or> e_interface y \<le> 0 \<or> e_interface y = i) \<and>
     (p = AVAHI_PROTO_UNSPEC \<or> e_protocol y = AVAHI_PROTO_UNSPEC \<or> e_protocol y = p)"

lemma conflicts_with_rivals:
  assumes "rr_readable r" "rr_readable (e_record y)" "key_canon (rr_key (e_record y)) = key_canon (rr_key r)"
  shows "conflicts_with i p r f y = Some (rivals i p r f y)"
proof (cases "e_dead y \<or> \<not> has_flag f AVAHI_PUBLISH_UNIQUE \<and> \<not> has_flag (e_flags y) AVAHI_PUBLISH_UNIQUE \<or>
    has_flag f AVAHI_PUBLISH_ALLOW_MULTIPLE \<and> has_flag (e_flags y) AVAHI_PUBLISH_ALLOW_MULTIPLE")
  case True
  then show ?thesis by (auto simp: conflicts_with_def rivals_def)
next
  case False
  have "avahi_record_equal_no_ttl r (e_record y) = Some (data_canon (rr_data (e_record y)) = data_canon (rr_data r))"
    using record_equal_canon [OF assms(1,2)] assms(3) by (auto simp: rr_canon_def)
  with False assms(3) show ?thesis by (auto simp: conflicts_with_def rivals_def)
qed

lemma check_conflict_exact:
  assumes "zone_ok z" "sound_record r"
  shows "check_record_conflict z i p r f = Some (if \<exists>e y. z_entry z e = Some y \<and> rivals i p r f y then - 1 else 0)"
proof -
  note zd = zone_okD [OF assms(1)]
  let ?es = "filter (\<lambda>e. canon_of z e = Some (key_canon (rr_key r))) (z_entries z)"
  have es: "entries_with_key z (rr_key r) = Some ?es" by (rule entries_with_key_eq [OF zd(3) sound_readable(2) [OF assms(2)]])
  define q where "q = (\<lambda>e. case z_entry z e of None \<Rightarrow> False | Some y \<Rightarrow> rivals i p r f y)"
  have "(do { y \<leftarrow> z_entry z e; conflicts_with i p r f y }) = Some (q e)" if "e \<in> set ?es" for e
  proof -
    from that obtain y where y: "z_entry z e = Some y" "key_canon (rr_key (e_record y)) = key_canon (rr_key r)"
      by (auto simp: canon_of_def)
    from conflicts_with_rivals [OF sound_readable(1) [OF assms(2)] sound_readable(1) [OF entries_okD(4) [OF zd(1) y(1)]] y(2)] y(1)
    show ?thesis by (simp add: q_def)
  qed
  then have "find_first (\<lambda>e. do { y \<leftarrow> z_entry z e; conflicts_with i p r f y }) ?es = Some (find q ?es)" by (rule find_first_eq)
  then have "check_record_conflict z i p r f = Some (if find q ?es = None then 0 else - 1)"
    by (simp add: check_record_conflict_def es)
  moreover have "find q ?es = None \<longleftrightarrow> \<not> (\<exists>e y. z_entry z e = Some y \<and> rivals i p r f y)"
    using entries_okD(2) [OF zd(1)] unfolding find_None_iff
    by (auto simp: q_def canon_of_def rivals_def split: option.splits)
  ultimately show ?thesis by simp
qed

text \<open>
  C20: a record with a rival in the zone is never inserted. In a reachable zone the check finds a conflict
  exactly if some live entry is a rival of the record, wherever it stands in the lists; the insertion then
  fails with \<open>AVAHI_ERR_COLLISION\<close> and leaves the zone as it was, and otherwise succeeds.
\<close>

theorem rival_record_rejected:
  assumes "callback_ok cb" "zone_reachable cb z" "live_group_arg z og" "sound_record r" "\<not> avahi_key_is_pattern (rr_key r)" "if_valid i"
  shows "if \<exists>e y. z_entry z e = Some y \<and> rivals i p r f y
    then insert_entry v og i p f r z = Some (avahi_server_set_errno AVAHI_ERR_COLLISION z, None)
    else \<exists>z' e y. insert_entry v og i p f r z = Some (z', Some e) \<and> z_entry z e = None \<and> z_entry z' e = Some y \<and>
      e_group y = og \<and> e_record y = r \<and> \<not> e_dead y"
proof -
  note ok = zone_reachable_ok [OF assms(1,2)]
  show ?thesis
  proof (cases "\<exists>e y. z_entry z e = Some y \<and> rivals i p r f y")
    case True
    with check_conflict_exact [OF ok assms(4), of i p f] show ?thesis by (simp add: insert_entry_def fail_null_def)
  next
    case False
    from check_conflict_exact [OF ok assms(4), of i p f] False have "check_record_conflict z i p r f = Some 0" by simp
    then have "insert_entry v og i p f r z \<noteq> Some (avahi_server_set_errno err z, None)" for err
      by (auto simp: insert_entry_def Let_def Option.bind_eq_Some_conv split: prod.splits)
    with insert_entry_ok [OF ok assms(3-6), of v p f] False show ?thesis by auto
  qed
qed


theorem rival_record_rejected_witness:
  "\<exists>z. zone_exec silent some_env publish_srv first_zone = Some (z :: 'o zone) \<and>
    insert_entry some_env None 2 AVAHI_PROTO_INET 0 (sample_srv 443) z = Some (avahi_server_set_errno AVAHI_ERR_COLLISION z, None)"
proof -
  from publish_srv_first [of silent some_env] obtain z :: "'o zone" and y where
    z: "zone_exec silent some_env publish_srv first_zone = Some z" "z_entry z 0 = Some y" "\<not> e_dead y" "e_record y = sample_srv 80"
      "has_flag (e_flags y) AVAHI_PUBLISH_UNIQUE" "e_interface y = - 1" "e_protocol y = AVAHI_PROTO_UNSPEC" by blast
  have "sound_record (sample_srv 443)" "\<not> avahi_key_is_pattern (rr_key (sample_srv 443))"
    using sample_srv_published(5,6) sample_srv_readable by (simp_all add: sound_record_def sample_srv_def)
  moreover have "rivals 2 AVAHI_PROTO_INET (sample_srv 443) 0 y"
    using z(3-7) by (simp add: rivals_def sample_srv_def data_canon_def has_flag_def)
  with z(2) have r: "\<exists>e y. z_entry z e = Some y \<and> rivals 2 AVAHI_PROTO_INET (sample_srv 443) 0 y" by blast
  ultimately have "insert_entry some_env None 2 AVAHI_PROTO_INET 0 (sample_srv 443) z = Some (avahi_server_set_errno AVAHI_ERR_COLLISION z, None)"
    using rival_record_rejected [OF callback_ok_silent' published_reachable [OF z(1)], of None "sample_srv 443" 2 AVAHI_PROTO_INET 0 some_env]
    unfolding if_P [OF r] by (simp add: live_group_arg_def if_valid_def)
  with z(1) show ?thesis by blast
qed

text \<open>
  C19: adding a record is all or nothing. In a reachable zone, for a group that lives and a record the client
  may publish, the addition returns; if it returns NULL, the zone is the same but for the error code; if it returns
  an entry, that is live and has the record and the group, and all earlier entries and groups are still
  there, alive if they were, in the state they had. A new entry appears unless an update was asked for.
\<close>

theorem add_record_all_or_nothing:
  assumes "callback_ok cb" "zone_reachable cb z" "live_group_arg z og" "sound_record r" "flags_agree f"
  shows "case server_add_internal v og i p f r z of
      None \<Rightarrow> False
    | Some (z', None) \<Rightarrow> \<exists>err. z' = avahi_server_set_errno err z
    | Some (z', Some e) \<Rightarrow>
        (\<exists>y. z_entry z' e = Some y \<and> e_group y = og \<and> e_record y = r \<and> \<not> e_dead y) \<and>
        (z_entry z e = None \<or> has_flag f AVAHI_PUBLISH_UPDATE) \<and>
        (\<forall>e y. z_entry z e = Some y \<longrightarrow> (\<exists>y'. z_entry z' e = Some y' \<and> e_group y' = e_group y \<and> e_dead y' = e_dead y)) \<and>
        (\<forall>g w. z_group z g = Some w \<longrightarrow> (\<exists>w'. z_group z' g = Some w' \<and> g_dead w' = g_dead w \<and> g_state w' = g_state w))"
proof -
  note ok = zone_reachable_ok [OF assms(1,2)]
  have lab: "labels_of (key_name (rr_key r)) \<noteq> None" using assms(4) by (simp add: sound_record_def normal_name_def)
  have upd: "has_flag f AVAHI_PUBLISH_UPDATE" if "has_flag f' AVAHI_PUBLISH_UPDATE"
    "transport_flags_from_domain z f (key_name (rr_key r)) = Some f'" for f'
  proof -
    from transport_flags_returns [OF assms(5) lab, of z] that(2)
    have "f' = f \<or> f' = f OR AVAHI_PUBLISH_USE_MULTICAST \<or> f' = f OR AVAHI_PUBLISH_USE_WIDE_AREA" by auto
    with that(1) show ?thesis by (auto simp: has_flag_def publish_defs bit.conj_disj_distrib2)
  qed
  from server_add_internal_ok [OF ok assms(3-5), of v i p] show ?thesis
  proof (elim disjE exE conjE)
    fix err
    assume "server_add_internal v og i p f r z = Some (avahi_server_set_errno err z, None)"
    then show ?thesis by auto
  next
    fix z' e y
    assume a: "server_add_internal v og i p f r z = Some (z', Some e)" "grown z z'" "z_entry z' e = Some y" "e_group y = og"
      "e_record y = r" "\<not> e_dead y"
      "z_entry z e \<noteq> None \<longrightarrow> (\<exists>f'. has_flag f' AVAHI_PUBLISH_UPDATE \<and> transport_flags_from_domain z f (key_name (rr_key r)) = Some f')"
    from a(7) upd have "z_entry z e = None \<or> has_flag f AVAHI_PUBLISH_UPDATE" by blast
    with a(1-6) show ?thesis by (simp add: grown_def)
  qed
qed

theorem add_record_all_or_nothing_witness:
  "\<exists>z' e y. server_add_internal some_env None AVAHI_IF_UNSPEC AVAHI_PROTO_UNSPEC AVAHI_PUBLISH_UNIQUE (sample_srv 80) (first_zone :: 'o zone) = Some (z', Some e) \<and>
    z_entry z' e = Some y \<and> e_record y = sample_srv 80"
proof -
  from publish_srv_first [of silent some_env] obtain z :: "'o zone" where
    z: "zone_exec silent some_env publish_srv first_zone = Some z" "z_entry z 0 \<noteq> None" by blast
  then obtain oe where oe: "server_add_internal some_env None AVAHI_IF_UNSPEC AVAHI_PROTO_UNSPEC AVAHI_PUBLISH_UNIQUE (sample_srv 80) (first_zone :: 'o zone) = Some (z, oe)"
    by (auto simp: publish_srv_def)
  have "live_group_arg (first_zone :: 'o zone) None" "flags_agree AVAHI_PUBLISH_UNIQUE"
    by (simp_all add: live_group_arg_def flags_agree_def has_flag_def publish_defs)
  note t = add_record_all_or_nothing [OF callback_ok_silent' first_zone_reachable this(1) sample_srv_published(5) this(2),
    of some_env AVAHI_IF_UNSPEC AVAHI_PROTO_UNSPEC]
  have "z_entry (avahi_server_set_errno err (first_zone :: 'o zone)) 0 = None" for err
    by (simp add: avahi_server_set_errno_def first_zone_def new_zone_def)
  with t oe z(2) show ?thesis by (cases oe) auto
qed

subsection \<open>The holdoff of a commit\<close>

lemma group_empty_exact:
  assumes "zone_ok z" "z_group z g = Some w"
  shows "avahi_s_entry_group_is_empty g z = Some (\<forall>e y. z_entry z e = Some y \<and> e_group y = Some g \<longrightarrow> e_dead y)"
proof -
  note zd = zone_okD [OF assms(1)]
  define q where "q = (\<lambda>e. case z_entry z e of None \<Rightarrow> False | Some y \<Rightarrow> \<not> e_dead y)"
  have "(do { y \<leftarrow> z_entry z e; Some (\<not> e_dead y) }) = Some (q e)" if "e \<in> set (g_entries w)" for e
    using group_entries_exist [OF assms] that by (fastforce simp: q_def)
  then have "find_first (\<lambda>e. do { y \<leftarrow> z_entry z e; Some (\<not> e_dead y) }) (g_entries w) = Some (find q (g_entries w))" by (rule find_first_eq)
  then have "avahi_s_entry_group_is_empty g z = Some (find q (g_entries w) = None)"
    using assms(2) by (simp add: avahi_s_entry_group_is_empty_def)
  moreover have "find q (g_entries w) = None \<longleftrightarrow> (\<forall>e y. z_entry z e = Some y \<and> e_group y = Some g \<longrightarrow> e_dead y)"
    using entries_okD(2) [OF zd(1)] unfolding find_None_iff groups_okD(4) [OF zd(2) assms(2)]
    by (auto simp: q_def group_of_def split: option.splits)
  ultimately show ?thesis by simp
qed

text \<open>
  C21: committing a group. A group that is registering, established or has failed, and one without live entries,
  is refused with \<open>AVAHI_ERR_BAD_STATE\<close> or \<open>AVAHI_ERR_IS_EMPTY\<close>, and nothing but the error code changes. Otherwise
  the commit is due one second after the last one was, or twenty seconds from the fifteenth try on: if
  that is not past, the group waits as registering, with a timer at exactly that time, and no announcer is
  created, started or changed.
\<close>

theorem commit_holds_off:
  assumes "zone_reachable silent z" "z_group z g = Some w" "\<not> g_dead w"
    and due: "tv = avahi_timeval_add (g_register_time w) (if g_n_register_try w \<ge> 14 then 20000000 else 1000000)"
  shows "if g_state w \<noteq> AVAHI_ENTRY_GROUP_UNCOMMITED \<and> g_state w \<noteq> AVAHI_ENTRY_GROUP_COLLISION
    then avahi_s_entry_group_commit silent v g z = Some (avahi_server_set_errno AVAHI_ERR_BAD_STATE z, AVAHI_ERR_BAD_STATE)
    else if \<forall>e y. z_entry z e = Some y \<and> e_group y = Some g \<longrightarrow> e_dead y
    then avahi_s_entry_group_commit silent v g z = Some (avahi_server_set_errno AVAHI_ERR_IS_EMPTY z, AVAHI_ERR_IS_EMPTY)
    else \<exists>z'. avahi_s_entry_group_commit silent v g z = Some (z', AVAHI_OK) \<and>
      (avahi_timeval_compare tv (env_now v) > 0 \<longrightarrow>
         (\<exists>w'. z_group z' g = Some w' \<and> g_state w' = AVAHI_ENTRY_GROUP_REGISTERING \<and> g_register_time w' = tv \<and>
           g_n_register_try w' = g_n_register_try w + 1) \<and>
         due (z_time_event_queue z') (Register_time g) = {tv} \<and> z_announcer z' = z_announcer z)"
proof -
  note ok = zone_reachable_ok [OF callback_ok_silent' assms(1)]
  note td = zone_timers_okD [OF zone_okD(5) [OF ok]]
  note em = group_empty_exact [OF ok assms(2)]
  have h: "avahi_timeval_add (g_register_time w) (holdoff_usec (g_n_register_try w + 1)) = tv"
    by (simp add: due holdoff_usec_def AVAHI_RR_RATE_LIMIT_COUNT_def AVAHI_RR_HOLDOFF_MSEC_RATE_LIMIT_def AVAHI_RR_HOLDOFF_MSEC_def)
  show ?thesis
  proof (cases "g_state w \<noteq> AVAHI_ENTRY_GROUP_UNCOMMITED \<and> g_state w \<noteq> AVAHI_ENTRY_GROUP_COLLISION")
    case True
    with assms(2,3) show ?thesis by (simp add: avahi_s_entry_group_commit_def fail_code_def)
  next
    case st: False
    show ?thesis
    proof (cases "\<forall>e y. z_entry z e = Some y \<and> e_group y = Some g \<longrightarrow> e_dead y")
      case True
      with em have "avahi_s_entry_group_is_empty g z = Some True" by simp
      with st assms(2,3) have "avahi_s_entry_group_commit silent v g z = Some (avahi_server_set_errno AVAHI_ERR_IS_EMPTY z, AVAHI_ERR_IS_EMPTY)"
        by (auto simp: avahi_s_entry_group_commit_def fail_code_def)
      then show ?thesis unfolding if_not_P [OF st] if_P [OF True] .
    next
      case live: False
      with em have e: "avahi_s_entry_group_is_empty g z = Some False" by simp
      let ?w = "w\<lparr>g_n_register_try := g_n_register_try w + 1, g_register_time := tv\<rparr>"
      let ?z = "z\<lparr>z_group := (z_group z)(g \<mapsto> ?w)\<rparr>"
      from td(7) [OF assms(2)] st have none: "g_register_time_event w = None" by (auto simp: group_timer_ok_def)
      have eq: "avahi_s_entry_group_commit silent v g z =
        (if avahi_timeval_compare tv (env_now v) \<le> 0 then do { z \<leftarrow> entry_group_commit_real silent v g ?z; Some (z, AVAHI_OK) }
         else do {
           (q, t) \<leftarrow> avahi_time_event_new (z_time_event_queue z) (Some tv) (Register_time g);
           z \<leftarrow> mod_group g (\<lambda>x. x\<lparr>g_register_time_event := Some t\<rparr>) (?z\<lparr>z_time_event_queue := q\<rparr>);
           z \<leftarrow> avahi_s_entry_group_change_state silent v g AVAHI_ENTRY_GROUP_REGISTERING z;
           Some (z, AVAHI_OK)
         })"
        using assms(2,3) st e h none by (auto simp: avahi_s_entry_group_commit_def mod_group_def Let_def)
      have "\<exists>z'. avahi_s_entry_group_commit silent v g z = Some (z', AVAHI_OK) \<and>
        (avahi_timeval_compare tv (env_now v) > 0 \<longrightarrow>
         (\<exists>w'. z_group z' g = Some w' \<and> g_state w' = AVAHI_ENTRY_GROUP_REGISTERING \<and> g_register_time w' = tv \<and>
           g_n_register_try w' = g_n_register_try w + 1) \<and>
         due (z_time_event_queue z') (Register_time g) = {tv} \<and> z_announcer z' = z_announcer z)"
      proof (cases "avahi_timeval_compare tv (env_now v) \<le> 0")
        case True
        from commit_ok [OF callback_ok_silent' ok assms(2,3), of v] eq True show ?thesis by (auto simp: Option.bind_eq_Some_conv)
      next
        case False
        from new_timer_ok [OF td(1), of tv "Register_time g"] td(7) [OF assms(2)] none obtain q t where
          q: "avahi_time_event_new (z_time_event_queue z) (Some tv) (Register_time g) = Some (q, t)" "armed q (Register_time g) = {(t, tv)}"
          by (auto simp: group_timer_ok_def)
        from q(2) have "due q (Register_time g) = {tv}" by (simp add: due_def)
        with eq False q(1) st show ?thesis
          by (auto simp: mod_group_def avahi_s_entry_group_change_state_def log_event_def silent_def)
      qed
      then show ?thesis unfolding if_not_P [OF st] if_not_P [OF live] .
    qed
  qed
qed


theorem commit_holds_off_witness:
  "\<exists>z z' w'. zone_run silent service_records first_zone = Some (z :: 'o zone) \<and>
    avahi_s_entry_group_commit silent (some_env\<lparr>env_now := \<lparr>tv_sec = 0, tv_usec = 500000\<rparr>\<rparr>) 0 z = Some (z', AVAHI_OK) \<and>
    z_group z' 0 = Some w' \<and> g_state w' = AVAHI_ENTRY_GROUP_REGISTERING \<and>
    due (z_time_event_queue z') (Register_time 0) = {\<lparr>tv_sec = 1, tv_usec = 0\<rparr>}"
proof -
  let ?v = "some_env\<lparr>env_now := \<lparr>tv_sec = 0, tv_usec = 500000\<rparr>\<rparr>"
  from service_records_added obtain z :: "'o zone" and w y where
    z: "zone_run silent service_records first_zone = Some z" "zone_reachable silent z" "z_entry z 1 = Some y" "e_group y = Some 0" "\<not> e_dead y"
      "z_group z 0 = Some w" "\<not> g_dead w" "g_state w = AVAHI_ENTRY_GROUP_UNCOMMITED" "g_register_time w = \<lparr>tv_sec = 0, tv_usec = 0\<rparr>"
      "g_n_register_try w = 0" by blast
  have tv: "\<lparr>tv_sec = 1, tv_usec = 0\<rparr> = avahi_timeval_add (g_register_time w) (if g_n_register_try w \<ge> 14 then 20000000 else 1000000)"
    by (simp add: z(9,10) holdoff_at_start)
  have st: "\<not> (g_state w \<noteq> AVAHI_ENTRY_GROUP_UNCOMMITED \<and> g_state w \<noteq> AVAHI_ENTRY_GROUP_COLLISION)" using z(8) by simp
  have live: "\<not> (\<forall>e y. z_entry z e = Some y \<and> e_group y = Some 0 \<longrightarrow> e_dead y)" using z(3-5) by blast
  have later: "avahi_timeval_compare \<lparr>tv_sec = 1, tv_usec = 0\<rparr> (env_now ?v) > 0" by (simp add: avahi_timeval_compare_def)
  from commit_holds_off [OF z(2,6,7) tv, of ?v] later z(1) show ?thesis unfolding if_not_P [OF st] if_not_P [OF live] by blast
qed

lemma commit_real_silent:
  assumes "zone_ok z" "z_group z g = Some w" "\<not> g_dead w"
  shows "\<exists>z' w'. entry_group_commit_real silent v g z = Some z' \<and> z_group z' g = Some w' \<and> \<not> g_dead w' \<and>
    g_register_time w' = env_now v \<and>
    (if g_n_probing w' > 0 then g_state w' = AVAHI_ENTRY_GROUP_REGISTERING
     else g_state w' = AVAHI_ENTRY_GROUP_ESTABLISHED \<and> g_established_at w' = env_now v \<and>
       (\<forall>a x. z_announcer z' a = Some x \<and> group_of z' (a_entry x) = Some g \<longrightarrow> a_state x \<noteq> AVAHI_WAITING))"
proof -
  note zd = zone_okD [OF assms(1)]
  note td = zone_timers_okD [OF zd(5)]
  let ?w = "w\<lparr>g_register_time := env_now v\<rparr>"
  let ?z = "z\<lparr>z_group := (z_group z)(g \<mapsto> ?w)\<rparr>"
  have g: "z_group ?z g = Some ?w" by simp
  have ok: "zone_ok ?z"
  proof (rule group_update [OF assms(1,2), where w' = ?w and T = "armed (z_time_event_queue z) (Register_time g)"])
    show "ann_frame z ?z" by (simp add: ann_frame_def)
    show "int (card (probing z g)) \<le> g_n_probing ?w" using zd(6) assms(2) by (simp add: counts_ok_def)
    show "group_timer_ok (z_time_event_queue ?z) g ?w" using td(7) [OF assms(2)] by (simp add: group_timer_ok_def)
    fix a x
    assume "z_announcer z a = Some x" "group_of z (a_entry x) = Some g"
    with links_okD(2) [OF zd(4)] assms(2)
    show "g_state ?w = AVAHI_ENTRY_GROUP_REGISTERING \<or> g_state ?w = AVAHI_ENTRY_GROUP_ESTABLISHED"
      by (fastforce simp: group_of_def committed_def)
  qed (use zd(7) td(1) in \<open>simp_all add: list_ok_def\<close>)
  from td(7) [OF assms(2)] have gt: "armed_as (z_time_event_queue ?z) (Register_time g) (g_register_time_event ?w)"
    by (simp add: group_timer_ok_def)
  obtain z1 where z1: "avahi_s_entry_group_change_state silent v g AVAHI_ENTRY_GROUP_REGISTERING ?z = Some z1" "zone_ok z1"
    using change_state_ok [OF callback_ok_silent' ok g, of AVAHI_ENTRY_GROUP_REGISTERING v] by auto
  have "\<exists>w1. z_group z1 g = Some w1 \<and> g_state w1 = AVAHI_ENTRY_GROUP_REGISTERING \<and> \<not> g_dead w1 \<and> g_register_time w1 = env_now v"
  proof (cases "g_state w = AVAHI_ENTRY_GROUP_REGISTERING")
    case True
    with z1(1) g assms(3) show ?thesis by (auto simp: avahi_s_entry_group_change_state_def)
  next
    case False
    then have ne: "g_state ?w \<noteq> AVAHI_ENTRY_GROUP_REGISTERING" by simp
    obtain z2 w2 where "\<And>cb. avahi_s_entry_group_change_state cb v g AVAHI_ENTRY_GROUP_REGISTERING ?z = cb g AVAHI_ENTRY_GROUP_REGISTERING z2"
      "z_group z2 = (z_group ?z)(g \<mapsto> w2)" "g_state w2 = AVAHI_ENTRY_GROUP_REGISTERING" "g_dead w2 = g_dead ?w"
      "g_register_time w2 = g_register_time ?w"
      by (rule change_state_result [OF g ne _ _ gt, of v]) (use td(1) in auto)
    with z1(1) assms(3) show ?thesis by (auto simp: silent_def)
  qed
  then obtain w1 where w1: "z_group z1 g = Some w1" "g_state w1 = AVAHI_ENTRY_GROUP_REGISTERING" "\<not> g_dead w1" "g_register_time w1 = env_now v" by blast
  from announce_group_entries_ok [OF z1(2) w1(1), of v] obtain z2 where z2: "avahi_announce_group v g z1 = Some z2" "kept z1 z2" by blast
  from kept_group [OF z2(2) w1(1)] obtain n where w2: "z_group z2 g = Some (w1\<lparr>g_n_probing := n\<rparr>)" ..
  have e: "entry_group_commit_real silent v g z = avahi_s_entry_group_check_probed silent v False g z2"
    using assms(2) z1(1) w1 z2(1) by (simp add: entry_group_commit_real_def mod_group_def)
  show ?thesis
  proof (cases "n > 0")
    case True
    then have "avahi_s_entry_group_check_probed silent v False g z2 = Some z2"
      using w2 w1(3) by (simp add: avahi_s_entry_group_check_probed_def)
    with True e w1 w2 show ?thesis by simp
  next
    case False
    with w1 have "\<not> g_dead (w1\<lparr>g_n_probing := n\<rparr>)" "g_state (w1\<lparr>g_n_probing := n\<rparr>) = AVAHI_ENTRY_GROUP_REGISTERING"
      "g_n_probing (w1\<lparr>g_n_probing := n\<rparr>) \<le> 0" by simp_all
    from check_probed_silent [OF keptD(1) [OF z2(2)] w2 this, of v False] obtain z3 w3 where
      z3: "avahi_s_entry_group_check_probed silent v False g z2 = Some z3" "z_group z3 g = Some w3"
        "g_state w3 = AVAHI_ENTRY_GROUP_ESTABLISHED" "g_established_at w3 = env_now v" "g_n_probing w3 = n"
        "g_register_time w3 = g_register_time w1" "\<not> g_dead w3" "z_entry z3 = z_entry z2" and
      none: "\<And>a. z_announcer z2 a = None \<Longrightarrow> z_announcer z3 a = None" and
      rel: "\<And>a x. z_announcer z2 a = Some x \<Longrightarrow> \<exists>x'. z_announcer z3 a = Some x' \<and>
        (if a_state x = AVAHI_WAITING \<and> group_of z2 (a_entry x) = Some g
         then a_state x' = AVAHI_ANNOUNCING \<and> a_n_iteration x' = (if False then 2 else 0) else x' = x)" and ok3: "zone_ok z3" by auto
    have "a_state x \<noteq> AVAHI_WAITING" if "z_announcer z3 a = Some x" "group_of z3 (a_entry x) = Some g" for a x
    proof -
      from that(1) none [of a] obtain u where "z_announcer z2 a = Some u" by (cases "z_announcer z2 a") auto
      from rel [OF this] that group_of_cong [OF z3(8)] show ?thesis by (auto split: if_splits)
    qed
    with e z3 False w1(4) show ?thesis by auto
  qed
qed

text \<open>
  C22: a commit that is due waits for nothing but probes. When the client commits a group whose holdoff is over, or
  the holdoff of a registering group ends, with clients that do not interfere, the group has registered now; it
  is registering afterwards exactly if its counter of open probes is positive, and otherwise it is established
  and none of its announcers, the ones the commit has just created included, waits any more.
\<close>

theorem commit_waits_for_probes_only:
  assumes "zone_reachable silent z" "z_group z g = Some w" "\<not> g_dead w"
    and "op = Register g \<or>
      op = Group_commit g \<and> (g_state w = AVAHI_ENTRY_GROUP_UNCOMMITED \<or> g_state w = AVAHI_ENTRY_GROUP_COLLISION) \<and>
        (\<exists>e y. z_entry z e = Some y \<and> e_group y = Some g \<and> \<not> e_dead y) \<and>
        avahi_timeval_compare (avahi_timeval_add (g_register_time w)
          (if g_n_register_try w \<ge> 14 then 20000000 else 1000000)) (env_now v) \<le> 0"
  shows "\<exists>z' w'. zone_exec silent v op z = Some z' \<and> z_group z' g = Some w' \<and> \<not> g_dead w' \<and>
    g_register_time w' = env_now v \<and>
    (if g_n_probing w' > 0 then g_state w' = AVAHI_ENTRY_GROUP_REGISTERING
     else g_state w' = AVAHI_ENTRY_GROUP_ESTABLISHED \<and> g_established_at w' = env_now v \<and>
       (\<forall>a x. z_announcer z' a = Some x \<and> group_of z' (a_entry x) = Some g \<longrightarrow> a_state x \<noteq> AVAHI_WAITING))"
proof -
  note ok = zone_reachable_ok [OF callback_ok_silent' assms(1)]
  from assms(4) consider (register) "op = Register g" |
    (commit) "op = Group_commit g" "g_state w = AVAHI_ENTRY_GROUP_UNCOMMITED \<or> g_state w = AVAHI_ENTRY_GROUP_COLLISION"
      "\<exists>e y. z_entry z e = Some y \<and> e_group y = Some g \<and> \<not> e_dead y"
      "avahi_timeval_compare (avahi_timeval_add (g_register_time w)
          (if g_n_register_try w \<ge> 14 then 20000000 else 1000000)) (env_now v) \<le> 0" by blast
  then show ?thesis
  proof cases
    case register
    from clear_register_timer_ok [OF ok assms(2)] obtain z1 where
      z1: "clear_register_timer g z = Some z1" "zone_ok z1" "z_group z1 = (z_group z)(g \<mapsto> w\<lparr>g_register_time_event := None\<rparr>)" by blast
    from z1(3) have "z_group z1 g = Some (w\<lparr>g_register_time_event := None\<rparr>)" by simp
    from commit_real_silent [OF z1(2) this, of v] assms(3) z1(1) register show ?thesis
      by (simp add: entry_group_register_time_event_callback_def)
  next
    case commit
    from commit(3) have "\<not> (\<forall>e y. z_entry z e = Some y \<and> e_group y = Some g \<longrightarrow> e_dead y)" by blast
    with group_empty_exact [OF ok assms(2)] have e: "avahi_s_entry_group_is_empty g z = Some False" by simp
    let ?tv = "avahi_timeval_add (g_register_time w) (holdoff_usec (g_n_register_try w + 1))"
    let ?w = "w\<lparr>g_n_register_try := g_n_register_try w + 1, g_register_time := ?tv\<rparr>"
    let ?z = "z\<lparr>z_group := (z_group z)(g \<mapsto> ?w)\<rparr>"
    note zd = zone_okD [OF ok]
    note td = zone_timers_okD [OF zd(5)]
    have "zone_ok ?z"
    proof (rule group_update [OF ok assms(2), where w' = ?w and T = "armed (z_time_event_queue z) (Register_time g)"])
      show "ann_frame z ?z" by (simp add: ann_frame_def)
      show "int (card (probing z g)) \<le> g_n_probing ?w" using zd(6) assms(2) by (simp add: counts_ok_def)
      show "group_timer_ok (z_time_event_queue ?z) g ?w" using td(7) [OF assms(2)] by (simp add: group_timer_ok_def)
      fix a x
      assume "z_announcer z a = Some x" "group_of z (a_entry x) = Some g"
      with links_okD(2) [OF zd(4)] assms(2)
      show "g_state ?w = AVAHI_ENTRY_GROUP_REGISTERING \<or> g_state ?w = AVAHI_ENTRY_GROUP_ESTABLISHED"
        by (fastforce simp: group_of_def committed_def)
    qed (use zd(7) td(1) in \<open>simp_all add: list_ok_def\<close>)
    moreover have "z_group ?z g = Some ?w" "\<not> g_dead ?w" using assms(3) by simp_all
    ultimately obtain z' w' where z': "entry_group_commit_real silent v g ?z = Some z'" "z_group z' g = Some w'" "\<not> g_dead w'"
      "g_register_time w' = env_now v"
      "if g_n_probing w' > 0 then g_state w' = AVAHI_ENTRY_GROUP_REGISTERING
       else g_state w' = AVAHI_ENTRY_GROUP_ESTABLISHED \<and> g_established_at w' = env_now v \<and>
         (\<forall>a x. z_announcer z' a = Some x \<and> group_of z' (a_entry x) = Some g \<longrightarrow> a_state x \<noteq> AVAHI_WAITING)"
      using commit_real_silent [of ?z g ?w v] by blast
    have "avahi_timeval_compare ?tv (env_now v) \<le> 0"
      using commit(4) by (auto simp: holdoff_usec_def AVAHI_RR_RATE_LIMIT_COUNT_def AVAHI_RR_HOLDOFF_MSEC_RATE_LIMIT_def
          AVAHI_RR_HOLDOFF_MSEC_def split: if_splits)
    with commit(2) assms(2,3) e z'(1) have "avahi_s_entry_group_commit silent v g z = Some (z', AVAHI_OK)"
      by (auto simp: avahi_s_entry_group_commit_def mod_group_def Let_def)
    with commit(1) z'(2-5) show ?thesis by simp
  qed
qed

theorem commit_waits_for_probes_only_witness:
  "\<exists>z z' w'. zone_run silent service_records first_zone = Some (z :: 'o zone) \<and>
    zone_exec silent some_env (Group_commit 0) z = Some z' \<and> z_group z' 0 = Some w' \<and> g_register_time w' = env_now some_env"
proof -
  from service_records_added obtain z :: "'o zone" and w y where
    z: "zone_run silent service_records first_zone = Some z" "zone_reachable silent z" "z_entry z 1 = Some y" "e_group y = Some 0" "\<not> e_dead y"
      "z_group z 0 = Some w" "\<not> g_dead w" "g_state w = AVAHI_ENTRY_GROUP_UNCOMMITED" "g_register_time w = \<lparr>tv_sec = 0, tv_usec = 0\<rparr>"
      "g_n_register_try w = 0" by blast
  have "avahi_timeval_compare (avahi_timeval_add (g_register_time w) (if g_n_register_try w \<ge> 14 then 20000000 else 1000000)) (env_now some_env) \<le> 0"
    by (simp add: z(9,10) holdoff_at_start) (simp add: avahi_timeval_compare_def some_env_def)
  with z(3-5,8) have "Group_commit 0 = Register 0 \<or>
      Group_commit 0 = Group_commit 0 \<and> (g_state w = AVAHI_ENTRY_GROUP_UNCOMMITED \<or> g_state w = AVAHI_ENTRY_GROUP_COLLISION) \<and>
        (\<exists>e y. z_entry z e = Some y \<and> e_group y = Some 0 \<and> \<not> e_dead y) \<and>
        avahi_timeval_compare (avahi_timeval_add (g_register_time w)
          (if g_n_register_try w \<ge> 14 then 20000000 else 1000000)) (env_now some_env) \<le> 0" by blast
  from commit_waits_for_probes_only [OF z(2,6,7) this] z(1) show ?thesis by blast
qed

definition early_env :: env where "early_env = \<lparr>env_now = \<lparr>tv_sec = 0, tv_usec = 500000\<rparr>, env_time = 0, env_rand = 0\<rparr>"

text \<open>
  The holdoff does not hold everything off. While a commit waits for its time the group is registering already, and
  \<open>new_announcer\<close> takes that for committed: an interface that comes up meanwhile starts to probe for the group.
\<close>

lemma interface_probes_during_holdoff:
  "\<exists>z w x. zone_run silent (service_records @ [(early_env, Group_commit 0), (early_env, Announce_interface 0)]) first_zone = Some (z :: 'o zone) \<and>
    z_group z 0 = Some w \<and> g_register_time_event w \<noteq> None \<and>
    avahi_timeval_compare (g_register_time w) (env_now early_env) > 0 \<and>
    z_announcer z 4 = Some x \<and> a_state x = AVAHI_PROBING \<and> a_time_event x \<noteq> None"
proof -
  let ?m = "avahi_hashmap_new rr_key_hash rr_key_eq False False :: (rrkey, nat list) hashmap"
  let ?k = "rr_key (sample_srv 80)" and ?k' = "rr_key sample_ptr"
  have kr: "key_readable ?k" "key_readable ?k'"
    by (rule sound_readable(2) [OF sample_srv_published(5)], rule sound_readable(2) [OF sample_ptr_published(5)])
  have l: "avahi_hashmap_lookup ?m ?k = Some None" using km_lookup [OF km_new(1) kr(1)] by (simp add: km_new(2))
  obtain m r where m: "avahi_hashmap_replace ?m ?k [1] = Some (m, r)" "km_inv m" "km_get m = (km_get ?m)(key_canon ?k \<mapsto> (?k, [1]))"
    by (rule km_replace [OF km_new(1) kr(1)])
  have l': "avahi_hashmap_lookup m ?k' = Some None" using km_lookup [OF m(2) kr(2)] canon_differs by (simp add: m(3) km_new(2))
  obtain m' r' where m': "avahi_hashmap_replace m ?k' [2] = Some (m', r')" by (rule km_replace [OF m(2) kr(2)])
  obtain tv j where e: "elapse early_env 0 AVAHI_PROBE_JITTER_MSEC \<lparr>last_rand = 0, timestamp = 0\<rparr> = (tv, j)" by fastforce
  have h: "avahi_timeval_add \<lparr>tv_sec = 0, tv_usec = 0\<rparr> (holdoff_usec 1) = \<lparr>tv_sec = 1, tv_usec = 0\<rparr>"
    by (simp add: holdoff_usec_def AVAHI_RR_RATE_LIMIT_COUNT_def AVAHI_RR_HOLDOFF_MSEC_def holdoff_at_start)
  have c: "avahi_timeval_compare \<lparr>tv_sec = 1, tv_usec = 0\<rparr> (env_now early_env) = 1"
    by (simp add: avahi_timeval_compare_def early_env_def)
  from new_timer_ok [OF teq_core_new, of "\<lparr>tv_sec = 1, tv_usec = 0\<rparr>" "Register_time 0 :: 'o zone_timer"] obtain q t where
    q: "avahi_time_event_new avahi_time_event_queue_new (Some \<lparr>tv_sec = 1, tv_usec = 0\<rparr>) (Register_time 0 :: 'o zone_timer) = Some (q, t)"
      "teq_core q" by blast
  from new_timer_ok [OF q(2), of tv "Elapse_announce 4 :: 'o zone_timer"] obtain q' t' where
    q': "avahi_time_event_new q (Some tv) (Elapse_announce 4 :: 'o zone_timer) = Some (q', t')" by blast
  show ?thesis
    unfolding service_records_def append.simps first_zone_def zone_run.simps zone_allowed.simps zone_exec.simps
    using sample_srv_published sample_ptr_published l m(1) l' m' e q(1) q' h c
    by (simp add: avahi_s_entry_group_new_def new_zone_def server_add_internal_def if_valid_def proto_valid_def flags_valid_def
      publish_defs transport_flags_from_domain_def has_flag_def group_is_def insert_entry_def check_record_conflict_def
      entries_with_key_def avahi_announce_entry_def avahi_interface_monitor_walk_def announce_walk_callback_def new_announcer_def
      avahi_interface_match_def avahi_entry_is_commited_def get_announcer_def mod_iface_def mod_entry_def mod_announcer_def mod_group_def
      AVAHI_IF_UNSPEC_def live_group_arg_def flags_agree_def one_iface_def Let_def avahi_s_entry_group_commit_def
      avahi_s_entry_group_is_empty_def avahi_s_entry_group_change_state_def log_event_def silent_def avahi_announce_interface_def
      unless_dead_def go_to_initial_state_def initial_state_def add_probing_def restart_timer_def set_timeout_elapse_def
      set_timeout_def set_timer_def numeral_2_eq_2 [symmetric])
qed

end
