(* ===== verification/Zonerecords.thy ===== *)
theory Zonerecords
  imports Zonelife
begin

text \<open>
  What a zone publishes. The locale \<open>entry_law\<close> is the contract of a property of entries that depends neither on
  the announcers of an entry nor on whether it is dead: every operation but the addition of a record keeps it
  for all entries of the zone. It is interpreted on the checks of \<open>server_add_internal\<close>.
\<close>

subsection \<open>Properties of all entries\<close>

definition all_entries :: "(avahi_entry \<Rightarrow> bool) \<Rightarrow> 'o zone \<Rightarrow> bool" where
  "all_entries A z \<longleftrightarrow> (\<forall>e y. z_entry z e = Some y \<longrightarrow> A y)"

text \<open>If the operation returns, the property holds for all entries.\<close>

definition ensures :: "(avahi_entry \<Rightarrow> bool) \<Rightarrow> 'o zone outcome \<Rightarrow> bool" where
  "ensures A m \<longleftrightarrow> (\<forall>z. m = Some z \<longrightarrow> all_entries A z)"

lemma all_entries_cong: "z_entry z' = z_entry z \<Longrightarrow> all_entries A z' = all_entries A z"
  by (simp add: all_entries_def)

lemma all_entries_simps [simp]:
  "all_entries A (z\<lparr>z_group := x1\<rparr>) = all_entries A z" "all_entries A (z\<lparr>z_announcer := x2\<rparr>) = all_entries A z"
  "all_entries A (z\<lparr>z_iface := x3\<rparr>) = all_entries A z" "all_entries A (z\<lparr>z_next := x4\<rparr>) = all_entries A z"
  "all_entries A (z\<lparr>z_entries := x5\<rparr>) = all_entries A z" "all_entries A (z\<lparr>z_groups := x6\<rparr>) = all_entries A z"
  "all_entries A (z\<lparr>z_entries_by_key := x7\<rparr>) = all_entries A z" "all_entries A (z\<lparr>z_record_list := x8\<rparr>) = all_entries A z"
  "all_entries A (z\<lparr>z_need_entry_cleanup := x9\<rparr>) = all_entries A z" "all_entries A (z\<lparr>z_need_group_cleanup := x10\<rparr>) = all_entries A z"
  "all_entries A (z\<lparr>z_cleanup_time_event := x11\<rparr>) = all_entries A z" "all_entries A (z\<lparr>z_time_event_queue := x12\<rparr>) = all_entries A z"
  "all_entries A (z\<lparr>z_jitter := x13\<rparr>) = all_entries A z" "all_entries A (z\<lparr>z_log := x14\<rparr>) = all_entries A z"
  "all_entries A (z\<lparr>z_error := x15\<rparr>) = all_entries A z" "all_entries A (log_event ev z) = all_entries A z"
  by (simp_all add: all_entries_def log_event_def)

lemma all_entries_remove: "all_entries A z \<Longrightarrow> all_entries A (z\<lparr>z_entry := (z_entry z)(e := None)\<rparr>)"
  by (auto simp: all_entries_def split: if_splits)

lemma all_entries_set: "all_entries A z \<Longrightarrow> A y \<Longrightarrow> all_entries A (w\<lparr>z_entry := (z_entry z)(e \<mapsto> y)\<rparr>)"
  by (auto simp: all_entries_def)

lemma ensures_Some [simp]: "ensures A (Some z) = all_entries A z"
  by (simp add: ensures_def)

lemma ensures_None [simp]: "ensures A None"
  by (simp add: ensures_def)

lemma ensuresD: "ensures A m \<Longrightarrow> m = Some z \<Longrightarrow> all_entries A z"
  by (simp add: ensures_def)

text \<open>The rules: a zone that is bound has the property; other bound values are arbitrary.\<close>

lemma ensures_bind: "ensures A m \<Longrightarrow> (\<And>z. all_entries A z \<Longrightarrow> ensures A (f z)) \<Longrightarrow> ensures A (Option.bind m f)"
  by (cases m) (simp_all add: ensures_def)

lemma ensures_value: "(\<And>x. m = Some x \<Longrightarrow> ensures A (f x)) \<Longrightarrow> ensures A (Option.bind m f)"
  by (cases m) simp_all

lemma ensures_if: "(P \<Longrightarrow> ensures A m) \<Longrightarrow> (\<not> P \<Longrightarrow> ensures A m') \<Longrightarrow> ensures A (if P then m else m')"
  by simp

lemma ensures_option: "ensures A m \<Longrightarrow> (\<And>x. o' = Some x \<Longrightarrow> ensures A (f x)) \<Longrightarrow> ensures A (case o' of None \<Rightarrow> m | Some x \<Rightarrow> f x)"
  by (cases o') simp_all

lemma ensures_prod: "(\<And>x y. p = (x, y) \<Longrightarrow> ensures A (f x y)) \<Longrightarrow> ensures A (case p of (x, y) \<Rightarrow> f x y)"
  by (cases p) simp

lemma ensures_for_each:
  assumes "\<And>x z. all_entries A z \<Longrightarrow> ensures A (f x z)"
  shows "all_entries A z \<Longrightarrow> ensures A (for_each f xs z)"
  by (induction xs arbitrary: z) (auto intro!: ensures_bind assms)

lemma ensures_while_head:
  fixes z :: "'o zone"
  assumes body: "\<And>x z. all_entries A z \<Longrightarrow> ensures A (body x z)" and z: "all_entries A z"
  shows "ensures A (while_head hd_of body z)"
proof -
  have "(\<forall>x z. all_entries A z \<longrightarrow> ensures A (body x z)) \<longrightarrow> all_entries A z \<longrightarrow> all_entries A z'"
    if "while_head hd_of body z = Some z'" for z'
  proof (rule while_head.raw_induct [OF _ that], intro impI)
    fix loop :: "('o zone \<Rightarrow> 'b list option) \<Rightarrow> ('b \<Rightarrow> 'o zone \<Rightarrow> 'o zone option) \<Rightarrow> 'o zone \<Rightarrow> 'o zone option"
    fix hd_of :: "'o zone \<Rightarrow> 'b list option" and body s t
    assume IH: "\<And>hd_of body s t. loop hd_of body s = Some t \<Longrightarrow>
        (\<forall>x z. all_entries A z \<longrightarrow> ensures A (body x z)) \<longrightarrow> all_entries A s \<longrightarrow> all_entries A t"
      and t: "Option.bind (hd_of s) (\<lambda>xs. case xs of [] \<Rightarrow> Some s | x # _ \<Rightarrow> Option.bind (body x s) (loop hd_of body)) = Some t"
      and body: "\<forall>x z. all_entries A z \<longrightarrow> ensures A (body x z)" and s: "all_entries A s"
    from t obtain xs where xs: "(case xs of [] \<Rightarrow> Some s | x # _ \<Rightarrow> Option.bind (body x s) (loop hd_of body)) = Some t"
      by (auto simp: Option.bind_eq_Some_conv)
    show "all_entries A t"
    proof (cases xs)
      case (Cons x ys)
      with xs obtain u where u: "body x s = Some u" "loop hd_of body u = Some t" by (auto simp: Option.bind_eq_Some_conv)
      from body s u(1) have "all_entries A u" using ensuresD by blast
      with IH [OF u(2)] body show ?thesis by blast
    qed (use xs s in simp)
  qed
  with body z show ?thesis by (simp add: ensures_def)
qed

text \<open>The same for the operations that return a value with the zone.\<close>

definition ensures_fst :: "(avahi_entry \<Rightarrow> bool) \<Rightarrow> ('o zone \<times> 'b) outcome \<Rightarrow> bool" where
  "ensures_fst A m \<longleftrightarrow> ensures A (map_option fst m)"

lemma ensures_fst_Some [simp]: "ensures_fst A (Some (z, x)) = all_entries A z"
  by (simp add: ensures_fst_def)

lemma ensures_fst_fail [simp]: "ensures_fst A (fail_null err z) = all_entries A z" "ensures_fst A (fail_code err z) = all_entries A z"
  by (simp_all add: fail_null_def fail_code_def avahi_server_set_errno_def)

lemma ensures_fst_bind:
  "ensures A m \<Longrightarrow> (\<And>z. all_entries A z \<Longrightarrow> ensures_fst A (f z)) \<Longrightarrow> ensures_fst A (Option.bind m f)"
  by (cases m) (simp_all add: ensures_fst_def ensures_def)

lemma ensures_fst_value: "(\<And>x. m = Some x \<Longrightarrow> ensures_fst A (f x)) \<Longrightarrow> ensures_fst A (Option.bind m f)"
  by (cases m) (simp_all add: ensures_fst_def)

lemma ensures_fst_if: "(P \<Longrightarrow> ensures_fst A m) \<Longrightarrow> (\<not> P \<Longrightarrow> ensures_fst A m') \<Longrightarrow> ensures_fst A (if P then m else m')"
  by simp

lemma ensures_fst_option:
  "ensures_fst A m \<Longrightarrow> (\<And>x. o' = Some x \<Longrightarrow> ensures_fst A (f x)) \<Longrightarrow> ensures_fst A (case o' of None \<Rightarrow> m | Some x \<Rightarrow> f x)"
  by (cases o') simp_all

lemma ensures_fst_prod: "(\<And>x y. p = (x, y) \<Longrightarrow> ensures_fst A (f x y)) \<Longrightarrow> ensures_fst A (case p of (x, y) \<Rightarrow> f x y)"
  by (cases p) simp

lemmas ensures_fst_rules = ensures_fst_bind ensures_fst_value ensures_fst_if ensures_fst_option ensures_fst_prod

lemmas ensures_rules = ensures_bind ensures_value ensures_if ensures_option ensures_prod

subsection \<open>What every operation keeps\<close>

lemma find_first_found: "find_first p xs = Some (Some x) \<Longrightarrow> p x = Some True"
  by (induction xs) (auto simp: Option.bind_eq_Some_conv split: if_splits)

locale entry_law =
  fixes A :: "avahi_entry \<Rightarrow> bool"
  assumes announcers: "A y \<Longrightarrow> A (y\<lparr>e_announcers := as\<rparr>)"
    and dead: "A y \<Longrightarrow> A (y\<lparr>e_dead := True\<rparr>)"
begin

lemma mods:
  assumes "all_entries A z"
  shows "ensures A (mod_announcer a f z)" "ensures A (mod_group g h z)" "ensures A (mod_iface i k z)"
    "(\<And>y. A y \<Longrightarrow> A (l y)) \<Longrightarrow> ensures A (mod_entry e l z)"
  using assms by (auto simp: mod_announcer_def mod_group_def mod_iface_def mod_entry_def intro!: ensures_value all_entries_set)
    (auto simp: all_entries_def)

lemma remove_announcer: "all_entries A z \<Longrightarrow> ensures A (remove_announcer a z)"
  unfolding remove_announcer_def Let_def by (rule ensures_rules mods announcers | simp)+

lemma set_timeout: "all_entries A z \<Longrightarrow> ensures A (set_timeout a tv z)"
  unfolding set_timeout_def by (rule ensures_rules mods | simp)+

lemma set_timeout_elapse: "all_entries A z \<Longrightarrow> ensures A (set_timeout_elapse v a msec j z)"
  unfolding set_timeout_elapse_def Let_def by (rule ensures_rules set_timeout | simp)+

lemma prepare_response: "all_entries A z \<Longrightarrow> ensures A (avahi_server_prepare_response e u x z)"
  unfolding avahi_server_prepare_response_def by (rule ensures_rules | simp)+

lemma prepare_if_registered: "all_entries A z \<Longrightarrow> ensures A (prepare_if_registered i u e z)"
  unfolding prepare_if_registered_def by (rule ensures_rules prepare_response | simp)+

lemma prepare_if_match: "all_entries A z \<Longrightarrow> ensures A (prepare_if_match i k u e z)"
  unfolding prepare_if_match_def by (rule ensures_rules prepare_if_registered | simp)+

lemma prepare_by_key: "all_entries A z \<Longrightarrow> ensures A (prepare_by_key i k u z)"
  unfolding prepare_by_key_def by (rule ensures_rules ensures_for_each prepare_if_match prepare_if_registered | simp)+

lemma matching_responses: "all_entries A z \<Longrightarrow> ensures A (avahi_server_prepare_matching_responses i k u z)"
  unfolding avahi_server_prepare_matching_responses_def by (rule ensures_rules prepare_by_key | simp)+

lemma post_response: "all_entries A z \<Longrightarrow> ensures A (avahi_interface_post_response i r f q im z)"
  unfolding avahi_interface_post_response_def by (rule ensures_rules | simp)+

lemma post_probe: "all_entries A z \<Longrightarrow> ensures A (avahi_interface_post_probe i r im z)"
  unfolding avahi_interface_post_probe_def by (rule ensures_rules | simp)+

lemma generate_loop:
  fixes z :: "'o zone"
  assumes "all_entries A z"
  shows "ensures A (generate_loop i im z)"
proof -
  have "all_entries A z \<longrightarrow> all_entries A z'" if "generate_loop i im z = Some z'" for z'
  proof (rule generate_loop.raw_induct [OF _ that], intro impI)
    fix loop :: "nat \<Rightarrow> bool \<Rightarrow> 'o zone \<Rightarrow> 'o zone option" and i im s t
    assume IH: "\<And>i im s t. loop i im s = Some t \<Longrightarrow> all_entries A s \<longrightarrow> all_entries A t" and s: "all_entries A s"
      and t: "Option.bind (avahi_record_list_next (z_record_list s)) (\<lambda>(l, n). case n of
         None \<Rightarrow> Some (s\<lparr>z_record_list := l\<rparr>)
       | Some (r, flush_cache, unicast_response, auxiliary) \<Rightarrow>
           let im' = (im \<or> flush_cache \<and> \<not> auxiliary \<and> avahi_record_list_all_flush_cache l) in
           Option.bind (assert_that (\<not> unicast_response)) (\<lambda>_.
           Option.bind (avahi_interface_post_response i r flush_cache None im' (s\<lparr>z_record_list := l\<rparr>)) (loop i im))) = Some t"
    have "ensures A (loop i im u)" if "all_entries A u" for u
      using IH [of i im u] that by (simp add: ensures_def)
    then have "ensures A (Option.bind (avahi_record_list_next (z_record_list s)) (\<lambda>(l, n). case n of
         None \<Rightarrow> Some (s\<lparr>z_record_list := l\<rparr>)
       | Some (r, flush_cache, unicast_response, auxiliary) \<Rightarrow>
           let im' = (im \<or> flush_cache \<and> \<not> auxiliary \<and> avahi_record_list_all_flush_cache l) in
           Option.bind (assert_that (\<not> unicast_response)) (\<lambda>_.
           Option.bind (avahi_interface_post_response i r flush_cache None im' (s\<lparr>z_record_list := l\<rparr>)) (loop i im))))"
      unfolding Let_def using s by - (rule ensures_rules post_response | simp)+
    from ensuresD [OF this t] show "all_entries A t" .
  qed
  with assms show ?thesis by (simp add: ensures_def)
qed

lemma generate_announcement: "all_entries A z \<Longrightarrow> ensures A (generate_announcement i im z)"
  unfolding generate_announcement_def by (rule ensures_rules generate_loop | simp)+

lemma clear_register_timer: "all_entries A z \<Longrightarrow> ensures A (clear_register_timer g z)"
  unfolding clear_register_timer_def by (rule ensures_rules mods | simp)+

lemma change_state:
  assumes "\<And>g st z. all_entries A z \<Longrightarrow> ensures A (cb g st z)"
  shows "all_entries A z \<Longrightarrow> ensures A (avahi_s_entry_group_change_state cb v g st z)"
  unfolding avahi_s_entry_group_change_state_def by (rule ensures_rules mods clear_register_timer assms | simp)+

lemma announce_step: "all_entries A z \<Longrightarrow> ensures A (announce_step v a z)"
  unfolding announce_step_def Let_def
  by (rule ensures_rules mods matching_responses prepare_response generate_announcement set_timeout | simp)+

lemma announce_waiting: "all_entries A z \<Longrightarrow> ensures A (announce_waiting v im a z)"
  unfolding announce_waiting_def by (rule ensures_rules mods announce_step set_timeout_elapse | simp)+

lemma check_probed:
  assumes "\<And>g st z. all_entries A z \<Longrightarrow> ensures A (cb g st z)"
  shows "all_entries A z \<Longrightarrow> ensures A (avahi_s_entry_group_check_probed cb v im g z)"
  unfolding avahi_s_entry_group_check_probed_def
  by (rule ensures_rules ensures_for_each change_state [OF assms] announce_waiting | assumption | simp)+

lemma add_probing: "all_entries A z \<Longrightarrow> ensures A (add_probing g d z)"
  unfolding add_probing_def by (rule ensures_rules mods | simp)+

lemma probing_done:
  assumes "\<And>g st z. all_entries A z \<Longrightarrow> ensures A (cb g st z)"
  shows "all_entries A z \<Longrightarrow> ensures A (probing_done cb v a z)"
  unfolding probing_done_def
  by (rule ensures_rules mods add_probing set_timeout announce_step check_probed [OF assms] | assumption | simp)+

lemma probe_step: "all_entries A z \<Longrightarrow> ensures A (probe_step v a z)"
  unfolding probe_step_def by (rule ensures_rules mods post_probe set_timeout_elapse | simp)+

lemma next_state:
  assumes "\<And>g st z. all_entries A z \<Longrightarrow> ensures A (cb g st z)" "all_entries A z"
  shows "ensures A (next_state cb v a z)"
proof -
  have "ensures A (case s of
        AVAHI_WAITING \<Rightarrow> do { g \<leftarrow> e_group y; avahi_s_entry_group_check_probed cb v True g z }
      | AVAHI_PROBING \<Rightarrow> if n \<ge> 4 then probing_done cb v a z else probe_step v a z
      | AVAHI_ANNOUNCING \<Rightarrow> announce_step v a z
      | AVAHI_ESTABLISHED \<Rightarrow> Some z)" for s :: announcer_state and y :: avahi_entry and n :: nat
    using check_probed [OF assms] probing_done [OF assms] probe_step announce_step assms(2)
    by (cases s) (auto intro!: ensures_value)
  then show ?thesis unfolding next_state_def by (intro ensures_value)
qed

lemma restart_timer: "all_entries A z \<Longrightarrow> ensures A (restart_timer v a z)"
  unfolding restart_timer_def by (rule ensures_rules set_timeout set_timeout_elapse | simp)+

lemma go_to_initial_state: "all_entries A z \<Longrightarrow> ensures A (go_to_initial_state v a z)"
  unfolding go_to_initial_state_def by (rule ensures_rules mods add_probing restart_timer | simp)+

lemma new_announcer: "all_entries A z \<Longrightarrow> ensures A (new_announcer v i e z)"
  unfolding new_announcer_def Let_def by (rule ensures_rules mods announcers go_to_initial_state | simp)+

lemma unless_dead: "(\<And>z. all_entries A z \<Longrightarrow> ensures A (body e z)) \<Longrightarrow> all_entries A z \<Longrightarrow> ensures A (unless_dead body e z)"
  unfolding unless_dead_def by (rule ensures_rules | simp)+

lemma announce_interface: "all_entries A z \<Longrightarrow> ensures A (avahi_announce_interface v i z)"
  unfolding avahi_announce_interface_def by (rule ensures_rules ensures_for_each unless_dead new_announcer | assumption | simp)+

lemma monitor_walk:
  assumes "\<And>i z. all_entries A z \<Longrightarrow> ensures A (callback i z)"
  shows "all_entries A z \<Longrightarrow> ensures A (avahi_interface_monitor_walk idx p callback z)"
  unfolding avahi_interface_monitor_walk_def Let_def by (rule ensures_rules ensures_for_each assms | assumption | simp)+

lemma announce_entry: "all_entries A z \<Longrightarrow> ensures A (avahi_announce_entry v e z)"
  unfolding avahi_announce_entry_def announce_walk_callback_def
  by (rule ensures_rules monitor_walk new_announcer | assumption | simp)+

lemma announce_group: "all_entries A z \<Longrightarrow> ensures A (avahi_announce_group v g z)"
  unfolding avahi_announce_group_def by (rule ensures_rules ensures_for_each unless_dead announce_entry | assumption | simp)+

lemma return_to_initial_state: "all_entries A z \<Longrightarrow> ensures A (avahi_entry_return_to_initial_state v e i z)"
  unfolding avahi_entry_return_to_initial_state_def by (rule ensures_rules add_probing go_to_initial_state | simp)+

lemma send_goodbye_callback: "all_entries A z \<Longrightarrow> ensures A (send_goodbye_callback e i z)"
  unfolding send_goodbye_callback_def by (rule ensures_rules post_response | simp)+

lemma reannounce: "all_entries A z \<Longrightarrow> ensures A (reannounce v a z)"
  unfolding reannounce_def Let_def by (rule ensures_rules mods add_probing restart_timer | simp)+

lemma reannounce_entry: "all_entries A z \<Longrightarrow> ensures A (avahi_reannounce_entry v e z)"
  unfolding avahi_reannounce_entry_def reannounce_walk_callback_def
  by (rule ensures_rules monitor_walk reannounce | assumption | simp)+

lemma goodbye_interface: "all_entries A z \<Longrightarrow> ensures A (avahi_goodbye_interface i send rm z)"
  unfolding avahi_goodbye_interface_def
  by (rule ensures_rules ensures_for_each ensures_while_head unless_dead send_goodbye_callback remove_announcer | assumption | simp)+

lemma goodbye_entry: "all_entries A z \<Longrightarrow> ensures A (avahi_goodbye_entry e send rm z)"
  unfolding avahi_goodbye_entry_def
  by (rule ensures_rules ensures_while_head monitor_walk send_goodbye_callback remove_announcer | assumption | simp)+

lemma entry_free: "all_entries A z \<Longrightarrow> ensures A (avahi_entry_free e z)"
  unfolding avahi_entry_free_def Let_def by (rule ensures_rules mods goodbye_entry all_entries_remove | simp)+

lemma entry_group_free: "all_entries A z \<Longrightarrow> ensures A (avahi_entry_group_free g z)"
  unfolding avahi_entry_group_free_def Let_def by (rule ensures_rules ensures_while_head entry_free | assumption | simp)+

lemma cleanup: "all_entries A z \<Longrightarrow> ensures A (avahi_cleanup_dead_entries z)"
  unfolding avahi_cleanup_dead_entries_def Let_def
  by (rule ensures_rules ensures_for_each entry_group_free entry_free | assumption | simp)+

lemma schedule_cleanup: "all_entries A z \<Longrightarrow> ensures A (schedule_cleanup v z)"
  unfolding schedule_cleanup_def Let_def by (rule ensures_rules | simp)+

lemma kill_entry: "all_entries A z \<Longrightarrow> ensures A (kill_entry send e z)"
  unfolding kill_entry_def by (rule ensures_rules mods goodbye_entry dead | simp)+

lemma group_free: "all_entries A z \<Longrightarrow> ensures A (avahi_s_entry_group_free v g z)"
  unfolding avahi_s_entry_group_free_def
  by (rule ensures_rules ensures_for_each mods kill_entry clear_register_timer schedule_cleanup | assumption | simp)+

lemma group_reset:
  assumes "\<And>g st z. all_entries A z \<Longrightarrow> ensures A (cb g st z)"
  shows "all_entries A z \<Longrightarrow> ensures A (avahi_s_entry_group_reset cb v g z)"
  unfolding avahi_s_entry_group_reset_def Let_def
  by (rule ensures_rules ensures_for_each mods kill_entry change_state [OF assms] schedule_cleanup | assumption | simp)+

lemma commit_real:
  assumes "\<And>g st z. all_entries A z \<Longrightarrow> ensures A (cb g st z)"
  shows "all_entries A z \<Longrightarrow> ensures A (entry_group_commit_real cb v g z)"
  unfolding entry_group_commit_real_def
  by (rule ensures_rules mods change_state [OF assms] announce_group check_probed [OF assms] | assumption | simp)+

lemma register_callback:
  assumes "\<And>g st z. all_entries A z \<Longrightarrow> ensures A (cb g st z)"
  shows "all_entries A z \<Longrightarrow> ensures A (entry_group_register_time_event_callback cb v g z)"
  unfolding entry_group_register_time_event_callback_def
  by (rule ensures_rules clear_register_timer commit_real [OF assms] | assumption | simp)+

lemma group_commit:
  assumes "\<And>g st z. all_entries A z \<Longrightarrow> ensures A (cb g st z)"
  shows "all_entries A z \<Longrightarrow> ensures_fst A (avahi_s_entry_group_commit cb v g z)"
  unfolding avahi_s_entry_group_commit_def Let_def
  by (rule ensures_fst_rules mods commit_real [OF assms] change_state [OF assms] | assumption | simp)+

text \<open>Adding a record keeps the property if the new entry, or the old entry with the new record, has it.\<close>

lemma insert_entry:
  assumes "A \<lparr>e_group = g, e_dead = False, e_flags = f, e_record = r, e_interface = i, e_protocol = p, e_announcers = []\<rparr>"
    and "all_entries A z"
  shows "ensures_fst A (insert_entry v g i p f r z)"
  using assms unfolding insert_entry_def Let_def
  by - (rule ensures_fst_rules ensures_rules mods announce_entry | assumption | simp add: all_entries_set)+

lemma update_entry:
  assumes new: "\<And>y. A y \<Longrightarrow> e_interface y = i \<Longrightarrow> e_protocol y = p \<Longrightarrow> A (y\<lparr>e_record := r, e_flags := f\<rparr>)"
    and "all_entries A z"
  shows "ensures_fst A (update_entry v g i p f r z)"
proof -
  let ?q = "\<lambda>e. do { y \<leftarrow> z_entry z e; Some (\<not> e_dead y \<and> e_group y = g \<and> e_interface y = i \<and> e_protocol y = p) }"
  have "ensures A (mod_entry e (\<lambda>y. y\<lparr>e_record := r, e_flags := f\<rparr>) z)" if "find_first ?q es = Some (Some e)" for e es
  proof -
    from find_first_found [OF that] obtain y where y: "z_entry z e = Some y" "e_interface y = i" "e_protocol y = p"
      by (auto simp: Option.bind_eq_Some_conv)
    with assms(2) have "A y" by (simp add: all_entries_def)
    with y new assms(2) show ?thesis by (simp add: mod_entry_def all_entries_set)
  qed
  then show ?thesis
    unfolding update_entry_def Let_def
    by - (rule ensures_fst_rules ensures_rules goodbye_entry reannounce_entry | assumption | simp add: assms(2))+
qed

end

subsection \<open>The checks of an addition\<close>

text \<open>What \<open>server_add_internal\<close> has checked of every entry it lets in.\<close>

definition admitted :: "avahi_entry \<Rightarrow> bool" where
  "admitted y \<longleftrightarrow> avahi_is_valid_domain_name (key_name (rr_key (e_record y))) \<and> rr_ttl (e_record y) \<noteq> 0 \<and>
     \<not> avahi_key_is_pattern (rr_key (e_record y)) \<and> avahi_record_is_valid (e_record y) = Some True \<and>
     key_clazz (rr_key (e_record y)) = AVAHI_DNS_CLASS_IN \<and> publishable_type (key_type (rr_key (e_record y))) \<and>
     if_valid (e_interface y) \<and> proto_valid (e_protocol y) \<and>
     has_flag (e_flags y) AVAHI_PUBLISH_USE_MULTICAST \<and> \<not> has_flag (e_flags y) AVAHI_PUBLISH_USE_WIDE_AREA"

interpretation admitted: entry_law admitted
  by unfold_locales (simp_all add: admitted_def)

lemma has_flag_or:
  "has_flag f (a OR b) \<longleftrightarrow> has_flag f a \<or> has_flag f b" "has_flag (f OR g) a \<longleftrightarrow> has_flag f a \<or> has_flag g a"
  by (auto simp: has_flag_def bit.conj_disj_distrib bit.conj_disj_distrib2 or_eq_0_iff)

lemma multicast_only:
  assumes "transport_flags_from_domain z f d = Some f'" "has_flag f' AVAHI_PUBLISH_USE_MULTICAST"
  shows "\<not> has_flag f' AVAHI_PUBLISH_USE_WIDE_AREA"
proof -
  have "\<not> has_flag AVAHI_PUBLISH_USE_MULTICAST AVAHI_PUBLISH_USE_WIDE_AREA" "\<not> has_flag AVAHI_PUBLISH_USE_WIDE_AREA AVAHI_PUBLISH_USE_MULTICAST"
    by (simp_all add: has_flag_def publish_defs)
  with assms show ?thesis
    by (auto simp: transport_flags_from_domain_def Option.bind_eq_Some_conv has_flag_or split: if_splits)
qed

lemma server_add_internal_admits:
  assumes "all_entries admitted z"
  shows "ensures_fst admitted (server_add_internal v og i p f r z)"
  unfolding server_add_internal_def
  by (rule ensures_fst_rules admitted.insert_entry admitted.update_entry | assumption
      | simp add: assms admitted_def multicast_only)+

definition callback_admits :: "'o group_callback \<Rightarrow> bool" where
  "callback_admits cb \<longleftrightarrow> (\<forall>g st z z'. all_entries admitted z \<and> cb g st z = Some z' \<longrightarrow> all_entries admitted z')"

lemma zone_exec_admits:
  fixes z :: "'o zone"
  assumes "callback_admits cb" "all_entries admitted z"
  shows "ensures admitted (zone_exec cb v op z)"
proof -
  have cb: "ensures admitted (cb g st z)" if "all_entries admitted z" for g st and z :: "'o zone"
    using assms(1) that by (auto simp: callback_admits_def ensures_def)
  note z = assms(2)
  show ?thesis
  proof (cases op)
    case (Fire a)
    with admitted.next_state [of cb z v a] cb z show ?thesis by (simp add: elapse_announce_def)
  qed (use z cb admitted.register_callback [of cb z v] admitted.cleanup [of z] admitted.announce_interface [of z v]
      admitted.goodbye_interface [of z] admitted.announce_entry [of z v] admitted.reannounce_entry [of z v]
      admitted.return_to_initial_state [of z v] admitted.entry_free [of z] admitted.group_commit [of cb z v]
      admitted.group_reset [of cb z v] admitted.group_free [of z v] server_add_internal_admits [of z v]
      in \<open>simp_all add: cleanup_time_event_callback_def ensures_fst_def avahi_s_entry_group_new_def Let_def\<close>)
qed

lemma zone_reachable_admits:
  assumes "callback_admits cb" "zone_reachable cb z"
  shows "all_entries admitted z"
  using assms(2)
proof induction
  case (start ifs hw js)
  show ?case by (simp add: all_entries_def new_zone_def)
next
  case (step z a v z')
  from ensuresD [OF zone_exec_admits [OF assms(1) step.IH] step.hyps(3)] show ?case .
qed

subsection \<open>Properties\<close>

text \<open>
  C23: a zone holds only records that have passed the checks of an addition. Whatever operations clients and timers
  bring, with clients that add records through the server as well, every entry of a reachable zone, a record put in
  place of an older one by an update included, has a valid domain name, a TTL other than zero, the class IN, a
  type that may be published and no pattern for a key; its data is valid for its type; its interface and
  protocol are valid; and it is published by multicast, and not in the wide area.
\<close>

theorem published_records_admitted:
  assumes "callback_admits cb" "zone_reachable cb z" "z_entry z e = Some y"
  shows "avahi_is_valid_domain_name (key_name (rr_key (e_record y))) \<and> rr_ttl (e_record y) \<noteq> 0 \<and>
    key_clazz (rr_key (e_record y)) = AVAHI_DNS_CLASS_IN \<and> publishable_type (key_type (rr_key (e_record y))) \<and>
    \<not> avahi_key_is_pattern (rr_key (e_record y)) \<and> avahi_record_is_valid (e_record y) = Some True \<and>
    if_valid (e_interface y) \<and> proto_valid (e_protocol y) \<and>
    has_flag (e_flags y) AVAHI_PUBLISH_USE_MULTICAST \<and> \<not> has_flag (e_flags y) AVAHI_PUBLISH_USE_WIDE_AREA"
  using zone_reachable_admits [OF assms(1,2)] assms(3) by (simp add: all_entries_def admitted_def)

theorem published_records_admitted_witness:
  "\<exists>z y. zone_run silent service_group first_zone = Some (z :: 'o zone) \<and> z_entry z 1 = Some y \<and>
    avahi_record_is_valid (e_record y) = Some True \<and> has_flag (e_flags y) AVAHI_PUBLISH_USE_MULTICAST"
proof -
  from service_group_commits obtain z :: "'o zone" and y where
    z: "zone_run silent service_group first_zone = Some z" "z_entry z 1 = Some y" by blast
  have "callback_admits (silent :: 'o group_callback)" by (simp add: callback_admits_def silent_def)
  from published_records_admitted [OF this zone_run_reachable [OF callback_ok_silent' first_zone_reachable z(1)] z(2)] z
  show ?thesis by blast
qed

end
