(* ===== verification/Dnssend.thy ===== *)
theory Dnssend
  imports Dnsmessage
begin

text \<open>
  Putting a packet together: the header fields can be written and read at any time, and a packet in which keys
  and records are appended stays one.
\<close>

lemma name_at_agree:
  assumes "name_at M n off ls e" "AVAHI_DNS_PACKET_HEADER_SIZE \<le> off" "\<And>i. AVAHI_DNS_PACKET_HEADER_SIZE \<le> i \<Longrightarrow> M' i = M i"
  shows "name_at M' n off ls e"
  using assms(1,2)
proof (induction rule: name_at.induct)
  case (name_end off)
  then show ?case using assms(3) by (intro name_at.name_end) (auto simp: bytes_at_def)
next
  case (name_label l off n ls e)
  then show ?case using assms(3) by (intro name_at.name_label) (auto simp: bytes_at_def)
next
  case (name_jump off t n ls e)
  then show ?case using assms(3) by (intro name_at.name_jump [of _ _ t]) (auto simp: bytes_at_def)
qed

lemma set_field_ok:
  assumes "write_ok {} p" "idx < 6"
  shows "\<exists>p'. avahi_dns_packet_set_field p idx v = Some p' \<and> write_ok {} p' \<and> p_size p' = p_size p \<and> p_max_size p' = p_max_size p"
proof -
  have l: "length (p_data p) = p_max_size p" "p_size p \<le> p_max_size p" "AVAHI_DNS_PACKET_HEADER_SIZE \<le> p_size p"
    using assms(1) by (simp_all add: write_ok_def packet_ok_def)
  let ?d = "take (2 * idx) (p_data p) @ u16_bytes v @ drop (2 * idx + 2) (p_data p)"
  let ?p = "p\<lparr>p_data := ?d\<rparr>"
  have b: "2 * idx + 2 \<le> AVAHI_DNS_PACKET_HEADER_SIZE" using assms(2) by (simp add: AVAHI_DNS_PACKET_HEADER_SIZE_def)
  have ld: "length ?d = length (p_data p)" using b l by simp
  have nth: "?d ! i = p_data p ! i" if "AVAHI_DNS_PACKET_HEADER_SIZE \<le> i" "i < length (p_data p)" for i
  proof -
    from that b obtain k where "i = 2 * idx + 2 + k" using le_Suc_ex [of "2 * idx + 2" i] by auto
    with that b l show ?thesis by (simp add: nth_append)
  qed
  have m: "mem {} ?p i = mem {} p i" if "AVAHI_DNS_PACKET_HEADER_SIZE \<le> i" for i
    using nth [OF that] l by (simp add: mem_def)
  have "entry_ok (mem {} ?p) k a" if "tbl ?p k = Some a" for k a
  proof -
    have "entry_ok (mem {} p) k a" using assms(1) that by (simp add: write_ok_def tbl_def)
    then obtain ls n e where e: "good_labels ls" "k = join_labels ls" "AVAHI_DNS_PACKET_HEADER_SIZE \<le> a" "name_at (mem {} p) n a ls e" "n \<le> 2 * length ls"
      by (auto simp: entry_ok_def)
    from name_at_agree [OF e(4,3) m] e show ?thesis unfolding entry_ok_def by blast
  qed
  then have "write_ok {} ?p" using assms(1) ld by (simp add: write_ok_def packet_ok_def)
  moreover have "avahi_dns_packet_set_field p idx v = Some ?p"
    using b l assms(2) by (simp add: avahi_dns_packet_set_field_def p_write_def AVAHI_DNS_PACKET_HEADER_SIZE_def)
  ultimately show ?thesis by simp
qed

lemma get_field_ok:
  assumes "write_ok {} p" "idx < 6"
  shows "\<exists>v. avahi_dns_packet_get_field p idx = Some v"
  using assms by (simp add: avahi_dns_packet_get_field_def p_slice_def write_ok_def packet_ok_def AVAHI_DNS_PACKET_HEADER_SIZE_def)

lemma packet_free_ok: "write_ok {} p \<Longrightarrow> \<exists>m. avahi_dns_packet_free p = Some m"
  using string_key.free_result by (fastforce simp: write_ok_def packet_ok_def avahi_dns_packet_free_def split: option.splits)

lemma same_packet_sizes:
  assumes "write_ok {} p" "same_packet p p'"
  shows "write_ok {} p'" "p_size p' = p_size p" "p_max_size p' = p_max_size p"
  using write_ok_extends [OF assms(1), of p'] assms(2) by (auto simp: same_packet_def extends_def)

text \<open>Appending a key or record to a packet that is being put together.\<close>

lemma append_key_cases:
  assumes "write_ok {} p" "sendable_key k"
  obtains p' r where "avahi_dns_packet_append_key k u p = Some (p', r)" "write_ok {} p'" "p_max_size p' = p_max_size p"
    "p_size p + key_size k \<le> p_max_size p \<Longrightarrow> r \<noteq> None" "p_size p \<le> p_size p'" "r = None \<Longrightarrow> p_size p' = p_size p"
proof -
  from append_key_ok [OF assms, of u] obtain p' r where
    r: "avahi_dns_packet_append_key k u p = Some (p', r)" "p_size p + key_size k \<le> p_max_size p \<longrightarrow> r \<noteq> None \<and> p_size p' \<le> p_size p + key_size k"
      "case r of None \<Rightarrow> same_packet p p' | Some t \<Rightarrow> extends p p' \<and> write_ok {} p' \<and> t = p_size p \<and> key_bytes (mem {} p') (p_size p) k u (p_size p')"
    unfolding appends_or_same_def by auto
  show thesis
  proof (cases r)
    case None
    with r same_packet_sizes [OF assms(1), of p'] show thesis by (intro that [of p' r]) auto
  next
    case (Some t)
    with r show thesis by (intro that [of p' r]) (auto simp: extends_def)
  qed
qed

lemma append_record_cases:
  assumes "write_ok {} p" "sendable x"
  obtains p' r where "avahi_dns_packet_append_record x cf max_ttl p = Some (p', r)" "write_ok {} p'" "p_max_size p' = p_max_size p"
    "p_size p + record_size x \<le> p_max_size p \<Longrightarrow> r \<noteq> None" "p_size p \<le> p_size p'" "r = None \<Longrightarrow> p_size p' = p_size p" "r \<noteq> None \<Longrightarrow> p_size p < p_size p'"
proof -
  from append_record_ok [OF assms, of cf max_ttl] obtain p' r where
    r: "avahi_dns_packet_append_record x cf max_ttl p = Some (p', r)"
      "p_size p + record_size x \<le> p_max_size p \<longrightarrow> r \<noteq> None \<and> p_size p' \<le> p_size p + record_size x"
      "case r of None \<Rightarrow> same_packet p p' | Some t \<Rightarrow> extends p p' \<and> write_ok {} p' \<and> t = p_size p \<and> record_bytes (mem {} p') (p_size p) x cf max_ttl (p_size p')"
    unfolding appends_or_same_def by auto
  show thesis
  proof (cases r)
    case None
    with r same_packet_sizes [OF assms(1), of p'] show thesis by (intro that [of p' r]) auto
  next
    case (Some t)
    with r have "item_bytes (mem {} p') (p_size p) (Record x cf max_ttl) (p_size p')" by simp
    moreover have "sendable_item (Record x cf max_ttl)" using assms(2) by simp
    ultimately have "p_size p < p_size p'" using item_bytes_less by blast
    with r Some show thesis by (intro that [of p' r]) (auto simp: extends_def)
  qed
qed

lemma new_query_ok:
  obtains p where "avahi_dns_packet_new_query mtu = Some p" "write_ok {} p" "p_size p = AVAHI_DNS_PACKET_HEADER_SIZE"
    "p_max_size p = p_max_size (avahi_dns_packet_new mtu)"
proof -
  from set_field_ok [OF write_ok_new, of AVAHI_DNS_FIELD_FLAGS mtu] obtain p where
    p: "avahi_dns_packet_new_query mtu = Some p" "write_ok {} p" "p_max_size p = p_max_size (avahi_dns_packet_new mtu)"
    by (force simp: avahi_dns_packet_new_query_def AVAHI_DNS_FIELD_FLAGS_def)
  from p(1) have "fresh p" by (auto simp: fresh_def)
  from that [OF p(1,2) fresh_ok(2) [OF this] p(3)] show thesis .
qed

lemma query_room: "mtu \<ge> 60 \<Longrightarrow> p_max_size (avahi_dns_packet_new mtu) = mtu - 48"
  by (simp add: avahi_dns_packet_new_def Let_def AVAHI_DNS_PACKET_EXTRA_SIZE_def AVAHI_DNS_PACKET_HEADER_SIZE_def)

lemma packet_empty_iff: "write_ok {} p \<Longrightarrow> avahi_dns_packet_is_empty p \<longleftrightarrow> p_size p = AVAHI_DNS_PACKET_HEADER_SIZE"
  by (auto simp: avahi_dns_packet_is_empty_def write_ok_def)

text \<open>A key of less than 256 bytes fits into a packet for an MTU of 512 or more.\<close>

lemma wire_length_dotted: "wire_length ls \<le> length (dotted ls) + 1"
proof (induction ls)
  case (Cons l ls)
  with length_escaped(1) [of l] show ?case by simp
qed simp

lemma key_size_bound:
  assumes "sendable_key k"
  shows "key_size k \<le> 262"
proof -
  from assms obtain ls where ls: "labels_of (key_name k) = Some ls" "join_labels ls = key_name k" "length (key_name k) < 256"
    by (auto simp: sendable_key_def wire_name_def split: option.splits)
  have "length (dotted ls) \<le> length (key_name k) + 1" unfolding ls(2) [symmetric] by (cases ls) simp_all
  with wire_length_dotted [of ls] ls(1,3) show ?thesis by (simp add: key_size_def name_size_def)
qed

subsection \<open>What a packet carries\<close>

text \<open>Names, keys and records are found again when only the header changes.\<close>

definition same_body :: "(nat \<rightharpoonup> byte) \<Rightarrow> (nat \<rightharpoonup> byte) \<Rightarrow> bool" where
  "same_body M M' \<longleftrightarrow> (\<forall>i. AVAHI_DNS_PACKET_HEADER_SIZE \<le> i \<longrightarrow> M' i = M i)"

lemma bytes_at_agree:
  assumes "bytes_at M off bs" "AVAHI_DNS_PACKET_HEADER_SIZE \<le> off" "same_body M M'"
  shows "bytes_at M' off bs"
  using assms by (auto simp: bytes_at_def same_body_def)

lemma name_bytes_agree:
  assumes "name_bytes M off n e" "AVAHI_DNS_PACKET_HEADER_SIZE \<le> off" "same_body M M'"
  shows "name_bytes M' off n e"
  using assms(1,3) name_at_agree [OF _ assms(2), of M _ _ _ M'] unfolding name_bytes_def same_body_def by blast

lemma data_bytes_agree:
  assumes "data_bytes M off d e" "AVAHI_DNS_PACKET_HEADER_SIZE \<le> off" "same_body M M'"
  shows "data_bytes M' off d e"
proof -
  have b: "bytes_at M off bs \<Longrightarrow> bytes_at M' off bs" for bs using bytes_at_agree [OF _ assms(2,3)] by blast
  have n: "name_bytes M off n e \<Longrightarrow> name_bytes M' off n e" "name_bytes M (off + 6) n e \<Longrightarrow> name_bytes M' (off + 6) n e" for n
    using name_bytes_agree [OF _ _ assms(3)] assms(2) by (simp_all)
  show ?thesis using assms(1) b n by (auto simp: data_bytes_def split: rdata.splits option.splits)
qed

lemma item_bytes_agree:
  assumes "item_bytes M off i e" "AVAHI_DNS_PACKET_HEADER_SIZE \<le> off" "same_body M M'"
  shows "item_bytes M' off i e"
proof (cases i)
  case (Question k u)
  from assms(1) [unfolded Question] obtain e1 where e1: "name_bytes M off (key_name k) e1" "bytes_at M e1 (u16_bytes (key_type k))"
    "bytes_at M (e1 + 2) (u16_bytes (key_clazz k OR (if u then AVAHI_DNS_UNICAST_RESPONSE else 0)))" "e = e1 + 2 + 2"
    unfolding item_bytes.simps key_bytes_def by blast
  have "off < e1" using name_bytes_size [OF e1(1)] by simp
  then have o: "AVAHI_DNS_PACKET_HEADER_SIZE \<le> e1" "AVAHI_DNS_PACKET_HEADER_SIZE \<le> e1 + 2" using assms(2) by simp_all
  from name_bytes_agree [OF e1(1) assms(2,3)] bytes_at_agree [OF e1(2) o(1) assms(3)] bytes_at_agree [OF e1(3) o(2) assms(3)] e1(4) Question
  show ?thesis unfolding Question item_bytes.simps key_bytes_def by blast
next
  case (Record r cf max_ttl)
  from assms(1) [unfolded Record] obtain e1 where e1: "name_bytes M off (key_name (rr_key r)) e1" "bytes_at M e1 (u16_bytes (key_type (rr_key r)))"
    "bytes_at M (e1 + 2) (u16_bytes (record_class (key_clazz (rr_key r)) cf))"
    "bytes_at M (e1 + 2 + 2) (u32_bytes (record_ttl (rr_ttl r) max_ttl))"
    "bytes_at M (e1 + 2 + 2 + 4) (u16_bytes (u16_of (e - (e1 + 2 + 2 + 4 + 2))))"
    "data_bytes M (e1 + 2 + 2 + 4 + 2) (rr_data r) e" unfolding item_bytes.simps record_bytes_def by blast
  have "off < e1" using name_bytes_size [OF e1(1)] by simp
  then have o: "AVAHI_DNS_PACKET_HEADER_SIZE \<le> e1" "AVAHI_DNS_PACKET_HEADER_SIZE \<le> e1 + 2" "AVAHI_DNS_PACKET_HEADER_SIZE \<le> e1 + 2 + 2"
    "AVAHI_DNS_PACKET_HEADER_SIZE \<le> e1 + 2 + 2 + 4" "AVAHI_DNS_PACKET_HEADER_SIZE \<le> e1 + 2 + 2 + 4 + 2" using assms(2) by simp_all
  from name_bytes_agree [OF e1(1) assms(2,3)] bytes_at_agree [OF e1(2) o(1) assms(3)] bytes_at_agree [OF e1(3) o(2) assms(3)]
    bytes_at_agree [OF e1(4) o(3) assms(3)] bytes_at_agree [OF e1(5) o(4) assms(3)] data_bytes_agree [OF e1(6) o(5) assms(3)]
  show ?thesis unfolding Record item_bytes.simps record_bytes_def by blast
qed

lemma item_bytes_mono:
  assumes "item_bytes M off i e" "M \<subseteq>\<^sub>m M'"
  shows "item_bytes M' off i e"
proof (cases i)
  case (Question k u)
  from assms(1) [unfolded Question] obtain e1 where e1: "name_bytes M off (key_name k) e1" "bytes_at M e1 (u16_bytes (key_type k))"
    "bytes_at M (e1 + 2) (u16_bytes (key_clazz k OR (if u then AVAHI_DNS_UNICAST_RESPONSE else 0)))" "e = e1 + 2 + 2"
    unfolding item_bytes.simps key_bytes_def by blast
  from name_bytes_mono [OF e1(1) assms(2)] bytes_at_mono [OF assms(2) e1(2)] bytes_at_mono [OF assms(2) e1(3)] e1(4)
  show ?thesis unfolding Question item_bytes.simps key_bytes_def by blast
next
  case (Record r cf max_ttl)
  from assms(1) [unfolded Record] obtain e1 where e1: "name_bytes M off (key_name (rr_key r)) e1" "bytes_at M e1 (u16_bytes (key_type (rr_key r)))"
    "bytes_at M (e1 + 2) (u16_bytes (record_class (key_clazz (rr_key r)) cf))"
    "bytes_at M (e1 + 2 + 2) (u32_bytes (record_ttl (rr_ttl r) max_ttl))"
    "bytes_at M (e1 + 2 + 2 + 4) (u16_bytes (u16_of (e - (e1 + 2 + 2 + 4 + 2))))"
    "data_bytes M (e1 + 2 + 2 + 4 + 2) (rr_data r) e" unfolding item_bytes.simps record_bytes_def by blast
  note b = bytes_at_mono [OF assms(2)]
  from name_bytes_mono [OF e1(1) assms(2)] b [OF e1(2)] b [OF e1(3)] b [OF e1(4)] b [OF e1(5)] data_bytes_mono [OF e1(6) assms(2)]
  show ?thesis unfolding Record item_bytes.simps record_bytes_def by blast
qed

fun items_bytes :: "(nat \<rightharpoonup> byte) \<Rightarrow> nat \<Rightarrow> item list \<Rightarrow> nat \<Rightarrow> bool" where
  "items_bytes M off [] e \<longleftrightarrow> e = off"
| "items_bytes M off (i # is) e \<longleftrightarrow> (\<exists>e1. item_bytes M off i e1 \<and> items_bytes M e1 is e)"

lemma items_bytes_mono: "items_bytes M off is e \<Longrightarrow> M \<subseteq>\<^sub>m M' \<Longrightarrow> items_bytes M' off is e"
  by (induction "is" arbitrary: off) (auto dest: item_bytes_mono)

lemma items_bytes_append:
  "items_bytes M off (is @ [i]) e \<longleftrightarrow> (\<exists>e1. items_bytes M off is e1 \<and> item_bytes M e1 i e)"
  by (induction "is" arbitrary: off) auto

lemma items_bytes_agree:
  assumes "items_bytes M off is e" "list_all sendable_item is" "AVAHI_DNS_PACKET_HEADER_SIZE \<le> off"
    "same_body M M'"
  shows "items_bytes M' off is e"
  using assms(1-3)
proof (induction "is" arbitrary: off)
  case (Cons i "is")
  then obtain e1 where e1: "item_bytes M off i e1" "items_bytes M e1 is e" by auto
  have "off < e1" using item_bytes_less [OF e1(1)] Cons.prems(2) by simp
  with Cons.IH [OF e1(2)] Cons.prems item_bytes_agree [OF e1(1) Cons.prems(3) assms(4)] show ?case by auto
qed simp

lemma gets_items:
  "items_bytes M off is e \<Longrightarrow> list_all sendable_item is \<Longrightarrow> gets M off (consume_items is) (map item_as_received is) e"
proof (induction "is" arbitrary: off)
  case Nil
  then show ?case by (simp add: gets_yields)
next
  case (Cons i "is")
  then obtain e1 where e1: "item_bytes M off i e1" "items_bytes M e1 is e" by auto
  from gets_then [OF gets_item [OF e1(1)] gets_then [OF Cons.IH [OF e1(2)] gets_yields], of "\<lambda>x xs. x # xs"] Cons.prems(2)
  show ?case by simp
qed

text \<open>
  The packet \<open>p\<close> carries the keys and records \<open>is\<close>, one after the other from the end of the header to its
  own end: whoever receives it reads them.
\<close>

definition carries :: "packet \<Rightarrow> item list \<Rightarrow> bool" where
  "carries p is \<longleftrightarrow> write_ok {} p \<and> list_all sendable_item is \<and> items_bytes (mem {} p) AVAHI_DNS_PACKET_HEADER_SIZE is (p_size p)"

lemma carries_received: "carries p is \<Longrightarrow> gets (mem {} p) AVAHI_DNS_PACKET_HEADER_SIZE (consume_items is) (map item_as_received is) (p_size p)"
  unfolding carries_def using gets_items by blast

lemma carries_ok: "carries p is \<Longrightarrow> write_ok {} p"
  by (simp add: carries_def)

lemma carries_nothing: "carries p [] \<longleftrightarrow> write_ok {} p \<and> p_size p = AVAHI_DNS_PACKET_HEADER_SIZE"
  by (simp add: carries_def)

text \<open>An operation that fails leaves the packet carrying what it carried, one that succeeds adds to it; the header stays.\<close>

definition header :: "packet \<Rightarrow> byte list" where
  "header p = take AVAHI_DNS_PACKET_HEADER_SIZE (p_data p)"

lemma append_item_carries:
  assumes "carries p is" "sendable_item i"
  obtains p' r where "append_item i p = Some (p', r)" "carries p' (if r = None then is else is @ [i])" "header p' = header p"
    "p_max_size p' = p_max_size p" "p_size p + item_size i \<le> p_max_size p \<Longrightarrow> r \<noteq> None" "r = None \<Longrightarrow> p_size p' = p_size p"
    "r \<noteq> None \<Longrightarrow> p_size p < p_size p'"
proof -
  have w: "write_ok {} p" "list_all sendable_item is" "items_bytes (mem {} p) AVAHI_DNS_PACKET_HEADER_SIZE is (p_size p)"
    using assms(1) by (simp_all add: carries_def)
  obtain p' r where r: "append_item i p = Some (p', r)"
      "p_size p + item_size i \<le> p_max_size p \<longrightarrow> r \<noteq> None \<and> p_size p' \<le> p_size p + item_size i"
      "case r of None \<Rightarrow> same_packet p p'
        | Some t \<Rightarrow> extends p p' \<and> write_ok {} p' \<and> t = p_size p \<and> item_bytes (mem {} p') (p_size p) i (p_size p')"
    using append_item_ok [OF w(1) assms(2)] unfolding appends_or_same_def by auto
  have x: "extends p p'" "write_ok {} p'"
    using r(3) same_packet_sizes(1) [OF w(1)] by (auto simp: same_packet_def split: option.splits)
  have m: "items_bytes (mem {} p') AVAHI_DNS_PACKET_HEADER_SIZE is (p_size p)"
    by (rule items_bytes_mono [OF w(3) extends_mem [OF x(1)]])
  have h: "header p' = header p"
    using x(1) w(1) take_eq_mono [of "p_size p" "p_data p'" "p_data p"] by (auto simp: extends_def header_def write_ok_def)
  have "carries p' (if r = None then is else is @ [i])" "r = None \<longrightarrow> p_size p' = p_size p" "r \<noteq> None \<longrightarrow> p_size p < p_size p'"
  proof -
    show "r = None \<longrightarrow> p_size p' = p_size p" using r(3) by (auto simp: same_packet_def)
    with m x(2) w(2) assms(2) r(3) show "carries p' (if r = None then is else is @ [i])"
      by (auto simp: carries_def items_bytes_append)
    show "r \<noteq> None \<longrightarrow> p_size p < p_size p'" using r(3) item_bytes_less [OF _ assms(2)] by auto
  qed
  moreover have "p_max_size p' = p_max_size p" using x(1) by (simp add: extends_def)
  ultimately show thesis using that [of p' r] r(1,2) h by blast
qed

text \<open>The fields of the header.\<close>

definition field :: "packet \<Rightarrow> nat \<Rightarrow> u16" where
  "field p idx = bytes_u16 (take 2 (drop (2 * idx) (header p)))"

lemma get_field_eq:
  assumes "write_ok {} p" "idx < 6"
  shows "avahi_dns_packet_get_field p idx = Some (field p idx)"
proof -
  have l: "length (p_data p) \<ge> 12" using assms(1) by (auto simp: write_ok_def packet_ok_def AVAHI_DNS_PACKET_HEADER_SIZE_def)
  have "take 2 (drop (2 * idx) (take 12 (p_data p))) = take 2 (drop (2 * idx) (p_data p))"
    using assms(2) by (simp add: drop_take)
  with l assms(2) show ?thesis
    by (simp add: avahi_dns_packet_get_field_def p_slice_def field_def header_def AVAHI_DNS_PACKET_HEADER_SIZE_def)
qed

lemma field_update:
  assumes "length h = 12" "idx < 6"
  shows "take 2 (drop (2 * j) (take (2 * idx) h @ u16_bytes v @ drop (2 * idx + 2) h)) =
    (if j = idx then u16_bytes v else take 2 (drop (2 * j) h))"
proof -
  consider "j < idx" | "j = idx" | "idx < j" by linarith
  then show ?thesis
  proof cases
    case 1
    with assms show ?thesis by (simp add: drop_take)
  next
    case 2
    with assms show ?thesis by simp
  next
    case 3
    then obtain k where "j = idx + 1 + k" using less_imp_Suc_add [of idx j] by auto
    with assms show ?thesis by (simp add: add.commute)
  qed
qed

lemma set_field_carries:
  assumes "carries p is" "idx < 6"
  obtains p' where "avahi_dns_packet_set_field p idx v = Some p'" "carries p' is" "p_size p' = p_size p" "p_max_size p' = p_max_size p"
    "field p' = (field p)(idx := v)"
proof -
  have w: "write_ok {} p" "list_all sendable_item is" "items_bytes (mem {} p) AVAHI_DNS_PACKET_HEADER_SIZE is (p_size p)"
    using assms(1) by (simp_all add: carries_def)
  have l: "12 \<le> p_max_size p" "length (p_data p) = p_max_size p" using w(1) by (auto simp: write_ok_def packet_ok_def AVAHI_DNS_PACKET_HEADER_SIZE_def)
  from set_field_ok [OF w(1) assms(2), of v] obtain p' where
    p': "avahi_dns_packet_set_field p idx v = Some p'" "write_ok {} p'" "p_size p' = p_size p" "p_max_size p' = p_max_size p" by blast
  from p'(1) have d: "p_data p' = take (2 * idx) (p_data p) @ u16_bytes v @ drop (2 * idx + 2) (p_data p)"
    by (auto simp: avahi_dns_packet_set_field_def p_write_def Option.bind_eq_Some_conv split: if_splits)
  have h: "header p' = take (2 * idx) (header p) @ u16_bytes v @ drop (2 * idx + 2) (header p)"
    using l assms(2) by (simp add: header_def d AVAHI_DNS_PACKET_HEADER_SIZE_def min_def drop_take)
  have m: "mem {} p' i = mem {} p i" if "AVAHI_DNS_PACKET_HEADER_SIZE \<le> i" for i
  proof -
    have "2 * idx + 2 \<le> i" using that assms(2) by (simp add: AVAHI_DNS_PACKET_HEADER_SIZE_def)
    then obtain k where "i = 2 * idx + 2 + k" using le_Suc_ex by blast
    with l assms(2) p'(3) show ?thesis by (simp add: mem_def d nth_append)
  qed
  then have "same_body (mem {} p) (mem {} p')" by (simp add: same_body_def)
  from items_bytes_agree [OF w(3,2) _ this] p'(2,3) w(2) have "carries p' is" by (simp add: carries_def)
  moreover have lh: "length (header p) = 12" using l by (simp add: header_def AVAHI_DNS_PACKET_HEADER_SIZE_def)
  have "field p' j = ((field p)(idx := v)) j" for j
    unfolding field_def h field_update [OF lh assms(2)] by (simp add: u16_roundtrip field_def)
  then have "field p' = (field p)(idx := v)" by blast
  ultimately show thesis using that p' by blast
qed

lemma new_query_carries:
  obtains p where "avahi_dns_packet_new_query mtu = Some p" "carries p []" "field p = (\<lambda>j. if j < 6 then 0 else bytes_u16 [])"
    "p_max_size p = p_max_size (avahi_dns_packet_new mtu)"
proof -
  let ?n = "avahi_dns_packet_new mtu"
  have c: "carries ?n []" using write_ok_new [of mtu] by (simp add: carries_nothing avahi_dns_packet_new_def Let_def)
  have h: "header ?n = replicate 12 0"
    by (simp add: header_def avahi_dns_packet_new_def Let_def AVAHI_DNS_PACKET_HEADER_SIZE_def min_def)
  have f: "field ?n = (\<lambda>j. if j < 6 then 0 else bytes_u16 [])"
  proof
    fix j
    show "field ?n j = (if j < 6 then 0 else bytes_u16 [])"
    proof (cases "j < 6")
      case True
      then have "min 2 (12 - 2 * j) = 2" by simp
      then have "take 2 (drop (2 * j) (replicate 12 (0::byte))) = [0, 0]" by (simp add: numeral_2_eq_2)
      with True show ?thesis by (simp add: field_def h bytes_u16_def)
    qed (simp add: field_def h)
  qed
  from set_field_carries [OF c, of AVAHI_DNS_FIELD_FLAGS] obtain p where
    p: "avahi_dns_packet_new_query mtu = Some p" "carries p []" "p_max_size p = p_max_size ?n" "field p = (field ?n)(AVAHI_DNS_FIELD_FLAGS := 0)"
    by (auto simp: avahi_dns_packet_new_query_def AVAHI_DNS_FLAGS_def AVAHI_DNS_FIELD_FLAGS_def)
  have "field p = field ?n" using f p(4) by (auto simp: AVAHI_DNS_FIELD_FLAGS_def)
  with that p f show thesis by metis
qed

end
