(* ===== verification/Querysched.thy ===== *)
theory Querysched
  imports Jobs Cacherun Dnsmessage
begin

text \<open>
  The scheduler of the queries of an interface (avahi-core/query-sched.c): a query waits up to 100 ms, takes
  along the other queries that are waiting, and the records the cache has for them as known answers; a
  question that was asked within the last 100 ms is not asked again. The cache of the interface and its MTU
  are arguments. The list \<open>known_answers\<close> of the scheduler holds the records of the jobs.
\<close>

subsection \<open>Jobs\<close>

definition AVAHI_QUERY_HISTORY_MSEC :: nat where "AVAHI_QUERY_HISTORY_MSEC = 100"
definition AVAHI_QUERY_DEFER_MSEC :: nat where "AVAHI_QUERY_DEFER_MSEC = 100"

definition AVAHI_DNS_FIELD_ANCOUNT :: nat where "AVAHI_DNS_FIELD_ANCOUNT = 3"
definition AVAHI_DNS_FLAG_TC :: u16 where "AVAHI_DNS_FLAG_TC = 0x0200"

record query_job = job +
  q_id :: u32
  q_n_posted :: int
  q_key :: rrkey

record 'o query_scheduler = "(query_job, 'o) sched" +
  q_next_id :: u32
  q_known_answers :: "rr list"

definition query_job_new :: "rrkey \<Rightarrow> job_state \<Rightarrow> timeval \<Rightarrow> 'o query_scheduler \<Rightarrow> 'o query_scheduler \<times> nat" where
  "query_job_new key st delivery s =
     (let id = q_next_id s; s = s\<lparr>q_next_id := id + 1\<rparr>
      in job_new \<lparr>j_time_event = None, j_state = st, j_delivery = delivery, q_id = id, q_n_posted = 1, q_key = key\<rparr> s)"

definition query_job_free :: "nat \<Rightarrow> 'o query_scheduler \<Rightarrow> 'o query_scheduler outcome" where
  [simp]: "query_job_free = job_free"

definition query_job_set_elapse_time :: "env \<Rightarrow> nat \<Rightarrow> nat \<Rightarrow> nat \<Rightarrow> 'o query_scheduler \<Rightarrow> 'o query_scheduler outcome" where
  [simp]: "query_job_set_elapse_time = job_set_elapse_time"

definition query_job_mark_done :: "env \<Rightarrow> nat \<Rightarrow> 'o query_scheduler \<Rightarrow> 'o query_scheduler outcome" where
  [simp]: "query_job_mark_done v = job_mark_done v AVAHI_QUERY_HISTORY_MSEC"

definition avahi_query_scheduler_new :: "'o job_timer teq \<Rightarrow> jitter_state \<Rightarrow> 'o query_scheduler" where
  "avahi_query_scheduler_new q jit =
     \<lparr>s_job = (\<lambda>_. None), s_next = 0, s_jobs = [], s_history = [], s_suppressed = [], s_time_event_queue = q, s_jitter = jit,
      s_sent = [], q_next_id = 0, q_known_answers = []\<rparr>"

definition avahi_query_scheduler_clear :: "'o query_scheduler \<Rightarrow> 'o query_scheduler outcome" where
  "avahi_query_scheduler_clear s = scheduler_clear s"

definition avahi_query_scheduler_free :: "'o query_scheduler \<Rightarrow> 'o query_scheduler outcome" where
  "avahi_query_scheduler_free s = do { assert_that (q_known_answers s = []); avahi_query_scheduler_clear s }"

subsection \<open>Sending\<close>

text \<open>The cache that is walked over, with the list of the known answers that grows on the way.\<close>

record 'c walked_cache = "'c cache" +
  w_known_answers :: "rr list"

definition known_answer_walk_callback :: "env \<Rightarrow> nat \<Rightarrow> 'c walked_cache \<Rightarrow> (unit option \<times> 'c walked_cache) outcome" where
  "known_answer_walk_callback v e w = do {
     x \<leftarrow> c_heap w e;
     if avahi_cache_entry_half_ttl v x then Some (None, w)
     else Some (None, w\<lparr>w_known_answers := ce_record x # w_known_answers w\<rparr>)
   }"

definition packet_add_query_job ::
  "env \<Rightarrow> 'c cache \<Rightarrow> nat \<Rightarrow> packet \<Rightarrow> 'o query_scheduler \<Rightarrow> ('o query_scheduler \<times> packet \<times> bool) outcome" where
  "packet_add_query_job v c j p s = do {
     x \<leftarrow> s_job s j;
     (p, r) \<leftarrow> avahi_dns_packet_append_key (q_key x) False p;
     if r = None then Some (s, p, False)
     else do {
       (_, w) \<leftarrow> avahi_cache_walk (cache.extend c (walked_cache.fields (q_known_answers s))) (q_key x) (known_answer_walk_callback v);
       let s = s\<lparr>q_known_answers := w_known_answers w\<rparr>;
       s \<leftarrow> query_job_mark_done v j s;
       Some (s, p, True)
     }
   }"

definition avahi_interface_send_packet :: "packet \<Rightarrow> ('j, 'o, 'z) sched_scheme \<Rightarrow> ('j, 'o, 'z) sched_scheme" where
  "avahi_interface_send_packet p s = s\<lparr>s_sent := s_sent s @ [p]\<rparr>"

text \<open>The inner loop of \<open>append_known_answers_and_send\<close>; the last component of the result is \<open>too_large\<close>.\<close>

partial_function (option) append_known_answer ::
  "nat \<Rightarrow> rr \<Rightarrow> nat \<Rightarrow> packet \<Rightarrow> 'o query_scheduler \<Rightarrow> ('o query_scheduler \<times> packet \<times> nat \<times> bool) option" where
  "append_known_answer mtu r n p s =
     Option.bind (avahi_dns_packet_append_record r False 0 p) (\<lambda>(p, t).
       if t \<noteq> None then Some (s, p, n, False)
       else if avahi_dns_packet_is_empty p then Some (s, p, n, True)
       else Option.bind (avahi_dns_packet_get_field p AVAHI_DNS_FIELD_FLAGS) (\<lambda>f.
         Option.bind (avahi_dns_packet_set_field p AVAHI_DNS_FIELD_FLAGS (f OR AVAHI_DNS_FLAG_TC)) (\<lambda>p.
         Option.bind (avahi_dns_packet_set_field p AVAHI_DNS_FIELD_ANCOUNT (of_nat n)) (\<lambda>p.
         Option.bind (avahi_dns_packet_free p) (\<lambda>_.
         Option.bind (avahi_dns_packet_new_query mtu) (\<lambda>p'.
           append_known_answer mtu r 0 p' (avahi_interface_send_packet p s)))))))"

fun append_known_answers_and_send :: "nat \<Rightarrow> rr list \<Rightarrow> nat \<Rightarrow> packet \<Rightarrow> 'o query_scheduler \<Rightarrow> 'o query_scheduler outcome" where
  "append_known_answers_and_send mtu [] n p s = do {
     p \<leftarrow> avahi_dns_packet_set_field p AVAHI_DNS_FIELD_ANCOUNT (of_nat n);
     let s = avahi_interface_send_packet p s;
     _ \<leftarrow> avahi_dns_packet_free p;
     Some s
   }"
| "append_known_answers_and_send mtu (ka # kas) n p s = do {
     (s, p, n, too_large) \<leftarrow> append_known_answer mtu ka n p s;
     let s = s\<lparr>q_known_answers := kas\<rparr>;
     append_known_answers_and_send mtu kas (if too_large then n else n + 1) p s
   }"

text \<open>The loop that fills up the packet; \<open>n\<close> counts the queries in it.\<close>

partial_function (option) fill_with_queries ::
  "env \<Rightarrow> 'c cache \<Rightarrow> nat \<Rightarrow> packet \<Rightarrow> 'o query_scheduler \<Rightarrow> ('o query_scheduler \<times> packet \<times> nat) option" where
  "fill_with_queries v c n p s =
     (case s_jobs s of
        [] \<Rightarrow> Some (s, p, n)
      | j # _ \<Rightarrow> Option.bind (packet_add_query_job v c j p s) (\<lambda>(s, p, b).
          if b then fill_with_queries v c (n + 1) p s else Some (s, p, n)))"

definition query_elapse_callback :: "env \<Rightarrow> 'c cache \<Rightarrow> nat \<Rightarrow> nat \<Rightarrow> 'o query_scheduler \<Rightarrow> 'o query_scheduler outcome" where
  "query_elapse_callback v c mtu j s = do {
     x \<leftarrow> s_job s j;
     if j_state x = AVAHI_DONE then query_job_free j s
     else do {
       assert_that (q_known_answers s = []);
       p \<leftarrow> avahi_dns_packet_new_query mtu;
       (s, p, b) \<leftarrow> packet_add_query_job v c j p s;
       assert_that b;
       (s, p, n) \<leftarrow> fill_with_queries v c 1 p s;
       p \<leftarrow> avahi_dns_packet_set_field p AVAHI_DNS_FIELD_QDCOUNT (of_nat n);
       append_known_answers_and_send mtu (q_known_answers s) 0 p s
     }
   }"

subsection \<open>Posting and withdrawing\<close>

definition find_scheduled_query :: "rrkey \<Rightarrow> 'o query_scheduler \<Rightarrow> nat option outcome" where
  "find_scheduled_query key s = find_job (\<lambda>x. avahi_key_equal (q_key x) key) AVAHI_SCHEDULED s"

definition find_history_query :: "env \<Rightarrow> rrkey \<Rightarrow> 'o query_scheduler \<Rightarrow> ('o query_scheduler \<times> nat option) outcome" where
  "find_history_query v key s =
     find_recent_job v (\<lambda>age. age > int AVAHI_QUERY_HISTORY_MSEC * 1000) (\<lambda>x. avahi_key_equal (q_key x) key) AVAHI_DONE s"

text \<open>
  A query that is scheduled already is posted again; \<open>query_post_again\<close> is this branch of
  \<open>avahi_query_scheduler_post\<close>. The id is the result if the query is accepted.
\<close>

definition query_post_again :: "timeval \<Rightarrow> nat \<Rightarrow> 'o query_scheduler \<Rightarrow> 'o query_scheduler outcome" where
  "query_post_again tv j s = do {
     x \<leftarrow> s_job s j;
     s \<leftarrow> (if avahi_timeval_compare tv (j_delivery x) < 0 then do {
            s \<leftarrow> mod_job j (\<lambda>x. x\<lparr>j_delivery := tv\<rparr>) s;
            t \<leftarrow> j_time_event x;
            q \<leftarrow> avahi_time_event_update (s_time_event_queue s) t tv;
            Some (s\<lparr>s_time_event_queue := q\<rparr>)
          } else Some s);
     mod_job j (\<lambda>x. x\<lparr>q_n_posted := q_n_posted x + 1\<rparr>) s
   }"

definition avahi_query_scheduler_post ::
  "env \<Rightarrow> rrkey \<Rightarrow> bool \<Rightarrow> 'o query_scheduler \<Rightarrow> ('o query_scheduler \<times> u32 option) outcome" where
  "avahi_query_scheduler_post v key immediately s = do {
     (s, h) \<leftarrow> find_history_query v key s;
     if h \<noteq> None then Some (s, None)
     else do {
       let (tv, jit) = elapse v (if immediately then 0 else AVAHI_QUERY_DEFER_MSEC) 0 (s_jitter s);
       let s = s\<lparr>s_jitter := jit\<rparr>;
       f \<leftarrow> find_scheduled_query key s;
       (s, j) \<leftarrow> (case f of
           Some j \<Rightarrow> do { s \<leftarrow> query_post_again tv j s; Some (s, j) }
         | None \<Rightarrow> do {
             let (s, j) = query_job_new key AVAHI_SCHEDULED tv s;
             s \<leftarrow> job_set_time j tv s;
             Some (s, j)
           });
       x \<leftarrow> s_job s j;
       Some (s, Some (q_id x))
     }
   }"

definition avahi_query_scheduler_incoming :: "env \<Rightarrow> rrkey \<Rightarrow> 'o query_scheduler \<Rightarrow> 'o query_scheduler outcome" where
  "avahi_query_scheduler_incoming v key s = do {
     f \<leftarrow> find_scheduled_query key s;
     (case f of
        Some j \<Rightarrow> query_job_mark_done v j s
      | None \<Rightarrow> do {
          (s, h) \<leftarrow> find_history_query v key s;
          let (s, j) = (case h of Some j \<Rightarrow> (s, j) | None \<Rightarrow> query_job_new key AVAHI_DONE (env_now v) s);
          s \<leftarrow> mod_job j (\<lambda>x. x\<lparr>j_delivery := env_now v\<rparr>) s;
          query_job_set_elapse_time v j AVAHI_QUERY_HISTORY_MSEC 0 s
        })
   }"

fun withdraw_loop :: "u32 \<Rightarrow> nat list \<Rightarrow> 'o query_scheduler \<Rightarrow> ('o query_scheduler \<times> bool) outcome" where
  "withdraw_loop ident [] s = Some (s, False)"
| "withdraw_loop ident (j # js) s = do {
     x \<leftarrow> s_job s j;
     assert_that (j_state x = AVAHI_SCHEDULED);
     if q_id x = ident then do {
       assert_that (q_n_posted x \<ge> 1);
       s \<leftarrow> mod_job j (\<lambda>x. x\<lparr>q_n_posted := q_n_posted x - 1\<rparr>) s;
       if q_n_posted x - 1 \<le> 0 then do { s \<leftarrow> query_job_free j s; Some (s, True) }
       else withdraw_loop ident js s
     } else withdraw_loop ident js s
   }"

definition avahi_query_scheduler_withdraw_by_id :: "u32 \<Rightarrow> 'o query_scheduler \<Rightarrow> ('o query_scheduler \<times> bool) outcome" where
  "avahi_query_scheduler_withdraw_by_id ident s = withdraw_loop ident (s_jobs s) s"

end
