(* ===== verification/Queryrun.thy ===== *)
theory Queryrun
  imports Querysched Dnssend
begin

text \<open>
  What the query scheduler does: at any time it holds at most one job for each question; posting, hearing
  and withdrawing a question update this table; and the messages sent when the timer of a job is due.
\<close>

subsection \<open>Known answers\<close>

abbreviation walked :: "'c cache \<Rightarrow> rr list \<Rightarrow> 'c walked_cache" where
  "walked c K \<equiv> cache.extend c (walked_cache.fields K)"

lemma walked_simps [simp]:
  "c_heap (walked c K) = c_heap c" "c_by_key (walked c K) = c_by_key c" "c_entry_links (walked c K) = c_entry_links c"
  "c_entries (walked c K) = c_entries c" "c_hashmap (walked c K) = c_hashmap c" "w_known_answers (walked c K) = K"
  "(walked c K)\<lparr>w_known_answers := K'\<rparr> = walked c K'"
  by (simp_all add: cache.extend_def walked_cache.fields_def)

text \<open>The records of the cache that a query for \<open>key\<close> takes along: those that it asks for and that have more than half of their TTL left.\<close>

definition known_answer :: "env \<Rightarrow> rrkey \<Rightarrow> cache_entry \<Rightarrow> bool" where
  "known_answer v key x \<longleftrightarrow> key_asks key x \<and> \<not> avahi_cache_entry_half_ttl v x"

lemma half_ttl_view [simp]: "avahi_cache_entry_half_ttl v (ce_view x) = avahi_cache_entry_half_ttl v x"
  by (simp add: avahi_cache_entry_half_ttl_def ce_view_def)

lemma key_asks_view [simp]: "key_asks key (ce_view x) = key_asks key x"
  by (simp add: key_asks_def)

lemma collect_walk:
  assumes "llist (lk (walked c K)) (hd_opt zs) zs" "\<And>K. lk (walked c K) = lk (walked c [])"
    "\<And>e. e \<in> set zs \<Longrightarrow> \<exists>x. c_heap c e = Some x \<and> (\<forall>K. body e (walked c K) = Some (None, walked c (if P e x then ce_record x # K else K)))"
  shows "\<exists>K'. llist_foreach lk body (hd_opt zs) (walked c K) = Some (None, walked c K') \<and>
    set K' = set K \<union> {ce_record x | e x. e \<in> set zs \<and> c_heap c e = Some x \<and> P e x}"
proof -
  let ?I = "\<lambda>ys s. \<exists>K'. s = walked c K' \<and> set K' = set K \<union> {ce_record x | e x. e \<in> set ys \<and> c_heap c e = Some x \<and> P e x}"
  have "\<exists>r s'. llist_foreach lk body (hd_opt zs) (walked c K) = Some (r, s') \<and> (r = None \<and> ?I zs s')"
  proof (rule llist_foreach_rule [OF assms(1), where I = ?I and Q = "\<lambda>r s. r = None \<and> ?I zs s"])
    show "?I [] (walked c K)" by (intro exI [of _ K]) simp
    fix ys x zs' s
    assume z: "zs = ys @ x # zs'" and I: "?I ys s"
    from I obtain K1 where K1: "s = walked c K1" "set K1 = set K \<union> {ce_record x | e x. e \<in> set ys \<and> c_heap c e = Some x \<and> P e x}" by blast
    from assms(3) [of x] z obtain y where y: "c_heap c x = Some y" "body x s = Some (None, walked c (if P x y then ce_record y # K1 else K1))"
      using K1(1) by auto
    have "set (if P x y then ce_record y # K1 else K1) = set K \<union> {ce_record u | e u. e \<in> set (ys @ [x]) \<and> c_heap c e = Some u \<and> P e u}"
      using K1(2) y(1) by auto
    then have "?I (ys @ [x]) (walked c (if P x y then ce_record y # K1 else K1))" by blast
    moreover have "l_next (lk s) x = l_next (lk (walked c K)) x" using assms(2) [of K1] assms(2) [of K] K1(1) by simp
    ultimately show "l_next (lk s) x = l_next (lk (walked c K)) x \<and>
        (\<exists>r s'. body x s = Some (r, s') \<and> (case r of None \<Rightarrow> ?I (ys @ [x]) s' | Some v \<Rightarrow> Some v = None \<and> ?I zs s'))"
      using y(2) by (intro conjI exI [of _ None] exI [of _ "walked c (if P x y then ce_record y # K1 else K1)"]) simp_all
  qed simp
  then show ?thesis by blast
qed

lemma known_answers_walk:
  assumes "cache_ok {} c" "key_readable key"
  shows "\<exists>K'. avahi_cache_walk (walked c K) key (known_answer_walk_callback v) = Some (None, walked c K') \<and>
    set K' = set K \<union> {ce_record x | e x. c_heap c e = Some x \<and> known_answer v key x}"
proof -
  from assms(1) obtain xs ch where rep: "cache_rep c xs ch" by (auto simp: cache_ok_def)
  note d = cache_repD [OF rep]
  note k = keyedD [OF d(1)]
  have cb: "known_answer_walk_callback v e (walked c K) = Some (None, walked c (if \<not> avahi_cache_entry_half_ttl v x then ce_record x # K else K))"
    if "c_heap c e = Some x" for e x K
    using that by (simp add: known_answer_walk_callback_def)
  show ?thesis
  proof (cases "avahi_key_is_pattern key")
    case False
    let ?zs = "ch (key_canon key)"
    have "cache_lookup_key (walked c K) key = Some (hd_opt ?zs)"
      using keyed_lookup [OF d(1) assms(2)] False by (simp add: cache_lookup_key_def)
    moreover have "\<exists>K'. llist_foreach c_by_key (known_answer_walk_callback v) (hd_opt ?zs) (walked c K) = Some (None, walked c K') \<and>
      set K' = set K \<union> {ce_record x | e x. e \<in> set ?zs \<and> c_heap c e = Some x \<and> \<not> avahi_cache_entry_half_ttl v x}"
    proof (rule collect_walk)
      show "\<exists>x. c_heap c e = Some x \<and> (\<forall>K. known_answer_walk_callback v e (walked c K) =
          Some (None, walked c (if \<not> avahi_cache_entry_half_ttl v x then ce_record x # K else K)))" if "e \<in> set ?zs" for e
        using chain_entry [OF rep that] cb by metis
    qed (use k(2) in simp_all)
    moreover have "e \<in> set ?zs \<longleftrightarrow> key_asks key x" if "c_heap c e = Some x" for e x
      using k(4) [of e "key_canon key"] False that by (auto simp: ce_keys_def ce_rec_def key_asks_def)
    ultimately have k: "cache_lookup_key (walked c K) key = Some (hd_opt ?zs)" "\<And>e x. c_heap c e = Some x \<Longrightarrow> e \<in> set ?zs \<longleftrightarrow> key_asks key x"
      and "\<exists>K'. llist_foreach c_by_key (known_answer_walk_callback v) (hd_opt ?zs) (walked c K) = Some (None, walked c K') \<and>
        set K' = set K \<union> {ce_record x | e x. e \<in> set ?zs \<and> c_heap c e = Some x \<and> \<not> avahi_cache_entry_half_ttl v x}" by blast+
    then obtain K' where K': "llist_foreach c_by_key (known_answer_walk_callback v) (hd_opt ?zs) (walked c K) = Some (None, walked c K')"
      "set K' = set K \<union> {ce_record x | e x. e \<in> set ?zs \<and> c_heap c e = Some x \<and> \<not> avahi_cache_entry_half_ttl v x}" by blast
    have "{ce_record x | e x. e \<in> set ?zs \<and> c_heap c e = Some x \<and> \<not> avahi_cache_entry_half_ttl v x} =
      {ce_record x | e x. c_heap c e = Some x \<and> known_answer v key x}"
      using k(2) unfolding known_answer_def by blast
    with K' k(1) False show ?thesis by (intro exI [of _ K']) (simp add: avahi_cache_walk_def)
  next
    case True
    let ?b = "\<lambda>e c. do {
             x \<leftarrow> c_heap c e;
             b \<leftarrow> avahi_key_pattern_match key (rr_key (ce_record x));
             if b then known_answer_walk_callback v e c else Some (None, c)
           }"
    have xs: "e \<in> set xs \<longleftrightarrow> c_heap c e \<noteq> None" for e using d(4) [of e] by (auto simp: ce_rec_def)
    have "\<exists>K'. llist_foreach c_entry_links ?b (hd_opt xs) (walked c K) = Some (None, walked c K') \<and>
      set K' = set K \<union> {ce_record x | e x. e \<in> set xs \<and> c_heap c e = Some x \<and> known_answer v key x}"
    proof (rule collect_walk)
      fix e
      assume "e \<in> set xs"
      with xs obtain x where x: "c_heap c e = Some x" by blast
      from cache_ok_entry [OF assms(1) x] obtain b where b: "avahi_key_pattern_match key (rr_key (ce_record x)) = Some b"
        using pattern_match_ok [OF assms(2)] by (fastforce simp: record_ok_def rr_readable_def)
      then have "key_asks key x \<longleftrightarrow> b" using True by (simp add: key_asks_def)
      with b x cb show "\<exists>x. c_heap c e = Some x \<and> (\<forall>K. ?b e (walked c K) = Some (None, walked c (if known_answer v key x then ce_record x # K else K)))"
        by (auto simp: known_answer_def)
    qed (use d(3) llist_head [OF d(3)] in simp_all)
    then obtain K' where K': "llist_foreach c_entry_links ?b (hd_opt xs) (walked c K) = Some (None, walked c K')"
      "set K' = set K \<union> {ce_record x | e x. e \<in> set xs \<and> c_heap c e = Some x \<and> known_answer v key x}" by blast
    have "{ce_record x | e x. e \<in> set xs \<and> c_heap c e = Some x \<and> known_answer v key x} =
      {ce_record x | e x. c_heap c e = Some x \<and> known_answer v key x}" using xs by auto
    with K' True llist_head [OF d(3)] show ?thesis by (intro exI [of _ K']) (simp add: avahi_cache_walk_def)
  qed
qed

subsection \<open>The questions of the scheduler\<close>

text \<open>The jobs for a question: names compare without case.\<close>

definition questions_of :: "(nat \<Rightarrow> query_job option) \<Rightarrow> cstr list \<times> u16 \<times> u16 \<Rightarrow> query_job set" where
  "questions_of h k = {x. \<exists>j. h j = Some x \<and> key_canon (q_key x) = k}"

abbreviation questions :: "'o query_scheduler \<Rightarrow> cstr list \<times> u16 \<times> u16 \<Rightarrow> query_job set" where
  "questions s \<equiv> questions_of (s_job s)"

definition query_jobs_ok :: "(nat \<Rightarrow> query_job option) \<Rightarrow> bool" where
  "query_jobs_ok h \<longleftrightarrow> (\<forall>j x. h j = Some x \<longrightarrow> sendable_key (q_key x) \<and> 1 \<le> q_n_posted x \<and> j_state x \<noteq> AVAHI_SUPPRESSED) \<and>
     (\<forall>i j x y. h i = Some x \<and> h j = Some y \<and> key_canon (q_key x) = key_canon (q_key y) \<longrightarrow> i = j)"

definition query_core :: "nat set \<Rightarrow> 'o query_scheduler \<Rightarrow> bool" where
  "query_core J s \<longleftrightarrow> sched_core J s \<and> query_jobs_ok (s_job s)"

abbreviation query_ok :: "'o query_scheduler \<Rightarrow> bool" where
  "query_ok s \<equiv> query_core {} s \<and> q_known_answers s = []"

lemma query_jobsD:
  assumes "query_jobs_ok h" "h j = Some x"
  shows "sendable_key (q_key x)" "1 \<le> q_n_posted x" "j_state x \<noteq> AVAHI_SUPPRESSED"
    "h i = Some y \<Longrightarrow> key_canon (q_key y) = key_canon (q_key x) \<Longrightarrow> i = j" "questions_of h (key_canon (q_key x)) = {x}"
proof -
  show "sendable_key (q_key x)" "1 \<le> q_n_posted x" "j_state x \<noteq> AVAHI_SUPPRESSED"
    "h i = Some y \<Longrightarrow> key_canon (q_key y) = key_canon (q_key x) \<Longrightarrow> i = j"
    using assms unfolding query_jobs_ok_def by blast+
  have "i = j" if "h i = Some y" "key_canon (q_key y) = key_canon (q_key x)" for i y
    using assms that unfolding query_jobs_ok_def by blast
  then show "questions_of h (key_canon (q_key x)) = {x}" using assms(2) by (fastforce simp: questions_of_def)
qed

lemma sendable_key_readable: "sendable_key k \<Longrightarrow> key_readable k"
  by (auto simp: sendable_key_def key_readable_def wire_name_def split: option.splits)

lemma query_jobs_same: "query_jobs_ok h \<Longrightarrow> h i = Some x \<Longrightarrow> h j = Some y \<Longrightarrow> key_canon (q_key x) = key_canon (q_key y) \<Longrightarrow> i = j"
  unfolding query_jobs_ok_def by blast

lemma query_jobs_okI:
  assumes "\<And>j x. h j = Some x \<Longrightarrow> sendable_key (q_key x) \<and> 1 \<le> q_n_posted x \<and> j_state x \<noteq> AVAHI_SUPPRESSED"
    "\<And>i j x y. h i = Some x \<Longrightarrow> h j = Some y \<Longrightarrow> key_canon (q_key x) = key_canon (q_key y) \<Longrightarrow> i = j"
  shows "query_jobs_ok h"
  using assms unfolding query_jobs_ok_def by blast

lemma questions_upd:
  assumes "\<And>i x. i \<noteq> j \<Longrightarrow> h i = Some x \<Longrightarrow> key_canon (q_key x) \<noteq> k" "\<And>x. h j = Some x \<Longrightarrow> key_canon (q_key x) = k"
    "\<And>y. v = Some y \<Longrightarrow> key_canon (q_key y) = k"
  shows "questions_of (h(j := v)) = (questions_of h)(k := set_option v)"
proof
  fix l
  show "questions_of (h(j := v)) l = ((questions_of h)(k := set_option v)) l"
  proof (cases "l = k")
    case True
    have "\<exists>i. (h(j := v)) i = Some x \<and> key_canon (q_key x) = k \<longleftrightarrow> v = Some x" for x
      using assms by (metis fun_upd_apply)
    with assms(1,3) True show ?thesis by (auto simp: questions_of_def)
  next
    case False
    have "(\<exists>i. (h(j := v)) i = Some x \<and> key_canon (q_key x) = l) \<longleftrightarrow> (\<exists>i. h i = Some x \<and> key_canon (q_key x) = l)" for x
      using assms(2) [of x] assms(3) [of x] False by (metis fun_upd_apply)
    with False show ?thesis by (simp add: questions_of_def)
  qed
qed

lemma query_jobs_update:
  assumes "query_jobs_ok h" "h j = Some x" "q_key y = q_key x" "1 \<le> q_n_posted y" "j_state y \<noteq> AVAHI_SUPPRESSED"
  shows "query_jobs_ok (h(j \<mapsto> y))" "questions_of (h(j \<mapsto> y)) = (questions_of h)(key_canon (q_key x) := {y})"
proof -
  note q = query_jobsD [OF assms(1)]
  show "query_jobs_ok (h(j \<mapsto> y))"
  proof (rule query_jobs_okI)
    show "sendable_key (q_key z) \<and> 1 \<le> q_n_posted z \<and> j_state z \<noteq> AVAHI_SUPPRESSED" if "(h(j \<mapsto> y)) i = Some z" for i z
      using that q(1-3) [of i z] q(1) [OF assms(2)] assms(3-5) by (auto split: if_splits)
    fix i k a b
    assume a: "(h(j \<mapsto> y)) i = Some a" "(h(j \<mapsto> y)) k = Some b" "key_canon (q_key a) = key_canon (q_key b)"
    have "\<exists>a'. h i = Some a' \<and> q_key a' = q_key a" "\<exists>b'. h k = Some b' \<and> q_key b' = q_key b"
      using a(1,2) assms(2,3) by (auto split: if_splits)
    with a(3) query_jobs_same [OF assms(1)] show "i = k" by metis
  qed
  have "key_canon (q_key z) \<noteq> key_canon (q_key x)" if "i \<noteq> j" "h i = Some z" for i z
    using query_jobs_same [OF assms(1) that(2) assms(2)] that(1) by blast
  from questions_upd [of j h "key_canon (q_key x)" "Some y", OF this] assms(2,3)
  show "questions_of (h(j \<mapsto> y)) = (questions_of h)(key_canon (q_key x) := {y})" by simp
qed

lemma query_jobs_remove:
  assumes "query_jobs_ok h" "h j = Some x"
  shows "query_jobs_ok (h(j := None))" "questions_of (h(j := None)) = (questions_of h)(key_canon (q_key x) := {})"
proof -
  show "query_jobs_ok (h(j := None))"
  proof (rule query_jobs_okI)
    show "sendable_key (q_key z) \<and> 1 \<le> q_n_posted z \<and> j_state z \<noteq> AVAHI_SUPPRESSED" if "(h(j := None)) i = Some z" for i z
      using that query_jobsD(1-3) [OF assms(1), of i z] by (auto split: if_splits)
    show "i = k" if "(h(j := None)) i = Some a" "(h(j := None)) k = Some b" "key_canon (q_key a) = key_canon (q_key b)" for i k a b
      using that query_jobs_same [OF assms(1), of i a k b] by (auto split: if_splits)
  qed
  have "key_canon (q_key z) \<noteq> key_canon (q_key x)" if "i \<noteq> j" "h i = Some z" for i z
    using query_jobs_same [OF assms(1) that(2) assms(2)] that(1) by blast
  from questions_upd [of j h "key_canon (q_key x)" None, OF this] assms(2)
  show "questions_of (h(j := None)) = (questions_of h)(key_canon (q_key x) := {})" by simp
qed

lemma query_jobs_add:
  assumes "query_jobs_ok h" "h j = None" "questions_of h (key_canon (q_key y)) = {}" "sendable_key (q_key y)" "1 \<le> q_n_posted y"
    "j_state y \<noteq> AVAHI_SUPPRESSED"
  shows "query_jobs_ok (h(j \<mapsto> y))" "questions_of (h(j \<mapsto> y)) = (questions_of h)(key_canon (q_key y) := {y})"
proof -
  have n: "key_canon (q_key z) \<noteq> key_canon (q_key y)" if "h i = Some z" for i z
    using assms(3) that by (auto simp: questions_of_def)
  show "query_jobs_ok (h(j \<mapsto> y))"
  proof (rule query_jobs_okI)
    show "sendable_key (q_key z) \<and> 1 \<le> q_n_posted z \<and> j_state z \<noteq> AVAHI_SUPPRESSED" if "(h(j \<mapsto> y)) i = Some z" for i z
      using that query_jobsD(1-3) [OF assms(1), of i z] assms(4-6) by (cases "i = j") simp_all
    fix i k a b
    assume a: "(h(j \<mapsto> y)) i = Some a" "(h(j \<mapsto> y)) k = Some b" "key_canon (q_key a) = key_canon (q_key b)"
    show "i = k"
    proof (cases "i = j")
      case True
      with a(1) have y: "a = y" by simp
      show ?thesis
      proof (rule ccontr)
        assume k: "i \<noteq> k"
        then have "h k = Some b" using a(2) True by simp
        from n [OF this] a(3) y show False by simp
      qed
    next
      case False
      then have i: "h i = Some a" using a(1) by simp
      have "k \<noteq> j" using n [OF i] a(2,3) by auto
      then have "h k = Some b" using a(2) by simp
      from query_jobs_same [OF assms(1) i this a(3)] show ?thesis .
    qed
  qed
  have n': "key_canon (q_key z) \<noteq> key_canon (q_key y)" if "i \<noteq> j" "h i = Some z" for i z by (rule n [OF that(2)])
  have "questions_of (h(j := Some y)) = (questions_of h)(key_canon (q_key y) := set_option (Some y))"
    by (rule questions_upd [OF n']) (use assms(2) in auto)
  then show "questions_of (h(j \<mapsto> y)) = (questions_of h)(key_canon (q_key y) := {y})" by simp
qed

lemma questions_none: "questions_of h k = {} \<longleftrightarrow> (\<forall>j x. h j = Some x \<longrightarrow> key_canon (q_key x) \<noteq> k)"
  by (auto simp: questions_of_def)

definition later :: "env \<Rightarrow> nat \<Rightarrow> timeval" where
  "later v msec = (if msec \<noteq> 0 then avahi_timeval_add (env_now v) (int msec * 1000) else env_now v)"

lemma elapse_later: "elapse v msec 0 st = (later v msec, st)"
  by (simp add: elapse_def avahi_elapse_time_def later_def Let_def)

subsection \<open>Posting\<close>

lemma same_question: "query_core J s \<Longrightarrow> sendable_key key \<Longrightarrow> s_job s j = Some x \<Longrightarrow>
    avahi_key_equal (q_key x) key = Some (key_canon (q_key x) = key_canon key)"
  using key_equal_canon [OF sendable_key_readable sendable_key_readable] query_jobsD(1) by (auto simp: query_core_def)

text \<open>What the two searches find.\<close>

lemma find_scheduled_cases:
  assumes "query_core J s" "sendable_key key"
  obtains (none) "find_scheduled_query key s = Some None" "\<And>x. x \<in> questions s (key_canon key) \<Longrightarrow> j_state x \<noteq> AVAHI_SCHEDULED"
  | (found) j x where "find_scheduled_query key s = Some (Some j)" "s_job s j = Some x" "j_state x = AVAHI_SCHEDULED"
      "key_canon (q_key x) = key_canon key" "questions s (key_canon key) = {x}"
proof -
  have c: "sched_core J s" "query_jobs_ok (s_job s)" using assms(1) by (simp_all add: query_core_def)
  show thesis
  proof (rule find_job_cases [OF c(1), of AVAHI_SCHEDULED "\<lambda>x. avahi_key_equal (q_key x) key" "\<lambda>x. key_canon (q_key x) = key_canon key"])
    show "avahi_key_equal (q_key x) key = Some (key_canon (q_key x) = key_canon key)" if "s_job s j = Some x" for j x
      by (rule same_question [OF assms that])
  next
    assume "find_job (\<lambda>x. avahi_key_equal (q_key x) key) AVAHI_SCHEDULED s = Some None"
      "\<And>j x. s_job s j = Some x \<Longrightarrow> j_state x = AVAHI_SCHEDULED \<Longrightarrow> key_canon (q_key x) \<noteq> key_canon key"
    then show thesis by (intro none) (auto simp: find_scheduled_query_def questions_of_def)
  next
    fix j x
    assume a: "find_job (\<lambda>x. avahi_key_equal (q_key x) key) AVAHI_SCHEDULED s = Some (Some j)" "s_job s j = Some x"
      "j_state x = AVAHI_SCHEDULED" "key_canon (q_key x) = key_canon key"
    with query_jobsD(5) [OF c(2) a(2)] show thesis by (intro found [of j x]) (simp_all add: find_scheduled_query_def)
  qed
qed

lemma find_history_cases:
  assumes "query_core J s" "sendable_key key"
  obtains (none) "find_history_query v key s = Some (s, None)" "\<And>x. x \<in> questions s (key_canon key) \<Longrightarrow> j_state x \<noteq> AVAHI_DONE"
  | (old) s' x where "find_history_query v key s = Some (s', None)" "questions s (key_canon key) = {x}" "j_state x = AVAHI_DONE"
      "avahi_age (env_now v) (j_delivery x) > 100000" "query_core J s'" "questions s' = (questions s)(key_canon key := {})" "same_rest s s'"
  | (recent) j x where "find_history_query v key s = Some (s, Some j)" "s_job s j = Some x" "j_state x = AVAHI_DONE"
      "key_canon (q_key x) = key_canon key" "questions s (key_canon key) = {x}" "avahi_age (env_now v) (j_delivery x) \<le> 100000"
proof -
  have c: "sched_core J s" "query_jobs_ok (s_job s)" using assms(1) by (simp_all add: query_core_def)
  let ?o = "\<lambda>age. age > int AVAHI_QUERY_HISTORY_MSEC * 1000"
  show thesis
  proof (rule find_recent_ok [OF c(1), of AVAHI_DONE "\<lambda>x. avahi_key_equal (q_key x) key" "\<lambda>x. key_canon (q_key x) = key_canon key" v ?o])
    show "avahi_key_equal (q_key x) key = Some (key_canon (q_key x) = key_canon key)" if "s_job s j = Some x" for j x
      by (rule same_question [OF assms that])
  next
    assume "find_recent_job v ?o (\<lambda>x. avahi_key_equal (q_key x) key) AVAHI_DONE s = Some (s, None)"
      "\<And>j x. s_job s j = Some x \<Longrightarrow> j_state x = AVAHI_DONE \<Longrightarrow> key_canon (q_key x) \<noteq> key_canon key"
    then show thesis by (intro none) (auto simp: find_history_query_def questions_of_def)
  next
    fix s' j x
    assume a: "find_recent_job v ?o (\<lambda>x. avahi_key_equal (q_key x) key) AVAHI_DONE s = Some (s', None)" "s_job s j = Some x"
      "j_state x = AVAHI_DONE" "key_canon (q_key x) = key_canon key" "?o (avahi_age (env_now v) (j_delivery x))"
      "job_free j s = Some s'" "sched_core (J - {j}) s'" "s_job s' = (s_job s)(j := None)" "\<And>st. job_list st s' = remove1 j (job_list st s)" "same_rest s s'"
    have "query_core J s'" using core_mono [OF a(7), of J] query_jobs_remove(1) [OF c(2) a(2)] by (auto simp: query_core_def a(8))
    with a query_jobsD(5) [OF c(2) a(2)] query_jobs_remove(2) [OF c(2) a(2)] show thesis
      by (intro old [of s' x]) (simp_all add: find_history_query_def AVAHI_QUERY_HISTORY_MSEC_def)
  next
    fix j x
    assume a: "find_recent_job v ?o (\<lambda>x. avahi_key_equal (q_key x) key) AVAHI_DONE s = Some (s, Some j)" "s_job s j = Some x"
      "j_state x = AVAHI_DONE" "key_canon (q_key x) = key_canon key" "\<not> ?o (avahi_age (env_now v) (j_delivery x))"
    with query_jobsD(5) [OF c(2) a(2)] show thesis
      by (intro recent [of j x]) (simp_all add: find_history_query_def AVAHI_QUERY_HISTORY_MSEC_def)
  qed
qed

lemma query_job_new_eq:
  "query_job_new key st tv s = job_new \<lparr>j_time_event = None, j_state = st, j_delivery = tv, q_id = q_next_id s, q_n_posted = 1, q_key = key\<rparr>
     (s\<lparr>q_next_id := q_next_id s + 1\<rparr>)"
  by (simp add: query_job_new_def Let_def)

lemma same_rest_fields: "same_rest s s' \<Longrightarrow> q_known_answers s' = q_known_answers s \<and> q_next_id s' = q_next_id s \<and> s_sent s' = s_sent s"
  by (cases s; cases s') (auto simp: same_rest_def)

lemma sched_core_more [simp]: "sched_core J (s\<lparr>q_next_id := i\<rparr>) = sched_core J s" "sched_core J (s\<lparr>q_known_answers := ks\<rparr>) = sched_core J s"
proof -
  have "job_list st (s\<lparr>q_next_id := i\<rparr>) = job_list st s" "job_list st (s\<lparr>q_known_answers := ks\<rparr>) = job_list st s" for st
    by (cases st; simp)+
  then show "sched_core J (s\<lparr>q_next_id := i\<rparr>) = sched_core J s" "sched_core J (s\<lparr>q_known_answers := ks\<rparr>) = sched_core J s"
    by (simp_all add: sched_core_def)
qed

lemma query_job_new_ok:
  assumes "query_core J s" "sendable_key key" "questions s (key_canon key) = {}" "st \<noteq> AVAHI_SUPPRESSED"
  obtains s' j x where "query_job_new key st tv s = (s', j)" "query_core (insert j J) s'" "s_job s' j = Some x"
    "x = \<lparr>j_time_event = None, j_state = st, j_delivery = tv, q_id = q_next_id s, q_n_posted = 1, q_key = key\<rparr>"
    "questions s' = (questions s)(key_canon key := {x})" "s_sent s' = s_sent s" "q_known_answers s' = q_known_answers s" "s_jitter s' = s_jitter s"
    "q_next_id s' = q_next_id s + 1"
proof -
  let ?x = "\<lparr>j_time_event = None, j_state = st, j_delivery = tv, q_id = q_next_id s, q_n_posted = 1, q_key = key\<rparr>"
  obtain s' j where n: "job_new ?x (s\<lparr>q_next_id := q_next_id s + 1\<rparr>) = (s', j)" by fastforce
  have c: "sched_core J (s\<lparr>q_next_id := q_next_id s + 1\<rparr>)" "query_jobs_ok (s_job s)" using assms(1) by (simp_all add: query_core_def)
  note o = job_new_ok [OF c(1) n]
  have h: "s_job s' = (s_job s)(j \<mapsto> ?x)" "s_job s j = None" using o(2,3) by simp_all
  have q: "questions_of (s_job s) (key_canon (q_key ?x)) = {}" "sendable_key (q_key ?x)" "1 \<le> q_n_posted ?x" "j_state ?x \<noteq> AVAHI_SUPPRESSED"
    using assms by simp_all
  note a = query_jobs_add [OF c(2) h(2) q]
  have "query_core (insert j J) s'" "questions s' = (questions s)(key_canon key := {?x})" using a o(1) by (simp_all add: query_core_def h(1))
  moreover have "query_job_new key st tv s = (s', j)" using n by (simp add: query_job_new_eq)
  ultimately show thesis using that [of s' j ?x] o(6) same_rest_fields [OF o(7)] h(1) by simp
qed

text \<open>The time of a post, and what a post makes of the job that is scheduled already.\<close>

definition post_time :: "env \<Rightarrow> bool \<Rightarrow> timeval" where
  "post_time v immediately = later v (if immediately then 0 else AVAHI_QUERY_DEFER_MSEC)"

definition posted_again :: "timeval \<Rightarrow> query_job \<Rightarrow> query_job" where
  "posted_again tv x = x\<lparr>j_delivery := (if avahi_timeval_compare tv (j_delivery x) < 0 then tv else j_delivery x), q_n_posted := q_n_posted x + 1\<rparr>"

lemma query_core_payload:
  assumes "query_core J s" "s_job s j = Some x" "sched_core J' (s\<lparr>s_job := (s_job s)(j \<mapsto> y)\<rparr>)" "q_key y = q_key x" "1 \<le> q_n_posted y" "j_state y \<noteq> AVAHI_SUPPRESSED"
  shows "query_core J' (s\<lparr>s_job := (s_job s)(j \<mapsto> y)\<rparr>)"
proof -
  have "query_jobs_ok (s_job s)" using assms(1) by (simp add: query_core_def)
  from query_jobs_update(1) [OF this assms(2,4-6)] assms(3) show ?thesis by (simp add: query_core_def)
qed

lemma join_scheduled:
  assumes "query_core J s" "s_job s j = Some x" "j \<notin> J" "j_state x = AVAHI_SCHEDULED"
  shows "\<exists>s'. query_post_again tv j s = Some s' \<and> query_core J s' \<and> s_job s' = (s_job s)(j \<mapsto> posted_again tv x) \<and> same_rest s s'"
proof -
  have c: "sched_core J s" "query_jobs_ok (s_job s)" using assms(1) by (simp_all add: query_core_def)
  note q = query_jobsD [OF c(2) assms(2)]
  let ?y = "posted_again tv x"
  have y: "q_key ?y = q_key x" "1 \<le> q_n_posted ?y" "j_state ?y = j_state x" "j_time_event ?y = j_time_event x" using q(2) by (simp_all add: posted_again_def)
  note j = query_jobs_update(1) [OF c(2) assms(2) y(1,2)]
  show ?thesis
  proof (cases "avahi_timeval_compare tv (j_delivery x) < 0")
    case True
    then have "j_delivery ?y = tv" by (simp add: posted_again_def)
    from move_delivery_ok [OF c(1) assms(2,3) this y(3,4)] obtain t q where
      t: "j_time_event x = Some t" "avahi_time_event_update (s_time_event_queue s) t tv = Some q"
        "sched_core J (s\<lparr>s_job := (s_job s)(j \<mapsto> ?y), s_time_event_queue := q\<rparr>)" by blast
    with True assms(2,4) j y(3) show ?thesis
      by (intro exI [of _ "s\<lparr>s_job := (s_job s)(j \<mapsto> ?y), s_time_event_queue := q\<rparr>"])
        (simp add: query_post_again_def mod_job_def posted_again_def same_rest_def query_core_def)
  next
    case False
    then have "j_delivery ?y = j_delivery x" by (simp add: posted_again_def)
    from core_payload [OF c(1) assms(2) y(3,4)] this have "sched_core J (s\<lparr>s_job := (s_job s)(j \<mapsto> ?y)\<rparr>)" by blast
    with False assms(2,4) j y(3) show ?thesis
      by (intro exI [of _ "s\<lparr>s_job := (s_job s)(j \<mapsto> ?y)\<rparr>"]) (simp add: query_post_again_def mod_job_def posted_again_def same_rest_def query_core_def)
  qed
qed

lemma post_ok:
  assumes "query_ok s" "sendable_key key"
  shows "\<exists>s' r. avahi_query_scheduler_post v key immediately s = Some (s', r) \<and> query_ok s' \<and> s_sent s' = s_sent s \<and>
    (case r of
       None \<Rightarrow> s' = s \<and> (\<exists>x. questions s (key_canon key) = {x} \<and> j_state x = AVAHI_DONE \<and> avahi_age (env_now v) (j_delivery x) \<le> 100000)
     | Some ident \<Rightarrow> \<exists>y. questions s' = (questions s)(key_canon key := {y}) \<and> q_id y = ident \<and>
         ((\<exists>x. questions s (key_canon key) = {x} \<and> j_state x = AVAHI_SCHEDULED \<and> y = posted_again (post_time v immediately) x) \<or>
          (\<forall>x \<in> questions s (key_canon key). j_state x = AVAHI_DONE \<and> avahi_age (env_now v) (j_delivery x) > 100000) \<and>
          j_state y = AVAHI_SCHEDULED \<and> j_delivery y = post_time v immediately \<and> q_n_posted y = 1 \<and> q_key y = key \<and> ident = q_next_id s))"
proof -
  let ?tv = "post_time v immediately" and ?k = "key_canon key"
  have el: "elapse v (if immediately then 0 else AVAHI_QUERY_DEFER_MSEC) 0 i = (?tv, i)" for i by (simp add: elapse_later post_time_def)
  have new: "\<exists>s' y. (do {
       f \<leftarrow> find_scheduled_query key t;
       (s, j) \<leftarrow> (case f of
           Some j \<Rightarrow> g j | None \<Rightarrow> do { let (s, j) = query_job_new key AVAHI_SCHEDULED ?tv t; s \<leftarrow> job_set_time j ?tv s; Some (s, j) });
       x \<leftarrow> s_job s j;
       Some (s, Some (q_id x))
     }) = Some (s', Some (q_id y)) \<and> query_ok s' \<and> s_sent s' = s_sent t \<and> questions s' = (questions t)(?k := {y}) \<and>
     j_state y = AVAHI_SCHEDULED \<and> j_delivery y = ?tv \<and> q_n_posted y = 1 \<and> q_key y = key \<and> q_id y = q_next_id t"
    if t: "query_ok t" "questions t ?k = {}" for t and g :: "nat \<Rightarrow> ('a query_scheduler \<times> nat) option"
  proof -
    from t have tc: "query_core {} t" by simp
    have f: "find_scheduled_query key t = Some None"
      by (rule find_scheduled_cases [OF tc assms(2)]) (use t(2) in simp_all)
    obtain s1 j x where n: "query_job_new key AVAHI_SCHEDULED ?tv t = (s1, j)" "query_core {j} s1" "s_job s1 j = Some x"
      "x = \<lparr>j_time_event = None, j_state = AVAHI_SCHEDULED, j_delivery = ?tv, q_id = q_next_id t, q_n_posted = 1, q_key = key\<rparr>"
      "questions s1 = (questions t)(?k := {x})" "s_sent s1 = s_sent t" "q_known_answers s1 = q_known_answers t"
      using query_job_new_ok [OF tc assms(2) t(2), of AVAHI_SCHEDULED ?tv] by (metis insert_is_Un sup_bot_right job_state.distinct(3))
    have c: "sched_core {j} s1" "query_jobs_ok (s_job s1)" using n(2) by (simp_all add: query_core_def)
    have "j_state x \<noteq> AVAHI_SCHEDULED \<or> j_delivery x = ?tv \<or> j \<in> {}" by (simp add: n(4))
    from set_time_ok [OF c(1) n(3) this] obtain s2 u where
      s2: "job_set_time j ?tv s1 = Some s2" "sched_core {} s2" "s_job s2 = (s_job s1)(j \<mapsto> x\<lparr>j_time_event := Some u\<rparr>)" "same_rest s1 s2" by auto
    have u: "q_key (x\<lparr>j_time_event := Some u\<rparr>) = q_key x" "1 \<le> q_n_posted (x\<lparr>j_time_event := Some u\<rparr>)" "j_state (x\<lparr>j_time_event := Some u\<rparr>) \<noteq> AVAHI_SUPPRESSED"
      using n(4) by simp_all
    note j = query_jobs_update [OF c(2) n(3) u]
    have "query_ok s2" using s2(2) j(1) same_rest_fields [OF s2(4)] n(7) t(1) by (simp add: query_core_def s2(3))
    with f n s2 j same_rest_fields [OF s2(4)] show ?thesis
      by (intro exI [of _ s2] exI [of _ "x\<lparr>j_time_event := Some u\<rparr>"]) simp
  qed
  have sc: "query_core {} s" using assms(1) by simp
  show ?thesis
  proof (rule find_history_cases [OF sc assms(2), of v])
    assume h: "find_history_query v key s = Some (s, None)" "\<And>x. x \<in> questions s ?k \<Longrightarrow> j_state x \<noteq> AVAHI_DONE"
    show ?thesis
    proof (rule find_scheduled_cases [OF sc assms(2)])
      assume f: "find_scheduled_query key s = Some None" "\<And>x. x \<in> questions s ?k \<Longrightarrow> j_state x \<noteq> AVAHI_SCHEDULED"
      have e: "questions s ?k = {}"
      proof (rule ccontr)
        assume "questions s ?k \<noteq> {}"
        then obtain j x where x: "s_job s j = Some x" "key_canon (q_key x) = ?k" by (auto simp: questions_of_def)
        from query_jobsD(3) [of "s_job s" j x] sc x(1) have "j_state x \<noteq> AVAHI_SUPPRESSED" by (simp add: query_core_def)
        moreover have "x \<in> questions s ?k" using x by (auto simp: questions_of_def)
        ultimately show False using f(2) h(2) by (cases "j_state x") blast+
      qed
      from new [OF assms(1) e, of "\<lambda>j. do { s \<leftarrow> query_post_again ?tv j s; Some (s, j) }"] obtain s' y where
        n: "(do {
            f \<leftarrow> find_scheduled_query key s;
            (s, j) \<leftarrow> (case f of
                Some j \<Rightarrow> do { s \<leftarrow> query_post_again ?tv j s; Some (s, j) }
              | None \<Rightarrow> do { let (s, j) = query_job_new key AVAHI_SCHEDULED ?tv s; s \<leftarrow> job_set_time j ?tv s; Some (s, j) });
            x \<leftarrow> s_job s j;
            Some (s, Some (q_id x))
          }) = Some (s', Some (q_id y))" and y: "query_ok s'" "s_sent s' = s_sent s" "questions s' = (questions s)(?k := {y})"
          "j_state y = AVAHI_SCHEDULED" "j_delivery y = ?tv" "q_n_posted y = 1" "q_key y = key" "q_id y = q_next_id s" by blast
      have "avahi_query_scheduler_post v key immediately s = Some (s', Some (q_id y))"
        unfolding avahi_query_scheduler_post_def using h(1) n by (simp add: el)
      with y e show ?thesis by (intro exI [of _ s'] exI [of _ "Some (q_id y)"] conjI) (simp_all, blast?)
    next
      fix j x
      assume f: "find_scheduled_query key s = Some (Some j)" "s_job s j = Some x" "j_state x = AVAHI_SCHEDULED" "key_canon (q_key x) = ?k" "questions s ?k = {x}"
      have "j \<notin> {}" by simp
      from join_scheduled [OF sc f(2) this f(3), of ?tv] obtain s' where
        s': "query_post_again ?tv j s = Some s'" "query_core {} s'" "s_job s' = (s_job s)(j \<mapsto> posted_again ?tv x)" "same_rest s s'" by blast
      have p: "q_key (posted_again ?tv x) = q_key x" "q_n_posted (posted_again ?tv x) = q_n_posted x + 1" "j_state (posted_again ?tv x) = j_state x"
        "q_id (posted_again ?tv x) = q_id x" by (simp_all add: posted_again_def)
      have qj: "query_jobs_ok (s_job s)" using sc by (simp add: query_core_def)
      from query_jobs_update(2) [OF qj f(2) p(1)] query_jobsD(2) [OF qj f(2)] p f(3,4)
      have q: "questions s' = (questions s)(?k := {posted_again ?tv x})" by (simp add: s'(3))
      have "avahi_query_scheduler_post v key immediately s = Some (s', Some (q_id x))"
        unfolding avahi_query_scheduler_post_def using h(1) f(1) s'(1,3) p(4) by (simp add: el)
      with s'(2,4) q f(3,5) p(4) same_rest_fields [OF s'(4)] assms(1) show ?thesis by (intro exI [of _ s'] exI [of _ "Some (q_id x)"]) simp
    qed
  next
    fix s1 x
    assume h: "find_history_query v key s = Some (s1, None)" "questions s ?k = {x}" "j_state x = AVAHI_DONE" "avahi_age (env_now v) (j_delivery x) > 100000"
      "query_core {} s1" "questions s1 = (questions s)(?k := {})" "same_rest s s1"
    have s1: "query_ok s1" "questions s1 ?k = {}" using h(5,6) same_rest_fields [OF h(7)] assms(1) by simp_all
    from new [OF s1, of "\<lambda>j. do { s \<leftarrow> query_post_again ?tv j s1; Some (s, j) }"] obtain s' y where
      n: "(do {
          f \<leftarrow> find_scheduled_query key s1;
          (s, j) \<leftarrow> (case f of
              Some j \<Rightarrow> do { s \<leftarrow> query_post_again ?tv j s1; Some (s, j) }
            | None \<Rightarrow> do { let (s, j) = query_job_new key AVAHI_SCHEDULED ?tv s1; s \<leftarrow> job_set_time j ?tv s; Some (s, j) });
          x \<leftarrow> s_job s j;
          Some (s, Some (q_id x))
        }) = Some (s', Some (q_id y))" and y: "query_ok s'" "s_sent s' = s_sent s1" "questions s' = (questions s1)(?k := {y})"
        "j_state y = AVAHI_SCHEDULED" "j_delivery y = ?tv" "q_n_posted y = 1" "q_key y = key" "q_id y = q_next_id s1" by blast
    have "avahi_query_scheduler_post v key immediately s = Some (s', Some (q_id y))"
      unfolding avahi_query_scheduler_post_def using h(1) n by (simp add: el)
    moreover have "s_sent s' = s_sent s" "q_next_id s1 = q_next_id s" "questions s' = (questions s)(?k := {y})"
      using y(2,3) h(6) same_rest_fields [OF h(7)] by simp_all
    ultimately show ?thesis using y(1,4-8) h(2-4)
      by (intro exI [of _ s'] exI [of _ "Some (q_id y)"]) (simp only: option.case, intro conjI exI [of _ y], simp_all)
  next
    fix j x
    assume h: "find_history_query v key s = Some (s, Some j)" "s_job s j = Some x" "j_state x = AVAHI_DONE" "key_canon (q_key x) = ?k"
      "questions s ?k = {x}" "avahi_age (env_now v) (j_delivery x) \<le> 100000"
    with assms(1) show ?thesis by (intro exI [of _ s] exI [of _ None]) (simp add: avahi_query_scheduler_post_def)
  qed
qed

lemma query_update_ok:
  assumes "query_core J s" "s_job s j = Some x" "sched_core J' s'" "s_job s' = (s_job s)(j \<mapsto> y)" "q_key y = q_key x" "q_n_posted y = q_n_posted x"
    "j_state y \<noteq> AVAHI_SUPPRESSED"
  shows "query_core J' s'" "questions s' = (questions s)(key_canon (q_key x) := {y})"
proof -
  have q: "query_jobs_ok (s_job s)" using assms(1) by (simp add: query_core_def)
  have p: "1 \<le> q_n_posted y" using query_jobsD(2) [OF q assms(2)] assms(6) by simp
  from query_jobs_update [OF q assms(2,5) p assms(7)] assms(3)
  show "query_core J' s'" "questions s' = (questions s)(key_canon (q_key x) := {y})" by (simp_all add: query_core_def assms(4))
qed

lemma query_mark_done_ok:
  assumes "query_core J s" "s_job s j = Some x" "j_state x = AVAHI_SCHEDULED"
  obtains s' y where "job_mark_done v msec j s = Some s'" "query_core (J - {j}) s'" "s_job s' j = Some y" "j_state y = AVAHI_DONE"
    "j_delivery y = env_now v" "q_key y = q_key x" "q_id y = q_id x" "q_n_posted y = q_n_posted x" "questions s' = (questions s)(key_canon (q_key x) := {y})"
    "due (s_time_event_queue s') (Job j) = {later v msec}" "s_jobs s' = remove1 j (s_jobs s)" "same_rest s s'"
proof -
  have c: "sched_core J s" using assms(1) by (simp add: query_core_def)
  from mark_done_ok [OF c assms(2,3), of v msec] obtain s' t where
    s': "job_mark_done v msec j s = Some s'" "sched_core (J - {j}) s'"
      "s_job s' = (s_job s)(j \<mapsto> x\<lparr>j_state := AVAHI_DONE, j_time_event := Some t, j_delivery := env_now v\<rparr>)"
      "s_jobs s' = remove1 j (s_jobs s)" "due (s_time_event_queue s') (Job j) = {fst (elapse v msec 0 (s_jitter s))}" "same_rest s s'" by blast
  from query_update_ok [OF assms(1,2) s'(2,3)] s' show thesis
    by (intro that [of s' "x\<lparr>j_state := AVAHI_DONE, j_time_event := Some t, j_delivery := env_now v\<rparr>"]) (simp_all add: elapse_later)
qed

subsection \<open>Questions of others, and withdrawing\<close>

lemma no_question:
  assumes "query_core J s" "\<And>x. x \<in> questions s k \<Longrightarrow> j_state x \<noteq> AVAHI_SCHEDULED" "\<And>x. x \<in> questions s k \<Longrightarrow> j_state x \<noteq> AVAHI_DONE"
  shows "questions s k = {}"
proof (rule ccontr)
  assume "questions s k \<noteq> {}"
  then obtain j x where x: "s_job s j = Some x" "x \<in> questions s k" by (auto simp: questions_of_def)
  from query_jobsD(3) [of "s_job s" j x] assms(1) x(1) have "j_state x \<noteq> AVAHI_SUPPRESSED" by (simp add: query_core_def)
  with assms(2,3) [OF x(2)] show False by (cases "j_state x") simp_all
qed

lemma incoming_ok:
  assumes "query_ok s" "sendable_key key"
  shows "\<exists>s' j y. avahi_query_scheduler_incoming v key s = Some s' \<and> query_ok s' \<and> s_sent s' = s_sent s \<and>
    questions s' = (questions s)(key_canon key := {y}) \<and> s_job s' j = Some y \<and> j_state y = AVAHI_DONE \<and> j_delivery y = env_now v \<and>
    due (s_time_event_queue s') (Job j) = {later v AVAHI_QUERY_HISTORY_MSEC}"
proof -
  have sc: "query_core {} s" using assms(1) by simp
  let ?k = "key_canon key"
  have upd: "\<exists>s' y. (do { t \<leftarrow> mod_job j (\<lambda>x. x\<lparr>j_delivery := env_now v\<rparr>) t; job_set_elapse_time v j AVAHI_QUERY_HISTORY_MSEC 0 t }) = Some s' \<and>
      query_core {} s' \<and> same_rest t s' \<and> questions s' = (questions t)(?k := {y}) \<and> s_job s' j = Some y \<and> j_state y = AVAHI_DONE \<and>
      j_delivery y = env_now v \<and> due (s_time_event_queue s') (Job j) = {later v AVAHI_QUERY_HISTORY_MSEC}"
    if t: "query_core J t" "s_job t j = Some x" "j_state x = AVAHI_DONE" "key_canon (q_key x) = ?k" "J \<subseteq> {j}" for t :: "'a query_scheduler" and j x J
  proof -
    let ?x = "x\<lparr>j_delivery := env_now v\<rparr>"
    let ?t = "t\<lparr>s_job := (s_job t)(j \<mapsto> ?x)\<rparr>"
    have c: "sched_core J ?t" by (rule core_payload [OF _ t(2)]) (use t in \<open>simp_all add: query_core_def\<close>)
    have "s_job ?t j = Some ?x" "j_state ?x \<noteq> AVAHI_SCHEDULED" using t(3) by simp_all
    from set_elapse_ok [OF c this, of v AVAHI_QUERY_HISTORY_MSEC 0] obtain s' u where
      s': "job_set_elapse_time v j AVAHI_QUERY_HISTORY_MSEC 0 ?t = Some s'" "sched_core (J - {j}) s'" "s_job s' = (s_job ?t)(j \<mapsto> ?x\<lparr>j_time_event := Some u\<rparr>)"
        "due (s_time_event_queue s') (Job j) = {fst (elapse v AVAHI_QUERY_HISTORY_MSEC 0 (s_jitter ?t))}" "same_rest ?t s'" by blast
    have h: "s_job s' = (s_job t)(j \<mapsto> ?x\<lparr>j_time_event := Some u\<rparr>)" using s'(3) by simp
    have J: "J - {j} = {}" using t(5) by blast
    from query_update_ok [OF t(1,2) s'(2) h] t(2-4) s'(1,4,5) h show ?thesis
      by (intro exI [of _ s'] exI [of _ "?x\<lparr>j_time_event := Some u\<rparr>"]) (simp add: mod_job_def J elapse_later same_rest_def)
  qed
  have new: "\<exists>s' j y. (do {
          let (s, j) = query_job_new key AVAHI_DONE (env_now v) t;
          s \<leftarrow> mod_job j (\<lambda>x. x\<lparr>j_delivery := env_now v\<rparr>) s;
          job_set_elapse_time v j AVAHI_QUERY_HISTORY_MSEC 0 s
        }) = Some s' \<and> query_ok s' \<and> s_sent s' = s_sent t \<and> questions s' = (questions t)(?k := {y}) \<and> s_job s' j = Some y \<and>
        j_state y = AVAHI_DONE \<and> j_delivery y = env_now v \<and> due (s_time_event_queue s') (Job j) = {later v AVAHI_QUERY_HISTORY_MSEC}"
    if t: "query_ok t" "questions t ?k = {}" for t :: "'a query_scheduler"
  proof -
    have tc: "query_core {} t" and d: "AVAHI_DONE \<noteq> AVAHI_SUPPRESSED" using t(1) by simp_all
    show ?thesis
    proof (rule query_job_new_ok [OF tc assms(2) t(2) d, of "env_now v"])
      fix t' j x
      assume n: "query_job_new key AVAHI_DONE (env_now v) t = (t', j)" "query_core {j} t'" "s_job t' j = Some x"
        "x = \<lparr>j_time_event = None, j_state = AVAHI_DONE, j_delivery = env_now v, q_id = q_next_id t, q_n_posted = 1, q_key = key\<rparr>"
        "questions t' = (questions t)(?k := {x})" "s_sent t' = s_sent t" "q_known_answers t' = q_known_answers t"
      have x: "j_state x = AVAHI_DONE" "key_canon (q_key x) = ?k" using n(4) by simp_all
      from upd [OF n(2,3) x] obtain s' y where "(do { s \<leftarrow> mod_job j (\<lambda>x. x\<lparr>j_delivery := env_now v\<rparr>) t'; job_set_elapse_time v j AVAHI_QUERY_HISTORY_MSEC 0 s }) = Some s'"
        "query_core {} s'" "same_rest t' s'" "questions s' = (questions t')(?k := {y})" "s_job s' j = Some y" "j_state y = AVAHI_DONE"
        "j_delivery y = env_now v" "due (s_time_event_queue s') (Job j) = {later v AVAHI_QUERY_HISTORY_MSEC}" by blast
      with n(1,5-7) t(1) same_rest_fields [of t' s'] show ?thesis
        by (intro exI [of _ s'] exI [of _ j] exI [of _ y]) simp
    qed
  qed
  show ?thesis
  proof (rule find_scheduled_cases [OF sc assms(2)])
    fix j x
    assume f: "find_scheduled_query key s = Some (Some j)" "s_job s j = Some x" "j_state x = AVAHI_SCHEDULED" "key_canon (q_key x) = ?k" "questions s ?k = {x}"
    show ?thesis
      by (rule query_mark_done_ok [OF sc f(2,3), of v AVAHI_QUERY_HISTORY_MSEC])
        (use f assms(1) in \<open>auto simp: avahi_query_scheduler_incoming_def dest!: same_rest_fields\<close>)
  next
    assume f: "find_scheduled_query key s = Some None" "\<And>x. x \<in> questions s ?k \<Longrightarrow> j_state x \<noteq> AVAHI_SCHEDULED"
    show ?thesis
    proof (rule find_history_cases [OF sc assms(2), of v])
      fix j x
      assume h: "find_history_query v key s = Some (s, Some j)" "s_job s j = Some x" "j_state x = AVAHI_DONE" "key_canon (q_key x) = ?k"
      from upd [OF sc h(2-4)] obtain s' y where "(do { s \<leftarrow> mod_job j (\<lambda>x. x\<lparr>j_delivery := env_now v\<rparr>) s; job_set_elapse_time v j AVAHI_QUERY_HISTORY_MSEC 0 s }) = Some s'"
        "query_core {} s'" "same_rest s s'" "questions s' = (questions s)(?k := {y})" "s_job s' j = Some y" "j_state y = AVAHI_DONE"
        "j_delivery y = env_now v" "due (s_time_event_queue s') (Job j) = {later v AVAHI_QUERY_HISTORY_MSEC}" by blast
      with f(1) h(1) assms(1) same_rest_fields [of s s'] show ?thesis
        by (intro exI [of _ s'] exI [of _ j] exI [of _ y]) (simp add: avahi_query_scheduler_incoming_def)
    next
      assume h: "find_history_query v key s = Some (s, None)" "\<And>x. x \<in> questions s ?k \<Longrightarrow> j_state x \<noteq> AVAHI_DONE"
      from no_question [OF sc f(2) h(2)] have e: "questions s ?k = {}" .
      from new [OF assms(1) e] f(1) h(1) show ?thesis by (auto simp: avahi_query_scheduler_incoming_def)
    next
      fix s1 x
      assume h: "find_history_query v key s = Some (s1, None)" "questions s ?k = {x}" "query_core {} s1" "questions s1 = (questions s)(?k := {})" "same_rest s s1"
      have s1: "query_ok s1" "questions s1 ?k = {}" "s_sent s1 = s_sent s" using h(3,4) same_rest_fields [OF h(5)] assms(1) by simp_all
      from new [OF s1(1,2)] obtain s' j y where n: "(do {
          let (s, j) = query_job_new key AVAHI_DONE (env_now v) s1;
          s \<leftarrow> mod_job j (\<lambda>x. x\<lparr>j_delivery := env_now v\<rparr>) s;
          job_set_elapse_time v j AVAHI_QUERY_HISTORY_MSEC 0 s
        }) = Some s'" "query_ok s'" "s_sent s' = s_sent s1" "questions s' = (questions s1)(?k := {y})" "s_job s' j = Some y"
        "j_state y = AVAHI_DONE" "j_delivery y = env_now v" "due (s_time_event_queue s') (Job j) = {later v AVAHI_QUERY_HISTORY_MSEC}" by blast
      then have "avahi_query_scheduler_incoming v key s = Some s'" using f(1) h(1) by (simp add: avahi_query_scheduler_incoming_def)
      with n(2-8) s1(3) h(4) show ?thesis by (intro exI [of _ s'] exI [of _ j] exI [of _ y]) simp
    qed
  qed
qed


text \<open>Withdrawing one post of the query with the id that its post has returned.\<close>

lemma job_free_query_ok:
  assumes "query_core J s" "s_job s j = Some x"
  obtains s' where "job_free j s = Some s'" "query_core (J - {j}) s'" "questions s' = (questions s)(key_canon (q_key x) := {})" "same_rest s s'"
proof -
  have c: "sched_core J s" "query_jobs_ok (s_job s)" using assms(1) by (simp_all add: query_core_def)
  from job_free_ok [OF c(1) assms(2)] query_jobs_remove [OF c(2) assms(2)] that show thesis
    by (metis query_core_def)
qed

lemma withdraw_loop_ok:
  assumes "query_ok s" "distinct js" "set js \<subseteq> set (s_jobs s)"
  shows "\<exists>s' b. withdraw_loop ident js s = Some (s', b) \<and> query_ok s' \<and> s_sent s' = s_sent s"
  using assms
proof (induction js arbitrary: s)
  case (Cons j js)
  from Cons.prems(1) have c: "sched_core {} s" "query_jobs_ok (s_job s)" "query_core {} s" by (simp_all add: query_core_def)
  from Cons.prems(3) sched_coreD(3) [OF c(1), of j AVAHI_SCHEDULED] obtain x where x: "s_job s j = Some x" "j_state x = AVAHI_SCHEDULED" by auto
  note q = query_jobsD [OF c(2) x(1)]
  let ?y = "x\<lparr>q_n_posted := q_n_posted x - 1\<rparr>"
  let ?s = "s\<lparr>s_job := (s_job s)(j \<mapsto> ?y)\<rparr>"
  have cs: "sched_core {} ?s" by (rule core_payload [OF c(1) x(1)]) simp_all
  show ?case
  proof (cases "q_id x = ident")
    case False
    with Cons.IH [OF Cons.prems(1)] Cons.prems(2,3) x show ?thesis by simp
  next
    case id: True
    show ?thesis
    proof (cases "q_n_posted x = 1")
      case True
      have h: "s_job ?s j = Some ?y" by simp
      from job_free_ok [OF cs h] obtain s' where
        s': "job_free j ?s = Some s'" "sched_core ({} - {j}) s'" "s_job s' = (s_job ?s)(j := None)" "same_rest ?s s'" by blast
      have "s_job s' = (s_job s)(j := None)" using s'(3) by simp
      then have "query_core {} s'" using s'(2) query_jobs_remove(1) [OF c(2) x(1)] by (simp add: query_core_def)
      then show ?thesis using True x id s'(1) same_rest_fields [OF s'(4)] Cons.prems(1)
        by (intro exI [of _ s'] exI [of _ True]) (simp add: mod_job_def)
    next
      case False
      have "query_core {} ?s" by (rule query_core_payload [OF c(3) x(1) cs]) (use q False x in simp_all)
      then have "query_ok ?s" using Cons.prems(1) by simp
      from Cons.IH [OF this] Cons.prems(2,3) show ?thesis using False q(2) id x by (simp add: mod_job_def)
    qed
  qed
qed auto

lemma withdraw_loop_none:
  "(\<And>i. i \<in> set is \<Longrightarrow> \<exists>y. s_job t i = Some y \<and> j_state y = AVAHI_SCHEDULED \<and> q_id y \<noteq> ident) \<Longrightarrow> withdraw_loop ident is t = Some (t, False)"
  by (induction "is") fastforce+

definition withdrawn :: "query_job \<Rightarrow> query_job set" where
  "withdrawn x = (if q_n_posted x = 1 then {} else {x\<lparr>q_n_posted := q_n_posted x - 1\<rparr>})"

lemma withdraw_loop_exact:
  assumes "query_ok s" "js = ys @ j # zs" "set js \<subseteq> set (s_jobs s)" "distinct js" "s_job s j = Some x" "q_id x = ident"
    "\<And>i y. i \<in> set js \<Longrightarrow> s_job s i = Some y \<Longrightarrow> q_id y = ident \<Longrightarrow> i = j"
  shows "\<exists>s'. withdraw_loop ident js s = Some (s', q_n_posted x = 1) \<and> query_ok s' \<and> s_sent s' = s_sent s \<and>
    questions s' = (questions s)(key_canon (q_key x) := withdrawn x)"
  using assms
proof (induction ys arbitrary: js)
  case Nil
  from Nil.prems(1) have c: "sched_core {} s" "query_jobs_ok (s_job s)" "query_core {} s" by (simp_all add: query_core_def)
  have "j \<in> set (job_list AVAHI_SCHEDULED s)" using Nil.prems(2,3) by simp
  with Nil.prems(5) sched_coreD(3) [OF c(1), of j AVAHI_SCHEDULED] have x: "s_job s j = Some x" "j_state x = AVAHI_SCHEDULED" by auto
  note q = query_jobsD [OF c(2) x(1)]
  let ?y = "x\<lparr>q_n_posted := q_n_posted x - 1\<rparr>"
  let ?s = "s\<lparr>s_job := (s_job s)(j \<mapsto> ?y)\<rparr>"
  have cs: "sched_core {} ?s" by (rule core_payload [OF c(1) x(1)]) simp_all
  show ?case
  proof (cases "q_n_posted x = 1")
    case True
    then have w: "withdrawn x = {}" by (simp add: withdrawn_def)
    have h: "s_job ?s j = Some ?y" by simp
    from job_free_ok [OF cs h] obtain s' where
      s': "job_free j ?s = Some s'" "sched_core ({} - {j}) s'" "s_job s' = (s_job ?s)(j := None)" "same_rest ?s s'" by blast
    have n: "s_job s' = (s_job s)(j := None)" using s'(3) by simp
    with s'(2) query_jobs_remove [OF c(2) x(1)] have "query_core {} s'" "questions s' = (questions s)(key_canon (q_key x) := {})"
      by (simp_all add: query_core_def)
    then have "query_ok s'" "s_sent s' = s_sent s" "questions s' = (questions s)(key_canon (q_key x) := withdrawn x)"
      using same_rest_fields [OF s'(4)] Nil.prems(1) unfolding w by simp_all
    moreover have "withdraw_loop ident js s = Some (s', q_n_posted x = 1)" using True x Nil.prems(2,6) s'(1) by (simp add: mod_job_def)
    ultimately show ?thesis by (intro exI [of _ s'] conjI) (simp_all only:)
  next
    case False
    then have w: "withdrawn x = {?y}" by (simp add: withdrawn_def)
    have y: "q_key ?y = q_key x" "1 \<le> q_n_posted ?y" "j_state ?y \<noteq> AVAHI_SUPPRESSED" using q False x by simp_all
    note u = query_jobs_update [OF c(2) x(1) y]
    have "withdraw_loop ident zs ?s = Some (?s, False)"
    proof (rule withdraw_loop_none)
      fix i
      assume i: "i \<in> set zs"
      have "i \<in> set (job_list AVAHI_SCHEDULED s)" and ij: "i \<noteq> j" using i Nil.prems(2-4) by auto
      with sched_coreD(3) [OF c(1), of i AVAHI_SCHEDULED] obtain y where y: "s_job s i = Some y" "j_state y = AVAHI_SCHEDULED" by blast
      have "q_id y \<noteq> ident" using Nil.prems(7) [of i y] y(1) ij i Nil.prems(2) by auto
      with y ij show "\<exists>y. s_job ?s i = Some y \<and> j_state y = AVAHI_SCHEDULED \<and> q_id y \<noteq> ident" by simp
    qed
    moreover have "query_core {} ?s" using u(1) cs by (simp add: query_core_def)
    ultimately have "withdraw_loop ident js s = Some (?s, q_n_posted x = 1)" "query_ok ?s" "s_sent ?s = s_sent s"
      using False x q(2) Nil.prems(1,2,6) by (simp_all add: mod_job_def)
    moreover have "questions ?s = (questions s)(key_canon (q_key x) := withdrawn x)" unfolding w using u(2) by simp
    ultimately show ?thesis by (intro exI [of _ ?s] conjI) (simp_all only:)
  qed
next
  case (Cons i ys)
  from Cons.prems(1) have c: "sched_core {} s" by (simp add: query_core_def)
  from Cons.prems(2,3) sched_coreD(3) [OF c(1), of i AVAHI_SCHEDULED] obtain y where y: "s_job s i = Some y" "j_state y = AVAHI_SCHEDULED" by auto
  have "i \<noteq> j" using Cons.prems(2,4) by auto
  then have "q_id y \<noteq> ident" using Cons.prems(7) [of i y] y(1) Cons.prems(2) by auto
  moreover have "\<exists>s'. withdraw_loop ident (ys @ j # zs) s = Some (s', q_n_posted x = 1) \<and> query_ok s' \<and> s_sent s' = s_sent s \<and>
    questions s' = (questions s)(key_canon (q_key x) := withdrawn x)"
  proof (rule Cons.IH [OF Cons.prems(1) refl _ _ Cons.prems(5,6)])
    show "set (ys @ j # zs) \<subseteq> set (s_jobs s)" "distinct (ys @ j # zs)" using Cons.prems(2-4) by auto
    fix k z
    assume k: "k \<in> set (ys @ j # zs)" "s_job s k = Some z" "q_id z = ident"
    have "k \<in> set js" using k(1) Cons.prems(2) by auto
    from Cons.prems(7) [OF this k(2,3)] show "k = j" .
  qed
  then obtain s' where "withdraw_loop ident (ys @ j # zs) s = Some (s', q_n_posted x = 1)" "query_ok s'" "s_sent s' = s_sent s"
    "questions s' = (questions s)(key_canon (q_key x) := withdrawn x)" by blast
  moreover from this(1) \<open>q_id y \<noteq> ident\<close> y have "withdraw_loop ident js s = Some (s', q_n_posted x = 1)" by (simp add: Cons.prems(2))
  ultimately show ?case by (intro exI [of _ s'] conjI) (simp_all only:)
qed

subsection \<open>Messages\<close>

text \<open>
  A message is a sequence of packets: the first one carries the questions, all of them known answers, and all but
  the last one have the flag that more of it follows. \<open>ks\<close> are the questions, \<open>rss\<close> the answers by packet.
\<close>

abbreviation asks_items :: "rrkey list \<Rightarrow> rr list \<Rightarrow> item list" where
  "asks_items ks rs \<equiv> map (\<lambda>k. Question k False) ks @ map (\<lambda>r. Record r False 0) rs"

definition blank_fields :: "nat \<Rightarrow> u16" where
  "blank_fields j = (if j < 6 then 0 else bytes_u16 [])"

definition query_packet :: "packet \<Rightarrow> rrkey list \<Rightarrow> rr list \<Rightarrow> bool \<Rightarrow> bool" where
  "query_packet p ks rs tc \<longleftrightarrow> carries p (asks_items ks rs) \<and>
     field p = blank_fields(AVAHI_DNS_FIELD_FLAGS := (if tc then AVAHI_DNS_FLAG_TC else 0),
       AVAHI_DNS_FIELD_QDCOUNT := of_nat (length ks), AVAHI_DNS_FIELD_ANCOUNT := of_nat (length rs))"

fun query_message :: "rrkey list \<Rightarrow> rr list list \<Rightarrow> packet list \<Rightarrow> bool" where
  "query_message ks (rs # rss) (p # ps) \<longleftrightarrow> query_packet p ks rs (ps \<noteq> []) \<and> (if ps = [] then rss = [] else query_message [] rss ps)"
| "query_message ks _ _ \<longleftrightarrow> False"

text \<open>A packet under construction.\<close>

definition building :: "nat \<Rightarrow> packet \<Rightarrow> rrkey list \<Rightarrow> rr list \<Rightarrow> bool" where
  "building mtu p ks rs \<longleftrightarrow> carries p (asks_items ks rs) \<and> field p = blank_fields(AVAHI_DNS_FIELD_QDCOUNT := of_nat (length ks)) \<and>
     p_max_size p = p_max_size (avahi_dns_packet_new mtu)"

lemma field_index: "AVAHI_DNS_FIELD_FLAGS = 1" "AVAHI_DNS_FIELD_QDCOUNT = 2" "AVAHI_DNS_FIELD_ANCOUNT = 3"
  by (simp_all add: AVAHI_DNS_FIELD_FLAGS_def AVAHI_DNS_FIELD_QDCOUNT_def AVAHI_DNS_FIELD_ANCOUNT_def)

lemma new_query_building:
  obtains p where "avahi_dns_packet_new_query mtu = Some p" "building mtu p [] []" "p_size p = AVAHI_DNS_PACKET_HEADER_SIZE"
proof (rule new_query_carries [of mtu])
  fix p
  assume p: "avahi_dns_packet_new_query mtu = Some p" "carries p []" "field p = (\<lambda>j. if j < 6 then 0 else bytes_u16 [])"
    "p_max_size p = p_max_size (avahi_dns_packet_new mtu)"
  have "blank_fields(AVAHI_DNS_FIELD_QDCOUNT := 0) = field p" by (auto simp: p(3) blank_fields_def field_index)
  with p that [of p] show thesis by (simp add: building_def carries_nothing)
qed

lemma building_set_field:
  assumes "carries p (asks_items ks rs)" "idx < 6"
  obtains p' where "avahi_dns_packet_set_field p idx v = Some p'" "carries p' (asks_items ks rs)" "field p' = (field p)(idx := v)"
    "p_max_size p' = p_max_size p"
  using set_field_carries [OF assms] by metis

text \<open>One known answer is appended, left out because it is too large for any packet, or begins the next packet.\<close>

lemma append_known_answer_ok:
  assumes "building mtu p ks rs" "sendable r"
  obtains (fits) p' where "append_known_answer mtu r (length rs) p s = Some (s, p', length rs, False)" "building mtu p' ks (rs @ [r])"
  | (large) p' where "append_known_answer mtu r (length rs) p s = Some (s, p', length rs, True)" "building mtu p' ks rs"
      "AVAHI_DNS_PACKET_HEADER_SIZE + record_size r > p_max_size (avahi_dns_packet_new mtu)"
  | (split_fits) q p' where "append_known_answer mtu r (length rs) p s = Some (s\<lparr>s_sent := s_sent s @ [q]\<rparr>, p', 0, False)"
      "query_packet q ks rs True" "building mtu p' [] [r]"
  | (split_large) q p' where "append_known_answer mtu r (length rs) p s = Some (s\<lparr>s_sent := s_sent s @ [q]\<rparr>, p', 0, True)"
      "query_packet q ks rs True" "building mtu p' [] []" "AVAHI_DNS_PACKET_HEADER_SIZE + record_size r > p_max_size (avahi_dns_packet_new mtu)"
proof -
  have b: "carries p (asks_items ks rs)" "field p = blank_fields(AVAHI_DNS_FIELD_QDCOUNT := of_nat (length ks))"
    "p_max_size p = p_max_size (avahi_dns_packet_new mtu)" using assms(1) by (simp_all add: building_def)
  have i: "sendable_item (Record r False 0)" using assms(2) by simp
  show thesis
  proof (rule append_item_carries [OF b(1) i])
    fix p1 t
    assume p1: "append_item (Record r False 0) p = Some (p1, t)" "carries p1 (if t = None then asks_items ks rs else asks_items ks rs @ [Record r False 0])"
      "header p1 = header p" "p_max_size p1 = p_max_size p" "p_size p + item_size (Record r False 0) \<le> p_max_size p \<Longrightarrow> t \<noteq> None"
      "t = None \<Longrightarrow> p_size p1 = p_size p"
    have f: "field p1 = field p" using p1(3) by (simp add: field_def fun_eq_iff)
    show thesis
    proof (cases t)
      case (Some x)
      with p1(2) have "carries p1 (asks_items ks (rs @ [r]))" by simp
      with f b p1(4) have "building mtu p1 ks (rs @ [r])" by (simp add: building_def)
      moreover have "append_known_answer mtu r (length rs) p s = Some (s, p1, length rs, False)"
        using p1(1) Some by (subst append_known_answer.simps) simp
      ultimately show thesis using fits by blast
    next
      case None
      have c1: "carries p1 (asks_items ks rs)" using p1(2) None by simp
      have b1: "building mtu p1 ks rs" using c1 f b p1(4) by (simp add: building_def)
      show thesis
      proof (cases "avahi_dns_packet_is_empty p1")
        case True
        then have "p_size p = AVAHI_DNS_PACKET_HEADER_SIZE" using packet_empty_iff [OF carries_ok [OF c1]] p1(6) None by simp
        then have "\<not> AVAHI_DNS_PACKET_HEADER_SIZE + record_size r \<le> p_max_size (avahi_dns_packet_new mtu)" using p1(5) None b(3) by auto
        then have "AVAHI_DNS_PACKET_HEADER_SIZE + record_size r > p_max_size (avahi_dns_packet_new mtu)" by simp
        moreover have "append_known_answer mtu r (length rs) p s = Some (s, p1, length rs, True)"
          using p1(1) None True by (subst append_known_answer.simps) simp
        ultimately show thesis using large b1 by blast
      next
        case False
        have g: "avahi_dns_packet_get_field p1 AVAHI_DNS_FIELD_FLAGS = Some 0"
          using get_field_eq [OF carries_ok [OF c1], of AVAHI_DNS_FIELD_FLAGS] f b(2) by (simp add: field_index blank_fields_def)
        obtain p2 where p2: "avahi_dns_packet_set_field p1 AVAHI_DNS_FIELD_FLAGS AVAHI_DNS_FLAG_TC = Some p2" "carries p2 (asks_items ks rs)"
          "field p2 = (field p1)(AVAHI_DNS_FIELD_FLAGS := AVAHI_DNS_FLAG_TC)"
          using building_set_field [OF c1, of AVAHI_DNS_FIELD_FLAGS AVAHI_DNS_FLAG_TC] by (auto simp: field_index)
        obtain p3 where p3: "avahi_dns_packet_set_field p2 AVAHI_DNS_FIELD_ANCOUNT (of_nat (length rs)) = Some p3" "carries p3 (asks_items ks rs)"
          "field p3 = (field p2)(AVAHI_DNS_FIELD_ANCOUNT := of_nat (length rs))"
          using building_set_field [OF p2(2), of AVAHI_DNS_FIELD_ANCOUNT "of_nat (length rs)"] by (auto simp: field_index)
        have q: "query_packet p3 ks rs True"
          using p3(2,3) p2(3) f b(2) by (auto simp: query_packet_def field_index fun_eq_iff)
        obtain m where m: "avahi_dns_packet_free p3 = Some m" using packet_free_ok [OF carries_ok [OF p3(2)]] by blast
        obtain p4 where p4: "avahi_dns_packet_new_query mtu = Some p4" "building mtu p4 [] []" "p_size p4 = AVAHI_DNS_PACKET_HEADER_SIZE"
          by (rule new_query_building)
        have e: "append_known_answer mtu r (length rs) p s = append_known_answer mtu r 0 p4 (s\<lparr>s_sent := s_sent s @ [p3]\<rparr>)"
          using p1(1) None False g p2(1) p3(1) m p4(1)
          by (subst append_known_answer.simps) (simp add: avahi_interface_send_packet_def)
        have c4: "carries p4 []" "p_max_size p4 = p_max_size (avahi_dns_packet_new mtu)" "field p4 = blank_fields(AVAHI_DNS_FIELD_QDCOUNT := 0)"
          using p4(2) by (simp_all add: building_def)
        show thesis
        proof (rule append_item_carries [OF c4(1) i])
          fix p5 u
          assume p5: "append_item (Record r False 0) p4 = Some (p5, u)" "carries p5 (if u = None then [] else [] @ [Record r False 0])"
            "header p5 = header p4" "p_max_size p5 = p_max_size p4" "p_size p4 + item_size (Record r False 0) \<le> p_max_size p4 \<Longrightarrow> u \<noteq> None"
            "u = None \<Longrightarrow> p_size p5 = p_size p4"
          have f5: "field p5 = field p4" using p5(3) by (simp add: field_def fun_eq_iff)
          show thesis
          proof (cases u)
            case (Some x)
            have "building mtu p5 [] [r]" using Some p5(2,4) f5 c4(2,3) by (simp add: building_def)
            moreover have "append_known_answer mtu r 0 p4 (s\<lparr>s_sent := s_sent s @ [p3]\<rparr>) = Some (s\<lparr>s_sent := s_sent s @ [p3]\<rparr>, p5, 0, False)"
              using p5(1) Some by (subst append_known_answer.simps) simp
            ultimately show thesis using split_fits [OF _ q] e by simp
          next
            case n: None
            have c5: "carries p5 []" using n p5(2) by simp
            have "building mtu p5 [] []" using n c5 p5(4) f5 c4(2,3) by (simp add: building_def)
            moreover have "avahi_dns_packet_is_empty p5" using packet_empty_iff [OF carries_ok [OF c5]] p5(6) n p4(3) by simp
            then have "append_known_answer mtu r 0 p4 (s\<lparr>s_sent := s_sent s @ [p3]\<rparr>) = Some (s\<lparr>s_sent := s_sent s @ [p3]\<rparr>, p5, 0, True)"
              using p5(1) n by (subst append_known_answer.simps) simp
            moreover have "\<not> AVAHI_DNS_PACKET_HEADER_SIZE + record_size r \<le> p_max_size (avahi_dns_packet_new mtu)" using p5(5) n p4(3) c4(2) by auto
            then have "AVAHI_DNS_PACKET_HEADER_SIZE + record_size r > p_max_size (avahi_dns_packet_new mtu)" by simp
            ultimately show thesis using split_large [OF _ q] e by simp
          qed
        qed
      qed
    qed
  qed
qed

lemma query_message_single: "query_packet p ks rs False \<Longrightarrow> query_message ks [rs] [p]"
  by simp

lemma query_message_more: "query_packet p ks rs True \<Longrightarrow> query_message [] rss ps \<Longrightarrow> query_message ks (rs # rss) (p # ps)"
  by (cases ps; cases rss) simp_all

lemma answers_and_send_ok:
  assumes "building mtu p ks rs" "list_all sendable kas" "kas = [] \<Longrightarrow> q_known_answers s = []"
  shows "\<exists>rss ps. append_known_answers_and_send mtu kas (length rs) p s = Some (s\<lparr>q_known_answers := [], s_sent := s_sent s @ ps\<rparr>) \<and>
      query_message ks rss ps \<and> set (concat rss) \<subseteq> set rs \<union> set kas \<and> set rs \<subseteq> set (concat rss) \<and>
      (\<forall>r \<in> set kas. AVAHI_DNS_PACKET_HEADER_SIZE + record_size r \<le> p_max_size (avahi_dns_packet_new mtu) \<longrightarrow> r \<in> set (concat rss))"
  using assms
proof (induction kas arbitrary: p ks rs s)
  case Nil
  then have b: "carries p (asks_items ks rs)" "field p = blank_fields(AVAHI_DNS_FIELD_QDCOUNT := of_nat (length ks))" by (simp_all add: building_def)
  obtain q where q: "avahi_dns_packet_set_field p AVAHI_DNS_FIELD_ANCOUNT (of_nat (length rs)) = Some q" "carries q (asks_items ks rs)"
    "field q = (field p)(AVAHI_DNS_FIELD_ANCOUNT := of_nat (length rs))"
    using building_set_field [OF b(1), of AVAHI_DNS_FIELD_ANCOUNT "of_nat (length rs)"] by (auto simp: field_index)
  have qp: "query_packet q ks rs False" using q(2,3) b(2) by (auto simp: query_packet_def field_index fun_eq_iff blank_fields_def)
  obtain m where m: "avahi_dns_packet_free q = Some m" using packet_free_ok [OF carries_ok [OF q(2)]] by blast
  have "s\<lparr>q_known_answers := [], s_sent := s_sent s @ [q]\<rparr> = s\<lparr>s_sent := s_sent s @ [q]\<rparr>" using Nil.prems(3) by simp
  then have "append_known_answers_and_send mtu [] (length rs) p s = Some (s\<lparr>q_known_answers := [], s_sent := s_sent s @ [q]\<rparr>)"
    using q(1) m by (simp add: avahi_interface_send_packet_def)
  with query_message_single [OF qp] show ?case by (intro exI [of _ "[rs]"] exI [of _ "[q]"]) simp
next
  case (Cons r kas)
  then have r: "sendable r" "list_all sendable kas" by simp_all
  let ?fit = "\<lambda>r. AVAHI_DNS_PACKET_HEADER_SIZE + record_size r \<le> p_max_size (avahi_dns_packet_new mtu)"
  have IH: "\<exists>rss ps. append_known_answers_and_send mtu kas (length rs') p' (t\<lparr>q_known_answers := kas\<rparr>) =
      Some (t\<lparr>q_known_answers := [], s_sent := s_sent t @ ps\<rparr>) \<and>
      query_message ks' rss ps \<and> set (concat rss) \<subseteq> set rs' \<union> set kas \<and> set rs' \<subseteq> set (concat rss) \<and>
      (\<forall>r \<in> set kas. ?fit r \<longrightarrow> r \<in> set (concat rss))" if "building mtu p' ks' rs'" for p' ks' rs' and t :: "'a query_scheduler"
    using Cons.IH [OF that r(2), of "t\<lparr>q_known_answers := kas\<rparr>"] by simp
  show ?case
  proof (rule append_known_answer_ok [OF Cons.prems(1) r(1), of s])
    fix p'
    assume a: "append_known_answer mtu r (length rs) p s = Some (s, p', length rs, False)" "building mtu p' ks (rs @ [r])"
    from IH [OF a(2), of s] a(1) show ?thesis by fastforce
  next
    fix p'
    assume a: "append_known_answer mtu r (length rs) p s = Some (s, p', length rs, True)" "building mtu p' ks rs"
      "AVAHI_DNS_PACKET_HEADER_SIZE + record_size r > p_max_size (avahi_dns_packet_new mtu)"
    from IH [OF a(2), of s] a(1,3) show ?thesis by fastforce
  next
    fix q p'
    assume a: "append_known_answer mtu r (length rs) p s = Some (s\<lparr>s_sent := s_sent s @ [q]\<rparr>, p', 0, False)" "query_packet q ks rs True" "building mtu p' [] [r]"
    from IH [OF a(3), of "s\<lparr>s_sent := s_sent s @ [q]\<rparr>"] obtain rss ps where
      i: "append_known_answers_and_send mtu kas 1 p' (s\<lparr>s_sent := s_sent s @ [q], q_known_answers := kas\<rparr>) =
        Some (s\<lparr>q_known_answers := [], s_sent := s_sent s @ q # ps\<rparr>)" "query_message [] rss ps" "set (concat rss) \<subseteq> {r} \<union> set kas"
        "r \<in> set (concat rss)" "\<forall>r \<in> set kas. ?fit r \<longrightarrow> r \<in> set (concat rss)" by auto
    from query_message_more [OF a(2) i(2)] i a(1) show ?thesis by (intro exI [of _ "rs # rss"] exI [of _ "q # ps"]) auto
  next
    fix q p'
    assume a: "append_known_answer mtu r (length rs) p s = Some (s\<lparr>s_sent := s_sent s @ [q]\<rparr>, p', 0, True)" "query_packet q ks rs True" "building mtu p' [] []"
      "AVAHI_DNS_PACKET_HEADER_SIZE + record_size r > p_max_size (avahi_dns_packet_new mtu)"
    from IH [OF a(3), of "s\<lparr>s_sent := s_sent s @ [q]\<rparr>"] obtain rss ps where
      i: "append_known_answers_and_send mtu kas 0 p' (s\<lparr>s_sent := s_sent s @ [q], q_known_answers := kas\<rparr>) =
        Some (s\<lparr>q_known_answers := [], s_sent := s_sent s @ q # ps\<rparr>)" "query_message [] rss ps" "set (concat rss) \<subseteq> set kas"
        "\<forall>r \<in> set kas. ?fit r \<longrightarrow> r \<in> set (concat rss)" by auto
    from query_message_more [OF a(2) i(2)] i a(1,4) show ?thesis by (intro exI [of _ "rs # rss"] exI [of _ "q # ps"]) auto
  qed
qed

subsection \<open>Sending what is scheduled\<close>

definition known_answers :: "env \<Rightarrow> 'c cache \<Rightarrow> rrkey \<Rightarrow> rr set" where
  "known_answers v c key = {ce_record x | e x. c_heap c e = Some x \<and> known_answer v key x}"

text \<open>From \<open>s\<close> to \<open>s'\<close> the questions \<open>ks\<close>, which were scheduled, have been asked, and no others have changed.\<close>

definition asked :: "env \<Rightarrow> rrkey list \<Rightarrow> 'o query_scheduler \<Rightarrow> 'o query_scheduler \<Rightarrow> bool" where
  "asked v ks s s' \<longleftrightarrow> distinct (map key_canon ks) \<and>
     (\<forall>k. k \<notin> key_canon ` set ks \<longrightarrow> questions s' k = questions s k) \<and>
     (\<forall>key \<in> set ks. \<exists>x y. questions s (key_canon key) = {x} \<and> j_state x = AVAHI_SCHEDULED \<and> q_key x = key \<and>
        questions s' (key_canon key) = {y} \<and> j_state y = AVAHI_DONE \<and> j_delivery y = env_now v \<and> q_key y = key)"

lemma asked_nothing: "asked v [] s s"
  by (simp add: asked_def)

lemma asked_other: "asked v ks s s' \<Longrightarrow> k \<notin> key_canon ` set ks \<Longrightarrow> questions s' k = questions s k"
  unfolding asked_def by blast

lemma asked_question:
  "asked v ks s s' \<Longrightarrow> key \<in> set ks \<Longrightarrow> \<exists>x y. questions s (key_canon key) = {x} \<and> j_state x = AVAHI_SCHEDULED \<and> q_key x = key \<and>
     questions s' (key_canon key) = {y} \<and> j_state y = AVAHI_DONE \<and> j_delivery y = env_now v \<and> q_key y = key"
  unfolding asked_def by blast

lemma asked_then:
  assumes "asked v ks s s1" "asked v ls s1 s2"
  shows "asked v (ks @ ls) s s2"
proof -
  have dis: "key_canon k \<noteq> key_canon l" if "k \<in> set ks" "l \<in> set ls" for k l
  proof
    assume e: "key_canon k = key_canon l"
    from assms(1) that(1) obtain y where "questions s1 (key_canon k) = {y}" "j_state y = AVAHI_DONE" unfolding asked_def by blast
    moreover from assms(2) that(2) obtain x where "questions s1 (key_canon l) = {x}" "j_state x = AVAHI_SCHEDULED" unfolding asked_def by blast
    ultimately show False using e by simp
  qed
  have "questions s2 k = questions s k" if "k \<notin> key_canon ` set (ks @ ls)" for k
  proof -
    from that have "k \<notin> key_canon ` set ks" "k \<notin> key_canon ` set ls" by auto
    with asked_other [OF assms(1)] asked_other [OF assms(2)] show ?thesis by simp
  qed
  moreover have "\<exists>x y. questions s (key_canon key) = {x} \<and> j_state x = AVAHI_SCHEDULED \<and> q_key x = key \<and>
        questions s2 (key_canon key) = {y} \<and> j_state y = AVAHI_DONE \<and> j_delivery y = env_now v \<and> q_key y = key" if "key \<in> set (ks @ ls)" for key
  proof (cases "key \<in> set ks")
    case True
    then have "key_canon key \<notin> key_canon ` set ls" using dis by blast
    then have "questions s2 (key_canon key) = questions s1 (key_canon key)" using assms(2) unfolding asked_def by blast
    with asked_question [OF assms(1) True] show ?thesis by simp
  next
    case False
    then have l: "key \<in> set ls" using that by simp
    then have "key_canon key \<notin> key_canon ` set ks" using dis by fastforce
    then have "questions s1 (key_canon key) = questions s (key_canon key)" using assms(1) unfolding asked_def by blast
    with asked_question [OF assms(2) l] show ?thesis by simp
  qed
  moreover have "distinct (map key_canon (ks @ ls))"
    using assms dis unfolding asked_def by fastforce
  ultimately show ?thesis unfolding asked_def by blast
qed

text \<open>The packet \<open>p\<close> carries the questions \<open>ks\<close>, which are not counted yet.\<close>

definition drafting :: "nat \<Rightarrow> packet \<Rightarrow> rrkey list \<Rightarrow> bool" where
  "drafting mtu p ks \<longleftrightarrow> carries p (asks_items ks []) \<and> field p = blank_fields \<and> p_max_size p = p_max_size (avahi_dns_packet_new mtu)"

lemma new_query_drafting:
  obtains p where "avahi_dns_packet_new_query mtu = Some p" "drafting mtu p []" "p_size p = AVAHI_DNS_PACKET_HEADER_SIZE"
proof (rule new_query_building [of mtu])
  fix p
  assume p: "avahi_dns_packet_new_query mtu = Some p" "building mtu p [] []" "p_size p = AVAHI_DNS_PACKET_HEADER_SIZE"
  have "blank_fields(AVAHI_DNS_FIELD_QDCOUNT := 0) = blank_fields" by (auto simp: blank_fields_def field_index)
  with p that [of p] show thesis by (simp add: building_def drafting_def)
qed

lemma add_query_job_ok:
  assumes "query_core J s" "s_job s j = Some x" "j_state x = AVAHI_SCHEDULED" "drafting mtu p ks" "cache_ok {} c"
  obtains (refused) p' where "packet_add_query_job v c j p s = Some (s, p', False)" "drafting mtu p' ks" "p_size p' = p_size p"
      "p_size p + key_size (q_key x) > p_max_size p"
  | (added) s' p' where "packet_add_query_job v c j p s = Some (s', p', True)" "drafting mtu p' (ks @ [q_key x])" "query_core (J - {j}) s'"
      "asked v [q_key x] s s'" "s_sent s' = s_sent s" "set (q_known_answers s') = set (q_known_answers s) \<union> known_answers v c (q_key x)"
      "s_jobs s' = remove1 j (s_jobs s)"
proof -
  let ?q = "Question (q_key x) False"
  have q: "query_jobs_ok (s_job s)" using assms(1) by (simp add: query_core_def)
  have b: "carries p (asks_items ks [])" "field p = blank_fields"
    "p_max_size p = p_max_size (avahi_dns_packet_new mtu)" using assms(4) by (simp_all add: drafting_def)
  have k: "sendable_item ?q" using query_jobsD(1) [OF q assms(2)] by simp
  show thesis
  proof (rule append_item_carries [OF b(1) k])
    fix p1 t
    assume p1: "append_item ?q p = Some (p1, t)" "carries p1 (if t = None then asks_items ks [] else asks_items ks [] @ [?q])"
      "header p1 = header p" "p_max_size p1 = p_max_size p" "p_size p + item_size ?q \<le> p_max_size p \<Longrightarrow> t \<noteq> None"
      "t = None \<Longrightarrow> p_size p1 = p_size p"
    have f: "field p1 = field p" using p1(3) by (simp add: field_def fun_eq_iff)
    show thesis
    proof (cases t)
      case None
      have "\<not> p_size p + key_size (q_key x) \<le> p_max_size p" using p1(5) None by auto
      then have "p_size p + key_size (q_key x) > p_max_size p" by simp
      moreover have "drafting mtu p1 ks" using p1(2,4) None f b by (simp add: drafting_def)
      moreover have "packet_add_query_job v c j p s = Some (s, p1, False)" using p1(1) None assms(2) by (simp add: packet_add_query_job_def)
      ultimately show thesis using refused p1(6) None by blast
    next
      case (Some u)
      have b1: "carries p1 (asks_items (ks @ [q_key x]) [])" using p1(2) Some by simp
      have b2: "drafting mtu p1 (ks @ [q_key x])" using b1 f b p1(4) by (simp add: drafting_def)
      from known_answers_walk [OF assms(5) sendable_key_readable [OF query_jobsD(1) [OF q assms(2)]], of "q_known_answers s" v] obtain K' where
        K': "avahi_cache_walk (walked c (q_known_answers s)) (q_key x) (known_answer_walk_callback v) = Some (None, walked c K')"
          "set K' = set (q_known_answers s) \<union> known_answers v c (q_key x)" unfolding known_answers_def by blast
      let ?s = "s\<lparr>q_known_answers := K'\<rparr>"
      have qs: "query_core J ?s" "s_job ?s j = Some x" using assms(1,2) by (simp_all add: query_core_def)
      show thesis
      proof (rule query_mark_done_ok [OF qs assms(3), of v AVAHI_QUERY_HISTORY_MSEC])
        fix s' y
        assume s': "job_mark_done v AVAHI_QUERY_HISTORY_MSEC j ?s = Some s'" "query_core (J - {j}) s'" "j_state y = AVAHI_DONE"
          "j_delivery y = env_now v" "q_key y = q_key x" "questions s' = (questions ?s)(key_canon (q_key x) := {y})" "s_jobs s' = remove1 j (s_jobs ?s)"
          "same_rest ?s s'"
        have a: "asked v [q_key x] s s'" using query_jobsD(5) [OF q assms(2)] s'(3-6) assms(3) by (simp add: asked_def)
        have e: "packet_add_query_job v c j p s = Some (s', p1, True)"
          using p1(1) Some assms(2) K'(1) s'(1) by (simp add: packet_add_query_job_def)
        from added [OF e b2 s'(2) a] same_rest_fields [OF s'(8)] s'(7) K'(2) show thesis by simp
      qed
    qed
  qed
qed


lemma fill_ok:
  assumes "query_core {} s" "drafting mtu p ks" "cache_ok {} c"
  shows "\<exists>s' p' ls. fill_with_queries v c n p s = Some (s', p', n + length ls) \<and> query_core {} s' \<and> drafting mtu p' (ks @ ls) \<and>
    asked v ls s s' \<and> s_sent s' = s_sent s \<and>
    set (q_known_answers s') = set (q_known_answers s) \<union> (\<Union>k \<in> set ls. known_answers v c k)"
  using assms
proof (induction "length (s_jobs s)" arbitrary: n p s ks)
  case 0
  then show ?case by (subst fill_with_queries.simps) (auto intro!: exI [of _ "[]"] simp: asked_nothing)
next
  case (Suc m)
  then obtain j js where j: "s_jobs s = j # js" by (cases "s_jobs s") auto
  have c: "sched_core {} s" using Suc.prems(1) by (simp add: query_core_def)
  from sched_coreD(3) [OF c, of j AVAHI_SCHEDULED] j obtain x where x: "s_job s j = Some x" "j_state x = AVAHI_SCHEDULED" by auto
  show ?case
  proof (rule add_query_job_ok [OF Suc.prems(1) x Suc.prems(2) assms(3), of v])
    fix p1
    assume "packet_add_query_job v c j p s = Some (s, p1, False)" "drafting mtu p1 ks"
    then show ?thesis using j Suc.prems(1) by (subst fill_with_queries.simps) (auto intro!: exI [of _ "[]"] simp: asked_nothing)
  next
    fix s1 p1
    assume a: "packet_add_query_job v c j p s = Some (s1, p1, True)" "drafting mtu p1 (ks @ [q_key x])" "query_core ({} - {j}) s1"
      "asked v [q_key x] s s1" "s_sent s1 = s_sent s" "set (q_known_answers s1) = set (q_known_answers s) \<union> known_answers v c (q_key x)"
      "s_jobs s1 = remove1 j (s_jobs s)"
    have m: "m = length (s_jobs s1)" using Suc.hyps(2) a(7) j by simp
    have c1: "query_core {} s1" using a(3) by simp
    from Suc.hyps(1) [OF m c1 a(2) assms(3), of "n + 1"] obtain s' p' ls where
      i: "fill_with_queries v c (n + 1) p1 s1 = Some (s', p', n + 1 + length ls)" "query_core {} s'" "drafting mtu p' ((ks @ [q_key x]) @ ls)"
        "asked v ls s1 s'" "s_sent s' = s_sent s1" "set (q_known_answers s') = set (q_known_answers s1) \<union> (\<Union>k \<in> set ls. known_answers v c k)" by blast
    have "fill_with_queries v c n p s = Some (s', p', n + length (q_key x # ls))"
      using j a(1) i(1) by (subst fill_with_queries.simps) simp
    moreover have "asked v (q_key x # ls) s s'" using asked_then [OF a(4) i(4)] by simp
    ultimately show ?thesis using i(2,3,5,6) a(5,6) by (intro exI [of _ s'] exI [of _ p'] exI [of _ "q_key x # ls"]) auto
  qed
qed

definition cache_sendable :: "'c cache \<Rightarrow> bool" where
  "cache_sendable c \<longleftrightarrow> (\<forall>e y. c_heap c e = Some y \<longrightarrow> sendable (ce_record y))"

lemma query_elapse_ok:
  assumes "query_ok s" "s_job s j = Some x" "j_state x = AVAHI_SCHEDULED" "cache_ok {} c" "cache_sendable c" "512 \<le> mtu"
  shows "\<exists>s' ks rss ps. query_elapse_callback v c mtu j s = Some s' \<and> query_ok s' \<and> s_sent s' = s_sent s @ ps \<and> asked v (q_key x # ks) s s' \<and>
    query_message (q_key x # ks) rss ps \<and> set (concat rss) \<subseteq> (\<Union>k \<in> set (q_key x # ks). known_answers v c k) \<and>
    (\<forall>r \<in> (\<Union>k \<in> set (q_key x # ks). known_answers v c k).
       AVAHI_DNS_PACKET_HEADER_SIZE + record_size r \<le> mtu - 48 \<longrightarrow> r \<in> set (concat rss))"
proof -
  have c: "query_core {} s" using assms(1) by simp
  have m: "p_max_size (avahi_dns_packet_new mtu) = mtu - 48" by (rule query_room) (use assms(6) in simp)
  obtain p where p: "avahi_dns_packet_new_query mtu = Some p" "drafting mtu p []" "p_size p = AVAHI_DNS_PACKET_HEADER_SIZE"
    by (rule new_query_drafting)
  have "key_size (q_key x) \<le> 262" using key_size_bound query_jobsD(1) [of "s_job s" j x] c assms(2) by (simp add: query_core_def)
  then have fits: "p_size p + key_size (q_key x) \<le> p_max_size p"
    using p(2,3) m assms(6) by (simp add: drafting_def AVAHI_DNS_PACKET_HEADER_SIZE_def)
  obtain s1 p1 where s1: "packet_add_query_job v c j p s = Some (s1, p1, True)" "drafting mtu p1 ([] @ [q_key x])" "query_core ({} - {j}) s1"
      "asked v [q_key x] s s1" "s_sent s1 = s_sent s" "set (q_known_answers s1) = set (q_known_answers s) \<union> known_answers v c (q_key x)"
    by (rule add_query_job_ok [OF c assms(2,3) p(2) assms(4), of v]) (use fits in simp_all)
  have c1: "query_core {} s1" using s1(3) by simp
  from fill_ok [OF c1 s1(2) assms(4), of v 1] obtain s2 p2 ls where
    s2: "fill_with_queries v c 1 p1 s1 = Some (s2, p2, 1 + length ls)" "query_core {} s2" "drafting mtu p2 (q_key x # ls)" "asked v ls s1 s2"
      "s_sent s2 = s_sent s1" "set (q_known_answers s2) = set (q_known_answers s1) \<union> (\<Union>k \<in> set ls. known_answers v c k)" by auto
  let ?ks = "q_key x # ls"
  have a: "asked v ?ks s s2" using asked_then [OF s1(4) s2(4)] by simp
  have K: "set (q_known_answers s2) = (\<Union>k \<in> set ?ks. known_answers v c k)" using s2(6) s1(6) assms(1) by simp
  have d: "carries p2 (asks_items ?ks [])" "field p2 = blank_fields" "p_max_size p2 = p_max_size (avahi_dns_packet_new mtu)"
    using s2(3) unfolding drafting_def by blast+
  obtain p3 where p3: "avahi_dns_packet_set_field p2 AVAHI_DNS_FIELD_QDCOUNT (of_nat (1 + length ls)) = Some p3" "carries p3 (asks_items ?ks [])"
    "field p3 = (field p2)(AVAHI_DNS_FIELD_QDCOUNT := of_nat (1 + length ls))" "p_max_size p3 = p_max_size p2"
    using building_set_field [OF d(1), of AVAHI_DNS_FIELD_QDCOUNT "of_nat (1 + length ls)"] by (auto simp: field_index)
  have b: "building mtu p3 ?ks []" unfolding building_def using p3(2-4) d(2,3) by simp
  have "list_all sendable (q_known_answers s2)" using K assms(5) unfolding list_all_iff known_answers_def cache_sendable_def by auto
  from answers_and_send_ok [OF b this, of s2] obtain rss ps where
    f: "append_known_answers_and_send mtu (q_known_answers s2) 0 p3 s2 = Some (s2\<lparr>q_known_answers := [], s_sent := s_sent s2 @ ps\<rparr>)"
      "query_message ?ks rss ps" "set (concat rss) \<subseteq> set (q_known_answers s2)"
      "\<forall>r \<in> set (q_known_answers s2). AVAHI_DNS_PACKET_HEADER_SIZE + record_size r \<le> mtu - 48 \<longrightarrow> r \<in> set (concat rss)"
    by (auto simp: m)
  let ?s = "s2\<lparr>q_known_answers := [], s_sent := s_sent s2 @ ps\<rparr>"
  have "query_elapse_callback v c mtu j s = Some ?s"
    unfolding query_elapse_callback_def using assms(1-3) p(1) s1(1) s2(1) p3(1) f(1) by simp
  moreover have "query_ok ?s" "s_sent ?s = s_sent s @ ps" "asked v ?ks s ?s" using s2(2,5) s1(5) a by (simp_all add: query_core_def asked_def)
  ultimately show ?thesis using f(2-4) unfolding K by (intro exI [of _ ?s] exI [of _ ls] exI [of _ rss] exI [of _ ps] conjI) (simp_all only:)
qed

end
