(* ===== verification/Querylife.thy ===== *)
theory Querylife
  imports Queryrun Zonelife
begin

text \<open>
  The life of a query scheduler: every sequence of posts, withdrawals, questions of other hosts and timers
  returns and keeps one job for each question; what a post does, what is sent, and what is not.
\<close>

subsection \<open>Sequences of operations\<close>

text \<open>The cache and the MTU of the interface are those at the time when the timer is due.\<close>

datatype 'o query_op =
    Post env rrkey bool
  | Heard env rrkey
  | Withdraw u32
  | Due env "'o cache" nat nat
  | Clear

fun query_exec :: "'o query_op \<Rightarrow> 'o query_scheduler \<Rightarrow> 'o query_scheduler outcome" where
  "query_exec (Post v key immediately) s = map_option fst (avahi_query_scheduler_post v key immediately s)"
| "query_exec (Heard v key) s = avahi_query_scheduler_incoming v key s"
| "query_exec (Withdraw ident) s = map_option fst (avahi_query_scheduler_withdraw_by_id ident s)"
| "query_exec (Due v c mtu j) s = query_elapse_callback v c mtu j s"
| "query_exec Clear s = avahi_query_scheduler_clear s"

fun query_allowed :: "'o query_scheduler \<Rightarrow> 'o query_op \<Rightarrow> bool" where
  "query_allowed s (Post v key _) \<longleftrightarrow> sendable_key key"
| "query_allowed s (Heard v key) \<longleftrightarrow> sendable_key key"
| "query_allowed s (Withdraw _) \<longleftrightarrow> True"
| "query_allowed s (Due v c mtu j) \<longleftrightarrow> s_job s j \<noteq> None \<and> cache_ok {} c \<and> cache_sendable c \<and> 512 \<le> mtu"
| "query_allowed s Clear \<longleftrightarrow> True"

inductive query_reachable :: "'o query_scheduler \<Rightarrow> bool" where
  start: "teq_core q \<Longrightarrow> \<forall>j. Timers.armed q (Job j) = {} \<Longrightarrow> query_reachable (avahi_query_scheduler_new q jit)"
| operation: "query_reachable s \<Longrightarrow> query_allowed s a \<Longrightarrow> query_exec a s = Some s' \<Longrightarrow> query_reachable s'"

lemma query_new_ok:
  assumes "teq_core q" "\<forall>j. Timers.armed q (Job j) = {}"
  shows "query_ok (avahi_query_scheduler_new q jit)"
  using assms by (simp add: query_core_def sched_core_def avahi_query_scheduler_new_def query_jobs_ok_def job_list_def split: job_state.split)

lemma query_expired_ok:
  assumes "query_ok s" "s_job s j = Some x" "j_state x \<noteq> AVAHI_SCHEDULED"
  shows "\<exists>s'. query_elapse_callback v c mtu j s = Some s' \<and> query_ok s' \<and> s_sent s' = s_sent s \<and>
    questions s' = (questions s)(key_canon (q_key x) := {})"
proof -
  have c: "query_core {} s" using assms(1) by simp
  have st: "j_state x = AVAHI_DONE"
    using query_jobsD(3) [of "s_job s" j x] c assms(2,3) by (cases "j_state x") (simp_all add: query_core_def)
  show ?thesis
    by (rule job_free_query_ok [OF c assms(2)]) (use assms(1,2) st in \<open>auto simp: query_elapse_callback_def dest!: same_rest_fields\<close>)
qed

lemma query_clear_ok:
  assumes "query_ok s"
  shows "\<exists>s'. avahi_query_scheduler_clear s = Some s' \<and> query_ok s' \<and> s_sent s' = s_sent s \<and> s_job s' = (\<lambda>_. None)"
proof -
  have c: "sched_core {} s" using assms by (simp add: query_core_def)
  from scheduler_clear_ok [OF c] obtain s' where "scheduler_clear s = Some s'" "sched_core {} s'" "s_job s' = (\<lambda>_. None)" "same_rest s s'" by blast
  with assms show ?thesis by (auto simp: avahi_query_scheduler_clear_def query_core_def query_jobs_ok_def dest!: same_rest_fields)
qed

lemma query_withdraw_ok:
  assumes "query_ok s"
  shows "\<exists>s' b. avahi_query_scheduler_withdraw_by_id ident s = Some (s', b) \<and> query_ok s' \<and> s_sent s' = s_sent s"
proof -
  have "distinct (s_jobs s)" using sched_coreD(2) [of "{}" s AVAHI_SCHEDULED] assms by (simp add: query_core_def)
  from withdraw_loop_ok [OF assms this] show ?thesis by (simp add: avahi_query_scheduler_withdraw_by_id_def)
qed

lemma query_exec_ok:
  assumes "query_ok s" "query_allowed s a"
  shows "\<exists>s'. query_exec a s = Some s' \<and> query_ok s'"
proof (cases a)
  case (Post v key im)
  with assms have "sendable_key key" by simp
  from post_ok [OF assms(1) this, of v im] Post show ?thesis by auto
next
  case (Heard v key)
  with assms have "sendable_key key" by simp
  from incoming_ok [OF assms(1) this, of v] Heard show ?thesis by auto
next
  case (Withdraw ident)
  from query_withdraw_ok [OF assms(1), of ident] Withdraw show ?thesis by auto
next
  case (Due v c mtu j)
  with assms(2) obtain x where x: "s_job s j = Some x" "cache_ok {} c" "cache_sendable c" "512 \<le> mtu" by auto
  show ?thesis
  proof (cases "j_state x = AVAHI_SCHEDULED")
    case True
    from query_elapse_ok [OF assms(1) x(1) True x(2-4), of v] Due show ?thesis by auto
  next
    case False
    from query_expired_ok [OF assms(1) x(1) False, of v c mtu] Due show ?thesis by auto
  qed
next
  case Clear
  with query_clear_ok [OF assms(1)] show ?thesis by auto
qed

lemma query_reachable_ok: "query_reachable s \<Longrightarrow> query_ok s"
proof (induction rule: query_reachable.induct)
  case (start q jit)
  then show ?case by (rule query_new_ok)
next
  case (operation s a s')
  with query_exec_ok [OF operation.IH operation.hyps(2)] show ?case by auto
qed

inductive_cases query_reachableE: "query_reachable s"

text \<open>
  C14: in every scheduler that can be reached, each question has at most one job; every job is in the list
  of its state with exactly one timer, which for a scheduled one is due at its time of delivery; every query counts at least
  one poster; and every further operation returns.
\<close>

theorem query_scheduler_consistent:
  assumes "query_reachable (s :: 'o query_scheduler)"
  shows "(\<forall>i j x y. s_job s i = Some x \<and> s_job s j = Some y \<and> key_canon (q_key x) = key_canon (q_key y) \<longrightarrow> i = j) \<and>
    (\<forall>j x. s_job s j = Some x \<longrightarrow> 1 \<le> q_n_posted x \<and> (j \<in> set (s_jobs s) \<longleftrightarrow> j_state x = AVAHI_SCHEDULED) \<and>
       (j \<in> set (s_history s) \<longleftrightarrow> j_state x = AVAHI_DONE) \<and>
       (\<exists>tv. due (s_time_event_queue s) (Job j) = {tv} \<and> (j_state x = AVAHI_SCHEDULED \<longrightarrow> tv = j_delivery x))) \<and>
    (\<forall>a. query_allowed s a \<longrightarrow> query_exec a s \<noteq> crash)"
proof -
  have ok: "query_ok s" using assms by (rule query_reachable_ok)
  then have c: "sched_core {} s" "query_jobs_ok (s_job s)" by (simp_all add: query_core_def)
  have "1 \<le> q_n_posted x \<and> (j \<in> set (s_jobs s) \<longleftrightarrow> j_state x = AVAHI_SCHEDULED) \<and> (j \<in> set (s_history s) \<longleftrightarrow> j_state x = AVAHI_DONE) \<and>
       (\<exists>tv. due (s_time_event_queue s) (Job j) = {tv} \<and> (j_state x = AVAHI_SCHEDULED \<longrightarrow> tv = j_delivery x))" if x: "s_job s j = Some x" for j x
  proof -
    from sched_coreD(6) [OF c(1) x] obtain t tv where t: "Timers.armed (s_time_event_queue s) (Job j) = {(t, tv)}"
      "j_state x = AVAHI_SCHEDULED \<longrightarrow> tv = j_delivery x" by (auto simp: job_timer_ok_def)
    then have "due (s_time_event_queue s) (Job j) = {tv}" by (simp add: due_def)
    with t(2) sched_coreD(3) [OF c(1), of j AVAHI_SCHEDULED] sched_coreD(3) [OF c(1), of j AVAHI_DONE] x query_jobsD(2) [OF c(2) x]
    show ?thesis by auto
  qed
  moreover have "query_exec a s \<noteq> crash" if "query_allowed s a" for a :: "'o query_op"
    using query_exec_ok [OF ok that] by auto
  ultimately show ?thesis using query_jobs_same [OF c(2)] by blast
qed


lemma post_new_question:
  assumes "query_ok s" "sendable_key key" "questions s (key_canon key) = {}"
  obtains s' y where "avahi_query_scheduler_post v key immediately s = Some (s', Some (q_next_id s))"
    "questions s' = (questions s)(key_canon key := {y})" "q_id y = q_next_id s" "j_state y = AVAHI_SCHEDULED"
    "j_delivery y = post_time v immediately" "q_n_posted y = 1" "q_key y = key"
proof -
  from post_ok [OF assms(1,2), of v immediately, unfolded assms(3)] that show thesis
    by (elim exE conjE) (auto split: option.splits)
qed

text \<open>A scheduler, a question and a cache for the witnesses.\<close>

definition first_queries :: "'o query_scheduler" where
  "first_queries = avahi_query_scheduler_new avahi_time_event_queue_new \<lparr>last_rand = 0, timestamp = 0\<rparr>"

definition sample_key :: rrkey where
  "sample_key = \<lparr>key_name = str ''a.local'', key_clazz = AVAHI_DNS_CLASS_IN, key_type = AVAHI_DNS_TYPE_SRV\<rparr>"

lemma sample_key_ok: "sendable_key sample_key"
  by code_simp

lemma first_queries_ok:
  shows "query_reachable (first_queries :: 'o query_scheduler)" "query_ok (first_queries :: 'o query_scheduler)"
    "questions (first_queries :: 'o query_scheduler) k = {}"
proof -
  have q: "teq_core (avahi_time_event_queue_new :: 'o job_timer teq)" "\<forall>j. Timers.armed (avahi_time_event_queue_new :: 'o job_timer teq) (Job j) = {}"
    by (simp_all add: teq_core_new Timers.armed_new)
  from query_reachable.start [OF q] show "query_reachable (first_queries :: 'o query_scheduler)" by (simp add: first_queries_def)
  from query_new_ok [OF q] show "query_ok (first_queries :: 'o query_scheduler)" unfolding first_queries_def .
  show "questions (first_queries :: 'o query_scheduler) k = {}" by (simp add: first_queries_def avahi_query_scheduler_new_def questions_of_def)
qed

theorem query_scheduler_consistent_witness:
  "\<exists>s :: 'o query_scheduler. query_exec (Post some_env sample_key True) first_queries = Some s \<and>
    query_exec (Heard some_env sample_key :: 'o query_op) s \<noteq> crash"
proof -
  let ?a = "Post some_env sample_key True :: 'o query_op"
  have a: "query_allowed (first_queries :: 'o query_scheduler) ?a" using sample_key_ok by simp
  from query_exec_ok [OF first_queries_ok(2) a] obtain s :: "'o query_scheduler" where s: "query_exec ?a first_queries = Some s" by blast
  from query_reachable.operation [OF first_queries_ok(1) a s] have "query_reachable s" .
  moreover have "query_allowed s (Heard some_env sample_key :: 'o query_op)" using sample_key_ok by simp
  ultimately have "query_exec (Heard some_env sample_key :: 'o query_op) s \<noteq> crash" using query_scheduler_consistent [of s] by blast
  with s show ?thesis by blast
qed

subsection \<open>Posting and hearing questions\<close>

text \<open>
  C16: posting a question. It is refused, and nothing changes, exactly if it was asked or heard at most 100 ms
  ago. Otherwise the job that is scheduled for it counts one more poster and is delivered at the earlier one
  of the two times, and without one a new job is due now or in 100 ms. No other question is touched and nothing is sent.
\<close>

theorem query_post_exact:
  assumes "query_reachable s" "sendable_key key"
  shows "\<exists>s' r. avahi_query_scheduler_post v key immediately s = Some (s', r) \<and> s_sent s' = s_sent s \<and>
    (case r of
       None \<Rightarrow> s' = s \<and> (\<exists>x. questions s (key_canon key) = {x} \<and> j_state x = AVAHI_DONE \<and> avahi_age (env_now v) (j_delivery x) \<le> 100000)
     | Some ident \<Rightarrow> \<exists>y. questions s' = (questions s)(key_canon key := {y}) \<and> q_id y = ident \<and>
         ((\<exists>x. questions s (key_canon key) = {x} \<and> j_state x = AVAHI_SCHEDULED \<and> y = posted_again (post_time v immediately) x) \<or>
          (\<forall>x \<in> questions s (key_canon key). j_state x = AVAHI_DONE \<and> avahi_age (env_now v) (j_delivery x) > 100000) \<and>
          j_state y = AVAHI_SCHEDULED \<and> j_delivery y = post_time v immediately \<and> q_n_posted y = 1 \<and> q_key y = key \<and> ident = q_next_id s))"
  using post_ok [OF query_reachable_ok [OF assms(1)] assms(2), of v immediately] by blast

theorem query_post_exact_witness:
  "\<exists>s' y. avahi_query_scheduler_post some_env sample_key False (first_queries :: 'o query_scheduler) = Some (s', Some 0) \<and>
    questions s' (key_canon sample_key) = {y} \<and> j_delivery y = avahi_timeval_add (env_now some_env) 100000 \<and> q_n_posted y = 1"
proof -
  have e: "questions (first_queries :: 'o query_scheduler) (key_canon sample_key) = {}" by (rule first_queries_ok(3))
  have n: "q_next_id (first_queries :: 'o query_scheduler) = 0" by (simp add: first_queries_def avahi_query_scheduler_new_def)
  have t: "post_time some_env False = avahi_timeval_add (env_now some_env) 100000"
    by (simp add: post_time_def later_def AVAHI_QUERY_DEFER_MSEC_def)
  from query_post_exact [OF first_queries_ok(1) [where 'o = 'o] sample_key_ok, of some_env False] obtain s' :: "'o query_scheduler" and r where
    p: "avahi_query_scheduler_post some_env sample_key False first_queries = Some (s', r)"
      "case r of None \<Rightarrow> False | Some ident \<Rightarrow> \<exists>y. questions s' (key_canon sample_key) = {y} \<and> j_delivery y = post_time some_env False \<and>
         q_n_posted y = 1 \<and> ident = 0"
    by (auto simp: e n split: option.splits)
  then show ?thesis by (cases r) (auto simp: t)
qed

text \<open>
  C26: duplicate question suppression. When another host has asked a question, its scheduled job is done, and the
  question is neither scheduled nor sent by any post of the next 100 ms.
\<close>

theorem heard_question_not_asked:
  assumes "query_reachable s" "sendable_key key" "sendable_key key'" "key_canon key' = key_canon key"
    and "avahi_age (env_now v') (env_now v) \<le> 100000"
  shows "\<exists>s'. avahi_query_scheduler_incoming v key s = Some s' \<and> s_sent s' = s_sent s \<and>
    (\<forall>x \<in> questions s' (key_canon key). j_state x = AVAHI_DONE) \<and> avahi_query_scheduler_post v' key' immediately s' = Some (s', None)"
proof -
  from incoming_ok [OF query_reachable_ok [OF assms(1)] assms(2), of v] obtain s' y where
    s': "avahi_query_scheduler_incoming v key s = Some s'" "query_ok s'" "s_sent s' = s_sent s" "questions s' = (questions s)(key_canon key := {y})"
      "j_state y = AVAHI_DONE" "j_delivery y = env_now v" by blast
  then have q: "questions s' (key_canon key') = {y}" by (simp add: assms(4))
  have "query_core {} s'" using s'(2) by simp
  then have "avahi_query_scheduler_post v' key' immediately s' = Some (s', None)"
    by (rule find_history_cases [OF _ assms(3), of _ _ v'])
      (use q s'(5,6) assms(5) in \<open>auto simp: avahi_query_scheduler_post_def\<close>)
  with s' q assms(4) show ?thesis by auto
qed

theorem heard_question_not_asked_witness:
  "\<exists>s' :: 'o query_scheduler. avahi_query_scheduler_incoming some_env sample_key first_queries = Some s' \<and>
    avahi_query_scheduler_post some_env sample_key True s' = Some (s', None)"
proof -
  have "avahi_age (env_now some_env) (env_now some_env) \<le> 100000" by code_simp
  from heard_question_not_asked [OF first_queries_ok(1) sample_key_ok sample_key_ok refl this] show ?thesis by blast
qed

text \<open>
  C27: withdrawing. If one scheduled job has the id, it loses one poster, and it is gone, and the result is 1,
  exactly if this was the last one; everything else stays as it is.
\<close>

theorem query_withdraw_exact:
  assumes "query_reachable s" "s_job s j = Some x" "j_state x = AVAHI_SCHEDULED"
    and "\<And>i y. s_job s i = Some y \<Longrightarrow> j_state y = AVAHI_SCHEDULED \<Longrightarrow> q_id y = q_id x \<Longrightarrow> i = j"
  shows "\<exists>s'. avahi_query_scheduler_withdraw_by_id (q_id x) s = Some (s', q_n_posted x = 1) \<and> s_sent s' = s_sent s \<and>
    questions s' = (questions s)(key_canon (q_key x) := (if q_n_posted x = 1 then {} else {x\<lparr>q_n_posted := q_n_posted x - 1\<rparr>}))"
proof -
  have ok: "query_ok s" using assms(1) by (rule query_reachable_ok)
  then have c: "sched_core {} s" by (simp add: query_core_def)
  have "j \<in> set (s_jobs s)" using sched_coreD(3) [OF c, of j AVAHI_SCHEDULED] assms(2,3) by simp
  then obtain ys zs where z: "s_jobs s = ys @ j # zs" by (meson split_list)
  have u: "i = j" if "i \<in> set (s_jobs s)" "s_job s i = Some y" "q_id y = q_id x" for i y
    using assms(4) [of i y] that sched_coreD(3) [OF c, of i AVAHI_SCHEDULED] by auto
  have d: "distinct (s_jobs s)" using sched_coreD(2) [OF c, of AVAHI_SCHEDULED] by simp
  have "\<exists>s'. withdraw_loop (q_id x) (s_jobs s) s = Some (s', q_n_posted x = 1) \<and> query_ok s' \<and> s_sent s' = s_sent s \<and>
    questions s' = (questions s)(key_canon (q_key x) := withdrawn x)"
    by (rule withdraw_loop_exact [OF ok z subset_refl d assms(2) refl]) (rule u)
  then show ?thesis unfolding avahi_query_scheduler_withdraw_by_id_def withdrawn_def by blast
qed

theorem query_withdraw_exact_witness:
  "\<exists>(s :: 'o query_scheduler) s'. avahi_query_scheduler_post some_env sample_key True first_queries = Some (s, Some 0) \<and>
    avahi_query_scheduler_withdraw_by_id 0 s = Some (s', True) \<and> questions s' (key_canon sample_key) = {}"
proof -
  have e: "questions (first_queries :: 'o query_scheduler) k = {}" for k by (rule first_queries_ok(3))
  have n: "q_next_id (first_queries :: 'o query_scheduler) = 0" by (simp add: first_queries_def avahi_query_scheduler_new_def)
  obtain s :: "'o query_scheduler" and y where
    p: "avahi_query_scheduler_post some_env sample_key True first_queries = Some (s, Some 0)"
    and y: "questions s = (questions (first_queries :: 'o query_scheduler))(key_canon sample_key := {y})" "q_id y = 0" "j_state y = AVAHI_SCHEDULED"
      "q_n_posted y = 1" "q_key y = sample_key"
    using post_new_question [OF first_queries_ok(2) [where 'o = 'o] sample_key_ok e, of some_env True] unfolding n by metis
  have only: "z = y" if "s_job s i = Some z" for i z
  proof -
    have "z \<in> questions s (key_canon (q_key z))" using that by (auto simp: questions_of_def)
    with y(1) e show ?thesis by (auto split: if_splits)
  qed
  have "y \<in> questions s (key_canon sample_key)" by (simp add: y(1))
  then obtain j where j: "s_job s j = Some y" by (auto simp: questions_of_def)
  have a: "query_allowed (first_queries :: 'o query_scheduler) (Post some_env sample_key True :: 'o query_op)" using sample_key_ok by simp
  have "query_exec (Post some_env sample_key True :: 'o query_op) first_queries = Some s" using p by simp
  from query_reachable.operation [OF first_queries_ok(1) a this] have r: "query_reachable s" .
  then have c: "query_jobs_ok (s_job s)" using query_reachable_ok [of s] by (simp add: query_core_def)
  have u: "i = j" if "s_job s i = Some z" for i z
    using query_jobs_same [OF c that j] only [OF that] by simp
  have "\<exists>s'. avahi_query_scheduler_withdraw_by_id (q_id y) s = Some (s', q_n_posted y = 1) \<and> s_sent s' = s_sent s \<and>
    questions s' = (questions s)(key_canon (q_key y) := (if q_n_posted y = 1 then {} else {y\<lparr>q_n_posted := q_n_posted y - 1\<rparr>}))"
    by (rule query_withdraw_exact [OF r j y(3)]) (rule u)
  with y(2,4,5) p show ?thesis by auto
qed

subsection \<open>What is sent\<close>

text \<open>
  C15: when the timer of a scheduled query is due, one message is sent. It asks this question and others that
  were scheduled, each of them once, and these and no others are done now. Its packets carry known
  answers: nothing but records that the cache has for one of the questions, with more than half of
  their TTL left, and every such record that fits into a packet at all. All packets but the last have the
  TC flag, and the header of each counts what it carries.
\<close>

theorem query_message_exact:
  assumes "query_reachable s" "s_job s j = Some x" "j_state x = AVAHI_SCHEDULED" "cache_ok {} c" "cache_sendable c" "512 \<le> mtu"
  shows "\<exists>s' ks rss ps. query_elapse_callback v c mtu j s = Some s' \<and> s_sent s' = s_sent s @ ps \<and> asked v (q_key x # ks) s s' \<and>
    query_message (q_key x # ks) rss ps \<and> set (concat rss) \<subseteq> (\<Union>k \<in> set (q_key x # ks). known_answers v c k) \<and>
    (\<forall>r \<in> (\<Union>k \<in> set (q_key x # ks). known_answers v c k).
       AVAHI_DNS_PACKET_HEADER_SIZE + record_size r \<le> mtu - 48 \<longrightarrow> r \<in> set (concat rss))"
  using query_elapse_ok [OF query_reachable_ok [OF assms(1)] assms(2-6), of v] by blast

theorem query_message_exact_witness:
  "\<exists>(s :: 'o query_scheduler) s' j ks rss ps. avahi_query_scheduler_post some_env sample_key True first_queries = Some (s, Some 0) \<and>
    query_elapse_callback some_env (new_cache 10 0) 1500 j s = Some s' \<and> s_sent s' = s_sent s @ ps \<and>
    query_message (sample_key # ks) rss ps"
proof -
  have e: "questions (first_queries :: 'o query_scheduler) k = {}" for k by (rule first_queries_ok(3))
  have n: "q_next_id (first_queries :: 'o query_scheduler) = 0" by (simp add: first_queries_def avahi_query_scheduler_new_def)
  obtain s :: "'o query_scheduler" and y where
    p: "avahi_query_scheduler_post some_env sample_key True first_queries = Some (s, Some 0)"
    and y: "questions s = (questions (first_queries :: 'o query_scheduler))(key_canon sample_key := {y})" "j_state y = AVAHI_SCHEDULED" "q_key y = sample_key"
    using post_new_question [OF first_queries_ok(2) [where 'o = 'o] sample_key_ok e, of some_env True] unfolding n by metis
  have "y \<in> questions s (key_canon sample_key)" by (simp add: y(1))
  then obtain j where j: "s_job s j = Some y" by (auto simp: questions_of_def)
  have a: "query_allowed (first_queries :: 'o query_scheduler) (Post some_env sample_key True :: 'o query_op)" using sample_key_ok by simp
  have "query_exec (Post some_env sample_key True :: 'o query_op) first_queries = Some s" using p by simp
  from query_reachable.operation [OF first_queries_ok(1) a this] have r: "query_reachable s" .
  have "cache_sendable (new_cache 10 0)" by (simp add: cache_sendable_def new_cache_def avahi_cache_new_def)
  from query_message_exact [OF r j y(2) new_cache_ok(1) this, of 1500 some_env] p y(3) show ?thesis by auto
qed

end
