(* ===== verification/Spec2Isabelle.thy ===== *)
theory Spec2Isabelle
  imports Prelude Utf8 Domain Cstring Timeval Strlst Alternative Address Hashmap Prioq Timeeventq
    Domainutil Rr Dns Dnsread Dnswrite Dnsback Dnsmessage
    Rrlist Llist Loops Jobs Keychain Timers Cache Cacherun
    Zone Announce Entry Zoneinv Zoneannounce Zonewalk Zoneentry Zonerun Zonelife Zonerecords
    Dnssend Querysched Queryrun Querylife
begin

text \<open>
  The multicast DNS stack that QtGretio bundles: \<open>avahi-common\<close> and \<open>avahi-core\<close> under \<open>src/QtZeroConf\<close>, in C. The
  application only loads it through its Qt bindings; names, packets, the cache, publishing and the schedulers are the
  logic of the repository that can be proved, and they are what this library models.

  The parts and how they work together.

  A program publishes services as entries with one record each, in groups (entry.c). For every entry and
  every network interface an announcer (announce.c) probes three times whether the name is free, then announces the record.
  Probes, queries and responses wait in a scheduler of the interface (query-sched.c, probe-sched.c, response-sched.c),
  which puts as many as possible into one packet (dns.c) and leaves out what others have just asked or answered. Records
  that others announce go into the cache of the interface (cache.c), which asks again before a TTL is over and
  drops what is not refreshed. All of them wait in the one time event queue (timeeventq.c), a priority
  queue (prioq.c) behind a single timeout of the poll API, and find their objects through hash maps (hashmap.c)
  and intrusive lists (llist.h). Names are escaped strings with one canonical form (domain.c), texts are checked
  for UTF-8 (utf8.c), TXT data are string lists (strlst.c).

  Which theory models what. The functions keep their names from the code, unless a name clashes with one of HOL.

  \<^item> \<open>Prelude\<close>: bytes, C strings, \<open>outcome\<close> (None is an abort: a failed assert or a bad memory access), the
    collections of simplification rules and lemmas on lists and maps. \<open>Loops\<close>: loops over lists. \<open>Cstring\<close>: the C library.
  \<^item> avahi-common: \<open>Utf8\<close> (utf8.c), \<open>Domain\<close> (domain.c), \<open>Timeval\<close> (timeval.c), \<open>Strlst\<close> (strlst.c), \<open>Alternative\<close>
    (alternative.c), \<open>Address\<close> (address.c and core/addr-util.c, util.c), \<open>Llist\<close> (llist.h).
  \<^item> Containers of avahi-core: \<open>Hashmap\<close> (hashmap.c), \<open>Prioq\<close> (prioq.c, with its pointers), \<open>Timeeventq\<close> (timeeventq.c),
    \<open>Rrlist\<close> (rrlist.c). \<open>Timers\<close> and \<open>Keychain\<close> say what the owners of timers and the objects found by key rely on.
  \<^item> Records and packets: \<open>Domainutil\<close> (domain-util.c), \<open>Rr\<close> (rr.c), \<open>Dns\<close> (dns.c); \<open>Dnsread\<close>, \<open>Dnswrite\<close>, \<open>Dnsback\<close>, \<open>Dnsmessage\<close>
    and \<open>Dnssend\<close> hold its proofs: reading is safe, appending keeps the packet in order, what was appended is read back.
  \<^item> \<open>Cache\<close> (cache.c) and \<open>Cacherun\<close>: the cache as a table by canonical record, in runs with other users of the queue.
  \<^item> \<open>Zone\<close> (the data of internal.h, announce.h and iface.h that publishing needs), \<open>Announce\<close> (announce.c, and the parts
    of server.c that collect the records of an announcement), \<open>Entry\<close> (entry.c). \<open>Zoneinv\<close>, \<open>Zoneannounce\<close>, \<open>Zonewalk\<close>,
    \<open>Zoneentry\<close> show that each operation keeps the invariant, \<open>Zonerun\<close> has the reachable zones, \<open>Zonelife\<close> the lives
    of announcers and groups, \<open>Zonerecords\<close> what every entry that is published has been checked for.
  \<^item> \<open>Jobs\<close>: what the three schedulers share. \<open>Querysched\<close> (query-sched.c), \<open>Queryrun\<close> and \<open>Querylife\<close> with its proofs.

  How state corresponds. A pointer to an object is a number, the fields of the object are values of a function
  of it (\<open>option\<close> where objects are freed), so that using a freed object is an abort. The priority queue,
  the record list and the cache are modelled with their links; the hash map has its buckets as lists of entries, and from
  \<open>Zone\<close> and \<open>Jobs\<close> on a linked list is a list, which \<open>Llist\<close> justifies. Reference counts of
  keys and records are left out, as both are immutable. Integers have the width of the code where it matters:
  bytes, lengths, types, TTLs and ids are words, and sizes of buffers are natural numbers below bounds that are
  proved. What the clock and \<open>rand\<close> give during one operation is its argument \<open>env\<close>. Callbacks are arguments too; what is
  posted to other parts, notified or sent is a log in the state.

  What the lemmas show. Every component has an invariant that each of its operations keeps, and that lets each of them
  return: no assert fails and no freed or foreign memory is touched. The containers refine what they stand for: the
  hash map a map, the priority queue a table with a minimum, the time event queue a set of timers, the record list
  sequences, the cache a table. Locales state what a user of a hash map with keys needs of the equality and the
  hash (\<open>hash_key\<close>), and what a property of entries needs to survive every operation of a zone (\<open>entry_law\<close>); each is
  interpreted on what the code uses. Names, packets and string lists have their round
  trips. Where the code does not do what it means to, the theorem says what it does, and the manifest lists it as a finding.

  Bounds and fuel. Loops whose end is not structural are recursive functions with a measure, or partial functions over
  \<open>option\<close>, whose value is proved to exist: a result None is an abort or a loop without an end, and the theorems
  exclude both. The loop that follows compression pointers in \<open>Dns\<close> runs on the counter of the code itself
  (\<open>AVAHI_DNS_LABELS_MAX\<close>, 127 steps). A name that is written has at most 63 labels, as the type \<open>wire_name\<close> of names
  demands; it is the bound below which a reader with that counter can follow the pointers. The jitter is exact
  while the product stays below the precision of a double, as \<open>Timeval\<close> explains.

  Not modelled: running out of memory (a wrapper that aborts can be set, and the branches only log and return); asserts that
  a pointer is not NULL; sockets, netlink and the list of network devices (socket.c, netlink.c, iface-linux.c), which
  are calls of the operating system; the poll loops and threads (simple-watch.c, thread-watch.c); the schedulers of probes and
  responses (probe-sched.c, response-sched.c), whose jobs wait as those of query-sched.c do; the wide area lookups
  over unicast servers (wide-area.c) and the browsers and resolvers (browse-*.c, resolve-*.c), which pass events on between
  lookups and clients; the Bonjour client and the Qt and J2534 bindings, which are glue to other systems. server.c is
  modelled where publishing uses it.
\<close>

end
